(* ===== verification/Prelude.thy ===== *)
theory Prelude
  imports Main "HOL-Library.Word" "HOL-Library.Monad_Syntax" "HOL-Library.Multiset"
begin

text \<open>
  Shared vocabulary of the development.

  The modelled program is C, and three conventions are used for all of it.
  \<^item> A function that can fail an \<open>assert\<close>, call \<open>abort\<close> or dereference a null
    pointer returns an \<open>option\<close>: \<open>None\<close> means that the process stops there.  The
    \<open>do\<close> notation of the option monad then reads as the sequence of C statements.
  \<^item> A C return code stays a value (an \<open>int\<close>, or a pair with the new state).
  \<^item> A C array is a list; fields that the code only ever sets to non-negative
    values are \<open>nat\<close>, and machine words are used wherever wrap-around,
    shifting or masking matters.

  The rest of the theory holds the lemmas on counting positions, on list
  updates and on reductions modulo a ring size that several components share.
\<close>

named_theorems count_simps \<open>how updates of single positions change position counts\<close>
named_theorems ring_simps \<open>arithmetic of ring indices\<close>

type_synonym u8 = "8 word"
type_synonym u32 = "32 word"
type_synonym u64 = "64 word"

definition assert_opt :: "bool \<Rightarrow> unit option" where
  "assert_opt b = (if b then Some () else None)"

lemma assert_opt_simps [simp]:
  "assert_opt True = Some ()"
  "assert_opt False = None"
  by (simp_all add: assert_opt_def)

lemma assert_opt_bind_Some [simp]:
  "(assert_opt b \<bind> f = Some y) \<longleftrightarrow> b \<and> f () = Some y"
  by (simp add: assert_opt_def)

section \<open>Unsigned 32-bit arithmetic on natural numbers\<close>

text \<open>Counters of type \<open>u32\<close> that are only added to and subtracted from are kept as
  natural numbers below \<open>2 ^ 32\<close>, with the wrap-around of C written out.\<close>

definition u32_add :: "nat \<Rightarrow> nat \<Rightarrow> nat" where
  "u32_add a b = (a + b) mod 2 ^ 32"

definition u32_sub :: "nat \<Rightarrow> nat \<Rightarrow> nat" where
  "u32_sub a b = (a + (2 ^ 32 - b mod 2 ^ 32)) mod 2 ^ 32"

lemma u32_add_small: "a + b < 2 ^ 32 \<Longrightarrow> u32_add a b = a + b"
  by (simp add: u32_add_def)

lemma u32_sub_small: "b \<le> a \<Longrightarrow> a < 2 ^ 32 \<Longrightarrow> u32_sub a b = a - b"
proof -
  assume a: "b \<le> a" "a < 2 ^ 32"
  then have "a + (2 ^ 32 - b mod 2 ^ 32) = (a - b) + 2 ^ 32" by simp
  then have "u32_sub a b = ((a - b) + 2 ^ 32) mod 2 ^ 32" by (simp only: u32_sub_def)
  also have "\<dots> = a - b" using a by (simp only: mod_add_self2) simp
  finally show ?thesis .
qed

section \<open>Cyclic search\<close>

text \<open>The search loop several allocators share: look at \<open>k\<close> positions of a table of
  \<open>n\<close>, from \<open>i\<close> on and around the end, and stop at the first that satisfies \<open>P\<close>.\<close>

fun cyc_find :: "(nat \<Rightarrow> bool) \<Rightarrow> nat \<Rightarrow> nat \<Rightarrow> nat \<Rightarrow> nat option" where
  "cyc_find P n i 0 = None"
| "cyc_find P n i (Suc k) = (if P i then Some i else cyc_find P n ((i + 1) mod n) k)"

lemma cyc_find_sound: "cyc_find P n i k = Some j \<Longrightarrow> i < n \<Longrightarrow> j < n \<and> P j"
  by (induction k arbitrary: i) (auto split: if_splits)

lemma cyc_find_skip:
  assumes "cyc_find P n i k = None" "d < k" "i < n"
  shows "\<not> P ((i + d) mod n)"
  using assms
proof (induction k arbitrary: i d)
  case (Suc k)
  show ?case
  proof (cases d)
    case 0
    with Suc.prems show ?thesis by (auto split: if_splits)
  next
    case (Suc e)
    with Suc.prems Suc.IH [of "(i + 1) mod n" e] show ?thesis
      by (auto split: if_splits simp: mod_add_left_eq)
  qed
qed simp

lemma cyc_offset:
  assumes "(i::nat) < n" "j < n"
  shows "\<exists>d<n. (i + d) mod n = j"
proof (cases "i \<le> j")
  case True
  then have "(i + (j - i)) mod n = j" "j - i < n" using assms(2) by simp_all
  then show ?thesis by blast
next
  case False
  then have "(i + (j + n - i)) mod n = j" "j + n - i < n" using assms by simp_all
  then show ?thesis by blast
qed

lemma cyc_find_None:
  assumes "cyc_find P n i n = None" "i < n" "j < n"
  shows "\<not> P j"
  using cyc_offset [OF assms(2,3)] cyc_find_skip [OF assms(1) _ assms(2)] by auto

section \<open>Counting positions\<close>

definition count_pos :: "(nat \<Rightarrow> bool) \<Rightarrow> nat \<Rightarrow> nat" where
  "count_pos P n = length (filter P [0..<n])"

lemma count_pos_0 [simp]: "count_pos P 0 = 0"
  by (simp add: count_pos_def)

lemma count_pos_Suc: "count_pos P (Suc n) = count_pos P n + (if P n then 1 else 0)"
  by (simp add: count_pos_def)

lemma count_pos_card: "count_pos P n = card {i. i < n \<and> P i}"
proof -
  have "count_pos P n = card (set (filter P [0..<n]))"
    unfolding count_pos_def by (rule distinct_card [symmetric]) simp
  also have "set (filter P [0..<n]) = {i. i < n \<and> P i}" by auto
  finally show ?thesis .
qed

lemma count_pos_le: "count_pos P n \<le> n"
  unfolding count_pos_def by (rule order_trans [OF length_filter_le]) simp

lemma count_pos_cong:
  "(\<And>i. i < n \<Longrightarrow> P i = Q i) \<Longrightarrow> count_pos P n = count_pos Q n"
  unfolding count_pos_def by (rule arg_cong [of _ _ length], rule filter_cong) auto

lemma count_pos_pos_iff: "0 < count_pos P n \<longleftrightarrow> (\<exists>i<n. P i)"
  unfolding count_pos_card by (auto simp: card_gt_0_iff)

lemma count_pos_eq_0_iff: "count_pos P n = 0 \<longleftrightarrow> (\<forall>i<n. \<not> P i)"
  using count_pos_pos_iff [of P n] by auto

lemma count_pos_all: "(\<And>i. i < n \<Longrightarrow> P i) \<Longrightarrow> count_pos P n = n"
  unfolding count_pos_def by (subst filter_True) auto

text \<open>The two updates every allocator performs: one position leaves the counted
  set, or one position enters it.\<close>

lemma count_pos_remove [count_simps]:
  assumes "i < n" "P i"
  shows "count_pos (\<lambda>j. j \<noteq> i \<and> P j) n = count_pos P n - 1"
proof -
  have "{j. j < n \<and> j \<noteq> i \<and> P j} = {j. j < n \<and> P j} - {i}" by auto
  then show ?thesis using assms by (simp add: count_pos_card)
qed

lemma count_pos_insert [count_simps]:
  assumes "i < n" "\<not> P i"
  shows "count_pos (\<lambda>j. j = i \<or> P j) n = Suc (count_pos P n)"
proof -
  have "{j. j < n \<and> (j = i \<or> P j)} = insert i {j. j < n \<and> P j}"
    using assms(1) by auto
  then show ?thesis using assms by (simp add: count_pos_card)
qed

lemma count_pos_compl: "count_pos P n + count_pos (\<lambda>i. \<not> P i) n = n"
  by (induction n) (auto simp: count_pos_Suc)

lemma count_pos_ge: "count_pos (\<lambda>i. k \<le> i) n = n - k"
  by (induction n) (auto simp: count_pos_Suc)

section \<open>Ring indices\<close>

lemma ring_next_eq [ring_simps]:
  "i < (n::nat) \<Longrightarrow> Suc i mod n = (if Suc i = n then 0 else Suc i)"
  by (simp add: mod_Suc)

lemma ring_off_eq [ring_simps]:
  assumes "(t::nat) < n" "k < n"
  shows "(t + k) mod n = (if t + k < n then t + k else t + k - n)"
proof (cases "t + k < n")
  case False
  then have "(t + k) mod n = (t + k - n) mod n" by (simp add: le_mod_geq)
  also have "\<dots> = t + k - n" using assms by simp
  finally show ?thesis using False by simp
qed simp

end
