(* ===== verification/Bitmap.thy ===== *)
theory Bitmap
  imports Prelude
begin

text \<open>
  The bit operations of \<open>nvfuse_dep.c\<close> on a byte array: \<open>ext2fs_set_bit\<close>,
  \<open>ext2fs_clear_bit\<close> and \<open>ext2fs_test_bit\<close>.  Every free-space structure of the
  file system (inode bitmap, data bitmap, node bitmap of a directory index,
  control-plane bitmap) is read and written through them, so their contract is
  stated as the locale \<open>bit_store\<close>; the clients' counting lemmas are proved once
  there and obtained by interpretation.

  Bit \<open>nr\<close> is bit \<open>nr & 7\<close> of byte \<open>nr >> 3\<close>.  A C access outside of the array
  is undefined; here a write outside changes nothing, and every lemma carries
  the bound.
\<close>

unbundle bit_operations_syntax

section \<open>The contract of a bit store\<close>

locale bit_store =
  fixes get :: "'b \<Rightarrow> nat \<Rightarrow> bool"
    and put1 :: "nat \<Rightarrow> 'b \<Rightarrow> 'b"
    and put0 :: "nat \<Rightarrow> 'b \<Rightarrow> 'b"
    and cap :: "'b \<Rightarrow> nat"
  assumes get_put1: "i < cap b \<Longrightarrow> j < cap b \<Longrightarrow> get (put1 i b) j \<longleftrightarrow> j = i \<or> get b j"
    and get_put0: "i < cap b \<Longrightarrow> j < cap b \<Longrightarrow> get (put0 i b) j \<longleftrightarrow> j \<noteq> i \<and> get b j"
    and cap_put1: "cap (put1 i b) = cap b"
    and cap_put0: "cap (put0 i b) = cap b"
begin

lemma clear_count_put1:
  assumes "i < n" "n \<le> cap b" "\<not> get b i"
  shows "count_pos (\<lambda>j. \<not> get (put1 i b) j) n = count_pos (\<lambda>j. \<not> get b j) n - 1"
proof -
  have "count_pos (\<lambda>j. \<not> get (put1 i b) j) n = count_pos (\<lambda>j. j \<noteq> i \<and> \<not> get b j) n"
    by (rule count_pos_cong) (use assms get_put1 in auto)
  with assms show ?thesis by (simp add: count_simps)
qed

lemma clear_count_put0:
  assumes "i < n" "n \<le> cap b" "get b i"
  shows "count_pos (\<lambda>j. \<not> get (put0 i b) j) n = Suc (count_pos (\<lambda>j. \<not> get b j) n)"
proof -
  have "count_pos (\<lambda>j. \<not> get (put0 i b) j) n = count_pos (\<lambda>j. j = i \<or> \<not> get b j) n"
    by (rule count_pos_cong) (use assms get_put0 in auto)
  with assms show ?thesis by (simp add: count_simps)
qed

lemma put1_put0_get:
  "i < cap b \<Longrightarrow> j < cap b \<Longrightarrow> \<not> get b i \<Longrightarrow> get (put0 i (put1 i b)) j = get b j"
  using get_put0 [of i "put1 i b" j] get_put1 [of i b j] by (auto simp: cap_put1)

text \<open>Setting and then clearing a range of positions, as a loop does it.\<close>

lemma get_fold_put1:
  assumes "\<forall>i\<in>set is. i < cap b" "j < cap b"
  shows "get (fold put1 is b) j \<longleftrightarrow> j \<in> set is \<or> get b j"
  using assms
proof (induction "is" arbitrary: b)
  case (Cons i "is")
  then show ?case using get_put1 [of i b j] by (auto simp: cap_put1)
qed simp

lemma cap_fold_put1: "cap (fold put1 is b) = cap b"
  by (induction "is" arbitrary: b) (simp_all add: cap_put1)

lemma get_fold_put0:
  assumes "\<forall>i\<in>set is. i < cap b" "j < cap b"
  shows "get (fold put0 is b) j \<longleftrightarrow> j \<notin> set is \<and> get b j"
  using assms
proof (induction "is" arbitrary: b)
  case (Cons i "is")
  then show ?case using get_put0 [of i b j] by (auto simp: cap_put0)
qed simp

lemma cap_fold_put0: "cap (fold put0 is b) = cap b"
  by (induction "is" arbitrary: b) (simp_all add: cap_put0)

end

section \<open>The operations of the source\<close>

type_synonym bitmap = "u8 list"

definition bit_mask :: "nat \<Rightarrow> u8" where
  "bit_mask nr = push_bit (nr mod 8) 1"

definition ext2fs_set_bit :: "nat \<Rightarrow> bitmap \<Rightarrow> u8 \<times> bitmap" where
  "ext2fs_set_bit nr addr =
     (let byte = addr ! (nr div 8) in
      (bit_mask nr AND byte, addr[nr div 8 := byte OR bit_mask nr]))"

definition ext2fs_clear_bit :: "nat \<Rightarrow> bitmap \<Rightarrow> u8 \<times> bitmap" where
  "ext2fs_clear_bit nr addr =
     (let byte = addr ! (nr div 8) in
      (bit_mask nr AND byte, addr[nr div 8 := byte AND NOT (bit_mask nr)]))"

definition ext2fs_test_bit :: "nat \<Rightarrow> bitmap \<Rightarrow> u8" where
  "ext2fs_test_bit nr addr = bit_mask nr AND addr ! (nr div 8)"

text \<open>The condition \<open>if (ext2fs_test_bit(nr, addr))\<close> and the array after the call.\<close>

abbreviation tst :: "bitmap \<Rightarrow> nat \<Rightarrow> bool" where
  "tst addr nr \<equiv> ext2fs_test_bit nr addr \<noteq> 0"

abbreviation bset :: "nat \<Rightarrow> bitmap \<Rightarrow> bitmap" where
  "bset nr addr \<equiv> snd (ext2fs_set_bit nr addr)"

abbreviation bclr :: "nat \<Rightarrow> bitmap \<Rightarrow> bitmap" where
  "bclr nr addr \<equiv> snd (ext2fs_clear_bit nr addr)"

abbreviation bits :: "bitmap \<Rightarrow> nat" where
  "bits addr \<equiv> 8 * length addr"

lemma bit_bit_mask [simp]: "bit (bit_mask nr) k \<longleftrightarrow> k = nr mod 8"
proof -
  have "nr mod 8 < 8" by simp
  then show ?thesis
    unfolding bit_mask_def by (auto simp: bit_simps)
qed

lemma tst_iff_bit: "tst addr nr \<longleftrightarrow> bit (addr ! (nr div 8)) (nr mod 8)"
proof
  assume "tst addr nr"
  then obtain k where "bit (bit_mask nr AND addr ! (nr div 8)) k"
    unfolding ext2fs_test_bit_def by (metis bit_0_eq bit_word_eqI bot_apply bot_bool_def)
  then show "bit (addr ! (nr div 8)) (nr mod 8)" by (auto simp: bit_and_iff)
next
  assume "bit (addr ! (nr div 8)) (nr mod 8)"
  then have "bit (ext2fs_test_bit nr addr) (nr mod 8)"
    unfolding ext2fs_test_bit_def by (simp add: bit_and_iff)
  then show "tst addr nr" by (metis bit_0_eq bot_apply bot_bool_def)
qed

lemma old_bit_returned:
  "fst (ext2fs_set_bit nr addr) = ext2fs_test_bit nr addr"
  "fst (ext2fs_clear_bit nr addr) = ext2fs_test_bit nr addr"
  by (simp_all add: ext2fs_set_bit_def ext2fs_clear_bit_def ext2fs_test_bit_def Let_def)

lemma length_bset [simp]: "length (bset i b) = length b"
  by (simp add: ext2fs_set_bit_def Let_def)

lemma length_bclr [simp]: "length (bclr i b) = length b"
  by (simp add: ext2fs_clear_bit_def Let_def)

lemma same_bit_iff: "(i::nat) = j \<longleftrightarrow> i div 8 = j div 8 \<and> i mod 8 = j mod 8"
  by (metis mult_div_mod_eq)

lemma tst_bset:
  assumes "i < bits b" "j < bits b"
  shows "tst (bset i b) j \<longleftrightarrow> j = i \<or> tst b j"
proof -
  have "i div 8 < length b" using assms by auto
  moreover have "j mod 8 < 8" by simp
  ultimately show ?thesis using assms same_bit_iff [of j i]
    unfolding tst_iff_bit
    by (cases "i div 8 = j div 8") (auto simp: ext2fs_set_bit_def Let_def bit_or_iff)
qed

lemma tst_bclr:
  assumes "i < bits b" "j < bits b"
  shows "tst (bclr i b) j \<longleftrightarrow> j \<noteq> i \<and> tst b j"
proof -
  have "i div 8 < length b" using assms by auto
  moreover have "j mod 8 < 8" by simp
  ultimately show ?thesis using assms same_bit_iff [of j i]
    unfolding tst_iff_bit
    by (cases "i div 8 = j div 8")
      (auto simp: ext2fs_clear_bit_def Let_def bit_and_iff bit_not_iff)
qed

interpretation bm: bit_store tst bset bclr bits
  by unfold_locales (use tst_bset tst_bclr in auto)

lemma tst_zero [simp]: "n < bits (replicate k 0) \<Longrightarrow> \<not> tst (replicate k 0) n"
  unfolding tst_iff_bit by (auto simp: less_mult_imp_div_less)

section \<open>Properties\<close>

text \<open>setting bit \<open>i\<close> of a byte array returns the old bit, makes bit \<open>i\<close> and no
  other bit true, and clearing it again restores every bit of the array when
  the bit was clear before; so a set/clear pair is the identity on the bitmap.\<close>

lemma set_clear_bit_correct:
  assumes "i < 8 * length b" "j < 8 * length b"
  shows "(fst (ext2fs_set_bit i b) \<noteq> 0 \<longleftrightarrow> ext2fs_test_bit i b \<noteq> 0)
    \<and> (ext2fs_test_bit j (snd (ext2fs_set_bit i b)) \<noteq> 0 \<longleftrightarrow> j = i \<or> ext2fs_test_bit j b \<noteq> 0)
    \<and> (ext2fs_test_bit j (snd (ext2fs_clear_bit i b)) \<noteq> 0 \<longleftrightarrow> j \<noteq> i \<and> ext2fs_test_bit j b \<noteq> 0)
    \<and> (ext2fs_test_bit i b = 0 \<longrightarrow>
         (ext2fs_test_bit j (snd (ext2fs_clear_bit i (snd (ext2fs_set_bit i b)))) \<noteq> 0
          \<longleftrightarrow> ext2fs_test_bit j b \<noteq> 0))"
  using tst_bset [OF assms] tst_bclr [OF assms] old_bit_returned [of i b]
    bm.put1_put0_get [OF assms]
  by simp

lemma set_clear_bit_correct_witness:
  "ext2fs_test_bit 9 (snd (ext2fs_set_bit 9 [0, 0 :: u8])) \<noteq> 0"
  using set_clear_bit_correct [of 9 "[0, 0 :: u8]" 9] by simp

end
