(* ===== verification/Reactor.thy ===== *)
theory Reactor
  imports Prelude
begin

text \<open>
  The request rings of \<open>nvfuse_reactor.c\<close>.  A \<open>reactor_task\<close> has a submission
  ring \<open>sq\<close> and a completion ring \<open>cq\<close> of \<open>REACTOR_MAX_REQUEST\<close> slots, of which
  the first \<open>qdepth\<close> are used; \<open>head\<close> is the producer's index and \<open>tail\<close> the
  consumer's, and one slot stays empty to tell a full ring from an empty one.

  The locale \<open>bounded_fifo\<close> is the contract of such a ring (a list of at most
  \<open>room\<close> elements, first in first out).  Both rings of the task are
  interpretations of it; \<open>reactor_submit_reqs\<close>, \<open>reactor_submit_on_core\<close> and
  \<open>reactor_cq_get_reqs\<close> are clients.

  A pointer to an \<open>io_job\<close> in a slot is modelled by the job's value (\<open>None\<close> is
  the null pointer), and the buffer of a job by its position in the buffer of the caller: a job is owned by exactly one ring or by the device at any
  time.  Mutexes and condition variables serialise the operations and are not
  part of the state; a wait is the outcome \<open>CqWait\<close>.  The block device of SPDK
  is a parameter: whether it accepts a request, and in which order it completes
  the accepted ones.
\<close>

section \<open>The contract of a ring\<close>

locale bounded_fifo =
  fixes put :: "'q \<Rightarrow> 'j \<Rightarrow> int \<times> 'q"
    and get :: "'q \<Rightarrow> 'j option \<times> 'q"
    and contents :: "'q \<Rightarrow> 'j list"
    and room :: "'q \<Rightarrow> nat"
    and inv :: "'q \<Rightarrow> bool"
  assumes put_ok: "inv q \<Longrightarrow> length (contents q) < room q \<Longrightarrow>
      fst (put q x) = 0 \<and> contents (snd (put q x)) = contents q @ [x]
      \<and> inv (snd (put q x)) \<and> room (snd (put q x)) = room q"
    and put_full: "inv q \<Longrightarrow> length (contents q) = room q \<Longrightarrow> put q x = (-1, q)"
    and get_none: "inv q \<Longrightarrow> contents q = [] \<Longrightarrow> get q = (None, q)"
    and get_some: "inv q \<Longrightarrow> contents q = x # xs \<Longrightarrow>
      fst (get q) = Some x \<and> contents (snd (get q)) = xs
      \<and> inv (snd (get q)) \<and> room (snd (get q)) = room q"
    and bounded: "inv q \<Longrightarrow> length (contents q) \<le> room q"
begin

fun puts :: "'q \<Rightarrow> 'j list \<Rightarrow> int \<times> 'q" where
  "puts q [] = (0, q)"
| "puts q (x # xs) = (let (r, q') = put q x in if r < 0 then (-1, q') else puts q' xs)"

fun gets :: "nat \<Rightarrow> 'q \<Rightarrow> 'j list \<times> 'q" where
  "gets 0 q = ([], q)"
| "gets (Suc n) q =
    (case get q of (None, q') \<Rightarrow> ([], q')
     | (Some x, q') \<Rightarrow> (let (xs, q'') = gets n q' in (x # xs, q'')))"

lemma puts_ok:
  assumes "inv q" "length (contents q) + length xs \<le> room q"
  shows "fst (puts q xs) = 0 \<and> contents (snd (puts q xs)) = contents q @ xs
    \<and> inv (snd (puts q xs)) \<and> room (snd (puts q xs)) = room q"
  using assms
proof (induction xs arbitrary: q)
  case (Cons x xs)
  obtain r q' where p: "put q x = (r, q')" by fastforce
  with Cons.prems put_ok [of q x] have "r = 0" "contents q' = contents q @ [x]" "inv q'"
    "room q' = room q" by auto
  with Cons.IH [of q'] Cons.prems p show ?case by simp
qed simp

lemma puts_full:
  assumes "inv q" "room q < length (contents q) + length xs"
  shows "fst (puts q xs) = -1"
  using assms
proof (induction xs arbitrary: q)
  case Nil
  then show ?case using bounded [of q] by simp
next
  case (Cons x xs)
  show ?case
  proof (cases "length (contents q) = room q")
    case True
    with Cons.prems put_full show ?thesis by simp
  next
    case False
    with Cons.prems bounded [of q] have lt: "length (contents q) < room q" by simp
    obtain r q' where p: "put q x = (r, q')" by fastforce
    with put_ok [OF Cons.prems(1) lt, of x] Cons.IH [of q'] Cons.prems show ?thesis by simp
  qed
qed

lemma gets_take:
  assumes "inv q"
  shows "fst (gets n q) = take n (contents q) \<and> contents (snd (gets n q)) = drop n (contents q)
    \<and> inv (snd (gets n q)) \<and> room (snd (gets n q)) = room q"
  using assms
proof (induction n arbitrary: q)
  case (Suc n)
  show ?case
  proof (cases "contents q")
    case Nil
    then show ?thesis using get_none [OF Suc.prems] Suc.prems by simp
  next
    case (Cons x xs)
    obtain r q' where g: "get q = (r, q')" by fastforce
    with get_some [OF Suc.prems Cons] have "r = Some x" "contents q' = xs" "inv q'"
      "room q' = room q" by auto
    with Suc.IH [of q'] Cons g show ?thesis by (auto split: prod.splits)
  qed
qed simp

end

section \<open>The task and its operations\<close>

definition REACTOR_MAX_REQUEST :: nat where "REACTOR_MAX_REQUEST = 1024"
definition NV_BLOCK_SIZE :: int where "NV_BLOCK_SIZE = 4096"

datatype io_type = IO_READ | IO_WRITE | IO_FLUSH | IO_OTHER

record io_job =
  job_offset :: int
  job_bytes :: int
  job_iov_len :: int
  job_iovcnt :: nat
  job_req_type :: io_type
  job_ret :: int
  job_buf :: int
  job_complete :: bool
  job_tag1 :: nat

record reactor_task =
  qdepth :: nat
  sq :: "io_job option list"
  sq_head :: nat
  sq_tail :: nat
  cq :: "io_job option list"
  cq_head :: nat
  cq_tail :: nat

definition reactor_sq_is_empty :: "reactor_task \<Rightarrow> bool" where
  "reactor_sq_is_empty task = (sq_head task = sq_tail task)"

definition reactor_sq_is_full :: "reactor_task \<Rightarrow> bool" where
  "reactor_sq_is_full task =
     (if sq_tail task \<le> sq_head task
      then sq_head task - sq_tail task = qdepth task - 1
      else sq_head task + 1 = sq_tail task)"

definition reactor_cq_is_empty :: "reactor_task \<Rightarrow> bool" where
  "reactor_cq_is_empty task = (cq_head task = cq_tail task)"

definition reactor_sq_size :: "reactor_task \<Rightarrow> nat" where
  "reactor_sq_size task =
     (if sq_tail task \<le> sq_head task then sq_head task - sq_tail task
      else qdepth task - sq_tail task + sq_head task)"

definition reactor_cq_is_full :: "reactor_task \<Rightarrow> bool" where
  "reactor_cq_is_full task =
     (if cq_tail task \<le> cq_head task
      then cq_head task - cq_tail task = qdepth task - 1
      else cq_head task + 1 = cq_tail task)"

definition reactor_cq_size :: "reactor_task \<Rightarrow> nat" where
  "reactor_cq_size task =
     (if cq_tail task \<le> cq_head task then cq_head task - cq_tail task
      else qdepth task - cq_tail task + cq_head task)"

definition reactor_sq_get_req :: "reactor_task \<Rightarrow> io_job option \<times> reactor_task" where
  "reactor_sq_get_req task =
     (if reactor_sq_is_empty task then (None, task)
      else (sq task ! sq_tail task,
            task\<lparr>sq := (sq task)[sq_tail task := None],
                 sq_tail := (sq_tail task + 1) mod qdepth task\<rparr>))"

definition reactor_sq_put_req :: "reactor_task \<Rightarrow> io_job \<Rightarrow> int \<times> reactor_task" where
  "reactor_sq_put_req task req =
     (if reactor_sq_is_full task then (-1, task)
      else (0, task\<lparr>sq := (sq task)[sq_head task := Some req],
                    sq_head := (sq_head task + 1) mod qdepth task\<rparr>))"

definition reactor_cq_put_req :: "reactor_task \<Rightarrow> io_job \<Rightarrow> int \<times> reactor_task" where
  "reactor_cq_put_req task req =
     (if reactor_cq_is_full task then (-1, task)
      else (0, task\<lparr>cq := (cq task)[cq_head task := Some req],
                    cq_head := (cq_head task + 1) mod qdepth task\<rparr>))"

text \<open>\<open>reactor_alloc_task\<close>: the pool hands out a task with arbitrary old
  contents, of which the first \<open>qdepth\<close> slots of each ring are cleared.\<close>

definition clear_slots :: "nat \<Rightarrow> 'a option list \<Rightarrow> 'a option list" where
  "clear_slots n xs = fold (\<lambda>i ys. ys[i := None]) [0..<n] xs"

definition reactor_alloc_task :: "reactor_task \<Rightarrow> nat \<Rightarrow> reactor_task option" where
  "reactor_alloc_task old qd =
     (if qd + 1 > REACTOR_MAX_REQUEST then None
      else Some (old\<lparr>qdepth := qd + 1,
                     sq := clear_slots qd (sq old), sq_head := 0, sq_tail := 0,
                     cq := clear_slots qd (cq old), cq_head := 0, cq_tail := 0\<rparr>))"

definition reactor_make_single_req :: "io_job \<Rightarrow> int \<Rightarrow> int \<Rightarrow> io_type \<Rightarrow> io_job" where
  "reactor_make_single_req old offset bytes ty =
     old\<lparr>job_offset := offset, job_bytes := bytes, job_iov_len := bytes,
         job_iovcnt := 1, job_req_type := ty\<rparr>"

fun submit_puts :: "reactor_task \<Rightarrow> io_job list \<Rightarrow> int \<times> reactor_task" where
  "submit_puts task [] = (0, task)"
| "submit_puts task (req # reqs) =
    (let (r, task') = reactor_sq_put_req task req in
     if r < 0 then (-1, task') else submit_puts task' reqs)"

definition reactor_submit_reqs :: "nat \<Rightarrow> reactor_task \<Rightarrow> io_job list \<Rightarrow> (int \<times> reactor_task) option" where
  "reactor_submit_reqs lcore task reqs =
     (let (r, task') = submit_puts task reqs in
      if r < 0 then Some (-1, task')
      else if lcore = 0 then Some (0, task') else None)"

text \<open>One slot of the completion ring is taken per iteration of the copying loop.\<close>

definition cq_take1 :: "reactor_task \<Rightarrow> io_job option \<times> reactor_task" where
  "cq_take1 task =
     (cq task ! cq_tail task,
      task\<lparr>cq := (cq task)[cq_tail task := None],
           cq_tail := (cq_tail task + 1) mod qdepth task\<rparr>)"

fun cq_take_loop :: "nat \<Rightarrow> reactor_task \<Rightarrow> io_job option list \<times> reactor_task" where
  "cq_take_loop 0 task = ([], task)"
| "cq_take_loop (Suc n) task =
    (let (r, task') = cq_take1 task; (rs, task'') = cq_take_loop n task' in (r # rs, task''))"

datatype cq_outcome =
    CqInvalid
  | CqAssert
  | CqWait
  | CqGot "io_job option list" reactor_task

definition reactor_cq_get_reqs :: "reactor_task \<Rightarrow> nat \<Rightarrow> nat \<Rightarrow> cq_outcome" where
  "reactor_cq_get_reqs task min_reqs max_reqs =
     (if min_reqs = 0 then CqInvalid
      else if max_reqs > qdepth task then CqAssert
      else if reactor_cq_size task < min_reqs then CqWait
      else let n = reactor_cq_size task;
               n = (if n > max_reqs then max_reqs else n);
               (rs, task') = cq_take_loop n task
           in CqGot rs task')"

text \<open>\<open>reactor_submit_on_core\<close> empties the submission ring into the device; the
  list \<open>dev\<close> holds the requests the device has accepted and not yet completed.
  A refused request or an unknown type fails an assertion.\<close>

definition dev_submit :: "(io_job \<Rightarrow> bool) \<Rightarrow> io_job \<Rightarrow> bool" where
  "dev_submit accepts req = (job_iovcnt req \<noteq> 0 \<and> job_req_type req \<noteq> IO_OTHER \<and> accepts req)"

fun submit_loop :: "nat \<Rightarrow> (io_job \<Rightarrow> bool) \<Rightarrow> reactor_task \<Rightarrow> io_job list
    \<Rightarrow> (reactor_task \<times> io_job list) option" where
  "submit_loop fuel accepts task dev =
    (case reactor_sq_get_req task of
       (None, task') \<Rightarrow> Some (task', dev)
     | (Some req, task') \<Rightarrow>
         (if \<not> dev_submit accepts req then None
          else case fuel of 0 \<Rightarrow> None
               | Suc n \<Rightarrow> submit_loop n accepts task' (dev @ [req])))"

declare submit_loop.simps [simp del]

definition reactor_submit_on_core :: "(io_job \<Rightarrow> bool) \<Rightarrow> reactor_task \<Rightarrow> io_job list
    \<Rightarrow> (reactor_task \<times> io_job list) option" where
  "reactor_submit_on_core accepts task dev = submit_loop (qdepth task) accepts task dev"

text \<open>The completion callback; a failed device request aborts the process, and the
  result of putting the job on the completion ring is ignored by the code.\<close>

record io_target =
  io_completed :: int
  current_queue_depth :: int

definition reactor_bio_cb :: "bool \<Rightarrow> io_target \<Rightarrow> reactor_task \<Rightarrow> io_job
    \<Rightarrow> (io_target \<times> reactor_task) option" where
  "reactor_bio_cb success target task req =
     (if \<not> success then None
      else Some (target\<lparr>current_queue_depth := current_queue_depth target - 1,
                        io_completed := io_completed target + 1\<rparr>,
                 snd (reactor_cq_put_req task (req\<lparr>job_ret := 0\<rparr>))))"

section \<open>Rings as lists\<close>

definition ring_size :: "nat \<Rightarrow> nat \<Rightarrow> nat \<Rightarrow> nat" where
  "ring_size q h t = (if t \<le> h then h - t else q - t + h)"

definition ring_list :: "nat \<Rightarrow> 'a option list \<Rightarrow> nat \<Rightarrow> nat \<Rightarrow> 'a list" where
  "ring_list q buf h t = map (\<lambda>i. the (buf ! ((t + i) mod q))) [0..<ring_size q h t]"

definition ring_ok :: "nat \<Rightarrow> 'a option list \<Rightarrow> nat \<Rightarrow> nat \<Rightarrow> bool" where
  "ring_ok q buf h t \<longleftrightarrow> 0 < q \<and> q \<le> length buf \<and> h < q \<and> t < q
     \<and> (\<forall>i < ring_size q h t. buf ! ((t + i) mod q) \<noteq> None)"

lemma ring_size_less: "h < q \<Longrightarrow> t < q \<Longrightarrow> ring_size q h t < q"
  by (auto simp: ring_size_def)

lemma ring_size_add: "h < q \<Longrightarrow> t < q \<Longrightarrow> (t + ring_size q h t) mod q = h"
  by (auto simp: ring_size_def)

lemma ring_slot_neq:
  assumes "h < q" "t < q" "i < ring_size q h t"
  shows "(t + i) mod q \<noteq> h"
  using assms ring_size_less [of h q t]
  by (auto simp: ring_off_eq ring_size_def split: if_splits)

lemma ring_size_head:
  assumes "h < q" "t < q" "ring_size q h t < q - 1"
  shows "ring_size q ((h + 1) mod q) t = Suc (ring_size q h t)"
  using assms by (auto simp: ring_size_def ring_next_eq split: if_splits)

lemma ring_size_tail:
  assumes "h < q" "t < q" "h \<noteq> t"
  shows "ring_size q h ((t + 1) mod q) = ring_size q h t - 1"
  using assms by (auto simp: ring_size_def ring_next_eq split: if_splits)

lemma ring_size_0_iff: "h < q \<Longrightarrow> t < q \<Longrightarrow> ring_size q h t = 0 \<longleftrightarrow> h = t"
  by (auto simp: ring_size_def)

lemma ring_put:
  assumes ok: "ring_ok q buf h t" and room: "ring_size q h t < q - 1"
  shows "ring_list q (buf[h := Some x]) ((h + 1) mod q) t = ring_list q buf h t @ [x]"
    and "ring_ok q (buf[h := Some x]) ((h + 1) mod q) t"
proof -
  have b: "h < q" "t < q" "h < length buf" using ok by (auto simp: ring_ok_def)
  have sz: "ring_size q ((h + 1) mod q) t = Suc (ring_size q h t)"
    by (rule ring_size_head) (use b room in auto)
  have old: "buf[h := Some x] ! ((t + i) mod q) = buf ! ((t + i) mod q)"
    if "i < ring_size q h t" for i
    using ring_slot_neq [OF b(1,2) that] by simp
  show "ring_list q (buf[h := Some x]) ((h + 1) mod q) t = ring_list q buf h t @ [x]"
    unfolding ring_list_def sz using old b ring_size_add [OF b(1,2)] by simp
  show "ring_ok q (buf[h := Some x]) ((h + 1) mod q) t"
    unfolding ring_ok_def sz using ok old b ring_size_add [OF b(1,2)]
    by (auto simp: ring_ok_def less_Suc_eq)
qed

lemma ring_get:
  assumes ok: "ring_ok q buf h t" and ne: "h \<noteq> t"
  shows "ring_list q buf h t = the (buf ! t) # ring_list q (buf[t := None]) h ((t + 1) mod q)"
    and "ring_ok q (buf[t := None]) h ((t + 1) mod q)"
    and "buf ! t \<noteq> None"
proof -
  have b: "h < q" "t < q" "t < length buf" using ok by (auto simp: ring_ok_def)
  define m where "m = ring_size q h ((t + 1) mod q)"
  have sz: "ring_size q h t = Suc m"
    unfolding m_def using ring_size_tail [OF b(1,2) ne] ring_size_0_iff [OF b(1,2)] ne by simp
  have idx: "((t + 1) mod q + i) mod q = (t + Suc i) mod q" for i
    by (simp add: mod_add_left_eq)
  have ne_t: "(t + Suc i) mod q \<noteq> t" if "i < m" for i
  proof -
    have "Suc i < q" using that sz ring_size_less [OF b(1,2)] by simp
    then show ?thesis using ring_off_eq [of t q "Suc i"] b by auto
  qed
  have old: "buf[t := None] ! (((t + 1) mod q + i) mod q) = buf ! ((t + Suc i) mod q)"
    if "i < m" for i using idx ne_t [OF that] by simp
  have "ring_list q buf h t = map (\<lambda>i. the (buf ! ((t + i) mod q))) (0 # map Suc [0..<m])"
    unfolding ring_list_def sz by (simp add: upt_conv_Cons map_Suc_upt del: upt_Suc)
  also have "\<dots> = the (buf ! t) # ring_list q (buf[t := None]) h ((t + 1) mod q)"
    unfolding ring_list_def m_def [symmetric] using old b by simp
  finally show "ring_list q buf h t = the (buf ! t) # ring_list q (buf[t := None]) h ((t + 1) mod q)" .
  have all: "buf ! ((t + i) mod q) \<noteq> None" if "i < ring_size q h t" for i
    using ok that by (simp add: ring_ok_def)
  show "buf ! t \<noteq> None" using all [of 0] sz b by simp
  have slot: "buf ! ((t + Suc i) mod q) \<noteq> None" if "i < m" for i
    using all [of "Suc i"] sz that by simp
  show "ring_ok q (buf[t := None]) h ((t + 1) mod q)"
    unfolding ring_ok_def m_def [symmetric] using ok b old slot by (auto simp: ring_ok_def)
qed

lemma ring_list_length [simp]: "length (ring_list q buf h t) = ring_size q h t"
  by (simp add: ring_list_def)

lemma ring_list_empty [simp]: "ring_list q buf h h = []"
  by (simp add: ring_list_def ring_size_def)

definition sq_list :: "reactor_task \<Rightarrow> io_job list" where
  "sq_list task = ring_list (qdepth task) (sq task) (sq_head task) (sq_tail task)"

definition cq_list :: "reactor_task \<Rightarrow> io_job list" where
  "cq_list task = ring_list (qdepth task) (cq task) (cq_head task) (cq_tail task)"

definition task_ok :: "reactor_task \<Rightarrow> bool" where
  "task_ok task \<longleftrightarrow> ring_ok (qdepth task) (sq task) (sq_head task) (sq_tail task)
     \<and> ring_ok (qdepth task) (cq task) (cq_head task) (cq_tail task)"

lemmas reactor_size_defs =
  reactor_sq_size_def reactor_cq_size_def ring_size_def

lemma sq_full_iff:
  assumes "task_ok task"
  shows "reactor_sq_is_full task \<longleftrightarrow> length (sq_list task) = qdepth task - 1"
  using assms unfolding task_ok_def ring_ok_def sq_list_def reactor_sq_is_full_def
  by (auto simp: ring_size_def)

lemma cq_full_iff:
  assumes "task_ok task"
  shows "reactor_cq_is_full task \<longleftrightarrow> length (cq_list task) = qdepth task - 1"
  using assms unfolding task_ok_def ring_ok_def cq_list_def reactor_cq_is_full_def
  by (auto simp: ring_size_def)

lemma sq_len: "task_ok task \<Longrightarrow> length (sq_list task) \<le> qdepth task - 1"
  using ring_size_less [of "sq_head task" "qdepth task" "sq_tail task"]
  by (auto simp: task_ok_def ring_ok_def sq_list_def)

lemma cq_len: "task_ok task \<Longrightarrow> length (cq_list task) \<le> qdepth task - 1"
  using ring_size_less [of "cq_head task" "qdepth task" "cq_tail task"]
  by (auto simp: task_ok_def ring_ok_def cq_list_def)

lemma sq_empty_iff: "task_ok task \<Longrightarrow> reactor_sq_is_empty task \<longleftrightarrow> sq_list task = []"
  using ring_size_0_iff [of "sq_head task" "qdepth task" "sq_tail task"]
  by (auto simp: task_ok_def ring_ok_def sq_list_def reactor_sq_is_empty_def
      simp flip: length_0_conv)

lemma cq_size_list: "reactor_cq_size task = length (cq_list task)"
  by (simp add: reactor_cq_size_def cq_list_def ring_size_def)

lemma sq_size_list: "reactor_sq_size task = length (sq_list task)"
  by (simp add: reactor_sq_size_def sq_list_def ring_size_def)

lemma sq_put_spec:
  assumes "task_ok task" "length (sq_list task) < qdepth task - 1"
  shows "fst (reactor_sq_put_req task x) = 0"
    "sq_list (snd (reactor_sq_put_req task x)) = sq_list task @ [x]"
    "cq_list (snd (reactor_sq_put_req task x)) = cq_list task"
    "task_ok (snd (reactor_sq_put_req task x))"
    "qdepth (snd (reactor_sq_put_req task x)) = qdepth task"
  using assms sq_full_iff [OF assms(1)]
    ring_put [of "qdepth task" "sq task" "sq_head task" "sq_tail task" x]
  by (auto simp: reactor_sq_put_req_def task_ok_def sq_list_def cq_list_def)

lemma cq_put_spec:
  assumes "task_ok task" "length (cq_list task) < qdepth task - 1"
  shows "fst (reactor_cq_put_req task x) = 0"
    "cq_list (snd (reactor_cq_put_req task x)) = cq_list task @ [x]"
    "sq_list (snd (reactor_cq_put_req task x)) = sq_list task"
    "task_ok (snd (reactor_cq_put_req task x))"
    "qdepth (snd (reactor_cq_put_req task x)) = qdepth task"
  using assms cq_full_iff [OF assms(1)]
    ring_put [of "qdepth task" "cq task" "cq_head task" "cq_tail task" x]
  by (auto simp: reactor_cq_put_req_def task_ok_def sq_list_def cq_list_def)

lemma sq_get_spec:
  assumes "task_ok task" "sq_list task = x # xs"
  shows "fst (reactor_sq_get_req task) = Some x"
    "sq_list (snd (reactor_sq_get_req task)) = xs"
    "cq_list (snd (reactor_sq_get_req task)) = cq_list task"
    "task_ok (snd (reactor_sq_get_req task))"
    "qdepth (snd (reactor_sq_get_req task)) = qdepth task"
  using assms sq_empty_iff [OF assms(1)]
    ring_get [of "qdepth task" "sq task" "sq_head task" "sq_tail task"]
  by (auto simp: reactor_sq_get_req_def reactor_sq_is_empty_def task_ok_def sq_list_def cq_list_def)

lemma cq_take1_spec:
  assumes "task_ok task" "cq_list task = x # xs"
  shows "fst (cq_take1 task) = Some x"
    "cq_list (snd (cq_take1 task)) = xs"
    "sq_list (snd (cq_take1 task)) = sq_list task"
    "task_ok (snd (cq_take1 task))"
    "qdepth (snd (cq_take1 task)) = qdepth task"
proof -
  have "cq_head task \<noteq> cq_tail task"
    using assms(2) by (auto simp: cq_list_def)
  then show "fst (cq_take1 task) = Some x"
    "cq_list (snd (cq_take1 task)) = xs"
    "sq_list (snd (cq_take1 task)) = sq_list task"
    "task_ok (snd (cq_take1 task))"
    "qdepth (snd (cq_take1 task)) = qdepth task"
    using assms ring_get [of "qdepth task" "cq task" "cq_head task" "cq_tail task"]
    by (auto simp: cq_take1_def task_ok_def sq_list_def cq_list_def)
qed

text \<open>The guarded single take that makes the completion ring an instance too.\<close>

definition cq_get_req :: "reactor_task \<Rightarrow> io_job option \<times> reactor_task" where
  "cq_get_req task = (if reactor_cq_is_empty task then (None, task) else cq_take1 task)"

lemma cq_empty_iff: "task_ok task \<Longrightarrow> reactor_cq_is_empty task \<longleftrightarrow> cq_list task = []"
  using ring_size_0_iff [of "cq_head task" "qdepth task" "cq_tail task"]
  by (auto simp: task_ok_def ring_ok_def cq_list_def reactor_cq_is_empty_def
      simp flip: length_0_conv)

lemma task_ok_qdepth: "task_ok task \<Longrightarrow> 0 < qdepth task"
  by (simp add: task_ok_def ring_ok_def)

interpretation sqr: bounded_fifo reactor_sq_put_req reactor_sq_get_req sq_list
  "\<lambda>t. qdepth t - 1" task_ok
proof
  fix q x assume "task_ok q" "length (sq_list q) < qdepth q - 1"
  then show "fst (reactor_sq_put_req q x) = 0
      \<and> sq_list (snd (reactor_sq_put_req q x)) = sq_list q @ [x]
      \<and> task_ok (snd (reactor_sq_put_req q x))
      \<and> qdepth (snd (reactor_sq_put_req q x)) - 1 = qdepth q - 1"
    using sq_put_spec [of q x] by simp
next
  fix q x xs assume "task_ok q" "sq_list q = x # xs"
  then show "fst (reactor_sq_get_req q) = Some x \<and> sq_list (snd (reactor_sq_get_req q)) = xs
      \<and> task_ok (snd (reactor_sq_get_req q))
      \<and> qdepth (snd (reactor_sq_get_req q)) - 1 = qdepth q - 1"
    using sq_get_spec [of q x xs] by simp
qed (simp_all add: sq_full_iff sq_empty_iff sq_len [simplified] reactor_sq_put_req_def reactor_sq_get_req_def)

interpretation cqr: bounded_fifo reactor_cq_put_req cq_get_req cq_list
  "\<lambda>t. qdepth t - 1" task_ok
proof
  fix q x assume "task_ok q" "length (cq_list q) < qdepth q - 1"
  then show "fst (reactor_cq_put_req q x) = 0
      \<and> cq_list (snd (reactor_cq_put_req q x)) = cq_list q @ [x]
      \<and> task_ok (snd (reactor_cq_put_req q x))
      \<and> qdepth (snd (reactor_cq_put_req q x)) - 1 = qdepth q - 1"
    using cq_put_spec [of q x] by simp
next
  fix q x xs assume "task_ok q" "cq_list q = x # xs"
  then show "fst (cq_get_req q) = Some x \<and> cq_list (snd (cq_get_req q)) = xs
      \<and> task_ok (snd (cq_get_req q)) \<and> qdepth (snd (cq_get_req q)) - 1 = qdepth q - 1"
    using cq_take1_spec [of q x xs] by (simp add: cq_get_req_def cq_empty_iff)
qed (simp_all add: cq_full_iff cq_empty_iff cq_len [simplified] reactor_cq_put_req_def cq_get_req_def)

section \<open>Allocation, submission and completion\<close>

lemma length_clear_slots [simp]: "length (clear_slots n xs) = length xs"
proof -
  have "length (fold (\<lambda>i ys. ys[i := None]) is zs) = length zs" for "is" and zs :: "'a option list"
    by (induction "is" arbitrary: zs) simp_all
  then show ?thesis by (simp add: clear_slots_def)
qed

lemma alloc_task_ok:
  assumes "reactor_alloc_task old qd = Some task"
    and "length (sq old) = REACTOR_MAX_REQUEST" "length (cq old) = REACTOR_MAX_REQUEST"
  shows "task_ok task" "sq_list task = []" "cq_list task = []" "qdepth task = qd + 1"
  using assms by (auto simp: reactor_alloc_task_def task_ok_def ring_ok_def sq_list_def cq_list_def
      ring_size_def split: if_splits)

lemma submit_puts_eq: "submit_puts task reqs = sqr.puts task reqs"
  by (induction task reqs rule: submit_puts.induct) (simp split: prod.splits)+

lemma submit_puts_cq:
  "task_ok task \<Longrightarrow> cq_list (snd (submit_puts task reqs)) = cq_list task
     \<and> qdepth (snd (submit_puts task reqs)) = qdepth task"
proof (induction reqs arbitrary: task)
  case (Cons x xs)
  show ?case
  proof (cases "length (sq_list task) < qdepth task - 1")
    case True
    obtain r t where p: "reactor_sq_put_req task x = (r, t)" by fastforce
    with sq_put_spec [OF Cons.prems True, of x] Cons.IH [of t] show ?thesis by simp
  next
    case False
    then have "reactor_sq_put_req task x = (-1, task)"
      using sqr.put_full [of task x] sqr.bounded [of task] Cons.prems by simp
    then show ?thesis by simp
  qed
qed simp

lemma submit_loop_drains:
  assumes "task_ok task" "length (sq_list task) \<le> fuel"
    and "\<forall>r\<in>set (sq_list task). dev_submit accepts r"
  shows "\<exists>task'. submit_loop fuel accepts task dev = Some (task', dev @ sq_list task)
    \<and> task_ok task' \<and> sq_list task' = [] \<and> cq_list task' = cq_list task
    \<and> qdepth task' = qdepth task"
  using assms
proof (induction fuel arbitrary: task dev)
  case 0
  then show ?case using sqr.get_none [of task] by (subst submit_loop.simps) simp
next
  case (Suc fuel)
  show ?case
  proof (cases "sq_list task")
    case Nil
    then show ?thesis using sqr.get_none [of task] Suc.prems by (subst submit_loop.simps) simp
  next
    case (Cons x xs)
    obtain r t where g: "reactor_sq_get_req task = (r, t)" by fastforce
    note sp = sq_get_spec [OF Suc.prems(1) Cons]
    obtain task' where "submit_loop fuel accepts t (dev @ [x]) = Some (task', (dev @ [x]) @ xs)"
      "task_ok task'" "sq_list task' = []" "cq_list task' = cq_list t" "qdepth task' = qdepth t"
      using Suc.IH [of t "dev @ [x]"] sp g Suc.prems Cons by auto
    then show ?thesis using sp g Suc.prems(3) Cons by (subst submit_loop.simps) simp
  qed
qed

lemma cq_take_loop_spec:
  assumes "task_ok task" "n \<le> length (cq_list task)"
  shows "fst (cq_take_loop n task) = map Some (take n (cq_list task))
    \<and> cq_list (snd (cq_take_loop n task)) = drop n (cq_list task)
    \<and> sq_list (snd (cq_take_loop n task)) = sq_list task
    \<and> task_ok (snd (cq_take_loop n task)) \<and> qdepth (snd (cq_take_loop n task)) = qdepth task"
  using assms
proof (induction n arbitrary: task)
  case (Suc n)
  then obtain x xs where c: "cq_list task = x # xs" by (cases "cq_list task") auto
  obtain r t where g: "cq_take1 task = (r, t)" by fastforce
  note sp = cq_take1_spec [OF Suc.prems(1) c]
  show ?case using Suc.IH [of t] sp g c Suc.prems by (auto split: prod.splits)
qed simp

lemma cq_get_reqs_spec:
  assumes "task_ok task" "0 < mn" "mn \<le> length (cq_list task)" "mx \<le> qdepth task"
  shows "\<exists>task'. reactor_cq_get_reqs task mn mx = CqGot (map Some (take mx (cq_list task))) task'
    \<and> cq_list task' = drop mx (cq_list task) \<and> sq_list task' = sq_list task \<and> task_ok task'
    \<and> qdepth task' = qdepth task"
proof -
  define n where "n = min mx (length (cq_list task))"
  obtain rs task' where l: "cq_take_loop n task = (rs, task')" by fastforce
  have "reactor_cq_get_reqs task mn mx = CqGot rs task'"
    using assms l
    by (cases "mx < length (cq_list task)")
      (auto simp: reactor_cq_get_reqs_def cq_size_list n_def min_def Let_def split: if_splits)
  then show ?thesis
    using cq_take_loop_spec [OF assms(1), of n] l by (auto simp: n_def min_def)
qed

text \<open>The synchronous transfers: a task of depth one, a single request, and a wait
  for its completion.  Between the submission and the wait the core runs
  \<open>reactor_submit_on_core\<close> and the device calls \<open>reactor_bio_cb\<close>; \<open>old\<close> and
  \<open>oldj\<close> are what the two pools hand out.  The result pairs the return value with
  the requests the device received.\<close>

fun complete_all :: "(io_job \<Rightarrow> bool) \<Rightarrow> io_target \<Rightarrow> reactor_task \<Rightarrow> io_job list
    \<Rightarrow> (io_target \<times> reactor_task) option" where
  "complete_all ok target task [] = Some (target, task)"
| "complete_all ok target task (r # rs) =
    (case reactor_bio_cb (ok r) target task r of
       None \<Rightarrow> None | Some (target', task') \<Rightarrow> complete_all ok target' task' rs)"

definition reactor_sync_io :: "(io_job \<Rightarrow> bool) \<Rightarrow> (io_job \<Rightarrow> bool) \<Rightarrow> io_target \<Rightarrow> reactor_task
    \<Rightarrow> io_job \<Rightarrow> int \<Rightarrow> int \<Rightarrow> io_type \<Rightarrow> (int \<times> io_job list) option" where
  "reactor_sync_io accepts ok target old oldj offset bytes ty =
    do {
      task \<leftarrow> reactor_alloc_task old 1;
      (r, task) \<leftarrow> reactor_submit_reqs 0 task [reactor_make_single_req oldj offset bytes ty];
      (task, dev) \<leftarrow> reactor_submit_on_core accepts task [];
      (target, task) \<leftarrow> complete_all ok target task dev;
      (case reactor_cq_get_reqs task 1 1 of
         CqGot [Some req] task' \<Rightarrow> Some (job_ret req, dev)
       | _ \<Rightarrow> None)
    }"

definition reactor_sync_read_blk where
  "reactor_sync_read_blk accepts ok target old oldj block cnt =
     reactor_sync_io accepts ok target old oldj (block * NV_BLOCK_SIZE) (cnt * NV_BLOCK_SIZE) IO_READ"

definition reactor_sync_write_blk where
  "reactor_sync_write_blk accepts ok target old oldj block cnt =
     reactor_sync_io accepts ok target old oldj (block * NV_BLOCK_SIZE) (cnt * NV_BLOCK_SIZE) IO_WRITE"

definition reactor_sync_flush where
  "reactor_sync_flush accepts ok target old oldj =
     reactor_sync_io accepts ok target old oldj 0 4096 IO_FLUSH"

lemma submit_reqs_spec:
  assumes "task_ok task" "length (sq_list task) + length reqs \<le> qdepth task - 1"
  shows "\<exists>task'. reactor_submit_reqs 0 task reqs = Some (0, task') \<and> task_ok task'
    \<and> sq_list task' = sq_list task @ reqs \<and> cq_list task' = cq_list task
    \<and> qdepth task' = qdepth task"
proof -
  obtain r task' where p: "submit_puts task reqs = (r, task')" by fastforce
  then show ?thesis
    using sqr.puts_ok [OF assms] submit_puts_cq [OF assms(1), of reqs]
    by (simp add: reactor_submit_reqs_def submit_puts_eq)
qed

lemma submit_on_core_spec:
  assumes "task_ok task" "\<forall>r\<in>set (sq_list task). dev_submit accepts r"
  shows "\<exists>task'. reactor_submit_on_core accepts task dev = Some (task', dev @ sq_list task)
    \<and> task_ok task' \<and> sq_list task' = [] \<and> cq_list task' = cq_list task
    \<and> qdepth task' = qdepth task"
  unfolding reactor_submit_on_core_def
  by (rule submit_loop_drains) (use assms sq_len [OF assms(1)] in auto)

lemma complete_all_spec:
  assumes "task_ok task" "\<forall>r\<in>set rs. ok r" "length (cq_list task) + length rs \<le> qdepth task - 1"
  shows "\<exists>target' task'. complete_all ok target task rs = Some (target', task') \<and> task_ok task'
    \<and> cq_list task' = cq_list task @ map (\<lambda>r. r\<lparr>job_ret := 0\<rparr>) rs
    \<and> sq_list task' = sq_list task \<and> qdepth task' = qdepth task
    \<and> io_completed target' = io_completed target + int (length rs)"
  using assms
proof (induction rs arbitrary: task target)
  case (Cons r rs)
  obtain x task' where p: "reactor_cq_put_req task (r\<lparr>job_ret := 0\<rparr>) = (x, task')" by fastforce
  have lt: "length (cq_list task) < qdepth task - 1" using Cons.prems(3) by simp
  note sp = cq_put_spec [OF Cons.prems(1) lt, of "r\<lparr>job_ret := 0\<rparr>"]
  define tg where "tg = target\<lparr>current_queue_depth := current_queue_depth target - 1,
                        io_completed := io_completed target + 1\<rparr>"
  have "\<exists>t' k'. complete_all ok tg task' rs = Some (t', k') \<and> task_ok k'
    \<and> cq_list k' = cq_list task' @ map (\<lambda>r. r\<lparr>job_ret := 0\<rparr>) rs
    \<and> sq_list k' = sq_list task' \<and> qdepth k' = qdepth task'
    \<and> io_completed t' = io_completed tg + int (length rs)"
    by (rule Cons.IH) (use sp p Cons.prems in auto)
  then show ?case using sp p Cons.prems(2) by (auto simp: reactor_bio_cb_def tg_def)
qed simp

lemma sync_io_spec:
  assumes len: "length (sq old) = REACTOR_MAX_REQUEST" "length (cq old) = REACTOR_MAX_REQUEST"
    and dev: "\<And>r. accepts r" "\<And>r. ok r" and ty: "ty \<noteq> IO_OTHER"
  shows "reactor_sync_io accepts ok target old oldj offset bytes ty
    = Some (0, [reactor_make_single_req oldj offset bytes ty])"
proof -
  define rq where "rq = reactor_make_single_req oldj offset bytes ty"
  obtain t0 where t0: "reactor_alloc_task old 1 = Some t0"
    by (simp add: reactor_alloc_task_def REACTOR_MAX_REQUEST_def)
  note a = alloc_task_ok [OF t0 len]
  obtain t1 where t1: "reactor_submit_reqs 0 t0 [rq] = Some (0, t1)" "task_ok t1"
    "sq_list t1 = [rq]" "cq_list t1 = []" "qdepth t1 = 2"
    using submit_reqs_spec [of t0 "[rq]"] a by auto
  have "dev_submit accepts rq"
    using dev ty by (simp add: dev_submit_def rq_def reactor_make_single_req_def)
  with submit_on_core_spec [of t1 accepts "[]"] t1
  obtain t2 where t2: "reactor_submit_on_core accepts t1 [] = Some (t2, [rq])" "task_ok t2"
    "cq_list t2 = []" "qdepth t2 = 2" by auto
  obtain tg t3 where t3: "complete_all ok target t2 [rq] = Some (tg, t3)" "task_ok t3"
    "cq_list t3 = [rq\<lparr>job_ret := 0\<rparr>]" "qdepth t3 = 2"
    using complete_all_spec [of t2 "[rq]" ok target] t2 dev by auto
  obtain t4 where "reactor_cq_get_reqs t3 1 1 = CqGot [Some (rq\<lparr>job_ret := 0\<rparr>)] t4"
    using cq_get_reqs_spec [of t3 1 1] t3 by auto
  then show ?thesis
    using t0 t1 t2 t3 by (simp add: reactor_sync_io_def rq_def [symmetric])
qed

section \<open>The pipeline as a step relation\<close>

text \<open>The client submits and reaps, the reactor core moves requests to the device,
  and the device completes the accepted requests in any order.  \<open>rs_submitted\<close> and
  \<open>rs_reaped\<close> record what the client put in and got back.\<close>

record pipe =
  rs_task :: reactor_task
  rs_target :: io_target
  rs_dev :: "io_job list"
  rs_submitted :: "io_job list"
  rs_reaped :: "io_job list"

abbreviation outstanding :: "pipe \<Rightarrow> nat" where
  "outstanding s \<equiv> length (sq_list (rs_task s)) + length (rs_dev s) + length (cq_list (rs_task s))"

inductive reactor_step :: "(io_job \<Rightarrow> bool) \<Rightarrow> pipe \<Rightarrow> pipe \<Rightarrow> bool" for accepts where
  submit: "reactor_submit_reqs 0 (rs_task s) reqs = Some (r, task') \<Longrightarrow>
    outstanding s + length reqs \<le> qdepth (rs_task s) - 1 \<Longrightarrow>
    reactor_step accepts s (s\<lparr>rs_task := task', rs_submitted := rs_submitted s @ reqs\<rparr>)"
| core: "reactor_submit_on_core accepts (rs_task s) (rs_dev s) = Some (task', dev') \<Longrightarrow>
    \<forall>r\<in>set (sq_list (rs_task s)). dev_submit accepts r \<Longrightarrow>
    reactor_step accepts s (s\<lparr>rs_task := task', rs_dev := dev'\<rparr>)"
| complete: "req \<in> set (rs_dev s) \<Longrightarrow>
    reactor_bio_cb True (rs_target s) (rs_task s) req = Some (target', task') \<Longrightarrow>
    reactor_step accepts s
      (s\<lparr>rs_task := task', rs_target := target', rs_dev := remove1 req (rs_dev s)\<rparr>)"
| reap: "reactor_cq_get_reqs (rs_task s) mn mx = CqGot rs task' \<Longrightarrow>
    reactor_step accepts s
      (s\<lparr>rs_task := task', rs_reaped := rs_reaped s @ map the rs\<rparr>)"

inductive_cases reactor_stepE: "reactor_step accepts s t"

definition pipe_init :: "reactor_task \<Rightarrow> pipe" where
  "pipe_init task = \<lparr>rs_task = task, rs_target = \<lparr>io_completed = 0, current_queue_depth = 0\<rparr>,
     rs_dev = [], rs_submitted = [], rs_reaped = []\<rparr>"

abbreviation retd :: "io_job list \<Rightarrow> io_job multiset" where
  "retd xs \<equiv> image_mset (\<lambda>r. r\<lparr>job_ret := 0\<rparr>) (mset xs)"

definition pipe_inv :: "pipe \<Rightarrow> bool" where
  "pipe_inv s \<longleftrightarrow> task_ok (rs_task s) \<and> outstanding s \<le> qdepth (rs_task s) - 1
     \<and> retd (rs_submitted s)
       = retd (sq_list (rs_task s)) + retd (rs_dev s) + retd (cq_list (rs_task s)) + retd (rs_reaped s)"

lemma cq_get_reqs_cases:
  assumes "task_ok task" "reactor_cq_get_reqs task mn mx = CqGot rs task'"
  shows "rs = map Some (take mx (cq_list task)) \<and> cq_list task' = drop mx (cq_list task)
    \<and> sq_list task' = sq_list task \<and> task_ok task' \<and> qdepth task' = qdepth task"
proof -
  have "0 < mn" "mn \<le> length (cq_list task)" "mx \<le> qdepth task"
    using assms(2) by (auto simp: reactor_cq_get_reqs_def cq_size_list split: if_splits prod.splits)
  from cq_get_reqs_spec [OF assms(1) this] assms(2) show ?thesis by auto
qed

lemma pipe_inv_cq_room:
  assumes "pipe_inv s" "rs_dev s \<noteq> []"
  shows "length (cq_list (rs_task s)) < qdepth (rs_task s) - 1"
proof -
  from assms(2) have "0 < length (rs_dev s)" by simp
  with assms(1) show ?thesis unfolding pipe_inv_def by linarith
qed

lemma reactor_step_inv:
  assumes "reactor_step accepts s t" "pipe_inv s"
  shows "pipe_inv t"
  using assms(1)
proof cases
  case (submit reqs r task')
  have "task_ok (rs_task s)" using assms(2) by (simp add: pipe_inv_def)
  from submit_reqs_spec [OF this, of reqs] submit assms(2) show ?thesis
    by (auto simp: pipe_inv_def)
next
  case (core task' dev')
  have "task_ok (rs_task s)" using assms(2) by (simp add: pipe_inv_def)
  from submit_on_core_spec [OF this core(3), of "rs_dev s"] core assms(2) show ?thesis
    by (auto simp: pipe_inv_def)
next
  case (complete req target' task')
  have ok: "task_ok (rs_task s)" using assms(2) by (simp add: pipe_inv_def)
  have ne: "rs_dev s \<noteq> []" using complete(2) by auto
  then obtain k where k: "length (rs_dev s) = Suc k" by (cases "rs_dev s") auto
  have lt: "length (cq_list (rs_task s)) < qdepth (rs_task s) - 1"
    by (rule pipe_inv_cq_room) (use assms(2) ne in auto)
  have "mset (rs_dev s) = add_mset req (mset (remove1 req (rs_dev s)))"
    using complete(2) by simp
  then have d: "retd (rs_dev s) = add_mset (req\<lparr>job_ret := 0\<rparr>) (retd (remove1 req (rs_dev s)))"
    by (metis image_mset_add_mset)
  have "length (remove1 req (rs_dev s)) = k"
    using complete(2) k by (simp add: length_remove1)
  with cq_put_spec [OF ok lt, of "req\<lparr>job_ret := 0\<rparr>"] complete assms(2) k d show ?thesis
    by (auto simp: pipe_inv_def reactor_bio_cb_def)
next
  case (reap mn mx rs task')
  have "task_ok (rs_task s)" using assms(2) by (simp add: pipe_inv_def)
  from cq_get_reqs_cases [OF this reap(2)]
  have c: "rs = map Some (take mx (cq_list (rs_task s)))" "cq_list task' = drop mx (cq_list (rs_task s))"
    "sq_list task' = sq_list (rs_task s)" "task_ok task'" "qdepth task' = qdepth (rs_task s)" by auto
  have "retd (cq_list (rs_task s)) = retd (take mx (cq_list (rs_task s))) + retd (drop mx (cq_list (rs_task s)))"
    by (metis append_take_drop_id image_mset_union mset_append)
  with c reap(1) assms(2) show ?thesis by (auto simp: pipe_inv_def comp_def)
qed

lemma reactor_steps_inv:
  "(reactor_step accepts)\<^sup>*\<^sup>* s t \<Longrightarrow> pipe_inv s \<Longrightarrow> pipe_inv t"
  by (induction rule: rtranclp_induct) (auto intro: reactor_step_inv)

lemma pipe_init_inv:
  assumes "reactor_alloc_task old qd = Some task"
    and "length (sq old) = REACTOR_MAX_REQUEST" "length (cq old) = REACTOR_MAX_REQUEST"
  shows "pipe_inv (pipe_init task)"
  using alloc_task_ok [OF assms] by (simp add: pipe_inv_def pipe_init_def)

section \<open>Properties\<close>

text \<open>The submission ring refines a bounded first-in first-out list.  Putting a
  request succeeds exactly while the ring holds fewer than \<open>qdepth - 1\<close> requests
  and then appends it; otherwise it returns \<open>-1\<close> and changes nothing.  Getting
  returns the oldest request and removes it, or NULL when the ring is empty.\<close>

lemma sq_ring_refines_fifo:
  assumes "task_ok task"
  shows "reactor_sq_put_req task x =
      (if length (sq_list task) = qdepth task - 1 then (-1, task) else (0, snd (reactor_sq_put_req task x)))
    \<and> (length (sq_list task) < qdepth task - 1 \<longrightarrow>
        sq_list (snd (reactor_sq_put_req task x)) = sq_list task @ [x]
        \<and> task_ok (snd (reactor_sq_put_req task x)))
    \<and> (case sq_list task of
         [] \<Rightarrow> reactor_sq_get_req task = (None, task)
       | y # ys \<Rightarrow> fst (reactor_sq_get_req task) = Some y
           \<and> sq_list (snd (reactor_sq_get_req task)) = ys \<and> task_ok (snd (reactor_sq_get_req task)))
    \<and> reactor_sq_size task = length (sq_list task) \<and> length (sq_list task) \<le> qdepth task - 1"
  using assms sq_size_list [of task] sqr.put_full [of task x] sqr.put_ok [of task x]
    sqr.get_none [of task] sqr.get_some [of task] sqr.bounded [of task]
  by (auto split: list.splits simp: prod_eq_iff)

lemma sq_ring_refines_fifo_witness:
  "length (sq_list \<lparr>qdepth = 2, sq = replicate 1024 None, sq_head = 0, sq_tail = 0,
     cq = replicate 1024 None, cq_head = 0, cq_tail = 0\<rparr>) \<le> 1"
  using sq_ring_refines_fifo [of "\<lparr>qdepth = 2, sq = replicate 1024 None, sq_head = 0, sq_tail = 0,
     cq = replicate 1024 None, cq_head = 0, cq_tail = 0\<rparr>"]
  by (simp add: task_ok_def ring_ok_def ring_size_def)


definition blank_task :: reactor_task where
  "blank_task = \<lparr>qdepth = 0, sq = replicate 1024 None, sq_head = 0, sq_tail = 0,
     cq = replicate 1024 None, cq_head = 0, cq_tail = 0\<rparr>"

definition blank_job :: io_job where
  "blank_job = \<lparr>job_offset = 0, job_bytes = 0, job_iov_len = 0, job_iovcnt = 1,
     job_req_type = IO_READ, job_ret = 0, job_buf = 0, job_complete = False, job_tag1 = 0\<rparr>"


text \<open>a synchronous block transfer ends and returns 0 when the device accepts and
  completes the request, and the device has then received exactly one request
  of the right kind, at byte \<open>block * 4096\<close> and of \<open>count * 4096\<close> bytes.\<close>

theorem reactor_sync_transfer:
  assumes "length (sq old) = REACTOR_MAX_REQUEST" "length (cq old) = REACTOR_MAX_REQUEST"
    and "\<And>r. accepts r" "\<And>r. ok r"
  shows "(\<exists>r. reactor_sync_read_blk accepts ok target old oldj block cnt = Some (0, [r])
      \<and> job_req_type r = IO_READ \<and> job_offset r = block * 4096 \<and> job_bytes r = cnt * 4096)
    \<and> (\<exists>r. reactor_sync_write_blk accepts ok target old oldj block cnt = Some (0, [r])
      \<and> job_req_type r = IO_WRITE \<and> job_offset r = block * 4096 \<and> job_bytes r = cnt * 4096)
    \<and> (\<exists>r. reactor_sync_flush accepts ok target old oldj = Some (0, [r]) \<and> job_req_type r = IO_FLUSH)"
  using sync_io_spec [OF assms]
  by (simp add: reactor_sync_read_blk_def reactor_sync_write_blk_def reactor_sync_flush_def
      NV_BLOCK_SIZE_def reactor_make_single_req_def)

theorem reactor_sync_transfer_witness:
  "\<exists>r. reactor_sync_read_blk (\<lambda>_. True) (\<lambda>_. True) \<lparr>io_completed = 0, current_queue_depth = 0\<rparr>
      blank_task blank_job 5 2 = Some (0, [r]) \<and> job_offset r = 20480"
proof -
  have len: "length (sq blank_task) = REACTOR_MAX_REQUEST" "length (cq blank_task) = REACTOR_MAX_REQUEST"
    by (simp_all add: blank_task_def REACTOR_MAX_REQUEST_def)
  show ?thesis using reactor_sync_transfer [OF len, of "\<lambda>_. True" "\<lambda>_. True"
      "\<lparr>io_completed = 0, current_queue_depth = 0\<rparr>" blank_job 5 2] by auto
qed

end
