(* ===== verification/ControlPlane.thy ===== *)
theory ControlPlane
  imports Prelude
begin

text \<open>
  The control plane of \<open>nvfuse_control_plane.c\<close>: the table of registered
  applications, the table of containers (block groups) with their owner and
  reservation lock, the pool of buffer pages, and the two-file logs in which
  both tables are stored.

  \<open>control_plane\<close> is \<open>struct control_plane_context\<close>.  The calls into the file
  layer that write a log file are summarised by their outcome (\<open>log_io\<close>), and the
  contents of a log file by its generation number and the table stored after
  it.  The directory calls of application registration (\<open>nvfuse_getattr\<close>,
  \<open>nvfuse_mkdir_path\<close>, \<open>nvfuse_rmdir_path\<close>) enter as their return codes.  An index
  outside of a table is undefined in C and ends in \<open>None\<close>, like a failed
  assertion; the search for a free container, which loops until it finds one,
  is a partial function whose non-termination is \<open>None\<close> too.
\<close>

section \<open>Data\<close>

datatype resv_status = UNLOCKED | ACQUIRED | WRITE_LOCKED | READ_LOCKED
datatype resv_type = RESV_READ_LOCK | RESV_WRITE_LOCK | RESV_OTHER
datatype alloc_type = CONTAINER_NEW_ALLOC | CONTAINER_ALLOCATED_ALLOC
datatype log_io = LogNoMem | LogNoOpen | LogNoWrite | LogDone

record container_reservation =
  owner_core_id :: int
  status :: resv_status
  ref_count :: int

record app_node =
  channel_id :: int
  app_name :: string
  root_bg_id :: nat

record control_plane =
  app_table :: "app_node list"
  app_generation :: int
  app_cur_log :: nat
  app_max_log :: nat
  app_logs :: "nat \<Rightarrow> (int \<times> app_node list) option"
  resv_table :: "container_reservation list"
  nr_containers :: nat
  free_containers :: int
  last_alloc_id :: nat
  ct_generation :: int
  ct_cur_log :: nat
  ct_max_log :: nat
  ct_logs :: "nat \<Rightarrow> (int \<times> container_reservation list) option"
  total_buffer_size :: int
  curr_buffer_size :: int
  last_allocated_ino :: nat

definition SPDK_NUM_CORES :: nat where "SPDK_NUM_CORES = 16"
definition NAME_SIZE :: nat where "NAME_SIZE = 16"
definition LOG_CHUNK_SIZE :: int where "LOG_CHUNK_SIZE = 4096"

section \<open>Operations\<close>

definition app_manage_table_init :: "control_plane \<Rightarrow> control_plane" where
  "app_manage_table_init cp =
     cp\<lparr>app_generation := 1, app_cur_log := 0, app_max_log := 2,
        app_table := replicate SPDK_NUM_CORES \<lparr>channel_id = -1, app_name = [], root_bg_id = 0\<rparr>\<rparr>"

definition store_app_table :: "log_io \<Rightarrow> control_plane \<Rightarrow> int \<times> control_plane" where
  "store_app_table io cp =
     (let cur = app_cur_log cp;
          cp1 = cp\<lparr>app_cur_log := (cur + 1) mod app_max_log cp\<rparr>;
          cp2 = cp1\<lparr>app_generation := app_generation cp + 1\<rparr>
      in case io of
           LogNoMem \<Rightarrow> (-1, cp)
         | LogNoOpen \<Rightarrow> (-1, cp1)
         | LogNoWrite \<Rightarrow> (-1, cp2)
         | LogDone \<Rightarrow> (LOG_CHUNK_SIZE,
             cp2\<lparr>app_logs := (app_logs cp)(cur \<mapsto> (app_generation cp, app_table cp))\<rparr>))"

definition store_container_table :: "log_io \<Rightarrow> control_plane \<Rightarrow> int \<times> control_plane" where
  "store_container_table io cp =
     (let cur = ct_cur_log cp;
          cp1 = cp\<lparr>ct_cur_log := (cur + 1) mod ct_max_log cp\<rparr>;
          cp2 = cp1\<lparr>ct_generation := ct_generation cp + 1\<rparr>
      in case io of
           LogNoMem \<Rightarrow> (-1, cp)
         | LogNoOpen \<Rightarrow> (-1, cp1)
         | LogNoWrite \<Rightarrow> (-1, cp2)
         | LogDone \<Rightarrow> (LOG_CHUNK_SIZE,
             cp2\<lparr>ct_logs := (ct_logs cp)(cur \<mapsto> (ct_generation cp, resv_table cp))\<rparr>))"

text \<open>The scan for the latest log file: \<open>(max_generation, latest_log_file)\<close>, both
  starting at zero.\<close>

definition scan_logs :: "(nat \<Rightarrow> (int \<times> 'a) option) \<Rightarrow> nat \<Rightarrow> int \<times> nat" where
  "scan_logs logs n =
     fold (\<lambda>i (g, l). case logs i of None \<Rightarrow> (g, l)
                       | Some (g', _) \<Rightarrow> if g' > g then (g', i) else (g, l))
       [0..<n] (0, 0)"

definition load_app_table :: "control_plane \<Rightarrow> control_plane" where
  "load_app_table cp =
     (let (g, latest) = scan_logs (app_logs cp) (app_max_log cp) in
      if latest = 0 then cp
      else case app_logs cp latest of
             None \<Rightarrow> cp
           | Some (gen, tbl) \<Rightarrow> cp\<lparr>app_generation := gen + 1, app_table := tbl\<rparr>)"

definition load_container_table :: "control_plane \<Rightarrow> control_plane" where
  "load_container_table cp =
     (let (g, latest) = scan_logs (ct_logs cp) (ct_max_log cp) in
      if latest = 0 then cp
      else case ct_logs cp latest of
             None \<Rightarrow> cp
           | Some (gen, tbl) \<Rightarrow> cp\<lparr>ct_generation := gen + 1, resv_table := tbl\<rparr>)"

definition buffer_init :: "int \<Rightarrow> control_plane \<Rightarrow> int \<times> control_plane" where
  "buffer_init sz cp =
     (if sz = 0 then (-1, cp)
      else (0, cp\<lparr>curr_buffer_size := sz, total_buffer_size := sz\<rparr>))"

definition buffer_alloc :: "int \<Rightarrow> control_plane \<Rightarrow> (int \<times> control_plane) option" where
  "buffer_alloc sz cp =
     (if curr_buffer_size cp < sz then Some (0, cp)
      else do {
        assert_opt (sz \<noteq> 0);
        Some (sz, cp\<lparr>curr_buffer_size := curr_buffer_size cp - sz\<rparr>)
      })"

definition buffer_free :: "int \<Rightarrow> control_plane \<Rightarrow> (int \<times> control_plane) option" where
  "buffer_free sz cp =
     (if sz = 0 \<or> curr_buffer_size cp + sz > total_buffer_size cp then Some (-1, cp)
      else do {
        assert_opt (curr_buffer_size cp + sz \<le> total_buffer_size cp);
        Some (0, cp\<lparr>curr_buffer_size := curr_buffer_size cp + sz\<rparr>)
      })"

definition count_free :: "container_reservation list \<Rightarrow> nat \<Rightarrow> nat" where
  "count_free tbl n = count_pos (\<lambda>i. owner_core_id (tbl ! i) = 0) n"

definition container_table_init :: "nat \<Rightarrow> control_plane \<Rightarrow> (int \<times> control_plane) option" where
  "container_table_init num cp =
     (let tbl = replicate num \<lparr>owner_core_id = 0, status = UNLOCKED, ref_count = 0\<rparr>;
          cp = cp\<lparr>last_alloc_id := 0, ct_generation := 1, ct_cur_log := 0, ct_max_log := 2,
                  nr_containers := num, free_containers := int num - 1,
                  resv_table := tbl[0 := (tbl ! 0)\<lparr>owner_core_id := -1\<rparr>]\<rparr>
      in if num = 0 then None
         else do {
           assert_opt (free_containers cp = int (count_free (resv_table cp) num));
           Some (0, cp)
         })"

abbreviation is_free :: "container_reservation \<Rightarrow> bool" where
  "is_free c \<equiv> owner_core_id c = 0 \<and> status c = UNLOCKED"

partial_function (option) find_new :: "container_reservation list \<Rightarrow> nat \<Rightarrow> nat \<Rightarrow> nat option" where
  "find_new tbl nr i =
     (if owner_core_id (tbl ! i) \<noteq> 0 \<or> status (tbl ! i) \<noteq> UNLOCKED
      then find_new tbl nr ((i + 1) mod nr) else Some i)"

text \<open>The bounded search of the second branch; \<open>tries\<close> is \<open>max_try_count\<close>, and the
  result 0 means that no container was found.\<close>

fun find_owned :: "container_reservation list \<Rightarrow> nat \<Rightarrow> int \<Rightarrow> nat \<Rightarrow> nat \<Rightarrow> nat option" where
  "find_owned tbl nr core i tries =
     (if owner_core_id (tbl ! i) \<noteq> core \<or> status (tbl ! i) \<noteq> UNLOCKED
      then (case tries of 0 \<Rightarrow> None | Suc 0 \<Rightarrow> None
            | Suc t \<Rightarrow> find_owned tbl nr core ((i + 1) mod nr) t)
      else Some i)"

declare find_owned.simps [simp del]

definition container_alloc :: "log_io \<Rightarrow> int \<Rightarrow> alloc_type \<Rightarrow> resv_status \<Rightarrow> control_plane
    \<Rightarrow> (nat \<times> control_plane) option" where
  "container_alloc io core ty st cp =
    do {
      assert_opt (core \<noteq> 0);
      let tbl = resv_table cp; nr = nr_containers cp; start = (last_alloc_id cp + 1) mod nr in
      case ty of
        CONTAINER_NEW_ALLOC \<Rightarrow>
          (if free_containers cp = 0 then Some (0, cp)
           else do {
             i \<leftarrow> find_new tbl nr start;
             assert_opt (i \<noteq> 0);
             assert_opt (is_free (tbl ! i));
             Some (i, snd (store_container_table io
               (cp\<lparr>resv_table := tbl[i := \<lparr>owner_core_id = core, status = st, ref_count = 0\<rparr>],
                   free_containers := free_containers cp - 1, last_alloc_id := i\<rparr>)))
           })
      | CONTAINER_ALLOCATED_ALLOC \<Rightarrow>
          (case find_owned tbl nr core start nr of
             None \<Rightarrow> Some (0, cp)
           | Some i \<Rightarrow> do {
               assert_opt (i \<noteq> 0);
               assert_opt (owner_core_id (tbl ! i) = core \<and> status (tbl ! i) = UNLOCKED);
               Some (i, snd (store_container_table io
                 (cp\<lparr>resv_table := tbl[i := (tbl ! i)\<lparr>status := st, ref_count := 0\<rparr>],
                     last_alloc_id := i\<rparr>)))
             })
    }"

definition container_release :: "log_io \<Rightarrow> int \<Rightarrow> nat \<Rightarrow> control_plane
    \<Rightarrow> (int \<times> control_plane) option" where
  "container_release io core i cp =
     (let c = resv_table cp ! i in
      if length (resv_table cp) \<le> i then None
      else if owner_core_id c \<noteq> core then Some (-1, cp)
      else if ref_count c \<noteq> 0 then Some (-1, cp)
      else Some (0, snd (store_container_table io
        (cp\<lparr>resv_table := (resv_table cp)[i := \<lparr>owner_core_id = 0, status = UNLOCKED, ref_count = 0\<rparr>],
            free_containers := free_containers cp + 1\<rparr>))))"

fun release_loop :: "nat list \<Rightarrow> int \<Rightarrow> bool \<Rightarrow> control_plane \<Rightarrow> int \<times> control_plane" where
  "release_loop [] core clear cp = (0, cp)"
| "release_loop (i # is) core clear cp =
    (let c = resv_table cp ! i in
     if owner_core_id c \<noteq> core then release_loop is core clear cp
     else if ref_count c \<noteq> 0 then (-1, cp)
     else release_loop is core clear
       (cp\<lparr>resv_table := (resv_table cp)[i := c\<lparr>owner_core_id := (if clear then 0 else owner_core_id c),
                                                status := UNLOCKED, ref_count := 0\<rparr>],
           free_containers := free_containers cp + (if clear then 1 else 0)\<rparr>))"

definition container_release_by_coreid :: "int \<Rightarrow> bool \<Rightarrow> control_plane \<Rightarrow> int \<times> control_plane" where
  "container_release_by_coreid core clear cp = release_loop [1..<nr_containers cp] core clear cp"

definition reservation_acquire :: "nat \<Rightarrow> resv_type \<Rightarrow> control_plane \<Rightarrow> (int \<times> control_plane) option" where
  "reservation_acquire i ty cp =
     (let c = resv_table cp ! i in
      if length (resv_table cp) \<le> i then None
      else case ty of
        RESV_WRITE_LOCK \<Rightarrow>
          (if status c = UNLOCKED
           then Some (0, cp\<lparr>resv_table := (resv_table cp)[i := c\<lparr>status := WRITE_LOCKED, ref_count := ref_count c + 1\<rparr>]\<rparr>)
           else Some (-1, cp))
      | RESV_READ_LOCK \<Rightarrow>
          (if status c = READ_LOCKED \<or> status c = UNLOCKED
           then Some (0, cp\<lparr>resv_table := (resv_table cp)[i := c\<lparr>status := READ_LOCKED, ref_count := ref_count c + 1\<rparr>]\<rparr>)
           else Some (-1, cp))
      | RESV_OTHER \<Rightarrow> Some (-1, cp))"

definition reservation_release :: "nat \<Rightarrow> control_plane \<Rightarrow> (int \<times> control_plane) option" where
  "reservation_release i cp =
     (let c = resv_table cp ! i; r = ref_count c - 1 in
      if length (resv_table cp) \<le> i then None
      else case status c of
        WRITE_LOCKED \<Rightarrow> do {
          assert_opt (r = 0);
          Some (0, cp\<lparr>resv_table := (resv_table cp)[i := c\<lparr>status := UNLOCKED, ref_count := r\<rparr>]\<rparr>)
        }
      | READ_LOCKED \<Rightarrow>
          Some (0, cp\<lparr>resv_table := (resv_table cp)
            [i := c\<lparr>status := (if r = 0 then UNLOCKED else READ_LOCKED), ref_count := r\<rparr>]\<rparr>)
      | _ \<Rightarrow> Some (-1, cp))"

text \<open>Registration.  \<open>attr_res\<close> and \<open>mkdir_res\<close> are the return codes of
  \<open>nvfuse_getattr\<close> and \<open>nvfuse_mkdir_path\<close> on the container's directory.  A name
  that does not fit the 16 bytes of the node overruns it (\<open>None\<close>).\<close>

definition app_manage_table_add :: "log_io \<Rightarrow> int \<Rightarrow> int \<Rightarrow> nat \<Rightarrow> int \<Rightarrow> string \<Rightarrow> control_plane
    \<Rightarrow> (int \<times> control_plane) option" where
  "app_manage_table_add io attr_res mkdir_res inodes_per_bg chan name cp =
     (if chan = 0 \<or> chan \<ge> int SPDK_NUM_CORES then Some (-1, cp)
      else if chan < 0 \<or> length name \<ge> NAME_SIZE then None
      else let k = nat chan;
               cp1 = cp\<lparr>app_table := (app_table cp)[k := (app_table cp ! k)\<lparr>channel_id := chan, app_name := name\<rparr>]\<rparr>
           in if attr_res \<noteq> 0 then do {
                (bg, cp2) \<leftarrow> container_alloc io chan CONTAINER_NEW_ALLOC UNLOCKED cp1;
                let cp3 = cp2\<lparr>app_table := (app_table cp2)[k := (app_table cp2 ! k)\<lparr>root_bg_id := bg\<rparr>],
                              last_allocated_ino := bg * inodes_per_bg\<rparr> in
                if mkdir_res < 0 then Some (mkdir_res, cp3)
                else Some (0, cp3\<lparr>last_allocated_ino := 0\<rparr>)
              } else Some (0, cp1))"

text \<open>\<open>nvfuse_destroy_containers_for_app_unregistration\<close> reformats the descriptor and
  clears both bitmaps of every container of the application; the model returns
  the list of these containers.\<close>

definition destroy_containers :: "int \<Rightarrow> int \<Rightarrow> control_plane \<Rightarrow> int \<times> nat list" where
  "destroy_containers rmdir_res core cp =
     (if rmdir_res < 0 then (rmdir_res, [])
      else (0, filter (\<lambda>i. owner_core_id (resv_table cp ! i) = core) [0..<nr_containers cp]))"

definition app_manage_table_remove :: "log_io \<Rightarrow> log_io \<Rightarrow> int \<Rightarrow> int \<Rightarrow> bool \<Rightarrow> control_plane
    \<Rightarrow> (int \<times> nat list \<times> control_plane) option" where
  "app_manage_table_remove io io' rmdir_res core destroy cp =
     (if core = 0 \<or> core \<ge> int SPDK_NUM_CORES then Some (-1, [], cp)
      else if core < 0 then None
      else if channel_id (app_table cp ! nat core) \<noteq> core then Some (-1, [], cp)
      else let formatted = (if destroy then snd (destroy_containers rmdir_res core cp) else []);
               cp1 = snd (container_release_by_coreid core destroy cp);
               cp2 = (if destroy
                      then cp1\<lparr>app_table := (app_table cp1)
                             [nat core := \<lparr>channel_id = -1, app_name = [], root_bg_id = 0\<rparr>]\<rparr>
                      else cp1)
           in Some (0, formatted, snd (store_app_table io' (snd (store_container_table io cp2)))))"

definition control_plane_init :: "int \<Rightarrow> nat \<Rightarrow> control_plane \<Rightarrow> (int \<times> control_plane) option" where
  "control_plane_init nr_buffers nr_bgs cp =
     container_table_init nr_bgs (snd (buffer_init nr_buffers (app_manage_table_init cp)))"

section \<open>The searches\<close>

lemma find_new_reaches:
  assumes "is_free (tbl ! ((i + d) mod nr))" "i < nr"
  shows "\<exists>k<nr. find_new tbl nr i = Some k \<and> is_free (tbl ! k)"
  using assms
proof (induction d arbitrary: i)
  case 0
  then show ?case by (subst find_new.simps) simp
next
  case (Suc d)
  show ?case
  proof (cases "is_free (tbl ! i)")
    case True
    with Suc.prems show ?thesis by (subst find_new.simps) auto
  next
    case False
    have "((i + 1) mod nr + d) mod nr = (i + Suc d) mod nr" by (simp add: mod_add_left_eq)
    with Suc.IH [of "(i + 1) mod nr"] Suc.prems
    have "\<exists>k<nr. find_new tbl nr ((i + 1) mod nr) = Some k \<and> is_free (tbl ! k)" by simp
    with False show ?thesis by (subst find_new.simps) auto
  qed
qed

lemma find_new_some:
  assumes "k < nr" "is_free (tbl ! k)" "i < nr"
  shows "\<exists>j<nr. find_new tbl nr i = Some j \<and> is_free (tbl ! j)"
proof (rule find_new_reaches [of tbl i "k + nr - i"])
  have "(i + (k + nr - i)) mod nr = k" using assms by simp
  then show "is_free (tbl ! ((i + (k + nr - i)) mod nr))" using assms(2) by simp
qed (rule assms(3))

lemma find_new_sound_aux:
  "find_new tbl nr i = Some j \<Longrightarrow> i < nr \<longrightarrow> j < nr \<and> is_free (tbl ! j)"
proof (erule find_new.raw_induct
    [where P = "\<lambda>tbl nr i j. i < nr \<longrightarrow> j < nr \<and> is_free (tbl ! j)", rotated])
  fix f :: "container_reservation list \<Rightarrow> nat \<Rightarrow> nat \<Rightarrow> nat option" and tbl nr i j
  assume ih: "\<And>tbl nr i j. f tbl nr i = Some j \<Longrightarrow> i < nr \<longrightarrow> j < nr \<and> is_free (tbl ! j)"
    and eq: "(if owner_core_id (tbl ! i) \<noteq> 0 \<or> status (tbl ! i) \<noteq> UNLOCKED
        then f tbl nr ((i + 1) mod nr) else Some i) = Some j"
  show "i < nr \<longrightarrow> j < nr \<and> is_free (tbl ! j)"
    using ih [of tbl nr "(i + 1) mod nr" j] eq by (auto split: if_splits)
qed

lemma find_new_sound:
  "find_new tbl nr i = Some j \<Longrightarrow> i < nr \<Longrightarrow> j < nr \<and> is_free (tbl ! j)"
  using find_new_sound_aux by blast

lemma find_new_never:
  "\<forall>k<nr. \<not> is_free (tbl ! k) \<Longrightarrow> i < nr \<Longrightarrow> find_new tbl nr i = None"
  using find_new_sound [of tbl nr i] by (cases "find_new tbl nr i") auto

lemma find_owned_sound:
  "find_owned tbl nr core i tries = Some j \<Longrightarrow> i < nr \<Longrightarrow>
     j < nr \<and> owner_core_id (tbl ! j) = core \<and> status (tbl ! j) = UNLOCKED"
proof (induction tries arbitrary: i)
  case (Suc t)
  then show ?case
    by (subst (asm) find_owned.simps) (auto split: if_splits nat.splits)
qed (subst (asm) find_owned.simps, auto split: if_splits)

lemma find_owned_complete:
  assumes "find_owned tbl nr core i tries = None" "d < tries" "i < nr"
  shows "\<not> (owner_core_id (tbl ! ((i + d) mod nr)) = core \<and> status (tbl ! ((i + d) mod nr)) = UNLOCKED)"
  using assms
proof (induction d arbitrary: i tries)
  case 0
  then show ?case by (subst (asm) find_owned.simps) (auto split: if_splits)
next
  case (Suc d)
  from Suc.prems(2) obtain t where t: "tries = Suc (Suc t)" "d < Suc t"
    by (cases tries; cases "tries - 1") auto
  have "find_owned tbl nr core ((i + 1) mod nr) (Suc t) = None"
    using Suc.prems(1) t(1) by (subst (asm) find_owned.simps) (auto split: if_splits)
  from Suc.IH [OF this t(2)] Suc.prems(3) show ?case by (simp add: mod_add_left_eq)
qed

section \<open>The invariant\<close>

definition cr_ok :: "container_reservation \<Rightarrow> bool" where
  "cr_ok c \<longleftrightarrow> (case status c of
       UNLOCKED \<Rightarrow> ref_count c = 0
     | ACQUIRED \<Rightarrow> ref_count c = 0
     | WRITE_LOCKED \<Rightarrow> ref_count c = 1
     | READ_LOCKED \<Rightarrow> ref_count c \<ge> 1)"

definition table_inv :: "control_plane \<Rightarrow> bool" where
  "table_inv cp \<longleftrightarrow> 0 < nr_containers cp \<and> length (resv_table cp) = nr_containers cp
     \<and> owner_core_id (resv_table cp ! 0) = -1
     \<and> free_containers cp = int (count_free (resv_table cp) (nr_containers cp))
     \<and> last_alloc_id cp < nr_containers cp
     \<and> (\<forall>i < nr_containers cp. cr_ok (resv_table cp ! i))"

definition quota_inv :: "control_plane \<Rightarrow> bool" where
  "quota_inv cp \<longleftrightarrow> 0 \<le> curr_buffer_size cp \<and> curr_buffer_size cp \<le> total_buffer_size cp"

abbreviation app_inv :: "control_plane \<Rightarrow> bool" where
  "app_inv cp \<equiv> length (app_table cp) = SPDK_NUM_CORES"

definition cp_inv :: "control_plane \<Rightarrow> bool" where
  "cp_inv cp \<longleftrightarrow> table_inv cp \<and> quota_inv cp \<and> app_inv cp"

lemma store_container_table_fields [simp]:
  "resv_table (snd (store_container_table io cp)) = resv_table cp"
  "nr_containers (snd (store_container_table io cp)) = nr_containers cp"
  "free_containers (snd (store_container_table io cp)) = free_containers cp"
  "last_alloc_id (snd (store_container_table io cp)) = last_alloc_id cp"
  "app_table (snd (store_container_table io cp)) = app_table cp"
  "curr_buffer_size (snd (store_container_table io cp)) = curr_buffer_size cp"
  "total_buffer_size (snd (store_container_table io cp)) = total_buffer_size cp"
  by (cases io; simp add: store_container_table_def Let_def)+

lemma store_app_table_fields [simp]:
  "resv_table (snd (store_app_table io cp)) = resv_table cp"
  "nr_containers (snd (store_app_table io cp)) = nr_containers cp"
  "free_containers (snd (store_app_table io cp)) = free_containers cp"
  "last_alloc_id (snd (store_app_table io cp)) = last_alloc_id cp"
  "app_table (snd (store_app_table io cp)) = app_table cp"
  "curr_buffer_size (snd (store_app_table io cp)) = curr_buffer_size cp"
  "total_buffer_size (snd (store_app_table io cp)) = total_buffer_size cp"
  by (cases io; simp add: store_app_table_def Let_def)+

lemma count_free_take:
  assumes "i < n" "n \<le> length tbl" "owner_core_id (tbl ! i) = 0" "owner_core_id c \<noteq> 0"
  shows "count_free (tbl[i := c]) n = count_free tbl n - 1"
proof -
  have "count_free (tbl[i := c]) n = count_pos (\<lambda>j. j \<noteq> i \<and> owner_core_id (tbl ! j) = 0) n"
    unfolding count_free_def by (rule count_pos_cong) (use assms in \<open>auto simp: nth_list_update\<close>)
  then show ?thesis
    using count_pos_remove [OF assms(1), where P = "\<lambda>j. owner_core_id (tbl ! j) = 0"] assms(3)
    by (simp add: count_free_def)
qed

lemma count_free_give:
  assumes "i < n" "n \<le> length tbl" "owner_core_id (tbl ! i) \<noteq> 0" "owner_core_id c = 0"
  shows "count_free (tbl[i := c]) n = Suc (count_free tbl n)"
proof -
  have "count_free (tbl[i := c]) n = count_pos (\<lambda>j. j = i \<or> owner_core_id (tbl ! j) = 0) n"
    unfolding count_free_def by (rule count_pos_cong) (use assms in \<open>auto simp: nth_list_update\<close>)
  then show ?thesis
    using count_pos_insert [OF assms(1), where P = "\<lambda>j. owner_core_id (tbl ! j) = 0"] assms(3)
    by (simp add: count_free_def)
qed

lemma count_free_same:
  assumes "owner_core_id c = owner_core_id (tbl ! i)"
  shows "count_free (tbl[i := c]) n = count_free tbl n"
  unfolding count_free_def
  by (rule count_pos_cong) (use assms in \<open>metis (no_types) length_list_update linorder_not_less list_update_beyond nth_list_update\<close>)

lemma count_free_pos: "count_free tbl n > 0 \<longleftrightarrow> (\<exists>i<n. owner_core_id (tbl ! i) = 0)"
  by (simp add: count_free_def count_pos_pos_iff)

text \<open>Replacing one entry of the table, by what it does to the owner.\<close>

lemma table_inv_upd:
  assumes "table_inv cp" "i < nr_containers cp" "cr_ok c"
    and "i = 0 \<Longrightarrow> owner_core_id c = -1" "l < nr_containers cp"
    and "f = int (count_free ((resv_table cp)[i := c]) (nr_containers cp))"
  shows "table_inv (cp\<lparr>resv_table := (resv_table cp)[i := c], free_containers := f, last_alloc_id := l\<rparr>)"
  using assms by (auto simp: table_inv_def nth_list_update)

lemma table_inv_store [simp]:
  "table_inv (snd (store_container_table io cp)) = table_inv cp"
  "table_inv (snd (store_app_table io cp)) = table_inv cp"
  by (simp_all add: table_inv_def)

lemma table_inv_app [simp]:
  "table_inv (cp\<lparr>app_table := t\<rparr>) = table_inv cp"
  "table_inv (cp\<lparr>last_allocated_ino := n\<rparr>) = table_inv cp"
  "table_inv (cp\<lparr>curr_buffer_size := b\<rparr>) = table_inv cp"
  by (simp_all add: table_inv_def)

text \<open>What each operation leaves alone.\<close>

definition same_rest :: "control_plane \<Rightarrow> control_plane \<Rightarrow> bool" where
  "same_rest cp cp' \<longleftrightarrow> app_table cp' = app_table cp \<and> nr_containers cp' = nr_containers cp
     \<and> curr_buffer_size cp' = curr_buffer_size cp \<and> total_buffer_size cp' = total_buffer_size cp"

lemma same_rest_refl [simp]: "same_rest cp cp" by (simp add: same_rest_def)

lemma same_rest_inv: "cp_inv cp \<Longrightarrow> same_rest cp cp' \<Longrightarrow> table_inv cp' \<Longrightarrow> cp_inv cp'"
  by (simp add: cp_inv_def same_rest_def quota_inv_def)

lemma container_alloc_new:
  assumes inv: "table_inv cp" and ok: "st = UNLOCKED \<or> st = ACQUIRED"
    and run: "container_alloc io core CONTAINER_NEW_ALLOC st cp = Some (i, cp')"
    and free: "free_containers cp \<noteq> 0"
  shows "0 < i \<and> i < nr_containers cp \<and> is_free (resv_table cp ! i)
    \<and> resv_table cp' = (resv_table cp)[i := \<lparr>owner_core_id = core, status = st, ref_count = 0\<rparr>]
    \<and> free_containers cp' = free_containers cp - 1 \<and> table_inv cp' \<and> same_rest cp cp'"
proof -
  define c where "c = \<lparr>owner_core_id = core, status = st, ref_count = 0\<rparr>"
  define up where "up = cp\<lparr>resv_table := (resv_table cp)[i := c],
      free_containers := free_containers cp - 1, last_alloc_id := i\<rparr>"
  from run free have core: "core \<noteq> 0" and i0: "i \<noteq> 0" and fr: "is_free (resv_table cp ! i)"
    and fnd: "find_new (resv_table cp) (nr_containers cp)
      ((last_alloc_id cp + 1) mod nr_containers cp) = Some i"
    and cp': "cp' = snd (store_container_table io up)"
    by (auto simp: container_alloc_def Let_def up_def c_def split: bind_splits)
  have nr: "0 < nr_containers cp" using inv by (simp add: table_inv_def)
  then have il: "i < nr_containers cp" using find_new_sound [OF fnd] by simp
  have cnt: "count_free (resv_table cp) (nr_containers cp) > 0"
    using il fr by (auto simp: count_free_pos)
  have "table_inv up" unfolding up_def
  proof (rule table_inv_upd [OF inv il])
    show "cr_ok c" using ok by (auto simp: cr_ok_def c_def)
    show "free_containers cp - 1 = int (count_free ((resv_table cp)[i := c]) (nr_containers cp))"
      using count_free_take [of i "nr_containers cp" "resv_table cp" c] il fr core inv cnt
      by (simp add: table_inv_def c_def of_nat_diff)
  qed (use i0 il in auto)
  then show ?thesis using i0 il fr cp' by (simp add: up_def c_def same_rest_def)
qed

lemma container_alloc_old:
  assumes inv: "table_inv cp" and ok: "st = UNLOCKED \<or> st = ACQUIRED" and pos: "0 < core"
    and run: "container_alloc io core CONTAINER_ALLOCATED_ALLOC st cp = Some (i, cp')"
  shows "table_inv cp' \<and> same_rest cp cp'
    \<and> (if i = 0 then cp' = cp else i < nr_containers cp \<and> owner_core_id (resv_table cp ! i) = core
         \<and> status (resv_table cp ! i) = UNLOCKED
         \<and> resv_table cp' = (resv_table cp)[i := (resv_table cp ! i)\<lparr>status := st, ref_count := 0\<rparr>])"
proof (cases "find_owned (resv_table cp) (nr_containers cp) core
      ((last_alloc_id cp + 1) mod nr_containers cp) (nr_containers cp)")
  case None
  with run inv show ?thesis by (auto simp: container_alloc_def Let_def)
next
  case (Some j)
  define c where "c = (resv_table cp ! j)\<lparr>status := st, ref_count := 0\<rparr>"
  define up where "up = cp\<lparr>resv_table := (resv_table cp)[j := c], last_alloc_id := j\<rparr>"
  from run Some have i: "i = j" and i0: "j \<noteq> 0" and cp': "cp' = snd (store_container_table io up)"
    by (auto simp: container_alloc_def Let_def up_def c_def split: bind_splits)
  have nr: "0 < nr_containers cp" using inv by (simp add: table_inv_def)
  have j: "j < nr_containers cp" "owner_core_id (resv_table cp ! j) = core"
    "status (resv_table cp ! j) = UNLOCKED"
    using find_owned_sound [OF Some] nr by simp_all
  have "table_inv (cp\<lparr>resv_table := (resv_table cp)[j := c],
      free_containers := free_containers cp, last_alloc_id := j\<rparr>)"
  proof (rule table_inv_upd [OF inv j(1)])
    show "cr_ok c" using ok by (auto simp: cr_ok_def c_def)
    show "free_containers cp = int (count_free ((resv_table cp)[j := c]) (nr_containers cp))"
      using inv count_free_same [of c "resv_table cp" j] by (simp add: table_inv_def c_def)
  qed (use i0 j in auto)
  then have "table_inv up" by (simp add: up_def table_inv_def)
  then show ?thesis using i i0 j cp' by (simp add: up_def c_def same_rest_def)
qed

lemma container_alloc_inv:
  assumes "table_inv cp" "st = UNLOCKED \<or> st = ACQUIRED" "0 < core"
    and "container_alloc io core ty st cp = Some (i, cp')"
  shows "table_inv cp' \<and> same_rest cp cp'"
proof (cases ty)
  case CONTAINER_NEW_ALLOC
  show ?thesis
  proof (cases "free_containers cp = 0")
    case True
    with assms CONTAINER_NEW_ALLOC show ?thesis
      by (auto simp: container_alloc_def Let_def)
  next
    case False
    with assms CONTAINER_NEW_ALLOC container_alloc_new show ?thesis by blast
  qed
next
  case CONTAINER_ALLOCATED_ALLOC
  with assms container_alloc_old show ?thesis by blast
qed

lemma container_release_inv:
  assumes inv: "table_inv cp" and pos: "0 < core" and run: "container_release io core i cp = Some (r, cp')"
  shows "table_inv cp' \<and> same_rest cp cp'"
proof (cases "r = 0")
  case False
  with run inv show ?thesis by (auto simp: container_release_def Let_def split: if_splits)
next
  case True
  define c where "c = \<lparr>owner_core_id = 0, status = UNLOCKED, ref_count = 0\<rparr>"
  define up where "up = cp\<lparr>resv_table := (resv_table cp)[i := c], free_containers := free_containers cp + 1\<rparr>"
  from run True have il: "i < nr_containers cp" and own: "owner_core_id (resv_table cp ! i) = core"
    and cp': "cp' = snd (store_container_table io up)"
    using inv by (auto simp: container_release_def Let_def up_def c_def table_inv_def split: if_splits)
  have "table_inv (cp\<lparr>resv_table := (resv_table cp)[i := c],
      free_containers := free_containers cp + 1, last_alloc_id := last_alloc_id cp\<rparr>)"
  proof (rule table_inv_upd [OF inv il])
    show "cr_ok c" by (simp add: cr_ok_def c_def)
    show "i = 0 \<Longrightarrow> owner_core_id c = -1" using own pos inv by (auto simp: table_inv_def)
    show "free_containers cp + 1 = int (count_free ((resv_table cp)[i := c]) (nr_containers cp))"
      using count_free_give [of i "nr_containers cp" "resv_table cp" c] il own pos inv
      by (simp add: table_inv_def c_def)
  qed (use inv in \<open>auto simp: table_inv_def\<close>)
  then have "table_inv up" by (simp add: up_def table_inv_def)
  then show ?thesis using cp' by (simp add: up_def same_rest_def)
qed

lemma release_loop_inv:
  assumes "table_inv cp" "0 < core" "\<forall>i\<in>set is. i < nr_containers cp"
  shows "table_inv (snd (release_loop is core clear cp)) \<and> same_rest cp (snd (release_loop is core clear cp))"
  using assms
proof (induction "is" arbitrary: cp)
  case (Cons i "is")
  define c where "c = (resv_table cp ! i)\<lparr>owner_core_id := (if clear then 0 else owner_core_id (resv_table cp ! i)),
      status := UNLOCKED, ref_count := 0\<rparr>"
  define up where "up = cp\<lparr>resv_table := (resv_table cp)[i := c],
      free_containers := free_containers cp + (if clear then 1 else 0)\<rparr>"
  show ?case
  proof (cases "owner_core_id (resv_table cp ! i) = core \<and> ref_count (resv_table cp ! i) = 0")
    case False
    with Cons show ?thesis by (auto simp: Let_def)
  next
    case True
    have "table_inv (cp\<lparr>resv_table := (resv_table cp)[i := c],
        free_containers := free_containers cp + (if clear then 1 else 0), last_alloc_id := last_alloc_id cp\<rparr>)"
    proof (rule table_inv_upd [OF Cons.prems(1)])
      show "cr_ok c" by (simp add: cr_ok_def c_def)
      show "i = 0 \<Longrightarrow> owner_core_id c = -1" using True Cons.prems by (auto simp: table_inv_def)
      show "free_containers cp + (if clear then 1 else 0)
          = int (count_free ((resv_table cp)[i := c]) (nr_containers cp))"
        using count_free_give [of i "nr_containers cp" "resv_table cp" c]
          count_free_same [of c "resv_table cp" i] True Cons.prems
        by (cases clear) (simp_all add: table_inv_def c_def)
    qed (use Cons.prems in \<open>auto simp: table_inv_def\<close>)
    then have "table_inv up" by (simp add: up_def table_inv_def)
    moreover have "same_rest cp up" by (simp add: up_def same_rest_def)
    ultimately have "table_inv (snd (release_loop is core clear up)) \<and> same_rest cp (snd (release_loop is core clear up))"
      using Cons.IH [of up] Cons.prems by (auto simp: same_rest_def)
    with True show ?thesis by (simp add: Let_def up_def c_def)
  qed
qed simp

text \<open>The reservation operations change one entry and keep its owner.\<close>

lemma table_inv_status:
  assumes "table_inv cp" "i < nr_containers cp" "cr_ok c" "owner_core_id c = owner_core_id (resv_table cp ! i)"
  shows "table_inv (cp\<lparr>resv_table := (resv_table cp)[i := c]\<rparr>)"
proof -
  have "table_inv (cp\<lparr>resv_table := (resv_table cp)[i := c],
      free_containers := free_containers cp, last_alloc_id := last_alloc_id cp\<rparr>)"
    by (rule table_inv_upd)
      (use assms count_free_same [OF assms(4)] in \<open>auto simp: table_inv_def\<close>)
  then show ?thesis by (simp add: table_inv_def)
qed

lemma cr_okD: "table_inv cp \<Longrightarrow> i < length (resv_table cp) \<Longrightarrow> cr_ok (resv_table cp ! i)"
  by (simp add: table_inv_def)

lemma reservation_acquire_inv:
  assumes inv: "table_inv cp" and run: "reservation_acquire i ty cp = Some (r, cp')"
  shows "table_inv cp' \<and> same_rest cp cp'"
proof -
  have il: "i < length (resv_table cp)" "i < nr_containers cp"
    using run inv by (auto simp: reservation_acquire_def Let_def table_inv_def split: if_splits)
  show ?thesis
    using run cr_okD [OF inv il(1)] table_inv_status [OF inv il(2)] inv
    by (auto simp: reservation_acquire_def Let_def same_rest_def cr_ok_def
        split: if_splits resv_type.splits)
qed

lemma reservation_release_inv:
  assumes inv: "table_inv cp" and run: "reservation_release i cp = Some (r, cp')"
  shows "table_inv cp' \<and> same_rest cp cp'"
proof -
  have il: "i < length (resv_table cp)" "i < nr_containers cp"
    using run inv by (auto simp: reservation_release_def Let_def table_inv_def split: if_splits)
  show ?thesis
    using run cr_okD [OF inv il(1)] table_inv_status [OF inv il(2)] inv
    by (auto simp: reservation_release_def Let_def same_rest_def cr_ok_def
        split: if_splits resv_status.splits)
qed

section \<open>Runs of the control plane\<close>

text \<open>One step is one request of an application handled to its end, with the
  arguments the client side sends: positive channel numbers, non-negative
  buffer sizes, and the initial states \<open>UNLOCKED\<close> or \<open>ACQUIRED\<close> of a new container.\<close>

inductive cp_step :: "control_plane \<Rightarrow> control_plane \<Rightarrow> bool" where
  alloc: "container_alloc io core ty st cp = Some (i, cp') \<Longrightarrow> 0 < core \<Longrightarrow>
    st = UNLOCKED \<or> st = ACQUIRED \<Longrightarrow> cp_step cp cp'"
| release: "container_release io core i cp = Some (r, cp') \<Longrightarrow> 0 < core \<Longrightarrow> cp_step cp cp'"
| acquire: "reservation_acquire i rty cp = Some (r, cp') \<Longrightarrow> cp_step cp cp'"
| unreserve: "reservation_release i cp = Some (r, cp') \<Longrightarrow> cp_step cp cp'"
| balloc: "buffer_alloc sz cp = Some (r, cp') \<Longrightarrow> 0 \<le> sz \<Longrightarrow> cp_step cp cp'"
| bfree: "buffer_free sz cp = Some (r, cp') \<Longrightarrow> 0 \<le> sz \<Longrightarrow> cp_step cp cp'"
| register: "app_manage_table_add io a m ipb chan name cp = Some (r, cp') \<Longrightarrow> cp_step cp cp'"
| unregister: "app_manage_table_remove io io' rm core d cp = Some (r, fs, cp') \<Longrightarrow> cp_step cp cp'"

lemma app_add_inv:
  assumes inv: "cp_inv cp" and run: "app_manage_table_add io a m ipb chan name cp = Some (r, cp')"
  shows "cp_inv cp'"
proof (cases "chan = 0 \<or> chan \<ge> int SPDK_NUM_CORES \<or> a = 0")
  case True
  with run inv show ?thesis
    by (auto simp: app_manage_table_add_def Let_def cp_inv_def quota_inv_def split: if_splits)
next
  case False
  define cp1 where "cp1 = cp\<lparr>app_table := (app_table cp)[nat chan :=
      (app_table cp ! nat chan)\<lparr>channel_id := chan, app_name := name\<rparr>]\<rparr>"
  have chan: "0 < chan" using run False by (auto simp: app_manage_table_add_def split: if_splits)
  from run False chan obtain bg cp2 where
    al: "container_alloc io chan CONTAINER_NEW_ALLOC UNLOCKED cp1 = Some (bg, cp2)"
    by (auto simp: app_manage_table_add_def Let_def cp1_def split: if_splits bind_splits)
  have "table_inv cp1" using inv by (simp add: cp1_def cp_inv_def)
  from container_alloc_inv [OF this _ chan al] have "table_inv cp2" "same_rest cp1 cp2" by simp_all
  with run False chan al inv show ?thesis
    by (auto simp: app_manage_table_add_def Let_def cp1_def [symmetric] cp_inv_def quota_inv_def
        same_rest_def split: if_splits) (auto simp: cp1_def)
qed

lemma app_remove_inv:
  assumes inv: "cp_inv cp"
    and run: "app_manage_table_remove io io' rm core d cp = Some (r, fs, cp')"
  shows "cp_inv cp'"
proof (cases "core \<le> 0 \<or> core \<ge> int SPDK_NUM_CORES \<or> channel_id (app_table cp ! nat core) \<noteq> core")
  case True
  with run inv show ?thesis by (auto simp: app_manage_table_remove_def Let_def split: if_splits)
next
  case False
  have "table_inv (snd (container_release_by_coreid core d cp))
      \<and> same_rest cp (snd (container_release_by_coreid core d cp))"
    unfolding container_release_by_coreid_def
    by (rule release_loop_inv) (use inv False in \<open>auto simp: cp_inv_def\<close>)
  with run False inv show ?thesis
    by (cases d) (auto simp: app_manage_table_remove_def Let_def cp_inv_def quota_inv_def same_rest_def)
qed

lemma cp_step_inv:
  assumes "cp_step cp cp'" "cp_inv cp"
  shows "cp_inv cp'"
  using assms
proof cases
  case (alloc io core ty st i)
  then show ?thesis
    using container_alloc_inv [of cp st core io ty i cp'] same_rest_inv [of cp cp'] assms(2)
    by (auto simp: cp_inv_def)
next
  case (release io core i r)
  then show ?thesis using container_release_inv [of cp core io i r cp'] same_rest_inv [of cp cp'] assms(2)
    by (auto simp: cp_inv_def)
next
  case (acquire i rty r)
  then show ?thesis using reservation_acquire_inv [of cp i rty r cp'] same_rest_inv [of cp cp'] assms(2)
    by (auto simp: cp_inv_def)
next
  case (unreserve i r)
  then show ?thesis using reservation_release_inv [of cp i r cp'] same_rest_inv [of cp cp'] assms(2)
    by (auto simp: cp_inv_def)
next
  case (balloc sz r)
  then show ?thesis using assms(2)
    by (auto simp: buffer_alloc_def cp_inv_def quota_inv_def split: if_splits)
next
  case (bfree sz r)
  then show ?thesis using assms(2)
    by (auto simp: buffer_free_def cp_inv_def quota_inv_def split: if_splits)
next
  case register
  with app_add_inv [OF assms(2)] show ?thesis by blast
next
  case unregister
  with app_remove_inv [OF assms(2)] show ?thesis by blast
qed

lemma count_free_init:
  assumes "0 < num" "owner_core_id c = 0" "owner_core_id c' \<noteq> 0"
  shows "count_free ((replicate num c)[0 := c']) num = num - 1"
proof -
  have "count_free (replicate num c) num = num"
    unfolding count_free_def by (rule count_pos_all) (simp add: assms)
  then show ?thesis using count_free_take [of 0 num "replicate num c" c'] assms by simp
qed

lemma container_table_init_ok:
  assumes "0 < num"
  shows "container_table_init num cp = Some (0, cp\<lparr>last_alloc_id := 0, ct_generation := 1, ct_cur_log := 0,
      ct_max_log := 2, nr_containers := num, free_containers := int num - 1,
      resv_table := (replicate num \<lparr>owner_core_id = 0, status = UNLOCKED, ref_count = 0\<rparr>)
        [0 := \<lparr>owner_core_id = -1, status = UNLOCKED, ref_count = 0\<rparr>]\<rparr>)"
  using assms by (simp add: container_table_init_def Let_def count_free_init)

lemma control_plane_init_inv:
  assumes "control_plane_init bufs bgs cp0 = Some (r, cp)" "0 < bufs"
  shows "cp_inv cp"
  using assms
  by (auto simp: control_plane_init_def container_table_init_def buffer_init_def Let_def cp_inv_def
      table_inv_def quota_inv_def app_manage_table_init_def SPDK_NUM_CORES_def cr_ok_def nth_list_update
      split: if_splits)

section \<open>Properties\<close>


definition blank_cp :: control_plane where
  "blank_cp = \<lparr>app_table = [], app_generation = 0, app_cur_log = 0, app_max_log = 0, app_logs = Map.empty,
     resv_table = [], nr_containers = 0, free_containers = 0, last_alloc_id = 0, ct_generation = 0,
     ct_cur_log = 0, ct_max_log = 0, ct_logs = Map.empty, total_buffer_size = 0, curr_buffer_size = 0,
     last_allocated_ino = 0\<rparr>"

definition started_cp :: control_plane where
  "started_cp = snd (the (control_plane_init 100 4 blank_cp))"

lemma started_cp_init: "control_plane_init 100 4 blank_cp = Some (0, started_cp)"
  by (simp add: started_cp_def control_plane_init_def container_table_init_ok)

lemma started_cp_fields [simp]:
  "nr_containers started_cp = 4" "free_containers started_cp = 3"
  "resv_table started_cp = (replicate 4 \<lparr>owner_core_id = 0, status = UNLOCKED, ref_count = 0\<rparr>)
     [0 := \<lparr>owner_core_id = -1, status = UNLOCKED, ref_count = 0\<rparr>]"
  by (simp_all add: started_cp_def control_plane_init_def container_table_init_ok)

lemma started_cp_inv: "table_inv started_cp"
  using control_plane_init_inv [OF started_cp_init] by (simp add: cp_inv_def)


text \<open>Allocation of a new container ends and is exclusive.  If the invariant
  holds and some container is unowned and unlocked, the call returns a
  container other than 0 that was free, makes the calling core its owner,
  takes one from the free counter and changes no other entry of the table.\<close>

theorem container_alloc_exclusive:
  assumes "table_inv cp" "0 < core" "st = UNLOCKED \<or> st = ACQUIRED"
    and "k < nr_containers cp" "owner_core_id (resv_table cp ! k) = 0" "status (resv_table cp ! k) = UNLOCKED"
  shows "\<exists>i cp'. container_alloc io core CONTAINER_NEW_ALLOC st cp = Some (i, cp')
    \<and> 0 < i \<and> i < nr_containers cp \<and> owner_core_id (resv_table cp ! i) = 0
    \<and> resv_table cp' = (resv_table cp)[i := \<lparr>owner_core_id = core, status = st, ref_count = 0\<rparr>]
    \<and> free_containers cp' = free_containers cp - 1 \<and> table_inv cp'"
proof -
  have nr: "0 < nr_containers cp" using assms(1) by (simp add: table_inv_def)
  obtain i where f: "i < nr_containers cp" "is_free (resv_table cp ! i)"
    "find_new (resv_table cp) (nr_containers cp) ((last_alloc_id cp + 1) mod nr_containers cp) = Some i"
    using find_new_some [of k "nr_containers cp" "resv_table cp"
        "(last_alloc_id cp + 1) mod nr_containers cp"] assms(4-6) nr by auto
  have i0: "i \<noteq> 0"
  proof
    assume "i = 0"
    with f(2) assms(1) show False by (simp add: table_inv_def)
  qed
  have ne: "free_containers cp \<noteq> 0"
    using assms(1,4,5) count_free_pos [of "resv_table cp" "nr_containers cp"] by (auto simp: table_inv_def)
  obtain cp' where "container_alloc io core CONTAINER_NEW_ALLOC st cp = Some (i, cp')"
    using f i0 ne assms(2) by (simp add: container_alloc_def Let_def)
  with container_alloc_new [OF assms(1,3) this ne] show ?thesis by auto
qed

theorem container_alloc_exclusive_witness:
  "\<exists>i cp'. container_alloc LogDone 3 CONTAINER_NEW_ALLOC ACQUIRED started_cp = Some (i, cp') \<and> 0 < i"
  using container_alloc_exclusive [OF started_cp_inv, of 3 ACQUIRED 1 LogDone] by auto

text \<open>A container that stays locked after its owner released it blocks the
  allocator: if no container is both unowned and unlocked while the free
  counter is not zero, the search for a new container never ends.\<close>

theorem container_alloc_diverges:
  assumes "0 < nr_containers cp" "free_containers cp \<noteq> 0"
    and "\<forall>k < nr_containers cp. owner_core_id (resv_table cp ! k) \<noteq> 0 \<or> status (resv_table cp ! k) \<noteq> UNLOCKED"
  shows "container_alloc io core CONTAINER_NEW_ALLOC st cp = None"
  using find_new_never [of "nr_containers cp" "resv_table cp"] assms
  by (cases "core = 0") (auto simp: container_alloc_def Let_def)

theorem container_alloc_diverges_witness:
  "container_alloc LogDone 1 CONTAINER_NEW_ALLOC ACQUIRED
     (started_cp\<lparr>resv_table := replicate 4 \<lparr>owner_core_id = 2, status = UNLOCKED, ref_count = 0\<rparr>\<rparr>) = None"
  by (rule container_alloc_diverges) auto



text \<open>the log of the container table.  Storing the table and loading it again
  restores it and continues the generation numbers, provided the store went to
  the second log file and its generation exceeds that of the first; a table
  whose latest copy is in log file 0 is never loaded, because the scan uses 0
  for \<^emph>\<open>not found\<close>.\<close>

theorem container_log_roundtrip:
  assumes "ct_max_log cp = 2" "0 < ct_generation cp"
    and "\<forall>i g t. ct_logs cp i = Some (g, t) \<longrightarrow> g < ct_generation cp"
    and "ct_logs fresh = ct_logs (snd (store_container_table LogDone cp))" "ct_max_log fresh = 2"
  shows "(ct_cur_log cp = 1 \<longrightarrow> load_container_table fresh
      = fresh\<lparr>ct_generation := ct_generation cp + 1, resv_table := resv_table cp\<rparr>)
    \<and> (ct_cur_log cp = 0 \<longrightarrow> load_container_table fresh = fresh)"
proof -
  have two: "[0..<2] = [0, 1 :: nat]" by (simp add: upt_rec)
  have l: "ct_logs fresh = (ct_logs cp)(ct_cur_log cp \<mapsto> (ct_generation cp, resv_table cp))"
    using assms(4) by (simp add: store_container_table_def Let_def)
  have lt: "g < ct_generation cp" if "ct_logs cp i = Some (g, t)" for i g t
    using assms(3) that by fastforce
  show ?thesis
    using assms(2,5)
    by (auto simp: load_container_table_def scan_logs_def two l split: option.splits dest: lt)
qed

theorem container_log_roundtrip_witness:
  "load_container_table (started_cp\<lparr>ct_logs := ct_logs (snd (store_container_table LogDone started_cp))\<rparr>)
    = started_cp\<lparr>ct_logs := ct_logs (snd (store_container_table LogDone started_cp))\<rparr>"
proof -
  have f: "ct_max_log started_cp = 2" "ct_generation started_cp = 1" "ct_cur_log started_cp = 0"
    "ct_logs started_cp = Map.empty"
    by (simp_all add: started_cp_def control_plane_init_def container_table_init_ok buffer_init_def
        app_manage_table_init_def blank_cp_def)
  show ?thesis
    using container_log_roundtrip [of started_cp
        "started_cp\<lparr>ct_logs := ct_logs (snd (store_container_table LogDone started_cp))\<rparr>"] f by simp
qed

text \<open>recovery does not restore the free counter.  After the control plane starts
  with a log whose latest table has every container owned, it still counts
  \<open>nr_containers - 1\<close> free containers, and the next request for a new container
  never returns.\<close>

theorem recovery_free_counter_stale:
  assumes "control_plane_init bufs bgs cp0 = Some (r, cp)" "1 < bgs"
    and "ct_logs cp0 1 = Some (g, tbl)" "0 < g" "ct_logs cp0 0 = None"
    and "length tbl = bgs" "\<forall>c\<in>set tbl. owner_core_id c \<noteq> 0"
  shows "free_containers (load_container_table cp) = int bgs - 1
    \<and> count_free (resv_table (load_container_table cp)) bgs = 0
    \<and> container_alloc io core CONTAINER_NEW_ALLOC st (load_container_table cp) = None"
proof -
  have two: "[0..<2] = [0, 1 :: nat]" by (simp add: upt_rec)
  have cp: "ct_logs cp = ct_logs cp0" "ct_max_log cp = 2" "nr_containers cp = bgs"
    "free_containers cp = int bgs - 1"
    using assms(1,2)
    by (auto simp: control_plane_init_def container_table_init_ok buffer_init_def app_manage_table_init_def
        split: if_splits)
  have l: "load_container_table cp = cp\<lparr>ct_generation := g + 1, resv_table := tbl\<rparr>"
    using assms(3-5) by (simp add: load_container_table_def scan_logs_def two cp)
  have own: "owner_core_id (tbl ! k) \<noteq> 0" if "k < bgs" for k using assms(6,7) that by simp
  have "container_alloc io core CONTAINER_NEW_ALLOC st (load_container_table cp) = None"
    using find_new_never [of bgs tbl] own assms(2)
    by (cases "core = 0") (auto simp: container_alloc_def Let_def l cp)
  then show ?thesis using l cp own by (simp add: count_free_def count_pos_eq_0_iff)
qed

theorem recovery_free_counter_stale_witness:
  "container_alloc LogDone 1 CONTAINER_NEW_ALLOC ACQUIRED (load_container_table (snd (the (control_plane_init 100 2
     (blank_cp\<lparr>ct_logs := [1 \<mapsto> (2, replicate 2 \<lparr>owner_core_id = 7, status = UNLOCKED, ref_count = 0\<rparr>)]\<rparr>))))) = None"
proof -
  define cp0 where "cp0 = blank_cp\<lparr>ct_logs := [1 \<mapsto> (2, replicate 2 \<lparr>owner_core_id = 7, status = UNLOCKED, ref_count = 0\<rparr>)]\<rparr>"
  have "control_plane_init 100 2 cp0 = Some (0, snd (the (control_plane_init 100 2 cp0)))"
    by (simp add: control_plane_init_def container_table_init_ok)
  from recovery_free_counter_stale [OF this, of 2] show ?thesis
    by (simp add: cp0_def)
qed

end
