(* ===== verification/Ipc.thy ===== *)
theory Ipc
  imports ControlPlane
begin

text \<open>
  The messages between applications and the control plane (\<open>nvfuse_ipc_ring.c\<close>
  and \<open>include/nvfuse_ipc_ring.h\<close>), the request handler \<open>primary_poll_core\<close> of the
  control-plane process, and the client calls that send a request and read the
  return code of the completion.

  The union of message structures is one record: the header that all of them
  share (\<open>opcode\<close>, \<open>chan_id\<close>, \<open>ret\<close>, \<open>tag1\<close>, \<open>tag2\<close>) and the arguments of the
  requests.  The rings of DPDK deliver every enqueued message; an enqueue that
  fails is the argument \<open>enq_ok\<close>.  The message pool is the number of free
  messages; taking one from an empty pool is \<open>rte_panic\<close> (\<open>None\<close>).
\<close>

datatype ipc_opcode =
    APP_REGISTER_REQ
  | APP_REGISTER_CPL
  | APP_UNREGISTER_REQ
  | APP_UNREGISTER_CPL
  | SUPERBLOCK_COPY_REQ
  | SUPERBLOCK_COPY_CPL
  | BUFFER_ALLOC_REQ
  | BUFFER_ALLOC_CPL
  | BUFFER_FREE_REQ
  | BUFFER_FREE_CPL
  | CONTAINER_ALLOC_REQ
  | CONTAINER_ALLOC_CPL
  | CONTAINER_RELEASE_REQ
  | CONTAINER_RELEASE_CPL
  | CONTAINER_RESERVATION_ACQUIRE_REQ
  | CONTAINER_RESERVATION_ACQUIRE_CPL
  | CONTAINER_RESERVATION_RELEASE_REQ
  | CONTAINER_RESERVATION_RELEASE_CPL
  | HEALTH_CHECK_REQ
  | HEALTH_CHECK_CPL
  | UNKOWN_CPL

fun opcode_value :: "ipc_opcode \<Rightarrow> nat" where
  "opcode_value APP_REGISTER_REQ = 1"
| "opcode_value APP_REGISTER_CPL = 2"
| "opcode_value APP_UNREGISTER_REQ = 3"
| "opcode_value APP_UNREGISTER_CPL = 4"
| "opcode_value SUPERBLOCK_COPY_REQ = 5"
| "opcode_value SUPERBLOCK_COPY_CPL = 6"
| "opcode_value BUFFER_ALLOC_REQ = 7"
| "opcode_value BUFFER_ALLOC_CPL = 8"
| "opcode_value BUFFER_FREE_REQ = 9"
| "opcode_value BUFFER_FREE_CPL = 10"
| "opcode_value CONTAINER_ALLOC_REQ = 11"
| "opcode_value CONTAINER_ALLOC_CPL = 12"
| "opcode_value CONTAINER_RELEASE_REQ = 13"
| "opcode_value CONTAINER_RELEASE_CPL = 14"
| "opcode_value CONTAINER_RESERVATION_ACQUIRE_REQ = 15"
| "opcode_value CONTAINER_RESERVATION_ACQUIRE_CPL = 16"
| "opcode_value CONTAINER_RESERVATION_RELEASE_REQ = 17"
| "opcode_value CONTAINER_RESERVATION_RELEASE_CPL = 18"
| "opcode_value HEALTH_CHECK_REQ = 19"
| "opcode_value HEALTH_CHECK_CPL = 20"
| "opcode_value UNKOWN_CPL = 21"

fun opcode_decode :: "ipc_opcode \<Rightarrow> string" where
  "opcode_decode APP_REGISTER_REQ = ''APP_REGISTER_REQ''"
| "opcode_decode APP_REGISTER_CPL = ''APP_REGISTER_CPL''"
| "opcode_decode APP_UNREGISTER_REQ = ''APP_UNREGISTER_REQ''"
| "opcode_decode APP_UNREGISTER_CPL = ''APP_UNREGISTER_CPL''"
| "opcode_decode SUPERBLOCK_COPY_REQ = ''SUPERBLOCK_COPY_REQ''"
| "opcode_decode SUPERBLOCK_COPY_CPL = ''SUPERBLOCK_COPY_CPL''"
| "opcode_decode BUFFER_ALLOC_REQ = ''BUFFER_ALLOC_REQ''"
| "opcode_decode BUFFER_ALLOC_CPL = ''BUFFER_ALLOC_CPL''"
| "opcode_decode BUFFER_FREE_REQ = ''BUFFER_FREE_REQ''"
| "opcode_decode BUFFER_FREE_CPL = ''BUFFER_FREE_CPL''"
| "opcode_decode CONTAINER_ALLOC_REQ = ''CONTAINER_ALLOC_REQ''"
| "opcode_decode CONTAINER_ALLOC_CPL = ''CONTAINER_ALLOC_CPL''"
| "opcode_decode CONTAINER_RELEASE_REQ = ''CONTAINER_RELEASE_REQ''"
| "opcode_decode CONTAINER_RELEASE_CPL = ''CONTAINER_RELEASE_CPL''"
| "opcode_decode CONTAINER_RESERVATION_ACQUIRE_REQ = ''CONTAINER_RESERVATION_ACQUIRE_REQ''"
| "opcode_decode CONTAINER_RESERVATION_ACQUIRE_CPL = ''CONTAINER_RESERVATION_ACQUIRE_CPL''"
| "opcode_decode CONTAINER_RESERVATION_RELEASE_REQ = ''CONTAINER_RESERVATION_RELEASE_REQ''"
| "opcode_decode CONTAINER_RESERVATION_RELEASE_CPL = ''CONTAINER_RESERVATION_RELEASE_CPL''"
| "opcode_decode HEALTH_CHECK_REQ = ''HEALTH_CHECK_REQ''"
| "opcode_decode HEALTH_CHECK_CPL = ''HEALTH_CHECK_CPL''"
| "opcode_decode UNKOWN_CPL = ''UNKOWN_OPCODE''"

record ipc_msg =
  opcode :: ipc_opcode
  chan_id :: int
  ret :: int
  tag1 :: int
  tag2 :: int
  msg_name :: string
  msg_destroy :: bool
  msg_buffer_size :: int
  msg_alloc_type :: alloc_type
  msg_container_id :: nat
  msg_resv_type :: resv_type

section \<open>Message constructors\<close>

text \<open>Every constructor of the source writes an opcode and clears the tags; a
  completion also stores the return code.\<close>

definition make_app_register_req :: "ipc_msg \<Rightarrow> ipc_msg" where
  "make_app_register_req m = m\<lparr>opcode := APP_REGISTER_REQ, tag1 := 0, tag2 := 0\<rparr>"

definition make_app_unregister_req :: "ipc_msg \<Rightarrow> ipc_msg" where
  "make_app_unregister_req m = m\<lparr>opcode := APP_UNREGISTER_REQ, tag1 := 0, tag2 := 0\<rparr>"

definition make_superblock_copy_req :: "ipc_msg \<Rightarrow> ipc_msg" where
  "make_superblock_copy_req m = m\<lparr>opcode := SUPERBLOCK_COPY_REQ, tag1 := 0, tag2 := 0\<rparr>"

definition make_buffer_alloc_req :: "ipc_msg \<Rightarrow> ipc_msg" where
  "make_buffer_alloc_req m = m\<lparr>opcode := BUFFER_ALLOC_REQ, tag1 := 0, tag2 := 0\<rparr>"

definition make_buffer_free_req :: "ipc_msg \<Rightarrow> ipc_msg" where
  "make_buffer_free_req m = m\<lparr>opcode := BUFFER_FREE_REQ, tag1 := 0, tag2 := 0\<rparr>"

definition make_container_alloc_req :: "ipc_msg \<Rightarrow> ipc_msg" where
  "make_container_alloc_req m = m\<lparr>opcode := CONTAINER_ALLOC_REQ, tag1 := 0, tag2 := 0\<rparr>"

definition make_container_release_req :: "ipc_msg \<Rightarrow> ipc_msg" where
  "make_container_release_req m = m\<lparr>opcode := CONTAINER_RELEASE_REQ, tag1 := 0, tag2 := 0\<rparr>"

definition make_container_reservation_acquire_req :: "ipc_msg \<Rightarrow> ipc_msg" where
  "make_container_reservation_acquire_req m = m\<lparr>opcode := CONTAINER_RESERVATION_ACQUIRE_REQ, tag1 := 0, tag2 := 0\<rparr>"

definition make_container_reservation_release_req :: "ipc_msg \<Rightarrow> ipc_msg" where
  "make_container_reservation_release_req m = m\<lparr>opcode := CONTAINER_RESERVATION_RELEASE_REQ, tag1 := 0, tag2 := 0\<rparr>"

definition make_health_check_req :: "ipc_msg \<Rightarrow> ipc_msg" where
  "make_health_check_req m = m\<lparr>opcode := HEALTH_CHECK_REQ, tag1 := 0, tag2 := 0\<rparr>"

definition make_app_register_cpl :: "ipc_msg \<Rightarrow> int \<Rightarrow> ipc_msg" where
  "make_app_register_cpl m r = m\<lparr>opcode := APP_REGISTER_CPL, ret := r, tag1 := 0, tag2 := 0\<rparr>"

definition make_app_unregister_cpl :: "ipc_msg \<Rightarrow> int \<Rightarrow> ipc_msg" where
  "make_app_unregister_cpl m r = m\<lparr>opcode := APP_UNREGISTER_CPL, ret := r, tag1 := 0, tag2 := 0\<rparr>"

definition make_superblock_copy_cpl :: "ipc_msg \<Rightarrow> int \<Rightarrow> ipc_msg" where
  "make_superblock_copy_cpl m r = m\<lparr>opcode := SUPERBLOCK_COPY_CPL, ret := r, tag1 := 0, tag2 := 0\<rparr>"

definition make_buffer_alloc_cpl :: "ipc_msg \<Rightarrow> int \<Rightarrow> ipc_msg" where
  "make_buffer_alloc_cpl m r = m\<lparr>opcode := BUFFER_ALLOC_CPL, ret := r, tag1 := 0, tag2 := 0\<rparr>"

definition make_buffer_free_cpl :: "ipc_msg \<Rightarrow> int \<Rightarrow> ipc_msg" where
  "make_buffer_free_cpl m r = m\<lparr>opcode := BUFFER_FREE_CPL, ret := r, tag1 := 0, tag2 := 0\<rparr>"

definition make_container_alloc_cpl :: "ipc_msg \<Rightarrow> int \<Rightarrow> ipc_msg" where
  "make_container_alloc_cpl m r = m\<lparr>opcode := CONTAINER_ALLOC_CPL, ret := r, tag1 := 0, tag2 := 0\<rparr>"

definition make_container_release_cpl :: "ipc_msg \<Rightarrow> int \<Rightarrow> ipc_msg" where
  "make_container_release_cpl m r = m\<lparr>opcode := CONTAINER_RELEASE_CPL, ret := r, tag1 := 0, tag2 := 0\<rparr>"

definition make_container_reservation_acquire_cpl :: "ipc_msg \<Rightarrow> int \<Rightarrow> ipc_msg" where
  "make_container_reservation_acquire_cpl m r = m\<lparr>opcode := CONTAINER_RESERVATION_ACQUIRE_CPL, ret := r, tag1 := 0, tag2 := 0\<rparr>"

definition make_container_reservation_release_cpl :: "ipc_msg \<Rightarrow> int \<Rightarrow> ipc_msg" where
  "make_container_reservation_release_cpl m r = m\<lparr>opcode := CONTAINER_RESERVATION_ACQUIRE_CPL, ret := r, tag1 := 0, tag2 := 0\<rparr>"

definition make_health_check_cpl :: "ipc_msg \<Rightarrow> int \<Rightarrow> ipc_msg" where
  "make_health_check_cpl m r = m\<lparr>opcode := HEALTH_CHECK_CPL, ret := r, tag1 := 0, tag2 := 0\<rparr>"

definition make_unkown_cpl :: "ipc_msg \<Rightarrow> int \<Rightarrow> ipc_msg" where
  "make_unkown_cpl m r = m\<lparr>opcode := UNKOWN_CPL, ret := r, tag1 := 0, tag2 := 0\<rparr>"

lemmas make_req_defs =
  make_app_register_req_def make_app_unregister_req_def make_superblock_copy_req_def make_buffer_alloc_req_def make_buffer_free_req_def make_container_alloc_req_def make_container_release_req_def make_container_reservation_acquire_req_def make_container_reservation_release_req_def make_health_check_req_def

lemmas make_cpl_defs =
  make_app_register_cpl_def make_app_unregister_cpl_def make_superblock_copy_cpl_def make_buffer_alloc_cpl_def make_buffer_free_cpl_def make_container_alloc_cpl_def make_container_release_cpl_def make_container_reservation_acquire_cpl_def make_container_reservation_release_cpl_def make_health_check_cpl_def make_unkown_cpl_def

section \<open>The handler of the control plane\<close>

text \<open>What the handler needs from the layers below: the outcome of the log writes,
  the return codes of the directory calls and of \<open>nvfuse_superblock_copy\<close>.\<close>

record cp_env =
  env_log :: log_io
  env_app_log :: log_io
  env_getattr :: int
  env_mkdir :: int
  env_rmdir :: int
  env_sbcopy :: int
  env_inodes_per_bg :: nat

definition health_check :: "int \<Rightarrow> int" where
  "health_check core = 0"

definition primary_poll_core :: "cp_env \<Rightarrow> ipc_msg \<Rightarrow> control_plane \<Rightarrow> (ipc_msg \<times> control_plane) option" where
  "primary_poll_core e m cp =
    (case opcode m of
       APP_REGISTER_REQ \<Rightarrow> do {
         (r, cp') \<leftarrow> app_manage_table_add (env_log e) (env_getattr e) (env_mkdir e)
                      (env_inodes_per_bg e) (chan_id m) (msg_name m) cp;
         Some (make_app_register_cpl m r, cp') }
     | APP_UNREGISTER_REQ \<Rightarrow> do {
         (r, fs, cp') \<leftarrow> app_manage_table_remove (env_log e) (env_app_log e) (env_rmdir e)
                          (chan_id m) (msg_destroy m) cp;
         Some (make_app_unregister_cpl m r, cp') }
     | SUPERBLOCK_COPY_REQ \<Rightarrow> Some (make_superblock_copy_cpl m (env_sbcopy e), cp)
     | BUFFER_ALLOC_REQ \<Rightarrow> do {
         (r, cp') \<leftarrow> buffer_alloc (msg_buffer_size m) cp;
         Some (make_buffer_alloc_cpl m r, cp') }
     | BUFFER_FREE_REQ \<Rightarrow> do {
         (r, cp') \<leftarrow> buffer_free (msg_buffer_size m) cp;
         Some (make_buffer_free_cpl m r, cp') }
     | CONTAINER_ALLOC_REQ \<Rightarrow> do {
         (i, cp') \<leftarrow> container_alloc (env_log e) (chan_id m) (msg_alloc_type m) ACQUIRED cp;
         Some (make_container_alloc_cpl m (int i), cp') }
     | CONTAINER_RELEASE_REQ \<Rightarrow> do {
         (r, cp') \<leftarrow> container_release (env_log e) (chan_id m) (msg_container_id m) cp;
         Some (make_container_release_cpl m r, cp') }
     | CONTAINER_RESERVATION_ACQUIRE_REQ \<Rightarrow> do {
         (r, cp') \<leftarrow> reservation_acquire (msg_container_id m) (msg_resv_type m) cp;
         Some (make_container_reservation_acquire_cpl m r, cp') }
     | CONTAINER_RESERVATION_RELEASE_REQ \<Rightarrow> do {
         (r, cp') \<leftarrow> reservation_release (msg_container_id m) cp;
         Some (make_container_reservation_release_cpl m r, cp') }
     | HEALTH_CHECK_REQ \<Rightarrow> Some (make_health_check_cpl m (health_check (chan_id m)), cp)
     | _ \<Rightarrow> Some (make_unkown_cpl m (-1), cp))"

section \<open>The client side\<close>

definition prepare_req :: "ipc_opcode \<Rightarrow> ipc_msg \<Rightarrow> ipc_msg" where
  "prepare_req op m =
    (case op of
       APP_REGISTER_REQ \<Rightarrow> make_app_register_req m
     | APP_UNREGISTER_REQ \<Rightarrow> make_app_unregister_req m
     | SUPERBLOCK_COPY_REQ \<Rightarrow> make_superblock_copy_req m
     | BUFFER_ALLOC_REQ \<Rightarrow> make_buffer_alloc_req m
     | BUFFER_FREE_REQ \<Rightarrow> make_buffer_free_req m
     | CONTAINER_ALLOC_REQ \<Rightarrow> make_container_alloc_req m
     | CONTAINER_RELEASE_REQ \<Rightarrow> make_container_release_req m
     | CONTAINER_RESERVATION_ACQUIRE_REQ \<Rightarrow> make_container_reservation_acquire_req m
     | CONTAINER_RESERVATION_RELEASE_REQ \<Rightarrow> make_container_reservation_release_req m
     | HEALTH_CHECK_REQ \<Rightarrow> make_health_check_req m
     | _ \<Rightarrow> m)"

definition send_msg_to_primary_core :: "cp_env \<Rightarrow> bool \<Rightarrow> ipc_msg \<Rightarrow> ipc_opcode \<Rightarrow> control_plane
    \<Rightarrow> (int \<times> control_plane) option" where
  "send_msg_to_primary_core e enq_ok m op cp =
     (if \<not> enq_ok then Some (-1, cp)
      else do {
        (m', cp') \<leftarrow> primary_poll_core e (prepare_req op m) cp;
        Some (ret m', cp')
      })"

definition empty_msg :: "int \<Rightarrow> ipc_msg" where
  "empty_msg chan = \<lparr>opcode = UNKOWN_CPL, chan_id = chan, ret = 0, tag1 = 0, tag2 = 0, msg_name = [],
     msg_destroy = False, msg_buffer_size = 0, msg_alloc_type = CONTAINER_NEW_ALLOC,
     msg_container_id = 0, msg_resv_type = RESV_OTHER\<rparr>"

definition NVFUSE_MAX_BUFFER_SIZE_DATA :: int where "NVFUSE_MAX_BUFFER_SIZE_DATA = 1536"

type_synonym client = "nat \<times> control_plane"

definition send_alloc_buffer_req :: "cp_env \<Rightarrow> bool \<Rightarrow> int \<Rightarrow> int \<Rightarrow> int \<Rightarrow> client \<Rightarrow> (int \<times> client) option" where
  "send_alloc_buffer_req e enq_ok chan cache_size buffer_size c =
     (case c of (pool, cp) \<Rightarrow>
        let remain = NVFUSE_MAX_BUFFER_SIZE_DATA * 256 - cache_size;
            n = (if buffer_size \<le> remain then buffer_size else remain)
        in if n \<le> 0 then Some (0, c)
           else do {
             assert_opt (0 < pool);
             (r, cp') \<leftarrow> send_msg_to_primary_core e enq_ok ((empty_msg chan)\<lparr>msg_buffer_size := n\<rparr>)
                          BUFFER_ALLOC_REQ cp;
             Some (if r = 0 then -1 else r, (pool, cp'))
           })"

definition send_dealloc_buffer_req :: "cp_env \<Rightarrow> bool \<Rightarrow> int \<Rightarrow> int \<Rightarrow> client \<Rightarrow> (int \<times> client) option" where
  "send_dealloc_buffer_req e enq_ok chan buffer_size c =
     (case c of (pool, cp) \<Rightarrow> do {
        assert_opt (0 < pool);
        (r, cp') \<leftarrow> send_msg_to_primary_core e enq_ok ((empty_msg chan)\<lparr>msg_buffer_size := buffer_size\<rparr>)
                     BUFFER_FREE_REQ cp;
        assert_opt (0 \<le> r);
        Some (r, (pool, cp'))
      })"

text \<open>The early return of this call does not put the message back into the pool.\<close>

definition alloc_container_from_primary :: "cp_env \<Rightarrow> bool \<Rightarrow> int \<Rightarrow> alloc_type \<Rightarrow> client \<Rightarrow> (int \<times> client) option" where
  "alloc_container_from_primary e enq_ok chan ty c =
     (case c of (pool, cp) \<Rightarrow> do {
        assert_opt (0 < pool);
        (r, cp') \<leftarrow> send_msg_to_primary_core e enq_ok ((empty_msg chan)\<lparr>msg_alloc_type := ty\<rparr>)
                     CONTAINER_ALLOC_REQ cp;
        if r = 0 then Some (0, (pool - 1, cp'))
        else Some (r, (pool, cp'))
      })"

definition dealloc_container_from_primary :: "cp_env \<Rightarrow> bool \<Rightarrow> int \<Rightarrow> nat \<Rightarrow> client \<Rightarrow> (int \<times> client) option" where
  "dealloc_container_from_primary e enq_ok chan bg c =
     (case c of (pool, cp) \<Rightarrow> do {
        assert_opt (0 < pool);
        (r, cp') \<leftarrow> send_msg_to_primary_core e enq_ok ((empty_msg chan)\<lparr>msg_container_id := bg\<rparr>)
                     CONTAINER_RELEASE_REQ cp;
        assert_opt (0 \<le> r);
        Some (0, (pool, cp'))
      })"

definition send_app_unregister_req :: "cp_env \<Rightarrow> bool \<Rightarrow> int \<Rightarrow> bool \<Rightarrow> client \<Rightarrow> (int \<times> client) option" where
  "send_app_unregister_req e enq_ok chan destroy c =
     (case c of (pool, cp) \<Rightarrow> do {
        assert_opt (0 < pool);
        (r, cp') \<leftarrow> send_msg_to_primary_core e enq_ok ((empty_msg chan)\<lparr>msg_destroy := destroy\<rparr>)
                     APP_UNREGISTER_REQ cp;
        Some (r, (pool, cp'))
      })"

section \<open>Properties\<close>

text \<open>The completion opcode the header lists after each request opcode.\<close>

definition is_req :: "ipc_opcode \<Rightarrow> bool" where
  "is_req op \<longleftrightarrow> op \<noteq> UNKOWN_CPL \<and> odd (opcode_value op)"

lemma opcode_decode_inj_aux: "opcode_decode a = opcode_decode b \<Longrightarrow> a = b"
  by (cases a; cases b; simp)

text \<open>the handler answers every request on the channel it came from, with the tags
  cleared; the opcode of the answer is the request's opcode plus one (its
  completion), except for the release of a reservation, which is answered with
  the completion of the \<^emph>\<open>acquisition\<close>, and a message that is not a request is
  answered with \<open>UNKOWN_CPL\<close> and \<open>-1\<close> and changes nothing.\<close>

theorem handler_completion_opcode:
  assumes "primary_poll_core e m cp = Some (m', cp')"
  shows "chan_id m' = chan_id m \<and> tag1 m' = 0 \<and> tag2 m' = 0
    \<and> (is_req (opcode m) \<longrightarrow> opcode_value (opcode m') =
         (if opcode m = CONTAINER_RESERVATION_RELEASE_REQ then opcode_value CONTAINER_RESERVATION_ACQUIRE_CPL
          else opcode_value (opcode m) + 1))
    \<and> (\<not> is_req (opcode m) \<longrightarrow> m' = make_unkown_cpl m (-1) \<and> cp' = cp)"
  using assms
  by (cases "opcode m")
    (auto simp: primary_poll_core_def make_cpl_defs is_req_def split: bind_splits)

theorem handler_completion_opcode_witness:
  "opcode_value (opcode (fst (the (primary_poll_core
      \<lparr>env_log = LogDone, env_app_log = LogDone, env_getattr = 0, env_mkdir = 0, env_rmdir = 0,
       env_sbcopy = 0, env_inodes_per_bg = 4096\<rparr>
      (make_health_check_req (empty_msg 3)) started_cp)))) = 20"
proof -
  let ?e = "\<lparr>env_log = LogDone, env_app_log = LogDone, env_getattr = 0, env_mkdir = 0, env_rmdir = 0,
       env_sbcopy = 0, env_inodes_per_bg = 4096\<rparr>"
  let ?m = "make_health_check_req (empty_msg 3)"
  have r: "primary_poll_core ?e ?m started_cp = Some (make_health_check_cpl ?m 0, started_cp)"
    by (simp add: primary_poll_core_def make_health_check_req_def health_check_def)
  show ?thesis
    using handler_completion_opcode [OF r] r
    by (simp add: make_health_check_req_def make_health_check_cpl_def is_req_def)
qed

text \<open>Buffer pages obtained from the control plane and given back leave the pool as
  it was.  A request of the client asks for at most what its cache may still
  grow by; it either gets all of it, or gets \<open>-1\<close> and the pool is unchanged.\<close>

theorem buffer_request_roundtrip:
  assumes "quota_inv cp" "0 < pool" "0 < n" "n \<le> NVFUSE_MAX_BUFFER_SIZE_DATA * 256 - cache"
  shows "if n \<le> curr_buffer_size cp
    then \<exists>cp'. send_alloc_buffer_req e True chan cache n (pool, cp) = Some (n, (pool, cp'))
      \<and> curr_buffer_size cp' = curr_buffer_size cp - n \<and> quota_inv cp'
      \<and> send_dealloc_buffer_req e True chan n (pool, cp') = Some (0, (pool, cp))
    else send_alloc_buffer_req e True chan cache n (pool, cp) = Some (-1, (pool, cp))"
  using assms
  by (auto simp: send_alloc_buffer_req_def send_dealloc_buffer_req_def send_msg_to_primary_core_def
      prepare_req_def primary_poll_core_def make_cpl_defs make_req_defs empty_msg_def
      buffer_alloc_def buffer_free_def quota_inv_def Let_def)

theorem buffer_request_roundtrip_witness:
  "\<exists>cp'. send_alloc_buffer_req
      \<lparr>env_log = LogDone, env_app_log = LogDone, env_getattr = 0, env_mkdir = 0, env_rmdir = 0,
       env_sbcopy = 0, env_inodes_per_bg = 4096\<rparr> True 1 0 7 (4, blank_cp\<lparr>curr_buffer_size := 9, total_buffer_size := 9\<rparr>)
    = Some (7, (4, cp'))"
proof -
  have "quota_inv (blank_cp\<lparr>curr_buffer_size := 9, total_buffer_size := 9\<rparr>)" by (simp add: quota_inv_def)
  from buffer_request_roundtrip [OF this, of 4 7 0
      "\<lparr>env_log = LogDone, env_app_log = LogDone, env_getattr = 0, env_mkdir = 0, env_rmdir = 0,
       env_sbcopy = 0, env_inodes_per_bg = 4096\<rparr>" 1]
  show ?thesis by (auto simp: NVFUSE_MAX_BUFFER_SIZE_DATA_def)
qed

fun refused_requests :: "nat \<Rightarrow> cp_env \<Rightarrow> int \<Rightarrow> client \<Rightarrow> (int \<times> client) option" where
  "refused_requests 0 e chan c = Some (0, c)"
| "refused_requests (Suc n) e chan c =
    (case alloc_container_from_primary e True chan CONTAINER_NEW_ALLOC c of
       None \<Rightarrow> None | Some (r, c') \<Rightarrow> refused_requests n e chan c')"

text \<open>each request for a new container that is refused because no container is free
  keeps one message of the pool, because the early return skips
  \<open>rte_mempool_put\<close>: of \<open>n\<close> such requests with a pool of \<open>k\<close> messages, the first
  \<open>k\<close> return 0 and the next one is stopped by \<open>rte_panic\<close>.\<close>

theorem refused_container_requests_leak:
  assumes "free_containers cp = 0" "0 < chan"
  shows "refused_requests n e chan (pool, cp) = (if n \<le> pool then Some (0, (pool - n, cp)) else None)"
proof (induction n arbitrary: pool)
  case (Suc n)
  have a: "alloc_container_from_primary e True chan CONTAINER_NEW_ALLOC (pool, cp)
      = (if 0 < pool then Some (0, (pool - 1, cp)) else None)"
    using assms
    by (simp add: alloc_container_from_primary_def send_msg_to_primary_core_def prepare_req_def
        primary_poll_core_def make_cpl_defs make_req_defs empty_msg_def container_alloc_def Let_def)
  show ?case using Suc.IH [of "pool - 1"] a by auto
qed simp

theorem refused_container_requests_leak_witness:
  "refused_requests 3 \<lparr>env_log = LogDone, env_app_log = LogDone, env_getattr = 0, env_mkdir = 0, env_rmdir = 0,
       env_sbcopy = 0, env_inodes_per_bg = 4096\<rparr> 1 (2, blank_cp) = None"
  using refused_container_requests_leak [of blank_cp 1 3] by (simp add: blank_cp_def)

end
