(* ===== verification/Layout.thy ===== *)
theory Layout
  imports Bitmap
begin

text \<open>
  The on-disk layout: the constants of \<open>include/nvfuse_core.h\<close> for inodes of 4096
  bytes, the block group descriptor, the inode, the directory entry and the
  superblock, \<open>nvfuse_make_bg_descriptor\<close>, and the translation of the metadata
  inodes to physical blocks by \<open>nvfuse_get_pbn\<close>.  Unsigned fields are natural
  numbers; block numbers are assumed not to exceed 32 bits.
\<close>

definition CLUSTER_SIZE :: nat where "CLUSTER_SIZE = 4096"
definition NVFUSE_BD_MAGIC :: nat where "NVFUSE_BD_MAGIC = 0xBDBDBDBD"
definition NVFUSE_BD_SIGNATURE :: nat where "NVFUSE_BD_SIGNATURE = 0x709d2233"
definition NVFUSE_SB_SIGNATURE :: nat where "NVFUSE_SB_SIGNATURE = 0x756c6673"
definition NUM_RESV_INO :: nat where "NUM_RESV_INO = 8"
definition ROOT_INO :: nat where "ROOT_INO = 2"
definition BLOCK_IO_INO :: nat where "BLOCK_IO_INO = 3"
definition BD_INO :: nat where "BD_INO = 4"
definition ITABLE_INO :: nat where "ITABLE_INO = 5"
definition DBITMAP_INO :: nat where "DBITMAP_INO = 6"
definition IBITMAP_INO :: nat where "IBITMAP_INO = 7"
definition NVFUSE_BD_OFFSET :: nat where "NVFUSE_BD_OFFSET = 1"
definition NVFUSE_IBITMAP_OFFSET :: nat where "NVFUSE_IBITMAP_OFFSET = 2"
definition NVFUSE_DBITMAP_OFFSET :: nat where "NVFUSE_DBITMAP_OFFSET = 3"
definition NVFUSE_DBITMAP_SIZE :: nat where "NVFUSE_DBITMAP_SIZE = 1"
definition INODE_ENTRY_SIZE :: nat where "INODE_ENTRY_SIZE = 4096"
definition INODE_ENTRY_NUM :: nat where "INODE_ENTRY_NUM = 1"
definition NVFUSE_INODE_PER_BG :: nat where "NVFUSE_INODE_PER_BG = 4096"
definition NVFUSE_DATA_PER_BG :: nat where "NVFUSE_DATA_PER_BG = 32768"
definition DIR_ENTRY_SIZE :: nat where "DIR_ENTRY_SIZE = 128"
definition DIR_ENTRY_NUM :: nat where "DIR_ENTRY_NUM = 32"
definition NVFUSE_TYPE_FILE :: nat where "NVFUSE_TYPE_FILE = 4"
definition NVFUSE_TYPE_DIRECTORY :: nat where "NVFUSE_TYPE_DIRECTORY = 6"
definition FS_STATE_FORMATTED :: nat where "FS_STATE_FORMATTED = 0"

lemmas layout_consts =
  CLUSTER_SIZE_def NVFUSE_BD_OFFSET_def NVFUSE_IBITMAP_OFFSET_def NVFUSE_DBITMAP_OFFSET_def
  NVFUSE_DBITMAP_SIZE_def INODE_ENTRY_SIZE_def INODE_ENTRY_NUM_def NVFUSE_INODE_PER_BG_def
  NVFUSE_DATA_PER_BG_def NUM_RESV_INO_def ROOT_INO_def DIR_ENTRY_SIZE_def DIR_ENTRY_NUM_def

lemmas ino_consts =
  ROOT_INO_def BLOCK_IO_INO_def BD_INO_def ITABLE_INO_def DBITMAP_INO_def IBITMAP_INO_def

record bg_descriptor =
  bd_magic :: nat
  bd_owner :: int
  bd_id :: nat
  bd_bg_start :: nat
  bd_bd_start :: nat
  bd_max_inodes :: nat
  bd_max_blocks :: nat
  bd_ibitmap_start :: nat
  bd_ibitmap_size :: nat
  bd_dbitmap_start :: nat
  bd_dbitmap_size :: nat
  bd_itable_start :: nat
  bd_itable_size :: nat
  bd_dtable_start :: nat
  bd_dtable_size :: nat
  bd_free_inodes :: nat
  bd_free_blocks :: nat
  bd_next_block :: nat

record inode =
  i_ino :: nat
  i_type :: nat
  i_size :: int
  i_bpino :: nat
  i_version :: nat
  i_deleted :: nat
  i_links_count :: nat
  i_ptr :: nat
  i_atime :: nat
  i_ctime :: nat
  i_mtime :: nat
  i_gid :: nat
  i_uid :: nat
  i_mode :: nat
  i_blocks :: "nat list"
  i_xattr :: "u8 list"

datatype d_flag = DIR_EMPTY | DIR_USED | DIR_DELETED

record dir_entry =
  d_ino :: nat
  d_flag :: d_flag
  d_version :: nat
  d_filename :: string

record superblock =
  sb_signature :: nat
  sb_no_of_sectors :: int
  sb_no_of_blocks :: int
  sb_no_of_used_blocks :: int
  sb_no_of_inodes_per_bg :: nat
  sb_no_of_blocks_per_bg :: nat
  sb_root_ino :: nat
  sb_free_inodes :: int
  sb_free_blocks :: int
  sb_bg_num :: nat
  sb_state :: nat

definition zero_bd :: bg_descriptor where
  "zero_bd = \<lparr>bd_magic = 0, bd_owner = 0, bd_id = 0, bd_bg_start = 0, bd_bd_start = 0,
     bd_max_inodes = 0, bd_max_blocks = 0, bd_ibitmap_start = 0, bd_ibitmap_size = 0,
     bd_dbitmap_start = 0, bd_dbitmap_size = 0, bd_itable_start = 0, bd_itable_size = 0,
     bd_dtable_start = 0, bd_dtable_size = 0, bd_free_inodes = 0, bd_free_blocks = 0,
     bd_next_block = 0\<rparr>"

definition zero_inode :: inode where
  "zero_inode = \<lparr>i_ino = 0, i_type = 0, i_size = 0, i_bpino = 0, i_version = 0, i_deleted = 0,
     i_links_count = 0, i_ptr = 0, i_atime = 0, i_ctime = 0, i_mtime = 0, i_gid = 0, i_uid = 0,
     i_mode = 0, i_blocks = replicate 14 0, i_xattr = replicate 3972 0\<rparr>"

definition zero_dentry :: dir_entry where
  "zero_dentry = \<lparr>d_ino = 0, d_flag = DIR_EMPTY, d_version = 0, d_filename = []\<rparr>"

definition zero_sb :: superblock where
  "zero_sb = \<lparr>sb_signature = 0, sb_no_of_sectors = 0, sb_no_of_blocks = 0, sb_no_of_used_blocks = 0,
     sb_no_of_inodes_per_bg = 0, sb_no_of_blocks_per_bg = 0, sb_root_ino = 0, sb_free_inodes = 0,
     sb_free_blocks = 0, sb_bg_num = 0, sb_state = 0\<rparr>"

text \<open>\<open>nvfuse_make_bg_descriptor\<close> fills all fields but \<open>bd_next_block\<close>, which keeps
  what the buffer held before.\<close>

definition make_bg_descriptor :: "bg_descriptor \<Rightarrow> nat \<Rightarrow> nat \<Rightarrow> nat \<Rightarrow> bg_descriptor" where
  "make_bg_descriptor bd bg_id bg_start bg_size =
     (let itable = NVFUSE_DBITMAP_OFFSET + NVFUSE_DBITMAP_SIZE;
          itable_size = NVFUSE_INODE_PER_BG * INODE_ENTRY_SIZE div CLUSTER_SIZE;
          dtable = itable + itable_size
      in bd\<lparr>bd_magic := NVFUSE_BD_MAGIC, bd_owner := 0, bd_id := bg_id,
            bd_bg_start := bg_start,
            bd_bd_start := NVFUSE_BD_OFFSET + bg_start,
            bd_ibitmap_start := NVFUSE_IBITMAP_OFFSET + bg_start,
            bd_ibitmap_size := NVFUSE_DBITMAP_SIZE,
            bd_max_inodes := NVFUSE_INODE_PER_BG,
            bd_max_blocks := NVFUSE_DATA_PER_BG,
            bd_dbitmap_start := NVFUSE_DBITMAP_OFFSET + bg_start,
            bd_dbitmap_size := NVFUSE_DBITMAP_SIZE,
            bd_itable_start := itable + bg_start,
            bd_itable_size := itable_size,
            bd_dtable_start := dtable + bg_start,
            bd_dtable_size := bg_size - dtable,
            bd_free_inodes := NVFUSE_INODE_PER_BG,
            bd_free_blocks := NVFUSE_DATA_PER_BG - dtable\<rparr>)"

definition is_sb :: "superblock \<Rightarrow> bool" where
  "is_sb sb = (sb_signature sb = NVFUSE_SB_SIGNATURE)"

definition is_bd :: "bg_descriptor \<Rightarrow> bool" where
  "is_bd bd = (bd_magic bd = NVFUSE_BD_SIGNATURE)"

section \<open>Translation of logical to physical blocks\<close>

text \<open>\<open>nvfuse_get_bd\<close> reads the in-memory array of descriptors and asserts that the
  entry is the right one; an index past the array is undefined.\<close>

definition get_bd :: "bg_descriptor list \<Rightarrow> nat \<Rightarrow> bg_descriptor option" where
  "get_bd bds bg_id =
     (if length bds \<le> bg_id then None
      else do { assert_opt (bg_id = bd_id (bds ! bg_id)); Some (bds ! bg_id) })"

text \<open>\<open>nvfuse_get_pbn\<close>.  \<open>getblk\<close> is the translation of the blocks of an ordinary
  inode by its block map; an inode number below the root gives
  \<open>NVFUSE_ERROR\<close> (\<open>-1\<close>) as an unsigned value.\<close>

definition get_pbn :: "bg_descriptor list \<Rightarrow> nat \<Rightarrow> nat \<Rightarrow> (nat \<Rightarrow> nat \<Rightarrow> nat option) \<Rightarrow> nat \<Rightarrow> nat \<Rightarrow> nat option" where
  "get_pbn bds inodes_per_bg blocks_per_bg getblk ino offset =
     (if ino < ROOT_INO then Some (2 ^ 32 - 1)
      else if ino = BLOCK_IO_INO then Some offset
      else if ino = ITABLE_INO then do {
        bd \<leftarrow> get_bd bds (offset div (inodes_per_bg div INODE_ENTRY_NUM));
        Some (bd_itable_start bd + offset mod bd_itable_size bd) }
      else if ino = DBITMAP_INO then do { bd \<leftarrow> get_bd bds offset; Some (bd_dbitmap_start bd) }
      else if ino = IBITMAP_INO then do { bd \<leftarrow> get_bd bds offset; Some (bd_ibitmap_start bd) }
      else if ino = BD_INO then Some (offset * blocks_per_bg + NVFUSE_BD_OFFSET)
      else getblk ino offset)"

section \<open>Well-formed descriptors\<close>

text \<open>The fixed fields of the descriptor of group \<open>b\<close>.\<close>

definition bd_ok :: "nat \<Rightarrow> bg_descriptor \<Rightarrow> bool" where
  "bd_ok b bd \<longleftrightarrow> bd_magic bd = NVFUSE_BD_MAGIC \<and> bd_id bd = b \<and> bd_bg_start bd = b * 32768
     \<and> bd_bd_start bd = b * 32768 + 1 \<and> bd_ibitmap_start bd = b * 32768 + 2
     \<and> bd_dbitmap_start bd = b * 32768 + 3 \<and> bd_itable_start bd = b * 32768 + 4
     \<and> bd_itable_size bd = 4096 \<and> bd_dtable_start bd = b * 32768 + 4100
     \<and> bd_max_inodes bd = 4096 \<and> bd_max_blocks bd = 32768"

lemma make_bg_descriptor_ok: "bd_ok b (make_bg_descriptor bd b (b * 32768) 32768)"
  by (simp add: bd_ok_def make_bg_descriptor_def Let_def layout_consts)

lemma make_bg_descriptor_free:
  "bd_free_inodes (make_bg_descriptor bd b s n) = 4096"
  "bd_free_blocks (make_bg_descriptor bd b s n) = 28668"
  "bd_next_block (make_bg_descriptor bd b s n) = bd_next_block bd"
  by (simp_all add: make_bg_descriptor_def Let_def layout_consts)

lemma bd_ok_upd [simp]:
  "bd_ok b (bd\<lparr>bd_free_inodes := x\<rparr>) = bd_ok b bd"
  "bd_ok b (bd\<lparr>bd_free_blocks := x\<rparr>) = bd_ok b bd"
  "bd_ok b (bd\<lparr>bd_next_block := x\<rparr>) = bd_ok b bd"
  "bd_ok b (bd\<lparr>bd_owner := y\<rparr>) = bd_ok b bd"
  by (simp_all add: bd_ok_def)

definition bds_ok :: "bg_descriptor list \<Rightarrow> bool" where
  "bds_ok bds \<longleftrightarrow> (\<forall>b < length bds. bd_ok b (bds ! b))"

lemma get_bd_ok: "bds_ok bds \<Longrightarrow> b < length bds \<Longrightarrow> get_bd bds b = Some (bds ! b)"
  by (simp add: get_bd_def bds_ok_def bd_ok_def)

section \<open>Addresses of metadata blocks\<close>

definition meta_range :: "nat \<Rightarrow> nat \<Rightarrow> nat \<Rightarrow> bool" where
  "meta_range n ino off \<longleftrightarrow> (ino = BD_INO \<or> ino = IBITMAP_INO \<or> ino = DBITMAP_INO) \<and> off < n
     \<or> ino = ITABLE_INO \<and> off < n * 4096"

definition meta_slot :: "nat \<Rightarrow> nat \<Rightarrow> nat" where
  "meta_slot ino off =
     (if ino = BD_INO then off * 32768 + 1
      else if ino = IBITMAP_INO then off * 32768 + 2
      else if ino = DBITMAP_INO then off * 32768 + 3
      else (off div 4096) * 32768 + 4 + off mod 4096)"

lemma get_pbn_meta:
  assumes "bds_ok bds" "meta_range (length bds) ino off"
  shows "get_pbn bds 4096 32768 getblk ino off = Some (meta_slot ino off)"
proof -
  have i: "off div 4096 < length bds" if "off < length bds * 4096"
    using that by (simp add: less_mult_imp_div_less)
  show ?thesis
    using assms i get_bd_ok [OF assms(1)]
    by (auto simp: get_pbn_def meta_range_def meta_slot_def ino_consts INODE_ENTRY_NUM_def
        NVFUSE_BD_OFFSET_def bds_ok_def bd_ok_def)
qed

lemma slot_split:
  assumes "r < (32768::nat)"
  shows "(b * 32768 + r) div 32768 = b \<and> (b * 32768 + r) mod 32768 = r"
  using assms by simp

lemma meta_slot_parts:
  assumes "meta_range n ino off"
  shows "meta_slot ino off mod 32768 < 4100
    \<and> (meta_slot ino off mod 32768 = 1 \<longrightarrow> ino = BD_INO \<and> off = meta_slot ino off div 32768)
    \<and> (meta_slot ino off mod 32768 = 2 \<longrightarrow> ino = IBITMAP_INO \<and> off = meta_slot ino off div 32768)
    \<and> (meta_slot ino off mod 32768 = 3 \<longrightarrow> ino = DBITMAP_INO \<and> off = meta_slot ino off div 32768)
    \<and> (4 \<le> meta_slot ino off mod 32768 \<longrightarrow> ino = ITABLE_INO
         \<and> off = meta_slot ino off div 32768 * 4096 + (meta_slot ino off mod 32768 - 4))
    \<and> 1 \<le> meta_slot ino off mod 32768"
proof -
  have "off mod 4096 < 4096" by simp
  then have r: "4 + off mod 4096 < 32768" "off mod 4096 < 4096" by simp_all
  have it: "(off div 4096) * 32768 + 4 + off mod 4096 = (off div 4096) * 32768 + (4 + off mod 4096)" by simp
  show ?thesis
    using assms slot_split [of 1 off] slot_split [of 2 off] slot_split [of 3 off]
      slot_split [OF r(1), of "off div 4096"] r(2)
    by (auto simp: meta_range_def meta_slot_def ino_consts it)
qed

section \<open>Properties\<close>

text \<open>C30: the metadata blocks of the file system do not overlap.  With well-formed
  descriptors, \<open>nvfuse_get_pbn\<close> maps the descriptor, the inode bitmap, the data
  bitmap and every inode of the table to physical blocks such that two equal
  physical blocks come from the same metadata inode and the same offset, and
  none of them lies in the data area of a block group.\<close>

theorem metadata_blocks_disjoint:
  assumes "bds_ok bds"
    and "meta_range (length bds) ino off" "meta_range (length bds) ino' off'"
    and "get_pbn bds 4096 32768 getblk ino off = Some p"
  shows "(get_pbn bds 4096 32768 getblk ino' off' = Some p \<longrightarrow> ino' = ino \<and> off' = off)
    \<and> p div 32768 < length bds \<and> p mod 32768 < 4100"
proof -
  have p: "p = meta_slot ino off" using get_pbn_meta [OF assms(1,2)] assms(4) by simp
  have q: "get_pbn bds 4096 32768 getblk ino' off' = Some (meta_slot ino' off')"
    using get_pbn_meta [OF assms(1,3)] .
  note a = meta_slot_parts [OF assms(2)] and b = meta_slot_parts [OF assms(3)]
  have "ino' = ino \<and> off' = off" if "meta_slot ino' off' = meta_slot ino off"
  proof -
    consider "meta_slot ino off mod 32768 = 1" | "meta_slot ino off mod 32768 = 2"
      | "meta_slot ino off mod 32768 = 3" | "4 \<le> meta_slot ino off mod 32768"
      using a by linarith
    then show ?thesis
      using a b that by cases (metis, metis, metis, metis)
  qed
  moreover have "p div 32768 < length bds"
  proof -
    have "off div 4096 < length bds" if "off < length bds * 4096"
      using that by (simp add: less_mult_imp_div_less)
    then show ?thesis using assms(2) unfolding p
      by (auto simp: meta_range_def meta_slot_def ino_consts)
  qed
  ultimately show ?thesis using p q a by auto
qed

theorem metadata_blocks_disjoint_witness:
  "get_pbn [make_bg_descriptor zero_bd 0 0 32768] 4096 32768 (\<lambda>_ _. None) BD_INO 0 \<noteq>
   get_pbn [make_bg_descriptor zero_bd 0 0 32768] 4096 32768 (\<lambda>_ _. None) IBITMAP_INO 0"
proof -
  have ok: "bds_ok [make_bg_descriptor zero_bd 0 0 32768]"
    using make_bg_descriptor_ok [of 0 zero_bd] by (simp add: bds_ok_def)
  have "get_pbn [make_bg_descriptor zero_bd 0 0 32768] 4096 32768 (\<lambda>_ _. None) BD_INO 0 = Some 1"
    by (simp add: get_pbn_def ino_consts NVFUSE_BD_OFFSET_def)
  from metadata_blocks_disjoint [OF ok _ _ this, of IBITMAP_INO 0] this show ?thesis
    by (auto simp: meta_range_def ino_consts)
qed

text \<open>the test \<open>nvfuse_is_bd\<close> compares the magic number with a signature that
  formatting never writes, so it rejects every descriptor made by
  \<open>nvfuse_make_bg_descriptor\<close>.\<close>

theorem is_bd_rejects_formatted:
  "\<not> is_bd (make_bg_descriptor bd bg_id bg_start bg_size)"
  by (simp add: is_bd_def make_bg_descriptor_def Let_def NVFUSE_BD_MAGIC_def NVFUSE_BD_SIGNATURE_def)

end
