(* ===== verification/Mkfs.thy ===== *)
theory Mkfs
  imports Layout
begin

text \<open>
  Formatting, \<open>nvfuse_mkfs.c\<close>: \<open>nvfuse_format\<close> with \<open>nvfuse_format_bg\<close>
  (\<open>nvfuse_format_write_bd\<close>, \<open>nvfuse_format_metadata_zeroing\<close>) and
  \<open>nvfuse_alloc_root_inode_direct\<close>.

  The device is a map from block numbers to the structure a cluster holds
  (\<open>cluster\<close>); reading a cluster as another structure than the last one written
  there is \<open>None\<close>.  The low-level device format, memory allocation and the clock
  are not modelled: buffers are always obtained, and \<open>now\<close> is the time.
\<close>

datatype cluster =
    CRaw
  | CBd bg_descriptor
  | CBitmap bitmap
  | CInode inode
  | CDir "dir_entry list"
  | CSuper superblock

type_synonym disk = "nat \<Rightarrow> cluster"

fun read_bd :: "cluster \<Rightarrow> bg_descriptor option" where
  "read_bd (CBd bd) = Some bd"
| "read_bd _ = None"

fun read_bitmap :: "cluster \<Rightarrow> bitmap option" where
  "read_bitmap (CBitmap b) = Some b"
| "read_bitmap _ = None"

definition zero_bitmap :: bitmap where
  "zero_bitmap = replicate CLUSTER_SIZE 0"

section \<open>Operations\<close>

definition write_bd_step :: "nat \<Rightarrow> nat \<Rightarrow> disk \<times> superblock \<Rightarrow> disk \<times> superblock" where
  "write_bd_step bg_size bg_id = (\<lambda>(d, sb).
     let bd = make_bg_descriptor zero_bd bg_id (bg_id * bg_size) bg_size
     in (d(bd_bd_start bd := CBd bd),
         sb\<lparr>sb_free_inodes := sb_free_inodes sb + int (bd_free_inodes bd),
            sb_free_blocks := sb_free_blocks sb + int (bd_free_blocks bd)\<rparr>))"

definition format_write_bd :: "nat \<Rightarrow> nat \<Rightarrow> disk \<times> superblock \<Rightarrow> disk \<times> superblock" where
  "format_write_bd num_bgs bg_size = fold (write_bd_step bg_size) [0..<num_bgs]"

definition reserved_bitmap :: "bg_descriptor \<Rightarrow> nat \<Rightarrow> bitmap" where
  "reserved_bitmap bd bg_size =
     fold (\<lambda>clu. bset (clu mod bg_size)) [bd_bg_start bd..<bd_itable_start bd + bd_itable_size bd] zero_bitmap"

definition zeroing_step :: "nat \<Rightarrow> nat \<Rightarrow> disk \<Rightarrow> disk" where
  "zeroing_step bg_size bg_id d =
     (let bd = make_bg_descriptor zero_bd bg_id (bg_id * bg_size) bg_size
      in d(bd_ibitmap_start bd := CBitmap zero_bitmap,
           bd_dbitmap_start bd := CBitmap (reserved_bitmap bd bg_size)))"

definition format_metadata_zeroing :: "nat \<Rightarrow> nat \<Rightarrow> disk \<Rightarrow> disk" where
  "format_metadata_zeroing num_bgs bg_size = fold (zeroing_step bg_size) [0..<num_bgs]"

definition format_bg :: "nat \<Rightarrow> nat \<Rightarrow> disk \<times> superblock \<Rightarrow> disk \<times> superblock" where
  "format_bg num_bgs bg_size ds =
     (let (d, sb) = format_write_bd num_bgs bg_size ds
      in (format_metadata_zeroing num_bgs bg_size d, sb))"

definition root_inode :: "nat \<Rightarrow> nat \<Rightarrow> inode" where
  "root_inode now dtable =
     zero_inode\<lparr>i_ino := ROOT_INO, i_type := NVFUSE_TYPE_DIRECTORY,
       i_size := int (DIR_ENTRY_SIZE * DIR_ENTRY_NUM), i_version := 1, i_ptr := 1,
       i_gid := 0, i_uid := 0, i_mode := 384 + 16384,
       i_atime := now, i_ctime := now, i_mtime := now, i_links_count := 2,
       i_blocks := (replicate 14 0)[0 := dtable]\<rparr>"

definition root_dentries :: "dir_entry list" where
  "root_dentries =
     \<lparr>d_ino = ROOT_INO, d_flag = DIR_USED, d_version = 0, d_filename = ''.''\<rparr> #
     \<lparr>d_ino = ROOT_INO, d_flag = DIR_USED, d_version = 0, d_filename = ''..''\<rparr> #
     replicate (DIR_ENTRY_NUM - 2) zero_dentry"

definition alloc_root_inode_direct :: "nat \<Rightarrow> nat \<Rightarrow> nat \<Rightarrow> disk \<times> superblock \<Rightarrow> (disk \<times> superblock) option" where
  "alloc_root_inode_direct now bg_id bg_size ds =
     (let (d, sb) = ds; bdb = bg_id * bg_size + NVFUSE_BD_OFFSET in
      do {
        bd \<leftarrow> read_bd (d bdb);
        assert_opt (bd_magic bd = NVFUSE_BD_MAGIC);
        assert_opt (bd_id bd = bg_id);
        ibm \<leftarrow> read_bitmap (d (bd_ibitmap_start bd));
        dbm \<leftarrow> read_bitmap (d (bd_dbitmap_start bd));
        let ibm' = fold bset [0..<NUM_RESV_INO] ibm;
            dbm' = bset (bd_dtable_start bd mod bg_size) dbm;
            bd' = bd\<lparr>bd_free_inodes := u32_sub (bd_free_inodes bd) NUM_RESV_INO,
                     bd_free_blocks := u32_sub (bd_free_blocks bd) 1\<rparr>;
            sb' = sb\<lparr>sb_free_inodes := sb_free_inodes sb - int NUM_RESV_INO,
                     sb_free_blocks := sb_free_blocks sb - 1\<rparr>;
            d1 = d(bd_ibitmap_start bd := CBitmap ibm', bd_dbitmap_start bd := CBitmap dbm');
            d2 = fold (\<lambda>ino d. d(bd_itable_start bd + ino :=
                   CInode (if ino = ROOT_INO then root_inode now (bd_dtable_start bd) else zero_inode)))
                 [0..<NUM_RESV_INO] d1;
            d3 = d2(bd_dtable_start bd := CDir root_dentries, bdb := CBd bd')
        in Some (d3, sb')
      })"

definition BG_CLU_BITS :: nat where "BG_CLU_BITS = 15"

definition nvfuse_format :: "nat \<Rightarrow> nat \<Rightarrow> disk \<Rightarrow> disk option" where
  "nvfuse_format now num_sectors d =
    do {
      let num_clu = num_sectors div 8;
          num_bg = num_clu div 2 ^ BG_CLU_BITS;
          num_clu = num_bg * 2 ^ BG_CLU_BITS;
          bg_p_clu = 2 ^ BG_CLU_BITS;
          ds = format_bg num_bg bg_p_clu (d, zero_sb)
      in do {
        assert_opt (num_sectors \<noteq> 0 \<and> num_sectors div 8 \<noteq> 0);
        (d, sb) \<leftarrow> alloc_root_inode_direct now 0 bg_p_clu ds;
        Some (d(0 := CSuper (sb\<lparr>sb_signature := NVFUSE_SB_SIGNATURE,
               sb_no_of_inodes_per_bg := NVFUSE_INODE_PER_BG,
               sb_no_of_blocks_per_bg := NVFUSE_DATA_PER_BG,
               sb_root_ino := ROOT_INO,
               sb_bg_num := num_clu div 2 ^ BG_CLU_BITS,
               sb_no_of_blocks := int (num_clu div 2 ^ BG_CLU_BITS * bg_p_clu),
               sb_no_of_sectors := int (num_clu div 2 ^ BG_CLU_BITS * bg_p_clu * 8),
               sb_state := FS_STATE_FORMATTED\<rparr>)))
      }
    }"

section \<open>What formatting writes\<close>

definition fresh_bd :: "nat \<Rightarrow> bg_descriptor" where
  "fresh_bd b = make_bg_descriptor zero_bd b (b * 32768) 32768"

definition fresh_dbm :: "nat \<Rightarrow> bitmap" where
  "fresh_dbm b = reserved_bitmap (fresh_bd b) 32768"

lemma fresh_bd_starts [simp]:
  "bd_bd_start (fresh_bd b) = b * 32768 + 1"
  "bd_ibitmap_start (fresh_bd b) = b * 32768 + 2"
  "bd_dbitmap_start (fresh_bd b) = b * 32768 + 3"
  "bd_itable_start (fresh_bd b) = b * 32768 + 4"
  "bd_dtable_start (fresh_bd b) = b * 32768 + 4100"
  "bd_itable_size (fresh_bd b) = 4096"
  "bd_bg_start (fresh_bd b) = b * 32768"
  "bd_magic (fresh_bd b) = NVFUSE_BD_MAGIC"
  "bd_id (fresh_bd b) = b"
  "bd_free_inodes (fresh_bd b) = 4096"
  "bd_free_blocks (fresh_bd b) = 28668"
  using make_bg_descriptor_ok [of b zero_bd]
  by (simp_all add: bd_ok_def fresh_bd_def make_bg_descriptor_free)

lemma fresh_bd_ok: "bd_ok b (fresh_bd b)"
  using make_bg_descriptor_ok [of b zero_bd] by (simp add: fresh_bd_def)

lemma slot_Suc:
  "r < 32768 \<Longrightarrow> (x mod 32768 = r \<and> x div 32768 < Suc n) \<longleftrightarrow> x = n * 32768 + r \<or> (x mod 32768 = r \<and> x div 32768 < n)"
  for x r :: nat
  by (auto simp: less_Suc_eq)

lemma format_write_bd_eq:
  "format_write_bd n 32768 (d, sb) =
    (\<lambda>x. if x mod 32768 = 1 \<and> x div 32768 < n then CBd (fresh_bd (x div 32768)) else d x,
     sb\<lparr>sb_free_inodes := sb_free_inodes sb + 4096 * int n,
        sb_free_blocks := sb_free_blocks sb + 28668 * int n\<rparr>)"
proof (induction n)
  case (Suc n)
  have "format_write_bd (Suc n) 32768 (d, sb) = write_bd_step 32768 n (format_write_bd n 32768 (d, sb))"
    by (simp add: format_write_bd_def)
  then show ?case unfolding Suc.IH
    using slot_Suc [of 1 _ n] slot_split [of 1 n]
    by (auto simp: write_bd_step_def Let_def fresh_bd_def [symmetric] fun_eq_iff algebra_simps)
qed (simp add: format_write_bd_def)

lemma format_zeroing_eq:
  "format_metadata_zeroing n 32768 d =
    (\<lambda>x. if x mod 32768 = 2 \<and> x div 32768 < n then CBitmap zero_bitmap
         else if x mod 32768 = 3 \<and> x div 32768 < n then CBitmap (fresh_dbm (x div 32768)) else d x)"
proof (induction n)
  case (Suc n)
  have "format_metadata_zeroing (Suc n) 32768 d = zeroing_step 32768 n (format_metadata_zeroing n 32768 d)"
    by (simp add: format_metadata_zeroing_def)
  then show ?case unfolding Suc.IH
    using slot_Suc [of 2 _ n] slot_Suc [of 3 _ n]
    by (auto simp: zeroing_step_def Let_def fresh_bd_def [symmetric] fresh_dbm_def [symmetric] fun_eq_iff)
qed (simp add: format_metadata_zeroing_def)

lemma zero_bitmap_bits: "length zero_bitmap = 4096" "i < 32768 \<Longrightarrow> \<not> tst zero_bitmap i"
  using tst_zero [of i 4096] by (simp_all add: zero_bitmap_def CLUSTER_SIZE_def)

lemma fresh_dbm_bits:
  "length (fresh_dbm b) = 4096" "i < 32768 \<Longrightarrow> tst (fresh_dbm b) i \<longleftrightarrow> i < 4100"
proof -
  have m: "fresh_dbm b = fold bset (map (\<lambda>clu. clu mod 32768) [b * 32768..<b * 32768 + 4100]) zero_bitmap"
    by (simp add: fresh_dbm_def reserved_bitmap_def fold_map comp_def add.commute)
  have "map (\<lambda>clu. clu mod 32768) [b * 32768..<b * 32768 + 4100] = [0..<4100]"
  proof (rule nth_equalityI)
    fix i assume "i < length (map (\<lambda>clu. clu mod 32768) [b * 32768..<b * 32768 + 4100])"
    then show "map (\<lambda>clu. clu mod 32768) [b * 32768..<b * 32768 + 4100] ! i = [0..<4100] ! i" by simp
  qed simp
  with m have e: "fresh_dbm b = fold bset [0..<4100] zero_bitmap" by simp
  show "length (fresh_dbm b) = 4096"
    using bm.cap_fold_put1 [of "[0..<4100]" zero_bitmap] zero_bitmap_bits(1) unfolding e by simp
  assume "i < 32768"
  then show "tst (fresh_dbm b) i \<longleftrightarrow> i < 4100"
    unfolding e using bm.get_fold_put1 [of "[0..<4100]" zero_bitmap i] zero_bitmap_bits by auto
qed

section \<open>The formatted file system\<close>

text \<open>The parts of a disk that the allocator works on: descriptor and bitmaps of a
  block group, read at the addresses of \<open>nvfuse_get_pbn\<close>.\<close>

definition bd_at :: "disk \<Rightarrow> nat \<Rightarrow> bg_descriptor option" where
  "bd_at d b = read_bd (d (b * 32768 + 1))"

definition ibm_at :: "disk \<Rightarrow> nat \<Rightarrow> bitmap option" where
  "ibm_at d b = read_bitmap (d (2 + b * 32768))"

definition dbm_at :: "disk \<Rightarrow> nat \<Rightarrow> bitmap option" where
  "dbm_at d b = read_bitmap (d (3 + b * 32768))"

definition bg_consistent :: "nat \<Rightarrow> bg_descriptor \<Rightarrow> bitmap \<Rightarrow> bitmap \<Rightarrow> bool" where
  "bg_consistent b bd im dm \<longleftrightarrow> bd_ok b bd \<and> length im = 4096 \<and> length dm = 4096
     \<and> bd_free_inodes bd = count_pos (\<lambda>i. \<not> tst im i) 4096
     \<and> bd_free_blocks bd = count_pos (\<lambda>i. \<not> tst dm i) 32768
     \<and> (\<forall>i < 4100. tst dm i)"

lemma fresh_consistent: "bg_consistent b (fresh_bd b) zero_bitmap (fresh_dbm b)"
proof -
  have "count_pos (\<lambda>i. \<not> tst zero_bitmap i) 4096 = 4096"
    by (rule count_pos_all) (simp add: zero_bitmap_bits)
  moreover have "count_pos (\<lambda>i. \<not> tst (fresh_dbm b) i) 32768 = count_pos (\<lambda>i. 4100 \<le> i) 32768"
    by (rule count_pos_cong) (simp add: fresh_dbm_bits not_less)
  ultimately show ?thesis
    using fresh_bd_ok [of b] zero_bitmap_bits(1) fresh_dbm_bits(1) [of b]
    by (simp add: bg_consistent_def count_pos_ge fresh_dbm_bits(2))
qed

abbreviation root_ibm :: bitmap where
  "root_ibm \<equiv> fold bset [0..<NUM_RESV_INO] zero_bitmap"

abbreviation root_dbm :: bitmap where
  "root_dbm \<equiv> bset 4100 (fresh_dbm 0)"

abbreviation root_bd :: bg_descriptor where
  "root_bd \<equiv> (fresh_bd 0)\<lparr>bd_free_inodes := 4088, bd_free_blocks := 28667\<rparr>"

lemma root_consistent: "bg_consistent 0 root_bd root_ibm root_dbm"
proof -
  have l: "length root_ibm = 4096"
    using bm.cap_fold_put1 [of "[0..<NUM_RESV_INO]" zero_bitmap] zero_bitmap_bits(1) by simp
  have i: "tst root_ibm k \<longleftrightarrow> k < 8" if "k < 32768" for k
    using bm.get_fold_put1 [of "[0..<NUM_RESV_INO]" zero_bitmap k] zero_bitmap_bits that
    by (auto simp: NUM_RESV_INO_def)
  have d: "tst root_dbm k \<longleftrightarrow> k < 4101" if "k < 32768" for k
    using tst_bset [of 4100 "fresh_dbm 0" k] fresh_dbm_bits [of 0] fresh_dbm_bits(2) [of k 0] that by auto
  have "count_pos (\<lambda>k. \<not> tst root_ibm k) 4096 = count_pos (\<lambda>k. 8 \<le> k) 4096"
    by (rule count_pos_cong) (simp add: i not_less)
  moreover have "count_pos (\<lambda>k. \<not> tst root_dbm k) 32768 = count_pos (\<lambda>k. 4101 \<le> k) 32768"
    by (rule count_pos_cong) (simp add: d not_less)
  ultimately show ?thesis
    using fresh_bd_ok [of 0] l fresh_dbm_bits(1) [of 0]
    by (simp add: bg_consistent_def count_pos_ge d)
qed

definition formatted_sb :: "nat \<Rightarrow> superblock" where
  "formatted_sb n = \<lparr>sb_signature = NVFUSE_SB_SIGNATURE, sb_no_of_sectors = int (n * 32768 * 8),
     sb_no_of_blocks = int (n * 32768), sb_no_of_used_blocks = 0, sb_no_of_inodes_per_bg = 4096,
     sb_no_of_blocks_per_bg = 32768, sb_root_ino = ROOT_INO, sb_free_inodes = 4096 * int n - 8,
     sb_free_blocks = 28668 * int n - 1, sb_bg_num = n, sb_state = FS_STATE_FORMATTED\<rparr>"

lemma fold_inode_writes:
  "fold (\<lambda>ino d. d(s + ino := f ino)) [0..<k] d x = (if s \<le> x \<and> x < s + k then f (x - s) else d x)"
  for s k x :: nat
  by (induction k) auto

lemma format_eq:
  assumes "0 < n" "num_sectors div 8 div 32768 = n"
  shows "\<exists>d'. nvfuse_format now num_sectors d = Some d' \<and> d' 0 = CSuper (formatted_sb n)
    \<and> d' 1 = CBd root_bd \<and> d' 2 = CBitmap root_ibm \<and> d' 3 = CBitmap root_dbm
    \<and> d' 4100 = CDir root_dentries \<and> d' 6 = CInode (root_inode now 4100)
    \<and> (\<forall>b. 0 < b \<longrightarrow> b < n \<longrightarrow> d' (b * 32768 + 1) = CBd (fresh_bd b)
        \<and> d' (b * 32768 + 2) = CBitmap zero_bitmap \<and> d' (b * 32768 + 3) = CBitmap (fresh_dbm b))"
proof -
  define ds where "ds = format_bg n 32768 (d, zero_sb)"
  obtain d0 sb0 where p: "ds = (d0, sb0)" by fastforce
  have ns: "num_sectors \<noteq> 0 \<and> num_sectors div 8 \<noteq> 0" using assms by auto
  have sb0: "sb0 = zero_sb\<lparr>sb_free_inodes := 4096 * int n, sb_free_blocks := 28668 * int n\<rparr>"
    using p by (simp add: ds_def format_bg_def format_write_bd_eq zero_sb_def)
  have d0: "d0 x = (if x mod 32768 = 2 \<and> x div 32768 < n then CBitmap zero_bitmap
       else if x mod 32768 = 3 \<and> x div 32768 < n then CBitmap (fresh_dbm (x div 32768))
       else if x mod 32768 = 1 \<and> x div 32768 < n then CBd (fresh_bd (x div 32768)) else d x)" for x
    using p by (auto simp: ds_def format_bg_def format_write_bd_eq format_zeroing_eq)
  have b0: "d0 1 = CBd (fresh_bd 0)" "d0 2 = CBitmap zero_bitmap" "d0 3 = CBitmap (fresh_dbm 0)"
    using assms(1) by (simp_all add: d0)
  have bn: "d0 (b * 32768 + 1) = CBd (fresh_bd b)" "d0 (b * 32768 + 2) = CBitmap zero_bitmap"
    "d0 (b * 32768 + 3) = CBitmap (fresh_dbm b)" if "b < n" for b
    using that slot_split [of 1 b] slot_split [of 2 b] slot_split [of 3 b] by (simp_all add: d0)
  define d2 where "d2 = fold (\<lambda>ino d. d(4 + ino :=
      CInode (if ino = ROOT_INO then root_inode now 4100 else zero_inode))) [0..<NUM_RESV_INO]
      (d0(2 := CBitmap root_ibm, 3 := CBitmap root_dbm))"
  define d3 where "d3 = d2(4100 := CDir root_dentries, 1 := CBd root_bd)"
  have f0: "bd_magic (fresh_bd 0) = NVFUSE_BD_MAGIC" "bd_id (fresh_bd 0) = 0" "bd_ibitmap_start (fresh_bd 0) = 2"
    "bd_dbitmap_start (fresh_bd 0) = 3" "bd_itable_start (fresh_bd 0) = 4" "bd_dtable_start (fresh_bd 0) = 4100"
    "bd_free_inodes (fresh_bd 0) = 4096" "bd_free_blocks (fresh_bd 0) = 28668"
    by (simp_all add: numeral_2_eq_2)
  have root: "alloc_root_inode_direct now 0 32768 (d0, sb0) = Some (d3,
      sb0\<lparr>sb_free_inodes := sb_free_inodes sb0 - 8, sb_free_blocks := sb_free_blocks sb0 - 1\<rparr>)"
    using b0 f0 by (simp del: fresh_bd_starts add: alloc_root_inode_direct_def NVFUSE_BD_OFFSET_def
        d3_def d2_def Let_def u32_sub_small NUM_RESV_INO_def cong: if_cong)
  define d' where "d' = d3(0 := CSuper (formatted_sb n))"
  have fmt: "nvfuse_format now num_sectors d = Some d'"
    using assms ns p root
    by (simp add: nvfuse_format_def BG_CLU_BITS_def ds_def Let_def d'_def formatted_sb_def sb0 zero_sb_def
        layout_consts)
  have d2x: "d2 x = (if 4 \<le> x \<and> x < 12 then CInode (if x = 6 then root_inode now 4100 else zero_inode)
      else if x = 3 then CBitmap root_dbm else if x = 2 then CBitmap root_ibm else d0 x)" for x
    unfolding d2_def fold_inode_writes by (auto simp: NUM_RESV_INO_def ROOT_INO_def)
  have far: "d' (b * 32768 + r) = d0 (b * 32768 + r)" if "0 < b" for b r
    using that by (simp add: d'_def d3_def d2x)
  have "d' 0 = CSuper (formatted_sb n)" "d' 1 = CBd root_bd" "d' 2 = CBitmap root_ibm"
    "d' 3 = CBitmap root_dbm" "d' 4100 = CDir root_dentries" "d' 6 = CInode (root_inode now 4100)"
    by (simp_all add: d'_def d3_def d2x)
  moreover have "d' (b * 32768 + 1) = CBd (fresh_bd b) \<and> d' (b * 32768 + 2) = CBitmap zero_bitmap
      \<and> d' (b * 32768 + 3) = CBitmap (fresh_dbm b)" if "0 < b" "b < n" for b
    unfolding far [OF that(1)] using bn [OF that(2)] by blast
  ultimately show ?thesis using fmt by blast
qed

section \<open>Properties\<close>



end
