(* ===== verification/Alloc.thy ===== *)
theory Alloc
  imports Mkfs
begin

text \<open>
  Allocation and release of inodes and data blocks: the functions of
  \<open>nvfuse_core.c\<close> that work on the block group descriptors and the two bitmaps
  (\<open>nvfuse_scan_free_ibitmap\<close> to \<open>nvfuse_free_blocks\<close>, \<open>nvfuse_alloc_dbitmap\<close>,
  \<open>nvfuse_free_dbitmap\<close>, \<open>nvfuse_alloc_new_inode\<close>, \<open>nvfuse_relocate_delete_inode\<close>) and
  \<open>nvfuse_alloc_free_block\<close>, \<open>nvfuse_return_free_blocks\<close> of \<open>nvfuse_indirect.c\<close>.

  The state is the contents of the cached metadata blocks: descriptor \<open>b\<close> is the
  block \<open>b\<close> of \<open>BD_INO\<close>, the bitmaps are the blocks of \<open>IBITMAP_INO\<close> and
  \<open>DBITMAP_INO\<close>, the inode table that of \<open>ITABLE_INO\<close>; a \<open>nvfuse_get_bh\<close> on a block
  followed by writes and \<open>nvfuse_release_bh(DIRTY)\<close> is an update of that entry,
  which is what the buffer cache provides.  A group number past the last group
  is \<open>None\<close>.  The process model is the standalone one of the configuration, so
  the branches for data-plane processes are not taken; whether the process is
  the primary one of SPDK is the field \<open>fs_primary\<close>.
\<close>

record fs =
  fs_bds :: "bg_descriptor list"
  fs_ibm :: "bitmap list"
  fs_dbm :: "bitmap list"
  fs_itable :: "nat \<Rightarrow> inode"
  fs_sb :: superblock
  fs_asb_free_inodes :: int
  fs_asb_free_blocks :: int
  fs_last_ino :: nat
  fs_last_bgid :: nat
  fs_last_bgid_ino :: nat
  fs_curr_bg :: nat
  fs_primary :: bool

abbreviation ipb :: "fs \<Rightarrow> nat" where "ipb s \<equiv> sb_no_of_inodes_per_bg (fs_sb s)"
abbreviation bpb :: "fs \<Rightarrow> nat" where "bpb s \<equiv> sb_no_of_blocks_per_bg (fs_sb s)"
abbreviation bgn :: "fs \<Rightarrow> nat" where "bgn s \<equiv> sb_bg_num (fs_sb s)"

section \<open>Counters\<close>

definition inc_free_inodes :: "nat \<Rightarrow> fs \<Rightarrow> fs option" where
  "inc_free_inodes ino s =
    (let b = ino div ipb s in do {
       bd \<leftarrow> get_bd (fs_bds s) b;
       let bd' = bd\<lparr>bd_free_inodes := u32_add (bd_free_inodes bd) 1\<rparr> in do {
         assert_opt (bd_free_inodes bd' \<le> bd_max_inodes bd');
         Some (s\<lparr>fs_bds := (fs_bds s)[b := bd'],
                 fs_sb := (fs_sb s)\<lparr>sb_free_inodes := sb_free_inodes (fs_sb s) + 1\<rparr>,
                 fs_asb_free_inodes := fs_asb_free_inodes s + (if fs_primary s then 0 else 1)\<rparr>) }})"

definition dec_free_inodes :: "nat \<Rightarrow> fs \<Rightarrow> fs option" where
  "dec_free_inodes ino s =
    (let b = ino div ipb s in do {
       bd \<leftarrow> get_bd (fs_bds s) b;
       Some (s\<lparr>fs_bds := (fs_bds s)[b := bd\<lparr>bd_free_inodes := u32_sub (bd_free_inodes bd) 1\<rparr>],
               fs_sb := (fs_sb s)\<lparr>sb_free_inodes := sb_free_inodes (fs_sb s) - 1\<rparr>,
               fs_asb_free_inodes := fs_asb_free_inodes s - (if fs_primary s then 0 else 1)\<rparr>) })"

definition inc_free_blocks :: "nat \<Rightarrow> nat \<Rightarrow> fs \<Rightarrow> fs option" where
  "inc_free_blocks blockno cnt s =
    (let b = blockno div bpb s; sb = fs_sb s in do {
       bd \<leftarrow> get_bd (fs_bds s) b;
       let bd' = bd\<lparr>bd_free_blocks := u32_add (bd_free_blocks bd) cnt\<rparr>;
           sb' = sb\<lparr>sb_free_blocks := sb_free_blocks sb + int cnt,
                    sb_no_of_used_blocks := sb_no_of_used_blocks sb - int cnt\<rparr>;
           a' = fs_asb_free_blocks s + (if fs_primary s then 0 else int cnt)
       in do {
         assert_opt (bd_free_blocks bd' \<le> bd_max_blocks bd');
         assert_opt (sb_free_blocks sb' \<le> sb_no_of_blocks sb');
         assert_opt (fs_primary s \<or> a' \<le> sb_no_of_blocks sb');
         assert_opt (0 \<le> sb_no_of_used_blocks sb');
         Some (s\<lparr>fs_bds := (fs_bds s)[b := bd'], fs_sb := sb', fs_asb_free_blocks := a'\<rparr>) }})"

definition dec_free_blocks :: "nat \<Rightarrow> nat \<Rightarrow> fs \<Rightarrow> fs option" where
  "dec_free_blocks blockno cnt s =
    (let b = blockno div bpb s; sb = fs_sb s in do {
       bd \<leftarrow> get_bd (fs_bds s) b;
       let bd' = bd\<lparr>bd_free_blocks := u32_sub (bd_free_blocks bd) cnt\<rparr>;
           sb' = sb\<lparr>sb_free_blocks := sb_free_blocks sb - int cnt,
                    sb_no_of_used_blocks := sb_no_of_used_blocks sb + int cnt\<rparr>;
           a' = fs_asb_free_blocks s - (if fs_primary s then 0 else int cnt)
       in do {
         assert_opt (0 \<le> sb_free_blocks sb');
         assert_opt (fs_primary s \<or> 0 \<le> a');
         assert_opt (sb_no_of_used_blocks sb' \<le> sb_no_of_blocks sb');
         Some (s\<lparr>fs_bds := (fs_bds s)[b := bd'], fs_sb := sb', fs_asb_free_blocks := a'\<rparr>) }})"

definition get_free_blocks :: "nat \<Rightarrow> fs \<Rightarrow> nat option" where
  "get_free_blocks b s = do { bd \<leftarrow> get_bd (fs_bds s) b; Some (bd_free_blocks bd) }"

definition check_free_inode :: "fs \<Rightarrow> bool" where
  "check_free_inode s = (if fs_primary s then sb_free_inodes (fs_sb s) \<noteq> 0 else fs_asb_free_inodes s \<noteq> 0)"

definition check_free_block :: "nat \<Rightarrow> fs \<Rightarrow> bool" where
  "check_free_block num s =
     (if fs_primary s then sb_free_blocks (fs_sb s) \<ge> int num else fs_asb_free_blocks s \<ge> int num)"

section \<open>Inodes\<close>

definition release_ibitmap :: "nat \<Rightarrow> nat \<Rightarrow> fs \<Rightarrow> fs option" where
  "release_ibitmap b ino s = do {
     bd \<leftarrow> get_bd (fs_bds s) b;
     let k = ino mod bd_max_inodes bd; im = fs_ibm s ! b in
     Some (if tst im k then s\<lparr>fs_ibm := (fs_ibm s)[b := bclr k im]\<rparr> else s) }"

definition scan_free_ibitmap :: "nat \<Rightarrow> nat \<Rightarrow> fs \<Rightarrow> (nat \<times> fs) option" where
  "scan_free_ibitmap b hint s = do {
     bd \<leftarrow> get_bd (fs_bds s) b;
     let im = fs_ibm s ! b;
         found = (if bd_free_inodes bd = 0 then None
                  else cyc_find (\<lambda>i. \<not> tst im i) (ipb s) hint (ipb s))
     in case found of
          None \<Rightarrow> Some (0, s)
        | Some i \<Rightarrow> if i < ipb s
            then Some (i + b * bd_max_inodes bd, s\<lparr>fs_ibm := (fs_ibm s)[b := bset i im]\<rparr>)
            else Some (0, s) }"

fun find_inode_loop :: "nat \<Rightarrow> nat \<Rightarrow> nat \<Rightarrow> nat \<Rightarrow> fs \<Rightarrow> (nat \<times> fs) option" where
  "find_inode_loop 0 start b hint s = None"
| "find_inode_loop (Suc k) start b hint s =
    (case scan_free_ibitmap b hint s of
       None \<Rightarrow> None
     | Some (ino, s') \<Rightarrow>
         if ino \<noteq> 0 then Some (ino, s')
         else let b' = (b + 1) mod bgn s' in
              if b' = start then None else find_inode_loop k start b' 0 s')"

definition find_free_inode :: "nat \<Rightarrow> fs \<Rightarrow> (nat \<times> fs) option" where
  "find_free_inode lst s =
     (let b = (if fs_primary s then lst div ipb s else fs_curr_bg s)
      in find_inode_loop (bgn s) b b (lst mod ipb s) s)"

definition alloc_new_inode :: "fs \<Rightarrow> (nat \<times> fs) option" where
  "alloc_new_inode s = do {
     (ino, s1) \<leftarrow> find_free_inode (fs_last_ino s) s;
     s2 \<leftarrow> dec_free_inodes ino s1;
     Some (ino, s2\<lparr>fs_itable := (fs_itable s2)(ino := zero_inode\<lparr>i_ino := ino, i_version := 1\<rparr>),
                   fs_last_ino := ino + 1\<rparr>) }"

definition relocate_delete_inode :: "nat \<Rightarrow> fs \<Rightarrow> fs option" where
  "relocate_delete_inode ino s = do {
     s1 \<leftarrow> inc_free_inodes ino
       (s\<lparr>fs_itable := (fs_itable s)(ino := (fs_itable s ino)\<lparr>i_deleted := 1, i_ino := 0, i_size := 0\<rparr>)\<rparr>);
     release_ibitmap (ino div ipb s1) ino s1 }"

section \<open>Data blocks\<close>

text \<open>The search loop of \<open>nvfuse_alloc_dbitmap\<close>; \<open>n\<close> is the number of blocks of a
  group and \<open>dt\<close> the first data block in it.  Every round raises \<open>cnt\<close>, so \<open>n\<close> rounds
  of fuel are all the loop can make.\<close>

fun dbitmap_loop :: "nat \<Rightarrow> nat \<Rightarrow> nat \<Rightarrow> nat \<Rightarrow> nat \<Rightarrow> nat \<Rightarrow> nat \<Rightarrow> bitmap \<Rightarrow> nat \<Rightarrow> nat list
    \<Rightarrow> bitmap \<times> nat \<times> nat list \<times> nat" where
  "dbitmap_loop 0 n dt start cnt fb num buf next acc = (buf, next, acc, fb)"
| "dbitmap_loop (Suc k) n dt start cnt fb num buf next acc =
    (if \<not> cnt < n then (buf, next, acc, fb)
     else let (fb', cnt') = (if fb = 0 then (dt, cnt + 1 + (dt - 1)) else (fb, cnt + 1)) in
       if \<not> tst buf fb' then
         (let buf' = bset fb' buf; acc' = acc @ [start + fb']; num' = u32_sub num 1 in
          if num' = 0 then (buf', fb', acc', fb')
          else dbitmap_loop k n dt start cnt' ((fb' + 1) mod n) num' buf' fb' acc')
       else dbitmap_loop k n dt start cnt' ((fb' + 1) mod n) num buf next acc)"

definition alloc_dbitmap :: "nat \<Rightarrow> nat \<Rightarrow> fs \<Rightarrow> (nat list \<times> fs) option" where
  "alloc_dbitmap b num s =
     (if length (fs_bds s) \<le> b then None
      else let bd = fs_bds s ! b; n = bpb s;
               (buf, next, blks, fb) = dbitmap_loop n n (bd_dtable_start bd mod n) (bd_bg_start bd) 0
                  (bd_next_block bd mod n) num (fs_dbm s ! b) (bd_next_block bd) [];
               s1 = s\<lparr>fs_bds := (fs_bds s)[b := bd\<lparr>bd_next_block := next\<rparr>], fs_dbm := (fs_dbm s)[b := buf]\<rparr>
           in if blks \<noteq> [] then do {
                s2 \<leftarrow> dec_free_blocks (bd_bg_start bd + fb) (length blks) s1;
                Some (blks, s2) }
              else Some ([], s1))"

fun clear_run :: "nat \<Rightarrow> nat \<Rightarrow> bitmap \<Rightarrow> bitmap option" where
  "clear_run 0 off buf = Some buf"
| "clear_run (Suc k) off buf = (if tst buf off then clear_run k (off + 1) (bclr off buf) else None)"

definition free_dbitmap :: "nat \<Rightarrow> nat \<Rightarrow> nat \<Rightarrow> fs \<Rightarrow> fs option" where
  "free_dbitmap b off cnt s = do {
     bd \<leftarrow> get_bd (fs_bds s) b;
     buf \<leftarrow> clear_run cnt off (fs_dbm s ! b);
     if cnt = 0 then Some s
     else inc_free_blocks (bd_bg_start bd + off) cnt
       (s\<lparr>fs_bds := (fs_bds s)[b := bd\<lparr>bd_next_block := off\<rparr>], fs_dbm := (fs_dbm s)[b := buf]\<rparr>) }"

text \<open>The loop of \<open>nvfuse_free_blocks\<close>, which gathers runs within one group; \<open>k\<close> is
  the number of blocks left.\<close>

fun free_blocks_loop :: "nat \<Rightarrow> nat \<Rightarrow> nat \<Rightarrow> nat \<Rightarrow> nat \<Rightarrow> fs \<Rightarrow> fs option" where
  "free_blocks_loop 0 blk b off len s = Some s"
| "free_blocks_loop (Suc k) blk b off len s =
    (let len' = len + 1; b' = (blk + 1) div bpb s in
     if b \<noteq> b' \<or> k = 0 then do {
       s' \<leftarrow> free_dbitmap b off len' s;
       free_blocks_loop k (blk + 1) b' ((blk + 1) mod bpb s) 0 s' }
     else free_blocks_loop k (blk + 1) b off len' s)"

definition free_blocks :: "nat \<Rightarrow> nat \<Rightarrow> fs \<Rightarrow> fs option" where
  "free_blocks blk cnt s = free_blocks_loop cnt blk (blk div bpb s) (blk mod bpb s) 0 s"

fun alloc_block_loop :: "nat \<Rightarrow> nat \<Rightarrow> nat \<Rightarrow> nat \<Rightarrow> nat \<Rightarrow> nat list \<Rightarrow> fs \<Rightarrow> (nat list \<times> fs) option" where
  "alloc_block_loop 0 ino start b num acc s = None"
| "alloc_block_loop (Suc k) ino start b num acc s = do {
     free \<leftarrow> get_free_blocks b s;
     (num', acc', s') \<leftarrow>
       (if free \<noteq> 0 then do {
          (blks, s1) \<leftarrow> alloc_dbitmap b num s;
          Some (num - length blks, acc @ blks, s1\<lparr>fs_last_bgid := b, fs_last_bgid_ino := ino\<rparr>) }
        else Some (num, acc, s));
     if free \<noteq> 0 \<and> num' = 0 then Some (acc', s')
     else let b' = (b + 1) mod bgn s' in
          if b' = start then (if acc' = [] then None else Some (acc', s'))
          else alloc_block_loop k ino start b' num' acc' s' }"

definition alloc_free_block :: "nat \<Rightarrow> nat \<Rightarrow> fs \<Rightarrow> (nat list \<times> fs) option" where
  "alloc_free_block ino num s =
     (let b = ino div ipb s;
          b = (if b \<noteq> fs_last_bgid s \<and> ino = fs_last_bgid_ino s then fs_last_bgid s else b)
      in alloc_block_loop (bgn s) ino b b num [] s)"

fun return_free_blocks :: "nat list \<Rightarrow> fs \<Rightarrow> fs option" where
  "return_free_blocks [] s = Some s"
| "return_free_blocks (blk # blks) s = do { s' \<leftarrow> free_blocks blk 1 s; return_free_blocks blks s' }"

section \<open>The invariant\<close>

definition inode_used :: "fs \<Rightarrow> nat \<Rightarrow> bool" where
  "inode_used s ino = tst (fs_ibm s ! (ino div 4096)) (ino mod 4096)"

definition block_used :: "fs \<Rightarrow> nat \<Rightarrow> bool" where
  "block_used s blk = tst (fs_dbm s ! (blk div 32768)) (blk mod 32768)"

definition alloc_inv :: "fs \<Rightarrow> bool" where
  "alloc_inv s \<longleftrightarrow> 0 < bgn s \<and> length (fs_bds s) = bgn s \<and> length (fs_ibm s) = bgn s
     \<and> length (fs_dbm s) = bgn s \<and> ipb s = 4096 \<and> bpb s = 32768
     \<and> (\<forall>b < bgn s. bg_consistent b (fs_bds s ! b) (fs_ibm s ! b) (fs_dbm s ! b))
     \<and> (\<forall>i < 8. tst (fs_ibm s ! 0) i)
     \<and> sb_free_inodes (fs_sb s) = int (sum_list (map bd_free_inodes (fs_bds s)))
     \<and> sb_free_blocks (fs_sb s) = int (sum_list (map bd_free_blocks (fs_bds s)))
     \<and> sb_no_of_blocks (fs_sb s) = int (bgn s) * 32768
     \<and> 0 \<le> sb_no_of_used_blocks (fs_sb s)
     \<and> sb_no_of_used_blocks (fs_sb s) + sb_free_blocks (fs_sb s) \<le> sb_no_of_blocks (fs_sb s)"

lemma alloc_invD:
  assumes "alloc_inv s"
  shows "0 < bgn s" "length (fs_bds s) = bgn s" "length (fs_ibm s) = bgn s" "length (fs_dbm s) = bgn s"
    "ipb s = 4096" "bpb s = 32768" "\<And>i. i < 8 \<Longrightarrow> tst (fs_ibm s ! 0) i"
    "\<And>b. b < bgn s \<Longrightarrow> bg_consistent b (fs_bds s ! b) (fs_ibm s ! b) (fs_dbm s ! b)"
  using assms by (simp_all add: alloc_inv_def)

lemma consistentD:
  assumes "bg_consistent b bd im dm"
  shows "bd_ok b bd" "length im = 4096" "length dm = 4096"
    "bd_free_inodes bd = count_pos (\<lambda>i. \<not> tst im i) 4096"
    "bd_free_blocks bd = count_pos (\<lambda>i. \<not> tst dm i) 32768" "\<And>i. i < 4100 \<Longrightarrow> tst dm i"
    "bd_free_inodes bd \<le> 4096" "bd_free_blocks bd \<le> 32768"
  using assms count_pos_le [of "\<lambda>i. \<not> tst im i" 4096] count_pos_le [of "\<lambda>i. \<not> tst dm i" 32768]
  by (simp_all add: bg_consistent_def)

lemma bd_okD:
  assumes "bd_ok b bd"
  shows "bd_id bd = b" "bd_bg_start bd = b * 32768" "bd_dtable_start bd = b * 32768 + 4100"
    "bd_max_inodes bd = 4096" "bd_max_blocks bd = 32768"
  using assms by (simp_all add: bd_ok_def)

lemma alloc_get_bd:
  assumes "alloc_inv s" "b < bgn s"
  shows "get_bd (fs_bds s) b = Some (fs_bds s ! b)"
  using alloc_invD(2,8) [OF assms(1)] assms(2) consistentD(1) bd_okD(1)
  by (force simp: get_bd_def)

text \<open>Replacing the contents of one group keeps the invariant when the group stays
  consistent and the superblock counters move by the same amounts.\<close>

lemma sum_list_map_upd:
  assumes "b < length xs"
  shows "int (sum_list (map f (xs[b := x]))) = int (sum_list (map f xs)) + (int (f x) - int (f (xs ! b)))"
proof -
  have le: "f (xs ! b) \<le> sum_list (map f xs)"
    using assms by (metis elem_le_sum_list length_map nth_map)
  show ?thesis
    using assms le by (simp add: map_update sum_list_update of_nat_diff)
qed

lemma alloc_inv_upd:
  assumes inv: "alloc_inv s" and b: "b < bgn s" and c: "bg_consistent b bd im dm"
    and r: "b = 0 \<Longrightarrow> (\<forall>i<8. tst im i)"
    and f: "fs_bds s' = (fs_bds s)[b := bd]" "fs_ibm s' = (fs_ibm s)[b := im]" "fs_dbm s' = (fs_dbm s)[b := dm]"
    and sb: "fs_sb s' = (fs_sb s)\<lparr>sb_free_inodes := fi, sb_free_blocks := fb, sb_no_of_used_blocks := u\<rparr>"
    and fi: "fi = sb_free_inodes (fs_sb s) + (int (bd_free_inodes bd) - int (bd_free_inodes (fs_bds s ! b)))"
    and fb: "fb = sb_free_blocks (fs_sb s) + (int (bd_free_blocks bd) - int (bd_free_blocks (fs_bds s ! b)))"
    and u: "0 \<le> u" "u + fb \<le> sb_no_of_blocks (fs_sb s)"
  shows "alloc_inv s'"
proof -
  have l: "b < length (fs_bds s)" "b < length (fs_ibm s)" "b < length (fs_dbm s)"
    using alloc_invD [OF inv] b by simp_all
  have "bg_consistent k (fs_bds s' ! k) (fs_ibm s' ! k) (fs_dbm s' ! k)" if "k < bgn s" for k
    using alloc_invD(8) [OF inv that] c f l by (cases "k = b") simp_all
  moreover have "tst (fs_ibm s' ! 0) i" if "i < 8" for i
    using alloc_invD(7) [OF inv that] r f l that by (cases "b = 0") simp_all
  ultimately show ?thesis
    using inv f sb fi fb u sum_list_map_upd [OF l(1), of bd_free_inodes bd]
      sum_list_map_upd [OF l(1), of bd_free_blocks bd]
    by (simp add: alloc_inv_def)
qed

lemma bit_at_upd:
  assumes "b < length bms" "\<And>k. k < m \<Longrightarrow> tst im k \<longleftrightarrow> P k" "0 < m"
  shows "tst ((bms[b := im]) ! (x div m)) (x mod m) \<longleftrightarrow>
    (if x div m = b then P (x mod m) else tst (bms ! (x div m)) (x mod m))"
  using assms by auto

lemma same_pos_iff: "x = b * m + k \<longleftrightarrow> x div m = b \<and> x mod m = k" if "k < m" for x b m k :: nat
  using that by auto

lemma range_pos_iff:
  assumes "off + cnt \<le> (m::nat)"
  shows "x \<in> {b * m + off ..< b * m + off + cnt} \<longleftrightarrow> x div m = b \<and> x mod m \<in> {off..<off + cnt}"
proof
  assume "x \<in> {b * m + off ..< b * m + off + cnt}"
  then have r: "x = b * m + (x - b * m)" "x - b * m \<in> {off..<off + cnt}" by auto
  then have "x - b * m < m" using assms by simp
  then have "x div m = b" "x mod m = x - b * m"
    using same_pos_iff [of "x - b * m" m x b] r(1) by blast+
  with r(2) show "x div m = b \<and> x mod m \<in> {off..<off + cnt}" by simp
next
  assume a: "x div m = b \<and> x mod m \<in> {off..<off + cnt}"
  then obtain r where "x = b * m + r" "off \<le> r" "r < off + cnt"
    by (metis atLeastLessThan_iff div_mult_mod_eq)
  then show "x \<in> {b * m + off ..< b * m + off + cnt}" by simp
qed

section \<open>Inode allocation\<close>

lemma consistent_set_ibit:
  assumes "bg_consistent b bd im dm" "i < 4096" "\<not> tst im i"
  shows "bg_consistent b (bd\<lparr>bd_free_inodes := bd_free_inodes bd - 1\<rparr>) (bset i im) dm"
  using assms bm.clear_count_put1 [of i 4096 im] by (simp add: bg_consistent_def)

lemma consistent_clear_ibit:
  assumes "bg_consistent b bd im dm" "i < 4096" "tst im i"
  shows "bg_consistent b (bd\<lparr>bd_free_inodes := bd_free_inodes bd + 1\<rparr>) (bclr i im) dm"
  using assms bm.clear_count_put0 [of i 4096 im] by (simp add: bg_consistent_def)

lemma free_inode_pos:
  assumes "bg_consistent b bd im dm" "i < 4096" "\<not> tst im i"
  shows "0 < bd_free_inodes bd"
  using assms count_pos_pos_iff [of "\<lambda>i. \<not> tst im i" 4096] by (auto simp: bg_consistent_def)

lemma scan_free_ibitmap_spec:
  assumes inv: "alloc_inv s" and b: "b < bgn s" and h: "hint < 4096"
  shows "if bd_free_inodes (fs_bds s ! b) = 0 then scan_free_ibitmap b hint s = Some (0, s)
    else \<exists>i<4096. \<not> tst (fs_ibm s ! b) i \<and> scan_free_ibitmap b hint s =
      Some (i + b * 4096, s\<lparr>fs_ibm := (fs_ibm s)[b := bset i (fs_ibm s ! b)]\<rparr>)"
proof (cases "bd_free_inodes (fs_bds s ! b) = 0")
  case True
  then show ?thesis by (simp add: scan_free_ibitmap_def alloc_get_bd [OF inv b] Let_def)
next
  case False
  note c = alloc_invD(8) [OF inv b]
  have "0 < count_pos (\<lambda>i. \<not> tst (fs_ibm s ! b) i) 4096" using False consistentD(4) [OF c] by simp
  then obtain j where "j < 4096" "\<not> tst (fs_ibm s ! b) j" by (auto simp: count_pos_pos_iff)
  then obtain i where i: "cyc_find (\<lambda>i. \<not> tst (fs_ibm s ! b) i) 4096 hint 4096 = Some i"
    using cyc_find_None [of "\<lambda>i. \<not> tst (fs_ibm s ! b) i" 4096 hint j] h by fastforce
  with cyc_find_sound [OF i h] False show ?thesis
    using bd_okD(4) [OF consistentD(1) [OF c]] alloc_invD(5) [OF inv]
    by (simp add: scan_free_ibitmap_def alloc_get_bd [OF inv b] Let_def)
qed

lemma find_inode_loop_spec:
  assumes "alloc_inv s" "start < bgn s" "b = (start + d) mod bgn s" "d + k = bgn s" "hint < 4096"
    and "\<forall>e<d. bd_free_inodes (fs_bds s ! ((start + e) mod bgn s)) = 0"
    and "g < bgn s" "bd_free_inodes (fs_bds s ! g) \<noteq> 0"
  shows "\<exists>b' i. b' < bgn s \<and> i < 4096 \<and> \<not> tst (fs_ibm s ! b') i \<and> find_inode_loop k start b hint s =
      Some (i + b' * 4096, s\<lparr>fs_ibm := (fs_ibm s)[b' := bset i (fs_ibm s ! b')]\<rparr>)"
  using assms(3-6)
proof (induction k arbitrary: b d hint)
  case 0
  obtain e where "e < bgn s" "(start + e) mod bgn s = g" using cyc_offset [OF assms(2,7)] by blast
  with 0 assms(8) show ?case by auto
next
  case (Suc k)
  have b: "b < bgn s" using Suc.prems(1) assms(2) by simp
  show ?case
  proof (cases "bd_free_inodes (fs_bds s ! b) = 0")
    case False
    with scan_free_ibitmap_spec [OF assms(1) b Suc.prems(3)] obtain i where i: "i < 4096"
      "\<not> tst (fs_ibm s ! b) i" "scan_free_ibitmap b hint s =
        Some (i + b * 4096, s\<lparr>fs_ibm := (fs_ibm s)[b := bset i (fs_ibm s ! b)]\<rparr>)" by auto
    have "i + b * 4096 \<noteq> 0"
    proof
      assume "i + b * 4096 = 0"
      then have "i = 0" "b = 0" by simp_all
      with i(2) alloc_invD(7) [OF assms(1), of 0] show False by simp
    qed
    with i b show ?thesis by auto
  next
    case True
    with scan_free_ibitmap_spec [OF assms(1) b Suc.prems(3)]
    have sc: "scan_free_ibitmap b hint s = Some (0, s)" by simp
    have full: "\<forall>e<Suc d. bd_free_inodes (fs_bds s ! ((start + e) mod bgn s)) = 0"
      using Suc.prems(1,4) True by (auto simp: less_Suc_eq)
    have nx: "(b + 1) mod bgn s = (start + Suc d) mod bgn s"
      using Suc.prems(1) by (simp add: mod_Suc_eq)
    have ne: "(b + 1) mod bgn s \<noteq> start"
    proof
      assume "(b + 1) mod bgn s = start"
      then have "(start + Suc d) mod bgn s = start" using nx by simp
      then have "\<not> Suc d < bgn s"
        using ring_off_eq [of start "bgn s" "Suc d"] assms(2) by (auto split: if_splits)
      then have "Suc d = bgn s" using Suc.prems(2) by simp
      moreover obtain e where "e < bgn s" "(start + e) mod bgn s = g"
        using cyc_offset [OF assms(2,7)] by blast
      ultimately show False using full assms(8) by auto
    qed
    from Suc.IH [OF nx _ _ full, of 0] Suc.prems(2) sc ne show ?thesis by (auto simp: Let_def)
  qed
qed

lemma free_inode_group:
  assumes "alloc_inv s" "sb_free_inodes (fs_sb s) \<noteq> 0"
  shows "\<exists>g < bgn s. bd_free_inodes (fs_bds s ! g) \<noteq> 0"
proof (rule ccontr)
  assume "\<not> ?thesis"
  then have "\<forall>x\<in>set (map bd_free_inodes (fs_bds s)). x = 0"
    using alloc_invD(2) [OF assms(1)] by (auto simp: in_set_conv_nth)
  then have "sum_list (map bd_free_inodes (fs_bds s)) = 0" by (simp add: sum_list_eq_0_iff)
  with assms show False by (simp add: alloc_inv_def)
qed

lemma inode_pos:
  assumes "i < (4096::nat)"
  shows "(i + b * 4096) div 4096 = b" "(i + b * 4096) mod 4096 = i"
  using assms by simp_all

lemma alloc_new_inode_spec:
  assumes inv: "alloc_inv s" and prim: "fs_primary s" and last: "fs_last_ino s < bgn s * 4096"
    and free: "sb_free_inodes (fs_sb s) \<noteq> 0"
  shows "\<exists>ino s'. alloc_new_inode s = Some (ino, s') \<and> 8 \<le> ino \<and> ino < bgn s * 4096
    \<and> \<not> inode_used s ino \<and> (\<forall>j < bgn s * 4096. inode_used s' j \<longleftrightarrow> j = ino \<or> inode_used s j)
    \<and> fs_itable s' = (fs_itable s)(ino := zero_inode\<lparr>i_ino := ino, i_version := 1\<rparr>)
    \<and> fs_dbm s' = fs_dbm s \<and> sb_free_inodes (fs_sb s') = sb_free_inodes (fs_sb s) - 1
    \<and> fs_last_ino s' = ino + 1 \<and> alloc_inv s'"
proof -
  have st: "fs_last_ino s div 4096 < bgn s" using last by (simp add: less_mult_imp_div_less)
  obtain g where g: "g < bgn s" "bd_free_inodes (fs_bds s ! g) \<noteq> 0"
    using free_inode_group [OF inv free] by blast
  obtain b i where b: "b < bgn s" and i: "i < 4096" "\<not> tst (fs_ibm s ! b) i"
    and fl: "find_inode_loop (bgn s) (fs_last_ino s div 4096) (fs_last_ino s div 4096) (fs_last_ino s mod 4096) s =
      Some (i + b * 4096, s\<lparr>fs_ibm := (fs_ibm s)[b := bset i (fs_ibm s ! b)]\<rparr>)"
    using find_inode_loop_spec [OF inv st, of "fs_last_ino s div 4096" 0 "bgn s" "fs_last_ino s mod 4096" g]
      st g by auto
  define ino where "ino = i + b * 4096"
  define bd where "bd = (fs_bds s ! b)\<lparr>bd_free_inodes := bd_free_inodes (fs_bds s ! b) - 1\<rparr>"
  define im where "im = bset i (fs_ibm s ! b)"
  define s' where "s' = s\<lparr>fs_ibm := (fs_ibm s)[b := im], fs_bds := (fs_bds s)[b := bd],
      fs_sb := (fs_sb s)\<lparr>sb_free_inodes := sb_free_inodes (fs_sb s) - 1\<rparr>,
      fs_itable := (fs_itable s)(ino := zero_inode\<lparr>i_ino := ino, i_version := 1\<rparr>), fs_last_ino := ino + 1\<rparr>"
  note c = alloc_invD(8) [OF inv b] and len = alloc_invD(2-4) [OF inv]
  have pos: "0 < bd_free_inodes (fs_bds s ! b)" by (rule free_inode_pos [OF c i])
  have sub: "u32_sub (bd_free_inodes (fs_bds s ! b)) 1 = bd_free_inodes (fs_bds s ! b) - 1"
    using pos consistentD(7) [OF c] by (simp add: u32_sub_small)
  have div: "ino div 4096 = b" "ino mod 4096 = i" using inode_pos [OF i(1), of b] by (simp_all add: ino_def)
  have run: "alloc_new_inode s = Some (ino, s')"
    using fl prim alloc_get_bd [OF inv b] alloc_invD(5) [OF inv] div sub
    by (simp add: alloc_new_inode_def find_free_inode_def dec_free_inodes_def Let_def
        ino_def [symmetric] s'_def bd_def im_def)
  have cons: "bg_consistent b bd im (fs_dbm s ! b)"
    unfolding bd_def im_def by (rule consistent_set_ibit [OF c i])
  have bits: "tst im k \<longleftrightarrow> k = i \<or> tst (fs_ibm s ! b) k" if "k < 4096" for k
    unfolding im_def using tst_bset [of i "fs_ibm s ! b" k] consistentD(2) [OF c] i(1) that by simp
  have "alloc_inv s'"
    by (rule alloc_inv_upd [OF inv b cons, where s' = s' and fi = "sb_free_inodes (fs_sb s) - 1"
          and fb = "sb_free_blocks (fs_sb s)" and u = "sb_no_of_used_blocks (fs_sb s)"])
      (use inv pos bits alloc_invD(7) [OF inv] len b in \<open>auto simp: s'_def bd_def alloc_inv_def of_nat_diff\<close>)
  moreover have "inode_used s' j \<longleftrightarrow> j = ino \<or> inode_used s j" for j
    using bit_at_upd [of b "fs_ibm s" 4096 im "\<lambda>k. k = i \<or> tst (fs_ibm s ! b) k" j] bits b len
      same_pos_iff [of i 4096 j b] i(1)
    by (auto simp: inode_used_def s'_def ino_def add.commute)
  moreover have "8 \<le> ino"
  proof (rule ccontr)
    assume "\<not> 8 \<le> ino"
    then have "b = 0" "i < 8" by (simp_all add: ino_def)
    with i(2) alloc_invD(7) [OF inv, of i] show False by simp
  qed
  moreover have "ino < bgn s * 4096"
    using b i(1) by (simp add: ino_def)
  moreover have "\<not> inode_used s ino" using i(2) div by (simp add: inode_used_def)
  ultimately show ?thesis using run by (intro exI [of _ ino] exI [of _ s']) (simp add: s'_def)
qed

lemma delete_inode_spec:
  assumes inv: "alloc_inv s" and ino: "8 \<le> ino" "ino < bgn s * 4096" and used: "inode_used s ino"
  shows "\<exists>s'. relocate_delete_inode ino s = Some s'
    \<and> (\<forall>j < bgn s * 4096. inode_used s' j \<longleftrightarrow> j \<noteq> ino \<and> inode_used s j)
    \<and> fs_itable s' = (fs_itable s)(ino := (fs_itable s ino)\<lparr>i_deleted := 1, i_ino := 0, i_size := 0\<rparr>)
    \<and> fs_dbm s' = fs_dbm s \<and> sb_free_inodes (fs_sb s') = sb_free_inodes (fs_sb s) + 1 \<and> alloc_inv s'"
proof -
  define b where "b = ino div 4096"
  define i where "i = ino mod 4096"
  have b: "b < bgn s" using ino(2) by (simp add: b_def less_mult_imp_div_less)
  have i: "i < 4096" by (simp add: i_def)
  note c = alloc_invD(8) [OF inv b] and len = alloc_invD(2-4) [OF inv]
  have t: "tst (fs_ibm s ! b) i" using used by (simp add: inode_used_def b_def i_def)
  define bd where "bd = (fs_bds s ! b)\<lparr>bd_free_inodes := bd_free_inodes (fs_bds s ! b) + 1\<rparr>"
  define im where "im = bclr i (fs_ibm s ! b)"
  have cons: "bg_consistent b bd im (fs_dbm s ! b)"
    unfolding bd_def im_def by (rule consistent_clear_ibit [OF c i t])
  have le: "bd_free_inodes (fs_bds s ! b) + 1 \<le> 4096" using consistentD(7) [OF cons] by (simp add: bd_def)
  have add: "u32_add (bd_free_inodes (fs_bds s ! b)) 1 = bd_free_inodes (fs_bds s ! b) + 1"
    using le by (simp add: u32_add_small)
  define s' where "s' = s\<lparr>fs_itable := (fs_itable s)(ino := (fs_itable s ino)\<lparr>i_deleted := 1, i_ino := 0, i_size := 0\<rparr>),
      fs_bds := (fs_bds s)[b := bd],
      fs_sb := (fs_sb s)\<lparr>sb_free_inodes := sb_free_inodes (fs_sb s) + 1\<rparr>,
      fs_asb_free_inodes := fs_asb_free_inodes s + (if fs_primary s then 0 else 1),
      fs_ibm := (fs_ibm s)[b := im]\<rparr>"
  have run: "relocate_delete_inode ino s = Some s'"
    using alloc_get_bd [OF inv b] alloc_invD(5) [OF inv] add le bd_okD [OF consistentD(1) [OF c]] len b t
    by (simp add: relocate_delete_inode_def inc_free_inodes_def release_ibitmap_def Let_def
        b_def [symmetric] i_def [symmetric] s'_def bd_def im_def get_bd_def)
  have bits: "tst im k \<longleftrightarrow> k \<noteq> i \<and> tst (fs_ibm s ! b) k" if "k < 4096" for k
    unfolding im_def using tst_bclr [of i "fs_ibm s ! b" k] consistentD(2) [OF c] i that by simp
  have "8 \<le> i" if "b = 0" using ino(1) that by (simp add: b_def i_def div_eq_0_iff)
  then have "alloc_inv s'"
    by (intro alloc_inv_upd [OF inv b cons, where s' = s' and fi = "sb_free_inodes (fs_sb s) + 1"
          and fb = "sb_free_blocks (fs_sb s)" and u = "sb_no_of_used_blocks (fs_sb s)"])
      (use inv bits alloc_invD(7) [OF inv] len b in \<open>auto simp: s'_def bd_def alloc_inv_def\<close>)
  moreover have "inode_used s' j \<longleftrightarrow> j \<noteq> ino \<and> inode_used s j" for j
    using bit_at_upd [of b "fs_ibm s" 4096 im "\<lambda>k. k \<noteq> i \<and> tst (fs_ibm s ! b) k" j] bits b len
      same_pos_iff [of i 4096 j b] same_pos_iff [of i 4096 ino b] i
    by (auto simp: inode_used_def s'_def b_def i_def)
  ultimately show ?thesis using run by (intro exI [of _ s']) (simp add: s'_def)
qed

section \<open>Block allocation\<close>

text \<open>Whether position \<open>p\<close> is still visited by the search loop when it stands at \<open>fb\<close>
  with \<open>cnt\<close> rounds counted: the loop counts the metadata blocks it jumps over.\<close>

definition reach :: "nat \<Rightarrow> nat \<Rightarrow> nat \<Rightarrow> nat \<Rightarrow> bool" where
  "reach n cnt fb p = (if fb = 0 then cnt + p \<le> n else if fb \<le> p then cnt + (p - fb) < n else cnt + p \<le> fb)"

lemma reach_start: "fb < n \<Longrightarrow> p < n \<Longrightarrow> reach n 0 fb p"
  by (auto simp: reach_def)

lemma reach_running: "reach n cnt fb p \<Longrightarrow> 1 \<le> p \<Longrightarrow> fb < n \<Longrightarrow> cnt < n"
  by (auto simp: reach_def split: if_splits)

lemma reach_step:
  assumes "reach n cnt fb p" "D \<le> p" "1 \<le> D" "p < n" "fb < n" "p \<noteq> (if fb = 0 then D else fb)"
  shows "reach n (if fb = 0 then cnt + D else cnt + 1) (((if fb = 0 then D else fb) + 1) mod n) p"
  using assms by (auto simp: reach_def ring_simps split: if_splits)

lemma dbitmap_loop_spec:
  assumes "1 \<le> D" "D < n" "n \<le> bits buf" "0 < num" "num < 2 ^ 32" "fb < n" "n \<le> k + cnt"
    and "\<forall>p<n. \<not> tst buf p \<longrightarrow> D \<le> p \<and> reach n cnt fb p"
  shows "\<exists>offs next' fb'. dbitmap_loop k n D start cnt fb num buf next acc =
      (fold bset offs buf, next', acc @ map ((+) start) offs, fb') \<and> fb' < n \<and> distinct offs
      \<and> (\<forall>p\<in>set offs. D \<le> p \<and> p < n \<and> \<not> tst buf p) \<and> length offs \<le> num
      \<and> (length offs < num \<longrightarrow> (\<forall>p<n. \<not> tst buf p \<longrightarrow> p \<in> set offs))"
  using assms(3-)
proof (induction k arbitrary: cnt fb num buf "next" acc)
  case 0
  then have "\<forall>p<n. tst buf p" using reach_running [of n cnt fb] assms(1) by fastforce
  with 0 show ?case by (intro exI [of _ "[]"]) auto
next
  case (Suc k)
  define f where "f = (if fb = 0 then D else fb)"
  define c where "c = (if fb = 0 then cnt + D else cnt + 1)"
  have fc: "(if fb = 0 then (D, cnt + 1 + (D - 1)) else (fb, cnt + 1)) = (f, c)"
    using assms(1) by (simp add: f_def c_def)
  have f: "f < n" "1 \<le> f" using Suc.prems(4) assms(1,2) by (auto simp: f_def)
  have nx: "(f + 1) mod n < n" "n \<le> k + c" using f Suc.prems(5) assms(1) by (auto simp: c_def)
  have step: "\<forall>p<n. \<not> tst buf p \<longrightarrow> p \<noteq> f \<longrightarrow> D \<le> p \<and> reach n c ((f + 1) mod n) p"
    using Suc.prems(4,6) reach_step [of n cnt fb _ D] assms(1) by (simp add: f_def c_def)
  show ?case
  proof (cases "cnt < n")
    case False
    then have "\<forall>p<n. tst buf p" using Suc.prems(4,6) reach_running [of n cnt fb] assms(1) by fastforce
    with False Suc.prems show ?thesis by (intro exI [of _ "[]"]) auto
  next
    case True
    show ?thesis
    proof (cases "tst buf f")
      case t: True
      have all: "\<forall>p<n. \<not> tst buf p \<longrightarrow> D \<le> p \<and> reach n c ((f + 1) mod n) p" using step t by blast
      from Suc.IH [OF Suc.prems(1-3) nx all, of "next" acc] show ?thesis
        using True t by (simp only: dbitmap_loop.simps fc) (simp add: Let_def)
    next
      case t: False
      have Df: "D \<le> f" using Suc.prems(6) f t by blast
      have sub: "u32_sub num 1 = num - 1" using Suc.prems(2,3) by (simp add: u32_sub_small)
      have t0: "ext2fs_test_bit f buf = 0" using t by simp
      have z: "num - 1 = 0 \<longleftrightarrow> num = 1" using Suc.prems(2) by auto
      have run: "dbitmap_loop (Suc k) n D start cnt fb num buf next acc =
        (if num = 1 then (bset f buf, f, acc @ [start + f], f)
         else dbitmap_loop k n D start c ((f + 1) mod n) (num - 1) (bset f buf) f (acc @ [start + f]))"
        using Suc.prems(2) by (simp only: dbitmap_loop.simps fc Let_def sub prod.case True t0 z if_True if_False
            not_True_eq_False simp_thms)
      have tb: "tst (bset f buf) p \<longleftrightarrow> p = f \<or> tst buf p" if "p < n" for p
        using tst_bset [of f buf p] f that Suc.prems(1) by simp
      show ?thesis
      proof (cases "num = 1")
        case True
        with run f Df t show ?thesis by (intro exI [of _ "[f]"]) auto
      next
        case False
        have all: "\<forall>p<n. \<not> tst (bset f buf) p \<longrightarrow> D \<le> p \<and> reach n c ((f + 1) mod n) p"
          using step tb by blast
        have b: "n \<le> bits (bset f buf)" using Suc.prems(1) by simp
        have n1: "0 < num - 1" "num - 1 < 2 ^ 32" using Suc.prems(2,3) False by linarith+
        from Suc.IH [OF b n1 nx all, of f "acc @ [start + f]"]
        obtain offs next' fb' where o: "dbitmap_loop k n D start c ((f + 1) mod n) (num - 1) (bset f buf) f (acc @ [start + f]) =
            (fold bset offs (bset f buf), next', (acc @ [start + f]) @ map ((+) start) offs, fb')"
          "fb' < n" "distinct offs" "\<forall>p\<in>set offs. D \<le> p \<and> p < n \<and> \<not> tst (bset f buf) p"
          "length offs \<le> num - 1" "length offs < num - 1 \<longrightarrow> (\<forall>p<n. \<not> tst (bset f buf) p \<longrightarrow> p \<in> set offs)"
          by blast
        have "f \<notin> set offs" using o(4) tb [OF f(1)] by blast
        then have d: "distinct (f # offs)" using o(3) by simp
        have r: "\<forall>p\<in>set (f # offs). D \<le> p \<and> p < n \<and> \<not> tst buf p"
          using o(4) tb f(1) Df t by (metis set_ConsD)
        have "length (f # offs) < num \<longrightarrow> (\<forall>p<n. \<not> tst buf p \<longrightarrow> p \<in> set (f # offs))"
          using o(6) tb by (metis length_Cons less_diff_conv list.set_intros add.commute plus_1_eq_Suc)
        moreover have "dbitmap_loop (Suc k) n D start cnt fb num buf next acc =
            (fold bset (f # offs) buf, next', acc @ map ((+) start) (f # offs), fb')"
          unfolding run using False o(1) by simp
        moreover have "length (f # offs) \<le> num" using o(5) Suc.prems(2) by simp
        ultimately show ?thesis using d r o(2) by blast
      qed
    qed
  qed
qed

text \<open>Allocation in one group: the invariant moves with the bits and the counters.\<close>

lemma clear_count_fold_bset:
  assumes "distinct is" "\<forall>i\<in>set is. i < n \<and> \<not> tst b i" "n \<le> bits b"
  shows "count_pos (\<lambda>j. \<not> tst (fold bset is b) j) n + length is = count_pos (\<lambda>j. \<not> tst b j) n"
  using assms
proof (induction "is" arbitrary: b)
  case (Cons i "is")
  have t: "tst (bset i b) j \<longleftrightarrow> j = i \<or> tst b j" if "j < n" for j
    using tst_bset [of i b j] Cons.prems that by simp
  have "count_pos (\<lambda>j. \<not> tst (fold bset is (bset i b)) j) n + length is = count_pos (\<lambda>j. \<not> tst (bset i b) j) n"
    using Cons.IH [of "bset i b"] Cons.prems t by auto
  moreover have "0 < count_pos (\<lambda>j. \<not> tst b j) n" using Cons.prems by (auto simp: count_pos_pos_iff)
  ultimately show ?case using bm.clear_count_put1 [of i n b] Cons.prems by simp
qed simp

lemma consistent_set_dbits:
  assumes c: "bg_consistent b bd im dm" and o: "distinct offs" "\<forall>p\<in>set offs. p < 32768 \<and> \<not> tst dm p"
  shows "bg_consistent b (bd\<lparr>bd_next_block := nx, bd_free_blocks := bd_free_blocks bd - length offs\<rparr>) im (fold bset offs dm)"
    "length offs \<le> bd_free_blocks bd"
proof -
  have l: "length dm = 4096" by (rule consistentD(3) [OF c])
  have k: "count_pos (\<lambda>j. \<not> tst (fold bset offs dm) j) 32768 + length offs = bd_free_blocks bd"
    using clear_count_fold_bset [OF o] l consistentD(5) [OF c] by simp
  then show "length offs \<le> bd_free_blocks bd" by simp
  have "tst (fold bset offs dm) i" if "i < 4100" for i
    using bm.get_fold_put1 [of offs dm i] o(2) l that consistentD(6) [OF c that] by simp
  moreover have "length (fold bset offs dm) = 4096" using bm.cap_fold_put1 [of offs dm] l by simp
  ultimately show "bg_consistent b (bd\<lparr>bd_next_block := nx, bd_free_blocks := bd_free_blocks bd - length offs\<rparr>) im (fold bset offs dm)"
    using c k by (auto simp: bg_consistent_def bd_ok_def)
qed

text \<open>What an allocation of blocks does to the file system, whatever groups it
  takes them from.\<close>

definition alloc_post :: "fs \<Rightarrow> nat list \<Rightarrow> fs \<Rightarrow> bool" where
  "alloc_post s blks s' \<longleftrightarrow> distinct blks
     \<and> (\<forall>x\<in>set blks. x < bgn s * 32768 \<and> 4100 \<le> x mod 32768 \<and> \<not> block_used s x)
     \<and> (\<forall>x < bgn s * 32768. block_used s' x \<longleftrightarrow> x \<in> set blks \<or> block_used s x)
     \<and> fs_ibm s' = fs_ibm s \<and> fs_itable s' = fs_itable s \<and> fs_primary s' = fs_primary s \<and> bgn s' = bgn s
     \<and> sb_free_inodes (fs_sb s') = sb_free_inodes (fs_sb s) \<and> fs_last_ino s' = fs_last_ino s
     \<and> (fs_last_bgid s < bgn s \<longrightarrow> fs_last_bgid s' < bgn s')
     \<and> sb_free_blocks (fs_sb s') = sb_free_blocks (fs_sb s) - int (length blks)
     \<and> sb_no_of_used_blocks (fs_sb s') = sb_no_of_used_blocks (fs_sb s) + int (length blks) \<and> alloc_inv s'"

lemma alloc_post_refl: "alloc_inv s \<Longrightarrow> alloc_post s [] s"
  by (simp add: alloc_post_def)

lemma alloc_post_trans:
  assumes "alloc_post s xs s'" "alloc_post s' ys s''"
  shows "alloc_post s (xs @ ys) s''"
  using assms unfolding alloc_post_def by fastforce

lemma alloc_post_hint:
  "alloc_post s blks s' \<Longrightarrow> b < bgn s' \<Longrightarrow> alloc_post s blks (s'\<lparr>fs_last_bgid := b, fs_last_bgid_ino := i\<rparr>)"
  by (auto simp: alloc_post_def alloc_inv_def block_used_def)

lemma sb_free_blocks_ge:
  assumes "alloc_inv s" "b < bgn s"
  shows "int (bd_free_blocks (fs_bds s ! b)) \<le> sb_free_blocks (fs_sb s)"
  using assms elem_le_sum_list [of b "map bd_free_blocks (fs_bds s)"] by (simp add: alloc_inv_def)

lemma alloc_dbitmap_spec:
  assumes inv: "alloc_inv s" and prim: "fs_primary s" and b: "b < bgn s" and num: "0 < num" "num < 2 ^ 32"
    and free: "bd_free_blocks (fs_bds s ! b) \<noteq> 0"
  shows "\<exists>blks s'. alloc_dbitmap b num s = Some (blks, s') \<and> alloc_post s blks s'
    \<and> length blks = min num (bd_free_blocks (fs_bds s ! b))
    \<and> bd_free_blocks (fs_bds s' ! b) = bd_free_blocks (fs_bds s ! b) - length blks
    \<and> (\<forall>g. g \<noteq> b \<longrightarrow> fs_bds s' ! g = fs_bds s ! g)"
proof -
  note c = alloc_invD(8) [OF inv b] and len = alloc_invD(2-4) [OF inv]
  define bd where "bd = fs_bds s ! b"
  define dm where "dm = fs_dbm s ! b"
  note ok = bd_okD [OF consistentD(1) [OF c], folded bd_def]
  have l: "length dm = 4096" using consistentD(3) [OF c] by (simp add: dm_def)
  have st: "\<forall>p<32768. \<not> tst dm p \<longrightarrow> 4100 \<le> p \<and> reach 32768 0 (bd_next_block bd mod 32768) p"
    using consistentD(6) [OF c] reach_start by (force simp: dm_def not_less [symmetric])
  obtain offs nx fb where o: "dbitmap_loop 32768 32768 4100 (b * 32768) 0 (bd_next_block bd mod 32768) num dm
      (bd_next_block bd) [] = (fold bset offs dm, nx, map ((+) (b * 32768)) offs, fb)"
    "fb < 32768" "distinct offs" "\<forall>p\<in>set offs. 4100 \<le> p \<and> p < 32768 \<and> \<not> tst dm p" "length offs \<le> num"
    "length offs < num \<longrightarrow> (\<forall>p<32768. \<not> tst dm p \<longrightarrow> p \<in> set offs)"
    using dbitmap_loop_spec [of 4100 32768 dm num "bd_next_block bd mod 32768" 32768 0 "b * 32768" "bd_next_block bd" "[]"]
      num l st by auto
  have o4: "\<forall>p\<in>set offs. p < 32768 \<and> \<not> tst dm p" using o(4) by blast
  define bd' where "bd' = bd\<lparr>bd_next_block := nx, bd_free_blocks := bd_free_blocks bd - length offs\<rparr>"
  have cons: "bg_consistent b bd' (fs_ibm s ! b) (fold bset offs dm)" and le: "length offs \<le> bd_free_blocks bd"
    unfolding bd'_def using consistent_set_dbits [OF c o(3), folded dm_def, OF o4] by (simp_all add: bd_def)
  have tall: "tst (fold bset offs dm) p \<longleftrightarrow> p \<in> set offs \<or> tst dm p" if "p < 32768" for p
    using bm.get_fold_put1 [of offs dm p] o4 l that by auto
  have cnt: "length offs = min num (bd_free_blocks bd)"
  proof (cases "length offs < num")
    case True
    then have "\<forall>p<32768. tst (fold bset offs dm) p" using o(6) tall by blast
    then have "bd_free_blocks bd' = 0" using consistentD(5) [OF cons] by (simp add: count_pos_eq_0_iff)
    with le True show ?thesis by (simp add: bd'_def)
  qed (use o(5) le in simp)
  define blks where "blks = map ((+) (b * 32768)) offs"
  define sb' where "sb' = (fs_sb s)\<lparr>sb_free_blocks := sb_free_blocks (fs_sb s) - int (length blks),
      sb_no_of_used_blocks := sb_no_of_used_blocks (fs_sb s) + int (length blks)\<rparr>"
  define s' where "s' = s\<lparr>fs_bds := (fs_bds s)[b := bd'], fs_dbm := (fs_dbm s)[b := fold bset offs dm], fs_sb := sb'\<rparr>"
  have lb: "length blks = length offs" by (simp add: blks_def)
  have ne: "blks \<noteq> []" using cnt num(1) free lb by (auto simp: bd_def)
  have sub: "u32_sub (bd_free_blocks bd) (length blks) = bd_free_blocks bd - length blks"
    using le lb consistentD(8) [OF c] by (simp add: u32_sub_small bd_def)
  have fr: "int (length blks) \<le> sb_free_blocks (fs_sb s)"
    using sb_free_blocks_ge [OF inv b] le lb by (simp add: bd_def)
  have used: "sb_no_of_used_blocks (fs_sb s) + int (length blks) \<le> sb_no_of_blocks (fs_sb s)"
    "sb_no_of_used_blocks (fs_sb s) + sb_free_blocks (fs_sb s) \<le> sb_no_of_blocks (fs_sb s)"
    "0 \<le> sb_no_of_used_blocks (fs_sb s)"
    using inv fr by (auto simp: alloc_inv_def)
  have "dec_free_blocks (bd_bg_start bd + fb) (length blks)
     (s\<lparr>fs_bds := (fs_bds s)[b := bd\<lparr>bd_next_block := nx\<rparr>], fs_dbm := (fs_dbm s)[b := fold bset offs dm]\<rparr>) = Some s'"
    using o(2) ok alloc_invD(6) [OF inv] b len sub fr used(1) prim lb
    by (simp add: dec_free_blocks_def Let_def get_bd_def s'_def sb'_def bd'_def)
  then have run: "alloc_dbitmap b num s = Some (blks, s')"
    using o(1) ok alloc_invD(6) [OF inv] b len ne
    by (simp add: alloc_dbitmap_def Let_def bd_def [symmetric] dm_def [symmetric] blks_def [symmetric])
  have "alloc_inv s'"
    by (rule alloc_inv_upd [OF inv b cons, where s' = s' and fi = "sb_free_inodes (fs_sb s)"
          and fb = "sb_free_blocks (fs_sb s) - int (length blks)"
          and u = "sb_no_of_used_blocks (fs_sb s) + int (length blks)"])
      (use used le lb alloc_invD(7) [OF inv] in \<open>simp_all add: s'_def sb'_def bd'_def bd_def of_nat_diff\<close>)
  moreover have "block_used s' x \<longleftrightarrow> x \<in> set blks \<or> block_used s x" for x
    using bit_at_upd [of b "fs_dbm s" 32768 "fold bset offs dm" "\<lambda>k. k \<in> set offs \<or> tst dm k" x] tall b len o4
      same_pos_iff [of _ 32768 x b]
    by (auto simp: block_used_def s'_def blks_def dm_def image_iff)
  moreover have "\<forall>x\<in>set blks. x < bgn s * 32768 \<and> 4100 \<le> x mod 32768 \<and> \<not> block_used s x"
    using o(4) b by (auto simp: blks_def block_used_def dm_def)
  moreover have "distinct blks" using o(3) by (simp add: blks_def distinct_map)
  ultimately have "alloc_post s blks s'" by (simp add: alloc_post_def s'_def sb'_def)
  with run cnt lb b len show ?thesis
    by (intro exI [of _ blks] exI [of _ s']) (simp add: s'_def bd'_def bd_def)
qed

lemma no_free_group:
  assumes "alloc_inv s" "\<forall>g < bgn s. bd_free_blocks (fs_bds s ! g) = 0"
  shows "sb_free_blocks (fs_sb s) = 0"
proof -
  have "\<forall>x\<in>set (map bd_free_blocks (fs_bds s)). x = 0"
    using alloc_invD(2) [OF assms(1)] assms(2) by (auto simp: in_set_conv_nth)
  then have "sum_list (map bd_free_blocks (fs_bds s)) = 0" by (simp add: sum_list_eq_0_iff)
  with assms(1) show ?thesis by (simp add: alloc_inv_def)
qed

text \<open>One round of the loop over the groups: either the request is satisfied in group
  \<open>b\<close>, or the group is exhausted afterwards.\<close>

lemma alloc_group_step:
  assumes inv: "alloc_inv s" and prim: "fs_primary s" and b: "b < bgn s" and num: "0 < num" "num < 2 ^ 32"
  defines "l \<equiv> min num (bd_free_blocks (fs_bds s ! b))"
  shows "\<exists>blks s'. alloc_post s blks s' \<and> length blks = l
    \<and> (\<forall>g. g \<noteq> b \<longrightarrow> fs_bds s' ! g = fs_bds s ! g) \<and> (l \<noteq> num \<longrightarrow> bd_free_blocks (fs_bds s' ! b) = 0)
    \<and> (\<forall>k ino start acc. alloc_block_loop (Suc k) ino start b num acc s =
        (if l = num then Some (acc @ blks, s'\<lparr>fs_last_bgid := b, fs_last_bgid_ino := ino\<rparr>)
         else let s'' = (if l = 0 then s' else s'\<lparr>fs_last_bgid := b, fs_last_bgid_ino := ino\<rparr>);
                  b' = (b + 1) mod bgn s'' in
              if b' = start then (if acc @ blks = [] then None else Some (acc @ blks, s''))
              else alloc_block_loop k ino start b' (num - l) (acc @ blks) s''))"
proof (cases "bd_free_blocks (fs_bds s ! b) = 0")
  case True
  with alloc_post_refl [OF inv] num(1) show ?thesis
    by (intro exI [of _ "[]"] exI [of _ s]) (simp add: l_def get_free_blocks_def alloc_get_bd [OF inv b] Let_def)
next
  case False
  from alloc_dbitmap_spec [OF inv prim b num False]
  obtain blks s' where d: "alloc_dbitmap b num s = Some (blks, s')" "alloc_post s blks s'" "length blks = l"
    "bd_free_blocks (fs_bds s' ! b) = bd_free_blocks (fs_bds s ! b) - length blks"
    "\<forall>g. g \<noteq> b \<longrightarrow> fs_bds s' ! g = fs_bds s ! g" unfolding l_def by blast
  have "l \<noteq> num \<longrightarrow> bd_free_blocks (fs_bds s' ! b) = 0" using d(3,4) by (simp add: l_def)
  moreover have "l \<noteq> 0" using num(1) False by (simp add: l_def)
  moreover have "l \<le> num" by (simp add: l_def)
  ultimately show ?thesis using d(1-3,5) False
    by (intro exI [of _ blks] exI [of _ s'])
      (auto simp: get_free_blocks_def alloc_get_bd [OF inv b] Let_def)
qed

lemma alloc_block_loop_spec:
  assumes "alloc_inv s" "fs_primary s" "start < bgn s" "b = (start + d) mod bgn s" "d + k = bgn s" "0 < k"
    "\<forall>e<d. bd_free_blocks (fs_bds s ! ((start + e) mod bgn s)) = 0" "0 < num" "num < 2 ^ 32"
    "acc \<noteq> [] \<or> sb_free_blocks (fs_sb s) \<noteq> 0"
  shows "\<exists>blks s'. alloc_block_loop k ino start b num acc s = Some (acc @ blks, s') \<and> alloc_post s blks s'
    \<and> length blks = min num (nat (sb_free_blocks (fs_sb s)))"
  using assms
proof (induction k arbitrary: b d num acc s)
  case (Suc k)
  define n where "n = bgn s"
  have b: "b < n" using Suc.prems(3,4) by (simp add: n_def)
  define l where "l = min num (bd_free_blocks (fs_bds s ! b))"
  from alloc_group_step [OF Suc.prems(1,2) b [unfolded n_def] Suc.prems(8,9), folded l_def]
  obtain blks s' where p: "alloc_post s blks s'" "length blks = l"
    "\<forall>g. g \<noteq> b \<longrightarrow> fs_bds s' ! g = fs_bds s ! g" "l \<noteq> num \<longrightarrow> bd_free_blocks (fs_bds s' ! b) = 0"
    and run: "\<forall>k ino start acc. alloc_block_loop (Suc k) ino start b num acc s =
        (if l = num then Some (acc @ blks, s'\<lparr>fs_last_bgid := b, fs_last_bgid_ino := ino\<rparr>)
         else let s'' = (if l = 0 then s' else s'\<lparr>fs_last_bgid := b, fs_last_bgid_ino := ino\<rparr>);
                  b' = (b + 1) mod bgn s'' in
              if b' = start then (if acc @ blks = [] then None else Some (acc @ blks, s''))
              else alloc_block_loop k ino start b' (num - l) (acc @ blks) s'')" by blast
  have fr: "int l \<le> sb_free_blocks (fs_sb s)"
    using sb_free_blocks_ge [OF Suc.prems(1) b [unfolded n_def]] by (simp add: l_def)
  have bs: "b < bgn s'" using p(1) b by (simp add: alloc_post_def n_def)
  show ?case
  proof (cases "l = num")
    case True
    with run p fr alloc_post_hint [OF p(1) bs, of ino] show ?thesis
      by (intro exI [of _ blks] exI [of _ "s'\<lparr>fs_last_bgid := b, fs_last_bgid_ino := ino\<rparr>"]) auto
  next
    case False
    define s2 where "s2 = (if l = 0 then s' else s'\<lparr>fs_last_bgid := b, fs_last_bgid_ino := ino\<rparr>)"
    have post: "alloc_post s blks s2" "fs_bds s2 = fs_bds s'" using p(1) alloc_post_hint [OF p(1) bs, of ino] by (simp_all add: s2_def)
    then have s2: "alloc_inv s2" "fs_primary s2" "bgn s2 = n"
      "sb_free_blocks (fs_sb s2) = sb_free_blocks (fs_sb s) - int l"
      using Suc.prems(2) p(2) by (simp_all add: alloc_post_def n_def)
    have full: "\<forall>e<Suc d. bd_free_blocks (fs_bds s2 ! ((start + e) mod n)) = 0"
      using Suc.prems(4,7) p(3,4) False post(2) by (metis less_Suc_eq n_def)
    have nx: "(b + 1) mod n = (start + Suc d) mod n" using Suc.prems(4) by (simp add: mod_Suc_eq n_def)
    have run2: "alloc_block_loop (Suc k) ino start b num acc s =
       (if (b + 1) mod n = start then (if acc @ blks = [] then None else Some (acc @ blks, s2))
        else alloc_block_loop k ino start ((b + 1) mod n) (num - l) (acc @ blks) s2)"
      using run False s2(3) by (simp add: Let_def s2_def [symmetric])
    show ?thesis
    proof (cases "k = 0")
      case True
      then have "\<forall>g<n. bd_free_blocks (fs_bds s2 ! g) = 0"
        using full cyc_offset [of start n] Suc.prems(3,5) unfolding n_def
        by (metis add_Suc_right add_0_right)
      then have z: "sb_free_blocks (fs_sb s) = int l" using no_free_group [OF s2(1)] s2(3,4) by simp
      then have "acc @ blks \<noteq> []" using Suc.prems(10) p(2) by auto
      moreover have "Suc d = n" using True Suc.prems(5) by (simp add: n_def)
      then have "(b + 1) mod n = start" unfolding nx using Suc.prems(3) by (simp only: mod_add_self2) (simp add: n_def)
      ultimately show ?thesis using run2 post(1) z p(2)
        by (intro exI [of _ blks] exI [of _ s2]) (auto simp: l_def)
    next
      case k: False
      have ne: "(b + 1) mod n \<noteq> start"
        unfolding nx using ring_off_eq [of start n "Suc d"] Suc.prems(3,5) k by (auto simp: n_def split: if_splits)
      have "l < num" using False by (simp add: l_def)
      moreover have "acc @ blks \<noteq> [] \<or> sb_free_blocks (fs_sb s2) \<noteq> 0" using Suc.prems(10) p(2) s2(4) by auto
      moreover have "num - l < 2 ^ 32" by (rule le_less_trans [OF diff_le_self Suc.prems(9)])
      ultimately obtain ys s3 where y: "alloc_block_loop k ino start ((b + 1) mod n) (num - l) (acc @ blks) s2 = Some ((acc @ blks) @ ys, s3)"
        "alloc_post s2 ys s3" "length ys = min (num - l) (nat (sb_free_blocks (fs_sb s2)))"
        using Suc.IH [of s2 "(b + 1) mod n" "Suc d" "num - l" "acc @ blks"] s2 nx full k Suc.prems(3,5,9) by (auto simp: n_def)
      have "length (blks @ ys) = min num (nat (sb_free_blocks (fs_sb s)))"
        using y(3) p(2) s2(4) fr \<open>l < num\<close> by (simp add: nat_diff_distrib') linarith
      with run2 ne y(1) alloc_post_trans [OF post(1) y(2)] show ?thesis by auto
    qed
  qed
qed simp

section \<open>Release of blocks\<close>

lemma clear_run_eq:
  assumes "\<forall>i<k. tst buf (off + i)" "off + k \<le> bits buf"
  shows "clear_run k off buf = Some (fold bclr [off..<off + k] buf)"
  using assms
proof (induction k arbitrary: off buf)
  case (Suc k)
  have "tst (bclr off buf) (Suc off + i)" if "i < k" for i
    using tst_bclr [of off buf "Suc off + i"] Suc.prems(2) spec [OF Suc.prems(1), of "Suc i"] that by simp
  with Suc.IH [of "Suc off" "bclr off buf"] Suc.prems(2) spec [OF Suc.prems(1), of 0] show ?case
    by (simp add: upt_conv_Cons del: upt_Suc)
qed simp

lemma clear_run_stops:
  assumes "i < k" "off + k \<le> bits buf" "\<not> tst buf (off + i)"
  shows "clear_run k off buf = None"
  using assms
proof (induction k arbitrary: off buf i)
  case (Suc k)
  show ?case
  proof (cases i)
    case (Suc j)
    then have "\<not> tst (bclr off buf) (Suc off + j)"
      using tst_bclr [of off buf "Suc off + j"] Suc.prems by simp
    with Suc.IH [of j "Suc off" "bclr off buf"] Suc.prems Suc show ?thesis by simp
  qed (use Suc.prems in simp)
qed simp

lemma clear_count_fold_bclr:
  assumes "distinct is" "\<forall>i\<in>set is. i < n \<and> tst b i" "n \<le> bits b"
  shows "count_pos (\<lambda>j. \<not> tst (fold bclr is b) j) n = count_pos (\<lambda>j. \<not> tst b j) n + length is"
  using assms
proof (induction "is" arbitrary: b)
  case (Cons i "is")
  have t: "tst (bclr i b) j \<longleftrightarrow> j \<noteq> i \<and> tst b j" if "j < n" for j
    using tst_bclr [of i b j] Cons.prems that by simp
  have "\<forall>k\<in>set is. k < n \<and> tst (bclr i b) k" using Cons.prems t by fastforce
  with Cons.IH [of "bclr i b"] Cons.prems bm.clear_count_put0 [of i n b] show ?case by simp
qed simp

text \<open>What a release of the blocks \<open>B\<close> does.\<close>

definition free_post :: "fs \<Rightarrow> nat set \<Rightarrow> fs \<Rightarrow> bool" where
  "free_post s B s' \<longleftrightarrow> (\<forall>x < bgn s * 32768. block_used s' x \<longleftrightarrow> x \<notin> B \<and> block_used s x)
     \<and> fs_ibm s' = fs_ibm s \<and> fs_itable s' = fs_itable s \<and> fs_primary s' = fs_primary s \<and> bgn s' = bgn s
     \<and> sb_free_inodes (fs_sb s') = sb_free_inodes (fs_sb s) \<and> fs_last_ino s' = fs_last_ino s \<and> fs_last_bgid s' = fs_last_bgid s
     \<and> sb_free_blocks (fs_sb s') = sb_free_blocks (fs_sb s) + int (card B)
     \<and> sb_no_of_used_blocks (fs_sb s') = sb_no_of_used_blocks (fs_sb s) - int (card B) \<and> alloc_inv s'"

lemma free_post_refl: "alloc_inv s \<Longrightarrow> free_post s {} s"
  by (simp add: free_post_def)

lemma free_post_trans:
  assumes "free_post s A s'" "free_post s' B s''" "A \<inter> B = {}" "finite A" "finite B"
  shows "free_post s (A \<union> B) s''"
  using assms by (auto simp: free_post_def card_Un_disjoint)

lemma free_dbitmap_spec:
  assumes inv: "alloc_inv s" and prim: "fs_primary s" and b: "b < bgn s"
    and off: "4100 \<le> off" "off + cnt \<le> 32768" and used: "\<forall>i<cnt. tst (fs_dbm s ! b) (off + i)"
    and ub: "int cnt \<le> sb_no_of_used_blocks (fs_sb s)"
  shows "\<exists>s'. free_dbitmap b off cnt s = Some s' \<and> free_post s {b * 32768 + off ..< b * 32768 + off + cnt} s'"
proof (cases "cnt = 0")
  case True
  with free_post_refl [OF inv] show ?thesis by (simp add: free_dbitmap_def alloc_get_bd [OF inv b])
next
  case False
  note c = alloc_invD(8) [OF inv b] and len = alloc_invD(2-4) [OF inv]
  define bd where "bd = fs_bds s ! b"
  define dm where "dm = fs_dbm s ! b"
  define dm' where "dm' = fold bclr [off..<off + cnt] dm"
  define bd' where "bd' = bd\<lparr>bd_next_block := off, bd_free_blocks := bd_free_blocks bd + cnt\<rparr>"
  note ok = bd_okD [OF consistentD(1) [OF c], folded bd_def]
  have l: "length dm = 4096" using consistentD(3) [OF c] by (simp add: dm_def)
  have cr: "clear_run cnt off dm = Some dm'"
    unfolding dm'_def using clear_run_eq [of cnt off dm] used off l by (simp add: dm_def)
  have t: "tst dm' p \<longleftrightarrow> p \<notin> {off..<off + cnt} \<and> tst dm p" if "p < 32768" for p
    unfolding dm'_def using bm.get_fold_put0 [of "[off..<off + cnt]" dm p] that off l by auto
  have set: "\<forall>i\<in>set [off..<off + cnt]. i < 32768 \<and> tst dm i"
  proof
    fix i assume "i \<in> set [off..<off + cnt]"
    then have "i = off + (i - off)" "i - off < cnt" "i < 32768" using off(2) by auto
    with used show "i < 32768 \<and> tst dm i" unfolding dm_def by metis
  qed
  have cnt: "count_pos (\<lambda>j. \<not> tst dm' j) 32768 = bd_free_blocks bd + cnt"
    using clear_count_fold_bclr [OF _ set] l consistentD(5) [OF c] by (simp add: dm'_def dm_def bd_def)
  then have le: "bd_free_blocks bd + cnt \<le> 32768" using count_pos_le [of "\<lambda>j. \<not> tst dm' j" 32768] by simp
  have "length dm' = 4096" using bm.cap_fold_put0 [of "[off..<off + cnt]" dm] l by (simp add: dm'_def)
  then have cons: "bg_consistent b bd' (fs_ibm s ! b) dm'"
    using c cnt t off(1) by (auto simp: bg_consistent_def bd'_def bd_def dm_def bd_ok_def)
  define sb' where "sb' = (fs_sb s)\<lparr>sb_free_blocks := sb_free_blocks (fs_sb s) + int cnt,
      sb_no_of_used_blocks := sb_no_of_used_blocks (fs_sb s) - int cnt\<rparr>"
  define s' where "s' = s\<lparr>fs_bds := (fs_bds s)[b := bd'], fs_dbm := (fs_dbm s)[b := dm'], fs_sb := sb'\<rparr>"
  have add: "u32_add (bd_free_blocks bd) cnt = bd_free_blocks bd + cnt" using le by (simp add: u32_add_small)
  have tot: "sb_no_of_used_blocks (fs_sb s) + sb_free_blocks (fs_sb s) \<le> sb_no_of_blocks (fs_sb s)"
    using inv by (simp add: alloc_inv_def)
  have run: "free_dbitmap b off cnt s = Some s'"
    using False cr alloc_get_bd [OF inv b] ok alloc_invD(6) [OF inv] b len add le ub tot prim off
    by (simp add: free_dbitmap_def inc_free_blocks_def Let_def get_bd_def s'_def sb'_def bd'_def
        bd_def [symmetric] dm_def [symmetric])
  have "alloc_inv s'"
    by (rule alloc_inv_upd [OF inv b cons, where s' = s' and fi = "sb_free_inodes (fs_sb s)"
          and fb = "sb_free_blocks (fs_sb s) + int cnt"
          and u = "sb_no_of_used_blocks (fs_sb s) - int cnt"])
      (use ub tot alloc_invD(7) [OF inv] in \<open>simp_all add: s'_def sb'_def bd'_def bd_def\<close>)
  moreover have "block_used s' x \<longleftrightarrow> x \<notin> {b * 32768 + off ..< b * 32768 + off + cnt} \<and> block_used s x" for x
    using bit_at_upd [of b "fs_dbm s" 32768 dm' "\<lambda>p. p \<notin> {off..<off + cnt} \<and> tst dm p" x] t b len
    unfolding range_pos_iff [OF off(2)] by (auto simp: block_used_def s'_def dm_def)
  ultimately show ?thesis using run by (intro exI [of _ s']) (simp add: free_post_def s'_def sb'_def)
qed

lemma free_blocks_loop_group:
  assumes "0 < k" "off + len + k \<le> bpb s"
  shows "free_blocks_loop k (b * bpb s + off + len) b off len s = free_dbitmap b off (len + k) s"
  using assms
proof (induction k arbitrary: len)
  case (Suc k)
  show ?case
  proof (cases "k = 0")
    case True
    then show ?thesis by (cases "free_dbitmap b off (Suc len) s") (simp_all add: Let_def)
  next
    case False
    define p where "p = off + len + 1"
    have "p < bpb s" using Suc.prems(2) False by (simp add: p_def)
    then have "(b * bpb s + p) div bpb s = b" by simp
    moreover have "b * bpb s + off + len + 1 = b * bpb s + p" by (simp add: p_def)
    ultimately have "(b * bpb s + off + len + 1) div bpb s = b" by (simp only:)
    with False Suc.IH [of "len + 1"] Suc.prems(2) show ?thesis by (simp add: Let_def)
  qed
qed simp

lemma free_blocks_spec:
  assumes inv: "alloc_inv s" and prim: "fs_primary s" and range: "blk + cnt \<le> bgn s * 32768"
    and data: "\<forall>x. blk \<le> x \<and> x < blk + cnt \<longrightarrow> 4100 \<le> x mod 32768 \<and> block_used s x"
    and ub: "int cnt \<le> sb_no_of_used_blocks (fs_sb s)"
  shows "\<exists>s'. free_blocks blk cnt s = Some s' \<and> free_post s {blk..<blk + cnt} s'"
proof (cases "cnt = 0")
  case True
  with free_post_refl [OF inv] show ?thesis by (simp add: free_blocks_def)
next
  case False
  define b where "b = blk div 32768"
  define off where "off = blk mod 32768"
  have blk: "blk = b * 32768 + off" by (simp add: b_def off_def)
  have fit: "off + cnt \<le> 32768"
  proof (rule ccontr)
    assume "\<not> off + cnt \<le> 32768"
    moreover have "off < 32768" by (simp add: off_def)
    ultimately have "4100 \<le> ((b + 1) * 32768) mod 32768"
      using data [rule_format, of "(b + 1) * 32768"] blk by auto
    then show False by (simp only: mod_mult_self2_is_0)
  qed
  have b: "b < bgn s" using range blk False by simp
  have pos: "(b * 32768 + off + i) div 32768 = b" "(b * 32768 + off + i) mod 32768 = off + i" if "i < cnt" for i
    using fit that same_pos_iff [of "off + i" 32768 "b * 32768 + off + i" b] by simp_all
  have t: "\<forall>i<cnt. tst (fs_dbm s ! b) (off + i)"
    using data [rule_format, of "blk + i" for i] pos blk by (auto simp: block_used_def)
  have "4100 \<le> off" using data [rule_format, of blk] False by (simp add: off_def)
  from free_dbitmap_spec [OF inv prim b this fit t ub]
  obtain s' where "free_dbitmap b off cnt s = Some s'" "free_post s {blk..<blk + cnt} s'"
    unfolding blk by blast
  moreover have "free_blocks blk cnt s = free_dbitmap b off cnt s"
    using free_blocks_loop_group [of cnt off 0 s b] False fit alloc_invD(6) [OF inv]
    by (simp add: free_blocks_def blk [symmetric] b_def [symmetric] off_def [symmetric])
  ultimately show ?thesis by simp
qed

lemma return_free_blocks_spec:
  assumes "alloc_inv s" "fs_primary s" "distinct blks"
    "\<forall>x\<in>set blks. x < bgn s * 32768 \<and> 4100 \<le> x mod 32768 \<and> block_used s x"
    "int (length blks) \<le> sb_no_of_used_blocks (fs_sb s)"
  shows "\<exists>s'. return_free_blocks blks s = Some s' \<and> free_post s (set blks) s'"
  using assms
proof (induction blks arbitrary: s)
  case (Cons x xs)
  from free_blocks_spec [OF Cons.prems(1,2), of x 1] Cons.prems(4,5)
  obtain s1 where s1: "free_blocks x 1 s = Some s1" "free_post s {x} s1"
    by (auto simp: less_Suc_eq_le)
  then have "alloc_inv s1" "fs_primary s1" "int (length xs) \<le> sb_no_of_used_blocks (fs_sb s1)"
    "\<forall>y\<in>set xs. y < bgn s1 * 32768 \<and> 4100 \<le> y mod 32768 \<and> block_used s1 y"
    using Cons.prems by (auto simp: free_post_def)
  with Cons.IH [of s1] Cons.prems(3) obtain s' where "return_free_blocks xs s1 = Some s'" "free_post s1 (set xs) s'"
    by auto
  with s1 free_post_trans [OF s1(2), of "set xs" s'] Cons.prems(3) show ?case by auto
qed (simp add: free_post_refl)

section \<open>The allocator on a freshly formatted device\<close>

definition formatted_fs :: "nat \<Rightarrow> nat \<Rightarrow> fs" where
  "formatted_fs now n = \<lparr>fs_bds = map (\<lambda>b. if b = 0 then root_bd else fresh_bd b) [0..<n],
     fs_ibm = map (\<lambda>b. if b = 0 then root_ibm else zero_bitmap) [0..<n],
     fs_dbm = map (\<lambda>b. if b = 0 then root_dbm else fresh_dbm b) [0..<n],
     fs_itable = (\<lambda>_. zero_inode)(ROOT_INO := root_inode now 4100), fs_sb = formatted_sb n,
     fs_asb_free_inodes = 0, fs_asb_free_blocks = 0, fs_last_ino = 0, fs_last_bgid = 0,
     fs_last_bgid_ino = 0, fs_curr_bg = 0, fs_primary = True\<rparr>"

lemma root_ibm_bits: "i < 8 \<Longrightarrow> tst root_ibm i"
  using bm.get_fold_put1 [of "[0..<NUM_RESV_INO]" zero_bitmap i] zero_bitmap_bits
  by (auto simp: NUM_RESV_INO_def)

lemma formatted_fs_inv:
  assumes "0 < n"
  shows "alloc_inv (formatted_fs now n)"
proof -
  obtain m where m: "n = Suc m" using assms by (cases n) auto
  have l: "[0..<Suc m] = 0 # map Suc [0..<m]" by (simp add: upt_conv_Cons map_Suc_upt del: upt_Suc)
  have "sum_list (map bd_free_inodes (fs_bds (formatted_fs now n))) = 4088 + 4096 * m"
    "sum_list (map bd_free_blocks (fs_bds (formatted_fs now n))) = 28667 + 28668 * m"
    by (simp_all only: formatted_fs_def m l) (simp_all add: comp_def sum_list_triv mult.commute)
  moreover have "bg_consistent b (fs_bds (formatted_fs now n) ! b) (fs_ibm (formatted_fs now n) ! b)
      (fs_dbm (formatted_fs now n) ! b)" if "b < n" for b
    using that root_consistent fresh_consistent [of b] by (cases "b = 0") (simp_all add: formatted_fs_def)
  ultimately show ?thesis
    using assms root_ibm_bits
    by (simp add: alloc_inv_def formatted_fs_def formatted_sb_def m algebra_simps del: upt_Suc)
qed

section \<open>Properties\<close>



text \<open>C24: an inode that is allocated and then deleted leaves the file system as it was:
  every inode is used exactly when it was before, the block bitmaps and the
  free counters are unchanged and the invariant holds, so inode numbers are
  not leaked by create and remove.\<close>

theorem inode_alloc_delete_roundtrip:
  assumes "alloc_inv s" "fs_primary s" "fs_last_ino s < bgn s * 4096" "sb_free_inodes (fs_sb s) \<noteq> 0"
  shows "\<exists>ino s1 s2. alloc_new_inode s = Some (ino, s1) \<and> relocate_delete_inode ino s1 = Some s2
    \<and> (\<forall>j < bgn s * 4096. inode_used s2 j \<longleftrightarrow> inode_used s j) \<and> fs_dbm s2 = fs_dbm s
    \<and> sb_free_inodes (fs_sb s2) = sb_free_inodes (fs_sb s) \<and> i_ino (fs_itable s2 ino) = 0 \<and> alloc_inv s2"
proof -
  obtain ino s1 where a: "alloc_new_inode s = Some (ino, s1)" "8 \<le> ino" "ino < bgn s * 4096"
    "\<not> inode_used s ino" "\<forall>j < bgn s * 4096. inode_used s1 j \<longleftrightarrow> j = ino \<or> inode_used s j"
    "fs_dbm s1 = fs_dbm s" "sb_free_inodes (fs_sb s1) = sb_free_inodes (fs_sb s) - 1" "alloc_inv s1"
    using alloc_new_inode_spec [OF assms] by blast
  have bg: "bgn s1 = bgn s" using a(6) alloc_invD(4) [OF a(8)] alloc_invD(4) [OF assms(1)] by simp
  with delete_inode_spec [OF a(8,2)] a(3,5) obtain s2 where d: "relocate_delete_inode ino s1 = Some s2"
    "\<forall>j < bgn s1 * 4096. inode_used s2 j \<longleftrightarrow> j \<noteq> ino \<and> inode_used s1 j"
    "i_ino (fs_itable s2 ino) = 0" "fs_dbm s2 = fs_dbm s1"
    "sb_free_inodes (fs_sb s2) = sb_free_inodes (fs_sb s1) + 1" "alloc_inv s2" by force
  have "\<forall>j < bgn s * 4096. inode_used s2 j \<longleftrightarrow> inode_used s j" using d(2) a(4,5) bg by metis
  with a(1,6,7) d(1,3-6) show ?thesis by auto
qed

theorem inode_alloc_delete_roundtrip_witness:
  "\<exists>ino s1 s2. alloc_new_inode (formatted_fs 0 2) = Some (ino, s1) \<and> relocate_delete_inode ino s1 = Some s2
    \<and> sb_free_inodes (fs_sb s2) = 8184"
  using inode_alloc_delete_roundtrip [of "formatted_fs 0 2"] formatted_fs_inv [of 2 0]
  by (fastforce simp: formatted_fs_def formatted_sb_def)

lemma alloc_free_block_spec:
  assumes "alloc_inv s" "fs_primary s" "ino < bgn s * 4096" "fs_last_bgid s < bgn s" "0 < num" "num < 2 ^ 32"
    "sb_free_blocks (fs_sb s) \<noteq> 0"
  shows "\<exists>blks s'. alloc_free_block ino num s = Some (blks, s') \<and> alloc_post s blks s'
    \<and> length blks = min num (nat (sb_free_blocks (fs_sb s)))"
proof -
  define b where "b = (if ino div ipb s \<noteq> fs_last_bgid s \<and> ino = fs_last_bgid_ino s
      then fs_last_bgid s else ino div ipb s)"
  have b: "b < bgn s" using assms(3,4) alloc_invD(5) [OF assms(1)] by (simp add: b_def less_mult_imp_div_less)
  have "alloc_free_block ino num s = alloc_block_loop (bgn s) ino b b num [] s"
    unfolding alloc_free_block_def b_def by metis
  with alloc_block_loop_spec [OF assms(1,2) b, of b 0 "bgn s" num "[]" ino] assms(5-7) b show ?thesis
    by auto
qed

text \<open>C16: a request for \<open>num\<close> data blocks returns \<open>num\<close> of them whenever that many are
  free anywhere in the file system, and otherwise all that are left: the
  search over the groups terminates and misses none.  The returned blocks are
  pairwise distinct, lie in the data area of a group, and were free; exactly
  they become used, the counters follow, and the invariant is kept.  In
  particular no block is ever handed out twice.\<close>

theorem alloc_free_block_correct:
  assumes "alloc_inv s" "fs_primary s" "ino < bgn s * 4096" "fs_last_bgid s < bgn s" "0 < num" "num < 2 ^ 32"
    "sb_free_blocks (fs_sb s) \<noteq> 0"
  shows "\<exists>blks s'. alloc_free_block ino num s = Some (blks, s')
    \<and> length blks = min num (nat (sb_free_blocks (fs_sb s))) \<and> distinct blks
    \<and> (\<forall>x\<in>set blks. x < bgn s * 32768 \<and> 4100 \<le> x mod 32768 \<and> \<not> block_used s x)
    \<and> (\<forall>x < bgn s * 32768. block_used s' x \<longleftrightarrow> x \<in> set blks \<or> block_used s x)
    \<and> sb_free_blocks (fs_sb s') = sb_free_blocks (fs_sb s) - int (length blks) \<and> alloc_inv s'"
  using alloc_free_block_spec [OF assms] unfolding alloc_post_def by blast

theorem alloc_free_block_correct_witness:
  "\<exists>blks s'. alloc_free_block 2 57336 (formatted_fs 0 2) = Some (blks, s') \<and> length blks = 57335"
  using alloc_free_block_correct [of "formatted_fs 0 2" 2 57336] formatted_fs_inv [of 2 0]
  by (fastforce simp: formatted_fs_def formatted_sb_def)

text \<open>C22: returning the blocks of an allocation restores the file system: the same
  blocks are used as before, the free and used counters have their old values
  and the invariant holds; none of the assertions of the release path fails.\<close>

theorem block_alloc_return_roundtrip:
  assumes "alloc_inv s" "fs_primary s" "ino < bgn s * 4096" "fs_last_bgid s < bgn s" "0 < num" "num < 2 ^ 32"
    "sb_free_blocks (fs_sb s) \<noteq> 0"
  shows "\<exists>blks s1 s2. alloc_free_block ino num s = Some (blks, s1) \<and> return_free_blocks blks s1 = Some s2
    \<and> (\<forall>x < bgn s * 32768. block_used s2 x \<longleftrightarrow> block_used s x)
    \<and> sb_free_blocks (fs_sb s2) = sb_free_blocks (fs_sb s)
    \<and> sb_no_of_used_blocks (fs_sb s2) = sb_no_of_used_blocks (fs_sb s) \<and> alloc_inv s2"
proof -
  obtain blks s1 where a: "alloc_free_block ino num s = Some (blks, s1)" "alloc_post s blks s1"
    using alloc_free_block_spec [OF assms] by blast
  have u: "0 \<le> sb_no_of_used_blocks (fs_sb s)" using assms(1) by (simp add: alloc_inv_def)
  note p = a(2) [unfolded alloc_post_def]
  have "\<exists>s2. return_free_blocks blks s1 = Some s2 \<and> free_post s1 (set blks) s2"
    by (rule return_free_blocks_spec) (use p u assms(2) in auto)
  then obtain s2 where r: "return_free_blocks blks s1 = Some s2" "free_post s1 (set blks) s2" by blast
  have "card (set blks) = length blks" using p by (simp add: distinct_card)
  with a(1) r(1) r(2) [unfolded free_post_def] p show ?thesis by auto
qed

theorem block_alloc_return_roundtrip_witness:
  "\<exists>blks s1 s2. alloc_free_block 2 3 (formatted_fs 0 2) = Some (blks, s1) \<and> return_free_blocks blks s1 = Some s2
    \<and> sb_free_blocks (fs_sb s2) = 57335"
  using block_alloc_return_roundtrip [of "formatted_fs 0 2" 2 3] formatted_fs_inv [of 2 0]
  by (fastforce simp: formatted_fs_def formatted_sb_def)

text \<open>A double free is caught: releasing a range of blocks inside one group in
  which some block is already free stops at the assertion of
  \<open>nvfuse_free_dbitmap\<close> and never returns a changed state.\<close>

theorem double_free_stops:
  assumes "alloc_inv s" "b < bgn s" "off + cnt \<le> 32768" "i < cnt" "\<not> block_used s (b * 32768 + off + i)"
  shows "free_blocks (b * 32768 + off) cnt s = None"
proof -
  have l: "bits (fs_dbm s ! b) = 32768" using consistentD(3) [OF alloc_invD(8) [OF assms(1,2)]] by simp
  have "(b * 32768 + off + i) div 32768 = b" "(b * 32768 + off + i) mod 32768 = off + i"
    using same_pos_iff [of "off + i" 32768 "b * 32768 + off + i" b] assms(3,4) by simp_all
  then have "\<not> tst (fs_dbm s ! b) (off + i)" using assms(5) by (simp add: block_used_def)
  then have "clear_run cnt off (fs_dbm s ! b) = None" using clear_run_stops [of i cnt off] assms(3,4) l by auto
  then have "free_dbitmap b off cnt s = None" by (simp add: free_dbitmap_def alloc_get_bd [OF assms(1,2)])
  moreover have "off < 32768" "0 < cnt" using assms(3,4) by simp_all
  ultimately show ?thesis
    using free_blocks_loop_group [of cnt off 0 s b] alloc_invD(6) [OF assms(1)] assms(3)
    by (simp add: free_blocks_def)
qed

theorem double_free_stops_witness: "free_blocks 4200 1 (formatted_fs 0 2) = None"
  using double_free_stops [of "formatted_fs 0 2" 0 4200 1 0] formatted_fs_inv [of 2 0]
    tst_bset [of 4100 "fresh_dbm 0" 4200] fresh_dbm_bits(1) [of 0] fresh_dbm_bits(2) [of 4200 0]
  by (simp add: formatted_fs_def formatted_sb_def block_used_def upt_rec)

text \<open>After the very last inode of the device has been allocated, the search hint
  points one past the last group, and the next allocation reads the
  descriptor of a group that does not exist and stops, however many inodes
  are free in the other groups.\<close>

theorem inode_hint_overrun:
  assumes "alloc_inv s" "fs_primary s" "fs_last_ino s = bgn s * 4096"
  shows "alloc_new_inode s = None"
  using assms alloc_invD [OF assms(1)]
  by (cases "bgn s") (simp_all add: alloc_new_inode_def find_free_inode_def scan_free_ibitmap_def get_bd_def Let_def)

theorem inode_hint_overrun_witness:
  "alloc_new_inode ((formatted_fs 0 2)\<lparr>fs_last_ino := 8192\<rparr>) = None"
  using inode_hint_overrun [of "(formatted_fs 0 2)\<lparr>fs_last_ino := 8192\<rparr>"] formatted_fs_inv [of 2 0]
  by (simp add: alloc_inv_def formatted_fs_def formatted_sb_def)

end
