(* ===== verification/Indirect.thy ===== *)
theory Indirect
  imports Alloc
begin

text \<open>
  The block map of a file, \<open>nvfuse_indirect.c\<close>: translation of logical block
  numbers to paths (\<open>nvfuse_block_to_path\<close>), lookup along direct, indirect, double
  and triple indirect blocks (\<open>nvfuse_get_branch\<close>), allocation of missing blocks
  (\<open>nvfuse_blks_to_allocate\<close>, \<open>nvfuse_alloc_free_blocks\<close>, \<open>nvfuse_alloc_branch\<close>,
  \<open>nvfuse_splice_branch\<close>, \<open>nvfuse_get_block\<close>) and the release of a file's blocks.

  The state \<open>blkmap\<close> holds the allocator state, the 14 block pointers of the inode
  and the contents of indirect blocks as arrays of 1024 pointers.  A C pointer
  \<open>u32 *p\<close> into one of these arrays is a \<open>ploc\<close>.  Reading a block through the buffer
  cache is taken to succeed.  No other thread changes the map during a call, so
  the rereading of a changed chain in \<open>nvfuse_get_block\<close> does not occur; the test
  itself, \<open>verify_chain\<close>, is kept in \<open>nvfuse_get_branch\<close>.
\<close>

definition DIRECT_BLOCKS :: nat where "DIRECT_BLOCKS = 11"
definition INDIRECT_BLOCKS :: nat where "INDIRECT_BLOCKS = 11"
definition DINDIRECT_BLOCKS :: nat where "DINDIRECT_BLOCKS = 12"
definition TINDIRECT_BLOCKS :: nat where "TINDIRECT_BLOCKS = 13"
definition PTRS_PER_BLOCK :: nat where "PTRS_PER_BLOCK = 1024"
definition EAGAIN :: int where "EAGAIN = 11"

lemmas ptr_consts = DIRECT_BLOCKS_def INDIRECT_BLOCKS_def DINDIRECT_BLOCKS_def TINDIRECT_BLOCKS_def
  PTRS_PER_BLOCK_def

section \<open>Paths\<close>

text \<open>The result is the array of offsets (empty when the number is out of range) and
  the value stored through \<open>boundary\<close>; \<open>block & (ptrs - 1)\<close> is the remainder modulo
  1024 for negative numbers too.\<close>

definition block_to_path :: "int \<Rightarrow> nat list \<times> int" where
  "block_to_path block =
    (let b1 = block - int DIRECT_BLOCKS; b2 = b1 - int PTRS_PER_BLOCK; b3 = b2 - 2 ^ 20; ptrs = int PTRS_PER_BLOCK in
     if block < 0 then ([], -1 - block mod ptrs)
     else if block < int DIRECT_BLOCKS then ([nat block], int DIRECT_BLOCKS - 1 - block mod ptrs)
     else if b1 < ptrs then ([INDIRECT_BLOCKS, nat b1], ptrs - 1 - b1 mod ptrs)
     else if b2 < ptrs * ptrs
       then ([DINDIRECT_BLOCKS, nat (b2 div 2 ^ 10), nat (b2 mod ptrs)], ptrs - 1 - b2 mod ptrs)
     else if b3 div 2 ^ 20 < ptrs
       then ([TINDIRECT_BLOCKS, nat (b3 div 2 ^ 20), nat (b3 div 2 ^ 10 mod ptrs), nat (b3 mod ptrs)],
             ptrs - 1 - b3 mod ptrs)
     else ([], -1 - b3 mod ptrs))"

section \<open>The block map\<close>

datatype ploc = InInode nat | InBlock nat nat

record blkmap =
  bm_fs :: fs
  bm_ib :: "nat list"
  bm_mb :: "nat \<Rightarrow> nat list"

fun load :: "blkmap \<Rightarrow> ploc \<Rightarrow> nat" where
  "load t (InInode i) = bm_ib t ! i"
| "load t (InBlock b i) = bm_mb t b ! i"

fun ploc_add :: "ploc \<Rightarrow> nat \<Rightarrow> ploc" where
  "ploc_add (InInode i) k = InInode (i + k)"
| "ploc_add (InBlock b i) k = InBlock b (i + k)"

text \<open>The loops that write consecutive pointers, \<open>*(p + i) = *direct_map++\<close>.\<close>

fun write_run :: "nat list \<Rightarrow> nat \<Rightarrow> nat list \<Rightarrow> nat list" where
  "write_run xs i [] = xs"
| "write_run xs i (v # vs) = write_run (xs[i := v]) (i + 1) vs"

fun store_run :: "ploc \<Rightarrow> nat list \<Rightarrow> blkmap \<Rightarrow> blkmap" where
  "store_run (InInode i) vs t = t\<lparr>bm_ib := write_run (bm_ib t) i vs\<rparr>"
| "store_run (InBlock b i) vs t = t\<lparr>bm_mb := (bm_mb t)(b := write_run (bm_mb t b) i vs)\<rparr>"

record indirect =
  ind_p :: ploc
  ind_key :: nat
  ind_bh :: "nat option"

definition add_chain :: "blkmap \<Rightarrow> nat option \<Rightarrow> ploc \<Rightarrow> indirect" where
  "add_chain t bh v = \<lparr>ind_p = v, ind_key = load t v, ind_bh = bh\<rparr>"

definition verify_chain :: "blkmap \<Rightarrow> indirect list \<Rightarrow> bool" where
  "verify_chain t chain = list_all (\<lambda>c. ind_key c = load t (ind_p c)) chain"

text \<open>\<open>nvfuse_get_branch\<close> returns the filled part of the chain, whether it is complete
  (\<open>NULL\<close> in C) and the error code.\<close>

fun get_branch_loop :: "blkmap \<Rightarrow> nat list \<Rightarrow> indirect list \<Rightarrow> indirect list \<times> bool \<times> int" where
  "get_branch_loop t [] chain = (chain, True, 0)"
| "get_branch_loop t (off # offs) chain =
    (let p = last chain in
     if \<not> verify_chain t chain then (chain, False, - EAGAIN)
     else let q = add_chain t (Some (ind_key p)) (InBlock (ind_key p) off) in
       if ind_key q = 0 then (chain @ [q], False, 0)
       else get_branch_loop t offs (chain @ [q]))"

fun get_branch :: "blkmap \<Rightarrow> nat list \<Rightarrow> indirect list \<times> bool \<times> int" where
  "get_branch t [] = ([], True, 0)"
| "get_branch t (off # offs) =
    (let c = add_chain t None (InInode off) in
     if ind_key c = 0 then ([c], False, 0) else get_branch_loop t offs [c])"

section \<open>Allocation\<close>

text \<open>The two counting loops; the fuel is the number of rounds the bounds of the loop
  allow.\<close>

fun zeroes :: "blkmap \<Rightarrow> ploc \<Rightarrow> nat \<Rightarrow> nat \<Rightarrow> nat" where
  "zeroes t p 0 c = c"
| "zeroes t p (Suc k) c = (if load t (ploc_add p c) = 0 then zeroes t p k (c + 1) else c)"

fun contiguous :: "blkmap \<Rightarrow> ploc \<Rightarrow> nat \<Rightarrow> nat \<Rightarrow> nat \<Rightarrow> nat" where
  "contiguous t p first 0 c = c"
| "contiguous t p first (Suc k) c =
    (if load t (ploc_add p c) = first + c then contiguous t p first k (c + 1) else c)"

definition blks_to_allocate :: "blkmap \<Rightarrow> ploc \<Rightarrow> nat \<Rightarrow> nat \<Rightarrow> nat \<Rightarrow> nat" where
  "blks_to_allocate t p k blks boundary =
     (if 0 < k then (if blks < boundary + 1 then blks else boundary + 1)
      else zeroes t p (min (blks - 1) boundary) 1)"

definition alloc_free_blocks :: "nat \<Rightarrow> nat \<Rightarrow> nat \<Rightarrow> fs \<Rightarrow> (nat list \<times> nat list \<times> fs) option" where
  "alloc_free_blocks ino num_indirect num_blocks s = do {
     (blocks, s1) \<leftarrow> alloc_free_block ino (num_indirect + 1) s;
     assert_opt (length blocks = num_indirect + 1);
     let total = u32_sub num_blocks 1 in
     if total \<noteq> 0 then do {
       (direct_map, s2) \<leftarrow> alloc_free_block ino total s1;
       assert_opt (length direct_map = total);
       Some (blocks, direct_map, s2) }
     else Some (blocks, [], s1) }"

text \<open>The loop of \<open>nvfuse_alloc_branch\<close> over the new blocks: each new indirect block is
  zeroed and points to the next new block at the offset of the path, which is
  asserted to be 0; the last one also gets the blocks of \<open>direct_map\<close>.\<close>

fun link_blocks :: "nat list \<Rightarrow> nat list \<Rightarrow> nat list \<Rightarrow> blkmap \<Rightarrow> blkmap option" where
  "link_blocks (b # c # bs) (off # offs) dm t = do {
     assert_opt (off = 0);
     let blk = (replicate PTRS_PER_BLOCK 0)[off := c];
         blk' = (if bs = [] then write_run blk (off + 1) dm else blk)
     in link_blocks (c # bs) offs dm (t\<lparr>bm_mb := (bm_mb t)(b := blk')\<rparr>) }"
| "link_blocks _ _ dm t = Some t"

definition splice_branch :: "ploc \<Rightarrow> nat \<Rightarrow> nat list \<Rightarrow> nat \<Rightarrow> nat \<Rightarrow> blkmap \<Rightarrow> blkmap" where
  "splice_branch p key dm num blks t =
     (let t1 = store_run p [key] t in
      if num = 0 \<and> 1 < blks then store_run (ploc_add p 1) dm t1 else t1)"

text \<open>The result is the return value, \<open>*num_alloc_blocks\<close> and \<open>*pblock\<close>.\<close>

definition get_block :: "nat \<Rightarrow> int \<Rightarrow> nat \<Rightarrow> bool \<Rightarrow> blkmap \<Rightarrow> (int \<times> nat \<times> nat \<times> blkmap) option" where
  "get_block ino lblock maxblocks create t =
    (let (offs, boundary) = block_to_path lblock in
     if offs = [] then Some (-1, 0, 0, t)
     else let (chain, full, err) = get_branch t offs; p = last chain in
       if full then
         Some (0, contiguous t (ind_p p) (ind_key p) (min (maxblocks - 1) (nat boundary)) 1, ind_key p, t)
       else if \<not> create then Some (err, 0, 0, t)
       else let num = length offs - length chain;
                count = blks_to_allocate t (ind_p p) num maxblocks (nat boundary)
            in do {
              (blocks, dm, s1) \<leftarrow> alloc_free_blocks ino num count (bm_fs t);
              t1 \<leftarrow> link_blocks blocks (drop (length chain) offs) dm (t\<lparr>bm_fs := s1\<rparr>);
              Some (0, count, last blocks, splice_branch (ind_p p) (hd blocks) dm num count t1) })"

section \<open>Paths and block numbers\<close>

fun path_ok :: "nat list \<Rightarrow> bool" where
  "path_ok [a] = (a < 11)"
| "path_ok [a, b] = (a = 11 \<and> b < 1024)"
| "path_ok [a, b, c] = (a = 12 \<and> b < 1024 \<and> c < 1024)"
| "path_ok [a, b, c, d] = (a = 13 \<and> b < 1024 \<and> c < 1024 \<and> d < 1024)"
| "path_ok _ = False"

fun path_block :: "nat list \<Rightarrow> int" where
  "path_block [a] = int a"
| "path_block [a, b] = 11 + int b"
| "path_block [a, b, c] = 1035 + 1024 * int b + int c"
| "path_block [a, b, c, d] = 1049611 + 1048576 * int b + 1024 * int c + int d"
| "path_block _ = -1"

definition max_lblock :: int where "max_lblock = 11 + 1024 + 1024 * 1024 + 1024 * 1024 * 1024"

lemma block_to_path_range: "fst (block_to_path l) \<noteq> [] \<longleftrightarrow> 0 \<le> l \<and> l < max_lblock"
  by (auto simp: block_to_path_def ptr_consts max_lblock_def Let_def)

lemma digit_ex:
  assumes "0 \<le> (x::int)"
  shows "\<exists>a c. x = 1024 * int a + int c \<and> c < 1024"
proof (intro exI conjI)
  show "x = 1024 * int (nat (x div 1024)) + int (nat (x mod 1024))" "nat (x mod 1024) < 1024"
    using assms by (simp_all add: pos_imp_zdiv_nonneg_iff)
qed

lemma digit_inj:
  assumes "1024 * int x + int c = 1024 * int y + int d" "c < 1024" "d < 1024"
  shows "x = y \<and> c = d"
proof -
  have "(1024 * int x + int c) div 1024 = int x" "(1024 * int y + int d) div 1024 = int y"
    using assms(2,3) by simp_all
  then have "x = y" using assms(1) by simp
  with assms(1) show ?thesis by simp
qed

lemma digit_inj3:
  assumes "1048576 * int a + (1024 * int b + int c) = 1048576 * int x + (1024 * int y + int z)"
    "b < 1024" "c < 1024" "y < 1024" "z < 1024"
  shows "a = x \<and> b = y \<and> c = z"
proof -
  have "1024 * int (1024 * a + b) + int c = 1024 * int (1024 * x + y) + int z" using assms(1) by simp
  from digit_inj [OF this assms(3,5)] have "1024 * a + b = 1024 * x + y" "c = z" by blast+
  moreover from this(1) have "1024 * int a + int b = 1024 * int x + int y" by linarith
  ultimately show ?thesis using digit_inj [of a b x y] assms(2,4) by simp
qed

lemma block_to_path_ok:
  assumes "0 \<le> l" "l < max_lblock"
  defines "offs \<equiv> fst (block_to_path l)"
  shows "path_ok offs" "path_block offs = l"
    "snd (block_to_path l) = (if length offs = 1 then 10 else 1023) - int (last offs)"
proof -
  consider "l < 11" | "11 \<le> l" "l < 1035" | "1035 \<le> l" "l < 1049611" | "1049611 \<le> l" by linarith
  then have "path_ok offs \<and> path_block offs = l
    \<and> snd (block_to_path l) = (if length offs = 1 then 10 else 1023) - int (last offs)"
  proof cases
    case 1
    with assms show ?thesis by (simp add: block_to_path_def ptr_consts Let_def nat_less_iff)
  next
    case 2
    with assms show ?thesis by (simp add: block_to_path_def ptr_consts Let_def nat_less_iff)
  next
    case 3
    obtain a c where "l - 1035 = 1024 * int a + int c" "c < 1024" using digit_ex [of "l - 1035"] 3 by auto
    then have ac: "l = 1035 + (1024 * int a + int c)" "a < 1024" "c < 1024" using 3 by linarith+
    then show ?thesis by (simp add: offs_def block_to_path_def ptr_consts Let_def)
  next
    case 4
    obtain x c where x: "l - 1049611 = 1024 * int x + int c" "c < 1024" using digit_ex [of "l - 1049611"] 4 by auto
    obtain a b where ab: "int x = 1024 * int a + int b" "b < 1024" using digit_ex [of "int x"] by auto
    have l: "l = 1049611 + (1024 * (1024 * int a + int b) + int c)" using x(1) unfolding ab(1) by linarith
    have a: "a < 1024" using l assms(2) by (simp add: max_lblock_def)
    define m where "m = 1024 * int x + int c"
    have "m div 1024 = int x" and q2: "m mod 1024 = int c" using x(2) by (simp_all add: m_def)
    then have q: "m div 1024 = 1024 * int a + int b" "m mod 1024 = int c" using ab(1) by simp_all
    have "m div 1048576 = int a" using zdiv_zmult2_eq [of 1024 m 1024] q(1) ab(2) by simp
    moreover have "m div 1024 mod 1024 = int b" using q(1) ab(2) by simp
    moreover have "l = 1049611 + m" using x(1) by (simp add: m_def)
    ultimately show ?thesis using q(2) a x(2) ab(2) 4 l
      by (simp add: offs_def block_to_path_def ptr_consts Let_def)
  qed
  then show "path_ok offs" "path_block offs = l"
    "snd (block_to_path l) = (if length offs = 1 then 10 else 1023) - int (last offs)" by blast+
qed

lemma path_block_range: "path_ok p \<Longrightarrow> 0 \<le> path_block p \<and> path_block p < max_lblock"
  by (cases p rule: path_ok.cases) (auto simp: max_lblock_def)

lemma path_block_inj:
  assumes "path_ok p" "path_ok q" "path_block p = path_block q"
  shows "p = q"
  using assms by (cases p rule: path_ok.cases; cases q rule: path_ok.cases) (auto dest!: digit_inj digit_inj3)

lemma block_to_path_inverse: "path_ok p \<Longrightarrow> fst (block_to_path (path_block p)) = p"
  using path_block_range [of p] block_to_path_ok [of "path_block p"] path_block_inj [of _ p] by blast

section \<open>The tree of pointers\<close>

text \<open>The block a path leads to, 0 when a pointer on the way is 0.  Paths are written
  from the leaf to the inode here, so that a prefix of the path is a tail of the
  list; \<open>slot\<close> is where the last pointer of the path is stored.\<close>

fun node :: "blkmap \<Rightarrow> nat list \<Rightarrow> nat" where
  "node t [] = 0"
| "node t [i] = bm_ib t ! i"
| "node t (i # p # ps) = (if node t (p # ps) = 0 then 0 else bm_mb t (node t (p # ps)) ! i)"

fun slot :: "blkmap \<Rightarrow> nat list \<Rightarrow> ploc" where
  "slot t [] = InInode 0"
| "slot t [i] = InInode i"
| "slot t (i # p # ps) = InBlock (node t (p # ps)) i"

definition depth_of :: "nat \<Rightarrow> nat" where
  "depth_of i = (if i < 11 then 1 else i - 9)"

definition rpath :: "nat list \<Rightarrow> bool" where
  "rpath q \<longleftrightarrow> q \<noteq> [] \<and> last q < 14 \<and> length q \<le> depth_of (last q) \<and> (\<forall>x\<in>set (butlast q). x < 1024)"

lemma rpath_single [simp]: "rpath [i] \<longleftrightarrow> i < 14"
  by (auto simp: rpath_def depth_of_def)

lemma rpath_Cons: "p \<noteq> [] \<Longrightarrow> rpath (i # p) \<longleftrightarrow> rpath p \<and> i < 1024 \<and> length p < depth_of (last p)"
  by (auto simp: rpath_def)

lemma rpath_append: "rpath (p @ q) \<Longrightarrow> q \<noteq> [] \<Longrightarrow> rpath q"
  by (auto simp: rpath_def butlast_append)

lemma path_ok_rpath: "path_ok p \<Longrightarrow> rpath (rev p) \<and> length p = depth_of (hd p) \<and> p \<noteq> [] \<and> length p \<le> 4"
  by (cases p rule: path_ok.cases) (auto simp: rpath_def depth_of_def)

lemma node_Cons: "p \<noteq> [] \<Longrightarrow> node t (i # p) = (if node t p = 0 then 0 else bm_mb t (node t p) ! i)"
  by (cases p) auto

lemma slot_Cons: "p \<noteq> [] \<Longrightarrow> slot t (i # p) = InBlock (node t p) i"
  by (cases p) auto

lemma node_zero_append: "node t p = 0 \<Longrightarrow> p \<noteq> [] \<Longrightarrow> node t (q @ p) = 0"
  by (induction q) (auto simp: node_Cons)

lemma load_slot: "p \<noteq> [] \<Longrightarrow> tl p = [] \<or> node t (tl p) \<noteq> 0 \<Longrightarrow> load t (slot t p) = node t p"
  by (cases "(t, p)" rule: slot.cases) auto

text \<open>\<open>nvfuse_get_branch\<close> follows the path as far as it is mapped.\<close>

definition branch_ok :: "blkmap \<Rightarrow> nat list \<Rightarrow> indirect list \<Rightarrow> bool" where
  "branch_ok t offs chain \<longleftrightarrow> chain \<noteq> [] \<and> length chain \<le> length offs
     \<and> ind_p (last chain) = slot t (rev (take (length chain) offs))
     \<and> ind_key (last chain) = node t (rev (take (length chain) offs))
     \<and> (\<forall>m<length chain. 0 < m \<longrightarrow> node t (rev (take m offs)) \<noteq> 0) \<and> verify_chain t chain"

lemma get_branch_loop_spec:
  assumes "get_branch_loop t (drop (length chain) offs) chain = (c, full, err)"
    "branch_ok t offs chain" "ind_key (last chain) \<noteq> 0"
  shows "branch_ok t offs c \<and> err = 0 \<and> (if full then length c = length offs \<and> ind_key (last c) \<noteq> 0
    else ind_key (last c) = 0)"
  using assms
proof (induction "drop (length chain) offs" arbitrary: chain)
  case Nil
  then show ?case by (auto simp: branch_ok_def)
next
  case (Cons off os)
  let ?n = "length chain"
  let ?q = "add_chain t (Some (ind_key (last chain))) (InBlock (ind_key (last chain)) off)"
  have n: "?n < length offs" and off: "offs ! ?n = off" and os: "os = drop (Suc ?n) offs"
    using Cons.hyps(2) by (metis drop_all list.distinct(1) not_less, metis nth_via_drop, metis drop_Suc tl_drop list.sel(3))
  have tk: "rev (take (Suc ?n) offs) = off # rev (take ?n offs)" using n off by (simp add: take_Suc_conv_app_nth)
  have ne: "rev (take ?n offs) \<noteq> []" using Cons.prems(2) n by (auto simp: branch_ok_def)
  have key: "ind_key ?q = node t (rev (take (Suc ?n) offs))" "ind_p ?q = slot t (rev (take (Suc ?n) offs))"
    using Cons.prems(2,3) by (simp_all add: add_chain_def tk node_Cons [OF ne] slot_Cons [OF ne] branch_ok_def)
  have ld: "ind_key ?q = load t (ind_p ?q)" by (simp add: add_chain_def)
  have ok: "branch_ok t offs (chain @ [?q])"
    using Cons.prems(2,3) n key ld by (auto simp: branch_ok_def less_Suc_eq verify_chain_def)
  have v: "verify_chain t chain" using Cons.prems(2) by (simp add: branch_ok_def)
  have run: "get_branch_loop t (off # os) chain = (c, full, err)" using Cons.prems(1) Cons.hyps(2) by simp
  show ?case
  proof (cases "ind_key ?q = 0")
    case True
    with run v ok show ?thesis by (auto simp: Let_def)
  next
    case False
    with run v os have "get_branch_loop t (drop (length (chain @ [?q])) offs) (chain @ [?q]) = (c, full, err)"
      by (simp add: Let_def)
    from Cons.hyps(1) [OF _ this ok] os False show ?thesis by simp
  qed
qed

lemma get_branch_spec:
  assumes "get_branch t offs = (c, full, err)" "offs \<noteq> []"
  shows "branch_ok t offs c \<and> err = 0 \<and> (full \<longleftrightarrow> node t (rev offs) \<noteq> 0)
    \<and> (full \<longrightarrow> length c = length offs) \<and> (\<not> full \<longrightarrow> ind_key (last c) = 0)"
proof -
  obtain off os where o: "offs = off # os" using assms(2) by (cases offs) auto
  let ?c = "add_chain t None (InInode off)"
  have ok: "branch_ok t offs [?c]" by (simp add: branch_ok_def o add_chain_def verify_chain_def)
  have r: "branch_ok t offs c \<and> err = 0 \<and> (if full then length c = length offs \<and> ind_key (last c) \<noteq> 0
    else ind_key (last c) = 0)"
  proof (cases "ind_key ?c = 0")
    case True
    with assms(1) ok o show ?thesis by (auto simp: Let_def)
  next
    case False
    with assms(1) o have "get_branch_loop t (drop (length [?c]) offs) [?c] = (c, full, err)" by (simp add: Let_def)
    from get_branch_loop_spec [OF this ok] False show ?thesis by simp
  qed
  have z: "node t (rev offs) = 0" if "\<not> full"
  proof -
    have "node t (rev (take (length c) offs)) = 0" "take (length c) offs \<noteq> []"
      using r that assms(2) by (auto simp: branch_ok_def)
    then have "node t (rev (drop (length c) offs) @ rev (take (length c) offs)) = 0" by (simp add: node_zero_append)
    then show ?thesis by (metis append_take_drop_id rev_append)
  qed
  have "node t (rev offs) \<noteq> 0" if full using r that by (auto simp: branch_ok_def)
  with r z show ?thesis by (auto split: if_splits)
qed

section \<open>Extending the tree\<close>

lemma length_write_run [simp]: "length (write_run xs i vs) = length xs"
  by (induction xs i vs rule: write_run.induct) simp_all

lemma nth_write_run:
  assumes "i + length vs \<le> length xs" "j < length xs"
  shows "write_run xs i vs ! j = (if i \<le> j \<and> j < i + length vs then vs ! (j - i) else xs ! j)"
  using assms
proof (induction xs i vs rule: write_run.induct)
  case (2 xs i v vs)
  then show ?case by (auto simp: nth_Cons' le_Suc_eq not_less_eq_eq)
qed simp

lemma store_run_join: "store_run (ploc_add p 1) vs (store_run p [v] t) = store_run p (v # vs) t"
  by (cases p) simp_all

lemma store_run_fs [simp]: "bm_fs (store_run p vs t) = bm_fs t"
  by (cases p) simp_all

text \<open>The contents of a new indirect block.\<close>

definition new_block :: "nat \<Rightarrow> nat list \<Rightarrow> nat list" where
  "new_block c dm = write_run ((replicate 1024 0)[0 := c]) 1 dm"

lemma nth_new_block:
  assumes "length dm < 1024" "j < 1024"
  shows "new_block c dm ! j = (if j = 0 then c else if j \<le> length dm then dm ! (j - 1) else 0)"
  using assms by (auto simp: new_block_def nth_write_run)

lemma length_new_block [simp]: "length (new_block c dm) = 1024"
  by (simp add: new_block_def)

lemma link_blocks_spec:
  assumes "length offs + 1 = length bs" "\<forall>x\<in>set offs. x = 0" "distinct bs"
  shows "\<exists>t'. link_blocks bs offs dm t = Some t' \<and> bm_fs t' = bm_fs t \<and> bm_ib t' = bm_ib t
    \<and> (\<forall>i < length offs. bm_mb t' (bs ! i) = new_block (bs ! (i + 1)) (if i + 1 = length offs then dm else []))
    \<and> (\<forall>b. b \<notin> set (butlast bs) \<longrightarrow> bm_mb t' b = bm_mb t b)"
  using assms
proof (induction bs offs dm t rule: link_blocks.induct)
  case (1 b c bs off offs dm t)
  define blk where "blk = (if bs = [] then write_run ((replicate PTRS_PER_BLOCK 0)[off := c]) (off + 1) dm
      else (replicate PTRS_PER_BLOCK 0)[off := c])"
  have blk: "blk = new_block c (if offs = [] then dm else [])"
    using "1.prems" by (auto simp: blk_def new_block_def PTRS_PER_BLOCK_def)
  define t1 where "t1 = t\<lparr>bm_mb := (bm_mb t)(b := blk)\<rparr>"
  have run: "link_blocks (b # c # bs) (off # offs) dm t = link_blocks (c # bs) offs dm t1"
    using "1.prems"(2) by (simp add: t1_def blk_def Let_def)
  have "\<exists>t'. link_blocks (c # bs) offs dm t1 = Some t' \<and> bm_fs t' = bm_fs t1 \<and> bm_ib t' = bm_ib t1
    \<and> (\<forall>i < length offs. bm_mb t' ((c # bs) ! i) = new_block ((c # bs) ! (i + 1)) (if i + 1 = length offs then dm else []))
    \<and> (\<forall>b'. b' \<notin> set (butlast (c # bs)) \<longrightarrow> bm_mb t' b' = bm_mb t1 b')"
    using "1.IH" [of "()" "(replicate PTRS_PER_BLOCK 0)[off := c]" blk] "1.prems" by (simp add: blk_def t1_def)
  then obtain t' where t': "link_blocks (c # bs) offs dm t1 = Some t'" "bm_fs t' = bm_fs t1" "bm_ib t' = bm_ib t1"
    "\<forall>i < length offs. bm_mb t' ((c # bs) ! i) = new_block ((c # bs) ! (i + 1)) (if i + 1 = length offs then dm else [])"
    "\<forall>b'. b' \<notin> set (butlast (c # bs)) \<longrightarrow> bm_mb t' b' = bm_mb t1 b'" by blast
  have "b \<notin> set (butlast (c # bs))" using "1.prems"(3) by (metis distinct.simps(2) in_set_butlastD)
  then have "bm_mb t' b = blk" using t'(5) by (simp add: t1_def)
  then have "\<forall>i < length (off # offs). bm_mb t' ((b # c # bs) ! i) =
      new_block ((b # c # bs) ! (i + 1)) (if i + 1 = length (off # offs) then dm else [])"
    using t'(4) blk by (auto simp: less_Suc_eq_0_disj)
  with run t' show ?case by (intro exI [of _ t']) (auto simp: t1_def)
qed auto

text \<open>The new nodes: the missing pointer at path \<open>r\<close>, the chain of first pointers below
  it down to the leaf, and the right neighbours of the leaf.\<close>

definition leaf_of :: "nat list \<Rightarrow> nat list \<Rightarrow> nat list" where
  "leaf_of r bs = replicate (length bs - 1) 0 @ r"

definition new_at :: "nat list \<Rightarrow> nat list \<Rightarrow> nat list \<Rightarrow> nat list \<Rightarrow> nat \<Rightarrow> bool" where
  "new_at r bs dm q v \<longleftrightarrow> (\<exists>i<length bs. q = replicate i 0 @ r \<and> v = bs ! i)
     \<or> (\<exists>j<length dm. q = (hd (leaf_of r bs) + Suc j) # tl (leaf_of r bs) \<and> v = dm ! j)"

lemma new_at_Cons_iff:
  assumes r: "r \<noteq> []" and n: "length bs = Suc n"
  shows "new_at r bs dm (i # p) v \<longleftrightarrow>
    (p = tl r \<and> (i = hd r \<and> v = bs ! 0 \<or> n = 0 \<and> hd r < i \<and> i \<le> hd r + length dm \<and> v = dm ! (i - hd r - 1)))
    \<or> (\<exists>k<n. p = replicate k 0 @ r \<and> (i = 0 \<and> v = bs ! (k + 1)
          \<or> k + 1 = n \<and> 0 < i \<and> i \<le> length dm \<and> v = dm ! (i - 1)))"
proof -
  have L: "leaf_of r bs = replicate n 0 @ r" by (simp add: leaf_of_def n)
  have chain: "(\<exists>k<length bs. i # p = replicate k 0 @ r \<and> v = bs ! k) \<longleftrightarrow>
      (p = tl r \<and> i = hd r \<and> v = bs ! 0) \<or> (\<exists>k<n. p = replicate k 0 @ r \<and> i = 0 \<and> v = bs ! (k + 1))"
    using r n by (cases r) (auto simp: less_Suc_eq_0_disj)
  have sib: "(\<exists>j<length dm. i # p = (hd (leaf_of r bs) + Suc j) # tl (leaf_of r bs) \<and> v = dm ! j) \<longleftrightarrow>
      p = tl (leaf_of r bs) \<and> hd (leaf_of r bs) < i \<and> i \<le> hd (leaf_of r bs) + length dm
      \<and> v = dm ! (i - hd (leaf_of r bs) - 1)"
    by (auto simp: less_eq_Suc_le intro!: exI [of _ "i - hd (leaf_of r bs) - 1"])
  show ?thesis unfolding new_at_def chain sib unfolding L
    by (cases n) (auto simp: less_Suc_eq)
qed

lemma node_extend:
  assumes r: "rpath r" "node t r = 0" "tl r = [] \<or> node t (tl r) \<noteq> 0"
    and n: "length bs = Suc n"
    and L: "length (leaf_of r bs) = depth_of (last (leaf_of r bs))"
    and fresh: "\<And>q. rpath q \<Longrightarrow> node t q \<noteq> 0 \<Longrightarrow> node t q \<notin> set bs"
    and inj: "\<And>p q. rpath p \<Longrightarrow> rpath q \<Longrightarrow> node t p = node t q \<Longrightarrow> node t p \<noteq> 0 \<Longrightarrow> p = q"
    and zero: "0 \<notin> set bs"
    and room: "hd (leaf_of r bs) + length dm < (if tl (leaf_of r bs) = [] then 11 else 1024)"
    and len: "length (bm_ib t) = 14" "\<And>b. length (bm_mb t b) = 1024"
    and t1: "bm_ib t1 = bm_ib t" "\<And>b. b \<notin> set (butlast bs) \<Longrightarrow> bm_mb t1 b = bm_mb t b"
      "\<And>i. i < n \<Longrightarrow> bm_mb t1 (bs ! i) = new_block (bs ! (i + 1)) (if i + 1 = n then dm else [])"
    and t3: "t3 = store_run (slot t r) (hd bs # (if n = 0 then dm else [])) t1"
    and q: "rpath q"
  shows "(\<forall>v. new_at r bs dm q v \<longrightarrow> node t3 q = v) \<and> ((\<nexists>v. new_at r bs dm q v) \<longrightarrow> node t3 q = node t q)"
  using q
proof (induction q)
  case Nil
  then show ?case by (simp add: rpath_def)
next
  case (Cons i p)
  define vs where "vs = hd bs # (if n = 0 then dm else [])"
  have rne: "r \<noteq> []" using r(1) by (auto simp: rpath_def)
  have LL: "leaf_of r bs = replicate n 0 @ r" by (simp add: leaf_of_def n)
  have hb: "hd bs = bs ! 0" using n by (cases bs) auto
  have vs_nth: "hd r \<le> i \<Longrightarrow> i < hd r + length vs \<Longrightarrow> vs ! (i - hd r) =
      (if i = hd r then bs ! 0 else dm ! (i - hd r - 1))"
    by (auto simp: vs_def hb nth_Cons')
  have in_run: "hd r \<le> i \<and> i < hd r + length vs \<longleftrightarrow> i = hd r \<or> n = 0 \<and> hd r < i \<and> i \<le> hd r + length dm"
    by (auto simp: vs_def)
  note new_iff = new_at_Cons_iff [OF rne n]
  show ?case
  proof (cases "p = []")
    case True
    have ib: "bm_ib t3 = (if tl r = [] then write_run (bm_ib t) (hd r) vs else bm_ib t)"
      using rne t1(1) by (cases r; cases "tl r") (auto simp: t3 vs_def slot_Cons)
    have i: "i < 14" using Cons.prems True by simp
    show ?thesis
    proof (cases "tl r = []")
      case tr: True
      have rm: "hd r + length vs \<le> 14" using room tr rne n LL r(1)
        by (cases r; cases n) (auto simp: vs_def)
      have "node t3 [i] = (if i = hd r then bs ! 0 else if n = 0 \<and> hd r < i \<and> i \<le> hd r + length dm
          then dm ! (i - hd r - 1) else bm_ib t ! i)"
        using nth_write_run [of "hd r" vs "bm_ib t" i] rm len(1) i ib tr in_run vs_nth by auto
      then show ?thesis using tr True rne new_iff [of dm i p] by auto
    next
      case False
      then show ?thesis using ib True rne new_iff [of dm i p] by auto
    qed
  next
    case False
    have p: "rpath p" "i < 1024" "length p < depth_of (last p)" using Cons.prems rpath_Cons [OF False] by auto
    note IH = Cons.IH [OF p(1)]
    have trn: "node t (tl r) \<notin> set bs" if "tl r \<noteq> []"
      using fresh [of "tl r"] r(1,3) rpath_append [of "[hd r]" "tl r"] that rne by (cases r) auto
    have mbn: "bm_mb t3 x = (if tl r \<noteq> [] \<and> x = node t (tl r) then write_run (bm_mb t1 x) (hd r) vs else bm_mb t1 x)" for x
      using rne by (cases r; cases "tl r") (auto simp: t3 vs_def slot_Cons)
    show ?thesis
    proof (cases "\<exists>v. new_at r bs dm p v")
      case new: True
      have sib: "p \<noteq> (hd (leaf_of r bs) + Suc j) # tl (leaf_of r bs)" if "j < length dm" for j
      proof
        assume p_eq: "p = (hd (leaf_of r bs) + Suc j) # tl (leaf_of r bs)"
        show False
        proof (cases "tl (leaf_of r bs) = []")
          case True
          with p_eq room that p(3) show False by (simp add: depth_of_def)
        next
          case tl: False
          then have "last p = last (leaf_of r bs)" "length p = length (leaf_of r bs)"
            using p_eq by (cases "leaf_of r bs"; simp)+
          with p(3) L show False by simp
        qed
      qed
      have "p \<noteq> leaf_of r bs" using p(3) L by auto
      with sib obtain k where k: "k < n" "p = replicate k 0 @ r"
        using new n unfolding new_at_def LL by (auto simp: less_Suc_eq)
      then have np: "node t3 p = bs ! k" using IH n by (auto simp: new_at_def)
      have kb: "bs ! k \<in> set bs" using k(1) n by simp
      then have "bm_mb t3 (bs ! k) = new_block (bs ! (k + 1)) (if k + 1 = n then dm else [])"
        using mbn [of "bs ! k"] trn t1(3) [OF k(1)] by auto
      moreover have "length dm < 1024" using room by (auto split: if_splits)
      moreover have "bs ! k \<noteq> 0" using kb zero by metis
      ultimately have nq: "node t3 (i # p) = (if i = 0 then bs ! (k + 1)
          else if k + 1 = n \<and> i \<le> length dm then dm ! (i - 1) else 0)"
        using np p(2) nth_new_block [of "if k + 1 = n then dm else []" i "bs ! (k + 1)"]
        by (simp add: node_Cons [OF False])
      have "node t p = 0" using k(2) r(2) rne by (simp add: node_zero_append)
      then have "node t (i # p) = 0" by (simp add: node_Cons [OF False])
      moreover have "p \<noteq> tl r" using k(2) rne by (cases r) (auto dest: arg_cong [of _ _ length])
      moreover have "p = replicate k' 0 @ r \<longleftrightarrow> k' = k" for k' using k(2) by (auto dest: arg_cong [of _ _ length])
      ultimately show ?thesis using nq k(1) new_iff [of dm i p] by auto
    next
      case old: False
      then have np: "node t3 p = node t p" using IH by blast
      have nk: "p \<noteq> replicate k 0 @ r" if "k < n" for k using old that n by (auto simp: new_at_def)
      have nw: "new_at r bs dm (i # p) v \<longleftrightarrow> p = tl r \<and> (i = hd r \<and> v = bs ! 0
          \<or> n = 0 \<and> hd r < i \<and> i \<le> hd r + length dm \<and> v = dm ! (i - hd r - 1))" for v
        using new_iff [of dm i p v] nk by auto
      show ?thesis
      proof (cases "node t p = 0")
        case True
        then have "p \<noteq> tl r" using r(3) False by auto
        then show ?thesis using nw np True by (simp add: node_Cons [OF False])
      next
        case nz: False
        have x: "node t p \<notin> set bs" by (rule fresh [OF p(1) nz])
        then have x1: "bm_mb t1 (node t p) = bm_mb t (node t p)" using t1(2) in_set_butlastD by metis
        show ?thesis
        proof (cases "p = tl r")
          case True
          have rm: "hd r + length vs \<le> 1024"
            using room True False rne n LL r(1) by (cases r; cases n) (auto simp: vs_def rpath_Cons)
          have "node t3 (i # p) = (if i = hd r then bs ! 0 else if n = 0 \<and> hd r < i \<and> i \<le> hd r + length dm
              then dm ! (i - hd r - 1) else bm_mb t (node t p) ! i)"
            using nth_write_run [of "hd r" vs "bm_mb t (node t p)" i] rm len(2) p(2) mbn [of "node t p"] x1 np nz
              True False in_run vs_nth by (auto simp: node_Cons)
          moreover have "node t (i # p) = bm_mb t (node t p) ! i" using nz by (simp add: node_Cons [OF False])
          ultimately show ?thesis using nw True by auto
        next
          case other: False
          have "tl r = [] \<or> node t p \<noteq> node t (tl r)"
            using inj [OF p(1), of "tl r"] nz other r(1) rpath_append [of "[hd r]" "tl r"] rne by (cases r) auto
          then have "bm_mb t3 (node t p) = bm_mb t (node t p)" using mbn [of "node t p"] x1 by auto
          then show ?thesis using nw other np by (auto simp: node_Cons [OF False])
        qed
      qed
    qed
  qed
qed

lemma new_at_mem: "new_at r bs dm q v \<Longrightarrow> v \<in> set (bs @ dm)"
  by (auto simp: new_at_def)

lemma new_at_inj:
  assumes "distinct (bs @ dm)" "new_at r bs dm q v" "new_at r bs dm q' v"
  shows "q = q'"
  using assms unfolding new_at_def
  by (auto simp: nth_eq_iff_index_eq) (metis disjoint_iff nth_mem)+

section \<open>The invariant of a file\<close>

definition data_block :: "fs \<Rightarrow> nat \<Rightarrow> bool" where
  "data_block s x \<longleftrightarrow> x < bgn s * 32768 \<and> 4100 \<le> x mod 32768 \<and> block_used s x"

text \<open>Every pointer of the tree is a used data block, and no block is reached by two
  paths.\<close>

definition tree_inv :: "blkmap \<Rightarrow> bool" where
  "tree_inv t \<longleftrightarrow> alloc_inv (bm_fs t) \<and> fs_primary (bm_fs t) \<and> fs_last_bgid (bm_fs t) < bgn (bm_fs t)
     \<and> length (bm_ib t) = 14 \<and> (\<forall>b. length (bm_mb t b) = 1024)
     \<and> (\<forall>q. rpath q \<longrightarrow> node t q \<noteq> 0 \<longrightarrow> data_block (bm_fs t) (node t q))
     \<and> (\<forall>p q. rpath p \<longrightarrow> rpath q \<longrightarrow> node t p = node t q \<longrightarrow> node t p \<noteq> 0 \<longrightarrow> p = q)"

text \<open>The block map as a function of logical block numbers.\<close>

definition bmap :: "blkmap \<Rightarrow> int \<Rightarrow> nat" where
  "bmap t l = node t (rev (fst (block_to_path l)))"

lemma zeroes_spec:
  "c \<le> zeroes t p k c \<and> zeroes t p k c \<le> c + k \<and> (\<forall>j. c \<le> j \<longrightarrow> j < zeroes t p k c \<longrightarrow> load t (ploc_add p j) = 0)"
proof (induction k arbitrary: c)
  case (Suc k)
  show ?case using Suc.IH [of "c + 1"] by (auto simp: Suc_le_eq) (metis Suc_leI le_neq_implies_less)
qed simp

lemma contiguous_spec:
  "c \<le> contiguous t p f k c \<and> contiguous t p f k c \<le> c + k
   \<and> (\<forall>j. c \<le> j \<longrightarrow> j < contiguous t p f k c \<longrightarrow> load t (ploc_add p j) = f + j)"
proof (induction k arbitrary: c)
  case (Suc k)
  show ?case using Suc.IH [of "c + 1"] by (auto simp: Suc_le_eq) (metis Suc_leI le_neq_implies_less)
qed simp

lemma alloc_free_blocks_spec:
  assumes s: "alloc_inv s" "fs_primary s" "ino < bgn s * 4096" "fs_last_bgid s < bgn s"
    and c: "0 < cnt" "n + 1 < 2 ^ 32" "cnt < 2 ^ 32" "int (n + cnt) \<le> sb_free_blocks (fs_sb s)"
  shows "\<exists>bs dm s'. alloc_free_blocks ino n cnt s = Some (bs, dm, s') \<and> length bs = n + 1
    \<and> length dm = cnt - 1 \<and> alloc_post s (bs @ dm) s'"
proof -
  have "sb_free_blocks (fs_sb s) \<noteq> 0" using c(1,4) by auto
  then obtain bs s1 where b: "alloc_free_block ino (n + 1) s = Some (bs, s1)" "alloc_post s bs s1"
    "length bs = min (n + 1) (nat (sb_free_blocks (fs_sb s)))"
    using alloc_free_block_spec [OF s, of "n + 1"] c(2) by auto
  have len: "length bs = n + 1" using b(3) c(1,4) by linarith
  have sub: "u32_sub cnt 1 = cnt - 1" using c(1,3) by (simp add: u32_sub_small)
  show ?thesis
  proof (cases "cnt = 1")
    case True
    with b len sub show ?thesis by (simp add: alloc_free_blocks_def Let_def)
  next
    case False
    have s1: "alloc_inv s1" "fs_primary s1" "ino < bgn s1 * 4096" "fs_last_bgid s1 < bgn s1"
      "int (cnt - 1) \<le> sb_free_blocks (fs_sb s1)"
      using b(2) s c len by (auto simp: alloc_post_def of_nat_diff)
    have "0 < cnt - 1" "cnt - 1 < 2 ^ 32" using c(1,3) False by linarith+
    moreover from this s1(5) have "sb_free_blocks (fs_sb s1) \<noteq> 0" by auto
    ultimately obtain dm s2 where d: "alloc_free_block ino (cnt - 1) s1 = Some (dm, s2)" "alloc_post s1 dm s2"
      "length dm = min (cnt - 1) (nat (sb_free_blocks (fs_sb s1)))"
      using alloc_free_block_spec [OF s1(1-4)] by blast
    have "length dm = cnt - 1" using d(3) s1(5) by linarith
    with b d len sub False c(1) alloc_post_trans [OF b(2) d(2)] show ?thesis
      by (simp add: alloc_free_blocks_def Let_def)
  qed
qed

lemma alloc_free_blocks_fresh:
  assumes "tree_inv t" "alloc_post (bm_fs t) xs s'" "rpath q" "node t q \<noteq> 0"
  shows "node t q \<notin> set xs"
  using assms by (auto simp: tree_inv_def alloc_post_def data_block_def)

lemma alloc_post_nonzero:
  assumes "alloc_post s xs s'" "x \<in> set xs"
  shows "x \<noteq> 0 \<and> \<not> block_used s x"
proof -
  have "4100 \<le> x mod 32768" "\<not> block_used s x" using assms unfolding alloc_post_def by blast+
  then show ?thesis by (cases "x = 0") simp_all
qed

text \<open>A freshly allocated branch keeps the invariant.\<close>

lemma tree_inv_extend:
  assumes inv: "tree_inv t" and post: "alloc_post (bm_fs t) (bs @ dm) (bm_fs t3)"
    and nodes: "\<And>q. rpath q \<Longrightarrow> (\<forall>v. new_at r bs dm q v \<longrightarrow> node t3 q = v)
        \<and> ((\<nexists>v. new_at r bs dm q v) \<longrightarrow> node t3 q = node t q)"
    and len: "length (bm_ib t3) = 14" "\<And>b. length (bm_mb t3 b) = 1024"
  shows "tree_inv t3"
proof -
  have d: "distinct (bs @ dm)" using post by (simp add: alloc_post_def)
  have old: "data_block (bm_fs t3) x" if "data_block (bm_fs t) x" for x
    using that post by (auto simp: data_block_def alloc_post_def)
  have new: "data_block (bm_fs t3) x" if "x \<in> set (bs @ dm)" for x
    using that post by (auto simp: data_block_def alloc_post_def)
  have cases: "new_at r bs dm q (node t3 q) \<or> node t3 q = node t q" if "rpath q" for q
    using nodes [OF that] by blast
  have data: "data_block (bm_fs t3) (node t3 q)" if q: "rpath q" "node t3 q \<noteq> 0" for q
    using cases [OF q(1)] q inv new new_at_mem old unfolding tree_inv_def by metis
  have excl: False if "rpath p" "rpath q" "new_at r bs dm p (node t3 p)" "node t3 q = node t q"
    "node t3 p = node t3 q" "node t3 p \<noteq> 0" for p q
    using alloc_free_blocks_fresh [OF inv post that(2)] new_at_mem [OF that(3)] that by metis
  have "p = q" if pq: "rpath p" "rpath q" "node t3 p = node t3 q" "node t3 p \<noteq> 0" for p q
    using cases [OF pq(1)] cases [OF pq(2)] excl [OF pq(1,2)] excl [OF pq(2,1)] new_at_inj [OF d, of r p _ q] pq inv
    unfolding tree_inv_def by metis
  moreover have "alloc_inv (bm_fs t3)" "fs_primary (bm_fs t3)" "fs_last_bgid (bm_fs t3) < bgn (bm_fs t3)"
    using post inv by (auto simp: alloc_post_def tree_inv_def)
  ultimately show ?thesis using data len unfolding tree_inv_def by blast
qed

section \<open>\<open>nvfuse_get_block\<close>\<close>

lemma path_next:
  assumes "0 \<le> l" "l < max_lblock" "int j \<le> snd (block_to_path l)"
  defines "offs \<equiv> fst (block_to_path l)"
  shows "fst (block_to_path (l + int j)) = butlast offs @ [last offs + j]"
proof -
  note ok = block_to_path_ok [OF assms(1,2), folded offs_def]
  have "path_ok (butlast offs @ [last offs + j]) \<and> path_block (butlast offs @ [last offs + j]) = l + int j"
    using ok assms(3) by (cases offs rule: path_ok.cases) auto
  with block_to_path_inverse show ?thesis by metis
qed

lemma tl_rev_butlast: "tl (rev xs) = rev (butlast xs)"
  by (metis butlast_rev rev_rev_ident)

lemma bmap_next:
  assumes "0 \<le> l" "l < max_lblock" "int j \<le> snd (block_to_path l)"
  shows "bmap t (l + int j) = node t ((hd (rev (fst (block_to_path l))) + j) # tl (rev (fst (block_to_path l))))"
proof -
  have "fst (block_to_path l) \<noteq> []" using assms(1,2) block_to_path_range by blast
  then show ?thesis using path_next [OF assms] by (simp add: bmap_def hd_rev tl_rev_butlast)
qed

lemma load_slot_add:
  assumes "p \<noteq> []" "tl p = [] \<or> node t (tl p) \<noteq> 0"
  shows "load t (ploc_add (slot t p) j) = node t ((hd p + j) # tl p)"
  using assms by (cases p; cases "tl p") auto

lemma branch_parent:
  assumes "branch_ok t offs c"
  defines "r \<equiv> rev (take (length c) offs)"
  shows "r \<noteq> []" "tl r = [] \<or> node t (tl r) \<noteq> 0"
proof -
  have c: "c \<noteq> []" "length c \<le> length offs" "\<forall>m<length c. 0 < m \<longrightarrow> node t (rev (take m offs)) \<noteq> 0"
    using assms(1) by (auto simp: branch_ok_def)
  then show "r \<noteq> []" by (auto simp: r_def)
  have "tl r = rev (take (length c - 1) offs)"
    using c(1,2) by (simp add: r_def butlast_take tl_rev_butlast)
  then show "tl r = [] \<or> node t (tl r) \<noteq> 0" using c by (cases "length c - 1") (auto simp: nat_diff_split)
qed

lemma get_block_lookup:
  assumes l: "0 \<le> l" "l < max_lblock" and m: "bmap t l \<noteq> 0" "0 < maxb"
  shows "\<exists>n. get_block ino l maxb create t = Some (0, n, bmap t l, t) \<and> 1 \<le> n \<and> n \<le> maxb
    \<and> (\<forall>j<n. bmap t (l + int j) = bmap t l + j)"
proof -
  obtain offs bd where ob: "block_to_path l = (offs, bd)" by fastforce
  obtain c full err where g: "get_branch t offs = (c, full, err)" by (metis prod_cases3)
  have ne: "offs \<noteq> []" using block_to_path_range [of l] l ob by simp
  have bd: "0 \<le> bd" using block_to_path_ok [OF l] ob by (cases offs rule: path_ok.cases) auto
  note gs = get_branch_spec [OF g ne]
  have full: full "length c = length offs" using gs m(1) ob by (auto simp: bmap_def)
  then have p: "ind_p (last c) = slot t (rev offs)" "ind_key (last c) = bmap t l"
    using gs ob by (auto simp: branch_ok_def bmap_def)
  have par: "tl (rev offs) = [] \<or> node t (tl (rev offs)) \<noteq> 0" using branch_parent [of t offs c] gs full(2) by simp
  let ?n = "contiguous t (slot t (rev offs)) (bmap t l) (min (maxb - 1) (nat bd)) 1"
  note cs = contiguous_spec [of 1 t "slot t (rev offs)" "bmap t l" "min (maxb - 1) (nat bd)"]
  have run: "get_block ino l maxb create t = Some (0, ?n, bmap t l, t)"
    using ne full(1) p by (simp add: get_block_def ob g)
  have "bmap t (l + int j) = bmap t l + j" if "j < ?n" for j
  proof (cases "j = 0")
    case False
    then have "load t (ploc_add (slot t (rev offs)) j) = bmap t l + j" using cs that by auto
    moreover have "int j \<le> bd" using cs that bd by linarith
    ultimately show ?thesis using bmap_next [OF l, of j t] load_slot_add [OF _ par, of j] ne ob by simp
  qed simp
  moreover have "1 \<le> ?n" "?n \<le> maxb" using cs m(2) by linarith+
  ultimately show ?thesis using run by blast
qed

text \<open>The paths of an extension as logical blocks.\<close>

lemma new_at_bmap:
  assumes l: "0 \<le> l" "l < max_lblock" and leaf: "leaf_of r bs = rev (fst (block_to_path l))"
    and bd: "int (length dm) \<le> snd (block_to_path l)" and bs: "bs \<noteq> []" and r: "r \<noteq> []"
  shows "j \<le> length dm \<Longrightarrow> new_at r bs dm (rev (fst (block_to_path (l + int j)))) (if j = 0 then last bs else dm ! (j - 1))"
    and "0 \<le> l' \<Longrightarrow> l' < max_lblock \<Longrightarrow> new_at r bs dm (rev (fst (block_to_path l'))) v \<Longrightarrow> \<exists>j\<le>length dm. l' = l + int j"
proof -
  have ne: "fst (block_to_path l) \<noteq> []" using block_to_path_range [of l] l by blast
  have nx: "rev (fst (block_to_path (l + int j))) = (hd (leaf_of r bs) + j) # tl (leaf_of r bs)" if "j \<le> length dm" for j
    using path_next [OF l, of j] that bd ne unfolding leaf by (simp add: hd_rev tl_rev_butlast)
  show "new_at r bs dm (rev (fst (block_to_path (l + int j)))) (if j = 0 then last bs else dm ! (j - 1))"
    if j: "j \<le> length dm" for j
  proof (cases j)
    case 0
    have "new_at r bs dm (leaf_of r bs) (last bs)"
      unfolding new_at_def using bs by (intro disjI1 exI [of _ "length bs - 1"]) (simp add: leaf_of_def last_conv_nth)
    with 0 leaf show ?thesis by simp
  next
    case (Suc i)
    with j nx [OF j] show ?thesis by (auto simp: new_at_def)
  qed
  show "\<exists>j\<le>length dm. l' = l + int j"
    if l': "0 \<le> l'" "l' < max_lblock" "new_at r bs dm (rev (fst (block_to_path l'))) v"
  proof -
    note ok = block_to_path_ok [OF l] and ok' = block_to_path_ok [OF l'(1,2)]
    consider i where "i < length bs" "rev (fst (block_to_path l')) = replicate i 0 @ r"
      | j where "j < length dm" "rev (fst (block_to_path l')) = (hd (leaf_of r bs) + Suc j) # tl (leaf_of r bs)"
      using l'(3) unfolding new_at_def by blast
    then show ?thesis
    proof cases
      case 1
      then have "last (rev (fst (block_to_path l'))) = last (leaf_of r bs)" using r by (simp add: leaf_of_def)
      then have "length (fst (block_to_path l')) = length (leaf_of r bs)"
        using path_ok_rpath [OF ok(1)] path_ok_rpath [OF ok'(1)] unfolding leaf by (simp add: last_rev)
      moreover have "length (fst (block_to_path l')) = i + length r" using arg_cong [OF 1(2), of length] by simp
      ultimately have "i = length bs - 1" by (simp add: leaf_of_def)
      with 1(2) have "rev (fst (block_to_path l')) = rev (fst (block_to_path l))" using leaf by (simp add: leaf_of_def)
      then have "l' = l" using ok(2) ok'(2) by simp
      then show ?thesis by (intro exI [of _ 0]) simp
    next
      case 2
      then have "rev (fst (block_to_path l')) = rev (fst (block_to_path (l + int (Suc j))))" using nx [of "Suc j"] by simp
      moreover have "path_block (fst (block_to_path (l + int (Suc j)))) = l + int (Suc j)"
      proof (rule block_to_path_ok(2))
        have "fst (block_to_path (l + int (Suc j))) \<noteq> []" using nx [of "Suc j"] 2(1) by auto
        then show "0 \<le> l + int (Suc j)" "l + int (Suc j) < max_lblock" using block_to_path_range by blast+
      qed
      ultimately have "l' = l + int (Suc j)" using ok'(2) by simp
      with 2(1) show ?thesis by (intro exI [of _ "Suc j"]) simp
    qed
  qed
qed

text \<open>A request has a hole in the middle of a missing indirect block when some offset
  below the first missing pointer is not 0.\<close>

definition dense_at :: "blkmap \<Rightarrow> int \<Rightarrow> bool" where
  "dense_at t l \<longleftrightarrow> (\<forall>k. 0 < k \<longrightarrow> node t (rev (take k (fst (block_to_path l)))) = 0
      \<longrightarrow> (\<forall>x\<in>set (drop k (fst (block_to_path l))). x = 0))"

lemma count_bounds:
  assumes l: "0 \<le> l" "l < max_lblock" and c: "branch_ok t (fst (block_to_path l)) c" "0 < maxb"
    "ind_key (last c) = 0"
  defines "offs \<equiv> fst (block_to_path l)"
  defines "k \<equiv> blks_to_allocate t (ind_p (last c)) (length offs - length c) maxb (nat (snd (block_to_path l)))"
  shows "1 \<le> k" "k \<le> maxb" "int k \<le> snd (block_to_path l) + 1"
    "\<And>j. j < k \<Longrightarrow> bmap t (l + int j) = 0"
proof -
  note ok = block_to_path_ok [OF l, folded offs_def]
  have bd: "0 \<le> snd (block_to_path l)" using ok by (cases offs rule: path_ok.cases) auto
  let ?b = "nat (snd (block_to_path l))"
  note zs = zeroes_spec [of 1 t "ind_p (last c)" "min (maxb - 1) ?b"]
  show kb: "1 \<le> k" "k \<le> maxb" "int k \<le> snd (block_to_path l) + 1"
    using zs assms(4) bd by (auto simp: k_def blks_to_allocate_def)
  define r where "r = rev (take (length c) offs)"
  note par = branch_parent [OF c(1), folded offs_def, folded r_def]
  have r0: "node t r = 0" using c(1,3) by (simp add: branch_ok_def r_def offs_def)
  have le: "length c \<le> length offs" using c(1) by (simp add: branch_ok_def offs_def)
  have rv: "rev offs = rev (drop (length c) offs) @ r" unfolding r_def by (metis append_take_drop_id rev_append)
  fix j assume j: "j < k"
  show "bmap t (l + int j) = 0"
  proof (cases "length c = length offs")
    case True
    then have ro: "rev offs = r" "ind_p (last c) = slot t r" using c(1) by (simp_all add: r_def branch_ok_def offs_def)
    show ?thesis
    proof (cases "j = 0")
      case j0: True
      with r0 ro show ?thesis by (simp add: bmap_def offs_def)
    next
      case False
      then have "load t (ploc_add (slot t r) j) = 0"
        using zs j True ro(2) by (auto simp: k_def blks_to_allocate_def)
      then have "node t ((hd r + j) # tl r) = 0" using load_slot_add [OF par] by simp
      then show ?thesis using bmap_next [OF l, of j t] kb(3) j ro(1) by (simp add: offs_def)
    qed
  next
    case False
    then have "tl (rev offs) = tl (rev (drop (length c) offs)) @ r" using le rv by (cases "rev (drop (length c) offs)") auto
    then have "node t (x # tl (rev offs)) = 0" for x
      using node_zero_append [OF r0 par(1), of "x # tl (rev (drop (length c) offs))"] by simp
    then show ?thesis using bmap_next [OF l, of j t] kb(3) j by (simp add: offs_def)
  qed
qed

text \<open>One allocation, seen from the tree: the nodes of the result.\<close>

lemma get_block_alloc_run:
  assumes l: "0 \<le> l" "l < max_lblock" and inv: "tree_inv t" and ino: "ino < bgn (bm_fs t) * 4096"
    and m: "bmap t l = 0" "0 < maxb" "maxb < 2 ^ 31" and free: "int maxb + 3 \<le> sb_free_blocks (fs_sb (bm_fs t))"
    and dense: "dense_at t l"
  shows "\<exists>k r bs dm t3. get_block ino l maxb True t = Some (0, k, last bs, t3) \<and> k \<le> maxb \<and> k = length dm + 1
    \<and> bs \<noteq> [] \<and> r \<noteq> [] \<and> leaf_of r bs = rev (fst (block_to_path l)) \<and> int (length dm) \<le> snd (block_to_path l)
    \<and> alloc_post (bm_fs t) (bs @ dm) (bm_fs t3) \<and> length (bm_ib t3) = 14 \<and> (\<forall>b. length (bm_mb t3 b) = 1024)
    \<and> (\<forall>q. rpath q \<longrightarrow> (\<forall>v. new_at r bs dm q v \<longrightarrow> node t3 q = v)
        \<and> ((\<nexists>v. new_at r bs dm q v) \<longrightarrow> node t3 q = node t q))
    \<and> (\<forall>j<k. bmap t (l + int j) = 0)"
proof -
  obtain offs bd where ob: "block_to_path l = (offs, bd)" by fastforce
  obtain c full err where g: "get_branch t offs = (c, full, err)" by (metis prod_cases3)
  have ok: "path_ok offs" "bd = (if length offs = 1 then 10 else 1023) - int (last offs)"
    using block_to_path_ok [OF l] ob by simp_all
  note rp = path_ok_rpath [OF ok(1)]
  have ne: "offs \<noteq> []" using rp by simp
  note gs = get_branch_spec [OF g ne]
  have nf: "\<not> full" "ind_key (last c) = 0" using gs m(1) ob by (auto simp: bmap_def)
  have bo: "branch_ok t offs c" using gs by simp
  define n where "n = length offs - length c"
  define k where "k = blks_to_allocate t (ind_p (last c)) n maxb (nat bd)"
  define r where "r = rev (take (length c) offs)"
  have c: "c \<noteq> []" "length c \<le> length offs" "ind_p (last c) = slot t r" using bo by (auto simp: branch_ok_def r_def)
  have r: "r \<noteq> []" "tl r = [] \<or> node t (tl r) \<noteq> 0" "node t r = 0"
    using branch_parent [OF bo, folded r_def] bo nf(2) by (simp_all add: branch_ok_def r_def)
  have k: "1 \<le> k" "k \<le> maxb" "int k \<le> bd + 1" "\<And>j. j < k \<Longrightarrow> bmap t (l + int j) = 0"
    using count_bounds [OF l, of t c maxb] bo nf(2) m(2) ob by (simp_all add: k_def n_def)
  have n3: "n \<le> 3" using rp c(1) by (cases c) (auto simp: n_def)
  obtain bs dm s' where a: "alloc_free_blocks ino n k (bm_fs t) = Some (bs, dm, s')" "length bs = n + 1"
    "length dm = k - 1" "alloc_post (bm_fs t) (bs @ dm) s'"
    using alloc_free_blocks_spec [of "bm_fs t" ino k n] inv ino k(1,2) m(3) n3 free by (auto simp: tree_inv_def)
  have "node t (rev (take (length c) offs)) = 0" "0 < length c" using r(3) c(1) by (simp_all add: r_def)
  then have z: "\<forall>x\<in>set (drop (length c) offs). x = 0" using dense ob unfolding dense_at_def by (metis fst_conv)
  have d: "distinct (bs @ dm)" using a(4) by (simp add: alloc_post_def)
  obtain t1 where t1: "link_blocks bs (drop (length c) offs) dm (t\<lparr>bm_fs := s'\<rparr>) = Some t1" "bm_fs t1 = s'"
    "bm_ib t1 = bm_ib t" "\<forall>i<n. bm_mb t1 (bs ! i) = new_block (bs ! (i + 1)) (if i + 1 = n then dm else [])"
    "\<forall>b. b \<notin> set (butlast bs) \<longrightarrow> bm_mb t1 b = bm_mb t b"
    using link_blocks_spec [of "drop (length c) offs" bs dm "t\<lparr>bm_fs := s'\<rparr>"] z d a(2) by (auto simp: n_def)
  define t3 where "t3 = store_run (slot t r) (hd bs # (if n = 0 then dm else [])) t1"
  have spl: "splice_branch (slot t r) (hd bs) dm n k t1 = t3"
    using store_run_join [of "slot t r" dm "hd bs" t1] a(3) k(1)
    by (cases dm) (auto simp: splice_branch_def t3_def Let_def)
  have kk: "blks_to_allocate t (slot t r) n maxb (nat bd) = k" using c(3) by (simp add: k_def)
  have run: "get_block ino l maxb True t = Some (0, k, last bs, t3)"
    using ne nf(1) a(1) t1(1) spl c(3) by (simp add: get_block_def ob g n_def [symmetric] kk Let_def)
  have leaf: "leaf_of r bs = rev offs"
  proof -
    have "rev (drop (length c) offs) = replicate n 0" using z by (intro replicate_eqI) (auto simp: n_def)
    then show ?thesis unfolding leaf_of_def r_def using a(2) by (metis append_take_drop_id rev_append add_diff_cancel_right')
  qed
  have len: "length (bm_ib t) = 14" "\<And>b. length (bm_mb t b) = 1024" using inv by (auto simp: tree_inv_def)
  have rr: "rpath r" using rpath_append [of "replicate n 0" r] leaf rp r(1) a(2) by (simp add: leaf_of_def)
  have room: "hd (rev offs) + length dm < (if tl (rev offs) = [] then 11 else 1024)"
    using k(1,3) a(3) ok ne by (cases offs rule: path_ok.cases) auto
  have full_leaf: "length (rev offs) = depth_of (last (rev offs))" using rp by (simp add: last_rev)
  have zero: "0 \<notin> set bs" using alloc_post_nonzero [OF a(4)] by auto
  have nodes: "(\<forall>v. new_at r bs dm q v \<longrightarrow> node t3 q = v) \<and> ((\<nexists>v. new_at r bs dm q v) \<longrightarrow> node t3 q = node t q)"
    if "rpath q" for q
  proof (rule node_extend [OF rr r(3,2) _ _ _ _ zero _ len t1(3) _ _ t3_def that])
    show "length bs = Suc n" using a(2) by simp
    show "length (leaf_of r bs) = depth_of (last (leaf_of r bs))" unfolding leaf by (rule full_leaf)
    show "node t p \<notin> set bs" if "rpath p" "node t p \<noteq> 0" for p
      using alloc_free_blocks_fresh [OF inv a(4) that] by simp
    show "p = q" if "rpath p" "rpath q" "node t p = node t q" "node t p \<noteq> 0" for p q
      using inv that unfolding tree_inv_def by blast
    show "hd (leaf_of r bs) + length dm < (if tl (leaf_of r bs) = [] then 11 else 1024)" unfolding leaf by (rule room)
  qed (use t1(4,5) in blast)+
  have mb1: "length (bm_mb t1 b) = 1024" for b
  proof (cases "b \<in> set (butlast bs)")
    case True
    then obtain i where i: "i < length (butlast bs)" "b = butlast bs ! i" by (metis in_set_conv_nth)
    then have "i < n" "b = bs ! i" using a(2) by (simp_all add: nth_butlast)
    then show ?thesis using t1(4) by simp
  qed (use t1(5) len(2) in simp)
  have "length (bm_ib t3) = 14" "length (bm_mb t3 b) = 1024" "bm_fs t3 = s'" for b
    using mb1 len(1) t1(2,3) by (cases "slot t r"; simp add: t3_def)+
  moreover have "k = length dm + 1" "bs \<noteq> []" "int (length dm) \<le> snd (block_to_path l)"
    using k(1,3) a(2,3) ob by auto
  moreover have "leaf_of r bs = rev (fst (block_to_path l))" using leaf ob by simp
  ultimately show ?thesis using run k(2,4) a(4) r(1) nodes by blast
qed

section \<open>Properties\<close>

text \<open>C26: translation of logical block numbers is a bijection.  Every number from 0 up
  to the maximal file size gets a path of one of the four shapes (direct,
  single, double, triple indirect) with offsets in range, distinct numbers
  get distinct paths and every such path is hit; numbers outside are refused;
  and \<open>boundary\<close> is the number of pointers that follow in the last block.\<close>

theorem block_to_path_bijective:
  "(0 \<le> l \<and> l < max_lblock \<longleftrightarrow> fst (block_to_path l) \<noteq> [])
    \<and> (0 \<le> l \<and> l < max_lblock \<longrightarrow> path_ok (fst (block_to_path l)) \<and> path_block (fst (block_to_path l)) = l
        \<and> snd (block_to_path l) =
            (if length (fst (block_to_path l)) = 1 then 10 else 1023) - int (last (fst (block_to_path l))))
    \<and> (path_ok p \<longrightarrow> fst (block_to_path (path_block p)) = p)"
  using block_to_path_range [of l] block_to_path_ok [of l] block_to_path_inverse [of p] by auto

theorem block_to_path_bijective_witness:
  "fst (block_to_path 1035) = [12, 0, 0] \<and> path_block [12, 0, 0] = 1035"
  using block_to_path_bijective [of 1035 "[12, 0, 0]"] by auto


definition sample_map :: blkmap where
  "sample_map = \<lparr>bm_fs = formatted_fs 0 2, bm_ib = replicate 14 0, bm_mb = \<lambda>_. replicate 1024 0\<rparr>"

lemma sample_map_node: "rpath q \<Longrightarrow> node sample_map q = 0"
proof (induction q)
  case (Cons i p)
  then show ?case by (cases "p = []") (auto simp: rpath_Cons node_Cons sample_map_def)
qed simp

lemma sample_map_inv: "tree_inv sample_map"
  using sample_map_node formatted_fs_inv [of 2 0]
  by (auto simp: tree_inv_def sample_map_def formatted_fs_def formatted_sb_def)


lemma get_block_create_run:
  assumes "0 \<le> l" "l < max_lblock" "tree_inv t" "ino < bgn (bm_fs t) * 4096" "bmap t l = 0"
    "0 < maxb" "maxb < 2 ^ 31" "int maxb + 3 \<le> sb_free_blocks (fs_sb (bm_fs t))" "dense_at t l"
  shows "\<exists>n t'. get_block ino l maxb True t = Some (0, n, bmap t' l, t') \<and> 1 \<le> n \<and> n \<le> maxb
    \<and> (\<forall>j<n. bmap t (l + int j) = 0 \<and> bmap t' (l + int j) \<noteq> 0 \<and> \<not> block_used (bm_fs t) (bmap t' (l + int j)))
    \<and> (\<forall>l'. 0 \<le> l' \<and> l' < max_lblock \<and> \<not> (l \<le> l' \<and> l' < l + int n) \<longrightarrow> bmap t' l' = bmap t l') \<and> tree_inv t'
    \<and> (\<exists>bl. alloc_post (bm_fs t) bl (bm_fs t') \<and> length bl \<le> n + 3)"
proof -
  obtain k r bs dm t3 where g: "get_block ino l maxb True t = Some (0, k, last bs, t3)" "k \<le> maxb" "k = length dm + 1"
    "bs \<noteq> []" "r \<noteq> []" "leaf_of r bs = rev (fst (block_to_path l))" "int (length dm) \<le> snd (block_to_path l)"
    "alloc_post (bm_fs t) (bs @ dm) (bm_fs t3)" "length (bm_ib t3) = 14" "\<forall>b. length (bm_mb t3 b) = 1024"
    "\<forall>q. rpath q \<longrightarrow> (\<forall>v. new_at r bs dm q v \<longrightarrow> node t3 q = v)
        \<and> ((\<nexists>v. new_at r bs dm q v) \<longrightarrow> node t3 q = node t q)"
    "\<forall>j<k. bmap t (l + int j) = 0"
    using get_block_alloc_run [OF assms] by metis
  have inv: "tree_inv t3" by (rule tree_inv_extend [OF assms(3) g(8)]) (use g(9-11) in blast)+
  have path: "rpath (rev (fst (block_to_path x)))" if "0 \<le> x" "x < max_lblock" for x
    using path_ok_rpath [OF block_to_path_ok(1) [OF that]] by blast
  have ne: "fst (block_to_path (l + int j)) \<noteq> []" if "j < k" for j
    using path_next [OF assms(1,2), of j] g(3,7) that by simp
  have new: "bmap t3 (l + int j) = (if j = 0 then last bs else dm ! (j - 1))" if "j < k" for j
    using new_at_bmap(1) [OF assms(1,2) g(6,7,4,5), of j] g(3,11) path [of "l + int j"] that ne [OF that]
      block_to_path_range [of "l + int j"] by (auto simp: bmap_def)
  have mem: "(if j = 0 then last bs else dm ! (j - 1)) \<in> set (bs @ dm)" if "j < k" for j
    using that g(3,4) by auto
  have fresh: "x \<noteq> 0 \<and> \<not> block_used (bm_fs t) x" if "x \<in> set (bs @ dm)" for x
    using alloc_post_nonzero [OF g(8) that] by blast
  have old: "bmap t3 l' = bmap t l'" if "0 \<le> l'" "l' < max_lblock" "\<not> (l \<le> l' \<and> l' < l + int k)" for l'
  proof -
    have "\<nexists>v. new_at r bs dm (rev (fst (block_to_path l'))) v"
      using new_at_bmap(2) [OF assms(1,2) g(6,7,4,5) that(1,2)] that(3) g(3) by fastforce
    then show ?thesis using g(11) path [OF that(1,2)] by (simp add: bmap_def)
  qed
  have "last bs = bmap t3 l" using new [of 0] g(3) by simp
  moreover have "\<forall>j<k. bmap t (l + int j) = 0 \<and> bmap t3 (l + int j) \<noteq> 0 \<and> \<not> block_used (bm_fs t) (bmap t3 (l + int j))"
    using new fresh [OF mem] g(12) by simp
  moreover have "length (bs @ dm) \<le> k + 3"
  proof -
    have "length (leaf_of r bs) \<le> 4" using path_ok_rpath [OF block_to_path_ok(1) [OF assms(1,2)]] g(6) by simp
    then have "length bs - 1 + length r \<le> 4" by (simp add: leaf_of_def)
    moreover have "0 < length r" using g(5) by simp
    ultimately have "length bs \<le> 4" by linarith
    then show ?thesis using g(3) by simp
  qed
  ultimately show ?thesis using g(1-3,8) old inv by (intro exI [of _ k] exI [of _ t3]) auto
qed

text \<open>C6: writing past the mapped part of a file.  When a logical block is not mapped,
  its missing indirect blocks would be entered at offset 0, and the device has
  room, \<open>nvfuse_get_block\<close> with \<open>create\<close> succeeds.  It maps between 1 and the
  requested number of consecutive logical blocks, all unmapped before, to
  blocks that were free; every other logical block keeps its physical block;
  and the file's invariant is kept: each pointer of the tree is a used data
  block and no block is reached twice.\<close>

theorem get_block_create_correct:
  assumes "0 \<le> l" "l < max_lblock" "tree_inv t" "ino < bgn (bm_fs t) * 4096" "bmap t l = 0"
    "0 < maxb" "maxb < 2 ^ 31" "int maxb + 3 \<le> sb_free_blocks (fs_sb (bm_fs t))" "dense_at t l"
  shows "\<exists>n t'. get_block ino l maxb True t = Some (0, n, bmap t' l, t') \<and> 1 \<le> n \<and> n \<le> maxb
    \<and> (\<forall>j<n. bmap t (l + int j) = 0 \<and> bmap t' (l + int j) \<noteq> 0 \<and> \<not> block_used (bm_fs t) (bmap t' (l + int j)))
    \<and> (\<forall>l'. 0 \<le> l' \<and> l' < max_lblock \<and> \<not> (l \<le> l' \<and> l' < l + int n) \<longrightarrow> bmap t' l' = bmap t l') \<and> tree_inv t'"
  using get_block_create_run [OF assms] by blast

theorem get_block_create_correct_witness:
  "\<exists>n t'. get_block 2 11 4 True sample_map = Some (0, n, bmap t' 11, t') \<and> 1 \<le> n \<and> n \<le> 4 \<and> tree_inv t'"
proof -
  have p: "fst (block_to_path 11) = [11, 0]" by (simp add: block_to_path_def ptr_consts Let_def)
  have "bmap sample_map 11 = 0" using sample_map_node [of "[0, 11]"] p by (simp add: bmap_def rpath_def depth_of_def)
  moreover have "dense_at sample_map 11"
    unfolding dense_at_def p by (auto simp: drop_Cons' )
  ultimately show ?thesis
    using get_block_create_correct [of 11 sample_map 2 4] sample_map_inv
    by (auto simp: max_lblock_def sample_map_def formatted_fs_def formatted_sb_def)
qed

text \<open>Sparse files stop the process.  A write to logical block 12 of an empty file,
  whose path enters a missing indirect block at offset 1, fails the assertion
  \<open>!offsets[n]\<close> of \<open>nvfuse_alloc_branch\<close>; so does every block whose path has
  a non-zero offset in a missing single indirect block.\<close>

theorem get_block_sparse_stops:
  assumes "tree_inv t" "ino < bgn (bm_fs t) * 4096" "0 < maxb" "maxb < 2 ^ 31"
    "int maxb + 3 \<le> sb_free_blocks (fs_sb (bm_fs t))" "bm_ib t ! 11 = 0" "11 < l" "l < 1035"
  shows "get_block ino l maxb True t = None"
proof -
  have b: "block_to_path l = ([11, nat (l - 11)], 1023 - (l - 11))"
    using assms(7,8) by (simp add: block_to_path_def ptr_consts Let_def)
  define k where "k = blks_to_allocate t (InInode 11) 1 maxb (nat (1023 - (l - 11)))"
  have k: "0 < k" "k \<le> maxb" using assms(3,7,8) by (auto simp: k_def blks_to_allocate_def)
  obtain bs dm s' where a: "alloc_free_blocks ino 1 k (bm_fs t) = Some (bs, dm, s')" "length bs = 2"
    using alloc_free_blocks_spec [of "bm_fs t" ino k 1] assms k by (auto simp: tree_inv_def)
  obtain x y where "bs = [x, y]" using a(2) by (metis One_nat_def Suc_1 length_0_conv length_Suc_conv)
  with a(1) b assms(6,7) k_def show ?thesis
    by (simp add: get_block_def add_chain_def Let_def)
qed

theorem get_block_sparse_stops_witness: "get_block 2 12 1 True sample_map = None"
  using get_block_sparse_stops [of sample_map 2 1 12] sample_map_inv
  by (simp add: sample_map_def formatted_fs_def formatted_sb_def)

end
