(* ===== verification/BufferCache.thy ===== *)
theory BufferCache
  imports Bitmap
begin

text \<open>
  The buffer cache, \<open>nvfuse_buffer_cache.c\<close>, with the flush of dirty buffers from
  \<open>nvfuse_core.c\<close> (\<open>nvfuse_flush_dirty_data\<close>, \<open>nvfuse_check_flush_dirty\<close>).

  A buffer (\<open>struct nvfuse_buffer_cache\<close>) is named by its address; \<open>bm_bc\<close> is the
  memory, \<open>bm_list\<close> the five lists (head = most recently used), \<open>bm_hash\<close> the hash
  chains, of which the last, number \<open>HASH_NUM\<close>, holds the unused buffers.  The
  contents of a block are of any type with a zero (\<open>memset\<close>), and \<open>bm_disk\<close> is the
  device.  The translation of a key to a physical block, \<open>nvfuse_get_pbn\<close>, is the
  argument \<open>pbn\<close>.  Spin locks are not modelled.  In the configuration
  \<open>NVFUSE_KEEP_DIRTY_BH_IN_ICTX\<close> is off, so a buffer head is only a handle of
  its buffer: \<open>bc_bh_count\<close> is always 0 and the lists of an inode stay empty.
\<close>

definition HASH_NUM :: nat where "HASH_NUM = 52631"
definition AIO_MAX_QDEPTH :: nat where "AIO_MAX_QDEPTH = 512"

section \<open>Keys\<close>

definition make_pbno_key :: "u32 \<Rightarrow> u32 \<Rightarrow> u32 \<Rightarrow> u64" where
  "make_pbno_key ino lbno type =
     push_bit 32 (ucast (push_bit 30 type OR ino)) + ucast lbno"

text \<open>The bit fields of the union with \<open>bc_bno\<close>.\<close>

definition bc_lbno :: "u64 \<Rightarrow> u32" where "bc_lbno bno = ucast bno"
definition bc_ino :: "u64 \<Rightarrow> u32" where "bc_ino bno = ucast (drop_bit 32 bno)"

section \<open>State\<close>

datatype btype = BUFFER_TYPE_UNUSED | BUFFER_TYPE_REF | BUFFER_TYPE_CLEAN | BUFFER_TYPE_DIRTY
  | BUFFER_TYPE_FLUSHING

record 'd buffer_cache =
  bc_bno :: u64
  bc_list_type :: btype
  bc_dirty :: bool
  bc_load :: bool
  bc_flush :: bool
  bc_ref :: int
  bc_pno :: nat
  bc_buf :: 'd

record 'd buffer_manager =
  bm_bc :: "nat \<Rightarrow> 'd buffer_cache"
  bm_list :: "btype \<Rightarrow> nat list"
  bm_list_count :: "btype \<Rightarrow> int"
  bm_hash :: "nat \<Rightarrow> nat list"
  bm_hash_count :: "nat \<Rightarrow> int"
  bm_cache_size :: int
  bm_cache_ref :: nat
  bm_cache_hit :: nat
  bm_disk :: "nat \<Rightarrow> 'd"

abbreviation upd_bc :: "nat \<Rightarrow> ('d buffer_cache \<Rightarrow> 'd buffer_cache) \<Rightarrow> 'd buffer_manager \<Rightarrow> 'd buffer_manager" where
  "upd_bc b f m \<equiv> m\<lparr>bm_bc := (bm_bc m)(b := f (bm_bc m b))\<rparr>"

definition bucket :: "u64 \<Rightarrow> nat" where
  "bucket key = unat key mod HASH_NUM"

section \<open>Lists\<close>

definition list_out :: "nat \<Rightarrow> 'd buffer_manager \<Rightarrow> 'd buffer_manager" where
  "list_out b m = (let ty = bc_list_type (bm_bc m b) in
     m\<lparr>bm_list := (bm_list m)(ty := remove1 b (bm_list m ty)),
       bm_list_count := (bm_list_count m)(ty := bm_list_count m ty - 1)\<rparr>)"

definition list_in :: "nat \<Rightarrow> btype \<Rightarrow> bool \<Rightarrow> 'd buffer_manager \<Rightarrow> 'd buffer_manager" where
  "list_in b ty tail m =
     m\<lparr>bm_list := (bm_list m)(ty := (if tail then bm_list m ty @ [b] else b # bm_list m ty)),
       bm_list_count := (bm_list_count m)(ty := bm_list_count m ty + 1)\<rparr>"

definition hash_out :: "nat \<Rightarrow> nat \<Rightarrow> 'd buffer_manager \<Rightarrow> 'd buffer_manager" where
  "hash_out b h m =
     m\<lparr>bm_hash := (\<lambda>i. remove1 b (bm_hash m i)),
       bm_hash_count := (bm_hash_count m)(h := bm_hash_count m h - 1)\<rparr>"

definition hash_in :: "nat \<Rightarrow> nat \<Rightarrow> 'd buffer_manager \<Rightarrow> 'd buffer_manager" where
  "hash_in b h m =
     m\<lparr>bm_hash := (bm_hash m)(h := b # bm_hash m h),
       bm_hash_count := (bm_hash_count m)(h := bm_hash_count m h + 1)\<rparr>"

definition move_buffer_list :: "nat \<Rightarrow> btype \<Rightarrow> bool \<Rightarrow> 'd buffer_manager \<Rightarrow> 'd buffer_manager" where
  "move_buffer_list b ty tail m =
     (if bc_list_type (bm_bc m b) = ty then m
      else list_in b ty tail (upd_bc b (\<lambda>c. c\<lparr>bc_list_type := ty\<rparr>) (list_out b m)))"

definition init_bc :: "('d::zero) buffer_cache \<Rightarrow> 'd buffer_cache" where
  "init_bc c = c\<lparr>bc_bno := 0, bc_dirty := False, bc_load := False, bc_pno := 0, bc_ref := 0, bc_buf := 0\<rparr>"

section \<open>Flushing\<close>

text \<open>One round of \<open>nvfuse_flush_dirty_data\<close>: up to \<open>AIO_MAX_QDEPTH\<close> buffers move to the
  flushing list, are written (\<open>nvfuse_sync_dirty_data\<close>), and move to the clean list.\<close>

definition collect_dirty :: "nat \<Rightarrow> 'd buffer_manager \<Rightarrow> 'd buffer_manager option" where
  "collect_dirty b m = do {
     assert_opt (bc_dirty (bm_bc m b));
     Some (move_buffer_list b BUFFER_TYPE_FLUSHING False (upd_bc b (\<lambda>c. c\<lparr>bc_flush := True\<rparr>) m)) }"

definition sync_block :: "nat \<Rightarrow> 'd buffer_manager \<Rightarrow> 'd buffer_manager option" where
  "sync_block b m = do {
     assert_opt (bc_dirty (bm_bc m b));
     assert_opt (bc_flush (bm_bc m b));
     Some (m\<lparr>bm_disk := (bm_disk m)(bc_pno (bm_bc m b) := bc_buf (bm_bc m b))\<rparr>) }"

definition clean_block :: "nat \<Rightarrow> 'd buffer_manager \<Rightarrow> 'd buffer_manager option" where
  "clean_block b m = do {
     assert_opt (bc_dirty (bm_bc m b));
     Some (move_buffer_list b BUFFER_TYPE_CLEAN False (upd_bc b (\<lambda>c. c\<lparr>bc_dirty := False, bc_flush := False\<rparr>) m)) }"

fun for_each :: "('a \<Rightarrow> 's \<Rightarrow> 's option) \<Rightarrow> 'a list \<Rightarrow> 's \<Rightarrow> 's option" where
  "for_each f [] m = Some m"
| "for_each f (b # bs) m = do { m' \<leftarrow> f b m; for_each f bs m' }"

definition flush_round :: "'d buffer_manager \<Rightarrow> 'd buffer_manager option" where
  "flush_round m = do {
     m1 \<leftarrow> for_each collect_dirty (take AIO_MAX_QDEPTH (bm_list m BUFFER_TYPE_DIRTY)) m;
     m2 \<leftarrow> for_each sync_block (bm_list m1 BUFFER_TYPE_FLUSHING) m1;
     for_each clean_block (bm_list m2 BUFFER_TYPE_FLUSHING) m2 }"

text \<open>\<open>None\<close> stands for a failed assertion and for a loop that has not ended after
  \<open>fuel\<close> rounds.\<close>

fun flush_loop :: "nat \<Rightarrow> 'd buffer_manager \<Rightarrow> 'd buffer_manager option" where
  "flush_loop 0 m = (if bm_list_count m BUFFER_TYPE_DIRTY = 0 then Some m else None)"
| "flush_loop (Suc fuel) m =
    (if bm_list_count m BUFFER_TYPE_DIRTY = 0 then Some m
     else do { m' \<leftarrow> flush_round m; flush_loop fuel m' })"

definition flush_dirty_data :: "'d buffer_manager \<Rightarrow> 'd buffer_manager option" where
  "flush_dirty_data m = flush_loop (length (bm_list m BUFFER_TYPE_DIRTY)) m"

definition NVFUSE_SYNC_DIRTY_COUNT :: int where "NVFUSE_SYNC_DIRTY_COUNT = 2048"

definition check_flush_dirty :: "bool \<Rightarrow> 'd buffer_manager \<Rightarrow> 'd buffer_manager option" where
  "check_flush_dirty force m =
     (let n = bm_list_count m BUFFER_TYPE_DIRTY in
      if \<not> force \<and> n < NVFUSE_SYNC_DIRTY_COUNT then Some m
      else if n = 0 then Some m
      else flush_dirty_data m)"

section \<open>Lookup, replacement and release\<close>

text \<open>\<open>nvfuse_replace_buffer_cache\<close>: the victim is the last buffer of the list that is not
  referenced; when there is none the function sleeps for ever.\<close>

definition replace_buffer_cache :: "'d buffer_manager \<Rightarrow> (nat \<times> 'd buffer_manager) option" where
  "replace_buffer_cache m = do {
     (ty, m1) \<leftarrow> (if bm_list_count m BUFFER_TYPE_UNUSED \<noteq> 0 then Some (BUFFER_TYPE_UNUSED, m)
                 else if bm_list_count m BUFFER_TYPE_CLEAN \<noteq> 0 then Some (BUFFER_TYPE_CLEAN, m)
                 else do { m' \<leftarrow> check_flush_dirty True m; Some (BUFFER_TYPE_DIRTY, m') });
     assert_opt (bm_list_count m1 ty \<noteq> 0);
     b \<leftarrow> find (\<lambda>b. bc_ref (bm_bc m1 b) = 0) (rev (bm_list m1 ty));
     let m2 = m1\<lparr>bm_list := (bm_list m1)(ty := remove1 b (bm_list m1 ty)),
                bm_list_count := (bm_list_count m1)(ty := bm_list_count m1 ty - 1)\<rparr>;
         h = (if ty = BUFFER_TYPE_UNUSED then HASH_NUM else bucket (bc_bno (bm_bc m1 b)))
     in Some (b, hash_out b h m2) }"

definition hash_lookup :: "'d buffer_manager \<Rightarrow> u64 \<Rightarrow> nat option" where
  "hash_lookup m key = find (\<lambda>b. bc_bno (bm_bc m b) = key) (bm_hash m (bucket key))"

definition inc_bc_ref :: "nat \<Rightarrow> 'd buffer_manager \<Rightarrow> 'd buffer_manager option" where
  "inc_bc_ref b m = do {
     assert_opt (bc_ref (bm_bc m b) + 1 = 1);
     Some (upd_bc b (\<lambda>c. c\<lparr>bc_ref := bc_ref c + 1\<rparr>) m) }"

definition dec_bc_ref :: "nat \<Rightarrow> 'd buffer_manager \<Rightarrow> 'd buffer_manager option" where
  "dec_bc_ref b m = do {
     assert_opt (bc_ref (bm_bc m b) - 1 \<ge> 0);
     Some (upd_bc b (\<lambda>c. c\<lparr>bc_ref := bc_ref c - 1\<rparr>) m) }"

text \<open>The three parts of \<open>nvfuse_find_bc\<close>: the hit moves the buffer to the front of its
  list, the miss recycles a buffer, and both end with the reference count.\<close>

definition find_hit :: "nat \<Rightarrow> u32 \<Rightarrow> 'd buffer_manager \<Rightarrow> (nat \<times> 'd buffer_manager) option" where
  "find_hit b lblock m = do {
     assert_opt (bc_lbno (bc_bno (bm_bc m b)) = lblock);
     let m' = list_in b (bc_list_type (bm_bc m b)) False (list_out b m)
     in Some (b, m'\<lparr>bm_cache_hit := bm_cache_hit m' + 1\<rparr>) }"

definition find_miss :: "u64 \<Rightarrow> ('d::zero) buffer_manager \<Rightarrow> (nat \<times> 'd buffer_manager) option" where
  "find_miss key m = do {
     (b, m') \<leftarrow> replace_buffer_cache m;
     Some (b, upd_bc b (\<lambda>c. c\<lparr>bc_bno := key, bc_list_type := BUFFER_TYPE_REF\<rparr>)
           (list_in b BUFFER_TYPE_REF False (hash_in b (bucket key) (upd_bc b init_bc m')))) }"

definition find_ref :: "nat \<Rightarrow> 'd buffer_manager \<Rightarrow> (nat \<times> 'd buffer_manager) option" where
  "find_ref b m = do {
     m' \<leftarrow> inc_bc_ref b m;
     Some (b, if bc_ref (bm_bc m' b) \<noteq> 0 \<and> bc_list_type (bm_bc m' b) \<noteq> BUFFER_TYPE_REF
              then move_buffer_list b BUFFER_TYPE_REF False m' else m') }"

definition find_bc :: "u64 \<Rightarrow> u32 \<Rightarrow> ('d::zero) buffer_manager \<Rightarrow> (nat \<times> 'd buffer_manager) option" where
  "find_bc key lblock m0 =
    (let m = m0\<lparr>bm_cache_ref := bm_cache_ref m0 + 1\<rparr> in do {
     (b, m1) \<leftarrow> (case hash_lookup m key of Some b \<Rightarrow> find_hit b lblock m | None \<Rightarrow> find_miss key m);
     find_ref b m1 })"

text \<open>\<open>nvfuse_get_bc\<close>: the physical block number is filled in first, the block is read
  when the caller asks for its contents and they are not there yet, and four
  assertions close the function.\<close>

definition get_pno :: "(u64 \<Rightarrow> nat) \<Rightarrow> u64 \<Rightarrow> nat \<Rightarrow> 'd buffer_manager \<Rightarrow> 'd buffer_manager option" where
  "get_pno pbn key b m =
     (if bc_pno (bm_bc m b) = 0 then do {
        assert_opt (pbn key \<noteq> 0);
        Some (upd_bc b (\<lambda>c. c\<lparr>bc_pno := pbn key\<rparr>) m) } else Some m)"

definition load_bc :: "bool \<Rightarrow> nat \<Rightarrow> 'd buffer_manager \<Rightarrow> 'd buffer_manager" where
  "load_bc sync_read b m =
     (if sync_read \<and> \<not> bc_load (bm_bc m b)
      then upd_bc b (\<lambda>c. c\<lparr>bc_buf := bm_disk m (bc_pno c), bc_load := True\<rparr>) m else m)"

definition get_bc :: "(u64 \<Rightarrow> nat) \<Rightarrow> u32 \<Rightarrow> u32 \<Rightarrow> bool \<Rightarrow> ('d::zero) buffer_manager \<Rightarrow> (nat \<times> 'd buffer_manager) option" where
  "get_bc pbn ino lblock sync_read m =
    (let key = make_pbno_key ino lblock 0 in do {
     (b, m1) \<leftarrow> find_bc key lblock m;
     m2 \<leftarrow> get_pno pbn key b m1;
     let m3 = load_bc sync_read b m2 in do {
       assert_opt (bc_ino (bc_bno (bm_bc m3 b)) = ino);
       assert_opt (bc_lbno (bc_bno (bm_bc m3 b)) = lblock);
       assert_opt (bc_ref (bm_bc m3 b) \<ge> 1);
       assert_opt (bc_pno (bm_bc m3 b) \<noteq> 0);
       Some (b, m3) }})"

definition mark_dirty_bh :: "nat \<Rightarrow> 'd buffer_manager \<Rightarrow> 'd buffer_manager" where
  "mark_dirty_bh b m = upd_bc b (\<lambda>c. c\<lparr>bc_dirty := True\<rparr>) m"

definition get_new_bh :: "(u64 \<Rightarrow> nat) \<Rightarrow> u32 \<Rightarrow> u32 \<Rightarrow> ('d::zero) buffer_manager \<Rightarrow> (nat \<times> 'd buffer_manager) option" where
  "get_new_bh pbn ino lblock m = do {
     (b, m1) \<leftarrow> get_bc pbn ino lblock False m;
     let m2 = (if bc_pno (bm_bc m1 b) \<noteq> 0 then upd_bc b (\<lambda>c. c\<lparr>bc_buf := 0\<rparr>) m1 else m1)
     in Some (b, mark_dirty_bh b m2) }"

definition release_bc :: "nat \<Rightarrow> bool \<Rightarrow> bool \<Rightarrow> 'd buffer_manager \<Rightarrow> 'd buffer_manager option" where
  "release_bc b tail dirty m = do {
     m1 \<leftarrow> dec_bc_ref b m;
     if dirty \<or> bc_dirty (bm_bc m1 b) then
       Some (move_buffer_list b BUFFER_TYPE_DIRTY tail (upd_bc b (\<lambda>c. c\<lparr>bc_dirty := True, bc_load := True\<rparr>) m1))
     else do {
       assert_opt (bc_ref (bm_bc m1 b) = 0);
       Some (move_buffer_list b BUFFER_TYPE_CLEAN tail (upd_bc b (\<lambda>c. c\<lparr>bc_dirty := False\<rparr>) m1)) } }"

section \<open>Growing and shrinking\<close>

text \<open>\<open>nvfuse_add_buffer_cache\<close> for one buffer at the unused address \<open>b\<close>, and the
  initialisation with the buffers \<open>0, ..., n - 1\<close>.\<close>

definition add_buffer :: "nat \<Rightarrow> ('d::zero) buffer_manager \<Rightarrow> 'd buffer_manager" where
  "add_buffer b m =
     (let m1 = hash_in b HASH_NUM (list_in b BUFFER_TYPE_UNUSED False
        (m\<lparr>bm_bc := (bm_bc m)(b := \<lparr>bc_bno = 0, bc_list_type = BUFFER_TYPE_UNUSED, bc_dirty = False, bc_load = False,
             bc_flush = False, bc_ref = 0, bc_pno = 0, bc_buf = 0\<rparr>)\<rparr>))
      in m1\<lparr>bm_cache_size := bm_cache_size m1 + 1\<rparr>)"

definition init_buffer_cache :: "nat \<Rightarrow> (nat \<Rightarrow> 'd::zero) \<Rightarrow> 'd buffer_manager" where
  "init_buffer_cache n disk = fold add_buffer [0..<n]
     \<lparr>bm_bc = (\<lambda>_. \<lparr>bc_bno = 0, bc_list_type = BUFFER_TYPE_UNUSED, bc_dirty = False, bc_load = False,
        bc_flush = False, bc_ref = 0, bc_pno = 0, bc_buf = 0\<rparr>),
      bm_list = (\<lambda>_. []), bm_list_count = (\<lambda>_. 0), bm_hash = (\<lambda>_. []), bm_hash_count = (\<lambda>_. 0),
      bm_cache_size = 0, bm_cache_ref = 0, bm_cache_hit = 0, bm_disk = disk\<rparr>"

text \<open>\<open>nvfuse_move_bc_to_unused_list\<close> moves the buffer to the list of the unused ones and
  leaves it in the hash chain of its key.\<close>

definition move_bc_to_unused_list :: "u64 \<Rightarrow> 'd buffer_manager \<Rightarrow> 'd buffer_manager" where
  "move_bc_to_unused_list key m = (case hash_lookup m key of
     None \<Rightarrow> m
   | Some b \<Rightarrow> move_buffer_list b BUFFER_TYPE_UNUSED False
       (upd_bc b (\<lambda>c. c\<lparr>bc_load := False, bc_pno := 0, bc_dirty := False, bc_ref := 0\<rparr>) m))"

text \<open>A block store's client: one block read through \<open>nvfuse_get_bh\<close> and
  \<open>nvfuse_release_bh\<close>, one block written, followed by the check every call of the
  file API ends with.\<close>

definition read_block :: "(u64 \<Rightarrow> nat) \<Rightarrow> u32 \<times> u32 \<Rightarrow> ('d::zero) buffer_manager \<Rightarrow> ('d \<times> 'd buffer_manager) option" where
  "read_block pbn k m = do {
     (b, m1) \<leftarrow> get_bc pbn (fst k) (snd k) True m;
     m2 \<leftarrow> release_bc b False False m1;
     Some (bc_buf (bm_bc m1 b), m2) }"

definition write_block :: "(u64 \<Rightarrow> nat) \<Rightarrow> u32 \<times> u32 \<Rightarrow> 'd \<Rightarrow> ('d::zero) buffer_manager \<Rightarrow> 'd buffer_manager option" where
  "write_block pbn k d m = do {
     (b, m1) \<leftarrow> get_bc pbn (fst k) (snd k) False m;
     m2 \<leftarrow> release_bc b False True (mark_dirty_bh b (upd_bc b (\<lambda>c. c\<lparr>bc_buf := d\<rparr>) m1));
     check_flush_dirty False m2 }"

section \<open>Key round trip\<close>

lemma key_fields:
  "bc_lbno (make_pbno_key ino lbno type) = lbno"
  "bc_ino (make_pbno_key ino lbno type) = push_bit 30 type OR ino"
proof -
  define hi :: u64 where "hi = push_bit 32 (ucast (push_bit 30 type OR ino))"
  define lo :: u64 where "lo = ucast lbno"
  have "hi AND lo = 0" by (rule bit_word_eqI) (auto simp: hi_def lo_def bit_simps dest: bit_imp_le_length)
  then have k: "make_pbno_key ino lbno type = hi OR lo"
    by (simp add: make_pbno_key_def hi_def lo_def disjunctive_add_eq_or)
  show "bc_lbno (make_pbno_key ino lbno type) = lbno"
    unfolding k bc_lbno_def by (rule bit_word_eqI) (auto simp: hi_def lo_def bit_simps dest: bit_imp_le_length)
  show "bc_ino (make_pbno_key ino lbno type) = push_bit 30 type OR ino"
    unfolding k bc_ino_def by (rule bit_word_eqI) (auto simp: hi_def lo_def bit_simps dest: bit_imp_le_length)
qed

section \<open>Invariant\<close>

abbreviation in_list :: "'d buffer_manager \<Rightarrow> nat \<Rightarrow> bool" where
  "in_list m b \<equiv> b \<in> set (bm_list m (bc_list_type (bm_bc m b)))"

definition hash_slot :: "'d buffer_cache \<Rightarrow> nat" where
  "hash_slot c = (if bc_list_type c = BUFFER_TYPE_UNUSED then HASH_NUM else bucket (bc_bno c))"

definition str_inv :: "'d buffer_manager \<Rightarrow> bool" where
  "str_inv m \<longleftrightarrow>
     (\<forall>ty. bm_list_count m ty = int (length (bm_list m ty)) \<and> distinct (bm_list m ty)
         \<and> (\<forall>b\<in>set (bm_list m ty). bc_list_type (bm_bc m b) = ty))
   \<and> (\<forall>h. bm_hash_count m h = int (length (bm_hash m h)) \<and> distinct (bm_hash m h)
         \<and> (\<forall>b. b \<in> set (bm_hash m h) \<longleftrightarrow> in_list m b \<and> h = hash_slot (bm_bc m b)))
   \<and> (\<forall>b c. in_list m b \<longrightarrow> in_list m c \<longrightarrow> bc_list_type (bm_bc m b) \<noteq> BUFFER_TYPE_UNUSED
         \<longrightarrow> bc_list_type (bm_bc m c) \<noteq> BUFFER_TYPE_UNUSED \<longrightarrow> bc_bno (bm_bc m b) = bc_bno (bm_bc m c) \<longrightarrow> b = c)"

fun buf_ok :: "(u64 \<Rightarrow> nat) \<Rightarrow> (nat \<Rightarrow> 'd) \<Rightarrow> 'd buffer_cache \<Rightarrow> bool" where
  "buf_ok pbn disk c = (case bc_list_type c of
     BUFFER_TYPE_UNUSED \<Rightarrow> bc_ref c = 0 \<and> \<not> bc_dirty c
   | BUFFER_TYPE_REF \<Rightarrow> bc_ref c = 1 \<and> bc_pno c = pbn (bc_bno c) \<and> bc_pno c \<noteq> 0
   | BUFFER_TYPE_CLEAN \<Rightarrow> bc_ref c = 0 \<and> \<not> bc_dirty c \<and> bc_pno c = pbn (bc_bno c) \<and> bc_pno c \<noteq> 0
       \<and> (bc_load c \<longrightarrow> bc_buf c = disk (bc_pno c))
   | BUFFER_TYPE_DIRTY \<Rightarrow> bc_ref c = 0 \<and> bc_dirty c \<and> bc_load c \<and> bc_pno c = pbn (bc_bno c) \<and> bc_pno c \<noteq> 0
   | BUFFER_TYPE_FLUSHING \<Rightarrow> bc_ref c = 0 \<and> bc_dirty c \<and> bc_load c \<and> bc_flush c
       \<and> bc_pno c = pbn (bc_bno c) \<and> bc_pno c \<noteq> 0)"

definition bc_inv :: "(u64 \<Rightarrow> nat) \<Rightarrow> 'd buffer_manager \<Rightarrow> bool" where
  "bc_inv pbn m \<longleftrightarrow> str_inv m \<and> (\<forall>b. in_list m b \<longrightarrow> buf_ok pbn (bm_disk m) (bm_bc m b))"

text \<open>The block contents a client sees under a key.\<close>

definition cache_view :: "(u64 \<Rightarrow> nat) \<Rightarrow> 'd buffer_manager \<Rightarrow> u64 \<Rightarrow> 'd" where
  "cache_view pbn m k = (case hash_lookup m k of
     None \<Rightarrow> bm_disk m (pbn k)
   | Some b \<Rightarrow> if bc_load (bm_bc m b) \<or> bc_dirty (bm_bc m b) then bc_buf (bm_bc m b) else bm_disk m (pbn k))"

lemma str_invD:
  assumes "str_inv m"
  shows "bm_list_count m ty = int (length (bm_list m ty))" "distinct (bm_list m ty)"
    "b \<in> set (bm_list m ty) \<Longrightarrow> bc_list_type (bm_bc m b) = ty"
    "bm_hash_count m h = int (length (bm_hash m h))" "distinct (bm_hash m h)"
    "b \<in> set (bm_hash m h) \<longleftrightarrow> in_list m b \<and> h = hash_slot (bm_bc m b)"
    "in_list m b \<Longrightarrow> in_list m c \<Longrightarrow> bc_list_type (bm_bc m b) \<noteq> BUFFER_TYPE_UNUSED
       \<Longrightarrow> bc_list_type (bm_bc m c) \<noteq> BUFFER_TYPE_UNUSED \<Longrightarrow> bc_bno (bm_bc m b) = bc_bno (bm_bc m c) \<Longrightarrow> b = c"
  using assms unfolding str_inv_def by blast+

lemma find_some_mem: "find P xs = Some x \<Longrightarrow> x \<in> set xs \<and> P x"
  by (induction xs) (auto split: if_splits)

lemma bucket_less: "bucket key < HASH_NUM"
  by (simp add: bucket_def HASH_NUM_def)

lemma in_bucketD:
  assumes "str_inv m" "b \<in> set (bm_hash m (bucket k))"
  shows "in_list m b" "bc_list_type (bm_bc m b) \<noteq> BUFFER_TYPE_UNUSED"
proof -
  have "in_list m b \<and> bucket k = hash_slot (bm_bc m b)" using str_invD(6) [OF assms(1)] assms(2) by blast
  then show "in_list m b" "bc_list_type (bm_bc m b) \<noteq> BUFFER_TYPE_UNUSED"
    using bucket_less [of k] by (blast, metis hash_slot_def less_irrefl)
qed

lemma hash_lookup_iff:
  assumes "str_inv m"
  shows "hash_lookup m k = Some b \<longleftrightarrow>
    in_list m b \<and> bc_list_type (bm_bc m b) \<noteq> BUFFER_TYPE_UNUSED \<and> bc_bno (bm_bc m b) = k"
proof
  assume "hash_lookup m k = Some b"
  then have "b \<in> set (bm_hash m (bucket k))" "bc_bno (bm_bc m b) = k"
    unfolding hash_lookup_def by (blast dest: find_some_mem)+
  then show "in_list m b \<and> bc_list_type (bm_bc m b) \<noteq> BUFFER_TYPE_UNUSED \<and> bc_bno (bm_bc m b) = k"
    using in_bucketD [OF assms] by blast
next
  assume a: "in_list m b \<and> bc_list_type (bm_bc m b) \<noteq> BUFFER_TYPE_UNUSED \<and> bc_bno (bm_bc m b) = k"
  then have "bucket k = hash_slot (bm_bc m b)" by (simp add: hash_slot_def)
  then have "b \<in> set (bm_hash m (bucket k))" using str_invD(6) [OF assms] a by blast
  then have "hash_lookup m k \<noteq> None" using a unfolding hash_lookup_def find_None_iff by blast
  then obtain c where c: "hash_lookup m k = Some c" by blast
  then have "c \<in> set (bm_hash m (bucket k))" "bc_bno (bm_bc m c) = k"
    unfolding hash_lookup_def by (blast dest: find_some_mem)+
  then show "hash_lookup m k = Some b"
    using c a str_invD(7) [OF assms, of c b] in_bucketD [OF assms, of c k] by simp
qed

section \<open>Structural lemmas\<close>

text \<open>Changing other fields than list type and key keeps the structure.\<close>

lemma str_inv_upd:
  assumes "str_inv m" "bc_list_type (f (bm_bc m b)) = bc_list_type (bm_bc m b)"
    "bc_bno (f (bm_bc m b)) = bc_bno (bm_bc m b)"
  shows "str_inv (upd_bc b f m)"
proof -
  let ?m = "upd_bc b f m"
  have t: "bc_list_type (bm_bc ?m x) = bc_list_type (bm_bc m x)" "bc_bno (bm_bc ?m x) = bc_bno (bm_bc m x)"
    "bm_list ?m = bm_list m" "bm_list_count ?m = bm_list_count m" "bm_hash ?m = bm_hash m"
    "bm_hash_count ?m = bm_hash_count m" for x
    using assms(2,3) by simp_all
  show ?thesis using assms(1) unfolding str_inv_def hash_slot_def t .
qed

lemma str_inv_disk [simp]: "str_inv (m\<lparr>bm_disk := d\<rparr>) = str_inv m"
  "str_inv (m\<lparr>bm_cache_ref := r\<rparr>) = str_inv m" "str_inv (m\<lparr>bm_cache_hit := r\<rparr>) = str_inv m"
  by (simp_all add: str_inv_def)

lemma move_lists:
  assumes "str_inv m" "in_list m b" "ty \<noteq> bc_list_type (bm_bc m b)"
  shows "set (bm_list (move_buffer_list b ty tail m) t) =
      (if t = ty then insert b (set (bm_list m ty)) else set (bm_list m t) - {b})"
    "bm_bc (move_buffer_list b ty tail m) = (bm_bc m)(b := (bm_bc m b)\<lparr>bc_list_type := ty\<rparr>)"
    "bm_disk (move_buffer_list b ty tail m) = bm_disk m"
    "bm_hash (move_buffer_list b ty tail m) = bm_hash m"
proof -
  have "b \<notin> set (bm_list m t)" if "t \<noteq> bc_list_type (bm_bc m b)" for t
    using str_invD(3) [OF assms(1), of b t] that by blast
  then show "set (bm_list (move_buffer_list b ty tail m) t) =
      (if t = ty then insert b (set (bm_list m ty)) else set (bm_list m t) - {b})"
    using assms(3) str_invD(2) [OF assms(1)]
    by (auto simp: move_buffer_list_def list_in_def list_out_def Let_def)
qed (use assms(3) in \<open>simp_all add: move_buffer_list_def list_in_def list_out_def Let_def\<close>)

lemma move_in_list:
  assumes "str_inv m" "in_list m b" "ty \<noteq> bc_list_type (bm_bc m b)"
  shows "in_list (move_buffer_list b ty tail m) x \<longleftrightarrow> in_list m x"
  using assms str_invD(3) [OF assms(1), of x]
  by (auto simp: move_lists [OF assms])

lemma move_str_inv:
  assumes "str_inv m" "in_list m b" "bc_list_type (bm_bc m b) \<noteq> BUFFER_TYPE_UNUSED" "ty \<noteq> BUFFER_TYPE_UNUSED"
  shows "str_inv (move_buffer_list b ty tail m)"
proof (cases "ty = bc_list_type (bm_bc m b)")
  case True
  with assms(1) show ?thesis by (simp add: move_buffer_list_def)
next
  case False
  note ml = move_lists [OF assms(1,2) False] and mi = move_in_list [OF assms(1,2) False]
  let ?m = "move_buffer_list b ty tail m"
  let ?old = "bc_list_type (bm_bc m b)"
  have nb: "b \<notin> set (bm_list m t)" if "t \<noteq> ?old" for t using str_invD(3) [OF assms(1), of b t] that by blast
  have hs: "hash_slot (bm_bc ?m x) = hash_slot (bm_bc m x)" for x
    using assms(3,4) by (simp add: ml(2) hash_slot_def)
  have l: "int (length (bm_list m ?old) - Suc 0) = int (length (bm_list m ?old)) - 1"
    using length_pos_if_in_set [OF assms(2)] by linarith
  have "bm_list_count ?m t = int (length (bm_list ?m t)) \<and> distinct (bm_list ?m t)" for t
    using str_invD(1,2) [OF assms(1)] assms(2) nb False l
    by (auto simp: move_buffer_list_def list_in_def list_out_def Let_def length_remove1)
  moreover have "\<forall>x\<in>set (bm_list ?m t). bc_list_type (bm_bc ?m x) = t" for t
    using str_invD(3) [OF assms(1)] by (auto simp: ml split: if_splits)
  moreover have "bm_hash_count ?m h = int (length (bm_hash ?m h)) \<and> distinct (bm_hash ?m h)" for h
    using str_invD(4,5) [OF assms(1)] False
    by (simp add: move_buffer_list_def list_in_def list_out_def Let_def)
  moreover have "x \<in> set (bm_hash ?m h) \<longleftrightarrow> in_list ?m x \<and> h = hash_slot (bm_bc ?m x)" for x h
    unfolding mi hs ml(4) using str_invD(6) [OF assms(1)] by blast
  moreover have "x = y" if "in_list ?m x" "in_list ?m y" "bc_list_type (bm_bc ?m x) \<noteq> BUFFER_TYPE_UNUSED"
    "bc_list_type (bm_bc ?m y) \<noteq> BUFFER_TYPE_UNUSED" "bc_bno (bm_bc ?m x) = bc_bno (bm_bc ?m y)" for x y
  proof -
    have "bc_list_type (bm_bc m z) \<noteq> BUFFER_TYPE_UNUSED" if "bc_list_type (bm_bc ?m z) \<noteq> BUFFER_TYPE_UNUSED" for z
      using that assms(3) by (cases "z = b") (simp_all add: ml(2))
    moreover have "bc_bno (bm_bc ?m z) = bc_bno (bm_bc m z)" for z by (simp add: ml(2))
    ultimately show ?thesis using that str_invD(7) [OF assms(1), of x y] unfolding mi by metis
  qed
  ultimately show ?thesis unfolding str_inv_def by blast
qed

lemma reorder_str_inv:
  assumes "str_inv m" "in_list m b"
  defines "m' \<equiv> list_in b (bc_list_type (bm_bc m b)) False (list_out b m)"
  shows "str_inv m'" "set (bm_list m' t) = set (bm_list m t)" "bm_bc m' = bm_bc m" "bm_disk m' = bm_disk m"
    "bm_hash m' = bm_hash m" "bm_hash_count m' = bm_hash_count m"
proof -
  show s: "set (bm_list m' t) = set (bm_list m t)" for t
    using assms(2) str_invD(2) [OF assms(1)] by (auto simp: m'_def list_in_def list_out_def Let_def)
  show e: "bm_bc m' = bm_bc m" "bm_disk m' = bm_disk m" "bm_hash m' = bm_hash m" "bm_hash_count m' = bm_hash_count m"
    by (simp_all add: m'_def list_in_def list_out_def Let_def)
  have l: "length (bm_list m (bc_list_type (bm_bc m b))) \<noteq> 0" using assms(2) by auto
  have "bm_list_count m' t = int (length (bm_list m' t)) \<and> distinct (bm_list m' t)" for t
    using str_invD(1,2) [OF assms(1)] assms(2) l
    by (auto simp: m'_def list_in_def list_out_def Let_def length_remove1)
  then show "str_inv m'" using assms(1) unfolding str_inv_def s e by blast
qed

text \<open>A victim that is taken out of its list and chain and becomes the referenced
  buffer of a new key.\<close>

definition recycle :: "nat \<Rightarrow> u64 \<Rightarrow> ('d::zero) buffer_manager \<Rightarrow> 'd buffer_manager" where
  "recycle b key m =
     upd_bc b (\<lambda>c. c\<lparr>bc_bno := key, bc_list_type := BUFFER_TYPE_REF\<rparr>)
       (list_in b BUFFER_TYPE_REF False (hash_in b (bucket key) (upd_bc b init_bc
          (hash_out b (hash_slot (bm_bc m b)) (list_out b m)))))"

lemma recycle_fields:
  assumes "str_inv m" "in_list m b" "bc_list_type (bm_bc m b) \<noteq> BUFFER_TYPE_REF"
  shows "bm_bc (recycle b key m) = (bm_bc m)(b := (init_bc (bm_bc m b))\<lparr>bc_bno := key, bc_list_type := BUFFER_TYPE_REF\<rparr>)"
    "set (bm_list (recycle b key m) t) = (if t = BUFFER_TYPE_REF then insert b (set (bm_list m t)) else set (bm_list m t) - {b})"
    "set (bm_hash (recycle b key m) h) = (if h = bucket key then insert b (set (bm_hash m h)) else set (bm_hash m h) - {b})"
    "bm_disk (recycle b key m) = bm_disk m"
proof -
  have "b \<notin> set (bm_list m t)" if "t \<noteq> bc_list_type (bm_bc m b)" for t
    using str_invD(3) [OF assms(1), of b t] that by blast
  then show "set (bm_list (recycle b key m) t) = (if t = BUFFER_TYPE_REF then insert b (set (bm_list m t)) else set (bm_list m t) - {b})"
    using assms(3) str_invD(2) [OF assms(1)]
    by (auto simp: recycle_def list_in_def hash_in_def hash_out_def list_out_def Let_def)
  show "set (bm_hash (recycle b key m) h) = (if h = bucket key then insert b (set (bm_hash m h)) else set (bm_hash m h) - {b})"
    using str_invD(5) [OF assms(1)]
    by (auto simp: recycle_def list_in_def hash_in_def hash_out_def list_out_def Let_def)
qed (simp_all add: recycle_def list_in_def hash_in_def hash_out_def list_out_def Let_def)

lemma recycle_counts:
  assumes "str_inv m" "in_list m b" "bc_list_type (bm_bc m b) \<noteq> BUFFER_TYPE_REF"
  shows "bm_list_count (recycle b key m) t = int (length (bm_list (recycle b key m) t)) \<and> distinct (bm_list (recycle b key m) t)"
    "bm_hash_count (recycle b key m) h = int (length (bm_hash (recycle b key m) h)) \<and> distinct (bm_hash (recycle b key m) h)"
proof -
  let ?ty = "bc_list_type (bm_bc m b)"
  have nb: "b \<notin> set (bm_list m t)" if "t \<noteq> ?ty" for t using str_invD(3) [OF assms(1), of b t] that by blast
  have l: "int (length (bm_list m ?ty) - Suc 0) = int (length (bm_list m ?ty)) - 1"
    using length_pos_if_in_set [OF assms(2)] by linarith
  show "bm_list_count (recycle b key m) t = int (length (bm_list (recycle b key m) t)) \<and> distinct (bm_list (recycle b key m) t)"
    using str_invD(1,2) [OF assms(1)] assms nb l
    by (auto simp: recycle_def list_in_def hash_in_def hash_out_def list_out_def Let_def length_remove1)
  have hb: "b \<in> set (bm_hash m h) \<longleftrightarrow> h = hash_slot (bm_bc m b)" for h using str_invD(6) [OF assms(1), of b h] assms(2) by blast
  have lh: "int (length (bm_hash m (hash_slot (bm_bc m b))) - Suc 0) = int (length (bm_hash m (hash_slot (bm_bc m b)))) - 1"
    using length_pos_if_in_set [of b "bm_hash m (hash_slot (bm_bc m b))"] hb [of "hash_slot (bm_bc m b)"] by linarith
  have rm: "remove1 b (bm_hash m h) = bm_hash m h" if "h \<noteq> hash_slot (bm_bc m b)" for h
    using hb that by (simp add: remove1_idem)
  have rb: "b \<notin> set (remove1 b (bm_hash m h))" for h using str_invD(5) [OF assms(1)] by simp
  show "bm_hash_count (recycle b key m) h = int (length (bm_hash (recycle b key m) h)) \<and> distinct (bm_hash (recycle b key m) h)"
    using str_invD(4,5) [OF assms(1)] hb lh rm rb
    by (cases "h = hash_slot (bm_bc m b)"; cases "h = bucket key")
      (auto simp: recycle_def list_in_def hash_in_def hash_out_def list_out_def Let_def length_remove1)
qed

lemma recycle_str_inv:
  assumes "str_inv m" "in_list m b" "bc_list_type (bm_bc m b) \<noteq> BUFFER_TYPE_REF" "hash_lookup m key = None"
  shows "str_inv (recycle b key m)" "in_list (recycle b key m) x \<longleftrightarrow> in_list m x"
proof -
  note rf = recycle_fields [OF assms(1-3), of key]
  let ?m = "recycle b key m"
  show il: "in_list ?m x \<longleftrightarrow> in_list m x" for x
    using assms(2) by (cases "x = b") (auto simp: rf(1,2))
  have ty: "\<forall>x\<in>set (bm_list ?m t). bc_list_type (bm_bc ?m x) = t" for t
    using str_invD(3) [OF assms(1)] by (auto simp: rf(1,2) split: if_splits)
  have no: "bc_bno (bm_bc m x) \<noteq> key" if "in_list m x" "bc_list_type (bm_bc m x) \<noteq> BUFFER_TYPE_UNUSED" for x
    using hash_lookup_iff [OF assms(1), of key x] assms(4) that by auto
  have hash: "x \<in> set (bm_hash ?m h) \<longleftrightarrow> in_list ?m x \<and> h = hash_slot (bm_bc ?m x)" for x h
    unfolding il using str_invD(6) [OF assms(1), of x h] assms(2)
    by (cases "x = b") (auto simp: rf(1,3) hash_slot_def)
  have "x = y" if "in_list ?m x" "in_list ?m y" "bc_list_type (bm_bc ?m x) \<noteq> BUFFER_TYPE_UNUSED"
    "bc_list_type (bm_bc ?m y) \<noteq> BUFFER_TYPE_UNUSED" "bc_bno (bm_bc ?m x) = bc_bno (bm_bc ?m y)" for x y
    using that no [of x] no [of y] str_invD(7) [OF assms(1), of x y] unfolding il
    by (cases "x = b"; cases "y = b") (auto simp: rf(1))
  with ty hash recycle_counts [OF assms(1-3)] show "str_inv ?m" unfolding str_inv_def by blast
qed

section \<open>The cache as a view of the device\<close>

lemma bc_inv_buf: "bc_inv pbn m \<Longrightarrow> in_list m b \<Longrightarrow> buf_ok pbn (bm_disk m) (bm_bc m b)"
  by (simp add: bc_inv_def)

text \<open>The view depends on the buffer of the key and the device only.\<close>

lemma cache_view_eq:
  assumes "str_inv m" "in_list m b" "bc_list_type (bm_bc m b) \<noteq> BUFFER_TYPE_UNUSED" "bc_bno (bm_bc m b) = k"
  shows "cache_view pbn m k =
    (if bc_load (bm_bc m b) \<or> bc_dirty (bm_bc m b) then bc_buf (bm_bc m b) else bm_disk m (pbn k))"
  using hash_lookup_iff [OF assms(1), of k b] assms by (simp add: cache_view_def)

lemma cache_view_absent:
  assumes "str_inv m" "\<And>b. in_list m b \<Longrightarrow> bc_list_type (bm_bc m b) \<noteq> BUFFER_TYPE_UNUSED \<Longrightarrow> bc_bno (bm_bc m b) \<noteq> k"
  shows "cache_view pbn m k = bm_disk m (pbn k)"
proof -
  have "hash_lookup m k = None" using hash_lookup_iff [OF assms(1), of k] assms(2) by (metis not_Some_eq)
  then show ?thesis by (simp add: cache_view_def)
qed

text \<open>Two states agree on a key when the same buffer serves it with the same contents.\<close>

lemma cache_view_cong:
  assumes "str_inv m" "str_inv m'" "bm_disk m' (pbn k) = bm_disk m (pbn k)"
    "\<And>b. (in_list m b \<and> bc_list_type (bm_bc m b) \<noteq> BUFFER_TYPE_UNUSED \<and> bc_bno (bm_bc m b) = k) \<longleftrightarrow>
         (in_list m' b \<and> bc_list_type (bm_bc m' b) \<noteq> BUFFER_TYPE_UNUSED \<and> bc_bno (bm_bc m' b) = k)"
    "\<And>b. in_list m b \<Longrightarrow> bc_list_type (bm_bc m b) \<noteq> BUFFER_TYPE_UNUSED \<Longrightarrow> bc_bno (bm_bc m b) = k \<Longrightarrow> bc_load (bm_bc m' b) = bc_load (bm_bc m b)
       \<and> bc_dirty (bm_bc m' b) = bc_dirty (bm_bc m b) \<and> bc_buf (bm_bc m' b) = bc_buf (bm_bc m b)"
  shows "cache_view pbn m' k = cache_view pbn m k"
proof -
  have "hash_lookup m' k = hash_lookup m k"
    using hash_lookup_iff [OF assms(1), of k] hash_lookup_iff [OF assms(2), of k] assms(4)
    by (metis not_Some_eq)
  moreover have "in_list m b \<and> bc_list_type (bm_bc m b) \<noteq> BUFFER_TYPE_UNUSED \<and> bc_bno (bm_bc m b) = k"
    if "hash_lookup m k = Some b" for b
    using hash_lookup_iff [OF assms(1), of k b] that by blast
  ultimately show ?thesis unfolding cache_view_def using assms(3,5) by (auto split: option.splits)
qed

text \<open>What \<open>nvfuse_find_bc\<close> leaves behind: buffer \<open>b\<close> is referenced under the key, all
  other buffers are as before.\<close>

definition grabbed :: "nat \<Rightarrow> 'd buffer_cache \<Rightarrow> 'd buffer_manager \<Rightarrow> 'd buffer_manager \<Rightarrow> bool" where
  "grabbed b c m m' \<longleftrightarrow> str_inv m' \<and> in_list m b \<and> bm_bc m' = (bm_bc m)(b := c) \<and> bm_disk m' = bm_disk m
     \<and> (\<forall>x. x \<noteq> b \<longrightarrow> (x \<in> set (bm_list m' (bc_list_type (bm_bc m x))) \<longleftrightarrow> in_list m x))
     \<and> bc_list_type c = BUFFER_TYPE_REF \<and> bc_ref c = 1
     \<and> set (bm_list m' BUFFER_TYPE_REF) = insert b (set (bm_list m BUFFER_TYPE_REF))"

lemma grabbedD:
  assumes "grabbed b c m m'"
  shows "str_inv m'" "in_list m b" "bm_bc m' = (bm_bc m)(b := c)" "bm_disk m' = bm_disk m"
    "in_list m' x \<longleftrightarrow> in_list m x" "bc_list_type c = BUFFER_TYPE_REF" "bc_ref c = 1"
    "set (bm_list m' BUFFER_TYPE_REF) = insert b (set (bm_list m BUFFER_TYPE_REF))"
proof -
  show "in_list m' x \<longleftrightarrow> in_list m x" using assms by (cases "x = b") (auto simp: grabbed_def)
qed (use assms in \<open>simp_all add: grabbed_def\<close>)

lemma find_ref_spec:
  assumes "str_inv m" "in_list m b" "bc_list_type (bm_bc m b) \<noteq> BUFFER_TYPE_UNUSED" "bc_ref (bm_bc m b) = 0"
  shows "\<exists>m'. find_ref b m = Some (b, m') \<and> grabbed b ((bm_bc m b)\<lparr>bc_ref := 1, bc_list_type := BUFFER_TYPE_REF\<rparr>) m m'"
proof -
  define m1 where "m1 = upd_bc b (\<lambda>c. c\<lparr>bc_ref := bc_ref c + 1\<rparr>) m"
  have s1: "str_inv m1" unfolding m1_def by (rule str_inv_upd [OF assms(1)]) simp_all
  have b1: "bm_bc m1 = (bm_bc m)(b := (bm_bc m b)\<lparr>bc_ref := 1\<rparr>)" "bm_list m1 = bm_list m" "bm_disk m1 = bm_disk m"
    using assms(4) by (simp_all add: m1_def)
  have i1: "in_list m1 x \<longleftrightarrow> in_list m x" for x by (cases "x = b") (simp_all add: b1)
  have inc: "inc_bc_ref b m = Some m1" using assms(4) by (simp add: inc_bc_ref_def m1_def)
  show ?thesis
  proof (cases "bc_list_type (bm_bc m b) = BUFFER_TYPE_REF")
    case True
    then have "find_ref b m = Some (b, m1)" using inc by (simp add: find_ref_def b1)
    moreover have "(bm_bc m b)\<lparr>bc_ref := 1\<rparr> = (bm_bc m b)\<lparr>bc_ref := 1, bc_list_type := BUFFER_TYPE_REF\<rparr>" using True by simp
    ultimately show ?thesis using s1 assms(2) b1 True
      by (intro exI [of _ m1]) (auto simp: grabbed_def)
  next
    case False
    have i1b: "in_list m1 b" "BUFFER_TYPE_REF \<noteq> bc_list_type (bm_bc m1 b)" "bc_list_type (bm_bc m1 b) \<noteq> BUFFER_TYPE_UNUSED"
      using assms(2,3) False by (simp_all add: b1)
    define m2 where "m2 = move_buffer_list b BUFFER_TYPE_REF False m1"
    have "find_ref b m = Some (b, m2)" using inc False by (simp add: find_ref_def b1 m2_def)
    moreover note mv = move_lists [OF s1 i1b(1,2), of False, folded m2_def]
    have "x \<in> set (bm_list m2 (bc_list_type (bm_bc m x))) \<longleftrightarrow> in_list m x" if "x \<noteq> b" for x
      using that by (simp add: mv(1) b1)
    then have "grabbed b ((bm_bc m b)\<lparr>bc_ref := 1, bc_list_type := BUFFER_TYPE_REF\<rparr>) m m2"
      using move_str_inv [OF s1 i1b(1,3), of BUFFER_TYPE_REF False, folded m2_def] assms(2) b1 mv
      by (simp add: grabbed_def)
    ultimately show ?thesis by blast
  qed
qed

lemma find_bc_hit:
  assumes s: "str_inv m" and l: "hash_lookup m key = Some b" and lb: "bc_lbno key = lblock"
    and r: "bc_ref (bm_bc m b) = 0"
  shows "\<exists>m'. find_bc key lblock m = Some (b, m')
    \<and> grabbed b ((bm_bc m b)\<lparr>bc_ref := 1, bc_list_type := BUFFER_TYPE_REF\<rparr>) m m'"
proof -
  define m0 where "m0 = m\<lparr>bm_cache_ref := bm_cache_ref m + 1\<rparr>"
  have e0: "bm_bc m0 = bm_bc m" "bm_list m0 = bm_list m" "bm_disk m0 = bm_disk m" by (simp_all add: m0_def)
  have b: "in_list m b" "bc_list_type (bm_bc m b) \<noteq> BUFFER_TYPE_UNUSED" "bc_bno (bm_bc m b) = key"
    using hash_lookup_iff [OF s, of key b] l by blast+
  have s0: "str_inv m0" "in_list m0 b" using s b(1) by (simp_all add: m0_def)
  define m1 where "m1 = list_in b (bc_list_type (bm_bc m0 b)) False (list_out b m0)"
  note ro = reorder_str_inv [OF s0, folded m1_def]
  define m2 where "m2 = m1\<lparr>bm_cache_hit := bm_cache_hit m1 + 1\<rparr>"
  have e2: "bm_bc m2 = bm_bc m" "set (bm_list m2 t) = set (bm_list m t)" "bm_disk m2 = bm_disk m" "str_inv m2" for t
    using ro by (simp_all add: m2_def e0)
  have "find_hit b lblock m0 = Some (b, m2)" using lb b(3) by (simp add: find_hit_def Let_def m1_def m2_def e0)
  moreover have "hash_lookup m0 key = Some b" using l by (simp add: hash_lookup_def m0_def)
  ultimately have "find_bc key lblock m = find_ref b m2" by (simp add: find_bc_def m0_def [symmetric] Let_def del: add_Suc_right One_nat_def)
  moreover have "\<exists>m'. find_ref b m2 = Some (b, m') \<and> grabbed b ((bm_bc m2 b)\<lparr>bc_ref := 1, bc_list_type := BUFFER_TYPE_REF\<rparr>) m2 m'"
    by (rule find_ref_spec) (use b r e2 in simp_all)
  ultimately show ?thesis by (auto simp: grabbed_def e2)
qed

lemma replace_spec:
  assumes inv: "bc_inv pbn m" and av: "bm_list m BUFFER_TYPE_UNUSED \<noteq> [] \<or> bm_list m BUFFER_TYPE_CLEAN \<noteq> []"
  shows "\<exists>b. replace_buffer_cache m = Some (b, hash_out b (hash_slot (bm_bc m b)) (list_out b m))
    \<and> in_list m b \<and> bc_list_type (bm_bc m b) \<in> {BUFFER_TYPE_UNUSED, BUFFER_TYPE_CLEAN}"
proof -
  have s: "str_inv m" using inv by (simp add: bc_inv_def)
  define ty where "ty = (if bm_list m BUFFER_TYPE_UNUSED \<noteq> [] then BUFFER_TYPE_UNUSED else BUFFER_TYPE_CLEAN)"
  have ne: "bm_list m ty \<noteq> []" and tyc: "ty \<in> {BUFFER_TYPE_UNUSED, BUFFER_TYPE_CLEAN}" using av by (auto simp: ty_def)
  define b where "b = last (bm_list m ty)"
  have bin: "b \<in> set (bm_list m ty)" using ne by (simp add: b_def)
  have tb: "bc_list_type (bm_bc m b) = ty" using str_invD(3) [OF s bin] .
  have "bc_ref (bm_bc m b) = 0" using bc_inv_buf [OF inv, of b] bin tb tyc by auto
  moreover obtain xs where "rev (bm_list m ty) = b # xs" using ne unfolding b_def by (metis append_butlast_last_id rev_eq_Cons_iff rev_rev_ident)
  ultimately have f: "find (\<lambda>b. bc_ref (bm_bc m b) = 0) (rev (bm_list m ty)) = Some b" by simp
  have "replace_buffer_cache m = Some (b, hash_out b (hash_slot (bm_bc m b)) (list_out b m))"
    using f tb ne str_invD(1) [OF s] tyc
    by (auto simp: replace_buffer_cache_def ty_def hash_slot_def list_out_def Let_def split: if_splits)
  with bin tb tyc show ?thesis by auto
qed

lemma find_bc_miss:
  assumes inv: "bc_inv pbn m" and l: "hash_lookup m key = None"
    and av: "bm_list m BUFFER_TYPE_UNUSED \<noteq> [] \<or> bm_list m BUFFER_TYPE_CLEAN \<noteq> []"
  shows "\<exists>b m'. find_bc key lblock m = Some (b, m') \<and> bc_list_type (bm_bc m b) \<in> {BUFFER_TYPE_UNUSED, BUFFER_TYPE_CLEAN}
    \<and> grabbed b ((init_bc (bm_bc m b))\<lparr>bc_bno := key, bc_list_type := BUFFER_TYPE_REF, bc_ref := 1\<rparr>) m m'"
proof -
  define m0 where "m0 = m\<lparr>bm_cache_ref := bm_cache_ref m + 1\<rparr>"
  have e0: "bm_bc m0 = bm_bc m" "bm_list m0 = bm_list m" "bm_disk m0 = bm_disk m" by (simp_all add: m0_def)
  have inv0: "bc_inv pbn m0" "hash_lookup m0 key = None"
    using inv l by (simp_all add: bc_inv_def m0_def hash_lookup_def)
  have s0: "str_inv m0" using inv0(1) by (simp add: bc_inv_def)
  obtain b where r: "replace_buffer_cache m0 = Some (b, hash_out b (hash_slot (bm_bc m0 b)) (list_out b m0))"
    "in_list m0 b" "bc_list_type (bm_bc m0 b) \<in> {BUFFER_TYPE_UNUSED, BUFFER_TYPE_CLEAN}"
    using replace_spec [OF inv0(1)] av e0(2) by auto
  have nr: "bc_list_type (bm_bc m0 b) \<noteq> BUFFER_TYPE_REF" using r(3) by auto
  define m1 where "m1 = recycle b key m0"
  note rf = recycle_fields [OF s0 r(2) nr, of key, folded m1_def]
  note rs = recycle_str_inv [OF s0 r(2) nr inv0(2), folded m1_def]
  have "find_miss key m0 = Some (b, m1)" using r(1) by (simp add: find_miss_def m1_def recycle_def)
  then have "find_bc key lblock m = find_ref b m1"
    using inv0(2) by (simp add: find_bc_def m0_def [symmetric] Let_def del: add_Suc_right One_nat_def)
  moreover have "\<exists>m'. find_ref b m1 = Some (b, m') \<and> grabbed b ((bm_bc m1 b)\<lparr>bc_ref := 1, bc_list_type := BUFFER_TYPE_REF\<rparr>) m1 m'"
    by (rule find_ref_spec) (use rs r(2) in \<open>simp_all add: rf init_bc_def\<close>)
  then obtain m' where m': "find_ref b m1 = Some (b, m')"
    "grabbed b ((bm_bc m1 b)\<lparr>bc_ref := 1, bc_list_type := BUFFER_TYPE_REF\<rparr>) m1 m'" by blast
  have "(bm_bc m1 b)\<lparr>bc_ref := 1, bc_list_type := BUFFER_TYPE_REF\<rparr> =
      (init_bc (bm_bc m b))\<lparr>bc_bno := key, bc_list_type := BUFFER_TYPE_REF, bc_ref := 1\<rparr>" by (simp add: rf e0)
  with m'(2) have "grabbed b ((init_bc (bm_bc m b))\<lparr>bc_bno := key, bc_list_type := BUFFER_TYPE_REF, bc_ref := 1\<rparr>) m m'"
    using r(2) by (auto simp: grabbed_def rf e0)
  ultimately show ?thesis using m'(1) r(3) e0 by auto
qed

lemma grabbed_upd:
  assumes "grabbed b c m m'" "bc_list_type (f c) = BUFFER_TYPE_REF" "bc_ref (f c) = 1" "bc_bno (f c) = bc_bno c"
  shows "grabbed b (f c) m (upd_bc b f m')"
proof -
  have c: "bm_bc m' b = c" using assms(1) by (simp add: grabbed_def)
  then have "str_inv (upd_bc b f m')" using assms grabbedD(6) [OF assms(1)] by (intro str_inv_upd) (auto simp: grabbed_def)
  then show ?thesis using assms c by (simp add: grabbed_def)
qed

text \<open>A grabbed buffer whose contents are right keeps the invariant and the view.\<close>

lemma grabbed_inv:
  assumes inv: "bc_inv pbn m" and g: "grabbed b c m m'" and p: "bc_pno c = pbn (bc_bno c)" "bc_pno c \<noteq> 0"
    and free: "\<And>x. in_list m x \<Longrightarrow> bc_list_type (bm_bc m x) \<noteq> BUFFER_TYPE_UNUSED \<Longrightarrow> bc_bno (bm_bc m x) = bc_bno c \<Longrightarrow> x = b"
    and old: "bc_list_type (bm_bc m b) \<noteq> BUFFER_TYPE_UNUSED \<Longrightarrow> bc_bno (bm_bc m b) \<noteq> bc_bno c \<Longrightarrow>
      cache_view pbn m (bc_bno (bm_bc m b)) = bm_disk m (pbn (bc_bno (bm_bc m b)))"
    and new: "cache_view pbn m (bc_bno c) = (if bc_load c \<or> bc_dirty c then bc_buf c else bm_disk m (pbn (bc_bno c)))"
  shows "bc_inv pbn m'" "cache_view pbn m' k = cache_view pbn m k"
proof -
  have s: "str_inv m" "str_inv m'" using inv g by (auto simp: bc_inv_def grabbed_def)
  have f: "bm_bc m' = (bm_bc m)(b := c)" "bm_disk m' = bm_disk m" "\<And>x. in_list m' x \<longleftrightarrow> in_list m x" "in_list m b"
    "bc_list_type c = BUFFER_TYPE_REF" "bc_ref c = 1" using grabbedD [OF g] by blast+
  show "bc_inv pbn m'" unfolding bc_inv_def
  proof (intro conjI allI impI)
    fix x assume "in_list m' x"
    then have "in_list m x" using f(3) by blast
    then show "buf_ok pbn (bm_disk m') (bm_bc m' x)"
      using bc_inv_buf [OF inv, of x] p f(1,2,5,6) by (cases "x = b") auto
  qed (rule s(2))
  have inb: "in_list m' b" "bc_bno (bm_bc m' b) = bc_bno c" "bc_list_type (bm_bc m' b) \<noteq> BUFFER_TYPE_UNUSED"
    using f(3) [of b] f(4) by blast (simp_all add: f(1,5))
  show "cache_view pbn m' k = cache_view pbn m k"
  proof (cases "k = bc_bno c")
    case True
    with cache_view_eq [OF s(2) inb(1,3,2)] new f(1,2) show ?thesis by simp
  next
    case False
    show ?thesis
    proof (cases "bc_list_type (bm_bc m b) \<noteq> BUFFER_TYPE_UNUSED \<and> bc_bno (bm_bc m b) = k")
      case True
      then have "x = b" if "in_list m x" "bc_list_type (bm_bc m x) \<noteq> BUFFER_TYPE_UNUSED" "bc_bno (bm_bc m x) = k" for x
        using str_invD(7) [OF s(1) that(1) f(4)] that by auto
      then have "cache_view pbn m' k = bm_disk m' (pbn k)"
        using False f by (intro cache_view_absent [OF s(2)]) (metis fun_upd_apply)
      with old True False f(2) show ?thesis by simp
    next
      case other: False
      show ?thesis
      proof (rule cache_view_cong [OF s])
        fix x
        show "(in_list m x \<and> bc_list_type (bm_bc m x) \<noteq> BUFFER_TYPE_UNUSED \<and> bc_bno (bm_bc m x) = k) \<longleftrightarrow>
          (in_list m' x \<and> bc_list_type (bm_bc m' x) \<noteq> BUFFER_TYPE_UNUSED \<and> bc_bno (bm_bc m' x) = k)"
          unfolding f(3) using other False by (cases "x = b") (auto simp: f(1))
      qed (use other False f in \<open>auto simp: f(1)\<close>)
    qed
  qed
qed

section \<open>The operations a client uses\<close>

lemma finish_get:
  assumes inv: "bc_inv pbn m" and f: "find_bc (make_pbno_key ino lblock 0) lblock m = Some (b, m1)"
    and g: "grabbed b c m m1" "bc_bno c = make_pbno_key ino lblock 0"
    and pno: "bc_pno c = 0 \<or> bc_pno c = pbn (bc_bno c)" "pbn (bc_bno c) \<noteq> 0"
    and free: "\<And>x. in_list m x \<Longrightarrow> bc_list_type (bm_bc m x) \<noteq> BUFFER_TYPE_UNUSED \<Longrightarrow> bc_bno (bm_bc m x) = bc_bno c \<Longrightarrow> x = b"
    and old: "bc_list_type (bm_bc m b) \<noteq> BUFFER_TYPE_UNUSED \<Longrightarrow> bc_bno (bm_bc m b) \<noteq> bc_bno c \<Longrightarrow>
      cache_view pbn m (bc_bno (bm_bc m b)) = bm_disk m (pbn (bc_bno (bm_bc m b)))"
    and new: "cache_view pbn m (bc_bno c) = (if bc_load c then bc_buf c else bm_disk m (pbn (bc_bno c)))"
      "bc_dirty c \<Longrightarrow> bc_load c" "\<not> bc_dirty c \<and> bc_load c \<Longrightarrow> bc_buf c = bm_disk m (pbn (bc_bno c))"
  shows "\<exists>m' c'. get_bc pbn ino lblock rd m = Some (b, m') \<and> bc_inv pbn m' \<and> grabbed b c' m m'
    \<and> bc_bno c' = bc_bno c \<and> bc_dirty c' = bc_dirty c \<and> (\<not> bc_dirty c' \<and> bc_load c' \<longrightarrow> bc_buf c' = bm_disk m (bc_pno c'))
    \<and> (rd \<longrightarrow> bc_load c' \<and> bc_buf c' = cache_view pbn m (bc_bno c))
    \<and> (\<forall>k. cache_view pbn m' k = cache_view pbn m k)"
proof -
  define key where "key = make_pbno_key ino lblock 0"
  define c1 where "c1 = c\<lparr>bc_pno := pbn key\<rparr>"
  have p1: "bc_pno c1 = pbn (bc_bno c1)" "bc_pno c1 \<noteq> 0" using g(2) pno(2) by (simp_all add: c1_def key_def)
  define m2 where "m2 = (if bc_pno c = 0 then upd_bc b (\<lambda>c. c\<lparr>bc_pno := pbn key\<rparr>) m1 else m1)"
  have c: "bm_bc m1 b = c" "bm_disk m1 = bm_disk m" using grabbedD [OF g(1)] by simp_all
  have g2: "grabbed b c1 m m2"
  proof (cases "bc_pno c = 0")
    case True
    have "grabbed b ((\<lambda>c. c\<lparr>bc_pno := pbn key\<rparr>) c) m (upd_bc b (\<lambda>c. c\<lparr>bc_pno := pbn key\<rparr>) m1)"
      by (rule grabbed_upd [OF g(1)]) (use grabbedD [OF g(1)] in simp_all)
    with True show ?thesis by (simp add: m2_def c1_def)
  next
    case False
    then have "c1 = c" using pno(1) g(2) by (simp add: c1_def key_def)
    with False g(1) show ?thesis by (simp add: m2_def)
  qed
  define m3 where "m3 = (if rd \<and> \<not> bc_load c1
      then upd_bc b (\<lambda>c. c\<lparr>bc_buf := bm_disk m2 (bc_pno c), bc_load := True\<rparr>) m2 else m2)"
  define c3 where "c3 = (if rd \<and> \<not> bc_load c1 then c1\<lparr>bc_buf := bm_disk m (bc_pno c1), bc_load := True\<rparr> else c1)"
  have g3: "grabbed b c3 m m3"
    using grabbed_upd [OF g2, of "\<lambda>c. c\<lparr>bc_buf := bm_disk m2 (bc_pno c), bc_load := True\<rparr>"] g2 grabbedD(4,6,7) [OF g2]
    by (auto simp: m3_def c3_def)
  have c3: "bc_bno c3 = key" "bc_pno c3 = pbn key" "pbn key \<noteq> 0" "bc_ref c3 = 1"
    using g(2) p1 grabbedD(7) [OF g3] by (auto simp: c3_def c1_def key_def)
  have b3: "bm_bc m3 b = c3" "bm_bc m2 b = c1" using grabbedD(3) [OF g3] grabbedD(3) [OF g2] by simp_all
  have kf: "bc_ino key = ino" "bc_lbno key = lblock" unfolding key_def key_fields by simp_all
  have st: "get_pno pbn key b m1 = Some m2" "load_bc rd b m2 = m3"
    using c(1) b3(2) c3(3) by (simp_all add: get_pno_def load_bc_def m2_def m3_def)
  have run: "get_bc pbn ino lblock rd m = Some (b, m3)"
    unfolding get_bc_def Let_def key_def [symmetric] using f st c3(3) by (simp add: key_def [symmetric] b3(1) c3(1,2,4) kf)
  have v: "cache_view pbn m (bc_bno c3) = (if bc_load c3 \<or> bc_dirty c3 then bc_buf c3 else bm_disk m (pbn (bc_bno c3)))"
    using new g(2) by (auto simp: c3_def c1_def key_def)
  have bno: "bc_bno c3 = bc_bno c" using c3(1) g(2) by (simp add: key_def)
  have p3: "bc_pno c3 = pbn (bc_bno c3)" "bc_pno c3 \<noteq> 0" using c3 by simp_all
  note gi = grabbed_inv [OF inv g3 p3 _ _ v]
  have "bc_inv pbn m3" by (rule gi(1)) (use free old bno in auto)
  moreover have "cache_view pbn m3 k = cache_view pbn m k" for k by (rule gi(2)) (use free old bno in auto)
  moreover have "bc_dirty c3 = bc_dirty c" by (simp add: c3_def c1_def)
  moreover have "\<not> bc_dirty c3 \<and> bc_load c3 \<longrightarrow> bc_buf c3 = bm_disk m (bc_pno c3)"
    using new(3) g(2) by (auto simp: c3_def c1_def key_def)
  moreover have "rd \<longrightarrow> bc_load c3 \<and> bc_buf c3 = cache_view pbn m (bc_bno c)"
    using v bno by (auto simp: c3_def)
  ultimately show ?thesis using run g3 bno by blast
qed

text \<open>\<open>nvfuse_get_bc\<close> of a block nobody holds.\<close>

lemma get_bc_spec:
  assumes inv: "bc_inv pbn m" and pbn: "pbn (make_pbno_key ino lblock 0) \<noteq> 0"
    and ref: "bm_list m BUFFER_TYPE_REF = []"
    and av: "bm_list m BUFFER_TYPE_UNUSED \<noteq> [] \<or> bm_list m BUFFER_TYPE_CLEAN \<noteq> []"
  shows "\<exists>b m' c'. get_bc pbn ino lblock rd m = Some (b, m') \<and> bc_inv pbn m' \<and> grabbed b c' m m'
    \<and> bc_bno c' = make_pbno_key ino lblock 0
    \<and> (bc_dirty c' \<longrightarrow> bc_list_type (bm_bc m b) \<in> {BUFFER_TYPE_DIRTY, BUFFER_TYPE_FLUSHING})
    \<and> (\<not> bc_dirty c' \<and> bc_load c' \<longrightarrow> bc_buf c' = bm_disk m (bc_pno c'))
    \<and> (rd \<longrightarrow> bc_load c' \<and> bc_buf c' = cache_view pbn m (make_pbno_key ino lblock 0))
    \<and> (\<forall>k. cache_view pbn m' k = cache_view pbn m k)"
proof -
  define key where "key = make_pbno_key ino lblock 0"
  have s: "str_inv m" using inv by (simp add: bc_inv_def)
  show ?thesis
  proof (cases "hash_lookup m key")
    case (Some b)
    then have b: "in_list m b" "bc_list_type (bm_bc m b) \<noteq> BUFFER_TYPE_UNUSED" "bc_bno (bm_bc m b) = key"
      using hash_lookup_iff [OF s, of key b] by blast+
    have nr: "bc_list_type (bm_bc m b) \<noteq> BUFFER_TYPE_REF" using b(1) ref by auto
    have ok: "bc_ref (bm_bc m b) = 0" "bc_pno (bm_bc m b) = pbn key" "bc_dirty (bm_bc m b) \<longrightarrow> bc_load (bm_bc m b)"
      "\<not> bc_dirty (bm_bc m b) \<and> bc_load (bm_bc m b) \<longrightarrow> bc_buf (bm_bc m b) = bm_disk m (pbn key)"
      "bc_dirty (bm_bc m b) \<longrightarrow> bc_list_type (bm_bc m b) \<in> {BUFFER_TYPE_DIRTY, BUFFER_TYPE_FLUSHING}"
      using bc_inv_buf [OF inv b(1)] b(2,3) nr by (auto split: btype.splits)
    define c where "c = (bm_bc m b)\<lparr>bc_ref := 1, bc_list_type := BUFFER_TYPE_REF\<rparr>"
    have c: "bc_bno c = make_pbno_key ino lblock 0" "bc_pno c = 0 \<or> bc_pno c = pbn (bc_bno c)" "pbn (bc_bno c) \<noteq> 0"
      "bc_dirty c \<Longrightarrow> bc_load c" "\<not> bc_dirty c \<and> bc_load c \<Longrightarrow> bc_buf c = bm_disk m (pbn (bc_bno c))" "bc_bno (bm_bc m b) = bc_bno c"
      using ok b(3) pbn by (simp_all add: c_def key_def)
    obtain m1 where m1: "find_bc key lblock m = Some (b, m1)" "grabbed b c m m1"
      using find_bc_hit [OF s Some _ ok(1)] key_fields(1) unfolding key_def c_def by blast
    have v: "cache_view pbn m (bc_bno c) = (if bc_load c then bc_buf c else bm_disk m (pbn (bc_bno c)))"
      using cache_view_eq [OF s b(1,2) c(6)] ok(3) by (auto simp: c_def)
    have dt: "bc_dirty c \<longrightarrow> bc_list_type (bm_bc m b) \<in> {BUFFER_TYPE_DIRTY, BUFFER_TYPE_FLUSHING}" using ok(5) by (simp add: c_def)
    have fr: "x = b" if "in_list m x" "bc_list_type (bm_bc m x) \<noteq> BUFFER_TYPE_UNUSED" "bc_bno (bm_bc m x) = bc_bno c" for x
      using str_invD(7) [OF s that(1) b(1) that(2) b(2)] that(3) c(6) by simp
    have old: "cache_view pbn m (bc_bno (bm_bc m b)) = bm_disk m (pbn (bc_bno (bm_bc m b)))" if "bc_bno (bm_bc m b) \<noteq> bc_bno c"
      using that c(6) by contradiction
    show ?thesis using finish_get [OF inv m1 [unfolded key_def] c(1-3) fr old v c(4,5), of rd] dt unfolding c(1) by blast
  next
    case None
    obtain b m1 where m1: "find_bc key lblock m = Some (b, m1)"
      "bc_list_type (bm_bc m b) \<in> {BUFFER_TYPE_UNUSED, BUFFER_TYPE_CLEAN}"
      "grabbed b ((init_bc (bm_bc m b))\<lparr>bc_bno := key, bc_list_type := BUFFER_TYPE_REF, bc_ref := 1\<rparr>) m m1"
      using find_bc_miss [OF inv None av] by blast
    have no: "bc_bno (bm_bc m x) \<noteq> key" if "in_list m x" "bc_list_type (bm_bc m x) \<noteq> BUFFER_TYPE_UNUSED" for x
      using hash_lookup_iff [OF s, of key x] None that by simp
    have bin: "in_list m b" using grabbedD(2) [OF m1(3)] .
    have clean: "cache_view pbn m (bc_bno (bm_bc m b)) = bm_disk m (pbn (bc_bno (bm_bc m b)))"
      if "bc_list_type (bm_bc m b) \<noteq> BUFFER_TYPE_UNUSED"
      using cache_view_eq [OF s bin that refl] bc_inv_buf [OF inv bin] m1(2) that by auto
    define c where "c = (init_bc (bm_bc m b))\<lparr>bc_bno := key, bc_list_type := BUFFER_TYPE_REF, bc_ref := 1\<rparr>"
    have c: "bc_bno c = make_pbno_key ino lblock 0" "bc_pno c = 0 \<or> bc_pno c = pbn (bc_bno c)" "pbn (bc_bno c) \<noteq> 0"
      "bc_dirty c \<Longrightarrow> bc_load c" "\<not> bc_dirty c \<and> bc_load c \<Longrightarrow> bc_buf c = bm_disk m (pbn (bc_bno c))" "\<not> bc_load c"
      using pbn by (simp_all add: c_def key_def init_bc_def)
    have v: "cache_view pbn m (bc_bno c) = (if bc_load c then bc_buf c else bm_disk m (pbn (bc_bno c)))"
      using cache_view_absent [OF s no] c(1,6) by (simp add: key_def)
    have nd: "\<not> bc_dirty c" by (simp add: c_def init_bc_def)
    show ?thesis using finish_get [OF inv m1(1) [unfolded key_def] m1(3) [folded c_def] c(1-3) _ _ v c(4,5), of rd] clean nd
        no [unfolded key_def] unfolding c(1) by blast
  qed
qed

text \<open>A buffer in use changes its list and contents, under the same key.\<close>

lemma retype:
  assumes inv: "bc_inv pbn m" and b: "in_list m b" "bc_list_type (bm_bc m b) \<noteq> BUFFER_TYPE_UNUSED"
    and f: "bc_list_type (f (bm_bc m b)) = bc_list_type (bm_bc m b)" "bc_bno (f (bm_bc m b)) = bc_bno (bm_bc m b)"
    and ty: "ty \<noteq> BUFFER_TYPE_UNUSED" "ty \<noteq> bc_list_type (bm_bc m b)"
    and ok: "buf_ok pbn (bm_disk m) ((f (bm_bc m b))\<lparr>bc_list_type := ty\<rparr>)"
    and m'_def: "m' = move_buffer_list b ty tail (upd_bc b f m)"
  shows "bc_inv pbn m'" "in_list m' x \<longleftrightarrow> in_list m x" "bm_bc m' = (bm_bc m)(b := (f (bm_bc m b))\<lparr>bc_list_type := ty\<rparr>)"
    "bm_disk m' = bm_disk m"
    "cache_view pbn m' k = (if k = bc_bno (bm_bc m b) then
       (if bc_load (f (bm_bc m b)) \<or> bc_dirty (f (bm_bc m b)) then bc_buf (f (bm_bc m b)) else bm_disk m (pbn k))
       else cache_view pbn m k)"
proof -
  define m1 where "m1 = upd_bc b f m"
  have s: "str_inv m" using inv by (simp add: bc_inv_def)
  have s1: "str_inv m1" unfolding m1_def by (rule str_inv_upd) (use s f in simp_all)
  have e1: "bm_bc m1 = (bm_bc m)(b := f (bm_bc m b))" "bm_list m1 = bm_list m" "bm_disk m1 = bm_disk m"
    by (simp_all add: m1_def)
  have i1: "in_list m1 x \<longleftrightarrow> in_list m x" for x using f(1) by (cases "x = b") (simp_all add: e1)
  have b1: "in_list m1 b" "bc_list_type (bm_bc m1 b) \<noteq> BUFFER_TYPE_UNUSED" "ty \<noteq> bc_list_type (bm_bc m1 b)"
    using b ty i1 by (simp_all add: e1 f(1))
  have m': "m' = move_buffer_list b ty tail m1" by (simp add: m'_def m1_def)
  have s': "str_inv m'" unfolding m' by (rule move_str_inv [OF s1 b1(1,2) ty(1)])
  show il: "in_list m' x \<longleftrightarrow> in_list m x" for x unfolding m' move_in_list [OF s1 b1(1,3)] i1 ..
  show bc: "bm_bc m' = (bm_bc m)(b := (f (bm_bc m b))\<lparr>bc_list_type := ty\<rparr>)" and dk: "bm_disk m' = bm_disk m"
    unfolding m' using move_lists(2,3) [OF s1 b1(1,3)] by (simp_all add: e1)
  show "bc_inv pbn m'" unfolding bc_inv_def
  proof (intro conjI allI impI)
    fix x assume "in_list m' x"
    then have x: "in_list m x" using il by blast
    show "buf_ok pbn (bm_disk m') (bm_bc m' x)"
      using ok bc_inv_buf [OF inv x] unfolding bc dk by (cases "x = b") (simp_all del: buf_ok.simps)
  qed (rule s')
  show "cache_view pbn m' k = (if k = bc_bno (bm_bc m b) then
       (if bc_load (f (bm_bc m b)) \<or> bc_dirty (f (bm_bc m b)) then bc_buf (f (bm_bc m b)) else bm_disk m (pbn k))
       else cache_view pbn m k)"
  proof (cases "k = bc_bno (bm_bc m b)")
    case True
    have "in_list m' b" using il b(1) by blast
    then show ?thesis using cache_view_eq [OF s', of b k pbn] True ty(1) by (simp add: bc f(2) dk)
  next
    case False
    have "cache_view pbn m' k = cache_view pbn m k"
    proof (rule cache_view_cong [OF s s'])
      show "(in_list m x \<and> bc_list_type (bm_bc m x) \<noteq> BUFFER_TYPE_UNUSED \<and> bc_bno (bm_bc m x) = k) \<longleftrightarrow>
          (in_list m' x \<and> bc_list_type (bm_bc m' x) \<noteq> BUFFER_TYPE_UNUSED \<and> bc_bno (bm_bc m' x) = k)" for x
        unfolding il using False f(2) by (cases "x = b") (auto simp: bc)
    qed (use False f(2) in \<open>auto simp: dk bc\<close>)
    with False show ?thesis by simp
  qed
qed

text \<open>Release of a held buffer whose contents the client has set.\<close>

lemma release_bc_spec:
  assumes inv: "bc_inv pbn m" and g: "grabbed b c m0 m" and w: "\<not> dirty \<and> \<not> bc_dirty c \<Longrightarrow> \<not> bc_load c \<or> bc_buf c = bm_disk m (bc_pno c)"
  shows "\<exists>m'. release_bc b tail dirty m = Some m' \<and> bc_inv pbn m' \<and> bm_disk m' = bm_disk m
    \<and> (\<forall>x. in_list m' x \<longleftrightarrow> in_list m x)
    \<and> (\<forall>x. x \<noteq> b \<longrightarrow> bm_bc m' x = bm_bc m x)
    \<and> bc_list_type (bm_bc m' b) = (if dirty \<or> bc_dirty c then BUFFER_TYPE_DIRTY else BUFFER_TYPE_CLEAN)
    \<and> (\<forall>k. cache_view pbn m' k = (if k = bc_bno c \<and> dirty then bc_buf c else cache_view pbn m k))"
proof -
  define ty where "ty = (if dirty \<or> bc_dirty c then BUFFER_TYPE_DIRTY else BUFFER_TYPE_CLEAN)"
  define f :: "'a buffer_cache \<Rightarrow> 'a buffer_cache" where
    "f = (\<lambda>x. if dirty \<or> bc_dirty c then x\<lparr>bc_ref := bc_ref x - 1, bc_dirty := True, bc_load := True\<rparr>
              else x\<lparr>bc_ref := bc_ref x - 1, bc_dirty := False\<rparr>)"
  define m' where "m' = move_buffer_list b ty tail (upd_bc b f m)"
  have c: "bm_bc m b = c" "bc_list_type c = BUFFER_TYPE_REF" "bc_ref c = 1" and bin: "in_list m b"
    using grabbedD [OF g] by auto
  have s: "str_inv m" using inv by (simp add: bc_inv_def)
  have run: "release_bc b tail dirty m = Some m'"
    using c(1,3) by (simp add: release_bc_def dec_bc_ref_def m'_def f_def ty_def)
  have ok: "buf_ok pbn (bm_disk m) (bm_bc m b)" using bc_inv_buf [OF inv bin] .
  have "bc_list_type (bm_bc m b) \<noteq> BUFFER_TYPE_UNUSED" "bc_list_type (f (bm_bc m b)) = bc_list_type (bm_bc m b)"
    "bc_bno (f (bm_bc m b)) = bc_bno (bm_bc m b)" "ty \<noteq> BUFFER_TYPE_UNUSED" "ty \<noteq> bc_list_type (bm_bc m b)"
    using c by (simp_all add: f_def ty_def)
  moreover have "buf_ok pbn (bm_disk m) ((f (bm_bc m b))\<lparr>bc_list_type := ty\<rparr>)"
    using ok c w by (auto simp: f_def ty_def)
  note side = calculation this
  note rt = retype [where f = f, OF inv bin side m'_def]
  have "cache_view pbn m' k = (if k = bc_bno c \<and> dirty then bc_buf c else cache_view pbn m k)" for k
  proof (cases "k = bc_bno c")
    case True
    have "cache_view pbn m k = (if bc_load c \<or> bc_dirty c then bc_buf c else bm_disk m (pbn k))"
      using cache_view_eq [OF s bin side(1)] True c(1) by simp
    with True show ?thesis unfolding rt(5) c(1) by (simp add: f_def)
  next
    case False
    then show ?thesis unfolding rt(5) c(1) by simp
  qed
  moreover have "bm_bc m' x = bm_bc m x" if "x \<noteq> b" for x using rt(3) that by simp
  moreover have "bc_list_type (bm_bc m' b) = ty" using rt(3) by simp
  ultimately show ?thesis using run rt(1,2,4) by (auto simp: ty_def)
qed

text \<open>The steps of a flush.\<close>

definition pbn_inj :: "(u64 \<Rightarrow> nat) \<Rightarrow> bool" where
  "pbn_inj pbn \<longleftrightarrow> (\<forall>j k. pbn j = pbn k \<longrightarrow> pbn j \<noteq> 0 \<longrightarrow> j = k)"

text \<open>What every step of a flush keeps: the set of buffers, the keys and contents, and
  the view.\<close>

definition same_blocks :: "(u64 \<Rightarrow> nat) \<Rightarrow> 'd buffer_manager \<Rightarrow> 'd buffer_manager \<Rightarrow> bool" where
  "same_blocks pbn m m' \<longleftrightarrow> bc_inv pbn m' \<and> (\<forall>x. in_list m' x \<longleftrightarrow> in_list m x)
     \<and> (\<forall>x. bc_pno (bm_bc m' x) = bc_pno (bm_bc m x) \<and> bc_buf (bm_bc m' x) = bc_buf (bm_bc m x))
     \<and> (\<forall>k. cache_view pbn m' k = cache_view pbn m k)"

lemma same_blocks_trans: "same_blocks pbn m m' \<Longrightarrow> same_blocks pbn m' m'' \<Longrightarrow> same_blocks pbn m m''"
  by (simp add: same_blocks_def)

lemma collect_dirty_spec:
  assumes inv: "bc_inv pbn m" and b: "in_list m b" "bc_list_type (bm_bc m b) = BUFFER_TYPE_DIRTY"
  shows "\<exists>m'. collect_dirty b m = Some m' \<and> same_blocks pbn m m' \<and> bm_disk m' = bm_disk m
    \<and> (\<forall>x. bc_list_type (bm_bc m' x) = (if x = b then BUFFER_TYPE_FLUSHING else bc_list_type (bm_bc m x)))"
proof -
  let ?f = "\<lambda>c. c\<lparr>bc_flush := True\<rparr>"
  define m' where "m' = move_buffer_list b BUFFER_TYPE_FLUSHING False (upd_bc b ?f m)"
  have ok: "buf_ok pbn (bm_disk m) (bm_bc m b)" using bc_inv_buf [OF inv b(1)] .
  have s: "str_inv m" using inv by (simp add: bc_inv_def)
  have side: "bc_list_type (bm_bc m b) \<noteq> BUFFER_TYPE_UNUSED" "bc_list_type (?f (bm_bc m b)) = bc_list_type (bm_bc m b)"
    "bc_bno (?f (bm_bc m b)) = bc_bno (bm_bc m b)" "BUFFER_TYPE_FLUSHING \<noteq> BUFFER_TYPE_UNUSED"
    "BUFFER_TYPE_FLUSHING \<noteq> bc_list_type (bm_bc m b)"
    "buf_ok pbn (bm_disk m) ((?f (bm_bc m b))\<lparr>bc_list_type := BUFFER_TYPE_FLUSHING\<rparr>)"
    using b(2) ok by simp_all
  note rt = retype [where f = ?f, OF inv b(1) side m'_def]
  have "collect_dirty b m = Some m'" using ok b(2) by (simp add: collect_dirty_def m'_def)
  moreover have "cache_view pbn m' k = cache_view pbn m k" for k
    unfolding rt(5) using cache_view_eq [OF s b(1) side(1) refl, of pbn] by simp
  moreover have "bc_pno (bm_bc m' x) = bc_pno (bm_bc m x) \<and> bc_buf (bm_bc m' x) = bc_buf (bm_bc m x)
      \<and> bc_list_type (bm_bc m' x) = (if x = b then BUFFER_TYPE_FLUSHING else bc_list_type (bm_bc m x))" for x
    unfolding rt(3) by simp
  ultimately show ?thesis using rt(1,2,4) by (simp add: same_blocks_def)
qed

lemma clean_block_spec:
  assumes inv: "bc_inv pbn m" and b: "in_list m b" "bc_list_type (bm_bc m b) = BUFFER_TYPE_FLUSHING"
    and w: "bm_disk m (bc_pno (bm_bc m b)) = bc_buf (bm_bc m b)"
  shows "\<exists>m'. clean_block b m = Some m' \<and> same_blocks pbn m m' \<and> bm_disk m' = bm_disk m
    \<and> (\<forall>x. bc_list_type (bm_bc m' x) = (if x = b then BUFFER_TYPE_CLEAN else bc_list_type (bm_bc m x)))"
proof -
  let ?f = "\<lambda>c. c\<lparr>bc_dirty := False, bc_flush := False\<rparr>"
  define m' where "m' = move_buffer_list b BUFFER_TYPE_CLEAN False (upd_bc b ?f m)"
  have ok: "buf_ok pbn (bm_disk m) (bm_bc m b)" using bc_inv_buf [OF inv b(1)] .
  have s: "str_inv m" using inv by (simp add: bc_inv_def)
  have side: "bc_list_type (bm_bc m b) \<noteq> BUFFER_TYPE_UNUSED" "bc_list_type (?f (bm_bc m b)) = bc_list_type (bm_bc m b)"
    "bc_bno (?f (bm_bc m b)) = bc_bno (bm_bc m b)" "BUFFER_TYPE_CLEAN \<noteq> BUFFER_TYPE_UNUSED"
    "BUFFER_TYPE_CLEAN \<noteq> bc_list_type (bm_bc m b)"
    "buf_ok pbn (bm_disk m) ((?f (bm_bc m b))\<lparr>bc_list_type := BUFFER_TYPE_CLEAN\<rparr>)"
    using b(2) ok w by simp_all
  note rt = retype [where f = ?f, OF inv b(1) side m'_def]
  have "clean_block b m = Some m'" using ok b(2) by (simp add: clean_block_def m'_def)
  moreover have "cache_view pbn m' k = cache_view pbn m k" for k
    unfolding rt(5) using cache_view_eq [OF s b(1) side(1) refl, of pbn] ok b(2) by simp
  moreover have "bc_pno (bm_bc m' x) = bc_pno (bm_bc m x) \<and> bc_buf (bm_bc m' x) = bc_buf (bm_bc m x)
      \<and> bc_list_type (bm_bc m' x) = (if x = b then BUFFER_TYPE_CLEAN else bc_list_type (bm_bc m x))" for x
    unfolding rt(3) by simp
  ultimately show ?thesis using rt(1,2,4) by (simp add: same_blocks_def)
qed

lemma buf_ok_pno:
  assumes "bc_inv pbn m" "in_list m b" "bc_list_type (bm_bc m b) \<noteq> BUFFER_TYPE_UNUSED"
  shows "bc_pno (bm_bc m b) = pbn (bc_bno (bm_bc m b))" "bc_pno (bm_bc m b) \<noteq> 0"
  using bc_inv_buf [OF assms(1,2)] assms(3) by (auto split: btype.splits)

lemma pno_inj:
  assumes "bc_inv pbn m" "pbn_inj pbn" "in_list m b" "bc_list_type (bm_bc m b) \<noteq> BUFFER_TYPE_UNUSED"
    "in_list m c" "bc_list_type (bm_bc m c) \<noteq> BUFFER_TYPE_UNUSED" "bc_pno (bm_bc m b) = bc_pno (bm_bc m c)"
  shows "b = c"
proof -
  have "bc_bno (bm_bc m b) = bc_bno (bm_bc m c)"
    using buf_ok_pno [OF assms(1,3,4)] buf_ok_pno [OF assms(1,5,6)] assms(2,7) unfolding pbn_inj_def by metis
  moreover have "str_inv m" using assms(1) by (simp add: bc_inv_def)
  ultimately show ?thesis using str_invD(7) assms(3-6) by metis
qed

lemma sync_block_spec:
  assumes inv: "bc_inv pbn m" and inj: "pbn_inj pbn" and b: "in_list m b" "bc_list_type (bm_bc m b) = BUFFER_TYPE_FLUSHING"
  defines "m' \<equiv> m\<lparr>bm_disk := (bm_disk m)(bc_pno (bm_bc m b) := bc_buf (bm_bc m b))\<rparr>"
  shows "sync_block b m = Some m' \<and> same_blocks pbn m m' \<and> bm_bc m' = bm_bc m \<and> bm_list m' = bm_list m
    \<and> bm_disk m' (bc_pno (bm_bc m b)) = bc_buf (bm_bc m b)
    \<and> (\<forall>x. in_list m x \<longrightarrow> bc_list_type (bm_bc m x) = BUFFER_TYPE_FLUSHING \<longrightarrow> bm_disk m (bc_pno (bm_bc m x)) = bc_buf (bm_bc m x)
         \<longrightarrow> bm_disk m' (bc_pno (bm_bc m x)) = bc_buf (bm_bc m x))"
proof -
  have ok: "buf_ok pbn (bm_disk m) (bm_bc m b)" using bc_inv_buf [OF inv b(1)] .
  have s: "str_inv m" using inv by (simp add: bc_inv_def)
  have nu: "bc_list_type (bm_bc m b) \<noteq> BUFFER_TYPE_UNUSED" using b(2) by simp
  have e: "bm_bc m' = bm_bc m" "bm_list m' = bm_list m" "bm_hash m' = bm_hash m" by (simp_all add: m'_def)
  have other: "bm_disk m' (bc_pno (bm_bc m x)) = bm_disk m (bc_pno (bm_bc m x))"
    if "in_list m x" "bc_list_type (bm_bc m x) \<noteq> BUFFER_TYPE_UNUSED" "x \<noteq> b" for x
    using pno_inj [OF inv inj that(1,2) b(1) nu] that(3) by (auto simp: m'_def)
  have run: "sync_block b m = Some m'" using ok b(2) by (simp add: sync_block_def m'_def)
  have s': "str_inv m'" using s by (simp add: m'_def)
  have "bc_inv pbn m'" unfolding bc_inv_def
  proof (intro conjI allI impI)
    fix x assume x: "in_list m' x"
    then have x: "in_list m x" by (simp add: e)
    show "buf_ok pbn (bm_disk m') (bm_bc m' x)"
      using bc_inv_buf [OF inv x] other [OF x] b(2) unfolding e by (cases "x = b") (auto split: btype.splits)
  qed (rule s')
  moreover have "cache_view pbn m' k = cache_view pbn m k" for k
  proof (cases "k = bc_bno (bm_bc m b)")
    case True
    then show ?thesis using cache_view_eq [OF s b(1) nu] cache_view_eq [OF s', of b] b nu ok by (simp add: e)
  next
    case False
    then have "pbn k \<noteq> bc_pno (bm_bc m b)" using inj buf_ok_pno [OF inv b(1) nu] unfolding pbn_inj_def by metis
    then have "bm_disk m' (pbn k) = bm_disk m (pbn k)" by (simp add: m'_def)
    then show ?thesis by (simp add: cache_view_def hash_lookup_def e split: option.split)
  qed
  ultimately have "same_blocks pbn m m'" by (simp add: same_blocks_def e)
  moreover have "bm_disk m' (bc_pno (bm_bc m b)) = bc_buf (bm_bc m b)" by (simp add: m'_def)
  moreover have "bm_disk m' (bc_pno (bm_bc m x)) = bc_buf (bm_bc m x)" if "in_list m x"
    "bc_list_type (bm_bc m x) = BUFFER_TYPE_FLUSHING" "bm_disk m (bc_pno (bm_bc m x)) = bc_buf (bm_bc m x)" for x
    using other [OF that(1)] that(2,3) \<open>bm_disk m' (bc_pno (bm_bc m b)) = bc_buf (bm_bc m b)\<close> by (cases "x = b") simp_all
  ultimately show ?thesis using run e by blast
qed

text \<open>The three loops of a round.\<close>

lemma collect_loop:
  assumes "bc_inv pbn m" "distinct bs" "\<forall>b\<in>set bs. in_list m b \<and> bc_list_type (bm_bc m b) = BUFFER_TYPE_DIRTY"
  shows "\<exists>m'. for_each collect_dirty bs m = Some m' \<and> same_blocks pbn m m'
    \<and> (\<forall>x. bc_list_type (bm_bc m' x) = (if x \<in> set bs then BUFFER_TYPE_FLUSHING else bc_list_type (bm_bc m x)))"
  using assms
proof (induction bs arbitrary: m)
  case (Cons b bs)
  obtain m1 where m1: "collect_dirty b m = Some m1" "same_blocks pbn m m1"
    "\<And>x. bc_list_type (bm_bc m1 x) = (if x = b then BUFFER_TYPE_FLUSHING else bc_list_type (bm_bc m x))"
    using collect_dirty_spec [OF Cons.prems(1), of b] Cons.prems(3) by auto
  have il: "in_list m1 x \<longleftrightarrow> in_list m x" for x using m1(2) unfolding same_blocks_def by blast
  have "\<forall>x\<in>set bs. in_list m1 x \<and> bc_list_type (bm_bc m1 x) = BUFFER_TYPE_DIRTY"
    unfolding il using Cons.prems(2,3) by (auto simp: m1(3))
  moreover have "bc_inv pbn m1" "distinct bs" using m1(2) Cons.prems(2) by (simp_all add: same_blocks_def)
  ultimately obtain m' where m': "for_each collect_dirty bs m1 = Some m'" "same_blocks pbn m1 m'"
    "\<forall>x. bc_list_type (bm_bc m' x) = (if x \<in> set bs then BUFFER_TYPE_FLUSHING else bc_list_type (bm_bc m1 x))"
    using Cons.IH [of m1] by blast
  have "for_each collect_dirty (b # bs) m = Some m'" using m1(1) m'(1) by simp
  moreover have "bc_list_type (bm_bc m' x) = (if x \<in> set (b # bs) then BUFFER_TYPE_FLUSHING else bc_list_type (bm_bc m x))" for x
    using m'(3) m1(3) by simp
  ultimately show ?case using same_blocks_trans [OF m1(2) m'(2)] by blast
qed (simp add: same_blocks_def)

lemma clean_loop:
  assumes "bc_inv pbn m" "distinct bs" "\<forall>b\<in>set bs. in_list m b \<and> bc_list_type (bm_bc m b) = BUFFER_TYPE_FLUSHING
    \<and> bm_disk m (bc_pno (bm_bc m b)) = bc_buf (bm_bc m b)"
  shows "\<exists>m'. for_each clean_block bs m = Some m' \<and> same_blocks pbn m m'
    \<and> (\<forall>x. bc_list_type (bm_bc m' x) = (if x \<in> set bs then BUFFER_TYPE_CLEAN else bc_list_type (bm_bc m x)))"
  using assms
proof (induction bs arbitrary: m)
  case (Cons b bs)
  obtain m1 where m1: "clean_block b m = Some m1" "same_blocks pbn m m1"
    "\<And>x. bc_list_type (bm_bc m1 x) = (if x = b then BUFFER_TYPE_CLEAN else bc_list_type (bm_bc m x))" "bm_disk m1 = bm_disk m"
    using clean_block_spec [OF Cons.prems(1), of b] Cons.prems(3) by auto
  have il: "in_list m1 x \<longleftrightarrow> in_list m x" "bc_pno (bm_bc m1 x) = bc_pno (bm_bc m x)" "bc_buf (bm_bc m1 x) = bc_buf (bm_bc m x)" for x
    using m1(2) unfolding same_blocks_def by blast+
  have "\<forall>x\<in>set bs. in_list m1 x \<and> bc_list_type (bm_bc m1 x) = BUFFER_TYPE_FLUSHING \<and> bm_disk m1 (bc_pno (bm_bc m1 x)) = bc_buf (bm_bc m1 x)"
    unfolding il m1(4) using Cons.prems(2,3) by (auto simp: m1(3))
  moreover have "bc_inv pbn m1" "distinct bs" using m1(2) Cons.prems(2) by (simp_all add: same_blocks_def)
  ultimately obtain m' where m': "for_each clean_block bs m1 = Some m'" "same_blocks pbn m1 m'"
    "\<forall>x. bc_list_type (bm_bc m' x) = (if x \<in> set bs then BUFFER_TYPE_CLEAN else bc_list_type (bm_bc m1 x))"
    using Cons.IH [of m1] by blast
  have "for_each clean_block (b # bs) m = Some m'" using m1(1) m'(1) by simp
  moreover have "bc_list_type (bm_bc m' x) = (if x \<in> set (b # bs) then BUFFER_TYPE_CLEAN else bc_list_type (bm_bc m x))" for x
    using m'(3) m1(3) by simp
  ultimately show ?case using same_blocks_trans [OF m1(2) m'(2)] by blast
qed (simp add: same_blocks_def)

lemma sync_loop:
  assumes "bc_inv pbn m" "pbn_inj pbn" "\<forall>b\<in>set bs. in_list m b \<and> bc_list_type (bm_bc m b) = BUFFER_TYPE_FLUSHING"
  shows "\<exists>m'. for_each sync_block bs m = Some m' \<and> same_blocks pbn m m' \<and> bm_bc m' = bm_bc m \<and> bm_list m' = bm_list m
    \<and> (\<forall>b. in_list m b \<and> bc_list_type (bm_bc m b) = BUFFER_TYPE_FLUSHING
        \<and> (b \<in> set bs \<or> bm_disk m (bc_pno (bm_bc m b)) = bc_buf (bm_bc m b))
        \<longrightarrow> bm_disk m' (bc_pno (bm_bc m b)) = bc_buf (bm_bc m b))"
  using assms(1,3)
proof (induction bs arbitrary: m)
  case (Cons b bs)
  define m1 where "m1 = m\<lparr>bm_disk := (bm_disk m)(bc_pno (bm_bc m b) := bc_buf (bm_bc m b))\<rparr>"
  have "in_list m b" "bc_list_type (bm_bc m b) = BUFFER_TYPE_FLUSHING" using Cons.prems(2) by auto
  note m1 = sync_block_spec [OF Cons.prems(1) assms(2) this, folded m1_def]
  then have e: "bm_bc m1 = bm_bc m" "bm_list m1 = bm_list m" "bc_inv pbn m1" by (simp_all add: same_blocks_def)
  have "\<forall>b\<in>set bs. in_list m1 b \<and> bc_list_type (bm_bc m1 b) = BUFFER_TYPE_FLUSHING"
    unfolding e(1,2) using Cons.prems(2) by auto
  from Cons.IH [OF e(3) this, unfolded e(1,2)] obtain m' where m': "for_each sync_block bs m1 = Some m'" "same_blocks pbn m1 m'"
    "bm_bc m' = bm_bc m" "bm_list m' = bm_list m"
    "\<forall>b. in_list m b \<and> bc_list_type (bm_bc m b) = BUFFER_TYPE_FLUSHING
        \<and> (b \<in> set bs \<or> bm_disk m1 (bc_pno (bm_bc m b)) = bc_buf (bm_bc m b))
        \<longrightarrow> bm_disk m' (bc_pno (bm_bc m b)) = bc_buf (bm_bc m b)"
    by blast
  have "for_each sync_block (b # bs) m = Some m'" using m1 m'(1) by simp
  moreover have "same_blocks pbn m m'" using m1 m'(2) same_blocks_trans by blast
  moreover have "bm_disk m' (bc_pno (bm_bc m x)) = bc_buf (bm_bc m x)"
    if "in_list m x" "bc_list_type (bm_bc m x) = BUFFER_TYPE_FLUSHING"
      "x \<in> set (b # bs) \<or> bm_disk m (bc_pno (bm_bc m x)) = bc_buf (bm_bc m x)" for x
  proof -
    have "x \<in> set bs \<or> bm_disk m1 (bc_pno (bm_bc m x)) = bc_buf (bm_bc m x)" using that m1 by auto
    with that m'(5) show ?thesis by blast
  qed
  ultimately show ?case using m'(3,4) by blast
qed (simp add: same_blocks_def)

lemma list_mem:
  assumes "bc_inv pbn m"
  shows "x \<in> set (bm_list m ty) \<longleftrightarrow> in_list m x \<and> bc_list_type (bm_bc m x) = ty"
  using assms str_invD(3) [of m x ty] unfolding bc_inv_def by auto

lemma list_len:
  assumes "bc_inv pbn m"
  shows "length (bm_list m ty) = card {x. in_list m x \<and> bc_list_type (bm_bc m x) = ty}"
    "bm_list_count m ty = int (length (bm_list m ty))" "distinct (bm_list m ty)"
    "finite {x. in_list m x \<and> bc_list_type (bm_bc m x) = ty}"
proof -
  have s: "str_inv m" using assms by (simp add: bc_inv_def)
  have e: "{x. in_list m x \<and> bc_list_type (bm_bc m x) = ty} = set (bm_list m ty)"
    using list_mem [OF assms, of _ ty] by blast
  show "length (bm_list m ty) = card {x. in_list m x \<and> bc_list_type (bm_bc m x) = ty}"
    "finite {x. in_list m x \<and> bc_list_type (bm_bc m x) = ty}"
    unfolding e using str_invD(2) [OF s, of ty] by (simp_all add: distinct_card)
qed (use assms str_invD(1,2) in \<open>auto simp: bc_inv_def\<close>)

text \<open>The types of the buffers after some dirty buffers \<open>B\<close> were written back.\<close>

definition cleaned :: "(u64 \<Rightarrow> nat) \<Rightarrow> nat set \<Rightarrow> 'd buffer_manager \<Rightarrow> 'd buffer_manager \<Rightarrow> bool" where
  "cleaned pbn B m m' \<longleftrightarrow> same_blocks pbn m m'
     \<and> (\<forall>x. bc_list_type (bm_bc m' x) = (if x \<in> B then BUFFER_TYPE_CLEAN else bc_list_type (bm_bc m x)))"

lemma cleaned_trans: "cleaned pbn A m m' \<Longrightarrow> cleaned pbn B m' m'' \<Longrightarrow> cleaned pbn (A \<union> B) m m''"
  using same_blocks_trans by (auto simp: cleaned_def)

lemma cleaned_list:
  assumes "bc_inv pbn m" "cleaned pbn B m m'" "B \<subseteq> set (bm_list m BUFFER_TYPE_DIRTY)"
  shows "bc_inv pbn m'" "set (bm_list m' BUFFER_TYPE_DIRTY) = set (bm_list m BUFFER_TYPE_DIRTY) - B"
    "ty \<notin> {BUFFER_TYPE_DIRTY, BUFFER_TYPE_CLEAN} \<Longrightarrow> set (bm_list m' ty) = set (bm_list m ty)"
proof -
  show i: "bc_inv pbn m'" using assms(2) by (simp add: cleaned_def same_blocks_def)
  have B: "in_list m x" "x \<in> set (bm_list m ty) \<longleftrightarrow> ty = BUFFER_TYPE_DIRTY" if "x \<in> B" for x ty
    using list_mem [OF assms(1), of x BUFFER_TYPE_DIRTY] list_mem [OF assms(1), of x ty] assms(3) that by blast+
  have il: "in_list m' x \<longleftrightarrow> in_list m x" "bc_list_type (bm_bc m' x) = (if x \<in> B then BUFFER_TYPE_CLEAN else bc_list_type (bm_bc m x))" for x
    using assms(2) unfolding cleaned_def same_blocks_def by blast+
  have inB: "x \<in> set (bm_list m' ty) \<longleftrightarrow> ty = BUFFER_TYPE_CLEAN" if "x \<in> B" for x ty
    unfolding list_mem [OF i, of x ty] unfolding il(1) unfolding il(2) using that B(1) by auto
  have notB: "x \<in> set (bm_list m' ty) \<longleftrightarrow> x \<in> set (bm_list m ty)" if "x \<notin> B" for x ty
    unfolding list_mem [OF i, of x ty] list_mem [OF assms(1), of x ty] unfolding il(1) unfolding il(2) using that by simp
  show "set (bm_list m' BUFFER_TYPE_DIRTY) = set (bm_list m BUFFER_TYPE_DIRTY) - B"
    using inB [of _ BUFFER_TYPE_DIRTY] notB [of _ BUFFER_TYPE_DIRTY] by blast
  show "set (bm_list m' ty) = set (bm_list m ty)" if "ty \<notin> {BUFFER_TYPE_DIRTY, BUFFER_TYPE_CLEAN}"
    using inB [of _ ty] notB [of _ ty] B(2) [of _ ty] that by blast
qed

lemma flush_round_spec:
  assumes inv: "bc_inv pbn m" and inj: "pbn_inj pbn" and fl: "bm_list m BUFFER_TYPE_FLUSHING = []"
  defines "B \<equiv> set (take AIO_MAX_QDEPTH (bm_list m BUFFER_TYPE_DIRTY))"
  shows "\<exists>m'. flush_round m = Some m' \<and> cleaned pbn B m m'"
proof -
  let ?bs = "take AIO_MAX_QDEPTH (bm_list m BUFFER_TYPE_DIRTY)"
  have bs: "\<forall>b\<in>set ?bs. in_list m b \<and> bc_list_type (bm_bc m b) = BUFFER_TYPE_DIRTY"
    using list_mem [OF inv, of _ BUFFER_TYPE_DIRTY] by (meson in_set_takeD)
  obtain m1 where m1: "for_each collect_dirty ?bs m = Some m1" "same_blocks pbn m m1"
    "\<And>x. bc_list_type (bm_bc m1 x) = (if x \<in> B then BUFFER_TYPE_FLUSHING else bc_list_type (bm_bc m x))"
    using collect_loop [OF inv distinct_take [OF list_len(3) [OF inv]] bs] B_def by blast
  have i1: "bc_inv pbn m1" "\<And>x. in_list m1 x \<longleftrightarrow> in_list m x" using m1(2) by (auto simp: same_blocks_def)
  have nf: "\<not> (in_list m x \<and> bc_list_type (bm_bc m x) = BUFFER_TYPE_FLUSHING)" for x
    using list_mem [OF inv, of x BUFFER_TYPE_FLUSHING] fl by simp
  have fl1: "x \<in> set (bm_list m1 BUFFER_TYPE_FLUSHING) \<longleftrightarrow> x \<in> B" for x
    unfolding list_mem [OF i1(1), of x BUFFER_TYPE_FLUSHING] unfolding i1(2) unfolding m1(3) using nf [of x] bs B_def by (cases "x \<in> B") auto
  have f1: "\<forall>b\<in>set (bm_list m1 BUFFER_TYPE_FLUSHING). in_list m1 b \<and> bc_list_type (bm_bc m1 b) = BUFFER_TYPE_FLUSHING"
    using list_mem [OF i1(1), of _ BUFFER_TYPE_FLUSHING] by blast
  obtain m2 where m2: "for_each sync_block (bm_list m1 BUFFER_TYPE_FLUSHING) m1 = Some m2" "same_blocks pbn m1 m2"
    "bm_bc m2 = bm_bc m1" "bm_list m2 = bm_list m1"
    "\<forall>b\<in>set (bm_list m1 BUFFER_TYPE_FLUSHING). bm_disk m2 (bc_pno (bm_bc m1 b)) = bc_buf (bm_bc m1 b)"
    using sync_loop [OF i1(1) inj f1] f1 by blast
  have i2: "bc_inv pbn m2" using m2(2) by (simp add: same_blocks_def)
  have f2: "\<forall>b\<in>set (bm_list m2 BUFFER_TYPE_FLUSHING). in_list m2 b \<and> bc_list_type (bm_bc m2 b) = BUFFER_TYPE_FLUSHING
      \<and> bm_disk m2 (bc_pno (bm_bc m2 b)) = bc_buf (bm_bc m2 b)"
    unfolding m2(3,4) using f1 m2(5) by blast
  obtain m3 where m3: "for_each clean_block (bm_list m2 BUFFER_TYPE_FLUSHING) m2 = Some m3" "same_blocks pbn m2 m3"
    "\<And>x. bc_list_type (bm_bc m3 x) = (if x \<in> set (bm_list m2 BUFFER_TYPE_FLUSHING) then BUFFER_TYPE_CLEAN else bc_list_type (bm_bc m2 x))"
    using clean_loop [OF i2 list_len(3) [OF i2] f2] by blast
  have "flush_round m = Some m3" using m1(1) m2(1) m3(1) by (simp add: flush_round_def)
  moreover have "bc_list_type (bm_bc m3 x) = (if x \<in> B then BUFFER_TYPE_CLEAN else bc_list_type (bm_bc m x))" for x
    unfolding m3(3) m2(3,4) fl1 m1(3) by simp
  ultimately show ?thesis using m1(2) m2(2) m3(2) same_blocks_trans unfolding cleaned_def by blast
qed

lemma flush_loop_spec:
  assumes "bc_inv pbn m" "pbn_inj pbn" "bm_list m BUFFER_TYPE_FLUSHING = []" "length (bm_list m BUFFER_TYPE_DIRTY) \<le> fuel"
  shows "\<exists>m'. flush_loop fuel m = Some m' \<and> cleaned pbn (set (bm_list m BUFFER_TYPE_DIRTY)) m m'"
  using assms(1,3,4)
proof (induction fuel arbitrary: m)
  case 0
  then show ?case using list_len(2) [OF 0(1), of BUFFER_TYPE_DIRTY] by (simp add: cleaned_def same_blocks_def)
next
  case (Suc fuel)
  let ?D = "bm_list m BUFFER_TYPE_DIRTY"
  show ?case
  proof (cases "?D = []")
    case True
    then show ?thesis using list_len(2) [OF Suc.prems(1), of BUFFER_TYPE_DIRTY] Suc.prems(1) by (simp add: cleaned_def same_blocks_def)
  next
    case False
    define B where "B = set (take AIO_MAX_QDEPTH ?D)"
    obtain m1 where m1: "flush_round m = Some m1" "cleaned pbn B m m1"
      using flush_round_spec [OF Suc.prems(1) assms(2) Suc.prems(2)] B_def by blast
    have Bs: "B \<subseteq> set ?D" "B \<noteq> {}" using False by (auto simp: B_def AIO_MAX_QDEPTH_def dest: in_set_takeD)
    note cl = cleaned_list [OF Suc.prems(1) m1(2) Bs(1)]
    have fl: "bm_list m1 BUFFER_TYPE_FLUSHING = []" using cl(3) [of BUFFER_TYPE_FLUSHING] Suc.prems(2) by simp
    have "length (bm_list m1 BUFFER_TYPE_DIRTY) = card (set ?D - B)"
      using distinct_card [OF list_len(3) [OF cl(1), of BUFFER_TYPE_DIRTY]] cl(2) by simp
    also have "\<dots> < card (set ?D)" using Bs by (intro psubset_card_mono) auto
    also have "\<dots> = length ?D" using distinct_card [OF list_len(3) [OF Suc.prems(1), of BUFFER_TYPE_DIRTY]] .
    finally have "length (bm_list m1 BUFFER_TYPE_DIRTY) \<le> fuel" using Suc.prems(3) by simp
    from Suc.IH [OF cl(1) fl this] obtain m' where m': "flush_loop fuel m1 = Some m'"
      "cleaned pbn (set (bm_list m1 BUFFER_TYPE_DIRTY)) m1 m'" by blast
    have "B \<union> set (bm_list m1 BUFFER_TYPE_DIRTY) = set ?D" using cl(2) Bs(1) by auto
    with cleaned_trans [OF m1(2) m'(2)] have "cleaned pbn (set ?D) m m'" by simp
    moreover have "bm_list_count m BUFFER_TYPE_DIRTY \<noteq> 0" using list_len(2) [OF Suc.prems(1), of BUFFER_TYPE_DIRTY] False by simp
    ultimately show ?thesis using m1(1) m'(1) by auto
  qed
qed

text \<open>Invariant of the cache between two operations of a client: nothing is held and
  no flush is under way.\<close>

definition idle :: "(u64 \<Rightarrow> nat) \<Rightarrow> 'd buffer_manager \<Rightarrow> bool" where
  "idle pbn m \<longleftrightarrow> bc_inv pbn m \<and> bm_list m BUFFER_TYPE_REF = [] \<and> bm_list m BUFFER_TYPE_FLUSHING = []"

lemma flush_spec:
  assumes "idle pbn m" "pbn_inj pbn"
  shows "\<exists>m'. flush_dirty_data m = Some m' \<and> idle pbn m' \<and> bm_list m' BUFFER_TYPE_DIRTY = []
    \<and> (\<forall>x. in_list m' x \<longleftrightarrow> in_list m x) \<and> (\<forall>k. cache_view pbn m' k = cache_view pbn m k)
    \<and> (\<forall>k. bm_disk m' (pbn k) = cache_view pbn m k)"
proof -
  have m: "bc_inv pbn m" "bm_list m BUFFER_TYPE_REF = []" "bm_list m BUFFER_TYPE_FLUSHING = []" using assms(1) by (simp_all add: idle_def)
  obtain m' where m': "flush_dirty_data m = Some m'" "cleaned pbn (set (bm_list m BUFFER_TYPE_DIRTY)) m m'"
    using flush_loop_spec [OF m(1) assms(2) m(3) order_refl] by (auto simp: flush_dirty_data_def)
  note cl = cleaned_list [OF m(1) m'(2) order_refl]
  have e: "bm_list m' BUFFER_TYPE_REF = []" "bm_list m' BUFFER_TYPE_FLUSHING = []" "bm_list m' BUFFER_TYPE_DIRTY = []"
    using cl(2) cl(3) [of BUFFER_TYPE_REF] cl(3) [of BUFFER_TYPE_FLUSHING] m by simp_all
  have s: "\<forall>x. in_list m' x \<longleftrightarrow> in_list m x" "\<And>k. cache_view pbn m' k = cache_view pbn m k"
    using m'(2) unfolding cleaned_def same_blocks_def by blast+
  have "bm_disk m' (pbn k) = cache_view pbn m' k" for k
  proof (cases "hash_lookup m' k")
    case (Some b)
    have "str_inv m'" using cl(1) by (simp add: bc_inv_def)
    then have b: "in_list m' b" "bc_list_type (bm_bc m' b) \<noteq> BUFFER_TYPE_UNUSED" "bc_bno (bm_bc m' b) = k"
      using hash_lookup_iff Some by blast+
    have "bc_list_type (bm_bc m' b) = BUFFER_TYPE_CLEAN"
      using b(1,2) e by (cases "bc_list_type (bm_bc m' b)") auto
    then show ?thesis using bc_inv_buf [OF cl(1) b(1)] b(3) Some by (simp add: cache_view_def)
  qed (simp add: cache_view_def)
  with m'(1) cl(1) e s show ?thesis by (simp add: idle_def)
qed

section \<open>A block store\<close>

text \<open>What a client of a block store relies on: reads return the contents, writes
  replace those of one block, and neither fails on a mapped block.\<close>

datatype ('k, 'd) block_op = Rd 'k | Wr 'k 'd

fun op_key :: "('k, 'd) block_op \<Rightarrow> 'k" where
  "op_key (Rd k) = k"
| "op_key (Wr k d) = k"

fun run_ops :: "('k \<Rightarrow> 's \<Rightarrow> ('d \<times> 's) option) \<Rightarrow> ('k \<Rightarrow> 'd \<Rightarrow> 's \<Rightarrow> 's option)
    \<Rightarrow> ('k, 'd) block_op list \<Rightarrow> 's \<Rightarrow> ('d list \<times> 's) option" where
  "run_ops rd wr [] s = Some ([], s)"
| "run_ops rd wr (Rd k # ops) s = do {
     (d, s1) \<leftarrow> rd k s; (ds, s2) \<leftarrow> run_ops rd wr ops s1; Some (d # ds, s2) }"
| "run_ops rd wr (Wr k d # ops) s = do { s1 \<leftarrow> wr k d s; run_ops rd wr ops s1 }"

fun plain_ops :: "('k, 'd) block_op list \<Rightarrow> ('k \<Rightarrow> 'd) \<Rightarrow> 'd list \<times> ('k \<Rightarrow> 'd)" where
  "plain_ops [] st = ([], st)"
| "plain_ops (Rd k # ops) st = (let (ds, st') = plain_ops ops st in (st k # ds, st'))"
| "plain_ops (Wr k d # ops) st = plain_ops ops (st(k := d))"

locale block_store =
  fixes ok :: "'s \<Rightarrow> bool" and valid :: "'k \<Rightarrow> bool" and view :: "'s \<Rightarrow> 'k \<Rightarrow> 'd"
    and rd :: "'k \<Rightarrow> 's \<Rightarrow> ('d \<times> 's) option" and wr :: "'k \<Rightarrow> 'd \<Rightarrow> 's \<Rightarrow> 's option"
  assumes rd_law: "ok s \<Longrightarrow> valid k \<Longrightarrow> \<exists>s'. rd k s = Some (view s k, s') \<and> ok s' \<and> view s' = view s"
    and wr_law: "ok s \<Longrightarrow> valid k \<Longrightarrow> \<exists>s'. wr k d s = Some s' \<and> ok s' \<and> view s' = (view s)(k := d)"
begin

lemma run_refines:
  assumes "ok s" "\<forall>q\<in>set ops. valid (op_key q)"
  shows "\<exists>s'. run_ops rd wr ops s = Some (fst (plain_ops ops (view s)), s') \<and> ok s'
    \<and> view s' = snd (plain_ops ops (view s))"
  using assms
proof (induction ops arbitrary: s)
  case (Cons q ops)
  show ?case
  proof (cases q)
    case (Rd k)
    obtain s1 where s1: "rd k s = Some (view s k, s1)" "ok s1" "view s1 = view s"
      using rd_law [OF Cons.prems(1), of k] Cons.prems(2) Rd by auto
    then show ?thesis using Cons.IH [OF s1(2)] Cons.prems(2) Rd by (auto simp: split_beta)
  next
    case (Wr k d)
    obtain s1 where s1: "wr k d s = Some s1" "ok s1" "view s1 = (view s)(k := d)"
      using wr_law [OF Cons.prems(1), of k d] Cons.prems(2) Wr by auto
    from Cons.IH [OF s1(2), unfolded s1(3)] Cons.prems(2) Wr s1(1) show ?thesis by (simp del: fun_upd_apply)
  qed
qed simp

lemma read_after_write:
  assumes "ok s" "valid k"
  shows "\<exists>s1 s2. wr k d s = Some s1 \<and> rd k s1 = Some (d, s2) \<and> ok s2"
  using wr_law [OF assms, of d] rd_law [OF _ assms(2)] by (metis fun_upd_same)

end

text \<open>The cache with at least \<open>NVFUSE_SYNC_DIRTY_COUNT\<close> buffers, fewer of them dirty.\<close>

definition cache_ok :: "(u64 \<Rightarrow> nat) \<Rightarrow> 'd buffer_manager \<Rightarrow> bool" where
  "cache_ok pbn m \<longleftrightarrow> pbn_inj pbn \<and> idle pbn m \<and> int (length (bm_list m BUFFER_TYPE_DIRTY)) < NVFUSE_SYNC_DIRTY_COUNT
     \<and> NVFUSE_SYNC_DIRTY_COUNT \<le> int (card {x. in_list m x})"

definition block_view :: "(u64 \<Rightarrow> nat) \<Rightarrow> 'd buffer_manager \<Rightarrow> u32 \<times> u32 \<Rightarrow> 'd" where
  "block_view pbn m k = cache_view pbn m (make_pbno_key (fst k) (snd k) 0)"

definition mapped :: "(u64 \<Rightarrow> nat) \<Rightarrow> u32 \<times> u32 \<Rightarrow> bool" where
  "mapped pbn k \<longleftrightarrow> pbn (make_pbno_key (fst k) (snd k) 0) \<noteq> 0"

lemma key_inj: "make_pbno_key i l 0 = make_pbno_key i' l' 0 \<longleftrightarrow> i = i' \<and> l = l'"
  by (metis key_fields or.left_neutral push_bit_of_0)

lemma cache_ok_free:
  assumes "cache_ok pbn m"
  shows "bm_list m BUFFER_TYPE_UNUSED \<noteq> [] \<or> bm_list m BUFFER_TYPE_CLEAN \<noteq> []"
proof (rule ccontr)
  assume n: "\<not> ?thesis"
  have i: "bc_inv pbn m" using assms by (simp add: cache_ok_def idle_def)
  have "x \<in> set (bm_list m BUFFER_TYPE_DIRTY)" if "in_list m x" for x
    using that n assms by (cases "bc_list_type (bm_bc m x)") (auto simp: cache_ok_def idle_def)
  then have "{x. in_list m x} \<subseteq> set (bm_list m BUFFER_TYPE_DIRTY)" by blast
  then have "card {x. in_list m x} \<le> card (set (bm_list m BUFFER_TYPE_DIRTY))" by (intro card_mono) auto
  also have "\<dots> = length (bm_list m BUFFER_TYPE_DIRTY)" using distinct_card [OF list_len(3) [OF i]] .
  finally show False using assms by (simp add: cache_ok_def)
qed

text \<open>After the release of the only held buffer nothing is held.\<close>

lemma release_idle:
  assumes i: "idle pbn m" and g: "grabbed b c m m1" and i1: "bc_inv pbn m1" and i2: "bc_inv pbn m2"
    and il: "\<forall>x. in_list m2 x \<longleftrightarrow> in_list m1 x" and o: "\<forall>x. x \<noteq> b \<longrightarrow> bm_bc m2 x = bm_bc m1 x"
    and b: "bc_list_type (bm_bc m2 b) \<in> {BUFFER_TYPE_DIRTY, BUFFER_TYPE_CLEAN}"
  shows "idle pbn m2" "in_list m2 x \<longleftrightarrow> in_list m x"
    "set (bm_list m2 BUFFER_TYPE_DIRTY) \<subseteq> insert b (set (bm_list m BUFFER_TYPE_DIRTY))"
    "b \<in> set (bm_list m2 BUFFER_TYPE_DIRTY) \<Longrightarrow> bc_list_type (bm_bc m2 b) = BUFFER_TYPE_DIRTY"
proof -
  have im: "bc_inv pbn m" using i by (simp add: idle_def)
  show ilm: "in_list m2 x \<longleftrightarrow> in_list m x" for x using il grabbedD(5) [OF g, of x] by blast
  have ty: "bc_list_type (bm_bc m2 x) = bc_list_type (bm_bc m x)" if "x \<noteq> b" for x
    using o grabbedD(3) [OF g] that by simp
  have mem: "x \<in> set (bm_list m2 ty) \<longleftrightarrow> x \<in> set (bm_list m ty)" if "x \<noteq> b" for x ty
    unfolding list_mem [OF i2, of x ty] list_mem [OF im, of x ty] unfolding ilm unfolding ty [OF that] ..
  have memb: "b \<in> set (bm_list m2 ty) \<Longrightarrow> bc_list_type (bm_bc m2 b) = ty" for ty using list_mem [OF i2, of b ty] by blast
  have none: "x \<notin> set (bm_list m2 ty)" if "ty \<in> {BUFFER_TYPE_REF, BUFFER_TYPE_FLUSHING}" for x ty
    using mem [of x ty] memb [of ty] b i that by (cases "x = b") (auto simp: idle_def)
  have "bm_list m2 ty = []" if "ty \<in> {BUFFER_TYPE_REF, BUFFER_TYPE_FLUSHING}" for ty
    using none [OF that] by (cases "bm_list m2 ty") auto
  then show "idle pbn m2" using i2 by (simp add: idle_def)
  show "set (bm_list m2 BUFFER_TYPE_DIRTY) \<subseteq> insert b (set (bm_list m BUFFER_TYPE_DIRTY))" using mem by blast
  show "b \<in> set (bm_list m2 BUFFER_TYPE_DIRTY) \<Longrightarrow> bc_list_type (bm_bc m2 b) = BUFFER_TYPE_DIRTY" by (rule memb)
qed

lemma cache_okI:
  assumes "cache_ok pbn m" "idle pbn m'" "\<And>x. in_list m' x \<longleftrightarrow> in_list m x"
    "set (bm_list m' BUFFER_TYPE_DIRTY) \<subseteq> set (bm_list m BUFFER_TYPE_DIRTY)"
  shows "cache_ok pbn m'"
proof -
  have i: "bc_inv pbn m" "bc_inv pbn m'" using assms(1,2) by (simp_all add: cache_ok_def idle_def)
  have "card (set (bm_list m' BUFFER_TYPE_DIRTY)) \<le> card (set (bm_list m BUFFER_TYPE_DIRTY))"
    using assms(4) by (intro card_mono) auto
  then have "length (bm_list m' BUFFER_TYPE_DIRTY) \<le> length (bm_list m BUFFER_TYPE_DIRTY)"
    using distinct_card [OF list_len(3) [OF i(1)]] distinct_card [OF list_len(3) [OF i(2)]] by metis
  moreover have "{x. in_list m' x} = {x. in_list m x}" using assms(3) by blast
  ultimately show ?thesis using assms(1,2) unfolding cache_ok_def by simp
qed

lemma read_block_law:
  assumes "cache_ok pbn m" "mapped pbn k"
  shows "\<exists>m'. read_block pbn k m = Some (block_view pbn m k, m') \<and> cache_ok pbn m' \<and> block_view pbn m' = block_view pbn m"
proof -
  have i: "idle pbn m" "bc_inv pbn m" "bm_list m BUFFER_TYPE_REF = []" "bm_list m BUFFER_TYPE_FLUSHING = []"
    using assms(1) by (simp_all add: cache_ok_def idle_def)
  obtain b m1 c where m1: "get_bc pbn (fst k) (snd k) True m = Some (b, m1)" "bc_inv pbn m1" "grabbed b c m m1"
    "\<not> bc_dirty c \<and> bc_load c \<longrightarrow> bc_buf c = bm_disk m (bc_pno c)"
    "bc_buf c = cache_view pbn m (make_pbno_key (fst k) (snd k) 0)" "\<forall>j. cache_view pbn m1 j = cache_view pbn m j"
    "bc_dirty c \<longrightarrow> bc_list_type (bm_bc m b) \<in> {BUFFER_TYPE_DIRTY, BUFFER_TYPE_FLUSHING}"
    using get_bc_spec [OF i(2) assms(2) [unfolded mapped_def] i(3) cache_ok_free [OF assms(1)], of True] by blast
  have d: "bm_disk m1 = bm_disk m" "bm_bc m1 b = c" "in_list m b" using grabbedD(2,3,4) [OF m1(3)] by simp_all
  have "\<not> False \<and> \<not> bc_dirty c \<Longrightarrow> \<not> bc_load c \<or> bc_buf c = bm_disk m1 (bc_pno c)" using m1(4) d(1) by auto
  from release_bc_spec [where tail = False and dirty = False, OF m1(2,3) this] obtain m2 where m2: "release_bc b False False m1 = Some m2" "bc_inv pbn m2"
    "\<forall>x. in_list m2 x \<longleftrightarrow> in_list m1 x" "\<forall>x. x \<noteq> b \<longrightarrow> bm_bc m2 x = bm_bc m1 x"
    "bc_list_type (bm_bc m2 b) = (if bc_dirty c then BUFFER_TYPE_DIRTY else BUFFER_TYPE_CLEAN)"
    "\<forall>j. cache_view pbn m2 j = cache_view pbn m1 j"
    by auto
  have "bc_list_type (bm_bc m2 b) \<in> {BUFFER_TYPE_DIRTY, BUFFER_TYPE_CLEAN}" using m2(5) by simp
  note ri = release_idle [OF i(1) m1(3,2) m2(2-4) this]
  have "b \<in> set (bm_list m BUFFER_TYPE_DIRTY)" if "b \<in> set (bm_list m2 BUFFER_TYPE_DIRTY)"
    using ri(4) [OF that] m2(5) m1(7) d(3) i(4) by (auto split: if_splits)
  then have "cache_ok pbn m2" using ri(3) by (intro cache_okI [OF assms(1) ri(1,2)]) auto
  moreover have "block_view pbn m2 = block_view pbn m" using m2(6) m1(6) by (simp add: block_view_def fun_eq_iff)
  moreover have "read_block pbn k m = Some (block_view pbn m k, m2)"
    using m1(1,5) m2(1) d(2) by (simp add: read_block_def block_view_def)
  ultimately show ?thesis by blast
qed

lemma write_block_law:
  assumes "cache_ok pbn m" "mapped pbn k"
  shows "\<exists>m'. write_block pbn k d m = Some m' \<and> cache_ok pbn m' \<and> block_view pbn m' = (block_view pbn m)(k := d)"
proof -
  have i: "idle pbn m" "bc_inv pbn m" "bm_list m BUFFER_TYPE_REF = []" and inj: "pbn_inj pbn"
    using assms(1) by (simp_all add: cache_ok_def idle_def)
  define key where "key = make_pbno_key (fst k) (snd k) 0"
  obtain b m1 c where m1: "get_bc pbn (fst k) (snd k) False m = Some (b, m1)" "bc_inv pbn m1" "grabbed b c m m1"
    "bc_bno c = key" "\<forall>j. cache_view pbn m1 j = cache_view pbn m j"
    using get_bc_spec [OF i(2) assms(2) [unfolded mapped_def] i(3) cache_ok_free [OF assms(1)], of False] unfolding key_def by blast
  let ?f = "\<lambda>c. c\<lparr>bc_buf := d, bc_dirty := True\<rparr>"
  define m2 where "m2 = mark_dirty_bh b (upd_bc b (\<lambda>c. c\<lparr>bc_buf := d\<rparr>) m1)"
  have m2': "m2 = upd_bc b ?f m1" by (simp add: m2_def mark_dirty_bh_def)
  have g2: "grabbed b (?f c) m m2" unfolding m2' by (rule grabbed_upd [OF m1(3)]) (use grabbedD(6,7) [OF m1(3)] in simp_all)
  have ok1: "buf_ok pbn (bm_disk m1) (bm_bc m1 b)" using bc_inv_buf [OF m1(2)] grabbedD(2,5) [OF m1(3)] by blast
  have s2: "str_inv m2" using grabbedD(1) [OF g2] .
  have e2: "bm_bc m2 = (bm_bc m1)(b := ?f c)" "bm_disk m2 = bm_disk m1" "bm_list m2 = bm_list m1" "bm_bc m1 b = c"
    using grabbedD(3) [OF m1(3)] by (simp_all add: m2')
  have i2: "bc_inv pbn m2" unfolding bc_inv_def
  proof (intro conjI allI impI)
    fix x assume x: "in_list m2 x"
    show "buf_ok pbn (bm_disk m2) (bm_bc m2 x)"
    proof (cases "x = b")
      case True
      then show ?thesis using ok1 grabbedD(6) [OF m1(3)] by (simp add: e2)
    next
      case False
      then have "in_list m1 x" using x by (simp add: e2)
      then show ?thesis using bc_inv_buf [OF m1(2)] False by (simp add: e2)
    qed
  qed (rule s2)
  have "\<not> True \<and> \<not> bc_dirty (?f c) \<Longrightarrow> \<not> bc_load (?f c) \<or> bc_buf (?f c) = bm_disk m2 (bc_pno (?f c))" by simp
  from release_bc_spec [where tail = False and dirty = True, OF i2 g2 this] obtain m3 where m3: "release_bc b False True m2 = Some m3" "bc_inv pbn m3"
    "\<forall>x. in_list m3 x \<longleftrightarrow> in_list m2 x" "\<forall>x. x \<noteq> b \<longrightarrow> bm_bc m3 x = bm_bc m2 x"
    "bc_list_type (bm_bc m3 b) = BUFFER_TYPE_DIRTY"
    "\<forall>j. cache_view pbn m3 j = (if j = key then d else cache_view pbn m2 j)"
    using m1(4) by auto
  have "bc_list_type (bm_bc m3 b) \<in> {BUFFER_TYPE_DIRTY, BUFFER_TYPE_CLEAN}" using m3(5) by simp
  note ri = release_idle [OF i(1) g2 i2 m3(2-4) this]
  have v2: "cache_view pbn m2 j = cache_view pbn m1 j" if "j \<noteq> key" for j
  proof (rule cache_view_cong [OF grabbedD(1) [OF m1(3)] s2])
    show "(in_list m1 x \<and> bc_list_type (bm_bc m1 x) \<noteq> BUFFER_TYPE_UNUSED \<and> bc_bno (bm_bc m1 x) = j) \<longleftrightarrow>
        (in_list m2 x \<and> bc_list_type (bm_bc m2 x) \<noteq> BUFFER_TYPE_UNUSED \<and> bc_bno (bm_bc m2 x) = j)" for x
      by (cases "x = b") (simp_all add: e2)
  qed (use that m1(4) in \<open>auto simp: e2\<close>)
  have view: "block_view pbn m3 = (block_view pbn m)(k := d)"
    using m3(6) v2 m1(5) by (auto simp: block_view_def fun_eq_iff key_def key_inj prod_eq_iff)
  have run: "write_block pbn k d m = check_flush_dirty False m3"
    using m1(1) m3(1) by (simp add: write_block_def m2_def)
  have cnt: "bm_list_count m3 BUFFER_TYPE_DIRTY = int (length (bm_list m3 BUFFER_TYPE_DIRTY))" using list_len(2) [OF m3(2)] .
  have card: "{x. in_list m3 x} = {x. in_list m x}" using ri(2) by blast
  show ?thesis
  proof (cases "bm_list_count m3 BUFFER_TYPE_DIRTY < NVFUSE_SYNC_DIRTY_COUNT")
    case True
    then have "cache_ok pbn m3" using assms(1) ri(1) cnt card by (simp add: cache_ok_def)
    moreover have "write_block pbn k d m = Some m3" unfolding run using True by (simp add: check_flush_dirty_def)
    ultimately show ?thesis using view by blast
  next
    case False
    then have "check_flush_dirty False m3 = flush_dirty_data m3" by (auto simp: check_flush_dirty_def NVFUSE_SYNC_DIRTY_COUNT_def Let_def)
    moreover obtain m4 where m4: "flush_dirty_data m3 = Some m4" "idle pbn m4" "bm_list m4 BUFFER_TYPE_DIRTY = []"
      "\<forall>x. in_list m4 x \<longleftrightarrow> in_list m3 x" "\<forall>k. cache_view pbn m4 k = cache_view pbn m3 k"
      using flush_spec [OF ri(1) inj] by blast
    have "in_list m4 x \<longleftrightarrow> in_list m x" for x using m4(4) ri(2) by blast
    from cache_okI [OF assms(1) m4(2) this] have "cache_ok pbn m4" using m4(3) by simp
    moreover have "block_view pbn m4 = block_view pbn m3" using m4(5) by (simp add: block_view_def fun_eq_iff)
    ultimately show ?thesis using run m4(1) view by simp
  qed
qed

interpretation cache: block_store "cache_ok pbn" "mapped pbn" "block_view pbn" "read_block pbn" "write_block pbn" for pbn
  by unfold_locales (use read_block_law write_block_law in blast)+

section \<open>The initial cache\<close>

lemma add_buffers:
  defines "d \<equiv> \<lparr>bc_bno = 0, bc_list_type = BUFFER_TYPE_UNUSED, bc_dirty = False, bc_load = False,
      bc_flush = False, bc_ref = 0, bc_pno = 0, bc_buf = 0\<rparr>"
  shows "init_buffer_cache n disk =
    \<lparr>bm_bc = (\<lambda>_. d), bm_list = (\<lambda>_. [])(BUFFER_TYPE_UNUSED := rev [0..<n]),
     bm_list_count = (\<lambda>_. 0)(BUFFER_TYPE_UNUSED := int n), bm_hash = (\<lambda>_. [])(HASH_NUM := rev [0..<n]),
     bm_hash_count = (\<lambda>_. 0)(HASH_NUM := int n), bm_cache_size = int n, bm_cache_ref = 0, bm_cache_hit = 0, bm_disk = disk\<rparr>"
proof (induction n)
  case 0
  then show ?case by (simp add: init_buffer_cache_def d_def fun_eq_iff)
next
  case (Suc n)
  have "init_buffer_cache (Suc n) disk = add_buffer n (init_buffer_cache n disk)" by (simp add: init_buffer_cache_def)
  also have "\<dots> = \<lparr>bm_bc = (\<lambda>_. d), bm_list = (\<lambda>_. [])(BUFFER_TYPE_UNUSED := rev [0..<Suc n]),
     bm_list_count = (\<lambda>_. 0)(BUFFER_TYPE_UNUSED := int (Suc n)), bm_hash = (\<lambda>_. [])(HASH_NUM := rev [0..<Suc n]),
     bm_hash_count = (\<lambda>_. 0)(HASH_NUM := int (Suc n)), bm_cache_size = int (Suc n), bm_cache_ref = 0, bm_cache_hit = 0, bm_disk = disk\<rparr>"
    unfolding Suc by (auto simp: add_buffer_def list_in_def hash_in_def Let_def d_def fun_eq_iff)
  finally show ?case .
qed

lemma init_idle:
  shows "idle pbn (init_buffer_cache n disk)" "in_list (init_buffer_cache n disk) x \<longleftrightarrow> x < n"
    "bm_list (init_buffer_cache n disk) BUFFER_TYPE_DIRTY = []"
    "cache_view pbn (init_buffer_cache n disk) k = disk (pbn k)"
proof -
  let ?m = "init_buffer_cache n disk"
  show il: "in_list ?m x \<longleftrightarrow> x < n" for x unfolding add_buffers by simp
  show "bm_list ?m BUFFER_TYPE_DIRTY = []" unfolding add_buffers by simp
  have ty: "bc_list_type (bm_bc ?m b) = BUFFER_TYPE_UNUSED" for b unfolding add_buffers by simp
  have "str_inv ?m" unfolding str_inv_def il ty unfolding hash_slot_def ty unfolding add_buffers by auto
  moreover have "buf_ok pbn d (bm_bc ?m b)" for b d unfolding add_buffers by simp
  ultimately show "idle pbn ?m" unfolding idle_def bc_inv_def unfolding add_buffers by simp
  have "bucket k \<noteq> HASH_NUM" using bucket_less [of k] by simp
  then show "cache_view pbn ?m k = disk (pbn k)" unfolding cache_view_def hash_lookup_def unfolding add_buffers by simp
qed

lemma init_cache_ok:
  assumes "pbn_inj pbn" "2048 \<le> n"
  shows "cache_ok pbn (init_buffer_cache n disk)"
proof -
  have "{x. in_list (init_buffer_cache n disk) x} = {..<n}" unfolding init_idle(2) by auto
  then show ?thesis using assms init_idle(1,3) [where n = n and disk = disk]
    unfolding cache_ok_def by (simp add: NVFUSE_SYNC_DIRTY_COUNT_def)
qed

text \<open>A cache whose only buffer is dirty.\<close>

definition one_dirty :: "nat buffer_manager" where
  "one_dirty = \<lparr>bm_bc = (\<lambda>_. \<lparr>bc_bno = 5, bc_list_type = BUFFER_TYPE_DIRTY, bc_dirty = True, bc_load = True,
       bc_flush = False, bc_ref = 0, bc_pno = 6, bc_buf = 77\<rparr>),
     bm_list = (\<lambda>_. [])(BUFFER_TYPE_DIRTY := [0]), bm_list_count = (\<lambda>_. 0)(BUFFER_TYPE_DIRTY := 1),
     bm_hash = (\<lambda>_. [])(5 := [0]), bm_hash_count = (\<lambda>_. 0)(5 := 1), bm_cache_size = 1, bm_cache_ref = 0,
     bm_cache_hit = 0, bm_disk = (\<lambda>_. 0)\<rparr>"

lemma one_dirty_idle: "idle (\<lambda>k. Suc (unat k)) one_dirty" "pbn_inj (\<lambda>k. Suc (unat k))"
proof -
  show "pbn_inj (\<lambda>k. Suc (unat k))" by (simp add: pbn_inj_def unsigned_word_eqI)
  have "bucket 5 = 5" by (simp add: bucket_def HASH_NUM_def)
  then have "str_inv one_dirty" by (auto simp: str_inv_def one_dirty_def hash_slot_def)
  then show "idle (\<lambda>k. Suc (unat k)) one_dirty" by (simp add: idle_def bc_inv_def one_dirty_def)
qed

section \<open>Properties\<close>

text \<open>From initialisation on, a cache of at least 2048 buffers is a transparent
  block store.  Any sequence of block reads and writes on mapped blocks runs without
  a failed assertion, the reads return what a plain array of blocks would return, and
  a final flush leaves the contents of the plain array on the device.\<close>

theorem cache_refines_block_array:
  fixes disk :: "nat \<Rightarrow> 'd::zero"
  assumes "pbn_inj pbn" "2048 \<le> n" "\<forall>q\<in>set ops. mapped pbn (op_key q)"
  shows "\<exists>m m'. run_ops (read_block pbn) (write_block pbn) ops (init_buffer_cache n disk)
        = Some (fst (plain_ops ops (\<lambda>k. disk (pbn (make_pbno_key (fst k) (snd k) 0)))), m)
    \<and> flush_dirty_data m = Some m' \<and> bm_list m' BUFFER_TYPE_DIRTY = []
    \<and> (\<forall>k. bm_disk m' (pbn (make_pbno_key (fst k) (snd k) 0))
         = snd (plain_ops ops (\<lambda>k. disk (pbn (make_pbno_key (fst k) (snd k) 0)))) k)"
proof -
  let ?m = "init_buffer_cache n disk"
  let ?st = "\<lambda>k. disk (pbn (make_pbno_key (fst k) (snd k) 0))"
  have v: "block_view pbn ?m = ?st" by (simp add: block_view_def fun_eq_iff init_idle(4))
  obtain m where m: "run_ops (read_block pbn) (write_block pbn) ops ?m = Some (fst (plain_ops ops ?st), m)"
    "cache_ok pbn m" "block_view pbn m = snd (plain_ops ops ?st)"
    using cache.run_refines [OF init_cache_ok [OF assms(1,2), of disk] assms(3), unfolded v] by blast
  have "idle pbn m" using m(2) by (simp add: cache_ok_def)
  from flush_spec [OF this assms(1)] obtain m' where m': "flush_dirty_data m = Some m'" "bm_list m' BUFFER_TYPE_DIRTY = []"
    "\<forall>k. bm_disk m' (pbn k) = cache_view pbn m k" by blast
  have "bm_disk m' (pbn (make_pbno_key (fst k) (snd k) 0)) = snd (plain_ops ops ?st) k" for k
    using m'(3) m(3) [symmetric] by (simp add: block_view_def)
  with m(1) m'(1,2) show ?thesis by blast
qed

theorem cache_refines_block_array_witness:
  "\<exists>m m'. run_ops (read_block (\<lambda>k. Suc (unat k))) (write_block (\<lambda>k. Suc (unat k)))
        [Wr (9, 0) 5, Wr (9, 1) 6, Rd (9, 0), Rd (9, 2)] (init_buffer_cache 2048 (\<lambda>_. (7::nat)))
        = Some ([5, 7], m)
    \<and> flush_dirty_data m = Some m' \<and> bm_disk m' (Suc (unat (make_pbno_key 9 1 0))) = 6"
proof -
  have "pbn_inj (\<lambda>k. Suc (unat k))" by (simp add: pbn_inj_def unsigned_word_eqI)
  moreover have "\<forall>q\<in>set [Wr (9, 0) 5, Wr (9, 1) 6, Rd (9, 0), Rd (9, 2)]. mapped (\<lambda>k. Suc (unat k)) (op_key q)" by (simp add: mapped_def)
  ultimately show ?thesis
    using cache_refines_block_array [of "\<lambda>k. Suc (unat k)" 2048 "[Wr (9, 0) 5, Wr (9, 1) 6, Rd (9, 0), Rd (9, 2)]" "\<lambda>_. (7::nat)"]
    by (force simp: Let_def)
qed

text \<open>C27: \<open>nvfuse_flush_dirty_data\<close> returns, empties the dirty list, changes the contents of
  no block, and leaves every block's contents on the device; the number of rounds it
  needs is bounded by the number of dirty buffers.\<close>

theorem flush_dirty_data_correct:
  assumes "idle pbn m" "pbn_inj pbn"
  shows "\<exists>m'. flush_loop (length (bm_list m BUFFER_TYPE_DIRTY)) m = Some m' \<and> idle pbn m'
    \<and> bm_list_count m' BUFFER_TYPE_DIRTY = 0 \<and> (\<forall>k. cache_view pbn m' k = cache_view pbn m k)
    \<and> (\<forall>k. bm_disk m' (pbn k) = cache_view pbn m k)"
proof -
  obtain m' where m': "flush_dirty_data m = Some m'" "idle pbn m'" "bm_list m' BUFFER_TYPE_DIRTY = []"
    "\<forall>k. cache_view pbn m' k = cache_view pbn m k" "\<forall>k. bm_disk m' (pbn k) = cache_view pbn m k"
    using flush_spec [OF assms] by blast
  moreover have "bm_list_count m' BUFFER_TYPE_DIRTY = 0" using m'(2,3) list_len(2) [of pbn m'] by (simp add: idle_def)
  ultimately show ?thesis unfolding flush_dirty_data_def by blast
qed

theorem flush_dirty_data_correct_witness:
  "\<exists>m'. flush_loop 1 one_dirty = Some m' \<and> bm_list_count m' BUFFER_TYPE_DIRTY = 0 \<and> bm_disk m' 6 = 77"
proof -
  have v: "cache_view (\<lambda>k. Suc (unat k)) one_dirty 5 = 77"
    by (simp add: cache_view_def hash_lookup_def bucket_def HASH_NUM_def one_dirty_def)
  have l: "length (bm_list one_dirty BUFFER_TYPE_DIRTY) = 1" by (simp add: one_dirty_def)
  obtain m' where "flush_loop 1 one_dirty = Some m'" "bm_list_count m' BUFFER_TYPE_DIRTY = 0"
    "\<forall>k. bm_disk m' (Suc (unat k)) = cache_view (\<lambda>k. Suc (unat k)) one_dirty k"
    using flush_dirty_data_correct [OF one_dirty_idle, unfolded l] by blast
  moreover have "Suc (unat (5::u64)) = 6" by simp
  ultimately show ?thesis using v by metis
qed

text \<open>A buffer whose key is returned by \<open>nvfuse_make_pbno_key\<close> reports, through the
  bit fields that share its storage, the inode and the logical block the key was made of,
  so different blocks of different files never share a key.\<close>

theorem pbno_key_roundtrip:
  "bc_ino (make_pbno_key ino lbno 0) = ino \<and> bc_lbno (make_pbno_key ino lbno 0) = lbno
   \<and> (make_pbno_key ino lbno 0 = make_pbno_key ino' lbno' 0 \<longleftrightarrow> ino = ino' \<and> lbno = lbno')"
  using key_fields key_inj by simp

text \<open>With no unused and no clean buffer, \<open>nvfuse_replace_buffer_cache\<close> flushes the
  dirty buffers, which moves all of them to the clean list, and then takes its victim
  from the dirty list it has just emptied: the assertion on the list count fails, so an
  access to a block that is not cached stops the program.\<close>

theorem only_dirty_buffers_stop:
  assumes "idle pbn m" "pbn_inj pbn" "bm_list m BUFFER_TYPE_UNUSED = []" "bm_list m BUFFER_TYPE_CLEAN = []"
    "hash_lookup m (make_pbno_key ino lblock 0) = None"
  shows "replace_buffer_cache m = None \<and> get_bc pbn ino lblock rd m = None"
proof -
  have no: "replace_buffer_cache x = None" if "idle pbn x" "bm_list x BUFFER_TYPE_UNUSED = []" "bm_list x BUFFER_TYPE_CLEAN = []" for x :: "'a buffer_manager"
  proof -
    note idl = that(1)
    have c: "bm_list_count x ty = int (length (bm_list x ty))" for ty using idl list_len(2) [of pbn x] by (simp add: idle_def)
    obtain x' where x': "flush_dirty_data x = Some x'" "idle pbn x'" "bm_list x' BUFFER_TYPE_DIRTY = []"
      using flush_spec [OF idl assms(2)] by blast
    have "bm_list_count x' BUFFER_TYPE_DIRTY = 0" using x'(2,3) list_len(2) [of pbn x'] by (simp add: idle_def)
    then show ?thesis using x'(1) c that(2,3) by (simp add: replace_buffer_cache_def check_flush_dirty_def Let_def)
  qed
  let ?m = "m\<lparr>bm_cache_ref := bm_cache_ref m + 1\<rparr>"
  have "replace_buffer_cache ?m = None"
    by (rule no) (use assms in \<open>simp_all add: idle_def bc_inv_def\<close>)
  moreover have "hash_lookup ?m (make_pbno_key ino lblock 0) = None" using assms(5) by (simp add: hash_lookup_def)
  ultimately have "find_bc (make_pbno_key ino lblock 0) lblock m = None" by (simp add: find_bc_def find_miss_def Let_def)
  then show ?thesis using no [OF assms(1,3,4)] by (simp add: get_bc_def Let_def)
qed

theorem only_dirty_buffers_stop_witness:
  "hash_lookup one_dirty (make_pbno_key 9 0 0) = None \<and> get_bc (\<lambda>k. Suc (unat k)) 9 0 True one_dirty = None"
proof -
  have h: "hash_lookup one_dirty (make_pbno_key 9 0 0) = None"
    by (simp add: hash_lookup_def one_dirty_def make_pbno_key_def)
  moreover have "get_bc (\<lambda>k. Suc (unat k)) 9 0 True one_dirty = None"
    using only_dirty_buffers_stop [OF one_dirty_idle _ _ h, of True] by (simp add: one_dirty_def)
  ultimately show ?thesis ..
qed

text \<open>\<open>nvfuse_move_bc_to_unused_list\<close> leaves the buffer in the hash chain of its key,
  but \<open>nvfuse_replace_buffer_cache\<close> counts every unused buffer as a member of the last
  chain.  When the buffer is taken next, the counter of that chain, which is empty,
  becomes negative, and the counter of the key's chain stays one too high.\<close>

theorem unused_buffer_hash_drift:
  assumes "idle pbn m" "bm_list m BUFFER_TYPE_UNUSED = []" "hash_lookup m key = Some b"
  shows "\<exists>m'. replace_buffer_cache (move_bc_to_unused_list key m) = Some (b, m')
    \<and> bm_hash m' HASH_NUM = [] \<and> bm_hash_count m' HASH_NUM = -1
    \<and> bm_hash_count m' (bucket key) = int (length (bm_hash m' (bucket key))) + 1"
proof -
  have s: "str_inv m" using assms(1) by (simp add: idle_def bc_inv_def)
  have b: "in_list m b" "bc_list_type (bm_bc m b) \<noteq> BUFFER_TYPE_UNUSED" "bc_bno (bm_bc m b) = key"
    using hash_lookup_iff [OF s] assms(3) by blast+
  have "x \<notin> set (bm_hash m HASH_NUM)" for x
    using str_invD(6) [OF s, of x HASH_NUM] bucket_less [of "bc_bno (bm_bc m x)"] assms(2)
    by (auto simp: hash_slot_def split: if_splits)
  then have h0: "bm_hash m HASH_NUM = []" by (cases "bm_hash m HASH_NUM") auto
  have c: "bm_list_count m BUFFER_TYPE_UNUSED = 0" "bm_hash_count m HASH_NUM = 0"
    "bm_hash_count m (bucket key) = int (length (bm_hash m (bucket key)))" "bucket key \<noteq> HASH_NUM"
    using str_invD(1,4) [OF s] assms(2) h0 bucket_less [of key] by auto
  have bh: "b \<in> set (bm_hash m (bucket key))" using str_invD(6) [OF s, of b "bucket key"] b by (simp add: hash_slot_def)
  have l: "int (length (bm_hash m (bucket key)) - Suc 0) = int (length (bm_hash m (bucket key))) - 1"
    using length_pos_if_in_set [OF bh] by linarith
  show ?thesis using b(2) assms(2,3) c h0 bh l
    by (simp add: replace_buffer_cache_def move_bc_to_unused_list_def move_buffer_list_def list_in_def list_out_def
        hash_out_def Let_def length_remove1)
qed

theorem unused_buffer_hash_drift_witness:
  "\<exists>m'. replace_buffer_cache (move_bc_to_unused_list 5 one_dirty) = Some (0, m') \<and> bm_hash_count m' HASH_NUM = -1"
proof -
  have "hash_lookup one_dirty 5 = Some 0" "bm_list one_dirty BUFFER_TYPE_UNUSED = []"
    by (simp_all add: hash_lookup_def bucket_def HASH_NUM_def one_dirty_def)
  then show ?thesis using unused_buffer_hash_drift [OF one_dirty_idle(1)] by blast
qed

end
