(* ===== verification/CacheShrink.thy ===== *)
theory CacheShrink
  imports BufferCache
begin

text \<open>
  The end of the life of buffers, \<open>nvfuse_buffer_cache.c\<close>: the return of unused buffers
  (\<open>nvfuse_remove_buffer_cache\<close>) and the release of the whole cache at unmount
  (\<open>nvfuse_deinit_buffer_cache\<close>).  \<open>None\<close> stands for a failed assertion.  The
  memory that is given back is not part of the state: a released buffer is in no list.
\<close>

section \<open>Definitions\<close>

definition NVFUSE_INITIAL_BUFFER_SIZE_DATA :: int where "NVFUSE_INITIAL_BUFFER_SIZE_DATA = 16"

text \<open>One round of the loop of \<open>nvfuse_remove_buffer_cache\<close>.\<close>

definition remove_unused :: "nat \<Rightarrow> 'd buffer_manager \<Rightarrow> 'd buffer_manager option" where
  "remove_unused b m = do {
     assert_opt (\<not> bc_dirty (bm_bc m b));
     let m1 = hash_out b HASH_NUM
       (m\<lparr>bm_list := (bm_list m)(BUFFER_TYPE_UNUSED := remove1 b (bm_list m BUFFER_TYPE_UNUSED)),
          bm_list_count := (bm_list_count m)(BUFFER_TYPE_UNUSED := bm_list_count m BUFFER_TYPE_UNUSED - 1)\<rparr>)
     in Some (m1\<lparr>bm_cache_size := bm_cache_size m1 - 1\<rparr>) }"

definition remove_buffer_cache :: "int \<Rightarrow> 'd buffer_manager \<Rightarrow> (int \<times> 'd buffer_manager) option" where
  "remove_buffer_cache nr m = do {
     assert_opt (nr > 0);
     if bm_cache_size m - nr < NVFUSE_INITIAL_BUFFER_SIZE_DATA then Some (-1, m)
     else if nr > bm_list_count m BUFFER_TYPE_UNUSED then Some (-1, m)
     else do {
       m' \<leftarrow> for_each remove_unused (take (nat nr) (bm_list m BUFFER_TYPE_UNUSED)) m;
       Some (0, m') } }"

text \<open>\<open>nvfuse_deinit_buffer_cache\<close> in a process that is not a client of the control
  plane; the list counters and the hash chains are left as they are.\<close>

definition free_listed :: "btype \<Rightarrow> nat \<Rightarrow> nat \<times> 'd buffer_manager \<Rightarrow> (nat \<times> 'd buffer_manager) option" where
  "free_listed ty b = (\<lambda>(n, m). do {
     assert_opt (\<not> bc_dirty (bm_bc m b));
     Some (n + 1, m\<lparr>bm_list := (bm_list m)(ty := remove1 b (bm_list m ty))\<rparr>) })"

definition free_list :: "btype \<Rightarrow> nat \<times> 'd buffer_manager \<Rightarrow> (nat \<times> 'd buffer_manager) option" where
  "free_list ty s = for_each (free_listed ty) (bm_list (snd s) ty) s"

definition buffer_types :: "btype list" where
  "buffer_types = [BUFFER_TYPE_UNUSED, BUFFER_TYPE_REF, BUFFER_TYPE_CLEAN, BUFFER_TYPE_DIRTY, BUFFER_TYPE_FLUSHING]"

definition deinit_buffer_cache :: "'d buffer_manager \<Rightarrow> (nat \<times> 'd buffer_manager) option" where
  "deinit_buffer_cache m = do {
     (removed_count, m') \<leftarrow> for_each free_list buffer_types (0, m);
     assert_opt (int removed_count = bm_cache_size m');
     Some (removed_count, m') }"

text \<open>The part of \<open>nvfuse_umount\<close> that concerns the cache: a forced flush, then the release.\<close>

definition umount_cache :: "'d buffer_manager \<Rightarrow> (nat \<times> 'd buffer_manager) option" where
  "umount_cache m = do { m' \<leftarrow> check_flush_dirty True m; deinit_buffer_cache m' }"

section \<open>Returning unused buffers\<close>

lemma remove_unused_spec:
  assumes inv: "bc_inv pbn m" and b: "b \<in> set (bm_list m BUFFER_TYPE_UNUSED)"
  shows "\<exists>m'. remove_unused b m = Some m' \<and> bc_inv pbn m' \<and> bm_bc m' = bm_bc m \<and> bm_disk m' = bm_disk m
    \<and> bm_list m' = (bm_list m)(BUFFER_TYPE_UNUSED := remove1 b (bm_list m BUFFER_TYPE_UNUSED))
    \<and> bm_cache_size m' = bm_cache_size m - 1 \<and> (\<forall>k. cache_view pbn m' k = cache_view pbn m k)"
proof -
  have s: "str_inv m" using inv by (simp add: bc_inv_def)
  have ty: "bc_list_type (bm_bc m b) = BUFFER_TYPE_UNUSED" using str_invD(3) [OF s b] .
  with b have bin: "in_list m b" by simp
  have nd: "\<not> bc_dirty (bm_bc m b)" using bc_inv_buf [OF inv bin] ty by simp
  define m' where "m' = (hash_out b HASH_NUM
       (m\<lparr>bm_list := (bm_list m)(BUFFER_TYPE_UNUSED := remove1 b (bm_list m BUFFER_TYPE_UNUSED)),
          bm_list_count := (bm_list_count m)(BUFFER_TYPE_UNUSED := bm_list_count m BUFFER_TYPE_UNUSED - 1)\<rparr>))
       \<lparr>bm_cache_size := bm_cache_size m - 1\<rparr>"
  have f: "bm_bc m' = bm_bc m" "bm_disk m' = bm_disk m" "bm_cache_size m' = bm_cache_size m - 1"
    "bm_list m' = (bm_list m)(BUFFER_TYPE_UNUSED := remove1 b (bm_list m BUFFER_TYPE_UNUSED))"
    "bm_hash m' = (\<lambda>h. remove1 b (bm_hash m h))"
    "bm_hash_count m' = (bm_hash_count m)(HASH_NUM := bm_hash_count m HASH_NUM - 1)"
    "bm_list_count m' = (bm_list_count m)(BUFFER_TYPE_UNUSED := bm_list_count m BUFFER_TYPE_UNUSED - 1)"
    by (simp_all add: m'_def hash_out_def)
  have il: "in_list m' x \<longleftrightarrow> in_list m x \<and> x \<noteq> b" for x
    using str_invD(2) [OF s, of BUFFER_TYPE_UNUSED] ty by (auto simp: f)
  have bh: "b \<in> set (bm_hash m h) \<longleftrightarrow> h = HASH_NUM" for h
    using str_invD(6) [OF s, of b h] bin ty by (simp add: hash_slot_def)
  have len: "int (length (remove1 b xs)) = int (length xs) - 1" if "b \<in> set xs" for xs :: "nat list"
    using length_pos_if_in_set [OF that] by (simp only: length_remove1 that if_True)
  have "bm_list_count m' t = int (length (bm_list m' t)) \<and> distinct (bm_list m' t)
      \<and> (\<forall>x\<in>set (bm_list m' t). bc_list_type (bm_bc m' x) = t)" for t
    using str_invD(1-3) [OF s] b len by (auto simp: f dest: notin_set_remove1)
  moreover have "bm_hash_count m' h = int (length (bm_hash m' h)) \<and> distinct (bm_hash m' h)
      \<and> (\<forall>x. x \<in> set (bm_hash m' h) \<longleftrightarrow> in_list m' x \<and> h = hash_slot (bm_bc m' x))" for h
    unfolding il using str_invD(4-6) [OF s] bh len by (auto simp: f remove1_idem)
  moreover have "x = y" if "in_list m' x" "in_list m' y" "bc_list_type (bm_bc m' x) \<noteq> BUFFER_TYPE_UNUSED"
    "bc_list_type (bm_bc m' y) \<noteq> BUFFER_TYPE_UNUSED" "bc_bno (bm_bc m' x) = bc_bno (bm_bc m' y)" for x y
    using str_invD(7) [OF s, of x y] that unfolding il unfolding f(1) by blast
  ultimately have "str_inv m'" unfolding str_inv_def by blast
  then have "bc_inv pbn m'" using bc_inv_buf [OF inv] il by (simp add: bc_inv_def f(1,2))
  moreover have "hash_lookup m' k = hash_lookup m k" for k
    using bh [of "bucket k"] bucket_less [of k] by (simp add: hash_lookup_def f remove1_idem)
  then have "cache_view pbn m' k = cache_view pbn m k" for k by (simp add: cache_view_def f(1,2) split: option.split)
  moreover have "remove_unused b m = Some m'" using nd by (simp add: remove_unused_def m'_def hash_out_def Let_def)
  ultimately show ?thesis using f(1-4) by blast
qed

lemma remove_loop:
  assumes "bc_inv pbn m" "n \<le> length (bm_list m BUFFER_TYPE_UNUSED)"
  shows "\<exists>m'. for_each remove_unused (take n (bm_list m BUFFER_TYPE_UNUSED)) m = Some m' \<and> bc_inv pbn m'
    \<and> bm_list m' = (bm_list m)(BUFFER_TYPE_UNUSED := drop n (bm_list m BUFFER_TYPE_UNUSED))
    \<and> bm_cache_size m' = bm_cache_size m - int n \<and> (\<forall>k. cache_view pbn m' k = cache_view pbn m k)"
  using assms
proof (induction n arbitrary: m)
  case 0
  then show ?case by simp
next
  case (Suc n)
  then obtain b bs where bs: "bm_list m BUFFER_TYPE_UNUSED = b # bs" by (cases "bm_list m BUFFER_TYPE_UNUSED") auto
  then obtain m1 where m1: "remove_unused b m = Some m1" "bc_inv pbn m1" "bm_list m1 = (bm_list m)(BUFFER_TYPE_UNUSED := bs)"
    "bm_cache_size m1 = bm_cache_size m - 1" "\<forall>k. cache_view pbn m1 k = cache_view pbn m k"
    using remove_unused_spec [OF Suc.prems(1), of b] by auto
  then show ?case using Suc.IH [OF m1(2)] Suc.prems(2) bs by (auto simp: fun_eq_iff)
qed

section \<open>Accounting\<close>

text \<open>The size of the cache and the number of buffers its lists count; no operation of a
  client changes either.\<close>

definition tally :: "'d buffer_manager \<Rightarrow> int \<times> int" where
  "tally m = (bm_cache_size m, \<Sum>ty\<leftarrow>buffer_types. bm_list_count m ty)"

lemma tally_lists [simp]:
  "tally (list_in b ty tail m) = map_prod id (\<lambda>n. n + 1) (tally m)"
  "tally (list_out b m) = map_prod id (\<lambda>n. n - 1) (tally m)"
  "tally (m\<lparr>bm_list := l, bm_list_count := (bm_list_count m)(ty := bm_list_count m ty - 1)\<rparr>)
     = map_prod id (\<lambda>n. n - 1) (tally m)"
proof -
  show "tally (list_in b ty tail m) = map_prod id (\<lambda>n. n + 1) (tally m)"
    by (cases ty) (simp_all add: tally_def list_in_def buffer_types_def)
  show "tally (list_out b m) = map_prod id (\<lambda>n. n - 1) (tally m)"
    by (cases "bc_list_type (bm_bc m b)") (simp_all add: tally_def list_out_def buffer_types_def Let_def)
  show "tally (m\<lparr>bm_list := l, bm_list_count := (bm_list_count m)(ty := bm_list_count m ty - 1)\<rparr>)
     = map_prod id (\<lambda>n. n - 1) (tally m)"
    by (cases ty) (simp_all add: tally_def buffer_types_def)
qed

lemma tally_other [simp]:
  "tally (hash_in b h m) = tally m" "tally (hash_out b h m) = tally m"
  "tally (m\<lparr>bm_bc := f\<rparr>) = tally m" "tally (m\<lparr>bm_disk := d\<rparr>) = tally m"
  "tally (m\<lparr>bm_cache_ref := r\<rparr>) = tally m" "tally (m\<lparr>bm_cache_hit := r\<rparr>) = tally m"
  by (simp_all add: tally_def hash_in_def hash_out_def)

lemma map_prod_undo [simp]:
  "map_prod id (\<lambda>n. n + 1) (map_prod id (\<lambda>n. n - 1) t) = (t :: int \<times> int)"
  "map_prod id (\<lambda>n. n - 1) (map_prod id (\<lambda>n. n + 1) t) = (t :: int \<times> int)"
  by (cases t; simp)+

lemma tally_move [simp]: "tally (move_buffer_list b ty tail m) = tally m"
  by (simp add: move_buffer_list_def)

lemma for_each_keeps:
  assumes "\<And>x m m'. f x m = Some m' \<Longrightarrow> P m' = P m" "for_each f xs m = Some m'"
  shows "P m' = P m"
  using assms(2)
proof (induction xs arbitrary: m)
  case (Cons x xs)
  then obtain m1 where m1: "f x m = Some m1" "for_each f xs m1 = Some m'" by (auto simp: bind_eq_Some_conv)
  show ?case using Cons.IH [OF m1(2)] assms(1) [OF m1(1)] by simp
qed simp

lemma flush_round_tally: "flush_round m = Some m' \<Longrightarrow> tally m' = tally m"
proof -
  assume "flush_round m = Some m'"
  then obtain xs ys zs m1 m2 where m: "for_each collect_dirty xs m = Some m1" "for_each sync_block ys m1 = Some m2"
    "for_each clean_block zs m2 = Some m'" by (auto simp: flush_round_def bind_eq_Some_conv)
  have "tally m1 = tally m" by (rule for_each_keeps [OF _ m(1)]) (auto simp: collect_dirty_def bind_eq_Some_conv)
  moreover have "tally m2 = tally m1" by (rule for_each_keeps [OF _ m(2)]) (auto simp: sync_block_def bind_eq_Some_conv)
  moreover have "tally m' = tally m2" by (rule for_each_keeps [OF _ m(3)]) (auto simp: clean_block_def bind_eq_Some_conv)
  ultimately show ?thesis by simp
qed

lemma flush_loop_tally: "flush_loop fuel m = Some m' \<Longrightarrow> tally m' = tally m"
proof (induction fuel arbitrary: m)
  case 0
  then show ?case by (simp split: if_splits)
next
  case (Suc fuel)
  show ?case
  proof (cases "bm_list_count m BUFFER_TYPE_DIRTY = 0")
    case False
    with Suc.prems obtain m1 where m1: "flush_round m = Some m1" "flush_loop fuel m1 = Some m'" by (auto simp: bind_eq_Some_conv)
    show ?thesis using Suc.IH [OF m1(2)] flush_round_tally [OF m1(1)] by simp
  qed (use Suc.prems in simp)
qed

lemma check_flush_tally: "check_flush_dirty force m = Some m' \<Longrightarrow> tally m' = tally m"
  by (auto simp: check_flush_dirty_def flush_dirty_data_def Let_def flush_loop_tally split: if_splits)

text \<open>The victim is in no list until \<open>nvfuse_find_bc\<close> puts it into that of the
  referenced buffers.\<close>

lemma replace_tally: "replace_buffer_cache m = Some (b, m') \<Longrightarrow> tally m' = map_prod id (\<lambda>n. n - 1) (tally m)"
  by (auto simp: replace_buffer_cache_def bind_eq_Some_conv Let_def check_flush_tally split: if_splits)

lemma find_bc_tally: "find_bc key lblock m = Some (b, m') \<Longrightarrow> tally m' = tally m"
  by (auto simp: find_bc_def find_hit_def find_miss_def find_ref_def inc_bc_ref_def Let_def bind_eq_Some_conv
      dest!: replace_tally split: option.splits if_splits)

lemma get_bc_tally: "get_bc pbn ino lblock rd m = Some (b, m') \<Longrightarrow> tally m' = tally m"
  by (auto simp: get_bc_def get_pno_def load_bc_def Let_def bind_eq_Some_conv dest!: find_bc_tally split: if_splits)

lemma release_bc_tally: "release_bc b tail dirty m = Some m' \<Longrightarrow> tally m' = tally m"
  by (auto simp: release_bc_def dec_bc_ref_def Let_def bind_eq_Some_conv split: if_splits)

lemma block_tally:
  shows "read_block pbn k m = Some (d, m') \<Longrightarrow> tally m' = tally m"
    "write_block pbn k d m = Some m' \<Longrightarrow> tally m' = tally m"
  by (auto simp: read_block_def write_block_def mark_dirty_bh_def bind_eq_Some_conv
      dest!: get_bc_tally release_bc_tally check_flush_tally)

lemma run_ops_tally: "run_ops (read_block pbn) (write_block pbn) ops m = Some (ds, m') \<Longrightarrow> tally m' = tally m"
proof (induction ops arbitrary: m ds)
  case (Cons q ops)
  show ?case
  proof (cases q)
    case (Rd k)
    with Cons.prems obtain d m1 ds1 where m1: "read_block pbn k m = Some (d, m1)"
      "run_ops (read_block pbn) (write_block pbn) ops m1 = Some (ds1, m')" by (auto simp: bind_eq_Some_conv)
    show ?thesis using Cons.IH [OF m1(2)] block_tally(1) [OF m1(1)] by simp
  next
    case (Wr k d)
    with Cons.prems obtain m1 where m1: "write_block pbn k d m = Some m1"
      "run_ops (read_block pbn) (write_block pbn) ops m1 = Some (ds, m')" by (auto simp: bind_eq_Some_conv)
    show ?thesis using Cons.IH [OF m1(2)] block_tally(2) [OF m1(1)] by simp
  qed
qed simp

lemma init_tally: "tally (init_buffer_cache n disk) = (int n, int n)"
  by (simp add: tally_def add_buffers buffer_types_def)

section \<open>Releasing the cache\<close>

lemma free_listed_loop:
  "for_each (free_listed ty) xs (n, m) =
    (if \<exists>b\<in>set xs. bc_dirty (bm_bc m b) then None
     else Some (n + length xs, m\<lparr>bm_list := (bm_list m)(ty := fold remove1 xs (bm_list m ty))\<rparr>))"
  by (induction xs arbitrary: n m) (simp_all add: free_listed_def)

lemma fold_remove1_self: "fold remove1 xs xs = []"
  by (induction xs) simp_all

lemma free_list_eq:
  "free_list ty (n, m) = (if \<exists>b\<in>set (bm_list m ty). bc_dirty (bm_bc m b) then None
     else Some (n + length (bm_list m ty), m\<lparr>bm_list := (bm_list m)(ty := [])\<rparr>))"
  by (simp add: free_list_def free_listed_loop fold_remove1_self)

lemma all_btypes: "(\<forall>ty. P ty) \<longleftrightarrow> (\<forall>ty\<in>set buffer_types. P ty)"
  by (auto simp: buffer_types_def) (metis btype.exhaust)

lemma deinit_eq:
  "deinit_buffer_cache m =
    (if (\<forall>ty. \<forall>b\<in>set (bm_list m ty). \<not> bc_dirty (bm_bc m b))
        \<and> bm_cache_size m = (\<Sum>ty\<leftarrow>buffer_types. int (length (bm_list m ty)))
     then Some (nat (bm_cache_size m), m\<lparr>bm_list := (\<lambda>_. [])\<rparr>) else None)"
proof -
  have e: "f(BUFFER_TYPE_UNUSED := [], BUFFER_TYPE_REF := [], BUFFER_TYPE_CLEAN := [], BUFFER_TYPE_DIRTY := [],
      BUFFER_TYPE_FLUSHING := []) = (\<lambda>_. [])" for f :: "btype \<Rightarrow> nat list"
    by (rule ext, rename_tac t, case_tac t) simp_all
  show ?thesis unfolding all_btypes
    by (auto simp: deinit_buffer_cache_def buffer_types_def free_list_eq e algebra_simps)
qed

lemma idle_deinit:
  assumes "idle pbn m" "bm_list m BUFFER_TYPE_DIRTY = []" "tally m = (int n, int n)"
  shows "deinit_buffer_cache m = Some (n, m\<lparr>bm_list := (\<lambda>_. [])\<rparr>)"
proof -
  have i: "bc_inv pbn m" and e: "bm_list m BUFFER_TYPE_REF = []" "bm_list m BUFFER_TYPE_FLUSHING = []"
    using assms(1) by (simp_all add: idle_def)
  have "\<not> bc_dirty (bm_bc m b)" if "b \<in> set (bm_list m ty)" for ty b
  proof -
    have "in_list m b" "bc_list_type (bm_bc m b) = ty" using list_mem [OF i, of b ty] that by blast+
    then show ?thesis using bc_inv_buf [OF i, of b] e assms(2) that by (cases ty) simp_all
  qed
  moreover have "bm_cache_size m = (\<Sum>ty\<leftarrow>buffer_types. int (length (bm_list m ty)))"
    using assms(3) by (simp add: tally_def list_len(2) [OF i])
  moreover have "nat (bm_cache_size m) = n" using assms(3) by (simp add: tally_def)
  ultimately show ?thesis unfolding deinit_eq by auto
qed

lemma umount_cache_spec:
  assumes "idle pbn m" "pbn_inj pbn" "tally m = (int n, int n)"
  shows "\<exists>m'. umount_cache m = Some (n, m') \<and> bm_list m' = (\<lambda>_. []) \<and> (\<forall>k. bm_disk m' (pbn k) = cache_view pbn m k)"
proof -
  obtain m' where m': "flush_dirty_data m = Some m'" "idle pbn m'" "bm_list m' BUFFER_TYPE_DIRTY = []"
    "\<forall>k. bm_disk m' (pbn k) = cache_view pbn m k" using flush_spec [OF assms(1,2)] by blast
  then have f: "check_flush_dirty True m = Some m'"
    by (cases "length (bm_list m BUFFER_TYPE_DIRTY)") (simp_all add: check_flush_dirty_def flush_dirty_data_def Let_def split: if_splits)
  have "deinit_buffer_cache m' = Some (n, m'\<lparr>bm_list := (\<lambda>_. [])\<rparr>)"
    using check_flush_tally [OF f] assms(3) by (intro idle_deinit [OF m'(2,3)]) simp
  then show ?thesis using f m'(4) by (simp add: umount_cache_def)
qed

section \<open>Properties\<close>

text \<open>\<open>nvfuse_remove_buffer_cache\<close> never fails an assertion.  It refuses, without a
  change, when fewer than 16 buffers would remain or fewer than \<open>nr\<close> are unused;
  otherwise it takes \<open>nr\<close> buffers from the front of the unused list, and no client sees
  other contents of any block than before.\<close>

theorem remove_buffer_cache_correct:
  assumes "bc_inv pbn m" "0 < nr"
  shows "\<exists>m'. remove_buffer_cache nr m =
      Some (if bm_cache_size m - nr < 16 \<or> int (length (bm_list m BUFFER_TYPE_UNUSED)) < nr then -1 else 0, m')
    \<and> bc_inv pbn m' \<and> (\<forall>k. cache_view pbn m' k = cache_view pbn m k)
    \<and> (if bm_cache_size m - nr < 16 \<or> int (length (bm_list m BUFFER_TYPE_UNUSED)) < nr then m' = m
       else bm_cache_size m' = bm_cache_size m - nr
         \<and> bm_list m' = (bm_list m)(BUFFER_TYPE_UNUSED := drop (nat nr) (bm_list m BUFFER_TYPE_UNUSED)))"
proof (cases "bm_cache_size m - nr < 16 \<or> int (length (bm_list m BUFFER_TYPE_UNUSED)) < nr")
  case True
  then show ?thesis using assms list_len(2) [OF assms(1), of BUFFER_TYPE_UNUSED]
    by (auto simp: remove_buffer_cache_def NVFUSE_INITIAL_BUFFER_SIZE_DATA_def)
next
  case False
  then have "nat nr \<le> length (bm_list m BUFFER_TYPE_UNUSED)" by linarith
  from remove_loop [OF assms(1) this] False assms list_len(2) [OF assms(1), of BUFFER_TYPE_UNUSED] show ?thesis
    by (auto simp: remove_buffer_cache_def NVFUSE_INITIAL_BUFFER_SIZE_DATA_def)
qed

theorem remove_buffer_cache_correct_witness:
  "\<exists>m. remove_buffer_cache 4 (init_buffer_cache 32 (\<lambda>_. (0::nat))) = Some (0, m) \<and> bm_cache_size m = 28
    \<and> bm_list m BUFFER_TYPE_UNUSED = rev [0..<28]"
proof -
  let ?m = "init_buffer_cache 32 (\<lambda>_. (0::nat))"
  have "bc_inv (\<lambda>k. Suc (unat k)) ?m" using init_idle(1) by (auto simp: idle_def)
  moreover have "bm_cache_size ?m = 32" "length (bm_list ?m BUFFER_TYPE_UNUSED) = 32"
    "drop 4 (bm_list ?m BUFFER_TYPE_UNUSED) = rev [0..<28]" by (simp_all add: add_buffers upt_rec)
  ultimately show ?thesis using remove_buffer_cache_correct [of "\<lambda>k. Suc (unat k)" ?m 4] by auto
qed

text \<open>The release of the cache returns exactly when no buffer of any list is dirty and the
  lists hold as many buffers as the size of the cache says; whether a buffer is still
  referenced is not asked.\<close>

theorem deinit_returns_iff:
  "deinit_buffer_cache m \<noteq> None \<longleftrightarrow>
    (\<forall>ty. \<forall>b\<in>set (bm_list m ty). \<not> bc_dirty (bm_bc m b))
    \<and> bm_cache_size m = (\<Sum>ty\<leftarrow>buffer_types. int (length (bm_list m ty)))"
  by (simp add: deinit_eq)

text \<open>C5: The life of a cache of at least 2048 buffers is that of a transparent block store.
  From initialisation on, any sequence of block reads and writes on mapped blocks runs
  without a failed assertion and the reads return what a plain array of blocks would
  return; the forced flush of \<open>nvfuse_umount\<close> and the release of the cache
  that follow find no dirty buffer, count as many buffers as were allocated, and leave
  the contents of the plain array on the device.\<close>

theorem cache_life_cycle:
  fixes disk :: "nat \<Rightarrow> 'd::zero"
  assumes "pbn_inj pbn" "2048 \<le> n" "\<forall>q\<in>set ops. mapped pbn (op_key q)"
  shows "\<exists>m m'. run_ops (read_block pbn) (write_block pbn) ops (init_buffer_cache n disk)
        = Some (fst (plain_ops ops (\<lambda>k. disk (pbn (make_pbno_key (fst k) (snd k) 0)))), m)
    \<and> umount_cache m = Some (n, m') \<and> bm_list m' = (\<lambda>_. [])
    \<and> (\<forall>k. bm_disk m' (pbn (make_pbno_key (fst k) (snd k) 0))
         = snd (plain_ops ops (\<lambda>k. disk (pbn (make_pbno_key (fst k) (snd k) 0)))) k)"
proof -
  let ?st = "\<lambda>k. disk (pbn (make_pbno_key (fst k) (snd k) 0))"
  have v: "block_view pbn (init_buffer_cache n disk) = ?st" by (simp add: block_view_def fun_eq_iff init_idle(4))
  obtain m where m: "run_ops (read_block pbn) (write_block pbn) ops (init_buffer_cache n disk) = Some (fst (plain_ops ops ?st), m)"
    "cache_ok pbn m" "block_view pbn m = snd (plain_ops ops ?st)"
    using cache.run_refines [OF init_cache_ok [OF assms(1,2), of disk] assms(3), unfolded v] by blast
  have i: "idle pbn m" using m(2) by (simp add: cache_ok_def)
  have "tally m = (int n, int n)" using run_ops_tally [OF m(1)] by (simp add: init_tally)
  from umount_cache_spec [OF i assms(1) this] m show ?thesis by (auto simp: block_view_def fun_eq_iff)
qed

theorem cache_life_cycle_witness:
  "\<exists>m m'. run_ops (read_block (\<lambda>k. Suc (unat k))) (write_block (\<lambda>k. Suc (unat k)))
        [Wr (9, 0) 5, Wr (9, 1) 6, Rd (9, 0), Rd (9, 2)] (init_buffer_cache 2048 (\<lambda>_. (7::nat)))
        = Some ([5, 7], m)
    \<and> umount_cache m = Some (2048, m') \<and> bm_disk m' (Suc (unat (make_pbno_key 9 1 0))) = 6"
proof -
  have "pbn_inj (\<lambda>k. Suc (unat k))" by (simp add: pbn_inj_def unsigned_word_eqI)
  moreover have "\<forall>q\<in>set [Wr (9, 0) 5, Wr (9, 1) 6, Rd (9, 0), Rd (9, 2)]. mapped (\<lambda>k. Suc (unat k)) (op_key q)" by (simp add: mapped_def)
  ultimately show ?thesis
    using cache_life_cycle [of "\<lambda>k. Suc (unat k)" 2048 "[Wr (9, 0) 5, Wr (9, 1) 6, Rd (9, 0), Rd (9, 2)]" "\<lambda>_. (7::nat)"]
    by (force simp: Let_def)
qed

end
