(* ===== verification/ListHead.thy ===== *)
theory ListHead
  imports Prelude
begin

text \<open>
  The circular lists of \<open>include/list.h\<close> (\<open>struct list_head\<close>), on an explicit memory of \<open>next\<close> and
  \<open>prev\<close> fields, on which the queues and replacement lists of the other components are
  built.  (The hash chains of the header are in \<open>HashList\<close>.)

  The other theories keep these lists as HOL lists.  This theory shows what that
  rests on: \<open>rings\<close> says that a memory holds a family of disjoint lists, every operation
  of the header keeps such a family and changes it as a list operation, and the loops of
  the header visit exactly the entries of the list.
\<close>

section \<open>Memory\<close>

text \<open>An access through the null pointer or through one of the poison values of
  \<open>poison.h\<close> stops the process.\<close>

definition LIST_POISON1 :: nat where "LIST_POISON1 = 0x00100100"
definition LIST_POISON2 :: nat where "LIST_POISON2 = 0x00200200"

definition addressable :: "nat \<Rightarrow> bool" where
  "addressable a \<longleftrightarrow> a \<noteq> 0 \<and> a \<noteq> LIST_POISON1 \<and> a \<noteq> LIST_POISON2"

record list_mem =
  lm_next :: "nat \<Rightarrow> nat"
  lm_prev :: "nat \<Rightarrow> nat"

definition rd_next :: "nat \<Rightarrow> list_mem \<Rightarrow> nat option" where
  "rd_next a m = (if addressable a then Some (lm_next m a) else None)"

definition rd_prev :: "nat \<Rightarrow> list_mem \<Rightarrow> nat option" where
  "rd_prev a m = (if addressable a then Some (lm_prev m a) else None)"

definition wr_next :: "nat \<Rightarrow> nat \<Rightarrow> list_mem \<Rightarrow> list_mem option" where
  "wr_next a v m = (if addressable a then Some (m\<lparr>lm_next := (lm_next m)(a := v)\<rparr>) else None)"

definition wr_prev :: "nat \<Rightarrow> nat \<Rightarrow> list_mem \<Rightarrow> list_mem option" where
  "wr_prev a v m = (if addressable a then Some (m\<lparr>lm_prev := (lm_prev m)(a := v)\<rparr>) else None)"

section \<open>Circular lists\<close>

definition INIT_LIST_HEAD :: "nat \<Rightarrow> list_mem \<Rightarrow> list_mem option" where
  "INIT_LIST_HEAD l m = do { m \<leftarrow> wr_next l l m; wr_prev l l m }"

definition list_add_between :: "nat \<Rightarrow> nat \<Rightarrow> nat \<Rightarrow> list_mem \<Rightarrow> list_mem option" where
  "list_add_between ne prev next m = do {
     m \<leftarrow> wr_prev next ne m;
     m \<leftarrow> wr_next ne next m;
     m \<leftarrow> wr_prev ne prev m;
     wr_next prev ne m }"

definition list_add :: "nat \<Rightarrow> nat \<Rightarrow> list_mem \<Rightarrow> list_mem option" where
  "list_add ne head m = do { n \<leftarrow> rd_next head m; list_add_between ne head n m }"

definition list_add_tail :: "nat \<Rightarrow> nat \<Rightarrow> list_mem \<Rightarrow> list_mem option" where
  "list_add_tail ne head m = do { p \<leftarrow> rd_prev head m; list_add_between ne p head m }"

definition list_del_between :: "nat \<Rightarrow> nat \<Rightarrow> list_mem \<Rightarrow> list_mem option" where
  "list_del_between prev next m = do { m \<leftarrow> wr_prev next prev m; wr_next prev next m }"

definition list_del_entry :: "nat \<Rightarrow> list_mem \<Rightarrow> list_mem option" where
  "list_del_entry e m = do { p \<leftarrow> rd_prev e m; n \<leftarrow> rd_next e m; list_del_between p n m }"

definition list_del :: "nat \<Rightarrow> list_mem \<Rightarrow> list_mem option" where
  "list_del e m = do {
     p \<leftarrow> rd_prev e m;
     n \<leftarrow> rd_next e m;
     m \<leftarrow> list_del_between p n m;
     m \<leftarrow> wr_next e LIST_POISON1 m;
     wr_prev e LIST_POISON2 m }"

definition list_replace :: "nat \<Rightarrow> nat \<Rightarrow> list_mem \<Rightarrow> list_mem option" where
  "list_replace old ne m = do {
     n \<leftarrow> rd_next old m;
     m \<leftarrow> wr_next ne n m;
     n \<leftarrow> rd_next ne m;
     m \<leftarrow> wr_prev n ne m;
     p \<leftarrow> rd_prev old m;
     m \<leftarrow> wr_prev ne p m;
     p \<leftarrow> rd_prev ne m;
     wr_next p ne m }"

definition list_replace_init :: "nat \<Rightarrow> nat \<Rightarrow> list_mem \<Rightarrow> list_mem option" where
  "list_replace_init old ne m = do { m \<leftarrow> list_replace old ne m; INIT_LIST_HEAD old m }"

definition list_del_init :: "nat \<Rightarrow> list_mem \<Rightarrow> list_mem option" where
  "list_del_init e m = do { m \<leftarrow> list_del_entry e m; INIT_LIST_HEAD e m }"

definition list_move :: "nat \<Rightarrow> nat \<Rightarrow> list_mem \<Rightarrow> list_mem option" where
  "list_move l head m = do { m \<leftarrow> list_del_entry l m; list_add l head m }"

definition list_move_tail :: "nat \<Rightarrow> nat \<Rightarrow> list_mem \<Rightarrow> list_mem option" where
  "list_move_tail l head m = do { m \<leftarrow> list_del_entry l m; list_add_tail l head m }"

definition list_is_last :: "nat \<Rightarrow> nat \<Rightarrow> list_mem \<Rightarrow> bool option" where
  "list_is_last l head m = do { n \<leftarrow> rd_next l m; Some (n = head) }"

definition list_empty :: "nat \<Rightarrow> list_mem \<Rightarrow> bool option" where
  "list_empty head m = do { n \<leftarrow> rd_next head m; Some (n = head) }"

definition list_empty_careful :: "nat \<Rightarrow> list_mem \<Rightarrow> bool option" where
  "list_empty_careful head m = do {
     n \<leftarrow> rd_next head m;
     if n = head then do { p \<leftarrow> rd_prev head m; Some (n = p) } else Some False }"

definition list_rotate_left :: "nat \<Rightarrow> list_mem \<Rightarrow> list_mem option" where
  "list_rotate_left head m = do {
     e \<leftarrow> list_empty head m;
     if \<not> e then do { first \<leftarrow> rd_next head m; list_move_tail first head m } else Some m }"

definition list_is_singular :: "nat \<Rightarrow> list_mem \<Rightarrow> bool option" where
  "list_is_singular head m = do {
     e \<leftarrow> list_empty head m;
     if \<not> e then do { n \<leftarrow> rd_next head m; p \<leftarrow> rd_prev head m; Some (n = p) } else Some False }"

definition list_cut_between :: "nat \<Rightarrow> nat \<Rightarrow> nat \<Rightarrow> list_mem \<Rightarrow> list_mem option" where
  "list_cut_between l head e m = do {
     ne_first \<leftarrow> rd_next e m;
     n \<leftarrow> rd_next head m;
     m \<leftarrow> wr_next l n m;
     n \<leftarrow> rd_next l m;
     m \<leftarrow> wr_prev n l m;
     m \<leftarrow> wr_prev l e m;
     m \<leftarrow> wr_next e l m;
     m \<leftarrow> wr_next head ne_first m;
     wr_prev ne_first head m }"

definition list_cut_position :: "nat \<Rightarrow> nat \<Rightarrow> nat \<Rightarrow> list_mem \<Rightarrow> list_mem option" where
  "list_cut_position l head e m = do {
     empty \<leftarrow> list_empty head m;
     if empty then Some m
     else do {
       sing \<leftarrow> list_is_singular head m;
       n \<leftarrow> rd_next head m;
       if sing \<and> n \<noteq> e \<and> head \<noteq> e then Some m
       else if e = head then INIT_LIST_HEAD l m
       else list_cut_between l head e m } }"

definition list_splice_between :: "nat \<Rightarrow> nat \<Rightarrow> nat \<Rightarrow> list_mem \<Rightarrow> list_mem option" where
  "list_splice_between l prev next m = do {
     first \<leftarrow> rd_next l m;
     last \<leftarrow> rd_prev l m;
     m \<leftarrow> wr_prev first prev m;
     m \<leftarrow> wr_next prev first m;
     m \<leftarrow> wr_next last next m;
     wr_prev next last m }"

definition list_splice :: "nat \<Rightarrow> nat \<Rightarrow> list_mem \<Rightarrow> list_mem option" where
  "list_splice l head m = do {
     e \<leftarrow> list_empty l m;
     if \<not> e then do { n \<leftarrow> rd_next head m; list_splice_between l head n m } else Some m }"

definition list_splice_tail :: "nat \<Rightarrow> nat \<Rightarrow> list_mem \<Rightarrow> list_mem option" where
  "list_splice_tail l head m = do {
     e \<leftarrow> list_empty l m;
     if \<not> e then do { p \<leftarrow> rd_prev head m; list_splice_between l p head m } else Some m }"

definition list_splice_init :: "nat \<Rightarrow> nat \<Rightarrow> list_mem \<Rightarrow> list_mem option" where
  "list_splice_init l head m = do {
     e \<leftarrow> list_empty l m;
     if \<not> e then do {
       n \<leftarrow> rd_next head m;
       m \<leftarrow> list_splice_between l head n m;
       INIT_LIST_HEAD l m }
     else Some m }"

definition list_splice_tail_init :: "nat \<Rightarrow> nat \<Rightarrow> list_mem \<Rightarrow> list_mem option" where
  "list_splice_tail_init l head m = do {
     e \<leftarrow> list_empty l m;
     if \<not> e then do {
       p \<leftarrow> rd_prev head m;
       m \<leftarrow> list_splice_between l p head m;
       INIT_LIST_HEAD l m }
     else Some m }"

subsection \<open>Loops\<close>

text \<open>\<open>list_for_each\<close> and its variants read the next entry after the body, the \<open>_safe\<close>
  variants before it.  The two loops without a body collect the entries they visit; the
  loops with a body run it on every entry.  A loop over a damaged list need not end, and
  \<open>None\<close> stands for that as well as for a fault.\<close>

partial_function (option) walk_next :: "list_mem \<Rightarrow> nat \<Rightarrow> nat \<Rightarrow> nat list option" where
  "walk_next m head pos = (if pos = head then Some [] else do {
     n \<leftarrow> rd_next pos m;
     vs \<leftarrow> walk_next m head n;
     Some (pos # vs) })"

partial_function (option) walk_prev :: "list_mem \<Rightarrow> nat \<Rightarrow> nat \<Rightarrow> nat list option" where
  "walk_prev m head pos = (if pos = head then Some [] else do {
     n \<leftarrow> rd_prev pos m;
     vs \<leftarrow> walk_prev m head n;
     Some (pos # vs) })"

definition list_for_each :: "nat \<Rightarrow> list_mem \<Rightarrow> nat list option" where
  "list_for_each head m = do { pos \<leftarrow> rd_next head m; walk_next m head pos }"

definition list_for_each_prev :: "nat \<Rightarrow> list_mem \<Rightarrow> nat list option" where
  "list_for_each_prev head m = do { pos \<leftarrow> rd_prev head m; walk_prev m head pos }"

definition list_for_each_entry_continue :: "nat \<Rightarrow> nat \<Rightarrow> list_mem \<Rightarrow> nat list option" where
  "list_for_each_entry_continue pos head m = do { pos \<leftarrow> rd_next pos m; walk_next m head pos }"

partial_function (option) each_do ::
  "(nat \<Rightarrow> list_mem \<Rightarrow> list_mem option) \<Rightarrow> nat \<Rightarrow> nat \<Rightarrow> list_mem \<Rightarrow> list_mem option" where
  "each_do body head pos m = (if pos = head then Some m else do {
     m \<leftarrow> body pos m;
     n \<leftarrow> rd_next pos m;
     each_do body head n m })"

definition list_for_each_do ::
  "(nat \<Rightarrow> list_mem \<Rightarrow> list_mem option) \<Rightarrow> nat \<Rightarrow> list_mem \<Rightarrow> list_mem option" where
  "list_for_each_do body head m = do { pos \<leftarrow> rd_next head m; each_do body head pos m }"

partial_function (option) each_safe_do ::
  "(nat \<Rightarrow> list_mem \<Rightarrow> list_mem option) \<Rightarrow> nat \<Rightarrow> nat \<Rightarrow> nat \<Rightarrow> list_mem \<Rightarrow> list_mem option" where
  "each_safe_do body head pos n m = (if pos = head then Some m else do {
     m \<leftarrow> body pos m;
     n' \<leftarrow> rd_next n m;
     each_safe_do body head n n' m })"

definition list_for_each_safe ::
  "(nat \<Rightarrow> list_mem \<Rightarrow> list_mem option) \<Rightarrow> nat \<Rightarrow> list_mem \<Rightarrow> list_mem option" where
  "list_for_each_safe body head m = do {
     pos \<leftarrow> rd_next head m;
     n \<leftarrow> rd_next pos m;
     each_safe_do body head pos n m }"

section \<open>Chains and rings\<close>

text \<open>\<open>chain f g a xs b\<close>: following \<open>next\<close> (\<open>f\<close>) from \<open>a\<close> gives the entries \<open>xs\<close> and then
  \<open>b\<close>, and every \<open>prev\<close> (\<open>g\<close>) on the way points back.\<close>

primrec chain :: "(nat \<Rightarrow> nat) \<Rightarrow> (nat \<Rightarrow> nat) \<Rightarrow> nat \<Rightarrow> nat list \<Rightarrow> nat \<Rightarrow> bool" where
  "chain f g a [] b \<longleftrightarrow> f a = b \<and> g b = a"
| "chain f g a (x # xs) b \<longleftrightarrow> f a = x \<and> g x = a \<and> chain f g x xs b"

definition ring :: "list_mem \<Rightarrow> nat \<Rightarrow> nat list \<Rightarrow> bool" where
  "ring m h xs \<longleftrightarrow> distinct (h # xs) \<and> (\<forall>x\<in>set (h # xs). addressable x) \<and>
     chain (lm_next m) (lm_prev m) h xs h"

named_theorems lmem \<open>accesses to valid addresses\<close>

lemma rd_wr_addressable [lmem]:
  assumes "addressable a"
  shows "rd_next a m = Some (lm_next m a)" "rd_prev a m = Some (lm_prev m a)"
    "wr_next a v m = Some (m\<lparr>lm_next := (lm_next m)(a := v)\<rparr>)"
    "wr_prev a v m = Some (m\<lparr>lm_prev := (lm_prev m)(a := v)\<rparr>)"
  using assms by (simp_all add: rd_next_def rd_prev_def wr_next_def wr_prev_def)

lemma chain_append:
  "chain f g a (xs @ y # ys) b \<longleftrightarrow> chain f g a xs y \<and> chain f g y ys b"
  by (induction xs arbitrary: a) auto

lemma chain_frame [simp]:
  "u \<noteq> a \<Longrightarrow> u \<notin> set xs \<Longrightarrow> chain (f(u := v)) g a xs b = chain f g a xs b"
  "u \<noteq> b \<Longrightarrow> u \<notin> set xs \<Longrightarrow> chain f (g(u := v)) a xs b = chain f g a xs b"
  by (induction xs arbitrary: a) (auto simp: fun_upd_def)

lemma link_chain_cong:
  assumes "\<And>x. x \<in> set (a # xs) \<Longrightarrow> f' x = f x" "\<And>x. x \<in> set (b # xs) \<Longrightarrow> g' x = g x"
  shows "chain f' g' a xs b = chain f g a xs b"
  using assms by (induction xs arbitrary: a) auto

lemma chain_hd: "chain f g a xs b \<Longrightarrow> f a = hd (xs @ [b])"
  by (cases xs) auto

lemma chain_last: "chain f g a xs b \<Longrightarrow> g b = last (a # xs)"
  by (induction xs arbitrary: a) auto

text \<open>Giving a non-empty chain new ends needs four writes, the ones the splice and the
  cut do.\<close>

lemma chain_retarget:
  assumes "chain f g l ys l'" "ys \<noteq> []" "distinct ys" "a \<notin> set ys" "b \<notin> set ys"
  shows "chain (f(a := hd ys, last ys := b)) (g(hd ys := a, b := last ys)) a ys b"
  using assms
proof (cases ys rule: rev_cases)
  case (snoc zs z)
  show ?thesis
  proof (cases zs)
    case Nil
    then show ?thesis using assms snoc by auto
  next
    case (Cons w ws)
    have "chain f g w ws z" using assms(1) by (simp add: snoc Cons chain_append)
    then show ?thesis using assms snoc Cons by (auto simp: chain_append fun_upd_twist)
  qed
qed simp

section \<open>The operations on one ring\<close>

definition same_outside :: "nat set \<Rightarrow> list_mem \<Rightarrow> list_mem \<Rightarrow> bool" where
  "same_outside A m m' \<longleftrightarrow> (\<forall>a. a \<notin> A \<longrightarrow> lm_next m' a = lm_next m a \<and> lm_prev m' a = lm_prev m a)"

lemma same_outside_trans:
  "same_outside A m m' \<Longrightarrow> same_outside B m' m'' \<Longrightarrow> same_outside (A \<union> B) m m''"
  by (simp add: same_outside_def)

lemma same_outside_mono: "same_outside A m m' \<Longrightarrow> A \<subseteq> B \<Longrightarrow> same_outside B m m'"
  by (auto simp: same_outside_def)

lemma ring_frame:
  assumes "ring m h xs" "same_outside A m m'" "set (h # xs) \<inter> A = {}"
  shows "ring m' h xs"
proof -
  have "lm_next m' x = lm_next m x \<and> lm_prev m' x = lm_prev m x" if "x \<in> set (h # xs)" for x
    using assms(2,3) that unfolding same_outside_def by blast
  then have "chain (lm_next m') (lm_prev m') h xs h = chain (lm_next m) (lm_prev m) h xs h"
    by (intro link_chain_cong) simp_all
  with assms(1) show ?thesis by (simp add: ring_def)
qed

lemma ring_ends:
  assumes "ring m h xs"
  shows "lm_next m h = hd (xs @ [h])" "lm_prev m h = last (h # xs)"
  using assms chain_hd chain_last unfolding ring_def by blast+

lemma ring_around:
  assumes "ring m h (xs @ x # ys)"
  shows "lm_next m x = hd (ys @ [h])" "lm_prev m x = last (h # xs)"
  using assms chain_hd chain_last unfolding ring_def chain_append by blast+

lemma ring_addressable: "ring m h xs \<Longrightarrow> x \<in> set (h # xs) \<Longrightarrow> addressable x"
  by (auto simp: ring_def)

lemma ring_ends_addressable:
  assumes "ring m h xs"
  shows "addressable h" "addressable (hd (xs @ [h]))" "addressable (last (h # xs))"
  using assms last_in_set [of "h # xs"] by (auto simp: ring_def hd_append)

lemma init_ring:
  assumes "addressable l"
  shows "\<exists>m'. INIT_LIST_HEAD l m = Some m' \<and> ring m' l [] \<and> same_outside {l} m m'"
  using assms by (simp add: INIT_LIST_HEAD_def lmem ring_def same_outside_def)

lemma list_add_between_ring:
  assumes r: "ring m h (xs @ ys)" and n: "addressable n" "n \<notin> set (h # xs @ ys)"
  shows "\<exists>m'. list_add_between n (last (h # xs)) (hd (ys @ [h])) m = Some m' \<and>
    ring m' h (xs @ n # ys) \<and> same_outside (insert n (set (h # xs @ ys))) m m'"
proof -
  have "addressable (last (h # xs))" "addressable (hd (ys @ [h]))"
    using r last_in_set [of "h # xs"] by (auto simp: ring_def hd_append)
  then show ?thesis using r n
    by (cases xs rule: rev_cases; cases ys)
      (auto simp: list_add_between_def lmem ring_def chain_append same_outside_def)
qed

lemma list_del_between_ring:
  assumes r: "ring m h (xs @ x # ys)"
  shows "\<exists>m'. list_del_between (last (h # xs)) (hd (ys @ [h])) m = Some m' \<and>
    ring m' h (xs @ ys) \<and> same_outside (set (h # xs @ ys)) m m'"
proof -
  have "addressable (last (h # xs))" "addressable (hd (ys @ [h]))"
    using r last_in_set [of "h # xs"] by (auto simp: ring_def hd_append)
  then show ?thesis using r
    by (cases xs rule: rev_cases; cases ys)
      (auto simp: list_del_between_def lmem ring_def chain_append same_outside_def)
qed

lemma list_add_ring:
  assumes r: "ring m h xs" and n: "addressable n" "n \<notin> set (h # xs)"
  shows "\<exists>m'. list_add n h m = Some m' \<and> ring m' h (n # xs) \<and>
    same_outside (insert n (set (h # xs))) m m'"
  using list_add_between_ring [of m h "[]" xs n] r n ring_ends [OF r] ring_ends_addressable [OF r]
  by (simp add: list_add_def lmem)

lemma list_add_tail_ring:
  assumes r: "ring m h xs" and n: "addressable n" "n \<notin> set (h # xs)"
  shows "\<exists>m'. list_add_tail n h m = Some m' \<and> ring m' h (xs @ [n]) \<and>
    same_outside (insert n (set (h # xs))) m m'"
  using list_add_between_ring [of m h xs "[]" n] r n ring_ends [OF r] ring_ends_addressable [OF r]
  by (simp add: list_add_tail_def lmem)

lemma list_del_entry_ring:
  assumes r: "ring m h (xs @ x # ys)"
  shows "\<exists>m'. list_del_entry x m = Some m' \<and> ring m' h (xs @ ys) \<and>
    same_outside (set (h # xs @ ys)) m m'"
  using list_del_between_ring [OF r] ring_around [OF r] ring_addressable [OF r, of x]
  by (simp add: list_del_entry_def lmem)

lemma list_del_ring:
  assumes r: "ring m h (xs @ x # ys)"
  shows "\<exists>m'. list_del x m = Some m' \<and> ring m' h (xs @ ys) \<and>
    lm_next m' x = LIST_POISON1 \<and> lm_prev m' x = LIST_POISON2 \<and>
    same_outside (set (h # xs @ x # ys)) m m'"
proof -
  obtain m1 where m1: "list_del_between (last (h # xs)) (hd (ys @ [h])) m = Some m1"
    "ring m1 h (xs @ ys)" "same_outside (set (h # xs @ ys)) m m1"
    using list_del_between_ring [OF r] by blast
  have x: "addressable x" using ring_addressable [OF r] by simp
  define m2 where "m2 = m1\<lparr>lm_next := (lm_next m1)(x := LIST_POISON1),
    lm_prev := (lm_prev m1)(x := LIST_POISON2)\<rparr>"
  have d: "list_del x m = Some m2"
    using m1(1) ring_around [OF r] x by (simp add: list_del_def lmem m2_def)
  have s: "same_outside {x} m1 m2" by (simp add: m2_def same_outside_def)
  have "x \<notin> set (h # xs @ ys)" using r by (auto simp: ring_def)
  then have "ring m2 h (xs @ ys)" using ring_frame [OF m1(2) s] by simp
  moreover have "same_outside (set (h # xs @ x # ys)) m m2"
    by (rule same_outside_mono [OF same_outside_trans [OF m1(3) s]]) auto
  ultimately show ?thesis using d by (simp add: m2_def)
qed

lemma list_del_init_ring:
  assumes r: "ring m h (xs @ x # ys)"
  shows "\<exists>m'. list_del_init x m = Some m' \<and> ring m' h (xs @ ys) \<and> ring m' x [] \<and>
    same_outside (set (h # xs @ x # ys)) m m'"
proof -
  obtain m1 where m1: "list_del_entry x m = Some m1" "ring m1 h (xs @ ys)"
    "same_outside (set (h # xs @ ys)) m m1"
    using list_del_entry_ring [OF r] by blast
  obtain m2 where m2: "INIT_LIST_HEAD x m1 = Some m2" "ring m2 x []" "same_outside {x} m1 m2"
    using init_ring ring_addressable [OF r, of x] by auto
  have "x \<notin> set (h # xs @ ys)" using r by (auto simp: ring_def)
  then have "ring m2 h (xs @ ys)" using ring_frame [OF m1(2) m2(3)] by simp
  moreover have "same_outside (set (h # xs @ x # ys)) m m2"
    by (rule same_outside_mono [OF same_outside_trans [OF m1(3) m2(3)]]) auto
  ultimately show ?thesis using m1 m2 by (simp add: list_del_init_def)
qed

text \<open>Replacing an entry, or a head: the new node takes the place of the old one.\<close>

lemma list_replace_entry_ring:
  assumes r: "ring m h (xs @ old # ys)" and n: "addressable n" "n \<notin> set (h # xs @ old # ys)"
  shows "\<exists>m'. list_replace old n m = Some m' \<and> ring m' h (xs @ n # ys) \<and>
    same_outside (set (n # h # xs @ ys)) m m'"
proof -
  have "addressable (last (h # xs))" "addressable (hd (ys @ [h]))" "addressable old"
    using r last_in_set [of "h # xs"] by (auto simp: ring_def hd_append)
  then show ?thesis using r n
    by (cases xs rule: rev_cases; cases ys)
      (auto simp: list_replace_def lmem ring_def chain_append same_outside_def)
qed

lemma list_splice_between_rings:
  assumes l: "ring m l ys" "ys \<noteq> []" and r: "ring m h (xs @ zs)"
    and d: "set (l # ys) \<inter> set (h # xs @ zs) = {}"
  shows "\<exists>m'. list_splice_between l (last (h # xs)) (hd (zs @ [h])) m = Some m' \<and>
    ring m' h (xs @ ys @ zs) \<and> same_outside (set (h # xs @ ys @ zs)) m m'"
proof -
  let ?p = "last (h # xs)" and ?q = "hd (zs @ [h])"
  let ?f = "(lm_next m)(?p := hd ys, last ys := ?q)"
  let ?g = "(lm_prev m)(hd ys := ?p, ?q := last ys)"
  define m' where "m' = m\<lparr>lm_next := ?f, lm_prev := ?g\<rparr>"
  have pq: "?p \<in> set (h # xs)" "?q \<in> set (h # zs)" by (cases xs rule: rev_cases; simp) (cases zs; simp)
  have e: "hd ys \<in> set ys" "last ys \<in> set ys" using l(2) by simp_all
  have pq': "?p \<notin> set ys" "?q \<notin> set ys" using pq d by auto
  have mp: "addressable ?p" "addressable ?q" "addressable (hd ys)" "addressable (last ys)" "addressable l"
    using r l(1) pq e by (auto simp: ring_def)
  have ends: "lm_next m l = hd ys" "lm_prev m l = last ys"
    using ring_ends [OF l(1)] l(2) by simp_all
  have run: "list_splice_between l ?p ?q m = Some m'"
    using mp ends by (simp add: list_splice_between_def lmem m'_def)
  have mid: "chain ?f ?g ?p ys ?q"
    using chain_retarget [of "lm_next m" "lm_prev m" l ys l ?p ?q] l pq' by (simp add: ring_def)
  have dd: "distinct (h # xs @ zs)" using r by (simp add: ring_def)
  have left: "chain ?f ?g h us u" if "xs = us @ [u]" for us u
  proof -
    have "chain (lm_next m) (lm_prev m) h us u" using r that by (simp add: ring_def chain_append)
    moreover have "hd ys \<notin> set (u # us)" "last ys \<notin> set (h # us)" "?p \<notin> set (h # us)" "?q \<notin> set (u # us)"
      using e d dd pq(2) that by auto
    ultimately show ?thesis by simp
  qed
  have right: "chain ?f ?g v vs h" if "zs = v # vs" for v vs
  proof -
    have "chain (lm_next m) (lm_prev m) v vs h" using r that by (simp add: ring_def chain_append)
    moreover have "hd ys \<notin> set (h # vs)" "last ys \<notin> set (v # vs)" "?p \<notin> set (v # vs)" "?q \<notin> set (h # vs)"
      using e d dd pq(1) that by auto
    ultimately show ?thesis by simp
  qed
  have "chain ?f ?g h (xs @ ys @ zs) h"
    using mid left right
    by (cases xs rule: rev_cases; cases zs) (simp_all add: chain_append del: fun_upd_apply chain_frame)
  then have "ring m' h (xs @ ys @ zs)"
    using l r d by (auto simp: ring_def m'_def simp del: fun_upd_apply)
  moreover have "same_outside (set (h # xs @ ys @ zs)) m m'"
    using pq e by (auto simp: same_outside_def m'_def)
  ultimately show ?thesis using run by blast
qed

lemma list_cut_between_ring:
  assumes r: "ring m h (xs @ e # ys)" and l: "addressable l" "l \<notin> set (h # xs @ e # ys)"
  shows "\<exists>m'. list_cut_between l h e m = Some m' \<and> ring m' l (xs @ [e]) \<and> ring m' h ys \<and>
    same_outside (set (l # h # xs @ e # ys)) m m'"
proof -
  let ?zs = "xs @ [e]" and ?n = "hd (ys @ [h])"
  let ?f = "(lm_next m)(l := hd ?zs, e := l)" and ?g = "(lm_prev m)(hd ?zs := l, l := e)"
  define m' where "m' = m\<lparr>lm_next := ?f(h := ?n), lm_prev := ?g(?n := h)\<rparr>"
  have c: "chain (lm_next m) (lm_prev m) h ?zs ?n" "ys = v # vs \<Longrightarrow> chain (lm_next m) (lm_prev m) v vs h" for v vs
    using r by (cases ys; auto simp: ring_def chain_append)+
  have dd: "distinct (h # ?zs @ ys)" using r by (simp add: ring_def)
  have n: "?n \<in> set (h # ys)" "hd ?zs \<in> set ?zs" by (cases ys; simp) (cases xs; simp)
  then have n': "?n \<notin> set ?zs" "?n \<noteq> l" "hd ?zs \<noteq> h" "hd ?zs \<notin> set ys" using dd l(2) by auto
  have mp: "addressable h" "addressable e" "addressable ?n" "addressable (hd ?zs)" using r n by (auto simp: ring_def)
  have ends: "lm_next m h = hd ?zs" "lm_next m e = ?n"
    using ring_ends(1) [OF r] ring_around(1) [OF r] by (cases xs; simp)+
  have run: "list_cut_between l h e m = Some m'"
    using mp l ends dd by (simp add: list_cut_between_def lmem m'_def)
  have "chain ?f ?g l ?zs l"
    using chain_retarget [OF c(1), of l l] dd l(2) by simp
  then have "chain (?f(h := ?n)) (?g(?n := h)) l ?zs l"
    using n' dd l(2) by (auto simp del: fun_upd_apply)
  then have "ring m' l ?zs" using r l by (auto simp: ring_def m'_def simp del: fun_upd_apply)
  moreover have "ring m' h ys"
    using r l n' dd c(2) by (cases ys) (auto simp: ring_def m'_def)
  moreover have "same_outside (set (l # h # xs @ e # ys)) m m'"
    using n by (auto simp: same_outside_def m'_def)
  ultimately show ?thesis using run by blast
qed

section \<open>Families of rings\<close>

text \<open>A memory holds many lists at once.  \<open>rings m L\<close>: every head \<open>h\<close> in the domain of \<open>L\<close>
  is the head of a ring with the entries \<open>L h\<close>, and no node is on two rings.\<close>

definition nodes :: "(nat \<rightharpoonup> nat list) \<Rightarrow> nat set" where
  "nodes L = {x. \<exists>h xs. L h = Some xs \<and> x \<in> set (h # xs)}"

definition rings :: "list_mem \<Rightarrow> (nat \<rightharpoonup> nat list) \<Rightarrow> bool" where
  "rings m L \<longleftrightarrow> (\<forall>h xs. L h = Some xs \<longrightarrow> ring m h xs) \<and>
     (\<forall>h k xs ys. L h = Some xs \<longrightarrow> L k = Some ys \<longrightarrow> h \<noteq> k \<longrightarrow> set (h # xs) \<inter> set (k # ys) = {})"

definition unlinked :: "(nat \<rightharpoonup> nat list) \<Rightarrow> nat \<Rightarrow> bool" where
  "unlinked L n \<longleftrightarrow> addressable n \<and> n \<notin> nodes L"

text \<open>The nodes an operation on the rings with heads \<open>K\<close> may touch: theirs, and those on
  no ring.\<close>

definition avail :: "(nat \<rightharpoonup> nat list) \<Rightarrow> nat set \<Rightarrow> nat \<Rightarrow> bool" where
  "avail L K x \<longleftrightarrow> x \<notin> nodes L \<or> (\<exists>k\<in>K. \<exists>xs. L k = Some xs \<and> x \<in> set (k # xs))"

lemma nodesI: "L h = Some xs \<Longrightarrow> x \<in> set (h # xs) \<Longrightarrow> x \<in> nodes L"
  unfolding nodes_def by blast

lemma ringsD: "rings m L \<Longrightarrow> L h = Some xs \<Longrightarrow> ring m h xs"
  by (simp add: rings_def)

lemma rings_disjoint:
  "rings m L \<Longrightarrow> L h = Some xs \<Longrightarrow> L k = Some ys \<Longrightarrow> h \<noteq> k \<Longrightarrow> set (h # xs) \<inter> set (k # ys) = {}"
  unfolding rings_def by blast

lemma avail_other:
  assumes "rings m L" "L h = Some xs" "h \<notin> K" "avail L K x"
  shows "x \<notin> set (h # xs)"
proof
  assume x: "x \<in> set (h # xs)"
  then have "x \<in> nodes L" using assms(2) nodesI by blast
  then obtain k ys where k: "k \<in> K" "L k = Some ys" "x \<in> set (k # ys)"
    using assms(4) unfolding avail_def by blast
  then have "h \<noteq> k" using assms(3) by blast
  then show False using rings_disjoint [OF assms(1,2) k(2)] x k(3) by blast
qed

lemma rings_update:
  assumes r: "rings m L" and s: "same_outside A m m'" and A: "\<And>x. x \<in> A \<Longrightarrow> avail L K x"
    and same: "\<And>h. h \<notin> K \<Longrightarrow> L' h = L h"
    and new: "\<And>h xs. h \<in> K \<Longrightarrow> L' h = Some xs \<Longrightarrow> ring m' h xs \<and> (\<forall>x\<in>set (h # xs). avail L K x)"
    and dis: "\<And>h k xs ys. h \<in> K \<Longrightarrow> k \<in> K \<Longrightarrow> h \<noteq> k \<Longrightarrow> L' h = Some xs \<Longrightarrow> L' k = Some ys \<Longrightarrow>
      set (h # xs) \<inter> set (k # ys) = {}"
  shows "rings m' L'"
proof -
  have apart: "set (h # xs) \<inter> set (k # ys) = {}"
    if "h \<notin> K" "L h = Some xs" "k \<in> K" "L' k = Some ys" for h xs k ys
    using avail_other [OF r that(2,1)] new [OF that(3,4)] by blast
  have "ring m' h xs" if "L' h = Some xs" for h xs
  proof (cases "h \<in> K")
    case False
    then have L: "L h = Some xs" using same that by simp
    have "set (h # xs) \<inter> A = {}" using avail_other [OF r L False] A by blast
    then show ?thesis using ring_frame [OF ringsD [OF r L] s] by blast
  qed (use new that in blast)
  moreover have "set (h # xs) \<inter> set (k # ys) = {}"
    if "L' h = Some xs" "L' k = Some ys" "h \<noteq> k" for h k xs ys
    using that same dis [of h k xs ys] apart [of h xs k ys] apart [of k ys h xs]
      rings_disjoint [OF r, of h xs k ys]
    by (cases "h \<in> K"; cases "k \<in> K") (metis Int_commute)+
  ultimately show ?thesis unfolding rings_def by blast
qed

lemma rings_update_one:
  assumes "rings m L" "L h = Some xs" "ring m' h xs'" "same_outside A m m'"
    and "A \<union> set xs' \<subseteq> set (h # xs) \<union> - nodes L"
  shows "rings m' (L(h \<mapsto> xs'))"
proof -
  have av: "avail L {h} x" if "x \<in> A \<union> set (h # xs')" for x
    using that assms(2,5) unfolding avail_def by auto
  show ?thesis
    by (rule rings_update [OF assms(1,4), of "{h}"]) (use av assms(3) in auto)
qed

lemma rings_update_two:
  assumes "rings m L" "same_outside A m m'" "h \<noteq> k" "L h = Some xs"
    and "ring m' h xs'" "ring m' k ys'" "set (h # xs') \<inter> set (k # ys') = {}"
    and "A \<union> set (k # ys') \<union> set xs' \<subseteq> set (h # xs) \<union> - nodes L \<or>
      (\<exists>ys. L k = Some ys \<and> A \<union> set ys' \<union> set xs' \<subseteq> set (h # xs) \<union> set (k # ys) \<union> - nodes L)"
  shows "rings m' (L(h \<mapsto> xs', k \<mapsto> ys'))"
proof -
  have av: "avail L {h, k} x" if "x \<in> A \<union> set (h # xs') \<union> set (k # ys')" for x
    using that assms(4,8) unfolding avail_def by auto
  show ?thesis
    by (rule rings_update [OF assms(1,2), of "{h, k}"])
      (use av assms(3,5,6,7) in \<open>auto split: if_splits\<close>)
qed

lemma nodes_upd:
  "L h = Some xs \<Longrightarrow> nodes (L(h \<mapsto> xs')) \<subseteq> nodes L \<union> set xs'"
  unfolding nodes_def by (auto split: if_splits)

lemma unlinked_not_node: "unlinked L n \<Longrightarrow> L h = Some xs \<Longrightarrow> n \<notin> set (h # xs)"
  unfolding unlinked_def using nodesI by blast

lemma rings_init:
  assumes r: "rings m L" and n: "unlinked L n"
  shows "\<exists>m'. INIT_LIST_HEAD n m = Some m' \<and> rings m' (L(n \<mapsto> []))"
proof -
  obtain m' where m': "INIT_LIST_HEAD n m = Some m'" "ring m' n []" "same_outside {n} m m'"
    using init_ring n unfolding unlinked_def by blast
  have "rings m' (L(n \<mapsto> []))"
    by (rule rings_update [OF r m'(3), of "{n}"]) (use n m'(2) in \<open>auto simp: avail_def unlinked_def\<close>)
  with m' show ?thesis by blast
qed

lemma rings_add:
  assumes r: "rings m L" and h: "L h = Some xs" and n: "unlinked L n"
  shows "\<exists>m'. list_add n h m = Some m' \<and> rings m' (L(h \<mapsto> n # xs))"
proof -
  obtain m' where m': "list_add n h m = Some m'" "ring m' h (n # xs)"
    "same_outside (insert n (set (h # xs))) m m'"
    using list_add_ring [OF ringsD [OF r h]] n unlinked_not_node [OF n h] by (auto simp: unlinked_def)
  show ?thesis
    using rings_update_one [OF r h m'(2,3)] n m'(1) by (auto simp: unlinked_def)
qed

lemma rings_add_tail:
  assumes r: "rings m L" and h: "L h = Some xs" and n: "unlinked L n"
  shows "\<exists>m'. list_add_tail n h m = Some m' \<and> rings m' (L(h \<mapsto> xs @ [n]))"
proof -
  obtain m' where m': "list_add_tail n h m = Some m'" "ring m' h (xs @ [n])"
    "same_outside (insert n (set (h # xs))) m m'"
    using list_add_tail_ring [OF ringsD [OF r h]] n unlinked_not_node [OF n h] by (auto simp: unlinked_def)
  show ?thesis
    using rings_update_one [OF r h m'(2,3)] n m'(1) by (auto simp: unlinked_def)
qed

lemma unlinked_removed:
  assumes r: "rings m L" and h: "L h = Some (xs @ x # ys)"
  shows "unlinked (L(h \<mapsto> xs @ ys)) x"
proof -
  have ring: "ring m h (xs @ x # ys)" using ringsD [OF r h] .
  have "x \<notin> set (k # zs)" if "L k = Some zs" "k \<noteq> h" for k zs
    using rings_disjoint [OF r h that(1)] that(2) by auto
  then have "x \<notin> nodes (L(h \<mapsto> xs @ ys))"
    using ring unfolding nodes_def ring_def by (auto split: if_splits)
  then show ?thesis using ring by (simp add: unlinked_def ring_def)
qed

lemma rings_del_entry:
  assumes r: "rings m L" and h: "L h = Some (xs @ x # ys)"
  shows "\<exists>m'. list_del_entry x m = Some m' \<and> rings m' (L(h \<mapsto> xs @ ys))"
proof -
  obtain m' where m': "list_del_entry x m = Some m'" "ring m' h (xs @ ys)"
    "same_outside (set (h # xs @ ys)) m m'"
    using list_del_entry_ring [OF ringsD [OF r h]] by blast
  show ?thesis using rings_update_one [OF r h m'(2,3)] m'(1) by auto
qed

lemma rings_del:
  assumes r: "rings m L" and h: "L h = Some (xs @ x # ys)"
  shows "\<exists>m'. list_del x m = Some m' \<and> rings m' (L(h \<mapsto> xs @ ys)) \<and> lm_next m' x = LIST_POISON1"
proof -
  obtain m' where m': "list_del x m = Some m'" "ring m' h (xs @ ys)"
    "same_outside (set (h # xs @ x # ys)) m m'" "lm_next m' x = LIST_POISON1"
    using list_del_ring [OF ringsD [OF r h]] by blast
  show ?thesis using rings_update_one [OF r h m'(2,3)] m'(1,4) by auto
qed

lemma rings_del_init:
  assumes r: "rings m L" and h: "L h = Some (xs @ x # ys)"
  shows "\<exists>m'. list_del_init x m = Some m' \<and> rings m' (L(h \<mapsto> xs @ ys, x \<mapsto> []))"
proof -
  obtain m1 where m1: "list_del_entry x m = Some m1" "rings m1 (L(h \<mapsto> xs @ ys))"
    using rings_del_entry [OF r h] by blast
  show ?thesis
    using rings_init [OF m1(2) unlinked_removed [OF r h]] m1(1) by (simp add: list_del_init_def)
qed

lemma rings_move:
  assumes r: "rings m L" and h: "L h = Some (xs @ x # ys)" and k: "(L(h \<mapsto> xs @ ys)) k = Some zs"
  shows "\<exists>m'. list_move x k m = Some m' \<and> rings m' (L(h \<mapsto> xs @ ys, k \<mapsto> x # zs))"
    "\<exists>m'. list_move_tail x k m = Some m' \<and> rings m' (L(h \<mapsto> xs @ ys, k \<mapsto> zs @ [x]))"
proof -
  obtain m1 where m1: "list_del_entry x m = Some m1" "rings m1 (L(h \<mapsto> xs @ ys))"
    using rings_del_entry [OF r h] by blast
  note u = unlinked_removed [OF r h]
  show "\<exists>m'. list_move x k m = Some m' \<and> rings m' (L(h \<mapsto> xs @ ys, k \<mapsto> x # zs))"
    using rings_add [OF m1(2) k u] m1(1) by (simp add: list_move_def)
  show "\<exists>m'. list_move_tail x k m = Some m' \<and> rings m' (L(h \<mapsto> xs @ ys, k \<mapsto> zs @ [x]))"
    using rings_add_tail [OF m1(2) k u] m1(1) by (simp add: list_move_tail_def)
qed

lemma rings_replace:
  assumes r: "rings m L" and h: "L h = Some (xs @ x # ys)" and n: "unlinked L n"
  shows "\<exists>m'. list_replace x n m = Some m' \<and> rings m' (L(h \<mapsto> xs @ n # ys))"
proof -
  obtain m' where m': "list_replace x n m = Some m'" "ring m' h (xs @ n # ys)"
    "same_outside (set (n # h # xs @ ys)) m m'"
    using list_replace_entry_ring [OF ringsD [OF r h]] n unlinked_not_node [OF n h] by (auto simp: unlinked_def)
  show ?thesis using rings_update_one [OF r h m'(2,3)] n m'(1) by (auto simp: unlinked_def)
qed

lemma rings_replace_init:
  assumes r: "rings m L" and h: "L h = Some (xs @ x # ys)" and n: "unlinked L n"
  shows "\<exists>m'. list_replace_init x n m = Some m' \<and> rings m' (L(h \<mapsto> xs @ n # ys, x \<mapsto> []))"
proof -
  obtain m1 where m1: "list_replace x n m = Some m1" "rings m1 (L(h \<mapsto> xs @ n # ys))"
    using rings_replace [OF r h n] by blast
  have "x \<noteq> n" using unlinked_not_node [OF n h] by auto
  then have "unlinked (L(h \<mapsto> xs @ n # ys)) x"
    using unlinked_removed [OF r h] unfolding unlinked_def nodes_def by (auto split: if_splits)
  from rings_init [OF m1(2) this] m1(1) show ?thesis by (simp add: list_replace_init_def)
qed

subsection \<open>Observers\<close>

lemma ring_next_self: "ring m h xs \<Longrightarrow> lm_next m h = h \<longleftrightarrow> xs = []"
  by (cases xs) (auto simp: ring_def)

lemma list_empty_ring: "ring m h xs \<Longrightarrow> list_empty h m = Some (xs = [])"
  using ring_next_self ring_ends_addressable(1) by (auto simp: list_empty_def lmem)

lemma list_empty_careful_ring: "ring m h xs \<Longrightarrow> list_empty_careful h m = Some (xs = [])"
  using ring_next_self [of m h xs] ring_ends [of m h xs] ring_ends_addressable(1) [of m h xs]
  by (auto simp: list_empty_careful_def lmem)

lemma list_is_singular_ring:
  assumes r: "ring m h xs"
  shows "list_is_singular h m = Some (length xs = 1)"
proof (cases xs)
  case (Cons y ys)
  have d: "distinct (y # ys)" using r Cons by (simp add: ring_def)
  have "y = last (y # ys) \<longleftrightarrow> ys = []" using d last_in_set [of ys] by (cases ys) auto
  then show ?thesis
    using r Cons ring_ends [OF r] ring_ends_addressable(1) [OF r]
    by (auto simp: list_is_singular_def list_empty_ring lmem)
qed (use r in \<open>simp add: list_is_singular_def list_empty_ring\<close>)

lemma list_is_last_ring:
  assumes r: "ring m h xs" and x: "x \<in> set xs"
  shows "list_is_last x h m = Some (x = last xs)"
proof -
  obtain us vs where s: "xs = us @ x # vs" using split_list [OF x] by blast
  have d: "distinct (h # xs)" and mp: "addressable x" using r x by (auto simp: ring_def)
  have "lm_next m x = h \<longleftrightarrow> vs = []"
    using ring_around(1) [of m h us x vs] r d unfolding s by (cases vs) auto
  moreover have "x = last xs \<longleftrightarrow> vs = []"
    using d last_in_set [of vs] unfolding s by (cases vs) auto
  ultimately show ?thesis using mp by (simp add: list_is_last_def lmem)
qed

subsection \<open>Rotation, splices and cuts\<close>

lemma rings_rotate:
  assumes r: "rings m L" and h: "L h = Some xs"
  shows "\<exists>m'. list_rotate_left h m = Some m' \<and> rings m' (L(h \<mapsto> rotate1 xs))"
proof (cases xs)
  case Nil
  have "L(h \<mapsto> []) = L" using h Nil by (simp add: fun_upd_idem)
  then show ?thesis
    using r h Nil ringsD [OF r h] by (simp add: list_rotate_left_def list_empty_ring)
next
  case (Cons x ys)
  have "ring m h (x # ys)" using ringsD [OF r h] Cons by simp
  then have "list_rotate_left h m = list_move_tail x h m"
    using ring_ends [of m h "x # ys"] ring_ends_addressable(1) [of m h "x # ys"]
    by (simp add: list_rotate_left_def list_empty_ring lmem)
  then show ?thesis using rings_move(2) [OF r, of h "[]" x ys h ys] h Cons by simp
qed

lemma rings_splice_between:
  assumes r: "rings m L" and l: "L l = Some ys" "ys \<noteq> []" and h: "L h = Some (xs @ zs)" "h \<noteq> l"
  shows "\<exists>m'. list_splice_between l (last (h # xs)) (hd (zs @ [h])) m = Some m' \<and>
    rings m' (L(l := None, h \<mapsto> xs @ ys @ zs))"
proof -
  have d: "set (l # ys) \<inter> set (h # xs @ zs) = {}" using rings_disjoint [OF r l(1) h(1)] h(2) by simp
  obtain m' where m': "list_splice_between l (last (h # xs)) (hd (zs @ [h])) m = Some m'"
    "ring m' h (xs @ ys @ zs)" "same_outside (set (h # xs @ ys @ zs)) m m'"
    using list_splice_between_rings [OF ringsD [OF r l(1)] l(2) ringsD [OF r h(1)] d] by blast
  have "rings m' (L(l := None, h \<mapsto> xs @ ys @ zs))"
    by (rule rings_update [OF r m'(3), of "{h, l}"])
      (use m'(2) l h in \<open>auto simp: avail_def split: if_splits\<close>)
  with m'(1) show ?thesis by blast
qed

lemma rings_splice:
  assumes r: "rings m L" and l: "L l = Some ys" "ys \<noteq> []" and h: "L h = Some xs" "h \<noteq> l"
  shows "\<exists>m'. list_splice l h m = Some m' \<and> rings m' (L(l := None, h \<mapsto> ys @ xs))"
    "\<exists>m'. list_splice_tail l h m = Some m' \<and> rings m' (L(l := None, h \<mapsto> xs @ ys))"
  using rings_splice_between [OF r l, of h "[]" xs] rings_splice_between [OF r l, of h xs "[]"]
    h ring_ends [OF ringsD [OF r h(1)]] ring_ends_addressable [OF ringsD [OF r h(1)]]
    list_empty_ring [OF ringsD [OF r l(1)]] l(2)
  by (simp_all add: list_splice_def list_splice_tail_def lmem)

lemma unlinked_spliced:
  assumes r: "rings m L" and l: "L l = Some ys" and h: "L h = Some xs" "h \<noteq> l"
    and zs: "set zs = set ys \<union> set xs"
  shows "unlinked (L(l := None, h \<mapsto> zs)) l"
proof -
  have ring: "ring m l ys" using ringsD [OF r l] .
  have "l \<notin> set (k # vs)" if "L k = Some vs" "k \<noteq> l" for k vs
    using rings_disjoint [OF r l that(1)] that(2) by auto
  then have "l \<notin> nodes (L(l := None, h \<mapsto> zs))"
    using ring h zs unfolding nodes_def ring_def by (auto split: if_splits)
  then show ?thesis using ring by (simp add: unlinked_def ring_def)
qed

lemma rings_splice_init:
  assumes r: "rings m L" and l: "L l = Some ys" and h: "L h = Some xs" "h \<noteq> l"
  shows "\<exists>m'. list_splice_init l h m = Some m' \<and> rings m' (L(l \<mapsto> [], h \<mapsto> ys @ xs))"
    "\<exists>m'. list_splice_tail_init l h m = Some m' \<and> rings m' (L(l \<mapsto> [], h \<mapsto> xs @ ys))"
proof -
  have upd: "L(l := None, h \<mapsto> zs, l \<mapsto> []) = L(l \<mapsto> [], h \<mapsto> zs)" for zs
    using h(2) by auto
  have e: "list_empty l m = Some (ys = [])" using list_empty_ring [OF ringsD [OF r l]] .
  have same: "L(l \<mapsto> [], h \<mapsto> xs) = L" if "ys = []" using l h that by auto
  {
    assume ne: "ys \<noteq> []"
    obtain m1 where "list_splice l h m = Some m1" "rings m1 (L(l := None, h \<mapsto> ys @ xs))"
      using rings_splice(1) [OF r l ne h] by blast
    then have "\<exists>m'. list_splice_init l h m = Some m' \<and> rings m' (L(l \<mapsto> [], h \<mapsto> ys @ xs))"
      using rings_init [OF _ unlinked_spliced [OF r l h, of "ys @ xs"]] e ne upd
      by (auto simp: list_splice_def list_splice_init_def bind_eq_Some_conv)
  }
  then show "\<exists>m'. list_splice_init l h m = Some m' \<and> rings m' (L(l \<mapsto> [], h \<mapsto> ys @ xs))"
    using e same r by (cases "ys = []") (simp_all add: list_splice_init_def)
  {
    assume ne: "ys \<noteq> []"
    obtain m1 where "list_splice_tail l h m = Some m1" "rings m1 (L(l := None, h \<mapsto> xs @ ys))"
      using rings_splice(2) [OF r l ne h] by blast
    then have "\<exists>m'. list_splice_tail_init l h m = Some m' \<and> rings m' (L(l \<mapsto> [], h \<mapsto> xs @ ys))"
      using rings_init [OF _ unlinked_spliced [OF r l h, of "xs @ ys"]] e ne upd
      by (auto simp: list_splice_tail_def list_splice_tail_init_def bind_eq_Some_conv Un_commute)
  }
  then show "\<exists>m'. list_splice_tail_init l h m = Some m' \<and> rings m' (L(l \<mapsto> [], h \<mapsto> xs @ ys))"
    using e same r by (cases "ys = []") (simp_all add: list_splice_tail_init_def)
qed

lemma rings_cut:
  assumes r: "rings m L" and h: "L h = Some (xs @ e # ys)"
    and l: "unlinked L l \<or> L l = Some []" "l \<noteq> h"
  shows "\<exists>m'. list_cut_position l h e m = Some m' \<and> rings m' (L(h \<mapsto> ys, l \<mapsto> xs @ [e]))"
proof -
  have ring: "ring m h (xs @ e # ys)" using ringsD [OF r h] .
  have ml: "addressable l" "l \<notin> set (h # xs @ e # ys)"
    using l h unlinked_not_node [of L l h] ringsD [OF r, of l "[]"] rings_disjoint [OF r h, of l "[]"]
    by (auto simp: unlinked_def ring_def)
  have eh: "e \<noteq> h" "addressable h" using ring by (auto simp: ring_def)
  have "xs = []" if "length (xs @ e # ys) = 1" using that by simp
  then have cut: "list_cut_position l h e m = list_cut_between l h e m"
    using eh list_empty_ring [OF ring] list_is_singular_ring [OF ring] ring_ends(1) [OF ring]
    by (auto simp: list_cut_position_def lmem)
  obtain m' where m': "list_cut_between l h e m = Some m'" "ring m' l (xs @ [e])" "ring m' h ys"
    "same_outside (set (l # h # xs @ e # ys)) m m'"
    using list_cut_between_ring [OF ring ml] by blast
  have "set (h # ys) \<inter> set (l # xs @ [e]) = {}" using ring ml by (auto simp: ring_def)
  then have "rings m' (L(h \<mapsto> ys, l \<mapsto> xs @ [e]))"
    by (rule rings_update_two [OF r m'(4) l(2)[symmetric] h m'(3,2)])
      (use l(1) in \<open>auto simp: unlinked_def\<close>)
  then show ?thesis using cut m'(1) by simp
qed

section \<open>The operations as operations on lists\<close>

datatype list_cmd =
    LInit nat | LAdd nat nat | LAddTail nat nat | LDel nat | LDelInit nat
  | LMove nat nat | LMoveTail nat nat | LReplace nat nat | LReplaceInit nat nat
  | LRotate nat | LCut nat nat nat | LSplice nat nat | LSpliceTail nat nat
  | LSpliceInit nat nat | LSpliceTailInit nat nat

fun list_exec :: "list_cmd \<Rightarrow> list_mem \<Rightarrow> list_mem option" where
  "list_exec (LInit n) m = INIT_LIST_HEAD n m"
| "list_exec (LAdd n h) m = list_add n h m"
| "list_exec (LAddTail n h) m = list_add_tail n h m"
| "list_exec (LDel x) m = list_del x m"
| "list_exec (LDelInit x) m = list_del_init x m"
| "list_exec (LMove x k) m = list_move x k m"
| "list_exec (LMoveTail x k) m = list_move_tail x k m"
| "list_exec (LReplace x n) m = list_replace x n m"
| "list_exec (LReplaceInit x n) m = list_replace_init x n m"
| "list_exec (LRotate h) m = list_rotate_left h m"
| "list_exec (LCut l h e) m = list_cut_position l h e m"
| "list_exec (LSplice l h) m = list_splice l h m"
| "list_exec (LSpliceTail l h) m = list_splice_tail l h m"
| "list_exec (LSpliceInit l h) m = list_splice_init l h m"
| "list_exec (LSpliceTailInit l h) m = list_splice_tail_init l h m"

fun list_execs :: "list_cmd list \<Rightarrow> list_mem \<Rightarrow> list_mem option" where
  "list_execs [] m = Some m"
| "list_execs (c # cs) m = do { m \<leftarrow> list_exec c m; list_execs cs m }"

text \<open>What each operation promises, and what it needs: a node that is added is on no list,
  a node that is removed, moved or replaced is an entry of one.  After a plain splice of a
  non-empty list its head no longer heads a list.\<close>

inductive list_spec :: "list_cmd \<Rightarrow> (nat \<rightharpoonup> nat list) \<Rightarrow> (nat \<rightharpoonup> nat list) \<Rightarrow> bool" where
  spec_init: "unlinked L n \<Longrightarrow> list_spec (LInit n) L (L(n \<mapsto> []))"
| spec_add: "L h = Some xs \<Longrightarrow> unlinked L n \<Longrightarrow> list_spec (LAdd n h) L (L(h \<mapsto> n # xs))"
| spec_add_tail: "L h = Some xs \<Longrightarrow> unlinked L n \<Longrightarrow> list_spec (LAddTail n h) L (L(h \<mapsto> xs @ [n]))"
| spec_del: "L h = Some (xs @ x # ys) \<Longrightarrow> list_spec (LDel x) L (L(h \<mapsto> xs @ ys))"
| spec_del_init: "L h = Some (xs @ x # ys) \<Longrightarrow> list_spec (LDelInit x) L (L(h \<mapsto> xs @ ys, x \<mapsto> []))"
| spec_move: "L h = Some (xs @ x # ys) \<Longrightarrow> (L(h \<mapsto> xs @ ys)) k = Some zs \<Longrightarrow>
    list_spec (LMove x k) L (L(h \<mapsto> xs @ ys, k \<mapsto> x # zs))"
| spec_move_tail: "L h = Some (xs @ x # ys) \<Longrightarrow> (L(h \<mapsto> xs @ ys)) k = Some zs \<Longrightarrow>
    list_spec (LMoveTail x k) L (L(h \<mapsto> xs @ ys, k \<mapsto> zs @ [x]))"
| spec_replace: "L h = Some (xs @ x # ys) \<Longrightarrow> unlinked L n \<Longrightarrow>
    list_spec (LReplace x n) L (L(h \<mapsto> xs @ n # ys))"
| spec_replace_init: "L h = Some (xs @ x # ys) \<Longrightarrow> unlinked L n \<Longrightarrow>
    list_spec (LReplaceInit x n) L (L(h \<mapsto> xs @ n # ys, x \<mapsto> []))"
| spec_rotate: "L h = Some xs \<Longrightarrow> list_spec (LRotate h) L (L(h \<mapsto> rotate1 xs))"
| spec_cut: "L h = Some (xs @ e # ys) \<Longrightarrow> unlinked L l \<or> L l = Some [] \<Longrightarrow> l \<noteq> h \<Longrightarrow>
    list_spec (LCut l h e) L (L(h \<mapsto> ys, l \<mapsto> xs @ [e]))"
| spec_splice: "L l = Some ys \<Longrightarrow> ys \<noteq> [] \<Longrightarrow> L h = Some xs \<Longrightarrow> h \<noteq> l \<Longrightarrow>
    list_spec (LSplice l h) L (L(l := None, h \<mapsto> ys @ xs))"
| spec_splice_tail: "L l = Some ys \<Longrightarrow> ys \<noteq> [] \<Longrightarrow> L h = Some xs \<Longrightarrow> h \<noteq> l \<Longrightarrow>
    list_spec (LSpliceTail l h) L (L(l := None, h \<mapsto> xs @ ys))"
| spec_splice_init: "L l = Some ys \<Longrightarrow> L h = Some xs \<Longrightarrow> h \<noteq> l \<Longrightarrow>
    list_spec (LSpliceInit l h) L (L(l \<mapsto> [], h \<mapsto> ys @ xs))"
| spec_splice_tail_init: "L l = Some ys \<Longrightarrow> L h = Some xs \<Longrightarrow> h \<noteq> l \<Longrightarrow>
    list_spec (LSpliceTailInit l h) L (L(l \<mapsto> [], h \<mapsto> xs @ ys))"

inductive list_specs :: "list_cmd list \<Rightarrow> (nat \<rightharpoonup> nat list) \<Rightarrow> (nat \<rightharpoonup> nat list) \<Rightarrow> bool" where
  specs_Nil: "list_specs [] L L"
| specs_Cons: "list_spec c L L' \<Longrightarrow> list_specs cs L' L'' \<Longrightarrow> list_specs (c # cs) L L''"

lemmas rings_ops = rings_init rings_add rings_add_tail rings_del_init rings_move
  rings_replace rings_replace_init rings_rotate rings_cut rings_splice rings_splice_init

lemma list_exec_refines:
  assumes "list_spec c L L'" "rings m L"
  shows "\<exists>m'. list_exec c m = Some m' \<and> rings m' L'"
  using assms
proof cases
  case (spec_del h xs x ys)
  then show ?thesis using rings_del [OF assms(2), of h xs x ys] by auto
qed (use assms(2) rings_ops in simp_all)

lemma list_execs_refine:
  assumes "list_specs cs L L'" "rings m L"
  shows "\<exists>m'. list_execs cs m = Some m' \<and> rings m' L'"
  using assms
proof (induction arbitrary: m rule: list_specs.induct)
  case (specs_Cons c L L' cs L'')
  obtain m1 where "list_exec c m = Some m1" "rings m1 L'"
    using list_exec_refines [OF specs_Cons.hyps(1) specs_Cons.prems] by blast
  then show ?case using specs_Cons.IH by simp
qed simp

subsection \<open>The loops\<close>

lemma walk_next_chain:
  assumes "chain (lm_next m) g a xs h" "h \<notin> set xs" "\<forall>x\<in>set xs. addressable x"
  shows "walk_next m h (hd (xs @ [h])) = Some xs"
  using assms
proof (induction xs arbitrary: a)
  case Nil
  show ?case by (simp add: walk_next.simps)
next
  case (Cons x xs)
  then have "chain (lm_next m) g x xs h" "x \<noteq> h" by auto
  moreover have "lm_next m x = hd (xs @ [h])" using chain_hd [OF calculation(1)] .
  ultimately show ?case using Cons by (subst walk_next.simps) (simp add: lmem)
qed

lemma walk_prev_chain:
  assumes "chain f (lm_prev m) h xs b" "h \<notin> set xs" "\<forall>x\<in>set xs. addressable x"
  shows "walk_prev m h (last (h # xs)) = Some (rev xs)"
  using assms
proof (induction xs arbitrary: b rule: rev_induct)
  case Nil
  show ?case by (simp add: walk_prev.simps)
next
  case (snoc x xs)
  then have c: "chain f (lm_prev m) h xs x" "x \<noteq> h" by (auto simp: chain_append)
  have "lm_prev m x = last (h # xs)" using chain_last [OF c(1)] .
  then show ?case using snoc c by (subst walk_prev.simps) (simp add: lmem)
qed

lemma list_for_each_ring:
  assumes r: "ring m h xs"
  shows "list_for_each h m = Some xs" "list_for_each_prev h m = Some (rev xs)"
  using r ring_ends [OF r] ring_ends_addressable(1) [OF r]
    walk_next_chain [of m "lm_prev m" h xs h] walk_prev_chain [of "lm_next m" m h xs h]
  by (simp_all add: list_for_each_def list_for_each_prev_def lmem ring_def)

lemma list_continue_ring:
  assumes r: "ring m h (xs @ x # ys)"
  shows "list_for_each_entry_continue x h m = Some ys"
  using r ring_around(1) [OF r] walk_next_chain [of m "lm_prev m" x ys h]
  by (simp add: list_for_each_entry_continue_def lmem ring_def chain_append)

text \<open>The safe loop reads the next entry before the body runs, so the body may take the
  current entry off the list.  If it always does, and neither faults nor disturbs the rest,
  the loop runs once for every entry and leaves the list empty.\<close>

lemma each_safe_drains:
  assumes body: "\<And>x xs m L. I L \<Longrightarrow> rings m L \<Longrightarrow> L h = Some (x # xs) \<Longrightarrow>
      \<exists>m' L'. body x m = Some m' \<and> rings m' L' \<and> I L' \<and> L' h = Some xs"
    and "I L" "rings m L" "L h = Some xs" "n = lm_next m (hd (xs @ [h]))"
  shows "\<exists>m' L'. each_safe_do body h (hd (xs @ [h])) n m = Some m' \<and> rings m' L' \<and> I L' \<and>
    L' h = Some []"
  using assms(2-)
proof (induction xs arbitrary: m L n)
  case Nil
  then show ?case by (auto simp: each_safe_do.simps)
next
  case (Cons x xs)
  have ring: "ring m h (x # xs)" using ringsD Cons.prems(2,3) by blast
  have n: "n = hd (xs @ [h])"
    using ring_around(1) [of m h "[]" x xs] ring Cons.prems(4) by simp
  obtain m1 L1 where m1: "body x m = Some m1" "rings m1 L1" "I L1" "L1 h = Some xs"
    using body Cons.prems(1-3) by blast
  have mp: "addressable n" using ring n by (cases xs) (auto simp: ring_def)
  have "x \<noteq> h" using ring by (auto simp: ring_def)
  then have "each_safe_do body h (hd ((x # xs) @ [h])) n m =
      each_safe_do body h n (lm_next m1 n) m1"
    using m1(1) mp by (subst each_safe_do.simps) (simp add: lmem)
  then show ?case using Cons.IH [OF m1(3,2,4), of "lm_next m1 n"] n by simp
qed

lemma list_for_each_safe_drains:
  assumes body: "\<And>x xs m L. I L \<Longrightarrow> rings m L \<Longrightarrow> L h = Some (x # xs) \<Longrightarrow>
      \<exists>m' L'. body x m = Some m' \<and> rings m' L' \<and> I L' \<and> L' h = Some xs"
    and "I L" "rings m L" "L h = Some xs"
  shows "\<exists>m' L'. list_for_each_safe body h m = Some m' \<and> rings m' L' \<and> I L' \<and> L' h = Some []"
proof -
  have ring: "ring m h xs" using ringsD assms(3,4) by blast
  have "addressable (hd (xs @ [h]))" using ring_ends_addressable [OF ring] by blast
  then have "list_for_each_safe body h m =
      each_safe_do body h (hd (xs @ [h])) (lm_next m (hd (xs @ [h]))) m"
    using ring_ends [OF ring] ring_ends_addressable(1) [OF ring] by (simp add: list_for_each_safe_def lmem)
  moreover have "\<exists>m' L'. each_safe_do body h (hd (xs @ [h])) (lm_next m (hd (xs @ [h]))) m = Some m' \<and>
      rings m' L' \<and> I L' \<and> L' h = Some []"
    by (rule each_safe_drains [of I h body L m xs, OF body assms(2-4) refl])
  ultimately show ?thesis by simp
qed

lemma rings_del_first:
  assumes "rings m L" "L h = Some (x # xs)"
  shows "\<exists>m'. list_del x m = Some m' \<and> rings m' (L(h \<mapsto> xs)) \<and> lm_next m' x = LIST_POISON1"
  using rings_del [OF assms(1), of h "[]" x xs] assms(2) by simp

lemma list_del_twice:
  assumes "rings m L" "L h = Some xs" "x \<in> set xs" "list_del x m = Some m'"
  shows "list_del x m' = None"
proof -
  obtain us vs where "xs = us @ x # vs" using split_list [OF assms(3)] by blast
  then have r: "ring m h (us @ x # vs)" using ringsD [OF assms(1,2)] by simp
  have "lm_next m' x = LIST_POISON1" "lm_prev m' x = LIST_POISON2" "addressable x"
    using list_del_ring [OF r] assms(4) ring_addressable [OF r, of x] by auto
  then show ?thesis
    by (simp add: list_del_def list_del_between_def lmem wr_prev_def addressable_def)
qed

section \<open>The interface of the caches\<close>

text \<open>The caches use two kinds of lists in the same way: entries are added at the front,
  taken off wherever they are, and visited from the front.  \<open>entry_lists\<close> states what they
  rely on; \<open>rep m L\<close> says that the memory \<open>m\<close> holds the family \<open>L\<close>, and \<open>free_node L n\<close>
  that \<open>n\<close> is a node on none of its lists.\<close>

locale entry_lists =
  fixes rep :: "'m \<Rightarrow> (nat \<rightharpoonup> nat list) \<Rightarrow> bool"
    and free_node :: "(nat \<rightharpoonup> nat list) \<Rightarrow> nat \<Rightarrow> bool"
    and add :: "nat \<Rightarrow> nat \<Rightarrow> 'm \<Rightarrow> 'm option"
    and del :: "nat \<Rightarrow> 'm \<Rightarrow> 'm option"
    and visit :: "nat \<Rightarrow> 'm \<Rightarrow> nat list option"
  assumes add_law: "rep m L \<Longrightarrow> L h = Some xs \<Longrightarrow> free_node L n \<Longrightarrow>
      \<exists>m'. add n h m = Some m' \<and> rep m' (L(h \<mapsto> n # xs))"
    and del_law: "rep m L \<Longrightarrow> L h = Some (xs @ x # ys) \<Longrightarrow>
      \<exists>m'. del x m = Some m' \<and> rep m' (L(h \<mapsto> xs @ ys))"
    and del_free: "rep m L \<Longrightarrow> L h = Some (xs @ x # ys) \<Longrightarrow> free_node (L(h \<mapsto> xs @ ys)) x"
    and visit_law: "rep m L \<Longrightarrow> L h = Some xs \<Longrightarrow> visit h m = Some xs"
    and rep_distinct: "rep m L \<Longrightarrow> L h = Some xs \<Longrightarrow> distinct xs"
begin

lemma del_remove1:
  assumes "rep m L" "L h = Some xs" "x \<in> set xs"
  shows "\<exists>m'. del x m = Some m' \<and> rep m' (L(h \<mapsto> remove1 x xs)) \<and> free_node (L(h \<mapsto> remove1 x xs)) x"
proof -
  obtain us vs where s: "xs = us @ x # vs" "x \<notin> set us" using split_list_first [OF assms(3)] by blast
  then have "remove1 x xs = us @ vs" by (simp add: remove1_append)
  then show ?thesis using del_law [OF assms(1), of h us x vs] del_free [OF assms(1), of h us x vs] assms(2) s
    by simp
qed

text \<open>An entry is moved by taking it off its list and adding it to another, or to the front
  of the same one.\<close>

lemma relink:
  assumes "rep m L" "L h = Some xs" "x \<in> set xs" "(L(h \<mapsto> remove1 x xs)) k = Some zs"
  shows "\<exists>m'. del x m \<bind> add x k = Some m' \<and> rep m' (L(h \<mapsto> remove1 x xs, k \<mapsto> x # zs))"
proof -
  obtain m1 where "del x m = Some m1" "rep m1 (L(h \<mapsto> remove1 x xs))" "free_node (L(h \<mapsto> remove1 x xs)) x"
    using del_remove1 [OF assms(1-3)] by blast
  then show ?thesis using add_law assms(4) by auto
qed

end

interpretation links: entry_lists rings unlinked list_add list_del list_for_each
proof
  fix m L h xs x ys
  assume "rings m L" "L h = Some (xs @ x # ys)"
  then show "\<exists>m'. list_del x m = Some m' \<and> rings m' (L(h \<mapsto> xs @ ys))" using rings_del by blast
next
  fix m L h xs
  assume "rings m L" "L h = Some xs"
  then have "ring m h xs" by (rule ringsD)
  then show "list_for_each h m = Some xs" "distinct xs"
    using list_for_each_ring(1) by (auto simp: ring_def)
qed (fact rings_add, fact unlinked_removed)

subsection \<open>Arrays of list heads\<close>

text \<open>The caches keep arrays of heads.  With \<open>la i\<close> the address of head \<open>i\<close> and \<open>na b\<close> the
  address of the node embedded in buffer \<open>b\<close>, \<open>list_view la na is ls\<close> is the family in which
  head \<open>i\<close>, for \<open>i\<close> in \<open>is\<close>, has the nodes of the buffers \<open>ls i\<close>.\<close>

definition list_view :: "('i \<Rightarrow> nat) \<Rightarrow> (nat \<Rightarrow> nat) \<Rightarrow> 'i list \<Rightarrow> ('i \<Rightarrow> nat list) \<Rightarrow> nat \<rightharpoonup> nat list" where
  "list_view la na is ls = (\<lambda>a. map_option (\<lambda>i. map na (ls i)) (find (\<lambda>i. la i = a) is))"

lemma find_inj:
  assumes "inj_on la (set is)" "i \<in> set is"
  shows "find (\<lambda>j. la j = la i) is = Some i"
  using assms by (induction "is") (auto simp: inj_on_def)

lemma list_view_at:
  "inj_on la (set is) \<Longrightarrow> i \<in> set is \<Longrightarrow> list_view la na is ls (la i) = Some (map na (ls i))"
  by (simp add: list_view_def find_inj)

lemma find_Some_prop: "find P xs = Some x \<Longrightarrow> P x \<and> x \<in> set xs"
  by (induction xs) (auto split: if_splits)

lemma list_view_upd:
  assumes "inj_on la (set is)" "i \<in> set is"
  shows "(list_view la na is ls)(la i \<mapsto> map na xs) = list_view la na is (ls(i := xs))"
proof
  fix a
  show "((list_view la na is ls)(la i \<mapsto> map na xs)) a = list_view la na is (ls(i := xs)) a"
    using find_inj [OF assms] find_Some_prop [of "\<lambda>j. la j = a" "is"]
    by (cases "find (\<lambda>j. la j = a) is") (auto simp: list_view_def)
qed

lemma map_remove1_inj: "inj na \<Longrightarrow> map na (remove1 b xs) = remove1 (na b) (map na xs)"
  by (induction xs) (auto simp: inj_eq)

context entry_lists
begin

lemma del_view:
  assumes "inj_on la (set is)" "inj na" "rep m (list_view la na is ls)" "s \<in> set is" "b \<in> set (ls s)"
  shows "\<exists>m'. del (na b) m = Some m' \<and> rep m' (list_view la na is (ls(s := remove1 b (ls s)))) \<and>
    free_node (list_view la na is (ls(s := remove1 b (ls s)))) (na b)"
  using del_remove1 [OF assms(3) list_view_at [OF assms(1,4)], of "na b"] assms(5)
  by (simp add: map_remove1_inj [OF assms(2), symmetric] list_view_upd [OF assms(1,4)])

lemma add_view:
  assumes "inj_on la (set is)" "rep m (list_view la na is ls)" "t \<in> set is"
    and "free_node (list_view la na is ls) (na b)"
  shows "\<exists>m'. add (na b) (la t) m = Some m' \<and> rep m' (list_view la na is (ls(t := b # ls t)))"
  using add_law [OF assms(2) list_view_at [OF assms(1,3)] assms(4)] list_view_upd [OF assms(1,3), of na ls "b # ls t"]
  by simp

lemma relink_view:
  assumes "inj_on la (set is)" "inj na" "rep m (list_view la na is ls)" "s \<in> set is" "t \<in> set is"
    and "b \<in> set (ls s)" "ls1 = ls(s := remove1 b (ls s))"
  shows "\<exists>m'. del (na b) m \<bind> add (na b) (la t) = Some m' \<and>
    rep m' (list_view la na is (ls1(t := b # ls1 t)))"
  using del_view [OF assms(1,2,3,4,6)] add_view [OF assms(1) _ assms(5)] unfolding assms(7)
  by (metis Option.bind.bind_lunit)

lemma visit_view:
  assumes "inj_on la (set is)" "rep m (list_view la na is ls)" "s \<in> set is"
  shows "visit (la s) m = Some (map na (ls s))"
  using visit_law [OF assms(2) list_view_at [OF assms(1,3)]] .

end

section \<open>Main results\<close>

text \<open>C29: sequences of list operations refine operations on lists: in a memory that holds
  a family \<open>L\<close> of disjoint lists, a sequence of operations that respects their
  preconditions never touches a null or poisoned pointer, leaves the family that the list
  operations give, and every loop and test of the header then observes these lists:
  \<open>list_for_each\<close> ends and visits the entries in order, \<open>list_for_each_prev\<close> in
  reverse order, and \<open>list_empty\<close>, \<open>list_empty_careful\<close>, \<open>list_is_singular\<close> and
  \<open>list_is_last\<close> answer for them.\<close>

theorem list_ops_refine_lists:
  assumes "rings m L" "list_specs cs L L'"
  shows "\<exists>m'. list_execs cs m = Some m' \<and> rings m' L' \<and>
    (\<forall>h xs. L' h = Some xs \<longrightarrow>
      list_for_each h m' = Some xs \<and> list_for_each_prev h m' = Some (rev xs) \<and>
      list_empty h m' = Some (xs = []) \<and> list_empty_careful h m' = Some (xs = []) \<and>
      list_is_singular h m' = Some (length xs = 1) \<and>
      (\<forall>x\<in>set xs. list_is_last x h m' = Some (x = last xs)))"
proof -
  obtain m' where m': "list_execs cs m = Some m'" "rings m' L'"
    using list_execs_refine [OF assms(2,1)] by blast
  have "list_for_each h m' = Some xs \<and> list_for_each_prev h m' = Some (rev xs) \<and>
      list_empty h m' = Some (xs = []) \<and> list_empty_careful h m' = Some (xs = []) \<and>
      list_is_singular h m' = Some (length xs = 1) \<and>
      (\<forall>x\<in>set xs. list_is_last x h m' = Some (x = last xs))" if "L' h = Some xs" for h xs
    using ringsD [OF m'(2) that] list_for_each_ring list_empty_ring list_empty_careful_ring
      list_is_singular_ring list_is_last_ring
    by simp
  with m' show ?thesis by blast
qed

lemma unlinked_upd:
  "unlinked Map.empty n \<longleftrightarrow> addressable n"
  "unlinked (L(h \<mapsto> xs)) n \<longleftrightarrow> unlinked (L(h := None)) n \<and> n \<noteq> h \<and> n \<notin> set xs"
  unfolding unlinked_def nodes_def by auto

lemma list_specs_sample:
  "list_specs [LInit 16, LInit 32, LAdd 48 16, LAddTail 64 16, LAdd 80 32, LMove 48 32,
     LSpliceInit 32 16, LDel 80, LRotate 16]
   Map.empty [16 \<mapsto> [64, 48], 32 \<mapsto> []]"
proof -
  note m = unlinked_upd addressable_def LIST_POISON1_def LIST_POISON2_def
  have s1: "list_spec (LInit 16) Map.empty [16 \<mapsto> []]" by (rule spec_init) (simp add: m)
  have s2: "list_spec (LInit 32) [16 \<mapsto> []] [16 \<mapsto> [], 32 \<mapsto> []]" by (rule spec_init) (simp add: m)
  have s3: "list_spec (LAdd 48 16) [16 \<mapsto> [], 32 \<mapsto> []] [16 \<mapsto> [48], 32 \<mapsto> []]"
    using spec_add [of "[16 \<mapsto> [], 32 \<mapsto> []]" 16 "[]" 48] by (simp add: m fun_upd_twist)
  have s4: "list_spec (LAddTail 64 16) [16 \<mapsto> [48], 32 \<mapsto> []] [16 \<mapsto> [48, 64], 32 \<mapsto> []]"
    using spec_add_tail [of "[16 \<mapsto> [48], 32 \<mapsto> []]" 16 "[48]" 64] by (simp add: m fun_upd_twist)
  have s5: "list_spec (LAdd 80 32) [16 \<mapsto> [48, 64], 32 \<mapsto> []] [16 \<mapsto> [48, 64], 32 \<mapsto> [80]]"
    using spec_add [of "[16 \<mapsto> [48, 64], 32 \<mapsto> []]" 32 "[]" 80] by (simp add: m fun_upd_twist)
  have s6: "list_spec (LMove 48 32) [16 \<mapsto> [48, 64], 32 \<mapsto> [80]] [16 \<mapsto> [64], 32 \<mapsto> [48, 80]]"
    using spec_move [of "[16 \<mapsto> [48, 64], 32 \<mapsto> [80]]" 16 "[]" 48 "[64]" 32 "[80]"]
    by (simp add: fun_upd_twist)
  have s7: "list_spec (LSpliceInit 32 16) [16 \<mapsto> [64], 32 \<mapsto> [48, 80]] [16 \<mapsto> [48, 80, 64], 32 \<mapsto> []]"
    using spec_splice_init [of "[16 \<mapsto> [64], 32 \<mapsto> [48, 80]]" 32 "[48, 80]" 16 "[64]"]
    by (simp add: fun_upd_twist)
  have s8: "list_spec (LDel 80) [16 \<mapsto> [48, 80, 64], 32 \<mapsto> []] [16 \<mapsto> [48, 64], 32 \<mapsto> []]"
    using spec_del [of "[16 \<mapsto> [48, 80, 64], 32 \<mapsto> []]" 16 "[48]" 80 "[64]"] by (simp add: fun_upd_twist)
  have s9: "list_spec (LRotate 16) [16 \<mapsto> [48, 64], 32 \<mapsto> []] [16 \<mapsto> [64, 48], 32 \<mapsto> []]"
    using spec_rotate [of "[16 \<mapsto> [48, 64], 32 \<mapsto> []]" 16 "[48, 64]"] by (simp add: fun_upd_twist)
  show ?thesis
    by (rule specs_Cons [OF s1] specs_Cons [OF s2] specs_Cons [OF s3] specs_Cons [OF s4]
      specs_Cons [OF s5] specs_Cons [OF s6] specs_Cons [OF s7] specs_Cons [OF s8]
      specs_Cons [OF s9] specs_Nil)+
qed

theorem list_ops_refine_lists_witness:
  "\<exists>m'. list_execs [LInit 16, LInit 32, LAdd 48 16, LAddTail 64 16, LAdd 80 32, LMove 48 32,
      LSpliceInit 32 16, LDel 80, LRotate 16] \<lparr>lm_next = (\<lambda>_. 0), lm_prev = (\<lambda>_. 0)\<rparr> = Some m' \<and>
    list_for_each 16 m' = Some [64, 48] \<and> list_empty 32 m' = Some True"
proof -
  have "rings \<lparr>lm_next = (\<lambda>_. 0), lm_prev = (\<lambda>_. 0)\<rparr> Map.empty" by (simp add: rings_def)
  from list_ops_refine_lists [OF this list_specs_sample] show ?thesis by fastforce
qed

text \<open>The removal loop of the caches (\<open>list_for_each_safe\<close> with \<open>list_del\<close> as
  its body) ends on every list, empties it and keeps all others; the plain loop with
  the same body stops at its first entry, because it follows the poisoned link; and a second
  removal of an entry faults.\<close>

theorem removal_loop:
  assumes "rings m L" "L h = Some xs"
  shows "(\<exists>m'. list_for_each_safe list_del h m = Some m' \<and> rings m' (L(h \<mapsto> []))) \<and>
    (xs \<noteq> [] \<longrightarrow> list_for_each_do list_del h m = None) \<and>
    (\<forall>x\<in>set xs. list_del x m \<bind> list_del x = None)"
proof (intro conjI impI ballI)
  let ?I = "\<lambda>L'. \<forall>k. k \<noteq> h \<longrightarrow> L' k = L k"
  have body: "\<exists>m' L'. list_del x m = Some m' \<and> rings m' L' \<and> ?I L' \<and> L' h = Some xs"
    if a: "?I L1" "rings m L1" "L1 h = Some (x # xs)" for x xs m L1
  proof -
    obtain m' where "list_del x m = Some m'" "rings m' (L1(h \<mapsto> xs))"
      using rings_del_first [OF a(2,3)] by blast
    moreover have "?I (L1(h \<mapsto> xs))" using a(1) by simp
    ultimately show ?thesis by (metis fun_upd_same)
  qed
  have "\<exists>m' L'. list_for_each_safe list_del h m = Some m' \<and> rings m' L' \<and> ?I L' \<and> L' h = Some []"
  proof (rule list_for_each_safe_drains [where I = ?I and L = L])
    show "?I L" "rings m L" "L h = Some xs" using assms by simp_all
  qed (rule body)
  then obtain m' L' where m': "list_for_each_safe list_del h m = Some m'" "rings m' L'" "?I L'" "L' h = Some []"
    by (elim exE conjE)
  have "L' = L(h \<mapsto> [])" using m'(3,4) by (auto simp: fun_eq_iff)
  with m' show "\<exists>m'. list_for_each_safe list_del h m = Some m' \<and> rings m' (L(h \<mapsto> []))" by blast
next
  assume "xs \<noteq> []"
  then obtain x ys where xs: "xs = x # ys" by (cases xs) auto
  have r: "ring m h (x # ys)" using ringsD [OF assms] xs by simp
  have x: "addressable x" "x \<noteq> h" "addressable h" "LIST_POISON1 \<noteq> h" "lm_next m h = x"
    using r by (auto simp: ring_def addressable_def)
  obtain m1 where m1: "list_del x m = Some m1" "lm_next m1 x = LIST_POISON1"
    using rings_del_first [OF assms(1)] assms(2) xs by blast
  have p: "list_del LIST_POISON1 m = None" for m
    by (simp add: list_del_def rd_prev_def addressable_def)
  have "each_do list_del h x m = each_do list_del h LIST_POISON1 m1"
    using x m1 by (subst each_do.simps) (simp add: lmem)
  also have "\<dots> = None" using x(4) p by (subst each_do.simps) simp
  finally show "list_for_each_do list_del h m = None" using x by (simp add: list_for_each_do_def lmem)
next
  fix x
  assume "x \<in> set xs"
  then show "list_del x m \<bind> list_del x = None"
    using list_del_twice [OF assms] by (cases "list_del x m") auto
qed

end
