(* ===== verification/HashList.thy ===== *)
theory HashList
  imports ListHead
begin

text \<open>
  The hash chains of \<open>include/list.h\<close> (\<open>struct hlist_head\<close>, \<open>struct hlist_node\<close>).
  A head has one field \<open>first\<close>, a node the fields \<open>next\<close> and \<open>pprev\<close>, where \<open>pprev\<close> is
  the address of the field that points to the node: the \<open>first\<close> of the head or the \<open>next\<close>
  of the node before.  The locale \<open>entry_lists\<close> of the theory \<open>ListHead\<close> is interpreted
  on these chains as well.
\<close>

section \<open>Memory\<close>

datatype link_slot = SNull | SFirst nat | SNext nat | SPoison

record hlist_mem =
  hm_first :: "nat \<Rightarrow> nat"
  hm_next :: "nat \<Rightarrow> nat"
  hm_pprev :: "nat \<Rightarrow> link_slot"

definition rd_first :: "nat \<Rightarrow> hlist_mem \<Rightarrow> nat option" where
  "rd_first h m = (if addressable h then Some (hm_first m h) else None)"

definition rd_hnext :: "nat \<Rightarrow> hlist_mem \<Rightarrow> nat option" where
  "rd_hnext n m = (if addressable n then Some (hm_next m n) else None)"

definition rd_pprev :: "nat \<Rightarrow> hlist_mem \<Rightarrow> link_slot option" where
  "rd_pprev n m = (if addressable n then Some (hm_pprev m n) else None)"

definition wr_pprev :: "nat \<Rightarrow> link_slot \<Rightarrow> hlist_mem \<Rightarrow> hlist_mem option" where
  "wr_pprev n s m = (if addressable n then Some (m\<lparr>hm_pprev := (hm_pprev m)(n := s)\<rparr>) else None)"

text \<open>The assignment \<open>*s = v\<close>.\<close>

fun wr_slot :: "link_slot \<Rightarrow> nat \<Rightarrow> hlist_mem \<Rightarrow> hlist_mem option" where
  "wr_slot (SFirst h) v m = (if addressable h then Some (m\<lparr>hm_first := (hm_first m)(h := v)\<rparr>) else None)"
| "wr_slot (SNext n) v m = (if addressable n then Some (m\<lparr>hm_next := (hm_next m)(n := v)\<rparr>) else None)"
| "wr_slot SNull v m = None"
| "wr_slot SPoison v m = None"

section \<open>Operations\<close>

definition INIT_HLIST_HEAD :: "nat \<Rightarrow> hlist_mem \<Rightarrow> hlist_mem option" where
  "INIT_HLIST_HEAD h m = wr_slot (SFirst h) 0 m"

definition INIT_HLIST_NODE :: "nat \<Rightarrow> hlist_mem \<Rightarrow> hlist_mem option" where
  "INIT_HLIST_NODE n m = do { m \<leftarrow> wr_slot (SNext n) 0 m; wr_pprev n SNull m }"

definition hlist_unhashed :: "nat \<Rightarrow> hlist_mem \<Rightarrow> bool option" where
  "hlist_unhashed n m = do { s \<leftarrow> rd_pprev n m; Some (s = SNull) }"

definition hlist_empty :: "nat \<Rightarrow> hlist_mem \<Rightarrow> bool option" where
  "hlist_empty h m = do { f \<leftarrow> rd_first h m; Some (f = 0) }"

definition hlist_del_links :: "nat \<Rightarrow> hlist_mem \<Rightarrow> hlist_mem option" where
  "hlist_del_links n m = do {
     next \<leftarrow> rd_hnext n m;
     pprev \<leftarrow> rd_pprev n m;
     m \<leftarrow> wr_slot pprev next m;
     if next \<noteq> 0 then wr_pprev next pprev m else Some m }"

definition hlist_del :: "nat \<Rightarrow> hlist_mem \<Rightarrow> hlist_mem option" where
  "hlist_del n m = do {
     m \<leftarrow> hlist_del_links n m;
     m \<leftarrow> wr_slot (SNext n) LIST_POISON1 m;
     wr_pprev n SPoison m }"

definition hlist_del_init :: "nat \<Rightarrow> hlist_mem \<Rightarrow> hlist_mem option" where
  "hlist_del_init n m = do {
     u \<leftarrow> hlist_unhashed n m;
     if \<not> u then do { m \<leftarrow> hlist_del_links n m; INIT_HLIST_NODE n m } else Some m }"

definition hlist_add_head :: "nat \<Rightarrow> nat \<Rightarrow> hlist_mem \<Rightarrow> hlist_mem option" where
  "hlist_add_head n h m = do {
     first \<leftarrow> rd_first h m;
     m \<leftarrow> wr_slot (SNext n) first m;
     m \<leftarrow> (if first \<noteq> 0 then wr_pprev first (SNext n) m else Some m);
     m \<leftarrow> wr_slot (SFirst h) n m;
     wr_pprev n (SFirst h) m }"

definition hlist_add_before :: "nat \<Rightarrow> nat \<Rightarrow> hlist_mem \<Rightarrow> hlist_mem option" where
  "hlist_add_before n next m = do {
     s \<leftarrow> rd_pprev next m;
     m \<leftarrow> wr_pprev n s m;
     m \<leftarrow> wr_slot (SNext n) next m;
     m \<leftarrow> wr_pprev next (SNext n) m;
     s \<leftarrow> rd_pprev n m;
     wr_slot s n m }"

definition hlist_add_after :: "nat \<Rightarrow> nat \<Rightarrow> hlist_mem \<Rightarrow> hlist_mem option" where
  "hlist_add_after n next m = do {
     v \<leftarrow> rd_hnext n m;
     m \<leftarrow> wr_slot (SNext next) v m;
     m \<leftarrow> wr_slot (SNext n) next m;
     m \<leftarrow> wr_pprev next (SNext n) m;
     v \<leftarrow> rd_hnext next m;
     if v \<noteq> 0 then wr_pprev v (SNext next) m else Some m }"

definition hlist_add_fake :: "nat \<Rightarrow> hlist_mem \<Rightarrow> hlist_mem option" where
  "hlist_add_fake n m = wr_pprev n (SNext n) m"

definition hlist_move_list :: "nat \<Rightarrow> nat \<Rightarrow> hlist_mem \<Rightarrow> hlist_mem option" where
  "hlist_move_list old ne m = do {
     f \<leftarrow> rd_first old m;
     m \<leftarrow> wr_slot (SFirst ne) f m;
     f \<leftarrow> rd_first ne m;
     m \<leftarrow> (if f \<noteq> 0 then wr_pprev f (SFirst ne) m else Some m);
     wr_slot (SFirst old) 0 m }"

text \<open>\<open>hlist_for_each\<close> with a body that returns at the first entry satisfying a test, the
  form of every lookup loop, and the loop that visits all entries.\<close>

partial_function (option) hwalk :: "hlist_mem \<Rightarrow> nat \<Rightarrow> nat list option" where
  "hwalk m pos = (if pos = 0 then Some [] else do {
     n \<leftarrow> rd_hnext pos m;
     vs \<leftarrow> hwalk m n;
     Some (pos # vs) })"

definition hlist_for_each :: "nat \<Rightarrow> hlist_mem \<Rightarrow> nat list option" where
  "hlist_for_each h m = do { pos \<leftarrow> rd_first h m; hwalk m pos }"

partial_function (option) hfind :: "(nat \<Rightarrow> bool) \<Rightarrow> hlist_mem \<Rightarrow> nat \<Rightarrow> nat option option" where
  "hfind P m pos = (if pos = 0 then Some None else if P pos then Some (Some pos) else do {
     n \<leftarrow> rd_hnext pos m;
     hfind P m n })"

section \<open>Chains\<close>

fun slot_val :: "(nat \<Rightarrow> nat) \<Rightarrow> (nat \<Rightarrow> nat) \<Rightarrow> link_slot \<Rightarrow> nat" where
  "slot_val f g (SFirst h) = f h"
| "slot_val f g (SNext n) = g n"
| "slot_val f g SNull = 0"
| "slot_val f g SPoison = 0"

text \<open>\<open>hseg f g p s xs v\<close>, for the fields \<open>first\<close>, \<open>next\<close> and \<open>pprev\<close>: the field \<open>s\<close>
  points to the first entry of \<open>xs\<close>, and the last entry to \<open>v\<close>.\<close>

primrec hseg :: "(nat \<Rightarrow> nat) \<Rightarrow> (nat \<Rightarrow> nat) \<Rightarrow> (nat \<Rightarrow> link_slot) \<Rightarrow> link_slot \<Rightarrow> nat list \<Rightarrow> nat \<Rightarrow> bool" where
  "hseg f g p s [] v \<longleftrightarrow> slot_val f g s = v"
| "hseg f g p s (x # xs) v \<longleftrightarrow> slot_val f g s = x \<and> p x = s \<and> hseg f g p (SNext x) xs v"

definition hchain :: "hlist_mem \<Rightarrow> nat \<Rightarrow> nat list \<Rightarrow> bool" where
  "hchain m h xs \<longleftrightarrow> addressable h \<and> distinct xs \<and> (\<forall>x\<in>set xs. addressable x) \<and> hseg (hm_first m) (hm_next m) (hm_pprev m) (SFirst h) xs 0"

definition hchains :: "hlist_mem \<Rightarrow> (nat \<rightharpoonup> nat list) \<Rightarrow> bool" where
  "hchains m L \<longleftrightarrow> (\<forall>h xs. L h = Some xs \<longrightarrow> hchain m h xs) \<and>
     (\<forall>h k xs ys. L h = Some xs \<longrightarrow> L k = Some ys \<longrightarrow> h \<noteq> k \<longrightarrow> set xs \<inter> set ys = {})"

definition hentries :: "(nat \<rightharpoonup> nat list) \<Rightarrow> nat set" where
  "hentries L = {x. \<exists>h xs. L h = Some xs \<and> x \<in> set xs}"

definition unhashed :: "(nat \<rightharpoonup> nat list) \<Rightarrow> nat \<Rightarrow> bool" where
  "unhashed L n \<longleftrightarrow> addressable n \<and> n \<notin> hentries L"

definition hsame :: "nat set \<Rightarrow> nat set \<Rightarrow> hlist_mem \<Rightarrow> hlist_mem \<Rightarrow> bool" where
  "hsame K A m m' \<longleftrightarrow> (\<forall>h. h \<notin> K \<longrightarrow> hm_first m' h = hm_first m h) \<and>
     (\<forall>a. a \<notin> A \<longrightarrow> hm_next m' a = hm_next m a \<and> hm_pprev m' a = hm_pprev m a)"

named_theorems hmem \<open>accesses to valid addresses\<close>

lemma hrd_wr_addressable [hmem]:
  assumes "addressable a"
  shows "rd_first a m = Some (hm_first m a)" "rd_hnext a m = Some (hm_next m a)"
    "rd_pprev a m = Some (hm_pprev m a)" "wr_pprev a s m = Some (m\<lparr>hm_pprev := (hm_pprev m)(a := s)\<rparr>)"
  using assms by (simp_all add: rd_first_def rd_hnext_def rd_pprev_def wr_pprev_def)

lemma addressable_nonzero [simp]: "addressable 0 = False"
  by (simp add: addressable_def)

lemma addressable_pos: "addressable a \<Longrightarrow> 0 < a"
  by (simp add: addressable_def)

lemma hseg_append:
  "hseg f g p s (xs @ ys) v \<longleftrightarrow> hseg f g p s xs (hd (ys @ [v])) \<and>
     hseg f g p (if xs = [] then s else SNext (last xs)) ys v"
  by (induction xs arbitrary: s) (cases ys; auto)+

lemma hseg_cong:
  assumes "slot_val f' g' s = slot_val f g s" "\<And>x. x \<in> set xs \<Longrightarrow> g' x = g x \<and> p' x = p x"
  shows "hseg f' g' p' s xs v = hseg f g p s xs v"
  using assms by (induction xs arbitrary: s) auto

lemma hseg_frame [simp]:
  "s \<noteq> SFirst h \<Longrightarrow> hseg (f(h := w)) g p s xs v = hseg f g p s xs v"
  "s \<noteq> SNext n \<Longrightarrow> n \<notin> set xs \<Longrightarrow> hseg f (g(n := w)) p s xs v = hseg f g p s xs v"
  "n \<notin> set xs \<Longrightarrow> hseg f g (p(n := q)) s xs v = hseg f g p s xs v"
  by (rule hseg_cong; cases s; auto)+

lemma hchain_frame:
  assumes "hchain m h xs" "hsame K A m m'" "h \<notin> K" "set xs \<inter> A = {}"
  shows "hchain m' h xs"
proof -
  have "hm_next m' x = hm_next m x \<and> hm_pprev m' x = hm_pprev m x" if "x \<in> set xs" for x
    using assms(2,4) that unfolding hsame_def by blast
  moreover have "hm_first m' h = hm_first m h" using assms(2,3) unfolding hsame_def by blast
  ultimately have "hseg (hm_first m') (hm_next m') (hm_pprev m') (SFirst h) xs 0 =
      hseg (hm_first m) (hm_next m) (hm_pprev m) (SFirst h) xs 0"
    by (intro hseg_cong) simp_all
  with assms(1) show ?thesis by (simp add: hchain_def)
qed

lemma hlist_add_head_chain:
  assumes r: "hchain m h xs" and n: "addressable n" "n \<notin> set xs"
  shows "\<exists>m'. hlist_add_head n h m = Some m' \<and> hchain m' h (n # xs) \<and> hsame {h} (insert n (set xs)) m m'"
  using r n by (cases xs) (auto simp: hlist_add_head_def hmem hchain_def hsame_def)

lemma hlist_del_links_chain:
  assumes r: "hchain m h (xs @ x # ys)"
  shows "\<exists>m'. hlist_del_links x m = Some m' \<and> hchain m' h (xs @ ys) \<and> hsame {h} (set (xs @ ys)) m m'"
proof (cases xs rule: rev_cases)
  case Nil
  then show ?thesis using r
    by (cases ys) (auto simp: hlist_del_links_def hmem hchain_def hsame_def)
next
  case (snoc us u)
  then show ?thesis using r
    by (cases ys) (auto simp: hlist_del_links_def hmem hchain_def hsame_def hseg_append)
qed

lemma hlist_del_chain:
  assumes r: "hchain m h (xs @ x # ys)"
  shows "\<exists>m'. hlist_del x m = Some m' \<and> hchain m' h (xs @ ys) \<and> hsame {h} (set (xs @ x # ys)) m m' \<and>
    hm_pprev m' x = SPoison"
proof -
  obtain m1 where m1: "hlist_del_links x m = Some m1" "hchain m1 h (xs @ ys)" "hsame {h} (set (xs @ ys)) m m1"
    using hlist_del_links_chain [OF r] by blast
  have x: "addressable x" "x \<notin> set (xs @ ys)" using r by (auto simp: hchain_def)
  then show ?thesis using m1 by (auto simp: hlist_del_def hmem hchain_def hsame_def)
qed

lemma hlist_del_init_chain:
  assumes r: "hchain m h (xs @ x # ys)"
  shows "\<exists>m'. hlist_del_init x m = Some m' \<and> hchain m' h (xs @ ys) \<and> hsame {h} (set (xs @ x # ys)) m m' \<and>
    hm_pprev m' x = SNull"
proof -
  obtain m1 where m1: "hlist_del_links x m = Some m1" "hchain m1 h (xs @ ys)" "hsame {h} (set (xs @ ys)) m m1"
    using hlist_del_links_chain [OF r] by blast
  have x: "addressable x" "x \<notin> set (xs @ ys)" using r by (auto simp: hchain_def)
  have "hm_pprev m x \<noteq> SNull" using r by (cases xs) (auto simp: hchain_def hseg_append)
  then show ?thesis using m1 x
    by (auto simp: hlist_del_init_def hlist_unhashed_def INIT_HLIST_NODE_def hmem hchain_def hsame_def)
qed

lemma hlist_add_before_chain:
  assumes r: "hchain m h (xs @ y # ys)" and n: "addressable n" "n \<notin> set (xs @ y # ys)"
  shows "\<exists>m'. hlist_add_before n y m = Some m' \<and> hchain m' h (xs @ n # y # ys) \<and>
    hsame {h} (insert n (set (xs @ y # ys))) m m'"
proof (cases xs rule: rev_cases)
  case Nil
  then show ?thesis using r n by (auto simp: hlist_add_before_def hmem hchain_def hsame_def)
next
  case (snoc us u)
  then show ?thesis using r n
    by (auto simp: hlist_add_before_def hmem hchain_def hsame_def hseg_append)
qed

lemma hlist_add_after_chain:
  assumes r: "hchain m h (xs @ y # ys)" and n: "addressable n" "n \<notin> set (xs @ y # ys)"
  shows "\<exists>m'. hlist_add_after y n m = Some m' \<and> hchain m' h (xs @ y # n # ys) \<and>
    hsame {h} (insert n (set (xs @ y # ys))) m m'"
  using r n
  by (cases xs rule: rev_cases; cases ys)
    (auto simp: hlist_add_after_def hmem hchain_def hsame_def hseg_append)

lemma hlist_move_list_chain:
  assumes r: "hchain m h xs" and k: "addressable k" "k \<noteq> h"
  shows "\<exists>m'. hlist_move_list h k m = Some m' \<and> hchain m' k xs \<and> hchain m' h [] \<and> hsame {h, k} (set xs) m m'"
  using r k by (cases xs) (auto simp: hlist_move_list_def hmem hchain_def hsame_def)

lemma hlist_empty_chain: "hchain m h xs \<Longrightarrow> hlist_empty h m = Some (xs = [])"
  by (cases xs) (auto simp: hlist_empty_def hmem hchain_def addressable_pos)

lemma hwalk_seg:
  assumes "hseg f (hm_next m) p s xs 0" "\<forall>x\<in>set xs. addressable x"
  shows "hwalk m (slot_val f (hm_next m) s) = Some xs"
  using assms
proof (induction xs arbitrary: s)
  case (Cons x xs)
  then have "hwalk m (hm_next m x) = Some xs" using Cons.IH [of "SNext x"] by simp
  then show ?case using Cons.prems by (subst hwalk.simps) (auto simp: hmem addressable_pos)
qed (simp add: hwalk.simps)

lemma hfind_seg:
  assumes "hseg f (hm_next m) p s xs 0" "\<forall>x\<in>set xs. addressable x"
  shows "hfind P m (slot_val f (hm_next m) s) = Some (find P xs)"
  using assms
proof (induction xs arbitrary: s)
  case (Cons x xs)
  then have "hfind P m (hm_next m x) = Some (find P xs)" using Cons.IH [of "SNext x"] by simp
  then show ?case using Cons.prems by (subst hfind.simps) (auto simp: hmem addressable_pos)
qed (simp add: hfind.simps)

lemma hlist_for_each_chain:
  assumes "hchain m h xs"
  shows "hlist_for_each h m = Some xs" "hfind P m (hm_first m h) = Some (find P xs)"
  using assms hwalk_seg [of "hm_first m" m "hm_pprev m" "SFirst h" xs]
    hfind_seg [of "hm_first m" m "hm_pprev m" "SFirst h" xs P]
  by (simp_all add: hlist_for_each_def hmem hchain_def)

section \<open>Families of chains\<close>

lemma hchainsD: "hchains m L \<Longrightarrow> L h = Some xs \<Longrightarrow> hchain m h xs"
  by (simp add: hchains_def)

lemma hchains_disjoint:
  "hchains m L \<Longrightarrow> L h = Some xs \<Longrightarrow> L k = Some ys \<Longrightarrow> h \<noteq> k \<Longrightarrow> set xs \<inter> set ys = {}"
  unfolding hchains_def by blast

lemma hchains_update:
  assumes r: "hchains m L" and h: "L h = Some xs" "hchain m' h xs'" and s: "hsame {h} A m m'"
    and A: "A \<union> set xs' \<subseteq> set xs \<union> - hentries L"
  shows "hchains m' (L(h \<mapsto> xs'))"
proof -
  have out: "set ys \<inter> (A \<union> set xs') = {}" if "L k = Some ys" "k \<noteq> h" for k ys
    using hchains_disjoint [OF r that(1) h(1) that(2)] A that(1) unfolding hentries_def by blast
  have "hchain m' k ys" if "(L(h \<mapsto> xs')) k = Some ys" for k ys
  proof (cases "k = h")
    case False
    then have k: "L k = Some ys" using that by simp
    show ?thesis using hchain_frame [OF hchainsD [OF r k] s] out [OF k False] False by blast
  qed (use that h(2) in simp)
  moreover have "set ys \<inter> set zs = {}"
    if "(L(h \<mapsto> xs')) k = Some ys" "(L(h \<mapsto> xs')) l = Some zs" "k \<noteq> l" for k l ys zs
    using that out [of k ys] out [of l zs] hchains_disjoint [OF r, of k ys l zs]
    by (auto split: if_splits)
  ultimately show ?thesis unfolding hchains_def by blast
qed

lemma unhashedD: "unhashed L n \<Longrightarrow> L h = Some xs \<Longrightarrow> n \<notin> set xs"
  unfolding unhashed_def hentries_def by blast

lemma hchains_add_head:
  assumes r: "hchains m L" and h: "L h = Some xs" and n: "unhashed L n"
  shows "\<exists>m'. hlist_add_head n h m = Some m' \<and> hchains m' (L(h \<mapsto> n # xs))"
proof -
  obtain m' where m': "hlist_add_head n h m = Some m'" "hchain m' h (n # xs)" "hsame {h} (insert n (set xs)) m m'"
    using hlist_add_head_chain [OF hchainsD [OF r h]] n unhashedD [OF n h] by (auto simp: unhashed_def)
  show ?thesis using hchains_update [OF r h m'(2,3)] n m'(1) by (auto simp: unhashed_def)
qed

lemma hchains_del:
  assumes r: "hchains m L" and h: "L h = Some (xs @ x # ys)"
  shows "\<exists>m'. hlist_del x m = Some m' \<and> hchains m' (L(h \<mapsto> xs @ ys))"
proof -
  obtain m' where m': "hlist_del x m = Some m'" "hchain m' h (xs @ ys)" "hsame {h} (set (xs @ x # ys)) m m'"
    using hlist_del_chain [OF hchainsD [OF r h]] by blast
  show ?thesis using hchains_update [OF r h m'(2,3)] m'(1) by auto
qed

lemma hchains_del_free:
  assumes r: "hchains m L" and h: "L h = Some (xs @ x # ys)"
  shows "unhashed (L(h \<mapsto> xs @ ys)) x"
  using hchainsD [OF r h] hchains_disjoint [OF r h]
  unfolding unhashed_def hentries_def hchain_def by (auto split: if_splits)

interpretation hashes: entry_lists hchains unhashed hlist_add_head hlist_del hlist_for_each
proof
  fix m L h xs
  assume "hchains m L" "L h = Some xs"
  then have "hchain m h xs" by (rule hchainsD)
  then show "hlist_for_each h m = Some xs" "distinct xs"
    using hlist_for_each_chain(1) by (auto simp: hchain_def)
qed (fact hchains_add_head hchains_del hchains_del_free)+

text \<open>The remaining operations of the header on one chain of a family.\<close>

lemma hchains_others:
  assumes r: "hchains m L"
  shows "L h = Some (xs @ x # ys) \<Longrightarrow> \<exists>m'. hlist_del_init x m = Some m' \<and> hchains m' (L(h \<mapsto> xs @ ys))"
    "L h = Some (xs @ y # ys) \<Longrightarrow> unhashed L n \<Longrightarrow>
      \<exists>m'. hlist_add_before n y m = Some m' \<and> hchains m' (L(h \<mapsto> xs @ n # y # ys))"
    "L h = Some (xs @ y # ys) \<Longrightarrow> unhashed L n \<Longrightarrow>
      \<exists>m'. hlist_add_after y n m = Some m' \<and> hchains m' (L(h \<mapsto> xs @ y # n # ys))"
proof -
  assume h: "L h = Some (xs @ x # ys)"
  then obtain m' where m': "hlist_del_init x m = Some m'" "hchain m' h (xs @ ys)" "hsame {h} (set (xs @ x # ys)) m m'"
    using hlist_del_init_chain hchainsD [OF r] by blast
  then show "\<exists>m'. hlist_del_init x m = Some m' \<and> hchains m' (L(h \<mapsto> xs @ ys))"
    using hchains_update [OF r h m'(2,3)] by auto
next
  assume h: "L h = Some (xs @ y # ys)" and n: "unhashed L n"
  then have n': "addressable n" "n \<notin> set (xs @ y # ys)" using unhashedD [OF n h] by (auto simp: unhashed_def)
  obtain m' where m': "hlist_add_before n y m = Some m'" "hchain m' h (xs @ n # y # ys)"
    "hsame {h} (insert n (set (xs @ y # ys))) m m'"
    using hlist_add_before_chain [OF hchainsD [OF r h] n'] by blast
  then show "\<exists>m'. hlist_add_before n y m = Some m' \<and> hchains m' (L(h \<mapsto> xs @ n # y # ys))"
    using hchains_update [OF r h m'(2,3)] n by (auto simp: unhashed_def)
  obtain m' where m': "hlist_add_after y n m = Some m'" "hchain m' h (xs @ y # n # ys)"
    "hsame {h} (insert n (set (xs @ y # ys))) m m'"
    using hlist_add_after_chain [OF hchainsD [OF r h] n'] by blast
  then show "\<exists>m'. hlist_add_after y n m = Some m' \<and> hchains m' (L(h \<mapsto> xs @ y # n # ys))"
    using hchains_update [OF r h m'(2,3)] n by (auto simp: unhashed_def)
qed

end
