(* ===== verification/CacheLinks.thy ===== *)
theory CacheLinks
  imports BufferCache HashList
begin

text \<open>
  The links of the buffer cache.  The theory \<open>BufferCache\<close> keeps the five lists and the hash
  table of the buffer manager as HOL lists; here the code that works on them
  (\<open>nvfuse_move_buffer_list_nolock\<close>, \<open>nvfuse_hash_lookup\<close>, the victim search of
  \<open>nvfuse_replace_buffer_cache\<close>, the list operations of \<open>nvfuse_find_bc\<close>,
  \<open>nvfuse_add_buffer_cache\<close> and \<open>nvfuse_remove_buffer_cache\<close>) is written on the pointers of
  \<open>include/list.h\<close>, and shown to do what \<open>BufferCache\<close> says.

  A buffer is named by the address of its \<open>struct nvfuse_buffer_cache\<close>; \<open>ol\<close> and \<open>oh\<close> are
  the offsets of its members \<open>bc_list\<close> and \<open>bc_hash\<close>, so that \<open>list_entry\<close> subtracts the
  offset; \<open>la ty\<close> is the address of \<open>bm_list[ty]\<close> and \<open>ha i\<close> that of \<open>bm_hash[i]\<close>.
\<close>

record cache_mem =
  cm_lists :: list_mem
  cm_hash :: hlist_mem

definition btypes :: "btype list" where
  "btypes = [BUFFER_TYPE_UNUSED, BUFFER_TYPE_REF, BUFFER_TYPE_CLEAN, BUFFER_TYPE_DIRTY, BUFFER_TYPE_FLUSHING]"

definition hslots :: "nat list" where
  "hslots = [0..<Suc HASH_NUM]"

definition lift_lists :: "(list_mem \<Rightarrow> list_mem option) \<Rightarrow> cache_mem \<Rightarrow> cache_mem option" where
  "lift_lists f c = map_option (\<lambda>l. c\<lparr>cm_lists := l\<rparr>) (f (cm_lists c))"

definition lift_hash :: "(hlist_mem \<Rightarrow> hlist_mem option) \<Rightarrow> cache_mem \<Rightarrow> cache_mem option" where
  "lift_hash f c = map_option (\<lambda>l. c\<lparr>cm_hash := l\<rparr>) (f (cm_hash c))"

section \<open>The code on the pointers\<close>

definition ptr_list_in :: "nat \<Rightarrow> (btype \<Rightarrow> nat) \<Rightarrow> nat \<Rightarrow> btype \<Rightarrow> bool \<Rightarrow> list_mem \<Rightarrow> list_mem option" where
  "ptr_list_in ol la b ty tail = (if tail then list_add_tail (b + ol) (la ty) else list_add (b + ol) (la ty))"

definition ptr_move_buffer_list ::
  "nat \<Rightarrow> (btype \<Rightarrow> nat) \<Rightarrow> nat \<Rightarrow> btype \<Rightarrow> bool \<Rightarrow> 'd buffer_manager \<Rightarrow> list_mem \<Rightarrow> list_mem option" where
  "ptr_move_buffer_list ol la b ty tail m lm =
     (if bc_list_type (bm_bc m b) = ty then Some lm
      else do { lm \<leftarrow> list_del (b + ol) lm; ptr_list_in ol la b ty tail lm })"

definition ptr_hash_lookup :: "nat \<Rightarrow> (nat \<Rightarrow> nat) \<Rightarrow> 'd buffer_manager \<Rightarrow> u64 \<Rightarrow> hlist_mem \<Rightarrow> nat option option" where
  "ptr_hash_lookup oh ha m key hm = do {
     node \<leftarrow> rd_first (ha (bucket key)) hm;
     r \<leftarrow> hfind (\<lambda>node. bc_bno (bm_bc m (node - oh)) = key) hm node;
     Some (map_option (\<lambda>node. node - oh) r) }"

text \<open>The search for a victim, from the end of the list towards its head; at the head the
  code sleeps for ever.\<close>

partial_function (option) ptr_victim ::
  "nat \<Rightarrow> nat \<Rightarrow> 'd buffer_manager \<Rightarrow> list_mem \<Rightarrow> nat \<Rightarrow> nat option" where
  "ptr_victim ol h m lm remove_ptr =
     (if bc_ref (bm_bc m (remove_ptr - ol)) = 0 then Some (remove_ptr - ol)
      else do {
        p \<leftarrow> rd_prev remove_ptr lm;
        if p = h then None else ptr_victim ol h m lm p })"

definition ptr_evict ::
  "nat \<Rightarrow> nat \<Rightarrow> (btype \<Rightarrow> nat) \<Rightarrow> btype \<Rightarrow> 'd buffer_manager \<Rightarrow> cache_mem \<Rightarrow> (nat \<times> cache_mem) option" where
  "ptr_evict ol oh la ty m c = do {
     assert_opt (bm_list_count m ty \<noteq> 0);
     p \<leftarrow> rd_prev (la ty) (cm_lists c);
     b \<leftarrow> ptr_victim ol (la ty) m (cm_lists c) p;
     c \<leftarrow> lift_lists (list_del (b + ol)) c;
     c \<leftarrow> lift_hash (hlist_del (b + oh)) c;
     Some (b, c) }"

definition ptr_touch :: "nat \<Rightarrow> (btype \<Rightarrow> nat) \<Rightarrow> nat \<Rightarrow> 'd buffer_manager \<Rightarrow> list_mem \<Rightarrow> list_mem option" where
  "ptr_touch ol la b m lm = do {
     lm \<leftarrow> list_del (b + ol) lm;
     list_add (b + ol) (la (bc_list_type (bm_bc m b))) lm }"

definition ptr_insert ::
  "nat \<Rightarrow> nat \<Rightarrow> (btype \<Rightarrow> nat) \<Rightarrow> (nat \<Rightarrow> nat) \<Rightarrow> nat \<Rightarrow> u64 \<Rightarrow> cache_mem \<Rightarrow> cache_mem option" where
  "ptr_insert ol oh la ha b key c = do {
     c \<leftarrow> lift_hash (hlist_add_head (b + oh) (ha (bucket key))) c;
     lift_lists (list_add (b + ol) (la BUFFER_TYPE_REF)) c }"

definition ptr_add_buffer ::
  "nat \<Rightarrow> nat \<Rightarrow> (btype \<Rightarrow> nat) \<Rightarrow> (nat \<Rightarrow> nat) \<Rightarrow> nat \<Rightarrow> cache_mem \<Rightarrow> cache_mem option" where
  "ptr_add_buffer ol oh la ha b c = do {
     c \<leftarrow> lift_lists (list_add (b + ol) (la BUFFER_TYPE_UNUSED)) c;
     lift_hash (hlist_add_head (b + oh) (ha HASH_NUM)) c }"

text \<open>The part of \<open>nvfuse_init_buffer_cache\<close> on the links: the heads, then \<open>n\<close> buffers.\<close>

definition ptr_init_heads :: "(btype \<Rightarrow> nat) \<Rightarrow> (nat \<Rightarrow> nat) \<Rightarrow> cache_mem \<Rightarrow> cache_mem option" where
  "ptr_init_heads la ha c = do {
     c \<leftarrow> lift_lists (for_each (\<lambda>ty. INIT_LIST_HEAD (la ty)) btypes) c;
     lift_hash (for_each (\<lambda>i. INIT_HLIST_HEAD (ha i)) hslots) c }"

definition ptr_init_buffer_cache ::
  "nat \<Rightarrow> nat \<Rightarrow> (btype \<Rightarrow> nat) \<Rightarrow> (nat \<Rightarrow> nat) \<Rightarrow> nat \<Rightarrow> cache_mem \<Rightarrow> cache_mem option" where
  "ptr_init_buffer_cache ol oh la ha n c = do {
     c \<leftarrow> ptr_init_heads la ha c;
     for_each (ptr_add_buffer ol oh la ha) [0..<n] c }"

section \<open>The representation\<close>

abbreviation lists_of :: "nat \<Rightarrow> (btype \<Rightarrow> nat) \<Rightarrow> 'd buffer_manager \<Rightarrow> nat \<rightharpoonup> nat list" where
  "lists_of ol la m \<equiv> list_view la (\<lambda>b. b + ol) btypes (bm_list m)"

abbreviation hash_of :: "nat \<Rightarrow> (nat \<Rightarrow> nat) \<Rightarrow> 'd buffer_manager \<Rightarrow> nat \<rightharpoonup> nat list" where
  "hash_of oh ha m \<equiv> list_view ha (\<lambda>b. b + oh) hslots (bm_hash m)"

definition cache_links ::
  "nat \<Rightarrow> nat \<Rightarrow> (btype \<Rightarrow> nat) \<Rightarrow> (nat \<Rightarrow> nat) \<Rightarrow> cache_mem \<Rightarrow> 'd buffer_manager \<Rightarrow> bool" where
  "cache_links ol oh la ha c m \<longleftrightarrow> inj la \<and> inj_on ha {..HASH_NUM} \<and>
     rings (cm_lists c) (lists_of ol la m) \<and> hchains (cm_hash c) (hash_of oh ha m)"

lemma btypes_all [simp]: "ty \<in> set btypes"
  by (cases ty) (simp_all add: btypes_def)

lemma inj_offset [simp]: "inj (\<lambda>b. b + (k::nat))"
  by (simp add: inj_def)

lemma set_hslots [simp]: "set hslots = {..HASH_NUM}"
  by (auto simp: hslots_def)

lemma cache_linksD:
  assumes "cache_links ol oh la ha c m"
  shows "inj_on la (set btypes)" "inj_on ha (set hslots)" "rings (cm_lists c) (lists_of ol la m)"
    "hchains (cm_hash c) (hash_of oh ha m)"
  using assms by (auto simp: cache_links_def inj_on_def)

lemma cache_links_at:
  assumes "cache_links ol oh la ha c m"
  shows "lists_of ol la m (la ty) = Some (map (\<lambda>b. b + ol) (bm_list m ty))"
    "i \<le> HASH_NUM \<Longrightarrow> hash_of oh ha m (ha i) = Some (map (\<lambda>b. b + oh) (bm_hash m i))"
  using cache_linksD(1,2) [OF assms] by (simp_all add: list_view_at)

lemma list_view_cong:
  "(\<And>i. i \<in> set is \<Longrightarrow> ls i = ls' i) \<Longrightarrow> list_view la na is ls = list_view la na is ls'"
  unfolding list_view_def using find_Some_prop by (fastforce intro!: ext option.map_cong0 simp: set_eq_iff)

text \<open>The lists depend on the two list fields only.\<close>

lemma cache_links_cong:
  "bm_list m = bm_list m' \<Longrightarrow> bm_hash m = bm_hash m' \<Longrightarrow>
   cache_links ol oh la ha c m = cache_links ol oh la ha c m'"
  by (simp add: cache_links_def)

lemma only_chain:
  assumes c: "cache_links ol oh la ha c m" and b: "b \<in> set (bm_hash m s)" "s \<le> HASH_NUM"
    and i: "i \<le> HASH_NUM" "i \<noteq> s"
  shows "b \<notin> set (bm_hash m i)"
proof -
  have "ha i \<noteq> ha s" using c i b(2) by (auto simp: cache_links_def inj_on_def)
  then have "set (map (\<lambda>b. b + oh) (bm_hash m i)) \<inter> set (map (\<lambda>b. b + oh) (bm_hash m s)) = {}"
    using hchains_disjoint [OF cache_linksD(4) [OF c]] cache_links_at(2) [OF c] i(1) b(2) by blast
  then show ?thesis using b(1) by auto
qed

lemma hash_out_view:
  assumes c: "cache_links ol oh la ha c m" and b: "b \<in> set (bm_hash m s)" "s \<le> HASH_NUM"
  shows "list_view ha (\<lambda>b. b + oh) hslots (\<lambda>i. remove1 b (bm_hash m i)) =
    list_view ha (\<lambda>b. b + oh) hslots ((bm_hash m)(s := remove1 b (bm_hash m s)))"
  by (rule list_view_cong) (use only_chain [OF c b] in \<open>auto simp: remove1_idem\<close>)

section \<open>Simulation\<close>

lemma ptr_list_in_view:
  assumes c: "inj_on la (set btypes)" "rings lm (list_view la (\<lambda>b. b + ol) btypes ls)"
    and u: "unlinked (list_view la (\<lambda>b. b + ol) btypes ls) (b + ol)"
  shows "\<exists>lm'. ptr_list_in ol la b ty tail lm = Some lm' \<and>
    rings lm' (list_view la (\<lambda>b. b + ol) btypes (ls(ty := (if tail then ls ty @ [b] else b # ls ty))))"
proof (cases tail)
  case True
  have at: "list_view la (\<lambda>b. b + ol) btypes ls (la ty) = Some (map (\<lambda>b. b + ol) (ls ty))"
    using c(1) by (simp add: list_view_at)
  show ?thesis
    using rings_add_tail [OF c(2) at u] True
      list_view_upd [OF c(1), of ty "\<lambda>b. b + ol" ls "ls ty @ [b]"]
    by (simp add: ptr_list_in_def)
next
  case False
  then show ?thesis
    using links.add_view [OF c, of ty b] u by (simp add: ptr_list_in_def)
qed

lemma ptr_move_simulates:
  assumes c: "cache_links ol oh la ha c m" and b: "in_list m b"
  shows "\<exists>c'. lift_lists (ptr_move_buffer_list ol la b ty tail m) c = Some c' \<and>
    cache_links ol oh la ha c' (move_buffer_list b ty tail m)"
proof (cases "bc_list_type (bm_bc m b) = ty")
  case True
  then show ?thesis using c by (simp add: lift_lists_def ptr_move_buffer_list_def move_buffer_list_def)
next
  case False
  let ?s = "bc_list_type (bm_bc m b)"
  let ?ls = "(bm_list m)(?s := remove1 b (bm_list m ?s))"
  note D = cache_linksD [OF c]
  obtain lm1 where lm1: "list_del (b + ol) (cm_lists c) = Some lm1"
    "rings lm1 (list_view la (\<lambda>b. b + ol) btypes ?ls)"
    "unlinked (list_view la (\<lambda>b. b + ol) btypes ?ls) (b + ol)"
    using links.del_view [OF D(1) inj_offset D(3) btypes_all, of b ?s] b by auto
  obtain lm2 where lm2: "ptr_list_in ol la b ty tail lm1 = Some lm2"
    "rings lm2 (list_view la (\<lambda>b. b + ol) btypes (?ls(ty := (if tail then ?ls ty @ [b] else b # ?ls ty))))"
    using ptr_list_in_view [OF D(1) lm1(2,3)] by blast
  have "bm_list (move_buffer_list b ty tail m) = ?ls(ty := (if tail then ?ls ty @ [b] else b # ?ls ty))"
    "bm_hash (move_buffer_list b ty tail m) = bm_hash m"
    using False by (auto simp: move_buffer_list_def list_in_def list_out_def Let_def)
  then show ?thesis
    using lm1 lm2 False c
    by (auto simp: lift_lists_def ptr_move_buffer_list_def cache_links_def simp del: fun_upd_apply)
qed

lemma ptr_touch_simulates:
  assumes c: "cache_links ol oh la ha c m" and b: "in_list m b"
  shows "\<exists>c'. lift_lists (ptr_touch ol la b m) c = Some c' \<and>
    cache_links ol oh la ha c' (list_in b (bc_list_type (bm_bc m b)) False (list_out b m))"
proof -
  let ?s = "bc_list_type (bm_bc m b)"
  let ?ls = "(bm_list m)(?s := remove1 b (bm_list m ?s))"
  note D = cache_linksD [OF c]
  obtain lm where lm: "list_del (b + ol) (cm_lists c) \<bind> list_add (b + ol) (la ?s) = Some lm"
    "rings lm (list_view la (\<lambda>b. b + ol) btypes (?ls(?s := b # ?ls ?s)))"
    using links.relink_view [OF D(1) inj_offset D(3) btypes_all btypes_all b refl, of ?s] by auto
  have "bm_list (list_in b ?s False (list_out b m)) = ?ls(?s := b # ?ls ?s)"
    "bm_hash (list_in b ?s False (list_out b m)) = bm_hash m"
    by (auto simp: list_in_def list_out_def Let_def)
  then show ?thesis
    using lm c by (simp add: lift_lists_def ptr_touch_def cache_links_def del: fun_upd_apply)
qed

lemma ptr_hash_lookup_simulates:
  assumes c: "cache_links ol oh la ha c m"
  shows "ptr_hash_lookup oh ha m key (cm_hash c) = Some (hash_lookup m key)"
proof -
  have "bucket key \<le> HASH_NUM" using bucket_less [of key] by simp
  then have h: "hchain (cm_hash c) (ha (bucket key)) (map (\<lambda>b. b + oh) (bm_hash m (bucket key)))"
    using hchainsD [OF cache_linksD(4) [OF c]] cache_links_at(2) [OF c] by blast
  have f: "map_option (\<lambda>n. n - oh) (find P (map (\<lambda>b. b + oh) bs)) = find (\<lambda>b. P (b + oh)) bs" for P bs
    by (induction bs) auto
  show ?thesis
    using hlist_for_each_chain(2) [OF h, of "\<lambda>n. bc_bno (bm_bc m (n - oh)) = key"] h
    by (simp add: ptr_hash_lookup_def hash_lookup_def hmem hchain_def f)
qed

text \<open>The second half of \<open>nvfuse_replace_buffer_cache\<close>, on the lists: the last buffer of the
  list without references leaves its list and its chain.\<close>

definition evict :: "btype \<Rightarrow> 'd buffer_manager \<Rightarrow> (nat \<times> 'd buffer_manager) option" where
  "evict ty m = do {
     assert_opt (bm_list_count m ty \<noteq> 0);
     b \<leftarrow> find (\<lambda>b. bc_ref (bm_bc m b) = 0) (rev (bm_list m ty));
     let m2 = m\<lparr>bm_list := (bm_list m)(ty := remove1 b (bm_list m ty)),
                bm_list_count := (bm_list_count m)(ty := bm_list_count m ty - 1)\<rparr>;
         h = (if ty = BUFFER_TYPE_UNUSED then HASH_NUM else bucket (bc_bno (bm_bc m b)))
     in Some (b, hash_out b h m2) }"

lemma replace_buffer_cache_evict:
  "replace_buffer_cache m =
     (if bm_list_count m BUFFER_TYPE_UNUSED \<noteq> 0 then evict BUFFER_TYPE_UNUSED m
      else if bm_list_count m BUFFER_TYPE_CLEAN \<noteq> 0 then evict BUFFER_TYPE_CLEAN m
      else do { m \<leftarrow> check_flush_dirty True m; evict BUFFER_TYPE_DIRTY m })"
  by (simp add: replace_buffer_cache_def evict_def [abs_def] Let_def)

lemma ptr_victim_chain:
  assumes "chain f (lm_prev lm) h (map (\<lambda>b. b + ol) bs) e" "bs \<noteq> []" "h \<notin> set (map (\<lambda>b. b + ol) bs)"
    and "\<forall>b\<in>set bs. addressable (b + ol)"
  shows "ptr_victim ol h m lm (last bs + ol) = find (\<lambda>b. bc_ref (bm_bc m b) = 0) (rev bs)"
  using assms
proof (induction bs arbitrary: e rule: rev_induct)
  case (snoc b bs)
  have c: "chain f (lm_prev lm) h (map (\<lambda>b. b + ol) bs) (b + ol)"
    using snoc.prems(1) by (simp add: chain_append)
  then have p: "lm_prev lm (b + ol) = last (h # map (\<lambda>b. b + ol) bs)" by (rule chain_last)
  show ?case
  proof (cases "bs = []")
    case True
    then show ?thesis using snoc.prems(4) p by (subst ptr_victim.simps) (simp add: lmem)
  next
    case False
    then have l: "last (h # map (\<lambda>b. b + ol) bs) = last bs + ol" by (simp add: last_map)
    have "last bs + ol \<noteq> h" using False snoc.prems(3) last_in_set [OF False] by force
    then show ?thesis
      using snoc.IH [OF c False] snoc.prems(3,4) p l by (subst ptr_victim.simps) (simp add: lmem)
  qed
qed simp

lemma ptr_evict_simulates:
  assumes c: "cache_links ol oh la ha c m" and s: "str_inv m"
  shows "evict ty m = None \<Longrightarrow> ptr_evict ol oh la ty m c = None"
    "evict ty m = Some (b, m') \<Longrightarrow> \<exists>c'. ptr_evict ol oh la ty m c = Some (b, c') \<and>
      cache_links ol oh la ha c' m' \<and> unlinked (lists_of ol la m') (b + ol) \<and> unhashed (hash_of oh ha m') (b + oh)"
proof -
  note D = cache_linksD [OF c]
  let ?bs = "bm_list m ty" and ?P = "\<lambda>b. bc_ref (bm_bc m b) = 0"
  have r: "ring (cm_lists c) (la ty) (map (\<lambda>b. b + ol) ?bs)"
    using ringsD [OF D(3)] cache_links_at(1) [OF c] by blast
  have ne: "?bs \<noteq> []" if "bm_list_count m ty \<noteq> 0" using str_invD(1) [OF s] that by auto
  have v: "rd_prev (la ty) (cm_lists c) \<bind> ptr_victim ol (la ty) m (cm_lists c) = find ?P (rev ?bs)"
    if "bm_list_count m ty \<noteq> 0"
  proof -
    have "lm_prev (cm_lists c) (la ty) = last ?bs + ol"
      using ring_ends(2) [OF r] ne [OF that] by (simp add: last_map)
    moreover have "ptr_victim ol (la ty) m (cm_lists c) (last ?bs + ol) = find ?P (rev ?bs)"
      by (rule ptr_victim_chain) (use r ne [OF that] in \<open>auto simp: ring_def\<close>)
    ultimately show ?thesis using ring_ends_addressable(1) [OF r] by (simp add: lmem)
  qed
  have ptr: "ptr_evict ol oh la ty m c = do {
      assert_opt (bm_list_count m ty \<noteq> 0);
      b \<leftarrow> find ?P (rev ?bs);
      c \<leftarrow> lift_lists (list_del (b + ol)) c;
      c \<leftarrow> lift_hash (hlist_del (b + oh)) c;
      Some (b, c) }"
    using v by (cases "bm_list_count m ty = 0")
      (auto simp: ptr_evict_def Option.bind_assoc [symmetric] simp del: Option.bind_assoc)
  show "ptr_evict ol oh la ty m c = None" if "evict ty m = None"
    using that unfolding ptr evict_def Let_def
    by (cases "bm_list_count m ty = 0"; cases "find ?P (rev ?bs)") auto
  show "\<exists>c'. ptr_evict ol oh la ty m c = Some (b, c') \<and> cache_links ol oh la ha c' m' \<and>
      unlinked (lists_of ol la m') (b + ol) \<and> unhashed (hash_of oh ha m') (b + oh)" if e: "evict ty m = Some (b, m')"
  proof -
    have f: "bm_list_count m ty \<noteq> 0" "find ?P (rev ?bs) = Some b"
      "bm_list m' = (bm_list m)(ty := remove1 b ?bs)" "bm_hash m' = (\<lambda>i. remove1 b (bm_hash m i))"
      using e by (auto simp: evict_def Let_def hash_out_def bind_eq_Some_conv)
    have b: "b \<in> set ?bs" using find_Some_prop [OF f(2)] by simp
    have "in_list m b" using b str_invD(3) [OF s b] by simp
    moreover have "hash_slot (bm_bc m b) \<le> HASH_NUM"
      using bucket_less by (simp add: hash_slot_def less_imp_le)
    ultimately obtain h where h: "h \<le> HASH_NUM" "b \<in> set (bm_hash m h)"
      using str_invD(6) [OF s] by blast
    obtain lm where lm: "list_del (b + ol) (cm_lists c) = Some lm" "rings lm (lists_of ol la m')"
      "unlinked (lists_of ol la m') (b + ol)"
      using links.del_view [OF D(1) inj_offset D(3) btypes_all b] f(3) by auto
    obtain hm where hm: "hlist_del (b + oh) (cm_hash c) = Some hm" "hchains hm (hash_of oh ha m')"
      "unhashed (hash_of oh ha m') (b + oh)"
      using hashes.del_view [OF D(2) inj_offset D(4) _ h(2)] h(1) hash_out_view [OF c h(2,1)] f(4)
      by (auto simp del: fun_upd_apply)
    show ?thesis
      using f lm hm c unfolding ptr by (auto simp: lift_lists_def lift_hash_def cache_links_def)
  qed
qed

lemma ptr_insert_simulates:
  assumes c: "cache_links ol oh la ha c m"
    and u: "unlinked (lists_of ol la m) (b + ol)" "unhashed (hash_of oh ha m) (b + oh)"
  shows "\<exists>c'. ptr_insert ol oh la ha b key c = Some c' \<and>
    cache_links ol oh la ha c' (list_in b BUFFER_TYPE_REF False (hash_in b (bucket key) m))"
proof -
  note D = cache_linksD [OF c]
  have "bucket key \<in> set hslots" using bucket_less [of key] by simp
  from hashes.add_view [OF D(2,4) this u(2)] links.add_view [OF D(1,3) btypes_all [of BUFFER_TYPE_REF] u(1)] c
  show ?thesis
    by (auto simp: ptr_insert_def lift_lists_def lift_hash_def cache_links_def list_in_def hash_in_def)
qed

lemma ptr_add_buffer_simulates:
  assumes c: "cache_links ol oh la ha c m"
    and u: "unlinked (lists_of ol la m) (b + ol)" "unhashed (hash_of oh ha m) (b + oh)"
  shows "\<exists>c'. ptr_add_buffer ol oh la ha b c = Some c' \<and> cache_links ol oh la ha c' (add_buffer b m)"
proof -
  note D = cache_linksD [OF c]
  have "HASH_NUM \<in> set hslots" by simp
  from hashes.add_view [OF D(2,4) this u(2)] links.add_view [OF D(1,3) btypes_all [of BUFFER_TYPE_UNUSED] u(1)] c
  show ?thesis
    by (auto simp: ptr_add_buffer_def add_buffer_def Let_def lift_lists_def lift_hash_def
        cache_links_def list_in_def hash_in_def)
qed

subsection \<open>Initialisation\<close>

definition layout_ok :: "nat \<Rightarrow> nat \<Rightarrow> (btype \<Rightarrow> nat) \<Rightarrow> (nat \<Rightarrow> nat) \<Rightarrow> nat \<Rightarrow> bool" where
  "layout_ok ol oh la ha n \<longleftrightarrow> inj la \<and> inj_on ha {..HASH_NUM} \<and> (\<forall>ty. addressable (la ty)) \<and>
     (\<forall>i\<le>HASH_NUM. addressable (ha i)) \<and>
     (\<forall>b<n. addressable (b + ol) \<and> addressable (b + oh) \<and> b + ol \<notin> range la)"

lemma init_list_heads:
  assumes "distinct is" "inj_on la (set is)" "\<forall>i\<in>set is. unlinked L (la i)" "rings lm L"
  shows "\<exists>lm'. for_each (\<lambda>i. INIT_LIST_HEAD (la i)) is lm = Some lm' \<and>
    rings lm' (\<lambda>a. if a \<in> la ` set is then Some [] else L a)"
  using assms
proof (induction "is" arbitrary: lm L)
  case (Cons i "is")
  obtain lm1 where lm1: "INIT_LIST_HEAD (la i) lm = Some lm1" "rings lm1 (L(la i \<mapsto> []))"
    using rings_init [of lm L "la i"] Cons.prems(3,4) by auto
  have "la j \<noteq> la i" if "j \<in> set is" for j using Cons.prems(1,2) that by (auto simp: inj_on_def)
  then have u: "\<forall>j\<in>set is. unlinked (L(la i \<mapsto> [])) (la j)"
    using Cons.prems(3) by (auto simp: unlinked_def nodes_def split: if_splits)
  have d: "distinct is" "inj_on la (set is)" using Cons.prems(1,2) by (auto simp: inj_on_def)
  obtain lm2 where "for_each (\<lambda>i. INIT_LIST_HEAD (la i)) is lm1 = Some lm2"
    "rings lm2 (\<lambda>a. if a \<in> la ` set is then Some [] else (L(la i \<mapsto> [])) a)"
    using Cons.IH [OF d u lm1(2)] by blast
  moreover have "(\<lambda>a. if a \<in> la ` set is then Some [] else (L(la i \<mapsto> [])) a) =
      (\<lambda>a. if a \<in> la ` set (i # is) then Some [] else L a)" by auto
  ultimately show ?case using lm1(1) by simp
qed simp

lemma init_hash_heads:
  assumes "\<forall>i\<in>set is. addressable (ha i)"
  shows "\<exists>hm'. for_each (\<lambda>i. INIT_HLIST_HEAD (ha i)) is hm = Some hm' \<and>
    (\<forall>a. hm_first hm' a = (if a \<in> ha ` set is then 0 else hm_first hm a))"
  using assms
proof (induction "is" arbitrary: hm)
  case (Cons i "is")
  then have "INIT_HLIST_HEAD (ha i) hm = Some (hm\<lparr>hm_first := (hm_first hm)(ha i := 0)\<rparr>)"
    by (simp add: INIT_HLIST_HEAD_def)
  then show ?case
    using Cons.IH [of "hm\<lparr>hm_first := (hm_first hm)(ha i := 0)\<rparr>"] Cons.prems by auto
qed simp

lemma list_view_empty:
  "list_view la na is (\<lambda>_. []) = (\<lambda>a. if a \<in> la ` set is then Some [] else None)"
proof
  fix a
  show "list_view la na is (\<lambda>_. []) a = (if a \<in> la ` set is then Some [] else None)"
    using find_None_iff [of "\<lambda>i. la i = a" "is"]
    by (cases "find (\<lambda>i. la i = a) is") (auto simp: list_view_def dest: find_Some_prop)
qed

lemma ptr_init_heads_links:
  assumes l: "layout_ok ol oh la ha n"
  shows "\<exists>c'. ptr_init_heads la ha c = Some c' \<and> cache_links ol oh la ha c' (init_buffer_cache 0 disk)"
proof -
  have "distinct btypes" "inj_on la (set btypes)" "\<forall>ty\<in>set btypes. unlinked Map.empty (la ty)"
    "rings (cm_lists c) Map.empty"
    using l by (auto simp: btypes_def layout_ok_def inj_on_def rings_def unlinked_upd(1))
  from init_list_heads [OF this] obtain lm where
    lm: "for_each (\<lambda>ty. INIT_LIST_HEAD (la ty)) btypes (cm_lists c) = Some lm"
      "rings lm (list_view la (\<lambda>b. b + ol) btypes (\<lambda>_. []))"
    by (auto simp: list_view_empty)
  have "\<forall>i\<in>set hslots. addressable (ha i)" using l by (simp add: layout_ok_def)
  from init_hash_heads [OF this, of "cm_hash c"] obtain hm where
    hm: "for_each (\<lambda>i. INIT_HLIST_HEAD (ha i)) hslots (cm_hash c) = Some hm"
      "\<forall>i\<le>HASH_NUM. hm_first hm (ha i) = 0"
    by auto
  have "hchains hm (list_view ha (\<lambda>b. b + oh) hslots (\<lambda>_. []))"
    using hm(2) l by (auto simp: list_view_empty hchains_def hchain_def layout_ok_def split: if_splits)
  then show ?thesis
    using lm hm(1) l
    by (auto simp: ptr_init_heads_def lift_lists_def lift_hash_def cache_links_def layout_ok_def init_buffer_cache_def)
qed

lemma init_unlinked:
  assumes l: "layout_ok ol oh la ha n" and b: "b < n"
  shows "unlinked (lists_of ol la (init_buffer_cache b disk)) (b + ol)"
    "unhashed (hash_of oh ha (init_buffer_cache b disk)) (b + oh)"
proof -
  have "b + ol \<noteq> la ty" "la ty \<noteq> b + ol" "addressable (b + ol)" "addressable (b + oh)" for ty
    using l b by (auto simp: layout_ok_def) (metis rangeI)+
  then show "unlinked (lists_of ol la (init_buffer_cache b disk)) (b + ol)"
    "unhashed (hash_of oh ha (init_buffer_cache b disk)) (b + oh)"
    unfolding add_buffers
    by (auto simp: unlinked_def nodes_def unhashed_def hentries_def list_view_def
        split: if_splits dest!: find_Some_prop)
qed

lemma ptr_init_links:
  assumes l: "layout_ok ol oh la ha n"
  shows "\<exists>c'. ptr_init_buffer_cache ol oh la ha n c = Some c' \<and>
    cache_links ol oh la ha c' (init_buffer_cache n disk)"
proof -
  have "\<exists>c'. ptr_init_buffer_cache ol oh la ha k c = Some c' \<and>
      cache_links ol oh la ha c' (init_buffer_cache k disk)" if "k \<le> n" for k
    using that
  proof (induction k)
    case 0
    then show ?case using ptr_init_heads_links [OF l] by (simp add: ptr_init_buffer_cache_def)
  next
    case (Suc k)
    then obtain c1 where c1: "ptr_init_buffer_cache ol oh la ha k c = Some c1"
      "cache_links ol oh la ha c1 (init_buffer_cache k disk)" by auto
    have app: "for_each f (xs @ ys) s = for_each f xs s \<bind> for_each f ys" for f xs ys and s :: cache_mem
      by (induction xs arbitrary: s) (auto simp: Option.bind_assoc cong: Option.bind_cong)
    have "init_buffer_cache (Suc k) disk = add_buffer k (init_buffer_cache k disk)"
      by (simp add: init_buffer_cache_def)
    then show ?case
      using ptr_add_buffer_simulates [OF c1(2) init_unlinked [OF l, of k]] c1(1) Suc.prems
      by (auto simp: ptr_init_buffer_cache_def app bind_eq_Some_conv)
  qed
  then show ?thesis by blast
qed

section \<open>Main result\<close>

text \<open>C13: the list code of the buffer cache, on the pointers of \<open>list.h\<close>, does what the model
  of the cache says, from every memory that holds the lists of a well-formed buffer manager
  (\<open>cache_links\<close>), with no access through a null or poisoned pointer: the hash lookup ends
  with the buffer of the key or with none; moving a buffer to another list, and to the front
  of its own, gives the lists of \<open>move_buffer_list\<close> and of the hit; the victim search ends with
  the last unreferenced buffer, which leaves its list and its chain and is then inserted
  for the new key, and it does not return when there is no such buffer; and a
  new buffer is added to the unused list and chain.\<close>

theorem cache_list_code_correct:
  assumes c: "cache_links ol oh la ha c m" and s: "str_inv m"
  shows "ptr_hash_lookup oh ha m key (cm_hash c) = Some (hash_lookup m key) \<and>
    (in_list m b \<longrightarrow>
      (\<exists>c'. lift_lists (ptr_move_buffer_list ol la b ty tail m) c = Some c' \<and>
        cache_links ol oh la ha c' (move_buffer_list b ty tail m)) \<and>
      (\<exists>c'. lift_lists (ptr_touch ol la b m) c = Some c' \<and>
        cache_links ol oh la ha c' (list_in b (bc_list_type (bm_bc m b)) False (list_out b m)))) \<and>
    (case evict ty m of
       None \<Rightarrow> ptr_evict ol oh la ty m c = None
     | Some (v, m') \<Rightarrow> \<exists>c'. ptr_evict ol oh la ty m c = Some (v, c') \<and> cache_links ol oh la ha c' m' \<and>
         (\<exists>c''. ptr_insert ol oh la ha v key c' = Some c'' \<and>
           cache_links ol oh la ha c'' (list_in v BUFFER_TYPE_REF False (hash_in v (bucket key) m')))) \<and>
    (unlinked (lists_of ol la m) (b + ol) \<and> unhashed (hash_of oh ha m) (b + oh) \<longrightarrow>
      (\<exists>c'. ptr_add_buffer ol oh la ha b c = Some c' \<and> cache_links ol oh la ha c' (add_buffer b m)))"
proof (intro conjI impI)
  show "ptr_hash_lookup oh ha m key (cm_hash c) = Some (hash_lookup m key)"
    by (rule ptr_hash_lookup_simulates [OF c])
next
  assume "in_list m b"
  then show "\<exists>c'. lift_lists (ptr_move_buffer_list ol la b ty tail m) c = Some c' \<and>
      cache_links ol oh la ha c' (move_buffer_list b ty tail m)"
    "\<exists>c'. lift_lists (ptr_touch ol la b m) c = Some c' \<and>
      cache_links ol oh la ha c' (list_in b (bc_list_type (bm_bc m b)) False (list_out b m))"
    by (rule ptr_move_simulates [OF c] ptr_touch_simulates [OF c])+
next
  show "case evict ty m of None \<Rightarrow> ptr_evict ol oh la ty m c = None
    | Some (v, m') \<Rightarrow> \<exists>c'. ptr_evict ol oh la ty m c = Some (v, c') \<and> cache_links ol oh la ha c' m' \<and>
        (\<exists>c''. ptr_insert ol oh la ha v key c' = Some c'' \<and>
          cache_links ol oh la ha c'' (list_in v BUFFER_TYPE_REF False (hash_in v (bucket key) m')))"
    using ptr_evict_simulates [OF c s, of ty] ptr_insert_simulates
    by (auto split: option.split) blast
next
  assume "unlinked (lists_of ol la m) (b + ol) \<and> unhashed (hash_of oh ha m) (b + oh)"
  then show "\<exists>c'. ptr_add_buffer ol oh la ha b c = Some c' \<and> cache_links ol oh la ha c' (add_buffer b m)"
    using ptr_add_buffer_simulates [OF c] by blast
qed

definition sample_la :: "btype \<Rightarrow> nat" where
  "sample_la ty = (case ty of BUFFER_TYPE_UNUSED \<Rightarrow> 1000 | BUFFER_TYPE_REF \<Rightarrow> 1016 | BUFFER_TYPE_CLEAN \<Rightarrow> 1032
     | BUFFER_TYPE_DIRTY \<Rightarrow> 1048 | BUFFER_TYPE_FLUSHING \<Rightarrow> 1064)"

lemma sample_layout: "layout_ok 8 24 sample_la (\<lambda>i. 0x300000 + i) 3"
proof -
  have "inj sample_la" by (auto simp: inj_def sample_la_def split: btype.splits)
  moreover have r: "1000 \<le> sample_la ty" "sample_la ty \<le> 1064" for ty
    by (cases ty; simp add: sample_la_def)+
  have "b + 8 \<notin> range sample_la" if "b < 3" for b
  proof
    assume "b + 8 \<in> range sample_la"
    then obtain ty where "b + 8 = sample_la ty" by blast
    then show False using r(1) [of ty] that by linarith
  qed
  moreover have "sample_la ty \<noteq> 0" "sample_la ty \<noteq> 1048832" "sample_la ty \<noteq> 2097664" for ty
    using r(1) [of ty] r(2) [of ty] by linarith+
  ultimately show ?thesis
    by (auto simp: layout_ok_def addressable_def LIST_POISON1_def LIST_POISON2_def inj_on_def)
qed

theorem cache_list_code_correct_witness:
  "\<exists>c c' c''. ptr_init_buffer_cache 8 24 sample_la (\<lambda>i. 0x300000 + i) 3
       \<lparr>cm_lists = \<lparr>lm_next = (\<lambda>_. 0), lm_prev = (\<lambda>_. 0)\<rparr>,
        cm_hash = \<lparr>hm_first = (\<lambda>_. 7), hm_next = (\<lambda>_. 0), hm_pprev = (\<lambda>_. SNull)\<rparr>\<rparr> = Some c \<and>
     ptr_evict 8 24 sample_la BUFFER_TYPE_UNUSED (init_buffer_cache 3 (\<lambda>_. 0::nat)) c = Some (0, c') \<and>
     ptr_insert 8 24 sample_la (\<lambda>i. 0x300000 + i) 0 77 c' = Some c''"
proof -
  let ?m = "init_buffer_cache 3 (\<lambda>_. 0::nat)" and ?ha = "\<lambda>i. 0x300000 + i :: nat"
  let ?c0 = "\<lparr>cm_lists = \<lparr>lm_next = (\<lambda>_. 0), lm_prev = (\<lambda>_. 0)\<rparr>,
        cm_hash = \<lparr>hm_first = (\<lambda>_. 7), hm_next = (\<lambda>_. 0), hm_pprev = (\<lambda>_. SNull)\<rparr>\<rparr>"
  obtain c where c: "ptr_init_buffer_cache 8 24 sample_la ?ha 3 ?c0 = Some c" "cache_links 8 24 sample_la ?ha c ?m"
    using ptr_init_links [OF sample_layout] by blast
  have s: "str_inv ?m" using init_idle(1) by (auto simp: idle_def bc_inv_def)
  have e: "\<exists>m'. evict BUFFER_TYPE_UNUSED ?m = Some (0, m')"
    unfolding add_buffers by (simp add: evict_def Let_def upt_rec numeral_3_eq_3)
  show ?thesis
    using cache_list_code_correct [OF c(2) s, of 77 0 BUFFER_TYPE_UNUSED False] c(1) e by auto
qed

end
