(* ===== verification/FlushWork.thy ===== *)
theory FlushWork
  imports BufferCache
begin

text \<open>
  The flush worker of \<open>nvfuse_flushwork.c\<close>, a second thread that waits on a condition
  variable and writes the dirty buffers whenever it is woken.  The state is the status
  word, the place of the worker in its loop and the buffer cache; the actions are the steps
  of the worker and the calls of the other thread, in any order.  A signal of a condition
  variable wakes a thread that waits and has no effect otherwise; \<open>Spurious\<close> is a wake-up
  without a signal.  (The file system as configured has the calls of the worker disabled
  and flushes in the calling thread.)
\<close>

definition FLUSHWORKER_PENDING :: nat where "FLUSHWORKER_PENDING = 1"
definition FLUSHWORKER_STOP :: nat where "FLUSHWORKER_STOP = 3"

text \<open>The places of the worker: not launched, at its first statement, at the loop test, before
  and in \<open>pthread_cond_wait\<close>, at the flush, returned.\<close>

datatype worker_pc = WIdle | WEntry | WTest | WReady | WBlocked | WFlush | WDone

record 'd flush_worker =
  fw_status :: nat
  fw_pc :: worker_pc
  fw_cache :: "'d buffer_manager"

fun flushworker_step :: "'d flush_worker \<Rightarrow> 'd flush_worker option" where
  "flushworker_step s = (case fw_pc s of
     WEntry \<Rightarrow> Some (s\<lparr>fw_status := FLUSHWORKER_PENDING, fw_pc := WTest\<rparr>)
   | WTest \<Rightarrow> Some (s\<lparr>fw_pc := (if fw_status s \<noteq> FLUSHWORKER_STOP then WReady else WDone)\<rparr>)
   | WReady \<Rightarrow> Some (s\<lparr>fw_pc := WBlocked\<rparr>)
   | WFlush \<Rightarrow> do { m \<leftarrow> flush_dirty_data (fw_cache s); Some (s\<lparr>fw_cache := m, fw_pc := WTest\<rparr>) }
   | _ \<Rightarrow> None)"

definition queuework :: "'d flush_worker \<Rightarrow> 'd flush_worker" where
  "queuework s = (if fw_pc s = WBlocked then s\<lparr>fw_pc := WFlush\<rparr> else s)"

definition set_flushworker_status :: "nat \<Rightarrow> 'd flush_worker \<Rightarrow> 'd flush_worker" where
  "set_flushworker_status v s = s\<lparr>fw_status := v\<rparr>"

definition start_flushworker :: "'d flush_worker \<Rightarrow> 'd flush_worker option" where
  "start_flushworker s = (if fw_pc s = WIdle \<or> fw_pc s = WDone then Some (s\<lparr>fw_pc := WEntry\<rparr>) else None)"

text \<open>\<open>nvfuse_stop_flushworker\<close> stores the status and waits until the worker has returned;
  the first part is the action \<open>Stop\<close>, the second returns when the place is \<open>WDone\<close>.\<close>

datatype 'd fw_action = Worker | Spurious | Start | Queue | Stop | Client "'d buffer_manager"

fun fw_act :: "'d fw_action \<Rightarrow> 'd flush_worker \<Rightarrow> 'd flush_worker option" where
  "fw_act Worker s = flushworker_step s"
| "fw_act Spurious s = (if fw_pc s = WBlocked then Some (s\<lparr>fw_pc := WFlush\<rparr>) else None)"
| "fw_act Start s = start_flushworker s"
| "fw_act Queue s = Some (queuework s)"
| "fw_act Stop s = Some (set_flushworker_status FLUSHWORKER_STOP s)"
| "fw_act (Client m) s = Some (s\<lparr>fw_cache := m\<rparr>)"

fun fw_run :: "'d fw_action list \<Rightarrow> 'd flush_worker \<Rightarrow> 'd flush_worker option" where
  "fw_run [] s = Some s"
| "fw_run (a # as) s = do { s \<leftarrow> fw_act a s; fw_run as s }"

fun wakes :: "'d fw_action \<Rightarrow> bool" where
  "wakes Spurious = True" | "wakes Queue = True" | "wakes _ = False"

section \<open>Flush requests\<close>

text \<open>A flush of the worker leaves no dirty buffer and every block on the device.\<close>

definition flushed :: "(u64 \<Rightarrow> nat) \<Rightarrow> (u64 \<Rightarrow> 'd) \<Rightarrow> 'd buffer_manager \<Rightarrow> bool" where
  "flushed pbn view m \<longleftrightarrow> idle pbn m \<and> bm_list m BUFFER_TYPE_DIRTY = [] \<and> (\<forall>k. bm_disk m (pbn k) = view k)"

lemma worker_flush:
  assumes "fw_pc s = WFlush" "idle pbn (fw_cache s)" "pbn_inj pbn"
  shows "\<exists>s'. fw_act Worker s = Some s' \<and> fw_pc s' = WTest \<and> fw_status s' = fw_status s \<and>
    flushed pbn (cache_view pbn (fw_cache s)) (fw_cache s')"
  using flush_spec [OF assms(2,3)] assms(1) by (auto simp: flushed_def)

text \<open>One signal can be lost, when the worker is not waiting yet.\<close>

theorem queuework_lost:
  "fw_pc s \<noteq> WBlocked \<Longrightarrow> fw_act Queue s = Some s"
  by (simp add: queuework_def)

text \<open>The waiting loop of the client (a signal, a pause, and again while there are dirty
  buffers) makes up for it: wherever a running worker is, the pause of three steps and a
  second signal lead to a flush.\<close>

theorem repeated_queuework_flushes:
  assumes pc: "fw_pc s \<in> {WEntry, WTest, WReady, WBlocked, WFlush}"
    and st: "fw_status s \<noteq> FLUSHWORKER_STOP \<or> fw_pc s = WEntry" and m: "idle pbn (fw_cache s)" "pbn_inj pbn"
  shows "\<exists>n\<le>3. \<exists>s'. fw_run (Queue # replicate n Worker @ [Queue, Worker]) s = Some s' \<and>
    flushed pbn (cache_view pbn (fw_cache s)) (fw_cache s')"
proof -
  have wake: "\<exists>s'. fw_run [Queue, Worker] t = Some s' \<and> flushed pbn (cache_view pbn (fw_cache s)) (fw_cache s')"
    if "fw_pc t = WBlocked \<or> fw_pc t = WFlush" "fw_cache t = fw_cache s" for t
    using worker_flush [of "queuework t" pbn] that m by (auto simp: queuework_def)
  have app: "fw_run (as @ bs) t = fw_run as t \<bind> fw_run bs" for as bs and t :: "'d flush_worker"
    by (induction as arbitrary: t) (auto simp: Option.bind_assoc cong: Option.bind_cong)
  have reach: "\<exists>n\<le>3. \<exists>t. fw_run (Queue # replicate n Worker) s = Some t \<and> fw_cache t = fw_cache s \<and>
      (fw_pc t = WBlocked \<or> fw_pc t = WFlush)"
  proof (cases "fw_pc s = WBlocked \<or> fw_pc s = WFlush")
    case True
    then show ?thesis by (intro exI [of _ 0]) (auto simp: queuework_def)
  next
    case False
    note q = queuework_def FLUSHWORKER_PENDING_def FLUSHWORKER_STOP_def
    from False pc consider "fw_pc s = WReady" | "fw_pc s = WTest" | "fw_pc s = WEntry" by auto
    then show ?thesis
    proof cases
      case 1
      then show ?thesis by (intro exI [of _ 1]) (simp add: q)
    next
      case 2
      then show ?thesis using st by (intro exI [of _ 2]) (simp add: q numeral_2_eq_2)
    next
      case 3
      then show ?thesis by (intro exI [of _ 3]) (simp add: q numeral_3_eq_3)
    qed
  qed
  then obtain n t where n: "n \<le> 3" "fw_run (Queue # replicate n Worker) s = Some t" "fw_cache t = fw_cache s"
    "fw_pc t = WBlocked \<or> fw_pc t = WFlush" by blast
  have "fw_run ((Queue # replicate n Worker) @ [Queue, Worker]) s = fw_run [Queue, Worker] t"
    unfolding app n(2) by simp
  then show ?thesis using wake [OF n(4,3)] n(1) by (metis append_Cons)
qed

section \<open>Stopping\<close>

lemma blocked_stays:
  assumes "fw_run as s = Some s'" "fw_pc s = WBlocked" "list_all (\<lambda>a. \<not> wakes a) as"
  shows "fw_pc s' = WBlocked"
  using assms
proof (induction as arbitrary: s)
  case (Cons a as)
  then obtain t where "fw_act a s = Some t" "fw_run as t = Some s'" by (auto simp: bind_eq_Some_conv)
  moreover have "fw_pc t = WBlocked"
    using Cons.prems(2,3) calculation(1)
    by (cases a) (auto simp: set_flushworker_status_def start_flushworker_def)
  ultimately show ?case using Cons by simp
qed simp

text \<open>\<open>nvfuse_stop_flushworker\<close> sets the status but sends no signal: a worker that waits
  never sees it.  After the stop, in every run in which nobody signals, the worker does
  not return, and so the stop does not either.\<close>

theorem stop_flushworker_hangs:
  assumes "fw_pc s = WBlocked" "fw_run (Stop # as) s = Some s'" "list_all (\<lambda>a. \<not> wakes a) as"
  shows "fw_pc s' \<noteq> WDone"
  using blocked_stays [of as "set_flushworker_status FLUSHWORKER_STOP s" s'] assms
  by (simp add: set_flushworker_status_def)

text \<open>A stop that comes before the first statement of the worker is overwritten by it.\<close>

theorem early_stop_lost:
  assumes "fw_pc s = WEntry"
  shows "\<exists>s'. fw_run [Stop, Worker, Worker, Worker] s = Some s' \<and> fw_pc s' = WBlocked \<and>
    fw_status s' = FLUSHWORKER_PENDING"
  using assms by (simp add: set_flushworker_status_def FLUSHWORKER_STOP_def FLUSHWORKER_PENDING_def)

text \<open>With one signal after it, the stop ends a waiting worker, which flushes first.\<close>

theorem stop_with_signal_ends:
  assumes "fw_pc s = WBlocked" "idle pbn (fw_cache s)" "pbn_inj pbn"
  shows "\<exists>s'. fw_run [Stop, Queue, Worker, Worker] s = Some s' \<and> fw_pc s' = WDone \<and>
    flushed pbn (cache_view pbn (fw_cache s)) (fw_cache s')"
proof -
  let ?t = "queuework (set_flushworker_status FLUSHWORKER_STOP s)"
  have t: "fw_pc ?t = WFlush" "fw_status ?t = FLUSHWORKER_STOP" "fw_cache ?t = fw_cache s"
    using assms(1) by (simp_all add: queuework_def set_flushworker_status_def)
  then obtain u where "fw_act Worker ?t = Some u" "fw_pc u = WTest" "fw_status u = FLUSHWORKER_STOP"
    "flushed pbn (cache_view pbn (fw_cache s)) (fw_cache u)"
    using worker_flush [of ?t pbn] assms by auto
  then show ?thesis by simp
qed

end
