(* ===== verification/TimeStat.thy ===== *)
theory TimeStat
  imports Prelude
begin

text \<open>
  Time values and resource usage (\<open>nvfuse_gettimeofday.c\<close>, \<open>nvfuse_misc.c\<close>): subtraction and
  addition of \<open>struct timeval\<close>, and of \<open>struct rusage\<close>, which the statistics of the
  asynchronous queues accumulate.  The functions that return floating-point seconds are
  not modelled.
\<close>

record timeval =
  tv_sec :: int
  tv_usec :: int

definition tv_micro :: "timeval \<Rightarrow> int" where
  "tv_micro t = 1000000 * tv_sec t + tv_usec t"

definition tv_normal :: "timeval \<Rightarrow> bool" where
  "tv_normal t \<longleftrightarrow> 0 \<le> tv_usec t \<and> tv_usec t < 1000000"

text \<open>\<open>timeval_subtract\<close> returns whether the difference is negative, the difference, and the
  subtrahend, which it changes in place.\<close>

definition timeval_subtract :: "timeval \<Rightarrow> timeval \<Rightarrow> bool \<times> timeval \<times> timeval" where
  "timeval_subtract x y0 =
     (let y1 = (if tv_usec x < tv_usec y0
                then let nsec = (tv_usec y0 - tv_usec x) div 1000000 + 1
                     in y0\<lparr>tv_usec := tv_usec y0 - 1000000 * nsec, tv_sec := tv_sec y0 + nsec\<rparr>
                else y0);
          y = (if tv_usec x - tv_usec y1 > 1000000
               then let nsec = (tv_usec x - tv_usec y1) div 1000000
                    in y1\<lparr>tv_usec := tv_usec y1 + 1000000 * nsec, tv_sec := tv_sec y1 - nsec\<rparr>
               else y1)
      in (tv_sec x < tv_sec y, \<lparr>tv_sec = tv_sec x - tv_sec y, tv_usec = tv_usec x - tv_usec y\<rparr>, y))"

definition timeval_add :: "timeval \<Rightarrow> timeval \<Rightarrow> timeval" where
  "timeval_add t1 t2 =
     (if tv_usec t1 + tv_usec t2 < 1000000
      then \<lparr>tv_sec = tv_sec t1 + tv_sec t2, tv_usec = tv_usec t1 + tv_usec t2\<rparr>
      else let nsec = (tv_usec t1 + tv_usec t2) div 1000000
           in \<lparr>tv_sec = tv_sec t1 + tv_sec t2 + nsec, tv_usec = tv_usec t1 + tv_usec t2 - 1000000 * nsec\<rparr>)"

record rusage =
  ru_utime :: timeval
  ru_stime :: timeval
  ru_maxrss :: int
  ru_ixrss :: int
  ru_idrss :: int
  ru_isrss :: int
  ru_minflt :: int
  ru_majflt :: int
  ru_nswap :: int
  ru_inblock :: int
  ru_oublock :: int
  ru_msgsnd :: int
  ru_msgrcv :: int
  ru_nsignals :: int
  ru_nvcsw :: int
  ru_nivcsw :: int

text \<open>\<open>nvfuse_rusage_diff(x, y, result)\<close>: the new \<open>x\<close> and the result.\<close>

definition rusage_diff :: "rusage \<Rightarrow> rusage \<Rightarrow> rusage \<times> rusage" where
  "rusage_diff x y =
     (let (_, st, sx) = timeval_subtract (ru_stime y) (ru_stime x);
          (_, ut, ux) = timeval_subtract (ru_utime y) (ru_utime x)
      in (x\<lparr>ru_stime := sx, ru_utime := ux\<rparr>,
          \<lparr>ru_utime = ut, ru_stime = st,
           ru_maxrss = ru_maxrss y - ru_maxrss x,
           ru_ixrss = ru_ixrss y - ru_ixrss x,
           ru_idrss = ru_idrss y - ru_idrss x,
           ru_isrss = ru_isrss y - ru_isrss x,
           ru_minflt = ru_minflt y - ru_minflt x,
           ru_majflt = ru_majflt y - ru_majflt x,
           ru_nswap = ru_nswap y - ru_nswap x,
           ru_inblock = ru_inblock y - ru_inblock x,
           ru_oublock = ru_oublock y - ru_oublock x,
           ru_msgsnd = ru_msgsnd y - ru_msgsnd x,
           ru_msgrcv = ru_msgrcv y - ru_msgrcv x,
           ru_nsignals = ru_nsignals y - ru_nsignals x,
           ru_nvcsw = ru_nvcsw y - ru_nvcsw x,
           ru_nivcsw = ru_nivcsw y - ru_nivcsw x\<rparr>))"

text \<open>\<open>nvfuse_rusage_add(x, result)\<close>: the new result.\<close>

definition rusage_add :: "rusage \<Rightarrow> rusage \<Rightarrow> rusage" where
  "rusage_add x r =
     \<lparr>ru_utime = timeval_add (ru_utime r) (ru_utime x), ru_stime = timeval_add (ru_stime r) (ru_stime x),
      ru_maxrss = ru_maxrss r + ru_maxrss x,
      ru_ixrss = ru_ixrss r + ru_ixrss x,
      ru_idrss = ru_idrss r + ru_idrss x,
      ru_isrss = ru_isrss r + ru_isrss x,
      ru_minflt = ru_minflt r + ru_minflt x,
      ru_majflt = ru_majflt r + ru_majflt x,
      ru_nswap = ru_nswap r + ru_nswap x,
      ru_inblock = ru_inblock r + ru_inblock x,
      ru_oublock = ru_oublock r + ru_oublock x,
      ru_msgsnd = ru_msgsnd r + ru_msgsnd x,
      ru_msgrcv = ru_msgrcv r + ru_msgrcv x,
      ru_nsignals = ru_nsignals r + ru_nsignals x,
      ru_nvcsw = ru_nvcsw r + ru_nvcsw x,
      ru_nivcsw = ru_nivcsw r + ru_nivcsw x\<rparr>"

section \<open>Correctness\<close>

lemma tv_normal_eqI: "tv_normal a \<Longrightarrow> tv_normal b \<Longrightarrow> tv_micro a = tv_micro b \<Longrightarrow> a = b"
proof -
  assume n: "tv_normal a" "tv_normal b" and m: "tv_micro a = tv_micro b"
  have "tv_sec a = tv_sec b" using n m unfolding tv_normal_def tv_micro_def by linarith
  with m show "a = b" by (simp add: tv_micro_def)
qed

text \<open>On normal values the difference is exact and normal, its sign is reported, and the
  subtrahend keeps its value, though not its form.\<close>

theorem timeval_subtract_correct:
  assumes "tv_normal x" "tv_normal y" "timeval_subtract x y = (neg, d, y')"
  shows "tv_micro d = tv_micro x - tv_micro y" "tv_normal d" "neg \<longleftrightarrow> tv_micro x < tv_micro y"
    "tv_micro y' = tv_micro y"
proof -
  have k: "(tv_usec y - tv_usec x) div 1000000 = 0" if "tv_usec x < tv_usec y"
    using assms(1,2) that by (simp add: tv_normal_def div_pos_pos_trivial)
  show "tv_micro d = tv_micro x - tv_micro y" "tv_normal d" "neg \<longleftrightarrow> tv_micro x < tv_micro y"
    "tv_micro y' = tv_micro y"
    using assms k by (auto simp: timeval_subtract_def Let_def tv_micro_def tv_normal_def split: if_splits)
qed

theorem timeval_add_correct:
  assumes "tv_normal x" "tv_normal y"
  shows "tv_micro (timeval_add x y) = tv_micro x + tv_micro y" "tv_normal (timeval_add x y)"
proof -
  have k: "(tv_usec x + tv_usec y) div 1000000 = 1" if "\<not> tv_usec x + tv_usec y < 1000000"
    using assms that div_pos_geq [of 1000000 "tv_usec x + tv_usec y"]
    by (simp add: tv_normal_def div_pos_pos_trivial)
  show "tv_micro (timeval_add x y) = tv_micro x + tv_micro y" "tv_normal (timeval_add x y)"
    using assms k by (auto simp: timeval_add_def Let_def tv_micro_def tv_normal_def)
qed

text \<open>The accumulated usage: a difference added to the first sample gives the second.\<close>

theorem rusage_diff_add_roundtrip:
  assumes "tv_normal (ru_utime x)" "tv_normal (ru_stime x)" "tv_normal (ru_utime y)" "tv_normal (ru_stime y)"
    and "rusage_diff x y = (x', d)"
  shows "rusage_add d x = y"
proof -
  obtain n1 st sx n2 ut ux where
    s: "timeval_subtract (ru_stime y) (ru_stime x) = (n1, st, sx)"
    and u: "timeval_subtract (ru_utime y) (ru_utime x) = (n2, ut, ux)"
    by (metis prod_cases3)
  have "timeval_add (ru_stime x) st = ru_stime y"
    using timeval_subtract_correct [OF assms(4,2) s] timeval_add_correct [OF assms(2), of st] assms(4)
    by (intro tv_normal_eqI) simp_all
  moreover have "timeval_add (ru_utime x) ut = ru_utime y"
    using timeval_subtract_correct [OF assms(3,1) u] timeval_add_correct [OF assms(1), of ut] assms(3)
    by (intro tv_normal_eqI) simp_all
  ultimately show ?thesis
    using assms(5) by (auto simp: rusage_diff_def rusage_add_def s u)
qed

end
