(* ===== verification/RbTree.thy ===== *)
theory RbTree
  imports Prelude
begin

text \<open>
  The red-black trees of \<open>rbtree.c\<close> and \<open>include/rbtree.h\<close>, on an explicit memory of nodes, and
  their use as an index of dirty buffers by block number (\<open>nvfuse_rbnode_insert_bh\<close> and
  \<open>nvfuse_rbnode_search\<close> of \<open>nvfuse_buffer_cache.c\<close>).  A node keeps the address of its parent
  and its colour in one word; an access through the null pointer is \<open>None\<close>.

  \<open>focus\<close> says that the memory holds a tree, seen as a subtree and the path from it to the
  root.  The loops of insertion and removal walk along this path; each of their rounds is a
  few changes of colour and rotations, and the two mirrored halves of the code are one
  lemma about a side.
\<close>

unbundle bit_operations_syntax

section \<open>Memory\<close>

record rb_mem =
  rm_parent_color :: "u64 \<Rightarrow> u64"
  rm_right :: "u64 \<Rightarrow> u64"
  rm_left :: "u64 \<Rightarrow> u64"
  rm_root :: "u64 \<Rightarrow> u64"

definition rd_pc :: "u64 \<Rightarrow> rb_mem \<Rightarrow> u64 option" where
  "rd_pc a m = (if a \<noteq> 0 then Some (rm_parent_color m a) else None)"

definition rd_left :: "u64 \<Rightarrow> rb_mem \<Rightarrow> u64 option" where
  "rd_left a m = (if a \<noteq> 0 then Some (rm_left m a) else None)"

definition rd_right :: "u64 \<Rightarrow> rb_mem \<Rightarrow> u64 option" where
  "rd_right a m = (if a \<noteq> 0 then Some (rm_right m a) else None)"

definition wr_pc :: "u64 \<Rightarrow> u64 \<Rightarrow> rb_mem \<Rightarrow> rb_mem option" where
  "wr_pc a v m = (if a \<noteq> 0 then Some (m\<lparr>rm_parent_color := (rm_parent_color m)(a := v)\<rparr>) else None)"

definition wr_left :: "u64 \<Rightarrow> u64 \<Rightarrow> rb_mem \<Rightarrow> rb_mem option" where
  "wr_left a v m = (if a \<noteq> 0 then Some (m\<lparr>rm_left := (rm_left m)(a := v)\<rparr>) else None)"

definition wr_right :: "u64 \<Rightarrow> u64 \<Rightarrow> rb_mem \<Rightarrow> rb_mem option" where
  "wr_right a v m = (if a \<noteq> 0 then Some (m\<lparr>rm_right := (rm_right m)(a := v)\<rparr>) else None)"

definition wr_root :: "u64 \<Rightarrow> u64 \<Rightarrow> rb_mem \<Rightarrow> rb_mem option" where
  "wr_root r v m = Some (m\<lparr>rm_root := (rm_root m)(r := v)\<rparr>)"

section \<open>Macros and inline functions of the header\<close>

definition RB_RED :: u64 where "RB_RED = 0"
definition RB_BLACK :: u64 where "RB_BLACK = 1"

definition rb_parent :: "u64 \<Rightarrow> rb_mem \<Rightarrow> u64 option" where
  "rb_parent a m = do { c \<leftarrow> rd_pc a m; Some (c AND NOT 3) }"

definition rb_color :: "u64 \<Rightarrow> rb_mem \<Rightarrow> u64 option" where
  "rb_color a m = do { c \<leftarrow> rd_pc a m; Some (c AND 1) }"

definition rb_is_red :: "u64 \<Rightarrow> rb_mem \<Rightarrow> bool option" where
  "rb_is_red a m = do { c \<leftarrow> rb_color a m; Some (c = 0) }"

definition rb_is_black :: "u64 \<Rightarrow> rb_mem \<Rightarrow> bool option" where
  "rb_is_black a m = do { c \<leftarrow> rb_color a m; Some (c \<noteq> 0) }"

definition rb_set_red :: "u64 \<Rightarrow> rb_mem \<Rightarrow> rb_mem option" where
  "rb_set_red a m = do { c \<leftarrow> rd_pc a m; wr_pc a (c AND NOT 1) m }"

definition rb_set_black :: "u64 \<Rightarrow> rb_mem \<Rightarrow> rb_mem option" where
  "rb_set_black a m = do { c \<leftarrow> rd_pc a m; wr_pc a (c OR 1) m }"

definition rb_set_parent :: "u64 \<Rightarrow> u64 \<Rightarrow> rb_mem \<Rightarrow> rb_mem option" where
  "rb_set_parent a p m = do { c \<leftarrow> rd_pc a m; wr_pc a ((c AND 3) OR p) m }"

definition rb_set_color :: "u64 \<Rightarrow> u64 \<Rightarrow> rb_mem \<Rightarrow> rb_mem option" where
  "rb_set_color a k m = do { c \<leftarrow> rd_pc a m; wr_pc a ((c AND NOT 1) OR k) m }"

definition RB_EMPTY_ROOT :: "u64 \<Rightarrow> rb_mem \<Rightarrow> bool" where
  "RB_EMPTY_ROOT r m \<longleftrightarrow> rm_root m r = 0"

definition RB_EMPTY_NODE :: "u64 \<Rightarrow> rb_mem \<Rightarrow> bool option" where
  "RB_EMPTY_NODE a m = do { p \<leftarrow> rb_parent a m; Some (p = a) }"

definition RB_CLEAR_NODE :: "u64 \<Rightarrow> rb_mem \<Rightarrow> rb_mem option" where
  "RB_CLEAR_NODE a m = rb_set_parent a a m"

definition rb_init_node :: "u64 \<Rightarrow> rb_mem \<Rightarrow> rb_mem option" where
  "rb_init_node a m = do {
     m \<leftarrow> wr_pc a 0 m;
     m \<leftarrow> wr_right a 0 m;
     m \<leftarrow> wr_left a 0 m;
     RB_CLEAR_NODE a m }"

text \<open>The link a new node is put in, a \<open>struct rb_node **\<close>: the root or a child of a node.\<close>

datatype rb_link = AtRoot u64 | AtLeft u64 | AtRight u64

fun rd_link :: "rb_link \<Rightarrow> rb_mem \<Rightarrow> u64 option" where
  "rd_link (AtRoot r) m = Some (rm_root m r)"
| "rd_link (AtLeft a) m = rd_left a m"
| "rd_link (AtRight a) m = rd_right a m"

fun wr_link :: "rb_link \<Rightarrow> u64 \<Rightarrow> rb_mem \<Rightarrow> rb_mem option" where
  "wr_link (AtRoot r) v m = wr_root r v m"
| "wr_link (AtLeft a) v m = wr_left a v m"
| "wr_link (AtRight a) v m = wr_right a v m"

definition rb_link_node :: "u64 \<Rightarrow> u64 \<Rightarrow> rb_link \<Rightarrow> rb_mem \<Rightarrow> rb_mem option" where
  "rb_link_node node parent link m = do {
     m \<leftarrow> wr_pc node parent m;
     m \<leftarrow> wr_right node 0 m;
     m \<leftarrow> wr_left node 0 m;
     wr_link link node m }"

section \<open>Rotations\<close>

text \<open>Statements that the functions below repeat: the parent of a child that may be null, and
  the link from the parent, or from the root, to a node that is exchanged.  The right
  rotation looks at the right child first.\<close>

definition adopt :: "u64 \<Rightarrow> u64 \<Rightarrow> rb_mem \<Rightarrow> rb_mem option" where
  "adopt child p m = (if child \<noteq> 0 then rb_set_parent child p m else Some m)"

definition relink :: "u64 \<Rightarrow> u64 \<Rightarrow> u64 \<Rightarrow> u64 \<Rightarrow> rb_mem \<Rightarrow> rb_mem option" where
  "relink parent old ne root m =
     (if parent \<noteq> 0 then do {
        pl \<leftarrow> rd_left parent m;
        if old = pl then wr_left parent ne m else wr_right parent ne m }
      else wr_root root ne m)"

definition relink_right :: "u64 \<Rightarrow> u64 \<Rightarrow> u64 \<Rightarrow> u64 \<Rightarrow> rb_mem \<Rightarrow> rb_mem option" where
  "relink_right parent old ne root m =
     (if parent \<noteq> 0 then do {
        pr \<leftarrow> rd_right parent m;
        if old = pr then wr_right parent ne m else wr_left parent ne m }
      else wr_root root ne m)"

definition rb_rotate_left :: "u64 \<Rightarrow> u64 \<Rightarrow> rb_mem \<Rightarrow> rb_mem option" where
  "rb_rotate_left node root m = do {
     right \<leftarrow> rd_right node m;
     parent \<leftarrow> rb_parent node m;
     rl \<leftarrow> rd_left right m;
     m \<leftarrow> wr_right node rl m;
     m \<leftarrow> adopt rl node m;
     m \<leftarrow> wr_left right node m;
     m \<leftarrow> rb_set_parent right parent m;
     m \<leftarrow> relink parent node right root m;
     rb_set_parent node right m }"

definition rb_rotate_right :: "u64 \<Rightarrow> u64 \<Rightarrow> rb_mem \<Rightarrow> rb_mem option" where
  "rb_rotate_right node root m = do {
     left \<leftarrow> rd_left node m;
     parent \<leftarrow> rb_parent node m;
     lr \<leftarrow> rd_right left m;
     m \<leftarrow> wr_left node lr m;
     m \<leftarrow> adopt lr node m;
     m \<leftarrow> wr_right left node m;
     m \<leftarrow> rb_set_parent left parent m;
     m \<leftarrow> relink_right parent node left root m;
     rb_set_parent node left m }"

section \<open>Insertion\<close>

partial_function (option) rb_insert_loop :: "u64 \<Rightarrow> u64 \<Rightarrow> rb_mem \<Rightarrow> rb_mem option" where
  "rb_insert_loop node root m = do {
     parent \<leftarrow> rb_parent node m;
     red \<leftarrow> (if parent \<noteq> 0 then rb_is_red parent m else Some False);
     if \<not> red then Some m else do {
       gparent \<leftarrow> rb_parent parent m;
       gl \<leftarrow> rd_left gparent m;
       if parent = gl then do {
         uncle \<leftarrow> rd_right gparent m;
         ured \<leftarrow> (if uncle \<noteq> 0 then rb_is_red uncle m else Some False);
         if ured then do {
           m \<leftarrow> rb_set_black uncle m;
           m \<leftarrow> rb_set_black parent m;
           m \<leftarrow> rb_set_red gparent m;
           rb_insert_loop gparent root m }
         else do {
           pr \<leftarrow> rd_right parent m;
           (parent, node, m) \<leftarrow> (if pr = node then do {
                m \<leftarrow> rb_rotate_left parent root m;
                Some (node, parent, m) }
              else Some (parent, node, m));
           m \<leftarrow> rb_set_black parent m;
           m \<leftarrow> rb_set_red gparent m;
           m \<leftarrow> rb_rotate_right gparent root m;
           rb_insert_loop node root m }}
       else do {
         uncle \<leftarrow> rd_left gparent m;
         ured \<leftarrow> (if uncle \<noteq> 0 then rb_is_red uncle m else Some False);
         if ured then do {
           m \<leftarrow> rb_set_black uncle m;
           m \<leftarrow> rb_set_black parent m;
           m \<leftarrow> rb_set_red gparent m;
           rb_insert_loop gparent root m }
         else do {
           pl \<leftarrow> rd_left parent m;
           (parent, node, m) \<leftarrow> (if pl = node then do {
                m \<leftarrow> rb_rotate_right parent root m;
                Some (node, parent, m) }
              else Some (parent, node, m));
           m \<leftarrow> rb_set_black parent m;
           m \<leftarrow> rb_set_red gparent m;
           m \<leftarrow> rb_rotate_left gparent root m;
           rb_insert_loop node root m }}}}"

definition rb_insert_color :: "u64 \<Rightarrow> u64 \<Rightarrow> rb_mem \<Rightarrow> rb_mem option" where
  "rb_insert_color node root m = do {
     m \<leftarrow> rb_insert_loop node root m;
     rb_set_black (rm_root m root) m }"

section \<open>Removal\<close>

text \<open>The condition \<open>!n || rb_is_black(n)\<close>.\<close>

definition null_or_black :: "u64 \<Rightarrow> rb_mem \<Rightarrow> bool option" where
  "null_or_black a m = (if a = 0 then Some True else rb_is_black a m)"

partial_function (option) rb_erase_loop :: "u64 \<Rightarrow> u64 \<Rightarrow> u64 \<Rightarrow> rb_mem \<Rightarrow> (u64 \<times> rb_mem) option" where
  "rb_erase_loop node parent root m = do {
     b \<leftarrow> null_or_black node m;
     if \<not> (b \<and> node \<noteq> rm_root m root) then Some (node, m) else do {
       pl \<leftarrow> rd_left parent m;
       if pl = node then do {
         other \<leftarrow> rd_right parent m;
         ored \<leftarrow> rb_is_red other m;
         (other, m) \<leftarrow> (if ored then do {
              m \<leftarrow> rb_set_black other m;
              m \<leftarrow> rb_set_red parent m;
              m \<leftarrow> rb_rotate_left parent root m;
              other \<leftarrow> rd_right parent m;
              Some (other, m) }
            else Some (other, m));
         ol \<leftarrow> rd_left other m;
         or \<leftarrow> rd_right other m;
         lb \<leftarrow> null_or_black ol m;
         rb \<leftarrow> null_or_black or m;
         if lb \<and> rb then do {
           m \<leftarrow> rb_set_red other m;
           p \<leftarrow> rb_parent parent m;
           rb_erase_loop parent p root m }
         else do {
           (other, m) \<leftarrow> (if rb then do {
                m \<leftarrow> rb_set_black ol m;
                m \<leftarrow> rb_set_red other m;
                m \<leftarrow> rb_rotate_right other root m;
                other \<leftarrow> rd_right parent m;
                Some (other, m) }
              else Some (other, m));
           pc \<leftarrow> rb_color parent m;
           m \<leftarrow> rb_set_color other pc m;
           m \<leftarrow> rb_set_black parent m;
           or \<leftarrow> rd_right other m;
           m \<leftarrow> rb_set_black or m;
           m \<leftarrow> rb_rotate_left parent root m;
           Some (rm_root m root, m) }}
       else do {
         other \<leftarrow> rd_left parent m;
         ored \<leftarrow> rb_is_red other m;
         (other, m) \<leftarrow> (if ored then do {
              m \<leftarrow> rb_set_black other m;
              m \<leftarrow> rb_set_red parent m;
              m \<leftarrow> rb_rotate_right parent root m;
              other \<leftarrow> rd_left parent m;
              Some (other, m) }
            else Some (other, m));
         ol \<leftarrow> rd_left other m;
         or \<leftarrow> rd_right other m;
         lb \<leftarrow> null_or_black ol m;
         rb \<leftarrow> null_or_black or m;
         if lb \<and> rb then do {
           m \<leftarrow> rb_set_red other m;
           p \<leftarrow> rb_parent parent m;
           rb_erase_loop parent p root m }
         else do {
           (other, m) \<leftarrow> (if lb then do {
                m \<leftarrow> rb_set_black or m;
                m \<leftarrow> rb_set_red other m;
                m \<leftarrow> rb_rotate_left other root m;
                other \<leftarrow> rd_left parent m;
                Some (other, m) }
              else Some (other, m));
           pc \<leftarrow> rb_color parent m;
           m \<leftarrow> rb_set_color other pc m;
           m \<leftarrow> rb_set_black parent m;
           ol \<leftarrow> rd_left other m;
           m \<leftarrow> rb_set_black ol m;
           m \<leftarrow> rb_rotate_right parent root m;
           Some (rm_root m root, m) }}}}"

definition rb_erase_color :: "u64 \<Rightarrow> u64 \<Rightarrow> u64 \<Rightarrow> rb_mem \<Rightarrow> rb_mem option" where
  "rb_erase_color node parent root m = do {
     (node, m) \<leftarrow> rb_erase_loop node parent root m;
     if node \<noteq> 0 then rb_set_black node m else Some m }"

text \<open>The loops \<open>while (n->rb_left) n = n->rb_left\<close> and its mirror image.\<close>

partial_function (option) go_left :: "u64 \<Rightarrow> rb_mem \<Rightarrow> u64 option" where
  "go_left n m = do { l \<leftarrow> rd_left n m; if l \<noteq> 0 then go_left l m else Some n }"

partial_function (option) go_right :: "u64 \<Rightarrow> rb_mem \<Rightarrow> u64 option" where
  "go_right n m = do { r \<leftarrow> rd_right n m; if r \<noteq> 0 then go_right r m else Some n }"

text \<open>The statements of \<open>rb_erase\<close> for a node with two children, which put the next node in
  its place: the child and the parent of the gap and the colour that is lost.\<close>

definition rb_erase_inner :: "u64 \<Rightarrow> u64 \<Rightarrow> rb_mem \<Rightarrow> (u64 \<times> u64 \<times> u64 \<times> rb_mem) option" where
  "rb_erase_inner old root m = do {
     r \<leftarrow> rd_right old m;
     node \<leftarrow> go_left r m;
     op \<leftarrow> rb_parent old m;
     m \<leftarrow> relink op old node root m;
     child \<leftarrow> rd_right node m;
     parent \<leftarrow> rb_parent node m;
     color \<leftarrow> rb_color node m;
     (parent, m) \<leftarrow> (if parent = old then Some (node, m) else do {
            m \<leftarrow> adopt child parent m;
            m \<leftarrow> wr_left parent child m;
            r \<leftarrow> rd_right old m;
            m \<leftarrow> wr_right node r m;
            m \<leftarrow> rb_set_parent r node m;
            Some (parent, m) });
     pc \<leftarrow> rd_pc old m;
     m \<leftarrow> wr_pc node pc m;
     l \<leftarrow> rd_left old m;
     m \<leftarrow> wr_left node l m;
     m \<leftarrow> rb_set_parent l node m;
     Some (child, parent, color, m) }"

text \<open>The statements for a node with at most one child.\<close>

definition rb_erase_outer :: "u64 \<Rightarrow> u64 \<Rightarrow> u64 \<Rightarrow> rb_mem \<Rightarrow> (u64 \<times> u64 \<times> u64 \<times> rb_mem) option" where
  "rb_erase_outer node child root m = do {
     parent \<leftarrow> rb_parent node m;
     color \<leftarrow> rb_color node m;
     m \<leftarrow> adopt child parent m;
     m \<leftarrow> relink parent node child root m;
     Some (child, parent, color, m) }"

definition rb_erase :: "u64 \<Rightarrow> u64 \<Rightarrow> rb_mem \<Rightarrow> rb_mem option" where
  "rb_erase node root m = do {
     l \<leftarrow> rd_left node m;
     r \<leftarrow> rd_right node m;
     (child, parent, color, m) \<leftarrow>
       (if l = 0 then rb_erase_outer node r root m
        else if r = 0 then rb_erase_outer node l root m
        else rb_erase_inner node root m);
     if color = RB_BLACK then rb_erase_color child parent root m else Some m }"

section \<open>Order of the nodes\<close>

definition rb_first :: "u64 \<Rightarrow> rb_mem \<Rightarrow> u64 option" where
  "rb_first root m = (if rm_root m root = 0 then Some 0 else go_left (rm_root m root) m)"

definition rb_last :: "u64 \<Rightarrow> rb_mem \<Rightarrow> u64 option" where
  "rb_last root m = (if rm_root m root = 0 then Some 0 else go_right (rm_root m root) m)"

partial_function (option) go_up_right :: "u64 \<Rightarrow> rb_mem \<Rightarrow> u64 option" where
  "go_up_right node m = do {
     parent \<leftarrow> rb_parent node m;
     if parent = 0 then Some 0 else do {
       pr \<leftarrow> rd_right parent m;
       if node = pr then go_up_right parent m else Some parent }}"

partial_function (option) go_up_left :: "u64 \<Rightarrow> rb_mem \<Rightarrow> u64 option" where
  "go_up_left node m = do {
     parent \<leftarrow> rb_parent node m;
     if parent = 0 then Some 0 else do {
       pl \<leftarrow> rd_left parent m;
       if node = pl then go_up_left parent m else Some parent }}"

definition rb_next :: "u64 \<Rightarrow> rb_mem \<Rightarrow> u64 option" where
  "rb_next node m = do {
     p \<leftarrow> rb_parent node m;
     if p = node then Some 0 else do {
       r \<leftarrow> rd_right node m;
       if r \<noteq> 0 then go_left r m else go_up_right node m }}"

definition rb_prev :: "u64 \<Rightarrow> rb_mem \<Rightarrow> u64 option" where
  "rb_prev node m = do {
     p \<leftarrow> rb_parent node m;
     if p = node then Some 0 else do {
       l \<leftarrow> rd_left node m;
       if l \<noteq> 0 then go_right l m else go_up_left node m }}"

definition rb_replace_node :: "u64 \<Rightarrow> u64 \<Rightarrow> u64 \<Rightarrow> rb_mem \<Rightarrow> rb_mem option" where
  "rb_replace_node victim ne root m = do {
     parent \<leftarrow> rb_parent victim m;
     m \<leftarrow> relink parent victim ne root m;
     l \<leftarrow> rd_left victim m;
     m \<leftarrow> adopt l ne m;
     r \<leftarrow> rd_right victim m;
     m \<leftarrow> adopt r ne m;
     c \<leftarrow> rd_pc victim m;
     m \<leftarrow> wr_pc ne c m;
     r \<leftarrow> rd_right victim m;
     m \<leftarrow> wr_right ne r m;
     l \<leftarrow> rd_left victim m;
     wr_left ne l m }"

section \<open>Buffers by block number\<close>

text \<open>\<open>bno n\<close> is \<open>bh->bh_bc->bc_bno\<close> of the buffer whose node is \<open>n\<close>.  The difference of two
  block numbers is computed on 64 bits and read as a signed number.\<close>

partial_function (option) rbnode_place ::
  "(u64 \<Rightarrow> u64) \<Rightarrow> u64 \<Rightarrow> rb_link \<Rightarrow> u64 \<Rightarrow> rb_mem \<Rightarrow> (rb_link \<times> u64) option option" where
  "rbnode_place bno bh new parent m = do {
     this \<leftarrow> rd_link new m;
     if this = 0 then Some (Some (new, parent))
     else if sint (bno bh - bno this) < 0 then rbnode_place bno bh (AtLeft this) this m
     else if sint (bno bh - bno this) > 0 then rbnode_place bno bh (AtRight this) this m
     else Some None }"

definition rbnode_insert_bh :: "(u64 \<Rightarrow> u64) \<Rightarrow> u64 \<Rightarrow> u64 \<Rightarrow> rb_mem \<Rightarrow> (int \<times> rb_mem) option" where
  "rbnode_insert_bh bno root bh m = do {
     pl \<leftarrow> rbnode_place bno bh (AtRoot root) 0 m;
     case pl of None \<Rightarrow> Some (0, m)
     | Some (new, parent) \<Rightarrow> do {
         m \<leftarrow> rb_link_node bh parent new m;
         m \<leftarrow> rb_insert_color bh root m;
         Some (1, m) }}"

partial_function (option) rbnode_find :: "(u64 \<Rightarrow> u64) \<Rightarrow> u64 \<Rightarrow> u64 \<Rightarrow> rb_mem \<Rightarrow> u64 option" where
  "rbnode_find bno node b m =
     (if node = 0 then Some 0
      else if sint (b - bno node) < 0 then do { l \<leftarrow> rd_left node m; rbnode_find bno l b m }
      else if sint (b - bno node) > 0 then do { r \<leftarrow> rd_right node m; rbnode_find bno r b m }
      else Some node)"

definition rbnode_search :: "(u64 \<Rightarrow> u64) \<Rightarrow> u64 \<Rightarrow> u64 \<Rightarrow> rb_mem \<Rightarrow> u64 option" where
  "rbnode_search bno root b m = rbnode_find bno (rm_root m root) b m"

section \<open>Sides, colours and fields\<close>

datatype side = L | R

primrec opp :: "side \<Rightarrow> side" where
  "opp L = R"
| "opp R = L"

datatype color = Red | Black

definition par :: "rb_mem \<Rightarrow> u64 \<Rightarrow> u64" where
  "par m a = rm_parent_color m a AND NOT 3"

definition col :: "rb_mem \<Rightarrow> u64 \<Rightarrow> color" where
  "col m a = (if rm_parent_color m a AND 1 = 0 then Red else Black)"

primrec kid :: "side \<Rightarrow> rb_mem \<Rightarrow> u64 \<Rightarrow> u64" where
  "kid L m = rm_left m"
| "kid R m = rm_right m"

definition set_par :: "u64 \<Rightarrow> u64 \<Rightarrow> rb_mem \<Rightarrow> rb_mem" where
  "set_par a p m = m\<lparr>rm_parent_color := (rm_parent_color m)(a := (rm_parent_color m a AND 3) OR p)\<rparr>"

definition paint_word :: "color \<Rightarrow> u64 \<Rightarrow> u64" where
  "paint_word c w = (if c = Red then w AND NOT 1 else w OR 1)"

definition set_col :: "u64 \<Rightarrow> color \<Rightarrow> rb_mem \<Rightarrow> rb_mem" where
  "set_col a c m = m\<lparr>rm_parent_color := (rm_parent_color m)(a := paint_word c (rm_parent_color m a))\<rparr>"

primrec set_kid :: "side \<Rightarrow> u64 \<Rightarrow> u64 \<Rightarrow> rb_mem \<Rightarrow> rb_mem" where
  "set_kid L a v m = m\<lparr>rm_left := (rm_left m)(a := v)\<rparr>"
| "set_kid R a v m = m\<lparr>rm_right := (rm_right m)(a := v)\<rparr>"

definition set_root :: "u64 \<Rightarrow> u64 \<Rightarrow> rb_mem \<Rightarrow> rb_mem" where
  "set_root r v m = m\<lparr>rm_root := (rm_root m)(r := v)\<rparr>"

definition aligned :: "u64 \<Rightarrow> bool" where
  "aligned a \<longleftrightarrow> a AND 3 = 0"

definition node_addr :: "u64 \<Rightarrow> bool" where
  "node_addr a \<longleftrightarrow> a \<noteq> 0 \<and> aligned a"

lemma opp_opp [simp]: "opp (opp d) = d" "opp d \<noteq> d" "d \<noteq> opp d"
  by (cases d; simp)+

lemma opp_eq: "(d \<noteq> e) = (e = opp d)" "(opp d = e) = (d = opp e)"
  by (cases d; cases e; simp)+

lemma not_color [simp]: "(c \<noteq> Black) = (c = Red)" "(c \<noteq> Red) = (c = Black)"
  by (cases c; auto)+

lemma aligned_0 [simp]: "aligned 0"
  by (simp add: aligned_def)

lemma node_addrD [simp]: "node_addr a \<Longrightarrow> a \<noteq> 0" "node_addr a \<Longrightarrow> aligned a"
  by (auto simp: node_addr_def)

lemma not_node_addr_0 [simp]: "\<not> node_addr 0"
  by (simp add: node_addr_def)

lemma three_mask: "(3 :: u64) = mask 2"
  by (simp add: mask_eq_exp_minus_1)

lemma low_bits:
  fixes w p :: u64
  assumes "p AND 3 = 0"
  shows "((w AND 3) OR p) AND NOT 3 = p" "((w AND 3) OR p) AND 1 = w AND 1"
proof -
  have p: "bit p n \<Longrightarrow> \<not> n < 2" for n
    using assms bit_and_iff [of p "mask 2" n] unfolding three_mask by (auto simp: bit_simps dest: bit_imp_le_length)
  show "((w AND 3) OR p) AND NOT 3 = p"
    unfolding three_mask by (rule bit_eqI) (use p in \<open>auto simp: bit_simps dest: bit_imp_le_length\<close>)
  show "((w AND 3) OR p) AND 1 = w AND 1"
    unfolding three_mask by (rule bit_eqI) (use p [of 0] in \<open>auto simp: bit_simps\<close>)
qed

lemma color_bit:
  fixes w :: u64
  shows "(w AND NOT 1) AND NOT 3 = w AND NOT 3" "(w OR 1) AND NOT 3 = w AND NOT 3"
    "(w AND NOT 1) AND 1 = 0" "(w OR 1) AND 1 = 1" "(w AND NOT 1) OR 1 = w OR 1"
    "w AND 1 = 0 \<or> w AND 1 = 1"
proof -
  show "(w AND NOT 1) AND NOT 3 = w AND NOT 3" "(w OR 1) AND NOT 3 = w AND NOT 3"
    unfolding three_mask by (rule bit_eqI; auto simp: bit_simps)+
  show "(w AND NOT 1) AND 1 = 0" "(w OR 1) AND 1 = 1" "(w AND NOT 1) OR 1 = w OR 1"
    by (rule bit_eqI; auto simp: bit_simps)+
  show "w AND 1 = 0 \<or> w AND 1 = 1" by (cases "even w") (auto simp: and_one_eq odd_iff_mod_2_eq_one)
qed

lemma odd_word: "w AND 1 \<noteq> 0 \<Longrightarrow> w AND 1 = 1" for w :: u64
  using color_bit(6) by blast

lemma not_words: "NOT 3 = (- 4 :: u64)" "NOT 1 = (- 2 :: u64)"
  by simp_all

lemmas color_bit_num = color_bit [unfolded not_words]
lemmas low_bits_num = low_bits [unfolded not_words]

lemma set_col_fields [simp]:
  "par (set_col a c m) b = par m b"
  "col (set_col a c m) b = (if b = a then c else col m b)"
  "kid d (set_col a c m) b = kid d m b"
  "rm_root (set_col a c m) = rm_root m"
     apply (simp add: par_def set_col_def paint_word_def color_bit_num)
    apply (cases c; simp add: col_def set_col_def paint_word_def color_bit_num)
   apply (cases d; simp add: set_col_def)
  apply (simp add: set_col_def)
  done

lemma set_kid_fields [simp]:
  "par (set_kid d a v m) b = par m b"
  "col (set_kid d a v m) b = col m b"
  "kid e (set_kid d a v m) b = (if e = d \<and> b = a then v else kid e m b)"
  "rm_root (set_kid d a v m) = rm_root m"
  by (cases d; cases e; simp add: par_def col_def)+

lemma set_root_fields [simp]:
  "par (set_root r v m) b = par m b"
  "col (set_root r v m) b = col m b"
  "kid e (set_root r v m) b = kid e m b"
  "rm_root (set_root r v m) = (rm_root m)(r := v)"
  "kid e (set_par a p m) b = kid e m b"
  "rm_root (set_par a p m) = rm_root m"
  by (cases e; simp add: par_def col_def set_root_def set_par_def)+

lemma set_par_fields [simp]:
  assumes "aligned p"
  shows "par (set_par a p m) b = (if b = a then p else par m b)"
    "col (set_par a p m) b = col m b"
  using assms by (simp_all add: par_def col_def set_par_def aligned_def low_bits_num)

text \<open>The operations of the header in these terms.\<close>

definition rd_kid :: "side \<Rightarrow> u64 \<Rightarrow> rb_mem \<Rightarrow> u64 option" where
  "rd_kid d a m = (if a \<noteq> 0 then Some (kid d m a) else None)"

definition color_word :: "color \<Rightarrow> u64" where
  "color_word c = (if c = Red then RB_RED else RB_BLACK)"

lemma header_ops:
  "rd_left a m = (if a = 0 then None else Some (kid L m a))"
  "rd_right a m = (if a = 0 then None else Some (kid R m a))"
  "wr_left a v m = (if a = 0 then None else Some (set_kid L a v m))"
  "wr_right a v m = (if a = 0 then None else Some (set_kid R a v m))"
  "wr_root r v m = Some (set_root r v m)"
  "rb_parent a m = (if a = 0 then None else Some (par m a))"
  "rb_color a m = (if a = 0 then None else Some (color_word (col m a)))"
  "rb_is_red a m = (if a = 0 then None else Some (col m a = Red))"
  "rb_is_black a m = (if a = 0 then None else Some (col m a = Black))"
  "rb_set_red a m = (if a = 0 then None else Some (set_col a Red m))"
  "rb_set_black a m = (if a = 0 then None else Some (set_col a Black m))"
  "rb_set_parent a p m = (if a = 0 then None else Some (set_par a p m))"
  "rb_set_color a (color_word c) m = (if a = 0 then None else Some (set_col a c m))"
  by (auto dest: odd_word simp: rd_left_def rd_right_def wr_left_def wr_right_def wr_root_def set_root_def
      rb_parent_def rd_pc_def par_def rb_color_def col_def color_word_def RB_RED_def RB_BLACK_def
      rb_is_red_def rb_is_black_def rb_set_red_def rb_set_black_def wr_pc_def set_col_def
      paint_word_def rb_set_parent_def set_par_def rb_set_color_def color_bit_num)

declare kid.simps [simp del] set_kid.simps [simp del]

section \<open>Trees in memory\<close>

datatype rbt = Leaf | Node rbt color u64 rbt

text \<open>\<open>nd d c x a b\<close> is a node with the child \<open>a\<close> on side \<open>d\<close> and \<open>b\<close> on the other side.\<close>

primrec nd :: "side \<Rightarrow> color \<Rightarrow> u64 \<Rightarrow> rbt \<Rightarrow> rbt \<Rightarrow> rbt" where
  "nd L c x a b = Node a c x b"
| "nd R c x a b = Node b c x a"

primrec ptr :: "rbt \<Rightarrow> u64" where
  "ptr Leaf = 0"
| "ptr (Node l c x r) = x"

primrec inord :: "rbt \<Rightarrow> u64 list" where
  "inord Leaf = []"
| "inord (Node l c x r) = inord l @ x # inord r"

primrec blacken :: "rbt \<Rightarrow> rbt" where
  "blacken Leaf = Leaf"
| "blacken (Node l c x r) = Node l Black x r"

primrec black :: "rbt \<Rightarrow> bool" where
  "black Leaf = True"
| "black (Node l c x r) = (c = Black)"

fun rep :: "rb_mem \<Rightarrow> rbt \<Rightarrow> u64 \<Rightarrow> bool" where
  "rep m Leaf q \<longleftrightarrow> True"
| "rep m (Node l c x r) q \<longleftrightarrow> node_addr x \<and> par m x = q \<and> col m x = c \<and>
     kid L m x = ptr l \<and> kid R m x = ptr r \<and> rep m l x \<and> rep m r x"

text \<open>A path upwards: the side on which the hole is, colour and address of the node, and its
  other child.\<close>

type_synonym rb_path = "(side \<times> color \<times> u64 \<times> rbt) list"

fun up_ptr :: "rb_path \<Rightarrow> u64 \<Rightarrow> u64" where
  "up_ptr [] q = q"
| "up_ptr ((d, c, x, s) # cs) q = x"

fun fill :: "rb_path \<Rightarrow> rbt \<Rightarrow> rbt" where
  "fill [] t = t"
| "fill ((d, c, x, s) # cs) t = fill cs (nd d c x t s)"

fun addrs :: "rb_path \<Rightarrow> u64 set" where
  "addrs [] = {}"
| "addrs ((d, c, x, s) # cs) = insert x (set (inord s) \<union> addrs cs)"

fun rept :: "rb_mem \<Rightarrow> rb_path \<Rightarrow> u64 \<Rightarrow> u64 \<Rightarrow> bool" where
  "rept m [] q p \<longleftrightarrow> True"
| "rept m ((d, c, x, s) # cs) q p \<longleftrightarrow> node_addr x \<and> par m x = up_ptr cs q \<and> col m x = c \<and>
     kid d m x = p \<and> kid (opp d) m x = ptr s \<and> rep m s x \<and> rept m cs q x"

definition focus :: "rb_mem \<Rightarrow> u64 \<Rightarrow> rb_path \<Rightarrow> rbt \<Rightarrow> bool" where
  "focus m r cs t \<longleftrightarrow> rep m (fill cs t) 0 \<and> rm_root m r = ptr (fill cs t) \<and> distinct (inord (fill cs t))"

lemma nd_opp [simp]: "nd (opp d) c x a b = nd d c x b a"
  by (cases d) auto

lemma nd_simps [simp]:
  "ptr (nd d c x a b) = x"
  "blacken (nd d c x a b) = nd d Black x a b"
  "black (nd d c x a b) = (c = Black)"
  "set (inord (nd d c x a b)) = insert x (set (inord a) \<union> set (inord b))"
  "nd d c x a b \<noteq> Leaf"
  by (cases d; auto)+

lemma rep_nd [simp]:
  "rep m (nd d c x a b) q \<longleftrightarrow> node_addr x \<and> par m x = q \<and> col m x = c \<and>
     kid d m x = ptr a \<and> kid (opp d) m x = ptr b \<and> rep m a x \<and> rep m b x"
  by (cases d) auto

lemma distinct_nd [simp]:
  "distinct (inord (nd d c x a b)) \<longleftrightarrow> x \<notin> set (inord a) \<and> x \<notin> set (inord b) \<and>
     distinct (inord a) \<and> distinct (inord b) \<and> set (inord a) \<inter> set (inord b) = {}"
  by (cases d) auto

lemma rbt_cases_nd: "t = Leaf \<or> (\<exists>c x a b. t = nd d c x a b)"
  by (cases t; cases d) auto

lemma rep_node_addr: "rep m t q \<Longrightarrow> x \<in> set (inord t) \<Longrightarrow> node_addr x"
  by (induction t arbitrary: q) auto

lemma rep_0 [simp]: "rep m t q \<Longrightarrow> 0 \<notin> set (inord t)"
  using rep_node_addr by fastforce

lemma ptr_0 [simp]: "rep m t q \<Longrightarrow> ptr t = 0 \<longleftrightarrow> t = Leaf"
  by (cases t) auto

lemma ptr_in: "t \<noteq> Leaf \<Longrightarrow> ptr t \<in> set (inord t)"
  by (cases t) auto

text \<open>Memory outside of the nodes of a tree does not matter for it.\<close>

definition agree :: "u64 set \<Rightarrow> rb_mem \<Rightarrow> rb_mem \<Rightarrow> bool" where
  "agree A m m' \<longleftrightarrow> (\<forall>x\<in>A. par m' x = par m x \<and> col m' x = col m x \<and> (\<forall>d. kid d m' x = kid d m x))"

lemma agree_mono: "agree A m m' \<Longrightarrow> B \<subseteq> A \<Longrightarrow> agree B m m'"
  by (auto simp: agree_def)

lemma rep_agree: "rep m t q \<Longrightarrow> agree (set (inord t)) m m' \<Longrightarrow> rep m' t q"
  by (induction t arbitrary: q) (auto simp: agree_def)

lemma fill_rep: "rep m (fill cs t) q \<longleftrightarrow> rep m t (up_ptr cs q) \<and> rept m cs q (ptr t)"
proof (induction cs arbitrary: t)
  case (Cons f cs)
  then show ?case by (cases f) auto
qed auto

lemma set_fill [simp]: "set (inord (fill cs t)) = set (inord t) \<union> addrs cs"
proof (induction cs arbitrary: t)
  case (Cons f cs)
  then show ?case by (cases f) auto
qed auto

lemma distinct_fill:
  "distinct (inord (fill cs t)) \<longleftrightarrow>
     distinct (inord t) \<and> distinct (inord (fill cs Leaf)) \<and> set (inord t) \<inter> addrs cs = {}"
proof (induction cs arbitrary: t)
  case (Cons f cs)
  obtain d c x s where f: "f = (d, c, x, s)" by (cases f)
  show ?case using Cons.IH [of "nd d c x t s"] Cons.IH [of "nd d c x Leaf s"] f by auto
qed auto

lemma rept_agree:
  "rept m cs q p \<Longrightarrow> agree (addrs cs) m m' \<Longrightarrow> rept m' cs q p"
proof (induction cs arbitrary: p)
  case (Cons f cs)
  obtain d c x s where f: "f = (d, c, x, s)" by (cases f)
  have "agree (addrs cs) m m'" "agree (set (inord s)) m m'" "agree {x} m m'"
    using Cons.prems(2) f by (auto simp: agree_def)
  then show ?case using Cons f rep_agree by (auto simp: agree_def)
qed auto

lemma ptr_fill: "ptr (fill cs t) = (if cs = [] then ptr t else fst (snd (snd (last cs))))"
proof (induction cs arbitrary: t)
  case (Cons f cs)
  then show ?case by (cases f) auto
qed auto

lemma rept_aligned [simp]: "rept m cs 0 p \<Longrightarrow> aligned (up_ptr cs 0)"
  by (cases cs) auto

text \<open>What an operation on the tree of root \<open>r\<close> and nodes \<open>A\<close> leaves alone.\<close>

definition keeps :: "u64 set \<Rightarrow> u64 \<Rightarrow> rb_mem \<Rightarrow> rb_mem \<Rightarrow> bool" where
  "keeps A r m m' \<longleftrightarrow> agree (- A) m m' \<and> (\<forall>r'. r' \<noteq> r \<longrightarrow> rm_root m' r' = rm_root m r')"

lemma keeps_refl [simp]: "keeps A r m m"
  by (simp add: keeps_def agree_def)

lemma keeps_trans [trans]: "keeps A r m m' \<Longrightarrow> keeps A r m' m'' \<Longrightarrow> keeps A r m m''"
  by (simp add: keeps_def agree_def)

lemma keeps_mono: "keeps A r m m' \<Longrightarrow> A \<subseteq> B \<Longrightarrow> keeps B r m m'"
  by (auto simp: keeps_def agree_def)

section \<open>Changes of a tree\<close>

lemma focus_up: "focus m r ((d, c, x, s) # cs) t \<longleftrightarrow> focus m r cs (nd d c x t s)"
  by (simp add: focus_def)

lemma ptr_fill_cong: "ptr t = ptr t' \<Longrightarrow> ptr (fill cs t) = ptr (fill cs t')"
  by (simp add: ptr_fill)

lemma paint_focus:
  assumes "focus m r cs (nd d c x a b)"
  shows "focus (set_col x c' m) r cs (nd d c' x a b)"
    "keeps (set (inord (fill cs (nd d c x a b)))) r m (set_col x c' m)"
proof -
  note f = assms [unfolded focus_def fill_rep distinct_fill [of cs "nd d c x a b"]]
  have "rep (set_col x c' m) a x" "rep (set_col x c' m) b x"
    by (rule rep_agree [of m]; use f in \<open>auto simp: agree_def\<close>)+
  moreover have "rept (set_col x c' m) cs 0 x"
    by (rule rept_agree [of m]) (use f in \<open>auto simp: agree_def\<close>)
  moreover have "rm_root m r = ptr (fill cs (nd d c' x a b))"
    using f ptr_fill_cong [of "nd d c x a b" "nd d c' x a b" cs] by simp
  ultimately show "focus (set_col x c' m) r cs (nd d c' x a b)"
    using f unfolding focus_def fill_rep distinct_fill [of cs "nd d c' x a b"] by auto
  show "keeps (set (inord (fill cs (nd d c x a b)))) r m (set_col x c' m)"
    by (auto simp: keeps_def agree_def)
qed

text \<open>The link from the parent (or the root) to the tree in focus.\<close>

fun swing :: "rb_path \<Rightarrow> u64 \<Rightarrow> u64 \<Rightarrow> rb_mem \<Rightarrow> rb_mem" where
  "swing [] r v m = set_root r v m"
| "swing ((d, c, x, s) # cs) r v m = set_kid d x v m"

fun hole :: "rb_mem \<Rightarrow> rb_path \<Rightarrow> u64 \<Rightarrow> bool" where
  "hole m [] p \<longleftrightarrow> True"
| "hole m ((d, c, x, s) # cs) p \<longleftrightarrow> x \<noteq> 0 \<and> kid d m x = p \<and> kid (opp d) m x \<noteq> p"

lemma swing_code:
  assumes "hole m cs p"
  shows "relink (up_ptr cs 0) p v r m = Some (swing cs r v m)"
    "relink_right (up_ptr cs 0) p v r m = Some (swing cs r v m)"
  using assms
  by (cases cs rule: addrs.cases; auto simp: relink_def relink_right_def header_ops opp_eq; case_tac d; auto)+

lemma swing_fields [simp]:
  "par (swing cs r v m) a = par m a"
  "col (swing cs r v m) a = col m a"
  "a \<noteq> up_ptr cs 0 \<Longrightarrow> kid d (swing cs r v m) a = kid d m a"
  "cs = [] \<Longrightarrow> kid d (swing cs r v m) a = kid d m a"
  "r' \<noteq> r \<Longrightarrow> rm_root (swing cs r v m) r' = rm_root m r'"
  "cs \<noteq> [] \<Longrightarrow> rm_root (swing cs r v m) r = rm_root m r"
  "rm_root (swing [] r v m) r = v"
  by (cases cs rule: addrs.cases; simp)+

lemma swing_kid: "cs = [] \<or> a \<noteq> up_ptr cs 0 \<Longrightarrow> kid d (swing cs r v m) a = kid d m a"
  by auto

lemma up_ptr_in: "cs \<noteq> [] \<Longrightarrow> up_ptr cs q \<in> addrs cs"
  by (cases cs rule: addrs.cases) auto

lemma swing_out: "a \<notin> addrs cs \<Longrightarrow> kid d (swing cs r v m) a = kid d m a"
  using up_ptr_in [of cs 0] by (intro swing_kid) auto

lemma hole_focus:
  assumes "focus m r cs t" "t \<noteq> Leaf" "\<And>d. kid d m' (up_ptr cs 0) = kid d m (up_ptr cs 0)"
  shows "hole m' cs (ptr t)"
proof (cases cs rule: addrs.cases)
  case (2 d c x s cs')
  then have "rep m t x" "rep m s x" "kid d m x = ptr t" "kid (opp d) m x = ptr s" "node_addr x"
    "set (inord t) \<inter> set (inord s) = {}"
    using assms(1) by (auto simp: focus_def fill_rep distinct_fill [of cs' "nd d c x t s"])
  moreover from this have "ptr t \<noteq> ptr s"
    using assms(2) ptr_in [of t] ptr_in [of s] by (cases "s = Leaf") auto
  ultimately show ?thesis using assms(3) 2 by auto
qed auto

lemma rept_swing:
  assumes "rept m cs q p" "distinct (inord (fill cs Leaf))"
  shows "rept (swing cs r v m) cs q v"
proof (cases cs rule: addrs.cases)
  case (2 d c x s cs')
  then have d: "x \<notin> set (inord s)" "x \<notin> addrs cs'"
    using assms(2) by (auto simp: distinct_fill [of cs' "nd d c x Leaf s"])
  have "rep (swing cs r v m) s x" by (rule rep_agree [of m]) (use assms d 2 in \<open>auto simp: agree_def\<close>)
  moreover have "rept (swing cs r v m) cs' q x"
    by (rule rept_agree [of m]) (use assms d 2 in \<open>auto simp: agree_def\<close>)
  ultimately show ?thesis using assms d 2 by auto
qed auto

lemma root_swing:
  assumes "rm_root m r = ptr (fill cs t)" "ptr t' = v"
  shows "rm_root (swing cs r v m) r = ptr (fill cs t')"
  using assms by (cases "cs = []") (auto simp: ptr_fill)

lemma rep_moved:
  assumes "rep m t q" "distinct (inord t)" "t \<noteq> Leaf \<Longrightarrow> par m' (ptr t) = q'"
    "\<And>x d. x \<in> set (inord t) \<Longrightarrow> (x \<noteq> ptr t \<longrightarrow> par m' x = par m x) \<and> col m' x = col m x \<and> kid d m' x = kid d m x"
  shows "rep m' t q'"
proof (cases t)
  case (Node l c x r)
  have "rep m' l x" by (rule rep_agree [of m]) (use assms Node in \<open>auto simp: agree_def\<close>)
  moreover have "rep m' r x" by (rule rep_agree [of m]) (use assms Node in \<open>auto simp: agree_def\<close>)
  ultimately show ?thesis using assms Node by auto
qed auto

definition reparent :: "rbt \<Rightarrow> u64 \<Rightarrow> rb_mem \<Rightarrow> rb_mem" where
  "reparent t q m = (if t = Leaf then m else set_par (ptr t) q m)"

lemma reparent_code: "rep m t q \<Longrightarrow> adopt (ptr t) v m' = Some (reparent t v m')"
  by (cases t) (auto simp: reparent_def header_ops adopt_def)

lemma reparent_fields [simp]:
  "kid d (reparent t q m) a = kid d m a"
  "rm_root (reparent t q m) = rm_root m"
  "aligned q \<Longrightarrow> col (reparent t q m) a = col m a"
  "aligned q \<Longrightarrow> par (reparent t q m) a = (if t \<noteq> Leaf \<and> a = ptr t then q else par m a)"
  by (simp_all add: reparent_def)

text \<open>Both rotations as one, and its effect: the child on the side \<open>opp d\<close> comes up.\<close>

definition rotate :: "side \<Rightarrow> u64 \<Rightarrow> u64 \<Rightarrow> rb_mem \<Rightarrow> rb_mem option" where
  "rotate d = (if d = L then rb_rotate_left else rb_rotate_right)"

definition rotated :: "side \<Rightarrow> rb_path \<Rightarrow> u64 \<Rightarrow> u64 \<Rightarrow> u64 \<Rightarrow> rbt \<Rightarrow> rb_mem \<Rightarrow> rb_mem" where
  "rotated d cs r n y b m = set_par n y (swing cs r y (set_par y (up_ptr cs 0) (set_kid d y n
     (reparent b n (set_kid (opp d) n (ptr b) m)))))"

lemma rotate_code:
  assumes f: "focus m r cs (nd d c n a (nd d c' y b e))"
  shows "rotate d n r m = Some (rotated d cs r n y b m)"
proof -
  note p = f [unfolded focus_def fill_rep distinct_fill [of cs "nd d c n a (nd d c' y b e)"]]
  have k: "kid (opp d) m n = y" "kid d m y = ptr b" "par m n = up_ptr cs 0" "n \<noteq> 0" "y \<noteq> 0" "n \<noteq> y"
    "rep m b y" "aligned (up_ptr cs 0)"
    using p by auto
  have nt: "up_ptr cs 0 \<noteq> n" "up_ptr cs 0 \<noteq> y"
    using p up_ptr_in [of cs 0] by (cases "cs = []"; auto)+
  define m1 where "m1 = set_par y (up_ptr cs 0) (set_kid d y n (reparent b n (set_kid (opp d) n (ptr b) m)))"
  have h: "hole m1 cs n"
    using hole_focus [OF f, of m1] nt by (simp add: m1_def)
  show ?thesis
  proof (cases d)
    case L
    then show ?thesis
      using k swing_code(1) [OF h, of y r] reparent_code [OF k(7)]
      by (simp add: rotate_def rotated_def rb_rotate_left_def header_ops(1-4,6,12) m1_def)
  next
    case R
    then show ?thesis
      using k swing_code(2) [OF h, of y r] reparent_code [OF k(7)]
      by (simp add: rotate_def rotated_def rb_rotate_right_def header_ops(1-4,6,12) m1_def)
  qed
qed

text \<open>The facts about the nodes of a rotation that its proofs use.\<close>

definition rot_ok :: "rb_path \<Rightarrow> u64 \<Rightarrow> u64 \<Rightarrow> rbt \<Rightarrow> bool" where
  "rot_ok cs n y b \<longleftrightarrow> aligned (up_ptr cs 0) \<and> aligned n \<and> aligned y \<and> n \<noteq> y \<and>
     (b \<noteq> Leaf \<longrightarrow> ptr b \<noteq> n \<and> ptr b \<noteq> y) \<and> (cs \<noteq> [] \<longrightarrow> n \<noteq> up_ptr cs 0 \<and> y \<noteq> up_ptr cs 0)"

lemma rotated_fields:
  assumes "rot_ok cs n y b"
  shows "col (rotated d cs r n y b m) x = col m x"
    "par (rotated d cs r n y b m) x =
       (if x = n then y else if x = y then up_ptr cs 0 else if b \<noteq> Leaf \<and> x = ptr b then n else par m x)"
    "x \<noteq> n \<Longrightarrow> x \<noteq> y \<Longrightarrow> cs = [] \<or> x \<noteq> up_ptr cs 0 \<Longrightarrow> kid f (rotated d cs r n y b m) x = kid f m x"
    "kid d (rotated d cs r n y b m) n = kid d m n"
    "kid (opp d) (rotated d cs r n y b m) n = ptr b"
    "kid d (rotated d cs r n y b m) y = n"
    "kid (opp d) (rotated d cs r n y b m) y = kid (opp d) m y"
  using assms swing_kid [of cs] by (auto simp: rot_ok_def rotated_def)

lemma rotated_agree:
  assumes ok: "rot_ok cs n y b" and S: "n \<notin> S" "y \<notin> S" "b \<noteq> Leaf \<Longrightarrow> ptr b \<notin> S" "cs \<noteq> [] \<Longrightarrow> up_ptr cs 0 \<notin> S"
  shows "agree S m (rotated d cs r n y b m)"
proof -
  have "x \<noteq> n \<and> x \<noteq> y \<and> (b \<noteq> Leaf \<longrightarrow> x \<noteq> ptr b) \<and> (cs = [] \<or> x \<noteq> up_ptr cs 0)" if "x \<in> S" for x
    using that S by auto
  then show ?thesis by (auto simp: agree_def rotated_fields [OF ok])
qed

lemma rotated_rept:
  assumes ok: "rot_ok cs n y b" and p: "rept m cs 0 n" "distinct (inord (fill cs Leaf))"
    and S: "n \<notin> addrs cs" "y \<notin> addrs cs" "b \<noteq> Leaf \<Longrightarrow> ptr b \<notin> addrs cs"
  shows "rept (rotated d cs r n y b m) cs 0 y"
proof -
  define m2 where "m2 = set_par y (up_ptr cs 0) (set_kid d y n (reparent b n (set_kid (opp d) n (ptr b) m)))"
  have "rept m2 cs 0 n"
    by (rule rept_agree [OF p(1)]) (use ok S in \<open>auto simp: agree_def m2_def rot_ok_def\<close>)
  then have "rept (swing cs r y m2) cs 0 y" using rept_swing p by blast
  then show ?thesis
    by (rule rept_agree) (use ok S in \<open>auto simp: agree_def m2_def rotated_def rot_ok_def\<close>)
qed

lemma rotate_focus:
  assumes f: "focus m r cs (nd d c n a (nd d c' y b e))"
  shows "focus (rotated d cs r n y b m) r cs (nd d c' y (nd d c n a b) e)"
    "keeps (set (inord (fill cs (nd d c n a (nd d c' y b e))))) r m (rotated d cs r n y b m)"
proof -
  note p = f [unfolded focus_def fill_rep distinct_fill [of cs "nd d c n a (nd d c' y b e)"]]
  let ?m = "rotated d cs r n y b m"
  have nt: "up_ptr cs 0 \<notin> set (inord (nd d c n a (nd d c' y b e)))" if "cs \<noteq> []"
    using p up_ptr_in [OF that, of 0] by blast
  have ok: "rot_ok cs n y b"
    using p ptr_in [of b] nt by (auto simp: rot_ok_def)
  have sets: "n \<notin> set (inord a)" "y \<notin> set (inord a)" "n \<notin> set (inord e)" "y \<notin> set (inord e)"
    "n \<notin> set (inord b)" "y \<notin> set (inord b)" "set (inord a) \<inter> set (inord b) = {}" "set (inord b) \<inter> set (inord e) = {}"
    "rep m a n" "rep m e y" "rep m b y" "distinct (inord b)"
    using p by auto
  have "rep ?m a n"
    by (rule rep_agree [OF sets(9)], rule rotated_agree [OF ok]) (use sets ptr_in [of b] nt in auto)
  moreover have "rep ?m e y"
    by (rule rep_agree [OF sets(10)], rule rotated_agree [OF ok]) (use sets ptr_in [of b] nt in auto)
  moreover have "rep ?m b n"
  proof (rule rep_moved [OF sets(11,12)])
    show "par ?m (ptr b) = n" if "b \<noteq> Leaf"
      using that sets(5,6) ptr_in [OF that] by (auto simp: rotated_fields [OF ok])
    show "(x \<noteq> ptr b \<longrightarrow> par ?m x = par m x) \<and> col ?m x = col m x \<and> kid f ?m x = kid f m x"
      if x: "x \<in> set (inord b)" for x f
    proof -
      have "x \<noteq> n" "x \<noteq> y" "cs = [] \<or> x \<noteq> up_ptr cs 0" using x sets nt by auto
      then show ?thesis by (simp add: rotated_fields [OF ok])
    qed
  qed
  moreover have "rept ?m cs 0 y"
    by (rule rotated_rept [OF ok]) (use p ptr_in [of b] in auto)
  moreover have "rm_root ?m r = ptr (fill cs (nd d c' y (nd d c n a b) e))"
    using p by (simp add: rotated_def root_swing)
  ultimately show "focus ?m r cs (nd d c' y (nd d c n a b) e)"
    using p unfolding focus_def fill_rep distinct_fill [of cs "nd d c' y (nd d c n a b) e"]
    by (auto simp: rotated_fields [OF ok])
  show "keeps (set (inord (fill cs (nd d c n a (nd d c' y b e))))) r m ?m"
    unfolding keeps_def
    by (intro conjI rotated_agree [OF ok]) (use ptr_in [of b] up_ptr_in [of cs 0] in \<open>auto simp: rotated_def\<close>)
qed

lemma rotate_ok:
  assumes "focus m r cs (nd d c n a (nd d c' y b e))"
  obtains m' where "rotate d n r m = Some m'" "focus m' r cs (nd d c' y (nd d c n a b) e)"
    "keeps (set (inord (fill cs (nd d c n a (nd d c' y b e))))) r m m'"
  using rotate_code [OF assms] rotate_focus [OF assms] by blast

section \<open>Balance\<close>

text \<open>\<open>rb t n\<close>: every path through \<open>t\<close> has \<open>n\<close> black nodes, and no red node has a red child.
  \<open>rbc cs n\<close>: a tree with \<open>n\<close> black nodes on its paths fits at the end of \<open>cs\<close>.\<close>

fun rb :: "rbt \<Rightarrow> nat \<Rightarrow> bool" where
  "rb Leaf n \<longleftrightarrow> n = 0"
| "rb (Node l Black x r) n \<longleftrightarrow> 0 < n \<and> rb l (n - 1) \<and> rb r (n - 1)"
| "rb (Node l Red x r) n \<longleftrightarrow> black l \<and> black r \<and> rb l n \<and> rb r n"

fun black_top :: "rb_path \<Rightarrow> bool" where
  "black_top [] \<longleftrightarrow> False"
| "black_top ((d, c, x, s) # cs) \<longleftrightarrow> c = Black"

fun rbc :: "rb_path \<Rightarrow> nat \<Rightarrow> bool" where
  "rbc [] n \<longleftrightarrow> True"
| "rbc ((d, Black, x, s) # cs) n \<longleftrightarrow> rb s n \<and> rbc cs (Suc n)"
| "rbc ((d, Red, x, s) # cs) n \<longleftrightarrow> rb s n \<and> black s \<and> black_top cs \<and> rbc cs n"

lemma rb_nd [simp]:
  "rb (nd d Black x a b) n \<longleftrightarrow> 0 < n \<and> rb a (n - 1) \<and> rb b (n - 1)"
  "rb (nd d Red x a b) n \<longleftrightarrow> black a \<and> black b \<and> rb a n \<and> rb b n"
  by (cases d; auto)+

lemma rb_blacken: "rb t n \<Longrightarrow> \<exists>k. rb (blacken t) k"
  by (cases "(t, n)" rule: rb.cases) (auto intro: exI [of _ n] exI [of _ "Suc n"])

lemma rb_blacken_red: "rb t n \<Longrightarrow> \<not> black t \<Longrightarrow> rb (blacken t) (Suc n)"
  by (cases "(t, n)" rule: rb.cases) auto

lemma blacken_simps [simp]: "black (blacken t)" "inord (blacken t) = inord t" "ptr (blacken t) = ptr t"
    "blacken t = Leaf \<longleftrightarrow> t = Leaf"
  by (cases t; simp)+

lemma black_blacken: "black t \<Longrightarrow> blacken t = t"
  by (cases t) auto

lemma rbc_fill:
  assumes "rbc cs n" "rb t n" "black t \<or> cs = [] \<or> black_top cs"
  shows "\<exists>k. rb (fill cs t) k \<and> (black t \<or> cs \<noteq> [] \<longrightarrow> black (fill cs t))"
  using assms
proof (induction cs arbitrary: t n)
  case (Cons f cs)
  obtain d c x s where f: "f = (d, c, x, s)" by (cases f)
  show ?case
  proof (cases c)
    case Red
    then show ?thesis using Cons.IH [of n "nd d Red x t s"] Cons.prems f by (cases cs) auto
  next
    case Black
    then show ?thesis using Cons.IH [of "Suc n" "nd d Black x t s"] Cons.prems f by auto
  qed
qed auto

lemma rbc_split:
  assumes "rb (fill cs t) k" "black (fill cs t)"
  obtains n where "rbc cs n" "rb t n" "black t \<or> black_top cs"
  using assms
proof (induction cs arbitrary: t thesis)
  case (Cons f cs)
  obtain d c x s where f: "f = (d, c, x, s)" by (cases f)
  obtain n where n: "rbc cs n" "rb (nd d c x t s) n" "c = Black \<or> black_top cs"
    using Cons.IH [of "nd d c x t s"] Cons.prems(2,3) f by auto
  show ?case
  proof (cases c)
    case Red
    then show ?thesis using Cons.prems(1) [of n] n f by auto
  next
    case Black
    then show ?thesis using Cons.prems(1) [of "n - 1"] n f by auto
  qed
qed auto

lemma inord_fill_cong: "inord t = inord t' \<Longrightarrow> inord (fill cs t) = inord (fill cs t')"
proof (induction cs arbitrary: t t')
  case (Cons f cs)
  obtain d c x s where f: "f = (d, c, x, s)" by (cases f)
  show ?case using Cons.IH [of "nd d c x t s" "nd d c x t' s"] Cons.prems f by (cases d) auto
qed auto

lemma inord_nd_cong: "inord a = inord a' \<Longrightarrow> inord b = inord b' \<Longrightarrow> inord (nd d c x a b) = inord (nd d c' x a' b')"
  by (cases d) auto

lemma inord_rot: "inord (nd d c x (nd d c' y a b) e) = inord (nd d c2 y a (nd d c3 x b e))"
  by (cases d) auto

section \<open>Insertion keeps the balance\<close>

text \<open>One round of the loop, for both sides.\<close>

lemma rb_insert_loop_side:
  assumes "node \<noteq> 0" "par m node = p" "p \<noteq> 0" "col m p = Red" "par m p = g" "g \<noteq> 0"
    "kid e m g = p" "kid (opp e) m g = u" "u \<noteq> p"
  shows "rb_insert_loop node r m =
    (if u \<noteq> 0 \<and> col m u = Red
     then rb_insert_loop g r (set_col g Red (set_col p Black (set_col u Black m)))
     else do {
       (p', n', m) \<leftarrow> (if kid (opp e) m p = node then do {
            m \<leftarrow> rotate e p r m;
            Some (node, p, m) }
          else Some (p, node, m));
       m \<leftarrow> rb_set_black p' m;
       m \<leftarrow> rb_set_red g m;
       m \<leftarrow> rotate (opp e) g r m;
       rb_insert_loop n' r m })"
  using assms
  by (subst rb_insert_loop.simps; cases e; simp add: header_ops rotate_def)

lemma rb_insert_loop_end:
  assumes "node \<noteq> 0" "par m node = 0 \<or> col m (par m node) = Black"
  shows "rb_insert_loop node r m = Some m"
  using assms by (subst rb_insert_loop.simps) (auto simp: header_ops)

lemma focus_other: "focus m r cs (nd d c x a b) \<longleftrightarrow> focus m r ((opp d, c, x, a) # cs) b"
  by (simp add: focus_up)

lemma focus_rep: "focus m r cs t \<Longrightarrow> rep m t (up_ptr cs 0)"
  by (simp add: focus_def fill_rep)

lemma rep_black: "rep m t q \<Longrightarrow> black t \<longleftrightarrow> ptr t = 0 \<or> col m (ptr t) = Black"
  by (cases t) auto

lemma focus_distinct: "focus m r cs t \<Longrightarrow> distinct (inord t)"
  using distinct_fill [of cs t] by (simp add: focus_def)

lemma focus_kids:
  assumes "focus m r cs (nd d c x a b)" "a \<noteq> Leaf"
  shows "ptr a \<noteq> ptr b" "kid d m x = ptr a" "kid (opp d) m x = ptr b" "kid e m x = ptr a \<longleftrightarrow> e = d"
proof -
  note q = focus_rep [OF assms(1)] focus_distinct [OF assms(1)]
  show p: "ptr a \<noteq> ptr b" using q assms(2) ptr_in [of a] ptr_in [of b] by (cases "b = Leaf") auto
  show k: "kid d m x = ptr a" "kid (opp d) m x = ptr b" using q by auto
  show "kid e m x = ptr a \<longleftrightarrow> e = d" using p k opp_eq [of d e] by (cases "e = d") auto
qed

lemma insert_finish:
  assumes f: "focus m r cs (nd e Black y (nd e Red x t s) u)" and t: "t \<noteq> Leaf"
  obtains m' where
    "do { m \<leftarrow> rb_set_black x m; m \<leftarrow> rb_set_red y m; m \<leftarrow> rotate (opp e) y r m; rb_insert_loop (ptr t) r m } = Some m'"
    "focus m' r cs (nd e Black x t (nd e Red y s u))"
    "keeps (set (inord t) \<union> set (inord s) \<union> set (inord u) \<union> {x, y} \<union> addrs cs) r m m'"
proof -
  let ?A = "set (inord t) \<union> set (inord s) \<union> set (inord u) \<union> {x, y} \<union> addrs cs"
  have xy: "x \<noteq> 0" "y \<noteq> 0" using focus_rep [OF f] by auto
  have f0: "focus m r ((e, Black, y, u) # cs) (nd e Red x t s)" using f by (simp add: focus_up)
  note f1 = paint_focus [OF f0, of Black, unfolded focus_up]
  note f2 = paint_focus [OF f1(1), of Red]
  have f3: "focus (set_col y Red (set_col x Black m)) r cs (nd (opp e) Red y u (nd (opp e) Black x s t))"
    using f2(1) by simp
  obtain m' where m': "rotate (opp e) y r (set_col y Red (set_col x Black m)) = Some m'"
    "focus m' r cs (nd e Black x t (nd e Red y s u))"
    "keeps ?A r (set_col y Red (set_col x Black m)) m'"
    by (rule rotate_ok [OF f3]) (auto simp: Un_ac insert_commute)
  have "keeps ?A r m (set_col x Black m)" "keeps ?A r (set_col x Black m) (set_col y Red (set_col x Black m))"
    using f1(2) f2(2) by (auto elim!: keeps_mono)
  then have k: "keeps ?A r m m'" using m'(3) keeps_trans by blast
  have "ptr t \<noteq> 0" "par m' (ptr t) = x" "col m' x = Black"
    using focus_rep [OF m'(2)] t by (cases t; auto)+
  then have "rb_insert_loop (ptr t) r m' = Some m'" by (intro rb_insert_loop_end) auto
  then show ?thesis using that m' k xy by (simp add: header_ops)
qed

text \<open>The result of a round: the same nodes in the same order, balanced but for the colour of
  the root.\<close>

definition rb_done :: "rb_mem \<Rightarrow> u64 \<Rightarrow> u64 list \<Rightarrow> rb_mem \<Rightarrow> bool" where
  "rb_done m r xs m' \<longleftrightarrow> (\<exists>t' k. focus m' r [] t' \<and> rb (blacken t') k \<and> inord t' = xs) \<and> keeps (set xs) r m m'"

lemma rb_done_trans: "keeps (set xs) r m m1 \<Longrightarrow> rb_done m1 r xs m' \<Longrightarrow> rb_done m r xs m'"
  using keeps_trans by (auto simp: rb_done_def)

lemma insert_recolor:
  assumes f: "focus m r cs (nd e Black y (nd d Red x t s) (nd f Red z a b))"
  shows "focus (set_col y Red (set_col x Black (set_col z Black m))) r cs (nd e Red y (nd d Black x t s) (nd f Black z a b))"
    "keeps (set (inord (fill cs (nd e Black y (nd d Red x t s) (nd f Red z a b))))) r m
       (set_col y Red (set_col x Black (set_col z Black m)))"
proof -
  have f0: "focus m r ((opp e, Black, y, nd d Red x t s) # cs) (nd f Red z a b)"
    using f by (simp add: focus_up)
  have f1: "focus (set_col z Black m) r ((e, Black, y, nd f Black z a b) # cs) (nd d Red x t s)"
    using paint_focus(1) [OF f0, of Black] by (simp add: focus_up)
  note f2 = paint_focus(1) [OF f1, of Black, unfolded focus_up]
  show "focus (set_col y Red (set_col x Black (set_col z Black m))) r cs (nd e Red y (nd d Black x t s) (nd f Black z a b))"
    by (rule paint_focus(1) [OF f2])
qed (auto simp: keeps_def agree_def)

lemma insert_turn:
  assumes f: "focus m r cs (nd e Black y (nd d Red x t s) u)" and t: "rb t n" "\<not> black t" and s: "rb s n" "black s"
  obtains p t' s' m' where
    "(if kid (opp e) m x = ptr t then do { m \<leftarrow> rotate e x r m; Some (ptr t, x, m) } else Some (x, ptr t, m))
       = Some (p, ptr t', m')"
    "focus m' r cs (nd e Black y (nd e Red p t' s') u)" "rb t' n" "\<not> black t'" "rb s' n" "black s'"
    "inord (nd e Red p t' s') = inord (nd d Red x t s)"
    "keeps (set (inord (fill cs (nd e Black y (nd d Red x t s) u)))) r m m'"
proof (cases "d = e")
  case True
  have "focus m r ((e, Black, y, u) # cs) (nd e Red x t s)" using f True by (simp add: focus_up)
  then have "kid (opp e) m x \<noteq> ptr t" using focus_kids [of m r _ e Red x t s] t(2) by fastforce
  then show ?thesis using that [of x t m s] f t s True by simp
next
  case False
  then have d: "d = opp e" by (cases d; cases e) auto
  obtain z a b where tz: "t = nd e Red z a b" using t(2) rbt_cases_nd [of t e] by auto
  have f0: "focus m r ((e, Black, y, u) # cs) (nd e Red x s (nd e Red z a b))"
    using f d tz by (simp add: focus_up)
  obtain m' where m': "rotate e x r m = Some m'" "focus m' r ((e, Black, y, u) # cs) (nd e Red z (nd e Red x s a) b)"
    "keeps (set (inord (fill ((e, Black, y, u) # cs) (nd e Red x s (nd e Red z a b))))) r m m'"
    by (rule rotate_ok [OF f0])
  have k: "kid (opp e) m x = z" using focus_rep [OF f0] by simp
  show ?thesis
    by (rule that [of z "nd e Red x s a" m' b])
      (use m' k t s d tz inord_rot [of e Red z Red x s a b Red Red] in \<open>auto simp: focus_up\<close>)
qed

lemma insert_settle:
  assumes f: "focus m r cs (nd e Black y (nd d Red x t s) u)" and t: "rb t n" "\<not> black t" and s: "rb s n" "black s"
    and u: "rb u n" "black u" and c: "rbc cs (Suc n)"
  shows "\<exists>m'. do {
       (p', n', m) \<leftarrow> (if kid (opp e) m x = ptr t then do { m \<leftarrow> rotate e x r m; Some (ptr t, x, m) }
          else Some (x, ptr t, m));
       m \<leftarrow> rb_set_black p' m;
       m \<leftarrow> rb_set_red y m;
       m \<leftarrow> rotate (opp e) y r m;
       rb_insert_loop n' r m } = Some m' \<and> rb_done m r (inord (fill cs (nd e Black y (nd d Red x t s) u))) m'"
    (is "\<exists>m'. _ \<and> rb_done m r ?xs m'")
proof -
  obtain p t' s' m1 where tn: "(if kid (opp e) m x = ptr t then do { m \<leftarrow> rotate e x r m; Some (ptr t, x, m) }
      else Some (x, ptr t, m)) = Some (p, ptr t', m1)"
    and f1: "focus m1 r cs (nd e Black y (nd e Red p t' s') u)" and t': "rb t' n" "\<not> black t'" "rb s' n" "black s'"
    and i: "inord (nd e Red p t' s') = inord (nd d Red x t s)" and k1: "keeps (set ?xs) r m m1"
    by (rule insert_turn [OF f t s])
  let ?t = "nd e Black p t' (nd e Red y s' u)"
  obtain m' where m': "do { m \<leftarrow> rb_set_black p m1; m \<leftarrow> rb_set_red y m; m \<leftarrow> rotate (opp e) y r m;
        rb_insert_loop (ptr t') r m } = Some m'" "focus m' r cs ?t"
      "keeps (set (inord t') \<union> set (inord s') \<union> set (inord u) \<union> {p, y} \<union> addrs cs) r m1 m'"
    by (rule insert_finish [OF f1]) (use t'(2) in auto)
  have "rb ?t (Suc n)" using t' u by auto
  then obtain k where "rb (fill cs ?t) k" using rbc_fill [OF c, of ?t] by auto
  then obtain k where k: "rb (blacken (fill cs ?t)) k" using rb_blacken by blast
  have "inord ?t = inord (nd e Black y (nd e Red p t' s') u)" by (cases e) auto
  also have "\<dots> = inord (nd e Black y (nd d Red x t s) u)" using i by (rule inord_nd_cong) simp
  finally have io: "inord (fill cs ?t) = ?xs" by (rule inord_fill_cong)
  have "set (inord t') \<union> set (inord s') \<union> set (inord u) \<union> {p, y} \<union> addrs cs = set ?xs"
    by (simp only: io [symmetric]) auto
  then have "keeps (set ?xs) r m m'" using keeps_trans k1 m'(3) by metis
  moreover have "focus m' r [] (fill cs ?t)" using m'(2) by (simp add: focus_def)
  ultimately have "rb_done m r ?xs m'" using k io by (auto simp: rb_done_def)
  then show ?thesis using tn m'(1) by simp
qed

lemma insert_loop_correct:
  assumes "focus m r cs t" "rb t n" "\<not> black t" "rbc cs n"
  shows "\<exists>m'. rb_insert_loop (ptr t) r m = Some m' \<and> rb_done m r (inord (fill cs t)) m'"
  using assms
proof (induction "length cs" arbitrary: cs t n m rule: less_induct)
  case less
  have tl: "t \<noteq> Leaf" using less.prems(3) by auto
  have rt: "ptr t \<noteq> 0" "par m (ptr t) = up_ptr cs 0" using focus_rep [OF less.prems(1)] tl by (cases t; auto)+
  show ?case
  proof (cases "black_top cs \<or> cs = []")
    case True
    then have "up_ptr cs 0 = 0 \<or> col m (up_ptr cs 0) = Black"
      using less.prems(1) by (cases cs rule: addrs.cases) (auto simp: focus_def fill_rep)
    then have e: "rb_insert_loop (ptr t) r m = Some m" using rt by (simp add: rb_insert_loop_end)
    obtain k where "rb (fill cs t) k" using rbc_fill less.prems True by blast
    then have "\<exists>k. rb (blacken (fill cs t)) k" by (rule rb_blacken)
    then show ?thesis using e less.prems(1) by (auto simp: rb_done_def focus_def)
  next
    case False
    then obtain d x s cs1 where cs1: "cs = (d, Red, x, s) # cs1"
      by (cases cs rule: addrs.cases) auto
    then obtain e y u cs' where cs: "cs = (d, Red, x, s) # (e, Black, y, u) # cs'"
      using less.prems(4) by (cases cs1 rule: addrs.cases) auto
    have b: "rb s n" "black s" "rb u n" "rbc cs' (Suc n)" using less.prems(4) cs by auto
    have f: "focus m r cs' (nd e Black y (nd d Red x t s) u)" using less.prems(1) cs by (simp add: focus_up)
    note q = focus_rep [OF f]
    have ux: "ptr u \<noteq> x" using focus_distinct [OF f] ptr_in [of u] q by (cases "u = Leaf") auto
    have side: "par m (ptr t) = x" "par m x = y" "kid e m y = x" "kid (opp e) m y = ptr u" "col m x = Red"
      "x \<noteq> 0" "y \<noteq> 0" using q rt cs by auto
    note round = rb_insert_loop_side [OF rt(1) side(1,6,5,2,7,3,4) ux, of r]
    show ?thesis
    proof (cases "u \<noteq> Leaf \<and> \<not> black u")
      case True
      then obtain z a b where u: "u = nd L Red z a b" using rbt_cases_nd [of u L] by auto
      let ?m = "set_col y Red (set_col x Black (set_col z Black m))"
      let ?t = "nd e Red y (nd d Black x t s) (nd L Black z a b)"
      note rc = insert_recolor [OF f [unfolded u]]
      have i: "inord (fill cs' ?t) = inord (fill cs t)" using cs u by (auto intro!: inord_fill_cong inord_nd_cong)
      have "rb ?t (Suc n)" using less.prems(2) b u by auto
      then obtain m' where "rb_insert_loop y r ?m = Some m'" "rb_done ?m r (inord (fill cs t)) m'"
        using less.hyps [of cs' ?m ?t "Suc n"] rc(1) b cs i by auto
      moreover have "keeps (set (inord (fill cs t))) r m ?m" using rc(2) cs u by simp
      moreover have "z \<noteq> 0" "col m z = Red" using q u by auto
      ultimately show ?thesis using round rb_done_trans u by auto
    next
      case False
      then have bu: "black u" by (cases u) auto
      then have uc: "ptr u = 0 \<or> col m (ptr u) = Black" using q by (cases "u = Leaf") (auto simp: rep_black)
      obtain m' where "do {
           (p', n', m) \<leftarrow> (if kid (opp e) m x = ptr t then do { m \<leftarrow> rotate e x r m; Some (ptr t, x, m) }
              else Some (x, ptr t, m));
           m \<leftarrow> rb_set_black p' m;
           m \<leftarrow> rb_set_red y m;
           m \<leftarrow> rotate (opp e) y r m;
           rb_insert_loop n' r m } = Some m'" "rb_done m r (inord (fill cs' (nd e Black y (nd d Red x t s) u))) m'"
        using insert_settle [OF f less.prems(2,3) b(1-3) bu b(4)] by blast
      then show ?thesis using round uc cs by auto
    qed
  qed
qed

text \<open>A red-black tree at the root \<open>r\<close>.\<close>

definition rb_tree :: "rb_mem \<Rightarrow> u64 \<Rightarrow> rbt \<Rightarrow> bool" where
  "rb_tree m r t \<longleftrightarrow> focus m r [] t \<and> black t \<and> (\<exists>k. rb t k)"

lemma blacken_focus:
  assumes "focus m r [] t" "t \<noteq> Leaf"
  shows "rb_set_black (rm_root m r) m = Some (set_col (ptr t) Black m)"
    "focus (set_col (ptr t) Black m) r [] (blacken t)" "keeps (set (inord t)) r m (set_col (ptr t) Black m)"
proof -
  obtain c x a b where t: "t = nd L c x a b" using assms(2) rbt_cases_nd by blast
  have "rm_root m r = x" "x \<noteq> 0" using assms t by (auto simp: focus_def)
  then show "rb_set_black (rm_root m r) m = Some (set_col (ptr t) Black m)" using t by (simp add: header_ops)
  show "focus (set_col (ptr t) Black m) r [] (blacken t)" "keeps (set (inord t)) r m (set_col (ptr t) Black m)"
    using paint_focus [OF assms(1) [unfolded t], of Black] t by auto
qed

lemma rb_insert_color_correct:
  assumes "focus m r cs t" "rb t n" "\<not> black t" "rbc cs n"
  shows "\<exists>m' t'. rb_insert_color (ptr t) r m = Some m' \<and> rb_tree m' r t' \<and> inord t' = inord (fill cs t) \<and>
    keeps (set (inord (fill cs t))) r m m'"
proof -
  obtain m1 t1 k where 1: "rb_insert_loop (ptr t) r m = Some m1" "focus m1 r [] t1" "rb (blacken t1) k"
    "inord t1 = inord (fill cs t)" "keeps (set (inord (fill cs t))) r m m1"
    using insert_loop_correct [OF assms] by (auto simp: rb_done_def)
  have "set (inord t1) \<noteq> {}" using 1(4) assms(3) by (cases t) auto
  then have "t1 \<noteq> Leaf" by auto
  note b = blacken_focus [OF 1(2) this]
  then show ?thesis using 1 keeps_trans by (auto simp: rb_insert_color_def rb_tree_def intro!: exI [of _ "blacken t1"])
qed

section \<open>Insertion of a buffer\<close>

fun link_of :: "rb_path \<Rightarrow> u64 \<Rightarrow> rb_link" where
  "link_of [] r = AtRoot r"
| "link_of ((d, c, x, s) # cs) r = (if d = L then AtLeft x else AtRight x)"

lemma rd_link_of: "focus m r cs t \<Longrightarrow> rd_link (link_of cs r) m = Some (ptr t)"
proof (cases cs rule: addrs.cases)
  case (2 d c x s cs')
  assume "focus m r cs t"
  then show ?thesis using 2 by (cases d) (auto simp: focus_def fill_rep header_ops)
qed (auto simp: focus_def)

lemma wr_link_of: "focus m r cs t \<Longrightarrow> wr_link (link_of cs r) v m' = Some (swing cs r v m')"
proof (cases cs rule: addrs.cases)
  case (2 d c x s cs')
  assume "focus m r cs t"
  then show ?thesis using 2 by (cases d) (auto simp: focus_def fill_rep header_ops)
qed (auto simp: header_ops)

lemma raw_parent:
  assumes "aligned p"
  shows "p AND NOT 3 = p" "p AND 1 = 0"
  using low_bits [of p 0] assms by (simp_all add: aligned_def)

lemma link_node_focus:
  assumes f: "focus m r cs Leaf" and x: "node_addr x" "x \<notin> addrs cs"
  shows "\<exists>m'. rb_link_node x (up_ptr cs 0) (link_of cs r) m = Some m' \<and> focus m' r cs (Node Leaf Red x Leaf) \<and>
    keeps (insert x (addrs cs)) r m m'"
proof -
  note p = f [unfolded focus_def fill_rep]
  have al: "aligned (up_ptr cs 0)" using p by auto
  define m1 where "m1 = m\<lparr>rm_parent_color := (rm_parent_color m)(x := up_ptr cs 0),
    rm_right := (rm_right m)(x := 0), rm_left := (rm_left m)(x := 0)\<rparr>"
  have m1: "par m1 x = up_ptr cs 0" "col m1 x = Red" "kid d m1 x = 0" "rm_root m1 = rm_root m" for d
    using raw_parent [OF al] by (cases d; simp add: m1_def par_def col_def kid.simps not_words)+
  have "kid d m1 y = kid d m y" if "y \<noteq> x" for d y
    using that by (cases d) (simp_all add: m1_def kid.simps)
  then have ag: "agree (- {x}) m m1" by (auto simp: agree_def par_def col_def m1_def)
  have "x \<noteq> 0" using x by simp
  then have c: "rb_link_node x (up_ptr cs 0) (link_of cs r) m = Some (swing cs r x m1)"
    using wr_link_of [OF f, of x] by (simp add: rb_link_node_def wr_pc_def wr_left_def wr_right_def m1_def)
  have "rept m1 cs 0 0"
    by (rule rept_agree [of m]) (use p x ag in \<open>auto intro: agree_mono\<close>)
  then have "rept (swing cs r x m1) cs 0 x" using rept_swing p by blast
  moreover have "rm_root (swing cs r x m1) r = ptr (fill cs (Node Leaf Red x Leaf))"
    by (rule root_swing [of _ _ _ Leaf]) (use p m1 in auto)
  moreover have "kid d (swing cs r x m1) x = 0" for d
    using x(2) up_ptr_in [of cs 0] m1(3) by (subst swing_kid) auto
  ultimately have "focus (swing cs r x m1) r cs (Node Leaf Red x Leaf)"
    unfolding focus_def fill_rep distinct_fill [of cs "Node Leaf Red x Leaf"] using p x m1 by auto
  moreover have "keeps (insert x (addrs cs)) r m (swing cs r x m1)"
    using ag m1(4) by (auto simp: keeps_def agree_def swing_out)
  ultimately show ?thesis using c by blast
qed

text \<open>Block numbers below \<open>2 ^ 63\<close> compare as they should.\<close>

definition small_keys :: "(u64 \<Rightarrow> u64) \<Rightarrow> u64 set \<Rightarrow> bool" where
  "small_keys bno A \<longleftrightarrow> (\<forall>x\<in>A. bno x < 2 ^ 63)"

definition key_sorted :: "(u64 \<Rightarrow> u64) \<Rightarrow> u64 list \<Rightarrow> bool" where
  "key_sorted bno xs \<longleftrightarrow> sorted_wrt (\<lambda>x y. bno x < bno y) xs"

lemma sint_diff:
  fixes a b :: u64
  assumes "a < 2 ^ 63" "b < 2 ^ 63"
  shows "sint (a - b) = uint a - uint b"
proof -
  have u: "uint a < 2 ^ 63" "uint b < 2 ^ 63" "0 \<le> uint a" "0 \<le> uint b"
    using assms by (simp_all add: word_less_def)
  have "uint (a - b) = take_bit 64 (uint a - uint b)" by (simp add: uint_word_ariths take_bit_eq_mod)
  then have "sint (a - b) = signed_take_bit 63 (uint a - uint b)"
    by (simp add: sint_uint signed_take_bit_take_bit)
  also have "\<dots> = uint a - uint b"
    by (intro signed_take_bit_int_eq_self) (use u in linarith)+
  finally show ?thesis .
qed

lemma sint_order:
  fixes a b :: u64
  assumes "a < 2 ^ 63" "b < 2 ^ 63"
  shows "sint (a - b) < 0 \<longleftrightarrow> a < b" "sint (a - b) > 0 \<longleftrightarrow> b < a"
  using sint_diff [OF assms] by (simp_all add: word_less_def)

lemma fill_append: "fill (cs @ cs') t = fill cs' (fill cs t)"
proof (induction cs arbitrary: t)
  case (Cons f cs)
  then show ?case by (cases f) auto
qed auto

lemma key_sorted_append:
  "key_sorted bno (xs @ ys) \<longleftrightarrow> key_sorted bno xs \<and> key_sorted bno ys \<and> (\<forall>x\<in>set xs. \<forall>y\<in>set ys. bno x < bno y)"
  by (simp add: key_sorted_def sorted_wrt_append)

lemma key_sorted_Cons:
  "key_sorted bno (x # ys) \<longleftrightarrow> key_sorted bno ys \<and> (\<forall>y\<in>set ys. bno x < bno y)"
  by (auto simp: key_sorted_def)

lemma small_keysD: "small_keys bno A \<Longrightarrow> x \<in> A \<Longrightarrow> bno x < 2 ^ 63"
  by (simp add: small_keys_def)

lemma rbnode_place_step:
  assumes "focus m r cs (Node l c x t)" "bno bh < 2 ^ 63" "bno x < 2 ^ 63"
  shows "rbnode_place bno bh (link_of cs r) p m =
    (if bno bh < bno x then rbnode_place bno bh (link_of ((L, c, x, t) # cs) r) x m
     else if bno x < bno bh then rbnode_place bno bh (link_of ((R, c, x, l) # cs) r) x m
     else Some None)"
  using rd_link_of [OF assms(1)] focus_rep [OF assms(1)] assms(2,3)
  by (subst rbnode_place.simps) (auto simp: sint_order)

text \<open>The new node belongs at the end of the path \<open>ds\<close> downwards, between \<open>xs\<close> and \<open>ys\<close>.\<close>

definition placed :: "(u64 \<Rightarrow> u64) \<Rightarrow> u64 \<Rightarrow> rb_mem \<Rightarrow> u64 \<Rightarrow> rb_path \<Rightarrow> rbt \<Rightarrow> rb_path \<Rightarrow> u64 list \<Rightarrow> u64 list \<Rightarrow> bool" where
  "placed bno bh m r cs t ds xs ys \<longleftrightarrow>
     rbnode_place bno bh (link_of cs r) (up_ptr cs 0) m = Some (Some (link_of (ds @ cs) r, up_ptr (ds @ cs) 0)) \<and>
     fill ds Leaf = t \<and> (\<forall>u. inord (fill ds u) = xs @ inord u @ ys) \<and> key_sorted bno (xs @ bh # ys)"

lemma rbnode_place_correct:
  assumes "focus m r cs t" "key_sorted bno (inord t)" "small_keys bno (insert bh (set (inord t)))"
  shows "if bno bh \<in> bno ` set (inord t) then rbnode_place bno bh (link_of cs r) (up_ptr cs 0) m = Some None
    else \<exists>ds xs ys. placed bno bh m r cs t ds xs ys"
  using assms
proof (induction t arbitrary: cs)
  case Leaf
  have "rbnode_place bno bh (link_of cs r) (up_ptr cs 0) m = Some (Some (link_of cs r, up_ptr cs 0))"
    using rd_link_of [OF Leaf(1)] by (subst rbnode_place.simps) auto
  then have "placed bno bh m r cs Leaf [] [] []" by (simp add: placed_def key_sorted_def)
  then show ?case by auto
next
  case (Node l c x t)
  have k: "bno bh < 2 ^ 63" "bno x < 2 ^ 63" using Node.prems(3) by (auto simp: small_keys_def)
  have so: "key_sorted bno (inord l)" "key_sorted bno (inord t)" "\<And>y. y \<in> set (inord l) \<Longrightarrow> bno y < bno x"
    "\<And>y. y \<in> set (inord t) \<Longrightarrow> bno x < bno y"
    using Node.prems(2) by (auto simp: key_sorted_append key_sorted_Cons)
  have sm: "small_keys bno (insert bh (set (inord l)))" "small_keys bno (insert bh (set (inord t)))"
    using Node.prems(3) by (auto simp: small_keys_def)
  note st = rbnode_place_step [of m r cs l c x t bno bh "up_ptr cs 0", OF Node.prems(1) k]
  consider "bno bh < bno x" | "bno x < bno bh" | "bno bh = bno x" by fastforce
  then show ?case
  proof cases
    case 1
    have f: "focus m r ((L, c, x, t) # cs) l" using Node.prems(1) by (simp add: focus_up)
    have n: "bno bh \<in> bno ` set (inord (Node l c x t)) \<longleftrightarrow> bno bh \<in> bno ` set (inord l)"
      using 1 so(4) by fastforce
    note ih = Node.IH(1) [OF f so(1) sm(1)]
    show ?thesis
    proof (cases "bno bh \<in> bno ` set (inord l)")
      case False
      then obtain ds xs ys where d: "rbnode_place bno bh (link_of ((L, c, x, t) # cs) r) x m =
          Some (Some (link_of (ds @ (L, c, x, t) # cs) r, up_ptr (ds @ (L, c, x, t) # cs) 0))"
        "fill ds Leaf = l" "\<And>u. inord (fill ds u) = xs @ inord u @ ys" "key_sorted bno (xs @ bh # ys)"
        using ih by (auto simp: placed_def)
      have l: "inord l = xs @ ys" using d(2) d(3) [of Leaf] by simp
      have "key_sorted bno (xs @ bh # ys @ x # inord t)"
        using d(4) so 1 l by (force simp: key_sorted_append key_sorted_Cons)
      then have "placed bno bh m r cs (Node l c x t) (ds @ [(L, c, x, t)]) xs (ys @ x # inord t)"
        using st d 1 by (simp add: fill_append placed_def)
      then show ?thesis using False n by auto
    qed (use ih st 1 n in auto)
  next
    case 2
    have f: "focus m r ((R, c, x, l) # cs) t" using Node.prems(1) by (simp add: focus_up)
    have n: "bno bh \<in> bno ` set (inord (Node l c x t)) \<longleftrightarrow> bno bh \<in> bno ` set (inord t)"
      using 2 so(3) by fastforce
    note ih = Node.IH(2) [OF f so(2) sm(2)]
    have nl: "\<not> bno bh < bno x" using 2 by auto
    show ?thesis
    proof (cases "bno bh \<in> bno ` set (inord t)")
      case False
      then obtain ds xs ys where d: "rbnode_place bno bh (link_of ((R, c, x, l) # cs) r) x m =
          Some (Some (link_of (ds @ (R, c, x, l) # cs) r, up_ptr (ds @ (R, c, x, l) # cs) 0))"
        "fill ds Leaf = t" "\<And>u. inord (fill ds u) = xs @ inord u @ ys" "key_sorted bno (xs @ bh # ys)"
        using ih by (auto simp: placed_def)
      have t: "inord t = xs @ ys" using d(2) d(3) [of Leaf] by simp
      have "key_sorted bno ((inord l @ x # xs) @ bh # ys)"
        using d(4) so 2 t by (force simp: key_sorted_append key_sorted_Cons)
      then have "placed bno bh m r cs (Node l c x t) (ds @ [(R, c, x, l)]) (inord l @ x # xs) ys"
        using st d 2 nl by (simp add: fill_append placed_def)
      then show ?thesis using False n by auto
    qed (use ih st 2 nl n in auto)
  next
    case 3
    then show ?thesis using st by auto
  qed
qed

text \<open>The state of the index of a root: a red-black tree, ordered by block number.\<close>

definition index_at :: "(u64 \<Rightarrow> u64) \<Rightarrow> rb_mem \<Rightarrow> u64 \<Rightarrow> u64 set \<Rightarrow> bool" where
  "index_at bno m r A \<longleftrightarrow> (\<exists>t. rb_tree m r t \<and> key_sorted bno (inord t) \<and> set (inord t) = A) \<and> small_keys bno A"

lemma rbnode_insert_correct:
  assumes i: "index_at bno m r A" and bh: "node_addr bh" "bh \<notin> A" "bno bh < 2 ^ 63"
  shows "if bno bh \<in> bno ` A then rbnode_insert_bh bno r bh m = Some (0, m)
    else \<exists>m'. rbnode_insert_bh bno r bh m = Some (1, m') \<and> index_at bno m' r (insert bh A) \<and> keeps (insert bh A) r m m'"
proof -
  obtain t k where t: "focus m r [] t" "black t" "rb t k" "key_sorted bno (inord t)" "set (inord t) = A" "small_keys bno A"
    using i by (auto simp: index_at_def rb_tree_def)
  have s: "small_keys bno (insert bh A)" using t(6) bh(3) by (simp add: small_keys_def)
  note p = rbnode_place_correct [OF t(1,4), of bh, unfolded t(5), OF s]
  show ?thesis
  proof (cases "bno bh \<in> bno ` A")
    case True
    then show ?thesis using p by (simp add: rbnode_insert_bh_def)
  next
    case False
    then obtain ds xs ys where d: "rbnode_place bno bh (AtRoot r) 0 m = Some (Some (link_of ds r, up_ptr ds 0))"
      "fill ds Leaf = t" "\<And>u. inord (fill ds u) = xs @ inord u @ ys" "key_sorted bno (xs @ bh # ys)"
      using p by (auto simp: placed_def)
    have ad: "addrs ds = A" using set_fill [of ds Leaf] d(2) t(5) by simp
    have xy: "set xs \<union> set ys = A" using d(3) [of Leaf] d(2) t(5) by auto
    have "focus m r ds Leaf" using t(1) d(2) by (simp add: focus_def)
    then obtain m1 where m1: "rb_link_node bh (up_ptr ds 0) (link_of ds r) m = Some m1"
      "focus m1 r ds (Node Leaf Red bh Leaf)" "keeps (insert bh A) r m m1"
      using link_node_focus bh ad by metis
    obtain n where "rbc ds n" "rb Leaf n" using rbc_split [of ds Leaf k] t(2,3) d(2) by metis
    then have c: "rbc ds 0" by simp
    obtain m2 t2 where m2: "rb_insert_color bh r m1 = Some m2" "rb_tree m2 r t2" "inord t2 = xs @ bh # ys"
      "keeps (insert bh A) r m1 m2"
      using rb_insert_color_correct [OF m1(2) _ _ c] d(3) xy by auto
    have "set (xs @ bh # ys) = insert bh A" using xy by auto
    then have "index_at bno m2 r (insert bh A)" using m2 d(4) s by (auto simp: index_at_def)
    moreover have "keeps (insert bh A) r m m2" using m1(3) m2(4) by (rule keeps_trans)
    ultimately show ?thesis using False d(1) m1(1) m2(1) by (simp add: rbnode_insert_bh_def)
  qed
qed

lemma rbnode_find_correct:
  assumes "rep m t q" "key_sorted bno (inord t)" "small_keys bno (set (inord t))" "b < 2 ^ 63"
  shows "\<exists>y. rbnode_find bno (ptr t) b m = Some y \<and>
    (if b \<in> bno ` set (inord t) then y \<in> set (inord t) \<and> bno y = b else y = 0)"
  using assms
proof (induction t arbitrary: q)
  case Leaf
  then show ?case by (subst rbnode_find.simps) auto
next
  case (Node l c x t)
  have x: "x \<noteq> 0" "bno x < 2 ^ 63" using Node.prems by (auto simp: small_keys_def)
  have so: "\<And>y. y \<in> set (inord l) \<Longrightarrow> bno y < bno x" "\<And>y. y \<in> set (inord t) \<Longrightarrow> bno x < bno y"
    using Node.prems(2) by (auto simp: key_sorted_append key_sorted_Cons)
  have st: "rbnode_find bno x b m = (if b < bno x then rbnode_find bno (ptr l) b m
      else if bno x < b then rbnode_find bno (ptr t) b m else Some x)"
    using x Node.prems(1,4) by (subst rbnode_find.simps) (simp add: sint_order header_ops)
  consider "b < bno x" | "bno x < b" | "b = bno x" by fastforce
  then show ?case
  proof cases
    case 1
    then have "b \<in> bno ` set (inord (Node l c x t)) \<longleftrightarrow> b \<in> bno ` set (inord l)" using so(2) by fastforce
    moreover obtain y where "rbnode_find bno (ptr l) b m = Some y"
      "if b \<in> bno ` set (inord l) then y \<in> set (inord l) \<and> bno y = b else y = 0"
      using Node.IH(1) [of x] Node.prems by (auto simp: key_sorted_append small_keys_def)
    ultimately show ?thesis using st 1 by (auto split: if_splits)
  next
    case 2
    then have "b \<in> bno ` set (inord (Node l c x t)) \<longleftrightarrow> b \<in> bno ` set (inord t)" using so(1) by fastforce
    moreover obtain y where "rbnode_find bno (ptr t) b m = Some y"
      "if b \<in> bno ` set (inord t) then y \<in> set (inord t) \<and> bno y = b else y = 0"
      using Node.IH(2) [of x] Node.prems by (auto simp: key_sorted_append key_sorted_Cons small_keys_def)
    ultimately show ?thesis using st 2 by (auto split: if_splits)
  qed (use st in auto)
qed

end
