(* ===== verification/RbErase.thy ===== *)
theory RbErase
  imports RbTree
begin

text \<open>
  Removal from a red-black tree (\<open>rb_erase\<close> of \<open>rbtree.c\<close>), the order of the nodes
  (\<open>rb_first\<close>, \<open>rb_next\<close> and their mirror images), and the index of buffers as a whole: insertions,
  removals and searches refine a set of buffers with different block numbers.
\<close>

section \<open>The loop that restores the balance\<close>

text \<open>The part of a round after the sibling is black, for both sides.\<close>

definition erase_rest :: "side \<Rightarrow> u64 \<Rightarrow> u64 \<Rightarrow> u64 \<Rightarrow> rb_mem \<Rightarrow> (u64 \<times> rb_mem) option" where
  "erase_rest d parent other r m = do {
     ol \<leftarrow> rd_left other m;
     or \<leftarrow> rd_right other m;
     lb \<leftarrow> null_or_black ol m;
     rb \<leftarrow> null_or_black or m;
     if lb \<and> rb then do {
       m \<leftarrow> rb_set_red other m;
       p \<leftarrow> rb_parent parent m;
       rb_erase_loop parent p r m }
     else do {
       (other, m) \<leftarrow> (if (if d = L then rb else lb) then do {
            m \<leftarrow> rb_set_black (if d = L then ol else or) m;
            m \<leftarrow> rb_set_red other m;
            m \<leftarrow> rotate (opp d) other r m;
            other \<leftarrow> rd_kid (opp d) parent m;
            Some (other, m) }
          else Some (other, m));
       pc \<leftarrow> rb_color parent m;
       m \<leftarrow> rb_set_color other pc m;
       m \<leftarrow> rb_set_black parent m;
       far \<leftarrow> rd_kid (opp d) other m;
       m \<leftarrow> rb_set_black far m;
       m \<leftarrow> rotate d parent r m;
       Some (rm_root m r, m) }}"

lemma null_or_black_total: "null_or_black a m = Some (a = 0 \<or> col m a = Black)"
  by (simp add: null_or_black_def header_ops)

lemma rd_kid_sides: "rd_left a m = rd_kid L a m" "rd_right a m = rd_kid R a m"
  by (simp_all add: rd_kid_def header_ops)

lemma rb_erase_loop_end:
  "(node \<noteq> 0 \<and> col m node = Red) \<or> node = rm_root m r \<Longrightarrow> rb_erase_loop node parent r m = Some (node, m)"
  by (subst rb_erase_loop.simps) (auto simp: null_or_black_total)

lemma rb_erase_loop_side:
  assumes "node = 0 \<or> col m node = Black" "node \<noteq> rm_root m r" "parent \<noteq> 0"
    "kid d m parent = node" "kid (opp d) m parent = other" "other \<noteq> node" "other \<noteq> 0"
  shows "rb_erase_loop node parent r m = do {
       (other, m) \<leftarrow> (if col m other = Red then do {
            m \<leftarrow> rb_set_black other m;
            m \<leftarrow> rb_set_red parent m;
            m \<leftarrow> rotate d parent r m;
            other \<leftarrow> rd_kid (opp d) parent m;
            Some (other, m) }
          else Some (other, m));
       erase_rest d parent other r m }"
proof -
  have o: "null_or_black node m = Some True" "rb_is_red other m = Some (col m other = Red)"
    using assms by (auto simp: null_or_black_total header_ops)
  have k: "rd_left parent m = Some (kid L m parent)" "rd_right parent m = Some (kid R m parent)"
    using assms(3) by (simp_all add: header_ops)
  note sides = rd_kid_sides [symmetric]
  have rot: "rotate L = rb_rotate_left" "rotate R = rb_rotate_right" by (auto simp: rotate_def)
  have dl: "(L = L) = True" "(R = R) = True" "(R = L) = False" by auto
  show ?thesis
  proof (cases d)
    case L
    show ?thesis
      unfolding L erase_rest_def sides rot opp.simps dl if_True if_False
      by (subst rb_erase_loop.simps) (use assms L in \<open>simp only: o k opp.simps Option.bind_lunit simp_thms if_True if_False\<close>)
  next
    case R
    have n: "kid L m parent \<noteq> node" using assms R by simp
    show ?thesis
      unfolding R erase_rest_def sides rot opp.simps dl if_True if_False
      by (subst rb_erase_loop.simps) (use assms n R in \<open>simp only: o k opp.simps Option.bind_lunit simp_thms if_True if_False\<close>)
  qed
qed

text \<open>What the loop reaches: a node that, painted black, makes the tree balanced.\<close>

definition erase_goal :: "rb_mem \<Rightarrow> u64 \<Rightarrow> u64 list \<Rightarrow> (u64 \<times> rb_mem) option \<Rightarrow> bool" where
  "erase_goal m r xs res \<longleftrightarrow> (\<exists>m' cs t. res = Some (ptr t, m') \<and> focus m' r cs t \<and>
     black (fill cs (blacken t)) \<and> (\<exists>k. rb (fill cs (blacken t)) k) \<and> inord (fill cs t) = xs \<and> keeps (set xs) r m m')"

lemma erase_goal_trans: "keeps (set xs) r m m1 \<Longrightarrow> erase_goal m1 r xs res \<Longrightarrow> erase_goal m r xs res"
  using keeps_trans unfolding erase_goal_def by blast

text \<open>A red sibling: its children become the candidates for the sibling.\<close>

lemma erase_flip:
  assumes f: "focus m r cs (nd d Black x t (nd d Red y a b))"
  obtains m' where
    "do { m \<leftarrow> rb_set_black y m; m \<leftarrow> rb_set_red x m; m \<leftarrow> rotate d x r m; other \<leftarrow> rd_kid (opp d) x m; Some (other, m) }
       = Some (ptr a, m')"
    "focus m' r cs (nd d Black y (nd d Red x t a) b)" "keeps (set (inord (fill cs (nd d Black x t (nd d Red y a b))))) r m m'"
proof -
  let ?A = "set (inord (fill cs (nd d Black x t (nd d Red y a b))))"
  have xy: "x \<noteq> 0" "y \<noteq> 0" using focus_rep [OF f] by auto
  have f0: "focus m r ((opp d, Black, x, t) # cs) (nd d Red y a b)" using f by (simp add: focus_up)
  have f1: "focus (set_col y Black m) r cs (nd d Black x t (nd d Black y a b))"
    using paint_focus(1) [OF f0, of Black] by (simp add: focus_up)
  note f2 = paint_focus(1) [OF f1, of Red]
  obtain m' where m': "rotate d x r (set_col x Red (set_col y Black m)) = Some m'"
    "focus m' r cs (nd d Black y (nd d Red x t a) b)" "keeps ?A r (set_col x Red (set_col y Black m)) m'"
    by (rule rotate_ok [OF f2]) simp
  have "keeps ?A r m (set_col x Red (set_col y Black m))" by (auto simp: keeps_def agree_def)
  then have "keeps ?A r m m'" using m'(3) by (rule keeps_trans)
  moreover have "kid (opp d) m' x = ptr a" using focus_rep [OF m'(2)] by simp
  ultimately show ?thesis using that m' xy by (simp add: header_ops rd_kid_def)
qed

text \<open>A black sibling with a red child on the far side.\<close>

lemma erase_far:
  assumes f: "focus m r cs (nd d c x t (nd d Black y a (nd d Red z p q)))"
  obtains m' where
    "do { pc \<leftarrow> rb_color x m; m \<leftarrow> rb_set_color y pc m; m \<leftarrow> rb_set_black x m; far \<leftarrow> rd_kid (opp d) y m;
       m \<leftarrow> rb_set_black far m; m \<leftarrow> rotate d x r m; Some (rm_root m r, m) } = Some (rm_root m' r, m')"
    "focus m' r cs (nd d c y (nd d Black x t a) (nd d Black z p q))"
    "keeps (set (inord (fill cs (nd d c x t (nd d Black y a (nd d Red z p q)))))) r m m'"
proof -
  let ?A = "set (inord (fill cs (nd d c x t (nd d Black y a (nd d Red z p q)))))"
  have nz: "x \<noteq> 0" "y \<noteq> 0" "z \<noteq> 0" and c: "col m x = c" and k: "kid (opp d) m y = z" using focus_rep [OF f] by auto
  have f0: "focus m r ((opp d, c, x, t) # cs) (nd d Black y a (nd d Red z p q))" using f by (simp add: focus_up)
  have f1: "focus (set_col y c m) r cs (nd d c x t (nd d c y a (nd d Red z p q)))"
    using paint_focus(1) [OF f0, of c] by (simp add: focus_up)
  have f2: "focus (set_col x Black (set_col y c m)) r ((opp d, c, y, a) # (opp d, Black, x, t) # cs) (nd d Red z p q)"
    using paint_focus(1) [OF f1, of Black] by (simp add: focus_up)
  let ?m = "set_col z Black (set_col x Black (set_col y c m))"
  have f3: "focus ?m r cs (nd d Black x t (nd d c y a (nd d Black z p q)))"
    using paint_focus(1) [OF f2, of Black] by (simp add: focus_up)
  obtain m' where m': "rotate d x r ?m = Some m'" "focus m' r cs (nd d c y (nd d Black x t a) (nd d Black z p q))" "keeps ?A r ?m m'"
    by (rule rotate_ok [OF f3]) simp
  have "keeps ?A r m ?m" by (auto simp: keeps_def agree_def)
  then have "keeps ?A r m m'" using m'(3) by (rule keeps_trans)
  then show ?thesis using that m' nz c k by (simp add: header_ops rd_kid_def)
qed

text \<open>A black sibling with a red child on the near side only.\<close>

lemma erase_near:
  assumes f: "focus m r cs (nd d c x t (nd d Black y (nd d Red z p q) e))"
  obtains m' where
    "do { m \<leftarrow> rb_set_black z m; m \<leftarrow> rb_set_red y m; m \<leftarrow> rotate (opp d) y r m; other \<leftarrow> rd_kid (opp d) x m; Some (other, m) }
       = Some (z, m')"
    "focus m' r cs (nd d c x t (nd d Black z p (nd d Red y q e)))"
    "keeps (set (inord (fill cs (nd d c x t (nd d Black y (nd d Red z p q) e))))) r m m'"
proof -
  let ?A = "set (inord (fill cs (nd d c x t (nd d Black y (nd d Red z p q) e))))"
  have nz: "x \<noteq> 0" "y \<noteq> 0" "z \<noteq> 0" using focus_rep [OF f] by auto
  let ?cs = "(opp d, c, x, t) # cs"
  have f0: "focus m r ((d, Black, y, e) # ?cs) (nd d Red z p q)" using f by (simp add: focus_up)
  have f1: "focus (set_col z Black m) r ?cs (nd d Black y (nd d Black z p q) e)"
    using paint_focus(1) [OF f0, of Black] by (simp add: focus_up)
  let ?m = "set_col y Red (set_col z Black m)"
  have f2: "focus ?m r ?cs (nd (opp d) Red y e (nd (opp d) Black z q p))"
    using paint_focus(1) [OF f1, of Red] by simp
  obtain m' where m': "rotate (opp d) y r ?m = Some m'" "focus m' r ?cs (nd (opp d) Black z (nd (opp d) Red y e q) p)" "keeps ?A r ?m m'"
    by (rule rotate_ok [OF f2]) (simp add: Un_ac insert_commute)
  have f3: "focus m' r cs (nd d c x t (nd d Black z p (nd d Red y q e)))" using m'(2) by (simp add: focus_up)
  have "keeps ?A r m ?m" by (auto simp: keeps_def agree_def)
  then have "keeps ?A r m m'" using m'(3) by (rule keeps_trans)
  moreover have "kid (opp d) m' x = z" using focus_rep [OF f3] by simp
  ultimately show ?thesis using that m'(1) f3 nz by (simp add: header_ops rd_kid_def)
qed

lemma erase_rest_eval:
  assumes f: "focus m r cs (nd d c x t (nd d Black y a e))"
  shows "erase_rest d x y r m =
    (if black a \<and> black e then rb_erase_loop x (up_ptr cs 0) r (set_col y Red m)
     else do {
       (other, m) \<leftarrow> (if black e then do {
            m \<leftarrow> rb_set_black (ptr a) m;
            m \<leftarrow> rb_set_red y m;
            m \<leftarrow> rotate (opp d) y r m;
            other \<leftarrow> rd_kid (opp d) x m;
            Some (other, m) }
          else Some (y, m));
       pc \<leftarrow> rb_color x m;
       m \<leftarrow> rb_set_color other pc m;
       m \<leftarrow> rb_set_black x m;
       far \<leftarrow> rd_kid (opp d) other m;
       m \<leftarrow> rb_set_black far m;
       m \<leftarrow> rotate d x r m;
       Some (rm_root m r, m) })"
proof -
  note q = focus_rep [OF f]
  have o: "y \<noteq> 0" "x \<noteq> 0" "kid d m y = ptr a" "kid (opp d) m y = ptr e" "par m x = up_ptr cs 0" using q by auto
  have b: "(ptr a = 0 \<or> col m (ptr a) = Black) = black a" "(ptr e = 0 \<or> col m (ptr e) = Black) = black e"
    using q rep_black [of m a y] rep_black [of m e y] by auto
  have d: "d = L \<or> d = R" by (cases d) auto
  have lr: "rd_left y m = Some (kid L m y)" "rd_right y m = Some (kid R m y)" using o(1) by (simp_all add: header_ops)
  have pr: "rb_parent x (set_col y Red m) = Some (up_ptr cs 0)" "rb_set_red y m = Some (set_col y Red m)"
    using o by (simp_all add: header_ops)
  show ?thesis
    using d o b by (elim disjE) (simp_all add: erase_rest_def lr null_or_black_total pr cong: if_cong)
qed

lemma rbc_fill_black:
  assumes "rbc cs n" "rb t n" "black t \<or> black_top cs"
  obtains k where "rb (fill cs t) k" "black (fill cs t)"
proof -
  have "black_top cs \<Longrightarrow> cs \<noteq> []" by auto
  then show ?thesis using rbc_fill [OF assms(1,2)] assms(3) that by blast
qed

lemma erase_settle:
  assumes f: "focus m r cs (nd d c x t (nd d Black y a (nd d Red z p q)))"
    and b: "rb t n" "rb a n" "rb (nd d Red z p q) n" "if c = Red then black_top cs \<and> rbc cs (Suc n) else rbc cs (Suc (Suc n))"
  shows "erase_goal m r (inord (fill cs (nd d c x t (nd d Black y a (nd d Red z p q)))))
    (do { pc \<leftarrow> rb_color x m; m \<leftarrow> rb_set_color y pc m; m \<leftarrow> rb_set_black x m; far \<leftarrow> rd_kid (opp d) y m;
       m \<leftarrow> rb_set_black far m; m \<leftarrow> rotate d x r m; Some (rm_root m r, m) })" (is "erase_goal m r ?xs _")
proof -
  let ?t = "nd d c y (nd d Black x t a) (nd d Black z p q)"
  obtain m' where m': "do { pc \<leftarrow> rb_color x m; m \<leftarrow> rb_set_color y pc m; m \<leftarrow> rb_set_black x m; far \<leftarrow> rd_kid (opp d) y m;
       m \<leftarrow> rb_set_black far m; m \<leftarrow> rotate d x r m; Some (rm_root m r, m) } = Some (rm_root m' r, m')"
    "focus m' r cs ?t" "keeps (set ?xs) r m m'"
    by (rule erase_far [OF f])
  have t: "rb ?t (if c = Red then Suc n else Suc (Suc n))" using b by (cases c) auto
  have c: "rbc cs (if c = Red then Suc n else Suc (Suc n))" "black ?t \<or> black_top cs" using b(4) by (cases c; simp)+
  obtain k where k: "rb (fill cs ?t) k" "black (fill cs ?t)"
    by (rule rbc_fill_black [OF c(1) t c(2)])
  have "inord ?t = inord (nd d c x t (nd d Black y a (nd d Red z p q)))" by (cases d) auto
  then have "inord (fill cs ?t) = ?xs" by (rule inord_fill_cong)
  moreover have "rm_root m' r = ptr (fill cs ?t)" "focus m' r [] (fill cs ?t)" using m'(2) by (simp_all add: focus_def)
  ultimately show ?thesis
    using m'(1,3) k black_blacken unfolding erase_goal_def
    by (intro exI [of _ m'] exI [of _ "[]"] exI [of _ "fill cs ?t"]) auto
qed

text \<open>When the gap is filled by a red tree, or is at the root, the loop stops.\<close>

lemma erase_stop:
  assumes f: "focus m r cs t" and c: "rbc cs (Suc n)"
    and t: "(\<not> black t \<and> rb (blacken t) (Suc n)) \<or> (cs = [] \<and> rb (blacken t) k)"
  shows "erase_goal m r (inord (fill cs t)) (rb_erase_loop (ptr t) p r m)"
proof -
  have "rb_erase_loop (ptr t) p r m = Some (ptr t, m)"
  proof (rule rb_erase_loop_end)
    show "ptr t \<noteq> 0 \<and> col m (ptr t) = Red \<or> ptr t = rm_root m r"
      using t f rep_black [OF focus_rep [OF f]] by (auto simp: focus_def)
  qed
  moreover have "\<exists>k. rb (fill cs (blacken t)) k \<and> black (fill cs (blacken t))"
    using t rbc_fill_black [OF c, of "blacken t"] by (metis blacken_simps(1) fill.simps(1))
  ultimately show ?thesis using f unfolding erase_goal_def by fastforce
qed

lemma rest_near:
  assumes f: "focus m r cs (nd d c x t (nd d Black y (nd d Red z p q) e))"
    and b: "rb t n" "rb (nd d Red z p q) n" "rb e n" "black e"
      "if c = Red then black_top cs \<and> rbc cs (Suc n) else rbc cs (Suc (Suc n))"
  shows "erase_goal m r (inord (fill cs (nd d c x t (nd d Black y (nd d Red z p q) e)))) (erase_rest d x y r m)"
    (is "erase_goal m r ?xs _")
proof -
  obtain m' where m': "do { m \<leftarrow> rb_set_black z m; m \<leftarrow> rb_set_red y m; m \<leftarrow> rotate (opp d) y r m;
      other \<leftarrow> rd_kid (opp d) x m; Some (other, m) } = Some (z, m')"
    "focus m' r cs (nd d c x t (nd d Black z p (nd d Red y q e)))" "keeps (set ?xs) r m m'"
    by (rule erase_near [OF f])
  have io: "inord (fill cs (nd d c x t (nd d Black z p (nd d Red y q e)))) = ?xs"
    by (rule inord_fill_cong) (cases d, auto)
  have "rb p n" "rb (nd d Red y q e) n" using b by auto
  note g = erase_settle [OF m'(2) b(1) this b(5)]
  have ptr: "ptr (nd d Red z p q) = z" by simp
  have "erase_rest d x y r m = do { pc \<leftarrow> rb_color x m'; m \<leftarrow> rb_set_color z pc m'; m \<leftarrow> rb_set_black x m;
      far \<leftarrow> rd_kid (opp d) z m; m \<leftarrow> rb_set_black far m; m \<leftarrow> rotate d x r m; Some (rm_root m r, m) }"
    by (simp only: erase_rest_eval [OF f] ptr m'(1) b(4) nd_simps color.distinct simp_thms if_False if_True
        Option.bind_lunit prod.case)
  then show ?thesis using erase_goal_trans [OF m'(3)] g io by simp
qed

lemma rest_correct:
  assumes f: "focus m r cs (nd d c x t (nd d Black y a e))"
    and b: "rb t n" "black t" "rb a n" "rb e n" "if c = Red then black_top cs \<and> rbc cs (Suc n) else rbc cs (Suc (Suc n))"
    and ih: "\<And>m t. c = Black \<Longrightarrow> focus m r cs t \<Longrightarrow> rb t (Suc n) \<Longrightarrow> black t \<Longrightarrow>
      erase_goal m r (inord (fill cs t)) (rb_erase_loop (ptr t) (up_ptr cs 0) r m)"
  shows "erase_goal m r (inord (fill cs (nd d c x t (nd d Black y a e)))) (erase_rest d x y r m)" (is "erase_goal m r ?xs _")
proof (cases "black e")
  case be: True
  show ?thesis
  proof (cases "black a")
    case True
    let ?t = "nd d c x t (nd d Red y a e)"
    have f0: "focus m r ((opp d, c, x, t) # cs) (nd d Black y a e)" using f by (simp add: focus_up)
    have f1: "focus (set_col y Red m) r cs ?t"
      using paint_focus(1) [OF f0, of Red] by (simp add: focus_up)
    have io: "inord (fill cs ?t) = ?xs" by (auto intro!: inord_fill_cong inord_nd_cong)
    have k: "keeps (set ?xs) r m (set_col y Red m)" by (auto simp: keeps_def agree_def)
    have "erase_goal (set_col y Red m) r ?xs (rb_erase_loop x (up_ptr cs 0) r (set_col y Red m))"
    proof (cases c)
      case Red
      then show ?thesis using erase_stop [OF f1, of n] b True be io by auto
    next
      case Black
      then show ?thesis using ih [OF _ f1] b True be io by auto
    qed
    then show ?thesis using erase_goal_trans [OF k] erase_rest_eval [OF f] True be by simp
  next
    case False
    then obtain z p q where a: "a = nd d Red z p q" using rbt_cases_nd [of a d] by auto
    show ?thesis using rest_near [of m r cs d c x t y z p q e] f b be a by simp
  qed
next
  case False
  then obtain z p q where e: "e = nd d Red z p q" using rbt_cases_nd [of e d] by auto
  then show ?thesis using erase_settle [OF f [unfolded e] b(1,3) _ b(5)] b(4) erase_rest_eval [OF f] False by simp
qed

lemma ptr_fill_in: "cs \<noteq> [] \<Longrightarrow> ptr (fill cs t) \<in> addrs cs"
proof (induction cs arbitrary: t)
  case (Cons f cs)
  then show ?case by (cases f; cases "cs = []") auto
qed auto

lemma focus_not_root:
  assumes "focus m r cs t" "cs \<noteq> []"
  shows "ptr t \<noteq> rm_root m r"
proof
  assume e: "ptr t = rm_root m r"
  have r: "rm_root m r \<in> addrs cs" using assms ptr_fill_in by (simp add: focus_def)
  then have "rm_root m r \<noteq> 0" using assms(1) rep_0 [of m "fill cs t" 0] by (auto simp: focus_def)
  then have "t \<noteq> Leaf" using e by auto
  then show False
    using ptr_in [of t] e r assms(1) by (auto simp: focus_def distinct_fill [of cs t])
qed

lemma black_node: "rb t (Suc n) \<Longrightarrow> black t \<Longrightarrow> \<exists>x a b. t = nd d Black x a b \<and> rb a n \<and> rb b n"
  by (cases t; cases d) auto

lemma red_node: "\<not> black t \<Longrightarrow> rb t n \<Longrightarrow> \<exists>x a b. t = nd d Red x a b \<and> rb a n \<and> rb b n \<and> black a \<and> black b"
  by (cases t; cases d) auto

lemma erase_red_sibling:
  assumes f: "focus m r cs (nd d Black x t (nd d Red y (nd d Black z p q) e))"
    and b: "rb t n" "black t" "rb p n" "rb q n" "rb e (Suc n)" "rbc cs (Suc (Suc n))"
  shows "erase_goal m r (inord (fill cs (nd d Black x t (nd d Red y (nd d Black z p q) e))))
    (do { (other, m) \<leftarrow> do { m \<leftarrow> rb_set_black y m; m \<leftarrow> rb_set_red x m; m \<leftarrow> rotate d x r m;
            other \<leftarrow> rd_kid (opp d) x m; Some (other, m) };
          erase_rest d x other r m })" (is "erase_goal m r ?xs _")
proof -
  obtain m' where m': "do { m \<leftarrow> rb_set_black y m; m \<leftarrow> rb_set_red x m; m \<leftarrow> rotate d x r m;
      other \<leftarrow> rd_kid (opp d) x m; Some (other, m) } = Some (ptr (nd d Black z p q), m')"
    "focus m' r cs (nd d Black y (nd d Red x t (nd d Black z p q)) e)" "keeps (set ?xs) r m m'"
    by (rule erase_flip [OF f])
  let ?cs = "(d, Black, y, e) # cs"
  have f1: "focus m' r ?cs (nd d Red x t (nd d Black z p q))" using m'(2) by (simp add: focus_up)
  have "erase_goal m' r (inord (fill ?cs (nd d Red x t (nd d Black z p q)))) (erase_rest d x z r m')"
    by (rule rest_correct [OF f1 b(1-4)]) (use b in auto)
  moreover have "inord (fill ?cs (nd d Red x t (nd d Black z p q))) = ?xs"
    unfolding fill.simps by (rule inord_fill_cong) (cases d, auto)
  ultimately have g: "erase_goal m' r ?xs (erase_rest d x z r m')" by simp
  show ?thesis by (simp only: m'(1) Option.bind_lunit prod.case nd_simps) (rule erase_goal_trans [OF m'(3) g])
qed

lemma erase_loop_correct:
  assumes "focus m r cs t" "rbc cs (Suc n)" "(black t \<and> rb t n) \<or> (\<not> black t \<and> rb (blacken t) (Suc n))"
  shows "erase_goal m r (inord (fill cs t)) (rb_erase_loop (ptr t) (up_ptr cs 0) r m)"
  using assms
proof (induction "length cs" arbitrary: cs t n m rule: less_induct)
  case less
  show ?case
  proof (cases "\<not> black t \<or> cs = []")
    case True
    then show ?thesis using erase_stop [OF less.prems(1,2)] less.prems(3) black_blacken by metis
  next
    case False
    then obtain d c x s cs' where cs: "cs = (d, c, x, s) # cs'" by (cases cs rule: addrs.cases) auto
    have b: "black t" "rb t n" using less.prems(3) False by auto
    have s: "rb s (Suc n)" and c: "if c = Red then black_top cs' \<and> rbc cs' (Suc n) else rbc cs' (Suc (Suc n))"
      and cb: "\<not> black s \<Longrightarrow> c = Black"
      using less.prems(2) cs by (cases c; simp)+
    have f: "focus m r cs' (nd d c x t s)" using less.prems(1) cs by (simp add: focus_up)
    note q = focus_rep [OF f]
    have sl: "s \<noteq> Leaf" using s by auto
    have p: "ptr s \<noteq> 0" "ptr s \<noteq> ptr t"
      using q sl focus_kids(1) [of m r cs' "opp d" c x s t] f by auto
    have tb: "ptr t = 0 \<or> col m (ptr t) = Black" using q b(1) rep_black [of m t x] by auto
    have side: "x \<noteq> 0" "kid d m x = ptr t" "kid (opp d) m x = ptr s" using q by auto
    note round = rb_erase_loop_side [OF tb focus_not_root [OF less.prems(1)] side p(2,1)]
    have "erase_goal m r (inord (fill cs' (nd d c x t s))) (rb_erase_loop (ptr t) x r m)"
    proof (cases "black s")
      case True
      then obtain y a e where y: "s = nd d Black y a e" "rb a n" "rb e n" using black_node s by blast
      have ih: "erase_goal m r (inord (fill cs' u)) (rb_erase_loop (ptr u) (up_ptr cs' 0) r m)"
        if "c = Black" "focus m r cs' u" "rb u (Suc n)" "black u" for m u
        using less.hyps [of cs' m u "Suc n"] that c cs by simp
      show ?thesis
        using rest_correct [OF f [unfolded y(1)] b(2,1) y(2,3) c ih] round y(1) q cs by simp
    next
      case False
      then obtain y a e where y: "s = nd d Red y a e" "rb a (Suc n)" "rb e (Suc n)" "black a" using red_node s by blast
      obtain z p q' where z: "a = nd d Black z p q'" "rb p n" "rb q' n" using black_node y(2,4) by blast
      have cB: "c = Black" using cb False .
      have cy: "col m y = Red" "ptr s = y" using q y(1) by auto
      have "erase_goal m r (inord (fill cs' (nd d c x t s)))
          (do { (other, m) \<leftarrow> do { m \<leftarrow> rb_set_black y m; m \<leftarrow> rb_set_red x m; m \<leftarrow> rotate d x r m;
                  other \<leftarrow> rd_kid (opp d) x m; Some (other, m) };
                erase_rest d x other r m })"
        using erase_red_sibling [of m r cs' d x t y z p q' e n] f b y z c cB by simp
      then show ?thesis unfolding cs using round [unfolded cy] cs by simp
    qed
    then show ?thesis using cs by simp
  qed
qed

lemma rb_erase_color_correct:
  assumes "focus m r cs t" "rbc cs (Suc n)" "(black t \<and> rb t n) \<or> (\<not> black t \<and> rb (blacken t) (Suc n))"
  shows "\<exists>m' t'. rb_erase_color (ptr t) (up_ptr cs 0) r m = Some m' \<and> rb_tree m' r t' \<and> inord t' = inord (fill cs t) \<and>
    keeps (set (inord (fill cs t))) r m m'"
proof -
  obtain m1 cs' t' k where 1: "rb_erase_loop (ptr t) (up_ptr cs 0) r m = Some (ptr t', m1)" "focus m1 r cs' t'"
    "black (fill cs' (blacken t'))" "rb (fill cs' (blacken t')) k" "inord (fill cs' t') = inord (fill cs t)"
    "keeps (set (inord (fill cs t))) r m m1"
    using erase_loop_correct [OF assms] unfolding erase_goal_def by blast
  have io: "inord (fill cs' (blacken t')) = inord (fill cs t)" using 1(5) inord_fill_cong [of "blacken t'" t' cs'] by simp
  show ?thesis
  proof (cases "t' = Leaf")
    case True
    then show ?thesis using 1 io by (auto simp: rb_erase_color_def rb_tree_def focus_def)
  next
    case False
    then obtain c x a b where t': "t' = nd L c x a b" using rbt_cases_nd by blast
    have "x \<noteq> 0" using focus_rep [OF 1(2)] t' by simp
    note p = paint_focus [OF 1(2) [unfolded t'], of Black]
    have "keeps (set (inord (fill cs t))) r m1 (set_col x Black m1)" using p(2) unfolding t' [symmetric] 1(5) .
    then have "keeps (set (inord (fill cs t))) r m (set_col x Black m1)" using 1(6) keeps_trans by blast
    moreover have "rb_tree (set_col x Black m1) r (fill cs' (blacken t'))"
      using p(1) 1(3,4) t' by (auto simp: rb_tree_def focus_def)
    ultimately show ?thesis using 1(1) io t' \<open>x \<noteq> 0\<close> by (auto simp: rb_erase_color_def header_ops)
  qed
qed

section \<open>Taking a node out\<close>

lemma erase_outer_focus:
  assumes f: "focus m r cs (nd d c x a Leaf)"
  shows "\<exists>m'. rb_erase_outer x (ptr a) r m = Some (ptr a, up_ptr cs 0, color_word c, m') \<and> focus m' r cs a \<and>
    keeps (set (inord (fill cs (nd d c x a Leaf)))) r m m'"
proof -
  note p = f [unfolded focus_def fill_rep distinct_fill [of cs "nd d c x a Leaf"]]
  let ?m1 = "reparent a (up_ptr cs 0) m"
  let ?m = "swing cs r (ptr a) ?m1"
  have o: "x \<noteq> 0" "par m x = up_ptr cs 0" "col m x = c" "aligned (up_ptr cs 0)" "rep m a x" using p by auto
  have h: "hole ?m1 cs x" using hole_focus [OF f, of ?m1] by simp
  have c: "rb_erase_outer x (ptr a) r m = Some (ptr a, up_ptr cs 0, color_word c, ?m)"
    using o reparent_code [OF o(5)] swing_code(1) [OF h] by (simp add: rb_erase_outer_def header_ops(6,7))
  have na: "y \<notin> addrs cs" if "y \<in> set (inord a)" for y using that p by auto
  have "rep ?m a (up_ptr cs 0)"
    by (rule rep_moved [OF o(5)]) (use p o na in \<open>auto simp: swing_out\<close>)
  moreover have "rept ?m1 cs 0 x"
    by (rule rept_agree [of m]) (use p o na ptr_in [of a] in \<open>auto simp: agree_def\<close>)
  then have "rept ?m cs 0 (ptr a)" using rept_swing p by blast
  moreover have "rm_root ?m r = ptr (fill cs a)" by (rule root_swing [of _ _ _ "nd d c x a Leaf"]) (use p in auto)
  ultimately have "focus ?m r cs a" unfolding focus_def fill_rep distinct_fill [of cs a] using p by auto
  moreover have "keeps (set (inord (fill cs (nd d c x a Leaf)))) r m ?m"
    using o ptr_in [of a] by (auto simp: keeps_def agree_def swing_out)
  ultimately show ?thesis using c by blast
qed

lemma spine:
  assumes "rep m t q" "t \<noteq> Leaf"
  obtains sp c y b ys where "t = fill sp (Node Leaf c y b)" "go_left (ptr t) m = Some y"
    "\<forall>f\<in>set sp. fst f = L" "\<forall>u. inord (fill sp u) = inord u @ ys"
  using assms
proof (induction t arbitrary: q thesis)
  case (Node l c x t)
  show ?case
  proof (cases "l = Leaf")
    case True
    have "go_left x m = Some x" using Node.prems(2) True by (subst go_left.simps) (auto simp: header_ops)
    then show ?thesis using Node.prems(1) [of "[]" c x t "[]"] True by simp
  next
    case False
    have l: "rep m l x" using Node.prems(2) by simp
    obtain sp c' y b ys where s: "l = fill sp (Node Leaf c' y b)" "go_left (ptr l) m = Some y"
      "\<forall>f\<in>set sp. fst f = L" "\<forall>u. inord (fill sp u) = inord u @ ys"
      by (rule Node.IH(1) [OF _ l False]) blast
    have "go_left x m = go_left (ptr l) m" using Node.prems(2) False by (subst go_left.simps) (auto simp: header_ops)
    then show ?thesis
      using Node.prems(1) [of "sp @ [(L, c, x, t)]" c' y b "ys @ x # inord t"] s by (auto simp: fill_append)
  qed
qed auto

text \<open>The last statements of the removal of a node \<open>x\<close> with two children: \<open>y\<close> gets its colour, its
  parent and its left child.\<close>

definition copy_pc :: "u64 \<Rightarrow> u64 \<Rightarrow> rb_mem \<Rightarrow> rb_mem" where
  "copy_pc x y m = m\<lparr>rm_parent_color := (rm_parent_color m)(y := rm_parent_color m x)\<rparr>"

lemma copy_pc_fields [simp]:
  "par (copy_pc x y m) a = (if a = y then par m x else par m a)"
  "col (copy_pc x y m) a = (if a = y then col m x else col m a)"
  "kid d (copy_pc x y m) a = kid d m a"
  "rm_root (copy_pc x y m) = rm_root m"
  by (cases d; simp add: copy_pc_def par_def col_def kid.simps)+

definition succeed :: "u64 \<Rightarrow> u64 \<Rightarrow> rbt \<Rightarrow> rb_mem \<Rightarrow> rb_mem" where
  "succeed x y l m = set_par (ptr l) y (set_kid L y (ptr l) (copy_pc x y m))"

lemma succeed_fields:
  assumes "aligned y"
  shows "par (succeed x y l m) a = (if a = ptr l then y else if a = y then par m x else par m a)"
    "col (succeed x y l m) a = (if a = y then col m x else col m a)"
    "kid d (succeed x y l m) a = (if d = L \<and> a = y then ptr l else kid d m a)"
    "rm_root (succeed x y l m) = rm_root m"
  using assms by (simp_all add: succeed_def)

lemma succeed_focus:
  assumes l: "rep m l x" "l \<noteq> Leaf" and t: "rep m t y" "kid R m y = ptr t" and c: "rept m cs 0 y"
    and x: "par m x = up_ptr cs 0" "col m x = c" and y: "node_addr y"
    and r: "rm_root m r = ptr (fill cs (Node l c y t))" and d: "distinct (inord (fill cs (Node l c y t)))"
  shows "focus (succeed x y l m) r cs (Node l c y t)"
proof -
  let ?m = "succeed x y l m"
  note dd = d [unfolded distinct_fill [of cs "Node l c y t"]]
  have al: "aligned y" using y by simp
  have pl: "ptr l \<in> set (inord l)" using ptr_in [OF l(2)] .
  have yl: "y \<noteq> ptr l" using dd pl by auto
  have "rep ?m l y"
    by (rule rep_moved [OF l(1)]) (use dd in \<open>auto simp: succeed_fields [OF al]\<close>)
  moreover have "rep ?m t y"
    by (rule rep_agree [OF t(1)]) (use dd pl in \<open>auto simp: agree_def succeed_fields [OF al]\<close>)
  moreover have "rept ?m cs 0 y"
    by (rule rept_agree [OF c]) (use dd pl in \<open>auto simp: agree_def succeed_fields [OF al]\<close>)
  ultimately show ?thesis
    unfolding focus_def fill_rep using d r y x t yl by (auto simp: succeed_fields [OF al])
qed

lemma succeed_code:
  assumes "x \<noteq> 0" "y \<noteq> 0" "kid L m x = ptr l" "ptr l \<noteq> 0" "x \<noteq> y"
  shows "do { pc \<leftarrow> rd_pc x m; m \<leftarrow> wr_pc y pc m; l' \<leftarrow> rd_left x m; m \<leftarrow> wr_left y l' m; m \<leftarrow> rb_set_parent l' y m;
     Some (g m) } = Some (g (succeed x y l m))"
proof -
  have "rd_pc x m = Some (rm_parent_color m x)" "wr_pc y (rm_parent_color m x) m = Some (copy_pc x y m)"
    using assms by (simp_all add: rd_pc_def wr_pc_def copy_pc_def)
  then show ?thesis using assms by (simp add: header_ops succeed_def)
qed

lemma succeed_keeps:
  assumes "aligned y" "l \<noteq> Leaf" "insert y (set (inord l)) \<subseteq> A"
  shows "keeps A r m (succeed x y l m)"
  using assms(3) ptr_in [OF assms(2)] by (auto simp: keeps_def agree_def succeed_fields [OF assms(1)])

text \<open>The next node is the right child.\<close>

lemma erase_inner_near:
  assumes f: "focus m r cs (Node l c x (Node Leaf c' y b))" and l: "l \<noteq> Leaf"
  shows "\<exists>m'. rb_erase_inner x r m = Some (ptr b, y, color_word c', m') \<and> focus m' r cs (Node l c y b) \<and>
    keeps (set (inord (fill cs (Node l c x (Node Leaf c' y b))))) r m m'"
proof -
  let ?t = "Node l c x (Node Leaf c' y b)"
  note p = f [unfolded focus_def fill_rep distinct_fill [of cs ?t]]
  let ?m1 = "swing cs r y m"
  have o: "x \<noteq> 0" "y \<noteq> 0" "kid R m x = y" "par m x = up_ptr cs 0" "kid L m y = 0" "ptr l \<noteq> 0" "x \<noteq> y"
    "kid L m x = ptr l" "kid R m y = ptr b" "par m y = x" "col m y = c'" using p l by auto
  have out: "z \<notin> addrs cs" if "z \<in> set (inord ?t)" for z using that p by blast
  have k1: "kid d ?m1 z = kid d m z" if "z \<in> set (inord ?t)" for d z using out [OF that] by (rule swing_out)
  have g: "go_left y m = Some y" using o by (subst go_left.simps) (simp add: header_ops)
  have h: "hole m cs x" using hole_focus [OF f, of m] by simp
  have kx: "kid L ?m1 x = ptr l" "kid R ?m1 y = ptr b" using k1 o by auto
  have c: "rb_erase_inner x r m = Some (ptr b, y, color_word c', succeed x y l ?m1)"
    using o g swing_code(1) [OF h, of y r] kx succeed_code [OF o(1,2) kx(1) o(6,7), of "\<lambda>m. (ptr b, y, color_word c', m)"]
    by (simp add: rb_erase_inner_def header_ops(1,2,6,7))
  have ag: "agree (set (inord ?t)) m ?m1" using k1 by (simp add: agree_def)
  have "focus (succeed x y l ?m1) r cs (Node l c y b)"
  proof (rule succeed_focus)
    show "rep ?m1 l x" "rep ?m1 b y" by (rule rep_agree [of m]; use p ag in \<open>auto elim: agree_mono\<close>)+
    show "rept ?m1 cs 0 y" using rept_swing p by blast
    show "rm_root ?m1 r = ptr (fill cs (Node l c y b))" by (rule root_swing [of _ _ _ ?t]) (use p in auto)
    show "distinct (inord (fill cs (Node l c y b)))" unfolding distinct_fill [of cs "Node l c y b"] using p by auto
  qed (use p l kx in auto)
  moreover have "keeps (set (inord (fill cs ?t))) r m ?m1" by (auto simp: keeps_def agree_def swing_out)
  moreover have "keeps (set (inord (fill cs ?t))) r ?m1 (succeed x y l ?m1)" by (rule succeed_keeps) (use p l in auto)
  ultimately show ?thesis using c keeps_trans by blast
qed

text \<open>The next node is further down, at the end of the path \<open>sp\<close> to the left.\<close>

definition pulled :: "rb_path \<Rightarrow> u64 \<Rightarrow> u64 \<Rightarrow> u64 \<Rightarrow> rbt \<Rightarrow> rb_mem \<Rightarrow> rb_mem" where
  "pulled sp r x y b m = set_par (ptr (fill sp b)) y (set_kid R y (ptr (fill sp b))
     (swing sp r (ptr b) (reparent b (up_ptr sp x) m)))"

lemma up_ptr_ne: "sp \<noteq> [] \<Longrightarrow> up_ptr sp q = up_ptr sp 0"
  by (cases sp rule: addrs.cases) auto

lemma up_ptr_aligned: "sp \<noteq> [] \<Longrightarrow> rept m sp q p \<Longrightarrow> aligned (up_ptr sp q)"
  by (cases sp rule: addrs.cases) auto

lemma agree_trans: "agree A m m1 \<Longrightarrow> agree A m1 m2 \<Longrightarrow> agree A m m2"
  by (simp add: agree_def)

lemma swing_left:
  assumes "sp \<noteq> []" "\<forall>f\<in>set sp. fst f = L"
  shows "swing sp r v m = set_kid L (up_ptr sp q) v m"
  using assms by (cases sp rule: addrs.cases) auto

lemma pulled_fields:
  assumes "sp \<noteq> []" "aligned y" "aligned (up_ptr sp x)"
  shows "col (pulled sp r x y b m) a = col m a"
    "par (pulled sp r x y b m) a = (if a = ptr (fill sp b) then y else if b \<noteq> Leaf \<and> a = ptr b then up_ptr sp x else par m a)"
    "a \<noteq> y \<Longrightarrow> a \<noteq> up_ptr sp 0 \<Longrightarrow> kid d (pulled sp r x y b m) a = kid d m a"
    "kid R (pulled sp r x y b m) y = ptr (fill sp b)"
    "rm_root (pulled sp r x y b m) = rm_root m"
proof -
  have "rm_root (swing sp r (ptr b) (reparent b (up_ptr sp x) m)) = rm_root m"
    using assms(1) by (cases sp rule: addrs.cases) auto
  then show "rm_root (pulled sp r x y b m) = rm_root m" by (simp add: pulled_def)
qed (use assms in \<open>simp_all add: pulled_def\<close>)

lemma pulled_agree:
  assumes "sp \<noteq> []" "aligned y" "aligned (up_ptr sp x)" "A \<inter> (insert y (addrs sp \<union> set (inord b))) = {}"
  shows "agree A m (pulled sp r x y b m)"
proof -
  have "up_ptr sp 0 \<in> addrs sp" "ptr (fill sp b) \<in> addrs sp" using assms(1) up_ptr_in ptr_fill_in by auto
  then have "z \<noteq> y \<and> z \<noteq> up_ptr sp 0 \<and> z \<noteq> ptr (fill sp b) \<and> (b \<noteq> Leaf \<longrightarrow> z \<noteq> ptr b)" if "z \<in> A" for z
    using that assms(4) ptr_in [of b] by auto
  then show ?thesis by (auto simp: agree_def pulled_fields [OF assms(1-3)])
qed

lemma pulled_rep:
  assumes "sp \<noteq> []" and y: "aligned y" and t: "rep m (fill sp (Node Leaf c y b)) x" "distinct (inord (fill sp (Node Leaf c y b)))"
  shows "rep (pulled sp r x y b m) (fill sp b) y"
proof -
  let ?w = "up_ptr sp x" and ?m2 = "reparent b (up_ptr sp x) m"
  let ?m3 = "swing sp r (ptr b) ?m2"
  have r: "rep m b y" "rept m sp x y" "y \<notin> set (inord b)" "y \<notin> addrs sp" "distinct (inord (fill sp Leaf))"
    "set (inord b) \<inter> addrs sp = {}" "distinct (inord b)"
    using t(1) t(2) [unfolded distinct_fill [of sp "Node Leaf c y b"]] by (auto simp: fill_rep)
  have w: "?w \<in> addrs sp" "aligned ?w"
    using up_ptr_in [OF assms(1)] assms(1) r(2) by (auto intro: up_ptr_aligned)
  have nb: "z \<notin> addrs sp" if "z \<in> set (inord b)" for z using that r(6) by blast
  have "rept ?m2 sp x y"
    by (rule rept_agree [OF r(2)]) (use r(6) w ptr_in [of b] in \<open>auto simp: agree_def\<close>)
  then have "rept ?m3 sp x (ptr b)" using rept_swing r(5) by blast
  moreover have "rep ?m3 b ?w"
  proof (rule rep_moved [OF r(1,7)])
    show "par ?m3 (ptr b) = ?w" if "b \<noteq> Leaf" using that w(2) by simp
    show "(z \<noteq> ptr b \<longrightarrow> par ?m3 z = par m z) \<and> col ?m3 z = col m z \<and> kid d ?m3 z = kid d m z"
      if "z \<in> set (inord b)" for z d using nb [OF that] w(2) by (simp add: swing_out)
  qed
  ultimately have r3: "rep ?m3 (fill sp b) x" by (simp add: fill_rep)
  have d3: "distinct (inord (fill sp b))" using r(5-7) distinct_fill [of sp b] by simp
  have y3: "y \<notin> set (inord (fill sp b))" using r by simp
  show ?thesis
  proof (rule rep_moved [OF r3 d3])
    fix z d
    assume "z \<in> set (inord (fill sp b))"
    then have "z \<noteq> y" using y3 by auto
    then show "(z \<noteq> ptr (fill sp b) \<longrightarrow> par (pulled sp r x y b m) z = par ?m3 z) \<and>
        col (pulled sp r x y b m) z = col ?m3 z \<and> kid d (pulled sp r x y b m) z = kid d ?m3 z"
      using y by (simp add: pulled_def)
  qed (use y in \<open>simp add: pulled_def\<close>)
qed

text \<open>The nodes around a node \<open>x\<close> whose next node is \<open>y\<close>.\<close>

lemma inner_facts:
  assumes f: "focus m r cs (Node l c x (fill sp (Node Leaf c' y b)))" and l: "l \<noteq> Leaf"
  shows "node_addr x" "node_addr y" "kid L m x = ptr l" "ptr l \<noteq> 0" "x \<noteq> y" "kid R m y = ptr b" "col m y = c'"
    "par m y = up_ptr sp x" "rep m l x" "rep m b y" "par m x = up_ptr cs 0" "col m x = c"
    "kid R m x = ptr (fill sp (Node Leaf c' y b))" "y \<notin> set (inord l)" "y \<notin> addrs cs"
    "set (inord l) \<inter> addrs sp = {}" "set (inord l) \<inter> set (inord b) = {}" "x \<notin> addrs sp" "x \<notin> set (inord b)"
    "x \<notin> addrs cs" "(set (inord l) \<union> set (inord b) \<union> addrs sp) \<inter> addrs cs = {}" "aligned (up_ptr sp x)"
    "rept m cs 0 x" "distinct (inord (fill cs Leaf))"
    "rep m (fill sp (Node Leaf c' y b)) x" "distinct (inord (fill sp (Node Leaf c' y b)))"
proof -
  let ?u = "Node Leaf c' y b"
  note p = f [unfolded focus_def fill_rep distinct_fill [of cs "Node l c x (fill sp ?u)"]]
  note q = p [unfolded rep.simps fill_rep [of m sp]]
  show "node_addr x" "node_addr y" "kid L m x = ptr l" "kid R m y = ptr b" "col m y = c'"
    "par m y = up_ptr sp x" "rep m l x" "rep m b y" "par m x = up_ptr cs 0" "col m x = c"
    "kid R m x = ptr (fill sp ?u)" "rept m cs 0 x" "distinct (inord (fill cs Leaf))"
    using q by simp_all
  show r: "rep m (fill sp ?u) x" "distinct (inord (fill sp ?u))" using p by auto
  show "ptr l \<noteq> 0" using q l ptr_0 by blast
  show "x \<noteq> y" "y \<notin> set (inord l)" "y \<notin> addrs cs" "set (inord l) \<inter> addrs sp = {}" "set (inord l) \<inter> set (inord b) = {}"
    "x \<notin> addrs sp" "x \<notin> set (inord b)" "x \<notin> addrs cs" "(set (inord l) \<union> set (inord b) \<union> addrs sp) \<inter> addrs cs = {}"
    using p by auto
  show "aligned (up_ptr sp x)" using q by (cases sp rule: addrs.cases) auto
qed

lemma erase_inner_code:
  assumes f: "focus m r cs (Node l c x (fill sp (Node Leaf c' y b)))" and l: "l \<noteq> Leaf"
    and sp: "sp \<noteq> []" "\<forall>f\<in>set sp. fst f = L" and g: "go_left (ptr (fill sp (Node Leaf c' y b))) m = Some y"
  shows "rb_erase_inner x r m = Some (ptr b, up_ptr sp x, color_word c', succeed x y l (pulled sp r x y b (swing cs r y m)))"
proof -
  let ?m1 = "swing cs r y m" and ?w = "up_ptr sp x"
  let ?h = "ptr (fill sp (Node Leaf c' y b))"
  note i = inner_facts [OF f l]
  have w: "?w \<in> addrs sp" "?w \<noteq> 0"
    using up_ptr_in [OF sp(1), of x] rep_0 [OF i(25)] by auto
  then have xw: "x \<noteq> ?w" using i(18) by auto
  have xu: "x \<noteq> up_ptr sp 0" using up_ptr_in [OF sp(1), of 0] i(18) by auto
  have h: "ptr (fill sp b) = ?h" using sp(1) by (simp add: ptr_fill)
  have h0: "?h \<noteq> 0" using ptr_fill_in [OF sp(1), of "Node Leaf c' y b"] rep_0 [OF i(25)] by auto
  have nz: "x \<noteq> 0" "y \<noteq> 0" using i by auto
  have hole: "hole m cs x" using hole_focus [OF f, of m] by simp
  have k: "kid d ?m1 x = kid d m x" "kid d ?m1 y = kid d m y" for d using i(15,20) swing_out by blast+
  let ?m3 = "set_kid L ?w (ptr b) (reparent b ?w ?m1)"
  have m3: "?m3 = swing sp r (ptr b) (reparent b ?w ?m1)" using swing_left [OF sp, of r "ptr b" _ x] by simp
  have k3: "kid R ?m3 x = ?h" using k i(13) xw by simp
  have p5: "set_par ?h y (set_kid R y ?h ?m3) = pulled sp r x y b ?m1" unfolding pulled_def m3 h ..
  have "kid L (pulled sp r x y b ?m1) x = ptr l"
    using pulled_fields(3) [OF sp(1) _ i(22) i(5) xu, of L] i(2,3) k by simp
  note sc = succeed_code [OF nz this i(4,5), of "\<lambda>m. (ptr b, ?w, color_word c', m)"]
  show ?thesis
    using nz i(6-8,11,13) g swing_code(1) [OF hole, of y r] k reparent_code [OF i(10), of ?w] w(2) xw [symmetric] k3 h0 p5 sc
    by (simp only: rb_erase_inner_def header_ops(1,2,3,4,6,7,12) Option.bind_lunit if_False if_True prod.case swing_fields(1,2)
        simp_thms reparent_fields)
qed

lemma erase_inner_far:
  assumes f: "focus m r cs (Node l c x (fill sp (Node Leaf c' y b)))" and l: "l \<noteq> Leaf" and sp: "sp \<noteq> []"
  shows "focus (succeed x y l (pulled sp r x y b (swing cs r y m))) r cs (Node l c y (fill sp b))"
    "keeps (set (inord (fill cs (Node l c x (fill sp (Node Leaf c' y b)))))) r m (succeed x y l (pulled sp r x y b (swing cs r y m)))"
proof -
  let ?t = "Node l c x (fill sp (Node Leaf c' y b))"
  let ?m1 = "swing cs r y m"
  let ?m5 = "pulled sp r x y b ?m1"
  note i = inner_facts [OF f l]
  have y: "aligned y" using i(2) by simp
  have ag1: "agree A m ?m1" if "A \<inter> addrs cs = {}" for A using that by (auto simp: agree_def intro!: swing_out)
  note ag5 = pulled_agree [OF sp y i(22)]
  have agl: "agree (set (inord l)) m ?m5" "agree {x} m ?m5"
    by (rule agree_trans [OF ag1 ag5]; use i(5,14,16-21) in blast)+
  have t1: "rep ?m1 (fill sp (Node Leaf c' y b)) x" by (rule rep_agree [OF i(25) ag1]) (use i(15,21) in auto)
  show "focus (succeed x y l ?m5) r cs (Node l c y (fill sp b))"
  proof (rule succeed_focus [OF _ l])
    show "rep ?m5 l x" by (rule rep_agree [OF i(9) agl(1)])
    show "rep ?m5 (fill sp b) y" by (rule pulled_rep [OF sp y t1 i(26)])
    show "kid R ?m5 y = ptr (fill sp b)" by (rule pulled_fields(4) [OF sp y i(22)])
    have "rept ?m1 cs 0 y" using rept_swing i(23,24) by blast
    then show "rept ?m5 cs 0 y" by (rule rept_agree) (rule ag5, use i(15,21) in auto)
    show "par ?m5 x = up_ptr cs 0" "col ?m5 x = c" using agl(2) i(11,12) by (auto simp: agree_def)
    have "rm_root m r = ptr (fill cs ?t)" using f by (simp add: focus_def)
    then show "rm_root ?m5 r = ptr (fill cs (Node l c y (fill sp b)))"
      unfolding pulled_fields(5) [OF sp y i(22)] by (rule root_swing) simp
    show "distinct (inord (fill cs (Node l c y (fill sp b))))"
      using f [unfolded focus_def distinct_fill [of cs ?t]] i(26) [unfolded distinct_fill [of sp "Node Leaf c' y b"]]
      unfolding distinct_fill [of cs "Node l c y (fill sp b)"] by (auto simp: distinct_fill [of sp b])
  qed (rule i(2))
  let ?A = "set (inord (fill cs ?t))"
  have "keeps ?A r m ?m1" by (auto simp: keeps_def agree_def swing_out)
  also have "keeps ?A r ?m1 ?m5"
    unfolding keeps_def pulled_fields(5) [OF sp y i(22)] by (intro conjI ag5) auto
  also have "keeps ?A r ?m5 (succeed x y l ?m5)" by (rule succeed_keeps [OF y l]) auto
  finally show "keeps ?A r m (succeed x y l ?m5)" .
qed

lemma erase_finish:
  assumes f: "focus m r cs b" and c: "rbc cs n" "rb (nd d c y b Leaf) n" "c = Black \<or> black_top cs"
  shows "\<exists>m' t. (if color_word c = RB_BLACK then rb_erase_color (ptr b) (up_ptr cs 0) r m else Some m) = Some m' \<and>
    rb_tree m' r t \<and> inord t = inord (fill cs b) \<and> keeps (set (inord (fill cs b))) r m m'"
proof (cases c)
  case Red
  then have "color_word c \<noteq> RB_BLACK" by (simp add: color_word_def RB_RED_def RB_BLACK_def)
  moreover obtain k where "rb (fill cs b) k" "black (fill cs b)"
    using rbc_fill_black [OF c(1), of b] c(2) Red by auto
  ultimately show ?thesis using f by (auto simp: rb_tree_def focus_def)
next
  case Black
  then obtain k where k: "n = Suc k" "rb b k" using c(2) by (cases n) auto
  have "\<exists>m' t. rb_erase_color (ptr b) (up_ptr cs 0) r m = Some m' \<and> rb_tree m' r t \<and> inord t = inord (fill cs b) \<and>
      keeps (set (inord (fill cs b))) r m m'"
    by (rule rb_erase_color_correct [OF f, of k]) (use c(1) k rb_blacken_red in auto)
  then show ?thesis using Black by (simp add: color_word_def)
qed

lemma rbc_address: "rbc (sp @ (d, c, x, s) # cs) n = rbc (sp @ (d, c, y, s) # cs) n \<and>
    black_top (sp @ (d, c, x, s) # cs) = black_top (sp @ (d, c, y, s) # cs)"
proof (induction sp arbitrary: n)
  case Nil
  then show ?case by (cases c) auto
next
  case (Cons f sp)
  obtain d' c' x' s' where "f = (d', c', x', s')" by (cases f)
  then show ?case using Cons by (cases c') auto
qed

lemma fill_inord: "\<exists>xs ys. \<forall>u. inord (fill cs u) = xs @ inord u @ ys"
proof (induction cs)
  case (Cons f cs)
  obtain d c x s where f: "f = (d, c, x, s)" by (cases f)
  obtain xs ys where u: "\<forall>u. inord (fill cs u) = xs @ inord u @ ys" using Cons.IH by blast
  show ?case
  proof (cases d)
    case L
    then have "\<forall>u. inord (fill (f # cs) u) = xs @ inord u @ x # inord s @ ys" using u f by simp
    then show ?thesis by blast
  next
    case R
    then have "\<forall>u. inord (fill (f # cs) u) = (xs @ inord s @ [x]) @ inord u @ ys" using u f by simp
    then show ?thesis by blast
  qed
next
  case Nil
  have "\<forall>u. inord (fill [] u) = [] @ inord u @ []" by simp
  then show ?case by blast
qed

lemma node_path:
  assumes "x \<in> set (inord t)"
  obtains cs l c s where "t = fill cs (Node l c x s)"
  using assms
proof (induction t arbitrary: thesis)
  case (Node l c y s)
  consider "x = y" | "x \<in> set (inord l)" | "x \<in> set (inord s)" using Node.prems(2) by auto
  then show ?case
  proof cases
    case 1
    then show ?thesis using Node.prems(1) [of "[]"] by simp
  next
    case 2
    then obtain cs a c' b where "l = fill cs (Node a c' x b)" using Node.IH(1) by blast
    then show ?thesis using Node.prems(1) [of "cs @ [(L, c, y, s)]"] by (simp add: fill_append)
  next
    case 3
    then obtain cs a c' b where "s = fill cs (Node a c' x b)" using Node.IH(2) by blast
    then show ?thesis using Node.prems(1) [of "cs @ [(R, c, y, l)]"] by (simp add: fill_append)
  qed
qed auto

text \<open>The two ways to take a node out have the same kind of result: a gap at the end of a path,
  into which the remaining child goes.\<close>

definition taken_out :: "rb_mem \<Rightarrow> u64 \<Rightarrow> u64 set \<Rightarrow> u64 list \<Rightarrow> (u64 \<times> u64 \<times> u64 \<times> rb_mem) option \<Rightarrow> bool" where
  "taken_out m r A xs res \<longleftrightarrow> (\<exists>b cs c m' d y n. res = Some (ptr b, up_ptr cs 0, color_word c, m') \<and> focus m' r cs b \<and>
     rbc cs n \<and> rb (nd d c y b Leaf) n \<and> (c = Black \<or> black_top cs) \<and> inord (fill cs b) = xs \<and> keeps A r m m')"

lemma outer_taken_out:
  assumes f: "focus m r cs (nd d c x a Leaf)" and t: "rb (fill cs (nd d c x a Leaf)) k" "black (fill cs (nd d c x a Leaf))"
  shows "taken_out m r (set (inord (fill cs (nd d c x a Leaf)))) (inord (fill cs a)) (rb_erase_outer x (ptr a) r m)"
proof -
  obtain n where n: "rbc cs n" "rb (nd d c x a Leaf) n" "c = Black \<or> black_top cs" using rbc_split [OF t] by auto
  obtain m' where "rb_erase_outer x (ptr a) r m = Some (ptr a, up_ptr cs 0, color_word c, m')" "focus m' r cs a"
    "keeps (set (inord (fill cs (nd d c x a Leaf)))) r m m'"
    using erase_outer_focus [OF f] by blast
  then show ?thesis using n unfolding taken_out_def by blast
qed

lemma inner_taken_out:
  assumes f: "focus m r cs (Node l c x s)" and t: "rb (fill cs (Node l c x s)) k" "black (fill cs (Node l c x s))"
    and ne: "l \<noteq> Leaf" "s \<noteq> Leaf"
  shows "\<exists>y s'. inord s = y # inord s' \<and>
    taken_out m r (set (inord (fill cs (Node l c x s)))) (inord (fill cs (Node l c y s'))) (rb_erase_inner x r m)"
proof -
  have rs: "rep m s x" using focus_rep [OF f] by simp
  obtain sp c' y b ys where s: "s = fill sp (Node Leaf c' y b)" "go_left (ptr s) m = Some y" "\<forall>f\<in>set sp. fst f = L"
    "\<forall>u. inord (fill sp u) = inord u @ ys"
    by (rule spine [OF rs ne(2)])
  let ?A = "set (inord (fill cs (Node l c x s)))"
  let ?cs = "sp @ (R, c, y, l) # cs"
  have cs: "fill cs (Node l c x s) = fill (sp @ (R, c, x, l) # cs) (Node Leaf c' y b)" using s(1) by (simp add: fill_append)
  obtain n where n: "rbc (sp @ (R, c, x, l) # cs) n" "rb (Node Leaf c' y b) n" "c' = Black \<or> black_top (sp @ (R, c, x, l) # cs)"
    using rbc_split [OF t [unfolded cs]] by auto
  have n': "rbc ?cs n" "rb (nd R c' y b Leaf) n" "c' = Black \<or> black_top ?cs" using n rbc_address [of sp R c x l cs n y] by auto
  have "\<exists>m'. rb_erase_inner x r m = Some (ptr b, up_ptr ?cs 0, color_word c', m') \<and>
      focus m' r cs (Node l c y (fill sp b)) \<and> keeps ?A r m m'"
  proof (cases "sp = []")
    case True
    then show ?thesis using erase_inner_near [of m r cs l c x c' y b] f ne(1) s(1) by simp
  next
    case False
    note f' = f [unfolded s(1)]
    have "up_ptr ?cs 0 = up_ptr sp x" using False by (cases sp rule: addrs.cases) auto
    then show ?thesis
      using erase_inner_code [OF f' ne(1) False s(3) s(2) [unfolded s(1)]] erase_inner_far [OF f' ne(1) False] s(1) by auto
  qed
  then obtain m' where m': "rb_erase_inner x r m = Some (ptr b, up_ptr ?cs 0, color_word c', m')"
    "focus m' r cs (Node l c y (fill sp b))" "keeps ?A r m m'" by blast
  have "fill ?cs b = fill cs (Node l c y (fill sp b))" by (simp add: fill_append)
  moreover from this have "focus m' r ?cs b" using m'(2) by (simp add: focus_def)
  ultimately have "taken_out m r ?A (inord (fill cs (Node l c y (fill sp b)))) (rb_erase_inner x r m)"
    using m'(1,3) n' unfolding taken_out_def by metis
  moreover have "inord s = y # inord (fill sp b)" using s(1,4) by simp
  ultimately show ?thesis by blast
qed

theorem rb_erase_correct:
  assumes t: "rb_tree m r t" and x: "x \<in> set (inord t)"
  shows "\<exists>m' t'. rb_erase x r m = Some m' \<and> rb_tree m' r t' \<and> inord t' = remove1 x (inord t) \<and> keeps (set (inord t)) r m m'"
proof -
  obtain cs l c s where cs: "t = fill cs (Node l c x s)" by (rule node_path [OF x])
  obtain k where k: "rb (fill cs (Node l c x s)) k" "black (fill cs (Node l c x s))" using t cs by (auto simp: rb_tree_def)
  have f: "focus m r cs (Node l c x s)" using t cs by (simp add: rb_tree_def focus_def)
  note q = focus_rep [OF f]
  obtain us vs where uv: "\<forall>u. inord (fill cs u) = us @ inord u @ vs" using fill_inord by blast
  have "distinct (inord t)" using t by (simp add: rb_tree_def focus_def)
  then have rm: "remove1 x (inord t) = us @ inord l @ inord s @ vs"
    using cs uv by (auto simp: remove1_append remove1_idem)
  let ?res = "if ptr l = 0 then rb_erase_outer x (ptr s) r m else if ptr s = 0 then rb_erase_outer x (ptr l) r m
     else rb_erase_inner x r m"
  consider "l = Leaf" | "l \<noteq> Leaf" "s = Leaf" | "l \<noteq> Leaf" "s \<noteq> Leaf" by blast
  then have "taken_out m r (set (inord t)) (remove1 x (inord t)) ?res"
  proof cases
    case 1
    then show ?thesis using outer_taken_out [of m r cs R c x s k] f k rm uv cs by simp
  next
    case 2
    then have "ptr l \<noteq> 0" using q ptr_0 [of m l x] by simp
    then show ?thesis using 2 outer_taken_out [of m r cs L c x l k] f k rm uv cs by simp
  next
    case 3
    then have p: "ptr l \<noteq> 0" "ptr s \<noteq> 0" using q ptr_0 [of m l x] ptr_0 [of m s x] by simp_all
    obtain y s' where "inord s = y # inord s'"
      "taken_out m r (set (inord t)) (inord (fill cs (Node l c y s'))) (rb_erase_inner x r m)"
      using inner_taken_out [OF f k 3] cs by blast
    then show ?thesis using p rm uv by simp
  qed
  then obtain b cs' c' m1 d y n where r: "?res = Some (ptr b, up_ptr cs' 0, color_word c', m1)" "focus m1 r cs' b"
    "rbc cs' n" "rb (nd d c' y b Leaf) n" "c' = Black \<or> black_top cs'" "inord (fill cs' b) = remove1 x (inord t)"
    "keeps (set (inord t)) r m m1"
    unfolding taken_out_def by blast
  obtain m' t' where e: "(if color_word c' = RB_BLACK then rb_erase_color (ptr b) (up_ptr cs' 0) r m1 else Some m1) = Some m'"
    "rb_tree m' r t'" "inord t' = remove1 x (inord t)" "keeps (set (remove1 x (inord t))) r m1 m'"
    using erase_finish [OF r(2-5)] r(6) by auto
  have "keeps (set (inord t)) r m1 m'" using e(4) by (rule keeps_mono) (rule set_remove1_subset)
  then have "keeps (set (inord t)) r m m'" using r(7) keeps_trans by blast
  moreover have "rb_erase x r m = Some m'"
    using r(1) e(1) q by (simp add: rb_erase_def header_ops(1,2))
  ultimately show ?thesis using e by blast
qed

end
