(* ===== verification/RbOrder.thy ===== *)
theory RbOrder
  imports RbErase
begin

text \<open>
  The order of the nodes of a red-black tree (\<open>rb_first\<close>, \<open>rb_next\<close> and their mirror images), the
  exchange of a node (\<open>rb_replace_node\<close>) and the walks of the functions for augmented trees, all of
  \<open>rbtree.c\<close>.  The mirror images are one lemma about a side.
\<close>

section \<open>First, last, next, previous\<close>

definition go :: "side \<Rightarrow> u64 \<Rightarrow> rb_mem \<Rightarrow> u64 option" where
  "go d = (if d = L then go_left else go_right)"

definition climb :: "side \<Rightarrow> u64 \<Rightarrow> rb_mem \<Rightarrow> u64 option" where
  "climb d = (if d = L then go_up_right else go_up_left)"

definition ord :: "side \<Rightarrow> rbt \<Rightarrow> u64 list" where
  "ord d t = (if d = L then inord t else rev (inord t))"

fun after :: "side \<Rightarrow> rb_path \<Rightarrow> u64 list" where
  "after d [] = []"
| "after d ((e, c, x, s) # cs) = (if e = d then x # ord d s @ after d cs else after d cs)"

fun before :: "side \<Rightarrow> rb_path \<Rightarrow> u64 list" where
  "before d [] = []"
| "before d ((e, c, x, s) # cs) = (if e = d then before d cs else before d cs @ ord d s @ [x])"

lemma ord_nd:
  "ord d Leaf = []"
  "ord d (nd d c x a b) = ord d a @ x # ord d b"
  "ord d (nd (opp d) c x a b) = ord d b @ x # ord d a"
  by (cases d; simp add: ord_def)+

lemma ord_fill: "ord d (fill cs t) = before d cs @ ord d t @ after d cs"
proof (induction cs arbitrary: t)
  case (Cons f cs)
  obtain e c x s where f: "f = (e, c, x, s)" by (cases f)
  show ?case
  proof (cases "e = d")
    case True
    then show ?thesis using f Cons.IH by (simp add: ord_nd)
  next
    case False
    then have "e = opp d" by (simp add: opp_eq)
    then show ?thesis using f Cons.IH ord_nd(3) [of d c x t s] by simp
  qed
qed simp

lemma go_step: "n \<noteq> 0 \<Longrightarrow> go d n m = (if kid d m n \<noteq> 0 then go d (kid d m n) m else Some n)"
  by (cases d) (simp_all add: go_def go_left.simps [of n] go_right.simps [of n] header_ops)

lemma climb_step:
  "n \<noteq> 0 \<Longrightarrow> climb d n m = (if par m n = 0 then Some 0 else if n = kid (opp d) m (par m n) then climb d (par m n) m else Some (par m n))"
  by (cases d) (simp_all add: climb_def go_up_right.simps [of n] go_up_left.simps [of n] header_ops)

lemma go_correct: "rep m t q \<Longrightarrow> t \<noteq> Leaf \<Longrightarrow> go d (ptr t) m = Some (hd (ord d t))"
proof (induction t arbitrary: q)
  case (Node l c x s)
  obtain a b where n: "Node l c x s = nd d c x a b" "a = (if d = L then l else s)" by (cases d) auto
  have r: "rep m a x" "kid d m x = ptr a" "x \<noteq> 0" using Node.prems(1) unfolding n(1) by auto
  show ?case
  proof (cases "a = Leaf")
    case True
    then show ?thesis using r go_step [of x d m] unfolding n(1) by (simp add: ord_nd)
  next
    case False
    then have "go d (ptr a) m = Some (hd (ord d a))" using Node.IH n(2) r(1) by (cases d) auto
    moreover have "ord d a \<noteq> []" using False ptr_in [of a] by (cases d) (auto simp: ord_def)
    moreover have "ptr a \<noteq> 0" using ptr_0 [OF r(1)] False by simp
    ultimately show ?thesis using r go_step [of x d m] unfolding n(1) by (simp add: ord_nd)
  qed
qed simp

lemma climb_correct:
  "focus m r cs t \<Longrightarrow> t \<noteq> Leaf \<Longrightarrow> climb d (ptr t) m = Some (if after d cs = [] then 0 else hd (after d cs))"
proof (induction cs arbitrary: t)
  case Nil
  then have "ptr t \<noteq> 0" "par m (ptr t) = 0" using focus_rep [OF Nil(1)] by (cases t; auto)+
  then show ?case by (simp add: climb_step)
next
  case (Cons f cs)
  obtain e c x s where f: "f = (e, c, x, s)" by (cases f)
  have fx: "focus m r cs (nd e c x t s)" using Cons.prems(1) f by (simp add: focus_up)
  have r: "rep m t x" "x \<noteq> 0" using focus_rep [OF fx] by auto
  have p: "ptr t \<noteq> 0" "par m (ptr t) = x" using r(1) Cons.prems(2) by (cases t; auto)+
  have k: "ptr t = kid (opp d) m x \<longleftrightarrow> e = opp d" using focus_kids(4) [OF fx Cons.prems(2), of "opp d"] by auto
  show ?case
  proof (cases "e = d")
    case True
    then show ?thesis using k p r(2) f by (simp add: climb_step [of "ptr t"])
  next
    case False
    then have "e = opp d" by (simp add: opp_eq)
    then have "climb d (ptr t) m = climb d x m" using climb_step [OF p(1), of d m] k p(2) r(2) by simp
    then show ?thesis using Cons.IH [OF fx] f False by simp
  qed
qed

definition step :: "side \<Rightarrow> u64 \<Rightarrow> rb_mem \<Rightarrow> u64 option" where
  "step d = (if d = L then rb_next else rb_prev)"

lemma step_eval:
  assumes "x \<noteq> 0" "par m x \<noteq> x"
  shows "step d x m = (if kid (opp d) m x \<noteq> 0 then go d (kid (opp d) m x) m else climb d x m)"
  using assms by (cases d) (simp_all add: step_def rb_next_def rb_prev_def go_def climb_def header_ops)

lemma step_correct:
  assumes t: "rb_tree m r t" and x: "ord d t = xs @ x # ys"
  shows "step d x m = Some (if ys = [] then 0 else hd ys)"
proof -
  have "x \<in> set (ord d t)" using x by simp
  then have "x \<in> set (inord t)" by (cases d) (auto simp: ord_def)
  then obtain cs l c s where cs: "t = fill cs (Node l c x s)" by (rule node_path)
  obtain a b where n: "Node l c x s = nd d c x a b" by (cases d) auto
  have f: "focus m r cs (nd d c x a b)" using t cs n by (simp add: rb_tree_def focus_def)
  have dt: "distinct (ord d t)" using t by (cases d) (auto simp: rb_tree_def focus_def ord_def)
  have o: "ord d t = (before d cs @ ord d a) @ x # (ord d b @ after d cs)" using cs n by (simp add: ord_fill ord_nd)
  have nx: "x \<notin> set xs" "x \<notin> set ys" using dt x by auto
  have "xs @ x # ys = (before d cs @ ord d a) @ x # (ord d b @ after d cs)" using o x by simp
  then have ys: "ys = ord d b @ after d cs" unfolding append_Cons_eq_iff [OF nx] by simp
  note q = focus_rep [OF f]
  have xp: "x \<noteq> 0" "par m x \<noteq> x"
    using q f up_ptr_in [of cs 0] distinct_fill [of cs "nd d c x a b"] by (cases "cs = []"; auto simp: focus_def)+
  have k: "kid (opp d) m x = ptr b" "rep m b x" using q by auto
  show ?thesis
  proof (cases "b = Leaf")
    case True
    then show ?thesis using climb_correct [OF f, of d] step_eval [OF xp, of d] k ys by (simp add: ord_nd)
  next
    case False
    moreover have "ord d b \<noteq> []" using False ptr_in [of b] by (cases d) (auto simp: ord_def)
    moreover have "ptr b \<noteq> 0" using False k ptr_0 by simp
    ultimately show ?thesis using go_correct [OF k(2) False, of d] step_eval [OF xp, of d] k ys by simp
  qed
qed

text \<open>The loop \<open>for (n = rb_first(root); n; n = rb_next(n))\<close>, with at most \<open>k\<close> rounds.\<close>

fun walk :: "nat \<Rightarrow> u64 \<Rightarrow> rb_mem \<Rightarrow> u64 list option" where
  "walk 0 n m = (if n = 0 then Some [] else None)"
| "walk (Suc k) n m = (if n = 0 then Some [] else do { n' \<leftarrow> rb_next n m; ns \<leftarrow> walk k n' m; Some (n # ns) })"

theorem rb_next_correct:
  assumes "rb_tree m r t" "inord t = xs @ x # ys"
  shows "rb_next x m = Some (if ys = [] then 0 else hd ys)" "rb_prev x m = Some (if xs = [] then 0 else last xs)"
proof -
  show "rb_next x m = Some (if ys = [] then 0 else hd ys)"
    using step_correct [OF assms(1), of L xs x ys] assms(2) by (simp add: step_def ord_def)
  show "rb_prev x m = Some (if xs = [] then 0 else last xs)"
    using step_correct [OF assms(1), of R "rev ys" x "rev xs"] assms(2) by (simp add: step_def ord_def hd_rev)
qed

theorem rb_first_correct:
  assumes t: "rb_tree m r t"
  shows "rb_first r m = Some (if inord t = [] then 0 else hd (inord t))"
    "rb_last r m = Some (if inord t = [] then 0 else last (inord t))"
proof -
  have p: "rep m t 0" "rm_root m r = ptr t" using t by (auto simp: rb_tree_def focus_def)
  have z: "ptr t = 0 \<longleftrightarrow> inord t = []" using ptr_0 [OF p(1)] by (cases t) auto
  have n: "t \<noteq> Leaf" if "inord t \<noteq> []" using that by auto
  show "rb_first r m = Some (if inord t = [] then 0 else hd (inord t))"
    using p z n go_correct [OF p(1), of L] by (auto simp: rb_first_def go_def ord_def)
  show "rb_last r m = Some (if inord t = [] then 0 else last (inord t))"
    using p z n go_correct [OF p(1), of R] by (auto simp: rb_last_def go_def ord_def hd_rev)
qed

theorem walk_visits_in_order:
  assumes t: "rb_tree m r t"
  shows "\<exists>n. rb_first r m = Some n \<and> walk (length (inord t)) n m = Some (inord t)"
proof -
  have nz: "0 \<notin> set (inord t)" using t rep_0 [of m t 0] by (auto simp: rb_tree_def focus_def)
  have "walk (length ys) (if ys = [] then 0 else hd ys) m = Some ys" if "inord t = xs @ ys" for xs ys
    using that
  proof (induction ys arbitrary: xs)
    case (Cons y ys)
    have "rb_next y m = Some (if ys = [] then 0 else hd ys)" using rb_next_correct(1) [OF t Cons.prems] .
    moreover have "walk (length ys) (if ys = [] then 0 else hd ys) m = Some ys" using Cons.IH [of "xs @ [y]"] Cons.prems by simp
    moreover have "y \<noteq> 0" using nz Cons.prems by auto
    ultimately show ?case by auto
  qed simp
  then show ?thesis using rb_first_correct(1) [OF t] by (auto dest: spec [of _ "[]"])
qed

section \<open>Exchange of a node\<close>

definition replaced :: "rb_path \<Rightarrow> u64 \<Rightarrow> u64 \<Rightarrow> u64 \<Rightarrow> rbt \<Rightarrow> rbt \<Rightarrow> rb_mem \<Rightarrow> rb_mem" where
  "replaced cs r x y l s m = set_kid L y (ptr l) (set_kid R y (ptr s)
     (copy_pc x y (reparent s y (reparent l y (swing cs r y m)))))"

lemma replace_code:
  assumes f: "focus m r cs (Node l c x s)" and y: "y \<noteq> x"
  shows "rb_replace_node x y r m = (if y = 0 then None else Some (replaced cs r x y l s m))"
proof -
  note q = focus_rep [OF f]
  have o: "x \<noteq> 0" "par m x = up_ptr cs 0" "rep m l x" "rep m s x" using q by auto
  have h: "hole m cs x" using hole_focus [OF f, of m] by simp
  have "x \<notin> addrs cs" using f distinct_fill [of cs "Node l c x s"] by (simp add: focus_def)
  then have k: "kid L (swing cs r y m) x = ptr l" "kid R (swing cs r y m) x = ptr s" using q by (simp_all add: swing_out)
  have pc: "wr_pc y (rm_parent_color m x) m = (if y = 0 then None else Some (copy_pc x y m))" for m
    by (simp add: wr_pc_def copy_pc_def)
  show ?thesis
    using o k y swing_code(1) [OF h, of y r] reparent_code [OF o(3), of y] reparent_code [OF o(4), of y]
    by (simp add: rb_replace_node_def header_ops(1-4,6) rd_pc_def pc replaced_def)
qed

lemma replaced_focus:
  assumes f: "focus m r cs (Node l c x s)" and y: "node_addr y" "y \<notin> set (inord (fill cs (Node l c x s)))"
  shows "focus (replaced cs r x y l s m) r cs (Node l c y s)"
    "keeps (insert y (set (inord (fill cs (Node l c x s))))) r m (replaced cs r x y l s m)"
proof -
  let ?t = "Node l c x s" and ?u = "Node l c y s"
  let ?m1 = "swing cs r y m" and ?m = "replaced cs r x y l s m"
  note p = f [unfolded focus_def fill_rep distinct_fill [of cs ?t]]
  have al: "aligned y" using y by simp
  have out: "z \<notin> addrs cs" if "z \<in> set (inord ?t)" for z using that p by blast
  have yz: "z \<noteq> y" if "z \<in> set (inord (fill cs ?t))" for z using that y(2) by auto
  have col: "col ?m z = (if z = y then col m x else col m z)" for z using al by (simp add: replaced_def)
  have par: "par ?m z = (if z = y then par m x else if s \<noteq> Leaf \<and> z = ptr s \<or> l \<noteq> Leaf \<and> z = ptr l then y else par m z)" for z
    using al p ptr_in [of s] ptr_in [of l] by (auto simp: replaced_def)
  have kid: "kid d ?m z = kid d ?m1 z" if "z \<noteq> y" for d z using that by (simp add: replaced_def)
  have "rep ?m v y" if v: "v = l \<or> v = s" for v
  proof (rule rep_moved [of m v x])
    show "rep m v x" "distinct (inord v)" using v p by auto
    have sub: "set (inord v) \<subseteq> set (inord ?t)" using v by auto
    show "par ?m (ptr v) = y" if "v \<noteq> Leaf" using that v ptr_in [OF that] yz [of "ptr v"] sub by (auto simp: par)
    fix z d assume z: "z \<in> set (inord v)"
    then have "z \<noteq> y" "z \<notin> addrs cs" using yz [of z] out [of z] sub by auto
    moreover have "z \<noteq> ptr v \<Longrightarrow> \<not> (s \<noteq> Leaf \<and> z = ptr s \<or> l \<noteq> Leaf \<and> z = ptr l)"
      using z v p ptr_in [of s] ptr_in [of l] by auto
    ultimately show "(z \<noteq> ptr v \<longrightarrow> par ?m z = par m z) \<and> col ?m z = col m z \<and> kid d ?m z = kid d m z"
      by (auto simp: col par kid swing_out)
  qed
  moreover have "rept ?m cs 0 y"
  proof (rule rept_agree [of ?m1])
    show "rept ?m1 cs 0 y" using rept_swing p by blast
    have "z \<noteq> y \<and> \<not> (s \<noteq> Leaf \<and> z = ptr s \<or> l \<noteq> Leaf \<and> z = ptr l)" if "z \<in> addrs cs" for z
      using that yz [of z] out ptr_in [of s] ptr_in [of l] by auto
    then show "agree (addrs cs) ?m1 ?m" by (auto simp: agree_def col par kid)
  qed
  moreover have "rm_root ?m r = ptr (fill cs ?u)"
    using p by (simp add: replaced_def root_swing [of m r cs ?t])
  moreover have "kid L ?m y = ptr l" "kid R ?m y = ptr s" by (simp_all add: replaced_def)
  ultimately show "focus ?m r cs ?u"
    unfolding focus_def fill_rep distinct_fill [of cs ?u] using p y by (auto simp: col par)
  show "keeps (insert y (set (inord (fill cs ?t)))) r m ?m"
    using al ptr_in [of s] ptr_in [of l] by (auto simp: keeps_def agree_def swing_out replaced_def)
qed

theorem rb_replace_correct:
  assumes t: "rb_tree m r (fill cs (Node l c x s))" and y: "node_addr y" "y \<notin> set (inord (fill cs (Node l c x s)))"
  shows "\<exists>m'. rb_replace_node x y r m = Some m' \<and> rb_tree m' r (fill cs (Node l c y s)) \<and>
    keeps (insert y (set (inord (fill cs (Node l c x s))))) r m m'"
proof -
  obtain k where f: "focus m r cs (Node l c x s)" and b: "rb (fill cs (Node l c x s)) k" "black (fill cs (Node l c x s))"
    using t by (auto simp: rb_tree_def focus_def)
  obtain n where n: "rbc cs n" "rb (Node l c x s) n" "black (Node l c x s) \<or> black_top cs" by (rule rbc_split [OF b])
  have "rb (Node l c y s) n" "black (Node l c y s) \<or> black_top cs" using n(2,3) by (cases c; simp)+
  then obtain k' where "rb (fill cs (Node l c y s)) k'" "black (fill cs (Node l c y s))" by (rule rbc_fill_black [OF n(1)])
  moreover have "focus (replaced cs r x y l s m) r [] (fill cs (Node l c y s))"
    using replaced_focus(1) [OF f y] by (simp add: focus_def)
  moreover have "y \<noteq> x" "y \<noteq> 0" using y by auto
  ultimately show ?thesis using replace_code [OF f] replaced_focus(2) [OF f y] by (auto simp: rb_tree_def)
qed

section \<open>Augmented trees\<close>

text \<open>The callback gets a node and the data of the caller, which it may change.\<close>

partial_function (option) rb_augment_path :: "u64 \<Rightarrow> (u64 \<Rightarrow> 'd \<Rightarrow> 'd) \<Rightarrow> rb_mem \<Rightarrow> 'd \<Rightarrow> 'd option" where
  "rb_augment_path node func m data = do {
     parent \<leftarrow> rb_parent node m;
     if parent = 0 then Some (func node data) else do {
       pl \<leftarrow> rd_left parent m;
       pr \<leftarrow> rd_right parent m;
       let data = func node data;
           data = (if node = pl \<and> pr \<noteq> 0 then func pr data else if pl \<noteq> 0 then func pl data else data)
       in rb_augment_path parent func m data }}"

definition rb_augment_insert :: "u64 \<Rightarrow> (u64 \<Rightarrow> 'd \<Rightarrow> 'd) \<Rightarrow> rb_mem \<Rightarrow> 'd \<Rightarrow> 'd option" where
  "rb_augment_insert node func m data = do {
     l \<leftarrow> rd_left node m;
     r \<leftarrow> rd_right node m;
     rb_augment_path (if l \<noteq> 0 then l else if r \<noteq> 0 then r else node) func m data }"

definition rb_augment_erase_begin :: "u64 \<Rightarrow> rb_mem \<Rightarrow> u64 option" where
  "rb_augment_erase_begin node m = do {
     l \<leftarrow> rd_left node m;
     r \<leftarrow> rd_right node m;
     if r = 0 \<and> l = 0 then rb_parent node m
     else if r = 0 then Some l
     else if l = 0 then Some r
     else do {
       deepest \<leftarrow> rb_next node m;
       dr \<leftarrow> rd_right deepest m;
       dp \<leftarrow> rb_parent deepest m;
       Some (if dr \<noteq> 0 then dr else if dp \<noteq> node then dp else deepest) }}"

definition rb_augment_erase_end :: "u64 \<Rightarrow> (u64 \<Rightarrow> 'd \<Rightarrow> 'd) \<Rightarrow> rb_mem \<Rightarrow> 'd \<Rightarrow> 'd option" where
  "rb_augment_erase_end node func m data = (if node \<noteq> 0 then rb_augment_path node func m data else Some data)"

text \<open>The calls of the callback on the way from a node \<open>x\<close> to the root.  A node that is an only left
  child is visited twice.\<close>

fun visits :: "u64 \<Rightarrow> rb_path \<Rightarrow> u64 list" where
  "visits x [] = [x]"
| "visits x ((d, c, y, s) # cs) = x # (if s \<noteq> Leaf then [ptr s] else if d = L then [x] else []) @ visits y cs"

theorem augment_path_visits:
  "focus m r cs t \<Longrightarrow> t \<noteq> Leaf \<Longrightarrow> rb_augment_path (ptr t) func m data = Some (fold func (visits (ptr t) cs) data)"
proof (induction cs arbitrary: t data)
  case Nil
  then have "ptr t \<noteq> 0" "par m (ptr t) = 0" using focus_rep [OF Nil(1)] by (cases t; auto)+
  then show ?case by (subst rb_augment_path.simps) (simp add: header_ops)
next
  case (Cons f cs)
  obtain d c x s where f: "f = (d, c, x, s)" by (cases f)
  have fx: "focus m r cs (nd d c x t s)" using Cons.prems(1) f by (simp add: focus_up)
  note k = focus_kids [OF fx Cons.prems(2)]
  have r: "rep m t x" "rep m s x" "x \<noteq> 0" using focus_rep [OF fx] by auto
  have p: "ptr t \<noteq> 0" "par m (ptr t) = x" using r(1) Cons.prems(2) by (cases t; auto)+
  have s: "ptr s = 0 \<longleftrightarrow> s = Leaf" using ptr_0 [OF r(2)] .
  have ih: "rb_augment_path x func m data = Some (fold func (visits x cs) data)" for data using Cons.IH [OF fx] by simp
  show ?case
    using p r(3) k(1,2,3) s f ih by (subst rb_augment_path.simps; cases d) (auto simp: header_ops)
qed

end
