(* ===== verification/RbIndex.thy ===== *)
theory RbIndex
  imports RbErase
begin

text \<open>
  The index of the dirty buffers of an inode as a whole: any sequence of insertions
  (\<open>nvfuse_rbnode_insert_bh\<close>) and removals (\<open>rb_erase\<close>) refines a set of buffers with different
  block numbers, in which \<open>nvfuse_rbnode_search\<close> finds a buffer by its number.  The locale
  \<open>keyed_nodes\<close> is the contract of such an index.
\<close>

section \<open>The contract\<close>

datatype 'n node_cmd = Insert 'n | Erase 'n

fun node_spec :: "('n \<Rightarrow> 'k) \<Rightarrow> 'n node_cmd \<Rightarrow> 'n set \<Rightarrow> 'n set" where
  "node_spec key (Insert x) A = (if key x \<in> key ` A then A else insert x A)"
| "node_spec key (Erase x) A = A - {x}"

fun allowed :: "('n \<Rightarrow> bool) \<Rightarrow> 'n node_cmd \<Rightarrow> 'n set \<Rightarrow> bool" where
  "allowed ok (Insert x) A \<longleftrightarrow> ok x \<and> x \<notin> A"
| "allowed ok (Erase x) A \<longleftrightarrow> x \<in> A"

fun all_allowed :: "('n \<Rightarrow> 'k) \<Rightarrow> ('n \<Rightarrow> bool) \<Rightarrow> 'n node_cmd list \<Rightarrow> 'n set \<Rightarrow> bool" where
  "all_allowed key ok [] A \<longleftrightarrow> True"
| "all_allowed key ok (c # cs) A \<longleftrightarrow> allowed ok c A \<and> all_allowed key ok cs (node_spec key c A)"

fun node_exec :: "('n \<Rightarrow> 's \<Rightarrow> (int \<times> 's) option) \<Rightarrow> ('n \<Rightarrow> 's \<Rightarrow> 's option) \<Rightarrow> 'n node_cmd \<Rightarrow> 's \<Rightarrow> 's option" where
  "node_exec ins del (Insert x) s = do { (_, s') \<leftarrow> ins x s; Some s' }"
| "node_exec ins del (Erase x) s = del x s"

fun node_execs :: "('n \<Rightarrow> 's \<Rightarrow> (int \<times> 's) option) \<Rightarrow> ('n \<Rightarrow> 's \<Rightarrow> 's option) \<Rightarrow> 'n node_cmd list \<Rightarrow> 's \<Rightarrow> 's option" where
  "node_execs ins del [] s = Some s"
| "node_execs ins del (c # cs) s = do { s' \<leftarrow> node_exec ins del c s; node_execs ins del cs s' }"

locale keyed_nodes =
  fixes state :: "'s \<Rightarrow> 'n set \<Rightarrow> bool" and key :: "'n \<Rightarrow> 'k" and ok :: "'n \<Rightarrow> bool"
    and ins :: "'n \<Rightarrow> 's \<Rightarrow> (int \<times> 's) option" and del :: "'n \<Rightarrow> 's \<Rightarrow> 's option"
  assumes ins_old: "state s A \<Longrightarrow> ok x \<Longrightarrow> x \<notin> A \<Longrightarrow> key x \<in> key ` A \<Longrightarrow> ins x s = Some (0, s)"
    and ins_new: "state s A \<Longrightarrow> ok x \<Longrightarrow> x \<notin> A \<Longrightarrow> key x \<notin> key ` A \<Longrightarrow>
      \<exists>s'. ins x s = Some (1, s') \<and> state s' (insert x A)"
    and del_old: "state s A \<Longrightarrow> x \<in> A \<Longrightarrow> \<exists>s'. del x s = Some s' \<and> state s' (A - {x})"
begin

lemma exec_refines: "state s A \<Longrightarrow> allowed ok c A \<Longrightarrow> \<exists>s'. node_exec ins del c s = Some s' \<and> state s' (node_spec key c A)"
  using ins_old ins_new del_old by (cases c) fastforce+

lemma execs_refine:
  "state s A \<Longrightarrow> all_allowed key ok cs A \<Longrightarrow> \<exists>s'. node_execs ins del cs s = Some s' \<and> state s' (fold (node_spec key) cs A)"
proof (induction cs arbitrary: s A)
  case (Cons c cs)
  then obtain s' where "node_exec ins del c s = Some s'" "state s' (node_spec key c A)" using exec_refines by fastforce
  then show ?case using Cons.IH [of s'] Cons.prems by auto
qed auto

end

section \<open>The tree provides it\<close>

fun depth :: "rbt \<Rightarrow> nat" where
  "depth Leaf = 0"
| "depth (Node l c x r) = Suc (max (depth l) (depth r))"

lemma rb_depth: "rb t n \<Longrightarrow> depth t \<le> 2 * n + (if black t then 0 else 1)"
  by (induction t n rule: rb.induct) (auto split: if_splits)

lemma rb_size: "rb t n \<Longrightarrow> 2 ^ n \<le> length (inord t) + 1"
proof (induction t n rule: rb.induct)
  case (2 l x r n)
  then obtain k where n: "n = Suc k" by (cases n) auto
  then have "2 ^ k \<le> length (inord l) + 1" "2 ^ k \<le> length (inord r) + 1" using 2 by auto
  then show ?case using n by simp
next
  case (3 l x r n)
  then have "2 ^ n \<le> length (inord l) + 1" by simp
  then show ?case by simp
qed auto

lemma rb_tree_depth:
  assumes "rb_tree m r t"
  shows "2 ^ (depth t div 2) \<le> card (set (inord t)) + 1"
proof -
  obtain n where "rb t n" "black t" "distinct (inord t)" using assms by (auto simp: rb_tree_def focus_def)
  then have "depth t div 2 \<le> n" "2 ^ n \<le> card (set (inord t)) + 1" using rb_depth rb_size by (fastforce simp: distinct_card)+
  moreover have "(2 :: nat) ^ (depth t div 2) \<le> 2 ^ n" using calculation(1) by (rule power_increasing) simp
  ultimately show ?thesis by linarith
qed

lemma index_erase:
  assumes i: "index_at bno m r A" and x: "x \<in> A"
  shows "\<exists>m'. rb_erase x r m = Some m' \<and> index_at bno m' r (A - {x}) \<and> keeps A r m m'"
proof -
  obtain t where t: "rb_tree m r t" "key_sorted bno (inord t)" "set (inord t) = A" and s: "small_keys bno A"
    using i by (auto simp: index_at_def)
  obtain m' t' where m': "rb_erase x r m = Some m'" "rb_tree m' r t'" "inord t' = remove1 x (inord t)" "keeps A r m m'"
    using rb_erase_correct [OF t(1)] x t(3) by metis
  obtain xs ys where xy: "inord t = xs @ x # ys" "x \<notin> set xs" using split_list_first x t(3) by metis
  have "distinct (inord t)" using t(1) by (simp add: rb_tree_def focus_def)
  then have "inord t' = xs @ ys" "set (inord t') = A - {x}"
    using m'(3) xy t(3) by (auto simp: remove1_append set_remove1_eq)
  moreover have "key_sorted bno (xs @ ys)" using t(2) xy(1) by (auto simp: key_sorted_append key_sorted_Cons)
  ultimately show ?thesis using m' s by (auto simp: index_at_def small_keys_def)
qed

definition index_node :: "(u64 \<Rightarrow> u64) \<Rightarrow> u64 set \<Rightarrow> u64 \<Rightarrow> bool" where
  "index_node bno U x \<longleftrightarrow> node_addr x \<and> bno x < 2 ^ 63 \<and> x \<in> U"

definition index_state :: "(u64 \<Rightarrow> u64) \<Rightarrow> u64 \<Rightarrow> u64 set \<Rightarrow> rb_mem \<Rightarrow> rb_mem \<Rightarrow> u64 set \<Rightarrow> bool" where
  "index_state bno r U m0 m A \<longleftrightarrow> index_at bno m r A \<and> A \<subseteq> U \<and> keeps U r m0 m"

interpretation dirty: keyed_nodes "index_state bno r U m0" bno "index_node bno U" "rbnode_insert_bh bno r" "\<lambda>x. rb_erase x r"
  for bno r U m0
proof
  fix m A x
  assume i: "index_state bno r U m0 m A"
  {
    assume x: "index_node bno U x" "x \<notin> A"
    note c = rbnode_insert_correct [of bno m r A x]
    have p: "index_at bno m r A" "node_addr x" "bno x < 2 ^ 63" "insert x A \<subseteq> U" "keeps U r m0 m"
      using i x by (auto simp: index_state_def index_node_def)
    show "bno x \<in> bno ` A \<Longrightarrow> rbnode_insert_bh bno r x m = Some (0, m)" using c p x by simp
    assume "bno x \<notin> bno ` A"
    then obtain m' where m': "rbnode_insert_bh bno r x m = Some (1, m')" "index_at bno m' r (insert x A)" "keeps (insert x A) r m m'"
      using c p x by auto
    have "keeps U r m0 m'" using keeps_trans [OF p(5) keeps_mono [OF m'(3) p(4)]] .
    then show "\<exists>m'. rbnode_insert_bh bno r x m = Some (1, m') \<and> index_state bno r U m0 m' (insert x A)"
      using m' p(4) by (auto simp: index_state_def)
  }
  assume x: "x \<in> A"
  have p: "index_at bno m r A" "A \<subseteq> U" "keeps U r m0 m" using i by (auto simp: index_state_def)
  obtain m' where m': "rb_erase x r m = Some m'" "index_at bno m' r (A - {x})" "keeps A r m m'" using index_erase [OF p(1) x] by blast
  have "keeps U r m0 m'" using keeps_trans [OF p(3) keeps_mono [OF m'(3) p(2)]] .
  then show "\<exists>m'. rb_erase x r m = Some m' \<and> index_state bno r U m0 m' (A - {x})" using m' p(2) by (auto simp: index_state_def)
qed

lemma empty_tree_index: "rm_root m r = 0 \<Longrightarrow> index_state bno r U m m {}"
  by (auto simp: index_state_def index_at_def rb_tree_def focus_def key_sorted_def small_keys_def intro!: exI [of _ Leaf])

text \<open>C28: starting from an empty root, any sequence of insertions of new nodes and removals of
  present ones runs to its end without a null access, on nodes at aligned addresses with block
  numbers below \<open>2 ^ 63\<close>.  The result is a red-black tree, ordered by block number, of exactly the
  nodes that the same sequence leaves in a set (an insertion of a block number that is present has
  no effect); its depth is at most logarithmic, a search finds the node of a block number or
  returns null, and the memory of other nodes and roots is unchanged.\<close>

theorem dirty_index_refines_set:
  assumes "rm_root m r = 0" "all_allowed bno (index_node bno U) cs {}"
  shows "\<exists>m' t. node_execs (rbnode_insert_bh bno r) (\<lambda>x. rb_erase x r) cs m = Some m' \<and>
    rb_tree m' r t \<and> set (inord t) = fold (node_spec bno) cs {} \<and> key_sorted bno (inord t) \<and>
    2 ^ (depth t div 2) \<le> card (set (inord t)) + 1 \<and> keeps U r m m' \<and>
    (\<forall>b < 2 ^ 63. \<exists>y. rbnode_search bno r b m' = Some y \<and>
       (if b \<in> bno ` set (inord t) then y \<in> set (inord t) \<and> bno y = b else y = 0))"
proof -
  obtain m' where m': "node_execs (rbnode_insert_bh bno r) (\<lambda>x. rb_erase x r) cs m = Some m'"
    "index_state bno r U m m' (fold (node_spec bno) cs {})"
    using dirty.execs_refine [OF empty_tree_index [OF assms(1)] assms(2)] by blast
  obtain t where t: "rb_tree m' r t" "key_sorted bno (inord t)" "set (inord t) = fold (node_spec bno) cs {}"
    and s: "small_keys bno (set (inord t))" and k: "keeps U r m m'"
    using m'(2) by (auto simp: index_state_def index_at_def)
  have p: "rep m' t 0" "rm_root m' r = ptr t" using t(1) by (auto simp: rb_tree_def focus_def)
  have "\<forall>b < 2 ^ 63. \<exists>y. rbnode_search bno r b m' = Some y \<and>
      (if b \<in> bno ` set (inord t) then y \<in> set (inord t) \<and> bno y = b else y = 0)"
    using rbnode_find_correct [OF p(1) t(2) s] unfolding rbnode_search_def p(2) by blast
  then show ?thesis using m'(1) t k rb_tree_depth [OF t(1)] by blast
qed

theorem dirty_index_refines_set_witness:
  "\<exists>m'. node_execs (rbnode_insert_bh (\<lambda>x. x div 16) 8) (\<lambda>x. rb_erase x 8)
      [Insert 16, Insert 64, Insert 32, Insert 36, Erase 64] \<lparr>rm_parent_color = \<lambda>_. 0, rm_right = \<lambda>_. 0, rm_left = \<lambda>_. 0, rm_root = \<lambda>_. 0\<rparr> = Some m'
    \<and> (\<exists>y. rbnode_search (\<lambda>x. x div 16) 8 2 m' = Some y \<and> y = 32)"
proof -
  let ?m = "\<lparr>rm_parent_color = \<lambda>_. 0, rm_right = \<lambda>_. 0, rm_left = \<lambda>_. 0, rm_root = \<lambda>_. 0\<rparr>"
  let ?cs = "[Insert 16, Insert 64, Insert 32, Insert 36, Erase 64] :: u64 node_cmd list"
  have a: "all_allowed (\<lambda>x. x div 16) (index_node (\<lambda>x. x div 16) UNIV) ?cs {}"
    by (simp add: index_node_def node_addr_def aligned_def)
  have r: "fold (node_spec (\<lambda>x. x div 16)) ?cs {} = {16, 32 :: u64}" by auto
  obtain m' t where m': "node_execs (rbnode_insert_bh (\<lambda>x. x div 16) 8) (\<lambda>x. rb_erase x 8) ?cs ?m = Some m'"
    "set (inord t) = {16, 32}" "\<forall>b < 2 ^ 63. \<exists>y. rbnode_search (\<lambda>x. x div 16) 8 b m' = Some y \<and>
      (if b \<in> (\<lambda>x. x div 16) ` set (inord t) then y \<in> set (inord t) \<and> y div 16 = b else y = 0)"
    using dirty_index_refines_set [OF _ a, of ?m 8] unfolding r by auto
  have "\<exists>y. rbnode_search (\<lambda>x. x div 16) 8 2 m' = Some y \<and> y = 32"
    using m'(3) [rule_format, of 2] m'(2) by auto
  then show ?thesis using m'(1) by blast
qed

end
