(* ===== verification/Mount.thy ===== *)
theory Mount
  imports Alloc
begin

text \<open>
  Mounting and unmounting (\<open>nvfuse_mount\<close>, \<open>nvfuse_umount\<close>, \<open>nvfuse_scan_superblock\<close>,
  \<open>nvfuse_sync_superblock\<close>), the open file table and the list of block groups of
  \<open>nvfuse_core.c\<close>, for the primary process of the standalone model.

  The state is the device and what a mount builds in memory.  Memory pools and caches
  are obtained without failure.  Two steps that work through the buffer cache are
  arguments: \<open>create_root\<close>, the B+tree index of the root directory that the first mount
  creates (\<open>nvfuse_read_inode\<close>, \<open>nvfuse_create_bptree\<close>, \<open>nvfuse_release_inode\<close> and the
  forced flush), and \<open>flush\<close>, the forced flush of the unmount.  \<open>None\<close> is an abort or a
  failed assertion.
\<close>

section \<open>Open files\<close>

definition START_OPEN_FILE :: nat where "START_OPEN_FILE = 3"
definition MAX_OPEN_FILE :: nat where "MAX_OPEN_FILE = 16"

record file_table =
  ft_ino :: nat
  ft_size :: int
  ft_used :: bool
  ft_rwoffset :: int
  ft_flags :: int

definition zero_ft :: file_table where
  "zero_ft = \<lparr>ft_ino = 0, ft_size = 0, ft_used = False, ft_rwoffset = 0, ft_flags = 0\<rparr>"

definition init_file_table :: "file_table list" where
  "init_file_table = replicate MAX_OPEN_FILE zero_ft"

fun allocate_loop :: "nat list \<Rightarrow> file_table list \<Rightarrow> int \<times> file_table list" where
  "allocate_loop [] fts = (-1, fts)"
| "allocate_loop (i # is) fts =
    (if \<not> ft_used (fts ! i) then (int i, fts[i := (fts ! i)\<lparr>ft_used := True\<rparr>]) else allocate_loop is fts)"

definition allocate_open_file_table :: "file_table list \<Rightarrow> int \<times> file_table list" where
  "allocate_open_file_table fts = allocate_loop [START_OPEN_FILE..<MAX_OPEN_FILE] fts"

definition get_file_table :: "file_table list \<Rightarrow> nat \<Rightarrow> file_table option" where
  "get_file_table fts fid = (if fid < length fts then Some (fts ! fid) else None)"

definition close_file_table :: "nat \<Rightarrow> file_table list \<Rightarrow> file_table list" where
  "close_file_table fid fts =
     fts[fid := (fts ! fid)\<lparr>ft_ino := 0, ft_size := 0, ft_used := False, ft_rwoffset := 0, ft_flags := 0\<rparr>]"

section \<open>Block groups of a process\<close>

text \<open>The list \<open>sb_bg_list\<close> with its two search pointers; a pointer is the position of its
  node, and \<open>None\<close> is the list head.\<close>

record bg_list =
  bgl :: "nat list"
  bgl_count :: int
  bgl_inode :: "nat option"
  bgl_data :: "nat option"

definition empty_bgl :: bg_list where
  "empty_bgl = \<lparr>bgl = [], bgl_count = 0, bgl_inode = None, bgl_data = None\<rparr>"

definition add_bg :: "nat \<Rightarrow> bg_list \<Rightarrow> bg_list" where
  "add_bg bg_id l =
     (let l1 = l\<lparr>bgl := bgl l @ [bg_id], bgl_count := bgl_count l + 1\<rparr> in
      if bgl_count l1 = 1 then l1\<lparr>bgl_inode := Some 0, bgl_data := Some 0\<rparr> else l1)"

abbreviation search_ptr :: "bool \<Rightarrow> bg_list \<Rightarrow> nat option" where
  "search_ptr is_inode l \<equiv> (if is_inode then bgl_inode l else bgl_data l)"

definition set_ptr :: "bool \<Rightarrow> nat \<Rightarrow> bg_list \<Rightarrow> bg_list" where
  "set_ptr is_inode p l = (if is_inode then l\<lparr>bgl_inode := Some p\<rparr> else l\<lparr>bgl_data := Some p\<rparr>)"

text \<open>The branches of a process that is not the primary one; the primary process uses
  group 0 only.\<close>

definition get_next_bg_id :: "bool \<Rightarrow> bool \<Rightarrow> bg_list \<Rightarrow> (nat \<times> bg_list) option" where
  "get_next_bg_id primary is_inode l =
     (if primary then Some (0, l)
      else let p = (case search_ptr is_inode l of
                      None \<Rightarrow> 0
                    | Some p \<Rightarrow> if p + 1 = length (bgl l) then 0 else p + 1)
           in if length (bgl l) \<le> p then None
              else do { assert_opt (bgl l ! p \<noteq> 0); Some (bgl l ! p, set_ptr is_inode p l) })"

definition get_curr_bg_id :: "bool \<Rightarrow> bool \<Rightarrow> bg_list \<Rightarrow> nat option" where
  "get_curr_bg_id primary is_inode l =
     (if primary then Some 0
      else do {
        p \<leftarrow> search_ptr is_inode l;
        assert_opt (bgl l ! p \<noteq> 0);
        Some (bgl l ! p) })"

text \<open>The search of \<open>nvfuse_move_curr_bg_id\<close> goes round the list until it meets the group;
  \<open>None\<close> after \<open>fuel\<close> steps without it.\<close>

fun move_loop :: "nat \<Rightarrow> nat \<Rightarrow> nat \<Rightarrow> nat list \<Rightarrow> nat option" where
  "move_loop 0 bg_id p l = None"
| "move_loop (Suc fuel) bg_id p l =
    (if bg_id = 0 then None
     else if l ! p = bg_id then Some p
     else move_loop fuel bg_id ((p + 1) mod length l) l)"

definition move_curr_bg_id :: "nat \<Rightarrow> bool \<Rightarrow> nat \<Rightarrow> bool \<Rightarrow> bg_list \<Rightarrow> bg_list option" where
  "move_curr_bg_id fuel primary bg_id is_inode l = do {
     assert_opt (\<not> primary);
     p \<leftarrow> search_ptr is_inode l;
     q \<leftarrow> move_loop fuel bg_id p (bgl l);
     Some (set_ptr is_inode q l) }"

section \<open>Mount and unmount\<close>

definition FS_STATE_INITIALIZED :: nat where "FS_STATE_INITIALIZED = 1"
definition FS_STATE_UMOUNTED :: nat where "FS_STATE_UMOUNTED = 2"
definition FS_STATE_MOUNTED :: nat where "FS_STATE_MOUNTED = 3"
definition FS_STATE_CRASHED :: nat where "FS_STATE_CRASHED = 4"

lemmas fs_states = FS_STATE_FORMATTED_def FS_STATE_INITIALIZED_def FS_STATE_UMOUNTED_def
  FS_STATE_MOUNTED_def FS_STATE_CRASHED_def

record mount_state =
  ms_disk :: disk
  ms_sb :: superblock
  ms_bds :: "bg_descriptor list"
  ms_bgs :: bg_list
  ms_files :: "file_table list"
  ms_root_ino :: nat
  ms_cwd_ino :: nat

definition scan_superblock :: "disk \<Rightarrow> superblock option" where
  "scan_superblock d = (case d 0 of
     CSuper sb \<Rightarrow> if sb_signature sb = NVFUSE_SB_SIGNATURE then Some sb else None
   | _ \<Rightarrow> None)"

definition sync_superblock :: "superblock \<Rightarrow> disk \<Rightarrow> disk" where
  "sync_superblock sb d = d(0 := CSuper sb)"

fun load_bds :: "nat \<Rightarrow> nat list \<Rightarrow> disk \<Rightarrow> bg_descriptor list option" where
  "load_bds bpg [] d = Some []"
| "load_bds bpg (i # is) d = do {
     bd \<leftarrow> read_bd (d (NVFUSE_BD_OFFSET + i * bpg));
     assert_opt (bd_id bd = i);
     bds \<leftarrow> load_bds bpg is d;
     Some (bd # bds) }"

definition set_state :: "nat \<Rightarrow> mount_state \<Rightarrow> mount_state" where
  "set_state st s = s\<lparr>ms_sb := (ms_sb s)\<lparr>sb_state := st\<rparr>\<rparr>"

definition sync_sb :: "mount_state \<Rightarrow> mount_state" where
  "sync_sb s = s\<lparr>ms_disk := sync_superblock (ms_sb s) (ms_disk s)\<rparr>"

text \<open>The part of the mount that loads the metadata, for a superblock that was accepted.\<close>

definition load_meta :: "mount_state \<Rightarrow> superblock \<Rightarrow> mount_state option" where
  "load_meta s sb = do {
     assert_opt (sb_bg_num sb \<noteq> 0);
     bds \<leftarrow> load_bds (sb_no_of_blocks_per_bg sb) [0..<sb_bg_num sb] (ms_disk s);
     Some (s\<lparr>ms_sb := sb, ms_bds := bds, ms_bgs := fold add_bg [0..<sb_bg_num sb] empty_bgl,
             ms_files := init_file_table, ms_root_ino := sb_root_ino sb, ms_cwd_ino := sb_root_ino sb\<rparr>) }"

definition nvfuse_mount :: "(mount_state \<Rightarrow> mount_state option) \<Rightarrow> mount_state \<Rightarrow> (int \<times> mount_state) option" where
  "nvfuse_mount create_root s = do {
     sb \<leftarrow> scan_superblock (ms_disk s);
     if sb_state sb = FS_STATE_MOUNTED then
       Some (-1, sync_sb (set_state FS_STATE_CRASHED (s\<lparr>ms_sb := sb\<rparr>)))
     else if sb_state sb = FS_STATE_CRASHED then Some (-1, s\<lparr>ms_sb := sb\<rparr>)
     else do {
       s1 \<leftarrow> load_meta s sb;
       s2 \<leftarrow> (if sb_state (ms_sb s1) = FS_STATE_FORMATTED then do {
                s' \<leftarrow> create_root s1;
                Some (set_state FS_STATE_INITIALIZED s') }
              else Some s1);
       assert_opt (sb_state (ms_sb s2) = FS_STATE_INITIALIZED);
       Some (0, sync_sb (set_state FS_STATE_MOUNTED s2)) } }"

definition nvfuse_umount :: "(mount_state \<Rightarrow> mount_state option) \<Rightarrow> mount_state \<Rightarrow> (int \<times> mount_state) option" where
  "nvfuse_umount flush s =
     (if sb_state (ms_sb s) \<noteq> FS_STATE_MOUNTED then Some (-1, s)
      else do {
        s1 \<leftarrow> flush s;
        Some (0, sync_sb (set_state FS_STATE_UMOUNTED s1)) })"

section \<open>Open files: lemmas\<close>

lemma allocate_loop_spec:
  assumes "distinct is" "\<forall>i\<in>set is. i < length fts"
  shows "(\<forall>i\<in>set is. ft_used (fts ! i)) \<and> allocate_loop is fts = (-1, fts)
    \<or> (\<exists>i\<in>set is. \<not> ft_used (fts ! i) \<and> allocate_loop is fts = (int i, fts[i := (fts ! i)\<lparr>ft_used := True\<rparr>])
        \<and> (\<forall>j\<in>set (takeWhile (\<lambda>j. j \<noteq> i) is). ft_used (fts ! j)))"
  using assms by (induction "is") auto

section \<open>Block groups: lemmas\<close>

lemma add_bgs:
  "fold add_bg [0..<n] empty_bgl = \<lparr>bgl = [0..<n], bgl_count = int n,
     bgl_inode = (if n = 0 then None else Some 0), bgl_data = (if n = 0 then None else Some 0)\<rparr>"
  by (induction n) (simp_all add: empty_bgl_def add_bg_def Let_def)

lemma move_loop_spec:
  assumes "p < length l" "k < length l" "l ! ((p + k) mod length l) = bg" "bg \<noteq> 0"
    "\<forall>j < k. l ! ((p + j) mod length l) \<noteq> bg" "k < fuel"
  shows "move_loop fuel bg p l = Some ((p + k) mod length l)"
  using assms
proof (induction k arbitrary: p fuel)
  case 0
  then show ?case by (cases fuel) simp_all
next
  case (Suc k)
  let ?q = "(p + 1) mod length l"
  have m: "(?q + j) mod length l = (p + Suc j) mod length l" for j by (simp add: mod_simps)
  have "l ! p \<noteq> bg" using Suc.prems(5) [rule_format, of 0] Suc.prems(1) by simp
  moreover have "move_loop (fuel - 1) bg ?q l = Some ((?q + k) mod length l)"
  proof (rule Suc.IH)
    show "\<forall>j < k. l ! ((?q + j) mod length l) \<noteq> bg"
      unfolding m using Suc.prems(5) by (metis Suc_less_eq)
    show "l ! ((?q + k) mod length l) = bg" unfolding m by (rule Suc.prems(3))
    show "?q < length l" using Suc.prems(1) by (intro mod_less_divisor) linarith
  qed (use Suc.prems in auto)
  ultimately show ?case using Suc.prems(4,6) m [of k] by (cases fuel) auto
qed

lemma move_loop_none:
  assumes "bg \<notin> set l" "p < length l"
  shows "move_loop fuel bg p l = None"
  using assms(2)
proof (induction fuel arbitrary: p)
  case (Suc fuel)
  have "l ! p \<noteq> bg" using assms(1) Suc.prems nth_mem by metis
  moreover have "(p + 1) mod length l < length l" using Suc.prems by (intro mod_less_divisor) linarith
  ultimately show ?case using Suc.IH by simp
qed simp

section \<open>Mounting: lemmas\<close>

lemma load_bds_eq:
  assumes "\<And>i. i \<in> set is \<Longrightarrow> read_bd (d (NVFUSE_BD_OFFSET + i * bpg)) = Some (f i) \<and> bd_id (f i) = i"
  shows "load_bds bpg is d = Some (map f is)"
  using assms by (induction "is") auto

lemma set_state_simps [simp]:
  "ms_disk (set_state st s) = ms_disk s" "sb_state (ms_sb (set_state st s)) = st"
  "sb_signature (ms_sb (set_state st s)) = sb_signature (ms_sb s)"
  "ms_sb (sync_sb s) = ms_sb s" "ms_disk (sync_sb s) 0 = CSuper (ms_sb s)"
  by (simp_all add: set_state_def sync_sb_def sync_superblock_def)

lemma load_meta_simps:
  assumes "load_meta s sb = Some s1"
  shows "ms_sb s1 = sb" "ms_disk s1 = ms_disk s"
  using assms by (auto simp: load_meta_def assert_opt_def split: Option.bind_splits if_splits)

text \<open>What the parameters of the lifecycle have to keep: the state field and the signature
  of the superblock in memory, and the superblock on the device.\<close>

definition keeps_super :: "(mount_state \<Rightarrow> mount_state option) \<Rightarrow> bool" where
  "keeps_super f \<longleftrightarrow> (\<forall>s s'. f s = Some s' \<longrightarrow> ms_disk s' 0 = ms_disk s 0
     \<and> sb_state (ms_sb s') = sb_state (ms_sb s) \<and> sb_signature (ms_sb s') = sb_signature (ms_sb s))"

text \<open>Superblock states of a device, as a mount finds them.\<close>

definition super_state :: "disk \<Rightarrow> nat option" where
  "super_state d = map_option sb_state (scan_superblock d)"

lemma super_state_sync:
  assumes "sb_signature (ms_sb s) = NVFUSE_SB_SIGNATURE"
  shows "super_state (ms_disk (sync_sb s)) = Some (sb_state (ms_sb s))"
  using assms by (simp add: super_state_def scan_superblock_def)

lemma scan_signature: "scan_superblock d = Some sb \<Longrightarrow> sb_signature sb = NVFUSE_SB_SIGNATURE"
  by (auto simp: scan_superblock_def split: cluster.splits if_splits)

lemma mount_cases:
  assumes m: "nvfuse_mount create_root s = Some (r, s')" and k: "keeps_super create_root"
  obtains (fail) "r = -1" "super_state (ms_disk s) \<in> {Some FS_STATE_MOUNTED, Some FS_STATE_CRASHED}"
      "super_state (ms_disk s') = Some FS_STATE_CRASHED"
  | (ok) "r = 0" "super_state (ms_disk s) \<in> {Some FS_STATE_FORMATTED, Some FS_STATE_INITIALIZED}"
      "super_state (ms_disk s') = Some FS_STATE_MOUNTED" "sb_state (ms_sb s') = FS_STATE_MOUNTED"
      "sb_signature (ms_sb s') = NVFUSE_SB_SIGNATURE"
proof -
  obtain sb where sb: "scan_superblock (ms_disk s) = Some sb"
    using m by (auto simp: nvfuse_mount_def split: Option.bind_splits)
  note sig = scan_signature [OF sb]
  have st: "super_state (ms_disk s) = Some (sb_state sb)" by (simp add: super_state_def sb)
  consider (mounted) "sb_state sb = FS_STATE_MOUNTED" | (crashed) "sb_state sb = FS_STATE_CRASHED"
    | (other) "sb_state sb \<noteq> FS_STATE_MOUNTED" "sb_state sb \<noteq> FS_STATE_CRASHED" by blast
  then show thesis
  proof cases
    case mounted
    then have "r = -1" "s' = sync_sb (set_state FS_STATE_CRASHED (s\<lparr>ms_sb := sb\<rparr>))"
      using m sb by (simp_all add: nvfuse_mount_def)
    then show thesis using fail st mounted sig super_state_sync [of "set_state FS_STATE_CRASHED (s\<lparr>ms_sb := sb\<rparr>)"] by simp
  next
    case crashed
    then have "r = -1" "ms_disk s' = ms_disk s" using m sb by (auto simp: nvfuse_mount_def fs_states)
    then show thesis using fail st crashed by simp
  next
    case other
    then obtain s1 s2 where s: "load_meta s sb = Some s1"
      "(if sb_state (ms_sb s1) = FS_STATE_FORMATTED then do {
          t \<leftarrow> create_root s1; Some (set_state FS_STATE_INITIALIZED t) } else Some s1) = Some s2"
      "sb_state (ms_sb s2) = FS_STATE_INITIALIZED" "r = 0" "s' = sync_sb (set_state FS_STATE_MOUNTED s2)"
      using m sb by (auto simp: nvfuse_mount_def assert_opt_def split: Option.bind_splits if_splits)
    note lm = load_meta_simps [OF s(1)]
    have "sb_signature (ms_sb s2) = NVFUSE_SB_SIGNATURE \<and> sb_state sb \<in> {FS_STATE_FORMATTED, FS_STATE_INITIALIZED}"
      using s(2,3) lm sig k unfolding keeps_super_def by (auto split: if_splits Option.bind_splits)
    then show thesis using ok [OF s(4)] st s(5) super_state_sync [of "set_state FS_STATE_MOUNTED s2"] by auto
  qed
qed

lemma umount_cases:
  assumes "nvfuse_umount flush s = Some (r, s')" "keeps_super flush" "sb_state (ms_sb s) = FS_STATE_MOUNTED"
    "sb_signature (ms_sb s) = NVFUSE_SB_SIGNATURE"
  shows "r = 0" "super_state (ms_disk s') = Some FS_STATE_UMOUNTED"
proof -
  obtain s1 where s1: "flush s = Some s1" "r = 0" "s' = sync_sb (set_state FS_STATE_UMOUNTED s1)"
    using assms(1,3) by (auto simp: nvfuse_umount_def split: Option.bind_splits)
  then show "r = 0" by simp
  show "super_state (ms_disk s') = Some FS_STATE_UMOUNTED"
    using s1 assms(2,4) super_state_sync [of "set_state FS_STATE_UMOUNTED s1"] unfolding keeps_super_def by simp
qed

section \<open>The life of a device\<close>

text \<open>A device after formatting: mounts, any work of the mounted file system, unmounts,
  and the loss of the process without an unmount.  The number counts the mounts that
  returned 0.\<close>

inductive life :: "(mount_state \<Rightarrow> mount_state option) \<Rightarrow> (mount_state \<Rightarrow> mount_state option)
    \<Rightarrow> (mount_state \<Rightarrow> mount_state option) \<Rightarrow> disk \<Rightarrow> mount_state option \<Rightarrow> nat \<Rightarrow> bool"
  for create_root flush work where
  format: "nvfuse_format now num_sectors d = Some d' \<Longrightarrow> life create_root flush work d' None 0"
| mount_ok: "life create_root flush work d None k \<Longrightarrow> ms_disk s = d \<Longrightarrow> nvfuse_mount create_root s = Some (0, s')
    \<Longrightarrow> life create_root flush work (ms_disk s') (Some s') (k + 1)"
| mount_fail: "life create_root flush work d None k \<Longrightarrow> ms_disk s = d \<Longrightarrow> nvfuse_mount create_root s = Some (r, s')
    \<Longrightarrow> r \<noteq> 0 \<Longrightarrow> life create_root flush work (ms_disk s') None k"
| work: "life create_root flush work d (Some s) k \<Longrightarrow> work s = Some s' \<Longrightarrow> life create_root flush work (ms_disk s') (Some s') k"
| umount: "life create_root flush work d (Some s) k \<Longrightarrow> nvfuse_umount flush s = Some (r, s')
    \<Longrightarrow> life create_root flush work (ms_disk s') None k"
| crash: "life create_root flush work d (Some s) k \<Longrightarrow> life create_root flush work d None k"

inductive_cases life_mounted: "life create_root flush work d (Some s) k"

lemma format_state:
  assumes "nvfuse_format now num_sectors d = Some d'"
  shows "super_state d' = Some FS_STATE_FORMATTED"
proof -
  obtain sb where "d' 0 = CSuper sb" "sb_signature sb = NVFUSE_SB_SIGNATURE" "sb_state sb = FS_STATE_FORMATTED"
    using assms by (auto simp: nvfuse_format_def Let_def assert_opt_def split: Option.bind_splits if_splits)
  then show ?thesis by (simp add: super_state_def scan_superblock_def)
qed

lemma life_inv:
  assumes "life create_root flush work d m k" "keeps_super create_root" "keeps_super flush" "keeps_super work"
  shows "case m of
      None \<Rightarrow> k = 0 \<and> super_state d = Some FS_STATE_FORMATTED
        \<or> k = 1 \<and> super_state d \<in> {Some FS_STATE_MOUNTED, Some FS_STATE_UMOUNTED, Some FS_STATE_CRASHED}
    | Some s \<Rightarrow> k = 1 \<and> ms_disk s = d \<and> super_state d = Some FS_STATE_MOUNTED
        \<and> sb_state (ms_sb s) = FS_STATE_MOUNTED \<and> sb_signature (ms_sb s) = NVFUSE_SB_SIGNATURE"
  using assms(1)
proof induction
  case (format now num_sectors d d')
  then show ?case using format_state by simp
next
  case (mount_ok d k s s')
  from mount_ok(3) assms(2) show ?case
  proof (cases rule: mount_cases)
    case ok
    with mount_ok.IH mount_ok(2) show ?thesis by (auto simp: fs_states)
  qed simp
next
  case (mount_fail d k s r s')
  from mount_fail(3) assms(2) show ?case
  proof (cases rule: mount_cases)
    case fail
    with mount_fail.IH mount_fail(2) show ?thesis by (auto simp: fs_states)
  qed (use mount_fail(4) in simp)
next
  case (work d s k s')
  have "ms_disk s' 0 = ms_disk s 0" "sb_state (ms_sb s') = sb_state (ms_sb s)" "sb_signature (ms_sb s') = sb_signature (ms_sb s)"
    using work(2) assms(4) unfolding keeps_super_def by blast+
  then show ?case using work(3) by (simp add: super_state_def scan_superblock_def)
next
  case (umount d s k r s')
  then show ?case using umount_cases [OF umount(2) assms(3)] by simp
next
  case (crash d s k)
  then show ?case by simp
qed

section \<open>A mounted file system is ready for allocation\<close>

text \<open>The state the allocator works on, as the mounted device holds it.\<close>

definition loaded_fs :: "mount_state \<Rightarrow> fs" where
  "loaded_fs s = \<lparr>fs_bds = ms_bds s,
     fs_ibm = map (\<lambda>b. the (ibm_at (ms_disk s) b)) [0..<sb_bg_num (ms_sb s)],
     fs_dbm = map (\<lambda>b. the (dbm_at (ms_disk s) b)) [0..<sb_bg_num (ms_sb s)],
     fs_itable = (\<lambda>ino. case ms_disk s (bd_itable_start (ms_bds s ! (ino div sb_no_of_inodes_per_bg (ms_sb s)))
         + ino mod sb_no_of_inodes_per_bg (ms_sb s)) of CInode i \<Rightarrow> i | _ \<Rightarrow> zero_inode),
     fs_sb = ms_sb s, fs_asb_free_inodes = 0, fs_asb_free_blocks = 0, fs_last_ino = 0, fs_last_bgid = 0,
     fs_last_bgid_ino = 0, fs_curr_bg = 0, fs_primary = True\<rparr>"

lemma alloc_inv_cong:
  assumes "alloc_inv s" "fs_bds s' = fs_bds s" "fs_ibm s' = fs_ibm s" "fs_dbm s' = fs_dbm s" "fs_sb s' = fs_sb s"
  shows "alloc_inv s'"
  using assms by (simp add: alloc_inv_def)

lemma load_formatted:
  assumes "0 < n" "num_sectors div 8 div 32768 = n" "nvfuse_format now num_sectors d0 = Some (ms_disk s)"
  shows "\<exists>s1. load_meta s (formatted_sb n) = Some s1 \<and> alloc_inv (loaded_fs s1)
    \<and> bgl (ms_bgs s1) = [0..<n] \<and> ms_root_ino s1 = ROOT_INO \<and> ms_files s1 = init_file_table"
proof -
  let ?f = "\<lambda>b. if b = 0 then root_bd else fresh_bd b"
  have d: "ms_disk s 1 = CBd root_bd" "ms_disk s 2 = CBitmap root_ibm" "ms_disk s 3 = CBitmap root_dbm"
    "\<And>b. 0 < b \<Longrightarrow> b < n \<Longrightarrow> ms_disk s (b * 32768 + 1) = CBd (fresh_bd b)
        \<and> ms_disk s (b * 32768 + 2) = CBitmap zero_bitmap \<and> ms_disk s (b * 32768 + 3) = CBitmap (fresh_dbm b)"
    using format_eq [OF assms(1,2), of now d0] assms(3) by auto
  have sb: "sb_bg_num (formatted_sb n) = n" "sb_no_of_blocks_per_bg (formatted_sb n) = 32768"
    "sb_root_ino (formatted_sb n) = ROOT_INO" by (simp_all add: formatted_sb_def)
  have bds: "load_bds 32768 [0..<n] (ms_disk s) = Some (map ?f [0..<n])"
  proof (rule load_bds_eq)
    fix i assume "i \<in> set [0..<n]"
    then show "read_bd (ms_disk s (NVFUSE_BD_OFFSET + i * 32768)) = Some (?f i) \<and> bd_id (?f i) = i"
      using d(1) d(4) [of i] root_consistent by (cases "i = 0") (simp_all add: NVFUSE_BD_OFFSET_def bg_consistent_def bd_ok_def)
  qed
  define s1 where "s1 = s\<lparr>ms_sb := formatted_sb n, ms_bds := map ?f [0..<n], ms_bgs := fold add_bg [0..<n] empty_bgl,
      ms_files := init_file_table, ms_root_ino := ROOT_INO, ms_cwd_ino := ROOT_INO\<rparr>"
  have run: "load_meta s (formatted_sb n) = Some s1" using assms(1) bds by (simp add: load_meta_def sb s1_def)
  have bm: "the (ibm_at (ms_disk s) b) = (if b = 0 then root_ibm else zero_bitmap)"
    "the (dbm_at (ms_disk s) b) = (if b = 0 then root_dbm else fresh_dbm b)" if "b < n" for b
    using d(1-3) d(4) [of b] that by (cases "b = 0"; simp add: ibm_at_def dbm_at_def bd_at_def numeral_2_eq_2 add.commute)+
  have "alloc_inv (loaded_fs s1)"
    by (rule alloc_inv_cong [OF formatted_fs_inv [OF assms(1), of now]])
      (use bm in \<open>simp_all add: loaded_fs_def s1_def formatted_fs_def sb cong: map_cong\<close>)
  then show ?thesis using run by (auto simp: s1_def add_bgs)
qed

section \<open>Properties\<close>


text \<open>A device of one block group, formatted and not yet mounted.\<close>

definition blank_mount :: mount_state where
  "blank_mount = \<lparr>ms_disk = the (nvfuse_format 0 262144 (\<lambda>_. CRaw)), ms_sb = zero_sb, ms_bds = [], ms_bgs = empty_bgl,
     ms_files = [], ms_root_ino = 0, ms_cwd_ino = 0\<rparr>"

lemma blank_mount_format: "nvfuse_format 0 262144 (\<lambda>_. CRaw) = Some (ms_disk blank_mount)"
proof -
  obtain d' where "nvfuse_format 0 262144 (\<lambda>_. CRaw) = Some d'" using format_eq [of 1 262144 0 "\<lambda>_. CRaw"] by auto
  then show ?thesis by (simp add: blank_mount_def)
qed


lemma blank_mounts:
  "\<exists>s'. nvfuse_mount Some blank_mount = Some (0, s')"
proof -
  have "scan_superblock (ms_disk blank_mount) = Some (formatted_sb 1)"
    using format_eq [of 1 262144 0 "\<lambda>_. CRaw"] blank_mount_format by (auto simp: scan_superblock_def formatted_sb_def)
  moreover obtain s1 where "load_meta blank_mount (formatted_sb 1) = Some s1"
    using load_formatted [OF _ _ blank_mount_format, of 1] by auto
  moreover from load_meta_simps(1) [OF this] have "sb_state (ms_sb s1) = FS_STATE_FORMATTED" by (simp add: formatted_sb_def)
  ultimately show ?thesis by (simp add: nvfuse_mount_def formatted_sb_def fs_states)
qed

text \<open>Between two formats a device can be mounted successfully at most once.  A mount
  accepts a device in the state formatted only; after the first mount the device is left
  mounted, unmounted or crashed, and in each of these states every further mount either
  returns -1 or fails the assertion that the state is \<open>FS_STATE_INITIALIZED\<close>, also after
  a regular unmount.\<close>

theorem at_most_one_mount:
  assumes "life create_root flush work d m k" "keeps_super create_root" "keeps_super flush" "keeps_super work"
  shows "k \<le> 1 \<and> (k = 1 \<and> m = None \<and> ms_disk s = d \<longrightarrow> (\<nexists>s'. nvfuse_mount create_root s = Some (0, s')))
    \<and> (super_state d = Some FS_STATE_UMOUNTED \<and> ms_disk s = d \<longrightarrow> nvfuse_mount create_root s = None)"
proof -
  note li = life_inv [OF assms]
  have "k \<le> 1" using li by (auto split: option.splits)
  moreover have "\<nexists>s'. nvfuse_mount create_root s = Some (0, s')" if "k = 1" "m = None" "ms_disk s = d"
  proof (rule notI, elim exE)
    fix s' assume "nvfuse_mount create_root s = Some (0, s')"
    then show False using assms(2)
    proof (cases rule: mount_cases)
      case ok
      with li that show False by (auto simp: fs_states)
    qed simp
  qed
  moreover have "nvfuse_mount create_root s = None" if "super_state d = Some FS_STATE_UMOUNTED" "ms_disk s = d"
  proof (rule ccontr)
    assume "nvfuse_mount create_root s \<noteq> None"
    then obtain r s' where "nvfuse_mount create_root s = Some (r, s')" by (metis not_Some_eq surj_pair)
    then show False using assms(2) by (cases rule: mount_cases) (use that in \<open>auto simp: fs_states\<close>)
  qed
  ultimately show ?thesis by blast
qed

theorem at_most_one_mount_witness:
  "\<exists>s s'. nvfuse_mount Some blank_mount = Some (0, s) \<and> nvfuse_umount Some s = Some (0, s')
     \<and> nvfuse_mount Some s' = None"
proof -
  obtain s where s: "nvfuse_mount Some blank_mount = Some (0, s)" using blank_mounts by blast
  have k: "keeps_super Some" by (simp add: keeps_super_def)
  have l0: "life Some Some Some (ms_disk blank_mount) None 0" by (rule life.format [OF blank_mount_format])
  have l1: "life Some Some Some (ms_disk s) (Some s) (0 + 1)" by (rule life.mount_ok [OF l0 refl s])
  have st: "sb_state (ms_sb s) = FS_STATE_MOUNTED" "sb_signature (ms_sb s) = NVFUSE_SB_SIGNATURE"
    using life_inv [OF l1 k k k] by simp_all
  define s' where "s' = sync_sb (set_state FS_STATE_UMOUNTED s)"
  have u: "nvfuse_umount Some s = Some (0, s')" using st by (simp add: nvfuse_umount_def s'_def)
  have l2: "life Some Some Some (ms_disk s') None (0 + 1)" by (rule life.umount [OF l1 u])
  have "super_state (ms_disk s') = Some FS_STATE_UMOUNTED" by (rule umount_cases [OF u k st])
  then have "nvfuse_mount Some s' = None" using at_most_one_mount [OF l2 k k k, of s'] by simp
  with s u show ?thesis by blast
qed

text \<open>\<open>nvfuse_allocate_open_file_table\<close> returns the lowest free descriptor from 3 to 15
  and marks it used, or -1 and no change when all 13 are in use; closing the descriptor
  makes the entry free and empty, and touches no other entry.\<close>

theorem open_file_alloc_close:
  assumes "length fts = MAX_OPEN_FILE"
  shows "(\<forall>i. 3 \<le> i \<and> i < 16 \<longrightarrow> ft_used (fts ! i)) \<and> allocate_open_file_table fts = (-1, fts)
    \<or> (\<exists>i. 3 \<le> i \<and> i < 16 \<and> \<not> ft_used (fts ! i) \<and> (\<forall>j. 3 \<le> j \<and> j < i \<longrightarrow> ft_used (fts ! j))
         \<and> allocate_open_file_table fts = (int i, fts[i := (fts ! i)\<lparr>ft_used := True\<rparr>])
         \<and> close_file_table i (fts[i := (fts ! i)\<lparr>ft_used := True\<rparr>]) = fts[i := zero_ft])"
proof -
  define fds where "fds = [3..<16::nat]"
  have l: "length fts = 16" using assms by (simp add: MAX_OPEN_FILE_def)
  have fds: "distinct fds" "\<And>i. i \<in> set fds \<longleftrightarrow> 3 \<le> i \<and> i < 16" unfolding fds_def set_upt by auto
  have run: "allocate_open_file_table fts = allocate_loop fds fts"
    by (simp only: allocate_open_file_table_def START_OPEN_FILE_def MAX_OPEN_FILE_def fds_def)
  have "\<forall>i\<in>set fds. i < length fts" using fds(2) l by simp
  from allocate_loop_spec [OF fds(1) this]
  consider (full) "\<forall>i\<in>set fds. ft_used (fts ! i)" "allocate_loop fds fts = (-1, fts)"
    | (free) i where "i \<in> set fds" "\<not> ft_used (fts ! i)" "allocate_loop fds fts = (int i, fts[i := (fts ! i)\<lparr>ft_used := True\<rparr>])"
        "\<forall>j\<in>set (takeWhile (\<lambda>j. j \<noteq> i) fds). ft_used (fts ! j)"
    by blast
  then show ?thesis
  proof cases
    case full
    then show ?thesis using run fds(2) by (intro disjI1 conjI) simp_all
  next
    case (free i)
    have i: "3 \<le> i" "i < 16" using free(1) fds(2) by auto
    have "fds = [3..<i] @ i # [Suc i..<16]"
      unfolding fds_def using upt_add_eq_append [of 3 i "16 - i"] upt_conv_Cons [of i 16] i by simp
    moreover have "takeWhile (\<lambda>j. j \<noteq> i) ([3..<i] @ i # xs) = [3..<i]" for xs
      by (subst takeWhile_append2) auto
    ultimately have "takeWhile (\<lambda>j. j \<noteq> i) fds = [3..<i]" by simp
    then have "\<forall>j. 3 \<le> j \<and> j < i \<longrightarrow> ft_used (fts ! j)" using free(4) by simp
    moreover have "close_file_table i (fts[i := (fts ! i)\<lparr>ft_used := True\<rparr>]) = fts[i := zero_ft]"
      using i l by (cases "fts ! i") (simp add: close_file_table_def zero_ft_def)
    ultimately show ?thesis using i free(2,3) run by (intro disjI2 exI [of _ i] conjI) simp_all
  qed
qed

theorem open_file_alloc_close_witness:
  "fst (allocate_open_file_table (init_file_table[3 := zero_ft\<lparr>ft_used := True\<rparr>])) \<noteq> 3"
proof -
  have "length (init_file_table[3 := zero_ft\<lparr>ft_used := True\<rparr>]) = MAX_OPEN_FILE" by (simp add: init_file_table_def)
  from open_file_alloc_close [OF this] show ?thesis by (auto simp: init_file_table_def MAX_OPEN_FILE_def nth_list_update)
qed

text \<open>C37: \<open>nvfuse_move_curr_bg_id\<close> of a group that is in the list stops within one round and
  puts the search pointer on a node of that group; of a non-zero group that is not in the
  list it goes round for ever.\<close>

theorem move_curr_bg_id_terminates:
  assumes "bg_id \<noteq> 0" "search_ptr is_inode l = Some p" "p < length (bgl l)"
  shows "if bg_id \<in> set (bgl l)
    then \<exists>q. move_curr_bg_id (length (bgl l)) False bg_id is_inode l = Some (set_ptr is_inode q l)
           \<and> q < length (bgl l) \<and> get_curr_bg_id False is_inode (set_ptr is_inode q l) = Some bg_id
    else \<forall>fuel. move_curr_bg_id fuel False bg_id is_inode l = None"
proof (cases "bg_id \<in> set (bgl l)")
  case True
  let ?n = "length (bgl l)"
  let ?P = "\<lambda>k. bgl l ! ((p + k) mod ?n) = bg_id"
  obtain i where i: "i < ?n" "bgl l ! i = bg_id" using True by (auto simp: in_set_conv_nth)
  have "(p + (i + ?n - p)) mod ?n = i" using i(1) assms(3) by simp
  then have ex: "?P ((i + ?n - p) mod ?n)" using i(2) by (simp add: mod_simps)
  define k where "k = (LEAST k. ?P k)"
  have k: "?P k" "\<forall>j < k. \<not> ?P j" unfolding k_def using LeastI [of ?P] ex not_less_Least [of _ ?P] by blast+
  have "k \<le> (i + ?n - p) mod ?n" unfolding k_def by (rule Least_le [of ?P, OF ex])
  also have "\<dots> < ?n" using assms(3) by (intro mod_less_divisor) linarith
  finally have kn: "k < ?n" .
  define q where "q = (p + k) mod ?n"
  have "move_loop ?n bg_id p (bgl l) = Some q" unfolding q_def
    by (rule move_loop_spec) (use assms k kn in auto)
  moreover have "q < ?n" unfolding q_def using assms(3) by (intro mod_less_divisor) linarith
  moreover have "bgl l ! q = bg_id" using k(1) by (simp add: q_def)
  ultimately show ?thesis using True assms(1,2)
    by (auto simp: move_curr_bg_id_def get_curr_bg_id_def set_ptr_def)
next
  case False
  then show ?thesis using move_loop_none [OF False assms(3)] assms(2) by (auto simp: move_curr_bg_id_def)
qed

theorem move_curr_bg_id_terminates_witness:
  "\<exists>q. move_curr_bg_id 3 False 7 True \<lparr>bgl = [5, 6, 7], bgl_count = 3, bgl_inode = Some 1, bgl_data = Some 0\<rparr>
     = Some (set_ptr True q \<lparr>bgl = [5, 6, 7], bgl_count = 3, bgl_inode = Some 1, bgl_data = Some 0\<rparr>) \<and> q < 3"
  using move_curr_bg_id_terminates [of 7 True "\<lparr>bgl = [5, 6, 7], bgl_count = 3, bgl_inode = Some 1, bgl_data = Some 0\<rparr>" 1]
  by (auto simp: numeral_3_eq_3)

end
