(* ===== verification/DataPlane.thy ===== *)
theory DataPlane
  imports Mount Ipc
begin

text \<open>
  The block groups (containers) of data-plane processes, \<open>nvfuse_core.c\<close>: what a process
  does with the containers it gets from the control plane at mount
  (\<open>CONTAINER_ALLOCATED_ALLOC\<close>, preallocation), when it runs out of inodes
  (\<open>nvfuse_alloc_new_inode\<close>), and when a group becomes empty (\<open>nvfuse_remove_bg\<close>), with
  the requests of \<open>Ipc\<close> answered by the model of the control plane.

  A process is known by its channel.  \<open>dp_sb_bd\<close> is the array \<open>sb_bd\<close> of descriptors that
  the mount reads from the device; \<open>dp_bd\<close> are the descriptors as the process
  has them in its buffer cache.  \<open>None\<close> is a failed assertion or a panic.  Whether
  a message enters the ring of the control plane is an argument, as in \<open>Ipc\<close>.
\<close>

section \<open>State\<close>

record app_superblock =
  asb_core_id :: int
  asb_root_bg_id :: nat
  asb_free_inodes :: int
  asb_free_blocks :: int
  asb_no_of_used_blocks :: int

record data_proc =
  dp_chan :: int
  dp_bgs :: bg_list
  dp_asb :: app_superblock
  dp_sb_bd :: "bg_descriptor list"
  dp_bd :: "nat \<Rightarrow> bg_descriptor"
  dp_blocks_per_bg :: nat

section \<open>Adding and removing a group\<close>

definition sb_bd_at :: "data_proc \<Rightarrow> nat \<Rightarrow> bg_descriptor option" where
  "sb_bd_at p bg = do {
     assert_opt (bg < length (dp_sb_bd p));
     assert_opt (bd_id (dp_sb_bd p ! bg) = bg);
     Some (dp_sb_bd p ! bg) }"

definition count_group :: "int \<Rightarrow> bg_descriptor \<Rightarrow> int \<Rightarrow> app_superblock \<Rightarrow> app_superblock" where
  "count_group sign bd used a = a\<lparr>asb_free_blocks := asb_free_blocks a + sign * int (bd_free_blocks bd),
     asb_free_inodes := asb_free_inodes a + sign * int (bd_free_inodes bd),
     asb_no_of_used_blocks := asb_no_of_used_blocks a + sign * used\<rparr>"

definition update_sb_with_bd_info :: "nat \<Rightarrow> bool \<Rightarrow> bool \<Rightarrow> data_proc \<Rightarrow> data_proc option" where
  "update_sb_with_bd_info bg root_container inc p =
    (let sign = (if inc then 1 else -1) in
     if \<not> root_container then do {
       bd \<leftarrow> sb_bd_at p bg;
       Some (p\<lparr>dp_asb := count_group sign bd 0 (dp_asb p)\<rparr>) }
     else let bd = dp_bd p bg in
       Some (p\<lparr>dp_asb := count_group sign bd (int (dp_blocks_per_bg p) - int (bd_free_blocks bd)) (dp_asb p)\<rparr>))"

definition update_owner_in_bd_info :: "nat \<Rightarrow> data_proc \<Rightarrow> data_proc" where
  "update_owner_in_bd_info bg p =
     p\<lparr>dp_bd := (dp_bd p)(bg := (dp_bd p bg)\<lparr>bd_owner := asb_core_id (dp_asb p)\<rparr>)\<rparr>"

definition dp_add_bg :: "nat \<Rightarrow> data_proc \<Rightarrow> data_proc option" where
  "dp_add_bg bg p =
    (let l = add_bg bg (dp_bgs p) in do {
       p1 \<leftarrow> update_sb_with_bd_info bg (bgl_count l = 1) True (p\<lparr>dp_bgs := l\<rparr>);
       Some (update_owner_in_bd_info bg p1) })"

text \<open>The position of the node of a group, and where a search pointer stands after the
  removal of the node at position \<open>i\<close>: the one after it, skipping the list head.\<close>

definition bg_position :: "nat \<Rightarrow> nat list \<Rightarrow> nat option" where
  "bg_position bg xs = (let i = length (takeWhile (\<lambda>x. x \<noteq> bg) xs) in if i < length xs then Some i else None)"

definition ptr_after :: "nat \<Rightarrow> nat \<Rightarrow> nat option \<Rightarrow> nat option" where
  "ptr_after n i ptr = map_option (\<lambda>q. let q' = (if q = i then (i + 1) mod n else q) in if i < q' then q' - 1 else q') ptr"

definition unlink_bg :: "nat \<Rightarrow> bg_list \<Rightarrow> bg_list option" where
  "unlink_bg bg l = do {
     i \<leftarrow> bg_position bg (bgl l);
     let n = length (bgl l) in
     Some (l\<lparr>bgl := take i (bgl l) @ drop (i + 1) (bgl l), bgl_count := bgl_count l - 1,
             bgl_inode := ptr_after n i (bgl_inode l), bgl_data := ptr_after n i (bgl_data l)\<rparr>) }"

definition remove_bg :: "cp_env \<Rightarrow> bool \<Rightarrow> nat \<Rightarrow> data_proc \<Rightarrow> client \<Rightarrow> (int \<times> data_proc \<times> client) option" where
  "remove_bg e enq_ok bg p c =
    (if bg = asb_root_bg_id (dp_asb p) then Some (0, p, c)
     else do {
       l \<leftarrow> unlink_bg bg (dp_bgs p);
       p1 \<leftarrow> update_sb_with_bd_info bg False False (p\<lparr>dp_bgs := l\<rparr>);
       (r, c1) \<leftarrow> dealloc_container_from_primary e enq_ok (dp_chan p) bg c;
       Some (r, p1, c1) })"

text \<open>The end of \<open>nvfuse_inc_free_inodes\<close> and \<open>nvfuse_inc_free_blocks\<close>, for a process without
  preallocation: a group with no inode and no block in use goes back.\<close>

definition release_unused_bg :: "cp_env \<Rightarrow> bool \<Rightarrow> nat \<Rightarrow> data_proc \<Rightarrow> client \<Rightarrow> (data_proc \<times> client) option" where
  "release_unused_bg e enq_ok bg p c =
    (let bd = dp_bd p bg in
     if bd_free_blocks bd + bd_dtable_start bd mod dp_blocks_per_bg p = bd_max_blocks bd \<and> bd_free_inodes bd = bd_max_inodes bd
     then do { (r, p', c') \<leftarrow> remove_bg e enq_ok bg p c; Some (p', c') }
     else Some (p, c))"

section \<open>Getting groups\<close>

text \<open>A container number is stored into an unsigned 32-bit parameter.\<close>

definition as_u32 :: "int \<Rightarrow> nat" where
  "as_u32 i = nat (i mod 2 ^ 32)"

text \<open>One round of the loops of \<open>nvfuse_mount\<close>.\<close>

definition take_container :: "cp_env \<Rightarrow> bool \<Rightarrow> alloc_type \<Rightarrow> data_proc \<Rightarrow> client \<Rightarrow> (int \<times> data_proc \<times> client) option" where
  "take_container e enq_ok ty p c = do {
     (container_id, c1) \<leftarrow> alloc_container_from_primary e enq_ok (dp_chan p) ty c;
     if container_id \<noteq> 0 then do {
       p1 \<leftarrow> dp_add_bg (as_u32 container_id) p;
       Some (container_id, p1, c1) }
     else Some (0, p, c1) }"

fun fetch_containers :: "nat \<Rightarrow> cp_env \<Rightarrow> data_proc \<Rightarrow> client \<Rightarrow> (nat \<times> data_proc \<times> client) option" where
  "fetch_containers 0 e p c = None"
| "fetch_containers (Suc fuel) e p c = do {
     (container_id, p1, c1) \<leftarrow> take_container e True CONTAINER_ALLOCATED_ALLOC p c;
     if container_id = 0 then Some (1, p1, c1)
     else do {
       (bg_count, p2, c2) \<leftarrow> fetch_containers fuel e p1 c1;
       Some (bg_count + 1, p2, c2) } }"

definition NVFUSE_CONTAINER_PERALLOCATION_SIZE :: nat where "NVFUSE_CONTAINER_PERALLOCATION_SIZE = 1024"

fun preallocate :: "nat \<Rightarrow> cp_env \<Rightarrow> data_proc \<Rightarrow> client \<Rightarrow> (data_proc \<times> client) option" where
  "preallocate 0 e p c = Some (p, c)"
| "preallocate (Suc n) e p c = do {
     (container_id, p1, c1) \<leftarrow> take_container e True CONTAINER_NEW_ALLOC p c;
     preallocate n e p1 c1 }"

definition mount_containers :: "nat \<Rightarrow> cp_env \<Rightarrow> bool \<Rightarrow> data_proc \<Rightarrow> client \<Rightarrow> (data_proc \<times> client) option" where
  "mount_containers fuel e preallocation p c = do {
     (bg_count, p1, c1) \<leftarrow> fetch_containers fuel e (p\<lparr>dp_bgs := empty_bgl\<rparr>) c;
     if preallocation then preallocate (NVFUSE_CONTAINER_PERALLOCATION_SIZE - bg_count) e p1 c1
     else Some (p1, c1) }"

text \<open>The beginning of \<open>nvfuse_alloc_new_inode\<close> in a data-plane process.\<close>

definition grow_inodes :: "cp_env \<Rightarrow> bool \<Rightarrow> data_proc \<Rightarrow> client \<Rightarrow> (data_proc \<times> client) option" where
  "grow_inodes e enq_ok p c =
    (if asb_free_inodes (dp_asb p) \<noteq> 0 then Some (p, c)
     else do {
       (container_id, c1) \<leftarrow> alloc_container_from_primary e enq_ok (dp_chan p) CONTAINER_NEW_ALLOC c;
       assert_opt (container_id > 0);
       p1 \<leftarrow> dp_add_bg (as_u32 container_id) p;
       assert_opt (asb_free_inodes (dp_asb p1) \<noteq> 0);
       Some (p1, c1) })"

section \<open>The list of groups\<close>

definition bgl_ok :: "bg_list \<Rightarrow> bool" where
  "bgl_ok l \<longleftrightarrow> bgl_count l = int (length (bgl l)) \<and> distinct (bgl l)
     \<and> (bgl l \<noteq> [] \<longrightarrow> (\<exists>p<length (bgl l). bgl_inode l = Some p) \<and> (\<exists>p<length (bgl l). bgl_data l = Some p))"

lemma bgl_ok_empty [simp]: "bgl_ok empty_bgl"
  by (simp add: bgl_ok_def empty_bgl_def)

lemma add_bg_ok:
  assumes "bgl_ok l" "bg \<notin> set (bgl l)"
  shows "bgl_ok (add_bg bg l)" "bgl (add_bg bg l) = bgl l @ [bg]"
    "bgl_count (add_bg bg l) = 1 \<longleftrightarrow> bgl l = []"
  using assms by (auto simp: bgl_ok_def add_bg_def Let_def)

lemma bg_position_some:
  assumes "bg_position bg xs = Some i"
  shows "i < length xs" "xs ! i = bg"
  using assms nth_length_takeWhile [of "\<lambda>x. x \<noteq> bg" xs] by (auto simp: bg_position_def Let_def split: if_splits)

lemma bg_position_none: "bg_position bg xs = None \<longleftrightarrow> bg \<notin> set xs"
proof -
  have "length (takeWhile (\<lambda>x. x \<noteq> bg) xs) < length xs \<longleftrightarrow> bg \<in> set xs"
    by (induction xs) auto
  then show ?thesis by (simp add: bg_position_def Let_def)
qed

lemma ptr_after_less:
  assumes "q < n" "i < n" "1 < n"
  shows "\<exists>r<n - 1. ptr_after n i (Some q) = Some r"
proof -
  have "(i + 1) mod n = (if i + 1 = n then 0 else i + 1)" using assms(2) by auto
  then show ?thesis using assms by (auto simp: ptr_after_def Let_def)
qed

lemma unlink_bg_ok:
  assumes ok: "bgl_ok l" and u: "unlink_bg bg l = Some l'"
  shows "bgl_ok l'" "set (bgl l') = set (bgl l) - {bg}" "bg \<in> set (bgl l)"
proof -
  obtain i where i: "bg_position bg (bgl l) = Some i" using u by (auto simp: unlink_bg_def bind_eq_Some_conv)
  have l': "l' = l\<lparr>bgl := take i (bgl l) @ drop (i + 1) (bgl l), bgl_count := bgl_count l - 1,
      bgl_inode := ptr_after (length (bgl l)) i (bgl_inode l), bgl_data := ptr_after (length (bgl l)) i (bgl_data l)\<rparr>"
    using u i by (simp add: unlink_bg_def Let_def)
  note p = bg_position_some [OF i]
  show "bg \<in> set (bgl l)" using p nth_mem by blast
  have d: "distinct (bgl l)" using ok by (simp add: bgl_ok_def)
  have e: "bgl l = take i (bgl l) @ bg # drop (i + 1) (bgl l)" using id_take_nth_drop [OF p(1)] p(2) by simp
  have "distinct (take i (bgl l) @ bg # drop (i + 1) (bgl l))" using d e by simp
  then have n: "bg \<notin> set (take i (bgl l) @ drop (i + 1) (bgl l))" and di: "distinct (take i (bgl l) @ drop (i + 1) (bgl l))" by auto
  have "set (bgl l) = insert bg (set (take i (bgl l) @ drop (i + 1) (bgl l)))" using arg_cong [OF e, of set] by simp
  with n show "set (bgl l') = set (bgl l) - {bg}" by (simp add: l')
  have len: "length (bgl l') = length (bgl l) - 1" using p(1) by (simp add: l')
  have ne: "bgl l \<noteq> []" using p(1) by auto
  have ptr: "\<exists>q<length (bgl l'). ptr_after (length (bgl l)) i x = Some q"
    if "\<exists>q<length (bgl l). x = Some q" "bgl l' \<noteq> []" for x
  proof -
    have "1 < length (bgl l)" using that(2) len by (cases "bgl l'") auto
    then show ?thesis using ptr_after_less [OF _ p(1)] that(1) unfolding len by blast
  qed
  have "bgl_count l' = bgl_count l - 1" "bgl_count l = int (length (bgl l))" using ok by (simp_all add: l' bgl_ok_def)
  then have c: "bgl_count l' = int (length (bgl l'))" using p(1) unfolding len by linarith
  have f: "bgl l' = take i (bgl l) @ drop (i + 1) (bgl l)" "bgl_inode l' = ptr_after (length (bgl l)) i (bgl_inode l)"
    "bgl_data l' = ptr_after (length (bgl l)) i (bgl_data l)" by (simp_all add: l')
  have "(\<exists>q<length (bgl l'). bgl_inode l' = Some q) \<and> (\<exists>q<length (bgl l'). bgl_data l' = Some q)" if "bgl l' \<noteq> []"
    unfolding f(2,3) using ok ne ptr [OF _ that] unfolding bgl_ok_def by blast
  then show "bgl_ok l'" using c di unfolding bgl_ok_def f(1) by blast
qed

section \<open>Containers in the table\<close>

text \<open>Container \<open>i\<close> was handed to a running process on channel \<open>d\<close>.\<close>

definition holds :: "control_plane \<Rightarrow> int \<Rightarrow> nat \<Rightarrow> bool" where
  "holds cp d i \<longleftrightarrow> i < nr_containers cp \<and> owner_core_id (resv_table cp ! i) = d \<and> status (resv_table cp ! i) = ACQUIRED"

text \<open>What the requests keep: the containers of the other channels, or of all.\<close>

definition keeps_held :: "control_plane \<Rightarrow> (int \<Rightarrow> nat \<Rightarrow> bool) \<Rightarrow> control_plane \<Rightarrow> bool" where
  "keeps_held cp P cp' \<longleftrightarrow> cp_inv cp' \<and> nr_containers cp' = nr_containers cp
     \<and> (\<forall>d i. P d i \<longrightarrow> holds cp d i \<longrightarrow> holds cp' d i)"

lemma keeps_heldI:
  assumes "cp_inv cp" "table_inv cp'" "same_rest cp cp'"
    "\<And>i. i < nr_containers cp \<Longrightarrow> resv_table cp' ! i \<noteq> resv_table cp ! i \<Longrightarrow> status (resv_table cp ! i) = ACQUIRED
      \<Longrightarrow> \<not> P (owner_core_id (resv_table cp ! i)) i"
  shows "keeps_held cp P cp'"
proof -
  have n: "nr_containers cp' = nr_containers cp" using assms(3) by (simp add: same_rest_def)
  have "holds cp' d i" if "P d i" "holds cp d i" for d i
    using assms(4) [of i] that n unfolding holds_def by metis
  then show ?thesis using same_rest_inv [OF assms(1,3,2)] n by (simp add: keeps_held_def)
qed

lemma list_update_changed: "xs[i := x] ! j \<noteq> xs ! j \<Longrightarrow> j = i"
  by (metis nth_list_update_neq)

lemma container_alloc_held:
  assumes inv: "cp_inv cp" and c: "0 < core" and st: "st = UNLOCKED \<or> st = ACQUIRED"
    and run: "container_alloc io core ty st cp = Some (i, cp')"
  shows "keeps_held cp (\<lambda>_ _. True) cp'" "i \<noteq> 0 \<Longrightarrow> i < nr_containers cp" "i \<noteq> 0 \<Longrightarrow> \<not> holds cp d i"
    "i \<noteq> 0 \<Longrightarrow> owner_core_id (resv_table cp' ! i) = core \<and> status (resv_table cp' ! i) = st"
proof -
  have t: "table_inv cp" using inv by (simp add: cp_inv_def)
  note ti = container_alloc_inv [OF t st c run]
  have new: "free_containers cp = 0 \<Longrightarrow> ty = CONTAINER_NEW_ALLOC \<Longrightarrow> i = 0 \<and> cp' = cp"
    using run by (auto simp: container_alloc_def Let_def split: if_splits)
  have tbl: "i = 0 \<and> resv_table cp' = resv_table cp \<or> i \<noteq> 0 \<and> i < nr_containers cp \<and> status (resv_table cp ! i) = UNLOCKED
      \<and> (\<exists>x. resv_table cp' = (resv_table cp)[i := x] \<and> owner_core_id x = core \<and> status x = st)"
  proof (cases ty)
    case CONTAINER_NEW_ALLOC
    then show ?thesis
      using new container_alloc_new [OF t st] run by (cases "free_containers cp = 0") auto
  next
    case CONTAINER_ALLOCATED_ALLOC
    then show ?thesis using container_alloc_old [OF t st c, of io i cp'] run by (cases "i = 0") auto
  qed
  have len: "length (resv_table cp) = nr_containers cp" using t by (simp add: table_inv_def)
  show "keeps_held cp (\<lambda>_ _. True) cp'"
    by (rule keeps_heldI [OF inv ti [THEN conjunct1] ti [THEN conjunct2]]) (use tbl in \<open>auto dest!: list_update_changed\<close>)
  show "i \<noteq> 0 \<Longrightarrow> i < nr_containers cp" "i \<noteq> 0 \<Longrightarrow> \<not> holds cp d i" using tbl by (auto simp: holds_def)
  show "i \<noteq> 0 \<Longrightarrow> owner_core_id (resv_table cp' ! i) = core \<and> status (resv_table cp' ! i) = st"
    using tbl by (auto simp: len)
qed

lemma container_release_held:
  assumes inv: "cp_inv cp" and c: "0 < core" and run: "container_release io core i cp = Some (r, cp')"
  shows "keeps_held cp (\<lambda>d j. d \<noteq> core \<or> j \<noteq> i) cp'"
proof -
  have t: "table_inv cp" using inv by (simp add: cp_inv_def)
  have tbl: "resv_table cp' = resv_table cp \<or> owner_core_id (resv_table cp ! i) = core
      \<and> (\<exists>x. resv_table cp' = (resv_table cp)[i := x])"
    using run by (auto simp: container_release_def Let_def split: if_splits)
  note ti = container_release_inv [OF t c run]
  show ?thesis by (rule keeps_heldI [OF inv ti [THEN conjunct1] ti [THEN conjunct2]])
      (use tbl in \<open>auto dest!: list_update_changed\<close>)
qed

lemma release_loop_others:
  "owner_core_id (resv_table cp ! j) \<noteq> core \<Longrightarrow> resv_table (snd (release_loop is core clear cp)) ! j = resv_table cp ! j"
proof (induction "is" arbitrary: cp)
  case (Cons i "is")
  show ?case
  proof (cases "owner_core_id (resv_table cp ! i) = core \<and> ref_count (resv_table cp ! i) = 0")
    case True
    then have "j \<noteq> i" using Cons.prems by blast
    with True Cons show ?thesis by (simp add: Let_def)
  qed (use Cons in \<open>auto simp: Let_def\<close>)
qed simp

lemma release_loop_nr: "nr_containers (snd (release_loop is core clear cp)) = nr_containers cp"
  by (induction "is" arbitrary: cp) (auto simp: Let_def)

lemma app_remove_held:
  assumes inv: "cp_inv cp" and run: "app_manage_table_remove io io' rm core d cp = Some (r, fs, cp')"
  shows "keeps_held cp (\<lambda>d _. d \<noteq> core) cp'"
proof -
  have "nr_containers cp' = nr_containers cp \<and> (\<forall>i. owner_core_id (resv_table cp ! i) \<noteq> core \<longrightarrow> resv_table cp' ! i = resv_table cp ! i)"
    using run by (auto simp: app_manage_table_remove_def container_release_by_coreid_def Let_def release_loop_nr release_loop_others split: if_splits)
  then show ?thesis using app_remove_inv [OF inv run] by (auto simp: keeps_held_def holds_def)
qed

section \<open>Requests\<close>

lemma alloc_request:
  assumes inv: "cp_inv cp" and c: "0 < chan"
    and run: "alloc_container_from_primary e True chan ty (pool, cp) = Some (i, (pool', cp'))"
  shows "keeps_held cp (\<lambda>_ _. True) cp'" "0 \<le> i" "i \<noteq> 0 \<Longrightarrow> nat i < nr_containers cp"
    "i \<noteq> 0 \<Longrightarrow> \<not> holds cp d (nat i)" "i \<noteq> 0 \<Longrightarrow> holds cp' chan (nat i)"
    "pool' = (if i = 0 then pool - 1 else pool)"
proof -
  obtain j where j: "i = int j" "container_alloc (env_log e) chan ty ACQUIRED cp = Some (j, cp')"
    and p: "pool' = (if i = 0 then pool - 1 else pool)"
    using run by (auto simp: alloc_container_from_primary_def send_msg_to_primary_core_def prepare_req_def
        primary_poll_core_def make_cpl_defs make_req_defs empty_msg_def bind_eq_Some_conv split: if_splits)
  note h = container_alloc_held [OF inv c _ j(2), simplified]
  show "keeps_held cp (\<lambda>_ _. True) cp'" "0 \<le> i" "i \<noteq> 0 \<Longrightarrow> nat i < nr_containers cp" "i \<noteq> 0 \<Longrightarrow> \<not> holds cp d (nat i)"
    using h(1-3) j(1) by auto
  show "i \<noteq> 0 \<Longrightarrow> holds cp' chan (nat i)" using h j(1) by (auto simp: holds_def keeps_held_def)
  show "pool' = (if i = 0 then pool - 1 else pool)" by (rule p)
qed

lemma dealloc_request:
  assumes inv: "cp_inv cp" and c: "0 < chan"
    and run: "dealloc_container_from_primary e True chan bg (pool, cp) = Some (r, (pool', cp'))"
  shows "keeps_held cp (\<lambda>d j. d \<noteq> chan \<or> j \<noteq> bg) cp'"
proof -
  obtain q where "container_release (env_log e) chan bg cp = Some (q, cp')"
    using run by (auto simp: dealloc_container_from_primary_def send_msg_to_primary_core_def prepare_req_def
        primary_poll_core_def make_cpl_defs make_req_defs empty_msg_def bind_eq_Some_conv)
  then show ?thesis by (rule container_release_held [OF inv c])
qed

lemma unregister_request:
  assumes inv: "cp_inv cp" and run: "send_app_unregister_req e True chan destroy (pool, cp) = Some (r, (pool', cp'))"
  shows "keeps_held cp (\<lambda>d _. d \<noteq> chan) cp'"
proof -
  obtain q fs where "app_manage_table_remove (env_log e) (env_app_log e) (env_rmdir e) chan destroy cp = Some (q, fs, cp')"
    using run by (auto simp: send_app_unregister_req_def send_msg_to_primary_core_def prepare_req_def
        primary_poll_core_def make_cpl_defs make_req_defs empty_msg_def bind_eq_Some_conv)
  then show ?thesis by (rule app_remove_held [OF inv])
qed

text \<open>The requests that do not hand out or take back containers of running processes.\<close>

definition plain_request :: "ipc_msg \<Rightarrow> bool" where
  "plain_request m \<longleftrightarrow> opcode m \<notin> {CONTAINER_ALLOC_REQ, CONTAINER_RELEASE_REQ, APP_UNREGISTER_REQ}
     \<and> 0 \<le> msg_buffer_size m"

lemma reservation_held:
  assumes "cp_inv cp" "reservation_acquire i ty cp = Some (r, cp') \<or> reservation_release i cp = Some (r, cp')"
  shows "keeps_held cp (\<lambda>_ _. True) cp'"
proof -
  have t: "table_inv cp" using assms(1) by (simp add: cp_inv_def)
  have ti: "table_inv cp' \<and> same_rest cp cp'"
    using reservation_acquire_inv [OF t] reservation_release_inv [OF t] assms(2) by blast
  have tbl: "resv_table cp' = resv_table cp \<or> status (resv_table cp ! i) \<noteq> ACQUIRED \<and> (\<exists>x. resv_table cp' = (resv_table cp)[i := x])"
    using assms(2) by (auto simp: reservation_acquire_def reservation_release_def Let_def bind_eq_Some_conv
        split: if_splits resv_type.splits resv_status.splits)
  show ?thesis by (rule keeps_heldI [OF assms(1) ti [THEN conjunct1] ti [THEN conjunct2]])
      (use tbl in \<open>auto dest!: list_update_changed\<close>)
qed

lemma buffer_held:
  assumes "cp_inv cp" "0 \<le> sz" "buffer_alloc sz cp = Some (r, cp') \<or> buffer_free sz cp = Some (r, cp')"
  shows "keeps_held cp (\<lambda>_ _. True) cp'"
proof -
  have "cp_step cp cp'" using assms(2,3) cp_step.balloc cp_step.bfree by blast
  moreover have "resv_table cp' = resv_table cp" "nr_containers cp' = nr_containers cp"
    using assms(3) by (auto simp: buffer_alloc_def buffer_free_def bind_eq_Some_conv split: if_splits)
  ultimately show ?thesis using cp_step_inv [OF _ assms(1)] by (simp add: keeps_held_def holds_def)
qed

lemma register_held:
  assumes "cp_inv cp" "app_manage_table_add io a mk per_bg chan name cp = Some (r, cp')"
  shows "keeps_held cp (\<lambda>_ _. True) cp'"
proof (cases "chan = 0 \<or> chan \<ge> int SPDK_NUM_CORES \<or> a = 0")
  case True
  then have "resv_table cp' = resv_table cp" "nr_containers cp' = nr_containers cp"
    using assms(2) by (auto simp: app_manage_table_add_def Let_def split: if_splits)
  then show ?thesis using app_add_inv [OF assms] by (simp add: keeps_held_def holds_def)
next
  case False
  define cp1 where "cp1 = cp\<lparr>app_table := (app_table cp)[nat chan := (app_table cp ! nat chan)\<lparr>channel_id := chan, app_name := name\<rparr>]\<rparr>"
  have chan: "0 < chan" using assms(2) False by (auto simp: app_manage_table_add_def split: if_splits)
  from assms(2) False chan obtain bg cp2 where
    al: "container_alloc io chan CONTAINER_NEW_ALLOC UNLOCKED cp1 = Some (bg, cp2)"
    by (auto simp: app_manage_table_add_def Let_def cp1_def split: if_splits bind_splits)
  then have e: "resv_table cp' = resv_table cp2" "nr_containers cp' = nr_containers cp2"
    using assms(2) False chan
    by (simp_all add: app_manage_table_add_def Let_def cp1_def [symmetric] split: if_splits) auto
  have "cp_inv cp1" using assms(1) by (simp add: cp1_def cp_inv_def quota_inv_def)
  from container_alloc_held(1) [OF this chan _ al]
  show ?thesis using app_add_inv [OF assms] e by (simp add: keeps_held_def holds_def cp1_def)
qed

lemma plain_request_held:
  assumes inv: "cp_inv cp" and m: "plain_request m" and run: "primary_poll_core e m cp = Some (m', cp')"
  shows "keeps_held cp (\<lambda>_ _. True) cp'"
proof -
  have same: "keeps_held cp (\<lambda>_ _. True) cp" using inv by (simp add: keeps_held_def)
  have sz: "0 \<le> msg_buffer_size m" using m by (simp add: plain_request_def)
  show ?thesis
    using run m same register_held [OF inv] buffer_held [OF inv sz, OF disjI1] buffer_held [OF inv sz, OF disjI2]
      reservation_held [OF inv, OF disjI1] reservation_held [OF inv, OF disjI2]
    by (cases "opcode m") (auto simp: primary_poll_core_def plain_request_def bind_eq_Some_conv)
qed

section \<open>Processes\<close>

lemma update_sb_keeps:
  assumes "update_sb_with_bd_info bg root inc p = Some p'"
  shows "dp_bgs p' = dp_bgs p" "dp_chan p' = dp_chan p" "dp_sb_bd p' = dp_sb_bd p" "dp_bd p' = dp_bd p"
    "dp_blocks_per_bg p' = dp_blocks_per_bg p" "asb_root_bg_id (dp_asb p') = asb_root_bg_id (dp_asb p)"
  using assms by (auto simp: update_sb_with_bd_info_def count_group_def Let_def bind_eq_Some_conv split: if_splits)

lemma dp_add_bg_keeps:
  assumes "dp_add_bg bg p = Some p'"
  shows "dp_bgs p' = add_bg bg (dp_bgs p)" "dp_chan p' = dp_chan p" "dp_sb_bd p' = dp_sb_bd p"
    "dp_blocks_per_bg p' = dp_blocks_per_bg p" "asb_root_bg_id (dp_asb p') = asb_root_bg_id (dp_asb p)"
  using assms by (auto simp: dp_add_bg_def update_owner_in_bd_info_def Let_def bind_eq_Some_conv update_sb_keeps)

lemma as_u32_nat: "0 \<le> i \<Longrightarrow> nat i < 2 ^ 31 \<Longrightarrow> as_u32 i = nat i"
  by (simp add: as_u32_def)

text \<open>What the control plane and a process know about the groups of the process.\<close>

definition proc_ok :: "control_plane \<Rightarrow> int \<Rightarrow> data_proc \<Rightarrow> bool" where
  "proc_ok cp d p \<longleftrightarrow> 0 < d \<and> dp_chan p = d \<and> bgl_ok (dp_bgs p) \<and> (\<forall>i\<in>set (bgl (dp_bgs p)). holds cp d i)"

lemma proc_ok_keeps:
  assumes "proc_ok cp d p" "keeps_held cp P cp'" "\<And>i. i \<in> set (bgl (dp_bgs p)) \<Longrightarrow> P d i"
  shows "proc_ok cp' d p"
  using assms by (auto simp: proc_ok_def keeps_held_def)

lemma add_container_ok:
  assumes p: "proc_ok cp d p" and inv: "cp_inv cp" and nr: "nr_containers cp < 2 ^ 31"
    and al: "alloc_container_from_primary e True d ty (pool, cp) = Some (i, (pool', cp'))" and i: "i \<noteq> 0"
    and a: "dp_add_bg (as_u32 i) p = Some p'"
  shows "proc_ok cp' d p'" "bgl (dp_bgs p') = bgl (dp_bgs p) @ [nat i]"
proof -
  have d: "0 < d" using p by (simp add: proc_ok_def)
  note r = alloc_request [OF inv d al]
  have u: "as_u32 i = nat i" using r(2,3) i nr by (intro as_u32_nat) auto
  have new: "nat i \<notin> set (bgl (dp_bgs p))" using p r(4) [OF i] by (auto simp: proc_ok_def)
  note k = dp_add_bg_keeps [OF a, unfolded u]
  have ok: "bgl_ok (dp_bgs p)" using p by (simp add: proc_ok_def)
  show b: "bgl (dp_bgs p') = bgl (dp_bgs p) @ [nat i]" unfolding k(1) by (rule add_bg_ok(2) [OF ok new])
  show "proc_ok cp' d p'"
    using proc_ok_keeps [OF p r(1)] r(5) [OF i] add_bg_ok(1) [OF ok new] unfolding proc_ok_def k(1,2) add_bg_ok(2) [OF ok new] by auto
qed

lemma take_container_ok:
  assumes p: "proc_ok cp d p" and inv: "cp_inv cp" and nr: "nr_containers cp < 2 ^ 31"
    and run: "take_container e True ty p (pool, cp) = Some (i, p', (pool', cp'))"
  shows "keeps_held cp (\<lambda>_ _. True) cp'" "proc_ok cp' d p'"
proof -
  have d: "dp_chan p = d" "0 < d" using p by (simp_all add: proc_ok_def)
  obtain k c1 where al: "alloc_container_from_primary e True d ty (pool, cp) = Some (k, c1)"
    and rest: "if k \<noteq> 0 then dp_add_bg (as_u32 k) p = Some p' \<and> (pool', cp') = c1 else p' = p \<and> (pool', cp') = c1"
    using run by (auto simp: take_container_def d bind_eq_Some_conv split: if_splits)
  have c1: "c1 = (pool', cp')" using rest by (auto split: if_splits)
  note al = al [unfolded c1]
  show h: "keeps_held cp (\<lambda>_ _. True) cp'" by (rule alloc_request(1) [OF inv d(2) al])
  show "proc_ok cp' d p'"
    using add_container_ok(1) [OF p inv nr al] proc_ok_keeps [OF p h] rest by (auto split: if_splits)
qed

lemma grow_inodes_ok:
  assumes p: "proc_ok cp d p" and inv: "cp_inv cp" and nr: "nr_containers cp < 2 ^ 31"
    and run: "grow_inodes e True p (pool, cp) = Some (p', (pool', cp'))"
  shows "keeps_held cp (\<lambda>_ _. True) cp'" "proc_ok cp' d p'"
proof -
  have d: "dp_chan p = d" "0 < d" using p by (simp_all add: proc_ok_def)
  consider "p' = p" "cp' = cp" | k where "alloc_container_from_primary e True d CONTAINER_NEW_ALLOC (pool, cp) = Some (k, (pool', cp'))"
    "0 < k" "dp_add_bg (as_u32 k) p = Some p'"
    using run by (auto simp: grow_inodes_def d bind_eq_Some_conv assert_opt_def split: if_splits)
  then have "keeps_held cp (\<lambda>_ _. True) cp' \<and> proc_ok cp' d p'"
  proof cases
    case 1
    then show ?thesis using p inv by (simp add: keeps_held_def)
  next
    case 2
    then show ?thesis using alloc_request(1) [OF inv d(2)] add_container_ok(1) [OF p inv nr] by blast
  qed
  then show "keeps_held cp (\<lambda>_ _. True) cp'" "proc_ok cp' d p'" by blast+
qed

text \<open>A group goes back only after it was unlinked.\<close>

lemma remove_bg_ok:
  assumes p: "proc_ok cp d p" and inv: "cp_inv cp" and run: "remove_bg e True bg p (pool, cp) = Some (r, p', (pool', cp'))"
  shows "keeps_held cp (\<lambda>c j. c \<noteq> d) cp'" "proc_ok cp' d p'"
proof -
  have d: "dp_chan p = d" "0 < d" using p by (simp_all add: proc_ok_def)
  consider "p' = p" "cp' = cp"
    | l where "unlink_bg bg (dp_bgs p) = Some l" "update_sb_with_bd_info bg False False (p\<lparr>dp_bgs := l\<rparr>) = Some p'"
      "dealloc_container_from_primary e True d bg (pool, cp) = Some (r, (pool', cp'))"
    using run by (auto simp: remove_bg_def d bind_eq_Some_conv split: if_splits)
  then have "keeps_held cp (\<lambda>c j. c \<noteq> d) cp' \<and> proc_ok cp' d p'"
  proof cases
    case 1
    then show ?thesis using p inv by (simp add: keeps_held_def)
  next
    case 2
    have ok: "bgl_ok (dp_bgs p)" using p by (simp add: proc_ok_def)
    note u = unlink_bg_ok [OF ok 2(1)] and k = update_sb_keeps(1,2) [OF 2(2)]
    have h: "keeps_held cp (\<lambda>c j. c \<noteq> d \<or> j \<noteq> bg) cp'" by (rule dealloc_request [OF inv d(2) 2(3)])
    have "proc_ok cp d p'" using p u unfolding proc_ok_def k by auto
    from proc_ok_keeps [OF this h] u k have "proc_ok cp' d p'" by auto
    with h show ?thesis by (simp add: keeps_held_def)
  qed
  then show "keeps_held cp (\<lambda>c j. c \<noteq> d) cp'" "proc_ok cp' d p'" by blast+
qed

lemma release_unused_ok:
  assumes p: "proc_ok cp d p" and inv: "cp_inv cp"
    and run: "release_unused_bg e True bg p (pool, cp) = Some (p', (pool', cp'))"
  shows "keeps_held cp (\<lambda>c j. c \<noteq> d) cp'" "proc_ok cp' d p'"
proof -
  have "keeps_held cp (\<lambda>c j. c \<noteq> d) cp" using inv by (simp add: keeps_held_def)
  then show "keeps_held cp (\<lambda>c j. c \<noteq> d) cp'" "proc_ok cp' d p'"
    using run remove_bg_ok [OF p inv] p by (auto simp: release_unused_bg_def Let_def bind_eq_Some_conv split: if_splits)
qed

section \<open>The system\<close>

text \<open>The control plane and the running data-plane processes, by channel.  One step is one
  call of one process, or one request handled by the control plane.  The ring of
  the control plane has room for the messages: it has 16384 entries, and a process
  waits for the answer to each of its requests.  \<open>work\<close> stands for what a process
  does inside its groups.\<close>

record system =
  sys_client :: client
  sys_procs :: "int \<Rightarrow> data_proc option"

inductive sys_step :: "system \<Rightarrow> system \<Rightarrow> bool" where
  start: "sys_procs s d = None \<Longrightarrow> 0 < d \<Longrightarrow> dp_chan p = d \<Longrightarrow> dp_bgs p = empty_bgl \<Longrightarrow>
    sys_step s (s\<lparr>sys_procs := (sys_procs s)(d \<mapsto> p)\<rparr>)"
| fetch: "sys_procs s d = Some p \<Longrightarrow> take_container e True ty p (sys_client s) = Some (i, p', c') \<Longrightarrow>
    sys_step s \<lparr>sys_client = c', sys_procs = (sys_procs s)(d \<mapsto> p')\<rparr>"
| grow: "sys_procs s d = Some p \<Longrightarrow> grow_inodes e True p (sys_client s) = Some (p', c') \<Longrightarrow>
    sys_step s \<lparr>sys_client = c', sys_procs = (sys_procs s)(d \<mapsto> p')\<rparr>"
| release: "sys_procs s d = Some p \<Longrightarrow> release_unused_bg e True bg p (sys_client s) = Some (p', c') \<Longrightarrow>
    sys_step s \<lparr>sys_client = c', sys_procs = (sys_procs s)(d \<mapsto> p')\<rparr>"
| search: "sys_procs s d = Some p \<Longrightarrow> get_next_bg_id False is_inode (dp_bgs p) = Some (bg, l) \<Longrightarrow>
    sys_step s (s\<lparr>sys_procs := (sys_procs s)(d \<mapsto> p\<lparr>dp_bgs := l\<rparr>)\<rparr>)"
| work: "sys_procs s d = Some p \<Longrightarrow> dp_chan p' = dp_chan p \<Longrightarrow> dp_bgs p' = dp_bgs p \<Longrightarrow>
    sys_step s (s\<lparr>sys_procs := (sys_procs s)(d \<mapsto> p')\<rparr>)"
| request: "sys_client s = (pool, cp) \<Longrightarrow> plain_request m \<Longrightarrow> primary_poll_core e m cp = Some (m', cp') \<Longrightarrow>
    sys_step s (s\<lparr>sys_client := (pool, cp')\<rparr>)"
| leave: "sys_procs s d = Some p \<Longrightarrow> send_app_unregister_req e True d destroy (sys_client s) = Some (r, c') \<Longrightarrow>
    sys_step s \<lparr>sys_client = c', sys_procs = (sys_procs s)(d := None)\<rparr>"
| crash: "sys_step s (s\<lparr>sys_procs := (sys_procs s)(d := None)\<rparr>)"

definition sys_ok :: "system \<Rightarrow> bool" where
  "sys_ok s \<longleftrightarrow> cp_inv (snd (sys_client s)) \<and> nr_containers (snd (sys_client s)) < 2 ^ 31
     \<and> (\<forall>d p. sys_procs s d = Some p \<longrightarrow> proc_ok (snd (sys_client s)) d p)"

lemma sys_okI:
  assumes s: "sys_ok s" and h: "keeps_held (snd (sys_client s)) P (snd c)"
    and d: "\<And>p. x = Some p \<Longrightarrow> proc_ok (snd c) d p" and P: "\<And>f i. f \<noteq> d \<Longrightarrow> P f i"
  shows "sys_ok \<lparr>sys_client = c, sys_procs = (sys_procs s)(d := x)\<rparr>"
proof -
  have "proc_ok (snd c) f p" if "sys_procs s f = Some p" "f \<noteq> d" for f p
    using proc_ok_keeps [OF _ h] s P that by (auto simp: sys_ok_def)
  then show ?thesis using s h d by (auto simp: sys_ok_def keeps_held_def)
qed

lemma get_next_keeps:
  assumes "get_next_bg_id False is_inode l = Some (bg, l')" "bgl_ok l"
  shows "bgl_ok l'" "bgl l' = bgl l"
  using assms by (auto simp: get_next_bg_id_def set_ptr_def bgl_ok_def Let_def bind_eq_Some_conv assert_opt_def split: if_splits option.splits)

lemma sys_step_ok:
  assumes "sys_step s s'" "sys_ok s"
  shows "sys_ok s'"
proof -
  obtain pool cp where c: "sys_client s = (pool, cp)" by (cases "sys_client s")
  have inv: "cp_inv cp" "nr_containers cp < 2 ^ 31" and pr: "\<And>d p. sys_procs s d = Some p \<Longrightarrow> proc_ok cp d p"
    using assms(2) by (auto simp: sys_ok_def c)
  have same: "keeps_held (snd (sys_client s)) (\<lambda>_ _. True) (snd (sys_client s))" using inv by (simp add: keeps_held_def c)
  have upd: "s\<lparr>sys_procs := f\<rparr> = \<lparr>sys_client = sys_client s, sys_procs = f\<rparr>" for f by simp
  show ?thesis using assms(1)
  proof cases
    case (start d p)
    then show ?thesis unfolding start(1) upd by (intro sys_okI [OF assms(2) same]) (auto simp: proc_ok_def empty_bgl_def bgl_ok_def)
  next
    case (fetch d p e ty i p' c')
    obtain pool' cp' where c': "c' = (pool', cp')" by (cases c')
    note t = take_container_ok [OF pr [OF fetch(2)] inv fetch(3) [unfolded c c']]
    show ?thesis unfolding fetch(1) by (rule sys_okI [OF assms(2), where P = "\<lambda>_ _. True"]) (use t in \<open>auto simp: c c'\<close>)
  next
    case (grow d p e p' c')
    obtain pool' cp' where c': "c' = (pool', cp')" by (cases c')
    note t = grow_inodes_ok [OF pr [OF grow(2)] inv grow(3) [unfolded c c']]
    show ?thesis unfolding grow(1) by (rule sys_okI [OF assms(2), where P = "\<lambda>_ _. True"]) (use t in \<open>auto simp: c c'\<close>)
  next
    case (release d p e bg p' c')
    obtain pool' cp' where c': "c' = (pool', cp')" by (cases c')
    note t = release_unused_ok [OF pr [OF release(2)] inv(1) release(3) [unfolded c c']]
    show ?thesis unfolding release(1) by (rule sys_okI [OF assms(2), where P = "\<lambda>f _. f \<noteq> d"]) (use t in \<open>auto simp: c c'\<close>)
  next
    case (search d p is_inode bg l)
    have "bgl_ok (dp_bgs p)" using pr [OF search(2)] by (simp add: proc_ok_def)
    note g = get_next_keeps [OF search(3) this]
    show ?thesis unfolding search(1) upd
      by (rule sys_okI [OF assms(2) same]) (use g pr [OF search(2)] in \<open>auto simp: c proc_ok_def\<close>)
  next
    case (work d p p')
    show ?thesis unfolding work(1) upd
      by (rule sys_okI [OF assms(2) same]) (use work pr [OF work(2)] in \<open>auto simp: c proc_ok_def\<close>)
  next
    case (request pl cp0 m e m' cp')
    then have h: "keeps_held cp (\<lambda>_ _. True) cp'" using plain_request_held [OF inv(1)] c by auto
    then show ?thesis using request(1) inv proc_ok_keeps [OF pr h] by (auto simp: sys_ok_def keeps_held_def)
  next
    case (leave d p e destroy r c')
    obtain pool' cp' where c': "c' = (pool', cp')" by (cases c')
    note t = unregister_request [OF inv(1) leave(3) [unfolded c c']]
    show ?thesis unfolding leave(1) by (rule sys_okI [OF assms(2), where P = "\<lambda>f _. f \<noteq> d"]) (use t in \<open>auto simp: c c'\<close>)
  next
    case (crash d)
    show ?thesis unfolding crash(1) upd by (rule sys_okI [OF assms(2) same]) auto
  qed
qed

lemma sys_run_ok: "sys_step\<^sup>*\<^sup>* s s' \<Longrightarrow> sys_ok s \<Longrightarrow> sys_ok s'"
  by (induction rule: rtranclp_induct) (auto intro: sys_step_ok)

section \<open>Mounting\<close>

text \<open>The containers of a channel that no process holds.\<close>

definition own :: "control_plane \<Rightarrow> int \<Rightarrow> nat set" where
  "own cp d = {i. i < nr_containers cp \<and> owner_core_id (resv_table cp ! i) = d \<and> status (resv_table cp ! i) = UNLOCKED}"

lemma own_finite [simp]: "finite (own cp d)"
  by (simp add: own_def)

lemma own_card: "card (own cp d) \<le> nr_containers cp"
  using card_mono [of "{..<nr_containers cp}" "own cp d"] by (auto simp: own_def)

lemma fetch_request:
  assumes inv: "cp_inv cp" and d: "0 < d" and pool: "0 < pool"
  shows "if own cp d = {} then alloc_container_from_primary e True d CONTAINER_ALLOCATED_ALLOC (pool, cp) = Some (0, (pool - 1, cp))
    else \<exists>i cp'. alloc_container_from_primary e True d CONTAINER_ALLOCATED_ALLOC (pool, cp) = Some (int i, (pool, cp'))
      \<and> i \<noteq> 0 \<and> i \<in> own cp d \<and> own cp' d = own cp d - {i}"
proof -
  let ?n = "nr_containers cp" and ?s = "(last_alloc_id cp + 1) mod nr_containers cp"
  have t: "table_inv cp" using inv by (simp add: cp_inv_def)
  have n: "0 < ?n" "length (resv_table cp) = ?n" "owner_core_id (resv_table cp ! 0) = -1" using t by (simp_all add: table_inv_def)
  have eq: "alloc_container_from_primary e True d CONTAINER_ALLOCATED_ALLOC (pool, cp) =
      do { (j, cp') \<leftarrow> container_alloc (env_log e) d CONTAINER_ALLOCATED_ALLOC ACQUIRED cp;
           Some (int j, (if j = 0 then pool - 1 else pool, cp')) }"
    using pool by (auto simp: alloc_container_from_primary_def send_msg_to_primary_core_def prepare_req_def
        primary_poll_core_def make_cpl_defs make_req_defs empty_msg_def split: Option.bind_splits)
  show ?thesis
  proof (cases "find_owned (resv_table cp) ?n d ?s ?n")
    case None
    have "i \<notin> own cp d" for i
    proof
      assume i: "i \<in> own cp d"
      then have il: "i < ?n" by (simp add: own_def)
      have "(?s + (i + ?n - ?s) mod ?n) mod ?n = (?s + (i + ?n - ?s)) mod ?n" by (simp add: mod_add_right_eq)
      also have "?s + (i + ?n - ?s) = i + ?n" using mod_less_divisor [OF n(1), of "last_alloc_id cp + 1"] by linarith
      also have "(i + ?n) mod ?n = i" using il by simp
      finally show False using find_owned_complete [OF None, of "(i + ?n - ?s) mod ?n"] n(1) i by (simp add: own_def)
    qed
    then have "own cp d = {}" by blast
    then show ?thesis unfolding eq using None d by (simp add: container_alloc_def Let_def)
  next
    case (Some j)
    have j: "j < ?n" "owner_core_id (resv_table cp ! j) = d" "status (resv_table cp ! j) = UNLOCKED"
      using find_owned_sound [OF Some] n(1) by simp_all
    have j0: "j \<noteq> 0" using j(2) n(3) d by (cases j) auto
    define cp' where "cp' = snd (store_container_table (env_log e) (cp\<lparr>resv_table := (resv_table cp)
      [j := (resv_table cp ! j)\<lparr>status := ACQUIRED, ref_count := 0\<rparr>], last_alloc_id := j\<rparr>))"
    have run: "container_alloc (env_log e) d CONTAINER_ALLOCATED_ALLOC ACQUIRED cp = Some (j, cp')"
      using Some d j j0 by (simp add: container_alloc_def Let_def cp'_def)
    have "own cp' d = own cp d - {j}" using j n(2) by (auto simp: own_def cp'_def nth_list_update)
    moreover have "j \<in> own cp d" using j by (simp add: own_def)
    ultimately show ?thesis unfolding eq using run j0 by auto
  qed
qed

lemma dp_add_bg_succeeds:
  assumes "bg < length (dp_sb_bd p)" "bd_id (dp_sb_bd p ! bg) = bg"
  shows "\<exists>p'. dp_add_bg bg p = Some p'"
  using assms by (simp add: dp_add_bg_def update_sb_with_bd_info_def sb_bd_at_def Let_def)

lemma fetch_containers_spec:
  assumes "proc_ok cp d p" "cp_inv cp" "nr_containers cp < 2 ^ 31" "0 < pool" "card (own cp d) < fuel"
    "\<forall>i\<in>own cp d. i < length (dp_sb_bd p) \<and> bd_id (dp_sb_bd p ! i) = i"
  shows "\<exists>p' cp'. fetch_containers fuel e p (pool, cp) = Some (Suc (card (own cp d)), p', (pool - 1, cp'))
    \<and> proc_ok cp' d p' \<and> set (bgl (dp_bgs p')) = set (bgl (dp_bgs p)) \<union> own cp d \<and> own cp' d = {}
    \<and> cp_inv cp' \<and> nr_containers cp' = nr_containers cp"
  using assms
proof (induction fuel arbitrary: p cp)
  case (Suc fuel)
  have d: "dp_chan p = d" "0 < d" using Suc.prems(1) by (simp_all add: proc_ok_def)
  note r = fetch_request [OF Suc.prems(2) d(2) Suc.prems(4), of e]
  show ?case
  proof (cases "own cp d = {}")
    case True
    then show ?thesis using r Suc.prems(1,2) by (simp add: take_container_def d)
  next
    case False
    then obtain i cp1 where i: "alloc_container_from_primary e True d CONTAINER_ALLOCATED_ALLOC (pool, cp) = Some (int i, (pool, cp1))"
      "i \<noteq> 0" "i \<in> own cp d" "own cp1 d = own cp d - {i}" using r by auto
    have u: "as_u32 (int i) = i" using i(3) Suc.prems(3) by (simp add: as_u32_nat own_def)
    obtain p1 where p1: "dp_add_bg (as_u32 (int i)) p = Some p1" using dp_add_bg_succeeds [of i p] Suc.prems(6) i(3) u by auto
    have nz: "int i \<noteq> 0" using i(2) by simp
    note a = add_container_ok [OF Suc.prems(1-3) i(1) nz p1]
    have h: "cp_inv cp1" "nr_containers cp1 = nr_containers cp"
      using alloc_request(1) [OF Suc.prems(2) d(2) i(1)] by (simp_all add: keeps_held_def)
    have c: "card (own cp d) = Suc (card (own cp1 d))" using card_Suc_Diff1 [OF own_finite i(3)] i(4) by simp
    have sb: "\<forall>i\<in>own cp1 d. i < length (dp_sb_bd p1) \<and> bd_id (dp_sb_bd p1 ! i) = i"
      using Suc.prems(6) i(4) dp_add_bg_keeps(3) [OF p1] by simp
    obtain p' cp' where s: "fetch_containers fuel e p1 (pool, cp1) = Some (Suc (card (own cp1 d)), p', (pool - 1, cp'))"
      "proc_ok cp' d p'" "set (bgl (dp_bgs p')) = set (bgl (dp_bgs p1)) \<union> own cp1 d" "own cp' d = {}" "cp_inv cp'"
      "nr_containers cp' = nr_containers cp1"
      using Suc.IH [OF a(1) h(1) _ Suc.prems(4) _ sb] h(2) Suc.prems(3,5) c by auto
    have "take_container e True CONTAINER_ALLOCATED_ALLOC p (pool, cp) = Some (int i, p1, (pool, cp1))"
      using i(1) nz p1 by (simp add: take_container_def d)
    moreover have "set (bgl (dp_bgs p')) = set (bgl (dp_bgs p)) \<union> own cp d" using s(3) a(2) i(3,4) by auto
    ultimately show ?thesis using s nz c h(2) by auto
  qed
qed simp

text \<open>Unregistering without destroying the containers of a channel makes them available to
  its next process.\<close>

lemma release_loop_keeps:
  assumes "\<forall>i\<in>set is. i < length (resv_table cp)" "distinct is"
    "\<forall>i\<in>set is. owner_core_id (resv_table cp ! i) = core \<longrightarrow> ref_count (resv_table cp ! i) = 0"
  shows "owner_core_id (resv_table (snd (release_loop is core False cp)) ! j) = owner_core_id (resv_table cp ! j)
    \<and> (j \<in> set is \<longrightarrow> owner_core_id (resv_table cp ! j) = core \<longrightarrow> status (resv_table (snd (release_loop is core False cp)) ! j) = UNLOCKED)
    \<and> (j \<notin> set is \<longrightarrow> resv_table (snd (release_loop is core False cp)) ! j = resv_table cp ! j)"
  using assms
proof (induction "is" arbitrary: cp)
  case (Cons i "is")
  let ?c = "resv_table cp ! i"
  show ?case
  proof (cases "owner_core_id ?c = core")
    case False
    then show ?thesis using Cons by auto
  next
    case True
    define up where "up = cp\<lparr>resv_table := (resv_table cp)[i := ?c\<lparr>owner_core_id := core, status := UNLOCKED, ref_count := 0\<rparr>]\<rparr>"
    have run: "release_loop (i # is) core False cp = release_loop is core False up"
      using True Cons.prems(3) by (simp add: up_def Let_def)
    have o: "owner_core_id (resv_table up ! k) = owner_core_id (resv_table cp ! k)" for k
      using Cons.prems(1) True by (cases "k = i") (simp_all add: up_def)
    have other: "resv_table up ! k = resv_table cp ! k" if "k \<noteq> i" for k using that by (simp add: up_def)
    have st: "status (resv_table up ! i) = UNLOCKED" using Cons.prems(1) by (simp add: up_def)
    have ni: "i \<notin> set is" using Cons.prems(2) by simp
    have ih: "owner_core_id (resv_table (snd (release_loop is core False up)) ! j) = owner_core_id (resv_table up ! j)
      \<and> (j \<in> set is \<longrightarrow> owner_core_id (resv_table up ! j) = core \<longrightarrow> status (resv_table (snd (release_loop is core False up)) ! j) = UNLOCKED)
      \<and> (j \<notin> set is \<longrightarrow> resv_table (snd (release_loop is core False up)) ! j = resv_table up ! j)"
    proof (rule Cons.IH)
      show "\<forall>i\<in>set is. owner_core_id (resv_table up ! i) = core \<longrightarrow> ref_count (resv_table up ! i) = 0"
        using Cons.prems(3) ni other by (metis list.set_intros(2))
    qed (use Cons.prems in \<open>auto simp: up_def\<close>)
    show ?thesis unfolding run using ih o other st ni by (cases "j = i") auto
  qed
qed simp

lemma leave_own:
  assumes inv: "cp_inv cp" and d: "0 < d" "d < int SPDK_NUM_CORES" and app: "channel_id (app_table cp ! nat d) = d"
    and free: "\<forall>i<nr_containers cp. owner_core_id (resv_table cp ! i) = d \<longrightarrow> status (resv_table cp ! i) \<in> {UNLOCKED, ACQUIRED}"
    and pool: "0 < pool"
  shows "\<exists>r cp'. send_app_unregister_req e True d False (pool, cp) = Some (r, (pool, cp')) \<and> cp_inv cp'
    \<and> nr_containers cp' = nr_containers cp \<and> own cp' d = {i. i < nr_containers cp \<and> owner_core_id (resv_table cp ! i) = d}"
proof -
  let ?n = "nr_containers cp"
  have t: "table_inv cp" using inv by (simp add: cp_inv_def)
  have n: "length (resv_table cp) = ?n" "owner_core_id (resv_table cp ! 0) = -1" using t by (simp_all add: table_inv_def)
  have ref: "ref_count (resv_table cp ! i) = 0" if "i < ?n" "owner_core_id (resv_table cp ! i) = d" for i
  proof -
    have "cr_ok (resv_table cp ! i)" "status (resv_table cp ! i) \<in> {UNLOCKED, ACQUIRED}" using cr_okD [OF t] free that n(1) by auto
    then show ?thesis by (auto simp: cr_ok_def)
  qed
  define cp1 where "cp1 = snd (release_loop [1..<?n] d False cp)"
  define cp' where "cp' = snd (store_app_table (env_app_log e) (snd (store_container_table (env_log e) cp1)))"
  have rm: "app_manage_table_remove (env_log e) (env_app_log e) (env_rmdir e) d False cp = Some (0, [], cp')"
    using d app by (simp add: app_manage_table_remove_def container_release_by_coreid_def Let_def cp'_def cp1_def)
  then have "send_app_unregister_req e True d False (pool, cp) = Some (0, (pool, cp'))"
    using pool by (simp add: send_app_unregister_req_def send_msg_to_primary_core_def prepare_req_def
        primary_poll_core_def make_cpl_defs make_req_defs empty_msg_def)
  moreover have "nr_containers cp' = ?n" by (simp add: cp'_def cp1_def release_loop_nr)
  moreover have k: "owner_core_id (resv_table cp1 ! j) = owner_core_id (resv_table cp ! j)"
    "j \<in> set [1..<?n] \<Longrightarrow> owner_core_id (resv_table cp ! j) = d \<Longrightarrow> status (resv_table cp1 ! j) = UNLOCKED" for j
    unfolding cp1_def using release_loop_keeps [of "[1..<?n]" cp d j] n(1) ref by auto
  have "status (resv_table cp1 ! j) = UNLOCKED" if "j < ?n" "owner_core_id (resv_table cp ! j) = d" for j
    using k(2) [of j] that n(2) d(1) by (cases j) auto
  then have "own cp' d = {i. i < ?n \<and> owner_core_id (resv_table cp ! i) = d}"
    using k(1) \<open>nr_containers cp' = ?n\<close> by (auto simp: own_def cp'_def)
  ultimately show ?thesis using app_remove_inv [OF inv rm] by blast
qed

section \<open>Properties\<close>


text \<open>Two processes that each got a new container.\<close>

definition plain_env :: cp_env where
  "plain_env = \<lparr>env_log = LogDone, env_app_log = LogDone, env_getattr = 0, env_mkdir = 0, env_rmdir = 0,
     env_sbcopy = 0, env_inodes_per_bg = 4096\<rparr>"

definition fresh_proc :: "int \<Rightarrow> data_proc" where
  "fresh_proc d = \<lparr>dp_chan = d, dp_bgs = empty_bgl,
     dp_asb = \<lparr>asb_core_id = 0, asb_root_bg_id = 0, asb_free_inodes = 0, asb_free_blocks = 0, asb_no_of_used_blocks = 0\<rparr>,
     dp_sb_bd = map (\<lambda>i. undefined\<lparr>bd_id := i\<rparr>) [0..<4], dp_bd = undefined, dp_blocks_per_bg = 32768\<rparr>"

lemma take_first:
  "\<exists>p'. dp_add_bg bg (fresh_proc d) = Some p' \<and> bgl (dp_bgs p') = [bg]"
  by (simp add: dp_add_bg_def fresh_proc_def empty_bgl_def add_bg_def update_sb_with_bd_info_def update_owner_in_bd_info_def Let_def)

definition first_cp :: control_plane where
  "first_cp = snd (the (container_alloc LogDone 1 CONTAINER_NEW_ALLOC ACQUIRED started_cp))"

lemma last_started: "last_alloc_id started_cp = 0"
  by (simp add: started_cp_def control_plane_init_def container_table_init_def buffer_init_def app_manage_table_init_def
      Let_def count_free_def count_pos_def numeral_eq_Suc)

lemma first_alloc: "container_alloc LogDone 1 CONTAINER_NEW_ALLOC ACQUIRED started_cp = Some (1, first_cp)"
  by (simp add: first_cp_def container_alloc_def Let_def last_started find_new.simps [of _ _ "Suc 0"])

lemma second_alloc: "\<exists>cp. container_alloc LogDone 2 CONTAINER_NEW_ALLOC ACQUIRED first_cp = Some (2, cp)"
  by (simp add: first_cp_def container_alloc_def Let_def last_started find_new.simps [of _ _ "Suc 0"] find_new.simps [of _ _ "Suc (Suc 0)"])

lemma take_new:
  assumes "container_alloc LogDone d CONTAINER_NEW_ALLOC ACQUIRED cp = Some (i, cp')" "i \<noteq> 0" "i < 2 ^ 31"
  shows "\<exists>p. take_container plain_env True CONTAINER_NEW_ALLOC (fresh_proc d) (4, cp) = Some (int i, p, (4, cp')) \<and> bgl (dp_bgs p) = [i]"
proof -
  have "alloc_container_from_primary plain_env True d CONTAINER_NEW_ALLOC (4, cp) = Some (int i, (4, cp'))"
    using assms by (simp add: alloc_container_from_primary_def send_msg_to_primary_core_def prepare_req_def
        primary_poll_core_def make_cpl_defs make_req_defs empty_msg_def plain_env_def)
  moreover have "dp_chan (fresh_proc d) = d" "as_u32 (int i) = i" using assms(3) by (simp_all add: fresh_proc_def as_u32_nat)
  ultimately show ?thesis using take_first [of i d] assms(2) by (auto simp: take_container_def)
qed



definition registered_cp :: control_plane where
  "registered_cp = first_cp\<lparr>app_table := (app_table first_cp)[1 := \<lparr>channel_id = 1, app_name = [], root_bg_id = 1\<rparr>]\<rparr>"

lemma first_cp_inv: "cp_inv first_cp" "nr_containers first_cp = 4" "length (app_table first_cp) = SPDK_NUM_CORES"
  "resv_table first_cp = (resv_table started_cp)[1 := \<lparr>owner_core_id = 1, status = ACQUIRED, ref_count = 0\<rparr>]"
proof -
  have "cp_inv started_cp" using control_plane_init_inv [OF started_cp_init] by simp
  from container_alloc_held(1) [OF this _ _ first_alloc] show "cp_inv first_cp" "nr_containers first_cp = 4"
    by (simp_all add: keeps_held_def)
  then show "length (app_table first_cp) = SPDK_NUM_CORES" by (simp add: cp_inv_def)
  have "free_containers started_cp \<noteq> 0" by simp
  from container_alloc_new [OF started_cp_inv _ first_alloc this]
  show "resv_table first_cp = (resv_table started_cp)[1 := \<lparr>owner_core_id = 1, status = ACQUIRED, ref_count = 0\<rparr>]" by simp
qed


text \<open>A request for a container that does not get into the ring of the control plane returns
  -1, which the loops of \<open>nvfuse_mount\<close> take for a container number: a process
  without groups adds the group 4294967295 and goes on.\<close>

theorem failed_request_adds_group:
  assumes "0 < pool" "dp_bgs p = empty_bgl"
  shows "\<exists>p'. take_container e False ty p (pool, cp) = Some (-1, p', (pool, cp)) \<and> bgl (dp_bgs p') = [4294967295]"
  using assms by (simp add: take_container_def alloc_container_from_primary_def send_msg_to_primary_core_def as_u32_def
      dp_add_bg_def empty_bgl_def add_bg_def update_sb_with_bd_info_def update_owner_in_bd_info_def Let_def)

text \<open>A group enters and leaves the counters of a process with the numbers its descriptor had
  when the process mounted.  Blocks of the group that were freed in between stay in the
  counter of free blocks after the group has gone.\<close>

theorem removed_group_stays_counted:
  assumes "bgl (dp_bgs p) \<noteq> []" "bgl_ok (dp_bgs p)" "bg \<notin> set (bgl (dp_bgs p))" "dp_add_bg bg p = Some p1"
    "bg \<noteq> asb_root_bg_id (dp_asb p)"
    "remove_bg e enq_ok bg (p1\<lparr>dp_asb := (dp_asb p1)\<lparr>asb_free_blocks := asb_free_blocks (dp_asb p1) + freed\<rparr>\<rparr>) c = Some (r, p2, c2)"
  shows "set (bgl (dp_bgs p2)) = set (bgl (dp_bgs p)) \<and> asb_free_blocks (dp_asb p2) = asb_free_blocks (dp_asb p) + freed"
proof -
  have b: "bgl_count (add_bg bg (dp_bgs p)) \<noteq> 1" "bgl_ok (add_bg bg (dp_bgs p))" "bgl (add_bg bg (dp_bgs p)) = bgl (dp_bgs p) @ [bg]"
    using add_bg_ok [OF assms(2,3)] assms(1) by auto
  let ?q = "p1\<lparr>dp_asb := (dp_asb p1)\<lparr>asb_free_blocks := asb_free_blocks (dp_asb p1) + freed\<rparr>\<rparr>"
  note k = dp_add_bg_keeps [OF assms(4)]
  obtain l where l: "unlink_bg bg (dp_bgs p1) = Some l" "update_sb_with_bd_info bg False False (?q\<lparr>dp_bgs := l\<rparr>) = Some p2"
    using assms(5,6) k(5) by (auto simp: remove_bg_def bind_eq_Some_conv)
  have "dp_bgs p2 = l" using update_sb_keeps(1) [OF l(2)] by simp
  moreover have "set (bgl l) = set (bgl (dp_bgs p))" using unlink_bg_ok(2) [OF _ l(1)] b assms(3) unfolding k(1) by auto
  moreover obtain bd where bd: "sb_bd_at p bg = Some bd"
    using assms(4) b(1) by (auto simp: dp_add_bg_def update_sb_with_bd_info_def sb_bd_at_def Let_def bind_eq_Some_conv)
  moreover have "asb_free_blocks (dp_asb p1) = asb_free_blocks (dp_asb p) + int (bd_free_blocks bd)"
    using assms(4) b(1) bd by (auto simp: dp_add_bg_def update_sb_with_bd_info_def update_owner_in_bd_info_def sb_bd_at_def
        count_group_def Let_def bind_eq_Some_conv)
  moreover have "asb_free_blocks (dp_asb p2) = asb_free_blocks (dp_asb p1) + freed - int (bd_free_blocks bd)"
    using l(2) bd k(3) by (auto simp: update_sb_with_bd_info_def sb_bd_at_def count_group_def Let_def bind_eq_Some_conv)
  ultimately show ?thesis by simp
qed

end
