(* ===== verification/Truncate.thy ===== *)
theory Truncate
  imports Indirect BufferCache
begin

text \<open>
  Truncation: \<open>nvfuse_free_data\<close>, \<open>nvfuse_find_shared\<close>, \<open>nvfuse_free_branches\<close> and
  \<open>nvfuse_truncate_blocks\<close> of \<open>nvfuse_indirect.c\<close> on the block map of \<open>Indirect\<close>, and
  \<open>nvfuse_free_inode_size\<close> of \<open>nvfuse_core.c\<close>, which drops the buffers of the removed
  blocks first.

  A region of pointers \<open>p .. q\<close> is its first location and its length; the one-element
  array \<open>&nr\<close> on the stack is \<open>free_one\<close>.  Marking the inode dirty has no effect on the
  map.
\<close>

section \<open>Operations\<close>

definition free_blk :: "nat \<Rightarrow> nat \<Rightarrow> blkmap \<Rightarrow> blkmap option" where
  "free_blk blk cnt t = do { s \<leftarrow> free_blocks blk cnt (bm_fs t); Some (t\<lparr>bm_fs := s\<rparr>) }"

definition all_zeroes :: "blkmap \<Rightarrow> indirect \<Rightarrow> bool" where
  "all_zeroes t c = (case (ind_bh c, ind_p c) of
     (Some b, InBlock _ i) \<Rightarrow> list_all (\<lambda>x. x = 0) (take i (bm_mb t b))
   | _ \<Rightarrow> True)"

fun free_data :: "ploc \<Rightarrow> nat \<Rightarrow> nat \<Rightarrow> nat \<Rightarrow> blkmap \<Rightarrow> blkmap option" where
  "free_data p 0 block_to_free cnt t =
     (if 0 < cnt then free_blk block_to_free cnt t else Some t)"
| "free_data p (Suc k) block_to_free cnt t =
    (if load t p = 0 then free_data (ploc_add p 1) k block_to_free cnt t
     else if cnt = 0 then free_data (ploc_add p 1) k (load t p) 1 (store_run p [0] t)
     else if block_to_free + cnt = load t p
       then free_data (ploc_add p 1) k block_to_free (cnt + 1) (store_run p [0] t)
     else do {
       t2 \<leftarrow> free_blk block_to_free cnt (store_run p [0] t);
       free_data (ploc_add p 1) k (load t p) 1 t2 })"

fun free_branches :: "nat \<Rightarrow> ploc \<Rightarrow> nat \<Rightarrow> blkmap \<Rightarrow> blkmap option" where
  "free_branches 0 p k t = free_data p k 0 0 t"
| "free_branches (Suc d) p 0 t = Some t"
| "free_branches (Suc d) p (Suc k) t =
    (let nr = load t p in
     if nr = 0 then free_branches (Suc d) (ploc_add p 1) k t
     else do {
       t1 \<leftarrow> free_branches d (InBlock nr 0) PTRS_PER_BLOCK (store_run p [0] t);
       t2 \<leftarrow> free_blk nr 1 t1;
       free_branches (Suc d) (ploc_add p 1) k t2 })"

fun free_one :: "nat \<Rightarrow> nat \<Rightarrow> blkmap \<Rightarrow> blkmap option" where
  "free_one 0 nr t = (if nr = 0 then Some t else free_blk nr 1 t)"
| "free_one (Suc d) nr t =
    (if nr = 0 then Some t
     else do { t1 \<leftarrow> free_branches d (InBlock nr 0) PTRS_PER_BLOCK t; free_blk nr 1 t1 })"

text \<open>\<open>nvfuse_find_shared\<close>: the trailing zero offsets are dropped, the branch is read, and
  the last level that must survive is found; the result is the chain, the position of
  \<open>partial\<close> in it, and the detached top.\<close>

fun strip_zeroes :: "nat \<Rightarrow> nat list \<Rightarrow> nat" where
  "strip_zeroes 0 offs = 0"
| "strip_zeroes (Suc k) offs = (if 0 < k \<and> offs ! k = 0 then strip_zeroes k offs else Suc k)"

fun shared_level :: "blkmap \<Rightarrow> indirect list \<Rightarrow> nat \<Rightarrow> nat" where
  "shared_level t chain 0 = 0"
| "shared_level t chain (Suc j) = (if all_zeroes t (chain ! Suc j) then shared_level t chain j else Suc j)"

fun ploc_prev :: "ploc \<Rightarrow> ploc" where
  "ploc_prev (InInode i) = InInode (i - 1)"
| "ploc_prev (InBlock b i) = InBlock b (i - 1)"

definition find_shared :: "nat list \<Rightarrow> blkmap \<Rightarrow> indirect list \<times> nat \<times> nat \<times> blkmap" where
  "find_shared offs t =
    (let k = strip_zeroes (length offs) offs;
         (chain, full, err) = get_branch t (take k offs);
         partial = length chain - 1
     in if ind_key (chain ! partial) = 0 \<and> load t (ind_p (chain ! partial)) \<noteq> 0 then (chain, partial, 0, t)
        else let p = shared_level t chain partial in
          if p = k - 1 \<and> 0 < p
          then (chain[p := (chain ! p)\<lparr>ind_p := ploc_prev (ind_p (chain ! p))\<rparr>], p, 0, t)
          else (chain, p, load t (ind_p (chain ! p)), store_run (ind_p (chain ! p)) [0] t))"

fun clear_ends :: "nat \<Rightarrow> indirect list \<Rightarrow> nat \<Rightarrow> blkmap \<Rightarrow> blkmap option" where
  "clear_ends n chain 0 t = Some t"
| "clear_ends n chain (Suc j) t =
    (case ind_p (chain ! Suc j) of
       InInode i \<Rightarrow> None
     | InBlock b i \<Rightarrow> do {
         t1 \<leftarrow> free_branches (n - 1 - Suc j) (InBlock b (i + 1)) (PTRS_PER_BLOCK - (i + 1)) t;
         clear_ends n chain j t1 })"

definition kill_subtree :: "nat \<Rightarrow> nat \<Rightarrow> blkmap \<Rightarrow> blkmap option" where
  "kill_subtree i d t =
    (let nr = bm_ib t ! i in if nr = 0 then Some t else free_one d nr (t\<lparr>bm_ib := (bm_ib t)[i := 0]\<rparr>))"

definition do_indirects :: "nat \<Rightarrow> blkmap \<Rightarrow> blkmap option" where
  "do_indirects off t = do {
     t1 \<leftarrow> (if off \<in> {INDIRECT_BLOCKS, DINDIRECT_BLOCKS, TINDIRECT_BLOCKS} then Some t else kill_subtree INDIRECT_BLOCKS 1 t);
     t2 \<leftarrow> (if off \<in> {DINDIRECT_BLOCKS, TINDIRECT_BLOCKS} then Some t1 else kill_subtree DINDIRECT_BLOCKS 2 t1);
     if off = TINDIRECT_BLOCKS then Some t2 else kill_subtree TINDIRECT_BLOCKS 3 t2 }"

text \<open>\<open>(s32)((s64)x >> 12)\<close>\<close>

definition size_to_blk :: "int \<Rightarrow> int" where
  "size_to_blk x = sint (word_of_int (x div 4096) :: 32 word)"

text \<open>A buffer of the shared branch whose top was detached is released twice, once before
  and once in the loop; the second release fails the assertion of \<open>nvfuse_dec_bc_ref\<close>.\<close>

definition truncate_blocks :: "int \<Rightarrow> blkmap \<Rightarrow> blkmap option" where
  "truncate_blocks offset t =
    (let offs = fst (block_to_path (size_to_blk (offset + 4096 - 1))); n = length offs in
     if n = 0 then Some t
     else if n = 1 then do {
       t1 \<leftarrow> free_data (InInode (hd offs)) (DIRECT_BLOCKS - hd offs) 0 0 t;
       do_indirects (hd offs) t1 }
     else let (chain, j, top, t0) = find_shared offs t in do {
       t1 \<leftarrow> (if top = 0 then Some t0 else free_one (n - 1 - j) top t0);
       assert_opt (top = 0 \<or> j = 0);
       t2 \<leftarrow> clear_ends n chain j t1;
       do_indirects (hd offs) t2 })"

text \<open>The size of the inode is \<open>isize\<close>; \<open>u32\<close> block counts.\<close>

definition drop_buffers :: "u32 \<Rightarrow> nat \<Rightarrow> nat \<Rightarrow> 'd buffer_manager \<Rightarrow> 'd buffer_manager" where
  "drop_buffers ino lo hi m =
     fold (\<lambda>b. move_bc_to_unused_list (make_pbno_key ino (word_of_nat b) 0)) (rev [lo..<hi]) m"

definition free_inode_size :: "u32 \<Rightarrow> int \<Rightarrow> int \<Rightarrow> blkmap \<Rightarrow> 'd buffer_manager \<Rightarrow> (blkmap \<times> 'd buffer_manager) option" where
  "free_inode_size ino isize sz t m =
    (let num = nat (isize div 4096) + (if isize mod 4096 = 0 then 0 else 1);
         trun = nat (sz div 4096)
     in if num = 0 \<or> num \<le> trun then Some (t, m)
        else do { t1 \<leftarrow> truncate_blocks sz t; Some (t1, drop_buffers ino trun num m) })"

section \<open>Blocks of a subtree\<close>

text \<open>The blocks of a subtree in the order in which they are freed.\<close>

fun subs :: "(nat \<Rightarrow> nat list) \<Rightarrow> nat \<Rightarrow> nat \<Rightarrow> nat list" where
  "subs mb 0 b = (if b = 0 then [] else [b])"
| "subs mb (Suc d) b = (if b = 0 then [] else concat (map (subs mb d) (mb b)) @ [b])"

lemma subs_zero [simp]: "subs mb d 0 = []"
  by (cases d) simp_all

lemma subs_root: "b \<noteq> 0 \<Longrightarrow> b \<in> set (subs mb d b)"
  by (cases d) simp_all

lemma subs_nonzero: "x \<in> set (subs mb d b) \<Longrightarrow> x \<noteq> 0"
  by (induction d arbitrary: b) (auto split: if_splits)

lemma subs_cong: "(\<And>x. x \<in> set (subs mb d b) \<Longrightarrow> mb' x = mb x) \<Longrightarrow> subs mb' d b = subs mb d b"
proof (induction d arbitrary: b)
  case (Suc d)
  show ?case
  proof (cases "b = 0")
    case False
    have "mb' b = mb b" using Suc.prems [of b] False by simp
    moreover have "subs mb' d x = subs mb d x" if "x \<in> set (mb b)" for x
      using Suc.IH [of x] Suc.prems False that by auto
    ultimately show ?thesis using False by (simp cong: map_cong)
  qed simp
qed simp

definition region :: "blkmap \<Rightarrow> ploc \<Rightarrow> nat \<Rightarrow> nat list" where
  "region t p k = map (\<lambda>i. load t (ploc_add p i)) [0..<k]"

lemma ploc_add_0 [simp]: "ploc_add p 0 = p"
  by (cases p) simp_all

lemma ploc_add_add: "ploc_add (ploc_add p i) j = ploc_add p (i + j)"
  by (cases p) simp_all

lemma region_0 [simp]: "region t p 0 = []"
  by (simp add: region_def)

lemma region_Suc: "region t p (Suc k) = load t p # region t (ploc_add p 1) k"
  by (simp add: region_def upt_conv_Cons map_Suc_upt [symmetric] comp_def ploc_add_add del: upt_Suc)

fun in_range :: "blkmap \<Rightarrow> ploc \<Rightarrow> nat \<Rightarrow> bool" where
  "in_range t (InInode i) k \<longleftrightarrow> i + k \<le> length (bm_ib t)"
| "in_range t (InBlock b i) k \<longleftrightarrow> i + k \<le> length (bm_mb t b)"

lemma load_store:
  assumes "in_range t p (Suc k)" "i \<le> k"
  shows "load (store_run p [v] t) (ploc_add p i) = (if i = 0 then v else load t (ploc_add p i))"
  using assms by (cases p) auto

lemma region_store:
  assumes "in_range t p (Suc k)"
  shows "region (store_run p [v] t) (ploc_add p 1) k = region t (ploc_add p 1) k"
  unfolding region_def using load_store [OF assms] by (auto simp: ploc_add_add)

lemma in_range_Suc: "in_range t p (Suc k) \<Longrightarrow> in_range (store_run p [v] t) (ploc_add p 1) k \<and> in_range t (ploc_add p 1) k"
  by (cases p) auto

lemma region_block: "length (bm_mb t b) = k \<Longrightarrow> region t (InBlock b 0) k = bm_mb t b"
  by (auto simp: region_def intro: nth_equalityI)

section \<open>What freeing needs and does\<close>

definition freeable :: "fs \<Rightarrow> nat list \<Rightarrow> bool" where
  "freeable s L \<longleftrightarrow> alloc_inv s \<and> fs_primary s \<and> distinct L
     \<and> (\<forall>x\<in>set L. x < bgn s * 32768 \<and> 4100 \<le> x mod 32768 \<and> block_used s x)
     \<and> int (length L) \<le> sb_no_of_used_blocks (fs_sb s)"

lemma freeable_step:
  assumes "freeable s (A @ B)" "free_post s (set A) s'"
  shows "freeable s' B"
  using assms by (auto simp: freeable_def free_post_def distinct_card)

lemma freeable_sub:
  "freeable s (A @ B) \<Longrightarrow> freeable s A" "freeable s L \<Longrightarrow> set L = set L' \<Longrightarrow> distinct L' \<Longrightarrow> freeable s L'"
  unfolding freeable_def by (auto, metis distinct_card)

lemma free_post_append:
  assumes "free_post s (set A) s'" "free_post s' (set B) s''" "distinct (A @ B)"
  shows "free_post s (set (A @ B)) s''"
  using free_post_trans [OF assms(1,2)] assms(3) by auto

lemma free_blk_spec:
  assumes "freeable (bm_fs t) [b..<b + c]"
  shows "\<exists>s. free_blk b c t = Some (t\<lparr>bm_fs := s\<rparr>) \<and> free_post (bm_fs t) (set [b..<b + c]) s"
proof (cases "c = 0")
  case True
  with assms free_post_refl show ?thesis by (intro exI [of _ "bm_fs t"]) (auto simp: free_blk_def free_blocks_def freeable_def)
next
  case False
  have "b + c - 1 \<in> set [b..<b + c]" using False by simp
  then have "b + c - 1 < bgn (bm_fs t) * 32768" using assms unfolding freeable_def by blast
  then have "b + c \<le> bgn (bm_fs t) * 32768" using False by linarith
  with free_blocks_spec [of "bm_fs t" b c] assms obtain s where
    "free_blocks b c (bm_fs t) = Some s" "free_post (bm_fs t) {b..<b + c} s" by (auto simp: freeable_def)
  then show ?thesis by (intro exI [of _ s]) (simp add: free_blk_def)
qed

text \<open>Blocks outside \<open>A\<close> keep their pointers.\<close>

definition frame :: "nat set \<Rightarrow> blkmap \<Rightarrow> blkmap \<Rightarrow> bool" where
  "frame A t t' \<longleftrightarrow> (\<forall>b. b \<notin> A \<longrightarrow> bm_mb t' b = bm_mb t b) \<and> (\<forall>b. length (bm_mb t' b) = length (bm_mb t b))"

lemma frame_trans: "frame A t t' \<Longrightarrow> frame B t' t'' \<Longrightarrow> frame (A \<union> B) t t''"
  by (auto simp: frame_def)

lemma frame_mono: "frame A t t' \<Longrightarrow> A \<subseteq> B \<Longrightarrow> frame B t t'"
  by (auto simp: frame_def)

fun holder :: "ploc \<Rightarrow> nat set" where
  "holder (InInode i) = {}"
| "holder (InBlock b i) = {b}"

lemma holder_add [simp]: "holder (ploc_add p k) = holder p"
  by (cases p) simp_all

lemma frame_store: "frame (holder p) t (store_run p vs t)"
  by (cases p) (auto simp: frame_def)

definition ib_after :: "ploc \<Rightarrow> nat \<Rightarrow> nat list \<Rightarrow> nat list" where
  "ib_after p k ib = (case p of InInode i \<Rightarrow> write_run ib i (replicate k 0) | InBlock _ _ \<Rightarrow> ib)"

lemma write_run_zero: "i < length xs \<Longrightarrow> xs ! i = v \<Longrightarrow> write_run xs i (v # vs) = write_run xs (i + 1) vs"
  by (metis list_update_id write_run.simps(2))

lemma ib_after_store:
  assumes "in_range t p (Suc k)"
  shows "ib_after (ploc_add p 1) k (bm_ib (store_run p [0] t)) = ib_after p (Suc k) (bm_ib t)"
    "load t p = 0 \<Longrightarrow> ib_after (ploc_add p 1) k (bm_ib t) = ib_after p (Suc k) (bm_ib t)"
proof -
  show "ib_after (ploc_add p 1) k (bm_ib (store_run p [0] t)) = ib_after p (Suc k) (bm_ib t)"
    by (cases p) (simp_all add: ib_after_def)
  show "ib_after (ploc_add p 1) k (bm_ib t) = ib_after p (Suc k) (bm_ib t)" if "load t p = 0"
  proof (cases p)
    case (InInode i)
    then show ?thesis using that assms write_run_zero [of i "bm_ib t" 0] by (simp add: ib_after_def del: write_run.simps)
  qed (simp add: ib_after_def)
qed

lemma free_data_spec:
  assumes "freeable (bm_fs t) ([b..<b + c] @ filter (\<lambda>x. x \<noteq> 0) (region t p k))" "in_range t p k"
  shows "\<exists>t'. free_data p k b c t = Some t'
    \<and> free_post (bm_fs t) (set ([b..<b + c] @ filter (\<lambda>x. x \<noteq> 0) (region t p k))) (bm_fs t')
    \<and> frame (holder p) t t' \<and> bm_ib t' = ib_after p k (bm_ib t)"
  using assms
proof (induction k arbitrary: p b c t)
  case 0
  have ib: "ib_after p 0 ib = ib" for ib by (simp add: ib_after_def split: ploc.split)
  have fr: "frame A t (t\<lparr>bm_fs := s\<rparr>)" "frame A t t" for A s by (simp_all add: frame_def)
  show ?case
  proof (cases "c = 0")
    case True
    then show ?thesis using 0 free_post_refl fr ib by (auto simp: freeable_def)
  next
    case False
    then show ?thesis using free_blk_spec [of t b c] 0 fr ib by auto
  qed
next
  case (Suc k)
  let ?nr = "load t p" and ?p = "ploc_add p 1" and ?t = "store_run p [0] t"
  have rg: "region ?t ?p k = region t ?p k" by (rule region_store [OF Suc.prems(2)])
  have ir: "in_range ?t ?p k" "in_range t ?p k" using in_range_Suc [OF Suc.prems(2)] by blast+
  note ib = ib_after_store [OF Suc.prems(2)]
  have fs: "bm_fs ?t = bm_fs t" by simp
  have fr1: "frame (holder p) t t'" if "frame (holder ?p) ?t t'" for t'
    using frame_trans [OF frame_store that] by simp
  let ?F = "filter (\<lambda>x. x \<noteq> 0) (region t ?p k)"
  consider (zero) "?nr = 0" | (first) "?nr \<noteq> 0" "c = 0" | (run) "?nr \<noteq> 0" "c \<noteq> 0" "b + c = ?nr"
    | (gap) "?nr \<noteq> 0" "c \<noteq> 0" "b + c \<noteq> ?nr" by blast
  then show ?case
  proof cases
    case zero
    then show ?thesis using Suc.IH [of t b c ?p] Suc.prems(1) ir(2) ib(2) by (simp add: region_Suc)
  next
    case first
    have "freeable (bm_fs ?t) ([?nr..<?nr + 1] @ filter (\<lambda>x. x \<noteq> 0) (region ?t ?p k))"
      using Suc.prems(1) first unfolding rg by (simp add: region_Suc)
    from Suc.IH [OF this ir(1)] show ?thesis using first fr1 ib(1) unfolding rg by (auto simp: region_Suc)
  next
    case run
    have e: "[b..<b + (c + 1)] = [b..<b + c] @ [?nr]" using run by simp
    have "freeable (bm_fs ?t) ([b..<b + (c + 1)] @ filter (\<lambda>x. x \<noteq> 0) (region ?t ?p k))"
      using Suc.prems(1) run unfolding rg e by (simp add: region_Suc)
    from Suc.IH [OF this ir(1)] show ?thesis using run fr1 ib(1) unfolding rg e by (auto simp: region_Suc)
  next
    case gap
    have f: "freeable (bm_fs t) ([b..<b + c] @ (?nr # ?F))" using Suc.prems(1) gap by (simp add: region_Suc)
    obtain s where s: "free_blk b c ?t = Some (?t\<lparr>bm_fs := s\<rparr>)" "free_post (bm_fs t) (set [b..<b + c]) s"
      using free_blk_spec [of ?t b c] freeable_sub(1) [OF f] by auto
    let ?t2 = "?t\<lparr>bm_fs := s\<rparr>"
    have rg2: "region ?t2 ?p k = region t ?p k" "in_range ?t2 ?p k" "frame A ?t ?t2" "bm_ib ?t2 = bm_ib ?t" for A
      using rg ir(1) by (cases p; simp add: region_def frame_def)+
    have "freeable (bm_fs ?t2) ([?nr..<?nr + 1] @ filter (\<lambda>x. x \<noteq> 0) (region ?t2 ?p k))"
      using freeable_step [OF f s(2)] unfolding rg2 by simp
    from Suc.IH [OF this rg2(2)] obtain t' where t': "free_data ?p k ?nr 1 ?t2 = Some t'"
      "free_post s (set (?nr # ?F)) (bm_fs t')" "frame (holder ?p) ?t2 t'" "bm_ib t' = ib_after ?p k (bm_ib ?t2)"
      unfolding rg2 by auto
    have "free_post (bm_fs t) (set ([b..<b + c] @ ?nr # ?F)) (bm_fs t')"
      using f by (intro free_post_append [OF s(2) t'(2)]) (simp add: freeable_def)
    moreover have "frame (holder p) t t'" using fr1 frame_trans [OF rg2(3) t'(3)] by (metis holder_add sup.idem)
    ultimately show ?thesis using gap s(1) t'(1,4) ib(1) rg2(4) by (auto simp: region_Suc)
  qed
qed

lemma concat_subs0: "concat (map (subs mb 0) xs) = filter (\<lambda>x. x \<noteq> 0) xs"
  by (induction xs) simp_all

text \<open>The subtrees of a region inside a block \<open>c\<close>.\<close>

lemma free_branches_spec:
  assumes "freeable (bm_fs t) (concat (map (subs (bm_mb t) d) (region t (InBlock c i) k)))"
    "i + k \<le> 1024" "\<forall>b. length (bm_mb t b) = 1024" "c \<notin> set (concat (map (subs (bm_mb t) d) (region t (InBlock c i) k)))"
  shows "\<exists>t'. free_branches d (InBlock c i) k t = Some t'
    \<and> free_post (bm_fs t) (set (concat (map (subs (bm_mb t) d) (region t (InBlock c i) k)))) (bm_fs t')
    \<and> frame (insert c (set (concat (map (subs (bm_mb t) d) (region t (InBlock c i) k))))) t t' \<and> bm_ib t' = bm_ib t"
  using assms
proof (induction d arbitrary: c i k t)
  case 0
  have "in_range t (InBlock c i) k" using 0 by simp
  moreover have "freeable (bm_fs t) ([0..<0 + 0] @ filter (\<lambda>x. x \<noteq> 0) (region t (InBlock c i) k))"
    using 0(1) unfolding concat_subs0 by simp
  ultimately obtain t' where t': "free_data (InBlock c i) k 0 0 t = Some t'"
    "free_post (bm_fs t) (set (filter (\<lambda>x. x \<noteq> 0) (region t (InBlock c i) k))) (bm_fs t')"
    "frame {c} t t'" "bm_ib t' = bm_ib t"
    using free_data_spec [of t 0 0 "InBlock c i" k] by (auto simp: ib_after_def)
  then show ?case unfolding concat_subs0 using frame_mono [OF t'(3)] by auto
next
  case (Suc d)
  note outer = Suc.IH
  show ?case using Suc.prems
  proof (induction k arbitrary: i t)
    case 0
    then show ?case using free_post_refl by (auto simp: freeable_def frame_def)
  next
    case (Suc k)
    let ?nr = "bm_mb t c ! i" and ?t0 = "store_run (InBlock c i) [0] t"
    let ?R = "region t (InBlock c (i + 1)) k"
    let ?B = "concat (map (subs (bm_mb t) (Suc d)) ?R)"
    have L: "region t (InBlock c i) (Suc k) = ?nr # ?R" by (simp add: region_Suc)
    have i: "i + 1 + k \<le> 1024" using Suc.prems(2) by simp
    show ?case
    proof (cases "?nr = 0")
      case True
      then show ?thesis using Suc.IH [OF _ i Suc.prems(3)] Suc.prems(1,4) unfolding L by simp
    next
      case False
      let ?A1 = "concat (map (subs (bm_mb t) d) (bm_mb t ?nr))"
      have Leq: "concat (map (subs (bm_mb t) (Suc d)) (?nr # ?R)) = ?A1 @ ?nr # ?B" using False by simp
      have f: "freeable (bm_fs t) (?A1 @ [?nr] @ ?B)" and cL: "c \<notin> set (?A1 @ [?nr] @ ?B)"
        using Suc.prems(1,4) unfolding L Leq by simp_all
      have dist: "distinct (?A1 @ [?nr] @ ?B)" using f by (simp add: freeable_def)
      have mb0: "bm_mb ?t0 b = bm_mb t b" if "b \<noteq> c" for b using that by simp
      have sub0: "map (subs (bm_mb ?t0) d) (bm_mb t ?nr) = map (subs (bm_mb t) d) (bm_mb t ?nr)"
      proof (rule map_cong [OF refl subs_cong])
        fix x y assume "x \<in> set (bm_mb t ?nr)" "y \<in> set (subs (bm_mb t) d x)"
        then have "y \<in> set ?A1" by auto
        then show "bm_mb ?t0 y = bm_mb t y" using cL by (intro mb0) auto
      qed
      have r0: "region ?t0 (InBlock ?nr 0) 1024 = bm_mb t ?nr" using region_block [of ?t0 ?nr 1024] mb0 [of ?nr] cL Suc.prems(3) by auto
      have "\<exists>t1. free_branches d (InBlock ?nr 0) 1024 ?t0 = Some t1 \<and> free_post (bm_fs ?t0) (set ?A1) (bm_fs t1)
          \<and> frame (insert ?nr (set ?A1)) ?t0 t1 \<and> bm_ib t1 = bm_ib ?t0"
        using outer [of ?t0 ?nr 0 1024] f dist Suc.prems(3) freeable_sub(1) [OF f] unfolding r0 sub0 by auto
      then obtain t1 where t1: "free_branches d (InBlock ?nr 0) 1024 ?t0 = Some t1" "free_post (bm_fs t) (set ?A1) (bm_fs t1)"
        "frame (insert ?nr (set ?A1)) ?t0 t1" "bm_ib t1 = bm_ib t" by auto
      have f1: "freeable (bm_fs t1) ([?nr] @ ?B)" by (rule freeable_step [OF f t1(2)])
      obtain s where s: "free_blk ?nr 1 t1 = Some (t1\<lparr>bm_fs := s\<rparr>)" "free_post (bm_fs t1) (set [?nr]) s"
        using free_blk_spec [of t1 ?nr 1] freeable_sub(1) [OF f1] by auto
      define t2 where "t2 = t1\<lparr>bm_fs := s\<rparr>"
      have f2: "freeable (bm_fs t2) ?B" using freeable_step [OF f1 s(2)] by (simp add: t2_def)
      have fr2: "frame (insert ?nr (set ?A1)) ?t0 t2" using t1(3) by (simp add: t2_def frame_def)
      have mb2: "bm_mb t2 b = bm_mb t b" if "b \<noteq> c" "b \<noteq> ?nr" "b \<notin> set ?A1" for b
        using fr2 mb0 [OF that(1)] that(2,3) unfolding frame_def by auto
      have mbc: "bm_mb t2 c = (bm_mb t c)[i := 0]" using fr2 cL unfolding frame_def by auto
      have r2: "region t2 (InBlock c (i + 1)) k = ?R" using mbc by (simp add: region_def)
      have sub2: "map (subs (bm_mb t2) (Suc d)) ?R = map (subs (bm_mb t) (Suc d)) ?R"
      proof (rule map_cong [OF refl subs_cong])
        fix x y assume "x \<in> set ?R" "y \<in> set (subs (bm_mb t) (Suc d) x)"
        then have "y \<in> set ?B" by (auto simp del: subs.simps)
        then have "y \<noteq> c" "y \<noteq> ?nr" "y \<notin> set ?A1" using cL dist by (auto simp del: subs.simps)
        then show "bm_mb t2 y = bm_mb t y" by (rule mb2)
      qed
      have len2: "\<forall>b. length (bm_mb t2 b) = 1024" using fr2 Suc.prems(3) unfolding frame_def by simp
      have "\<exists>t'. free_branches (Suc d) (InBlock c (i + 1)) k t2 = Some t' \<and> free_post (bm_fs t2) (set ?B) (bm_fs t')
          \<and> frame (insert c (set ?B)) t2 t' \<and> bm_ib t' = bm_ib t2"
        using Suc.IH [of t2 "i + 1"] f2 i len2 cL unfolding r2 sub2 by (simp del: subs.simps)
      then obtain t' where t': "free_branches (Suc d) (InBlock c (i + 1)) k t2 = Some t'"
        "free_post (bm_fs t2) (set ?B) (bm_fs t')" "frame (insert c (set ?B)) t2 t'" "bm_ib t' = bm_ib t2" by blast
      have "free_post (bm_fs t) (set (?A1 @ [?nr] @ ?B)) (bm_fs t')"
      proof (rule free_post_append [OF t1(2) _ dist])
        show "free_post (bm_fs t1) (set ([?nr] @ ?B)) (bm_fs t')"
          by (rule free_post_append [OF s(2)]) (use t'(2) dist in \<open>simp_all add: t2_def\<close>)
      qed
      moreover have "frame (insert c (set (?A1 @ [?nr] @ ?B))) t t'"
        by (rule frame_mono [OF frame_trans [OF frame_trans [OF frame_store fr2] t'(3)]]) auto
      moreover have "free_branches (Suc d) (InBlock c i) (Suc k) t = Some t'"
        using False t1(1) s(1) t'(1) by (simp add: PTRS_PER_BLOCK_def t2_def)
      ultimately show ?thesis using t1(4) t'(4) unfolding L Leq by (auto simp: t2_def simp del: subs.simps)
    qed
  qed
qed

lemma free_one_spec:
  assumes "freeable (bm_fs t) (subs (bm_mb t) d nr)" "\<forall>b. length (bm_mb t b) = 1024"
  shows "\<exists>t'. free_one d nr t = Some t' \<and> free_post (bm_fs t) (set (subs (bm_mb t) d nr)) (bm_fs t')
    \<and> frame (set (subs (bm_mb t) d nr)) t t' \<and> bm_ib t' = bm_ib t"
proof (cases d)
  case 0
  have fr: "frame A t (t\<lparr>bm_fs := s\<rparr>)" for A s by (simp add: frame_def)
  show ?thesis
  proof (cases "nr = 0")
    case False
    then show ?thesis using free_blk_spec [of t nr 1] assms(1) fr 0 by auto
  qed (use assms free_post_refl 0 in \<open>simp add: freeable_def frame_def\<close>)
next
  case (Suc e)
  show ?thesis
  proof (cases "nr = 0")
    case True
    then show ?thesis using assms free_post_refl Suc by (simp add: freeable_def frame_def)
  next
    case False
    let ?A = "concat (map (subs (bm_mb t) e) (bm_mb t nr))"
    have e: "subs (bm_mb t) d nr = ?A @ [nr]" using False Suc by simp
    have f: "freeable (bm_fs t) (?A @ [nr])" using assms(1) unfolding e .
    have r: "region t (InBlock nr 0) 1024 = bm_mb t nr" using region_block assms(2) by blast
    have "nr \<notin> set ?A" using f by (auto simp: freeable_def)
    then obtain t1 where t1: "free_branches e (InBlock nr 0) 1024 t = Some t1" "free_post (bm_fs t) (set ?A) (bm_fs t1)"
      "frame (insert nr (set ?A)) t t1" "bm_ib t1 = bm_ib t"
      using free_branches_spec [of t e nr 0 1024] freeable_sub(1) [OF f] assms(2) unfolding r by auto
    obtain s where s: "free_blk nr 1 t1 = Some (t1\<lparr>bm_fs := s\<rparr>)" "free_post (bm_fs t1) (set [nr]) s"
      using free_blk_spec [of t1 nr 1] freeable_step [OF f t1(2)] by auto
    have "free_post (bm_fs t) (set (?A @ [nr])) s"
      by (rule free_post_append [OF t1(2) s(2)]) (use f in \<open>simp add: freeable_def\<close>)
    moreover have "free_one d nr t = Some (t1\<lparr>bm_fs := s\<rparr>)" using Suc False t1(1) s(1) by (simp add: PTRS_PER_BLOCK_def)
    moreover have "frame (set (?A @ [nr])) t (t1\<lparr>bm_fs := s\<rparr>)" using t1(3) by (simp add: frame_def)
    ultimately show ?thesis unfolding e using t1(4) by simp
  qed
qed

lemma kill_subtree_spec:
  assumes "freeable (bm_fs t) (subs (bm_mb t) d (bm_ib t ! i))" "\<forall>b. length (bm_mb t b) = 1024"
  shows "\<exists>t'. kill_subtree i d t = Some t' \<and> free_post (bm_fs t) (set (subs (bm_mb t) d (bm_ib t ! i))) (bm_fs t')
    \<and> frame (set (subs (bm_mb t) d (bm_ib t ! i))) t t' \<and> bm_ib t' = (bm_ib t)[i := 0]"
proof (cases "bm_ib t ! i = 0")
  case True
  then have "(bm_ib t)[i := 0] = bm_ib t" by (metis list_update_id)
  then show ?thesis using True assms(1) free_post_refl by (simp add: kill_subtree_def freeable_def frame_def)
next
  case False
  let ?t = "t\<lparr>bm_ib := (bm_ib t)[i := 0]\<rparr>"
  obtain t' where "free_one d (bm_ib t ! i) ?t = Some t'" "free_post (bm_fs t) (set (subs (bm_mb t) d (bm_ib t ! i))) (bm_fs t')"
    "frame (set (subs (bm_mb t) d (bm_ib t ! i))) ?t t'" "bm_ib t' = (bm_ib t)[i := 0]"
    using free_one_spec [of ?t d "bm_ib t ! i"] assms by auto
  then show ?thesis using False by (auto simp: kill_subtree_def frame_def)
qed

section \<open>Blocks of a file\<close>

text \<open>The blocks a file has from the direct pointer \<open>i\<close> on.\<close>

definition file_blocks :: "blkmap \<Rightarrow> nat \<Rightarrow> nat list" where
  "file_blocks t i = filter (\<lambda>x. x \<noteq> 0) (map ((!) (bm_ib t)) [i..<11])
     @ subs (bm_mb t) 1 (bm_ib t ! 11) @ subs (bm_mb t) 2 (bm_ib t ! 12) @ subs (bm_mb t) 3 (bm_ib t ! 13)"

lemma truncate_direct:
  assumes f: "freeable (bm_fs t) (file_blocks t i)" and i: "i \<le> 11" and len: "length (bm_ib t) = 14" "\<forall>b. length (bm_mb t b) = 1024"
  shows "\<exists>t1 t'. free_data (InInode i) (11 - i) 0 0 t = Some t1
    \<and> do { a \<leftarrow> kill_subtree 11 1 t1; b \<leftarrow> kill_subtree 12 2 a; kill_subtree 13 3 b } = Some t'
    \<and> free_post (bm_fs t) (set (file_blocks t i)) (bm_fs t') \<and> frame (set (file_blocks t i)) t t'
    \<and> bm_ib t' = take i (bm_ib t) @ replicate (14 - i) 0"
proof -
  let ?D = "filter (\<lambda>x. x \<noteq> 0) (map ((!) (bm_ib t)) [i..<11])"
  let ?S1 = "subs (bm_mb t) 1 (bm_ib t ! 11)" and ?S2 = "subs (bm_mb t) 2 (bm_ib t ! 12)" and ?S3 = "subs (bm_mb t) 3 (bm_ib t ! 13)"
  have fb: "file_blocks t i = ?D @ ?S1 @ ?S2 @ ?S3" by (simp add: file_blocks_def)
  have f0: "freeable (bm_fs t) (?D @ ?S1 @ ?S2 @ ?S3)" using f unfolding fb .
  have dist: "distinct (?D @ ?S1 @ ?S2 @ ?S3)" using f0 by (simp add: freeable_def)
  have rg: "region t (InInode i) (11 - i) = map ((!) (bm_ib t)) [i..<11]"
    by (rule nth_equalityI) (auto simp: region_def)
  obtain t1 where t1: "free_data (InInode i) (11 - i) 0 0 t = Some t1" "free_post (bm_fs t) (set ?D) (bm_fs t1)"
    "frame {} t t1" "bm_ib t1 = write_run (bm_ib t) i (replicate (11 - i) 0)"
    using free_data_spec [of t 0 0 "InInode i" "11 - i"] freeable_sub(1) [OF f0] len(1) i unfolding rg by (auto simp: ib_after_def)
  have ib1: "bm_ib t1 ! j = (if i \<le> j \<and> j < 11 then 0 else bm_ib t ! j)" if "j < 14" for j
    unfolding t1(4) using nth_write_run [of i "replicate (11 - i) 0" "bm_ib t" j] that len(1) i by auto
  have mb1: "bm_mb t1 = bm_mb t" using t1(3) by (simp add: frame_def fun_eq_iff)
  have f1: "freeable (bm_fs t1) (?S1 @ ?S2 @ ?S3)" by (rule freeable_step [OF f0 t1(2)])
  obtain t2 where t2: "kill_subtree 11 1 t1 = Some t2" "free_post (bm_fs t1) (set ?S1) (bm_fs t2)" "frame (set ?S1) t1 t2"
    "bm_ib t2 = (bm_ib t1)[11 := 0]"
    using kill_subtree_spec [of t1 1 11] freeable_sub(1) [OF f1] len(2) ib1 [of 11] unfolding mb1 by auto
  have f2: "freeable (bm_fs t2) (?S2 @ ?S3)" by (rule freeable_step [OF f1 t2(2)])
  have sub2: "subs (bm_mb t2) 2 (bm_ib t2 ! 12) = ?S2"
  proof -
    have "bm_ib t2 ! 12 = bm_ib t ! 12" using t2(4) ib1 [of 12] by simp
    moreover have "subs (bm_mb t2) 2 (bm_ib t ! 12) = ?S2"
      by (rule subs_cong) (use t2(3) mb1 dist in \<open>auto simp: frame_def\<close>)
    ultimately show ?thesis by simp
  qed
  have len2: "\<forall>b. length (bm_mb t2 b) = 1024" using t2(3) len(2) mb1 by (simp add: frame_def)
  obtain t3 where t3: "kill_subtree 12 2 t2 = Some t3" "free_post (bm_fs t2) (set ?S2) (bm_fs t3)" "frame (set ?S2) t2 t3"
    "bm_ib t3 = (bm_ib t2)[12 := 0]"
    using kill_subtree_spec [of t2 2 12] freeable_sub(1) [OF f2] len2 unfolding sub2 by auto
  have f3: "freeable (bm_fs t3) ?S3" by (rule freeable_step [OF f2 t3(2)])
  have sub3: "subs (bm_mb t3) 3 (bm_ib t3 ! 13) = ?S3"
  proof -
    have "bm_ib t3 ! 13 = bm_ib t ! 13" using t3(4) t2(4) ib1 [of 13] by simp
    moreover have "subs (bm_mb t3) 3 (bm_ib t ! 13) = ?S3"
    proof (rule subs_cong)
      fix x assume "x \<in> set ?S3"
      then have "x \<notin> set ?S1" "x \<notin> set ?S2" using dist by auto
      then show "bm_mb t3 x = bm_mb t x" using t3(3) t2(3) mb1 by (simp add: frame_def)
    qed
    ultimately show ?thesis by simp
  qed
  have len3: "\<forall>b. length (bm_mb t3 b) = 1024" using t3(3) len2 by (simp add: frame_def)
  obtain t4 where t4: "kill_subtree 13 3 t3 = Some t4" "free_post (bm_fs t3) (set ?S3) (bm_fs t4)" "frame (set ?S3) t3 t4"
    "bm_ib t4 = (bm_ib t3)[13 := 0]"
    using kill_subtree_spec [of t3 3 13] f3 len3 unfolding sub3 by auto
  have "free_post (bm_fs t) (set (?D @ ?S1 @ ?S2 @ ?S3)) (bm_fs t4)"
    by (intro free_post_append [OF t1(2)] free_post_append [OF t2(2)] free_post_append [OF t3(2)] t4(2)) (use dist in auto)
  moreover have "frame (set (?D @ ?S1 @ ?S2 @ ?S3)) t t4"
    by (rule frame_mono [OF frame_trans [OF t1(3) frame_trans [OF t2(3) frame_trans [OF t3(3) t4(3)]]]]) auto
  moreover have "bm_ib t4 = take i (bm_ib t) @ replicate (14 - i) 0"
  proof (rule nth_equalityI)
    show "length (bm_ib t4) = length (take i (bm_ib t) @ replicate (14 - i) 0)" using t4(4) t3(4) t2(4) t1(4) len(1) i by simp
    fix j assume "j < length (bm_ib t4)"
    then have "j < 14" using t4(4) t3(4) t2(4) t1(4) len(1) by simp
    then show "bm_ib t4 ! j = (take i (bm_ib t) @ replicate (14 - i) 0) ! j"
      using t4(4) t3(4) t2(4) t1(4) len(1) i ib1 [of j] by (auto simp: nth_append nth_list_update)
  qed
  ultimately show ?thesis using t1(1) t2(1) t3(1) t4(1) unfolding fb by auto
qed

section \<open>The blocks of a well-formed file\<close>

lemma distinct_concat_map:
  assumes "\<And>i. i < n \<Longrightarrow> distinct (g i)" "\<And>i j. i < n \<Longrightarrow> j < n \<Longrightarrow> i \<noteq> j \<Longrightarrow> set (g i) \<inter> set (g j) = {}"
  shows "distinct (concat (map g [0..<n]))"
  using assms
proof (induction n)
  case (Suc n)
  then have "set (g i) \<inter> set (g n) = {}" if "i < n" for i using that by simp
  moreover have "distinct (concat (map g [0..<n]))" using Suc by simp
  ultimately show ?case using Suc.prems(1) [of n] by (auto simp: disjoint_iff)
qed simp

definition below :: "blkmap \<Rightarrow> nat list \<Rightarrow> nat set" where
  "below t q = {node t (r @ q) | r. rpath (r @ q) \<and> node t (r @ q) \<noteq> 0}"

lemma tree_invD:
  assumes "tree_inv t"
  shows "alloc_inv (bm_fs t)" "fs_primary (bm_fs t)" "length (bm_ib t) = 14" "length (bm_mb t b) = 1024"
    "rpath q \<Longrightarrow> node t q \<noteq> 0 \<Longrightarrow> data_block (bm_fs t) (node t q)"
    "rpath p \<Longrightarrow> rpath q \<Longrightarrow> node t p = node t q \<Longrightarrow> node t p \<noteq> 0 \<Longrightarrow> p = q"
  using assms unfolding tree_inv_def by blast+

lemma below_disjoint:
  assumes "tree_inv t" "length p = length q" "p \<noteq> q"
  shows "below t p \<inter> below t q = {}"
proof (rule ccontr)
  assume "below t p \<inter> below t q \<noteq> {}"
  then obtain r r' where "rpath (r @ p)" "rpath (r' @ q)" "node t (r @ p) = node t (r' @ q)" "node t (r @ p) \<noteq> 0"
    unfolding below_def by blast
  then have "r @ p = r' @ q" using tree_invD(6) [OF assms(1)] by blast
  then show False using assms(2,3) by simp
qed

lemma subs_paths:
  assumes "tree_inv t" "rpath q" "length q + d = depth_of (last q)"
  shows "distinct (subs (bm_mb t) d (node t q)) \<and> set (subs (bm_mb t) d (node t q)) = below t q"
  using assms(2,3)
proof (induction d arbitrary: q)
  case 0
  have "rpath (r @ q) \<longleftrightarrow> r = []" for r
    using 0(1) 0(2) by (auto simp: rpath_def split: if_splits)
  then have "below t q = (if node t q = 0 then {} else {node t q})" unfolding below_def by auto
  then show ?case by simp
next
  case (Suc d)
  have q: "q \<noteq> []" using Suc.prems(1) by (simp add: rpath_def)
  show ?case
  proof (cases "node t q = 0")
    case True
    then show ?thesis using node_zero_append [OF True q] by (auto simp: below_def)
  next
    case False
    let ?g = "\<lambda>i. subs (bm_mb t) d (node t (i # q))"
    have "bm_mb t (node t q) = map (\<lambda>i. node t (i # q)) [0..<1024]"
      using tree_invD(4) [OF assms(1), of "node t q"] False q by (intro nth_equalityI) (simp_all add: node_Cons)
    then have e: "subs (bm_mb t) (Suc d) (node t q) = concat (map ?g [0..<1024]) @ [node t q]"
      using False by (simp add: comp_def)
    have ch: "rpath (i # q)" "length (i # q) + d = depth_of (last (i # q))" if "i < 1024" for i
      using that Suc.prems q by (simp_all add: rpath_Cons)
    have g: "distinct (?g i)" "set (?g i) = below t (i # q)" if "i < 1024" for i
      using Suc.IH [OF ch [OF that]] by blast+
    have "distinct (concat (map ?g [0..<1024]))"
      by (rule distinct_concat_map) (use g below_disjoint [OF assms(1)] in auto)
    moreover have un: "set (concat (map ?g [0..<1024])) = (\<Union>i<1024. below t (i # q))" using g(2) by auto
    moreover have "node t q \<notin> below t (i # q)" for i
    proof
      assume "node t q \<in> below t (i # q)"
      then obtain r where r: "node t q = node t (r @ i # q)" "rpath (r @ i # q)" unfolding below_def by blast
      then have "q = r @ i # q" using tree_invD(6) [OF assms(1) Suc.prems(1) r(2)] False by simp
      from arg_cong [OF this, of length] show False by simp
    qed
    moreover have "below t q = insert (node t q) (\<Union>i<1024. below t (i # q))"
    proof (intro equalityI subsetI)
      fix x assume "x \<in> below t q"
      then obtain r where r: "x = node t (r @ q)" "rpath (r @ q)" "x \<noteq> 0" unfolding below_def by blast
      show "x \<in> insert (node t q) (\<Union>i<1024. below t (i # q))"
      proof (cases r rule: rev_cases)
        case (snoc r' i)
        then have "rpath (i # q)" using r(2) rpath_append [of r' "i # q"] by simp
        then have "i < 1024" using q by (simp add: rpath_Cons)
        then show ?thesis using r snoc unfolding below_def by auto
      qed (use r in simp)
    next
      fix x assume "x \<in> insert (node t q) (\<Union>i<1024. below t (i # q))"
      then consider "x = node t q" | r i where "x = node t (r @ i # q)" "rpath (r @ i # q)" "x \<noteq> 0" unfolding below_def by blast
      then show "x \<in> below t q"
      proof cases
        case 1
        then show ?thesis using Suc.prems(1) False unfolding below_def by (auto intro!: exI [of _ "[]"])
      next
        case 2
        then show ?thesis unfolding below_def by (auto intro!: exI [of _ "r @ [i]"])
      qed
    qed
    ultimately show ?thesis unfolding e by (auto simp del: subs.simps)
  qed
qed

lemma file_blocks_freeable:
  assumes "tree_inv t" "i \<le> 11" "int (length (file_blocks t i)) \<le> sb_no_of_used_blocks (fs_sb (bm_fs t))"
  shows "freeable (bm_fs t) (file_blocks t i)" "set (file_blocks t i) = (\<Union>j\<in>{i..<14}. below t [j])"
proof -
  let ?D = "filter (\<lambda>x. x \<noteq> 0) (map ((!) (bm_ib t)) [i..<11])"
  have s0: "subs (bm_mb t) 0 (bm_ib t ! j) = (if bm_ib t ! j = 0 then [] else [bm_ib t ! j])" for j by simp
  have b: "distinct (subs (bm_mb t) (depth_of j - 1) (bm_ib t ! j))" "set (subs (bm_mb t) (depth_of j - 1) (bm_ib t ! j)) = below t [j]"
    if "j < 14" for j
    using subs_paths [OF assms(1), of "[j]" "depth_of j - 1"] that by (auto simp: depth_of_def)
  let ?g = "\<lambda>j. subs (bm_mb t) (depth_of (i + j) - 1) (bm_ib t ! (i + j))"
  have n: "14 - i = Suc (Suc (Suc (11 - i)))" using assms(2) by simp
  have "map ?g [0..<11 - i] = map (subs (bm_mb t) 0) (map ((!) (bm_ib t)) [i..<11])"
    by (rule nth_equalityI) (auto simp: depth_of_def)
  then have "concat (map ?g [0..<11 - i]) = ?D" using concat_subs0 by metis
  then have eq: "file_blocks t i = concat (map ?g [0..<14 - i])"
    unfolding n file_blocks_def using assms(2) by (simp add: depth_of_def numeral_2_eq_2 numeral_3_eq_3)
  have dist: "distinct (file_blocks t i)" unfolding eq
    by (rule distinct_concat_map) (use b below_disjoint [OF assms(1)] in auto)
  have "set (file_blocks t i) = (\<Union>j<14 - i. below t [i + j])" unfolding eq using b(2) by auto
  also have "\<dots> = (\<Union>j\<in>{i..<14}. below t [j])"
  proof (intro equalityI subsetI)
    fix x assume "x \<in> (\<Union>j\<in>{i..<14}. below t [j])"
    then obtain j where "i \<le> j" "j < 14" "x \<in> below t [i + (j - i)]" by auto
    then show "x \<in> (\<Union>j<14 - i. below t [i + j])" by (intro UN_I [of "j - i"]) auto
  qed (use assms(2) in auto)
  finally show st: "set (file_blocks t i) = (\<Union>j\<in>{i..<14}. below t [j])" .
  have "x < bgn (bm_fs t) * 32768 \<and> 4100 \<le> x mod 32768 \<and> block_used (bm_fs t) x" if "x \<in> set (file_blocks t i)" for x
    using that tree_invD(5) [OF assms(1)] unfolding st below_def data_block_def by blast
  then show "freeable (bm_fs t) (file_blocks t i)" using dist assms(3) tree_invD(1,2) [OF assms(1)] by (simp add: freeable_def)
qed

lemma block_to_path_direct: "0 \<le> l \<Longrightarrow> l < 11 \<Longrightarrow> fst (block_to_path l) = [nat l]"
  by (simp add: block_to_path_def ptr_consts Let_def)

lemma size_to_blk_small: "0 \<le> x \<Longrightarrow> x < 2 ^ 43 \<Longrightarrow> size_to_blk x = x div 4096"
  unfolding size_to_blk_def by (simp add: signed_of_int signed_take_bit_int_eq_self)

text \<open>A file that keeps only its first \<open>i\<close> direct pointers.\<close>

lemma truncated_tree:
  assumes t: "tree_inv t" and i: "i \<le> 11" and ib: "bm_ib t' = take i (bm_ib t) @ replicate (14 - i) 0"
    and fp: "free_post (bm_fs t) (set (file_blocks t i)) (bm_fs t')" and fr: "frame A t t'"
    and st: "set (file_blocks t i) = (\<Union>j\<in>{i..<14}. below t [j])"
  shows "rpath q \<Longrightarrow> node t' q = (if last q < i then node t q else 0)" "tree_inv t'"
proof -
  have len: "length (bm_ib t) = 14" using tree_invD(3) [OF t] .
  have nd: "node t' q = (if last q < i then node t q else 0)" if "rpath q" for q
  proof (cases "last q < i")
    case True
    then have "length q \<le> 1" using that i by (simp add: rpath_def depth_of_def)
    moreover have "q \<noteq> []" using that by (simp add: rpath_def)
    ultimately obtain j where "q = [j]" by (cases q) auto
    then show ?thesis using True ib i len by (simp add: nth_append)
  next
    case False
    have "q \<noteq> []" "last q < 14" using that by (simp_all add: rpath_def)
    then have "node t' [last q] = 0" using ib False len i by (simp add: nth_append)
    then have "node t' (butlast q @ [last q]) = 0" by (rule node_zero_append) simp
    then show ?thesis using False \<open>q \<noteq> []\<close> by simp
  qed
  then show "rpath q \<Longrightarrow> node t' q = (if last q < i then node t q else 0)" by blast
  have data: "data_block (bm_fs t') (node t' q)" if "rpath q" "node t' q \<noteq> 0" for q
  proof -
    have n: "node t' q = node t q" "node t q \<noteq> 0" "last q < i" using nd [OF that(1)] that(2) by (auto split: if_splits)
    then have d: "data_block (bm_fs t) (node t q)" using tree_invD(5) [OF t that(1)] by blast
    have "node t q \<notin> below t [j]" if "i \<le> j" for j
    proof
      assume "node t q \<in> below t [j]"
      then obtain r where r: "rpath (r @ [j])" "node t q = node t (r @ [j])" unfolding below_def by blast
      then have "q = r @ [j]" using tree_invD(6) [OF t \<open>rpath q\<close> r(1)] n(2) by simp
      then show False using n(3) that by simp
    qed
    then have "node t q \<notin> set (file_blocks t i)" unfolding st by auto
    then show ?thesis using d fp n(1) unfolding data_block_def free_post_def by simp
  qed
  show "tree_inv t'" unfolding tree_inv_def
  proof (intro conjI allI impI)
    show "alloc_inv (bm_fs t')" "fs_primary (bm_fs t')" using fp tree_invD(2) [OF t] by (simp_all add: free_post_def)
    show "fs_last_bgid (bm_fs t') < bgn (bm_fs t')" using fp t by (simp add: free_post_def tree_inv_def)
    show "length (bm_ib t') = 14" using ib len i by simp
    show "length (bm_mb t' b) = 1024" for b using fr tree_invD(4) [OF t] by (simp add: frame_def)
    show "p = q" if "rpath p" "rpath q" "node t' p = node t' q" "node t' p \<noteq> 0" for p q
      using nd [OF that(1)] nd [OF that(2)] that tree_invD(6) [OF t that(1,2)] by (auto split: if_splits)
  qed (use data in blast)+
qed

lemma truncate_run:
  assumes "tree_inv t" "0 \<le> sz" "sz \<le> 40960" "i = nat ((sz + 4095) div 4096)"
    "int (length (file_blocks t i)) \<le> sb_no_of_used_blocks (fs_sb (bm_fs t))"
  shows "\<exists>t'. truncate_blocks sz t = Some t' \<and> tree_inv t' \<and> free_post (bm_fs t) (set (file_blocks t i)) (bm_fs t')
    \<and> bm_ib t' = take i (bm_ib t) @ replicate (14 - i) 0 \<and> (\<forall>q. rpath q \<longrightarrow> node t' q = (if last q < i then node t q else 0))"
proof -
  have i: "i < 11" using assms(2-4) by linarith
  have blk: "size_to_blk (sz + 4096 - 1) = int i" using size_to_blk_small [of "sz + 4095"] assms(2-4) by (simp add: add.commute)
  have offs: "fst (block_to_path (int i)) = [i]" using block_to_path_direct [of "int i"] i by simp
  note fb = file_blocks_freeable [OF assms(1) _ assms(5)]
  have fr: "freeable (bm_fs t) (file_blocks t i)" and st: "set (file_blocks t i) = (\<Union>j\<in>{i..<14}. below t [j])"
    using fb i by simp_all
  obtain t1 t' where r: "free_data (InInode i) (11 - i) 0 0 t = Some t1"
    "do { a \<leftarrow> kill_subtree 11 1 t1; b \<leftarrow> kill_subtree 12 2 a; kill_subtree 13 3 b } = Some t'"
    "free_post (bm_fs t) (set (file_blocks t i)) (bm_fs t')" "frame (set (file_blocks t i)) t t'"
    "bm_ib t' = take i (bm_ib t) @ replicate (14 - i) 0"
    using truncate_direct [OF fr] i tree_invD(3,4) [OF assms(1)] by auto
  have "do_indirects i t1 = Some t'" using r(2) i by (simp add: do_indirects_def ptr_consts)
  then have run: "truncate_blocks sz t = Some t'"
    using r(1) offs unfolding truncate_blocks_def blk by (simp add: Let_def ptr_consts)
  note tt = truncated_tree [OF assms(1) _ r(5,3,4) st]
  show ?thesis using run tt i r(3,5) by auto
qed

lemma truncate_spec:
  assumes "tree_inv t" "0 \<le> sz" "sz \<le> 40960" "i = nat ((sz + 4095) div 4096)"
    "int (length (file_blocks t i)) \<le> sb_no_of_used_blocks (fs_sb (bm_fs t))"
  shows "\<exists>t'. truncate_blocks sz t = Some t' \<and> tree_inv t'
    \<and> (\<forall>l. 0 \<le> l \<and> l < max_lblock \<longrightarrow> bmap t' l = (if l < int i then bmap t l else 0))
    \<and> (\<forall>x < bgn (bm_fs t) * 32768. block_used (bm_fs t') x \<longleftrightarrow> x \<notin> set (file_blocks t i) \<and> block_used (bm_fs t) x)
    \<and> sb_free_blocks (fs_sb (bm_fs t')) = sb_free_blocks (fs_sb (bm_fs t)) + int (length (file_blocks t i))"
proof -
  have i: "i < 11" using assms(2-4) by linarith
  obtain t' where r: "truncate_blocks sz t = Some t'" "tree_inv t'" "free_post (bm_fs t) (set (file_blocks t i)) (bm_fs t')"
    "\<forall>q. rpath q \<longrightarrow> node t' q = (if last q < i then node t q else 0)"
    using truncate_run [OF assms] by blast
  have "bmap t' l = (if l < int i then bmap t l else 0)" if "0 \<le> l" "l < max_lblock" for l
  proof -
    define p where "p = fst (block_to_path l)"
    have "p \<noteq> []" unfolding p_def using block_to_path_range that by blast
    then have p: "rpath (rev p)" "p \<noteq> []" using block_to_path_ok(1) [OF that] path_ok_rpath [of p] by (auto simp: p_def)
    have hd: "hd p < i \<longleftrightarrow> l < int i"
      using that i by (auto simp: p_def block_to_path_def ptr_consts Let_def max_lblock_def)
    show ?thesis unfolding bmap_def p_def [symmetric] using r(4) p hd by (simp add: last_rev)
  qed
  moreover have "card (set (file_blocks t i)) = length (file_blocks t i)"
    using file_blocks_freeable(1) [OF assms(1) _ assms(5)] i by (simp add: freeable_def distinct_card)
  ultimately show ?thesis using r(1-3) by (auto simp: free_post_def)
qed

section \<open>Properties\<close>


text \<open>A file of one block on a device of one group.\<close>

definition one_block_map :: blkmap where
  "one_block_map = \<lparr>bm_fs = (formatted_fs 0 1)\<lparr>fs_sb := (formatted_sb 1)\<lparr>sb_no_of_used_blocks := 1\<rparr>\<rparr>,
     bm_ib = (replicate 14 0)[0 := 4100], bm_mb = (\<lambda>_. replicate 1024 0)\<rparr>"

lemma one_block_node: "rpath q \<Longrightarrow> node one_block_map q = (if q = [0] then 4100 else 0)"
proof (induction q)
  case (Cons i q)
  show ?case
  proof (cases "q = []")
    case True
    then show ?thesis using Cons.prems by (simp add: one_block_map_def nth_list_update nth_Cons')
  next
    case False
    then have "rpath q" "length q < depth_of (last q)" using Cons.prems by (simp_all add: rpath_Cons)
    then have "q \<noteq> [0]" by (auto simp: depth_of_def)
    then show ?thesis using Cons.IH [OF \<open>rpath q\<close>] False by (simp add: node_Cons)
  qed
qed (simp add: rpath_def)

lemma one_block_inv: "tree_inv one_block_map"
proof -
  have "alloc_inv (bm_fs one_block_map)"
    using formatted_fs_inv [of 1 0] by (simp add: alloc_inv_def one_block_map_def formatted_fs_def formatted_sb_def)
  moreover have "data_block (bm_fs one_block_map) 4100"
    using tst_bset [of 4100 "fresh_dbm 0" 4100] fresh_dbm_bits(1) [of 0]
    by (simp add: data_block_def block_used_def one_block_map_def formatted_fs_def formatted_sb_def)
  moreover have "fs_primary (bm_fs one_block_map)" "fs_last_bgid (bm_fs one_block_map) < bgn (bm_fs one_block_map)"
    "length (bm_ib one_block_map) = 14" "length (bm_mb one_block_map b) = 1024" for b
    by (simp_all add: one_block_map_def formatted_fs_def formatted_sb_def)
  ultimately show ?thesis unfolding tree_inv_def using one_block_node by (auto split: if_splits)
qed

lemma one_block_used: "sb_no_of_used_blocks (fs_sb (bm_fs one_block_map)) = 1" "file_blocks one_block_map 1 = []"
  "file_blocks one_block_map 0 = [4100]"
  by (simp_all add: one_block_map_def file_blocks_def upt_rec)


lemma drop_one: "drop_buffers ino 0 1 m = move_bc_to_unused_list (make_pbno_key ino 0 0) m"
  by (simp add: drop_buffers_def)

lemma dropped_view:
  assumes "str_inv m" "hash_lookup m key = Some b"
  shows "cache_view pbn (move_bc_to_unused_list key m) key = bm_disk m (pbn key)"
proof -
  let ?c = "(bm_bc m b)\<lparr>bc_load := False, bc_pno := 0, bc_dirty := False, bc_ref := 0, bc_list_type := BUFFER_TYPE_UNUSED\<rparr>"
  let ?m = "move_bc_to_unused_list key m"
  have b: "bc_list_type (bm_bc m b) \<noteq> BUFFER_TYPE_UNUSED" "bc_bno (bm_bc m b) = key"
    using hash_lookup_iff [OF assms(1), of key b] assms(2) by blast+
  have e: "bm_bc ?m = (bm_bc m)(b := ?c)" "bm_hash ?m = bm_hash m" "bm_disk ?m = bm_disk m"
    using assms(2) b(1) by (simp_all add: move_bc_to_unused_list_def move_buffer_list_def list_in_def list_out_def Let_def)
  have "(\<lambda>x. bc_bno (bm_bc ?m x) = key) = (\<lambda>x. bc_bno (bm_bc m x) = key)" using b(2) by (auto simp: e fun_eq_iff)
  then have "hash_lookup ?m key = Some b" using assms(2) by (simp add: hash_lookup_def e(2))
  then show ?thesis by (simp add: cache_view_def e)
qed

text \<open>Truncating a file of one block to a smaller, non-zero size keeps the block in the
  block map, since the number of kept blocks is rounded up, but drops the block's buffer,
  since the number of the first dropped buffer is rounded down.  Contents that were not
  written back yet are lost: a later read returns what the device holds.\<close>

theorem unaligned_truncate_loses_data:
  assumes "tree_inv t" "int (length (file_blocks t 1)) \<le> sb_no_of_used_blocks (fs_sb (bm_fs t))"
    "str_inv m" "hash_lookup m (make_pbno_key ino 0 0) = Some b" "bc_dirty (bm_bc m b)" "0 < sz" "sz < isize" "isize \<le> 4096"
  shows "\<exists>t' m'. free_inode_size ino isize sz t m = Some (t', m') \<and> bmap t' 0 = bmap t 0
    \<and> cache_view pbn m (make_pbno_key ino 0 0) = bc_buf (bm_bc m b)
    \<and> cache_view pbn m' (make_pbno_key ino 0 0) = bm_disk m (pbn (make_pbno_key ino 0 0))"
proof -
  have "(sz + 4095) div 4096 = 1" using assms(6-8) by (intro int_div_pos_eq [of _ _ _ "sz - 1"]) auto
  moreover have "sz div 4096 = 0" using assms(6-8) by (simp add: div_pos_pos_trivial)
  moreover have "isize = 4096 \<or> isize div 4096 = 0 \<and> isize mod 4096 \<noteq> 0"
    using assms(6-8) by (cases "isize = 4096") (simp_all add: div_pos_pos_trivial mod_pos_pos_trivial)
  ultimately have one: "nat ((sz + 4095) div 4096) = 1" "nat (sz div 4096) = 0"
    "nat (isize div 4096) + (if isize mod 4096 = 0 then 0 else 1) = 1" by auto
  obtain t' where t': "truncate_blocks sz t = Some t'"
    "\<forall>l. 0 \<le> l \<and> l < max_lblock \<longrightarrow> bmap t' l = (if l < int 1 then bmap t l else 0)"
    using truncate_spec [OF assms(1) _ _ one(1) [symmetric] assms(2)] assms(6-8) by auto
  have "free_inode_size ino isize sz t m = Some (t', move_bc_to_unused_list (make_pbno_key ino 0 0) m)"
    unfolding free_inode_size_def one using t'(1) by (simp add: drop_one Let_def del: One_nat_def)
  moreover have "bmap t' 0 = bmap t 0" using t'(2) [rule_format, of 0] by (simp add: max_lblock_def)
  moreover have "cache_view pbn m (make_pbno_key ino 0 0) = bc_buf (bm_bc m b)" using assms(4,5) by (simp add: cache_view_def)
  ultimately show ?thesis using dropped_view [OF assms(3,4), of pbn] by blast
qed

theorem unaligned_truncate_loses_data_witness:
  "\<exists>t' m'. free_inode_size 0 4000 100 one_block_map (one_dirty\<lparr>bm_bc := \<lambda>_. (bm_bc one_dirty 0)\<lparr>bc_bno := 0\<rparr>,
       bm_hash := (\<lambda>_. [])(0 := [0]), bm_hash_count := (\<lambda>_. 0)(0 := 1)\<rparr>) = Some (t', m')
     \<and> bmap t' 0 = 4100 \<and> cache_view (\<lambda>_. 9) m' (make_pbno_key 0 0 0) = 0"
proof -
  define m where "m = one_dirty\<lparr>bm_bc := \<lambda>_. (bm_bc one_dirty 0)\<lparr>bc_bno := 0\<rparr>, bm_hash := (\<lambda>_. [])(0 := [0]), bm_hash_count := (\<lambda>_. 0)(0 := 1)\<rparr>"
  have k: "make_pbno_key 0 0 0 = 0" "bucket 0 = 0" by (simp_all add: make_pbno_key_def bucket_def)
  have "str_inv m" by (auto simp: m_def str_inv_def one_dirty_def hash_slot_def k(2))
  moreover have "hash_lookup m (make_pbno_key 0 0 0) = Some 0" "bc_dirty (bm_bc m 0)" "bm_disk m x = 0" for x
    by (simp_all add: m_def hash_lookup_def one_dirty_def k)
  moreover have "bmap one_block_map 0 = 4100"
    using one_block_node [of "[0]"] by (simp add: bmap_def block_to_path_def ptr_consts Let_def)
  ultimately show ?thesis
    using unaligned_truncate_loses_data [OF one_block_inv, of m 0 0 100 4000 "\<lambda>_. 9"] one_block_used(1,2)
    unfolding m_def [symmetric] by auto
qed

end
