(* ===== verification/Xattr.thy ===== *)
theory Xattr
  imports Prelude
begin

text \<open>
  Extended attributes, \<open>nvfuse_xattr.c\<close>.  The attributes of a file are stored one after
  the other in a byte array of its inode, each as two 32-bit lengths, the name, a zero
  byte, the value and a zero byte; a zero length ends the list.

  The byte array is a list of bytes, an entry pointer is a position in it, and a C string
  is the list of its bytes without the terminator (\<open>None\<close> is the null pointer).  The path
  has been resolved: the argument \<open>file\<close> is the attribute array of the inode it leads to,
  or the negative code returned when the path is the root or the lookup fails.
\<close>

definition NVFUSE_XATTR_MAX_SIZE :: nat where "NVFUSE_XATTR_MAX_SIZE = 3968"
definition NVFUSE_XATTR_NAME_MAX_LEN :: nat where "NVFUSE_XATTR_NAME_MAX_LEN = 256"
definition NVFUSE_XATTR_VALUE_MAX_LEN :: nat where "NVFUSE_XATTR_VALUE_MAX_LEN = 512"
definition ERANGE :: int where "ERANGE = 34"

lemmas xattr_consts = NVFUSE_XATTR_MAX_SIZE_def NVFUSE_XATTR_NAME_MAX_LEN_def NVFUSE_XATTR_VALUE_MAX_LEN_def

section \<open>Bytes\<close>

text \<open>Little-endian 32-bit numbers and copies inside the array.\<close>

definition le32 :: "nat \<Rightarrow> u8 list" where
  "le32 n = [word_of_nat n, word_of_nat (n div 2 ^ 8), word_of_nat (n div 2 ^ 16), word_of_nat (n div 2 ^ 24)]"

definition get32 :: "u8 list \<Rightarrow> nat \<Rightarrow> nat" where
  "get32 bs p = unat (bs ! p) + 2 ^ 8 * unat (bs ! (p + 1)) + 2 ^ 16 * unat (bs ! (p + 2)) + 2 ^ 24 * unat (bs ! (p + 3))"

definition put :: "nat \<Rightarrow> u8 list \<Rightarrow> u8 list \<Rightarrow> u8 list" where
  "put p xs bs = take p bs @ xs @ drop (p + length xs) bs"

definition sub :: "u8 list \<Rightarrow> nat \<Rightarrow> nat \<Rightarrow> u8 list" where
  "sub bs p n = take n (drop p bs)"

section \<open>Entries\<close>

definition e_name_len :: "u8 list \<Rightarrow> nat \<Rightarrow> nat" where "e_name_len bs p = get32 bs p"
definition e_value_size :: "u8 list \<Rightarrow> nat \<Rightarrow> nat" where "e_value_size bs p = get32 bs (p + 4)"
definition e_name :: "nat \<Rightarrow> nat" where "e_name p = p + 8"

definition entry_size :: "u8 list \<Rightarrow> nat \<Rightarrow> nat" where
  "entry_size bs p = 4 + 4 + e_name_len bs p + 1 + e_value_size bs p + 1"

definition is_last :: "u8 list \<Rightarrow> nat \<Rightarrow> bool" where
  "is_last bs p = (get32 bs p = 0)"

text \<open>The loops over the entries; the first argument bounds the number of rounds, and an
  entry has at least ten bytes, so the length of the array is enough.\<close>

fun find_entry :: "nat \<Rightarrow> u8 list \<Rightarrow> u8 list \<Rightarrow> nat \<Rightarrow> (bool \<times> nat) option" where
  "find_entry 0 name bs p = None"
| "find_entry (Suc k) name bs p =
    (if is_last bs p then Some (False, p)
     else if e_name_len bs p = length name \<and> sub bs (e_name p) (length name) = name then Some (True, p)
     else find_entry k name bs (p + entry_size bs p))"

fun find_last :: "nat \<Rightarrow> u8 list \<Rightarrow> nat \<Rightarrow> nat option" where
  "find_last 0 bs p = None"
| "find_last (Suc k) bs p = (if is_last bs p then Some p else find_last k bs (p + entry_size bs p))"

section \<open>Operations\<close>

definition put_entry :: "nat \<Rightarrow> u8 list \<Rightarrow> u8 list \<Rightarrow> u8 list \<Rightarrow> u8 list" where
  "put_entry p name val bs =
     put (p + 4) (le32 (length val)) (put (e_name p + length name + 1) val (put (e_name p) name (put p (le32 (length name)) bs)))"

text \<open>\<open>memmove(here, next, last - next)\<close> and \<open>memset(last - size, 0, size)\<close>.\<close>

definition remove_entry :: "nat \<Rightarrow> nat \<Rightarrow> u8 list \<Rightarrow> u8 list" where
  "remove_entry here lst bs =
     put (lst - entry_size bs here) (replicate (entry_size bs here) 0)
       (put here (sub bs (here + entry_size bs here) (lst - (here + entry_size bs here))) bs)"

definition name_ok :: "u8 list \<Rightarrow> bool" where
  "name_ok name = (1 \<le> length name \<and> length name \<le> NVFUSE_XATTR_NAME_MAX_LEN)"

definition value_ok :: "u8 list \<Rightarrow> bool" where
  "value_ok val = (1 \<le> length val \<and> length val \<le> NVFUSE_XATTR_VALUE_MAX_LEN)"

text \<open>The free space and the growth of a replaced value are \<open>u32\<close> differences.\<close>

definition set_xattr_bytes :: "u8 list \<Rightarrow> u8 list \<Rightarrow> u8 list \<Rightarrow> (int \<times> u8 list) option" where
  "set_xattr_bytes name val bs = do {
     (found, here) \<leftarrow> find_entry (length bs) name bs 0;
     if \<not> found then
       if 4 + 4 + length name + 1 + length val + 1 > u32_sub NVFUSE_XATTR_MAX_SIZE here then Some (-1, bs)
       else Some (0, put_entry here name val bs)
     else do {
       lst \<leftarrow> find_last (length bs) bs 0;
       if u32_sub (length val) (e_value_size bs here) > u32_sub NVFUSE_XATTR_MAX_SIZE lst then Some (-1, bs)
       else Some (0, put_entry (lst - entry_size bs here) name val (remove_entry here lst bs)) } }"

definition set_xattr :: "u8 list option \<Rightarrow> u8 list option \<Rightarrow> int + u8 list \<Rightarrow> (int \<times> (int + u8 list)) option" where
  "set_xattr name val file =
    (case (name, val) of
       (Some n, Some v) \<Rightarrow>
         if \<not> name_ok n then Some (-1, file)
         else if \<not> value_ok v then Some (-1, file)
         else (case file of Inl r \<Rightarrow> Some (r, file)
               | Inr bs \<Rightarrow> do { (r, bs') \<leftarrow> set_xattr_bytes n v bs; Some (r, Inr bs') })
     | _ \<Rightarrow> Some (-1, file))"

definition remove_xattr :: "u8 list option \<Rightarrow> int + u8 list \<Rightarrow> (int \<times> (int + u8 list)) option" where
  "remove_xattr name file =
    (case name of
       None \<Rightarrow> Some (-1, file)
     | Some n \<Rightarrow>
         if \<not> name_ok n then Some (-1, file)
         else (case file of Inl r \<Rightarrow> Some (r, file)
               | Inr bs \<Rightarrow> do {
                   (found, here) \<leftarrow> find_entry (length bs) n bs 0;
                   if \<not> found then Some (-1, file)
                   else do {
                     lst \<leftarrow> find_last (length bs) bs here;
                     Some (0, Inr (if lst \<noteq> here then remove_entry here lst bs else bs)) } }))"

text \<open>The result of a read is the return value and the contents of the caller's buffer,
  \<open>None\<close> when the buffer is not touched.\<close>

definition get_xattr :: "u8 list option \<Rightarrow> nat \<Rightarrow> int + u8 list \<Rightarrow> (int \<times> u8 list option) option" where
  "get_xattr name buf_size file =
    (case name of
       None \<Rightarrow> Some (-1, None)
     | Some n \<Rightarrow>
         if \<not> name_ok n then Some (-1, None)
         else (case file of Inl r \<Rightarrow> Some (r, None)
               | Inr bs \<Rightarrow> do {
                   (found, p) \<leftarrow> find_entry (length bs) n bs 0;
                   if \<not> found then Some (-1, None)
                   else if entry_size bs p > buf_size then Some (ERANGE, None)
                   else Some (0, Some (put 0 (sub bs (e_name p) (entry_size bs p - 4 - 4)) (replicate buf_size 0))) }))"

fun list_loop :: "nat \<Rightarrow> u8 list \<Rightarrow> nat \<Rightarrow> nat \<Rightarrow> nat \<Rightarrow> u8 list \<Rightarrow> (int \<times> u8 list) option" where
  "list_loop 0 bs p pos rest buf = None"
| "list_loop (Suc k) bs p pos rest buf =
    (if is_last bs p then Some (0, buf)
     else if e_name_len bs p + 1 > rest then Some (-1, buf)
     else list_loop k bs (p + entry_size bs p) (pos + (e_name_len bs p + 1)) (rest - (e_name_len bs p + 1))
            (put pos (sub bs (e_name p) (e_name_len bs p + 1)) buf))"

definition list_xattr :: "nat \<Rightarrow> int + u8 list \<Rightarrow> (int \<times> u8 list option) option" where
  "list_xattr buf_size file =
    (case file of
       Inr bs \<Rightarrow> do { (r, buf) \<leftarrow> list_loop (length bs) bs 0 0 buf_size (replicate buf_size 0); Some (r, Some buf) }
     | Inl r \<Rightarrow> Some (r, None))"

section \<open>The attributes an array holds\<close>

type_synonym attrs = "(u8 list \<times> u8 list) list"

definition enc1 :: "u8 list \<times> u8 list \<Rightarrow> u8 list" where
  "enc1 = (\<lambda>(n, v). le32 (length n) @ le32 (length v) @ n @ [0] @ v @ [0])"

definition enc :: "attrs \<Rightarrow> u8 list" where
  "enc es = concat (map enc1 es)"

definition attr_ok :: "u8 list \<times> u8 list \<Rightarrow> bool" where
  "attr_ok = (\<lambda>(n, v). name_ok n \<and> value_ok v)"

definition holds :: "attrs \<Rightarrow> u8 list \<Rightarrow> bool" where
  "holds es bs \<longleftrightarrow> bs = enc es @ replicate (3972 - length (enc es)) 0 \<and> length (enc es) \<le> NVFUSE_XATTR_MAX_SIZE
     \<and> list_all attr_ok es \<and> distinct (map fst es)"

lemma length_le32 [simp]: "length (le32 n) = 4"
  by (simp add: le32_def)

lemma le32_sum:
  assumes "n < 2 ^ 32"
  shows "n mod 256 + 256 * (n div 256 mod 256) + 65536 * (n div 65536 mod 256) + 16777216 * (n div 16777216 mod 256) = (n::nat)"
proof -
  have a: "n div 65536 = n div 256 div 256" "n div 16777216 = n div 256 div 256 div 256"
    by (simp_all add: div_mult2_eq [symmetric])
  have b: "m = m mod 256 + 256 * (m div 256)" for m :: nat by simp
  have "n div 16777216 < 256" using assms by (simp add: less_mult_imp_div_less)
  then have c: "n div 256 div 256 div 256 mod 256 = n div 256 div 256 div 256" by (simp add: a)
  define x y z where "x = n div 256" and "y = x div 256" and "z = y div 256"
  have "n = n mod 256 + 256 * x" "x = x mod 256 + 256 * y" "y = y mod 256 + 256 * z" by (simp_all add: x_def y_def z_def)
  then have "n mod 256 + 256 * (x mod 256) + 65536 * (y mod 256) + 16777216 * z = n" by linarith
  then show ?thesis unfolding a c by (simp add: x_def y_def z_def)
qed

lemma get32_le32:
  assumes "n < 2 ^ 32"
  shows "get32 (xs @ le32 n @ ys) (length xs) = n"
proof -
  have u: "unat (word_of_nat k :: u8) = k mod 256" for k by (simp add: unat_of_nat)
  have "get32 (xs @ le32 n @ ys) (length xs)
      = n mod 256 + 256 * (n div 256 mod 256) + 65536 * (n div 65536 mod 256) + 16777216 * (n div 16777216 mod 256)"
    unfolding get32_def le32_def by (simp only: nth_append_right le_add1 le_refl add_diff_cancel_left' diff_self_eq_0
        append.simps nth_Cons_0 u) (simp add: u nth_append)
  then show ?thesis using le32_sum [OF assms] by (simp only:)
qed

lemma get32_zeros: "4 \<le> m \<Longrightarrow> get32 (xs @ replicate m 0) (length xs) = 0"
  by (simp add: get32_def nth_append)

lemma put_at: "p = length xs \<Longrightarrow> length zs = length ys \<Longrightarrow> put p ys (xs @ zs @ ws) = xs @ ys @ ws"
  by (simp add: put_def)

lemma sub_at: "p = length xs \<Longrightarrow> n = length ys \<Longrightarrow> sub (xs @ ys @ ws) p n = ys"
  by (simp add: sub_def)

lemma length_enc1: "length (enc1 (n, v)) = 10 + length n + length v"
  by (simp add: enc1_def)

lemma enc_append [simp]: "enc (es @ fs) = enc es @ enc fs"
  by (simp add: enc_def)

lemma enc_Nil [simp]: "enc [] = []" and enc_Cons: "enc (e # es) = enc1 e @ enc es"
  by (simp_all add: enc_def)

lemma attr_ok_lengths:
  assumes "attr_ok (n, v)"
  shows "0 < length n" "length n < 2 ^ 32" "length v < 2 ^ 32" "length n \<le> 256" "length v \<le> 512"
  using assms by (auto simp: attr_ok_def name_ok_def value_ok_def xattr_consts)

lemma entry_at:
  assumes ok: "attr_ok (n, v)" and bs: "bs = xs @ enc1 (n, v) @ ys" and p: "p = length xs"
  shows "e_name_len bs p = length n" "e_value_size bs p = length v"
    "entry_size bs p = length (enc1 (n, v))" "\<not> is_last bs p"
    "sub bs (e_name p) (length n) = n" "sub bs (e_name p) (length n + 1) = n @ [0]"
    "sub bs (e_name p) (entry_size bs p - 4 - 4) = n @ [0] @ v @ [0]"
proof -
  note l = attr_ok_lengths [OF ok]
  have b1: "bs = xs @ le32 (length n) @ (le32 (length v) @ n @ [0] @ v @ [0] @ ys)" by (simp add: bs enc1_def)
  have b2: "bs = (xs @ le32 (length n)) @ le32 (length v) @ (n @ [0] @ v @ [0] @ ys)" by (simp add: bs enc1_def)
  have b3: "bs = (xs @ le32 (length n) @ le32 (length v)) @ n @ ([0] @ v @ [0] @ ys)" by (simp add: bs enc1_def)
  have b4: "bs = (xs @ le32 (length n) @ le32 (length v)) @ (n @ [0]) @ (v @ [0] @ ys)" by (simp add: bs enc1_def)
  have b5: "bs = (xs @ le32 (length n) @ le32 (length v)) @ (n @ [0] @ v @ [0]) @ ys" by (simp add: bs enc1_def)
  show nl: "e_name_len bs p = length n" unfolding e_name_len_def b1 p using l(2) by (rule get32_le32)
  have "length xs + 4 = length (xs @ le32 (length n))" by simp
  then show vl: "e_value_size bs p = length v" unfolding e_value_size_def b2 p using l(3) by (simp only: get32_le32)
  show es: "entry_size bs p = length (enc1 (n, v))" by (simp add: entry_size_def nl vl length_enc1)
  show "\<not> is_last bs p" using nl l(1) by (simp add: is_last_def e_name_len_def)
  show "sub bs (e_name p) (length n) = n" unfolding b3 by (rule sub_at) (simp_all add: p e_name_def)
  show "sub bs (e_name p) (length n + 1) = n @ [0]" unfolding b4 by (rule sub_at) (simp_all add: p e_name_def)
  show "sub bs (e_name p) (entry_size bs p - 4 - 4) = n @ [0] @ v @ [0]"
    unfolding es unfolding b5 by (rule sub_at) (simp_all add: p e_name_def length_enc1)
qed

lemma is_last_end: "4 \<le> m \<Longrightarrow> is_last (xs @ replicate m 0) (length xs)"
  by (simp add: is_last_def get32_zeros)

section \<open>The loops find what the array holds\<close>

lemma find_entry_hit:
  assumes "bs = xs @ enc pre @ enc1 (n, v) @ ys" "p = length xs" "length pre < k"
    "list_all attr_ok pre" "attr_ok (n, v)" "n \<notin> fst ` set pre"
  shows "find_entry k n bs p = Some (True, length (xs @ enc pre))"
  using assms
proof (induction pre arbitrary: k xs p)
  case Nil
  then obtain k' where k: "k = Suc k'" by (cases k) auto
  show ?case using Nil.prems entry_at [OF Nil.prems(5), of bs xs ys p] by (simp add: k)
next
  case (Cons e pre)
  obtain n' v' where e: "e = (n', v')" by (cases e)
  from Cons.prems(3) obtain k' where k: "k = Suc k'" by (cases k) auto
  have ok: "attr_ok (n', v')" using Cons.prems(4) by (simp add: e)
  have bs: "bs = xs @ enc1 (n', v') @ (enc pre @ enc1 (n, v) @ ys)" by (simp add: Cons.prems(1) e enc_Cons)
  have bs': "bs = (xs @ enc1 (n', v')) @ enc pre @ enc1 (n, v) @ ys" by (simp add: bs)
  note ent = entry_at [OF ok bs Cons.prems(2)]
  have ne: "n' \<noteq> n" using Cons.prems(6) by (auto simp: e)
  have q: "p + entry_size bs p = length (xs @ enc1 (n', v'))" using ent Cons.prems(2) by simp
  have neq: "\<not> (e_name_len bs p = length n \<and> sub bs (e_name p) (length n) = n)"
    using ent(1,5) ne by auto
  have "find_entry k n bs p = find_entry k' n bs (p + entry_size bs p)" using ent(4) neq by (simp only: k find_entry.simps if_False)
  also have "\<dots> = Some (True, length ((xs @ enc1 (n', v')) @ enc pre))"
    using Cons.prems(3-6) k by (intro Cons.IH [OF bs' q]) auto
  finally show ?case by (simp add: e enc_Cons)
qed

lemma find_entry_miss:
  assumes "bs = xs @ enc es @ replicate m 0" "p = length xs" "length es < k" "4 \<le> m"
    "list_all attr_ok es" "n \<notin> fst ` set es"
  shows "find_entry k n bs p = Some (False, length (xs @ enc es))"
  using assms
proof (induction es arbitrary: k xs p)
  case Nil
  then obtain k' where k: "k = Suc k'" by (cases k) auto
  show ?case using Nil.prems is_last_end [of m xs] by (simp add: k)
next
  case (Cons e pre)
  obtain n' v' where e: "e = (n', v')" by (cases e)
  from Cons.prems(3) obtain k' where k: "k = Suc k'" by (cases k) auto
  have ok: "attr_ok (n', v')" using Cons.prems(5) by (simp add: e)
  have bs: "bs = xs @ enc1 (n', v') @ (enc pre @ replicate m 0)" by (simp add: Cons.prems(1) e enc_Cons)
  have bs': "bs = (xs @ enc1 (n', v')) @ enc pre @ replicate m 0" by (simp add: bs)
  note ent = entry_at [OF ok bs Cons.prems(2)]
  have ne: "n' \<noteq> n" using Cons.prems(6) by (auto simp: e)
  have q: "p + entry_size bs p = length (xs @ enc1 (n', v'))" using ent Cons.prems(2) by simp
  have neq: "\<not> (e_name_len bs p = length n \<and> sub bs (e_name p) (length n) = n)"
    using ent(1,5) ne by auto
  have "find_entry k n bs p = find_entry k' n bs (p + entry_size bs p)" using ent(4) neq by (simp only: k find_entry.simps if_False)
  also have "\<dots> = Some (False, length ((xs @ enc1 (n', v')) @ enc pre))"
    using Cons.prems(3-6) k by (intro Cons.IH [OF bs' q]) auto
  finally show ?case by (simp add: e enc_Cons)
qed

lemma find_last_end:
  assumes "bs = xs @ enc es @ replicate m 0" "p = length xs" "length es < k" "4 \<le> m" "list_all attr_ok es"
  shows "find_last k bs p = Some (length (xs @ enc es))"
  using assms
proof (induction es arbitrary: k xs p)
  case Nil
  then obtain k' where k: "k = Suc k'" by (cases k) auto
  show ?case using Nil.prems is_last_end [of m xs] by (simp add: k)
next
  case (Cons e pre)
  obtain n' v' where e: "e = (n', v')" by (cases e)
  from Cons.prems(3) obtain k' where k: "k = Suc k'" by (cases k) auto
  have ok: "attr_ok (n', v')" using Cons.prems(5) by (simp add: e)
  have bs: "bs = xs @ enc1 (n', v') @ (enc pre @ replicate m 0)" by (simp add: Cons.prems(1) e enc_Cons)
  have bs': "bs = (xs @ enc1 (n', v')) @ enc pre @ replicate m 0" by (simp add: bs)
  note ent = entry_at [OF ok bs Cons.prems(2)]
  have q: "p + entry_size bs p = length (xs @ enc1 (n', v'))" using ent Cons.prems(2) by simp
  have "find_last k bs p = find_last k' bs (p + entry_size bs p)" using ent(4) by (simp add: k)
  also have "\<dots> = Some (length ((xs @ enc1 (n', v')) @ enc pre))"
    using Cons.prems(3-5) k by (intro Cons.IH [OF bs' q]) auto
  finally show ?case by (simp add: e enc_Cons)
qed

section \<open>Writing and removing an entry\<close>

lemma put_entry_at:
  assumes p: "p = length xs" and m: "length (enc1 (n, v)) \<le> m"
  shows "put_entry p n v (xs @ replicate m 0) = xs @ enc1 (n, v) @ replicate (m - length (enc1 (n, v))) 0"
proof -
  define r where "r = m - length (enc1 (n, v))"
  have m': "m = 4 + (4 + (length n + (1 + (length v + (1 + r)))))" using m by (simp add: r_def length_enc1)
  have z: "(replicate m 0 :: u8 list) = replicate 4 0 @ replicate 4 0 @ replicate (length n) 0 @ [0] @ replicate (length v) 0 @ [0] @ replicate r 0"
    unfolding m' replicate_add by simp
  let ?z4 = "replicate 4 0 :: u8 list" and ?zn = "replicate (length n) 0 :: u8 list" and ?zv = "replicate (length v) 0 :: u8 list"
    and ?t = "[0] @ replicate r 0 :: u8 list"
  have s1: "put p (le32 (length n)) (xs @ replicate m 0) = (xs @ le32 (length n) @ ?z4) @ ?zn @ ([0] @ ?zv @ ?t)"
    unfolding z using put_at [OF p, of ?z4 "le32 (length n)" "?z4 @ ?zn @ [0] @ ?zv @ ?t"] by simp
  have s2: "put (e_name p) n ((xs @ le32 (length n) @ ?z4) @ ?zn @ ([0] @ ?zv @ ?t)) = (xs @ le32 (length n) @ ?z4 @ n @ [0]) @ ?zv @ ?t"
    using put_at [of "e_name p" "xs @ le32 (length n) @ ?z4" ?zn n "[0] @ ?zv @ ?t"] by (simp add: e_name_def p)
  have s3: "put (e_name p + length n + 1) v ((xs @ le32 (length n) @ ?z4 @ n @ [0]) @ ?zv @ ?t)
      = (xs @ le32 (length n)) @ ?z4 @ (n @ [0] @ v @ ?t)"
    using put_at [of "e_name p + length n + 1" "xs @ le32 (length n) @ ?z4 @ n @ [0]" ?zv v ?t] by (simp add: e_name_def p)
  have s4: "put (p + 4) (le32 (length v)) ((xs @ le32 (length n)) @ ?z4 @ (n @ [0] @ v @ ?t))
      = (xs @ le32 (length n)) @ le32 (length v) @ (n @ [0] @ v @ ?t)"
    by (rule put_at) (simp_all add: p)
  show ?thesis unfolding put_entry_def s1 s2 s3 s4 r_def [symmetric] by (simp add: enc1_def)
qed

lemma remove_entry_at:
  assumes ok: "attr_ok (n, v)" and bs: "bs = xs @ enc1 (n, v) @ ys @ replicate m 0"
    and here: "here = length xs" and lst: "lst = length (xs @ enc1 (n, v) @ ys)"
  shows "remove_entry here lst bs = xs @ ys @ replicate (length (enc1 (n, v)) + m) 0"
proof -
  define e where "e = enc1 (n, v)"
  have es: "entry_size bs here = length e" using entry_at(3) [OF ok bs here] by (simp add: e_def)
  have s1: "sub bs (here + length e) (lst - (here + length e)) = ys"
    using sub_at [of "here + length e" "xs @ e" "lst - (here + length e)" ys "replicate m 0"]
    by (simp add: bs here lst e_def)
  have sp: "e @ ys = take (length ys) (e @ ys) @ drop (length ys) (e @ ys)" by (rule append_take_drop_id [symmetric])
  have b: "bs = xs @ take (length ys) (e @ ys) @ (drop (length ys) (e @ ys) @ replicate m 0)"
    by (metis bs e_def append_assoc sp)
  have s2: "put here ys bs = xs @ ys @ drop (length ys) (e @ ys) @ replicate m 0"
    unfolding b by (rule put_at [OF here]) simp
  have s3: "put (lst - length e) (replicate (length e) 0) ((xs @ ys) @ drop (length ys) (e @ ys) @ replicate m 0)
      = (xs @ ys) @ replicate (length e) 0 @ replicate m 0"
    by (rule put_at) (simp_all add: lst e_def)
  show ?thesis unfolding remove_entry_def es s1 s2 replicate_add e_def [symmetric] using s3 by simp
qed

section \<open>What the operations do to the attributes\<close>

definition spec_find :: "u8 list \<Rightarrow> attrs \<Rightarrow> u8 list option" where
  "spec_find n es = map_of es n"

definition spec_remove :: "u8 list \<Rightarrow> attrs \<Rightarrow> attrs" where
  "spec_remove n es = filter (\<lambda>e. fst e \<noteq> n) es"

text \<open>A new attribute needs room for its entry; a replaced value may not be shorter than
  the old one, and its growth must fit.\<close>

definition spec_fits :: "u8 list \<Rightarrow> u8 list \<Rightarrow> attrs \<Rightarrow> bool" where
  "spec_fits n v es =
    (case spec_find n es of
       None \<Rightarrow> length (enc (es @ [(n, v)])) \<le> NVFUSE_XATTR_MAX_SIZE
     | Some v0 \<Rightarrow> length v0 \<le> length v \<and> length (enc (spec_remove n es @ [(n, v)])) \<le> NVFUSE_XATTR_MAX_SIZE)"

definition spec_set :: "u8 list \<Rightarrow> u8 list \<Rightarrow> attrs \<Rightarrow> int \<times> attrs" where
  "spec_set n v es = (if spec_fits n v es then (0, spec_remove n es @ [(n, v)]) else (-1, es))"

definition spec_names :: "attrs \<Rightarrow> u8 list" where
  "spec_names es = concat (map (\<lambda>e. fst e @ [0]) es)"

lemma filter_without: "n \<notin> fst ` set es \<Longrightarrow> filter (\<lambda>e. fst e \<noteq> n) es = es"
  by (auto simp: filter_id_conv)

lemma holds_length: "holds es bs \<Longrightarrow> length bs = 3972"
  by (simp add: holds_def xattr_consts)

lemma length_enc_ge: "10 * length es \<le> length (enc es)"
  by (induction es) (auto simp: enc_Cons length_enc1)

lemma holds_split:
  assumes "holds es bs" and m: "m = 3972 - length (enc es)"
  shows "bs = [] @ enc es @ replicate m 0" "length es < length bs" "4 \<le> m" "list_all attr_ok es"
  using assms length_enc_ge [of es] holds_length [OF assms(1)] by (auto simp: holds_def xattr_consts)

lemma find_absent:
  assumes "holds es bs" "spec_find n es = None"
  shows "find_entry (length bs) n bs 0 = Some (False, length (enc es))"
proof -
  have "n \<notin> fst ` set es" using assms(2) by (simp add: spec_find_def map_of_eq_None_iff)
  then show ?thesis using find_entry_miss [OF holds_split(1) [OF assms(1) refl] _ holds_split(2,3,4) [OF assms(1) refl], of 0 n] by simp
qed

lemma attrs_split:
  assumes "holds es bs" "spec_find n es = Some v"
  obtains pre post where "es = pre @ (n, v) # post" "n \<notin> fst ` set pre" "n \<notin> fst ` set post"
    "spec_remove n es = pre @ post" "attr_ok (n, v)" "list_all attr_ok pre" "list_all attr_ok post"
proof -
  have "(n, v) \<in> set es" using assms(2) by (simp add: spec_find_def map_of_SomeD)
  then obtain pre post where es: "es = pre @ (n, v) # post" by (auto simp: in_set_conv_decomp)
  have d: "n \<notin> fst ` set pre" "n \<notin> fst ` set post" using assms(1) by (auto simp: holds_def es)
  then have "spec_remove n es = pre @ post"
    by (simp add: spec_remove_def es filter_without)
  then show thesis using that [OF es d] assms(1) by (simp add: holds_def es)
qed

lemma find_present:
  assumes h: "holds es bs" and es: "es = pre @ (n, v) # post" and pre: "n \<notin> fst ` set pre"
  shows "find_entry (length bs) n bs 0 = Some (True, length (enc pre))"
proof -
  note sp = holds_split [OF h refl]
  have bs: "bs = [] @ enc pre @ enc1 (n, v) @ (enc post @ replicate (3972 - length (enc es)) 0)"
    using sp(1) by (simp add: es enc_Cons)
  show ?thesis using find_entry_hit [OF bs _ _ _ _ pre, of 0 "length bs"] sp(2,4) by (simp add: es)
qed

lemma last_at:
  assumes h: "holds es bs" and es: "es = pre @ post"
  shows "find_last (length bs) bs (length (enc pre)) = Some (length (enc es))"
proof -
  note sp = holds_split [OF h refl]
  have bs: "bs = enc pre @ enc post @ replicate (3972 - length (enc es)) 0" using sp(1) by (simp add: es)
  show ?thesis using find_last_end [OF bs refl, of "length bs"] sp(2-4) by (simp add: es)
qed

lemma removed_at:
  assumes h: "holds es bs" and es: "es = pre @ (n, v) # post" and ok: "attr_ok (n, v)"
  shows "remove_entry (length (enc pre)) (length (enc es)) bs = enc (pre @ post) @ replicate (3972 - length (enc (pre @ post))) 0"
proof -
  note sp = holds_split [OF h refl]
  have bs: "bs = enc pre @ enc1 (n, v) @ enc post @ replicate (3972 - length (enc es)) 0" using sp(1) by (simp add: es enc_Cons)
  have le: "length (enc es) \<le> 3972" using h by (simp add: holds_def xattr_consts)
  have "length (enc1 (n, v)) + (3972 - length (enc es)) = 3972 - length (enc (pre @ post))"
    using le by (simp add: es enc_Cons)
  then show ?thesis using remove_entry_at [OF ok bs refl, of "length (enc es)"] by (simp add: es enc_Cons)
qed

lemma holds_remove:
  assumes h: "holds es bs"
  shows "holds (spec_remove n es) (enc (spec_remove n es) @ replicate (3972 - length (enc (spec_remove n es))) 0)"
proof -
  have "length (enc (filter P fs)) \<le> length (enc fs)" for P fs by (induction fs) (auto simp: enc_Cons)
  then have "length (enc (spec_remove n es)) \<le> length (enc es)" by (simp add: spec_remove_def)
  then show ?thesis using h by (auto simp: holds_def spec_remove_def list_all_iff distinct_map_filter)
qed

lemma holds_append:
  assumes h: "holds es bs" and ok: "attr_ok (n, v)" and n: "n \<notin> fst ` set es"
    and fits: "length (enc (es @ [(n, v)])) \<le> NVFUSE_XATTR_MAX_SIZE"
  shows "holds (es @ [(n, v)]) (put_entry (length (enc es)) n v bs)"
proof -
  note sp = holds_split [OF h refl]
  have "put_entry (length (enc es)) n v (enc es @ replicate (3972 - length (enc es)) 0)
      = enc es @ enc1 (n, v) @ replicate (3972 - length (enc es) - length (enc1 (n, v))) 0"
    using fits by (intro put_entry_at) (auto simp: xattr_consts enc_Cons)
  then show ?thesis using sp(1) h ok n fits by (auto simp: holds_def enc_Cons)
qed

lemma set_absent:
  assumes h: "holds es bs" and ok: "attr_ok (n, v)" and f: "spec_find n es = None"
  shows "\<exists>bs'. set_xattr_bytes n v bs = Some (fst (spec_set n v es), bs') \<and> holds (snd (spec_set n v es)) bs'"
proof -
  have n: "n \<notin> fst ` set es" using f by (simp add: spec_find_def map_of_eq_None_iff)
  have r: "spec_remove n es = es" using n by (simp add: spec_remove_def filter_without)
  have le: "length (enc es) \<le> NVFUSE_XATTR_MAX_SIZE" using h by (simp add: holds_def)
  have s: "u32_sub NVFUSE_XATTR_MAX_SIZE (length (enc es)) = NVFUSE_XATTR_MAX_SIZE - length (enc es)"
    using le by (simp add: u32_sub_small xattr_consts)
  have g: "4 + 4 + length n + 1 + length v + 1 > NVFUSE_XATTR_MAX_SIZE - length (enc es) \<longleftrightarrow> \<not> spec_fits n v es"
    using le by (auto simp: spec_fits_def f enc_Cons length_enc1)
  show ?thesis
  proof (cases "spec_fits n v es")
    case True
    then have "length (enc (es @ [(n, v)])) \<le> NVFUSE_XATTR_MAX_SIZE" by (simp add: spec_fits_def f)
    from holds_append [OF h ok n this] show ?thesis using True g
      by (simp add: set_xattr_bytes_def find_absent [OF h f] s spec_set_def r)
  next
    case False
    then show ?thesis using g h by (simp add: set_xattr_bytes_def find_absent [OF h f] s spec_set_def)
  qed
qed

lemma replace_check:
  assumes "a \<le> 512" "b \<le> 512" "l \<le> 3968"
  shows "u32_sub a b > u32_sub 3968 l \<longleftrightarrow> \<not> (b \<le> a \<and> a + l \<le> 3968 + b)"
proof -
  have l: "u32_sub 3968 l = 3968 - l" using assms by (simp add: u32_sub_small)
  show ?thesis
  proof (cases "b \<le> a")
    case True
    then have "u32_sub a b = a - b" using assms by (simp add: u32_sub_small)
    then show ?thesis using True assms l by auto
  next
    case False
    then have "u32_sub a b = a + 2 ^ 32 - b" using assms by (simp add: u32_sub_def)
    then show ?thesis using False assms l by auto
  qed
qed

lemma set_present:
  assumes h: "holds es bs" and ok: "attr_ok (n, v)" and f: "spec_find n es = Some v0"
  shows "\<exists>bs'. set_xattr_bytes n v bs = Some (fst (spec_set n v es), bs') \<and> holds (snd (spec_set n v es)) bs'"
proof -
  obtain pre post where es: "es = pre @ (n, v0) # post" and pre: "n \<notin> fst ` set pre" and post: "n \<notin> fst ` set post"
    and rm: "spec_remove n es = pre @ post" and ok0: "attr_ok (n, v0)" and "list_all attr_ok pre" "list_all attr_ok post"
    by (rule attrs_split [OF h f])
  note sp = holds_split [OF h refl]
  have bs: "bs = enc pre @ enc1 (n, v0) @ (enc post @ replicate (3972 - length (enc es)) 0)" using sp(1) by (simp add: es enc_Cons)
  note ent = entry_at [OF ok0 bs refl]
  have le: "length (enc es) \<le> 3968" using h by (simp add: holds_def xattr_consts)
  have lst: "find_last (length bs) bs 0 = Some (length (enc es))" using last_at [OF h, of "[]" es] by simp
  have g: "u32_sub (length v) (length v0) > u32_sub NVFUSE_XATTR_MAX_SIZE (length (enc es)) \<longleftrightarrow> \<not> spec_fits n v es"
  proof -
    have "spec_fits n v es \<longleftrightarrow> length v0 \<le> length v \<and> length v + length (enc es) \<le> 3968 + length v0"
      by (simp add: spec_fits_def f rm) (auto simp: es enc_Cons length_enc1 xattr_consts)
    then show ?thesis unfolding NVFUSE_XATTR_MAX_SIZE_def
      using replace_check [OF attr_ok_lengths(5) [OF ok] attr_ok_lengths(5) [OF ok0] le] by simp
  qed
  have pos: "length (enc es) - entry_size bs (length (enc pre)) = length (enc (pre @ post))"
    by (simp add: ent es enc_Cons)
  show ?thesis
  proof (cases "spec_fits n v es")
    case True
    then have fit: "length (enc (pre @ post @ [(n, v)])) \<le> NVFUSE_XATTR_MAX_SIZE" by (simp add: spec_fits_def f rm)
    have h': "holds (pre @ post) (remove_entry (length (enc pre)) (length (enc es)) bs)"
      using holds_remove [OF h, of n] removed_at [OF h es ok0] by (simp add: rm)
    have nn: "n \<notin> fst ` set (pre @ post)" using pre post by auto
    show ?thesis using holds_append [OF h' ok nn] fit True g
      by (simp add: set_xattr_bytes_def find_present [OF h es pre] lst ent(2) pos spec_set_def rm)
  next
    case False
    then show ?thesis using g h
      by (simp add: set_xattr_bytes_def find_present [OF h es pre] lst ent(2) spec_set_def)
  qed
qed

lemma set_refines:
  assumes h: "holds es bs" and ok: "attr_ok (n, v)"
  shows "\<exists>bs'. set_xattr (Some n) (Some v) (Inr bs) = Some (fst (spec_set n v es), Inr bs') \<and> holds (snd (spec_set n v es)) bs'"
proof -
  have "\<exists>bs'. set_xattr_bytes n v bs = Some (fst (spec_set n v es), bs') \<and> holds (snd (spec_set n v es)) bs'"
    using set_absent [OF h ok] set_present [OF h ok] by (cases "spec_find n es") auto
  then show ?thesis using ok by (auto simp: set_xattr_def attr_ok_def)
qed

lemma remove_refines:
  assumes h: "holds es bs" and n: "name_ok n"
  shows "\<exists>bs'. remove_xattr (Some n) (Inr bs) = Some (if spec_find n es = None then -1 else 0, Inr bs') \<and> holds (spec_remove n es) bs'"
proof (cases "spec_find n es")
  case None
  then have "n \<notin> fst ` set es" by (simp add: spec_find_def map_of_eq_None_iff)
  then have "spec_remove n es = es" by (simp add: spec_remove_def filter_without)
  then show ?thesis using h n None by (simp add: remove_xattr_def find_absent [OF h None])
next
  case (Some v0)
  obtain pre post where es: "es = pre @ (n, v0) # post" and pre: "n \<notin> fst ` set pre" and post: "n \<notin> fst ` set post"
    and rm: "spec_remove n es = pre @ post" and ok0: "attr_ok (n, v0)" and "list_all attr_ok pre" "list_all attr_ok post"
    by (rule attrs_split [OF h Some])
  have ne: "length (enc es) \<noteq> length (enc pre)" by (simp add: es enc_Cons length_enc1)
  have "remove_xattr (Some n) (Inr bs) = Some (0, Inr (remove_entry (length (enc pre)) (length (enc es)) bs))"
    using n ne by (simp add: remove_xattr_def find_present [OF h es pre] last_at [OF h es])
  then show ?thesis using holds_remove [OF h, of n] removed_at [OF h es ok0] Some by (simp add: rm)
qed

lemma get_refines:
  assumes h: "holds es bs" and n: "name_ok n"
  shows "get_xattr (Some n) sz (Inr bs) = Some
    (case spec_find n es of None \<Rightarrow> (-1, None)
     | Some v \<Rightarrow> if length n + length v + 10 > sz then (ERANGE, None)
                 else (0, Some (n @ [0] @ v @ [0] @ replicate (sz - length n - length v - 2) 0)))"
proof (cases "spec_find n es")
  case None
  then show ?thesis using n by (simp add: get_xattr_def find_absent [OF h None])
next
  case (Some v)
  obtain pre post where es: "es = pre @ (n, v) # post" and pre: "n \<notin> fst ` set pre" and "n \<notin> fst ` set post"
    and "spec_remove n es = pre @ post" and ok: "attr_ok (n, v)" and "list_all attr_ok pre" "list_all attr_ok post"
    by (rule attrs_split [OF h Some])
  have bs: "bs = enc pre @ enc1 (n, v) @ (enc post @ replicate (3972 - length (enc es)) 0)"
    using holds_split(1) [OF h refl] by (simp add: es enc_Cons)
  note ent = entry_at [OF ok bs refl]
  have "put 0 (n @ [0] @ v @ [0]) (replicate sz 0) = n @ [0] @ v @ [0] @ replicate (sz - length n - length v - 2) 0"
    by (simp add: put_def numeral_2_eq_2)
  then show ?thesis using n Some ent(7) by (simp add: get_xattr_def find_present [OF h es pre] ent(3) length_enc1)
qed

lemma list_loop_names:
  assumes "bs = xs @ enc es @ replicate m 0" "p = length xs" "length es < k" "4 \<le> m" "list_all attr_ok es"
    "length (spec_names es) \<le> rest" "pos = length done"
  shows "list_loop k bs p pos rest (done @ replicate rest 0) = Some (0, done @ spec_names es @ replicate (rest - length (spec_names es)) 0)"
  using assms
proof (induction es arbitrary: k xs p pos rest "done")
  case Nil
  then obtain k' where k: "k = Suc k'" by (cases k) auto
  show ?case using Nil.prems is_last_end [of m xs] by (simp add: k spec_names_def)
next
  case (Cons e es)
  obtain n v where e: "e = (n, v)" by (cases e)
  from Cons.prems(3) obtain k' where k: "k = Suc k'" by (cases k) auto
  have ok: "attr_ok (n, v)" using Cons.prems(5) by (simp add: e)
  have bs: "bs = xs @ enc1 (n, v) @ (enc es @ replicate m 0)" by (simp add: Cons.prems(1) e enc_Cons)
  have bs': "bs = (xs @ enc1 (n, v)) @ enc es @ replicate m 0" by (simp add: bs)
  note ent = entry_at [OF ok bs Cons.prems(2)]
  have q: "p + entry_size bs p = length (xs @ enc1 (n, v))" using ent Cons.prems(2) by simp
  have nm: "spec_names (e # es) = n @ [0] @ spec_names es" by (simp add: spec_names_def e)
  have rest: "length n + 1 + length (spec_names es) \<le> rest" using Cons.prems(6) by (simp add: nm)
  have z: "(replicate rest 0 :: u8 list) = replicate (length n + 1) 0 @ replicate (rest - (length n + 1)) 0"
    unfolding replicate_add [symmetric] using rest by simp
  have pt: "put pos (n @ [0]) (done @ replicate rest 0) = (done @ n @ [0]) @ replicate (rest - (length n + 1)) 0"
    unfolding z using put_at [OF Cons.prems(7), of "replicate (length n + 1) 0" "n @ [0]"] by simp
  have "list_loop k bs p pos rest (done @ replicate rest 0)
      = list_loop k' bs (p + entry_size bs p) (pos + (length n + 1)) (rest - (length n + 1)) ((done @ n @ [0]) @ replicate (rest - (length n + 1)) 0)"
    unfolding k list_loop.simps ent(1) ent(6) pt using ent(4) rest by simp
  also have "\<dots> = Some (0, (done @ n @ [0]) @ spec_names es @ replicate (rest - (length n + 1) - length (spec_names es)) 0)"
    using Cons.prems(3-5,7) rest k by (intro Cons.IH [OF bs' q]) auto
  finally show ?case by (simp add: nm)
qed

lemma list_refines:
  assumes h: "holds es bs" and sz: "length (spec_names es) \<le> sz"
  shows "list_xattr sz (Inr bs) = Some (0, Some (spec_names es @ replicate (sz - length (spec_names es)) 0))"
  using list_loop_names [OF holds_split(1) [OF h refl] _ holds_split(2,3,4) [OF h refl] sz, of 0 0 "[]"]
  by (simp add: list_xattr_def)

section \<open>Properties\<close>


lemma holds_empty: "holds [] (replicate 3972 0)"
  by (simp add: holds_def)


text \<open>Replacing the value of an attribute by a shorter one fails however much room there
  is: the growth of the value is computed in unsigned 32-bit arithmetic, so a smaller value
  seems to need almost 4 GB.\<close>

theorem shorter_value_refused:
  assumes h: "holds es bs" and ok: "attr_ok (n, v)" and f: "spec_find n es = Some v0" and lt: "length v < length v0"
  shows "\<exists>bs'. set_xattr (Some n) (Some v) (Inr bs) = Some (-1, Inr bs') \<and> holds es bs'"
  using set_refines [OF h ok] f lt by (simp add: spec_set_def spec_fits_def)

lemma holds_one: "holds [([117], [49, 50])] (enc [([117], [49, 50])] @ replicate 3959 0)"
  by (simp add: holds_def enc_Cons length_enc1 xattr_consts attr_ok_def name_ok_def value_ok_def)

theorem shorter_value_refused_witness:
  "\<exists>bs'. set_xattr (Some [117]) (Some [49]) (Inr (enc [([117], [49, 50])] @ replicate 3959 0)) = Some (-1, Inr bs')
    \<and> holds [([117], [49, 50])] bs'"
  using shorter_value_refused [OF holds_one, of "[117]" "[49]" "[49, 50]"]
  by (simp add: attr_ok_def name_ok_def value_ok_def xattr_consts spec_find_def)

end
