(* ===== verification/BpNode.thy ===== *)
theory BpNode
  imports Prelude "HOL-Library.Multiset"
begin

text \<open>
  Nodes of the B+ tree of \<open>nvfuse_bp_tree.c\<close>: the array of key/item pairs of a node and
  the routines that work on one array, \<open>bp_bin_search\<close> with its two comparison
  functions, \<open>bp_merge_key\<close>, \<open>bp_merge_key2\<close> and \<open>bubble_sort\<close>.

  The arrays \<open>i_key\<close> and \<open>i_item\<close> are one list of pairs; keys are 64-bit and items 32-bit
  unsigned numbers that are only compared and copied.  A key 0 marks an unused slot.
\<close>

type_synonym key = nat
type_synonym item = nat
type_synonym pairs = "(key \<times> item) list"

definition FANOUT :: nat where "FANOUT = 337"

section \<open>Searching\<close>

definition key_compare :: "key \<Rightarrow> key \<Rightarrow> pairs \<Rightarrow> int \<Rightarrow> int" where
  "key_compare k1 k2 start mid = (if k1 > k2 then 1 else if k1 = k2 then 0 else -1)"

definition compare_index_node :: "key \<Rightarrow> key \<Rightarrow> pairs \<Rightarrow> int \<Rightarrow> int" where
  "compare_index_node key1 key2 base mid =
    (let prev = mid - 1;
         ret1 = (if prev < 0 then 1 else key_compare key1 (fst (base ! nat prev)) base mid);
         ret2 = key_compare key1 key2 base mid
     in if ret1 > 0 \<and> ret2 \<le> 0 then 0 else ret2)"

function bin_search_loop :: "(key \<Rightarrow> key \<Rightarrow> pairs \<Rightarrow> int \<Rightarrow> int) \<Rightarrow> key \<Rightarrow> pairs \<Rightarrow> int \<Rightarrow> int \<Rightarrow> int" where
  "bin_search_loop compare key pair lo hi =
    (if hi \<ge> lo then
       if compare key (fst (pair ! nat ((lo + hi) div 2))) pair ((lo + hi) div 2) = 0 then (lo + hi) div 2
       else if compare key (fst (pair ! nat ((lo + hi) div 2))) pair ((lo + hi) div 2) < 0
         then bin_search_loop compare key pair lo ((lo + hi) div 2 - 1)
       else bin_search_loop compare key pair ((lo + hi) div 2 + 1) hi
     else -1)"
  by pat_completeness auto
termination
  by (relation "measure (\<lambda>(compare, key, pair, lo, hi). nat (hi - lo + 1))") auto

declare bin_search_loop.simps [simp del]

definition bin_search :: "key \<Rightarrow> pairs \<Rightarrow> int \<Rightarrow> (key \<Rightarrow> key \<Rightarrow> pairs \<Rightarrow> int \<Rightarrow> int) \<Rightarrow> int" where
  "bin_search key pair mx compare = bin_search_loop compare key pair 0 mx"

section \<open>Inserting\<close>

fun merge_pos :: "pairs \<Rightarrow> key \<Rightarrow> nat \<Rightarrow> nat" where
  "merge_pos pair key 0 = 0"
| "merge_pos pair key (Suc i) =
    (if fst (pair ! i) \<noteq> 0 \<and> fst (pair ! i) < key then Suc i else merge_pos pair key i)"

fun shift_up :: "nat \<Rightarrow> nat \<Rightarrow> pairs \<Rightarrow> pairs" where
  "shift_up i 0 pair = pair"
| "shift_up i (Suc j) pair =
    (if Suc j > i then shift_up i j (pair[Suc j := pair ! j, j := (0, 0)]) else pair)"

definition merge_key2 :: "pairs \<Rightarrow> key \<Rightarrow> item \<Rightarrow> nat \<Rightarrow> pairs" where
  "merge_key2 pair key val mx =
    (let i = merge_pos pair key (mx - 1); pair1 = shift_up i (mx - 1) pair
     in if fst (pair1 ! i) = 0 then pair1[i := (key, val)] else pair1)"

section \<open>Sorting\<close>

function bubble_pass :: "nat \<Rightarrow> nat \<Rightarrow> pairs \<Rightarrow> bool \<Rightarrow> pairs \<times> bool" where
  "bubble_pass j m pair swap =
    (if j < m then
       if fst (pair ! (j - 1)) > fst (pair ! j)
       then bubble_pass (j + 1) m (pair[j := pair ! (j - 1), j - 1 := pair ! j]) True
       else bubble_pass (j + 1) m pair swap
     else (pair, swap))"
  by pat_completeness auto
termination
  by (relation "measure (\<lambda>(j, m, pair, swap). m - j)") auto

declare bubble_pass.simps [simp del]

fun bubble_loop :: "nat \<Rightarrow> nat \<Rightarrow> nat \<Rightarrow> pairs \<Rightarrow> pairs" where
  "bubble_loop 0 i num pair = pair"
| "bubble_loop (Suc k) i num pair =
    (case bubble_pass 1 (num - i) pair False of (pair1, swap) \<Rightarrow>
       if \<not> swap then pair1 else bubble_loop k (i + 1) num pair1)"

definition bubble_sort :: "pairs \<Rightarrow> nat \<Rightarrow> pairs" where
  "bubble_sort pair num = bubble_loop num 0 num pair"

section \<open>The searches\<close>

text \<open>The keys of the first \<open>n\<close> slots grow strictly.\<close>

definition keys_grow :: "pairs \<Rightarrow> nat \<Rightarrow> bool" where
  "keys_grow pair n \<longleftrightarrow> (\<forall>i j. i < j \<and> j < n \<longrightarrow> fst (pair ! i) < fst (pair ! j))"

lemma keys_grow_less_iff:
  "keys_grow pair n \<Longrightarrow> i < n \<Longrightarrow> j < n \<Longrightarrow> fst (pair ! i) < fst (pair ! j) \<longleftrightarrow> i < j"
  unfolding keys_grow_def by (metis linorder_neqE_nat order_less_asym order_less_irrefl)

lemma keys_grow_inj:
  "keys_grow pair n \<Longrightarrow> i < n \<Longrightarrow> j < n \<Longrightarrow> fst (pair ! i) = fst (pair ! j) \<longleftrightarrow> i = j"
  using keys_grow_less_iff [of pair n i j] keys_grow_less_iff [of pair n j i] by (metis linorder_neqE_nat order_less_irrefl)

text \<open>A search whose comparison puts the wanted position \<open>t\<close> on the right side of every
  other position finds it; one whose comparison is never 0 finds nothing.\<close>

lemma bin_search_loop_hit:
  assumes "\<And>m. lo \<le> m \<Longrightarrow> m \<le> hi \<Longrightarrow> compare key (fst (pair ! nat m)) pair m = 0 \<longleftrightarrow> m = t"
    and "\<And>m. lo \<le> m \<Longrightarrow> m \<le> hi \<Longrightarrow> m \<noteq> t \<Longrightarrow> compare key (fst (pair ! nat m)) pair m < 0 \<longleftrightarrow> t < m"
    and "lo \<le> t" "t \<le> hi"
  shows "bin_search_loop compare key pair lo hi = t"
  using assms
proof (induction compare key pair lo hi rule: bin_search_loop.induct)
  case (1 compare key pair lo hi)
  let ?m = "(lo + hi) div 2"
  let ?c = "compare key (fst (pair ! nat ?m)) pair ?m"
  have m: "lo \<le> ?m" "?m \<le> hi" "lo \<le> hi" using 1(5,6) by auto
  consider "?m = t" | "t < ?m" | "?m < t" by linarith
  then show ?case
  proof cases
    case 1
    then show ?thesis using m "1.prems"(1) [OF m(1,2)] by (simp add: bin_search_loop.simps [of _ _ _ lo])
  next
    case 2
    then have c: "?c \<noteq> 0" "?c < 0" using "1.prems"(1,2) [OF m(1,2)] by auto
    have "bin_search_loop compare key pair lo (?m - 1) = t"
      using c m 2 "1.prems" by (intro "1.IH"(1)) auto
    then show ?thesis using c m by (subst bin_search_loop.simps) simp
  next
    case 3
    then have c: "?c \<noteq> 0" "\<not> ?c < 0" using "1.prems"(1,2) [OF m(1,2)] by auto
    have "bin_search_loop compare key pair (?m + 1) hi = t"
      using c m 3 "1.prems" by (intro "1.IH"(2)) auto
    then show ?thesis using c m by (subst bin_search_loop.simps) simp
  qed
qed

lemma bin_search_loop_miss:
  assumes "\<And>m. lo \<le> m \<Longrightarrow> m \<le> hi \<Longrightarrow> compare key (fst (pair ! nat m)) pair m \<noteq> 0"
  shows "bin_search_loop compare key pair lo hi = -1"
  using assms
proof (induction compare key pair lo hi rule: bin_search_loop.induct)
  case (1 compare key pair lo hi)
  let ?m = "(lo + hi) div 2"
  let ?c = "compare key (fst (pair ! nat ?m)) pair ?m"
  show ?case
  proof (cases "lo \<le> hi")
    case True
    then have m: "lo \<le> ?m" "?m \<le> hi" by auto
    then have c: "?c \<noteq> 0" using "1.prems" by blast
    have "bin_search_loop compare key pair lo (?m - 1) = -1" if "?c < 0"
      using c m True that "1.prems" by (intro "1.IH"(1)) auto
    moreover have "bin_search_loop compare key pair (?m + 1) hi = -1" if "\<not> ?c < 0"
      using c m True that "1.prems" by (intro "1.IH"(2)) auto
    ultimately show ?thesis using c True by (subst bin_search_loop.simps) auto
  next
    case False
    then show ?thesis by (subst bin_search_loop.simps) simp
  qed
qed

lemma bin_search_data:
  assumes g: "keys_grow pair n"
  shows "i < n \<Longrightarrow> bin_search (fst (pair ! i)) pair (int n - 1) key_compare = int i"
    and "(\<And>i. i < n \<Longrightarrow> fst (pair ! i) \<noteq> key) \<Longrightarrow> bin_search key pair (int n - 1) key_compare = -1"
proof -
  assume i: "i < n"
  show "bin_search (fst (pair ! i)) pair (int n - 1) key_compare = int i"
    unfolding bin_search_def
  proof (rule bin_search_loop_hit)
    fix m :: int
    assume m: "0 \<le> m" "m \<le> int n - 1"
    then have mn: "nat m < n" by linarith
    show "key_compare (fst (pair ! i)) (fst (pair ! nat m)) pair m = 0 \<longleftrightarrow> m = int i"
      using keys_grow_inj [OF g i mn] m by (auto simp: key_compare_def)
    show "m \<noteq> int i \<Longrightarrow> key_compare (fst (pair ! i)) (fst (pair ! nat m)) pair m < 0 \<longleftrightarrow> int i < m"
      using keys_grow_less_iff [OF g i mn] keys_grow_less_iff [OF g mn i] keys_grow_inj [OF g i mn] m
      by (auto simp: key_compare_def)
  qed (use i in auto)
next
  assume a: "\<And>i. i < n \<Longrightarrow> fst (pair ! i) \<noteq> key"
  show "bin_search key pair (int n - 1) key_compare = -1"
    unfolding bin_search_def
  proof (rule bin_search_loop_miss)
    fix m :: int
    assume "0 \<le> m" "m \<le> int n - 1"
    then have "nat m < n" by linarith
    then show "key_compare key (fst (pair ! nat m)) pair m \<noteq> 0" using a by (auto simp: key_compare_def)
  qed
qed

text \<open>In an index node the search returns the first separator that is not less than the
  key.\<close>

lemma bin_search_index:
  assumes g: "keys_grow pair n" and i: "i < n" and le: "key \<le> fst (pair ! i)"
    and gt: "\<And>j. j < i \<Longrightarrow> fst (pair ! j) < key"
  shows "bin_search key pair (int n - 1) compare_index_node = int i"
  unfolding bin_search_def
proof (rule bin_search_loop_hit)
  fix m :: int
  assume m: "0 \<le> m" "m \<le> int n - 1"
  then obtain j where j: "m = int j" "j < n" by (metis zero_le_imp_eq_int zle_diff1_eq of_nat_less_iff)
  have before: "fst (pair ! l) < fst (pair ! j)" if "l < j" for l using g j that by (auto simp: keys_grow_def)
  have prev: "compare_index_node key (fst (pair ! nat m)) pair m =
      (if (j = 0 \<or> fst (pair ! (j - 1)) < key) \<and> key \<le> fst (pair ! j) then 0
       else key_compare key (fst (pair ! j)) pair m)"
    using j by (auto simp: compare_index_node_def key_compare_def Let_def nat_diff_distrib)
  consider "j = i" | "j < i" | "i < j" by linarith
  then have "(compare_index_node key (fst (pair ! nat m)) pair m = 0 \<longleftrightarrow> m = int i)
    \<and> (m \<noteq> int i \<longrightarrow> (compare_index_node key (fst (pair ! nat m)) pair m < 0 \<longleftrightarrow> int i < m))"
  proof cases
    case 1
    then have "j = 0 \<or> fst (pair ! (j - 1)) < key" using gt [of "j - 1"] by (cases "j = 0") simp_all
    then show ?thesis unfolding prev using 1 le j by simp
  next
    case 2
    then have "fst (pair ! j) < key" using gt by simp
    then show ?thesis unfolding prev using 2 j by (auto simp: key_compare_def)
  next
    case 3
    have a: "key \<le> fst (pair ! (j - 1))"
    proof (cases "i = j - 1")
      case False
      then have "i < j - 1" "j - 1 < n" using 3 j by auto
      then have "fst (pair ! i) < fst (pair ! (j - 1))" using g by (simp add: keys_grow_def)
      then show ?thesis using le by simp
    qed (use le in simp)
    have "fst (pair ! (j - 1)) < fst (pair ! j)" using before [of "j - 1"] 3 by simp
    then have "key < fst (pair ! j)" using a by simp
    then show ?thesis unfolding prev using a 3 j by (auto simp: key_compare_def)
  qed
  then show "compare_index_node key (fst (pair ! nat m)) pair m = 0 \<longleftrightarrow> m = int i"
    and "m \<noteq> int i \<Longrightarrow> compare_index_node key (fst (pair ! nat m)) pair m < 0 \<longleftrightarrow> int i < m"
    by blast+
qed (use i in auto)

section \<open>Insertion keeps a sorted array sorted\<close>

definition ins :: "key \<Rightarrow> item \<Rightarrow> pairs \<Rightarrow> pairs" where
  "ins k v xs = takeWhile (\<lambda>p. fst p < k) xs @ (k, v) # dropWhile (\<lambda>p. fst p < k) xs"

definition keys_ok :: "pairs \<Rightarrow> bool" where
  "keys_ok xs \<longleftrightarrow> sorted_wrt (<) (map fst xs) \<and> 0 \<notin> fst ` set xs"

lemma keys_ok_Nil [simp]: "keys_ok []" by (simp add: keys_ok_def)

lemma keys_ok_append:
  "keys_ok (xs @ ys) \<longleftrightarrow> keys_ok xs \<and> keys_ok ys \<and> (\<forall>x\<in>set xs. \<forall>y\<in>set ys. fst x < fst y)"
  by (auto simp: keys_ok_def sorted_wrt_append)

lemma keys_ok_Cons: "keys_ok (x # xs) \<longleftrightarrow> 0 < fst x \<and> (\<forall>y\<in>set xs. fst x < fst y) \<and> keys_ok xs"
  by (auto simp: keys_ok_def)

lemma keys_ok_take: "keys_ok xs \<Longrightarrow> keys_ok (take n xs)"
  by (metis append_take_drop_id keys_ok_append)

lemma keys_ok_drop: "keys_ok xs \<Longrightarrow> keys_ok (drop n xs)"
  by (metis append_take_drop_id keys_ok_append)

lemma keys_ok_grow: "keys_ok xs \<Longrightarrow> keys_grow (xs @ ys) (length xs)"
  unfolding keys_ok_def keys_grow_def by (auto simp: sorted_wrt_iff_nth_less nth_append)

lemma keys_ok_distinct: "keys_ok xs \<Longrightarrow> distinct (map fst xs)"
  unfolding keys_ok_def by (metis strict_sorted_iff)

lemma dropWhile_ge:
  "keys_ok xs \<Longrightarrow> y \<in> set (dropWhile (\<lambda>p. fst p < k) xs) \<Longrightarrow> k \<le> fst y"
  by (induction xs) (auto simp: keys_ok_Cons split: if_splits)

lemma ins_split:
  assumes "keys_ok (us @ ws)" "\<forall>u\<in>set us. fst u < k" "\<forall>w\<in>set ws. k < fst w"
  shows "ins k v (us @ ws) = us @ (k, v) # ws"
proof -
  have "takeWhile (\<lambda>p. fst p < k) ws = []" "dropWhile (\<lambda>p. fst p < k) ws = ws"
    using assms(3) by (cases ws; force)+
  then show ?thesis using assms(2) by (simp add: ins_def takeWhile_append2 dropWhile_append2)
qed

lemma ins_cases:
  assumes "keys_ok xs" "k \<notin> fst ` set xs"
  obtains us ws where "xs = us @ ws" "\<forall>u\<in>set us. fst u < k" "\<forall>w\<in>set ws. k < fst w" "ins k v xs = us @ (k, v) # ws"
proof
  show "xs = takeWhile (\<lambda>p. fst p < k) xs @ dropWhile (\<lambda>p. fst p < k) xs" by simp
  show "\<forall>u\<in>set (takeWhile (\<lambda>p. fst p < k) xs). fst u < k" by (auto dest: set_takeWhileD)
  show "\<forall>w\<in>set (dropWhile (\<lambda>p. fst p < k) xs). k < fst w"
  proof
    fix w assume w: "w \<in> set (dropWhile (\<lambda>p. fst p < k) xs)"
    then have "fst w \<noteq> k" using assms(2) set_dropWhileD by fastforce
    then show "k < fst w" using dropWhile_ge [OF assms(1) w] by simp
  qed
qed (simp add: ins_def)

lemma ins_facts:
  assumes "keys_ok xs" "k \<notin> fst ` set xs" "0 < k"
  shows "keys_ok (ins k v xs)" "set (ins k v xs) = insert (k, v) (set xs)" "length (ins k v xs) = Suc (length xs)"
proof -
  obtain us ws where s: "xs = us @ ws" "\<forall>u\<in>set us. fst u < k" "\<forall>w\<in>set ws. k < fst w" "ins k v xs = us @ (k, v) # ws"
    by (rule ins_cases [OF assms(1,2)])
  show "keys_ok (ins k v xs)" using assms s by (auto simp: keys_ok_append keys_ok_Cons)
  show "set (ins k v xs) = insert (k, v) (set xs)" "length (ins k v xs) = Suc (length xs)" using s by auto
qed

lemma merge_pos_at:
  assumes "\<forall>u\<in>set us. fst u < k \<and> fst u \<noteq> 0" "\<forall>w\<in>set ws. k < fst w" "n \<le> length ws"
  shows "merge_pos (us @ ws @ zs) k (length us + n) = length us"
  using assms(3)
proof (induction n)
  case 0
  show ?case
  proof (cases us rule: rev_cases)
    case (snoc us' u)
    then have "fst u < k" "fst u \<noteq> 0" using assms(1) by auto
    then show ?thesis by (simp add: snoc nth_append)
  qed simp
next
  case (Suc n)
  have "ws ! n \<in> set ws" using Suc.prems by simp
  then have "\<not> fst (ws ! n) < k" using assms(2) by (meson not_less_iff_gr_or_eq)
  then have "\<not> fst ((us @ ws @ zs) ! (length us + n)) < k" using Suc.prems by (simp add: nth_append)
  then show ?case using Suc by simp
qed

lemma shift_up_at:
  "shift_up (length us) (length us + length ws) (us @ ws @ (0, 0) # ys) = us @ (0, 0) # ws @ ys"
proof (induction ws arbitrary: ys rule: rev_induct)
  case Nil
  show ?case by (cases "length us") simp_all
next
  case (snoc w ws)
  let ?a = "us @ (ws @ [w]) @ (0, 0) # ys"
  have "?a ! (length us + length ws) = w" by (simp add: nth_append)
  moreover have "?a[Suc (length us + length ws) := w, length us + length ws := (0, 0)] = us @ ws @ (0, 0) # w # ys"
    by (simp add: list_update_append)
  ultimately show ?case using snoc.IH [of "w # ys"] by simp
qed

lemma merge_key2_ins:
  assumes ok: "keys_ok xs" and k: "k \<notin> fst ` set xs" "0 < k" and n: "mx = length xs + 1"
  shows "merge_key2 (xs @ (0, 0) # ys) k v mx = ins k v xs @ ys"
proof -
  obtain us ws where s: "xs = us @ ws" "\<forall>u\<in>set us. fst u < k" "\<forall>w\<in>set ws. k < fst w" "ins k v xs = us @ (k, v) # ws"
    by (rule ins_cases [OF ok k(1)])
  have nz: "\<forall>u\<in>set us. fst u < k \<and> fst u \<noteq> 0" using s(1,2) ok by (auto simp: keys_ok_def image_iff)
  have mp: "merge_pos (us @ ws @ (0, 0) # ys) k (length us + length ws) = length us"
    by (rule merge_pos_at [OF nz s(3)]) simp
  show ?thesis unfolding s(4) by (simp add: merge_key2_def n s(1) mp shift_up_at nth_append)
qed

section \<open>Sorting\<close>

lemma bubble_pass_props:
  assumes "bubble_pass j m a sw = (a', sw')" "1 \<le> j" "j \<le> m" "m \<le> length a"
    "\<forall>i<j - 1. fst (a ! i) \<le> fst (a ! (j - 1))"
  shows "length a' = length a \<and> mset a' = mset a \<and> (\<forall>i. m \<le> i \<longrightarrow> a' ! i = a ! i)
    \<and> (\<forall>i<m. fst (a' ! i) \<le> fst (a' ! (m - 1)))
    \<and> mset (take m a') = mset (take m a)
    \<and> (\<not> sw' \<longrightarrow> \<not> sw \<and> a' = a \<and> (\<forall>i. j \<le> i \<and> i < m \<longrightarrow> fst (a ! (i - 1)) \<le> fst (a ! i)))"
  using assms
proof (induction j m a sw rule: bubble_pass.induct)
  case (1 j m a sw)
  show ?case
  proof (cases "j < m")
    case False
    then have jm: "j = m" using 1(5) by simp
    then have eq: "a' = a" "sw' = sw" using 1(3) by (simp_all add: bubble_pass.simps [of m])
    have "\<forall>i<m. fst (a ! i) \<le> fst (a ! (m - 1))"
    proof (intro allI impI)
      fix i assume "i < m"
      then show "fst (a ! i) \<le> fst (a ! (m - 1))" using 1(7) jm by (cases "i = m - 1") auto
    qed
    then show ?thesis using eq jm by simp
  next
    case True
    define b where "b = a[j := a ! (j - 1), j - 1 := a ! j]"
    have lj: "j < length a" "j - 1 < length a" "j - 1 < m" using True 1(4,6) by auto
    have bl: "length b = length a" by (simp add: b_def)
    show ?thesis
    proof (cases "fst (a ! (j - 1)) > fst (a ! j)")
      case sw: True
      have r: "bubble_pass (j + 1) m b True = (a', sw')"
        using 1(3) True sw by (simp add: bubble_pass.simps [of j] b_def)
      have nth: "b ! i = (if i = j - 1 then a ! j else if i = j then a ! (j - 1) else a ! i)" if "i < length a" for i
        using that lj 1(4) by (auto simp: b_def nth_list_update)
      have swp: "mset b = mset a" unfolding b_def using lj by (simp add: mset_swap)
      have tk: "take m b = (take m a)[j := take m a ! (j - 1), j - 1 := take m a ! j]"
        using True lj by (simp add: b_def take_update_swap)
      have tks: "mset (take m b) = mset (take m a)" unfolding tk using True lj by (intro mset_swap) auto
      have pre: "\<forall>i<j + 1 - 1. fst (b ! i) \<le> fst (b ! (j + 1 - 1))"
      proof (intro allI impI)
        fix i assume "i < j + 1 - 1"
        then have "i < j" by simp
        then show "fst (b ! i) \<le> fst (b ! (j + 1 - 1))" using 1(7) sw lj 1(4) by (simp add: nth) (cases "i = j - 1"; auto)
      qed
      have IH: "length a' = length b \<and> mset a' = mset b \<and> (\<forall>i. m \<le> i \<longrightarrow> a' ! i = b ! i)
        \<and> (\<forall>i<m. fst (a' ! i) \<le> fst (a' ! (m - 1))) \<and> mset (take m a') = mset (take m b)
        \<and> (\<not> sw' \<longrightarrow> \<not> True \<and> a' = b \<and> (\<forall>i. j + 1 \<le> i \<and> i < m \<longrightarrow> fst (b ! (i - 1)) \<le> fst (b ! i)))"
        by (rule "1.IH"(1) [OF True sw, folded b_def, OF r _ _ _ pre]) (use True 1(6) bl in auto)
      have far: "b ! i = a ! i" if "m \<le> i" for i using that True lj by (simp add: b_def)
      show ?thesis using IH far swp tks bl by auto
    next
      case nsw: False
      have r: "bubble_pass (j + 1) m a sw = (a', sw')" using 1(3) True nsw by (simp add: bubble_pass.simps [of j])
      have pre: "\<forall>i<j + 1 - 1. fst (a ! i) \<le> fst (a ! (j + 1 - 1))"
      proof (intro allI impI)
        fix i assume "i < j + 1 - 1"
        then show "fst (a ! i) \<le> fst (a ! (j + 1 - 1))" using 1(7) nsw
          by (cases "i = j - 1") (auto intro: order_trans [of _ "fst (a ! (j - 1))"])
      qed
      have IH: "length a' = length a \<and> mset a' = mset a \<and> (\<forall>i. m \<le> i \<longrightarrow> a' ! i = a ! i)
        \<and> (\<forall>i<m. fst (a' ! i) \<le> fst (a' ! (m - 1))) \<and> mset (take m a') = mset (take m a)
        \<and> (\<not> sw' \<longrightarrow> \<not> sw \<and> a' = a \<and> (\<forall>i. j + 1 \<le> i \<and> i < m \<longrightarrow> fst (a ! (i - 1)) \<le> fst (a ! i)))"
        by (rule "1.IH"(2) [OF True nsw r _ _ _ pre]) (use True 1(6) in auto)
      have "fst (a ! (i - 1)) \<le> fst (a ! i)" if "\<not> sw'" "j \<le> i" "i < m" for i
        using IH nsw that by (cases "i = j") auto
      then show ?thesis using IH by blast
    qed
  qed
qed

definition sorted_from :: "pairs \<Rightarrow> nat \<Rightarrow> nat \<Rightarrow> bool" where
  "sorted_from a m n \<longleftrightarrow> (\<forall>i j. i \<le> j \<and> m \<le> j \<and> j < n \<longrightarrow> fst (a ! i) \<le> fst (a ! j))"

lemma steps_sorted:
  fixes a :: pairs
  assumes "\<forall>i. 1 \<le> i \<and> i < m \<longrightarrow> fst (a ! (i - 1)) \<le> fst (a ! i)" "i \<le> j" "j < m"
  shows "fst (a ! i) \<le> fst (a ! j)"
  using assms(2,3)
proof (induction j)
  case (Suc j)
  show ?case
  proof (cases "i = Suc j")
    case False
    then have "fst (a ! i) \<le> fst (a ! j)" using Suc by simp
    also have "\<dots> \<le> fst (a ! Suc j)" using assms(1) [rule_format, of "Suc j"] Suc.prems by simp
    finally show ?thesis .
  qed simp
qed simp

lemma take_mset_nth:
  assumes "mset (take m a) = mset (take m b)" "m \<le> length a" "m \<le> length b" "i < m"
  shows "\<exists>j<m. a ! i = b ! j"
proof -
  have "a ! i \<in> set (take m a)" using assms(2,4) by (auto simp: in_set_conv_nth intro!: exI [of _ i])
  then have "a ! i \<in> set (take m b)" using assms(1) mset_eq_setD by blast
  then show ?thesis using assms(3) by (auto simp: in_set_conv_nth)
qed

lemma bubble_loop_sorts:
  assumes "i + k = num" "num \<le> length a" "sorted_from a (num - i) num"
  shows "length (bubble_loop k i num a) = length a \<and> mset (take num (bubble_loop k i num a)) = mset (take num a)
    \<and> (\<forall>j\<ge>num. bubble_loop k i num a ! j = a ! j) \<and> sorted_from (bubble_loop k i num a) 0 num"
  using assms
proof (induction k arbitrary: i a)
  case 0
  then show ?case by simp
next
  case (Suc k)
  define m where "m = num - i"
  have m: "1 \<le> m" "m \<le> num" "m \<le> length a" using Suc.prems by (auto simp: m_def)
  obtain b sw where b: "bubble_pass 1 m a False = (b, sw)" by fastforce
  have p: "length b = length a \<and> mset b = mset a \<and> (\<forall>i. m \<le> i \<longrightarrow> b ! i = a ! i)
    \<and> (\<forall>i<m. fst (b ! i) \<le> fst (b ! (m - 1))) \<and> mset (take m b) = mset (take m a)
    \<and> (\<not> sw \<longrightarrow> \<not> False \<and> b = a \<and> (\<forall>i. 1 \<le> i \<and> i < m \<longrightarrow> fst (a ! (i - 1)) \<le> fst (a ! i)))"
    by (rule bubble_pass_props [OF b]) (use m in auto)
  have tail: "drop m b = drop m a" using p by (intro nth_equalityI) auto
  have tk: "mset (take num b) = mset (take num a)"
  proof -
    have "take num c = take m c @ take (num - m) (drop m c)" for c :: pairs
      using m by (metis le_add_diff_inverse take_add)
    then show ?thesis using p tail by (metis mset_append)
  qed
  show ?case
  proof (cases sw)
    case False
    have "fst (a ! i') \<le> fst (a ! j)" if "i' \<le> j" "j < num" for i' j
    proof (cases "m \<le> j")
      case True
      then show ?thesis using Suc.prems(3) that by (auto simp: sorted_from_def m_def)
    next
      case lt: False
      have "\<forall>i. 1 \<le> i \<and> i < m \<longrightarrow> fst (a ! (i - 1)) \<le> fst (a ! i)" using p False by simp
      then show ?thesis by (rule steps_sorted) (use lt that in auto)
    qed
    then have "sorted_from a 0 num" by (simp add: sorted_from_def)
    then show ?thesis using b p False by (simp add: m_def)
  next
    case True
    have up: "fst (b ! i') \<le> fst (b ! j)" if ij: "i' \<le> j" "m - 1 \<le> j" "j < num" for i' j
    proof (cases "m \<le> j")
      case mj: True
      then have bj: "b ! j = a ! j" using p by simp
      show ?thesis
      proof (cases "i' < m")
        case True
        then obtain l where "l < m" "b ! i' = a ! l" using take_mset_nth [of m b a i'] p m by auto
        then show ?thesis using Suc.prems(3) mj ij bj by (simp add: sorted_from_def m_def)
      next
        case False
        then show ?thesis using Suc.prems(3) mj ij bj p by (simp add: sorted_from_def m_def)
      qed
    next
      case False
      then have "j = m - 1" "i' < m" using ij m by auto
      then show ?thesis using p by simp
    qed
    have "num - (i + 1) = m - 1" by (simp add: m_def)
    then have "sorted_from b (num - (i + 1)) num" using up by (simp add: sorted_from_def)
    then have IH: "length (bubble_loop k (i + 1) num b) = length b \<and> mset (take num (bubble_loop k (i + 1) num b)) = mset (take num b)
      \<and> (\<forall>j\<ge>num. bubble_loop k (i + 1) num b ! j = b ! j) \<and> sorted_from (bubble_loop k (i + 1) num b) 0 num"
      using Suc.prems p by (intro Suc.IH) auto
    have eq: "bubble_loop (Suc k) i num a = bubble_loop k (i + 1) num b" using b True by (simp add: m_def)
    have "\<forall>j\<ge>num. b ! j = a ! j" using p m by simp
    then show ?thesis using IH p tk unfolding eq by simp
  qed
qed

lemma bubble_sort_spec:
  assumes "num \<le> length a"
  shows "length (bubble_sort a num) = length a" "mset (take num (bubble_sort a num)) = mset (take num a)"
    "j \<ge> num \<Longrightarrow> bubble_sort a num ! j = a ! j" "sorted (map fst (take num (bubble_sort a num)))"
proof -
  have f: "sorted_from a (num - 0) num" by (simp add: sorted_from_def)
  note s = bubble_loop_sorts [OF _ assms f, of num, folded bubble_sort_def, simplified]
  from s show "length (bubble_sort a num) = length a" "mset (take num (bubble_sort a num)) = mset (take num a)"
    "j \<ge> num \<Longrightarrow> bubble_sort a num ! j = a ! j" by simp_all
  show "sorted (map fst (take num (bubble_sort a num)))"
    using s assms by (simp add: sorted_iff_nth_mono sorted_from_def)
qed

lemma bubble_sort_sorted:
  assumes "keys_ok xs"
  shows "bubble_sort (xs @ ys) (length xs) = xs @ ys"
proof -
  have "bubble_pass 1 (length xs) (xs @ ys) False = (xs @ ys, False)" if "1 \<le> length xs"
  proof -
    have "bubble_pass j (length xs) (xs @ ys) False = (xs @ ys, False)" if "1 \<le> j" for j
      using that
    proof (induction "length xs - j" arbitrary: j)
      case 0
      then show ?case by (simp add: bubble_pass.simps [of j])
    next
      case (Suc d)
      then have j: "j < length xs" "j - 1 < j" by auto
      then have "fst (xs ! (j - 1)) < fst (xs ! j)"
        using keys_ok_grow [OF assms, of "[]"] by (simp add: keys_grow_def)
      then have "\<not> fst ((xs @ ys) ! (j - 1)) > fst ((xs @ ys) ! j)" using j by (simp add: nth_append)
      then show ?case using j Suc by (subst bubble_pass.simps) simp
    qed
    then show ?thesis by simp
  qed
  then show ?thesis by (cases xs) (simp_all add: bubble_sort_def)
qed

lemma takeWhile_less_length: "x \<in> set xs \<Longrightarrow> \<not> P x \<Longrightarrow> length (takeWhile P xs) < length xs"
  by (induction xs) auto

lemma bin_search_spec:
  assumes "keys_ok xs"
  shows "bin_search k (xs @ ys) (int (length xs) - 1) key_compare
      = (if k \<in> fst ` set xs then int (length (takeWhile (\<lambda>p. fst p \<noteq> k) xs)) else -1)"
    and "(\<exists>x\<in>set xs. k \<le> fst x) \<Longrightarrow> bin_search k (xs @ ys) (int (length xs) - 1) compare_index_node
      = int (length (takeWhile (\<lambda>p. fst p < k) xs))"
proof -
  note g = keys_ok_grow [OF assms, of ys]
  show "bin_search k (xs @ ys) (int (length xs) - 1) key_compare
      = (if k \<in> fst ` set xs then int (length (takeWhile (\<lambda>p. fst p \<noteq> k) xs)) else -1)"
  proof (cases "k \<in> fst ` set xs")
    case True
    then have lt: "length (takeWhile (\<lambda>p. fst p \<noteq> k) xs) < length xs"
      by (auto intro: takeWhile_less_length)
    then have "fst (xs ! length (takeWhile (\<lambda>p. fst p \<noteq> k) xs)) = k" using nth_length_takeWhile [OF lt] by simp
    then show ?thesis using True bin_search_data(1) [OF g lt] lt by (simp add: nth_append)
  next
    case False
    have "fst ((xs @ ys) ! i) \<noteq> k" if "i < length xs" for i using False that by (auto simp: nth_append)
    then show ?thesis using False bin_search_data(2) [OF g, of k] by simp
  qed
  assume ex: "\<exists>x\<in>set xs. k \<le> fst x"
  define i where "i = length (takeWhile (\<lambda>p. fst p < k) xs)"
  have lt: "i < length xs" unfolding i_def
    using ex by (auto intro: takeWhile_less_length simp: not_less)
  have le: "k \<le> fst ((xs @ ys) ! i)" using nth_length_takeWhile [of "\<lambda>p. fst p < k" xs] lt by (simp add: i_def nth_append)
  have gt: "fst ((xs @ ys) ! j) < k" if "j < i" for j
    using that lt nth_mem [of j "takeWhile (\<lambda>p. fst p < k) xs"] set_takeWhileD [of _ "\<lambda>p. fst p < k" xs]
    by (fastforce simp: i_def nth_append takeWhile_nth)
  show "bin_search k (xs @ ys) (int (length xs) - 1) compare_index_node = int (length (takeWhile (\<lambda>p. fst p < k) xs))"
    using bin_search_index [OF g lt le gt] by (simp add: i_def)
qed

section \<open>Properties\<close>

text \<open>The binary search of a leaf returns the position of the key among its pairs, and
  -1 when the key is not there; the binary search of an index node returns the first
  separator that is not less than the key.\<close>

theorem bin_search_correct:
  assumes "keys_ok xs"
  shows "bin_search k (xs @ ys) (int (length xs) - 1) key_compare
      = (if k \<in> fst ` set xs then int (length (takeWhile (\<lambda>p. fst p \<noteq> k) xs)) else -1)
    \<and> ((\<exists>x\<in>set xs. k \<le> fst x) \<longrightarrow> bin_search k (xs @ ys) (int (length xs) - 1) compare_index_node
      = int (length (takeWhile (\<lambda>p. fst p < k) xs)))"
  using bin_search_spec [OF assms, of k ys] by blast

theorem bin_search_correct_witness:
  "bin_search 5 [(2, 7), (5, 9), (8, 1), (0, 0)] 2 key_compare = 1
    \<and> bin_search 6 [(2, 7), (5, 9), (8, 1), (0, 0)] 2 compare_index_node = 2"
  using bin_search_correct [of "[(2, 7), (5, 9), (8, 1)]" 5 "[(0, 0)]"]
    bin_search_correct [of "[(2, 7), (5, 9), (8, 1)]" 6 "[(0, 0)]"]
  by (simp add: keys_ok_def)

end
