(* ===== verification/BpAlloc.thy ===== *)
theory BpAlloc
  imports Bitmap
begin

text \<open>
  The blocks of a B+ tree file, \<open>nvfuse_bp_tree.c\<close>: block 0 is the master node with the
  counters and a bitmap, every other block holds a node.  \<open>bp_alloc_bitmap\<close> reuses a
  freed block or extends the file, \<open>bp_dealloc_bitmap\<close> frees one.

  The state is the on-disk part of the master and the size of the file in blocks.  The
  argument \<open>can_map\<close> tells whether \<open>nvfuse_get_block\<close> can map a block of the file.  The
  master of the blocks from \<open>BP_NODES_PER_MASTER\<close> on is used by the code through a pointer
  read from a block filled with zeros, and the last bit of the bitmap lies behind the
  block; both accesses are the result \<open>None\<close>, as is a failed assertion.
\<close>

definition BP_BITMAP_SIZE :: nat where "BP_BITMAP_SIZE = 4056"
definition BP_NODES_PER_MASTER :: nat where "BP_NODES_PER_MASTER = 1 + BP_BITMAP_SIZE * 8"

lemmas bp_consts = BP_BITMAP_SIZE_def BP_NODES_PER_MASTER_def

record master =
  m_bitmap :: bitmap
  m_bitmap_free :: int
  m_alloc_block :: int
  m_dealloc_block :: int
  m_last_sub_master :: nat
  m_last_sub_offset :: nat
  m_blocks :: nat

section \<open>Operations\<close>

definition read_master_ctx :: "nat \<Rightarrow> unit option" where
  "read_master_ctx master_id = assert_opt (master_id = 0)"

definition bit_of :: "nat \<Rightarrow> nat option" where
  "bit_of off = do {
     read_master_ctx (off div BP_NODES_PER_MASTER);
     assert_opt (off mod BP_NODES_PER_MASTER < BP_BITMAP_SIZE * 8);
     Some (off mod BP_NODES_PER_MASTER) }"

definition bp_set_bitmap :: "nat \<Rightarrow> master \<Rightarrow> master option" where
  "bp_set_bitmap off m = do {
     k \<leftarrow> bit_of off;
     assert_opt (m_bitmap_free m - 1 \<ge> 0);
     Some (m\<lparr>m_bitmap := bset k (m_bitmap m), m_bitmap_free := m_bitmap_free m - 1\<rparr>) }"

definition bp_clear_bitmap :: "nat \<Rightarrow> master \<Rightarrow> master option" where
  "bp_clear_bitmap off m = do {
     k \<leftarrow> bit_of off;
     assert_opt (tst (m_bitmap m) k);
     assert_opt (m_bitmap_free m + 1 \<le> int BP_NODES_PER_MASTER);
     Some (m\<lparr>m_bitmap := bclr k (m_bitmap m), m_bitmap_free := m_bitmap_free m + 1\<rparr>) }"

definition bp_test_bitmap :: "nat \<Rightarrow> master \<Rightarrow> bool option" where
  "bp_test_bitmap off m = do { k \<leftarrow> bit_of off; Some (tst (m_bitmap m) k) }"

definition bp_inc_free_bitmap :: "nat \<Rightarrow> master \<Rightarrow> master option" where
  "bp_inc_free_bitmap off m = do {
     read_master_ctx (off div BP_NODES_PER_MASTER);
     assert_opt (m_bitmap_free m + 1 \<le> int BP_NODES_PER_MASTER);
     Some (m\<lparr>m_bitmap_free := m_bitmap_free m + 1\<rparr>) }"

text \<open>\<open>_bp_scan_bitmap\<close>: \<open>length - 1\<close> rounds from \<open>offset\<close> on, wrapping to 1.\<close>

fun scan_bits :: "nat \<Rightarrow> bitmap \<Rightarrow> nat \<Rightarrow> nat \<Rightarrow> nat option" where
  "scan_bits 0 bm off len = Some 0"
| "scan_bits (Suc k) bm off len =
    (if off \<ge> BP_BITMAP_SIZE * 8 then None
     else if \<not> tst bm off then Some off
     else scan_bits k bm (if off + 1 = len then 1 else off + 1) len)"

definition bp_ceil :: "nat \<Rightarrow> nat \<Rightarrow> nat" where
  "bp_ceil x y = (x + y - 1) div y"

fun scan_masters :: "nat \<Rightarrow> nat \<Rightarrow> nat \<Rightarrow> nat \<Rightarrow> nat \<Rightarrow> master \<Rightarrow> (nat \<times> master) option" where
  "scan_masters 0 max_offset max_master lm lo m = Some (0, m)"
| "scan_masters (Suc i) max_offset max_master lm lo m = do {
     read_master_ctx lm;
     fb \<leftarrow> (if m_bitmap_free m \<noteq> 0
            then scan_bits ((if lm + 1 = max_master then max_offset mod BP_NODES_PER_MASTER else BP_NODES_PER_MASTER) - 1)
                   (m_bitmap m) lo
                   (if lm + 1 = max_master then max_offset mod BP_NODES_PER_MASTER else BP_NODES_PER_MASTER)
            else Some 0);
     if fb mod BP_NODES_PER_MASTER \<noteq> 0
     then Some (lm * BP_NODES_PER_MASTER + fb, m\<lparr>m_last_sub_master := lm, m_last_sub_offset := fb\<rparr>)
     else scan_masters i max_offset max_master ((lm + 1) mod max_master) lo m }"

definition bp_scan_bitmap :: "master \<Rightarrow> (nat \<times> master) option" where
  "bp_scan_bitmap m =
    scan_masters (bp_ceil (m_blocks m) BP_NODES_PER_MASTER) (m_blocks m) (bp_ceil (m_blocks m) BP_NODES_PER_MASTER)
      (m_last_sub_master m) (if m_last_sub_offset m = 0 then 1 else m_last_sub_offset m) m"

text \<open>The tail of \<open>bp_alloc_bitmap\<close> from the label \<open>FREE_BLK_FOUND\<close> on.\<close>

definition take_block :: "(nat \<Rightarrow> bool) \<Rightarrow> nat \<Rightarrow> master \<Rightarrow> (nat \<times> master) option" where
  "take_block can_map new_bno m = do {
     assert_opt (can_map new_bno);
     used \<leftarrow> bp_test_bitmap new_bno m;
     assert_opt (\<not> used);
     m1 \<leftarrow> bp_set_bitmap new_bno m;
     assert_opt (new_bno \<noteq> 0);
     Some (new_bno, m1\<lparr>m_alloc_block := m_alloc_block m1 + 1\<rparr>) }"

definition extend_file :: "(nat \<Rightarrow> bool) \<Rightarrow> master \<Rightarrow> (nat \<times> master) option" where
  "extend_file can_map m = do {
     (new_bno, m1) \<leftarrow>
       (if m_blocks m mod BP_NODES_PER_MASTER = 0 then do {
          assert_opt (can_map (m_blocks m));
          Some (m_blocks m + 1, m\<lparr>m_blocks := m_blocks m + 1, m_alloc_block := m_alloc_block m + 1\<rparr>) }
        else Some (m_blocks m, m));
     m2 \<leftarrow> bp_inc_free_bitmap new_bno m1;
     take_block can_map new_bno (m2\<lparr>m_blocks := m_blocks m2 + 1\<rparr>) }"

definition bp_alloc_bitmap :: "(nat \<Rightarrow> bool) \<Rightarrow> master \<Rightarrow> (nat \<times> master) option" where
  "bp_alloc_bitmap can_map m = do {
     (new_bno, m1) \<leftarrow> (if m_dealloc_block m \<noteq> 0 then bp_scan_bitmap m else Some (0, m));
     if new_bno \<noteq> 0 then take_block can_map new_bno (m1\<lparr>m_dealloc_block := m_dealloc_block m1 - 1\<rparr>)
     else extend_file can_map m1 }"

definition bp_dealloc_bitmap :: "nat \<Rightarrow> master \<Rightarrow> master option" where
  "bp_dealloc_bitmap off m =
     bp_clear_bitmap off (m\<lparr>m_alloc_block := m_alloc_block m - 1, m_dealloc_block := m_dealloc_block m + 1\<rparr>)"

text \<open>\<open>bp_alloc_inode_and_master\<close>: the master block is block 0, its bit is set.\<close>

definition init_master_block :: "master option" where
  "init_master_block = do {
     m \<leftarrow> bp_set_bitmap 0 \<lparr>m_bitmap = replicate BP_BITMAP_SIZE 0, m_bitmap_free = 1, m_alloc_block = 1, m_dealloc_block = 0,
            m_last_sub_master = 0, m_last_sub_offset = 0, m_blocks = 0\<rparr>;
     Some (m\<lparr>m_blocks := 1\<rparr>) }"

section \<open>Invariant\<close>

definition master_inv :: "master \<Rightarrow> bool" where
  "master_inv m \<longleftrightarrow> length (m_bitmap m) = BP_BITMAP_SIZE \<and> 0 < m_blocks m \<and> m_blocks m \<le> BP_BITMAP_SIZE * 8
     \<and> tst (m_bitmap m) 0
     \<and> (\<forall>k. m_blocks m \<le> k \<and> k < BP_BITMAP_SIZE * 8 \<longrightarrow> \<not> tst (m_bitmap m) k)
     \<and> m_bitmap_free m = int (count_pos (\<lambda>k. \<not> tst (m_bitmap m) k) (m_blocks m))
     \<and> m_dealloc_block m = m_bitmap_free m
     \<and> m_last_sub_master m = 0 \<and> m_last_sub_offset m < m_blocks m"

definition node_used :: "master \<Rightarrow> nat \<Rightarrow> bool" where
  "node_used m k \<longleftrightarrow> 0 < k \<and> k < m_blocks m \<and> tst (m_bitmap m) k"

lemma bit_of_small: "off < BP_BITMAP_SIZE * 8 \<Longrightarrow> bit_of off = Some off"
  by (simp add: bit_of_def read_master_ctx_def bp_consts)

lemma master_invD:
  assumes "master_inv m"
  shows "length (m_bitmap m) = 4056" "0 < m_blocks m" "m_blocks m \<le> 32448" "tst (m_bitmap m) 0"
    "\<And>k. m_blocks m \<le> k \<Longrightarrow> k < 32448 \<Longrightarrow> \<not> tst (m_bitmap m) k"
    "m_bitmap_free m = int (count_pos (\<lambda>k. \<not> tst (m_bitmap m) k) (m_blocks m))" "m_dealloc_block m = m_bitmap_free m"
    "m_last_sub_master m = 0" "m_last_sub_offset m < m_blocks m"
  using assms by (simp_all add: master_inv_def bp_consts)

lemma tst_bset' : "length b = 4056 \<Longrightarrow> i < 32448 \<Longrightarrow> j < 32448 \<Longrightarrow> tst (bset i b) j \<longleftrightarrow> j = i \<or> tst b j"
  using tst_bset [of i b j] by simp

lemma tst_bclr' : "length b = 4056 \<Longrightarrow> i < 32448 \<Longrightarrow> j < 32448 \<Longrightarrow> tst (bclr i b) j \<longleftrightarrow> j \<noteq> i \<and> tst b j"
  using tst_bclr [of i b j] by simp

lemma scan_bits_cyc:
  assumes "1 \<le> off" "off < len" "len \<le> 32448"
  shows "scan_bits k bm off len
    = (case cyc_find (\<lambda>i. \<not> tst bm (i + 1)) (len - 1) (off - 1) k of None \<Rightarrow> Some 0 | Some j \<Rightarrow> Some (j + 1))"
  using assms
proof (induction k arbitrary: off)
  case (Suc k)
  define off' where "off' = (if off + 1 = len then 1 else off + 1)"
  have o: "1 \<le> off'" "off' < len" "off' - 1 = (off - 1 + 1) mod (len - 1)"
    using Suc.prems by (auto simp: off'_def mod_if)
  have "\<not> off \<ge> BP_BITMAP_SIZE * 8" using Suc.prems by (simp add: bp_consts)
  then show ?case using Suc.prems Suc.IH [OF o(1,2) Suc.prems(3)] o(3) by (simp add: off'_def)
qed simp

lemma scan_bits_finds:
  assumes "1 \<le> off" "off < len" "len \<le> 32448" "1 \<le> i" "i < len" "\<not> tst bm i"
  shows "\<exists>j. scan_bits (len - 1) bm off len = Some j \<and> 1 \<le> j \<and> j < len \<and> \<not> tst bm j"
proof (cases "cyc_find (\<lambda>i. \<not> tst bm (i + 1)) (len - 1) (off - 1) (len - 1)")
  case None
  have "\<not> (\<not> tst bm (i - 1 + 1))" by (rule cyc_find_None [OF None]) (use assms in auto)
  then show ?thesis using assms by simp
next
  case (Some j)
  then have "j < len - 1 \<and> \<not> tst bm (j + 1)" by (rule cyc_find_sound) (use assms in auto)
  moreover from this have "j + 1 < len" by linarith
  ultimately show ?thesis using scan_bits_cyc [OF assms(1-3)] Some by simp
qed

lemma take_block_correct:
  assumes m: "length (m_bitmap m) = 4056" "m_blocks m \<le> 32448" "tst (m_bitmap m) 0"
      "\<And>k. m_blocks m \<le> k \<Longrightarrow> k < 32448 \<Longrightarrow> \<not> tst (m_bitmap m) k"
      "m_bitmap_free m = int (count_pos (\<lambda>k. \<not> tst (m_bitmap m) k) (m_blocks m))"
      "m_dealloc_block m = m_bitmap_free m - 1" "m_last_sub_master m = 0" "m_last_sub_offset m < m_blocks m"
    and b: "0 < b" "b < m_blocks m" "\<not> tst (m_bitmap m) b" and map: "can_map b"
  shows "\<exists>m'. take_block can_map b m = Some (b, m') \<and> master_inv m' \<and> m_blocks m' = m_blocks m
    \<and> m_bitmap m' = bset b (m_bitmap m) \<and> m_alloc_block m' = m_alloc_block m + 1"
proof -
  have b': "b < 32448" using b m(2) by simp
  have bo: "bit_of b = Some b" using b' by (simp add: bit_of_small bp_consts)
  have pos: "0 < count_pos (\<lambda>k. \<not> tst (m_bitmap m) k) (m_blocks m)" using b by (auto simp: count_pos_pos_iff)
  define m' where "m' = m\<lparr>m_bitmap := bset b (m_bitmap m), m_bitmap_free := m_bitmap_free m - 1, m_alloc_block := m_alloc_block m + 1\<rparr>"
  have run: "take_block can_map b m = Some (b, m')"
    using b map pos m(5) by (simp add: take_block_def bp_test_bitmap_def bp_set_bitmap_def bo m'_def)
  have t: "tst (bset b (m_bitmap m)) k \<longleftrightarrow> k = b \<or> tst (m_bitmap m) k" if "k < 32448" for k
    using tst_bset' [OF m(1) b' that] .
  have "count_pos (\<lambda>k. \<not> tst (bset b (m_bitmap m)) k) (m_blocks m) = count_pos (\<lambda>k. k \<noteq> b \<and> \<not> tst (m_bitmap m) k) (m_blocks m)"
    by (rule count_pos_cong) (use t m(2) in auto)
  also have "\<dots> = count_pos (\<lambda>k. \<not> tst (m_bitmap m) k) (m_blocks m) - 1" by (rule count_pos_remove) (use b in auto)
  finally have c: "int (count_pos (\<lambda>k. \<not> tst (bset b (m_bitmap m)) k) (m_blocks m)) = m_bitmap_free m - 1" using pos m(5) by simp
  have "\<not> tst (bset b (m_bitmap m)) k" if "m_blocks m \<le> k" "k < 32448" for k using t that m(4) b by auto
  then have "master_inv m'" using m b c t by (auto simp: master_inv_def m'_def bp_consts)
  then show ?thesis using run by (simp add: m'_def)
qed

lemma alloc_bitmap_correct:
  assumes inv: "master_inv m" and room: "0 < m_bitmap_free m \<or> m_blocks m < 32448" and map: "\<forall>b. can_map b"
  shows "\<exists>b m'. bp_alloc_bitmap can_map m = Some (b, m') \<and> master_inv m' \<and> \<not> node_used m b
    \<and> (\<forall>k. node_used m' k \<longleftrightarrow> k = b \<or> node_used m k) \<and> m_alloc_block m' = m_alloc_block m + 1
    \<and> m_blocks m \<le> m_blocks m' \<and> m_blocks m' + nat (m_bitmap_free m) \<le> Suc (m_blocks m + nat (m_bitmap_free m'))"
proof (cases "m_bitmap_free m = 0")
  case False
  note m = master_invD [OF inv]
  have len: "m_blocks m < BP_NODES_PER_MASTER" using m(3) by (simp add: bp_consts)
  have mm: "bp_ceil (m_blocks m) BP_NODES_PER_MASTER = 1"
    unfolding bp_ceil_def by (rule div_nat_eqI) (use m(2) len in auto)
  have "\<exists>i<m_blocks m. \<not> tst (m_bitmap m) i" using False m(6) count_pos_eq_0_iff [of "\<lambda>k. \<not> tst (m_bitmap m) k" "m_blocks m"] by auto
  then obtain i where i: "i < m_blocks m" "\<not> tst (m_bitmap m) i" by blast
  then have "1 \<le> i" using m(4) by (cases i) auto
  define off where "off = (if m_last_sub_offset m = 0 then 1 else m_last_sub_offset m)"
  have o: "1 \<le> off" "off < m_blocks m" using m(9) i \<open>1 \<le> i\<close> by (auto simp: off_def)
  obtain b where b: "scan_bits (m_blocks m - 1) (m_bitmap m) off (m_blocks m) = Some b" "1 \<le> b" "b < m_blocks m" "\<not> tst (m_bitmap m) b"
    using scan_bits_finds [OF o m(3) \<open>1 \<le> i\<close> i] by blast
  define m1 where "m1 = m\<lparr>m_last_sub_master := 0, m_last_sub_offset := b, m_dealloc_block := m_dealloc_block m - 1\<rparr>"
  have sc: "bp_scan_bitmap m = Some (b, m\<lparr>m_last_sub_master := 0, m_last_sub_offset := b\<rparr>)"
    unfolding bp_scan_bitmap_def mm off_def [symmetric] m(8)
    unfolding One_nat_def scan_masters.simps using b len False m(2) by (simp add: read_master_ctx_def)
  have dn: "m_dealloc_block m \<noteq> 0" using False m(7) by simp
  have eq: "bp_alloc_bitmap can_map m = take_block can_map b m1"
    using b(2) sc dn m(8) by (simp add: bp_alloc_bitmap_def m1_def)
  obtain m' where m': "take_block can_map b m1 = Some (b, m')" "master_inv m'" "m_blocks m' = m_blocks m1"
    "m_bitmap m' = bset b (m_bitmap m1)" "m_alloc_block m' = m_alloc_block m1 + 1"
    using take_block_correct [of m1 b can_map] m b map by (auto simp: m1_def)
  have "node_used m' k \<longleftrightarrow> k = b \<or> node_used m k" for k
    using m' b m(3) tst_bset' [OF m(1), of b k] by (auto simp: node_used_def m1_def)
  moreover have "m_bitmap_free m' = m_bitmap_free m - 1"
    using m'(1) by (auto simp: take_block_def bp_test_bitmap_def bp_set_bitmap_def m1_def split: bind_splits)
  ultimately show ?thesis using m' b eq by (auto simp: m1_def node_used_def)
next
  case True
  note m = master_invD [OF inv]
  define b where "b = m_blocks m"
  have b: "0 < b" "b < 32448" using m(2) room True by (auto simp: b_def)
  have all: "tst (m_bitmap m) k" if "k < b" for k
    using True m(6) that by (simp add: count_pos_eq_0_iff b_def)
  define m1 where "m1 = m\<lparr>m_bitmap_free := 1, m_blocks := b + 1\<rparr>"
  have nz: "b mod BP_NODES_PER_MASTER \<noteq> 0" "b div BP_NODES_PER_MASTER = 0" using b by (simp_all add: bp_consts)
  have eq: "bp_alloc_bitmap can_map m = take_block can_map b m1"
    using True m(7) nz by (simp add: bp_alloc_bitmap_def extend_file_def bp_inc_free_bitmap_def read_master_ctx_def m1_def b_def bp_consts)
  have nb: "\<not> tst (m_bitmap m) b" using m(5) b by (simp add: b_def)
  have cnt: "count_pos (\<lambda>k. \<not> tst (m_bitmap m) k) (b + 1) = 1"
    using True m(6) nb by (simp add: count_pos_Suc b_def)
  obtain m' where m': "take_block can_map b m1 = Some (b, m')" "master_inv m'" "m_blocks m' = m_blocks m1"
    "m_bitmap m' = bset b (m_bitmap m1)" "m_alloc_block m' = m_alloc_block m1 + 1"
    using take_block_correct [of m1 b can_map] m b nb cnt True map by (auto simp: m1_def b_def)
  have "node_used m' k \<longleftrightarrow> k = b \<or> node_used m k" for k
    using m' b nb tst_bset' [OF m(1) b(2), of k] by (auto simp: node_used_def m1_def b_def less_Suc_eq)
  then show ?thesis using m' b eq True by (auto simp: m1_def node_used_def b_def)
qed

lemma dealloc_bitmap_correct:
  assumes inv: "master_inv m" and b: "node_used m b"
  shows "\<exists>m'. bp_dealloc_bitmap b m = Some m' \<and> master_inv m' \<and> (\<forall>k. node_used m' k \<longleftrightarrow> k \<noteq> b \<and> node_used m k)
    \<and> m_alloc_block m' = m_alloc_block m - 1 \<and> m_blocks m' = m_blocks m \<and> m_bitmap_free m' = m_bitmap_free m + 1"
proof -
  note m = master_invD [OF inv]
  have b': "0 < b" "b < m_blocks m" "tst (m_bitmap m) b" "b < 32448" using b m(3) by (auto simp: node_used_def)
  have bo: "bit_of b = Some b" using b' by (simp add: bit_of_small bp_consts)
  have le: "count_pos (\<lambda>k. \<not> tst (m_bitmap m) k) (m_blocks m) \<le> 32448" using count_pos_le m(3) by (meson order_trans)
  define m' where "m' = m\<lparr>m_alloc_block := m_alloc_block m - 1, m_dealloc_block := m_dealloc_block m + 1,
    m_bitmap := bclr b (m_bitmap m), m_bitmap_free := m_bitmap_free m + 1\<rparr>"
  have run: "bp_dealloc_bitmap b m = Some m'"
    using b' le m(6) by (simp add: bp_dealloc_bitmap_def bp_clear_bitmap_def bo m'_def bp_consts)
  have t: "tst (bclr b (m_bitmap m)) k \<longleftrightarrow> k \<noteq> b \<and> tst (m_bitmap m) k" if "k < 32448" for k
    using tst_bclr' [OF m(1) b'(4) that] .
  have "count_pos (\<lambda>k. \<not> tst (bclr b (m_bitmap m)) k) (m_blocks m) = count_pos (\<lambda>k. k = b \<or> \<not> tst (m_bitmap m) k) (m_blocks m)"
    by (rule count_pos_cong) (use t m(3) in auto)
  also have "\<dots> = Suc (count_pos (\<lambda>k. \<not> tst (m_bitmap m) k) (m_blocks m))" by (rule count_pos_insert) (use b' in auto)
  finally have c: "int (count_pos (\<lambda>k. \<not> tst (bclr b (m_bitmap m)) k) (m_blocks m)) = m_bitmap_free m + 1" using m(6) by simp
  have inv': "master_inv m'" using m b' c t by (auto simp: master_inv_def m'_def bp_consts)
  have "node_used m' k \<longleftrightarrow> k \<noteq> b \<and> node_used m k" for k
    using t [of k] m(3) by (auto simp: node_used_def m'_def)
  then show ?thesis using run inv' by (simp add: m'_def)
qed

lemma init_master_block_eq: "\<exists>m. init_master_block = Some m \<and> master_inv m \<and> m_blocks m = 1 \<and> m_bitmap_free m = 0"
proof -
  have bo: "bit_of 0 = Some 0" by (simp add: bit_of_small bp_consts)
  have "length (replicate 4056 0 :: bitmap) = 4056" by simp
  note t = tst_bset' [OF this, of 0]
  have "\<not> tst (replicate 4056 0) k" if "k < 32448" for k using that by simp
  then show ?thesis using t
    by (auto simp: init_master_block_def bp_set_bitmap_def bo master_inv_def bp_consts count_pos_Suc)
qed

text \<open>The file cannot grow past the bitmap of its first master.\<close>

lemma node_file_limit:
  assumes "master_inv m" "m_bitmap_free m = 0" "m_blocks m = 32448"
  shows "bp_alloc_bitmap can_map m = None"
  using assms master_invD(7) [OF assms(1)]
  by (simp add: bp_alloc_bitmap_def extend_file_def bp_inc_free_bitmap_def read_master_ctx_def take_block_def
      bp_test_bitmap_def bit_of_def bp_consts split: bind_splits)

section \<open>Properties\<close>

text \<open>With at least one free block, or room to extend the file, \<open>bp_alloc_bitmap\<close>
  returns the number of a block that no node occupies, marks it and nothing else; giving
  the block back with \<open>bp_dealloc_bitmap\<close> restores the set of occupied blocks, and the
  counters of the master node stay exact throughout.\<close>

theorem node_alloc_dealloc:
  assumes "master_inv m" "0 < m_bitmap_free m \<or> m_blocks m < 32448" "\<forall>b. can_map b"
  shows "\<exists>b m' m''. bp_alloc_bitmap can_map m = Some (b, m') \<and> master_inv m' \<and> \<not> node_used m b
    \<and> (\<forall>k. node_used m' k \<longleftrightarrow> k = b \<or> node_used m k)
    \<and> bp_dealloc_bitmap b m' = Some m'' \<and> master_inv m'' \<and> (\<forall>k. node_used m'' k \<longleftrightarrow> node_used m k)
    \<and> m_alloc_block m'' = m_alloc_block m"
proof -
  obtain b m' where a: "bp_alloc_bitmap can_map m = Some (b, m')" "master_inv m'" "\<not> node_used m b"
    "\<forall>k. node_used m' k \<longleftrightarrow> k = b \<or> node_used m k" "m_alloc_block m' = m_alloc_block m + 1"
    using alloc_bitmap_correct [OF assms] by blast
  then have "node_used m' b" by simp
  from dealloc_bitmap_correct [OF a(2) this] a show ?thesis by auto
qed

theorem node_alloc_dealloc_witness:
  "\<exists>m b m'. init_master_block = Some m \<and> bp_alloc_bitmap (\<lambda>_. True) m = Some (b, m') \<and> node_used m' b"
proof -
  obtain m where "init_master_block = Some m" "master_inv m" "m_blocks m = 1" using init_master_block_eq by blast
  then show ?thesis using node_alloc_dealloc [of m "\<lambda>_. True"] by auto
qed

end
