(* ===== verification/BpTree.thy ===== *)
theory BpTree
  imports BpNode BpAlloc
begin

text \<open>
  The B+ tree of \<open>nvfuse_bp_tree.c\<close>: reading and writing of nodes, the descent with its
  stack, lookup (\<open>bp_find_key\<close>), insertion (\<open>bp_insert_key_tree\<close>) with the splitting of
  leaves and index nodes up to a new root, update, and the removal from a leaf.

  A node is read from its block, changed, and written back; its pairs are the arrays in
  the block itself.  \<open>bp_nodes\<close> gives the contents of every block of the tree file.  An
  index node with \<open>i_num\<close> separators has \<open>i_num + 1\<close> children; the separator of a child is
  an upper bound of its keys, except for the last child, whose separator is not
  maintained.
\<close>

definition INDEX_FLAG :: nat where "INDEX_FLAG = 0"
definition DATA_FLAG :: nat where "DATA_FLAG = 1"
definition MAX_STACK :: nat where "MAX_STACK = 128"

record node =
  i_root :: bool
  i_flag :: nat
  i_num :: nat
  i_offset :: nat
  i_next_node :: nat
  i_prev_node :: nat
  i_pair :: pairs

definition zero_pairs :: "nat \<Rightarrow> pairs" where
  "zero_pairs n = replicate n (0, 0)"

definition zero_node :: node where
  "zero_node = \<lparr>i_root = False, i_flag = 0, i_num = 0, i_offset = 0, i_next_node = 0, i_prev_node = 0, i_pair = zero_pairs FANOUT\<rparr>"

record bptree =
  m_root :: nat
  m_stack :: "nat list"
  m_key_count :: nat
  m_master :: master
  bp_nodes :: "nat \<Rightarrow> node"

section \<open>Nodes and the stack\<close>

definition bp_read_node :: "nat \<Rightarrow> bptree \<Rightarrow> node option" where
  "bp_read_node off t =
    (let n = bp_nodes t off in do {
       assert_opt (i_flag n = 0 \<or> i_flag n = 1);
       assert_opt (i_offset n \<noteq> 0);
       Some n })"

definition bp_write_node :: "node \<Rightarrow> bptree \<Rightarrow> bptree option" where
  "bp_write_node n t = do {
     assert_opt (i_flag n = 0 \<or> i_flag n = 1);
     Some (t\<lparr>bp_nodes := (bp_nodes t)(i_offset n := n)\<rparr>) }"

text \<open>\<open>bp_alloc_node\<close> with \<open>ALLOC_CREATE\<close>: a zeroed block and a fresh header.\<close>

definition bp_alloc_node :: "(nat \<Rightarrow> bool) \<Rightarrow> nat \<Rightarrow> bptree \<Rightarrow> (node \<times> bptree) option" where
  "bp_alloc_node can_map flag t = do {
     (off, m) \<leftarrow> bp_alloc_bitmap can_map (m_master t);
     Some (zero_node\<lparr>i_flag := flag, i_offset := off\<rparr>,
           t\<lparr>m_master := m, bp_nodes := (bp_nodes t)(off := zero_node)\<rparr>) }"

definition stack_push :: "nat \<Rightarrow> bptree \<Rightarrow> bptree option" where
  "stack_push v t = do {
     assert_opt (length (m_stack t) + 1 < MAX_STACK);
     Some (t\<lparr>m_stack := v # m_stack t\<rparr>) }"

definition stack_pop :: "bptree \<Rightarrow> (nat \<times> bptree) option" where
  "stack_pop t = (case m_stack t of [] \<Rightarrow> None | v # vs \<Rightarrow> Some (v, t\<lparr>m_stack := vs\<rparr>))"

section \<open>Descent\<close>

definition bp_next_node :: "key \<Rightarrow> node \<Rightarrow> bptree \<Rightarrow> node option" where
  "bp_next_node key ip t = do {
     assert_opt (i_num ip \<noteq> 0);
     if key > fst (i_pair ip ! (i_num ip - 1)) then bp_read_node (snd (i_pair ip ! i_num ip)) t
     else do {
       assert_opt (0 \<le> bin_search key (i_pair ip) (int (i_num ip)) compare_index_node);
       bp_read_node (snd (i_pair ip ! nat (bin_search key (i_pair ip) (int (i_num ip)) compare_index_node))) t } }"

text \<open>The stack holds fewer than \<open>MAX_STACK\<close> offsets, which bounds the loop.\<close>

fun traverse_loop :: "nat \<Rightarrow> key \<Rightarrow> node \<Rightarrow> bptree \<Rightarrow> (node \<times> bptree) option" where
  "traverse_loop 0 key ip t = None"
| "traverse_loop (Suc k) key ip t =
    (if i_flag ip = DATA_FLAG then Some (ip, t)
     else do {
       t1 \<leftarrow> stack_push (i_offset ip) t;
       ip1 \<leftarrow> bp_next_node key ip t1;
       traverse_loop k key ip1 t1 })"

definition traverse_empty :: "key \<Rightarrow> bptree \<Rightarrow> (node \<times> bptree) option" where
  "traverse_empty key t = do { root \<leftarrow> bp_read_node (m_root t) t; traverse_loop MAX_STACK key root t }"

definition get_pair_tree :: "node \<Rightarrow> key \<Rightarrow> int" where
  "get_pair_tree dp key = bin_search key (i_pair dp) (int (i_num dp) - 1) key_compare"

section \<open>Lookup and update\<close>

definition bp_find_key :: "key \<Rightarrow> bptree \<Rightarrow> (int \<times> item \<times> bptree) option" where
  "bp_find_key key t = do {
     (dp, t1) \<leftarrow> traverse_empty key t;
     Some (get_pair_tree dp key, if get_pair_tree dp key \<ge> 0 then snd (i_pair dp ! nat (get_pair_tree dp key)) else 0,
           t1\<lparr>m_stack := []\<rparr>) }"

definition bp_update_key_tree :: "key \<Rightarrow> item \<Rightarrow> bptree \<Rightarrow> bptree option" where
  "bp_update_key_tree key val t = do {
     (dp, t1) \<leftarrow> traverse_empty key t;
     if get_pair_tree dp key < 0 then Some t1
     else do {
       t2 \<leftarrow> bp_write_node (dp\<lparr>i_pair := (i_pair dp)[nat (get_pair_tree dp key) := (key, val)]\<rparr>) t1;
       Some (t2\<lparr>m_stack := []\<rparr>) } }"

section \<open>Insertion\<close>

definition pad :: "pairs \<Rightarrow> nat \<Rightarrow> pairs" where
  "pad xs n = xs @ zero_pairs (n - length xs)"

definition bp_merge_key :: "node \<Rightarrow> key \<Rightarrow> item \<Rightarrow> node" where
  "bp_merge_key dp key val =
    (let i = merge_pos (i_pair dp) key (i_num dp); pair1 = shift_up i (i_num dp) (i_pair dp)
     in if fst (pair1 ! i) = 0 then dp\<lparr>i_pair := pair1[i := (key, val)], i_num := i_num dp + 1\<rparr>
        else dp\<lparr>i_pair := pair1\<rparr>)"

text \<open>The keys of a full leaf and the new one, over two leaves.\<close>

definition merged :: "node \<Rightarrow> key \<Rightarrow> item \<Rightarrow> nat \<Rightarrow> pairs" where
  "merged dp key val n = merge_key2 (pad (take (i_num dp) (i_pair dp)) n) key val (i_num dp + 1)"

definition left_part :: "node \<Rightarrow> pairs \<Rightarrow> pairs" where
  "left_part dp arr = pad (take (i_num dp - i_num dp div 2) arr) FANOUT"

definition right_part :: "node \<Rightarrow> pairs \<Rightarrow> pairs" where
  "right_part dp arr = pad (take (i_num dp div 2 + 1) (drop (i_num dp - i_num dp div 2) arr)) FANOUT"

definition last_key :: "node \<Rightarrow> key" where
  "last_key n = fst (i_pair n ! (i_num n - 1))"

definition bp_add_root_node :: "(nat \<Rightarrow> bool) \<Rightarrow> node \<Rightarrow> key \<Rightarrow> item \<Rightarrow> bptree \<Rightarrow> (node \<times> bptree) option" where
  "bp_add_root_node can_map dp key val t = do {
     (l, t1) \<leftarrow> bp_alloc_node can_map DATA_FLAG t;
     (r, t2) \<leftarrow> bp_alloc_node can_map DATA_FLAG t1;
     let arr = merged dp key val (FANOUT * 2);
         l1 = l\<lparr>i_num := i_num dp - i_num dp div 2, i_pair := left_part dp arr\<rparr>;
         r1 = r\<lparr>i_num := i_num r + i_num dp div 2 + 1, i_pair := right_part dp arr\<rparr>;
         parent = dp\<lparr>i_flag := 0, i_num := 1,
           i_pair := (zero_pairs FANOUT)[0 := (last_key l1, i_offset l1), 1 := (last_key r1, i_offset r1)]\<rparr>;
         r2 = r1\<lparr>i_next_node := i_next_node l1, i_prev_node := i_offset l1\<rparr>;
         l2 = l1\<lparr>i_next_node := i_offset r2\<rparr>
     in do {
       assert_opt (i_next_node l1 = 0);
       t3 \<leftarrow> bp_write_node l2 t2;
       t4 \<leftarrow> bp_write_node r2 t3;
       Some (parent, t4) } }"

definition forget_child :: "nat \<Rightarrow> node \<Rightarrow> node" where
  "forget_child off ip =
    (case find (\<lambda>i. snd (i_pair ip ! i) = off) [0..<i_num ip + 1] of
       None \<Rightarrow> ip
     | Some i \<Rightarrow> ip\<lparr>i_pair := (i_pair ip)[i := (0, 0)]\<rparr>)"

definition bp_split_data_node :: "(nat \<Rightarrow> bool) \<Rightarrow> node \<Rightarrow> node \<Rightarrow> key \<Rightarrow> item \<Rightarrow> bptree \<Rightarrow> (node \<times> pairs \<times> bptree) option" where
  "bp_split_data_node can_map ip dp key val t = do {
     (r, t1) \<leftarrow> bp_alloc_node can_map DATA_FLAG t;
     let ip1 = forget_child (i_offset dp) ip;
         arr = merged dp key val (i_num dp + 1);
         l1 = dp\<lparr>i_num := i_num dp - i_num dp div 2, i_pair := left_part dp arr\<rparr>;
         r1 = r\<lparr>i_num := i_num r + i_num dp div 2 + 1, i_pair := right_part dp arr,
                i_next_node := i_next_node dp, i_prev_node := i_offset dp\<rparr>;
         kept = filter (\<lambda>p. fst p \<noteq> 0) (take (i_num ip1 + 1) (i_pair ip1));
         l2 = l1\<lparr>i_next_node := i_offset r1\<rparr>
     in do {
       t2 \<leftarrow> (if i_next_node dp = 0 then Some t1
              else do { n \<leftarrow> bp_read_node (i_next_node dp) t1; bp_write_node (n\<lparr>i_prev_node := i_offset r1\<rparr>) t1 });
       t3 \<leftarrow> bp_write_node l2 t2;
       t4 \<leftarrow> bp_write_node r1 t3;
       Some (ip1,
         merge_key2 (merge_key2 (pad kept (FANOUT + 1)) (last_key l1) (i_offset l1) (length kept + 1))
           (last_key r1) (i_offset r1) (length kept + 2), t4) } }"

text \<open>\<open>bp_split_index_node\<close>: the new sibling and the median, if the pairs do not fit.\<close>

definition bp_split_index_node :: "(nat \<Rightarrow> bool) \<Rightarrow> node \<Rightarrow> pairs \<Rightarrow> nat \<Rightarrow> bptree
    \<Rightarrow> (node \<times> (node \<times> key \<times> item) option \<times> bptree) option" where
  "bp_split_index_node can_map ip child cnt t =
    (if cnt - 1 < FANOUT
     then Some (ip\<lparr>i_pair := take (i_num ip + 1) child @ drop (i_num ip + 1) (i_pair ip)\<rparr>, None, t)
     else do {
       (s, t1) \<leftarrow> bp_alloc_node can_map INDEX_FLAG t;
       let h = cnt div 2;
           ip1 = ip\<lparr>i_root := False, i_num := h - 1, i_pair := pad (take h child) FANOUT\<rparr>;
           s1 = s\<lparr>i_num := i_num s + h - 1, i_pair := take h (drop h child) @ drop h (i_pair s)\<rparr>
       in Some (ip1, Some (s1, fst (child ! (h - 1)), i_offset ip), t1) })"

text \<open>The second branch of the loop of \<open>bp_split_tree\<close>: the pairs of the parent with the
  left half under its new separator and the right half added.\<close>

definition parent_pairs :: "node \<Rightarrow> node \<Rightarrow> key \<Rightarrow> item \<Rightarrow> pairs" where
  "parent_pairs ip c mkey mitem =
    (let olds = take (i_num ip + 1) (i_pair ip);
         rest = filter (\<lambda>p. snd p \<noteq> mitem) olds;
         key = (case filter (\<lambda>p. snd p = mitem) olds of [] \<Rightarrow> 0 | ps \<Rightarrow> fst (last ps));
         ckey = fst (i_pair c ! i_num c);
         arr1 = merge_key2 (pad rest (FANOUT + 1)) mkey mitem (i_num ip + 1)
     in bubble_sort (merge_key2 arr1 (if key > ckey then key else ckey) (i_offset c) (i_num ip + 2)) (i_num ip + 2))"

definition new_root :: "(nat \<Rightarrow> bool) \<Rightarrow> node \<Rightarrow> node \<Rightarrow> key \<Rightarrow> bptree \<Rightarrow> bptree option" where
  "new_root can_map ip c mkey t = do {
     (root, t1) \<leftarrow> bp_alloc_node can_map INDEX_FLAG t;
     let first = (if last_key ip < last_key c then ip else c);
         second = (if last_key ip < last_key c then c else ip);
         root1 = root\<lparr>i_root := True, i_num := 1,
           i_pair := (i_pair root)[0 := (mkey, i_offset first), 1 := (last_key second, i_offset second)]\<rparr>
     in do {
       t2 \<leftarrow> bp_write_node root1 (t1\<lparr>m_root := i_offset root1\<rparr>);
       t3 \<leftarrow> bp_write_node (ip\<lparr>i_root := False\<rparr>) t2;
       bp_write_node (c\<lparr>i_root := False\<rparr>) t3 } }"

fun split_up :: "nat \<Rightarrow> (nat \<Rightarrow> bool) \<Rightarrow> node \<Rightarrow> (node \<times> key \<times> item) option \<Rightarrow> bptree \<Rightarrow> bptree option" where
  "split_up k can_map ip None t = Some t"
| "split_up 0 can_map ip (Some (c, mkey, mitem)) t = new_root can_map ip c mkey t"
| "split_up (Suc k) can_map ip (Some (c, mkey, mitem)) t =
    (if i_root ip \<or> m_stack t = [] then new_root can_map ip c mkey t
     else do {
       (off, t1) \<leftarrow> stack_pop t;
       ip1 \<leftarrow> bp_read_node off t1;
       t2 \<leftarrow> bp_write_node c t1;
       (ip2, nc, t3) \<leftarrow> bp_split_index_node can_map (ip1\<lparr>i_num := i_num ip1 + 1\<rparr>) (parent_pairs ip1 c mkey mitem) (i_num ip1 + 2) t2;
       t4 \<leftarrow> bp_write_node ip2 t3;
       split_up k can_map ip2 nc t4 })"

definition bp_split_tree :: "(nat \<Rightarrow> bool) \<Rightarrow> node \<Rightarrow> key \<Rightarrow> item \<Rightarrow> bptree \<Rightarrow> bptree option" where
  "bp_split_tree can_map dp key val t = do {
     (off, t1) \<leftarrow> stack_pop t;
     ip \<leftarrow> bp_read_node off t1;
     (ip1, arr, t2) \<leftarrow> bp_split_data_node can_map ip dp key val t1;
     (ip2, nc, t3) \<leftarrow> bp_split_index_node can_map (ip1\<lparr>i_num := i_num ip1 + 1\<rparr>) arr (i_num ip1 + 2) t2;
     t4 \<leftarrow> bp_write_node ip2 t3;
     split_up (length (m_stack t4)) can_map ip2 nc t4 }"

definition bp_insert_key_tree :: "(nat \<Rightarrow> bool) \<Rightarrow> key \<Rightarrow> item \<Rightarrow> bool \<Rightarrow> bptree \<Rightarrow> (int \<times> item option \<times> bptree) option" where
  "bp_insert_key_tree can_map key val update t = do {
     (dp, t1) \<leftarrow> traverse_empty key t;
     let index = get_pair_tree dp key in
     if index \<ge> 0 then do {
       (res, t2) \<leftarrow> (if update then do { t2 \<leftarrow> bp_write_node (dp\<lparr>i_pair := (i_pair dp)[nat index := (key, val)]\<rparr>) t1; Some (0, t2) }
                     else Some (-1, t1));
       Some (res, Some (snd (i_pair dp ! nat index)), t2\<lparr>m_stack := []\<rparr>) }
     else do {
       t2 \<leftarrow> (if i_root dp \<and> i_num dp = FANOUT then do {
                 (root, t2) \<leftarrow> bp_add_root_node can_map dp key val t1;
                 bp_write_node (root\<lparr>i_root := True\<rparr>) t2 }
              else if i_num dp = FANOUT then bp_split_tree can_map dp key val t1
              else bp_write_node (bp_merge_key dp key val) t1);
       Some (0, None, t2\<lparr>m_stack := [], m_key_count := m_key_count t2 + 1\<rparr>) } }"

text \<open>\<open>bp_init_root\<close> on a new master.\<close>

definition bp_create :: "(nat \<Rightarrow> bool) \<Rightarrow> bptree option" where
  "bp_create can_map = do {
     m \<leftarrow> init_master_block;
     (off, m1) \<leftarrow> bp_alloc_bitmap can_map m;
     bp_write_node (zero_node\<lparr>i_root := True, i_offset := 1, i_flag := DATA_FLAG\<rparr>)
       \<lparr>m_root = 1, m_stack = [], m_key_count = 0, m_master = m1, bp_nodes = (\<lambda>_. zero_node)\<rparr> }"

section \<open>Removal\<close>

definition remove_pair :: "nat \<Rightarrow> node \<Rightarrow> node" where
  "remove_pair i n = n\<lparr>i_pair := take i (i_pair n) @ drop (i + 1) (take (i_num n) (i_pair n)) @ (0, 0) # drop (i_num n) (i_pair n),
     i_num := i_num n - 1\<rparr>"

text \<open>\<open>bp_redist_data_child\<close> for a leaf: the pairs of the leaf and a neighbour go to one of
  the two, or are divided between them.  The result tells whether the parent has too few
  children.\<close>

definition neighbours :: "node \<Rightarrow> node \<Rightarrow> nat \<times> nat" where
  "neighbours ip child =
    (let t1 = (case find (\<lambda>i. snd (i_pair ip ! i) = i_offset child) [0..<i_num ip + 1] of None \<Rightarrow> 0 | Some i \<Rightarrow> i)
     in (t1, if t1 = 0 then 1 else if t1 \<ge> i_num ip then i_num ip - 1 else t1 + 1))"

definition unlink_leaf :: "node \<Rightarrow> node \<Rightarrow> bptree \<Rightarrow> (node \<times> bptree) option" where
  "unlink_leaf dead n t =
    (let is_prev = (i_prev_node dead = i_offset n);
         is_next = (\<not> is_prev \<and> i_next_node dead = i_offset n);
         n1 = (if is_prev then n\<lparr>i_next_node := i_next_node dead\<rparr> else n);
         n2 = (if is_next then n1\<lparr>i_prev_node := i_prev_node dead\<rparr> else n1)
     in do {
       t1 \<leftarrow> (if \<not> is_prev \<and> i_prev_node dead \<noteq> 0
              then do { p \<leftarrow> bp_read_node (i_prev_node dead) t; bp_write_node (p\<lparr>i_next_node := i_next_node dead\<rparr>) t } else Some t);
       t2 \<leftarrow> (if \<not> is_next \<and> i_next_node dead \<noteq> 0
              then do { p \<leftarrow> bp_read_node (i_next_node dead) t1; bp_write_node (p\<lparr>i_prev_node := i_prev_node dead\<rparr>) t1 } else Some t1);
       Some (n2, t2) })"

definition merge_leaves :: "node \<Rightarrow> nat \<Rightarrow> node \<Rightarrow> node \<Rightarrow> pairs \<Rightarrow> nat \<Rightarrow> bptree \<Rightarrow> (node \<times> bptree) option" where
  "merge_leaves ip i n dead pair cnt t = do {
     (n1, t1) \<leftarrow> unlink_leaf dead (n\<lparr>i_num := cnt, i_pair := take cnt pair @ drop cnt (i_pair n)\<rparr>) t;
     m \<leftarrow> bp_dealloc_bitmap (i_offset dead) (m_master t1);
     t2 \<leftarrow> bp_write_node (dead\<lparr>i_pair := zero_pairs FANOUT\<rparr>) (t1\<lparr>m_master := m\<rparr>);
     t3 \<leftarrow> bp_write_node n1 t2;
     Some (ip\<lparr>i_pair := take i (i_pair ip) @ drop (i + 1) (take (i_num ip + 1) (i_pair ip)) @ (0, 0) # drop (i_num ip + 1) (i_pair ip),
              i_num := i_num ip - 1\<rparr>, t3) }"

definition share_leaves :: "node \<Rightarrow> node \<Rightarrow> node \<Rightarrow> pairs \<Rightarrow> nat \<Rightarrow> bptree \<Rightarrow> (node \<times> bptree) option" where
  "share_leaves ip l r pair cnt t =
    (let l1 = l\<lparr>i_num := cnt div 2, i_pair := pad (take (cnt div 2) pair) FANOUT\<rparr>;
         r1 = r\<lparr>i_num := cnt - cnt div 2, i_pair := pad (take (cnt - cnt div 2) (drop (cnt div 2) pair)) FANOUT\<rparr>;
         newkey = (\<lambda>p. let k1 = (if snd p = i_offset l then last_key l1 else fst p)
                       in (if snd p = i_offset r \<and> last_key r1 > k1 then last_key r1 else k1, snd p))
     in do {
       t1 \<leftarrow> bp_write_node l1 t;
       t2 \<leftarrow> bp_write_node r1 t1;
       Some (ip\<lparr>i_pair := map newkey (take (i_num ip + 1) (i_pair ip)) @ drop (i_num ip + 1) (i_pair ip)\<rparr>, t2) })"

definition bp_redist_data_child :: "node \<Rightarrow> node \<Rightarrow> bptree \<Rightarrow> (bool \<times> node \<times> bptree) option" where
  "bp_redist_data_child ip child t =
    (case neighbours ip child of (t1, t2) \<Rightarrow> do {
       child2 \<leftarrow> bp_read_node (snd (i_pair ip ! t2)) t;
       let cnt = i_num child + i_num child2;
           pair = bubble_sort (pad (take (i_num child) (i_pair child) @ take (i_num child2) (i_pair child2)) (FANOUT * 2)) cnt
       in do {
         (ip1, t3) \<leftarrow> (if cnt < FANOUT then
             if t2 < t1 then merge_leaves ip t2 child child2 pair cnt t else merge_leaves ip t1 child2 child pair cnt t
           else if t2 < t1 then share_leaves ip child2 child pair cnt t else share_leaves ip child child2 pair cnt t);
         t4 \<leftarrow> bp_write_node ip1 t3;
         Some (\<not> i_num ip1 + 1 \<ge> FANOUT div 2 + 1, ip1, t4) } })"

text \<open>\<open>bp_merge_key_tree\<close>: the loop goes on to the next level through the leaf that
  \<open>bp_redist_data_child\<close> has released, so only its first round is defined.\<close>

definition bp_merge_key_tree :: "node \<Rightarrow> bptree \<Rightarrow> bptree option" where
  "bp_merge_key_tree dp t =
    (if i_flag dp = DATA_FLAG \<and> i_root dp then bp_write_node dp t
     else do {
       (off, t1) \<leftarrow> stack_pop t;
       ip \<leftarrow> bp_read_node off t1;
       (under, ip1, t2) \<leftarrow> bp_redist_data_child ip dp t1;
       assert_opt (i_root ip1 \<or> \<not> under);
       if i_root ip1 \<and> i_num ip1 = 0 then do {
         m \<leftarrow> bp_dealloc_bitmap (i_offset ip1) (m_master t2);
         root \<leftarrow> bp_read_node (snd (i_pair ip1 ! 0)) (t2\<lparr>m_master := m\<rparr>);
         t3 \<leftarrow> bp_write_node (root\<lparr>i_root := True\<rparr>) (t2\<lparr>m_master := m, m_root := snd (i_pair ip1 ! 0)\<rparr>);
         bp_write_node ip1 t3 }
       else bp_write_node ip1 t2 })"

definition bp_remove_key :: "key \<Rightarrow> bptree \<Rightarrow> (int \<times> bptree) option" where
  "bp_remove_key key t = do {
     (dp, t1) \<leftarrow> traverse_empty key t;
     if get_pair_tree dp key < 0 then Some (-1, t1)
     else if fst (i_pair dp ! nat (get_pair_tree dp key)) \<noteq> key then Some (-1, t1)
     else do {
       t2 \<leftarrow> (if i_num (remove_pair (nat (get_pair_tree dp key)) dp) \<ge> 1
              then bp_write_node (remove_pair (nat (get_pair_tree dp key)) dp) t1
              else bp_merge_key_tree (remove_pair (nat (get_pair_tree dp key)) dp) t1);
       Some (0, t2\<lparr>m_stack := [], m_key_count := m_key_count t2 - 1\<rparr>) } }"

end
