(* ===== verification/KeyIndex.thy ===== *)
theory KeyIndex
  imports Prelude
begin

text \<open>
  The contract between an ordered index and its clients, as the locale \<open>key_index\<close>: an
  index has a finite map as its contents (\<open>view\<close>), and lookup, insertion, update and
  removal act on the map.  The laws hold for the keys the index can store (\<open>good\<close>), for
  insertions while there is \<open>room\<close>, and for removals that the index can carry out in
  place (\<open>removable\<close>).  The B+ tree is the provider (theory \<open>BpMap\<close>), the directory
  index the client (theory \<open>DirIndex\<close>); the two patterns of calls of the client are
  treated here once.
\<close>

locale key_index =
  fixes view :: "'t \<Rightarrow> ('k \<rightharpoonup> 'v) \<Rightarrow> bool"
    and good :: "'k \<Rightarrow> bool"
    and room :: "'t \<Rightarrow> bool"
    and removable :: "'k \<Rightarrow> 't \<Rightarrow> bool"
    and fnd :: "'k \<Rightarrow> 't \<Rightarrow> (int \<times> 'v \<times> 't) option"
    and ins :: "'k \<Rightarrow> 'v \<Rightarrow> 't \<Rightarrow> (int \<times> 'v option \<times> 't) option"
    and upd :: "'k \<Rightarrow> 'v \<Rightarrow> 't \<Rightarrow> 't option"
    and del :: "'k \<Rightarrow> 't \<Rightarrow> (int \<times> 't) option"
  assumes fnd_none: "view t f \<Longrightarrow> good k \<Longrightarrow> f k = None \<Longrightarrow> \<exists>i v. fnd k t = Some (i, v, t) \<and> i < 0"
    and fnd_some: "view t f \<Longrightarrow> good k \<Longrightarrow> f k = Some w \<Longrightarrow> \<exists>i. fnd k t = Some (i, w, t) \<and> 0 \<le> i"
    and ins_new: "view t f \<Longrightarrow> good k \<Longrightarrow> room t \<Longrightarrow> f k = None \<Longrightarrow> \<exists>t'. ins k v t = Some (0, None, t') \<and> view t' (f(k \<mapsto> v))"
    and ins_old: "view t f \<Longrightarrow> good k \<Longrightarrow> room t \<Longrightarrow> f k = Some w \<Longrightarrow> \<exists>t'. ins k v t = Some (-1, Some w, t') \<and> view t' f"
    and upd_old: "view t f \<Longrightarrow> good k \<Longrightarrow> f k = Some w \<Longrightarrow> \<exists>t'. upd k v t = Some t' \<and> view t' (f(k \<mapsto> v))"
    and del_old: "view t f \<Longrightarrow> good k \<Longrightarrow> removable k t \<Longrightarrow> f k = Some w \<Longrightarrow> \<exists>t'. del k t = Some (0, t') \<and> view t' (f(k := None))"
begin

text \<open>Insert a key, or change the value it already has.\<close>

lemma insert_or_update:
  assumes "view t f" "good k" "room t"
  shows "\<exists>t'. (ins k v t \<bind> (\<lambda>(r, old, t1). if r < 0 then upd k (g (the old)) t1 else Some t1)) = Some t'
    \<and> view t' (f(k \<mapsto> (case f k of None \<Rightarrow> v | Some w \<Rightarrow> g w)))"
proof (cases "f k")
  case None
  then show ?thesis using ins_new [OF assms None, of v] by auto
next
  case (Some w)
  obtain t1 where i: "ins k v t = Some (-1, Some w, t1)" "view t1 f" using ins_old [OF assms Some, of v] by blast
  obtain t2 where "upd k (g w) t1 = Some t2" "view t2 (f(k \<mapsto> g w))" using upd_old [OF i(2) assms(2) Some] by blast
  then show ?thesis using i(1) Some by simp
qed

text \<open>Look a key up, then remove it or change its value.\<close>

lemma find_then_remove:
  assumes "view t f" "good k" "f k = Some w" "removable k t"
  shows "\<exists>i t'. fnd k t = Some (i, w, t) \<and> 0 \<le> i \<and> del k t = Some (0, t') \<and> view t' (f(k := None))"
  using fnd_some [OF assms(1-3)] del_old [OF assms(1,2,4,3)] by blast

lemma find_then_update:
  assumes "view t f" "good k" "f k = Some w"
  shows "\<exists>i t'. fnd k t = Some (i, w, t) \<and> 0 \<le> i \<and> upd k v t = Some t' \<and> view t' (f(k \<mapsto> v))"
  using fnd_some [OF assms] upd_old [OF assms] by blast

end

end
