(* ===== verification/BpMap.thy ===== *)
theory BpMap
  imports BpTree KeyIndex
begin

text \<open>
  The B+ tree as a map.  An abstract tree \<open>bt\<close> describes what the blocks of a tree file
  hold; \<open>bwf\<close> is the order invariant of its separators and keys, \<open>rep\<close> says that the
  blocks represent it, and a context (a path from a subtree up to the root, as the stack
  of the code holds it) describes the rest of the tree around a node.
\<close>

section \<open>Abstract trees\<close>

datatype bt = Lf nat pairs | Nd nat "(bt \<times> key) list"

fun boff :: "bt \<Rightarrow> nat" where
  "boff (Lf o' xs) = o'"
| "boff (Nd o' ts) = o'"

fun kvs :: "bt \<Rightarrow> pairs" where
  "kvs (Lf o' xs) = xs"
| "kvs (Nd o' ts) = concat (map (\<lambda>x. kvs (fst x)) ts)"

fun offs :: "bt \<Rightarrow> nat list" where
  "offs (Lf o' xs) = [o']"
| "offs (Nd o' ts) = o' # concat (map (\<lambda>x. offs (fst x)) ts)"

fun leaves :: "bt \<Rightarrow> nat list" where
  "leaves (Lf o' xs) = [o']"
| "leaves (Nd o' ts) = concat (map (\<lambda>x. leaves (fst x)) ts)"

fun hgt :: "bt \<Rightarrow> nat" where
  "hgt (Lf o' xs) = 0"
| "hgt (Nd o' ts) = Suc (Max (set (0 # map (\<lambda>x. hgt (fst x)) ts)))"

text \<open>Keys and separators of a subtree lie in \<open>(lo, hi]\<close>; a child lies between its left
  neighbour's separator and its own, the last one up to \<open>hi\<close>.\<close>

fun bwf :: "nat \<Rightarrow> nat \<Rightarrow> bt \<Rightarrow> bool"
  and wfs :: "nat \<Rightarrow> nat \<Rightarrow> (bt \<times> key) list \<Rightarrow> bool" where
  "bwf lo hi (Lf o' xs) \<longleftrightarrow> keys_ok xs \<and> length xs \<le> FANOUT \<and> (\<forall>p\<in>set xs. lo < fst p \<and> fst p \<le> hi)"
| "bwf lo hi (Nd o' ts) \<longleftrightarrow> 2 \<le> length ts \<and> length ts \<le> FANOUT \<and> sorted_wrt (<) (map snd ts)
     \<and> (\<forall>x\<in>set ts. lo < snd x \<and> snd x \<le> hi) \<and> wfs lo hi ts"
| "wfs lo hi [] \<longleftrightarrow> True"
| "wfs lo hi ((c, s) # ts) \<longleftrightarrow> bwf lo (if ts = [] then hi else s) c \<and> wfs s hi ts"

text \<open>All leaves lie \<open>n\<close> levels below the top.\<close>

fun dep :: "nat \<Rightarrow> bt \<Rightarrow> bool" where
  "dep n (Lf o' xs) \<longleftrightarrow> n = 0"
| "dep n (Nd o' ts) \<longleftrightarrow> 0 < n \<and> (\<forall>x\<in>set ts. dep (n - 1) (fst x))"

section \<open>Contexts\<close>

type_synonym frame = "nat \<times> (bt \<times> key) list \<times> key \<times> (bt \<times> key) list"
type_synonym ctx = "frame list"

definition topkey :: nat where "topkey = 2 ^ 64 - 1"

fun plug :: "bt \<Rightarrow> ctx \<Rightarrow> bt" where
  "plug t [] = t"
| "plug t ((o', ls, s, rs) # c) = plug (Nd o' (ls @ (t, s) # rs)) c"

fun hlo :: "ctx \<Rightarrow> nat" where
  "hlo [] = 0"
| "hlo ((o', ls, s, rs) # c) = (if ls = [] then hlo c else snd (last ls))"

fun hhi :: "ctx \<Rightarrow> nat" where
  "hhi [] = topkey"
| "hhi ((o', ls, s, rs) # c) = (if rs = [] then hhi c else s)"

fun wfl :: "nat \<Rightarrow> (bt \<times> key) list \<Rightarrow> bool" where
  "wfl lo [] \<longleftrightarrow> True"
| "wfl lo ((c, s) # ls) \<longleftrightarrow> bwf lo s c \<and> wfl s ls"

text \<open>The conditions on the separators of an index node in the range \<open>(lo, hi]\<close>.\<close>

definition seps_ok :: "nat \<Rightarrow> nat \<Rightarrow> key list \<Rightarrow> bool" where
  "seps_ok lo hi ss \<longleftrightarrow> sorted_wrt (<) ss \<and> (\<forall>s\<in>set ss. lo < s \<and> s \<le> hi)"

fun wfc :: "ctx \<Rightarrow> bool" where
  "wfc [] \<longleftrightarrow> True"
| "wfc ((o', ls, s, rs) # c) \<longleftrightarrow> wfc c \<and> 1 \<le> length ls + length rs \<and> length ls + length rs < FANOUT
     \<and> seps_ok (hlo c) (hhi c) (map snd ls @ s # map snd rs) \<and> wfl (hlo c) ls \<and> wfs s (hhi c) rs"

fun kvl :: "ctx \<Rightarrow> pairs" where
  "kvl [] = []"
| "kvl ((o', ls, s, rs) # c) = kvl c @ concat (map (\<lambda>x. kvs (fst x)) ls)"

fun kvr :: "ctx \<Rightarrow> pairs" where
  "kvr [] = []"
| "kvr ((o', ls, s, rs) # c) = concat (map (\<lambda>x. kvs (fst x)) rs) @ kvr c"

fun coffs :: "ctx \<Rightarrow> nat list" where
  "coffs [] = []"
| "coffs ((o', ls, s, rs) # c) = o' # concat (map (\<lambda>x. offs (fst x)) ls) @ concat (map (\<lambda>x. offs (fst x)) rs) @ coffs c"

fun lvl :: "ctx \<Rightarrow> nat list" where
  "lvl [] = []"
| "lvl ((o', ls, s, rs) # c) = lvl c @ concat (map (\<lambda>x. leaves (fst x)) ls)"

fun lvr :: "ctx \<Rightarrow> nat list" where
  "lvr [] = []"
| "lvr ((o', ls, s, rs) # c) = concat (map (\<lambda>x. leaves (fst x)) rs) @ lvr c"

fun depc :: "nat \<Rightarrow> ctx \<Rightarrow> bool" where
  "depc n [] \<longleftrightarrow> True"
| "depc n ((o', ls, s, rs) # c) \<longleftrightarrow> (\<forall>x\<in>set ls \<union> set rs. dep n (fst x)) \<and> depc (Suc n) c"

lemma dep_plug: "dep (n + length c) (plug t c) \<longleftrightarrow> dep n t \<and> depc n c"
proof (induction c arbitrary: n t)
  case (Cons f c)
  obtain o' ls s rs where f: "f = (o', ls, s, rs)" by (metis prod_cases4)
  have "dep (n + length (f # c)) (plug t (f # c)) \<longleftrightarrow> dep (Suc n) (Nd o' (ls @ (t, s) # rs)) \<and> depc (Suc n) c"
    using Cons.IH [of "Suc n"] by (simp add: f)
  then show ?case by (auto simp: f)
qed simp

lemma kvs_plug: "kvs (plug t c) = kvl c @ kvs t @ kvr c"
  by (induction t c rule: plug.induct) simp_all

lemma leaves_plug: "leaves (plug t c) = lvl c @ leaves t @ lvr c"
  by (induction t c rule: plug.induct) simp_all

lemma offs_plug: "mset (offs (plug t c)) = mset (offs t) + mset (coffs c)"
  by (induction t c rule: plug.induct) simp_all

lemma distinct_plug: "distinct (offs (plug t c)) \<longleftrightarrow> distinct (offs t @ coffs c)"
  by (rule mset_eq_imp_distinct_iff) (simp add: offs_plug)

lemma set_offs_plug: "set (offs (plug t c)) = set (offs t) \<union> set (coffs c)"
  using arg_cong [OF offs_plug, of set_mset] by simp

lemma bwf_Nd: "bwf lo hi (Nd o' ts) \<longleftrightarrow> 2 \<le> length ts \<and> length ts \<le> FANOUT \<and> seps_ok lo hi (map snd ts) \<and> wfs lo hi ts"
  by (auto simp: seps_ok_def)

lemma wfs_split:
  "wfs lo hi (ls @ (t, s) # rs) \<longleftrightarrow>
    wfl lo ls \<and> bwf (if ls = [] then lo else snd (last ls)) (if rs = [] then hi else s) t \<and> wfs s hi rs"
  by (induction ls arbitrary: lo) (auto split: if_splits)

lemma wfs_append: "rs \<noteq> [] \<Longrightarrow> wfs lo hi (ls @ rs) \<longleftrightarrow> wfl lo ls \<and> wfs (if ls = [] then lo else snd (last ls)) hi rs"
  by (induction ls arbitrary: lo) auto

lemma wf_plug: "bwf 0 topkey (plug t c) \<longleftrightarrow> wfc c \<and> bwf (hlo c) (hhi c) t"
proof (induction c arbitrary: t)
  case (Cons f c)
  obtain o' ls s rs where f: "f = (o', ls, s, rs)" by (metis prod_cases4)
  have "bwf (hlo c) (hhi c) (Nd o' (ls @ (t, s) # rs)) \<longleftrightarrow> 1 \<le> length ls + length rs \<and> length ls + length rs < FANOUT
      \<and> seps_ok (hlo c) (hhi c) (map snd ls @ s # map snd rs) \<and> wfl (hlo c) ls \<and> wfs s (hhi c) rs
      \<and> bwf (hlo (f # c)) (hhi (f # c)) t"
    unfolding bwf_Nd wfs_split by (auto simp: f)
  then show ?case using Cons.IH by (auto simp: f)
qed simp

lemma seps_ok_append:
  "seps_ok lo hi (xs @ ys) \<longleftrightarrow> seps_ok lo hi xs \<and> seps_ok lo hi ys \<and> (\<forall>x\<in>set xs. \<forall>y\<in>set ys. x < y)"
  by (auto simp: seps_ok_def sorted_wrt_append)

lemma seps_ok_Cons: "seps_ok lo hi (x # ys) \<longleftrightarrow> lo < x \<and> x \<le> hi \<and> seps_ok lo hi ys \<and> (\<forall>y\<in>set ys. x < y)"
  by (auto simp: seps_ok_def)

lemma wf_keys:
  "bwf lo hi t \<Longrightarrow> lo \<le> hi \<Longrightarrow> keys_ok (kvs t) \<and> (\<forall>p\<in>set (kvs t). lo < fst p \<and> fst p \<le> hi)"
  "wfs lo hi ts \<Longrightarrow> seps_ok lo hi (map snd ts) \<Longrightarrow> lo \<le> hi \<Longrightarrow>
    keys_ok (concat (map (\<lambda>x. kvs (fst x)) ts)) \<and> (\<forall>p\<in>set (concat (map (\<lambda>x. kvs (fst x)) ts)). lo < fst p \<and> fst p \<le> hi)"
proof (induction lo hi t and lo hi ts rule: bwf_wfs.induct)
  case (2 lo hi o' ts)
  then show ?case unfolding bwf_Nd kvs.simps by blast
next
  case (4 lo hi c s ts)
  have s: "lo < s" "s \<le> hi" "seps_ok s hi (map snd ts)" using 4(4) by (auto simp: seps_ok_Cons seps_ok_def)
  have c: "keys_ok (kvs c) \<and> (\<forall>p\<in>set (kvs c). lo < fst p \<and> fst p \<le> (if ts = [] then hi else s))"
    by (rule 4(1)) (use 4(3) s in auto)
  have r: "keys_ok (concat (map (\<lambda>x. kvs (fst x)) ts)) \<and> (\<forall>p\<in>set (concat (map (\<lambda>x. kvs (fst x)) ts)). s < fst p \<and> fst p \<le> hi)"
    by (rule 4(2)) (use 4(3) s in auto)
  have "\<forall>x\<in>set (kvs c). \<forall>y\<in>set (concat (map (\<lambda>x. kvs (fst x)) ts)). fst x < fst y"
    using c r by (cases "ts = []") (auto dest!: bspec intro: le_less_trans)
  moreover have "\<forall>p\<in>set (concat (map (\<lambda>x. kvs (fst x)) ts)). lo < fst p \<and> fst p \<le> hi"
    using r s(1) by (meson less_trans)
  moreover have "\<forall>p\<in>set (kvs c). lo < fst p \<and> fst p \<le> hi"
    using c s(2) by (cases "ts = []") (auto dest: bspec intro: le_trans)
  ultimately show ?case using c r by (simp add: keys_ok_append ball_Un del: set_concat)
qed auto

section \<open>Representation\<close>

definition leaf_node :: "node \<Rightarrow> nat \<Rightarrow> pairs \<Rightarrow> bool" where
  "leaf_node n o' xs \<longleftrightarrow> i_flag n = 1 \<and> i_num n = length xs \<and> i_offset n = o' \<and> i_pair n = pad xs FANOUT"

definition index_node :: "node \<Rightarrow> nat \<Rightarrow> pairs \<Rightarrow> bool" where
  "index_node n o' ps \<longleftrightarrow> i_flag n = 0 \<and> Suc (i_num n) = length ps \<and> i_offset n = o'
     \<and> length (i_pair n) = FANOUT \<and> take (length ps) (i_pair n) = ps"

abbreviation entry :: "bt \<times> key \<Rightarrow> key \<times> item" where
  "entry x \<equiv> (snd x, boff (fst x))"

fun rep :: "(nat \<Rightarrow> node) \<Rightarrow> bt \<Rightarrow> bool" where
  "rep st (Lf o' xs) \<longleftrightarrow> leaf_node (st o') o' xs"
| "rep st (Nd o' ts) \<longleftrightarrow> index_node (st o') o' (map entry ts) \<and> (\<forall>x\<in>set ts. rep st (fst x))"

fun repc :: "(nat \<Rightarrow> node) \<Rightarrow> nat \<Rightarrow> ctx \<Rightarrow> bool" where
  "repc st h [] \<longleftrightarrow> True"
| "repc st h ((o', ls, s, rs) # c) \<longleftrightarrow> index_node (st o') o' (map entry ls @ (s, h) # map entry rs)
     \<and> (\<forall>x\<in>set ls. rep st (fst x)) \<and> (\<forall>x\<in>set rs. rep st (fst x)) \<and> repc st o' c"

lemma rep_plug: "rep st (plug t c) \<longleftrightarrow> rep st t \<and> repc st (boff t) c"
  by (induction t c rule: plug.induct) auto

text \<open>Two nodes that differ in their links and the root mark only.\<close>

definition same_node :: "node \<Rightarrow> node \<Rightarrow> bool" where
  "same_node n n' \<longleftrightarrow> i_flag n = i_flag n' \<and> i_num n = i_num n' \<and> i_offset n = i_offset n' \<and> i_pair n = i_pair n'"

lemma same_node_refl [simp]: "same_node n n"
  by (simp add: same_node_def)

lemma rep_cong:
  "rep st t \<Longrightarrow> (\<And>o'. o' \<in> set (offs t) \<Longrightarrow> same_node (st o') (st' o')) \<Longrightarrow> rep st' t"
proof (induction t)
  case (Nd o' ts)
  have "same_node (st o') (st' o')" using Nd.prems(2) [of o'] by simp
  moreover have "rep st' (fst x)" if x: "x \<in> set ts" for x
    using x Nd.prems by (intro Nd.IH [of x]) (auto simp: prod_set_simps intro: fsts.intros)
  ultimately show ?case using Nd.prems(1) by (auto simp: index_node_def same_node_def)
qed (auto simp: leaf_node_def same_node_def)

lemma repc_cong:
  "repc st h c \<Longrightarrow> (\<And>o'. o' \<in> set (coffs c) \<Longrightarrow> same_node (st o') (st' o')) \<Longrightarrow> repc st' h c"
proof (induction c arbitrary: h)
  case (Cons f c)
  obtain o' ls s rs where f: "f = (o', ls, s, rs)" by (metis prod_cases4)
  have "same_node (st o') (st' o')" using Cons.prems(2) [of o'] by (simp add: f)
  then have "index_node (st' o') o' (map entry ls @ (s, h) # map entry rs)"
    using Cons.prems(1) by (auto simp: f index_node_def same_node_def)
  moreover have "rep st' (fst x)" if "x \<in> set ls \<union> set rs" for x
    by (rule rep_cong [of st]) (use that Cons.prems in \<open>auto simp: f\<close>)
  moreover have "repc st' o' c" using Cons.prems by (intro Cons.IH) (auto simp: f)
  ultimately show ?case by (auto simp: f)
qed simp

fun chain :: "(nat \<Rightarrow> node) \<Rightarrow> nat \<Rightarrow> nat list \<Rightarrow> bool" where
  "chain st p [] \<longleftrightarrow> True"
| "chain st p (o' # os) \<longleftrightarrow> i_prev_node (st o') = p \<and> i_next_node (st o') = (if os = [] then 0 else hd os) \<and> chain st o' os"

section \<open>The descent\<close>

lemma index_pick:
  assumes n: "index_node n o' (map entry ts)" and two: "2 \<le> length ts" and so: "seps_ok lo hi (map snd ts)"
  obtains ls x rs where "ts = ls @ x # rs" "\<forall>y\<in>set ls. snd y < k" "rs \<noteq> [] \<longrightarrow> k \<le> snd x"
    "bp_next_node k n t = bp_read_node (boff (fst x)) t"
proof -
  define m where "m = i_num n"
  have len: "length ts = Suc m" and tk: "take (Suc m) (i_pair n) = map entry ts"
    using n by (auto simp: index_node_def m_def)
  have m0: "m \<noteq> 0" using two len by simp
  obtain zs where pr: "i_pair n = map entry ts @ zs" by (metis append_take_drop_id tk)
  have fst_ts: "map fst (map entry ts) = map snd ts" by simp
  have ok: "keys_ok (map entry ts)"
    using so by (auto simp: keys_ok_def seps_ok_def fst_ts simp del: map_map)
  have nth: "i_pair n ! i = entry (ts ! i)" if "i \<le> m" for i using that len by (simp add: pr nth_append)
  show thesis
  proof (cases "k > snd (ts ! (m - 1))")
    case True
    have "ts = butlast ts @ [last ts]" using len by (metis append_butlast_last_id length_0_conv nat.distinct(1))
    moreover have "\<forall>y\<in>set (butlast ts). snd y < k"
    proof
      fix y assume "y \<in> set (butlast ts)"
      then obtain i where i: "i < m" "y = ts ! i" using len by (auto simp: in_set_conv_nth nth_butlast)
      have "snd (ts ! i) \<le> snd (ts ! (m - 1))"
        using so i len by (cases "i = m - 1") (auto simp: seps_ok_def sorted_wrt_iff_nth_less intro: less_imp_le)
      then show "snd y < k" using True i by simp
    qed
    moreover have "bp_next_node k n t = bp_read_node (boff (fst (last ts))) t"
    proof -
      have "last ts = ts ! m" using len by (metis diff_Suc_1 last_conv_nth length_0_conv nat.distinct(1))
      then show ?thesis using True m0 nth [of m] nth [of "m - 1"] by (simp add: bp_next_node_def m_def [symmetric])
    qed
    ultimately show thesis using that [of "butlast ts" "last ts" "[]"] by simp
  next
    case False
    define ls where "ls = takeWhile (\<lambda>y. snd y < k) ts"
    have "ts ! (m - 1) \<in> set ts" using len by simp
    then have ex: "\<exists>x\<in>set (map entry ts). k \<le> fst x"
      using False by (intro bexI [of _ "entry (ts ! (m - 1))"]) auto
    have lt: "length ls < length ts" unfolding ls_def
      using False \<open>ts ! (m - 1) \<in> set ts\<close> by (auto intro: takeWhile_less_length)
    define i where "i = length ls"
    have tw: "takeWhile (\<lambda>p. fst p < k) (map entry ts) = map entry ls" by (simp add: ls_def takeWhile_map comp_def)
    have bs: "bin_search k (i_pair n) (int m) compare_index_node = int i"
      using bin_search_spec(2) [OF ok ex, of zs] by (simp add: pr tw i_def len)
    have i: "i \<le> m" using lt len by (simp add: i_def)
    have split: "ts = ls @ ts ! i # drop (Suc i) ts"
      using lt by (metis (no_types, lifting) i_def ls_def id_take_nth_drop length_takeWhile_le takeWhile_eq_take)
    have "k \<le> snd (ts ! i)" using nth_length_takeWhile [of "\<lambda>y. snd y < k" ts] lt by (simp add: i_def ls_def)
    moreover have "\<forall>y\<in>set ls. snd y < k" by (auto simp: ls_def dest: set_takeWhileD)
    moreover have "bp_next_node k n t = bp_read_node (boff (fst (ts ! i))) t"
      using False m0 nth [of i] nth [of "m - 1"] i bs by (simp add: bp_next_node_def m_def [symmetric])
    ultimately show thesis using that [OF split] by simp
  qed
qed

lemma hgt_child: "x \<in> set ts \<Longrightarrow> hgt (fst x) < hgt (Nd o' ts)"
  by (simp add: less_Suc_eq_le)

lemma rep_node:
  "rep st t \<Longrightarrow> i_offset (st (boff t)) = boff t \<and> (i_flag (st (boff t)) = 0 \<or> i_flag (st (boff t)) = 1)"
  by (cases t) (auto simp: leaf_node_def index_node_def)

lemma read_rep: "rep (bp_nodes t) b \<Longrightarrow> boff b \<noteq> 0 \<Longrightarrow> bp_read_node (boff b) t = Some (bp_nodes t (boff b))"
  using rep_node [of "bp_nodes t" b] by (auto simp: bp_read_node_def Let_def)

lemma boff_in_offs: "boff t \<in> set (offs t)"
  by (cases t) simp_all

lemma frame_hole:
  assumes "bwf (hlo c) (hhi c) (Nd o' (ls @ (t, s) # rs))" "wfc c" "\<forall>y\<in>set ls. snd y < k" "rs \<noteq> [] \<longrightarrow> k \<le> s"
    "hlo c < k" "k \<le> hhi c"
  shows "wfc ((o', ls, s, rs) # c) \<and> bwf (hlo ((o', ls, s, rs) # c)) (hhi ((o', ls, s, rs) # c)) t
    \<and> hlo ((o', ls, s, rs) # c) < k \<and> k \<le> hhi ((o', ls, s, rs) # c)"
proof -
  have "wfc ((o', ls, s, rs) # c) \<and> bwf (hlo ((o', ls, s, rs) # c)) (hhi ((o', ls, s, rs) # c)) t"
    using assms(1,2) unfolding bwf_Nd wfs_split by auto
  moreover have "hlo ((o', ls, s, rs) # c) < k" using assms(3,5) by (simp add: last_in_set)
  ultimately show ?thesis using assms(4,6) by auto
qed

lemma descend:
  assumes "rep st t" "bwf (hlo c) (hhi c) t" "wfc c" "hlo c < k" "k \<le> hhi c" "bp_nodes T = st"
    "m_stack T = map fst c" "0 \<notin> set (offs t)" "length c + hgt t < 127" "hgt t < fuel"
  shows "\<exists>o' xs c'. plug t c = plug (Lf o' xs) c' \<and> wfc c' \<and> bwf (hlo c') (hhi c') (Lf o' xs) \<and> hlo c' < k \<and> k \<le> hhi c'
    \<and> leaf_node (st o') o' xs \<and> traverse_loop fuel k (st (boff t)) T = Some (st o', T\<lparr>m_stack := map fst c'\<rparr>)
    \<and> length c' \<le> length c + hgt t"
  using assms
proof (induction t arbitrary: c T fuel)
  case (Lf o' xs)
  then obtain f where f: "fuel = Suc f" by (cases fuel) auto
  have "T = T\<lparr>m_stack := map fst c\<rparr>" using Lf.prems(7) by simp
  then show ?case using Lf.prems by (intro exI [of _ o'] exI [of _ xs] exI [of _ c]) (simp add: f leaf_node_def DATA_FLAG_def)
next
  case (Nd o' ts)
  then obtain f where f: "fuel = Suc f" by (cases fuel) auto
  note w = Nd.prems(2) [unfolded bwf_Nd]
  have n: "index_node (st o') o' (map entry ts)" using Nd.prems(1) by simp
  define T1 where "T1 = T\<lparr>m_stack := o' # m_stack T\<rparr>"
  obtain ls x rs where ts: "ts = ls @ x # rs" and lt: "\<forall>y\<in>set ls. snd y < k" and ge: "rs \<noteq> [] \<longrightarrow> k \<le> snd x"
    and nx: "bp_next_node k (st o') T1 = bp_read_node (boff (fst x)) T1"
    using index_pick [OF n, of "hlo c" "hhi c" k T1] w by blast
  obtain t s where x: "x = (t, s)" by (cases x)
  define c1 where "c1 = (o', ls, s, rs) # c"
  have wn: "bwf (hlo c) (hhi c) (Nd o' (ls @ (t, s) # rs))" using Nd.prems(2) by (simp only: ts x)
  have hole: "wfc c1 \<and> bwf (hlo c1) (hhi c1) t \<and> hlo c1 < k \<and> k \<le> hhi c1" unfolding c1_def
    by (rule frame_hole [OF wn Nd.prems(3) lt _ Nd.prems(4,5)]) (use ge x in simp)
  have xt: "x \<in> set ts" by (simp add: ts)
  have h: "hgt t < hgt (Nd o' ts)" using hgt_child [OF xt, of o'] by (simp only: x fst_conv)
  have sub: "set (offs t) \<subseteq> set (offs (Nd o' ts))" using xt x by auto
  have r: "rep st t" using Nd.prems(1) xt x by auto
  have "boff t \<noteq> 0" using Nd.prems(8) sub boff_in_offs [of t] by (metis subsetD)
  then have rd: "bp_read_node (boff t) T1 = Some (st (boff t))"
    using read_rep [of T1 t] r Nd.prems(6) by (simp add: T1_def)
  have push: "stack_push o' T = Some T1" using Nd.prems(7,9) by (simp add: stack_push_def MAX_STACK_def T1_def)
  have step: "traverse_loop fuel k (st (boff (Nd o' ts))) T = traverse_loop f k (st (boff t)) T1"
    using n nx rd push by (simp add: f index_node_def DATA_FLAG_def x)
  have "\<exists>o' xs c'. plug t c1 = plug (Lf o' xs) c' \<and> wfc c' \<and> bwf (hlo c') (hhi c') (Lf o' xs) \<and> hlo c' < k \<and> k \<le> hhi c'
    \<and> leaf_node (st o') o' xs \<and> traverse_loop f k (st (boff t)) T1 = Some (st o', T1\<lparr>m_stack := map fst c'\<rparr>)
    \<and> length c' \<le> length c1 + hgt t"
    by (rule Nd.IH [of x]) (use xt x r hole h f sub Nd.prems(6,7,8,9,10) in \<open>auto simp: T1_def c1_def prod_set_simps\<close>)
  then obtain o2 xs c' where res: "plug t c1 = plug (Lf o2 xs) c'" "wfc c'" "bwf (hlo c') (hhi c') (Lf o2 xs)" "hlo c' < k" "k \<le> hhi c'"
    "leaf_node (st o2) o2 xs" "traverse_loop f k (st (boff t)) T1 = Some (st o2, T1\<lparr>m_stack := map fst c'\<rparr>)"
    "length c' \<le> length c1 + hgt t" by blast
  have "plug (Nd o' ts) c = plug t c1" by (simp add: c1_def ts x)
  moreover have "T1\<lparr>m_stack := map fst c'\<rparr> = T\<lparr>m_stack := map fst c'\<rparr>" by (simp add: T1_def)
  moreover have "length c' \<le> length c + hgt (Nd o' ts)" using res(8) h by (simp add: c1_def)
  ultimately show ?case using res step by (intro exI [of _ o2] exI [of _ xs] exI [of _ c']) simp
qed

section \<open>The invariant of a tree file\<close>

definition avail :: "master \<Rightarrow> nat" where
  "avail m = 32448 - m_blocks m + nat (m_bitmap_free m)"

text \<open>All that insertion keeps of the blocks: everything except the shape of the tree.\<close>

definition blocks_ok :: "bptree \<Rightarrow> bt \<Rightarrow> bool" where
  "blocks_ok T b \<longleftrightarrow> rep (bp_nodes T) b \<and> distinct (offs b) \<and> (\<forall>o'\<in>set (offs b). node_used (m_master T) o')
     \<and> master_inv (m_master T) \<and> (\<forall>o'\<in>set (offs b). i_root (bp_nodes T o') \<longleftrightarrow> o' = m_root T)
     \<and> chain (bp_nodes T) 0 (leaves b)"

definition tree_ok :: "bptree \<Rightarrow> bt \<Rightarrow> bool" where
  "tree_ok T b \<longleftrightarrow> blocks_ok T b \<and> boff b = m_root T \<and> bwf 0 topkey b \<and> m_stack T = [] \<and> dep (hgt b) b"

lemma wfs_child: "wfs lo hi ts \<Longrightarrow> x \<in> set ts \<Longrightarrow> \<exists>lo' hi'. bwf lo' hi' (fst x)"
proof (induction ts arbitrary: lo)
  case (Cons y ts)
  then show ?case by (cases y, cases "x = y") (fastforce split: if_splits)+
qed simp

lemma fst_in_fsts: "fst x \<in> Basic_BNFs.fsts x"
  by (cases x) (simp add: prod_set_simps)

lemma dep_size: "bwf lo hi t \<Longrightarrow> dep n t \<Longrightarrow> 2 ^ n \<le> length (offs t)"
proof (induction t arbitrary: n lo hi)
  case (Nd o' ts)
  then obtain m where n: "n = Suc m" by (cases n) auto
  have len: "2 \<le> length ts" using Nd.prems(1) by simp
  then obtain x ts1 where ts1: "ts = x # ts1" "1 \<le> length ts1" by (cases ts) auto
  then obtain y zs where ts: "ts = x # y # zs" by (cases ts1) auto
  have ge: "2 ^ m \<le> length (offs (fst z))" if "z \<in> {x, y}" for z
  proof -
    have z: "z \<in> set ts" using that ts by auto
    have "wfs lo hi ts" using Nd.prems(1) by simp
    from wfs_child [OF this z] obtain lo' hi' where "bwf lo' hi' (fst z)" by blast
    moreover have "dep m (fst z)" using Nd.prems(2) z n by auto
    ultimately show ?thesis using Nd.IH [OF z fst_in_fsts] by blast
  qed
  then have "2 ^ m \<le> length (offs (fst x))" "2 ^ m \<le> length (offs (fst y))" by auto
  then show ?case by (simp add: ts n)
qed simp

lemma hgt_dep: "dep n t \<Longrightarrow> hgt t \<le> n"
proof (induction t arbitrary: n)
  case (Nd o' ts)
  then obtain m where n: "n = Suc m" by (cases n) auto
  have "hgt (fst x) \<le> m" if x: "x \<in> set ts" for x
    using Nd.IH [OF x fst_in_fsts, of m] Nd.prems x n by simp
  then show ?case by (simp add: n)
qed simp

lemma hgt_small:
  assumes "blocks_ok T b" "bwf 0 topkey b" "dep n b"
  shows "n < 15"
proof (rule ccontr)
  assume "\<not> n < 15"
  then have "2 ^ 15 \<le> (2::nat) ^ n" by (intro power_increasing) auto
  also have "\<dots> \<le> length (offs b)" by (rule dep_size [OF assms(2,3)])
  also have "\<dots> = card (set (offs b))" using assms(1) by (simp add: blocks_ok_def distinct_card)
  also have "\<dots> \<le> card {..<32448::nat}"
  proof (rule card_mono)
    show "set (offs b) \<subseteq> {..<32448}"
      using assms(1) master_invD(3) [of "m_master T"] by (auto simp: blocks_ok_def node_used_def intro: less_le_trans)
  qed simp
  finally show False by simp
qed

lemma tree_descend:
  assumes ok: "tree_ok T b" and k: "0 < k" "k \<le> topkey"
  obtains o' xs c where "b = plug (Lf o' xs) c" "wfc c" "bwf (hlo c) (hhi c) (Lf o' xs)" "hlo c < k" "k \<le> hhi c"
    "leaf_node (bp_nodes T o') o' xs" "traverse_empty k T = Some (bp_nodes T o', T\<lparr>m_stack := map fst c\<rparr>)" "length c \<le> hgt b"
proof -
  have r: "rep (bp_nodes T) b" and w: "bwf 0 topkey b" and nz: "0 \<notin> set (offs b)" and root: "boff b = m_root T"
    and st: "m_stack T = []"
    using ok by (auto simp: tree_ok_def blocks_ok_def node_used_def)
  have h: "hgt b < 15" using ok hgt_small [of T b "hgt b"] by (simp add: tree_ok_def)
  have "boff b \<noteq> 0" using nz boff_in_offs [of b] by metis
  then have rd: "bp_read_node (m_root T) T = Some (bp_nodes T (boff b))" using read_rep [OF r] root by simp
  have "\<exists>o' xs c'. plug b [] = plug (Lf o' xs) c' \<and> wfc c' \<and> bwf (hlo c') (hhi c') (Lf o' xs) \<and> hlo c' < k \<and> k \<le> hhi c'
    \<and> leaf_node (bp_nodes T o') o' xs \<and> traverse_loop MAX_STACK k (bp_nodes T (boff b)) T = Some (bp_nodes T o', T\<lparr>m_stack := map fst c'\<rparr>)
    \<and> length c' \<le> length ([] :: ctx) + hgt b"
    by (rule descend [OF r]) (use w k st nz h in \<open>auto simp: MAX_STACK_def\<close>)
  then show thesis using that rd by (auto simp: traverse_empty_def)
qed

lemma wfl_keys:
  "wfl lo ls \<Longrightarrow> seps_ok lo hi (map snd ls) \<Longrightarrow> ls \<noteq> [] \<Longrightarrow> x \<in> set ls \<Longrightarrow> p \<in> set (kvs (fst x)) \<Longrightarrow> fst p \<le> snd (last ls)"
proof (induction lo ls rule: wfl.induct)
  case (2 lo c s ls)
  have s: "lo < s" "seps_ok s hi (map snd ls)" using 2(3) by (auto simp: seps_ok_Cons seps_ok_def)
  have le: "s \<le> snd (last ((c, s) # ls))"
  proof (cases "ls = []")
    case False
    then have "snd (last ls) \<in> set (map snd ls)" by simp
    then show ?thesis using 2(3) False by (auto simp: seps_ok_Cons intro: less_imp_le)
  qed simp
  show ?case
  proof (cases "x = (c, s)")
    case True
    have "keys_ok (kvs c) \<and> (\<forall>p\<in>set (kvs c). lo < fst p \<and> fst p \<le> s)"
      by (rule wf_keys(1)) (use 2(2) s in auto)
    then show ?thesis using 2(6) True le by (auto intro: le_trans)
  next
    case False
    then have "x \<in> set ls" "ls \<noteq> []" using 2(5) by auto
    then show ?thesis using 2(1) [OF _ s(2)] 2(2,6) by simp
  qed
qed simp

lemma wfc_hole: "wfc c \<Longrightarrow> hlo c \<le> hhi c"
proof (induction c)
  case (Cons f c)
  obtain o' ls s rs where f: "f = (o', ls, s, rs)" by (metis prod_cases4)
  have w: "seps_ok (hlo c) (hhi c) (map snd ls @ s # map snd rs)" "hlo c \<le> hhi c" using Cons by (auto simp: f)
  have a: "snd (last ls) < s" if "ls \<noteq> []" using that w(1) by (auto simp: seps_ok_append seps_ok_Cons)
  have b: "hlo c < s" "s \<le> hhi c" using w(1) by (auto simp: seps_ok_append seps_ok_Cons)
  show ?case using a b by (auto simp: f)
qed (simp add: topkey_def)

lemma wfc_keys:
  "wfc c \<Longrightarrow> (\<forall>p\<in>set (kvl c). fst p \<le> hlo c) \<and> (\<forall>p\<in>set (kvr c). hhi c < fst p)"
proof (induction c)
  case (Cons f c)
  obtain o' ls s rs where f: "f = (o', ls, s, rs)" by (metis prod_cases4)
  have w: "wfc c" "seps_ok (hlo c) (hhi c) (map snd ls @ s # map snd rs)" "wfl (hlo c) ls" "wfs s (hhi c) rs"
    using Cons.prems by (auto simp: f)
  have IH: "\<forall>p\<in>set (kvl c). fst p \<le> hlo c" "\<forall>p\<in>set (kvr c). hhi c < fst p" using Cons.IH w(1) by auto
  have s: "s \<le> hhi c" "seps_ok s (hhi c) (map snd rs)" "seps_ok (hlo c) (hhi c) (map snd ls)"
    using w(2) by (auto simp: seps_ok_def sorted_wrt_append)
  have r: "\<forall>p\<in>set (concat (map (\<lambda>x. kvs (fst x)) rs)). s < fst p \<and> fst p \<le> hhi c"
    using wf_keys(2) [OF w(4) s(2,1)] by blast
  have last: "hlo c < snd (last ls)" if "ls \<noteq> []" using s(3) that by (auto simp: seps_ok_def)
  have "fst p \<le> hlo (f # c)" if pk: "p \<in> set (kvl (f # c))" for p
  proof (cases "p \<in> set (kvl c)")
    case True
    then show ?thesis using IH(1) last by (fastforce simp: f)
  next
    case False
    then obtain x where x: "x \<in> set ls" "p \<in> set (kvs (fst x))" using pk by (auto simp: f)
    then have "ls \<noteq> []" by auto
    then show ?thesis using wfl_keys [OF w(3) s(3) _ x] by (simp add: f)
  qed
  moreover have "hhi (f # c) < fst p" if "p \<in> set (kvr (f # c))" for p
  proof (cases "p \<in> set (kvr c)")
    case True
    then show ?thesis using IH(2) s(1) by (fastforce simp: f)
  next
    case False
    then have "p \<in> set (concat (map (\<lambda>x. kvs (fst x)) rs))" using that by (auto simp: f)
    moreover from this have "rs \<noteq> []" by auto
    ultimately show ?thesis using r by (simp add: f del: set_concat)
  qed
  ultimately show ?case by blast
qed simp

text \<open>What a search of the leaf finds is what the whole tree maps the key to.\<close>

lemma kvs_at:
  assumes "wfc c" "hlo c < k" "k \<le> hhi c"
  shows "map_of (kvs (plug t c)) k = map_of (kvs t) k" "k \<in> fst ` set (kvs (plug t c)) \<longleftrightarrow> k \<in> fst ` set (kvs t)"
proof -
  have l: "k \<notin> fst ` set (kvl c)" using wfc_keys [OF assms(1)] assms(2) by fastforce
  have r: "k \<notin> fst ` set (kvr c)" using wfc_keys [OF assms(1)] assms(3) by fastforce
  have "map_of (kvl c) k = None" "map_of (kvr c) k = None" using l r by (simp_all add: map_of_eq_None_iff)
  then show "map_of (kvs (plug t c)) k = map_of (kvs t) k" by (simp add: kvs_plug map_add_def split: option.splits)
  show "k \<in> fst ` set (kvs (plug t c)) \<longleftrightarrow> k \<in> fst ` set (kvs t)" using l r by (simp add: kvs_plug image_Un)
qed

lemma leaf_search:
  assumes "leaf_node n o' xs" "keys_ok xs"
  shows "get_pair_tree n k = (if k \<in> fst ` set xs then int (length (takeWhile (\<lambda>p. fst p \<noteq> k) xs)) else -1)"
    "k \<in> fst ` set xs \<Longrightarrow> map_of xs k = Some (snd (i_pair n ! nat (get_pair_tree n k)))"
    "k \<in> fst ` set xs \<Longrightarrow> \<exists>us v ws. xs = us @ (k, v) # ws \<and> get_pair_tree n k = int (length us)"
proof -
  have n: "i_num n = length xs" "i_pair n = xs @ zero_pairs (FANOUT - length xs)"
    using assms(1) by (simp_all add: leaf_node_def pad_def)
  show g: "get_pair_tree n k = (if k \<in> fst ` set xs then int (length (takeWhile (\<lambda>p. fst p \<noteq> k) xs)) else -1)"
    using bin_search_spec(1) [OF assms(2), of k "zero_pairs (FANOUT - length xs)"] by (simp add: get_pair_tree_def n)
  assume k: "k \<in> fst ` set xs"
  define us where "us = takeWhile (\<lambda>p. fst p \<noteq> k) xs"
  have lt: "length us < length xs" using k unfolding us_def by (auto intro: takeWhile_less_length)
  have at: "fst (xs ! length us) = k" using nth_length_takeWhile [of "\<lambda>p. fst p \<noteq> k" xs] lt by (simp add: us_def)
  have sp: "xs = us @ xs ! length us # drop (Suc (length us)) xs"
    using lt by (metis id_take_nth_drop takeWhile_eq_take us_def)
  show ex: "\<exists>us v ws. xs = us @ (k, v) # ws \<and> get_pair_tree n k = int (length us)"
  proof (intro exI conjI)
    have "xs ! length us = (k, snd (xs ! length us))" using at by (metis prod.collapse)
    then show "xs = us @ (k, snd (xs ! length us)) # drop (Suc (length us)) xs" using sp by simp
    show "get_pair_tree n k = int (length us)" using g k by (simp add: us_def)
  qed
  then obtain us' v ws where e: "xs = us' @ (k, v) # ws" "get_pair_tree n k = int (length us')" by blast
  then have "k \<notin> fst ` set us'" using assms(2) by (auto simp: keys_ok_append)
  then have "map_of us' k = None" by (simp add: map_of_eq_None_iff)
  then show "map_of xs k = Some (snd (i_pair n ! nat (get_pair_tree n k)))" using e n by (simp add: nth_append map_add_def)
qed

lemma find_key_correct:
  assumes ok: "tree_ok T b" and k: "0 < k" "k \<le> topkey"
  shows "\<exists>i. bp_find_key k T = Some (i, case map_of (kvs b) k of None \<Rightarrow> 0 | Some v \<Rightarrow> v, T)
    \<and> (0 \<le> i \<longleftrightarrow> k \<in> fst ` set (kvs b))"
proof -
  obtain o' xs c where d: "b = plug (Lf o' xs) c" "wfc c" "bwf (hlo c) (hhi c) (Lf o' xs)" "hlo c < k" "k \<le> hhi c"
    "leaf_node (bp_nodes T o') o' xs" "traverse_empty k T = Some (bp_nodes T o', T\<lparr>m_stack := map fst c\<rparr>)" "length c \<le> hgt b"
    by (rule tree_descend [OF ok k])
  have st: "T\<lparr>m_stack := []\<rparr> = T" using ok by (simp add: tree_ok_def)
  have xs: "keys_ok xs" using d(3) by simp
  note at = kvs_at [OF d(2,4,5), of "Lf o' xs", folded d(1), unfolded kvs.simps]
  note ls = leaf_search [OF d(6) xs, of k]
  show ?thesis
  proof (cases "k \<in> fst ` set xs")
    case True
    then show ?thesis using ls(1,2) at d(7) st by (simp add: bp_find_key_def)
  next
    case False
    then have "map_of xs k = None" by (simp add: map_of_eq_None_iff)
    then show ?thesis using False ls(1) at d(7) st by (simp add: bp_find_key_def)
  qed
qed

section \<open>Writing nodes\<close>

lemma chain_cong:
  "chain st p os \<Longrightarrow> (\<And>o'. o' \<in> set os \<Longrightarrow> i_prev_node (st' o') = i_prev_node (st o') \<and> i_next_node (st' o') = i_next_node (st o'))
    \<Longrightarrow> chain st' p os"
  by (induction os arbitrary: p) auto

text \<open>Replacing the contents of one leaf.\<close>

lemma replace_leaf:
  assumes ok: "blocks_ok T (plug (Lf o' xs) c)" and n: "leaf_node n o' ys"
    and same: "i_root n = i_root (bp_nodes T o')" "i_next_node n = i_next_node (bp_nodes T o')" "i_prev_node n = i_prev_node (bp_nodes T o')"
  shows "blocks_ok (T\<lparr>bp_nodes := (bp_nodes T)(o' := n)\<rparr>) (plug (Lf o' ys) c)"
proof -
  define st' where "st' = (bp_nodes T)(o' := n)"
  have d: "distinct (o' # coffs c)" using ok distinct_plug [of "Lf o' xs" c] by (simp add: blocks_ok_def)
  have "repc (bp_nodes T) o' c" using ok rep_plug [of "bp_nodes T" "Lf o' xs" c] by (simp add: blocks_ok_def)
  then have "repc st' o' c" by (rule repc_cong) (use d in \<open>auto simp: st'_def\<close>)
  then have r: "rep st' (plug (Lf o' ys) c)" using n by (simp add: rep_plug st'_def)
  have "chain (bp_nodes T) 0 (leaves (plug (Lf o' ys) c))" using ok by (simp add: blocks_ok_def leaves_plug)
  then have ch: "chain st' 0 (leaves (plug (Lf o' ys) c))" by (rule chain_cong) (use same in \<open>auto simp: st'_def\<close>)
  have rt: "\<forall>o2\<in>set (offs (plug (Lf o' ys) c)). i_root (st' o2) \<longleftrightarrow> o2 = m_root T"
    using ok same(1) by (auto simp: blocks_ok_def set_offs_plug st'_def split: if_splits)
  show ?thesis using ok r ch rt d unfolding blocks_ok_def st'_def [symmetric]
    by (simp add: set_offs_plug distinct_plug)
qed

lemma alloc_node_spec:
  assumes "master_inv (m_master T)" "0 < avail (m_master T)" "\<forall>b. can_map b"
  obtains o' m where "bp_alloc_node can_map fl T = Some (zero_node\<lparr>i_flag := fl, i_offset := o'\<rparr>,
      T\<lparr>m_master := m, bp_nodes := (bp_nodes T)(o' := zero_node)\<rparr>)"
    "master_inv m" "0 < o'" "\<not> node_used (m_master T) o'" "\<forall>k. node_used m k \<longleftrightarrow> k = o' \<or> node_used (m_master T) k"
    "avail (m_master T) \<le> Suc (avail m)"
proof -
  have "0 < m_bitmap_free (m_master T) \<or> m_blocks (m_master T) < 32448" using assms(2) by (auto simp: avail_def)
  then obtain o' m where a: "bp_alloc_bitmap can_map (m_master T) = Some (o', m)" "master_inv m" "\<not> node_used (m_master T) o'"
    "\<forall>k. node_used m k \<longleftrightarrow> k = o' \<or> node_used (m_master T) k" "m_blocks (m_master T) \<le> m_blocks m"
    "m_blocks m + nat (m_bitmap_free (m_master T)) \<le> Suc (m_blocks (m_master T) + nat (m_bitmap_free m))"
    using alloc_bitmap_correct [OF assms(1) _ assms(3)] by blast
  have "node_used m o'" using a(4) by simp
  then have "0 < o'" by (simp add: node_used_def)
  moreover have "avail (m_master T) \<le> Suc (avail m)"
    using a(5,6) master_invD(3) [OF a(2)] by (simp add: avail_def)
  ultimately show thesis using that [of o' m] a by (simp add: bp_alloc_node_def)
qed

lemma merge_key_leaf:
  assumes n: "leaf_node n o' xs" and ok: "keys_ok xs" and k: "k \<notin> fst ` set xs" "0 < k" and len: "length xs < FANOUT"
  shows "bp_merge_key n k v = n\<lparr>i_pair := pad (ins k v xs) FANOUT, i_num := length xs + 1\<rparr>"
proof -
  obtain us ws where s: "xs = us @ ws" "\<forall>u\<in>set us. fst u < k" "\<forall>w\<in>set ws. k < fst w" "ins k v xs = us @ (k, v) # ws"
    by (rule ins_cases [OF ok k(1)])
  have nz: "\<forall>u\<in>set us. fst u < k \<and> fst u \<noteq> 0" using s(1,2) ok by (auto simp: keys_ok_def image_iff)
  define ys where "ys = zero_pairs (FANOUT - length xs - 1)"
  have pr: "i_pair n = us @ ws @ (0, 0) # ys" "i_num n = length us + length ws"
  proof -
    have "zero_pairs (FANOUT - length xs) = (0, 0) # ys" unfolding ys_def zero_pairs_def
      using len by (metis Suc_diff_Suc diff_Suc_eq_diff_pred replicate_Suc diff_diff_left plus_1_eq_Suc add.commute)
    then show "i_pair n = us @ ws @ (0, 0) # ys" "i_num n = length us + length ws"
      using n by (simp_all add: leaf_node_def pad_def s(1))
  qed
  have mp: "merge_pos (us @ ws @ (0, 0) # ys) k (length us + length ws) = length us"
    by (rule merge_pos_at [OF nz s(3)]) simp
  have "us @ (k, v) # ws @ ys = pad (ins k v xs) FANOUT"
    using s(4) by (simp add: pad_def ys_def) (simp add: s(1))
  then show ?thesis using pr by (simp add: bp_merge_key_def mp shift_up_at nth_append Let_def s(1))
qed

lemma pad_full: "length xs = n \<Longrightarrow> pad xs n = xs"
  by (simp add: pad_def zero_pairs_def)

lemma merged_eq:
  assumes n: "leaf_node n o' xs" and ok: "keys_ok xs" and k: "k \<notin> fst ` set xs" "0 < k" and m: "length xs < m" and len: "length xs \<le> FANOUT"
  shows "merged n k v m = ins k v xs @ zero_pairs (m - length xs - 1)"
proof -
  have tk: "take (i_num n) (i_pair n) = xs" "i_num n = length xs" using n len by (simp_all add: leaf_node_def pad_def)
  have "zero_pairs (m - length xs) = (0, 0) # zero_pairs (m - length xs - 1)"
    using m by (cases "m - length xs") (simp_all add: zero_pairs_def)
  then show ?thesis unfolding merged_def tk(1) pad_def unfolding tk(2) using merge_key2_ins [OF ok k refl] by simp
qed

section \<open>Splitting a leaf\<close>

text \<open>A full leaf with keys in \<open>(lo, hi]\<close> that a new key of that range goes to, and its two
  halves.\<close>

definition leaf_full :: "pairs \<Rightarrow> key \<Rightarrow> nat \<Rightarrow> nat \<Rightarrow> bool" where
  "leaf_full xs k lo hi \<longleftrightarrow> keys_ok xs \<and> length xs = 337 \<and> k \<notin> fst ` set xs \<and> lo < k \<and> k \<le> hi
     \<and> (\<forall>p\<in>set xs. lo < fst p \<and> fst p \<le> hi)"

definition half1 :: "pairs \<Rightarrow> key \<Rightarrow> item \<Rightarrow> pairs" where
  "half1 xs k v = take 169 (ins k v xs)"

definition half2 :: "pairs \<Rightarrow> key \<Rightarrow> item \<Rightarrow> pairs" where
  "half2 xs k v = drop 169 (ins k v xs)"

lemma halves_append: "half1 xs k v @ half2 xs k v = ins k v xs"
  by (simp add: half1_def half2_def)

lemma leaf_fullD:
  assumes "leaf_full xs k lo hi"
  shows "keys_ok xs" "k \<notin> fst ` set xs" "0 < k" "length xs = 337"
  using assms by (auto simp: leaf_full_def)

lemma halves_length:
  assumes "leaf_full xs k lo hi"
  shows "length (half1 xs k v) = 169" "length (half2 xs k v) = 169" "half1 xs k v \<noteq> []" "half2 xs k v \<noteq> []"
  using ins_facts(3) [OF leaf_fullD(1-3) [OF assms], of v] leaf_fullD(4) [OF assms] by (auto simp: half1_def half2_def)

lemma halves_ok:
  assumes "leaf_full xs k lo hi"
  shows "keys_ok (half1 xs k v)" "keys_ok (half2 xs k v)" "\<forall>x\<in>set (half1 xs k v). \<forall>y\<in>set (half2 xs k v). fst x < fst y"
  using ins_facts(1) [OF leaf_fullD(1-3) [OF assms], of v] keys_ok_append [of "half1 xs k v" "half2 xs k v"]
  by (auto simp: halves_append)

lemma halves_bounds:
  assumes "leaf_full xs k lo hi" "p \<in> set (half1 xs k v @ half2 xs k v)"
  shows "lo < fst p \<and> fst p \<le> hi"
  using assms ins_facts(2) [OF leaf_fullD(1-3) [OF assms(1)], of v] unfolding halves_append by (auto simp: leaf_full_def)

lemma last_max: "keys_ok ys \<Longrightarrow> p \<in> set ys \<Longrightarrow> fst p \<le> fst (last ys)"
  by (induction ys) (auto simp: keys_ok_Cons intro: less_imp_le)

lemma halves_seps:
  assumes "leaf_full xs k lo hi"
  shows "lo < fst (last (half1 xs k v))" "fst (last (half1 xs k v)) < fst (last (half2 xs k v))" "fst (last (half2 xs k v)) \<le> hi"
  using halves_bounds [OF assms, of "last (half1 xs k v)" v] halves_bounds [OF assms, of "last (half2 xs k v)" v]
    halves_ok(3) [OF assms, of v] halves_length(3,4) [OF assms, of v] by auto

lemma halves_wf:
  assumes "leaf_full xs k lo hi"
  shows "bwf lo (fst (last (half1 xs k v))) (Lf o1 (half1 xs k v))" "bwf (fst (last (half1 xs k v))) hi (Lf o2 (half2 xs k v))"
    "bwf (fst (last (half1 xs k v))) (fst (last (half2 xs k v))) (Lf o2 (half2 xs k v))"
proof -
  note b = halves_bounds [OF assms, of _ v]
  note l = halves_length [OF assms, of v]
  have "lo < fst p \<and> fst p \<le> fst (last (half1 xs k v))" if "p \<in> set (half1 xs k v)" for p
    using b [of p] last_max [OF halves_ok(1) [OF assms] that] that by simp
  then show "bwf lo (fst (last (half1 xs k v))) (Lf o1 (half1 xs k v))"
    using halves_ok(1) [OF assms] l(1) by (simp add: FANOUT_def)
  have "fst (last (half1 xs k v)) < fst p \<and> fst p \<le> hi" if "p \<in> set (half2 xs k v)" for p
    using b [of p] halves_ok(3) [OF assms, of v] that l(3) by simp
  then show "bwf (fst (last (half1 xs k v))) hi (Lf o2 (half2 xs k v))"
    "bwf (fst (last (half1 xs k v))) (fst (last (half2 xs k v))) (Lf o2 (half2 xs k v))"
    using halves_ok(2) [OF assms] l(2) last_max [OF halves_ok(2) [OF assms]] by (simp_all add: FANOUT_def)
qed

lemma halves_node:
  assumes full: "leaf_full xs k lo hi" and n: "leaf_node n o' xs" and m: "337 < m"
  shows "left_part n (merged n k v m) = pad (half1 xs k v) FANOUT" "right_part n (merged n k v m) = pad (half2 xs k v) FANOUT"
    "i_num n = 337"
proof -
  show i: "i_num n = 337" using n leaf_fullD(4) [OF full] by (simp add: leaf_node_def)
  have mg: "merged n k v m = ins k v xs @ zero_pairs (m - length xs - 1)"
    by (rule merged_eq [OF n leaf_fullD(1-3) [OF full]]) (use m leaf_fullD(4) [OF full] in \<open>auto simp: FANOUT_def\<close>)
  have l: "length (ins k v xs) = 338" using ins_facts(3) [OF leaf_fullD(1-3) [OF full], of v] leaf_fullD(4) [OF full] by simp
  show "left_part n (merged n k v m) = pad (half1 xs k v) FANOUT" using l by (simp add: left_part_def mg i half1_def)
  show "right_part n (merged n k v m) = pad (half2 xs k v) FANOUT" using l by (simp add: right_part_def mg i half2_def)
qed

lemma last_key_pad: "i_pair n = pad ys FANOUT \<Longrightarrow> i_num n = length ys \<Longrightarrow> ys \<noteq> [] \<Longrightarrow> last_key n = fst (last ys)"
  by (simp add: last_key_def pad_def nth_append last_conv_nth)

lemma chain_insert:
  assumes ch: "chain st p (us @ o' # ws)" and d: "distinct (us @ o' # ws)" and r: "r \<notin> set (us @ o' # ws)"
    and o': "i_prev_node (st' o') = i_prev_node (st o')" "i_next_node (st' o') = r"
    and new: "i_prev_node (st' r) = o'" "i_next_node (st' r) = i_next_node (st o')"
    and nxt: "ws \<noteq> [] \<Longrightarrow> i_prev_node (st' (hd ws)) = r \<and> i_next_node (st' (hd ws)) = i_next_node (st (hd ws))"
    and rest: "\<And>x. x \<in> set us \<union> set (tl ws) \<Longrightarrow> i_prev_node (st' x) = i_prev_node (st x) \<and> i_next_node (st' x) = i_next_node (st x)"
  shows "chain st' p (us @ o' # r # ws)"
  using ch d r rest
proof (induction us arbitrary: p)
  case Nil
  have "chain st' r ws"
  proof (cases ws)
    case (Cons w ws')
    have "chain st w ws'" using Nil.prems(1) Cons by simp
    then have "chain st' w ws'" by (rule chain_cong) (use Nil.prems(4) Cons in auto)
    then show ?thesis using nxt Nil.prems(1) Cons by simp
  qed simp
  then show ?case using Nil.prems(1) o' new by simp
next
  case (Cons u us)
  have hd: "hd (us @ o' # r # ws) = hd (us @ o' # ws)" by (cases us) simp_all
  have "chain st' u (us @ o' # r # ws)" using Cons by (intro Cons.IH) auto
  then show ?case using Cons.prems(1,4) hd by auto
qed

section \<open>Splitting index nodes\<close>

lemma merge_pad:
  assumes "keys_ok xs" "k \<notin> fst ` set xs" "0 < k" "length xs < n"
  shows "merge_key2 (pad xs n) k v (length xs + 1) = pad (ins k v xs) n"
proof -
  have "zero_pairs (n - length xs) = (0, 0) # zero_pairs (n - length xs - 1)"
    using assms(4) by (cases "n - length xs") (simp_all add: zero_pairs_def)
  then show ?thesis using merge_key2_ins [OF assms(1-3) refl] ins_facts(3) [OF assms(1-3)] by (simp add: pad_def)
qed

lemma pairs_ok: "seps_ok lo hi (map fst ps) \<Longrightarrow> keys_ok ps"
  unfolding keys_ok_def seps_ok_def by (metis gr_implies_not_zero set_map)

lemma entries_ok: "seps_ok lo hi (map snd ts) \<Longrightarrow> keys_ok (map entry ts)"
  by (rule pairs_ok) (simp add: comp_def)

text \<open>Two pairs merged into the pairs of an index node between \<open>ls\<close> and \<open>rs\<close>.\<close>

lemma merge_two:
  assumes so: "seps_ok lo hi (map snd ls @ a # b # map snd rs)" and n: "length ls + length rs + 2 \<le> n"
  shows "merge_key2 (merge_key2 (pad (map entry ls @ map entry rs) n) a oa (length ls + length rs + 1)) b ob (length ls + length rs + 2)
    = pad (map entry ls @ (a, oa) # (b, ob) # map entry rs) n"
proof -
  let ?xs = "map entry ls @ map entry rs"
  have o: "seps_ok lo hi (map snd ls)" "seps_ok lo hi (map snd rs)" "lo < a" "a < b" "\<forall>x\<in>set ls. snd x < a \<and> snd x < b"
    "\<forall>x\<in>set rs. a < snd x \<and> b < snd x" "\<forall>x\<in>set ls. \<forall>y\<in>set rs. snd x < snd y"
    using so by (auto simp: seps_ok_append seps_ok_Cons)
  have k1: "keys_ok ?xs" using entries_ok [OF o(1)] entries_ok [OF o(2)] o(7) by (auto simp: keys_ok_append)
  have k2: "keys_ok (map entry ls @ (a, oa) # map entry rs)"
    using entries_ok [OF o(1)] entries_ok [OF o(2)] o by (auto simp: keys_ok_append keys_ok_Cons)
  have i1: "ins a oa ?xs = map entry ls @ (a, oa) # map entry rs" by (rule ins_split [OF k1]) (use o in auto)
  have i2: "ins b ob (map entry ls @ (a, oa) # map entry rs) = map entry ls @ (a, oa) # (b, ob) # map entry rs"
    using ins_split [of "map entry ls @ [(a, oa)]" "map entry rs" b ob] k2 o by auto
  have a: "a \<notin> fst ` set ?xs" "b \<notin> fst ` set (map entry ls @ (a, oa) # map entry rs)" using o by (auto simp: image_iff)
  have m1: "merge_key2 (pad ?xs n) a oa (length ls + length rs + 1) = pad (map entry ls @ (a, oa) # map entry rs) n"
    using merge_pad [OF k1 a(1), of n oa] n o(3) by (simp add: i1)
  have "merge_key2 (pad (map entry ls @ (a, oa) # map entry rs) n) b ob (length (map entry ls @ (a, oa) # map entry rs) + 1)
      = pad (ins b ob (map entry ls @ (a, oa) # map entry rs)) n"
    by (rule merge_pad [OF k2 a(2)]) (use n o in auto)
  moreover have "length ls + length rs + 2 = length (map entry ls @ (a, oa) # map entry rs) + 1" by simp
  ultimately show ?thesis unfolding m1 i2 by metis
qed

lemma parent_pairs_eq:
  assumes q: "index_node q qo (map entry ls @ (s, po) # map entry rs)"
    and d: "\<forall>x\<in>set ls \<union> set rs. boff (fst x) \<noteq> po"
    and so: "seps_ok lo hi (map snd ls @ mk # (if s > ck then s else ck) # map snd rs)"
    and len: "length ls + length rs < FANOUT" and c: "fst (i_pair c ! i_num c) = ck"
  shows "parent_pairs q c mk po = pad (map entry ls @ (mk, po) # (if s > ck then s else ck, i_offset c) # map entry rs) (FANOUT + 1)"
proof -
  have i: "i_num q = length ls + length rs" and tk: "take (i_num q + 1) (i_pair q) = map entry ls @ (s, po) # map entry rs"
    using q by (auto simp: index_node_def)
  have f: "filter (\<lambda>p. snd p \<noteq> po) (map entry ls @ (s, po) # map entry rs) = map entry ls @ map entry rs"
    using d by (auto simp: filter_id_conv)
  have g: "filter (\<lambda>p. snd p = po) (map entry ls @ (s, po) # map entry rs) = [(s, po)]"
    using d by (auto simp: filter_empty_conv)
  let ?ps = "map entry ls @ (mk, po) # (if s > ck then s else ck, i_offset c) # map entry rs"
  have m: "merge_key2 (merge_key2 (pad (map entry ls @ map entry rs) (FANOUT + 1)) mk po (length ls + length rs + 1))
      (if s > ck then s else ck) (i_offset c) (length ls + length rs + 2) = pad ?ps (FANOUT + 1)"
    by (rule merge_two [OF so]) (use len in simp)
  have ok: "keys_ok ?ps" by (rule pairs_ok [of lo hi]) (use so in \<open>simp add: comp_def\<close>)
  have "bubble_sort (pad ?ps (FANOUT + 1)) (length ls + length rs + 2) = pad ?ps (FANOUT + 1)"
    using bubble_sort_sorted [OF ok, of "zero_pairs (FANOUT + 1 - length ?ps)"] by (simp add: pad_def)
  moreover have "(case [(s, po)] of [] \<Rightarrow> 0 | ps \<Rightarrow> fst (last ps)) = s" by simp
  ultimately show ?thesis unfolding parent_pairs_def Let_def tk f g c unfolding i using m by (simp only:)
qed

lemma wfl_wfs: "ls \<noteq> [] \<Longrightarrow> wfl lo ls \<Longrightarrow> wfs lo (snd (last ls)) ls"
  by (induction ls arbitrary: lo) auto

lemma split_wf:
  assumes so: "seps_ok lo hi (map snd ts)" and w: "wfs lo hi ts" and len: "length ts = 338"
  shows "bwf lo (snd (last (take 169 ts))) (Nd po (take 169 ts))" "bwf (snd (last (take 169 ts))) hi (Nd so' (drop 169 ts))"
    "lo < snd (last (take 169 ts))" "snd (last (take 169 ts)) < snd (last (drop 169 ts))" "snd (last (drop 169 ts)) \<le> hi"
proof -
  define ls rs where "ls = take 169 ts" and "rs = drop 169 ts"
  have ts: "ts = ls @ rs" "length ls = 169" "length rs = 169" "ls \<noteq> []" "rs \<noteq> []" using len by (auto simp: ls_def rs_def)
  have o: "seps_ok lo hi (map snd ls)" "seps_ok lo hi (map snd rs)" "\<forall>x\<in>set ls. \<forall>y\<in>set rs. snd x < snd y"
    using so by (auto simp: ts(1) seps_ok_append)
  have ll: "last ls \<in> set ls" "last rs \<in> set rs" using ts by auto
  have lm: "snd x \<le> snd (last ls)" if "x \<in> set ls" for x
    using last_max [OF entries_ok [OF o(1)], of "entry x"] that ts(4) by (simp add: last_map)
  have w': "wfl lo ls" "wfs (snd (last ls)) hi rs" using w ts wfs_append [of rs lo hi ls] by auto
  show "bwf lo (snd (last (take 169 ts))) (Nd po (take 169 ts))" unfolding ls_def [symmetric] bwf_Nd
    using wfl_wfs [OF ts(4) w'(1)] ts(2) lm o(1) by (auto simp: seps_ok_def FANOUT_def)
  show "bwf (snd (last (take 169 ts))) hi (Nd so' (drop 169 ts))" unfolding ls_def [symmetric] rs_def [symmetric] bwf_Nd
    using w'(2) ts(3) o(2,3) ll(1) by (auto simp: seps_ok_def FANOUT_def)
  show "lo < snd (last (take 169 ts))" "snd (last (take 169 ts)) < snd (last (drop 169 ts))" "snd (last (drop 169 ts)) \<le> hi"
    unfolding ls_def [symmetric] rs_def [symmetric] using o ll by (auto simp: seps_ok_def)
qed

text \<open>What remains to be done after a node \<open>po\<close> has got the children \<open>ts\<close>, one more than
  fits perhaps: its pairs are stored or split, and the split is propagated.\<close>

definition finish :: "(nat \<Rightarrow> bool) \<Rightarrow> node \<Rightarrow> pairs \<Rightarrow> nat \<Rightarrow> bptree \<Rightarrow> bptree option" where
  "finish can_map ip arr n T = do {
     (ip2, nc, t3) \<leftarrow> bp_split_index_node can_map ip arr n T;
     t4 \<leftarrow> bp_write_node ip2 t3;
     split_up (length (m_stack t4)) can_map ip2 nc t4 }"

definition pending :: "bptree \<Rightarrow> node \<Rightarrow> pairs \<Rightarrow> (bt \<times> key) list \<Rightarrow> ctx \<Rightarrow> nat \<Rightarrow> bool" where
  "pending T ip arr ts c n \<longleftrightarrow>
     (let po = i_offset ip; X = plug (Nd po ts) c in
      (\<forall>x\<in>set ts. rep (bp_nodes T) (fst x)) \<and> repc (bp_nodes T) po c
      \<and> wfc c \<and> seps_ok (hlo c) (hhi c) (map snd ts) \<and> wfs (hlo c) (hhi c) ts \<and> 3 \<le> length ts \<and> length ts \<le> 338
      \<and> i_flag ip = 0 \<and> Suc (i_num ip) = length ts \<and> length (i_pair ip) = FANOUT \<and> (i_root ip \<longleftrightarrow> po = m_root T)
      \<and> take (length ts) arr = map entry ts
      \<and> distinct (offs X) \<and> (\<forall>o'\<in>set (offs X). node_used (m_master T) o') \<and> master_inv (m_master T)
      \<and> (\<forall>o'\<in>set (offs X). o' \<noteq> po \<longrightarrow> (i_root (bp_nodes T o') \<longleftrightarrow> o' = m_root T))
      \<and> m_root T = boff X \<and> chain (bp_nodes T) 0 (leaves X) \<and> dep n X
      \<and> m_stack T = map fst c \<and> length c + 2 \<le> avail (m_master T))"

lemma pendingD:
  assumes "pending T ip arr ts c n"
  shows "\<forall>x\<in>set ts. rep (bp_nodes T) (fst x)" "repc (bp_nodes T) (i_offset ip) c" "wfc c" "seps_ok (hlo c) (hhi c) (map snd ts)"
    "wfs (hlo c) (hhi c) ts" "3 \<le> length ts" "length ts \<le> 338" "i_flag ip = 0" "Suc (i_num ip) = length ts"
    "length (i_pair ip) = FANOUT" "i_root ip \<longleftrightarrow> i_offset ip = m_root T" "take (length ts) arr = map entry ts"
    "distinct (offs (plug (Nd (i_offset ip) ts) c))" "\<And>o'. o' \<in> set (offs (plug (Nd (i_offset ip) ts) c)) \<Longrightarrow> node_used (m_master T) o'"
    "master_inv (m_master T)"
    "\<And>o'. o' \<in> set (offs (plug (Nd (i_offset ip) ts) c)) \<Longrightarrow> o' \<noteq> i_offset ip \<Longrightarrow> i_root (bp_nodes T o') \<longleftrightarrow> o' = m_root T"
    "m_root T = boff (plug (Nd (i_offset ip) ts) c)" "chain (bp_nodes T) 0 (leaves (plug (Nd (i_offset ip) ts) c))"
    "dep n (plug (Nd (i_offset ip) ts) c)" "m_stack T = map fst c" "length c + 2 \<le> avail (m_master T)"
  using assms unfolding pending_def Let_def by blast+

definition grown :: "bptree option \<Rightarrow> bptree \<Rightarrow> pairs \<Rightarrow> nat \<Rightarrow> bool" where
  "grown r T kv n \<longleftrightarrow> (\<exists>T' b'. r = Some T' \<and> blocks_ok T' b' \<and> boff b' = m_root T' \<and> bwf 0 topkey b' \<and> kvs b' = kv
     \<and> (dep n b' \<or> dep (Suc n) b') \<and> m_key_count T' = m_key_count T)"

lemma boff_plug: "boff (plug t c) = (if c = [] then boff t else fst (last c))"
  by (induction t c rule: plug.induct) auto

lemma leaves_sub: "set (leaves t) \<subseteq> set (offs t)"
  by (induction t) (fastforce simp: prod_set_simps intro: fst_in_fsts)+

lemma ctx_leaves_sub: "set (lvl c) \<union> set (lvr c) \<subseteq> set (coffs c)"
  using leaves_sub by (induction c rule: lvl.induct) fastforce+

lemma dep_plug_iff: "dep n (plug t c) \<longleftrightarrow> length c \<le> n \<and> dep (n - length c) t \<and> depc (n - length c) c"
proof (induction c arbitrary: t)
  case (Cons f c)
  obtain o' ls s rs where f: "f = (o', ls, s, rs)" by (metis prod_cases4)
  have "dep n (plug t (f # c)) \<longleftrightarrow> length c \<le> n \<and> dep (n - length c) (Nd o' (ls @ (t, s) # rs)) \<and> depc (n - length c) c"
    using Cons.IH by (simp add: f)
  then show ?case by (cases "length c < n") (auto simp: f Suc_diff_Suc)
qed simp

lemma last_ctx_off: "c \<noteq> [] \<Longrightarrow> fst (last c) \<in> set (coffs c)"
  by (induction c rule: coffs.induct) auto

lemma dep_other_leaf: "dep n (plug (Lf o' xs) c) \<Longrightarrow> dep n (plug (Lf o' ys) c)"
  unfolding dep_plug_iff dep.simps by metis

lemma finish_fits:
  assumes p: "pending T ip arr ts c n" and len: "length ts \<le> 337"
  shows "grown (finish can_map ip arr (length ts) T) T (kvs (plug (Nd (i_offset ip) ts) c)) n"
proof -
  note p' = pendingD [OF p]
  let ?po = "i_offset ip"
  let ?X = "plug (Nd ?po ts) c"
  define ip2 where "ip2 = ip\<lparr>i_pair := take (i_num ip + 1) arr @ drop (i_num ip + 1) (i_pair ip)\<rparr>"
  define T' where "T' = T\<lparr>bp_nodes := (bp_nodes T)(?po := ip2)\<rparr>"
  have "length ts - 1 < FANOUT" using len p'(6) by (simp add: FANOUT_def)
  then have run: "finish can_map ip arr (length ts) T = Some T'"
    using p'(8) by (simp add: finish_def bp_split_index_node_def bp_write_node_def ip2_def T'_def)
  have d: "?po \<notin> set (coffs c)" "\<forall>x\<in>set ts. ?po \<notin> set (offs (fst x))" "distinct (offs ?X)"
    using p'(13) by (auto simp: distinct_plug)
  have "length (take (length ts) arr) = length ts" using p'(12) by simp
  then have idx: "index_node ip2 ?po (map entry ts)"
    using p'(8,9,10,12) len by (simp add: index_node_def ip2_def FANOUT_def min_def split: if_splits)
  have "repc (bp_nodes T') ?po c" by (rule repc_cong [OF p'(2)]) (use d in \<open>auto simp: T'_def\<close>)
  moreover have "rep (bp_nodes T') (fst x)" if "x \<in> set ts" for x
    by (rule rep_cong [of "bp_nodes T"]) (use that d p'(1) in \<open>auto simp: T'_def\<close>)
  ultimately have r: "rep (bp_nodes T') ?X" using idx by (simp add: rep_plug T'_def)
  have nl: "?po \<notin> set (leaves ?X)"
    using d leaves_sub ctx_leaves_sub [of c] by (fastforce simp: leaves_plug)
  have ch: "chain (bp_nodes T') 0 (leaves ?X)" by (rule chain_cong [OF p'(18)]) (use nl in \<open>auto simp: T'_def\<close>)
  have "i_root (bp_nodes T' o') \<longleftrightarrow> o' = m_root T'" if "o' \<in> set (offs ?X)" for o'
    using p'(11,16) that by (auto simp: T'_def ip2_def)
  then have ok: "blocks_ok T' ?X" using r ch p'(13,14,15) by (simp add: blocks_ok_def T'_def)
  have w: "bwf 0 topkey ?X" unfolding wf_plug bwf_Nd using p'(3-6) len by (simp add: FANOUT_def)
  show ?thesis unfolding grown_def run using ok w p'(17,19) by (intro exI [of _ T'] exI [of _ ?X]) (simp add: T'_def)
qed

lemma concat_halves: "concat (map f (take n ts)) @ concat (map f (drop n ts)) = concat (map f ts)"
  by (metis append_take_drop_id concat_append map_append)

lemma pad_nth: "length xs \<le> n \<Longrightarrow> i < length xs \<Longrightarrow> pad xs n ! i = xs ! i"
  by (simp add: pad_def nth_append)

lemma last_take_169: "length ts = 338 \<Longrightarrow> last (take 169 ts) = ts ! 168"
  using last_conv_nth [of "take 169 ts"] by fastforce

lemma split_index_full:
  assumes p: "pending T ip arr ts c n" and len: "length ts = 338" and map: "\<forall>b. can_map b"
  obtains so m ip1 s1 where
    "finish can_map ip arr (length ts) T = split_up (length c) can_map ip1 (Some (s1, snd (last (take 169 ts)), i_offset ip))
       (T\<lparr>m_master := m, bp_nodes := (bp_nodes T)(so := zero_node, i_offset ip := ip1)\<rparr>)"
    "index_node ip1 (i_offset ip) (map entry (take 169 ts))" "\<not> i_root ip1"
    "index_node s1 so (map entry (drop 169 ts))" "\<not> i_root s1"
    "master_inv m" "0 < so" "\<not> node_used (m_master T) so" "\<forall>k. node_used m k \<longleftrightarrow> k = so \<or> node_used (m_master T) k"
    "avail (m_master T) \<le> Suc (avail m)"
proof -
  note p' = pendingD [OF p]
  have av: "0 < avail (m_master T)" using p'(21) by simp
  obtain so m where a: "bp_alloc_node can_map INDEX_FLAG T = Some (zero_node\<lparr>i_flag := INDEX_FLAG, i_offset := so\<rparr>,
      T\<lparr>m_master := m, bp_nodes := (bp_nodes T)(so := zero_node)\<rparr>)" "master_inv m" "0 < so" "\<not> node_used (m_master T) so"
    "\<forall>k. node_used m k \<longleftrightarrow> k = so \<or> node_used (m_master T) k" "avail (m_master T) \<le> Suc (avail m)"
    by (rule alloc_node_spec [where fl = INDEX_FLAG, OF p'(15) av map])
  define ip1 where "ip1 = ip\<lparr>i_root := False, i_num := 168, i_pair := pad (take 169 arr) FANOUT\<rparr>"
  define s1 where "s1 = zero_node\<lparr>i_flag := INDEX_FLAG, i_offset := so, i_num := 168,
    i_pair := take 169 (drop 169 arr) @ drop 169 (zero_pairs FANOUT)\<rparr>"
  have la: "338 \<le> length arr" using p'(12) len by (metis length_map length_take min.cobounded1)
  have "take 169 arr = take 169 (take (length ts) arr)" using len by simp
  then have t1: "take 169 arr = map entry (take 169 ts)" by (simp only: p'(12) take_map)
  have t2: "take 169 (drop 169 arr) = map entry (drop 169 ts)"
    using arg_cong [OF p'(12), of "drop 169"] len by (simp add: drop_take drop_map)
  have "arr ! 168 = take (length ts) arr ! 168" using len by simp
  then have "arr ! 168 = map entry ts ! 168" by (simp only: p'(12))
  then have md: "fst (arr ! 168) = snd (last (take 169 ts))" using len by (simp add: last_take_169)
  have run: "bp_split_index_node can_map ip arr (length ts) T = Some (ip1, Some (s1, snd (last (take 169 ts)), i_offset ip),
      T\<lparr>m_master := m, bp_nodes := (bp_nodes T)(so := zero_node)\<rparr>)"
    using md by (simp add: bp_split_index_node_def a(1) len FANOUT_def ip1_def s1_def Let_def)
      (simp add: zero_node_def FANOUT_def)
  have "finish can_map ip arr (length ts) T = split_up (length c) can_map ip1 (Some (s1, snd (last (take 169 ts)), i_offset ip))
       (T\<lparr>m_master := m, bp_nodes := (bp_nodes T)(so := zero_node, i_offset ip := ip1)\<rparr>)"
    using p'(8,20) by (simp add: finish_def run bp_write_node_def ip1_def)
  moreover have "index_node ip1 (i_offset ip) (map entry (take 169 ts))"
    using p'(8) la len t1 by (simp add: index_node_def ip1_def pad_def zero_pairs_def FANOUT_def)
  moreover have "index_node s1 so (map entry (drop 169 ts))"
    using la len t2 by (simp add: index_node_def s1_def zero_pairs_def FANOUT_def INDEX_FLAG_def)
  moreover have "\<not> i_root ip1" "\<not> i_root s1" by (simp_all add: ip1_def s1_def zero_node_def)
  ultimately show thesis using that a(2-6) by blast
qed

lemma alloc_keeps_stack: "bp_alloc_node can_map fl T = Some (x, T') \<Longrightarrow> m_stack T' = m_stack T"
  by (auto simp: bp_alloc_node_def split: bind_splits)

lemma finish_alt:
  "finish can_map ip arr n T = do {
     (ip2, nc, t3) \<leftarrow> bp_split_index_node can_map ip arr n T;
     t4 \<leftarrow> bp_write_node ip2 t3;
     split_up (length (m_stack T)) can_map ip2 nc t4 }"
proof (cases "bp_split_index_node can_map ip arr n T")
  case (Some r)
  obtain ip2 nc t3 where r: "r = (ip2, nc, t3)" by (metis prod_cases3)
  have "m_stack t3 = m_stack T"
    using Some unfolding r bp_split_index_node_def
    by (auto simp: Let_def split: if_splits bind_splits dest: alloc_keeps_stack)
  then show ?thesis using Some by (simp add: finish_def r bp_write_node_def assert_opt_def)
qed (simp add: finish_def)

lemma index_last_key:
  assumes "index_node n o' ps" "2 \<le> length ps"
  shows "last_key n = fst (ps ! (length ps - 2))" "i_pair n ! i_num n = last ps"
proof -
  have nth: "i_pair n ! i = ps ! i" if "i < length ps" for i using assms(1) that by (metis index_node_def nth_take)
  have "i_num n - 1 = length ps - 2" using assms by (auto simp: index_node_def)
  then show "last_key n = fst (ps ! (length ps - 2))" using assms(2) nth [of "length ps - 2"] by (simp add: last_key_def)
  have "i_num n = length ps - 1" using assms(1) by (auto simp: index_node_def)
  then show "i_pair n ! i_num n = last ps" using nth [of "length ps - 1"] assms(2) by (cases ps) (simp_all add: last_conv_nth)
qed

lemma zero_pairs_two: "zero_pairs FANOUT = (0, 0) # (0, 0) # zero_pairs 335"
proof -
  have "(337::nat) = Suc (Suc 335)" by simp
  then show ?thesis unfolding zero_pairs_def FANOUT_def by (simp only: replicate_Suc)
qed

lemma length_zero_pairs [simp]: "length (zero_pairs n) = n"
  by (simp add: zero_pairs_def)

lemma root_split:
  assumes p: "pending T ip arr ts [] n" and len: "length ts = 338" and map: "\<forall>b. can_map b"
  shows "grown (finish can_map ip arr (length ts) T) T (kvs (Nd (i_offset ip) ts)) n"
proof -
  note p' = pendingD [OF p, unfolded plug.simps hlo.simps hhi.simps]
  define po where "po = i_offset ip"
  obtain so m ip1 s1 where st: "finish can_map ip arr (length ts) T
      = split_up 0 can_map ip1 (Some (s1, snd (last (take 169 ts)), po)) (T\<lparr>m_master := m, bp_nodes := (bp_nodes T)(so := zero_node, po := ip1)\<rparr>)"
    and ip1: "index_node ip1 po (map entry (take 169 ts))" "\<not> i_root ip1"
    and s1: "index_node s1 so (map entry (drop 169 ts))" "\<not> i_root s1"
    and m: "master_inv m" "0 < so" "\<not> node_used (m_master T) so" "\<forall>k. node_used m k \<longleftrightarrow> k = so \<or> node_used (m_master T) k"
      "avail (m_master T) \<le> Suc (avail m)"
    by (rule split_index_full [OF p len map, unfolded list.size(3), folded po_def])
  define T4 where "T4 = T\<lparr>m_master := m, bp_nodes := (bp_nodes T)(so := zero_node, po := ip1)\<rparr>"
  define mk where "mk = snd (last (take 169 ts))"
  have av: "0 < avail (m_master T4)" using p'(21) m(5) by (simp add: T4_def)
  have mi: "master_inv (m_master T4)" using m(1) by (simp add: T4_def)
  obtain ro m2 where a: "bp_alloc_node can_map INDEX_FLAG T4 = Some (zero_node\<lparr>i_flag := INDEX_FLAG, i_offset := ro\<rparr>,
      T4\<lparr>m_master := m2, bp_nodes := (bp_nodes T4)(ro := zero_node)\<rparr>)" "master_inv m2" "0 < ro" "\<not> node_used (m_master T4) ro"
    "\<forall>k. node_used m2 k \<longleftrightarrow> k = ro \<or> node_used (m_master T4) k" "avail (m_master T4) \<le> Suc (avail m2)"
    by (rule alloc_node_spec [where fl = INDEX_FLAG, OF mi av map])
  note w = split_wf(1) [OF p'(4,5) len, of po, folded mk_def] split_wf(2) [OF p'(4,5) len, of so, folded mk_def]
    split_wf(3-5) [OF p'(4,5) len, folded mk_def]
  have l169: "length (take 169 ts) = 169" "length (drop 169 ts) = 169" using len by simp_all
  have k1: "last_key ip1 = snd (ts ! 167)" using index_last_key(1) [OF ip1(1)] len by simp
  have k2: "last_key s1 = snd (ts ! 336)" using index_last_key(1) [OF s1(1)] len by simp
  have nth: "snd (ts ! i) < snd (ts ! j)" if "i < j" "j < 338" for i j
    using p'(4) that len by (auto simp: seps_ok_def sorted_wrt_iff_nth_less)
  have mk': "mk = snd (ts ! 168)" using len by (simp add: mk_def last_take_169)
  have kk: "last_key ip1 < last_key s1" "mk < last_key s1" unfolding k1 k2 mk' by (rule nth; simp)+
  have top: "last_key s1 \<le> topkey" unfolding k2 using p'(4) len nth_mem [of 336 ts] by (auto simp: seps_ok_def)
  define rt where "rt = zero_node\<lparr>i_flag := INDEX_FLAG, i_offset := ro, i_root := True, i_num := 1,
      i_pair := (zero_pairs FANOUT)[0 := (mk, po), 1 := (last_key s1, so)]\<rparr>"
  define T' where "T' = T4\<lparr>m_master := m2, m_root := ro, bp_nodes := (bp_nodes T4)(ro := rt, po := ip1, so := s1)\<rparr>"
  have off: "i_offset ip1 = po" "i_offset s1 = so" "i_flag ip1 = 0" "i_flag s1 = 0" "ip1\<lparr>i_root := False\<rparr> = ip1" "s1\<lparr>i_root := False\<rparr> = s1"
    using ip1 s1 by (auto simp: index_node_def)
  have run: "finish can_map ip arr (length ts) T = Some T'"
    using kk(1) off unfolding st T4_def [symmetric] mk_def [symmetric]
    by (simp add: new_root_def a(1) [unfolded INDEX_FLAG_def zero_node_def] Let_def bp_write_node_def T'_def rt_def INDEX_FLAG_def zero_node_def)
  define b' where "b' = Nd ro [(Nd po (take 169 ts), mk), (Nd so (drop 169 ts), last_key s1)]"
  have used: "node_used (m_master T) o'" if "o' \<in> insert po (set (concat (map (\<lambda>x. offs (fst x)) ts)))" for o'
    using p'(14) [of o'] that by (simp add: po_def)
  have fresh: "so \<notin> insert po (set (concat (map (\<lambda>x. offs (fst x)) ts)))" "ro \<notin> insert so (insert po (set (concat (map (\<lambda>x. offs (fst x)) ts))))"
    using used m(3,4) a(4) by (auto simp: T4_def simp del: set_concat)
  have d: "distinct (po # concat (map (\<lambda>x. offs (fst x)) ts))" using p'(13) by (simp add: po_def)
  have subs: "x \<in> set ts" if "x \<in> set (take 169 ts) \<union> set (drop 169 ts)" for x using that by (meson UnE in_set_dropD in_set_takeD)
  have same: "bp_nodes T' o' = bp_nodes T o'" if "x \<in> set ts" "o' \<in> set (offs (fst x))" for x o'
    using that fresh d by (auto simp: T'_def T4_def)
  have rx: "rep (bp_nodes T') (fst x)" if "x \<in> set (take 169 ts) \<union> set (drop 169 ts)" for x
    by (rule rep_cong [of "bp_nodes T"]) (use p'(1) subs [OF that] same in auto)
  have at: "bp_nodes T' ro = rt" "bp_nodes T' po = ip1" "bp_nodes T' so = s1" using fresh by (auto simp: T'_def)
  have "index_node rt ro [(mk, po), (last_key s1, so)]"
    by (simp add: index_node_def rt_def INDEX_FLAG_def zero_pairs_two) (simp add: FANOUT_def)
  then have r: "rep (bp_nodes T') b'" using rx ip1(1) s1(1) at by (auto simp: b'_def)
  have mo: "mset (offs b') = mset (ro # so # po # concat (map (\<lambda>x. offs (fst x)) ts))"
    using arg_cong [OF concat_halves [of "\<lambda>x. offs (fst x)" 169 ts], of mset] by (simp add: b'_def)
  have dis: "distinct (offs b')" using mset_eq_imp_distinct_iff [OF mo] d fresh by simp
  have so: "set (offs b') = insert ro (insert so (insert po (set (concat (map (\<lambda>x. offs (fst x)) ts)))))"
    using mset_eq_setD [OF mo] by simp
  have us: "\<forall>o'\<in>set (offs b'). node_used (m_master T') o'" using used m(4) a(5) by (auto simp: so T'_def T4_def simp del: set_concat)
  have rts: "i_root (bp_nodes T' o') \<longleftrightarrow> o' = m_root T'" if oin: "o' \<in> set (offs b')" for o'
  proof -
    consider "o' = ro" | "o' = so" | "o' = po" | x where "x \<in> set ts" "o' \<in> set (offs (fst x))" using oin by (auto simp: so)
    then show ?thesis
    proof cases
      case 4
      then have "o' \<noteq> po" "o' \<noteq> ro" using d fresh by auto
      then show ?thesis using 4 same [OF 4] p'(16) [of o'] p'(17) by (auto simp: T'_def T4_def po_def)
    qed (use at ip1(2) s1(2) fresh in \<open>auto simp: T'_def rt_def\<close>)
  qed
  have lv: "leaves b' = leaves (Nd po ts)" using concat_halves [of "\<lambda>x. leaves (fst x)" 169 ts] by (simp add: b'_def)
  have "chain (bp_nodes T') 0 (leaves b')" unfolding lv
    by (rule chain_cong [OF p'(18), folded po_def]) (use same leaves_sub in fastforce)
  then have ok: "blocks_ok T' b'" using r dis us rts a(2) by (simp add: blocks_ok_def T'_def)
  have wf': "bwf 0 topkey b'" using w kk(2) top by (auto simp: b'_def bwf_Nd seps_ok_def FANOUT_def)
  have dp: "dep (Suc n) b'" using p'(19) subs by (auto simp: b'_def po_def)
  have kv: "kvs b' = kvs (Nd (i_offset ip) ts)" using concat_halves [of "\<lambda>x. kvs (fst x)" 169 ts] by (simp add: b'_def)
  have rest: "boff b' = m_root T'" "m_key_count T' = m_key_count T" by (simp_all add: b'_def T'_def T4_def)
  show ?thesis unfolding grown_def run using ok wf' dp kv rest by blast
qed

text \<open>One round of the loop: the split of \<open>po\<close> becomes an insertion into its parent.\<close>

lemma frame_seps:
  assumes w: "wfc ((qo, ls, s, rs) # c)" and lt: "hlo ((qo, ls, s, rs) # c) < mk" "mk < ck" "ck \<le> hhi ((qo, ls, s, rs) # c)"
  shows "seps_ok (hlo c) (hhi c) (map snd ls @ mk # (if s > ck then s else ck) # map snd rs)"
proof -
  have so: "seps_ok (hlo c) (hhi c) (map snd ls @ s # map snd rs)" using w by simp
  have o: "seps_ok (hlo c) (hhi c) (map snd ls)" "seps_ok (hlo c) (hhi c) (map snd rs)" "s \<le> hhi c" "hlo c < s"
    "\<forall>x\<in>set ls. \<forall>y\<in>set rs. snd x < snd y" "\<forall>x\<in>set ls. snd x < s" "\<forall>y\<in>set rs. s < snd y"
    using so by (auto simp: seps_ok_append seps_ok_Cons)
  have ls: "snd x < mk" if "x \<in> set ls" for x
  proof -
    have "snd x \<le> snd (last ls)" using last_max [OF entries_ok [OF o(1)], of "entry x"] that by (cases "ls = []") (auto simp: last_map)
    then show ?thesis using lt(1) that by (cases "ls = []") auto
  qed
  have lo: "hlo c < mk"
  proof (cases "ls = []")
    case False
    then have "hlo c < snd (last ls)" using o(1) by (auto simp: seps_ok_def)
    then show ?thesis using lt(1) False by simp
  qed (use lt in simp)
  define b where "b = (if s > ck then s else ck)"
  have b: "mk < b" "b \<le> hhi c" "rs \<noteq> [] \<Longrightarrow> b = s" "b \<ge> s"
    using lt o(3) by (auto simp: b_def split: if_splits)
  have rs: "\<forall>y\<in>set rs. b < snd y" using b(3) o(7) by (cases "rs = []") auto
  have "\<forall>x\<in>set ls. snd x < b" using o(6) b(4) by auto
  moreover have "mk \<le> hhi c" "hlo c < b" using b(1,2) lo by auto
  moreover have "\<forall>y\<in>set rs. mk < snd y" using rs b(1) by auto
  ultimately show ?thesis unfolding b_def [symmetric] using o(1,2,5) ls lo b rs by (auto simp: seps_ok_append seps_ok_Cons)
qed

lemma pending_up:
  assumes p: "pending T ip arr ts ((qo, ls, s, rs) # c) n" and len: "length ts = 338" and map: "\<forall>b. can_map b"
  obtains T5 q arr' tl tr mk sk where
    "finish can_map ip arr (length ts) T = finish can_map q arr' (length (ls @ (tl, mk) # (tr, sk) # rs)) T5"
    "pending T5 q arr' (ls @ (tl, mk) # (tr, sk) # rs) c n" "i_offset q = qo" "m_key_count T5 = m_key_count T"
    "kvs tl @ kvs tr = kvs (Nd (i_offset ip) ts)"
proof -
  define po where "po = i_offset ip"
  define Os where "Os = offs (plug (Nd po ts) ((qo, ls, s, rs) # c))"
  note p' = pendingD [OF p, folded po_def, folded Os_def]
  obtain so m ip1 s1 where st: "finish can_map ip arr (length ts) T
      = split_up (length ((qo, ls, s, rs) # c)) can_map ip1 (Some (s1, snd (last (take 169 ts)), po)) (T\<lparr>m_master := m, bp_nodes := (bp_nodes T)(so := zero_node, po := ip1)\<rparr>)"
    and ip1: "index_node ip1 po (map entry (take 169 ts))" "\<not> i_root ip1"
    and s1: "index_node s1 so (map entry (drop 169 ts))" "\<not> i_root s1"
    and m: "master_inv m" "0 < so" "\<not> node_used (m_master T) so" "\<forall>k. node_used m k \<longleftrightarrow> k = so \<or> node_used (m_master T) k"
      "avail (m_master T) \<le> Suc (avail m)"
    by (rule split_index_full [OF p len map, folded po_def])
  let ?c = "(qo, ls, s, rs) # c"
  define mk where "mk = snd (last (take 169 ts))"
  define ck where "ck = snd (last (drop 169 ts))"
  define sk where "sk = (if s > ck then s else ck)"
  define q0 where "q0 = bp_nodes T qo"
  define q where "q = q0\<lparr>i_num := i_num q0 + 1\<rparr>"
  define T5 where "T5 = T\<lparr>m_master := m, m_stack := map fst c, bp_nodes := (bp_nodes T)(po := ip1, so := s1)\<rparr>"
  define tl where "tl = Nd po (take 169 ts)"
  define tr where "tr = Nd so (drop 169 ts)"
  define ts2 where "ts2 = ls @ (tl, mk) # (tr, sk) # rs"
  note w = split_wf(1) [OF p'(4,5) len, of po, folded mk_def tl_def] split_wf(2) [OF p'(4,5) len, of so, folded mk_def tr_def]
    split_wf(3-5) [OF p'(4,5) len, folded mk_def ck_def]
  have rc: "index_node q0 qo (map entry ls @ (s, po) # map entry rs)" "\<forall>x\<in>set ls. rep (bp_nodes T) (fst x)"
    "\<forall>x\<in>set rs. rep (bp_nodes T) (fst x)" "repc (bp_nodes T) qo c"
    using p'(2) by (simp_all add: q0_def)
  have O: "set Os = insert po (set (concat (map (\<lambda>x. offs (fst x)) ts))) \<union> set (coffs ?c)"
    using set_offs_plug [of "Nd po ts" ?c] by (simp only: offs.simps list.set Os_def)
  have used: "node_used (m_master T) o'" if "o' \<in> set Os" for o' using p'(14) that .
  have fresh: "so \<notin> set Os" using used m(3) by blast
  have d: "distinct ((po # concat (map (\<lambda>x. offs (fst x)) ts)) @ coffs ?c)"
    using p'(13) distinct_plug [of "Nd po ts" ?c] by (simp only: offs.simps Os_def)
  have nz: "qo \<noteq> 0" "qo \<noteq> po" "qo \<noteq> so" using used [of qo] d fresh by (auto simp: O node_used_def simp del: set_concat)
  have off: "i_offset ip1 = po" "i_offset s1 = so" "i_flag s1 = 0" "i_offset q0 = qo" "i_flag q0 = 0"
    using ip1 s1 rc(1) by (auto simp: index_node_def)
  have seps: "seps_ok (hlo c) (hhi c) (map snd ls @ mk # sk # map snd rs)"
    unfolding sk_def by (rule frame_seps [OF p'(3)]) (use w in auto)
  have lens: "1 \<le> length ls + length rs" "length ls + length rs < FANOUT" "wfc c" "wfl (hlo c) ls" "wfs s (hhi c) rs"
    using p'(3) by auto
  have qn: "i_num q0 = length ls + length rs" using rc(1) by (auto simp: index_node_def)
  have l2: "length ts2 = length ls + length rs + 2" by (simp add: ts2_def)
  have "\<forall>x\<in>set ls \<union> set rs. boff (fst x) \<noteq> po"
    using d boff_in_offs by auto
  then have pp: "parent_pairs q0 s1 mk po = pad (map entry ls @ (mk, po) # (sk, i_offset s1) # map entry rs) (FANOUT + 1)"
    unfolding sk_def
  proof (rule parent_pairs_eq [OF rc(1)])
    show "seps_ok (hlo c) (hhi c) (map snd ls @ mk # (if ck < s then s else ck) # map snd rs)" using seps by (simp add: sk_def)
    have "drop 169 ts \<noteq> []" using len by auto
    then show "fst (i_pair s1 ! i_num s1) = ck" using index_last_key(2) [OF s1(1)] len by (simp add: ck_def last_map)
  qed (rule lens(2))
  have ent: "map entry ts2 = map entry ls @ (mk, po) # (sk, i_offset s1) # map entry rs" by (simp add: ts2_def tl_def tr_def off)
  have run: "finish can_map ip arr (length ts) T = finish can_map q (parent_pairs q0 s1 mk po) (length ts2) T5"
  proof -
    have "finish can_map q (parent_pairs q0 s1 mk po) (length ts2) T5 = do {
        (ip2, nc, t3) \<leftarrow> bp_split_index_node can_map q (parent_pairs q0 s1 mk po) (i_num q0 + 2) T5;
        t4 \<leftarrow> bp_write_node ip2 t3;
        split_up (length c) can_map ip2 nc t4 }"
      unfolding finish_alt by (simp add: T5_def l2 qn)
    moreover have "(bp_nodes T)(so := zero_node, po := ip1, so := s1) = (bp_nodes T)(po := ip1, so := s1)"
      using fresh by (auto simp: O fun_eq_iff simp del: set_concat)
    ultimately show ?thesis unfolding st using ip1(2) p'(20) nz off
      by (simp add: stack_pop_def bp_read_node_def Let_def bp_write_node_def mk_def [symmetric] q0_def [symmetric] q_def T5_def)
  qed
  have same: "bp_nodes T5 o' = bp_nodes T o'" if "o' \<in> set (concat (map (\<lambda>x. offs (fst x)) ts)) \<union> set (coffs ?c)" for o'
    using that d fresh by (auto simp: T5_def O simp del: set_concat)
  have at: "bp_nodes T5 po = ip1" "bp_nodes T5 so = s1" using fresh by (auto simp: T5_def O)
  have subs: "x \<in> set ts" if "x \<in> set (take 169 ts) \<union> set (drop 169 ts)" for x using that by (meson UnE in_set_dropD in_set_takeD)
  have rx: "rep (bp_nodes T5) (fst x)" if "x \<in> set ts \<union> set ls \<union> set rs" for x
  proof (rule rep_cong [of "bp_nodes T"])
    show "rep (bp_nodes T) (fst x)" using p'(1) rc(2,3) that by blast
    fix o' assume "o' \<in> set (offs (fst x))"
    then have "bp_nodes T5 o' = bp_nodes T o'" using that by (intro same) auto
    then show "same_node (bp_nodes T o') (bp_nodes T5 o')" by simp
  qed
  have reps: "\<forall>x\<in>set ts2. rep (bp_nodes T5) (fst x)"
    using rx subs ip1(1) s1(1) at by (auto simp: ts2_def tl_def tr_def)
  have rcc: "repc (bp_nodes T5) qo c" by (rule repc_cong [OF rc(4)]) (use same in auto)
  have wfs2: "wfs (hlo c) (hhi c) ts2"
  proof -
    have "wfs sk (hhi c) rs"
    proof (cases "rs = []")
      case False
      then have "sk = s" using w(5) by (simp add: sk_def)
      then show ?thesis using lens(5) by simp
    qed simp
    moreover have "bwf mk (if rs = [] then hhi c else sk) tr"
    proof (cases "rs = []")
      case False
      then have "sk = s" using w(5) by (simp add: sk_def)
      then show ?thesis using w(2) False by simp
    qed (use w(2) in simp)
    ultimately show ?thesis unfolding ts2_def wfs_split using w(1) lens(4) by simp
  qed
  have mo: "mset (offs (plug (Nd qo ts2) c)) = mset (so # Os)"
    using arg_cong [OF concat_halves [of "\<lambda>x. offs (fst x)" 169 ts], of mset]
    by (simp add: offs_plug ts2_def tl_def tr_def Os_def)
  have dis: "distinct (offs (plug (Nd qo ts2) c))" using mset_eq_imp_distinct_iff [OF mo] p'(13) fresh by simp
  have os: "set (offs (plug (Nd qo ts2) c)) = insert so (set Os)" using mset_eq_setD [OF mo] by simp
  have lv: "leaves (plug (Nd qo ts2) c) = leaves (plug (Nd po ts) ?c)"
    using concat_halves [of "\<lambda>x. leaves (fst x)" 169 ts] by (simp add: leaves_plug ts2_def tl_def tr_def)
  have ch: "chain (bp_nodes T5) 0 (leaves (plug (Nd qo ts2) c))" unfolding lv
  proof (rule chain_cong [OF p'(18)])
    fix o' assume "o' \<in> set (leaves (plug (Nd po ts) ?c))"
    then have "o' \<in> set (concat (map (\<lambda>x. offs (fst x)) ts)) \<union> set (coffs ?c)"
      unfolding leaves_plug using leaves_sub ctx_leaves_sub [of ?c] by (fastforce simp del: lvl.simps lvr.simps coffs.simps)
    then show "i_prev_node (bp_nodes T5 o') = i_prev_node (bp_nodes T o') \<and> i_next_node (bp_nodes T5 o') = i_next_node (bp_nodes T o')"
      using same by simp
  qed
  have dp: "dep n (plug (Nd qo ts2) c)"
    using p'(19) subs unfolding dep_plug_iff by (auto simp: ts2_def tl_def tr_def Suc_diff_Suc)
  have mr: "m_root T = boff (plug (Nd qo ts2) c)" using p'(17) by (simp add: boff_plug split: if_splits)
  have mrO: "m_root T \<in> set (coffs ?c)"
    using mr last_ctx_off [of c] by (auto simp: boff_plug)
  have rts: "i_root (bp_nodes T5 o') \<longleftrightarrow> o' = m_root T" if oin: "o' \<in> set (offs (plug (Nd qo ts2) c))" "o' \<noteq> qo" for o'
  proof -
    consider "o' = so" | "o' = po" | "o' \<noteq> so" "o' \<noteq> po" "o' \<in> set Os" using oin(1) by (auto simp: os)
    then show ?thesis
    proof cases
      case 1
      then show ?thesis using at s1(2) fresh mrO by (auto simp: O simp del: set_concat)
    next
      case 2
      then show ?thesis using at ip1(2) d mrO by auto
    next
      case 3
      then show ?thesis using p'(16) [of o'] by (simp add: T5_def)
    qed
  qed
  have rq: "i_root q \<longleftrightarrow> qo = m_root T"
    using p'(16) [of qo] nz by (simp add: q_def q0_def O)
  have pend: "pending T5 q (parent_pairs q0 s1 mk po) ts2 c n" unfolding pending_def Let_def
  proof (intro conjI)
    show "i_root q \<longleftrightarrow> i_offset q = m_root T5" using rq off by (simp add: q_def T5_def)
    show "take (length ts2) (parent_pairs q0 s1 mk po) = map entry ts2" unfolding pp ent [symmetric] by (simp add: pad_def)
    show "\<forall>o'\<in>set (offs (plug (Nd (i_offset q) ts2) c)). node_used (m_master T5) o'"
      using used m(4) off by (auto simp: q_def os T5_def)
    show "\<forall>o'\<in>set (offs (plug (Nd (i_offset q) ts2) c)). o' \<noteq> i_offset q \<longrightarrow> (i_root (bp_nodes T5 o') \<longleftrightarrow> o' = m_root T5)"
      using rts off by (simp add: q_def) (simp add: T5_def)
    show "length c + 2 \<le> avail (m_master T5)" using p'(21) m(5) by (simp add: T5_def)
    show "seps_ok (hlo c) (hhi c) (map snd ts2)" using seps by (simp add: ts2_def)
    show "m_root T5 = boff (plug (Nd (i_offset q) ts2) c)" using mr off by (simp add: q_def T5_def)
    show "length (i_pair q) = FANOUT" using rc(1) by (simp add: q_def index_node_def)
  qed (use reps rcc lens wfs2 l2 qn dis ch dp m(1) off in \<open>auto simp: q_def T5_def FANOUT_def\<close>)
  have kv: "kvs tl @ kvs tr = kvs (Nd po ts)"
    using concat_halves [of "\<lambda>x. kvs (fst x)" 169 ts] by (simp add: tl_def tr_def)
  have "i_offset q = qo" "m_key_count T5 = m_key_count T" using off by (simp_all add: q_def T5_def)
  then show thesis using that [OF _ _ _ _ kv [unfolded po_def], of q "parent_pairs q0 s1 mk po" mk sk T5] run pend unfolding ts2_def by blast
qed

lemma finish_correct:
  assumes "pending T ip arr ts c n" "\<forall>b. can_map b"
  shows "grown (finish can_map ip arr (length ts) T) T (kvs (plug (Nd (i_offset ip) ts) c)) n"
  using assms(1)
proof (induction c arbitrary: T ip arr ts)
  case Nil
  show ?case
  proof (cases "length ts \<le> 337")
    case True
    then show ?thesis by (rule finish_fits [OF Nil])
  next
    case False
    then have "length ts = 338" using pendingD(7) [OF Nil] by simp
    from root_split [OF Nil this assms(2)] show ?thesis by simp
  qed
next
  case (Cons f c)
  show ?case
  proof (cases "length ts \<le> 337")
    case True
    then show ?thesis by (rule finish_fits [OF Cons.prems])
  next
    case False
    then have len: "length ts = 338" using pendingD(7) [OF Cons.prems] by simp
    obtain qo ls s rs where f: "f = (qo, ls, s, rs)" by (metis prod_cases4)
    obtain T5 q arr' tl tr mk sk where
      up: "finish can_map ip arr (length ts) T = finish can_map q arr' (length (ls @ (tl, mk) # (tr, sk) # rs)) T5"
      "pending T5 q arr' (ls @ (tl, mk) # (tr, sk) # rs) c n" "i_offset q = qo" "m_key_count T5 = m_key_count T"
      "kvs tl @ kvs tr = kvs (Nd (i_offset ip) ts)"
      by (rule pending_up [OF Cons.prems [unfolded f] len assms(2)])
    have "kvs (plug (Nd (i_offset q) (ls @ (tl, mk) # (tr, sk) # rs)) c) = kvs (plug (Nd (i_offset ip) ts) (f # c))"
      using up(5) by (simp add: f kvs_plug up(3))
    then show ?thesis using Cons.IH [OF up(2)] unfolding up(1) grown_def up(4) by simp
  qed
qed

section \<open>Splitting a leaf below the root\<close>

lemma lower_mono:
  "bwf lo hi t \<Longrightarrow> lo' \<le> lo \<Longrightarrow> bwf lo' hi t"
  "wfs lo hi ts \<Longrightarrow> lo' \<le> lo \<Longrightarrow> wfs lo' hi ts"
  by (induction lo hi t and lo hi ts arbitrary: lo' and lo' rule: bwf_wfs.induct) (fastforce simp: le_less_trans)+

lemma rep_leaf:
  "rep st t \<Longrightarrow> o' \<in> set (leaves t) \<Longrightarrow> i_flag (st o') = 1 \<and> i_offset (st o') = o'"
proof (induction t)
  case (Nd o2 ts)
  then obtain x where "x \<in> set ts" "o' \<in> set (leaves (fst x))" by auto
  then show ?case using Nd.IH [OF _ fst_in_fsts, of x] Nd.prems(1) by auto
qed (simp add: leaf_node_def)

lemma find_app: "find P (xs @ ys) = (case find P xs of None \<Rightarrow> find P ys | Some x \<Rightarrow> Some x)"
  by (induction xs) auto

lemma filter_keys_ok: "keys_ok ps \<Longrightarrow> filter (\<lambda>p. fst p \<noteq> 0) ps = ps"
  by (auto simp: keys_ok_def filter_id_conv image_iff)

lemma forget_child_eq:
  assumes n: "index_node n o' (map entry ls @ (s, po) # map entry rs)" and d: "\<forall>x\<in>set ls. boff (fst x) \<noteq> po"
  shows "forget_child po n = n\<lparr>i_pair := (i_pair n)[length ls := (0, 0)]\<rparr>"
proof -
  have nth: "i_pair n ! i = (map entry ls @ (s, po) # map entry rs) ! i" if "i \<le> length ls + length rs" for i
  proof -
    have "take (Suc (length ls + length rs)) (i_pair n) = map entry ls @ (s, po) # map entry rs"
      using n by (simp add: index_node_def)
    then show ?thesis using that by (metis le_imp_less_Suc nth_take)
  qed
  have num: "i_num n = length ls + length rs" using n by (simp add: index_node_def)
  have before: "snd (i_pair n ! i) \<noteq> po" if "i < length ls" for i
    using nth [of i] that d by (simp add: nth_append)
  have at: "snd (i_pair n ! length ls) = po" using nth [of "length ls"] by (simp add: nth_append)
  have "[0..<i_num n + 1] = [0..<length ls] @ length ls # [Suc (length ls)..<i_num n + 1]"
    using upt_add_eq_append [of 0 "length ls" "length rs + 1"] upt_conv_Cons [of "length ls" "i_num n + 1"] num by simp
  moreover have "find (\<lambda>i. snd (i_pair n ! i) = po) [0..<length ls] = None" using before by (simp add: find_None_iff)
  ultimately have "find (\<lambda>i. snd (i_pair n ! i) = po) [0..<i_num n + 1] = Some (length ls)"
    using at by (simp only: find_app option.case find.simps refl if_True)
  then show ?thesis by (simp add: forget_child_def)
qed

lemma kept_eq:
  assumes n: "index_node n o' (map entry ls @ (s, po) # map entry rs)" and so: "seps_ok lo hi (map snd ls @ s # map snd rs)"
  shows "filter (\<lambda>p. fst p \<noteq> 0) (take (i_num n + 1) ((i_pair n)[length ls := (0, 0)])) = map entry ls @ map entry rs"
proof -
  have num: "i_num n + 1 = Suc (length ls + length rs)" using n by (simp add: index_node_def)
  have tk: "take (Suc (length ls + length rs)) (i_pair n) = map entry ls @ (s, po) # map entry rs" using n by (simp add: index_node_def)
  have eq: "take (i_num n + 1) ((i_pair n)[length ls := (0, 0)]) = map entry ls @ (0, 0) # map entry rs"
    unfolding num take_update_swap tk by (simp add: list_update_append)
  have "seps_ok lo hi (map snd ls)" "seps_ok lo hi (map snd rs)" using so by (auto simp: seps_ok_append seps_ok_Cons)
  then have "filter (\<lambda>p. fst p \<noteq> 0) (map entry ls) = map entry ls" "filter (\<lambda>p. fst p \<noteq> 0) (map entry rs) = map entry rs"
    by (blast intro: filter_keys_ok entries_ok)+
  then show ?thesis unfolding eq by simp
qed

lemma leaf_seps:
  assumes w: "wfc ((qo, ls, s, rs) # c)" and lt: "hlo ((qo, ls, s, rs) # c) < mk" "mk < ck" "ck \<le> hhi ((qo, ls, s, rs) # c)"
  shows "seps_ok (hlo c) (hhi c) (map snd ls @ mk # ck # map snd rs)"
proof -
  have f: "seps_ok (hlo c) (hhi c) (map snd ls @ mk # (if s > ck then s else ck) # map snd rs)" by (rule frame_seps [OF w lt])
  show ?thesis
  proof (cases "s > ck")
    case True
    then have "seps_ok (hlo c) (hhi c) (map snd ls @ mk # s # map snd rs)" using f by simp
    then show ?thesis using True lt(2) by (auto simp: seps_ok_append seps_ok_Cons)
  qed (use f in simp)
qed

text \<open>The blocks after a leaf \<open>o'\<close> has been split: the left half stays, \<open>r\<close> gets the right
  half, and the leaf after it points back to \<open>r\<close>.\<close>

definition split_store :: "(nat \<Rightarrow> node) \<Rightarrow> nat \<Rightarrow> nat \<Rightarrow> pairs \<Rightarrow> pairs \<Rightarrow> nat \<Rightarrow> node" where
  "split_store st o' r xs ys =
    (let nx = i_next_node (st o');
         st1 = st(r := zero_node);
         st2 = (if nx = 0 then st1 else st1(nx := (st1 nx)\<lparr>i_prev_node := r\<rparr>))
     in st2(o' := (st o')\<lparr>i_num := length xs, i_pair := pad xs FANOUT, i_next_node := r\<rparr>,
            r := zero_node\<lparr>i_flag := 1, i_offset := r, i_num := length ys, i_pair := pad ys FANOUT, i_next_node := nx, i_prev_node := o'\<rparr>))"

lemma split_data_run:
  assumes ok: "blocks_ok T (plug (Lf o' xs) ((po, ls, s, rs) # c))" and full: "leaf_full xs k lo hi"
    and a: "bp_alloc_node can_map DATA_FLAG T1 = Some (zero_node\<lparr>i_flag := DATA_FLAG, i_offset := r\<rparr>,
        T1\<lparr>m_master := m, bp_nodes := (bp_nodes T)(r := zero_node)\<rparr>)"
    and fresh: "\<not> node_used (m_master T) r" "0 < r"
    and w: "wfc ((po, ls, s, rs) # c)" and b: "lo = hlo ((po, ls, s, rs) # c)" "hi = hhi ((po, ls, s, rs) # c)"
  shows "bp_split_data_node can_map (bp_nodes T po) (bp_nodes T o') k v T1 =
    Some ((bp_nodes T po)\<lparr>i_pair := (i_pair (bp_nodes T po))[length ls := (0, 0)]\<rparr>,
      pad (map entry ls @ (fst (last (half1 xs k v)), o') # (fst (last (half2 xs k v)), r) # map entry rs) (FANOUT + 1),
      T1\<lparr>m_master := m, bp_nodes := split_store (bp_nodes T) o' r (half1 xs k v) (half2 xs k v)\<rparr>)"
proof -
  define dp where "dp = bp_nodes T o'"
  define ip where "ip = bp_nodes T po"
  define st where "st = bp_nodes T"
  define L where "L = half1 xs k v"
  define R where "R = half2 xs k v"
  let ?c = "(po, ls, s, rs) # c"
  have rp: "leaf_node dp o' xs" "index_node ip po (map entry ls @ (s, o') # map entry rs)" "rep st (plug (Lf o' xs) ?c)"
    using ok rep_plug [of "bp_nodes T" "Lf o' xs" ?c] by (auto simp: blocks_ok_def dp_def ip_def st_def)
  have d: "distinct (o' # coffs ?c)" using ok distinct_plug [of "Lf o' xs" ?c] by (simp only: blocks_ok_def offs.simps append.simps)
  have "\<forall>x\<in>set ls. boff (fst x) \<noteq> o'" using d boff_in_offs by auto
  note fc = forget_child_eq [OF rp(2) this]
  have so: "seps_ok (hlo c) (hhi c) (map snd ls @ s # map snd rs)" using w by simp
  note kp = kept_eq [OF rp(2) so]
  note hn = halves_node [OF full rp(1), folded L_def R_def]
  have len: "length L = 169" "length R = 169" "L \<noteq> []" "R \<noteq> []" using halves_length [OF full] by (simp_all add: L_def R_def)
  have off: "i_offset dp = o'" "i_flag dp = 1" "i_offset ip = po" using rp(1,2) by (auto simp: leaf_node_def index_node_def)
  have lens: "length ls + length rs < FANOUT" using w by simp
  have sep: "seps_ok (hlo c) (hhi c) (map snd ls @ fst (last L) # fst (last R) # map snd rs)"
    by (rule leaf_seps [OF w]) (use halves_seps [OF full] b in \<open>auto simp: L_def R_def\<close>)
  have mt: "merge_key2 (merge_key2 (pad (map entry ls @ map entry rs) (FANOUT + 1)) (fst (last L)) o' (length ls + length rs + 1))
      (fst (last R)) r (length ls + length rs + 2) = pad (map entry ls @ (fst (last L), o') # (fst (last R), r) # map entry rs) (FANOUT + 1)"
    by (rule merge_two [OF sep]) (use lens in simp)
  have lk: "last_key (dp\<lparr>i_num := 169, i_pair := pad L FANOUT\<rparr>) = fst (last L)"
    "last_key (zero_node\<lparr>i_flag := DATA_FLAG, i_offset := r, i_num := 169, i_pair := pad R FANOUT, i_next_node := x, i_prev_node := y\<rparr>) = fst (last R)" for x y
    using len by (auto intro!: last_key_pad)
  define nx where "nx = i_next_node dp"
  have or: "o' \<noteq> r" using fresh ok by (auto simp: blocks_ok_def set_offs_plug)
  have nxt: "nx = 0 \<or> (nx \<in> set (leaves (plug (Lf o' xs) ?c)) \<and> nx \<noteq> o')"
  proof -
    have "chain st 0 (lvl ?c @ o' # lvr ?c)" using ok by (simp only: blocks_ok_def leaves_plug leaves.simps st_def append.simps)
    moreover have "chain st p (us @ o' # ws) \<Longrightarrow> i_next_node (st o') = (if ws = [] then 0 else hd ws)" for p us ws
      by (induction us arbitrary: p) auto
    ultimately have "nx = (if lvr ?c = [] then 0 else hd (lvr ?c))" by (simp only: nx_def dp_def st_def)
    moreover have "o' \<notin> set (lvr ?c)" using d ctx_leaves_sub [of ?c] by auto
    ultimately show ?thesis unfolding leaves_plug by (metis UnCI hd_in_set set_append)
  qed
  have rd: "nx \<noteq> 0 \<Longrightarrow> nx \<noteq> r \<and> i_flag (st nx) = 1 \<and> i_offset (st nx) = nx"
    using nxt rep_leaf [OF rp(3)] leaves_sub ok fresh by (auto simp: blocks_ok_def)
  have std: "st o' = dp" by (simp add: st_def dp_def)
  have i337: "i_num dp = 337" using hn(3) [of 338] by simp
  have l1: "left_part dp (merged dp k v 338) = pad L FANOUT" "right_part dp (merged dp k v 338) = pad R FANOUT"
    using hn(1,2) [of 338 v] by (simp_all add: L_def R_def)
  have num: "i_num ip = length ls + length rs" using rp(2) by (simp add: index_node_def)
  define ip1 where "ip1 = ip\<lparr>i_pair := (i_pair ip)[length ls := (0, 0)]\<rparr>"
  define l2 where "l2 = dp\<lparr>i_num := 169, i_pair := pad L FANOUT, i_next_node := r\<rparr>"
  define r1 where "r1 = zero_node\<lparr>i_flag := DATA_FLAG, i_offset := r, i_num := 169, i_pair := pad R FANOUT, i_next_node := nx, i_prev_node := o'\<rparr>"
  define T2 where "T2 = T1\<lparr>m_master := m, bp_nodes := st(r := zero_node)\<rparr>"
  define arr where "arr = pad (map entry ls @ (fst (last L), o') # (fst (last R), r) # map entry rs) (FANOUT + 1)"
  have kp': "filter (\<lambda>p. 0 < fst p) (take (Suc (length ls + length rs)) ((i_pair ip)[length ls := (0, 0)])) = map entry ls @ map entry rs"
    using kp num by simp
  have "bp_split_data_node can_map ip dp k v T1 = do {
      t2 \<leftarrow> (if nx = 0 then Some T2 else do { n \<leftarrow> bp_read_node nx T2; bp_write_node (n\<lparr>i_prev_node := r\<rparr>) T2 });
      t3 \<leftarrow> bp_write_node l2 t2;
      t4 \<leftarrow> bp_write_node r1 t3;
      Some (ip1, arr, t4) }"
    unfolding bp_split_data_node_def a st_def [symmetric] T2_def [symmetric]
    using mt [folded arr_def]
    by (simp add: Let_def off fc i337 l1 nx_def [symmetric] num l2_def r1_def zero_node_def ip1_def kp' lk(1)
        lk(2) [unfolded zero_node_def, simplified])
  also have "\<dots> = Some (ip1, arr, T1\<lparr>m_master := m, bp_nodes := split_store st o' r L R\<rparr>)"
  proof (cases "nx = 0")
    case True
    then show ?thesis using off or
      by (simp add: bp_write_node_def l2_def r1_def DATA_FLAG_def zero_node_def T2_def split_store_def std nx_def [symmetric] len Let_def)
  next
    case False
    then show ?thesis using rd off or
      by (simp add: bp_read_node_def Let_def bp_write_node_def l2_def r1_def DATA_FLAG_def zero_node_def T2_def split_store_def
          std nx_def [symmetric] len)
  qed
  finally show ?thesis by (simp only: ip_def dp_def st_def L_def R_def ip1_def arr_def)
qed

lemma split_store_at:
  assumes "o' \<noteq> r"
  shows "split_store st o' r L R r = zero_node\<lparr>i_flag := 1, i_offset := r, i_num := length R, i_pair := pad R FANOUT,
      i_next_node := i_next_node (st o'), i_prev_node := o'\<rparr>"
    "split_store st o' r L R o' = (st o')\<lparr>i_num := length L, i_pair := pad L FANOUT, i_next_node := r\<rparr>"
    "x \<noteq> o' \<Longrightarrow> x \<noteq> r \<Longrightarrow> split_store st o' r L R x
      = (if x = i_next_node (st o') \<and> x \<noteq> 0 then (st x)\<lparr>i_prev_node := r\<rparr> else st x)"
  using assms by (auto simp: split_store_def Let_def)

lemma chain_next:
  "chain st p (us @ o' # ws) \<Longrightarrow> i_next_node (st o') = (if ws = [] then 0 else hd ws)"
  by (induction us arbitrary: p) auto

lemma mset_concat_mono:
  "(\<And>x. x \<in> set ts \<Longrightarrow> mset (f x) \<subseteq># mset (g x)) \<Longrightarrow> mset (concat (map f ts)) \<subseteq># mset (concat (map g ts))"
  by (induction ts) (auto intro: subset_mset.add_mono)

lemma distinct_leaves: "distinct (offs t) \<Longrightarrow> distinct (leaves t)"
proof -
  have "mset (leaves t) \<subseteq># mset (offs t)"
  proof (induction t)
    case (Nd o' ts)
    have "mset (concat (map (\<lambda>x. leaves (fst x)) ts)) \<subseteq># mset (concat (map (\<lambda>x. offs (fst x)) ts))"
      by (rule mset_concat_mono) (use Nd.IH fst_in_fsts in blast)
    also have "\<dots> \<subseteq># mset (offs (Nd o' ts))" by simp
    finally show ?case by simp
  qed simp
  then obtain C where "mset (offs t) = mset (leaves t) + C" by (auto simp: mset_subset_eq_exists_conv)
  moreover obtain zs where "mset zs = C" using ex_mset by blast
  ultimately have "mset (offs t) = mset (leaves t @ zs)" by simp
  from mset_eq_imp_distinct_iff [OF this] show "distinct (offs t) \<Longrightarrow> distinct (leaves t)" by simp
qed

lemma split_tree_correct:
  assumes ok: "blocks_ok T (plug (Lf o' xs) ((po, ls, s, rs) # c))" and root: "m_root T = boff (plug (Lf o' xs) ((po, ls, s, rs) # c))"
    and dep: "dep n (plug (Lf o' xs) ((po, ls, s, rs) # c))" and w: "wfc ((po, ls, s, rs) # c)"
    and full: "leaf_full xs k (hlo ((po, ls, s, rs) # c)) (hhi ((po, ls, s, rs) # c))"
    and av: "length c + 3 \<le> avail (m_master T)" and map: "\<forall>b. can_map b"
  shows "grown (bp_split_tree can_map (bp_nodes T o') k v (T\<lparr>m_stack := map fst ((po, ls, s, rs) # c)\<rparr>)) T
    (kvl ((po, ls, s, rs) # c) @ ins k v xs @ kvr ((po, ls, s, rs) # c)) n"
proof -
  let ?c = "(po, ls, s, rs) # c"
  define X where "X = plug (Lf o' xs) ?c"
  define T1 where "T1 = T\<lparr>m_stack := map fst c\<rparr>"
  have okX: "rep (bp_nodes T) X" "distinct (offs X)" "\<And>x. x \<in> set (offs X) \<Longrightarrow> node_used (m_master T) x" "master_inv (m_master T)"
    "\<And>x. x \<in> set (offs X) \<Longrightarrow> i_root (bp_nodes T x) \<longleftrightarrow> x = m_root T" "chain (bp_nodes T) 0 (leaves X)"
    using ok by (auto simp: blocks_ok_def X_def)
  have OX: "set (offs X) = insert o' (set (coffs ?c))" unfolding X_def set_offs_plug by (simp only: offs.simps list.set Un_insert_left Un_empty_left)
  have d: "distinct (o' # coffs ?c)" using okX(2) distinct_plug [of "Lf o' xs" ?c] by (simp only: X_def offs.simps append.simps)
  have rp: "leaf_node (bp_nodes T o') o' xs" "index_node (bp_nodes T po) po (map entry ls @ (s, o') # map entry rs)"
    "\<forall>x\<in>set ls. rep (bp_nodes T) (fst x)" "\<forall>x\<in>set rs. rep (bp_nodes T) (fst x)" "repc (bp_nodes T) po c"
    using okX(1) rep_plug [of "bp_nodes T" "Lf o' xs" ?c] by (simp_all add: X_def)
  have a0: "master_inv (m_master T1)" "0 < avail (m_master T1)" using okX(4) av by (simp_all add: T1_def)
  obtain r m where a: "bp_alloc_node can_map DATA_FLAG T1 = Some (zero_node\<lparr>i_flag := DATA_FLAG, i_offset := r\<rparr>,
      T1\<lparr>m_master := m, bp_nodes := (bp_nodes T1)(r := zero_node)\<rparr>)" "master_inv m" "0 < r" "\<not> node_used (m_master T1) r"
    "\<forall>k. node_used m k \<longleftrightarrow> k = r \<or> node_used (m_master T1) k" "avail (m_master T1) \<le> Suc (avail m)"
    by (rule alloc_node_spec [where fl = DATA_FLAG, OF a0 map])
  have fresh: "\<not> node_used (m_master T) r" "r \<notin> set (offs X)" using a(4) okX(3) by (auto simp: T1_def)
  define L where "L = half1 xs k v"
  define R where "R = half2 xs k v"
  define kl where "kl = fst (last L)"
  define kr where "kr = fst (last R)"
  define ip1 where "ip1 = (bp_nodes T po)\<lparr>i_pair := (i_pair (bp_nodes T po))[length ls := (0, 0)]\<rparr>"
  define q where "q = ip1\<lparr>i_num := i_num ip1 + 1\<rparr>"
  define ts where "ts = ls @ (Lf o' L, kl) # (Lf r R, kr) # rs"
  define T4 where "T4 = T1\<lparr>m_master := m, bp_nodes := split_store (bp_nodes T) o' r L R\<rparr>"
  define arr where "arr = pad (map entry ls @ (kl, o') # (kr, r) # map entry rs) (FANOUT + 1)"
  have sd: "bp_split_data_node can_map (bp_nodes T po) (bp_nodes T o') k v T1 = Some (ip1, arr, T4)"
    using split_data_run [OF ok full _ fresh(1) a(3) w refl refl, of can_map T1 m v] a(1)
    by (simp add: T1_def ip1_def arr_def T4_def kl_def kr_def L_def R_def)
  have or: "o' \<noteq> r" "po \<noteq> r" "po \<noteq> o'" "po \<noteq> 0" using fresh okX(3) [of po] d by (auto simp: OX node_used_def)
  have st4: "bp_nodes T4 = split_store (bp_nodes T) o' r L R" by (simp add: T4_def)
  have poff: "i_offset (bp_nodes T po) = po" "i_flag (bp_nodes T po) = 0" "i_num (bp_nodes T po) = length ls + length rs"
    "length (i_pair (bp_nodes T po)) = FANOUT" using rp(2) by (auto simp: index_node_def)
  have l2: "length ts = length ls + length rs + 2" by (simp add: ts_def)
  have run: "bp_split_tree can_map (bp_nodes T o') k v (T\<lparr>m_stack := map fst ?c\<rparr>) = finish can_map q arr (length ts) T4"
  proof -
    have "bp_nodes T1 = bp_nodes T" by (simp add: T1_def)
    moreover have "i_num ip1 = length ls + length rs" by (simp add: ip1_def poff)
    ultimately show ?thesis using sd poff or
      by (simp add: bp_split_tree_def stack_pop_def bp_read_node_def Let_def T1_def [symmetric] finish_def q_def l2)
  qed
  have hs: "hlo ?c < kl" "kl < kr" "kr \<le> hhi ?c" using halves_seps [OF full, of v] by (simp_all only: kl_def kr_def L_def R_def)
  have seps: "seps_ok (hlo c) (hhi c) (map snd ts)" using leaf_seps [OF w hs] by (simp add: ts_def)
  note hw = halves_wf [OF full, of v, folded L_def R_def, folded kl_def kr_def]
  have lens: "1 \<le> length ls + length rs" "length ls + length rs < FANOUT" "wfc c" "wfl (hlo c) ls" "wfs s (hhi c) rs" using w by auto
  have wfs2: "wfs (hlo c) (hhi c) ts"
  proof -
    have "wfs kr (hhi c) rs" if "rs \<noteq> []" using lower_mono(2) [OF lens(5), of kr] hs(3) that by simp
    then have "wfs kr (hhi c) rs" by (cases "rs = []") auto
    moreover have "bwf kl (if rs = [] then hhi c else kr) (Lf r R)" using hw(2) [of r] hw(3) [of r] by (cases "rs = []") (auto simp del: bwf.simps)
    moreover have "bwf (if ls = [] then hlo c else snd (last ls)) kl (Lf o' L)" using hw(1) [of o'] by (simp del: bwf.simps)
    ultimately show ?thesis unfolding ts_def wfs_split using lens(4) by simp
  qed
  have same: "same_node (bp_nodes T x) (bp_nodes T4 x)" "i_root (bp_nodes T4 x) = i_root (bp_nodes T x)" if "x \<noteq> o'" "x \<noteq> r" for x
    using split_store_at(3) [OF or(1) that, of "bp_nodes T" L R] by (auto simp: st4 same_node_def)
  have cin: "x \<noteq> o' \<and> x \<noteq> r" if "x \<in> set (coffs ?c)" for x using that d fresh by (auto simp: OX)
  have reps: "rep (bp_nodes T4) (fst x)" if "x \<in> set ls \<union> set rs" for x
  proof (rule rep_cong [of "bp_nodes T"])
    show "rep (bp_nodes T) (fst x)" using rp(3,4) that by blast
    fix o2 assume "o2 \<in> set (offs (fst x))"
    then have "o2 \<in> set (coffs ?c)" using that by auto
    then show "same_node (bp_nodes T o2) (bp_nodes T4 o2)" using same(1) cin by blast
  qed
  have len: "length L = 169" "length R = 169" using halves_length [OF full, of v] by (simp_all add: L_def R_def)
  have "leaf_node (bp_nodes T4 o') o' L" "leaf_node (bp_nodes T4 r) r R"
    using rp(1) split_store_at(1,2) [OF or(1), of "bp_nodes T" L R] by (auto simp: st4 leaf_node_def)
  then have repts: "\<forall>x\<in>set ts. rep (bp_nodes T4) (fst x)" using reps by (auto simp: ts_def)
  have rcc: "repc (bp_nodes T4) po c" by (rule repc_cong [OF rp(5)]) (use same(1) cin in auto)
  have mo: "mset (offs (plug (Nd po ts) c)) = mset (r # offs X)" by (simp add: offs_plug ts_def X_def)
  have os: "set (offs (plug (Nd po ts) c)) = insert r (set (offs X))" using mset_eq_setD [OF mo] by simp
  have dis: "distinct (offs (plug (Nd po ts) c))" using mset_eq_imp_distinct_iff [OF mo] okX(2) fresh by simp
  define A where "A = lvl ?c"
  define B where "B = lvr ?c"
  have lX: "leaves X = A @ o' # B" unfolding X_def leaves_plug A_def B_def by (simp only: leaves.simps append.simps)
  have lv: "leaves (plug (Nd po ts) c) = A @ o' # r # B" by (simp add: leaves_plug ts_def A_def B_def)
  have nx: "i_next_node (bp_nodes T o') = (if B = [] then 0 else hd B)"
    by (rule chain_next [OF okX(6) [unfolded lX]])
  have dl: "distinct (A @ o' # B)" "r \<notin> set (A @ o' # B)"
  proof -
    show "distinct (A @ o' # B)" using distinct_leaves [OF okX(2)] lX by metis
    show "r \<notin> set (A @ o' # B)" using fresh(2) leaves_sub [of X] lX by auto
  qed
  have nz: "\<And>x. x \<in> set (leaves X) \<Longrightarrow> x \<noteq> 0" using okX(3) leaves_sub [of X] by (auto simp: node_used_def)
  have ch: "chain (bp_nodes T4) 0 (leaves (plug (Nd po ts) c))" unfolding lv
  proof (rule chain_insert [of "bp_nodes T", OF _ dl])
    show "chain (bp_nodes T) 0 (A @ o' # B)" using okX(6) lX by metis
    show "i_prev_node (bp_nodes T4 o') = i_prev_node (bp_nodes T o')" "i_next_node (bp_nodes T4 o') = r"
      "i_prev_node (bp_nodes T4 r) = o'" "i_next_node (bp_nodes T4 r) = i_next_node (bp_nodes T o')"
      using split_store_at(1,2) [OF or(1), of "bp_nodes T" L R] by (auto simp: st4)
  next
    assume ne: "B \<noteq> []"
    then have h: "hd B \<in> set B" by simp
    then have "hd B \<noteq> o'" "hd B \<noteq> r" "hd B \<noteq> 0" using dl nz [of "hd B"] lX by auto
    then show "i_prev_node (bp_nodes T4 (hd B)) = r \<and> i_next_node (bp_nodes T4 (hd B)) = i_next_node (bp_nodes T (hd B))"
      using split_store_at(3) [OF or(1), of "hd B" "bp_nodes T" L R] nx ne by (simp add: st4)
  next
    fix x assume "x \<in> set A \<union> set (tl B)"
    then have "x \<noteq> o'" "x \<noteq> r" "x \<noteq> i_next_node (bp_nodes T o') \<or> x = 0"
      using dl nx by (cases "B"; auto)+
    then show "i_prev_node (bp_nodes T4 x) = i_prev_node (bp_nodes T x) \<and> i_next_node (bp_nodes T4 x) = i_next_node (bp_nodes T x)"
      using split_store_at(3) [OF or(1), of x "bp_nodes T" L R] by (auto simp: st4)
  qed
  have dp: "dep n (plug (Nd po ts) c)" using dep unfolding dep_plug_iff by (auto simp: ts_def ball_Un Suc_diff_Suc)
  have mr: "m_root T = boff (plug (Nd po ts) c)" using root by (simp add: boff_plug split: if_splits)
  have mrO: "m_root T \<in> set (coffs ?c)" using root last_ctx_off [of c] by (auto simp: boff_plug)
  have rts: "i_root (bp_nodes T4 x) \<longleftrightarrow> x = m_root T" if xin: "x \<in> set (offs (plug (Nd po ts) c))" for x
  proof -
    consider "x = r" | "x = o'" | "x \<noteq> r" "x \<noteq> o'" "x \<in> set (offs X)" using xin by (auto simp: os)
    then show ?thesis
    proof cases
      case 1
      then show ?thesis using split_store_at(1) [OF or(1), of "bp_nodes T" L R] cin [OF mrO] by (auto simp: st4 zero_node_def)
    next
      case 2
      then show ?thesis using split_store_at(2) [OF or(1), of "bp_nodes T" L R] okX(5) [of o'] by (simp add: st4 OX)
    next
      case 3
      then show ?thesis using same(2) okX(5) by simp
    qed
  qed
  have qo: "i_offset q = po" by (simp add: q_def ip1_def poff)
  have pend: "pending T4 q arr ts c n" unfolding pending_def Let_def qo
  proof (intro conjI)
    have "i_root q = i_root (bp_nodes T4 po)" using same(2) [of po] or by (simp add: q_def ip1_def)
    then show "i_root q \<longleftrightarrow> po = m_root T4" using rts [of po] by (simp add: set_offs_plug T4_def T1_def)
    show "take (length ts) arr = map entry ts" by (simp add: arr_def pad_def ts_def)
    show "\<forall>x\<in>set (offs (plug (Nd po ts) c)). node_used (m_master T4) x" using okX(3) a(5) by (auto simp: os T4_def T1_def)
    show "\<forall>x\<in>set (offs (plug (Nd po ts) c)). x \<noteq> po \<longrightarrow> (i_root (bp_nodes T4 x) \<longleftrightarrow> x = m_root T4)"
      using rts by (simp add: T4_def T1_def)
    show "length c + 2 \<le> avail (m_master T4)" using av a(6) by (simp add: T4_def T1_def)
    show "m_root T4 = boff (plug (Nd po ts) c)" using mr by (simp add: T4_def T1_def)
  qed (use repts rcc lens wfs2 seps l2 poff dis ch dp a(2) in \<open>auto simp: q_def ip1_def T4_def T1_def FANOUT_def\<close>)
  have "kvs (plug (Nd po ts) c) = kvl ?c @ ins k v xs @ kvr ?c"
    using halves_append [of xs k v] by (simp add: kvs_plug ts_def L_def R_def)
  then show ?thesis using finish_correct [OF pend map] unfolding run qo grown_def by (simp add: T4_def T1_def)
qed

section \<open>Insertion\<close>

lemma add_root_correct:
  assumes ok: "blocks_ok T (Lf o' xs)" and root: "m_root T = o'" and full: "leaf_full xs k 0 topkey"
    and av: "2 \<le> avail (m_master T)" and map: "\<forall>b. can_map b"
  shows "grown (do { (root, t2) \<leftarrow> bp_add_root_node can_map (bp_nodes T o') k v T; bp_write_node (root\<lparr>i_root := True\<rparr>) t2 }) T (ins k v xs) 0"
proof -
  define dp where "dp = bp_nodes T o'"
  define L where "L = half1 xs k v"
  define R where "R = half2 xs k v"
  have dp: "leaf_node dp o' xs" "node_used (m_master T) o'" "master_inv (m_master T)" using ok by (auto simp: blocks_ok_def dp_def)
  have off: "i_offset dp = o'" using dp(1) by (simp add: leaf_node_def)
  have av0: "0 < avail (m_master T)" using av by simp
  obtain l m1 where a1: "bp_alloc_node can_map DATA_FLAG T = Some (zero_node\<lparr>i_flag := DATA_FLAG, i_offset := l\<rparr>,
      T\<lparr>m_master := m1, bp_nodes := (bp_nodes T)(l := zero_node)\<rparr>)" "master_inv m1" "0 < l" "\<not> node_used (m_master T) l"
    "\<forall>k. node_used m1 k \<longleftrightarrow> k = l \<or> node_used (m_master T) k" "avail (m_master T) \<le> Suc (avail m1)"
    by (rule alloc_node_spec [where fl = DATA_FLAG, OF dp(3) av0 map])
  define T1 where "T1 = T\<lparr>m_master := m1, bp_nodes := (bp_nodes T)(l := zero_node)\<rparr>"
  have i1: "master_inv (m_master T1)" "0 < avail (m_master T1)" using a1(2,6) av by (simp_all add: T1_def)
  obtain r m2 where a2: "bp_alloc_node can_map DATA_FLAG T1 = Some (zero_node\<lparr>i_flag := DATA_FLAG, i_offset := r\<rparr>,
      T1\<lparr>m_master := m2, bp_nodes := (bp_nodes T1)(r := zero_node)\<rparr>)" "master_inv m2" "0 < r" "\<not> node_used (m_master T1) r"
    "\<forall>k. node_used m2 k \<longleftrightarrow> k = r \<or> node_used (m_master T1) k" "avail (m_master T1) \<le> Suc (avail m2)"
    by (rule alloc_node_spec [where fl = DATA_FLAG, OF i1 map])
  have ne: "l \<noteq> o'" "r \<noteq> o'" "r \<noteq> l" using a1(4,5) a2(4) dp(2) by (auto simp: T1_def)
  have hn': "left_part dp (merged dp k v (FANOUT * 2)) = pad L FANOUT" "right_part dp (merged dp k v (FANOUT * 2)) = pad R FANOUT" "i_num dp = 337"
    using halves_node(1,2) [OF full dp(1), of "FANOUT * 2" v] halves_node(3) [OF full dp(1), of 338]
    by (simp_all add: FANOUT_def L_def R_def)
  have len: "length L = 169" "length R = 169" "L \<noteq> []" "R \<noteq> []" using halves_length [OF full, of v] by (simp_all add: L_def R_def)
  define kl where "kl = fst (last L)"
  define kr where "kr = fst (last R)"
  define l2 where "l2 = zero_node\<lparr>i_flag := DATA_FLAG, i_offset := l, i_num := 169, i_pair := pad L FANOUT, i_next_node := r\<rparr>"
  define r2 where "r2 = zero_node\<lparr>i_flag := DATA_FLAG, i_offset := r, i_num := 169, i_pair := pad R FANOUT, i_next_node := 0, i_prev_node := l\<rparr>"
  define pr where "pr = dp\<lparr>i_flag := 0, i_num := 1, i_pair := (zero_pairs FANOUT)[0 := (kl, l), 1 := (kr, r)], i_root := True\<rparr>"
  define T' where "T' = T\<lparr>m_master := m2, bp_nodes := (bp_nodes T)(l := l2, r := r2, o' := pr)\<rparr>"
  have lk: "last_key (zero_node\<lparr>i_flag := DATA_FLAG, i_offset := x, i_num := 169, i_pair := pad L FANOUT\<rparr>) = kl"
    "last_key (zero_node\<lparr>i_flag := DATA_FLAG, i_offset := x, i_num := 169, i_pair := pad R FANOUT\<rparr>) = kr" for x
    using len by (auto simp: kl_def kr_def intro!: last_key_pad)
  have st: "((bp_nodes T)(l := zero_node, r := zero_node, l := l2, r := r2, o' := pr)) = (bp_nodes T)(l := l2, r := r2, o' := pr)"
    using ne by (auto simp: fun_eq_iff)
  have run: "(do { (root, t2) \<leftarrow> bp_add_root_node can_map dp k v T; bp_write_node (root\<lparr>i_root := True\<rparr>) t2 }) = Some T'"
    unfolding bp_add_root_node_def a1(1) Option.bind.bind_lunit prod.case T1_def [symmetric] a2(1)
    using off st by (simp add: Let_def hn' lk [unfolded zero_node_def DATA_FLAG_def, simplified] zero_node_def bp_write_node_def DATA_FLAG_def l2_def r2_def pr_def T'_def T1_def)
  define b' where "b' = Nd o' [(Lf l L, kl), (Lf r R, kr)]"
  have at: "bp_nodes T' o' = pr" "bp_nodes T' l = l2" "bp_nodes T' r = r2" using ne by (auto simp: T'_def)
  have rep: "rep (bp_nodes T') b'"
  proof -
    have "index_node pr o' [(kl, l), (kr, r)]"
      using off by (simp add: index_node_def pr_def zero_pairs_two) (simp add: FANOUT_def)
    then show ?thesis using at len by (simp add: b'_def leaf_node_def l2_def r2_def DATA_FLAG_def)
  qed
  have "chain (bp_nodes T') 0 (leaves b')" using at ne a2(3) by (simp add: b'_def l2_def r2_def zero_node_def)
  moreover have "i_root (bp_nodes T' x) \<longleftrightarrow> x = m_root T'" if "x \<in> set (offs b')" for x
    using that ne root at by (auto simp: b'_def T'_def l2_def r2_def pr_def zero_node_def)
  moreover have "node_used (m_master T') x" if "x \<in> set (offs b')" for x
    using that a1(5) a2(5) dp(2) by (auto simp: b'_def T'_def T1_def)
  ultimately have okb: "blocks_ok T' b'" using rep ne a2(2) by (auto simp: blocks_ok_def b'_def T'_def)
  have hs: "0 < kl" "kl < kr" "kr \<le> topkey" using halves_seps [OF full, of v] by (simp_all add: kl_def kr_def L_def R_def)
  have w: "bwf 0 topkey b'" unfolding b'_def bwf_Nd
    using halves_wf(1) [OF full, of v l, folded L_def kl_def] halves_wf(2) [OF full, of v r, folded L_def R_def, folded kl_def] hs
    by (auto simp: seps_ok_def FANOUT_def simp del: bwf.simps)
  have "kvs b' = ins k v xs" using halves_append [of xs k v] by (simp add: b'_def L_def R_def)
  moreover have "boff b' = m_root T'" "dep (Suc 0) b'" "m_key_count T' = m_key_count T" using root by (simp_all add: b'_def T'_def)
  ultimately show ?thesis unfolding grown_def dp_def [symmetric] run using okb w by blast
qed

lemma hgt_eq: "bwf lo hi t \<Longrightarrow> dep n t \<Longrightarrow> hgt t = n"
proof (induction t arbitrary: lo hi n)
  case (Nd o' ts)
  then obtain m where n: "n = Suc m" by (cases n) auto
  have "ts \<noteq> []" using Nd.prems(1) by auto
  then obtain x where x: "x \<in> set ts" by (meson hd_in_set)
  have w: "wfs lo hi ts" using Nd.prems(1) by simp
  obtain lo' hi' where "bwf lo' hi' (fst x)" using wfs_child [OF w x] by blast
  then have "hgt (fst x) = m" using Nd.IH [OF x fst_in_fsts] Nd.prems(2) x n by auto
  then have "n \<le> hgt (Nd o' ts)" using hgt_child [OF x, of o'] n by (metis Suc_le_eq)
  then show ?case using hgt_dep [OF Nd.prems(2)] by simp
qed simp

lemma grown_tree:
  assumes "grown r T kv n"
  obtains T' b' where "r = Some T'" "tree_ok (T'\<lparr>m_stack := [], m_key_count := j\<rparr>) b'" "kvs b' = kv" "m_key_count T' = m_key_count T"
proof -
  obtain T' b' where g: "r = Some T'" "blocks_ok T' b'" "boff b' = m_root T'" "bwf 0 topkey b'" "kvs b' = kv"
    "dep n b' \<or> dep (Suc n) b'" "m_key_count T' = m_key_count T" using assms by (auto simp: grown_def)
  have "dep (hgt b') b'" using g(6) hgt_eq [OF g(4)] by auto
  then have "tree_ok (T'\<lparr>m_stack := [], m_key_count := j\<rparr>) b'" using g by (simp add: tree_ok_def blocks_ok_def)
  then show thesis using that g by blast
qed

lemma map_of_ins:
  assumes "keys_ok xs" "k \<notin> fst ` set xs" "k \<notin> fst ` set A"
  shows "map_of (A @ ins k v xs @ B) = (map_of (A @ xs @ B))(k \<mapsto> v)"
proof -
  have m: "map_of (us @ (k, v) # ws) = (map_of (us @ ws))(k \<mapsto> v)" if "k \<notin> fst ` set us" for us ws :: pairs
    using that by (induction us) (auto simp: fun_upd_twist)
  obtain us ws where s: "xs = us @ ws" "\<forall>u\<in>set us. fst u < k" "\<forall>w\<in>set ws. k < fst w" "ins k v xs = us @ (k, v) # ws"
    by (rule ins_cases [OF assms(1,2)])
  have "k \<notin> fst ` set (A @ us)" using assms(2,3) s(1) by auto
  from m [OF this, of "ws @ B"] show ?thesis by (simp add: s(1) s(4) [unfolded s(1)])
qed

text \<open>What an insertion does to the map of a tree, and what it returns.\<close>

definition inserted :: "key \<Rightarrow> item \<Rightarrow> bool \<Rightarrow> (key \<rightharpoonup> item) \<Rightarrow> int \<times> item option \<times> (key \<rightharpoonup> item)" where
  "inserted k v upd f =
    (case f k of None \<Rightarrow> (0, None, f(k \<mapsto> v))
     | Some w \<Rightarrow> if upd then (0, Some w, f(k \<mapsto> v)) else (-1, Some w, f))"

lemma insert_new:
  assumes ok: "tree_ok T b" and k: "0 < k" "k \<le> topkey" and new: "map_of (kvs b) k = None"
    and av: "17 \<le> avail (m_master T)" and map: "\<forall>b. can_map b"
  shows "\<exists>T' b'. bp_insert_key_tree can_map k v upd T = Some (0, None, T') \<and> tree_ok T' b' \<and> map_of (kvs b') = (map_of (kvs b))(k \<mapsto> v)
    \<and> m_key_count T' = m_key_count T + 1"
proof -
  obtain o' xs c where d: "b = plug (Lf o' xs) c" "wfc c" "bwf (hlo c) (hhi c) (Lf o' xs)" "hlo c < k" "k \<le> hhi c"
    "leaf_node (bp_nodes T o') o' xs" "traverse_empty k T = Some (bp_nodes T o', T\<lparr>m_stack := map fst c\<rparr>)" "length c \<le> hgt b"
    by (rule tree_descend [OF ok k])
  define T1 where "T1 = T\<lparr>m_stack := map fst c\<rparr>"
  define dp where "dp = bp_nodes T o'"
  have bo: "blocks_ok T b" "m_root T = boff b" "dep (hgt b) b" "bwf 0 topkey b" using ok by (auto simp: tree_ok_def)
  have h: "hgt b < 15" by (rule hgt_small [OF bo(1,4,3)])
  have xs: "keys_ok xs" "length xs \<le> FANOUT" "\<forall>p\<in>set xs. hlo c < fst p \<and> fst p \<le> hhi c" using d(3) by auto
  note at = kvs_at [OF d(2,4,5), of "Lf o' xs", folded d(1), unfolded kvs.simps]
  have kx: "k \<notin> fst ` set xs" using new at(1) by (simp add: map_of_eq_None_iff)
  have idx: "get_pair_tree dp k = -1" using leaf_search(1) [OF d(6) xs(1), of k] kx by (simp add: dp_def)
  have num: "i_num dp = length xs" using d(6) by (simp add: leaf_node_def dp_def)
  have kvs: "kvs b = kvl c @ xs @ kvr c" by (simp add: d(1) kvs_plug)
  have kA: "k \<notin> fst ` set (kvl c)" using wfc_keys [OF d(2)] d(4) by fastforce
  have upd: "map_of (kvl c @ ins k v xs @ kvr c) = (map_of (kvs b))(k \<mapsto> v)" unfolding kvs by (rule map_of_ins [OF xs(1) kx kA])
  have o'b: "o' \<in> set (offs b)" by (simp add: d(1) set_offs_plug)
  have rt: "i_root dp \<longleftrightarrow> o' = m_root T" using bo(1) o'b by (simp add: blocks_ok_def dp_def)
  have cr: "o' = m_root T \<longleftrightarrow> c = []"
  proof (cases "c = []")
    case False
    then have "m_root T \<in> set (coffs c)" using bo(2) last_ctx_off [of c] by (simp add: d(1) boff_plug)
    moreover have "o' \<notin> set (coffs c)" using bo(1) distinct_plug [of "Lf o' xs" c] by (simp add: blocks_ok_def d(1))
    ultimately show ?thesis using False by auto
  qed (use bo(2) in \<open>simp add: d(1)\<close>)
  define r where "r = (if i_root dp \<and> i_num dp = FANOUT then do { (root, t2) \<leftarrow> bp_add_root_node can_map dp k v T1; bp_write_node (root\<lparr>i_root := True\<rparr>) t2 }
              else if i_num dp = FANOUT then bp_split_tree can_map dp k v T1
              else bp_write_node (bp_merge_key dp k v) T1)"
  have run: "bp_insert_key_tree can_map k v upd T = do { t2 \<leftarrow> r; Some (0, None, t2\<lparr>m_stack := [], m_key_count := m_key_count t2 + 1\<rparr>) }"
    unfolding bp_insert_key_tree_def d(7) using idx by (simp add: dp_def T1_def r_def Let_def)
  have "grown r T (kvl c @ ins k v xs @ kvr c) (hgt b)"
  proof (cases "i_num dp = FANOUT")
    case full: True
    then have lf: "leaf_full xs k (hlo c) (hhi c)" using xs kx d(4,5) num by (auto simp: leaf_full_def FANOUT_def)
    show ?thesis
    proof (cases c)
      case Nil
      have "T1 = T" using ok by (simp add: T1_def Nil tree_ok_def)
      moreover have "m_root T = o'" using cr Nil by simp
      moreover have "leaf_full xs k 0 topkey" using lf by (simp add: Nil)
      moreover have "blocks_ok T (Lf o' xs)" "2 \<le> avail (m_master T)" "hgt b = 0" using bo(1) av by (simp_all add: d(1) Nil)
      ultimately show ?thesis using add_root_correct [of T o' xs k can_map v] full rt map by (simp add: r_def dp_def Nil)
    next
      case (Cons f c')
      obtain po ls s rs where f: "f = (po, ls, s, rs)" by (metis prod_cases4)
      have nr: "\<not> i_root dp" using rt cr Cons by simp
      have "length c' + 3 \<le> avail (m_master T)" using d(8) h av by (simp add: Cons)
      then have "grown (bp_split_tree can_map dp k v T1) T (kvl c @ ins k v xs @ kvr c) (hgt b)"
        using split_tree_correct [of T o' xs po ls s rs c' "hgt b" k can_map v] bo d(1,2) lf map
        unfolding Cons f dp_def T1_def by simp
      then show ?thesis using full nr by (simp add: r_def)
    qed
  next
    case False
    then have lt: "length xs < FANOUT" using xs(2) num by simp
    note mk = merge_key_leaf [OF d(6) xs(1) kx k(1) lt, of v, folded dp_def]
    note ins = ins_facts [OF xs(1) kx k(1), of v]
    define n where "n = dp\<lparr>i_pair := pad (ins k v xs) FANOUT, i_num := length xs + 1\<rparr>"
    have ln: "leaf_node n o' (ins k v xs)" using d(6) ins(3) by (simp add: n_def leaf_node_def dp_def)
    have "blocks_ok (T\<lparr>bp_nodes := (bp_nodes T)(o' := n)\<rparr>) (plug (Lf o' (ins k v xs)) c)"
      by (rule replace_leaf [OF bo(1) [unfolded d(1)] ln]) (simp_all add: n_def dp_def)
    then have bk: "blocks_ok (T1\<lparr>bp_nodes := (bp_nodes T1)(o' := n)\<rparr>) (plug (Lf o' (ins k v xs)) c)" by (simp add: blocks_ok_def T1_def)
    have "bwf (hlo c) (hhi c) (Lf o' (ins k v xs))" using ins xs lt d(4,5) by auto
    then have w: "bwf 0 topkey (plug (Lf o' (ins k v xs)) c)" using d(2) wf_plug by blast
    have "bp_merge_key dp k v = n" using mk by (simp add: n_def)
    then have "r = Some (T1\<lparr>bp_nodes := (bp_nodes T1)(o' := n)\<rparr>)"
      using False ln by (simp add: r_def bp_write_node_def leaf_node_def)
    moreover have "dep (hgt b) (plug (Lf o' (ins k v xs)) c)" using bo(3) unfolding d(1) by (rule dep_other_leaf)
    moreover have "boff (plug (Lf o' (ins k v xs)) c) = m_root T" using bo(2) by (simp add: d(1) boff_plug)
    ultimately show ?thesis unfolding grown_def using bk w by (fastforce simp: kvs_plug T1_def)
  qed
  then obtain T' b' where g: "r = Some T'" "tree_ok (T'\<lparr>m_stack := [], m_key_count := m_key_count T + 1\<rparr>) b'"
    "kvs b' = kvl c @ ins k v xs @ kvr c" "m_key_count T' = m_key_count T" by (rule grown_tree)
  then show ?thesis using run upd by auto
qed

lemma leaf_update:
  assumes ok: "tree_ok T (plug (Lf o' (us @ (k, w) # ws)) c)" and n: "leaf_node (bp_nodes T o') o' (us @ (k, w) # ws)"
    and n'_def: "n' = (bp_nodes T o')\<lparr>i_pair := (i_pair (bp_nodes T o'))[length us := (k, v)]\<rparr>"
  shows "tree_ok (T\<lparr>bp_nodes := (bp_nodes T)(o' := n')\<rparr>) (plug (Lf o' (us @ (k, v) # ws)) c)"
    "map_of (kvs (plug (Lf o' (us @ (k, v) # ws)) c)) = (map_of (kvs (plug (Lf o' (us @ (k, w) # ws)) c)))(k \<mapsto> v)"
proof -
  let ?b = "plug (Lf o' (us @ (k, w) # ws)) c" and ?b' = "plug (Lf o' (us @ (k, v) # ws)) c"
  have bo: "blocks_ok T ?b" "m_root T = boff ?b" "dep (hgt ?b) ?b" "bwf 0 topkey ?b" using ok by (auto simp: tree_ok_def)
  have ln: "leaf_node n' o' (us @ (k, v) # ws)" using n by (simp add: leaf_node_def n'_def pad_def list_update_append)
  have bk: "blocks_ok (T\<lparr>bp_nodes := (bp_nodes T)(o' := n')\<rparr>) ?b'"
    by (rule replace_leaf [OF bo(1) ln]) (simp_all add: n'_def)
  have wc: "wfc c" "bwf (hlo c) (hhi c) (Lf o' (us @ (k, w) # ws))" using bo(4) wf_plug by blast+
  have "bwf (hlo c) (hhi c) (Lf o' (us @ (k, v) # ws))" using wc(2) by (auto simp: keys_ok_append keys_ok_Cons)
  then have w': "bwf 0 topkey ?b'" using wc(1) wf_plug by blast
  have "dep (hgt ?b) ?b'" using bo(3) by (rule dep_other_leaf)
  then have "dep (hgt ?b') ?b'" using hgt_eq [OF w'] by simp
  then show "tree_ok (T\<lparr>bp_nodes := (bp_nodes T)(o' := n')\<rparr>) ?b'"
    using ok bk w' by (simp add: tree_ok_def boff_plug split: if_splits)
  have ks: "keys_ok (kvs ?b)" using wf_keys(1) [OF bo(4)] by simp
  then have "k \<notin> fst ` set (kvl c @ us)" by (auto simp: kvs_plug keys_ok_append keys_ok_Cons)
  moreover have "k \<notin> fst ` set zs \<Longrightarrow> map_of (zs @ (k, v) # ys) = (map_of (zs @ (k, w) # ys))(k \<mapsto> v)" for zs ys :: pairs
    by (induction zs) (auto simp: fun_upd_twist)
  ultimately show "map_of (kvs ?b') = (map_of (kvs ?b))(k \<mapsto> v)" unfolding kvs_plug by (metis append_assoc append_Cons kvs.simps(1))
qed

lemma insert_old:
  assumes ok: "tree_ok T b" and k: "0 < k" "k \<le> topkey" and old: "map_of (kvs b) k = Some w"
  shows "\<exists>T' b'. bp_insert_key_tree can_map k v upd T = Some (if upd then 0 else -1, Some w, T') \<and> tree_ok T' b'
    \<and> map_of (kvs b') = (if upd then (map_of (kvs b))(k \<mapsto> v) else map_of (kvs b))"
proof -
  obtain o' xs c where d: "b = plug (Lf o' xs) c" "wfc c" "bwf (hlo c) (hhi c) (Lf o' xs)" "hlo c < k" "k \<le> hhi c"
    "leaf_node (bp_nodes T o') o' xs" "traverse_empty k T = Some (bp_nodes T o', T\<lparr>m_stack := map fst c\<rparr>)" "length c \<le> hgt b"
    by (rule tree_descend [OF ok k])
  have xs: "keys_ok xs" using d(3) by simp
  note at = kvs_at [OF d(2,4,5), of "Lf o' xs", folded d(1), unfolded kvs.simps]
  have "map_of xs k = Some w" using old at(1) by simp
  then have kx: "k \<in> fst ` set xs" using map_of_eq_None_iff [of xs k] by auto
  obtain us w' ws where s: "xs = us @ (k, w') # ws" "get_pair_tree (bp_nodes T o') k = int (length us)"
    using leaf_search(3) [OF d(6) xs kx] by blast
  have sv: "snd (i_pair (bp_nodes T o') ! length us) = w" "w' = w"
    using leaf_search(2) [OF d(6) xs kx] old at(1) s d(6) by (auto simp: leaf_node_def pad_def nth_append)
  have T: "T\<lparr>m_stack := []\<rparr> = T" using ok by (simp add: tree_ok_def)
  show ?thesis
  proof (cases upd)
    case True
    note lu = leaf_update [where v = v, OF ok [unfolded d(1) s(1) sv(2)] d(6) [unfolded s(1) sv(2)] refl]
    let ?T' = "T\<lparr>bp_nodes := (bp_nodes T)(o' := (bp_nodes T o')\<lparr>i_pair := (i_pair (bp_nodes T o'))[length us := (k, v)]\<rparr>)\<rparr>"
    have fl: "i_flag (bp_nodes T o') = 1" "i_offset (bp_nodes T o') = o'" using d(6) by (simp_all add: leaf_node_def)
    have "bp_insert_key_tree can_map k v upd T = Some (0, Some w, ?T'\<lparr>m_stack := []\<rparr>)"
      unfolding bp_insert_key_tree_def d(7) using True s(2) sv(1) fl by (simp add: Let_def bp_write_node_def)
    moreover have "?T'\<lparr>m_stack := []\<rparr> = ?T'" using ok by (simp add: tree_ok_def)
    ultimately show ?thesis using lu True by (auto simp: d(1) s(1) sv(2))
  next
    case False
    have "bp_insert_key_tree can_map k v upd T = Some (-1, Some w, T)"
      unfolding bp_insert_key_tree_def d(7) using False s(2) sv(1) T by (simp add: Let_def)
    then show ?thesis using ok False by auto
  qed
qed

lemma update_key:
  assumes ok: "tree_ok T b" and k: "0 < k" "k \<le> topkey" and old: "map_of (kvs b) k = Some w"
  shows "\<exists>T' b'. bp_update_key_tree k v T = Some T' \<and> tree_ok T' b' \<and> map_of (kvs b') = (map_of (kvs b))(k \<mapsto> v)"
proof -
  obtain o' xs c where d: "b = plug (Lf o' xs) c" "wfc c" "bwf (hlo c) (hhi c) (Lf o' xs)" "hlo c < k" "k \<le> hhi c"
    "leaf_node (bp_nodes T o') o' xs" "traverse_empty k T = Some (bp_nodes T o', T\<lparr>m_stack := map fst c\<rparr>)" "length c \<le> hgt b"
    by (rule tree_descend [OF ok k])
  have xs: "keys_ok xs" using d(3) by simp
  note at = kvs_at [OF d(2,4,5), of "Lf o' xs", folded d(1), unfolded kvs.simps]
  have kx: "k \<in> fst ` set xs" using old at(1) map_of_eq_None_iff [of xs k] by auto
  obtain us w' ws where s: "xs = us @ (k, w') # ws" "get_pair_tree (bp_nodes T o') k = int (length us)"
    using leaf_search(3) [OF d(6) xs kx] by blast
  note lu = leaf_update [where v = v, OF ok [unfolded d(1) s(1)] d(6) [unfolded s(1)] refl]
  let ?T' = "T\<lparr>bp_nodes := (bp_nodes T)(o' := (bp_nodes T o')\<lparr>i_pair := (i_pair (bp_nodes T o'))[length us := (k, v)]\<rparr>)\<rparr>"
  have fl: "i_flag (bp_nodes T o') = 1" "i_offset (bp_nodes T o') = o'" using d(6) by (simp_all add: leaf_node_def)
  have "bp_update_key_tree k v T = Some (?T'\<lparr>m_stack := []\<rparr>)"
    unfolding bp_update_key_tree_def d(7) using s(2) fl by (simp add: bp_write_node_def)
  moreover have "?T'\<lparr>m_stack := []\<rparr> = ?T'" using ok by (simp add: tree_ok_def)
  ultimately show ?thesis using lu by (auto simp: d(1) s(1))
qed

section \<open>The map of a tree\<close>

definition bp_view :: "bptree \<Rightarrow> (key \<rightharpoonup> item) \<Rightarrow> bool" where
  "bp_view T f \<longleftrightarrow> (\<exists>b. tree_ok T b \<and> f = map_of (kvs b))"

lemma find_view:
  assumes "bp_view T f" "0 < k" "k \<le> topkey"
  shows "\<exists>i. bp_find_key k T = Some (i, case f k of None \<Rightarrow> 0 | Some v \<Rightarrow> v, T) \<and> (0 \<le> i \<longleftrightarrow> f k \<noteq> None)"
proof -
  obtain b where b: "tree_ok T b" "f = map_of (kvs b)" using assms(1) by (auto simp: bp_view_def)
  have "k \<in> fst ` set (kvs b) \<longleftrightarrow> f k \<noteq> None" using map_of_eq_None_iff [of "kvs b" k] b(2) by auto
  then show ?thesis using find_key_correct [OF b(1) assms(2,3)] b(2) by auto
qed

lemma insert_view:
  assumes "bp_view T f" "0 < k" "k \<le> topkey" "17 \<le> avail (m_master T)" "\<forall>b. can_map b"
  shows "\<exists>T'. bp_insert_key_tree can_map k v upd T = Some (fst (inserted k v upd f), fst (snd (inserted k v upd f)), T')
    \<and> bp_view T' (snd (snd (inserted k v upd f)))"
proof -
  obtain b where b: "tree_ok T b" "f = map_of (kvs b)" using assms(1) by (auto simp: bp_view_def)
  show ?thesis
  proof (cases "f k")
    case None
    then obtain T' b' where "bp_insert_key_tree can_map k v upd T = Some (0, None, T')" "tree_ok T' b'" "map_of (kvs b') = f(k \<mapsto> v)"
      using insert_new [OF b(1) assms(2,3) _ assms(4,5)] b(2) by metis
    then show ?thesis using None by (auto simp: inserted_def bp_view_def)
  next
    case (Some w)
    then obtain T' b' where "bp_insert_key_tree can_map k v upd T = Some (if upd then 0 else -1, Some w, T')" "tree_ok T' b'"
      "map_of (kvs b') = (if upd then f(k \<mapsto> v) else f)"
      using insert_old [OF b(1) assms(2,3)] b(2) by metis
    then show ?thesis using Some by (auto simp: inserted_def bp_view_def)
  qed
qed

lemma update_view:
  assumes "bp_view T f" "0 < k" "k \<le> topkey" "f k \<noteq> None"
  shows "\<exists>T'. bp_update_key_tree k v T = Some T' \<and> bp_view T' (f(k \<mapsto> v))"
  using assms update_key unfolding bp_view_def by (metis not_Some_eq)

lemma alloc_bitmap_first:
  "m_dealloc_block m = 0 \<Longrightarrow> m_blocks m = 1 \<Longrightarrow> bp_alloc_bitmap can_map m = Some (o', m1) \<Longrightarrow> o' = 1 \<and> m_blocks m1 = 2"
  by (auto simp: bp_alloc_bitmap_def extend_file_def take_block_def bp_inc_free_bitmap_def bp_set_bitmap_def bp_consts split: bind_splits)

text \<open>The master of a new tree, and a tree that is a single leaf on it.\<close>

lemma first_master:
  assumes "\<forall>b. can_map b"
  shows "\<exists>m m1. init_master_block = Some m \<and> bp_alloc_bitmap can_map m = Some (1, m1) \<and> master_inv m1
    \<and> node_used m1 1 \<and> m_blocks m1 = 2"
proof -
  obtain m where m: "init_master_block = Some m" "master_inv m" "m_blocks m = 1" "m_bitmap_free m = 0" using init_master_block_eq by blast
  obtain o' m1 where a: "bp_alloc_bitmap can_map m = Some (o', m1)" "master_inv m1" "\<forall>k. node_used m1 k \<longleftrightarrow> k = o' \<or> node_used m k"
    using alloc_bitmap_correct [OF m(2) _ assms] m(3) by auto
  have "o' = 1" "m_blocks m1 = 2" using alloc_bitmap_first [OF _ m(3) a(1)] master_invD(7) [OF m(2)] m(4) by simp_all
  then show ?thesis using m a by auto
qed

definition leaf_tree :: "master \<Rightarrow> pairs \<Rightarrow> bptree" where
  "leaf_tree m xs = \<lparr>m_root = 1, m_stack = [], m_key_count = 0, m_master = m, bp_nodes = (\<lambda>_. zero_node)
     (1 := zero_node\<lparr>i_root := True, i_flag := DATA_FLAG, i_num := length xs, i_offset := 1, i_pair := pad xs FANOUT\<rparr>)\<rparr>"

lemma leaf_tree_ok:
  assumes "master_inv m" "node_used m 1" "m_blocks m = 2"
    and "bwf 0 topkey (Lf 1 xs)"
  shows "tree_ok (leaf_tree m xs) (Lf 1 xs)"
  using assms by (simp add: tree_ok_def blocks_ok_def leaf_tree_def leaf_node_def zero_node_def DATA_FLAG_def)

lemma create_view:
  assumes "\<forall>b. can_map b"
  shows "\<exists>T. bp_create can_map = Some T \<and> bp_view T Map.empty \<and> 32446 \<le> avail (m_master T)"
proof -
  obtain m m1 where m: "init_master_block = Some m" "bp_alloc_bitmap can_map m = Some (1, m1)" "master_inv m1"
      "node_used m1 1" "m_blocks m1 = 2"
    using first_master [OF assms] by blast
  have "bp_create can_map = Some (leaf_tree m1 [])"
    by (simp add: bp_create_def m(1,2) bp_write_node_def leaf_tree_def zero_node_def DATA_FLAG_def pad_def)
  moreover have "bp_view (leaf_tree m1 []) Map.empty"
    unfolding bp_view_def using leaf_tree_ok [OF m(3-5), of "[]"] by (intro exI [of _ "Lf 1 []"]) simp
  moreover have "32446 \<le> avail (m_master (leaf_tree m1 []))" using m(5) by (simp add: avail_def leaf_tree_def)
  ultimately show ?thesis by blast
qed

section \<open>Removal\<close>

text \<open>Removal from a leaf that keeps a key, or from a tree that is a single leaf.\<close>

lemma remove_pair_leaf:
  assumes "leaf_node n o' (us @ (k, w) # ws)" "length (us @ (k, w) # ws) \<le> FANOUT"
  shows "leaf_node (remove_pair (length us) n) o' (us @ ws)"
proof -
  define m where "m = FANOUT - length (us @ (k, w) # ws)"
  have n: "i_num n = length us + length ws + 1" "i_pair n = us @ (k, w) # ws @ zero_pairs m"
    using assms(1) by (auto simp: leaf_node_def pad_def m_def)
  have "zero_pairs (FANOUT - length (us @ ws)) = (0, 0) # zero_pairs m"
    using assms(2) by (simp add: m_def zero_pairs_def Suc_diff_le flip: replicate_Suc)
  then show ?thesis using assms(1) n by (simp add: leaf_node_def remove_pair_def pad_def nth_append)
qed

lemma remove_key_leaf:
  assumes ok: "tree_ok T b" and k: "0 < k" "k \<le> topkey" and old: "map_of (kvs b) k = Some w"
    and tr: "traverse_empty k T = Some (dp, T1)" and safe: "i_root dp \<or> 2 \<le> i_num dp"
  shows "\<exists>T' b'. bp_remove_key k T = Some (0, T') \<and> tree_ok T' b' \<and> map_of (kvs b') = (map_of (kvs b))(k := None)
    \<and> m_key_count T' = m_key_count T - 1"
proof -
  obtain o' xs c where d: "b = plug (Lf o' xs) c" "wfc c" "bwf (hlo c) (hhi c) (Lf o' xs)" "hlo c < k" "k \<le> hhi c"
    "leaf_node (bp_nodes T o') o' xs" "traverse_empty k T = Some (bp_nodes T o', T\<lparr>m_stack := map fst c\<rparr>)" "length c \<le> hgt b"
    by (rule tree_descend [OF ok k])
  have dp: "dp = bp_nodes T o'" "T1 = T\<lparr>m_stack := map fst c\<rparr>" using tr d(7) by auto
  have xs: "keys_ok xs" "length xs \<le> FANOUT" using d(3) by auto
  have bo: "blocks_ok T b" "m_root T = boff b" "dep (hgt b) b" "bwf 0 topkey b" using ok by (auto simp: tree_ok_def)
  note at = kvs_at [OF d(2,4,5), of "Lf o' xs", folded d(1), unfolded kvs.simps]
  have kx: "k \<in> fst ` set xs" using old at(1) map_of_eq_None_iff [of xs k] by auto
  obtain us w' ws where s: "xs = us @ (k, w') # ws" "get_pair_tree dp k = int (length us)"
    using leaf_search(3) [OF d(6) xs(1) kx] unfolding dp(1) by blast
  define n where "n = remove_pair (length us) dp"
  have ln: "leaf_node n o' (us @ ws)" using remove_pair_leaf [of dp o' us k w' ws] d(6) xs(2) s(1) by (simp add: n_def dp(1))
  have keep: "i_root n = i_root dp" "i_next_node n = i_next_node dp" "i_prev_node n = i_prev_node dp" by (simp_all add: n_def remove_pair_def)
  let ?b' = "plug (Lf o' (us @ ws)) c"
  have bk: "blocks_ok (T\<lparr>bp_nodes := (bp_nodes T)(o' := n)\<rparr>) ?b'"
    by (rule replace_leaf [OF bo(1) [unfolded d(1)] ln]) (simp_all add: keep dp(1))
  have "bwf (hlo c) (hhi c) (Lf o' (us @ ws))" using d(3) by (auto simp: s(1) keys_ok_append keys_ok_Cons)
  then have w': "bwf 0 topkey ?b'" using d(2) wf_plug by blast
  have "dep (hgt b) ?b'" using bo(3) unfolding d(1) by (rule dep_other_leaf)
  then have dh: "dep (hgt ?b') ?b'" using hgt_eq [OF w'] by simp
  define T' where "T' = T\<lparr>bp_nodes := (bp_nodes T)(o' := n), m_key_count := m_key_count T - 1\<rparr>"
  have "blocks_ok T' ?b'" using bk by (simp add: blocks_ok_def T'_def)
  then have tk: "tree_ok T' ?b'"
    using ok w' dh by (simp add: tree_ok_def d(1) boff_plug T'_def split: if_splits)
  have at_us: "fst (i_pair dp ! length us) = k" using d(6) s(1) by (simp add: dp(1) leaf_node_def pad_def nth_append)
  have num: "i_num n = length us + length ws" "i_num dp = Suc (length us + length ws)" "i_flag n = 1" "i_offset n = o'"
    using ln d(6) s(1) by (auto simp: leaf_node_def dp(1))
  have sp: "1 \<le> i_num n \<or> i_root n" using safe keep num by auto
  have "bp_remove_key k T = Some (0, T')"
    unfolding bp_remove_key_def d(7) dp(1) [symmetric] dp(2) [symmetric]
    using s(2) at_us sp num ok
    by (auto simp: n_def [symmetric] bp_merge_key_tree_def bp_write_node_def DATA_FLAG_def dp(2) T'_def tree_ok_def)
  moreover have "map_of (kvs ?b') = (map_of (kvs b))(k := None)"
  proof -
    have ks: "keys_ok (kvs b)" using wf_keys(1) [OF bo(4)] by simp
    have kb: "kvs b = (kvl c @ us) @ (k, w') # (ws @ kvr c)" by (simp add: d(1) kvs_plug s(1))
    have out: "k \<notin> fst ` set (kvl c @ us)" "k \<notin> fst ` set (ws @ kvr c)"
      using ks unfolding kb by (force simp: keys_ok_append keys_ok_Cons)+
    have gap: "k \<notin> fst ` set zs \<Longrightarrow> k \<notin> fst ` set ys \<Longrightarrow> map_of (zs @ ys) = (map_of (zs @ (k, w') # ys))(k := None)" for zs ys :: pairs
    proof (induction zs)
      case Nil
      then have "map_of ys k = None" by (simp add: map_of_eq_None_iff)
      then show ?case by (auto simp: fun_eq_iff)
    qed (auto simp: fun_upd_twist)
    have kb': "kvs ?b' = (kvl c @ us) @ (ws @ kvr c)" by (simp add: kvs_plug)
    show ?thesis unfolding kb kb' by (rule gap [OF out])
  qed
  ultimately show ?thesis using tk by (auto simp: T'_def)
qed

lemma remove_view:
  assumes "bp_view T f" "0 < k" "k \<le> topkey" "f k \<noteq> None" "traverse_empty k T = Some (dp, T1)" "i_root dp \<or> 2 \<le> i_num dp"
  shows "\<exists>T'. bp_remove_key k T = Some (0, T') \<and> bp_view T' (f(k := None))"
proof -
  obtain b w where b: "tree_ok T b" "f = map_of (kvs b)" "f k = Some w" using assms(1,4) by (auto simp: bp_view_def)
  then show ?thesis using remove_key_leaf [OF b(1) assms(2,3) _ assms(5,6)] unfolding bp_view_def by metis
qed

text \<open>A removal stays in the leaf of its key unless it takes the last key of a leaf that
  is not the root.\<close>

definition leaf_keeps :: "key \<Rightarrow> bptree \<Rightarrow> bool" where
  "leaf_keeps k T = (case traverse_empty k T of None \<Rightarrow> False | Some (dp, T1) \<Rightarrow> i_root dp \<or> 2 \<le> i_num dp)"

definition good_key :: "key \<Rightarrow> bool" where
  "good_key k = (0 < k \<and> k \<le> topkey)"

text \<open>The tree provides the contract of an index, when the blocks of its file can be
  allocated and at least 17 of them are left (a split takes at most one block for each
  level and one for a new root).\<close>

definition has_room :: "bptree \<Rightarrow> bool" where
  "has_room T = (17 \<le> avail (m_master T))"

interpretation bp: key_index bp_view good_key has_room leaf_keeps bp_find_key
  "\<lambda>k v. bp_insert_key_tree (\<lambda>_. True) k v False" bp_update_key_tree bp_remove_key
proof unfold_locales
  fix t f k v w
  assume v: "bp_view t f" and g: "good_key k"
  note k = g [unfolded good_key_def, THEN conjunct1] g [unfolded good_key_def, THEN conjunct2]
  show "f k = None \<Longrightarrow> \<exists>i v. bp_find_key k t = Some (i, v, t) \<and> i < 0"
    using find_view [OF v k] by (metis linorder_not_le)
  show "f k = Some w \<Longrightarrow> \<exists>i. bp_find_key k t = Some (i, w, t) \<and> 0 \<le> i"
    using find_view [OF v k] by auto
  show "has_room t \<Longrightarrow> f k = None \<Longrightarrow>
      \<exists>t'. bp_insert_key_tree (\<lambda>_. True) k v False t = Some (0, None, t') \<and> bp_view t' (f(k \<mapsto> v))"
    using insert_view [OF v k, of "\<lambda>_. True" v False] by (auto simp: has_room_def inserted_def)
  show "has_room t \<Longrightarrow> f k = Some w \<Longrightarrow>
      \<exists>t'. bp_insert_key_tree (\<lambda>_. True) k v False t = Some (- 1, Some w, t') \<and> bp_view t' f"
    using insert_view [OF v k, of "\<lambda>_. True" v False] by (auto simp: has_room_def inserted_def)
  show "f k = Some w \<Longrightarrow> \<exists>t'. bp_update_key_tree k v t = Some t' \<and> bp_view t' (f(k \<mapsto> v))"
    using update_view [OF v k] by auto
  show "leaf_keeps k t \<Longrightarrow> f k = Some w \<Longrightarrow> \<exists>t'. bp_remove_key k t = Some (0, t') \<and> bp_view t' (f(k := None))"
    using remove_view [OF v k] by (auto simp: leaf_keeps_def split: option.splits)
qed

section \<open>Properties\<close>

text \<open>C4: The tree is a finite map.  A newly created tree is the empty map; on a tree with
  contents \<open>f\<close>, a lookup returns the value of the key or a negative index; an insertion
  of a new key adds it, through however many splits of leaves and index nodes it takes up
  to a new root; an insertion of an old key returns the old value with \<open>-1\<close>, or replaces
  it and returns 0 if an update is asked for; an update replaces the value.  None of them
  stops on an assertion.\<close>

theorem bptree_refines_map:
  assumes "\<forall>b. can_map b"
  shows "(\<exists>T. bp_create can_map = Some T \<and> bp_view T Map.empty \<and> 32446 \<le> avail (m_master T))
    \<and> (\<forall>T f k v upd. bp_view T f \<longrightarrow> 0 < k \<longrightarrow> k \<le> topkey \<longrightarrow>
        (\<exists>i. bp_find_key k T = Some (i, case f k of None \<Rightarrow> 0 | Some v \<Rightarrow> v, T) \<and> (0 \<le> i \<longleftrightarrow> f k \<noteq> None))
      \<and> (17 \<le> avail (m_master T) \<longrightarrow>
          (\<exists>T'. bp_insert_key_tree can_map k v upd T
              = Some (if f k = None \<or> upd then 0 else -1, f k, T')
            \<and> bp_view T' (if f k = None \<or> upd then f(k \<mapsto> v) else f)))
      \<and> (f k \<noteq> None \<longrightarrow> (\<exists>T'. bp_update_key_tree k v T = Some T' \<and> bp_view T' (f(k \<mapsto> v)))))"
proof (intro conjI allI impI)
  fix T f k v upd
  assume a: "bp_view T f" "0 < k" "k \<le> topkey" and r: "17 \<le> avail (m_master T)"
  have i: "inserted k v upd f = (if f k = None \<or> upd then 0 else -1, f k, if f k = None \<or> upd then f(k \<mapsto> v) else f)"
    by (auto simp: inserted_def split: option.splits)
  show "\<exists>T'. bp_insert_key_tree can_map k v upd T = Some (if f k = None \<or> upd then 0 else -1, f k, T')
      \<and> bp_view T' (if f k = None \<or> upd then f(k \<mapsto> v) else f)"
    using insert_view [OF a r assms, of v upd, unfolded i fst_conv snd_conv] .
qed (use create_view [OF assms] find_view update_view in blast)+

theorem bptree_refines_map_witness:
  "\<exists>T T'. bp_create (\<lambda>_. True) = Some T \<and> bp_insert_key_tree (\<lambda>_. True) 5 9 False T = Some (0, None, T')
    \<and> bp_view T' [5 \<mapsto> 9] \<and> (\<exists>i\<ge>0. bp_find_key 5 T' = Some (i, 9, T'))"
proof -
  have m: "\<forall>b. (\<lambda>_. True) b" by simp
  obtain T where T: "bp_create (\<lambda>_. True) = Some T" "bp_view T Map.empty" "32446 \<le> avail (m_master T)"
    using bptree_refines_map [OF m] by blast
  obtain T' where T': "bp_insert_key_tree (\<lambda>_. True) 5 9 False T = Some (0, None, T')" "bp_view T' [5 \<mapsto> 9]"
    using bptree_refines_map [OF m, THEN conjunct2, rule_format, of T Map.empty 5 9 False] T(2,3) by (auto simp: topkey_def)
  moreover have "\<exists>i\<ge>0. bp_find_key 5 T' = Some (i, 9, T')"
    using bptree_refines_map [OF m, THEN conjunct2, rule_format, OF T'(2), of 5] by (auto simp: topkey_def)
  ultimately show ?thesis using T(1) by blast
qed

text \<open>A removal that leaves a key in the leaf, or is made in a tree of a single leaf,
  takes exactly the key out of the map and returns 0.\<close>

theorem bptree_remove_correct:
  assumes "bp_view T f" "0 < k" "k \<le> topkey" "f k \<noteq> None" "leaf_keeps k T"
  shows "\<exists>T'. bp_remove_key k T = Some (0, T') \<and> bp_view T' (f(k := None))"
  using remove_view [OF assms(1-4)] assms(5) by (auto simp: leaf_keeps_def split: option.splits)

theorem bptree_remove_correct_witness:
  "\<exists>T T'. bp_view T [5 \<mapsto> 9] \<and> bp_remove_key 5 T = Some (0, T') \<and> bp_view T' Map.empty"
proof -
  obtain m where m: "master_inv m" "node_used m 1" "m_blocks m = 2"
    using first_master [of "\<lambda>_. True"] by blast
  define T where "T = leaf_tree m [(5, 9)]"
  have "tree_ok T (Lf 1 [(5, 9)])"
    unfolding T_def by (rule leaf_tree_ok [OF m]) (simp add: FANOUT_def topkey_def keys_ok_def)
  then have T: "bp_view T [5 \<mapsto> 9]" unfolding bp_view_def by (intro exI [of _ "Lf 1 [(5, 9)]"]) simp
  have "leaf_keeps 5 T"
    by (simp add: leaf_keeps_def T_def leaf_tree_def traverse_empty_def bp_read_node_def DATA_FLAG_def MAX_STACK_def numeral_eq_Suc)
  then show ?thesis using bptree_remove_correct [OF T, of 5] T by (auto simp: topkey_def)
qed

text \<open>C31: The descent of every tree ends in a leaf, and its stack never holds more than 14
  of the 128 offsets it has room for: an index node has at least two
  children, and the file has at most 32448 blocks.\<close>

theorem bptree_descent_bounded:
  assumes "bp_view T f" "0 < k" "k \<le> topkey"
  shows "\<exists>dp T1. traverse_empty k T = Some (dp, T1) \<and> i_flag dp = DATA_FLAG \<and> length (m_stack T1) < 15 \<and> 15 < MAX_STACK"
proof -
  obtain b where ok: "tree_ok T b" using assms(1) by (auto simp: bp_view_def)
  obtain o' xs c where d: "b = plug (Lf o' xs) c" "wfc c" "bwf (hlo c) (hhi c) (Lf o' xs)" "hlo c < k" "k \<le> hhi c"
    "leaf_node (bp_nodes T o') o' xs" "traverse_empty k T = Some (bp_nodes T o', T\<lparr>m_stack := map fst c\<rparr>)" "length c \<le> hgt b"
    by (rule tree_descend [OF ok assms(2,3)])
  show ?thesis using d(6-8) hgt_small [of T b "hgt b"] ok by (auto simp: leaf_node_def DATA_FLAG_def MAX_STACK_def tree_ok_def)
qed

theorem bptree_descent_bounded_witness:
  "\<exists>T dp T1. bp_create (\<lambda>_. True) = Some T \<and> traverse_empty 5 T = Some (dp, T1) \<and> i_flag dp = DATA_FLAG \<and> length (m_stack T1) < 15"
  using create_view [of "\<lambda>_. True"] bptree_descent_bounded [of _ Map.empty 5] by (fastforce simp: topkey_def)

end
