(* ===== verification/DirHash.thy ===== *)
theory DirHash
  imports Prelude
begin

text \<open>
  The hashes of file names, \<open>nvfuse_dirhash.c\<close> and \<open>nvfuse_dir_hash\<close> of \<open>nvfuse_core.c\<close>.
  The build uses the CRC-32C instruction of the processor (\<open>USE_INTEL_CRC32C\<close>); the
  three hashes inherited from ext2 (legacy, half MD4, TEA) can be called by their own
  entry \<open>ext2fs_dirhash\<close>.

  A name is the list of its bytes.  \<open>crc32_b\<close> and \<open>crc32_l\<close> are the instruction with an
  operand of one and of four bytes: the operand is combined with the register and the
  result is reduced, bit by bit, with the reflected polynomial.  \<open>BITS_PER_LONG\<close> is not
  defined where the file tests it, so the loop of \<open>crc32c_intel\<close> takes four bytes a time.
\<close>

unbundle bit_operations_syntax

section \<open>CRC-32C\<close>

definition CRC_POLY :: u32 where "CRC_POLY = 0x82F63B78"

definition crc_step :: "u32 \<Rightarrow> u32" where
  "crc_step x = drop_bit 1 x XOR (if bit x 0 then CRC_POLY else 0)"

primrec crc_bits :: "nat \<Rightarrow> u32 \<Rightarrow> u32" where
  "crc_bits 0 x = x"
| "crc_bits (Suc n) x = crc_bits n (crc_step x)"

definition crc32_b :: "u32 \<Rightarrow> u8 \<Rightarrow> u32" where
  "crc32_b crc b = crc_bits 8 (crc XOR ucast b)"

definition crc32_l :: "u32 \<Rightarrow> u32 \<Rightarrow> u32" where
  "crc32_l crc w = crc_bits 32 (crc XOR w)"

text \<open>The four bytes at a pointer to \<open>u32\<close>, on a little-endian machine.\<close>

definition load_u32 :: "u8 list \<Rightarrow> u32" where
  "load_u32 bs = ucast (bs ! 0) XOR push_bit 8 (ucast (bs ! 1)) XOR push_bit 16 (ucast (bs ! 2)) XOR push_bit 24 (ucast (bs ! 3))"

fun crc32c_intel_le_hw_byte :: "u32 \<Rightarrow> u8 list \<Rightarrow> nat \<Rightarrow> u32" where
  "crc32c_intel_le_hw_byte crc data 0 = crc"
| "crc32c_intel_le_hw_byte crc data (Suc len) = crc32c_intel_le_hw_byte (crc32_b crc (data ! 0)) (drop 1 data) len"

fun crc_words :: "nat \<Rightarrow> u32 \<Rightarrow> u8 list \<Rightarrow> u32 \<times> u8 list" where
  "crc_words 0 crc ptmp = (crc, ptmp)"
| "crc_words (Suc q) crc ptmp = crc_words q (crc32_l crc (load_u32 ptmp)) (drop 4 ptmp)"

definition crc32c_intel :: "u8 list \<Rightarrow> nat \<Rightarrow> u32" where
  "crc32c_intel data len =
    (case crc_words (len div 4) (NOT 0) data of (crc, ptmp) \<Rightarrow>
       if len mod 4 \<noteq> 0 then crc32c_intel_le_hw_byte crc ptmp (len mod 4) else crc)"

definition nvfuse_dir_hash :: "u8 list \<Rightarrow> u32 \<times> u32" where
  "nvfuse_dir_hash filename =
    (let half = length filename div 2
     in (crc32c_intel filename half, crc32c_intel (drop half filename) (length filename - half)))"

section \<open>The hashes of ext2\<close>

definition DELTA :: u32 where "DELTA = 0x9E3779B9"

text \<open>A buffer of four words is a tuple.\<close>

type_synonym quad = "u32 \<times> u32 \<times> u32 \<times> u32"

fun TEA_rounds :: "nat \<Rightarrow> u32 list \<Rightarrow> u32 \<Rightarrow> u32 \<Rightarrow> u32 \<Rightarrow> u32 \<times> u32" where
  "TEA_rounds 0 inp acc b0 b1 = (b0, b1)"
| "TEA_rounds (Suc n) inp acc b0 b1 =
    (let acc1 = acc + DELTA;
         b0' = b0 + ((push_bit 4 b1 + inp ! 0) XOR (b1 + acc1) XOR (drop_bit 5 b1 + inp ! 1));
         b1' = b1 + ((push_bit 4 b0' + inp ! 2) XOR (b0' + acc1) XOR (drop_bit 5 b0' + inp ! 3))
     in TEA_rounds n inp acc1 b0' b1')"

fun TEA_transform :: "quad \<Rightarrow> u32 list \<Rightarrow> quad" where
  "TEA_transform (buf0, buf1, buf2, buf3) inp =
    (case TEA_rounds 16 inp 0 buf0 buf1 of (b0, b1) \<Rightarrow> (buf0 + b0, buf1 + b1, buf2, buf3))"

definition md4_F :: "u32 \<Rightarrow> u32 \<Rightarrow> u32 \<Rightarrow> u32" where "md4_F x y z = z XOR (x AND (y XOR z))"
definition md4_G :: "u32 \<Rightarrow> u32 \<Rightarrow> u32 \<Rightarrow> u32" where "md4_G x y z = (x AND y) + ((x XOR y) AND z)"
definition md4_H :: "u32 \<Rightarrow> u32 \<Rightarrow> u32 \<Rightarrow> u32" where "md4_H x y z = x XOR y XOR z"

definition ROUND :: "(u32 \<Rightarrow> u32 \<Rightarrow> u32 \<Rightarrow> u32) \<Rightarrow> u32 \<Rightarrow> u32 \<Rightarrow> u32 \<Rightarrow> u32 \<Rightarrow> u32 \<Rightarrow> nat \<Rightarrow> u32" where
  "ROUND f a b c d x s = (let a' = a + (f b c d + x) in push_bit s a' OR drop_bit (32 - s) a')"

definition K1 :: u32 where "K1 = 0"
definition K2 :: u32 where "K2 = 0x5A827999"
definition K3 :: u32 where "K3 = 0x6ED9EBA1"

text \<open>Four steps of a round: the words at the given positions, with the shifts of the
  round, change \<open>a\<close>, \<open>d\<close>, \<open>c\<close> and \<open>b\<close> in this order.\<close>

fun four_rounds :: "(u32 \<Rightarrow> u32 \<Rightarrow> u32 \<Rightarrow> u32) \<Rightarrow> u32 \<Rightarrow> u32 list \<Rightarrow> nat \<times> nat \<times> nat \<times> nat \<Rightarrow> nat \<times> nat \<times> nat \<times> nat \<Rightarrow> quad \<Rightarrow> quad" where
  "four_rounds f k inp (i0, i1, i2, i3) (s0, s1, s2, s3) (a, b, c, d) =
    (let a = ROUND f a b c d (inp ! i0 + k) s0;
         d = ROUND f d a b c (inp ! i1 + k) s1;
         c = ROUND f c d a b (inp ! i2 + k) s2;
         b = ROUND f b c d a (inp ! i3 + k) s3
     in (a, b, c, d))"

fun quad_add :: "quad \<Rightarrow> quad \<Rightarrow> quad" where
  "quad_add (p, q, r, s) (a, b, c, d) = (p + a, q + b, r + c, s + d)"

definition halfMD4Transform :: "quad \<Rightarrow> u32 list \<Rightarrow> quad" where
  "halfMD4Transform buf inp =
    (let r1 = four_rounds md4_F K1 inp (0, 1, 2, 3) (3, 7, 11, 19) buf;
         r2 = four_rounds md4_F K1 inp (4, 5, 6, 7) (3, 7, 11, 19) r1;
         r3 = four_rounds md4_G K2 inp (1, 3, 5, 7) (3, 5, 9, 13) r2;
         r4 = four_rounds md4_G K2 inp (0, 2, 4, 6) (3, 5, 9, 13) r3;
         r5 = four_rounds md4_H K3 inp (3, 7, 2, 6) (3, 9, 11, 15) r4;
         r6 = four_rounds md4_H K3 inp (1, 5, 0, 4) (3, 9, 11, 15) r5
     in quad_add buf r6)"

text \<open>A byte read through the unsigned or the signed pointer, as an \<open>int\<close>.\<close>

definition read_char :: "bool \<Rightarrow> u8 \<Rightarrow> u32" where
  "read_char unsigned_flag b = (if unsigned_flag then ucast b else scast b)"

fun hack_loop :: "bool \<Rightarrow> u8 list \<Rightarrow> u32 \<Rightarrow> u32 \<Rightarrow> u32" where
  "hack_loop fl [] hash0 hash1 = hash0"
| "hack_loop fl (b # bs) hash0 hash1 =
    (let hash = hash1 + (hash0 XOR (read_char fl b * 7152373));
         hash' = (if hash AND 0x80000000 \<noteq> 0 then hash - 0x7fffffff else hash)
     in hack_loop fl bs hash' hash0)"

definition dx_hack_hash :: "u8 list \<Rightarrow> bool \<Rightarrow> u32" where
  "dx_hack_hash name fl = push_bit 1 (hack_loop fl name 0x12a3fe2d 0x37abe8f9)"

text \<open>The loop of \<open>str2hashbuf\<close> from position \<open>i\<close>: the bytes that remain, the word under
  construction and the words stored so far.\<close>

fun hashbuf_loop :: "bool \<Rightarrow> u32 \<Rightarrow> nat \<Rightarrow> u8 list \<Rightarrow> u32 \<Rightarrow> u32 list \<Rightarrow> u32 \<times> u32 list" where
  "hashbuf_loop fl pad i [] val buf = (val, buf)"
| "hashbuf_loop fl pad i (b # bs) val buf =
    (let val1 = (if i mod 4 = 0 then pad else val);
         val2 = read_char fl b + push_bit 8 val1
     in if i mod 4 = 3 then hashbuf_loop fl pad (i + 1) bs pad (buf @ [val2])
        else hashbuf_loop fl pad (i + 1) bs val2 buf)"

definition hash_pad :: "nat \<Rightarrow> u32" where
  "hash_pad len = (let p = word_of_nat len OR push_bit 8 (word_of_nat len) in p OR push_bit 16 p)"

definition str2hashbuf :: "u8 list \<Rightarrow> nat \<Rightarrow> bool \<Rightarrow> u32 list" where
  "str2hashbuf msg num fl =
    (let pad = hash_pad (length msg) in
     case hashbuf_loop fl pad 0 (take (num * 4) msg) pad [] of (val, buf) \<Rightarrow>
       buf @ (if num - length buf = 0 then [] else val # replicate (num - length buf - 1) pad))"

fun MD4_loop :: "bool \<Rightarrow> u8 list \<Rightarrow> quad \<Rightarrow> quad" where
  "MD4_loop fl [] buf = buf"
| "MD4_loop fl (b # bs) buf = MD4_loop fl (drop 31 bs) (halfMD4Transform buf (str2hashbuf (b # bs) 8 fl))"

fun TEA_loop :: "bool \<Rightarrow> u8 list \<Rightarrow> quad \<Rightarrow> quad" where
  "TEA_loop fl [] buf = buf"
| "TEA_loop fl (b # bs) buf = TEA_loop fl (drop 15 bs) (TEA_transform buf (str2hashbuf (b # bs) 4 fl))"

definition hash_seed :: "quad option \<Rightarrow> quad" where
  "hash_seed seed = (case seed of
      Some s \<Rightarrow> if s \<noteq> (0, 0, 0, 0) then s else (0x67452301, 0xefcdab89, 0x98badcfe, 0x10325476)
    | None \<Rightarrow> (0x67452301, 0xefcdab89, 0x98badcfe, 0x10325476))"

text \<open>The hash and the minor hash; \<open>None\<close> for the minor hash when it is not written.\<close>

definition ext2fs_dirhash :: "nat \<Rightarrow> u8 list \<Rightarrow> quad option \<Rightarrow> u32 \<times> u32 option" where
  "ext2fs_dirhash version name seed =
    (let buf = hash_seed seed in
     if version = 3 \<or> version = 0 then (dx_hack_hash name (version = 3) AND NOT 1, Some 0)
     else if version = 4 \<or> version = 1 then
       (case MD4_loop (version = 4) name buf of (b0, b1, b2, b3) \<Rightarrow> (b1 AND NOT 1, Some b2))
     else if version = 5 \<or> version = 2 then
       (case TEA_loop (version = 5) name buf of (b0, b1, b2, b3) \<Rightarrow> (b0 AND NOT 1, Some b1))
     else (0, None))"

section \<open>The loop of four bytes is the loop of one byte\<close>

lemma crc_step_xor: "crc_step (x XOR y) = crc_step x XOR crc_step y"
  by (rule bit_word_eqI) (auto simp: crc_step_def bit_xor_iff drop_bit_xor)

lemma crc_bits_xor: "crc_bits n (x XOR y) = crc_bits n x XOR crc_bits n y"
  by (induction n arbitrary: x y) (simp_all add: crc_step_xor)

lemma crc_bits_add: "crc_bits (m + n) x = crc_bits n (crc_bits m x)"
  by (induction m arbitrary: x) simp_all

lemma crc_step_push: "crc_step (push_bit (Suc n) x) = drop_bit 1 (push_bit (Suc n) x)"
  by (simp add: crc_step_def bit_push_bit_iff del: push_bit_Suc)

lemma crc_step_byte: "n + 8 \<le> 31 \<Longrightarrow> crc_step (push_bit (Suc n) (ucast (b::u8))) = push_bit n (ucast b)"
  unfolding crc_step_push
  by (rule bit_word_eqI) (auto simp: bit_simps simp del: push_bit_Suc dest: bit_imp_le_length)

lemma crc_bits_byte: "m + n + 8 \<le> 32 \<Longrightarrow> crc_bits m (push_bit (m + n) (ucast (b::u8))) = push_bit n (ucast b)"
proof (induction m)
  case (Suc m)
  then show ?case using crc_step_byte [of "m + n" b] by simp
qed simp

lemma crc32_l_bytes:
  "crc32_l crc (load_u32 [a, b, c, d]) = crc32_b (crc32_b (crc32_b (crc32_b crc a) b) c) d"
proof -
  have s: "crc_bits 8 (push_bit 24 (ucast d)) = push_bit 16 (ucast d)" "crc_bits 8 (push_bit 16 (ucast c)) = push_bit 8 (ucast c)"
      "crc_bits 8 (push_bit 8 (ucast b)) = ucast b" for b c d :: u8
    using crc_bits_byte [of 8 16 d] crc_bits_byte [of 8 8 c] crc_bits_byte [of 8 0 b] by simp_all
  have "crc32_l crc (load_u32 [a, b, c, d]) =
      crc_bits 24 (crc_bits 8 ((crc XOR ucast a) XOR push_bit 8 (ucast b) XOR push_bit 16 (ucast c) XOR push_bit 24 (ucast d)))"
    using crc_bits_add [of 8 24] by (simp add: crc32_l_def load_u32_def xor.assoc numeral_eq_Suc)
  also have "\<dots> = crc_bits 16 (crc_bits 8 ((crc32_b crc a XOR ucast b) XOR push_bit 8 (ucast c) XOR push_bit 16 (ucast d)))"
    using crc_bits_add [of 8 16] by (simp add: crc_bits_xor s crc32_b_def xor.assoc)
  also have "\<dots> = crc_bits 8 (crc_bits 8 ((crc32_b (crc32_b crc a) b XOR ucast c) XOR push_bit 8 (ucast d)))"
    using crc_bits_add [of 8 8] by (simp add: crc_bits_xor s crc32_b_def xor.assoc)
  also have "\<dots> = crc32_b (crc32_b (crc32_b (crc32_b crc a) b) c) d"
    by (simp add: crc_bits_xor s crc32_b_def)
  finally show ?thesis .
qed

lemma hw_byte_fold: "n \<le> length bs \<Longrightarrow> crc32c_intel_le_hw_byte crc bs n = foldl crc32_b crc (take n bs)"
proof (induction n arbitrary: crc bs)
  case (Suc n)
  then show ?case by (cases bs) simp_all
qed simp

lemma crc_words_fold:
  "4 * q \<le> length bs \<Longrightarrow> crc_words q crc bs = (foldl crc32_b crc (take (4 * q) bs), drop (4 * q) bs)"
proof (induction q arbitrary: crc bs)
  case (Suc q)
  then have "4 \<le> length bs" by simp
  then obtain a b c d rest where bs: "bs = a # b # c # d # rest"
    by (metis (no_types, opaque_lifting) Suc_le_length_iff numeral_eq_Suc pred_numeral_simps BitM.simps eval_nat_numeral(2,3) numeral_One)
  have "load_u32 bs = load_u32 [a, b, c, d]" by (simp add: bs load_u32_def)
  then have l: "crc32_l crc (load_u32 bs) = crc32_b (crc32_b (crc32_b (crc32_b crc a) b) c) d"
    by (simp add: crc32_l_bytes)
  have t: "4 * Suc q = Suc (Suc (Suc (Suc (4 * q))))" by simp
  show ?case using Suc.IH [of rest] Suc.prems unfolding t by (simp add: l) (simp add: bs)
qed simp

lemma crc32c_intel_fold:
  assumes "len \<le> length data"
  shows "crc32c_intel data len = foldl crc32_b (NOT 0) (take len data)"
proof -
  have q: "4 * (len div 4) \<le> length data" using assms by (metis div_times_less_eq_dividend le_trans mult.commute)
  have r: "len mod 4 \<le> length (drop (4 * (len div 4)) data)" using assms by (simp add: minus_mult_div_eq_mod [symmetric] diff_le_mono)
  have s: "take len data = take (4 * (len div 4)) data @ take (len mod 4) (drop (4 * (len div 4)) data)"
    by (metis mult_div_mod_eq take_add)
  show ?thesis by (simp add: crc32c_intel_def crc_words_fold [OF q] hw_byte_fold [OF r] s)
qed

text \<open>C32: \<open>crc32c_intel\<close>, which takes four bytes a time and then the remaining ones, is the
  CRC-32C of the bytes taken one by one.\<close>

theorem crc32c_intel_bytewise:
  assumes "len \<le> length data"
  shows "crc32c_intel data len = foldl crc32_b (NOT 0) (take len data)"
  by (rule crc32c_intel_fold [OF assms])

theorem crc32c_intel_bytewise_witness:
  "crc32c_intel [0x66, 0x69, 0x6c, 0x65, 0x31] 5 = foldl crc32_b (NOT 0) [0x66, 0x69, 0x6c, 0x65, 0x31]"
  using crc32c_intel_bytewise [of 5 "[0x66, 0x69, 0x6c, 0x65, 0x31]"] by simp

section \<open>Bounds of the other hashes\<close>

lemma hashbuf_loop_length:
  "length (snd (hashbuf_loop fl pad i bs val buf)) = length buf + (i mod 4 + length bs) div 4"
proof (induction bs arbitrary: i val buf)
  case (Cons b bs)
  show ?case
  proof (cases "i mod 4 = 3")
    case True
    then have "(i + 1) mod 4 = 0" by presburger
    with True show ?thesis by (simp add: Cons.IH Let_def)
  next
    case False
    then have "(i + 1) mod 4 = i mod 4 + 1" by presburger
    with False show ?thesis by (simp add: Cons.IH Let_def)
  qed
qed simp

text \<open>\<open>str2hashbuf\<close> fills exactly the \<open>num\<close> words of the buffer it is given, whatever
  the length of the name, so the arrays of eight and of four words are never overrun
  and never left partly uninitialised.\<close>

theorem str2hashbuf_fills: "length (str2hashbuf msg num fl) = num"
proof -
  obtain val buf where e: "hashbuf_loop fl (hash_pad (length msg)) 0 (take (num * 4) msg) (hash_pad (length msg)) [] = (val, buf)"
    by fastforce
  have "length buf \<le> num"
    using hashbuf_loop_length [of fl "hash_pad (length msg)" 0 "take (num * 4) msg" "hash_pad (length msg)" "[]"]
    unfolding e by auto
  then show ?thesis by (simp add: str2hashbuf_def e Let_def)
qed

end
