(* ===== verification/DirIndex.thy ===== *)
theory DirIndex
  imports BpMap DirHash
begin

text \<open>
  The index of a directory, \<open>nvfuse_core.c\<close>: \<open>nvfuse_set_dir_indexing\<close>,
  \<open>nvfuse_get_dir_indexing\<close>, \<open>nvfuse_update_dir_indexing\<close> and
  \<open>nvfuse_del_dir_indexing\<close>.  The index maps the 64-bit hash of a name to a 32-bit item:
  the low 30 bits are the position of the directory entry, the two high bits count
  further names with the same hash.  As soon as two names collide the position is given
  up and set to 0, and a lookup scans the directory from its first entry.

  The tree argument is the tree of the directory, as \<open>bp_read_master\<close> loads it and
  \<open>bp_write_master\<close> stores it.
\<close>

definition NVFUSE_BP_LOW_BITS :: nat where "NVFUSE_BP_LOW_BITS = 32"
definition NVFUSE_BP_COLLISION_BITS :: nat where "NVFUSE_BP_COLLISION_BITS = 2"

definition collision_mask :: nat where
  "collision_mask = 2 ^ (NVFUSE_BP_LOW_BITS - NVFUSE_BP_COLLISION_BITS)"

definition dir_key :: "u8 list \<Rightarrow> key" where
  "dir_key filename = (case nvfuse_dir_hash filename of (h0, h1) \<Rightarrow> unat h0 + 2 ^ 32 * unat h1)"

text \<open>The counter of an item, an item without its counter, and the item of a counter: the
  shift to the left is made on 32 bits.\<close>

definition item_count :: "item \<Rightarrow> nat" where
  "item_count it = it div collision_mask"

definition item_offset :: "item \<Rightarrow> nat" where
  "item_offset it = it mod collision_mask"

definition count_item :: "nat \<Rightarrow> item" where
  "count_item c = (c * collision_mask) mod 2 ^ NVFUSE_BP_LOW_BITS"

definition nvfuse_set_dir_indexing :: "u8 list \<Rightarrow> nat \<Rightarrow> bptree \<Rightarrow> bptree option" where
  "nvfuse_set_dir_indexing filename off t =
    bp_insert_key_tree (\<lambda>_. True) (dir_key filename) (item_offset off) False t \<bind>
      (\<lambda>(r, cur_offset, t1). if r < 0
         then bp_update_key_tree (dir_key filename) (count_item (item_count (the cur_offset) + 1)) t1
         else Some t1)"

definition is_dot :: "u8 list \<Rightarrow> bool" where
  "is_dot filename = (filename = [0x2e] \<or> filename = [0x2e, 0x2e])"

text \<open>The result code and the position.\<close>

definition nvfuse_get_dir_indexing :: "u8 list \<Rightarrow> bptree \<Rightarrow> (int \<times> nat \<times> bptree) option" where
  "nvfuse_get_dir_indexing filename t =
    (if is_dot filename then Some (0, 0, t)
     else bp_find_key (dir_key filename) t \<bind> (\<lambda>(i, it, t1).
       if i < 0 then Some (-1, it, t1)
       else Some (0, if item_count it \<noteq> 0 then 0 else item_offset it, t1)))"

text \<open>The function named update looks the position up and changes nothing.\<close>

definition nvfuse_update_dir_indexing :: "u8 list \<Rightarrow> bptree \<Rightarrow> (int \<times> nat \<times> bptree) option" where
  "nvfuse_update_dir_indexing filename t =
    (if is_dot filename then Some (0, 0, t)
     else bp_find_key (dir_key filename) t \<bind> (\<lambda>(i, it, t1).
       if i < 0 then Some (-1, it, t1)
       else Some (0, if item_count it \<noteq> 0 then 0 else item_offset it, t1)))"

definition nvfuse_del_dir_indexing :: "u8 list \<Rightarrow> bptree \<Rightarrow> (int \<times> bptree) option" where
  "nvfuse_del_dir_indexing filename t =
    bp_find_key (dir_key filename) t \<bind> (\<lambda>(i, it, t1).
      if i < 0 then Some (-1, t1)
      else (if item_count it = 0 then bp_remove_key (dir_key filename) t1 \<bind> (\<lambda>(r, t2). Some t2)
            else bp_update_key_tree (dir_key filename) (count_item (item_count it - 1) + item_offset it) t1)
        \<bind> (\<lambda>t2. Some (0, t2)))"

section \<open>The index represents a directory\<close>

text \<open>\<open>D\<close> maps the names in the directory to the positions of their entries.  Names with
  the same hash share an item; it counts them, and has the exact position as long as there
  has been no collision.\<close>

definition same_key :: "(u8 list \<rightharpoonup> nat) \<Rightarrow> key \<Rightarrow> u8 list set" where
  "same_key D k = {n \<in> dom D. dir_key n = k}"

definition item_ok :: "(u8 list \<rightharpoonup> nat) \<Rightarrow> u8 list set \<Rightarrow> item option \<Rightarrow> bool" where
  "item_ok D N x \<longleftrightarrow> (case x of
      None \<Rightarrow> N = {}
    | Some it \<Rightarrow> N \<noteq> {} \<and> item_count it + 1 = card N \<and> (item_offset it = 0 \<or> (\<exists>n. N = {n} \<and> D n = Some (item_offset it))))"

definition index_ok :: "bptree \<Rightarrow> (u8 list \<rightharpoonup> nat) \<Rightarrow> bool" where
  "index_ok T D \<longleftrightarrow> finite (dom D) \<and> (\<exists>f. bp_view T f \<and> (\<forall>k. card (same_key D k) \<le> 4 \<and> item_ok D (same_key D k) (f k)))"

lemma dir_key_le: "dir_key n \<le> topkey"
proof -
  obtain a b where ab: "nvfuse_dir_hash n = (a, b)" by fastforce
  have "unat a < 2 ^ 32" "unat b < 2 ^ 32" using unsigned_less [of a, where ?'a = nat] unsigned_less [of b, where ?'a = nat] by simp_all
  then show ?thesis by (simp add: dir_key_def ab topkey_def)
qed

lemma good_dir_key: "0 < dir_key n \<Longrightarrow> good_key (dir_key n)"
  using dir_key_le by (simp add: good_key_def)

lemmas item_defs = item_count_def item_offset_def count_item_def collision_mask_def NVFUSE_BP_LOW_BITS_def NVFUSE_BP_COLLISION_BITS_def

lemma item_of_offset [simp]: "item_count (item_offset v) = 0" "item_offset (item_offset v) = item_offset v"
  by (simp_all add: item_defs)

lemma item_of_count: "c < 4 \<Longrightarrow> item_count (count_item c) = c" "item_offset (count_item c) = 0"
proof -
  show "item_count (count_item c) = c" if "c < 4"
  proof -
    have "c * 2 ^ 30 < 2 ^ 32" using that by simp
    then show ?thesis by (simp add: item_defs)
  qed
  have "(2::nat) ^ 30 dvd 2 ^ 32" by (rule le_imp_power_dvd) simp
  then have "c * 2 ^ 30 mod 2 ^ 32 mod 2 ^ 30 = (0::nat)" by (simp only: mod_mod_cancel) simp
  then show "item_offset (count_item c) = 0" by (simp add: item_defs)
qed

lemma item_of_both:
  assumes "c < 4" "off < collision_mask"
  shows "item_count (count_item c + off) = c" "item_offset (count_item c + off) = off"
proof -
  have "c * 2 ^ 30 mod 2 ^ 32 = c * 2 ^ (30::nat)" using assms(1) by simp
  then have e: "count_item c = c * 2 ^ 30" by (simp only: item_defs) simp
  show "item_count (count_item c + off) = c" "item_offset (count_item c + off) = off"
    using assms(2) unfolding e by (simp_all add: item_defs)
qed

lemma item_offset_less: "item_offset it < collision_mask"
  by (simp add: item_defs)

lemma same_key_add: "n \<notin> dom D \<Longrightarrow> same_key (D(n \<mapsto> v)) k = (if k = dir_key n then insert n (same_key D k) else same_key D k)"
  by (auto simp: same_key_def)

lemma same_key_del: "same_key (D(n := None)) k = same_key D k - {n}"
  by (auto simp: same_key_def)

lemma same_key_finite: "finite (dom D) \<Longrightarrow> finite (same_key D k)"
  by (simp add: same_key_def)

lemma item_ok_cong: "(\<forall>n\<in>N. D n = D' n) \<Longrightarrow> item_ok D N x = item_ok D' N x"
  by (auto simp: item_ok_def split: option.splits)

section \<open>The operations\<close>

lemma set_index:
  assumes ok: "index_ok T D" and new: "n \<notin> dom D" and k: "0 < dir_key n" and off: "off < collision_mask"
    and few: "card (same_key D (dir_key n)) < 4" and room: "has_room T"
  shows "\<exists>T'. nvfuse_set_dir_indexing n off T = Some T' \<and> index_ok T' (D(n \<mapsto> off))"
proof -
  let ?k = "dir_key n"
  obtain f where f: "bp_view T f" "\<And>k. card (same_key D k) \<le> 4" "\<And>k. item_ok D (same_key D k) (f k)"
    and fin: "finite (dom D)" using ok by (auto simp: index_ok_def)
  let ?v = "case f ?k of None \<Rightarrow> item_offset off | Some w \<Rightarrow> count_item (item_count w + 1)"
  obtain T' where T': "nvfuse_set_dir_indexing n off T = Some T'" "bp_view T' (f(?k \<mapsto> ?v))"
    using bp.insert_or_update [OF f(1) good_dir_key [OF k] room, of "item_offset off" "\<lambda>w. count_item (item_count w + 1)"]
    unfolding nvfuse_set_dir_indexing_def by blast
  have nn: "n \<notin> same_key D ?k" using new by (simp add: same_key_def)
  have c: "card (insert n (same_key D ?k)) = Suc (card (same_key D ?k))" using nn same_key_finite [OF fin] by simp
  have o': "item_offset off = off" using off by (simp add: item_offset_def)
  have "item_ok (D(n \<mapsto> off)) (insert n (same_key D ?k)) (Some ?v)"
  proof (cases "f ?k")
    case None
    then have "same_key D ?k = {}" using f(3) [of ?k] by (simp add: item_ok_def)
    then show ?thesis using None by (simp add: item_ok_def o' item_count_def off)
  next
    case (Some w)
    then have "item_count w + 1 = card (same_key D ?k)" using f(3) [of ?k] by (simp add: item_ok_def)
    then show ?thesis using Some few c by (simp add: item_ok_def item_of_count)
  qed
  moreover have "item_ok (D(n \<mapsto> off)) (same_key D k) (f k)" if "k \<noteq> ?k" for k
    using f(3) [of k] that item_ok_cong [of "same_key D k" D "D(n \<mapsto> off)" "f k"] new by (auto simp: same_key_def)
  ultimately have "\<forall>k. card (same_key (D(n \<mapsto> off)) k) \<le> 4 \<and> item_ok (D(n \<mapsto> off)) (same_key (D(n \<mapsto> off)) k) ((f(?k \<mapsto> ?v)) k)"
    using f(2) few c by (auto simp: same_key_add [OF new])
  then show ?thesis using T' fin unfolding index_ok_def by (metis dom_fun_upd finite_insert option.discI)
qed

lemma get_index:
  assumes ok: "index_ok T D" and k: "0 < dir_key n" and nd: "\<not> is_dot n"
  shows "\<exists>r p. nvfuse_get_dir_indexing n T = Some (r, p, T)
    \<and> (if same_key D (dir_key n) = {} then r = -1 else r = 0 \<and> (\<forall>v. D n = Some v \<longrightarrow> p = v \<or> p = 0))"
proof -
  let ?k = "dir_key n"
  obtain f where f: "bp_view T f" "item_ok D (same_key D ?k) (f ?k)" using ok by (auto simp: index_ok_def)
  show ?thesis
  proof (cases "f ?k")
    case None
    then have "same_key D ?k = {}" using f(2) by (simp add: item_ok_def)
    then show ?thesis using bp.fnd_none [OF f(1) good_dir_key [OF k] None] nd by (auto simp: nvfuse_get_dir_indexing_def)
  next
    case (Some it)
    then have it: "same_key D ?k \<noteq> {}" "item_offset it = 0 \<or> (\<exists>n. same_key D ?k = {n} \<and> D n = Some (item_offset it))"
      using f(2) by (auto simp: item_ok_def)
    have "n \<in> same_key D ?k" if "D n = Some v" for v using that by (auto simp: same_key_def)
    then have p: "\<forall>v. D n = Some v \<longrightarrow> item_offset it = v \<or> item_offset it = 0" using it(2) by fastforce
    show ?thesis using bp.fnd_some [OF f(1) good_dir_key [OF k] Some] nd it(1) p by (auto simp: nvfuse_get_dir_indexing_def split: if_splits)
  qed
qed

lemma del_index:
  assumes ok: "index_ok T D" and old: "n \<in> dom D" and k: "0 < dir_key n" and keep: "leaf_keeps (dir_key n) T"
  shows "\<exists>T'. nvfuse_del_dir_indexing n T = Some (0, T') \<and> index_ok T' (D(n := None))"
proof -
  let ?k = "dir_key n" and ?D = "D(n := None)"
  obtain f where f: "bp_view T f" "\<And>k. card (same_key D k) \<le> 4" "\<And>k. item_ok D (same_key D k) (f k)"
    and fin: "finite (dom D)" using ok by (auto simp: index_ok_def)
  have nn: "n \<in> same_key D ?k" using old by (simp add: same_key_def)
  obtain it where it: "f ?k = Some it" "item_count it + 1 = card (same_key D ?k)"
      "item_offset it = 0 \<or> (\<exists>n. same_key D ?k = {n} \<and> D n = Some (item_offset it))"
    using f(3) [of ?k] nn by (auto simp: item_ok_def split: option.splits)
  have c: "card (same_key D ?k - {n}) = item_count it" using it(2) nn same_key_finite [OF fin] by simp
  have others: "item_ok ?D (same_key ?D k) (f k)" if "k \<noteq> ?k" for k
  proof -
    have "n \<notin> same_key D k" using that by (auto simp: same_key_def)
    then show ?thesis using f(3) [of k] item_ok_cong [of "same_key D k" D ?D "f k"] by (simp add: same_key_del)
  qed
  have card4: "card (same_key ?D k) \<le> 4" for k
    using f(2) [of k] card_mono [OF same_key_finite [OF fin], of "same_key D k - {n}" k] by (simp add: same_key_del)
  define x where "x = (if item_count it = 0 then None else Some (count_item (item_count it - 1) + item_offset it))"
  have "item_ok ?D (same_key ?D ?k) x"
  proof (cases "item_count it = 0")
    case True
    then show ?thesis using c same_key_finite [OF fin] by (simp add: x_def item_ok_def same_key_del)
  next
    case False
    then have z: "item_offset it = 0" using it(2,3) by fastforce
    have "item_count it - 1 < 4" using f(2) [of ?k] it(2) by simp
    note i = item_of_count(1) [OF this] item_of_count(2)
    have "same_key D ?k - {n} \<noteq> {}" using False c by (metis card.empty)
    then show ?thesis using False c by (simp add: x_def item_ok_def same_key_del i [simplified] z)
  qed
  then have "\<forall>k. card (same_key ?D k) \<le> 4 \<and> item_ok ?D (same_key ?D k) ((f(?k := x)) k)" using others card4 by simp
  moreover have "\<exists>T'. nvfuse_del_dir_indexing n T = Some (0, T') \<and> bp_view T' (f(?k := x))"
  proof (cases "item_count it = 0")
    case True
    then show ?thesis using bp.find_then_remove [OF f(1) good_dir_key [OF k] it(1) keep]
      by (auto simp: nvfuse_del_dir_indexing_def x_def)
  next
    case False
    then show ?thesis using bp.find_then_update [OF f(1) good_dir_key [OF k] it(1), of "count_item (item_count it - 1) + item_offset it"]
      by (auto simp: nvfuse_del_dir_indexing_def x_def)
  qed
  ultimately show ?thesis using fin unfolding index_ok_def by (metis dom_fun_upd finite_Diff)
qed

lemma empty_index: "bp_view T Map.empty \<Longrightarrow> index_ok T Map.empty"
  by (auto simp: index_ok_def same_key_def item_ok_def intro!: exI [of _ Map.empty])

section \<open>Properties\<close>


lemma dir_key_a: "0 < dir_key [0x61]"
proof -
  have "nvfuse_dir_hash [0x61] = (NOT 0, crc32_b (NOT 0) 0x61)"
    by (simp add: nvfuse_dir_hash_def crc32c_intel_def)
  moreover have "0 < unat (- 1 :: u32)" by (simp add: unsigned_minus_1_eq_mask mask_eq_exp_minus_1)
  ultimately show ?thesis by (simp add: dir_key_def)
qed


text \<open>The counter of names that share a hash has two bits and wraps.  When four names of
  the directory have the hash of a new one, adding the name and deleting it again removes
  the item, and from then on the lookup of each of the four answers that it is not in the
  directory.\<close>

theorem collision_counter_wraps:
  assumes "index_ok T D" "card (same_key D (dir_key n)) = 4" "n \<notin> dom D" "0 < dir_key n" "has_room T" "\<not> is_dot m"
    and "m \<in> same_key D (dir_key n)" "nvfuse_set_dir_indexing n off T = Some T1" "leaf_keeps (dir_key n) T1"
  shows "\<exists>T2 p. nvfuse_del_dir_indexing n T1 = Some (0, T2) \<and> nvfuse_get_dir_indexing m T2 = Some (-1, p, T2)"
proof -
  let ?k = "dir_key n"
  obtain f where f: "bp_view T f" "item_ok D (same_key D ?k) (f ?k)" using assms(1) by (auto simp: index_ok_def)
  obtain it where it: "f ?k = Some it" "item_count it + 1 = 4" using f(2) assms(2) by (auto simp: item_ok_def split: option.splits)
  have z: "count_item (item_count it + 1) = 0" unfolding it(2) by (simp add: item_defs)
  have v: "bp_view T1 (f(?k \<mapsto> 0))"
    using bp.insert_or_update [OF f(1) good_dir_key [OF assms(4)] assms(5), of "item_offset off" "\<lambda>w. count_item (item_count w + 1)"]
      assms(8) unfolding nvfuse_set_dir_indexing_def by (simp add: it(1) z [simplified])
  have z0: "item_count 0 = 0" by (simp add: item_defs)
  obtain T2 where T2: "nvfuse_del_dir_indexing n T1 = Some (0, T2)" "bp_view T2 (f(?k := None))"
    using bp.find_then_remove [OF v good_dir_key [OF assms(4)] _ assms(9), of 0] z0 by (auto simp: nvfuse_del_dir_indexing_def)
  have m: "dir_key m = ?k" using assms(7) by (simp add: same_key_def)
  have "\<exists>p. nvfuse_get_dir_indexing m T2 = Some (-1, p, T2)"
    using bp.fnd_none [OF T2(2) good_dir_key [OF assms(4)]] m assms(6) by (auto simp: nvfuse_get_dir_indexing_def)
  then show ?thesis using T2(1) by blast
qed

text \<open>Five names with one hash, and the index of the first four in a tree with a single
  leaf.\<close>

definition half_a :: "u8 list" where "half_a = [0x61, 0x61, 0x61, 0x61, 0x61]"
definition half_b :: "u8 list" where "half_b = [0x48, 0x73, 0x34, 0x6e, 0x39]"
definition half_c :: "u8 list" where "half_c = [0x6e, 0x45, 0x5d, 0x72, 0x3f]"

lemma halves_collide:
  "foldl crc32_b (NOT 0) half_b = foldl crc32_b (NOT 0) half_a"
  "foldl crc32_b (NOT 0) half_c = foldl crc32_b (NOT 0) half_a"
  by code_simp+

lemma half_hash: "length x = 5 \<Longrightarrow> length y = 5 \<Longrightarrow> nvfuse_dir_hash (x @ y) = (foldl crc32_b (NOT 0) x, foldl crc32_b (NOT 0) y)"
  using crc32c_intel_fold [of 5 "x @ y"] crc32c_intel_fold [of 5 y] by (simp add: nvfuse_dir_hash_def)

lemma half_a_key: "0 < dir_key (half_a @ half_a)"
proof -
  have "foldl crc32_b (NOT 0) half_a \<noteq> 0" by code_simp
  moreover have "length half_a = 5" by (simp add: half_a_def)
  moreover have "x \<noteq> 0 \<Longrightarrow> 0 < unat x" for x :: u32 by (metis neq0_conv unsigned_eq_0_iff)
  ultimately show ?thesis by (simp add: dir_key_def half_hash)
qed

lemma half_key:
  assumes "x \<in> {half_a, half_b, half_c}" "y \<in> {half_a, half_b, half_c}"
  shows "dir_key (x @ y) = dir_key (half_a @ half_a)"
proof -
  have l: "length x = 5" "length y = 5" using assms by (auto simp: half_a_def half_b_def half_c_def)
  have la: "length half_a = 5" by (simp add: half_a_def)
  have z: "foldl crc32_b (NOT 0) z = foldl crc32_b (NOT 0) half_a" if "z \<in> {half_a, half_b, half_c}" for z
    using that halves_collide by blast
  show ?thesis unfolding dir_key_def half_hash [OF l] half_hash [OF la la] z [OF assms(1)] z [OF assms(2)] ..
qed

lemma leaf_tree_search:
  "traverse_empty k (leaf_tree m [(k', w)]) = Some (bp_nodes (leaf_tree m [(k', w)]) 1, leaf_tree m [(k', w)])"
  by (simp add: leaf_tree_def traverse_empty_def bp_read_node_def DATA_FLAG_def MAX_STACK_def numeral_eq_Suc)

lemma leaf_tree_pair: "get_pair_tree (bp_nodes (leaf_tree m [(k, w)]) 1) k = 0"
  by (simp add: leaf_tree_def get_pair_tree_def bin_search_def bin_search_loop.simps key_compare_def pad_def)

lemma leaf_tree_ops:
  "bp_insert_key_tree (\<lambda>_. True) k v False (leaf_tree m [(k, w)]) = Some (-1, Some w, leaf_tree m [(k, w)])"
  "bp_update_key_tree k v (leaf_tree m [(k, w)]) = Some (leaf_tree m [(k, v)])"
  "leaf_keeps k (leaf_tree m [(k, w)])"
  unfolding bp_insert_key_tree_def bp_update_key_tree_def leaf_keeps_def leaf_tree_search
  by (simp_all add: leaf_tree_pair [unfolded One_nat_def] Let_def) (simp_all add: leaf_tree_def pad_def bp_write_node_def DATA_FLAG_def)

lemma collision_index:
  assumes "master_inv m" "node_used m 1" "m_blocks m = 2" "k = dir_key (half_a @ half_a)" "0 < k"
    and "D = (\<lambda>n. if n \<in> {half_a @ half_b, half_b @ half_a, half_b @ half_b, half_a @ half_c} then Some 0 else None)"
  shows "index_ok (leaf_tree m [(k, count_item 3)]) D \<and> same_key D k = {half_a @ half_b, half_b @ half_a, half_b @ half_b, half_a @ half_c}"
proof -
  let ?N = "{half_a @ half_b, half_b @ half_a, half_b @ half_b, half_a @ half_c}"
  have d: "dom D = ?N" by (auto simp: assms(6) split: if_splits)
  have "dir_key (half_a @ half_b) = k" "dir_key (half_b @ half_a) = k" "dir_key (half_b @ half_b) = k" "dir_key (half_a @ half_c) = k"
    unfolding assms(4) by (rule half_key; simp)+
  then have k': "dir_key n = k" if "n \<in> ?N" for n using that by (elim insertE emptyE) simp_all
  have s: "same_key D k = ?N" "same_key D j = {}" if "j \<noteq> k" for j using that k' by (auto simp: same_key_def d)
  have c: "card ?N = 4" by (simp add: half_a_def half_b_def half_c_def)
  have "tree_ok (leaf_tree m [(k, count_item 3)]) (Lf 1 [(k, count_item 3)])"
    by (rule leaf_tree_ok [OF assms(1-3)]) (use assms(4,5) dir_key_le in \<open>simp add: FANOUT_def keys_ok_def\<close>)
  then have "bp_view (leaf_tree m [(k, count_item 3)]) [k \<mapsto> count_item 3]"
    unfolding bp_view_def by (intro exI [of _ "Lf 1 [(k, count_item 3)]"]) simp
  moreover have "\<forall>j. card (same_key D j) \<le> 4 \<and> item_ok D (same_key D j) ([k \<mapsto> count_item 3] j)"
  proof
    fix j
    show "card (same_key D j) \<le> 4 \<and> item_ok D (same_key D j) ([k \<mapsto> count_item 3] j)"
    proof (cases "j = k")
      case True
      then show ?thesis using s(1) [of "Suc k"] c by (simp add: item_ok_def item_of_count)
    next
      case False
      then show ?thesis using s(2) by (simp add: item_ok_def)
    qed
  qed
  ultimately show ?thesis using d s(1) [of "Suc k"] by (auto simp: index_ok_def)
qed

theorem collision_counter_wraps_witness:
  "\<exists>T T1 T2 D p. index_ok T D \<and> D (half_b @ half_b) = Some 0 \<and> nvfuse_set_dir_indexing (half_a @ half_a) 9 T = Some T1
    \<and> nvfuse_del_dir_indexing (half_a @ half_a) T1 = Some (0, T2) \<and> nvfuse_get_dir_indexing (half_b @ half_b) T2 = Some (-1, p, T2)"
proof -
  obtain m where m: "master_inv m" "node_used m 1" "m_blocks m = 2" using first_master [of "\<lambda>_. True"] by blast
  define n where "n = half_a @ half_a"
  define D where "D = (\<lambda>n. if n \<in> {half_a @ half_b, half_b @ half_a, half_b @ half_b, half_a @ half_c} then Some (0::nat) else None)"
  define T where "T = leaf_tree m [(dir_key n, count_item 3)]"
  have k: "0 < dir_key n" unfolding n_def by (rule half_a_key)
  have kn: "dir_key n = dir_key (half_a @ half_a)" by (simp only: n_def)
  have D: "index_ok T D" "same_key D (dir_key n) = {half_a @ half_b, half_b @ half_a, half_b @ half_b, half_a @ half_c}"
    unfolding T_def using collision_index [OF m kn k D_def] by (rule conjunct1, rule conjunct2)
  have c: "card (same_key D (dir_key n)) = 4" unfolding D(2) by (simp add: half_a_def half_b_def half_c_def)
  have nn: "n \<notin> dom D" by (simp add: domIff D_def n_def half_a_def half_b_def half_c_def)
  have r: "has_room T" using m(3) by (simp add: has_room_def avail_def T_def leaf_tree_def)
  define T1 where "T1 = leaf_tree m [(dir_key n, count_item 4)]"
  have s: "nvfuse_set_dir_indexing n 9 T = Some T1"
    by (simp add: nvfuse_set_dir_indexing_def T_def T1_def leaf_tree_ops item_of_count)
  have "\<exists>T2 p. nvfuse_del_dir_indexing n T1 = Some (0, T2) \<and> nvfuse_get_dir_indexing (half_b @ half_b) T2 = Some (-1, p, T2)"
    by (rule collision_counter_wraps [OF D(1) c nn k r _ _ s]) (simp_all add: D(2) is_dot_def half_b_def T1_def leaf_tree_ops)
  moreover have "D (half_b @ half_b) = Some 0" by (simp add: D_def)
  ultimately show ?thesis using D(1) s unfolding n_def by blast
qed

end
