(* ===== verification/FlatIndex.thy ===== *)
theory FlatIndex
  imports DirIndex
begin

text \<open>
  The index of a directory of at most 337 names whose hashes differ.  Its tree is a single
  leaf (\<open>flat\<close>), so a removal never has to redistribute nodes, and the index gives the
  exact position of every name (\<open>index_exact\<close>).  The flat trees are a second provider of
  the contract \<open>key_index\<close>, without a condition on removals.
\<close>

section \<open>Trees of a single leaf\<close>

definition flat :: "bptree \<Rightarrow> bool" where
  "flat T \<longleftrightarrow> i_flag (bp_nodes T (m_root T)) = DATA_FLAG \<and> 17 \<le> avail (m_master T)"

definition flat_view :: "bptree \<Rightarrow> (key \<rightharpoonup> item) \<Rightarrow> bool" where
  "flat_view T f \<longleftrightarrow> bp_view T f \<and> flat T"

definition flat_room :: "bptree \<Rightarrow> bool" where
  "flat_room T = (i_num (bp_nodes T (m_root T)) < FANOUT)"

lemma flat_leaf:
  assumes "flat_view T f"
  shows "\<exists>xs. tree_ok T (Lf (m_root T) xs) \<and> f = map_of xs \<and> leaf_node (bp_nodes T (m_root T)) (m_root T) xs"
proof -
  obtain b where b: "tree_ok T b" "f = map_of (kvs b)" using assms by (auto simp: flat_view_def bp_view_def)
  show ?thesis
  proof (cases b)
    case (Lf o' xs)
    then show ?thesis using b by (auto simp: tree_ok_def blocks_ok_def)
  next
    case (Nd o' ts)
    then show ?thesis using b assms by (auto simp: tree_ok_def blocks_ok_def flat_view_def flat_def index_node_def DATA_FLAG_def)
  qed
qed

lemma flat_root:
  assumes "flat_view T f"
  shows "i_root (bp_nodes T (m_root T))" "i_offset (bp_nodes T (m_root T)) = m_root T" "i_flag (bp_nodes T (m_root T)) = 1"
    "traverse_empty k T = Some (bp_nodes T (m_root T), T)" "i_num (bp_nodes T (m_root T)) = card (dom f)"
proof -
  obtain xs where x: "tree_ok T (Lf (m_root T) xs)" "f = map_of xs" "leaf_node (bp_nodes T (m_root T)) (m_root T) xs"
    using flat_leaf [OF assms] by blast
  show o': "i_offset (bp_nodes T (m_root T)) = m_root T" "i_flag (bp_nodes T (m_root T)) = 1" using x(3) by (simp_all add: leaf_node_def)
  show "i_root (bp_nodes T (m_root T))" using x(1) by (simp add: tree_ok_def blocks_ok_def)
  have "m_root T \<noteq> 0" using x(1) by (auto simp: tree_ok_def blocks_ok_def node_used_def)
  then show "traverse_empty k T = Some (bp_nodes T (m_root T), T)"
    using o' by (simp add: traverse_empty_def bp_read_node_def MAX_STACK_def DATA_FLAG_def numeral_eq_Suc)
  have "keys_ok xs" using x(1) by (simp add: tree_ok_def)
  then have "distinct (map fst xs)" by (simp add: keys_ok_def strict_sorted_iff)
  then have "card (dom f) = length xs" using x(2) by (simp add: dom_map_of_conv_image_fst distinct_card [of "map fst xs", simplified])
  then show "i_num (bp_nodes T (m_root T)) = card (dom f)" using x(3) by (simp add: leaf_node_def)
qed

lemma flat_keeps: "flat_view T f \<Longrightarrow> leaf_keeps k T"
  using flat_root(1,4) by (simp add: leaf_keeps_def)

lemma flat_insert:
  assumes "flat_view T f" "flat_room T" "bp_insert_key_tree cm k v upd T = Some (r, x, T')"
  shows "flat T'"
proof -
  have fl: "17 \<le> avail (m_master T)" using assms(1) by (simp add: flat_view_def flat_def)
  show ?thesis using assms(2,3) fl unfolding bp_insert_key_tree_def flat_root(4) [OF assms(1)]
    by (auto simp: Let_def flat_room_def flat_def bp_write_node_def bp_merge_key_def DATA_FLAG_def flat_root(2,3) [OF assms(1)] split: if_splits)
qed

lemma flat_update:
  assumes "flat_view T f" "bp_update_key_tree k v T = Some T'"
  shows "flat T'"
proof -
  have fl: "flat T" using assms(1) by (simp add: flat_view_def)
  show ?thesis using assms(2) fl unfolding bp_update_key_tree_def flat_root(4) [OF assms(1)]
    by (cases "T' = T") (simp, auto simp: flat_def bp_write_node_def DATA_FLAG_def flat_root(2,3) [OF assms(1)] split: if_splits)
qed

lemma flat_remove:
  assumes "flat_view T f" "bp_remove_key k T = Some (r, T')"
  shows "flat T'"
proof -
  have fl: "flat T" using assms(1) by (simp add: flat_view_def)
  show ?thesis using assms(2) fl unfolding bp_remove_key_def flat_root(4) [OF assms(1)]
    by (cases "T' = T") (simp, auto simp: flat_def bp_write_node_def bp_merge_key_tree_def remove_pair_def DATA_FLAG_def
      flat_root(1-3) [OF assms(1)] split: if_splits)
qed

interpretation flat: key_index flat_view good_key flat_room "\<lambda>_ _. True" bp_find_key
  "\<lambda>k v. bp_insert_key_tree (\<lambda>_. True) k v False" bp_update_key_tree bp_remove_key
proof unfold_locales
  fix t f k v w
  assume fv: "flat_view t f" and g: "good_key k"
  have b: "bp_view t f" "has_room t" using fv by (simp_all add: flat_view_def flat_def has_room_def)
  show "f k = None \<Longrightarrow> \<exists>i v. bp_find_key k t = Some (i, v, t) \<and> i < 0" by (rule bp.fnd_none [OF b(1) g])
  show "f k = Some w \<Longrightarrow> \<exists>i. bp_find_key k t = Some (i, w, t) \<and> 0 \<le> i" by (rule bp.fnd_some [OF b(1) g])
  show "flat_room t \<Longrightarrow> f k = None \<Longrightarrow>
      \<exists>t'. bp_insert_key_tree (\<lambda>_. True) k v False t = Some (0, None, t') \<and> flat_view t' (f(k \<mapsto> v))"
    using bp.ins_new [OF b(1) g b(2), of v] flat_insert [OF fv] unfolding flat_view_def by blast
  show "flat_room t \<Longrightarrow> f k = Some w \<Longrightarrow>
      \<exists>t'. bp_insert_key_tree (\<lambda>_. True) k v False t = Some (- 1, Some w, t') \<and> flat_view t' f"
    using bp.ins_old [OF b(1) g b(2), of w v] flat_insert [OF fv] unfolding flat_view_def by blast
  show "f k = Some w \<Longrightarrow> \<exists>t'. bp_update_key_tree k v t = Some t' \<and> flat_view t' (f(k \<mapsto> v))"
    using bp.upd_old [OF b(1) g, of w v] flat_update [OF fv] unfolding flat_view_def by blast
  show "f k = Some w \<Longrightarrow> \<exists>t'. bp_remove_key k t = Some (0, t') \<and> flat_view t' (f(k := None))"
    using bp.del_old [OF b(1) g flat_keeps [OF fv], of w] flat_remove [OF fv] unfolding flat_view_def by blast
qed

lemma create_flat: "\<exists>T. bp_create (\<lambda>_. True) = Some T \<and> flat_view T Map.empty"
proof -
  obtain T where T: "bp_create (\<lambda>_. True) = Some T" "bp_view T Map.empty" "32446 \<le> avail (m_master T)"
    using create_view [of "\<lambda>_. True"] by blast
  have "i_flag (bp_nodes T (m_root T)) = DATA_FLAG" using T(1) by (auto simp: bp_create_def bp_write_node_def split: bind_splits)
  then show ?thesis using T by (auto simp: flat_view_def flat_def)
qed

section \<open>Exact indexes\<close>

text \<open>The hashes of the names differ, and the index has the position of each.\<close>

definition index_exact :: "bptree \<Rightarrow> (u8 list \<rightharpoonup> nat) \<Rightarrow> bool" where
  "index_exact T D \<longleftrightarrow> finite (dom D) \<and> inj_on dir_key (dom D) \<and> (\<forall>n\<in>dom D. 0 < dir_key n)
     \<and> (\<forall>p\<in>ran D. p < collision_mask)
     \<and> (\<exists>f. flat_view T f \<and> dom f = dir_key ` dom D \<and> (\<forall>n p. D n = Some p \<longrightarrow> f (dir_key n) = Some p))"

lemma small_item: "p < collision_mask \<Longrightarrow> item_count p = 0" "p < collision_mask \<Longrightarrow> item_offset p = p"
  by (simp_all add: item_count_def item_offset_def)

lemma index_exactD:
  assumes "index_exact T D"
  obtains f where "flat_view T f" "finite (dom D)" "inj_on dir_key (dom D)" "\<forall>n\<in>dom D. 0 < dir_key n" "\<forall>p\<in>ran D. p < collision_mask"
    "dom f = dir_key ` dom D" "\<forall>n p. D n = Some p \<longrightarrow> f (dir_key n) = Some p"
  using assms unfolding index_exact_def by (elim conjE exE) (rule that)

lemma set_exact:
  assumes "index_exact T D" "n \<notin> dom D" "dir_key n \<notin> dir_key ` dom D" "0 < dir_key n" "p < collision_mask" "card (dom D) < FANOUT"
  shows "\<exists>T'. nvfuse_set_dir_indexing n p T = Some T' \<and> index_exact T' (D(n \<mapsto> p))"
proof -
  obtain f where f: "flat_view T f" "finite (dom D)" "inj_on dir_key (dom D)" "\<forall>n\<in>dom D. 0 < dir_key n" "\<forall>p\<in>ran D. p < collision_mask"
    "dom f = dir_key ` dom D" "\<forall>n p. D n = Some p \<longrightarrow> f (dir_key n) = Some p" by (rule index_exactD [OF assms(1)])
  have "card (dom f) = card (dom D)" using f(3,6) by (simp add: card_image)
  then have room: "flat_room T" using flat_root(5) [OF f(1)] assms(6) by (simp add: flat_room_def)
  have none: "f (dir_key n) = None" using f(6) assms(3) by (metis domIff)
  obtain T' where T': "nvfuse_set_dir_indexing n p T = Some T'" "flat_view T' (f(dir_key n \<mapsto> p))"
    using flat.insert_or_update [OF f(1) good_dir_key [OF assms(4)] room, of "item_offset p" "\<lambda>w. count_item (item_count w + 1)"]
    unfolding nvfuse_set_dir_indexing_def by (auto simp: none small_item(2) [OF assms(5)])
  have "index_exact T' (D(n \<mapsto> p))" unfolding index_exact_def
  proof (intro conjI exI [of _ "f(dir_key n \<mapsto> p)"] allI impI)
    show "inj_on dir_key (dom (D(n \<mapsto> p)))" using f(3) assms(3) by (auto simp: inj_on_insert)
    show "\<forall>q\<in>ran (D(n \<mapsto> p)). q < collision_mask" using f(5) assms(2,5) by (auto simp: ran_map_upd domIff)
    show "(f(dir_key n \<mapsto> p)) (dir_key m) = Some q" if "(D(n \<mapsto> p)) m = Some q" for m q
    proof (cases "m = n")
      case False
      then have m: "D m = Some q" using that by simp
      then have "dir_key m \<noteq> dir_key n" using assms(3) by (metis domI imageI)
      with m show ?thesis using f(7) by simp
    qed (use that in simp)
  qed (use f T'(2) assms(4) in auto)
  then show ?thesis using T'(1) by blast
qed

lemma get_exact:
  assumes "index_exact T D" "\<not> is_dot n" "0 < dir_key n"
  shows "\<exists>r q. nvfuse_get_dir_indexing n T = Some (r, q, T)
    \<and> (if dir_key n \<in> dir_key ` dom D then r = 0 \<and> (\<forall>p. D n = Some p \<longrightarrow> q = p) else r = -1)"
proof -
  obtain f where f: "flat_view T f" "finite (dom D)" "inj_on dir_key (dom D)" "\<forall>n\<in>dom D. 0 < dir_key n" "\<forall>p\<in>ran D. p < collision_mask"
    "dom f = dir_key ` dom D" "\<forall>n p. D n = Some p \<longrightarrow> f (dir_key n) = Some p" by (rule index_exactD [OF assms(1)])
  note g = good_dir_key [OF assms(3)]
  show ?thesis
  proof (cases "f (dir_key n)")
    case None
    then have "dir_key n \<notin> dir_key ` dom D" using f(6) by (metis domIff)
    then show ?thesis using flat.fnd_none [OF f(1) g None] assms(2) by (auto simp: nvfuse_get_dir_indexing_def)
  next
    case (Some it)
    then have k: "dir_key n \<in> dir_key ` dom D" using f(6) by (metis domI)
    have "it = p \<and> p < collision_mask" if "D n = Some p" for p using that f(5,7) Some by (auto intro: ranI)
    then show ?thesis using flat.fnd_some [OF f(1) g Some] assms(2) k small_item
      by (auto simp: nvfuse_get_dir_indexing_def)
  qed
qed

lemma del_exact:
  assumes "index_exact T D" "D n = Some p"
  shows "\<exists>T'. nvfuse_del_dir_indexing n T = Some (0, T') \<and> index_exact T' (D(n := None))"
proof -
  obtain f where f: "flat_view T f" "finite (dom D)" "inj_on dir_key (dom D)" "\<forall>n\<in>dom D. 0 < dir_key n" "\<forall>p\<in>ran D. p < collision_mask"
    "dom f = dir_key ` dom D" "\<forall>n p. D n = Some p \<longrightarrow> f (dir_key n) = Some p" by (rule index_exactD [OF assms(1)])
  have n: "n \<in> dom D" "0 < dir_key n" "p < collision_mask" "f (dir_key n) = Some p" using assms(2) f(4,5,7) by (auto intro: ranI)
  obtain T' where T': "nvfuse_del_dir_indexing n T = Some (0, T')" "flat_view T' (f(dir_key n := None))"
    using flat.find_then_remove [OF f(1) good_dir_key [OF n(2)] n(4)] small_item(1) [OF n(3)] by (auto simp: nvfuse_del_dir_indexing_def)
  have img: "dir_key ` (dom D - {n}) = dir_key ` dom D - {dir_key n}" using f(3) n(1) by (auto simp: inj_on_def)
  have "index_exact T' (D(n := None))" unfolding index_exact_def
  proof (intro conjI exI [of _ "f(dir_key n := None)"] allI impI)
    show "\<forall>q\<in>ran (D(n := None)). q < collision_mask" using f(5) by (auto simp: ran_def)
    show "dom (f(dir_key n := None)) = dir_key ` dom (D(n := None))" using f(6) img by simp
    show "(f(dir_key n := None)) (dir_key m) = Some q" if "(D(n := None)) m = Some q" for m q
    proof -
      have "m \<noteq> n" "D m = Some q" using that by (auto split: if_splits)
      moreover have "dir_key m \<noteq> dir_key n" using calculation f(3) n(1) by (metis domI inj_onD)
      ultimately show ?thesis using f(7) by simp
    qed
    show "inj_on dir_key (dom (D(n := None)))" using f(3) by (auto simp: inj_on_def)
  qed (use f T'(2) in auto)
  then show ?thesis using T'(1) by blast
qed

lemma empty_exact: "flat_view T Map.empty \<Longrightarrow> index_exact T Map.empty"
  by (auto simp: index_exact_def intro!: exI [of _ Map.empty])

end
