(* ===== verification/Directory.thy ===== *)
theory Directory
  imports FlatIndex Truncate
begin

text \<open>
  Directories: the name space operations of \<open>nvfuse_api.c\<close> (\<open>nvfuse_lookup\<close>,
  \<open>nvfuse_createfile\<close>, \<open>nvfuse_rmfile\<close>, \<open>nvfuse_shrink_dentry\<close>, \<open>nvfuse_mkdir\<close>,
  \<open>nvfuse_rmdir\<close>, \<open>nvfuse_rename\<close>, \<open>nvfuse_hardlink\<close>) and of \<open>nvfuse_core.c\<close>
  (\<open>nvfuse_link\<close>, \<open>nvfuse_find_empty_dentry\<close>, \<open>nvfuse_find_existing_dentry\<close>,
  \<open>nvfuse_rm_direntry\<close>), on top of the inode and block allocator (\<open>Alloc\<close>), the block map of
  an inode (\<open>Indirect\<close>, \<open>Truncate\<close>) and the index of a directory (\<open>DirIndex\<close>).

  The state has the inode table with the allocator (\<open>v_fs\<close>), the contents of indirect
  blocks, of the blocks of every directory (as the buffer cache presents them, in the
  order of the file), the tree of every index inode, and what a recycled buffer holds that
  is handed out without being read (\<open>v_stale\<close>).  Inodes are read and written in
  the table: the inode cache is coherent with it.  A directory has 32 entries of 128 bytes
  in a block; entries 0 and 1 are the directory and its parent.  Entry numbers and link
  counters are 32-bit unsigned in C.  \<open>None\<close> stands for a failed assertion, an access outside of
  the file or a loop that does not end.  The options \<open>NVFUSE_USE_DELAYED_DIRECTORY_ALLOC\<close> and
  \<open>NVFUSE_USE_DELAYED_BPTREE_CREATION\<close> are set: a new directory gets its first block and
  its index when the first entry is made in it.
\<close>

section \<open>State\<close>

record vfs =
  v_fs :: fs
  v_mb :: "nat \<Rightarrow> nat list"
  v_dir :: "nat \<Rightarrow> dir_entry list"
  v_tree :: "nat \<Rightarrow> bptree"
  v_stale :: "dir_entry list"

definition FNAME_SIZE :: nat where "FNAME_SIZE = 116"
definition MAX_FILES_PER_DIR :: nat where "MAX_FILES_PER_DIR = 0x7FFFFFFF"
definition MAX_FILE_SIZE :: int where "MAX_FILE_SIZE = (11 + 2 ^ 10 + 2 ^ 20 + 2 ^ 30) * 4096"
definition NVFUSE_TYPE_BPTREE :: nat where "NVFUSE_TYPE_BPTREE = 8"
definition NO_ENTRY :: nat where "NO_ENTRY = 2 ^ 32 - 1"

definition inode_of :: "vfs \<Rightarrow> nat \<Rightarrow> inode" where
  "inode_of v ino = fs_itable (v_fs v) ino"

definition set_inode :: "nat \<Rightarrow> inode \<Rightarrow> vfs \<Rightarrow> vfs" where
  "set_inode ino ip v = v\<lparr>v_fs := (v_fs v)\<lparr>fs_itable := (fs_itable (v_fs v))(ino := ip)\<rparr>\<rparr>"

definition read_inode :: "nat \<Rightarrow> vfs \<Rightarrow> inode option" where
  "read_inode ino v = do {
     assert_opt (ROOT_INO \<le> ino);
     assert_opt (i_ino (inode_of v ino) = ino);
     Some (inode_of v ino) }"

text \<open>The block map of an inode, and the state after a change of it.\<close>

definition file_map :: "vfs \<Rightarrow> nat \<Rightarrow> blkmap" where
  "file_map v ino = \<lparr>bm_fs = v_fs v, bm_ib = i_blocks (inode_of v ino), bm_mb = v_mb v\<rparr>"

definition put_map :: "nat \<Rightarrow> blkmap \<Rightarrow> vfs \<Rightarrow> vfs" where
  "put_map ino t v = set_inode ino ((fs_itable (bm_fs t) ino)\<lparr>i_blocks := bm_ib t\<rparr>) (v\<lparr>v_fs := bm_fs t, v_mb := bm_mb t\<rparr>)"

definition alloc_block :: "nat \<Rightarrow> int \<Rightarrow> vfs \<Rightarrow> (int \<times> vfs) option" where
  "alloc_block ino lblock v = do {
     (ret, n, p, t) \<leftarrow> get_block ino lblock 1 True (file_map v ino);
     Some (ret, put_map ino t v) }"

text \<open>\<open>nvfuse_free_inode_size\<close> without the buffers it drops.\<close>

definition free_size :: "nat \<Rightarrow> int \<Rightarrow> vfs \<Rightarrow> vfs option" where
  "free_size ino sz v =
    (let isize = i_size (inode_of v ino); num = nat (isize div 4096) + (if isize mod 4096 = 0 then 0 else 1)
     in if num = 0 \<or> num \<le> nat (sz div 4096) then Some v
        else do { t \<leftarrow> truncate_blocks sz (file_map v ino); Some (put_map ino t v) })"

definition delete_inode :: "nat \<Rightarrow> vfs \<Rightarrow> vfs option" where
  "delete_inode ino v = do { s \<leftarrow> relocate_delete_inode ino (v_fs v); Some (v\<lparr>v_fs := s\<rparr>) }"

definition dentry_at :: "nat \<Rightarrow> nat \<Rightarrow> vfs \<Rightarrow> dir_entry option" where
  "dentry_at dir i v = (if i < length (v_dir v dir) then Some (v_dir v dir ! i) else None)"

definition put_dentry :: "nat \<Rightarrow> nat \<Rightarrow> dir_entry \<Rightarrow> vfs \<Rightarrow> vfs" where
  "put_dentry dir i d v = v\<lparr>v_dir := (v_dir v)(dir := (v_dir v dir)[i := d])\<rparr>"

definition dir_is_invalid :: "dir_entry \<Rightarrow> bool" where
  "dir_is_invalid d = (d_flag d = DIR_EMPTY \<or> d_flag d = DIR_DELETED)"

definition is_named :: "string \<Rightarrow> dir_entry \<Rightarrow> bool" where
  "is_named name d = (d_flag d = DIR_USED \<and> d_filename d = name)"

definition name_bytes :: "string \<Rightarrow> u8 list" where
  "name_bytes name = map (\<lambda>c. word_of_nat (of_char c)) name"

text \<open>The index of a directory; all accesses assert that it has one.\<close>

definition index_set :: "nat \<Rightarrow> string \<Rightarrow> nat \<Rightarrow> vfs \<Rightarrow> vfs option" where
  "index_set dir name off v =
    (let bp = i_bpino (inode_of v dir) in do {
       assert_opt (bp \<noteq> 0);
       t \<leftarrow> nvfuse_set_dir_indexing (name_bytes name) off (v_tree v bp);
       Some (v\<lparr>v_tree := (v_tree v)(bp := t)\<rparr>) })"

definition index_get :: "nat \<Rightarrow> string \<Rightarrow> vfs \<Rightarrow> (int \<times> nat) option" where
  "index_get dir name v =
    (let bp = i_bpino (inode_of v dir) in do {
       assert_opt (bp \<noteq> 0);
       (r, off, t) \<leftarrow> nvfuse_get_dir_indexing (name_bytes name) (v_tree v bp);
       Some (r, off) })"

definition index_del :: "nat \<Rightarrow> string \<Rightarrow> vfs \<Rightarrow> vfs option" where
  "index_del dir name v =
    (let bp = i_bpino (inode_of v dir) in do {
       assert_opt (bp \<noteq> 0);
       (r, t) \<leftarrow> nvfuse_del_dir_indexing (name_bytes name) (v_tree v bp);
       Some (v\<lparr>v_tree := (v_tree v)(bp := t)\<rparr>) })"

section \<open>Searching entries\<close>

text \<open>The inner loop of \<open>nvfuse_find_empty_dentry\<close>: 32 entries of a block from the one after
  \<open>e\<close>, which wraps at the end of the block.  The result is the entry found and the last
  value of \<open>search_entry\<close>.\<close>

fun scan_block :: "nat \<Rightarrow> nat \<Rightarrow> nat \<Rightarrow> int \<Rightarrow> vfs \<Rightarrow> (nat option \<times> int) option" where
  "scan_block 0 dir lblk e v = Some (None, e)"
| "scan_block (Suc k) dir lblk e v =
    (let e' = (if e + 1 = 32 then 0 else e + 1) in do {
       d \<leftarrow> dentry_at dir (lblk * 32 + nat e') v;
       if dir_is_invalid d then Some (Some (nat e'), e') else scan_block k dir lblk e' v })"

fun scan_blocks :: "nat \<Rightarrow> nat \<Rightarrow> nat \<Rightarrow> nat \<Rightarrow> int \<Rightarrow> vfs \<Rightarrow> (nat option \<times> int) option" where
  "scan_blocks 0 dir nblk lblk e v = Some (None, e)"
| "scan_blocks (Suc k) dir nblk lblk e v = do {
     (r, e') \<leftarrow> scan_block 32 dir lblk e v;
     case r of
       Some x \<Rightarrow> Some (Some (lblk * 32 + x), e')
     | None \<Rightarrow> scan_blocks k dir nblk (if lblk + 1 = nblk then 0 else lblk + 1) (-1) v }"

text \<open>A new block for a directory: allocated, zeroed, and counted in the size.\<close>

definition grow_dir :: "nat \<Rightarrow> vfs \<Rightarrow> (int \<times> vfs) option" where
  "grow_dir dir v = do {
     (ret, v1) \<leftarrow> alloc_block dir (i_size (inode_of v dir) div 4096) v;
     if ret \<noteq> 0 then Some (ret, v1)
     else do {
       assert_opt (i_size (inode_of v1 dir) < MAX_FILE_SIZE);
       Some (0, set_inode dir ((inode_of v1 dir)\<lparr>i_size := i_size (inode_of v1 dir) + 4096\<rparr>)
         (v1\<lparr>v_dir := (v_dir v1)(dir := v_dir v1 dir @ replicate DIR_ENTRY_NUM zero_dentry)\<rparr>)) } }"

text \<open>The search from \<open>RETRY\<close>; a failed allocation returns \<open>-1\<close>, which is unsigned here.\<close>

partial_function (option) find_retry :: "nat \<Rightarrow> nat \<Rightarrow> int \<Rightarrow> vfs \<Rightarrow> (nat \<times> vfs) option" where
  "find_retry dir lblk e v =
    (let dir_num = nat (i_size (inode_of v dir) div 128);
         full = (dir_num = i_links_count (inode_of v dir));
         e1 = (if full \<or> e = 31 then -1 else e);
         num_block = (if full then 0 else dir_num div 32)
     in do {
       (r, e2) \<leftarrow> scan_blocks num_block dir (nat (i_size (inode_of v dir) div 4096)) lblk e1 v;
       case r of
         Some x \<Rightarrow> Some (x, v)
       | None \<Rightarrow> do {
           (ret, v1) \<leftarrow> grow_dir dir v;
           if ret \<noteq> 0 then Some (NO_ENTRY, v1) else find_retry dir (dir_num div 32) e2 v1 } })"

definition find_empty_dentry :: "nat \<Rightarrow> vfs \<Rightarrow> (nat \<times> vfs) option" where
  "find_empty_dentry dir v =
    (let p = u32_sub (i_links_count (inode_of v dir)) 1 in find_retry dir (p div 32) (int (p mod 32)) v)"

definition find_existing_dentry :: "nat \<Rightarrow> string \<Rightarrow> vfs \<Rightarrow> nat option" where
  "find_existing_dentry dir name v = do {
     (r, off) \<leftarrow> index_get dir name v;
     let start = (if r < 0 then 0 else off); dir_num = nat (i_size (inode_of v dir) div 128) in do {
       assert_opt (dir_num \<le> length (v_dir v dir));
       Some (case find (\<lambda>i. is_named name (v_dir v dir ! i)) [start..<dir_num] of
               Some i \<Rightarrow> i | None \<Rightarrow> NO_ENTRY) } }"

section \<open>Lookup\<close>

text \<open>The inner loop of \<open>nvfuse_lookup_linear\<close> does not advance its pointer.\<close>

partial_function (option) linear_loop :: "dir_entry \<Rightarrow> string \<Rightarrow> dir_entry option" where
  "linear_loop d name = (if is_named name d then Some d else linear_loop d name)"

definition lookup_linear :: "nat \<Rightarrow> string \<Rightarrow> vfs \<Rightarrow> dir_entry option option" where
  "lookup_linear dir name v =
    (if i_size (inode_of v dir) div 4096 \<le> 0 then Some None
     else do { d \<leftarrow> dentry_at dir 0 v; r \<leftarrow> linear_loop d name; Some (Some r) })"

text \<open>No entry, an entry, or the request for the linear search.\<close>

datatype bp_answer = Absent | Present dir_entry | Collision

definition lookup_bptree :: "nat \<Rightarrow> string \<Rightarrow> vfs \<Rightarrow> bp_answer option" where
  "lookup_bptree dir name v = do {
     (res, idx) \<leftarrow> index_get dir name v;
     if res < 0 then Some Absent
     else if idx \<noteq> 0 then do {
       d \<leftarrow> dentry_at dir idx v;
       assert_opt (is_named name d);
       Some (Present d) }
     else Some Collision }"

text \<open>The result code and the entry.  A parent below the root inode is not read.\<close>

definition lookup :: "nat \<Rightarrow> string \<Rightarrow> vfs \<Rightarrow> (int \<times> dir_entry option) option" where
  "lookup dir name v =
    (if dir < ROOT_INO then Some (-1, None)
     else do {
       ip \<leftarrow> read_inode dir v;
       if i_bpino ip = 0 then Some (-1, None)
       else do {
         a \<leftarrow> lookup_bptree dir name v;
         d \<leftarrow> (case a of Absent \<Rightarrow> Some None | Present d \<Rightarrow> Some (Some d) | Collision \<Rightarrow> lookup_linear dir name v);
         (case d of
            None \<Rightarrow> Some (-1, None)
          | Some d \<Rightarrow> do {
              assert_opt (0 < d_ino d \<and> d_ino d < ipb (v_fs v) * bgn (v_fs v));
              Some (0, Some d) }) } })"

section \<open>Creation\<close>

text \<open>Device numbers.\<close>

definition old_encode_dev :: "u32 \<Rightarrow> u32 \<Rightarrow> 16 word" where
  "old_encode_dev major minor = ucast (push_bit 8 major OR minor)"

definition new_encode_dev :: "u32 \<Rightarrow> u32 \<Rightarrow> u32" where
  "new_encode_dev major minor = (minor AND 0xff) OR push_bit 8 major OR push_bit 12 (minor AND NOT 0xff)"

definition old_valid_dev :: "u32 \<Rightarrow> u32 \<Rightarrow> bool" where
  "old_valid_dev major minor = (major < 256 \<and> minor < 256)"

definition old_decode_dev :: "16 word \<Rightarrow> u32 \<times> u32" where
  "old_decode_dev val = (ucast (drop_bit 8 val AND 255), ucast (val AND 255))"

definition new_decode_dev :: "u32 \<Rightarrow> u32 \<times> u32" where
  "new_decode_dev dev = (drop_bit 8 (dev AND 0xfff00), (dev AND 0xff) OR (drop_bit 12 dev AND 0xfff00))"

definition is_device :: "nat \<Rightarrow> bool" where
  "is_device mode = (mode div 2 ^ 12 mod 2 ^ 4 \<in> {2, 6})"

definition dev_blocks :: "nat \<Rightarrow> u32 \<times> u32 \<Rightarrow> nat list \<Rightarrow> nat list" where
  "dev_blocks mode dev bs =
    (if is_device mode then
       (case dev of (major, minor) \<Rightarrow>
          if old_valid_dev major minor then bs[0 := unat (old_encode_dev major minor)]
          else bs[1 := unat (new_encode_dev major minor)])
     else bs)"

definition dot_entries :: "nat \<Rightarrow> dir_entry list \<Rightarrow> dir_entry list" where
  "dot_entries ino ds = ds[0 := (ds ! 0)\<lparr>d_filename := ''.'', d_ino := ino, d_flag := DIR_USED\<rparr>,
                           1 := (ds ! 1)\<lparr>d_filename := ''..'', d_ino := ino, d_flag := DIR_USED\<rparr>]"

text \<open>The buffer of the block is taken with \<open>WRITE\<close>, neither read nor zeroed, so the other
  entries are what the buffer held before.\<close>

definition make_first_directory :: "nat \<Rightarrow> vfs \<Rightarrow> (int \<times> vfs) option" where
  "make_first_directory dir v = do {
     assert_opt (i_size (inode_of v dir) = 0);
     (ret, v1) \<leftarrow> alloc_block dir 0 v;
     if ret \<noteq> 0 then Some (-1, v1)
     else Some (0, set_inode dir ((inode_of v1 dir)\<lparr>i_size := 4096\<rparr>)
       (v1\<lparr>v_dir := (v_dir v1)(dir := dot_entries (i_ino (inode_of v1 dir)) (v_stale v1))\<rparr>)) }"

text \<open>The inode, the master block and the root block of a new index.\<close>

definition create_bptree :: "nat \<Rightarrow> vfs \<Rightarrow> (int \<times> vfs) option" where
  "create_bptree dir v = do {
     (ino, s) \<leftarrow> alloc_new_inode (v_fs v);
     let v1 = v\<lparr>v_fs := s\<rparr>;
         v2 = set_inode ino ((inode_of v1 ino)\<lparr>i_type := NVFUSE_TYPE_BPTREE, i_size := 0, i_links_count := 1\<rparr>) v1
     in do {
       (ret, v3) \<leftarrow> alloc_block ino 0 v2;
       if ret \<noteq> 0 then Some (-1, v3)
       else do {
         (ret, v4) \<leftarrow> alloc_block ino 1 (set_inode ino ((inode_of v3 ino)\<lparr>i_size := 8192\<rparr>) v3);
         assert_opt (ret = 0);
         t \<leftarrow> bp_create (\<lambda>_. True);
         Some (0, set_inode dir ((inode_of v4 dir)\<lparr>i_bpino := ino\<rparr>) (v4\<lparr>v_tree := (v_tree v4)(ino := t)\<rparr>)) } } }"

definition new_file_inode :: "nat \<Rightarrow> nat \<Rightarrow> u32 \<times> u32 \<Rightarrow> inode \<Rightarrow> inode" where
  "new_file_inode now mode dev ip = ip\<lparr>i_type := NVFUSE_TYPE_FILE, i_size := 0, i_mode := mode, i_gid := 0, i_uid := 0,
     i_links_count := 1, i_atime := now, i_ctime := now, i_mtime := now, i_blocks := dev_blocks mode dev (i_blocks ip)\<rparr>"

definition new_dir_inode :: "nat \<Rightarrow> nat \<Rightarrow> inode \<Rightarrow> inode" where
  "new_dir_inode now mode ip = ip\<lparr>i_type := NVFUSE_TYPE_DIRECTORY, i_size := 0, i_ptr := 1, i_mode := mode mod 2 ^ 9 + 2 ^ 14,
     i_gid := 0, i_uid := 0, i_links_count := 2, i_atime := now, i_ctime := now, i_mtime := now, i_bpino := 0\<rparr>"

text \<open>The part that \<open>nvfuse_createfile\<close> and \<open>nvfuse_mkdir\<close> share: the first block and the
  index of the parent if it is new, a free entry, the counters of the parent, the inode
  (initialised by \<open>init\<close>), the entry and its index.  The result has the return code and
  the number of the new inode.\<close>

definition first_entry :: "nat \<Rightarrow> vfs \<Rightarrow> bool" where
  "first_entry dir v = (i_bpino (inode_of v dir) = 0 \<and> i_links_count (inode_of v dir) = 2)"

definition make_entry :: "(inode \<Rightarrow> inode) \<Rightarrow> nat \<Rightarrow> string \<Rightarrow> vfs \<Rightarrow> (int \<times> nat \<times> vfs) option" where
  "make_entry init dir name v = do {
     (ret, v1) \<leftarrow> (if first_entry dir v then make_first_directory dir v else Some (0, v));
     if ret \<noteq> 0 then Some (-1, 0, v1)
     else do {
       (e, v2) \<leftarrow> find_empty_dentry dir v1;
       (ret, v3) \<leftarrow> (if first_entry dir v2 then create_bptree dir v2 else Some (0, v2));
       if ret \<noteq> 0 then Some (-1, 0, v3)
       else let ip = inode_of v3 dir;
                v4 = set_inode dir (ip\<lparr>i_links_count := u32_add (i_links_count ip) 1, i_ptr := e\<rparr>) v3
            in do {
              assert_opt (i_links_count (inode_of v4 dir) = u32_add e 1);
              (ino, s) \<leftarrow> alloc_new_inode (v_fs v4);
              let v5 = v4\<lparr>v_fs := s\<rparr> in
              if ino = 0 then Some (-1, 0, v5)
              else let v6 = set_inode ino (init (inode_of v5 ino)) v5
                   in do {
                     d \<leftarrow> dentry_at dir e v6;
                     v7 \<leftarrow> index_set dir name e (put_dentry dir e
                       (d\<lparr>d_flag := DIR_USED, d_ino := ino, d_version := i_version (inode_of v6 ino), d_filename := name\<rparr>) v6);
                     Some (0, ino, v7) } } } }"

definition createfile :: "nat \<Rightarrow> nat \<Rightarrow> string \<Rightarrow> nat \<Rightarrow> u32 \<times> u32 \<Rightarrow> vfs \<Rightarrow> (int \<times> nat \<times> vfs) option" where
  "createfile now dir name mode dev v =
    (if length name < 1 \<or> FNAME_SIZE \<le> length name then Some (-1, 0, v)
     else do {
       ip \<leftarrow> read_inode dir v;
       if i_links_count ip = MAX_FILES_PER_DIR then Some (-1, 0, v)
       else make_entry (new_file_inode now mode dev) dir name v })"

text \<open>\<open>nvfuse_mkdir\<close> returns success also for a bad or an existing name.\<close>

definition mkdir :: "nat \<Rightarrow> nat \<Rightarrow> string \<Rightarrow> nat \<Rightarrow> vfs \<Rightarrow> (int \<times> nat \<times> vfs) option" where
  "mkdir now dir name mode v =
    (if length name < 1 \<or> FNAME_SIZE \<le> length name then Some (0, 0, v)
     else do {
       (r, d) \<leftarrow> lookup dir name v;
       if r = 0 then Some (0, 0, v)
       else do {
         ip \<leftarrow> read_inode dir v;
         if i_links_count ip = MAX_FILES_PER_DIR then Some (-1, 0, v)
         else do {
           assert_opt (u32_add (i_ptr ip) 1 = i_links_count ip);
           make_entry (new_dir_inode now mode) dir name v } } })"

section \<open>Removal\<close>

definition shrink_dentry :: "nat \<Rightarrow> nat \<Rightarrow> nat \<Rightarrow> vfs \<Rightarrow> (int \<times> vfs) option" where
  "shrink_dentry dir to_entry from_entry v =
    (if to_entry = from_entry then Some (-1, v)
     else do {
       assert_opt (to_entry < from_entry);
       dir_from \<leftarrow> dentry_at dir from_entry v;
       assert_opt (d_flag dir_from \<noteq> DIR_DELETED);
       dir_to \<leftarrow> dentry_at dir to_entry v;
       assert_opt (d_flag dir_to = DIR_DELETED);
       let v1 = put_dentry dir from_entry (dir_from\<lparr>d_flag := DIR_DELETED\<rparr>) (put_dentry dir to_entry dir_from v) in do {
         v2 \<leftarrow> index_del dir (d_filename dir_from) v1;
         v3 \<leftarrow> index_set dir (d_filename dir_from) to_entry v2;
         Some (0, v3) } })"

text \<open>The last block of the directory is given back when it has no entry.\<close>

definition shrink_dir :: "nat \<Rightarrow> vfs \<Rightarrow> vfs option" where
  "shrink_dir dir v =
    (let n = i_links_count (inode_of v dir) in
     if n * 128 mod 4096 = 0 then do {
       v1 \<leftarrow> free_size dir (int (n * 128)) v;
       let ip = inode_of v1 dir in
       Some (set_inode dir (ip\<lparr>i_size := i_size ip - 4096\<rparr>)
         (v1\<lparr>v_dir := (v_dir v1)(dir := take (nat ((i_size ip - 4096) div 128)) (v_dir v1 dir))\<rparr>)) }
     else Some v)"

text \<open>One link less of a file; without links its blocks and the inode are freed.\<close>

definition unlink_inode :: "nat \<Rightarrow> vfs \<Rightarrow> vfs option" where
  "unlink_inode ino v =
    (let ip = inode_of v ino; v1 = set_inode ino (ip\<lparr>i_links_count := u32_sub (i_links_count ip) 1\<rparr>) v in
     if i_links_count (inode_of v1 ino) = 0 then do { v2 \<leftarrow> free_size ino 0 v1; delete_inode ino v2 }
     else Some v1)"

definition drop_link :: "nat \<Rightarrow> vfs \<Rightarrow> vfs" where
  "drop_link dir v =
    (let ip = inode_of v dir; n = u32_sub (i_links_count ip) 1 in set_inode dir (ip\<lparr>i_links_count := n, i_ptr := u32_sub n 1\<rparr>) v)"

definition mark_deleted :: "nat \<Rightarrow> nat \<Rightarrow> vfs \<Rightarrow> vfs" where
  "mark_deleted dir i v = put_dentry dir i ((v_dir v dir ! i)\<lparr>d_flag := DIR_DELETED\<rparr>) v"

definition rmfile :: "nat \<Rightarrow> string \<Rightarrow> vfs \<Rightarrow> (int \<times> vfs) option" where
  "rmfile dir name v = do {
     dp \<leftarrow> read_inode dir v;
     e \<leftarrow> find_existing_dentry dir name v;
     d \<leftarrow> dentry_at dir e v;
     ip \<leftarrow> read_inode (d_ino d) v;
     if i_type ip = NVFUSE_TYPE_DIRECTORY then Some (-1, v)
     else do {
       v1 \<leftarrow> index_del dir name v;
       v2 \<leftarrow> unlink_inode (d_ino d) v1;
       let v3 = mark_deleted dir e (drop_link dir v2) in do {
         (r, v4) \<leftarrow> shrink_dentry dir e (i_links_count (inode_of v3 dir)) v3;
         v5 \<leftarrow> shrink_dir dir v4;
         Some (0, v5) } } }"

text \<open>The index of a removed directory and the directory itself.\<close>

definition delete_dir :: "nat \<Rightarrow> vfs \<Rightarrow> vfs option" where
  "delete_dir ino v = do {
     v1 \<leftarrow> (let bp = i_bpino (inode_of v ino) in
            if bp = 0 then Some v else do { b \<leftarrow> read_inode bp v; v1 \<leftarrow> free_size bp 0 v; delete_inode bp v1 });
     v2 \<leftarrow> free_size ino 0 v1;
     delete_inode ino v2 }"

definition rmdir :: "nat \<Rightarrow> string \<Rightarrow> vfs \<Rightarrow> (int \<times> vfs) option" where
  "rmdir dir name v = do {
     dp \<leftarrow> read_inode dir v;
     e \<leftarrow> find_existing_dentry dir name v;
     d \<leftarrow> dentry_at dir e v;
     ip \<leftarrow> read_inode (d_ino d) v;
     if i_ino ip = sb_root_ino (fs_sb (v_fs v)) then Some (-1, v)
     else if i_type ip = NVFUSE_TYPE_FILE then Some (-1, v)
     else if d_filename d \<noteq> name then Some (-1, v)
     else if 2 < i_links_count ip then Some (-1, v)
     else do {
       v1 \<leftarrow> index_del dir name (drop_link dir (mark_deleted dir e v));
       v2 \<leftarrow> delete_dir (d_ino d) v1;
       (r, v3) \<leftarrow> shrink_dentry dir e (i_links_count (inode_of v2 dir)) v2;
       v4 \<leftarrow> shrink_dir dir v3;
       Some (0, v4) } }"

section \<open>Links and renaming\<close>

text \<open>\<open>nvfuse_link\<close> searches an empty entry and then writes the entry \<open>i_ptr\<close>.\<close>

definition link :: "nat \<Rightarrow> string \<Rightarrow> nat \<Rightarrow> vfs \<Rightarrow> (int \<times> vfs) option" where
  "link newino name ino v =
    (if length name < 1 \<or> FNAME_SIZE \<le> length name then Some (-1, v)
     else do {
       (r, x) \<leftarrow> lookup newino name v;
       if r = 0 then Some (-1, v)
       else do {
         dp \<leftarrow> read_inode newino v;
         if i_links_count dp = MAX_FILES_PER_DIR then Some (-1, v)
         else do {
           (e, v1) \<leftarrow> find_empty_dentry newino v;
           let dp1 = inode_of v1 newino; p = i_ptr dp1;
               v2 = set_inode newino (dp1\<lparr>i_links_count := u32_add (i_links_count dp1) 1\<rparr>) v1
           in do {
             ip \<leftarrow> read_inode ino v2;
             let v3 = set_inode ino (ip\<lparr>i_links_count := u32_add (i_links_count ip) 1\<rparr>) v2 in do {
               d \<leftarrow> dentry_at newino p v3;
               v4 \<leftarrow> index_set newino name p (put_dentry newino p
                 (d\<lparr>d_flag := DIR_USED, d_ino := ino, d_version := i_version ip, d_filename := name\<rparr>) v3);
               Some (0, v4) } } } } })"

text \<open>\<open>nvfuse_rm_direntry\<close> with the inode number it stores.\<close>

definition rm_direntry :: "nat \<Rightarrow> string \<Rightarrow> vfs \<Rightarrow> (int \<times> nat \<times> vfs) option" where
  "rm_direntry dir name v = do {
     dp \<leftarrow> read_inode dir v;
     e \<leftarrow> find_existing_dentry dir name v;
     d \<leftarrow> dentry_at dir e v;
     ip \<leftarrow> read_inode (d_ino d) v;
     v1 \<leftarrow> index_del dir name (set_inode (d_ino d) (ip\<lparr>i_links_count := u32_sub (i_links_count ip) 1\<rparr>) v);
     Some (0, d_ino d, mark_deleted dir e v1) }"

definition rename :: "nat \<Rightarrow> string \<Rightarrow> nat \<Rightarrow> string \<Rightarrow> vfs \<Rightarrow> (int \<times> vfs) option" where
  "rename dir name newdir newname v = do {
     (r, ino, v1) \<leftarrow> rm_direntry dir name v;
     (r, x) \<leftarrow> lookup newdir newname v1;
     v2 \<leftarrow> (if r = 0 then do {
              ip \<leftarrow> read_inode (d_ino (the x)) v1;
              (r, v2) \<leftarrow> (if i_type ip = NVFUSE_TYPE_DIRECTORY then rmdir newdir newname v1 else rmfile newdir newname v1);
              Some v2 }
            else Some v1);
     (r, v3) \<leftarrow> link newdir newname ino v2;
     Some (0, v3) }"

definition hardlink :: "nat \<Rightarrow> string \<Rightarrow> nat \<Rightarrow> string \<Rightarrow> vfs \<Rightarrow> (int \<times> vfs) option" where
  "hardlink dir name newdir newname v = do {
     (r, d) \<leftarrow> lookup dir name v;
     if r < 0 then Some (-1, v)
     else do {
       (r', d') \<leftarrow> lookup newdir newname v;
       if r' = 0 then Some (-1, v)
       else do { (r'', v1) \<leftarrow> link newdir newname (d_ino (the d)) v; Some (0, v1) } } }"

section \<open>Frames\<close>

lemma inode_of_set [simp]: "inode_of (set_inode i ip v) j = (if j = i then ip else inode_of v j)"
  by (simp add: inode_of_def set_inode_def)

lemma inode_of_fields [simp]:
  "inode_of (v\<lparr>v_dir := x\<rparr>) = inode_of v" "inode_of (v\<lparr>v_tree := y\<rparr>) = inode_of v" "inode_of (v\<lparr>v_mb := z\<rparr>) = inode_of v"
  "inode_of (put_dentry dir i d v) = inode_of v" "inode_of (mark_deleted dir i v) = inode_of v"
  by (simp_all add: inode_of_def put_dentry_def mark_deleted_def fun_eq_iff)

lemma set_inode_fields [simp]:
  "v_dir (set_inode i ip v) = v_dir v" "v_tree (set_inode i ip v) = v_tree v" "v_mb (set_inode i ip v) = v_mb v"
  "v_fs (set_inode i ip v) = (v_fs v)\<lparr>fs_itable := (fs_itable (v_fs v))(i := ip)\<rparr>" "v_stale (set_inode i ip v) = v_stale v"
  by (simp_all add: set_inode_def)

lemma put_dentry_fields [simp]:
  "v_dir (put_dentry dir i d v) = (v_dir v)(dir := (v_dir v dir)[i := d])" "v_tree (put_dentry dir i d v) = v_tree v"
  "v_mb (put_dentry dir i d v) = v_mb v" "v_fs (put_dentry dir i d v) = v_fs v"
  by (simp_all add: put_dentry_def)

lemma scan_free_ibitmap_frame: "scan_free_ibitmap b h s = Some (i, s') \<Longrightarrow> \<exists>im. s' = s\<lparr>fs_ibm := im\<rparr>"
  by (auto simp: scan_free_ibitmap_def Let_def split: bind_splits if_splits option.splits)
    (metis fs.surjective fs.update_convs(2))+

text \<open>What an allocation or a release of an inode leaves alone.\<close>

definition same_blocks_fs :: "fs \<Rightarrow> fs \<Rightarrow> bool" where
  "same_blocks_fs s s' \<longleftrightarrow> fs_primary s' = fs_primary s \<and> fs_last_bgid s' = fs_last_bgid s \<and> bgn s' = bgn s \<and> ipb s' = ipb s \<and> fs_dbm s' = fs_dbm s
     \<and> sb_free_blocks (fs_sb s') = sb_free_blocks (fs_sb s) \<and> sb_no_of_used_blocks (fs_sb s') = sb_no_of_used_blocks (fs_sb s)
     \<and> sb_root_ino (fs_sb s') = sb_root_ino (fs_sb s)"

lemma find_inode_loop_frame: "find_inode_loop n start b h s = Some (i, s') \<Longrightarrow> \<exists>im. s' = s\<lparr>fs_ibm := im\<rparr>"
proof (induction n arbitrary: b h s)
  case (Suc n)
  obtain j s1 where j: "scan_free_ibitmap b h s = Some (j, s1)" using Suc.prems by (auto split: option.splits)
  then obtain im where im: "s1 = s\<lparr>fs_ibm := im\<rparr>" using scan_free_ibitmap_frame by blast
  show ?case
  proof (cases "j = 0")
    case True
    then obtain im' where "s' = s1\<lparr>fs_ibm := im'\<rparr>" using Suc.prems Suc.IH j by (auto simp: Let_def split: if_splits)
    then show ?thesis by (auto simp: im)
  next
    case False
    then show ?thesis using Suc.prems j im by auto
  qed
qed simp

lemma alloc_new_inode_frame: "alloc_new_inode s = Some (ino, s') \<Longrightarrow> same_blocks_fs s s'"
  unfolding alloc_new_inode_def find_free_inode_def
  by (auto simp: dec_free_inodes_def same_blocks_fs_def Let_def split: bind_splits dest!: find_inode_loop_frame)

lemma delete_inode_frame: "relocate_delete_inode ino s = Some s' \<Longrightarrow> same_blocks_fs s s'"
  by (auto simp: relocate_delete_inode_def inc_free_inodes_def release_ibitmap_def same_blocks_fs_def Let_def split: bind_splits if_splits)

lemma alloc_inv_itable [simp]: "alloc_inv (s\<lparr>fs_itable := x\<rparr>) = alloc_inv s"
  by (simp add: alloc_inv_def)

lemma used_itable [simp]: "inode_used (s\<lparr>fs_itable := x\<rparr>) = inode_used s" "block_used (s\<lparr>fs_itable := x\<rparr>) = block_used s"
  by (simp_all add: inode_used_def block_used_def fun_eq_iff)

text \<open>The blocks of a file stay its blocks when the allocator moves on.\<close>

lemma node_fs: "node (t\<lparr>bm_fs := s\<rparr>) q = node t q"
  by (induction t q rule: node.induct) simp_all

lemma tree_inv_fs:
  assumes "tree_inv t" "alloc_inv s" "fs_primary s" "fs_last_bgid s < bgn s" "bgn s = bgn (bm_fs t)"
    and "\<And>q. rpath q \<Longrightarrow> node t q \<noteq> 0 \<Longrightarrow> block_used s (node t q)"
  shows "tree_inv (t\<lparr>bm_fs := s\<rparr>)"
  using assms unfolding tree_inv_def data_block_def by (auto simp: node_fs)

lemma tree_inv_same:
  assumes "tree_inv t" "alloc_inv s" "same_blocks_fs (bm_fs t) s"
  shows "tree_inv (t\<lparr>bm_fs := s\<rparr>)"
proof (rule tree_inv_fs [OF assms(1,2)])
  fix q
  assume "rpath q" "node t q \<noteq> 0"
  then have "block_used (bm_fs t) (node t q)" using assms(1) by (simp add: tree_inv_def data_block_def)
  then show "block_used s (node t q)" using assms(3) by (simp add: same_blocks_fs_def block_used_def)
qed (use assms in \<open>auto simp: same_blocks_fs_def tree_inv_def\<close>)

text \<open>The allocation of one of the first eleven blocks of a file.\<close>

lemma get_block_direct:
  assumes "tree_inv t" "l < 11" "bm_ib t ! l = 0" "ino < bgn (bm_fs t) * 4096" "4 \<le> sb_free_blocks (fs_sb (bm_fs t))"
  shows "\<exists>b t'. get_block ino (int l) 1 True t = Some (0, 1, b, t') \<and> b \<noteq> 0 \<and> bm_ib t' = (bm_ib t)[l := b]
    \<and> alloc_post (bm_fs t) [b] (bm_fs t') \<and> tree_inv t'"
proof -
  have path: "fst (block_to_path (int l)) = [l]" using block_to_path_direct [of "int l"] assms(2) by simp
  have pre: "bmap t (int l) = 0" "dense_at t (int l)" using assms(3) by (simp_all add: bmap_def dense_at_def path)
  have ml: "int l < max_lblock" using assms(2) by (simp add: max_lblock_def)
  obtain k r bs dm t3 where g: "get_block ino (int l) 1 True t = Some (0, k, last bs, t3)" "k \<le> 1" "k = length dm + 1"
    "bs \<noteq> []" "r \<noteq> []" "leaf_of r bs = rev (fst (block_to_path (int l)))"
    "alloc_post (bm_fs t) (bs @ dm) (bm_fs t3)" "length (bm_ib t3) = 14" "\<forall>b. length (bm_mb t3 b) = 1024"
    "\<forall>q. rpath q \<longrightarrow> (\<forall>v. new_at r bs dm q v \<longrightarrow> node t3 q = v) \<and> ((\<nexists>v. new_at r bs dm q v) \<longrightarrow> node t3 q = node t q)"
    using get_block_alloc_run [of "int l" t ino 1] ml assms(1,4,5) pre by auto
  have dm: "dm = []" using g(2,3) by simp
  have "length (leaf_of r bs) = 1" using g(6) by (simp add: path)
  then have "length bs - 1 + length r = 1" by (simp add: leaf_of_def)
  then have lb: "length bs = 1" "r = [l]" using g(4-6) path by (cases bs; cases r; simp add: leaf_of_def)+
  then obtain b where b: "bs = [b]" by (cases bs) auto
  have na: "new_at r bs dm q v \<longleftrightarrow> q = [l] \<and> v = b" for q v by (auto simp: new_at_def b lb(2) dm)
  have rp: "rpath [i]" if "i < 14" for i using that by (auto simp: rpath_def depth_of_def)
  have "bm_ib t3 ! i = (bm_ib t)[l := b] ! i" if "i < 14" for i
    using g(10) [rule_format, OF rp [OF that]] na assms(1) that by (cases "i = l") (auto simp: tree_inv_def)
  then have ib: "bm_ib t3 = (bm_ib t)[l := b]" using g(8) assms(1) by (auto simp: tree_inv_def intro: nth_equalityI)
  have "tree_inv t3" by (rule tree_inv_extend [OF assms(1) g(7)]) (use g(8-10) in blast)+
  moreover have "b \<noteq> 0" using alloc_post_nonzero [OF g(7), of b] by (simp add: b)
  ultimately show ?thesis using g(1,3,7) ib by (auto simp: b dm)
qed

section \<open>Names and entries\<close>

lemma name_bytes_inj [simp]: "name_bytes a = name_bytes b \<longleftrightarrow> a = b"
proof
  have "inj (\<lambda>c::char. word_of_nat (of_char c) :: u8)"
  proof (rule injI)
    fix c d :: char
    assume "(word_of_nat (of_char c) :: u8) = word_of_nat (of_char d)"
    then have "unat (word_of_nat (of_char c) :: u8) = unat (word_of_nat (of_char d) :: u8)" by simp
    moreover have "take_bit 8 (of_char x) = (of_char x :: nat)" for x :: char by (simp add: take_bit_eq_mod)
    ultimately have "(of_char c :: nat) = of_char d" by (simp add: unsigned_of_nat)
    then show "c = d" by simp
  qed
  then show "name_bytes a = name_bytes b \<Longrightarrow> a = b" unfolding name_bytes_def using inj_map_eq_map by blast
qed simp

text \<open>The entries of a directory with \<open>n\<close> names in \<open>c\<close> blocks: the used entries are the
  first \<open>n\<close>, and no name occurs twice.\<close>

definition entries_ok :: "dir_entry list \<Rightarrow> nat \<Rightarrow> nat \<Rightarrow> bool" where
  "entries_ok es n c \<longleftrightarrow> 2 \<le> n \<and> n \<le> 32 * c \<and> length es = 32 * c \<and> (\<forall>i<32 * c. d_flag (es ! i) = DIR_USED \<longleftrightarrow> i < n)
     \<and> distinct (map d_filename (take n es)) \<and> d_filename (es ! 0) = ''.'' \<and> d_filename (es ! 1) = ''..''"

definition entry_index :: "dir_entry list \<Rightarrow> nat \<Rightarrow> u8 list \<rightharpoonup> nat" where
  "entry_index es n = map_of (map (\<lambda>i. (name_bytes (d_filename (es ! i)), i)) [2..<n])"

text \<open>The directory as a map from names to inode numbers.\<close>

definition entry_map :: "dir_entry list \<Rightarrow> nat \<Rightarrow> string \<rightharpoonup> nat" where
  "entry_map es n = map_of (map (\<lambda>i. (d_filename (es ! i), d_ino (es ! i))) [2..<n])"

lemma entries_okD:
  assumes "entries_ok es n c"
  shows "2 \<le> n" "n \<le> 32 * c" "length es = 32 * c" "\<And>i. i < 32 * c \<Longrightarrow> d_flag (es ! i) = DIR_USED \<longleftrightarrow> i < n"
    "\<And>i j. i < n \<Longrightarrow> j < n \<Longrightarrow> d_filename (es ! i) = d_filename (es ! j) \<Longrightarrow> i = j"
    "d_filename (es ! 0) = ''.''" "d_filename (es ! 1) = ''..''"
proof -
  show "i = j" if "i < n" "j < n" "d_filename (es ! i) = d_filename (es ! j)" for i j
    using assms that nth_eq_iff_index_eq [of "map d_filename (take n es)" i j] by (simp add: entries_ok_def)
qed (use assms in \<open>auto simp: entries_ok_def\<close>)

lemma map_of_index:
  assumes "inj_on k (set is)" "i \<in> set is"
  shows "map_of (map (\<lambda>i. (k i, g i)) is) (k i) = Some (g i)"
  using assms by (induction "is") (auto simp: inj_on_def)

lemma map_of_index_iff:
  assumes "inj_on k (set is)"
  shows "map_of (map (\<lambda>i. (k i, g i)) is) x = Some y \<longleftrightarrow> (\<exists>i\<in>set is. k i = x \<and> g i = y)"
  using map_of_index [OF assms, of _ g] map_of_SomeD [of "map (\<lambda>i. (k i, g i)) is" x y] by fastforce

lemma entry_index_iff:
  assumes "entries_ok es n c"
  shows "entry_index es n x = Some i \<longleftrightarrow> 2 \<le> i \<and> i < n \<and> name_bytes (d_filename (es ! i)) = x"
proof -
  have "inj_on (\<lambda>i. name_bytes (d_filename (es ! i))) (set [2..<n])" using entries_okD(5) [OF assms] by (auto simp: inj_on_def)
  from map_of_index_iff [OF this, of "\<lambda>i. i" x i] show ?thesis by (auto simp: entry_index_def)
qed

lemma entry_map_iff:
  assumes "entries_ok es n c"
  shows "entry_map es n x = Some y \<longleftrightarrow> (\<exists>i. 2 \<le> i \<and> i < n \<and> d_filename (es ! i) = x \<and> d_ino (es ! i) = y)"
proof -
  have "inj_on (\<lambda>i. d_filename (es ! i)) (set [2..<n])" using entries_okD(5) [OF assms] by (auto simp: inj_on_def)
  from map_of_index_iff [OF this, of "\<lambda>i. d_ino (es ! i)" x y] show ?thesis by (auto simp: entry_map_def)
qed

lemma entry_index_dom: "entries_ok es n c \<Longrightarrow> dom (entry_index es n) = name_bytes ` dom (entry_map es n)"
  by (auto simp: dom_def entry_index_iff entry_map_iff) 

lemma map_eq_iff: "(\<And>x y. f x = Some y \<longleftrightarrow> g x = Some y) \<Longrightarrow> f = g"
  by (rule ext) (metis not_None_eq)

text \<open>A new entry behind the used ones.\<close>

lemma entries_add:
  assumes "entries_ok es n c" "n < 32 * c" "d_flag d = DIR_USED" "d_filename d = name" "d_ino d = ino"
    and "name \<notin> dom (entry_map es n)" "name \<noteq> ''.''" "name \<noteq> ''..''"
  shows "entries_ok (es[n := d]) (n + 1) c" "entry_index (es[n := d]) (n + 1) = (entry_index es n)(name_bytes name \<mapsto> n)"
    "entry_map (es[n := d]) (n + 1) = (entry_map es n)(name \<mapsto> ino)"
proof -
  note e = entries_okD [OF assms(1)]
  have fresh: "d_filename (es ! i) \<noteq> name" if "i < n" for i
  proof -
    consider "i = 0" | "i = 1" | "2 \<le> i" by linarith
    then show ?thesis
    proof cases
      case 3
      then show ?thesis using assms(6) that entry_map_iff [OF assms(1)] by blast
    qed (use e(6,7) assms(7,8) in auto)
  qed
  have "map d_filename (take (n + 1) (es[n := d])) = map d_filename (take n es) @ [name]"
    using e(3) assms(2,4) by (simp add: take_Suc_conv_app_nth take_update_cancel)
  moreover have "name \<notin> set (map d_filename (take n es))" using fresh e(3) assms(2) by (fastforce simp: in_set_conv_nth)
  ultimately have dis: "distinct (map d_filename (take (n + 1) (es[n := d])))" using assms(1) by (simp add: entries_ok_def)
  show ok: "entries_ok (es[n := d]) (n + 1) c" unfolding entries_ok_def
    using e assms(2,3) dis by (auto simp: nth_list_update less_Suc_eq)
  show "entry_index (es[n := d]) (n + 1) = (entry_index es n)(name_bytes name \<mapsto> n)"
  proof (rule map_eq_iff)
    show "entry_index (es[n := d]) (n + 1) x = Some y \<longleftrightarrow> ((entry_index es n)(name_bytes name \<mapsto> n)) x = Some y" for x y
      unfolding entry_index_iff [OF ok] using e(1,3) assms(2,4) fresh entry_index_iff [OF assms(1), of x y]
      by (auto simp: nth_list_update less_Suc_eq split: if_splits)
  qed
  show "entry_map (es[n := d]) (n + 1) = (entry_map es n)(name \<mapsto> ino)"
  proof (rule map_eq_iff)
    have at: "es[n := d] ! i = (if i = n then d else es ! i)" if "i < n + 1" for i using that e(3) assms(2) by simp
    show "entry_map (es[n := d]) (n + 1) x = Some y \<longleftrightarrow> ((entry_map es n)(name \<mapsto> ino)) x = Some y" for x y
    proof (cases "x = name")
      case True
      have "(\<exists>i. 2 \<le> i \<and> i < n + 1 \<and> d_filename (es[n := d] ! i) = x \<and> d_ino (es[n := d] ! i) = y) \<longleftrightarrow> y = ino"
        using True at fresh assms(4,5) e(1) by (metis less_add_one less_antisym Suc_eq_plus1)
      then show ?thesis unfolding entry_map_iff [OF ok] using True by auto
    next
      case False
      have "(\<exists>i. 2 \<le> i \<and> i < n + 1 \<and> d_filename (es[n := d] ! i) = x \<and> d_ino (es[n := d] ! i) = y)
          \<longleftrightarrow> (\<exists>i. 2 \<le> i \<and> i < n \<and> d_filename (es ! i) = x \<and> d_ino (es ! i) = y)"
        using False at assms(4) by (metis less_Suc_eq Suc_eq_plus1 less_irrefl)
      then show ?thesis unfolding entry_map_iff [OF ok] using False entry_map_iff [OF assms(1)] by simp
    qed
  qed
qed

section \<open>A directory and its invariant\<close>

text \<open>A directory with \<open>n\<close> entries in \<open>c\<close> blocks, all of them direct blocks of its inode:
  counters, size, entries, index and block map agree.\<close>

definition dir_at :: "vfs \<Rightarrow> nat \<Rightarrow> nat \<Rightarrow> nat \<Rightarrow> bool" where
  "dir_at v dir n c \<longleftrightarrow> entries_ok (v_dir v dir) n c \<and> n \<le> 320 \<and> c \<le> 10
     \<and> i_ino (inode_of v dir) = dir \<and> ROOT_INO \<le> dir \<and> dir < bgn (v_fs v) * 4096 \<and> inode_used (v_fs v) dir
     \<and> i_type (inode_of v dir) = NVFUSE_TYPE_DIRECTORY \<and> i_links_count (inode_of v dir) = n \<and> i_ptr (inode_of v dir) = n - 1
     \<and> i_size (inode_of v dir) = 4096 * int c \<and> i_bpino (inode_of v dir) \<noteq> 0
     \<and> index_exact (v_tree v (i_bpino (inode_of v dir))) (entry_index (v_dir v dir) n)
     \<and> tree_inv (file_map v dir) \<and> (\<forall>l. c \<le> l \<longrightarrow> l < 14 \<longrightarrow> i_blocks (inode_of v dir) ! l = 0)"

definition dir_blocks :: "nat \<Rightarrow> nat" where
  "dir_blocks n = (n + 31) div 32"

definition dir_ok :: "vfs \<Rightarrow> nat \<Rightarrow> bool" where
  "dir_ok v dir \<longleftrightarrow> dir_at v dir (i_links_count (inode_of v dir)) (dir_blocks (i_links_count (inode_of v dir)))"

definition dir_map :: "vfs \<Rightarrow> nat \<Rightarrow> string \<rightharpoonup> nat" where
  "dir_map v dir = entry_map (v_dir v dir) (i_links_count (inode_of v dir))"

text \<open>What an operation on a directory keeps of the other inodes, and what it keeps of the
  inode bitmaps.\<close>

definition others_same :: "vfs \<Rightarrow> nat set \<Rightarrow> vfs \<Rightarrow> bool" where
  "others_same v D v' \<longleftrightarrow> (\<forall>j. j \<notin> D \<longrightarrow> inode_of v' j = inode_of v j \<and> v_dir v' j = v_dir v j)"

definition same_inodes_fs :: "fs \<Rightarrow> fs \<Rightarrow> bool" where
  "same_inodes_fs s s' \<longleftrightarrow> fs_ibm s' = fs_ibm s \<and> sb_free_inodes (fs_sb s') = sb_free_inodes (fs_sb s) \<and> fs_last_ino s' = fs_last_ino s
     \<and> bgn s' = bgn s"

definition one_block_less :: "fs \<Rightarrow> fs \<Rightarrow> bool" where
  "one_block_less s s' \<longleftrightarrow> sb_free_blocks (fs_sb s) \<le> sb_free_blocks (fs_sb s') + 1
     \<and> sb_no_of_used_blocks (fs_sb s) \<le> sb_no_of_used_blocks (fs_sb s') \<and> bgn s' = bgn s"

lemma alloc_new_inode_hint:
  assumes inv: "alloc_inv s" "fs_primary s" and h: "fs_last_ino s < bgn s * 4096" "\<not> inode_used s (fs_last_ino s)"
    and a: "alloc_new_inode s = Some (ino, s')"
  shows "ino = fs_last_ino s"
proof -
  let ?b = "fs_last_ino s div 4096" and ?i = "fs_last_ino s mod 4096"
  have b: "?b < bgn s" using h(1) by (simp add: less_mult_imp_div_less)
  obtain k where k: "bgn s = Suc k" using b by (cases "bgn s") auto
  note c = alloc_invD(8) [OF inv(1) b]
  have free: "\<not> tst (fs_ibm s ! ?b) ?i" using h(2) by (simp add: inode_used_def)
  then have "bd_free_inodes (fs_bds s ! ?b) \<noteq> 0"
    unfolding consistentD(4) [OF c] using count_pos_pos_iff [of "\<lambda>i. \<not> tst (fs_ibm s ! ?b) i" 4096] by force
  moreover have "cyc_find (\<lambda>i. \<not> tst (fs_ibm s ! ?b) i) 4096 ?i (Suc 4095) = Some ?i"
    unfolding cyc_find.simps using free by simp
  moreover have "Suc 4095 = 4096" by simp
  ultimately have "\<exists>s1. scan_free_ibitmap ?b ?i s = Some (fs_last_ino s, s1)"
    using bd_okD(4) [OF consistentD(1) [OF c]] alloc_invD(5) [OF inv(1)]
    by (simp add: scan_free_ibitmap_def alloc_get_bd [OF inv(1) b] Let_def)
  moreover have "fs_last_ino s \<noteq> 0" using free alloc_invD(7) [OF inv(1), of 0] by (metis div_0 mod_0 zero_less_numeral)
  ultimately have "\<exists>s1. find_free_inode (fs_last_ino s) s = Some (fs_last_ino s, s1)"
    unfolding find_free_inode_def using inv(2) alloc_invD(5) [OF inv(1)] k by (auto simp: Let_def)
  then show ?thesis using a by (auto simp: alloc_new_inode_def split: bind_splits)
qed

text \<open>One inode is taken, the one at the hint when that is free.\<close>

definition one_inode_taken :: "fs \<Rightarrow> nat \<Rightarrow> fs \<Rightarrow> bool" where
  "one_inode_taken s ino s' \<longleftrightarrow> (\<forall>j < bgn s * 4096. inode_used s' j \<longleftrightarrow> j = ino \<or> inode_used s j)
     \<and> fs_last_ino s' = ino + 1 \<and> sb_free_inodes (fs_sb s') = sb_free_inodes (fs_sb s) - 1 \<and> bgn s' = bgn s
     \<and> (\<not> inode_used s (fs_last_ino s) \<longrightarrow> ino = fs_last_ino s)"

lemma dir_atD:
  assumes "dir_at v dir n c"
  shows "entries_ok (v_dir v dir) n c" "n \<le> 320" "c \<le> 10" "i_ino (inode_of v dir) = dir" "ROOT_INO \<le> dir"
    "dir < bgn (v_fs v) * 4096" "inode_used (v_fs v) dir" "i_type (inode_of v dir) = NVFUSE_TYPE_DIRECTORY"
    "i_links_count (inode_of v dir) = n" "i_ptr (inode_of v dir) = n - 1" "i_size (inode_of v dir) = 4096 * int c"
    "i_bpino (inode_of v dir) \<noteq> 0" "index_exact (v_tree v (i_bpino (inode_of v dir))) (entry_index (v_dir v dir) n)"
    "tree_inv (file_map v dir)" "\<And>l. c \<le> l \<Longrightarrow> l < 14 \<Longrightarrow> i_blocks (inode_of v dir) ! l = 0"
  using assms by (simp_all add: dir_at_def)

lemma dir_at_read: "dir_at v dir n c \<Longrightarrow> read_inode dir v = Some (inode_of v dir)"
  using dir_atD(4,5) by (simp add: read_inode_def)

lemma dir_at_fs: "dir_at v dir n c \<Longrightarrow> alloc_inv (v_fs v) \<and> fs_primary (v_fs v) \<and> fs_last_bgid (v_fs v) < bgn (v_fs v)"
  using dir_atD(14) by (simp add: tree_inv_def file_map_def)

lemma dir_num: "i_size (inode_of v dir) = 4096 * int c \<Longrightarrow> nat (i_size (inode_of v dir) div 128) = 32 * c"
  "i_size (inode_of v dir) = 4096 * int c \<Longrightarrow> nat (i_size (inode_of v dir) div 4096) = c"
  by simp_all

lemma scan_block_hit:
  assumes "entries_ok (v_dir v dir) n c" "n < 32 * c" "e + 1 = int (n mod 32)" "lblk = n div 32"
  shows "scan_block 32 dir lblk e v = Some (Some (n mod 32), e + 1)"
proof -
  have "e + 1 \<noteq> 32" using assms(3) by linarith
  moreover have "lblk * 32 + nat (e + 1) = n" using assms(3,4) by simp
  moreover have "dentry_at dir n v = Some (v_dir v dir ! n)" using entries_okD(3) [OF assms(1)] assms(2) by (simp add: dentry_at_def)
  moreover have "dir_is_invalid (v_dir v dir ! n)"
    using entries_okD(4) [OF assms(1,2)] by (cases "d_flag (v_dir v dir ! n)") (simp_all add: dir_is_invalid_def)
  ultimately have "scan_block (Suc 31) dir lblk e v = Some (Some (n mod 32), e + 1)" 
    unfolding scan_block.simps using assms(3) by (simp add: Let_def)
  then show ?thesis by simp
qed

text \<open>The growth of a directory by a block.\<close>

lemma grow_dir_correct:
  assumes d: "dir_at v dir n c" and c: "c < 10" and free: "4 \<le> sb_free_blocks (fs_sb (v_fs v))"
  shows "\<exists>v1. grow_dir dir v = Some (0, v1) \<and> dir_at v1 dir n (c + 1) \<and> v_dir v1 dir = v_dir v dir @ replicate 32 zero_dentry
    \<and> others_same v {dir} v1 \<and> same_inodes_fs (v_fs v) (v_fs v1) \<and> one_block_less (v_fs v) (v_fs v1) \<and> v_tree v1 = v_tree v \<and> i_bpino (inode_of v1 dir) = i_bpino (inode_of v dir)"
proof -
  note f = dir_atD [OF d]
  let ?ip = "inode_of v dir"
  have "\<exists>b t'. get_block dir (int c) 1 True (file_map v dir) = Some (0, 1, b, t') \<and> b \<noteq> 0 \<and> bm_ib t' = (bm_ib (file_map v dir))[c := b]
    \<and> alloc_post (bm_fs (file_map v dir)) [b] (bm_fs t') \<and> tree_inv t'"
    by (rule get_block_direct [OF f(14)]) (use c f(6,15) free in \<open>auto simp: file_map_def\<close>)
  then obtain b t where g: "get_block dir (int c) 1 True (file_map v dir) = Some (0, 1, b, t)" "bm_ib t = (i_blocks ?ip)[c := b]"
    "alloc_post (v_fs v) [b] (bm_fs t)" "tree_inv t" by (auto simp: file_map_def)
  have it: "fs_itable (bm_fs t) = fs_itable (v_fs v)" "fs_ibm (bm_fs t) = fs_ibm (v_fs v)" "bgn (bm_fs t) = bgn (v_fs v)"
    "sb_free_inodes (fs_sb (bm_fs t)) = sb_free_inodes (fs_sb (v_fs v))" "fs_last_ino (bm_fs t) = fs_last_ino (v_fs v)"
    "one_block_less (v_fs v) (bm_fs t)"
    using g(3) by (simp_all add: alloc_post_def one_block_less_def)
  define v1 where "v1 = set_inode dir (?ip\<lparr>i_blocks := bm_ib t, i_size := i_size ?ip + 4096\<rparr>)
    (v\<lparr>v_fs := bm_fs t, v_mb := bm_mb t, v_dir := (v_dir v)(dir := v_dir v dir @ replicate 32 zero_dentry)\<rparr>)"
  have sz: "i_size ?ip div 4096 = int c" using f(11) by simp
  have "alloc_block dir (i_size ?ip div 4096) v = Some (0, put_map dir t v)" by (simp add: alloc_block_def sz g(1) del: One_nat_def)
  moreover have "inode_of (put_map dir t v) dir = ?ip\<lparr>i_blocks := bm_ib t\<rparr>" by (simp add: put_map_def inode_of_def it(1))
  ultimately have run: "grow_dir dir v = Some (0, v1)"
    using f(3,11) c by (simp add: grow_dir_def MAX_FILE_SIZE_def v1_def put_map_def set_inode_def DIR_ENTRY_NUM_def)
  have ip1: "inode_of v1 dir = ?ip\<lparr>i_blocks := bm_ib t, i_size := i_size ?ip + 4096\<rparr>" by (simp add: v1_def)
  have vd: "v_dir v1 dir = v_dir v dir @ replicate 32 zero_dentry" by (simp add: v1_def)
  note e = entries_okD [OF f(1)]
  have en: "entries_ok (v_dir v1 dir) n (c + 1)" unfolding entries_ok_def vd
    using e f(1) by (auto simp: entries_ok_def nth_append zero_dentry_def)
  have ei: "entry_index (v_dir v1 dir) n = entry_index (v_dir v dir) n"
    unfolding entry_index_def vd using e(2,3) by (intro arg_cong [of _ _ map_of] map_cong) (auto simp: nth_append)
  have fm: "file_map v1 dir = t\<lparr>bm_fs := v_fs v1\<rparr>" by (simp add: file_map_def ip1 v1_def)
  have "tree_inv (file_map v1 dir)" unfolding fm
    by (rule tree_inv_fs [OF g(4)]) (use g(4) in \<open>auto simp: v1_def tree_inv_def data_block_def\<close>)
  moreover have "i_blocks (inode_of v1 dir) ! l = 0" if "c + 1 \<le> l" "l < 14" for l
    using f(15) that by (simp add: ip1 g(2))
  moreover have "bgn (v_fs v1) = bgn (v_fs v)" "inode_used (v_fs v1) dir" using it f(7) by (simp_all add: v1_def inode_used_def)
  ultimately have "dir_at v1 dir n (c + 1)" unfolding dir_at_def using f en ei c by (simp add: ip1) (simp add: v1_def)
  moreover have "others_same v {dir} v1" by (simp add: others_same_def v1_def) (simp add: inode_of_def it(1))
  moreover have "same_inodes_fs (v_fs v) (v_fs v1)" using it by (simp add: same_inodes_fs_def v1_def)
  moreover have "one_block_less (v_fs v) (v_fs v1)" using it(6) by (simp add: one_block_less_def v1_def)
  moreover have "v_tree v1 = v_tree v" by (simp add: v1_def)
  ultimately show ?thesis using run vd ip1 by auto
qed

lemma dir_blocks_inside:
  assumes "n mod 32 \<noteq> 0"
  shows "dir_blocks (n + 1) = dir_blocks n" "n < 32 * dir_blocks n" "(n - 1) div 32 = n div 32" "(n - 1) mod 32 + 1 = n mod 32"
proof -
  obtain q r where n: "n = 32 * q + r" "0 < r" "r < 32" using assms by (metis mod_less_divisor mult_div_mod_eq neq0_conv zero_less_numeral)
  have "dir_blocks n = q + 1" "dir_blocks (n + 1) = q + 1" unfolding dir_blocks_def n(1) by (rule div_nat_eqI; use n(2,3) in simp)+
  then show "dir_blocks (n + 1) = dir_blocks n" "n < 32 * dir_blocks n" using n by simp_all
  have m: "n - 1 = 32 * q + (r - 1)" using n(1,2) by simp
  show "(n - 1) div 32 = n div 32" unfolding m unfolding n(1) using n(3) by simp
  have "(n - 1) mod 32 = r - 1" "n mod 32 = r" unfolding m unfolding n(1) using n(3) by simp_all
  then show "(n - 1) mod 32 + 1 = n mod 32" using n(2) by simp
qed

lemma dir_blocks_full:
  assumes "n mod 32 = 0"
  shows "32 * dir_blocks n = n" "dir_blocks (n + 1) = dir_blocks n + 1"
proof -
  obtain q where n: "n = 32 * q" using assms by (metis add_0_right mult_div_mod_eq)
  have "dir_blocks n = q" "dir_blocks (n + 1) = q + 1" unfolding dir_blocks_def n by (rule div_nat_eqI; simp)+
  then show "32 * dir_blocks n = n" "dir_blocks (n + 1) = dir_blocks n + 1" using n by simp_all
qed

lemma find_empty_correct:
  assumes d: "dir_at v dir n (dir_blocks n)" and n: "n < 320" and free: "4 \<le> sb_free_blocks (fs_sb (v_fs v))"
  shows "\<exists>v1. find_empty_dentry dir v = Some (n, v1) \<and> dir_at v1 dir n (dir_blocks (n + 1))
    \<and> entry_map (v_dir v1 dir) n = entry_map (v_dir v dir) n
    \<and> others_same v {dir} v1 \<and> same_inodes_fs (v_fs v) (v_fs v1) \<and> one_block_less (v_fs v) (v_fs v1)"
proof -
  note f = dir_atD [OF d]
  note e = entries_okD [OF f(1)]
  have p: "u32_sub n 1 = n - 1" using e(1) n by (simp add: u32_sub_small)
  have sz: "nat (i_size (inode_of v dir) div 128) = 32 * dir_blocks n" "nat (i_size (inode_of v dir) div 4096) = dir_blocks n"
    using dir_num [OF f(11)] by blast+
  show ?thesis
  proof (cases "n mod 32 = 0")
    case False
    note a = dir_blocks_inside [OF False]
    define e0 where "e0 = (n - 1) mod 32"
    have e0: "int e0 \<noteq> 31" "int e0 + 1 = int (n mod 32)" using a(4) mod_less_divisor [of 32 n] unfolding e0_def by linarith+
    have sb: "scan_block 32 dir (n div 32) (int e0) v = Some (Some (n mod 32), int e0 + 1)"
      by (rule scan_block_hit [OF f(1) a(2) e0(2) refl])
    obtain k where k: "dir_blocks n = Suc k" using a(2) by (cases "dir_blocks n") auto
    have scan: "scan_blocks (dir_blocks n) dir (dir_blocks n) (n div 32) (int e0) v = Some (Some n, int e0 + 1)"
      unfolding k scan_blocks.simps sb by simp
    have "find_retry dir (n div 32) (int e0) v = Some (n, v)"
      by (subst find_retry.simps) (use a(2) e0(1) scan in \<open>simp add: sz f(9) Let_def\<close>)
    then have "find_empty_dentry dir v = Some (n, v)"
      unfolding find_empty_dentry_def f(9) p Let_def a(3) e0_def .
    then show ?thesis using d a(1) by (auto simp: others_same_def same_inodes_fs_def one_block_less_def)
  next
    case True
    then have a: "32 * dir_blocks n = n" "dir_blocks (n + 1) = dir_blocks n + 1" "dir_blocks n < 10"
      using dir_blocks_full [OF True] n by linarith+
    obtain v1 where v1: "grow_dir dir v = Some (0, v1)" "dir_at v1 dir n (dir_blocks n + 1)" "v_dir v1 dir = v_dir v dir @ replicate 32 zero_dentry"
      "others_same v {dir} v1" "same_inodes_fs (v_fs v) (v_fs v1)" "one_block_less (v_fs v) (v_fs v1)" using grow_dir_correct [OF d a(3) free] by blast
    note f1 = dir_atD [OF v1(2)]
    have sz1: "nat (i_size (inode_of v1 dir) div 128) = 32 * (dir_blocks n + 1)" using dir_num(1) [OF f1(11)] .
    have q: "dir_blocks n = n div 32" using a(1) by (metis nonzero_mult_div_cancel_left zero_neq_numeral)
    have q1: "(32 + n) div 32 = Suc (dir_blocks n)" unfolding q by simp
    from q have sb: "scan_block 32 dir (dir_blocks n) (-1) v1 = Some (Some 0, 0)"
      using scan_block_hit [OF f1(1), of "-1" "dir_blocks n"] a(1) True by simp
    have "find_retry dir (dir_blocks n) (-1) v1 = Some (n, v1)"
      using sb a(1) f1(9) by (subst find_retry.simps) (simp add: sz1 q1 Let_def)
    moreover have "find_empty_dentry dir v = find_retry dir (dir_blocks n) (-1) v1"
      unfolding find_empty_dentry_def f(9) p Let_def by (subst find_retry.simps) (simp add: sz a(1) f(9) v1(1) q [symmetric] Let_def)
    moreover have "entry_map (v_dir v1 dir) n = entry_map (v_dir v dir) n"
      unfolding entry_map_def v1(3) using e(2,3) by (intro arg_cong [of _ _ map_of] map_cong) (auto simp: nth_append)
    ultimately show ?thesis using v1 a(2) by auto
  qed
qed

section \<open>Creation of an entry\<close>

text \<open>The conditions under which a name can be added.\<close>

definition fresh_name :: "string \<Rightarrow> (string \<rightharpoonup> nat) \<Rightarrow> bool" where
  "fresh_name name D \<longleftrightarrow> name \<notin> dom D \<and> name \<noteq> ''.'' \<and> name \<noteq> ''..'' \<and> 0 < dir_key (name_bytes name)
     \<and> dir_key (name_bytes name) \<notin> (\<lambda>m. dir_key (name_bytes m)) ` dom D"

definition can_create :: "vfs \<Rightarrow> bool" where
  "can_create v \<longleftrightarrow> fs_last_ino (v_fs v) < bgn (v_fs v) * 4096 \<and> sb_free_inodes (fs_sb (v_fs v)) \<noteq> 0 \<and> 4 \<le> sb_free_blocks (fs_sb (v_fs v))"

lemma entry_index_size: "entries_ok es n c \<Longrightarrow> card (dom (entry_index es n)) \<le> n"
proof -
  have "dom (entry_index es n) = set (map (\<lambda>i. name_bytes (d_filename (es ! i))) [2..<n])"
    by (auto simp: entry_index_def dom_map_of_conv_image_fst image_image)
  then show ?thesis using card_length [of "map (\<lambda>i. name_bytes (d_filename (es ! i))) [2..<n]"] by simp
qed

lemma index_set_correct:
  assumes "index_exact (v_tree v bp) D" "bp = i_bpino (inode_of v dir)" "bp \<noteq> 0" "name_bytes name \<notin> dom D"
    "dir_key (name_bytes name) \<notin> dir_key ` dom D" "0 < dir_key (name_bytes name)" "p < collision_mask" "card (dom D) < FANOUT"
  shows "\<exists>t. index_set dir name p v = Some (v\<lparr>v_tree := (v_tree v)(bp := t)\<rparr>) \<and> index_exact t (D(name_bytes name \<mapsto> p))"
  using set_exact [OF assms(1,4-8)] assms(2,3) by (auto simp: index_set_def Let_def)

text \<open>The new entry, its inode and its index, once a free entry is known.\<close>

lemma make_entry_strong:
  assumes d: "dir_ok v dir" and n: "i_links_count (inode_of v dir) < 320" and fresh: "fresh_name name (dir_map v dir)" and can: "can_create v"
    and init: "\<And>ip. i_version (init ip) = i_version ip"
  shows "\<exists>ino v'. make_entry init dir name v = Some (0, ino, v') \<and> dir_ok v' dir \<and> dir_map v' dir = (dir_map v dir)(name \<mapsto> ino)
    \<and> \<not> inode_used (v_fs v) ino \<and> inode_used (v_fs v') ino \<and> 8 \<le> ino \<and> ino < bgn (v_fs v) * 4096
    \<and> inode_of v' ino = init (zero_inode\<lparr>i_ino := ino, i_version := 1\<rparr>) \<and> others_same v {dir, ino} v'
    \<and> i_links_count (inode_of v' dir) = i_links_count (inode_of v dir) + 1 \<and> one_block_less (v_fs v) (v_fs v')
    \<and> one_inode_taken (v_fs v) ino (v_fs v')"
proof -
  define n where "n = i_links_count (inode_of v dir)"
  have d0: "dir_at v dir n (dir_blocks n)" using d by (simp add: dir_ok_def n_def)
  have free: "4 \<le> sb_free_blocks (fs_sb (v_fs v))" using can by (simp add: can_create_def)
  obtain v1 where v1: "find_empty_dentry dir v = Some (n, v1)" "dir_at v1 dir n (dir_blocks (n + 1))"
    "entry_map (v_dir v1 dir) n = entry_map (v_dir v dir) n" "others_same v {dir} v1" "same_inodes_fs (v_fs v) (v_fs v1)" "one_block_less (v_fs v) (v_fs v1)"
    using find_empty_correct [OF d0 _ free] n by (auto simp: n_def)
  note f = dir_atD [OF v1(2)] and f0 = dir_atD [OF d0]
  note e = entries_okD [OF f(1)]
  define c where "c = dir_blocks (n + 1)"
  have nc: "n < 32 * c" unfolding c_def dir_blocks_def by presburger
  let ?ip = "inode_of v1 dir"
  have ip: "i_links_count ?ip = n" "i_bpino ?ip \<noteq> 0" using f(9,12) by simp_all
  have nn: "u32_add n 1 = n + 1" using n by (simp add: u32_add_def n_def)
  define ip4 where "ip4 = ?ip\<lparr>i_links_count := n + 1, i_ptr := n\<rparr>"
  define v4 where "v4 = set_inode dir ip4 v1"
  have fs4: "v_fs v4 = (v_fs v1)\<lparr>fs_itable := (fs_itable (v_fs v1))(dir := ip4)\<rparr>" by (simp add: v4_def)
  have sf: "fs_ibm (v_fs v1) = fs_ibm (v_fs v)" "sb_free_inodes (fs_sb (v_fs v1)) = sb_free_inodes (fs_sb (v_fs v))"
    "fs_last_ino (v_fs v1) = fs_last_ino (v_fs v)" "bgn (v_fs v1) = bgn (v_fs v)" using v1(5) by (simp_all add: same_inodes_fs_def)
  obtain ino s where a: "alloc_new_inode (v_fs v4) = Some (ino, s)" "8 \<le> ino" "ino < bgn (v_fs v) * 4096" "\<not> inode_used (v_fs v4) ino"
    "\<forall>j < bgn (v_fs v) * 4096. inode_used s j \<longleftrightarrow> j = ino \<or> inode_used (v_fs v4) j"
    "fs_itable s = (fs_itable (v_fs v4))(ino := zero_inode\<lparr>i_ino := ino, i_version := 1\<rparr>)" "fs_dbm s = fs_dbm (v_fs v4)" "alloc_inv s"
    "fs_last_ino s = ino + 1" "sb_free_inodes (fs_sb s) = sb_free_inodes (fs_sb (v_fs v4)) - 1"
    using alloc_new_inode_spec [of "v_fs v4"] dir_at_fs [OF v1(2)] can sf by (auto simp: fs4 can_create_def)
  have used: "inode_used (v_fs v4) = inode_used (v_fs v)" using sf(1) by (simp add: fs4 inode_used_def fun_eq_iff)
  have ndir: "ino \<noteq> dir" using a(4) f0(7) used by auto
  have frame: "same_blocks_fs (v_fs v4) s" by (rule alloc_new_inode_frame [OF a(1)])
  define v6 where "v6 = set_inode ino (init (zero_inode\<lparr>i_ino := ino, i_version := 1\<rparr>)) (v4\<lparr>v_fs := s\<rparr>)"
  have it5: "inode_of (v4\<lparr>v_fs := s\<rparr>) ino = zero_inode\<lparr>i_ino := ino, i_version := 1\<rparr>" by (simp add: inode_of_def a(6))
  have i6: "inode_of v6 j = (if j = ino then init (zero_inode\<lparr>i_ino := ino, i_version := 1\<rparr>) else if j = dir then ip4 else inode_of v1 j)" for j
    by (simp add: v6_def inode_of_def a(6) v4_def)
  have vd6: "v_dir v6 = v_dir v1" "v_tree v6 = v_tree v1" "v_mb v6 = v_mb v1" by (simp_all add: v6_def v4_def)
  have at: "dentry_at dir n v6 = Some (v_dir v1 dir ! n)" using e(3) nc by (simp add: dentry_at_def vd6 c_def)
  define de where "de = (v_dir v1 dir ! n)\<lparr>d_flag := DIR_USED, d_ino := ino, d_version := 1, d_filename := name\<rparr>"
  have dm: "dir_map v dir = entry_map (v_dir v1 dir) n" using v1(3) by (simp add: dir_map_def n_def)
  note ea = entries_add [OF f(1) [folded c_def] nc, of de name ino]
  have fr: "name \<notin> dom (entry_map (v_dir v1 dir) n)" "name \<noteq> ''.''" "name \<noteq> ''..''" "0 < dir_key (name_bytes name)"
    "dir_key (name_bytes name) \<notin> dir_key ` dom (entry_index (v_dir v1 dir) n)"
    using fresh unfolding fresh_name_def dm by (auto simp: entry_index_dom [OF f(1)] image_image)
  have en: "entries_ok ((v_dir v1 dir)[n := de]) (n + 1) c" "entry_index ((v_dir v1 dir)[n := de]) (n + 1) = (entry_index (v_dir v1 dir) n)(name_bytes name \<mapsto> n)"
    "entry_map ((v_dir v1 dir)[n := de]) (n + 1) = (entry_map (v_dir v1 dir) n)(name \<mapsto> ino)"
    using ea fr by (simp_all add: de_def)
  define v7 where "v7 = put_dentry dir n de v6"
  have bp: "i_bpino (inode_of v7 dir) = i_bpino ?ip" using ndir by (simp add: v7_def i6 ip4_def)
  have "\<exists>t. index_set dir name n v7 = Some (v7\<lparr>v_tree := (v_tree v7)(i_bpino ?ip := t)\<rparr>)
      \<and> index_exact t ((entry_index (v_dir v1 dir) n)(name_bytes name \<mapsto> n))"
  proof (rule index_set_correct)
    show "index_exact (v_tree v7 (i_bpino ?ip)) (entry_index (v_dir v1 dir) n)" using f(13) by (simp add: v7_def vd6)
    show "n < collision_mask" using n by (simp add: n_def item_defs)
    show "card (dom (entry_index (v_dir v1 dir) n)) < FANOUT" using entry_index_size [OF f(1)] n by (simp add: n_def FANOUT_def)
    show "name_bytes name \<notin> dom (entry_index (v_dir v1 dir) n)" using fr(1) by (auto simp: entry_index_dom [OF f(1)])
  qed (use bp ip(2) fr in auto)
  then obtain t where t: "index_set dir name n v7 = Some (v7\<lparr>v_tree := (v_tree v7)(i_bpino ?ip := t)\<rparr>)"
    "index_exact t ((entry_index (v_dir v1 dir) n)(name_bytes name \<mapsto> n))" by blast
  define v8 where "v8 = v7\<lparr>v_tree := (v_tree v7)(i_bpino ?ip := t)\<rparr>"
  have i8: "inode_of v8 = inode_of v6" by (simp add: v8_def v7_def)
  have run: "make_entry init dir name v = Some (0, ino, v8)"
  proof -
    have fe: "first_entry dir v = False" "first_entry dir v1 = False" using f0(12) ip(2) by (simp_all add: first_entry_def)
    have vv: "i_version (inode_of v6 ino) = 1" using init by (simp add: i6)
    have v4e: "set_inode dir (?ip\<lparr>i_links_count := u32_add (i_links_count ?ip) 1, i_ptr := n\<rparr>) v1 = v4"
      unfolding v4_def ip4_def ip(1) nn ..
    have l4: "i_links_count (inode_of v4 dir) = u32_add n 1" unfolding nn by (simp add: v4_def ip4_def)
    have z: "(ino = 0) = False" using a(2) by simp
    show ?thesis
      by (simp only: make_entry_def fe if_False Option.bind_lunit split_conv simp_thms v1(1) Let_def v4e l4 assert_opt_simps a(1) z
        it5 v6_def [symmetric] at vv de_def [symmetric] v7_def [symmetric] t(1) v8_def [symmetric])
  qed
  have fsv8: "v_fs v8 = s\<lparr>fs_itable := (fs_itable s)(ino := init (zero_inode\<lparr>i_ino := ino, i_version := 1\<rparr>))\<rparr>"
    by (simp add: v8_def v7_def v6_def)
  have fm: "file_map v8 dir = (file_map v1 dir)\<lparr>bm_fs := v_fs v8\<rparr>"
    using ndir by (simp add: file_map_def i8 i6 ip4_def) (simp add: v8_def v7_def vd6)
  have bg: "bgn (v_fs v8) = bgn (v_fs v)" using frame sf(4) by (simp add: fsv8 same_blocks_fs_def fs4)
  have "tree_inv (file_map v8 dir)" unfolding fm
    by (rule tree_inv_same [OF f(14)]) (use a(8) frame in \<open>auto simp: fsv8 file_map_def same_blocks_fs_def fs4\<close>)
  moreover have "inode_used (v_fs v8) dir" using a(5) f0(6,7) used by (simp add: fsv8)
  moreover have "c \<le> 10" using n by (simp add: c_def n_def dir_blocks_def)
  ultimately have "dir_at v8 dir (n + 1) c"
    unfolding dir_at_def using f en(1,2) t(2) n bg f0(6) ndir
    by (auto simp: i8 i6 ip4_def n_def) (simp_all add: v8_def v7_def vd6 c_def n_def)
  moreover have l8: "i_links_count (inode_of v8 dir) = n + 1" using ndir by (simp add: i8 i6 ip4_def)
  ultimately have ok: "dir_ok v8 dir" by (simp add: dir_ok_def c_def)
  have "v_dir v8 dir = (v_dir v1 dir)[n := de]" by (simp add: v8_def v7_def vd6)
  then have "dir_map v8 dir = (dir_map v dir)(name \<mapsto> ino)" using en(3) dm l8 by (simp add: dir_map_def)
  moreover have "inode_used (v_fs v8) ino" using a(3,5) by (simp add: fsv8)
  moreover have "others_same v {dir, ino} v8"
    using v1(4) unfolding others_same_def i8 by (simp add: i6) (simp add: v8_def v7_def vd6)
  moreover have "inode_of v8 ino = init (zero_inode\<lparr>i_ino := ino, i_version := 1\<rparr>)" by (simp add: i8 i6)
  moreover have "\<not> inode_used (v_fs v) ino" using a(4) used by simp
  moreover have "one_block_less (v_fs v) (v_fs v8)"
    using v1(6) frame by (simp add: one_block_less_def fsv8 same_blocks_fs_def fs4)
  moreover have hint: "ino = fs_last_ino (v_fs v)" if "\<not> inode_used (v_fs v) (fs_last_ino (v_fs v))"
    using alloc_new_inode_hint [OF _ _ _ _ a(1)] dir_at_fs [OF v1(2)] can sf used that by (simp add: fs4 can_create_def)
  have "one_inode_taken (v_fs v) ino (v_fs v8)"
    unfolding one_inode_taken_def using a(5,9,10) used bg sf(2) hint by (simp add: fsv8) (simp add: fs4)
  ultimately show ?thesis using run ok a(2,3) l8 by (auto simp: n_def)
qed

lemma make_entry_correct:
  assumes d: "dir_ok v dir" and n: "i_links_count (inode_of v dir) < 320" and fresh: "fresh_name name (dir_map v dir)" and can: "can_create v"
    and init: "\<And>ip. i_version (init ip) = i_version ip"
  shows "\<exists>ino v'. make_entry init dir name v = Some (0, ino, v') \<and> dir_ok v' dir \<and> dir_map v' dir = (dir_map v dir)(name \<mapsto> ino)
    \<and> \<not> inode_used (v_fs v) ino \<and> inode_used (v_fs v') ino \<and> 8 \<le> ino \<and> ino < bgn (v_fs v) * 4096
    \<and> inode_of v' ino = init (zero_inode\<lparr>i_ino := ino, i_version := 1\<rparr>) \<and> others_same v {dir, ino} v'
    \<and> i_links_count (inode_of v' dir) = i_links_count (inode_of v dir) + 1 \<and> one_block_less (v_fs v) (v_fs v')"
  using make_entry_strong [of v dir name init] assms by blast

end
