(* ===== verification/NameSpace.thy ===== *)
theory NameSpace
  imports Directory
begin

text \<open>
  What the operations of \<open>Directory\<close> do to the map from names to inode numbers of a
  directory: creation adds a name, lookup finds it, removal takes it out and moves the
  last entry into the gap.  The theorems are about directories of at most 320 entries
  (all in direct blocks) whose names have different hashes, the case in which the index is
  exact.  Three properties are about what goes wrong otherwise: a lookup that has to scan
  a directory does not return, a lookup of an absent name with the hash of a present one
  stops the program, and a hard link or a rename overwrites the last entry.
\<close>

section \<open>Lookup\<close>

lemma name_bytes_dot: "is_dot (name_bytes name) \<longleftrightarrow> name = ''.'' \<or> name = ''..''"
proof -
  have "name_bytes ''.'' = [0x2e]" "name_bytes ''..'' = [0x2e, 0x2e]" by (simp_all add: name_bytes_def)
  then show ?thesis unfolding is_dot_def by (metis name_bytes_inj)
qed

definition key_of :: "string \<Rightarrow> key" where
  "key_of name = dir_key (name_bytes name)"

lemma index_get_correct:
  assumes d: "dir_at v dir n c" and nd: "name \<noteq> ''.''" "name \<noteq> ''..''" and k: "0 < key_of name"
  shows "\<exists>r q. index_get dir name v = Some (r, q)
    \<and> (if key_of name \<in> key_of ` dom (entry_map (v_dir v dir) n) then r = 0 \<and> (\<forall>p. entry_index (v_dir v dir) n (name_bytes name) = Some p \<longrightarrow> q = p)
       else r = -1)"
proof -
  note f = dir_atD [OF d]
  have "dir_key ` dom (entry_index (v_dir v dir) n) = key_of ` dom (entry_map (v_dir v dir) n)"
    by (simp add: entry_index_dom [OF f(1)] image_image key_of_def)
  moreover obtain r q where g: "nvfuse_get_dir_indexing (name_bytes name) (v_tree v (i_bpino (inode_of v dir)))
      = Some (r, q, v_tree v (i_bpino (inode_of v dir)))"
    "if dir_key (name_bytes name) \<in> dir_key ` dom (entry_index (v_dir v dir) n)
     then r = 0 \<and> (\<forall>p. entry_index (v_dir v dir) n (name_bytes name) = Some p \<longrightarrow> q = p) else r = -1"
    using get_exact [OF f(13), of "name_bytes name"] nd k by (auto simp: name_bytes_dot key_of_def)
  moreover have "index_get dir name v = Some (r, q)" using g(1) f(12) by (simp add: index_get_def Let_def)
  ultimately show ?thesis unfolding key_of_def [of name, symmetric] by metis
qed

lemma lookup_present:
  assumes d: "dir_at v dir n c" and i: "2 \<le> i" "i < n" "d_filename (v_dir v dir ! i) = name" and k: "0 < key_of name"
    and ino: "0 < d_ino (v_dir v dir ! i)" "d_ino (v_dir v dir ! i) < bgn (v_fs v) * 4096"
  shows "lookup dir name v = Some (0, Some (v_dir v dir ! i))"
proof -
  note f = dir_atD [OF d] and e = entries_okD [OF dir_atD(1) [OF d]]
  have nd: "name \<noteq> ''.''" "name \<noteq> ''..''" using e(5) [of i 0] e(5) [of i 1] e(1,6,7) i by auto
  have m: "entry_index (v_dir v dir) n (name_bytes name) = Some i" using i by (simp add: entry_index_iff [OF f(1)])
  then have "name_bytes name \<in> name_bytes ` dom (entry_map (v_dir v dir) n)" unfolding entry_index_dom [OF f(1), symmetric] by blast
  then have "name \<in> dom (entry_map (v_dir v dir) n)" by auto
  then have g: "index_get dir name v = Some (0, i)" using index_get_correct [OF d nd k] m by auto
  have at: "dentry_at dir i v = Some (v_dir v dir ! i)" "is_named name (v_dir v dir ! i)"
    using e(2,3) e(4) [of i] i by (simp_all add: dentry_at_def is_named_def)
  have "ipb (v_fs v) = 4096" using dir_at_fs [OF d] alloc_invD(5) by blast
  then show ?thesis using g at f(5,12) dir_at_read [OF d] i(1) ino
    by (simp add: lookup_def lookup_bptree_def mult.commute)
qed

lemma lookup_absent:
  assumes d: "dir_at v dir n c" and nd: "name \<noteq> ''.''" "name \<noteq> ''..''" and k: "0 < key_of name"
    and none: "key_of name \<notin> key_of ` dom (entry_map (v_dir v dir) n)"
  shows "lookup dir name v = Some (-1, None)"
  using index_get_correct [OF d nd k] none dir_atD(5,12) [OF d] dir_at_read [OF d]
  by (auto simp: lookup_def lookup_bptree_def)

lemma lookup_clash:
  assumes d: "dir_at v dir n c" and nd: "name \<noteq> ''.''" "name \<noteq> ''..''" and k: "0 < key_of name"
    and other: "m \<in> dom (entry_map (v_dir v dir) n)" "key_of m = key_of name" "m \<noteq> name"
  shows "lookup dir name v = None"
proof -
  note f = dir_atD [OF d] and e = entries_okD [OF dir_atD(1) [OF d]]
  obtain i where i: "2 \<le> i" "i < n" "d_filename (v_dir v dir ! i) = m" using other(1) by (auto simp: entry_map_iff [OF f(1)])
  have md: "m \<noteq> ''.''" "m \<noteq> ''..''" using e(5) [of i 0] e(5) [of i 1] e(1,6,7) i by auto
  have ei: "entry_index (v_dir v dir) n (name_bytes m) = Some i" using i by (simp add: entry_index_iff [OF f(1)])
  have "index_get dir m v = Some (0, i)" using index_get_correct [OF d md] k imageI [OF other(1), of key_of] other(2) ei by auto
  then have "\<exists>t. nvfuse_get_dir_indexing (name_bytes m) (v_tree v (i_bpino (inode_of v dir))) = Some (0, i, t)"
    by (auto simp: index_get_def Let_def split: bind_splits)
  moreover have "\<not> is_dot (name_bytes m)" using md by (simp add: name_bytes_dot)
  moreover have "\<not> is_dot (name_bytes name)" "dir_key (name_bytes m) = dir_key (name_bytes name)"
    using nd other(2) by (simp_all add: name_bytes_dot key_of_def)
  ultimately have "\<exists>t. nvfuse_get_dir_indexing (name_bytes name) (v_tree v (i_bpino (inode_of v dir))) = Some (0, i, t)"
    unfolding nvfuse_get_dir_indexing_def by simp
  then have g: "index_get dir name v = Some (0, i)" using f(12) by (auto simp: index_get_def Let_def)
  have "\<not> is_named name (v_dir v dir ! i)" using i(3) other(3) by (simp add: is_named_def)
  then show ?thesis using g dir_at_read [OF d] f(5,12) i(1,2) e(2,3) by (simp add: lookup_def lookup_bptree_def dentry_at_def)
qed

lemma linear_loop_ends: "linear_loop d name = Some y \<Longrightarrow> is_named name d"
  by (rule linear_loop.raw_induct [of "\<lambda>d name y. is_named name d"]) (auto split: if_splits)

lemma linear_loop_stuck: "\<not> is_named name d \<Longrightarrow> linear_loop d name = None"
  using linear_loop_ends by (cases "linear_loop d name") auto

lemma lookup_scan_stuck:
  assumes "index_get dir name v = Some (0, 0)" "ROOT_INO \<le> dir" "i_ino (inode_of v dir) = dir" "i_bpino (inode_of v dir) \<noteq> 0"
    "0 < i_size (inode_of v dir) div 4096" "v_dir v dir \<noteq> []" "\<not> is_named name (v_dir v dir ! 0)"
  shows "lookup dir name v = None"
  using assms linear_loop_stuck [OF assms(7)]
  by (simp add: lookup_def lookup_bptree_def lookup_linear_def read_inode_def dentry_at_def)

section \<open>Removal of an entry\<close>

text \<open>The entries after the removal of entry \<open>e\<close>, where \<open>n\<close> is the last used one.\<close>

definition fill_gap :: "dir_entry list \<Rightarrow> nat \<Rightarrow> nat \<Rightarrow> dir_entry list" where
  "fill_gap es e n = (if e = n then es else es[e := es ! n])[n := (es ! n)\<lparr>d_flag := DIR_DELETED\<rparr>]"

lemma fill_gap_nth:
  assumes "length es = 32 * c" "n < 32 * c" "e \<le> n" "i < 32 * c"
  shows "fill_gap es e n ! i = (if i = n then (es ! n)\<lparr>d_flag := DIR_DELETED\<rparr> else if i = e then es ! n else es ! i)"
  using assms by (auto simp: fill_gap_def nth_list_update)

lemma entries_remove:
  assumes ok: "entries_ok es (n + 1) c" and e: "2 \<le> e" "e \<le> n"
  shows "entries_ok (fill_gap es e n) n c"
    "entry_map (fill_gap es e n) n = (entry_map es (n + 1))(d_filename (es ! e) := None)"
    "entry_index (fill_gap es e n) n = (if e = n then (entry_index es (n + 1))(name_bytes (d_filename (es ! e)) := None)
       else ((entry_index es (n + 1))(name_bytes (d_filename (es ! e)) := None))(name_bytes (d_filename (es ! n)) \<mapsto> e))"
proof -
  note k = entries_okD [OF ok]
  have n: "n < 32 * c" using k(2) by simp
  note nt = fill_gap_nth [OF k(3) n e(2)]
  have nt': "fill_gap es e n ! i = (if i = e then es ! n else es ! i)" if "i < n" for i using nt [of i] that n by simp
  have inj: "i = j" if "i < n" "j < n" "d_filename (fill_gap es e n ! i) = d_filename (fill_gap es e n ! j)" for i j
    using that k(5) [of i j] k(5) [of n j] k(5) [of i n] e nt' by (auto split: if_splits)
  have len: "length (fill_gap es e n) = 32 * c" using k(3) by (simp add: fill_gap_def)
  have dis: "distinct (map d_filename (take n (fill_gap es e n)))"
    unfolding distinct_conv_nth using inj len n by auto
  have flag: "d_flag (fill_gap es e n ! i) = DIR_USED \<longleftrightarrow> i < n" if "i < 32 * c" for i
    using nt [OF that] k(4) [OF that] k(4) [OF n] that e by auto
  have n2: "2 \<le> n" using e by simp
  show ok': "entries_ok (fill_gap es e n) n c" unfolding entries_ok_def
    using dis flag len n n2 k(6,7) e nt' [of 0] nt' [of 1] by auto
  show "entry_map (fill_gap es e n) n = (entry_map es (n + 1))(d_filename (es ! e) := None)"
  proof (rule map_eq_iff)
    fix x y
    show "entry_map (fill_gap es e n) n x = Some y \<longleftrightarrow> ((entry_map es (n + 1))(d_filename (es ! e) := None)) x = Some y" (is "?l = ?r")
    proof
      assume ?l
      then obtain i where i: "2 \<le> i" "i < n" "d_filename (fill_gap es e n ! i) = x" "d_ino (fill_gap es e n ! i) = y"
        unfolding entry_map_iff [OF ok'] by blast
      define j where "j = (if i = e then n else i)"
      have j: "2 \<le> j" "j < n + 1" "j \<noteq> e" "d_filename (es ! j) = x" "d_ino (es ! j) = y" using i n2 e nt' [OF i(2)] by (auto simp: j_def)
      then have "entry_map es (n + 1) x = Some y" unfolding entry_map_iff [OF ok] by blast
      moreover have "x \<noteq> d_filename (es ! e)" using k(5) [of j e] j e by auto
      ultimately show ?r by simp
    next
      assume r: ?r
      then have x: "x \<noteq> d_filename (es ! e)" "entry_map es (n + 1) x = Some y" by (auto split: if_splits)
      then obtain j where j: "2 \<le> j" "j < n + 1" "d_filename (es ! j) = x" "d_ino (es ! j) = y" unfolding entry_map_iff [OF ok] by blast
      have "j \<noteq> e" using j(3) x(1) by blast
      define i where "i = (if j = n then e else j)"
      have "i < n" using j \<open>j \<noteq> e\<close> e by (auto simp: i_def)
      moreover have "fill_gap es e n ! i = es ! j" using nt' [OF \<open>i < n\<close>] \<open>j \<noteq> e\<close> by (auto simp: i_def split: if_splits)
      moreover have "2 \<le> i" using j(1) e(1) by (simp add: i_def)
      ultimately show ?l unfolding entry_map_iff [OF ok'] using j by metis
    qed
  qed
  show "entry_index (fill_gap es e n) n = (if e = n then (entry_index es (n + 1))(name_bytes (d_filename (es ! e)) := None)
       else ((entry_index es (n + 1))(name_bytes (d_filename (es ! e)) := None))(name_bytes (d_filename (es ! n)) \<mapsto> e))" (is "_ = ?R")
  proof (rule map_eq_iff)
    fix x y
    have l: "entry_index (fill_gap es e n) n x = Some y \<longleftrightarrow> 2 \<le> y \<and> y < n \<and> name_bytes (d_filename (if y = e then es ! n else es ! y)) = x"
      using nt' [of y] by (auto simp: entry_index_iff [OF ok'])
    have r: "entry_index es (n + 1) x = Some y \<longleftrightarrow> 2 \<le> y \<and> y < n + 1 \<and> name_bytes (d_filename (es ! y)) = x"
      by (rule entry_index_iff [OF ok])
    show "entry_index (fill_gap es e n) n x = Some y \<longleftrightarrow> ?R x = Some y"
    proof (cases "e = n")
      case True
      then show ?thesis unfolding l using r k(5) [of y e] e by (auto simp: less_Suc_eq)
    next
      case False
      show ?thesis
      proof (cases "x = name_bytes (d_filename (es ! n))")
        case True
        then show ?thesis unfolding l using False e k(5) [of y n] by auto
      next
        case xn: False
        then show ?thesis unfolding l using False r k(5) [of y e] e by (auto simp: less_Suc_eq)
      qed
    qed
  qed
qed

section \<open>Release of the inode\<close>

lemma direct_node:
  assumes "\<And>l. c \<le> l \<Longrightarrow> l < 14 \<Longrightarrow> bm_ib t ! l = 0" "rpath q"
  shows "node t q \<noteq> 0 \<Longrightarrow> c \<le> 11 \<Longrightarrow> \<exists>i<c. q = [i]"
proof -
  have q: "q \<noteq> []" "last q < 14" "length q \<le> depth_of (last q)" using assms(2) by (simp_all add: rpath_def)
  have z: "node t q = 0" if "bm_ib t ! last q = 0"
  proof -
    have "node t (butlast q @ [last q]) = 0" by (rule node_zero_append) (use that in simp_all)
    then show ?thesis using q(1) by simp
  qed
  show "\<exists>i<c. q = [i]" if nz: "node t q \<noteq> 0" and c: "c \<le> 11"
  proof -
    have "last q < c" using z nz assms(1) [of "last q"] q(2) by (meson not_le)
    then have "length q \<le> 1" using q(3) c by (simp add: depth_of_def)
    then obtain i where "q = [i]" using q(1) by (cases q) auto
    then show ?thesis using \<open>last q < c\<close> by simp
  qed
qed

text \<open>A file with direct blocks only keeps its blocks when other blocks are freed.\<close>

lemma tree_inv_direct:
  assumes t: "tree_inv t" and z: "\<And>l. c \<le> l \<Longrightarrow> l < 14 \<Longrightarrow> bm_ib t ! l = 0" and c: "c \<le> 11"
    and s: "alloc_inv s" "fs_primary s" "fs_last_bgid s < bgn s" "bgn s = bgn (bm_fs t)"
    and mb: "\<And>b. length (mb b) = 1024" and keep: "\<And>i. i < c \<Longrightarrow> bm_ib t ! i \<noteq> 0 \<Longrightarrow> block_used s (bm_ib t ! i)"
  shows "tree_inv \<lparr>bm_fs = s, bm_ib = bm_ib t, bm_mb = mb\<rparr>"
proof -
  let ?t = "\<lparr>bm_fs = s, bm_ib = bm_ib t, bm_mb = mb\<rparr>"
  have d: "node ?t q \<noteq> 0 \<Longrightarrow> \<exists>i<c. q = [i]" "node t q \<noteq> 0 \<Longrightarrow> \<exists>i<c. q = [i]" if "rpath q" for q
    using direct_node [of c ?t q] direct_node [of c t q] z c that by auto
  have one: "node ?t [i] = node t [i]" for i by simp
  have eq: "node ?t q = node t q" if "rpath q" for q using d [OF that] one by (metis (full_types))
  show ?thesis unfolding tree_inv_def
  proof (intro conjI allI impI)
    show "data_block (bm_fs ?t) (node ?t q)" if q: "rpath q" "node ?t q \<noteq> 0" for q
    proof -
      obtain i where i: "i < c" "q = [i]" using d(1) [OF q] by blast
      then have "data_block (bm_fs t) (bm_ib t ! i)" using tree_invD(5) [OF t q(1)] q(2) by simp
      then show ?thesis using keep [OF i(1)] q(2) i(2) s(4) by (simp add: data_block_def)
    qed
    show "p = q" if "rpath p" "rpath q" "node ?t p = node ?t q" "node ?t p \<noteq> 0" for p q
      using that eq tree_invD(6) [OF t that(1,2)] by simp
  qed (use s mb tree_invD(3) [OF t] in simp_all)
qed

lemma dir_at_frame:
  assumes "dir_at v dir n c" "inode_of v' dir = inode_of v dir" "v_dir v' dir = v_dir v dir"
    "v_tree v' (i_bpino (inode_of v dir)) = v_tree v (i_bpino (inode_of v dir))" "tree_inv (file_map v' dir)"
    "bgn (v_fs v') = bgn (v_fs v)" "inode_used (v_fs v') dir"
  shows "dir_at v' dir n c"
  using assms unfolding dir_at_def by simp

lemma dir_at_set_inode:
  assumes "dir_at v dir n c" "ino \<noteq> dir"
  shows "dir_at (set_inode ino ip v) dir n c"
proof (rule dir_at_frame [OF assms(1)])
  have "file_map (set_inode ino ip v) dir = (file_map v dir)\<lparr>bm_fs := v_fs (set_inode ino ip v)\<rparr>" using assms(2) by (simp add: file_map_def)
  moreover have "tree_inv ((file_map v dir)\<lparr>bm_fs := v_fs (set_inode ino ip v)\<rparr>)"
    by (rule tree_inv_fs [OF dir_atD(14) [OF assms(1)]])
      (use dir_atD(14) [OF assms(1)] in \<open>auto simp: tree_inv_def file_map_def data_block_def\<close>)
  ultimately show "tree_inv (file_map (set_inode ino ip v) dir)" by simp
qed (use assms dir_atD(7) [OF assms(1)] in simp_all)

text \<open>The blocks of a file can be freed, and they are not those of the directory.\<close>

definition file_free :: "vfs \<Rightarrow> nat \<Rightarrow> nat \<Rightarrow> bool" where
  "file_free v ino dir \<longleftrightarrow> 8 \<le> ino \<and> ino < bgn (v_fs v) * 4096 \<and> inode_used (v_fs v) ino \<and> tree_inv (file_map v ino)
     \<and> int (length (file_blocks (file_map v ino) 0)) < sb_no_of_used_blocks (fs_sb (v_fs v))
     \<and> (\<forall>l<11. i_blocks (inode_of v dir) ! l \<notin> set (file_blocks (file_map v ino) 0))"

lemma free_all_correct:
  assumes d: "dir_at v dir n c" and ne: "ino \<noteq> dir" and f: "file_free v ino dir"
  shows "\<exists>v'. free_size ino 0 v = Some v' \<and> dir_at v' dir n c \<and> v_dir v' = v_dir v \<and> v_tree v' = v_tree v
    \<and> others_same v {ino} v' \<and> same_inodes_fs (v_fs v) (v_fs v') \<and> 1 \<le> sb_no_of_used_blocks (fs_sb (v_fs v'))"
proof (cases "nat (i_size (inode_of v ino) div 4096) + (if i_size (inode_of v ino) mod 4096 = 0 then 0 else 1) = 0")
  case True
  then have "free_size ino 0 v = Some v" unfolding free_size_def Let_def by simp
  then show ?thesis using d f by (auto simp: others_same_def same_inodes_fs_def file_free_def)
next
  case False
  let ?t = "file_map v ino"
  note dd = dir_atD [OF d]
  obtain t where t: "truncate_blocks 0 ?t = Some t" "tree_inv t" "free_post (v_fs v) (set (file_blocks ?t 0)) (bm_fs t)"
    using truncate_run [of ?t 0 0] f by (auto simp: file_free_def file_map_def)
  define v' where "v' = put_map ino t v"
  have "free_size ino 0 v = do { t \<leftarrow> truncate_blocks 0 ?t; Some (put_map ino t v) }"
    unfolding free_size_def Let_def by (rule if_not_P) (use False in linarith)
  then have run: "free_size ino 0 v = Some v'" using t(1) by (simp add: v'_def)
  have it: "fs_itable (bm_fs t) = fs_itable (v_fs v)" "fs_ibm (bm_fs t) = fs_ibm (v_fs v)" "bgn (bm_fs t) = bgn (v_fs v)"
    "sb_free_inodes (fs_sb (bm_fs t)) = sb_free_inodes (fs_sb (v_fs v))" "fs_last_ino (bm_fs t) = fs_last_ino (v_fs v)"
    "sb_no_of_used_blocks (fs_sb (bm_fs t)) = sb_no_of_used_blocks (fs_sb (v_fs v)) - int (card (set (file_blocks ?t 0)))"
    using t(3) by (simp_all add: free_post_def)
  have fs': "v_fs v' = (bm_fs t)\<lparr>fs_itable := (fs_itable (bm_fs t))(ino := (fs_itable (bm_fs t) ino)\<lparr>i_blocks := bm_ib t\<rparr>)\<rparr>"
    "v_mb v' = bm_mb t" "v_dir v' = v_dir v" "v_tree v' = v_tree v" by (simp_all add: v'_def put_map_def set_inode_def)
  have i': "inode_of v' j = inode_of v j" if "j \<noteq> ino" for j using that it(1) by (simp add: inode_of_def fs')
  have "tree_inv \<lparr>bm_fs = v_fs v', bm_ib = bm_ib (file_map v dir), bm_mb = v_mb v'\<rparr>"
  proof (rule tree_inv_direct [OF dd(14), of c])
    show "block_used (v_fs v') (bm_ib (file_map v dir) ! i)" if "i < c" "bm_ib (file_map v dir) ! i \<noteq> 0" for i
    proof -
      let ?b = "i_blocks (inode_of v dir) ! i"
      have "rpath [i]" using that(1) dd(3) by (auto simp: rpath_def depth_of_def)
      then have "data_block (v_fs v) ?b" using tree_invD(5) [OF dd(14), of "[i]"] that(2) by (simp add: file_map_def)
      moreover have "?b \<notin> set (file_blocks ?t 0)" using f that(1) dd(3) by (simp add: file_free_def)
      ultimately show ?thesis using t(3) by (simp add: data_block_def free_post_def fs' file_map_def)
    qed
  qed (use dd(3,15) t(2) it(3) in \<open>auto simp: file_map_def fs' tree_inv_def\<close>)
  then have "tree_inv (file_map v' dir)" using i' [of dir] ne by (simp add: file_map_def)
  then have "dir_at v' dir n c"
    by (intro dir_at_frame [OF d]) (use i' [of dir] ne it dd(7) in \<open>simp_all add: fs' inode_used_def\<close>)
  moreover have "card (set (file_blocks ?t 0)) \<le> length (file_blocks ?t 0)" by (rule card_length)
  then have "1 \<le> sb_no_of_used_blocks (fs_sb (v_fs v'))" using it(6) f by (simp add: fs' file_free_def)
  ultimately show ?thesis using run i' it fs' by (auto simp: others_same_def same_inodes_fs_def)
qed

lemma unlink_correct:
  assumes d: "dir_at v dir n c" and ne: "ino \<noteq> dir" and l: "1 \<le> i_links_count (inode_of v ino)" "i_links_count (inode_of v ino) < 2 ^ 32"
    and u: "1 \<le> sb_no_of_used_blocks (fs_sb (v_fs v))" and f: "i_links_count (inode_of v ino) = 1 \<Longrightarrow> file_free v ino dir"
  shows "\<exists>v'. unlink_inode ino v = Some v' \<and> dir_at v' dir n c \<and> v_dir v' = v_dir v \<and> v_tree v' = v_tree v \<and> others_same v {ino} v'
    \<and> 1 \<le> sb_no_of_used_blocks (fs_sb (v_fs v')) \<and> bgn (v_fs v') = bgn (v_fs v)
    \<and> (if i_links_count (inode_of v ino) = 1 then \<not> inode_used (v_fs v') ino
       else inode_of v' ino = (inode_of v ino)\<lparr>i_links_count := i_links_count (inode_of v ino) - 1\<rparr>)"
proof -
  let ?m = "i_links_count (inode_of v ino)"
  define v1 where "v1 = set_inode ino ((inode_of v ino)\<lparr>i_links_count := ?m - 1\<rparr>) v"
  have d1: "dir_at v1 dir n c" unfolding v1_def by (rule dir_at_set_inode [OF d ne])
  have i1: "inode_of v1 ino = (inode_of v ino)\<lparr>i_links_count := ?m - 1\<rparr>" by (simp add: v1_def)
  have sub: "u32_sub ?m 1 = ?m - 1" using l by (simp add: u32_sub_small)
  have o1: "others_same v {ino} v1" by (simp add: others_same_def v1_def)
  show ?thesis
  proof (cases "?m = 1")
    case False
    then have "i_links_count (inode_of v1 ino) \<noteq> 0" using l(1) by (simp add: i1)
    then have "unlink_inode ino v = Some v1" unfolding unlink_inode_def Let_def sub v1_def [symmetric] by (rule if_not_P)
    moreover have "v_dir v1 = v_dir v" "v_tree v1 = v_tree v" "bgn (v_fs v1) = bgn (v_fs v)" "1 \<le> sb_no_of_used_blocks (fs_sb (v_fs v1))"
      using u by (simp_all add: v1_def)
    ultimately show ?thesis using False d1 o1 i1 by auto
  next
    case True
    have ff: "file_free v ino dir" by (rule f [OF True])
    have "tree_inv ((file_map v ino)\<lparr>bm_fs := v_fs v1\<rparr>)"
      by (rule tree_inv_fs) (use ff in \<open>auto simp: file_free_def v1_def tree_inv_def file_map_def data_block_def\<close>)
    moreover have fm: "file_map v1 ino = (file_map v ino)\<lparr>bm_fs := v_fs v1\<rparr>" by (simp add: file_map_def v1_def)
    moreover have "file_blocks (file_map v1 ino) 0 = file_blocks (file_map v ino) 0" by (simp add: fm file_blocks_def)
    ultimately have "file_free v1 ino dir" using ff ne by (simp add: file_free_def) (simp add: v1_def)
    then obtain v2 where v2: "free_size ino 0 v1 = Some v2" "dir_at v2 dir n c" "v_dir v2 = v_dir v1" "v_tree v2 = v_tree v1"
      "others_same v1 {ino} v2" "same_inodes_fs (v_fs v1) (v_fs v2)" "1 \<le> sb_no_of_used_blocks (fs_sb (v_fs v2))"
      using free_all_correct [OF d1 ne] by blast
    have ino: "8 \<le> ino" "ino < bgn (v_fs v2) * 4096" "inode_used (v_fs v2) ino" "bgn (v_fs v2) = bgn (v_fs v)"
      using ff v2(6) by (simp_all add: file_free_def same_inodes_fs_def v1_def inode_used_def)
    obtain s where s: "relocate_delete_inode ino (v_fs v2) = Some s" "\<forall>j < bgn (v_fs v2) * 4096. inode_used s j \<longleftrightarrow> j \<noteq> ino \<and> inode_used (v_fs v2) j"
      "fs_itable s = (fs_itable (v_fs v2))(ino := (fs_itable (v_fs v2) ino)\<lparr>i_deleted := 1, i_ino := 0, i_size := 0\<rparr>)" "alloc_inv s"
      using delete_inode_spec [OF conjunct1 [OF dir_at_fs [OF v2(2)]] ino(1-3)] by blast
    have fr: "same_blocks_fs (v_fs v2) s" by (rule delete_inode_frame [OF s(1)])
    define v3 where "v3 = v2\<lparr>v_fs := s\<rparr>"
    have i3: "inode_of v3 j = inode_of v2 j" if "j \<noteq> ino" for j using that s(3) by (simp add: v3_def inode_of_def)
    have "i_links_count (inode_of v1 ino) = 0" using True by (simp add: i1)
    then have run: "unlink_inode ino v = Some v3" unfolding unlink_inode_def Let_def sub v1_def [symmetric]
      by (simp add: v2(1) delete_inode_def s(1) v3_def)
    have "file_map v3 dir = (file_map v2 dir)\<lparr>bm_fs := s\<rparr>" using i3 [of dir] ne by (simp add: file_map_def v3_def)
    moreover have "tree_inv ((file_map v2 dir)\<lparr>bm_fs := s\<rparr>)"
      by (rule tree_inv_same [OF dir_atD(14) [OF v2(2)] s(4)]) (use fr in \<open>simp add: file_map_def\<close>)
    ultimately have "dir_at v3 dir n c"
      by (intro dir_at_frame [OF v2(2)]) (use i3 [of dir] ne fr s(2) dir_atD(6,7) [OF v2(2)] in \<open>simp_all add: v3_def same_blocks_fs_def\<close>)
    moreover have "others_same v {ino} v3" using o1 v2(5) i3 by (simp add: others_same_def) (simp add: v3_def)
    moreover have "\<not> inode_used (v_fs v3) ino" using s(2) ino(2) by (simp add: v3_def)
    moreover have "1 \<le> sb_no_of_used_blocks (fs_sb (v_fs v3))" "bgn (v_fs v3) = bgn (v_fs v)"
      using fr v2(7) ino(4) by (simp_all add: v3_def same_blocks_fs_def)
    ultimately show ?thesis using run True v2(3,4) by (auto simp: v1_def v3_def)
  qed
qed

lemma unlink_tree: "unlink_inode ino (v\<lparr>v_tree := T\<rparr>) = map_option (\<lambda>w. w\<lparr>v_tree := T\<rparr>) (unlink_inode ino v)"
proof -
  have set_tree: "set_inode i ip (w\<lparr>v_tree := T\<rparr>) = (set_inode i ip w)\<lparr>v_tree := T\<rparr>" for i ip w by (simp add: set_inode_def)
  have map_tree: "put_map i t (w\<lparr>v_tree := T\<rparr>) = (put_map i t w)\<lparr>v_tree := T\<rparr>" "file_map (w\<lparr>v_tree := T\<rparr>) i = file_map w i" for i t w
    by (simp_all add: put_map_def set_inode_def file_map_def)
  have free_tree: "free_size i z (w\<lparr>v_tree := T\<rparr>) = map_option (\<lambda>w. w\<lparr>v_tree := T\<rparr>) (free_size i z w)" for i z w
    by (cases "truncate_blocks z (file_map w i)") (simp_all add: free_size_def Let_def map_tree)
  have del_tree: "delete_inode i (w\<lparr>v_tree := T\<rparr>) = map_option (\<lambda>w. w\<lparr>v_tree := T\<rparr>) (delete_inode i w)" for i w
    by (cases "relocate_delete_inode i (v_fs w)") (simp_all add: delete_inode_def)
  define w where "w = set_inode ino ((inode_of v ino)\<lparr>i_links_count := u32_sub (i_links_count (inode_of v ino)) 1\<rparr>) v"
  show ?thesis unfolding unlink_inode_def Let_def inode_of_fields set_tree w_def [symmetric] free_tree
    by (cases "free_size ino 0 w") (simp_all add: del_tree)
qed

section \<open>Removal of a name\<close>

lemma find_existing_correct:
  assumes d: "dir_at v dir n c" and i: "2 \<le> i" "i < n"
  shows "find_existing_dentry dir (d_filename (v_dir v dir ! i)) v = Some i" "0 < key_of (d_filename (v_dir v dir ! i))"
    "entry_index (v_dir v dir) n (name_bytes (d_filename (v_dir v dir ! i))) = Some i"
proof -
  note f = dir_atD [OF d] and e = entries_okD [OF dir_atD(1) [OF d]]
  let ?x = "d_filename (v_dir v dir ! i)"
  have nd: "?x \<noteq> ''.''" "?x \<noteq> ''..''" using e(5) [of i 0] e(5) [of i 1] e(1,6,7) i by auto
  show m: "entry_index (v_dir v dir) n (name_bytes ?x) = Some i" using i by (simp add: entry_index_iff [OF f(1)])
  then have b: "name_bytes ?x \<in> dom (entry_index (v_dir v dir) n)" by blast
  then show k: "0 < key_of ?x" using f(13) by (auto simp: index_exact_def key_of_def)
  have "key_of ?x \<in> key_of ` dom (entry_map (v_dir v dir) n)" using b by (auto simp: entry_index_dom [OF f(1)])
  then have g: "index_get dir ?x v = Some (0, i)" using index_get_correct [OF d nd k] m by auto
  have sz: "nat (i_size (inode_of v dir) div 128) = 32 * c" by (rule dir_num(1) [OF f(11)])
  have "[i..<32 * c] = i # [Suc i..<32 * c]" using i(2) e(2) by (simp add: upt_rec)
  moreover have "is_named ?x (v_dir v dir ! i)" using e(2) e(4) [of i] i by (simp add: is_named_def)
  ultimately show "find_existing_dentry dir ?x v = Some i"
    unfolding find_existing_dentry_def g by (simp add: Let_def sz e(3))
qed

text \<open>The index of the directory with the name of entry \<open>e\<close> and the one of the last entry
  taken out, and the last entry put in the place of \<open>e\<close>.\<close>

lemma move_last_index:
  assumes ok: "entries_ok es (n + 1) c" and ix: "index_exact t ((entry_index es (n + 1))(name_bytes (d_filename (es ! e)) := None))"
    and e: "2 \<le> e" "e < n" and n: "n < 320"
  shows "\<exists>t1 t2. nvfuse_del_dir_indexing (name_bytes (d_filename (es ! n))) t = Some (0, t1)
    \<and> nvfuse_set_dir_indexing (name_bytes (d_filename (es ! n))) e t1 = Some t2 \<and> index_exact t2 (entry_index (fill_gap es e n) n)"
proof -
  let ?x = "name_bytes (d_filename (es ! n))" and ?y = "name_bytes (d_filename (es ! e))"
  let ?D = "(entry_index es (n + 1))(?y := None)"
  have "d_filename (es ! n) \<noteq> d_filename (es ! e)" using entries_okD(5) [OF ok, of n e] e by auto
  moreover have "entry_index es (n + 1) ?x = Some n" unfolding entry_index_iff [OF ok] using e by simp
  ultimately have D: "?D ?x = Some n" by simp
  obtain t1 where t1: "nvfuse_del_dir_indexing ?x t = Some (0, t1)" "index_exact t1 (?D(?x := None))" using del_exact [OF ix D] by blast
  have k: "0 < dir_key ?x" "dir_key ?x \<notin> dir_key ` dom (?D(?x := None))"
    using ix D by (auto simp: index_exact_def dest: inj_onD split: if_splits)
  have "dom (?D(?x := None)) \<subseteq> dom (entry_index es (n + 1))" by auto
  moreover have "finite (dom (entry_index es (n + 1)))" by (simp add: entry_index_def finite_dom_map_of)
  ultimately have cd: "card (dom (?D(?x := None))) \<le> n + 1" using entry_index_size [OF ok] card_mono le_trans by meson
  have "\<exists>t2. nvfuse_set_dir_indexing ?x e t1 = Some t2 \<and> index_exact t2 ((?D(?x := None))(?x \<mapsto> e))"
    by (rule set_exact [OF t1(2)]) (use k cd n e in \<open>auto simp: FANOUT_def item_defs\<close>)
  moreover have "(?D(?x := None))(?x \<mapsto> e) = entry_index (fill_gap es e n) n"
    using entries_remove(3) [OF ok e(1)] e(2) by simp
  ultimately show ?thesis using t1(1) by auto
qed

text \<open>The counters, the flag, and the move of the last entry into the gap.\<close>

lemma take_entry_correct:
  assumes d: "dir_at v dir (n + 1) c" and e: "2 \<le> e" "e \<le> n"
    and ix: "index_exact t ((entry_index (v_dir v dir) (n + 1))(name_bytes (d_filename (v_dir v dir ! e)) := None))"
    and w: "w = mark_deleted dir e (drop_link dir (v\<lparr>v_tree := (v_tree v)(i_bpino (inode_of v dir) := t)\<rparr>))"
  shows "\<exists>r t'. shrink_dentry dir e (i_links_count (inode_of w dir)) w
      = Some (r, w\<lparr>v_dir := (v_dir v)(dir := fill_gap (v_dir v dir) e n), v_tree := (v_tree v)(i_bpino (inode_of v dir) := t')\<rparr>)
    \<and> index_exact t' (entry_index (fill_gap (v_dir v dir) e n) n)"
    "inode_of w dir = (inode_of v dir)\<lparr>i_links_count := n, i_ptr := n - 1\<rparr>"
    "v_fs w = (v_fs v)\<lparr>fs_itable := (fs_itable (v_fs v))(dir := (inode_of v dir)\<lparr>i_links_count := n, i_ptr := n - 1\<rparr>)\<rparr>"
proof -
  note f = dir_atD [OF d] and k = entries_okD [OF dir_atD(1) [OF d]]
  let ?es = "v_dir v dir" and ?bp = "i_bpino (inode_of v dir)"
  have n: "n < 320" "1 \<le> n" using f(2) e by simp_all
  have sub: "u32_sub (n + 1) 1 = n" "u32_sub n 1 = n - 1" using n by (simp_all add: u32_sub_small)
  show i: "inode_of w dir = (inode_of v dir)\<lparr>i_links_count := n, i_ptr := n - 1\<rparr>"
    unfolding w drop_link_def Let_def using sub f(9) by simp
  have fld: "v_fs w = (v_fs v)\<lparr>fs_itable := (fs_itable (v_fs v))(dir := (inode_of v dir)\<lparr>i_links_count := n, i_ptr := n - 1\<rparr>)\<rparr>"
    "v_dir w = (v_dir v)(dir := ?es[e := (?es ! e)\<lparr>d_flag := DIR_DELETED\<rparr>])" "v_tree w = (v_tree v)(?bp := t)"
    unfolding w mark_deleted_def drop_link_def Let_def using sub f(9) by simp_all
  show "v_fs w = (v_fs v)\<lparr>fs_itable := (fs_itable (v_fs v))(dir := (inode_of v dir)\<lparr>i_links_count := n, i_ptr := n - 1\<rparr>)\<rparr>" by (rule fld(1))
  have lc: "i_links_count (inode_of w dir) = n" using i by simp
  have len: "length ?es = 32 * c" "n < 32 * c" using k(2,3) by simp_all
  show "\<exists>r t'. shrink_dentry dir e (i_links_count (inode_of w dir)) w
      = Some (r, w\<lparr>v_dir := (v_dir v)(dir := fill_gap ?es e n), v_tree := (v_tree v)(?bp := t')\<rparr>)
    \<and> index_exact t' (entry_index (fill_gap ?es e n) n)"
  proof (cases "e = n")
    case True
    have "w = w\<lparr>v_dir := (v_dir v)(dir := fill_gap ?es e n), v_tree := (v_tree v)(?bp := t)\<rparr>"
      using fld True by (simp add: fill_gap_def)
    moreover have "index_exact t (entry_index (fill_gap ?es e n) n)" using ix True entries_remove(3) [OF f(1) e] by simp
    ultimately show ?thesis unfolding lc using True by (auto simp: shrink_dentry_def)
  next
    case False
    then have en: "e < n" using e by simp
    obtain t1 t2 where t: "nvfuse_del_dir_indexing (name_bytes (d_filename (?es ! n))) t = Some (0, t1)"
      "nvfuse_set_dir_indexing (name_bytes (d_filename (?es ! n))) e t1 = Some t2" "index_exact t2 (entry_index (fill_gap ?es e n) n)"
      using move_last_index [OF f(1) ix e(1) en n(1)] by blast
    have at: "dentry_at dir n w = Some (?es ! n)" "d_flag (?es ! n) \<noteq> DIR_DELETED"
      "dentry_at dir e w = Some ((?es ! e)\<lparr>d_flag := DIR_DELETED\<rparr>)"
      using len en k(4) [of n] by (simp_all add: dentry_at_def fld(2))
    define w1 where "w1 = put_dentry dir n ((?es ! n)\<lparr>d_flag := DIR_DELETED\<rparr>) (put_dentry dir e (?es ! n) w)"
    have bp: "i_bpino (inode_of w1 dir) = ?bp" "?bp \<noteq> 0" using i f(12) by (simp_all add: w1_def)
    have dl: "index_del dir (d_filename (?es ! n)) w1 = Some (w1\<lparr>v_tree := (v_tree v)(?bp := t1)\<rparr>)"
      using bp t(1) fld(3) by (simp add: index_del_def Let_def w1_def)
    have st: "index_set dir (d_filename (?es ! n)) e (w1\<lparr>v_tree := (v_tree v)(?bp := t1)\<rparr>) = Some (w1\<lparr>v_tree := (v_tree v)(?bp := t2)\<rparr>)"
      using bp t(2) by (simp add: index_set_def Let_def)
    have "w1\<lparr>v_tree := (v_tree v)(?bp := t2)\<rparr> = w\<lparr>v_dir := (v_dir v)(dir := fill_gap ?es e n), v_tree := (v_tree v)(?bp := t2)\<rparr>"
      using False by (simp add: w1_def put_dentry_def fld(2) fill_gap_def)
    then have "shrink_dentry dir e n w = Some (0, w\<lparr>v_dir := (v_dir v)(dir := fill_gap ?es e n), v_tree := (v_tree v)(?bp := t2)\<rparr>)"
      using False en at dl st by (simp add: shrink_dentry_def w1_def [symmetric])
    then show ?thesis unfolding lc using t(3) by blast
  qed
qed

text \<open>The last block of a directory is given back when it is empty.\<close>

lemma shrink_dir_correct:
  assumes d: "dir_at v dir n (dir_blocks (n + 1))" and u: "1 \<le> sb_no_of_used_blocks (fs_sb (v_fs v))"
  shows "\<exists>v'. shrink_dir dir v = Some v' \<and> dir_ok v' dir \<and> dir_map v' dir = entry_map (v_dir v dir) n \<and> others_same v {dir} v'
    \<and> i_links_count (inode_of v' dir) = n \<and> fs_ibm (v_fs v') = fs_ibm (v_fs v) \<and> bgn (v_fs v') = bgn (v_fs v)"
proof -
  note f = dir_atD [OF d] and k = entries_okD [OF dir_atD(1) [OF d]]
  show ?thesis
  proof (cases "n mod 32 = 0")
    case False
    have "n * 128 mod (32 * 128) \<noteq> 0" unfolding mod_mult_mult2 using False by simp
    then have "n * 128 mod 4096 \<noteq> 0" by simp
    then have "shrink_dir dir v = Some v" unfolding shrink_dir_def Let_def f(9) by (rule if_not_P)
    then show ?thesis using d f(9) dir_blocks_inside(1) [OF False] by (auto simp: dir_ok_def dir_map_def others_same_def)
  next
    case True
    define c where "c = dir_blocks n"
    have c: "n = 32 * c" "dir_blocks (n + 1) = c + 1" "c < 10" using dir_blocks_full [OF True] f(3) by (simp_all add: c_def)
    have z: "i_blocks (inode_of v dir) ! l = 0" if "c + 1 \<le> l" "l < 14" for l using f(15) that c(2) by simp
    let ?t = "file_map v dir"
    have "file_blocks ?t c = filter (\<lambda>x. x \<noteq> 0) (map ((!) (bm_ib ?t)) [c..<11])"
      unfolding file_blocks_def using z c(3) by (simp add: file_map_def)
    also have "[c..<11] = c # [c + 1..<11]" using c(3) by (simp add: upt_rec)
    finally have "length (file_blocks ?t c) \<le> 1" using z by (auto simp: file_map_def filter_empty_conv)
    then have len: "int (length (file_blocks ?t c)) \<le> sb_no_of_used_blocks (fs_sb (bm_fs ?t))" using u by (simp add: file_map_def)
    have sz: "c = nat ((int (n * 128) + 4095) div 4096)" "int (n * 128) \<le> 40960" using c(1,3) by simp_all
    obtain t where t: "truncate_blocks (int (n * 128)) ?t = Some t" "tree_inv t" "free_post (v_fs v) (set (file_blocks ?t c)) (bm_fs t)"
      "bm_ib t = take c (i_blocks (inode_of v dir)) @ replicate (14 - c) 0"
      using truncate_run [OF f(14) _ sz(2,1) len] by (auto simp: file_map_def)
    have it: "fs_itable (bm_fs t) = fs_itable (v_fs v)" "fs_ibm (bm_fs t) = fs_ibm (v_fs v)" "bgn (bm_fs t) = bgn (v_fs v)"
      using t(3) by (simp_all add: free_post_def)
    have isz: "i_size (inode_of v dir) = 4096 * int (c + 1)" using f(11) c(2) by simp
    have "free_size dir (int (n * 128)) v = do { t \<leftarrow> truncate_blocks (int (n * 128)) ?t; Some (put_map dir t v) }"
      unfolding free_size_def Let_def isz using c(1) by (intro if_not_P) simp
    then have fr: "free_size dir (int (n * 128)) v = Some (put_map dir t v)" using t(1) by simp
    let ?ip = "inode_of v dir"
    have ip: "inode_of (put_map dir t v) dir = ?ip\<lparr>i_blocks := bm_ib t\<rparr>" by (simp add: put_map_def inode_of_def it(1))
    define v' where "v' = set_inode dir (?ip\<lparr>i_blocks := bm_ib t, i_size := 4096 * int c\<rparr>)
      (v\<lparr>v_fs := bm_fs t, v_mb := bm_mb t, v_dir := (v_dir v)(dir := take n (v_dir v dir))\<rparr>)"
    have "n * 128 mod 4096 = 0" "nat (32 * int c) = 32 * c" using c(1) by simp_all
    then have run: "shrink_dir dir v = Some v'"
      unfolding shrink_dir_def Let_def f(9) using fr ip isz c(1) by (simp add: v'_def put_map_def set_inode_def it(1))
    have ip': "inode_of v' dir = ?ip\<lparr>i_blocks := bm_ib t, i_size := 4096 * int c\<rparr>" by (simp add: v'_def)
    have vd: "v_dir v' dir = take n (v_dir v dir)" by (simp add: v'_def)
    have en: "entries_ok (v_dir v' dir) n c" unfolding vd entries_ok_def using f(1) k c by (auto simp: entries_ok_def)
    have ei: "entry_index (v_dir v' dir) n = entry_index (v_dir v dir) n" "entry_map (v_dir v' dir) n = entry_map (v_dir v dir) n"
      unfolding entry_index_def entry_map_def vd by (intro arg_cong [of _ _ map_of] map_cong; simp)+
    have "file_map v' dir = t\<lparr>bm_fs := v_fs v'\<rparr>" by (simp add: file_map_def ip' v'_def)
    moreover have "tree_inv (t\<lparr>bm_fs := v_fs v'\<rparr>)"
      by (rule tree_inv_fs [OF t(2)]) (use t(2) in \<open>auto simp: v'_def tree_inv_def data_block_def\<close>)
    moreover have "i_blocks (inode_of v' dir) ! l = 0" if "c \<le> l" "l < 14" for l
      using that tree_invD(3) [OF f(14)] by (simp add: ip' t(4) nth_append file_map_def)
    moreover have "bgn (v_fs v') = bgn (v_fs v)" "inode_used (v_fs v') dir" "fs_ibm (v_fs v') = fs_ibm (v_fs v)"
      using it f(7) by (simp_all add: v'_def inode_used_def)
    moreover have "others_same v {dir} v'" by (simp add: others_same_def v'_def) (simp add: inode_of_def it(1))
    ultimately have "dir_at v' dir n c" "others_same v {dir} v'" "fs_ibm (v_fs v') = fs_ibm (v_fs v)" "bgn (v_fs v') = bgn (v_fs v)"
      unfolding dir_at_def using f en ei c by (auto simp: ip') (simp_all add: v'_def)
    then show ?thesis using run f(9) ei(2) by (auto simp: dir_ok_def dir_map_def ip' c_def)
  qed
qed

lemma dir_at_take:
  assumes d: "dir_at v dir (n + 1) c" and e: "2 \<le> e" "e \<le> n" and ix: "index_exact t (entry_index (fill_gap (v_dir v dir) e n) n)"
    and w: "v_dir w dir = fill_gap (v_dir v dir) e n" "v_tree w (i_bpino (inode_of v dir)) = t" "v_mb w = v_mb v"
      "v_fs w = (v_fs v)\<lparr>fs_itable := (fs_itable (v_fs v))(dir := (inode_of v dir)\<lparr>i_links_count := n, i_ptr := n - 1\<rparr>)\<rparr>"
  shows "dir_at w dir n c" "entry_map (v_dir w dir) n = (entry_map (v_dir v dir) (n + 1))(d_filename (v_dir v dir ! e) := None)"
proof -
  note f = dir_atD [OF d] and er = entries_remove [OF dir_atD(1) [OF d] e]
  have ip: "inode_of w dir = (inode_of v dir)\<lparr>i_links_count := n, i_ptr := n - 1\<rparr>" by (simp add: inode_of_def w(4))
  have "file_map w dir = (file_map v dir)\<lparr>bm_fs := v_fs w\<rparr>" by (simp add: file_map_def ip w(3))
  moreover have "tree_inv ((file_map v dir)\<lparr>bm_fs := v_fs w\<rparr>)"
    by (rule tree_inv_same [OF f(14)]) (use f(14) in \<open>auto simp: w(4) tree_inv_def same_blocks_fs_def file_map_def\<close>)
  ultimately show "dir_at w dir n c" unfolding dir_at_def using f er(1) ix e by (simp add: ip w)
  show "entry_map (v_dir w dir) n = (entry_map (v_dir v dir) (n + 1))(d_filename (v_dir v dir ! e) := None)"
    unfolding w(1) by (rule er(2))
qed

text \<open>A file that can be removed: a regular or special file with a link; with its last link
  go its blocks and the inode.\<close>

definition removable :: "vfs \<Rightarrow> nat \<Rightarrow> nat \<Rightarrow> bool" where
  "removable v ino dir \<longleftrightarrow> ROOT_INO \<le> ino \<and> i_ino (inode_of v ino) = ino \<and> i_type (inode_of v ino) \<noteq> NVFUSE_TYPE_DIRECTORY
     \<and> 1 \<le> i_links_count (inode_of v ino) \<and> i_links_count (inode_of v ino) < 2 ^ 32 \<and> 1 \<le> sb_no_of_used_blocks (fs_sb (v_fs v))
     \<and> (i_links_count (inode_of v ino) = 1 \<longrightarrow> file_free v ino dir)"

lemma rmfile_run:
  assumes d: "dir_ok v dir" and m: "dir_map v dir name = Some ino" and rm: "removable v ino dir"
  shows "\<exists>v'. rmfile dir name v = Some (0, v') \<and> dir_ok v' dir \<and> dir_map v' dir = (dir_map v dir)(name := None) \<and> others_same v {dir, ino} v'
    \<and> (if i_links_count (inode_of v ino) = 1 then \<not> inode_used (v_fs v') ino
       else inode_of v' ino = (inode_of v ino)\<lparr>i_links_count := i_links_count (inode_of v ino) - 1\<rparr>)"
proof -
  note r = rm [unfolded removable_def]
  define n where "n = i_links_count (inode_of v dir) - 1"
  have two: "2 \<le> i_links_count (inode_of v dir)" using d by (simp add: dir_ok_def dir_at_def entries_ok_def)
  then have ln: "i_links_count (inode_of v dir) = n + 1" by (simp add: n_def)
  define c where "c = dir_blocks (n + 1)"
  have d0: "dir_at v dir (n + 1) c" using d unfolding dir_ok_def ln c_def .
  note f = dir_atD [OF d0]
  have dm: "dir_map v dir = entry_map (v_dir v dir) (n + 1)" unfolding dir_map_def ln ..
  obtain e where e: "2 \<le> e" "e < n + 1" "d_filename (v_dir v dir ! e) = name" "d_ino (v_dir v dir ! e) = ino"
    using m unfolding dm entry_map_iff [OF f(1)] by blast
  note fe = find_existing_correct [OF d0 e(1,2), unfolded e(3)]
  have ne: "ino \<noteq> dir" using r f(8) by auto
  let ?bp = "i_bpino (inode_of v dir)"
  obtain t where t: "nvfuse_del_dir_indexing (name_bytes name) (v_tree v ?bp) = Some (0, t)"
    "index_exact t ((entry_index (v_dir v dir) (n + 1))(name_bytes name := None))" using del_exact [OF f(13) fe(3)] by blast
  obtain v2 where v2: "unlink_inode ino v = Some v2" "dir_at v2 dir (n + 1) c" "v_dir v2 = v_dir v" "v_tree v2 = v_tree v"
    "others_same v {ino} v2" "1 \<le> sb_no_of_used_blocks (fs_sb (v_fs v2))" "bgn (v_fs v2) = bgn (v_fs v)"
    "if i_links_count (inode_of v ino) = 1 then \<not> inode_used (v_fs v2) ino
     else inode_of v2 ino = (inode_of v ino)\<lparr>i_links_count := i_links_count (inode_of v ino) - 1\<rparr>"
    using unlink_correct [OF d0 ne] r by blast
  have i2: "inode_of v2 dir = inode_of v dir" using v2(5) ne by (auto simp: others_same_def)
  define w where "w = mark_deleted dir e (drop_link dir (v2\<lparr>v_tree := (v_tree v2)(?bp := t)\<rparr>))"
  have en: "e \<le> n" using e(2) by simp
  have ix: "index_exact t ((entry_index (v_dir v2 dir) (n + 1))(name_bytes (d_filename (v_dir v2 dir ! e)) := None))"
    unfolding v2(3) e(3) by (rule t(2))
  note te = take_entry_correct [OF v2(2) e(1) en ix, of w, unfolded i2, OF w_def]
  define w4 where "w4 = (\<lambda>t'. w\<lparr>v_dir := (v_dir v2)(dir := fill_gap (v_dir v2 dir) e n), v_tree := (v_tree v2)(?bp := t')\<rparr>)"
  obtain rr t' where st: "shrink_dentry dir e (i_links_count (inode_of w dir)) w = Some (rr, w4 t')"
    "index_exact t' (entry_index (fill_gap (v_dir v2 dir) e n) n)" using te(1) unfolding w4_def by blast
  have "v_mb w = v_mb v2" by (simp add: w_def mark_deleted_def drop_link_def Let_def)
  then have d4: "dir_at (w4 t') dir n (dir_blocks (n + 1))"
    "entry_map (v_dir (w4 t') dir) n = (entry_map (v_dir v2 dir) (n + 1))(d_filename (v_dir v2 dir ! e) := None)"
    using dir_at_take [OF v2(2) e(1) en st(2), of "w4 t'"] te(3) i2 by (simp_all add: w4_def c_def)
  have "1 \<le> sb_no_of_used_blocks (fs_sb (v_fs (w4 t')))" using v2(6) by (simp add: w4_def te(3))
  then obtain v' where v': "shrink_dir dir (w4 t') = Some v'" "dir_ok v' dir" "dir_map v' dir = entry_map (v_dir (w4 t') dir) n"
    "others_same (w4 t') {dir} v'" "fs_ibm (v_fs v') = fs_ibm (v_fs (w4 t'))" using shrink_dir_correct [OF d4(1)] by blast
  have "index_del dir name v = Some (v\<lparr>v_tree := (v_tree v)(?bp := t)\<rparr>)" using f(12) t(1) by (simp add: index_del_def Let_def)
  moreover have "unlink_inode ino (v\<lparr>v_tree := (v_tree v)(?bp := t)\<rparr>) = Some (v2\<lparr>v_tree := (v_tree v2)(?bp := t)\<rparr>)"
    unfolding unlink_tree v2(1) by (simp add: v2(4))
  moreover have "dentry_at dir e v = Some (v_dir v dir ! e)" using e(2) entries_okD(2,3) [OF f(1)] by (simp add: dentry_at_def)
  moreover have "read_inode ino v = Some (inode_of v ino)" using r by (simp add: read_inode_def)
  ultimately have run: "rmfile dir name v = Some (0, v')"
    unfolding rmfile_def dir_at_read [OF d0] fe(1) using e(4) r v'(1) st(1) by (simp add: Let_def w_def)
  have iw: "inode_of (w4 t') j = inode_of v2 j" if "j \<noteq> dir" for j using that by (simp add: w4_def inode_of_def te(3))
  have "others_same v {dir, ino} v'" using v'(4) v2(3,5) iw by (simp add: others_same_def) (simp add: w4_def)
  moreover have "dir_map v' dir = (dir_map v dir)(name := None)" unfolding v'(3) d4(2) dm v2(3) e(3) ..
  moreover have "inode_used (v_fs v') = inode_used (v_fs v2)" using v'(5) by (simp add: inode_used_def fun_eq_iff w4_def te(3))
  moreover have "inode_of v' ino = inode_of v2 ino" using v'(4) iw ne by (simp add: others_same_def)
  ultimately show ?thesis using run v'(2) v2(8) by auto
qed

section \<open>The index of a directory\<close>

text \<open>A directory that may not have an index yet.\<close>

definition dir_body :: "vfs \<Rightarrow> nat \<Rightarrow> nat \<Rightarrow> nat \<Rightarrow> bool" where
  "dir_body v dir n c \<longleftrightarrow> entries_ok (v_dir v dir) n c \<and> n \<le> 320 \<and> c \<le> 10
     \<and> i_ino (inode_of v dir) = dir \<and> ROOT_INO \<le> dir \<and> dir < bgn (v_fs v) * 4096 \<and> inode_used (v_fs v) dir
     \<and> i_type (inode_of v dir) = NVFUSE_TYPE_DIRECTORY \<and> i_links_count (inode_of v dir) = n \<and> i_ptr (inode_of v dir) = n - 1
     \<and> i_size (inode_of v dir) = 4096 * int c
     \<and> tree_inv (file_map v dir) \<and> (\<forall>l. c \<le> l \<longrightarrow> l < 14 \<longrightarrow> i_blocks (inode_of v dir) ! l = 0)"

lemma dir_at_body:
  "dir_at v dir n c \<longleftrightarrow> dir_body v dir n c \<and> i_bpino (inode_of v dir) \<noteq> 0
     \<and> index_exact (v_tree v (i_bpino (inode_of v dir))) (entry_index (v_dir v dir) n)"
  by (auto simp: dir_at_def dir_body_def)

lemma dir_bodyD:
  assumes "dir_body v dir n c"
  shows "dir < bgn (v_fs v) * 4096" "inode_used (v_fs v) dir" "tree_inv (file_map v dir)" "c \<le> 10"
    "\<And>l. c \<le> l \<Longrightarrow> l < 14 \<Longrightarrow> i_blocks (inode_of v dir) ! l = 0"
  using assms by (auto simp: dir_body_def)

lemma dir_body_frame:
  assumes "dir_body v dir n c" "\<exists>b. inode_of v' dir = (inode_of v dir)\<lparr>i_bpino := b\<rparr>" "v_dir v' dir = v_dir v dir"
    "alloc_inv (v_fs v')" "fs_primary (v_fs v')" "fs_last_bgid (v_fs v') < bgn (v_fs v')" "bgn (v_fs v') = bgn (v_fs v)"
    "\<And>b. length (v_mb v' b) = 1024" "inode_used (v_fs v') dir"
    "\<And>x. x < bgn (v_fs v) * 32768 \<Longrightarrow> block_used (v_fs v) x \<Longrightarrow> block_used (v_fs v') x"
  shows "dir_body v' dir n c"
proof -
  note b = dir_bodyD [OF assms(1)]
  obtain p where p: "inode_of v' dir = (inode_of v dir)\<lparr>i_bpino := p\<rparr>" using assms(2) by blast
  have "tree_inv \<lparr>bm_fs = v_fs v', bm_ib = bm_ib (file_map v dir), bm_mb = v_mb v'\<rparr>"
  proof (rule tree_inv_direct [OF b(3), of c])
    show "block_used (v_fs v') (bm_ib (file_map v dir) ! i)" if "i < c" "bm_ib (file_map v dir) ! i \<noteq> 0" for i
    proof -
      have "rpath [i]" using that(1) b(4) by (auto simp: rpath_def depth_of_def)
      then have "data_block (v_fs v) (bm_ib (file_map v dir) ! i)" using tree_invD(5) [OF b(3), of "[i]"] that(2) by (simp add: file_map_def)
      then show ?thesis using assms(10) by (simp add: data_block_def)
    qed
  qed (use b(4,5) assms(4-8) in \<open>auto simp: file_map_def\<close>)
  then have "tree_inv (file_map v' dir)" by (simp add: file_map_def p)
  then show ?thesis using assms(1,3,7,9) by (simp add: dir_body_def p)
qed

text \<open>The allocation of a block for another inode.\<close>

lemma alloc_block_correct:
  assumes d: "dir_body v dir n c" and ne: "ino \<noteq> dir" and l: "l < 11" "i_blocks (inode_of v ino) ! l = 0"
    and t: "tree_inv (file_map v ino)" and ino: "ino < bgn (v_fs v) * 4096" and free: "4 \<le> sb_free_blocks (fs_sb (v_fs v))"
  shows "\<exists>b v'. alloc_block ino (int l) v = Some (0, v') \<and> dir_body v' dir n c \<and> tree_inv (file_map v' ino)
    \<and> inode_of v' ino = (inode_of v ino)\<lparr>i_blocks := (i_blocks (inode_of v ino))[l := b]\<rparr> \<and> others_same v {ino} v'
    \<and> v_dir v' = v_dir v \<and> v_tree v' = v_tree v \<and> same_inodes_fs (v_fs v) (v_fs v')
    \<and> sb_free_blocks (fs_sb (v_fs v')) = sb_free_blocks (fs_sb (v_fs v)) - 1
    \<and> sb_no_of_used_blocks (fs_sb (v_fs v')) = sb_no_of_used_blocks (fs_sb (v_fs v)) + 1"
proof -
  obtain b t' where g: "get_block ino (int l) 1 True (file_map v ino) = Some (0, 1, b, t')" "bm_ib t' = (i_blocks (inode_of v ino))[l := b]"
    "alloc_post (v_fs v) [b] (bm_fs t')" "tree_inv t'" using get_block_direct [OF t l(1), of ino] l(2) ino free by (auto simp: file_map_def)
  have it: "fs_itable (bm_fs t') = fs_itable (v_fs v)" "fs_ibm (bm_fs t') = fs_ibm (v_fs v)" "bgn (bm_fs t') = bgn (v_fs v)"
    "sb_free_inodes (fs_sb (bm_fs t')) = sb_free_inodes (fs_sb (v_fs v))" "fs_last_ino (bm_fs t') = fs_last_ino (v_fs v)"
    "sb_free_blocks (fs_sb (bm_fs t')) = sb_free_blocks (fs_sb (v_fs v)) - 1"
    "sb_no_of_used_blocks (fs_sb (bm_fs t')) = sb_no_of_used_blocks (fs_sb (v_fs v)) + 1"
    using g(3) by (simp_all add: alloc_post_def)
  define v' where "v' = put_map ino t' v"
  have run: "alloc_block ino (int l) v = Some (0, v')" by (simp add: alloc_block_def g(1) v'_def del: One_nat_def)
  have fld: "v_dir v' = v_dir v" "v_tree v' = v_tree v" "v_mb v' = bm_mb t'"
    "v_fs v' = (bm_fs t')\<lparr>fs_itable := (fs_itable (v_fs v))(ino := (inode_of v ino)\<lparr>i_blocks := bm_ib t'\<rparr>)\<rparr>"
    by (simp_all add: v'_def put_map_def it(1) inode_of_def)
  have i': "inode_of v' j = (if j = ino then (inode_of v ino)\<lparr>i_blocks := bm_ib t'\<rparr> else inode_of v j)" for j
    by (simp add: inode_of_def fld(4))
  have used: "block_used (bm_fs t') x" if "x < bgn (v_fs v) * 32768" "block_used (v_fs v) x" for x
    using g(3) that by (simp add: alloc_post_def)
  have "dir_body v' dir n c"
    by (rule dir_body_frame [OF d])
      (use i' [of dir] ne fld it used dir_bodyD(2) [OF d] g(4) in \<open>auto simp: tree_inv_def inode_used_def intro: exI [of _ "i_bpino (inode_of v dir)"]\<close>)
  moreover have "file_map v' ino = t'\<lparr>bm_fs := v_fs v'\<rparr>" by (simp add: file_map_def i' fld)
  moreover have "tree_inv (t'\<lparr>bm_fs := v_fs v'\<rparr>)"
    by (rule tree_inv_fs [OF g(4)]) (use g(4) in \<open>auto simp: fld tree_inv_def data_block_def\<close>)
  ultimately show ?thesis using run i' fld it g(2) by (auto simp: others_same_def same_inodes_fs_def)
qed

lemma zero_file_inv:
  assumes "tree_inv (file_map v dir)" "alloc_inv (v_fs v')" "fs_primary (v_fs v')" "fs_last_bgid (v_fs v') < bgn (v_fs v')"
    "v_mb v' = v_mb v" "i_blocks (inode_of v' ino) = replicate 14 0"
  shows "tree_inv (file_map v' ino)"
proof -
  have "node (file_map v' ino) q = 0" if "rpath q" for q
  proof (rule ccontr)
    assume nz: "node (file_map v' ino) q \<noteq> 0"
    have "bm_ib (file_map v' ino) ! l = 0" if "0 \<le> l" "l < 14" for l using assms(6) that by (simp add: file_map_def)
    then show False using direct_node [of 0 "file_map v' ino", OF _ \<open>rpath q\<close> nz] by auto
  qed
  then show ?thesis unfolding tree_inv_def using assms tree_invD(4) [OF assms(1)] by (auto simp: file_map_def)
qed

lemma create_bptree_correct:
  assumes d: "dir_body v dir 2 1" and can: "fs_last_ino (v_fs v) < bgn (v_fs v) * 4096" "sb_free_inodes (fs_sb (v_fs v)) \<noteq> 0"
    "5 \<le> sb_free_blocks (fs_sb (v_fs v))"
  shows "\<exists>ino s v'. create_bptree dir v = Some (0, v') \<and> dir_ok v' dir \<and> dir_map v' dir = Map.empty
    \<and> alloc_new_inode (v_fs v) = Some (ino, s) \<and> fs_last_ino (v_fs v') = ino + 1
    \<and> i_bpino (inode_of v' dir) = ino \<and> \<not> inode_used (v_fs v) ino \<and> inode_used (v_fs v') ino \<and> others_same v {dir, ino} v'
    \<and> inode_of v' dir = (inode_of v dir)\<lparr>i_bpino := ino\<rparr> \<and> v_dir v' = v_dir v \<and> bgn (v_fs v') = bgn (v_fs v)
    \<and> sb_free_inodes (fs_sb (v_fs v')) = sb_free_inodes (fs_sb (v_fs v)) - 1
    \<and> sb_free_blocks (fs_sb (v_fs v')) = sb_free_blocks (fs_sb (v_fs v)) - 2
    \<and> sb_no_of_used_blocks (fs_sb (v_fs v')) = sb_no_of_used_blocks (fs_sb (v_fs v)) + 2
    \<and> one_inode_taken (v_fs v) ino (v_fs v')"
proof -
  note b = dir_bodyD [OF d]
  have fs: "alloc_inv (v_fs v)" "fs_primary (v_fs v)" "fs_last_bgid (v_fs v) < bgn (v_fs v)" using b(3) by (simp_all add: tree_inv_def file_map_def)
  obtain ino s where a: "alloc_new_inode (v_fs v) = Some (ino, s)" "8 \<le> ino" "ino < bgn (v_fs v) * 4096" "\<not> inode_used (v_fs v) ino"
    "\<forall>j < bgn (v_fs v) * 4096. inode_used s j \<longleftrightarrow> j = ino \<or> inode_used (v_fs v) j"
    "fs_itable s = (fs_itable (v_fs v))(ino := zero_inode\<lparr>i_ino := ino, i_version := 1\<rparr>)" "fs_last_ino s = ino + 1"
    "sb_free_inodes (fs_sb s) = sb_free_inodes (fs_sb (v_fs v)) - 1" "alloc_inv s"
    using alloc_new_inode_spec [OF fs(1,2) can(1,2)] by blast
  have fr: "same_blocks_fs (v_fs v) s" by (rule alloc_new_inode_frame [OF a(1)])
  have ne: "ino \<noteq> dir" using a(4) b(2) by auto
  define v2 where "v2 = set_inode ino ((inode_of (v\<lparr>v_fs := s\<rparr>) ino)\<lparr>i_type := NVFUSE_TYPE_BPTREE, i_size := 0, i_links_count := 1\<rparr>) (v\<lparr>v_fs := s\<rparr>)"
  have fs2: "alloc_inv (v_fs v2)" "fs_primary (v_fs v2)" "fs_last_bgid (v_fs v2) < bgn (v_fs v2)" "bgn (v_fs v2) = bgn (v_fs v)"
    "v_mb v2 = v_mb v" "v_dir v2 = v_dir v" "sb_free_blocks (fs_sb (v_fs v2)) = sb_free_blocks (fs_sb (v_fs v))"
    using a(9) fr fs(2,3) by (simp_all add: v2_def same_blocks_fs_def)
  have i2: "inode_of v2 dir = inode_of v dir" "i_blocks (inode_of v2 ino) = replicate 14 0"
    using ne a(6) by (simp_all add: v2_def inode_of_def zero_inode_def)
  have o2: "others_same v {dir, ino} v2" using a(6) by (simp add: others_same_def v2_def) (simp add: inode_of_def)
  have "block_used (v_fs v2) x" if "block_used (v_fs v) x" for x using fr that by (simp add: v2_def same_blocks_fs_def block_used_def)
  moreover have "inode_used (v_fs v2) dir" using a(5) b(1,2) by (simp add: v2_def)
  ultimately have d2: "dir_body v2 dir 2 1"
    by (intro dir_body_frame [OF d]) (use fs2 i2 tree_invD(4) [OF b(3)] in \<open>auto simp: file_map_def intro: exI [of _ "i_bpino (inode_of v dir)"]\<close>)
  have z: "tree_inv (file_map v2 ino)" by (rule zero_file_inv [OF b(3) fs2(1-3,5) i2(2)])
  have "\<exists>b v3. alloc_block ino (int 0) v2 = Some (0, v3) \<and> dir_body v3 dir 2 1 \<and> tree_inv (file_map v3 ino)
    \<and> inode_of v3 ino = (inode_of v2 ino)\<lparr>i_blocks := (i_blocks (inode_of v2 ino))[0 := b]\<rparr> \<and> others_same v2 {ino} v3
    \<and> v_dir v3 = v_dir v2 \<and> v_tree v3 = v_tree v2 \<and> same_inodes_fs (v_fs v2) (v_fs v3)
    \<and> sb_free_blocks (fs_sb (v_fs v3)) = sb_free_blocks (fs_sb (v_fs v2)) - 1
    \<and> sb_no_of_used_blocks (fs_sb (v_fs v3)) = sb_no_of_used_blocks (fs_sb (v_fs v2)) + 1"
    by (rule alloc_block_correct [OF d2 ne]) (use z i2 fs2 a(3) can(3) in simp_all)
  then obtain b1 v3 where v3: "alloc_block ino (int 0) v2 = Some (0, v3)" "dir_body v3 dir 2 1" "tree_inv (file_map v3 ino)"
    "inode_of v3 ino = (inode_of v2 ino)\<lparr>i_blocks := (i_blocks (inode_of v2 ino))[0 := b1]\<rparr>" "others_same v2 {ino} v3"
    "v_dir v3 = v_dir v2" "v_tree v3 = v_tree v2" "same_inodes_fs (v_fs v2) (v_fs v3)"
    "sb_free_blocks (fs_sb (v_fs v3)) = sb_free_blocks (fs_sb (v_fs v2)) - 1"
    "sb_no_of_used_blocks (fs_sb (v_fs v3)) = sb_no_of_used_blocks (fs_sb (v_fs v2)) + 1" by blast
  define v3' where "v3' = set_inode ino ((inode_of v3 ino)\<lparr>i_size := 8192\<rparr>) v3"
  have d3: "dir_body v3' dir 2 1"
    by (rule dir_body_frame [OF v3(2)])
      (use ne dir_bodyD(2,3) [OF v3(2)] in \<open>auto simp: v3'_def tree_inv_def file_map_def intro: exI [of _ "i_bpino (inode_of v3 dir)"]\<close>)
  have "file_map v3' ino = (file_map v3 ino)\<lparr>bm_fs := v_fs v3'\<rparr>" by (simp add: v3'_def file_map_def)
  moreover have "tree_inv ((file_map v3 ino)\<lparr>bm_fs := v_fs v3'\<rparr>)"
    by (rule tree_inv_fs [OF v3(3)]) (use v3(3) in \<open>auto simp: v3'_def tree_inv_def data_block_def file_map_def\<close>)
  ultimately have t3: "tree_inv (file_map v3' ino)" by simp
  have "\<exists>b v4. alloc_block ino (int 1) v3' = Some (0, v4) \<and> dir_body v4 dir 2 1 \<and> tree_inv (file_map v4 ino)
    \<and> inode_of v4 ino = (inode_of v3' ino)\<lparr>i_blocks := (i_blocks (inode_of v3' ino))[1 := b]\<rparr> \<and> others_same v3' {ino} v4
    \<and> v_dir v4 = v_dir v3' \<and> v_tree v4 = v_tree v3' \<and> same_inodes_fs (v_fs v3') (v_fs v4)
    \<and> sb_free_blocks (fs_sb (v_fs v4)) = sb_free_blocks (fs_sb (v_fs v3')) - 1
    \<and> sb_no_of_used_blocks (fs_sb (v_fs v4)) = sb_no_of_used_blocks (fs_sb (v_fs v3')) + 1"
    by (rule alloc_block_correct [OF d3 ne _ _ t3])
      (use i2(2) v3(4,8,9) fs2(4,7) a(3) can(3) in \<open>simp_all add: v3'_def same_inodes_fs_def\<close>)
  then obtain v4 where v4: "alloc_block ino 1 v3' = Some (0, v4)" "dir_body v4 dir 2 1" "others_same v3' {ino} v4"
    "v_dir v4 = v_dir v3'" "v_tree v4 = v_tree v3'" "same_inodes_fs (v_fs v3') (v_fs v4)"
    "sb_free_blocks (fs_sb (v_fs v4)) = sb_free_blocks (fs_sb (v_fs v3')) - 1"
    "sb_no_of_used_blocks (fs_sb (v_fs v4)) = sb_no_of_used_blocks (fs_sb (v_fs v3')) + 1" by auto
  obtain T where T: "bp_create (\<lambda>_. True) = Some T" "flat_view T Map.empty" using create_flat by blast
  define v' where "v' = set_inode dir ((inode_of v4 dir)\<lparr>i_bpino := ino\<rparr>) (v4\<lparr>v_tree := (v_tree v4)(ino := T)\<rparr>)"
  have run: "create_bptree dir v = Some (0, v')"
    unfolding create_bptree_def a(1) Option.bind_lunit split_conv Let_def v2_def [symmetric]
    using v3(1) v4(1) T(1) by (simp add: v3'_def [symmetric] v'_def)
  have d5: "dir_body v' dir 2 1"
    by (rule dir_body_frame [OF v4(2)]) (use dir_bodyD(2,3) [OF v4(2)] in \<open>auto simp: v'_def tree_inv_def file_map_def\<close>)
  have i': "inode_of v' dir = (inode_of v dir)\<lparr>i_bpino := ino\<rparr>"
    using v4(3) v3(5) i2(1) ne by (auto simp: v'_def others_same_def v3'_def)
  have "entry_index (v_dir v' dir) 2 = Map.empty" "entry_map (v_dir v' dir) 2 = Map.empty" by (simp_all add: entry_index_def entry_map_def)
  moreover have "i_links_count (inode_of v' dir) = 2" using d5 by (simp add: dir_body_def)
  moreover have "dir_blocks 2 = 1" by (simp add: dir_blocks_def)
  ultimately have ok: "dir_ok v' dir" "dir_map v' dir = Map.empty"
    unfolding dir_ok_def dir_map_def dir_at_body using d5 a(2) empty_exact [OF T(2)] by (simp_all add: i') (simp_all add: v'_def)
  have sm: "same_inodes_fs (v_fs v2) (v_fs v')" using v3(8) v4(6) by (simp add: same_inodes_fs_def v'_def v3'_def)
  have v2i: "fs_last_ino (v_fs v2) = ino + 1" "inode_used (v_fs v2) ino" "sb_free_inodes (fs_sb (v_fs v2)) = sb_free_inodes (fs_sb (v_fs v)) - 1"
    using a(3,5,7,8) by (simp_all add: v2_def)
  have c1: "fs_last_ino (v_fs v') = ino + 1" "inode_used (v_fs v') ino" "bgn (v_fs v') = bgn (v_fs v)"
    "sb_free_inodes (fs_sb (v_fs v')) = sb_free_inodes (fs_sb (v_fs v)) - 1"
    using sm v2i fs2(4) by (simp_all add: same_inodes_fs_def inode_used_def)
  have c2: "sb_free_blocks (fs_sb (v_fs v')) = sb_free_blocks (fs_sb (v_fs v)) - 2"
    "sb_no_of_used_blocks (fs_sb (v_fs v')) = sb_no_of_used_blocks (fs_sb (v_fs v)) + 2"
    using v4(7,8) v3(9,10) fs2(7) fr by (simp_all add: v'_def v3'_def) (simp add: v2_def same_blocks_fs_def)
  have c3: "others_same v {dir, ino} v'" using o2 v3(5) v4(3) by (simp add: others_same_def v'_def v3'_def)
  have "v_dir v' = v_dir v" using v4(4) v3(6) fs2(6) by (simp add: v'_def v3'_def)
  moreover have "fs_ibm (v_fs v') = fs_ibm s" using sm by (simp add: same_inodes_fs_def v2_def)
  then have "one_inode_taken (v_fs v) ino (v_fs v')"
    using c1 a(5) alloc_new_inode_hint [OF fs(1,2) can(1) _ a(1)] by (simp add: one_inode_taken_def inode_used_def)
  ultimately show ?thesis using run ok a(1,4) i' c1 c2 c3 by auto
qed


lemma fresh_key: "fresh_name name D \<Longrightarrow> name \<noteq> ''.'' \<and> name \<noteq> ''..'' \<and> 0 < key_of name \<and> key_of name \<notin> key_of ` dom D"
  by (simp add: fresh_name_def key_of_def)

lemma createfile_run:
  assumes "dir_ok v dir" "i_links_count (inode_of v dir) < 320" "fresh_name name (dir_map v dir)" "can_create v"
    "1 \<le> length name" "length name < 116"
  shows "\<exists>ino v'. createfile now dir name mode dev v = Some (0, ino, v') \<and> dir_ok v' dir \<and> dir_map v' dir = (dir_map v dir)(name \<mapsto> ino)
    \<and> \<not> inode_used (v_fs v) ino \<and> inode_used (v_fs v') ino \<and> 8 \<le> ino \<and> ino < bgn (v_fs v) * 4096
    \<and> inode_of v' ino = new_file_inode now mode dev (zero_inode\<lparr>i_ino := ino, i_version := 1\<rparr>) \<and> others_same v {dir, ino} v'
    \<and> i_links_count (inode_of v' dir) = i_links_count (inode_of v dir) + 1 \<and> one_block_less (v_fs v) (v_fs v')"
proof -
  have "read_inode dir v = Some (inode_of v dir)" "i_links_count (inode_of v dir) \<noteq> MAX_FILES_PER_DIR"
    using assms(1,2) dir_at_read by (auto simp: dir_ok_def MAX_FILES_PER_DIR_def)
  then have "createfile now dir name mode dev v = make_entry (new_file_inode now mode dev) dir name v"
    using assms(5,6) by (auto simp: createfile_def FNAME_SIZE_def)
  then show ?thesis using make_entry_correct [OF assms(1-4), of "new_file_inode now mode dev"] by (simp add: new_file_inode_def)
qed

section \<open>A file system after its first mount\<close>

text \<open>A formatted file system of two groups; the first mount creates the index of the root.\<close>

definition formatted_vfs :: vfs where
  "formatted_vfs = \<lparr>v_fs = formatted_fs 0 2, v_mb = (\<lambda>_. replicate 1024 0), v_dir = (\<lambda>_. root_dentries),
     v_tree = (\<lambda>_. undefined), v_stale = replicate 32 zero_dentry\<rparr>"

lemma root_entries: "entries_ok root_dentries 2 1"
  unfolding entries_ok_def
proof (intro conjI allI impI)
  show "(d_flag (root_dentries ! i) = DIR_USED) = (i < 2)" if "i < 32 * 1" for i
    using that by (auto simp: root_dentries_def DIR_ENTRY_NUM_def nth_Cons' zero_dentry_def)
qed (simp_all add: root_dentries_def DIR_ENTRY_NUM_def take_Cons')

lemma root_node:
  assumes "rpath q"
  shows "node (file_map formatted_vfs ROOT_INO) q = (if q = [0] then 4100 else 0)"
proof (cases "node (file_map formatted_vfs ROOT_INO) q = 0")
  case False
  have ib: "bm_ib (file_map formatted_vfs ROOT_INO) = (replicate 14 0)[0 := 4100]"
    by (simp add: file_map_def formatted_vfs_def inode_of_def formatted_fs_def root_inode_def)
  then have "bm_ib (file_map formatted_vfs ROOT_INO) ! l = 0" if "1 \<le> l" "l < 14" for l using that by simp
  then have "q = [0]" using direct_node [of 1 "file_map formatted_vfs ROOT_INO", OF _ assms False] by auto
  then show ?thesis using ib by simp
next
  case True
  have "node (file_map formatted_vfs ROOT_INO) [0] = 4100"
    by (simp add: file_map_def formatted_vfs_def inode_of_def formatted_fs_def root_inode_def)
  then show ?thesis using True by auto
qed

lemma formatted_body: "dir_body formatted_vfs ROOT_INO 2 1"
proof -
  have fs: "v_fs formatted_vfs = formatted_fs 0 2" "bgn (formatted_fs 0 2) = 2" by (simp_all add: formatted_vfs_def formatted_fs_def formatted_sb_def)
  have ip: "inode_of formatted_vfs ROOT_INO = root_inode 0 4100" by (simp add: inode_of_def formatted_vfs_def formatted_fs_def)
  have "block_used (formatted_fs 0 2) 4100"
    using tst_bset [of 4100 "fresh_dbm 0" 4100] fresh_dbm_bits(1) [of 0] by (simp add: block_used_def formatted_fs_def formatted_sb_def upt_rec)
  then have "data_block (formatted_fs 0 2) 4100" using fs(2) by (simp add: data_block_def)
  moreover have "length (bm_ib (file_map formatted_vfs ROOT_INO)) = 14" by (simp add: file_map_def ip root_inode_def)
  moreover have "length (bm_mb (file_map formatted_vfs ROOT_INO) b) = 1024" "bm_fs (file_map formatted_vfs ROOT_INO) = formatted_fs 0 2" for b
    by (simp_all add: file_map_def formatted_vfs_def)
  moreover have "fs_primary (formatted_fs 0 2)" "fs_last_bgid (formatted_fs 0 2) < bgn (formatted_fs 0 2)"
    by (simp_all add: formatted_fs_def formatted_sb_def)
  ultimately have t: "tree_inv (file_map formatted_vfs ROOT_INO)"
    unfolding tree_inv_def using root_node formatted_fs_inv [of 2 0] by (auto split: if_splits)
  have u: "inode_used (formatted_fs 0 2) ROOT_INO" using root_ibm_bits [of ROOT_INO]
    by (simp add: inode_used_def formatted_fs_def formatted_sb_def ROOT_INO_def)
  have vd: "v_dir formatted_vfs ROOT_INO = root_dentries" by (simp add: formatted_vfs_def)
  show ?thesis unfolding dir_body_def ip vd fs using root_entries t u fs(2)
    by (simp add: root_inode_def ROOT_INO_def DIR_ENTRY_SIZE_def DIR_ENTRY_NUM_def)
qed

lemma alloc_first_group:
  assumes "alloc_inv s" "fs_primary s" "0 < bgn s" "fs_last_ino s < 4096" "bd_free_inodes (fs_bds s ! 0) \<noteq> 0" "alloc_new_inode s = Some (ino, s')"
  shows "ino < 4096"
proof -
  obtain k where k: "bgn s = Suc k" using assms(3) by (cases "bgn s") auto
  obtain i where i: "i < 4096" "\<not> tst (fs_ibm s ! 0) i" "scan_free_ibitmap 0 (fs_last_ino s) s = Some (i, s\<lparr>fs_ibm := (fs_ibm s)[0 := bset i (fs_ibm s ! 0)]\<rparr>)"
    using scan_free_ibitmap_spec [OF assms(1,3,4)] assms(5) by auto
  have "i \<noteq> 0" using i(2) alloc_invD(7) [OF assms(1), of 0] by (metis zero_less_numeral)
  then have "find_free_inode (fs_last_ino s) s = Some (i, s\<lparr>fs_ibm := (fs_ibm s)[0 := bset i (fs_ibm s ! 0)]\<rparr>)"
    unfolding find_free_inode_def using i(3) assms(2,4) alloc_invD(5) [OF assms(1)] k by (simp add: Let_def)
  then show ?thesis using assms(6) i(1) by (auto simp: alloc_new_inode_def split: bind_splits)
qed

lemma mounted_vfs:
  "\<exists>v. create_bptree ROOT_INO formatted_vfs = Some (0, v) \<and> dir_ok v ROOT_INO \<and> dir_map v ROOT_INO = Map.empty \<and> can_create v
    \<and> i_links_count (inode_of v ROOT_INO) = 2 \<and> bgn (v_fs v) = 2 \<and> 2 \<le> sb_no_of_used_blocks (fs_sb (v_fs v))
    \<and> 1000 \<le> sb_free_blocks (fs_sb (v_fs v))"
proof -
  have c: "fs_last_ino (v_fs formatted_vfs) = 0" "bgn (v_fs formatted_vfs) = 2" "sb_free_inodes (fs_sb (v_fs formatted_vfs)) = 8184"
    "sb_free_blocks (fs_sb (v_fs formatted_vfs)) = 57335" "sb_no_of_used_blocks (fs_sb (v_fs formatted_vfs)) = 0"
    "alloc_inv (v_fs formatted_vfs)" "fs_primary (v_fs formatted_vfs)" "bd_free_inodes (fs_bds (v_fs formatted_vfs) ! 0) \<noteq> 0"
    using formatted_fs_inv [of 2 0] by (simp_all add: formatted_vfs_def formatted_fs_def formatted_sb_def upt_rec)
  obtain ino s v where v: "create_bptree ROOT_INO formatted_vfs = Some (0, v)" "dir_ok v ROOT_INO" "dir_map v ROOT_INO = Map.empty"
    "alloc_new_inode (v_fs formatted_vfs) = Some (ino, s)" "fs_last_ino (v_fs v) = ino + 1"
    "inode_of v ROOT_INO = (inode_of formatted_vfs ROOT_INO)\<lparr>i_bpino := ino\<rparr>" "bgn (v_fs v) = bgn (v_fs formatted_vfs)"
    "sb_free_inodes (fs_sb (v_fs v)) = sb_free_inodes (fs_sb (v_fs formatted_vfs)) - 1"
    "sb_free_blocks (fs_sb (v_fs v)) = sb_free_blocks (fs_sb (v_fs formatted_vfs)) - 2"
    "sb_no_of_used_blocks (fs_sb (v_fs v)) = sb_no_of_used_blocks (fs_sb (v_fs formatted_vfs)) + 2"
    using create_bptree_correct [OF formatted_body] c by auto
  have "ino < 4096" using alloc_first_group [OF c(6,7) _ _ c(8) v(4)] c(1,2) by simp
  moreover have "i_links_count (inode_of formatted_vfs ROOT_INO) = 2" using formatted_body by (simp add: dir_body_def)
  ultimately show ?thesis using v c by (simp add: can_create_def)
qed

lemma name_a: "name_bytes ''a'' = [0x61]" "name_bytes ''b'' = [0x62]"
  by (simp_all add: name_bytes_def)

lemma keys_ab: "0 < key_of ''a''" "0 < key_of ''b''" "key_of ''b'' \<noteq> key_of ''a''"
proof -
  have h: "nvfuse_dir_hash [x] = (NOT 0, crc32_b (NOT 0) x)" for x by (simp add: nvfuse_dir_hash_def crc32c_intel_def)
  have "0 < unat (- 1 :: u32)" by (simp add: unsigned_minus_1_eq_mask mask_eq_exp_minus_1)
  then show "0 < key_of ''a''" "0 < key_of ''b''" by (simp_all add: key_of_def name_a dir_key_def h)
  have "crc32_b (NOT 0) 0x62 \<noteq> crc32_b (NOT 0) 0x61" by code_simp
  then have "unat (crc32_b (NOT 0) 0x62) \<noteq> unat (crc32_b (NOT 0) 0x61)" by (metis unsigned_word_eqI)
  then show "key_of ''b'' \<noteq> key_of ''a''" by (simp add: key_of_def name_a dir_key_def h)
qed

text \<open>The root directory with one file.\<close>

lemma one_file_vfs:
  "\<exists>v ino. dir_ok v ROOT_INO \<and> dir_map v ROOT_INO = [''a'' \<mapsto> ino] \<and> removable v ino ROOT_INO \<and> i_links_count (inode_of v ino) = 1
    \<and> 8 \<le> ino \<and> ino < bgn (v_fs v) * 4096 \<and> i_ino (inode_of v ino) = ino
    \<and> i_links_count (inode_of v ROOT_INO) = 3 \<and> 4 \<le> sb_free_blocks (fs_sb (v_fs v)) \<and> i_size (inode_of v ino) = 0"
proof -
  obtain u where u: "dir_ok u ROOT_INO" "dir_map u ROOT_INO = Map.empty" "can_create u" "i_links_count (inode_of u ROOT_INO) = 2"
    "2 \<le> sb_no_of_used_blocks (fs_sb (v_fs u))" "1000 \<le> sb_free_blocks (fs_sb (v_fs u))" using mounted_vfs by blast
  have fr: "fresh_name ''a'' (dir_map u ROOT_INO)" using keys_ab(1) by (simp add: fresh_name_def u(2) key_of_def)
  obtain ino v where v: "createfile 0 ROOT_INO ''a'' 420 (0, 0) u = Some (0, ino, v)" "dir_ok v ROOT_INO" "dir_map v ROOT_INO = [''a'' \<mapsto> ino]"
    "inode_used (v_fs v) ino" "8 \<le> ino" "ino < bgn (v_fs u) * 4096"
    "inode_of v ino = new_file_inode 0 420 (0, 0) (zero_inode\<lparr>i_ino := ino, i_version := 1\<rparr>)"
    "i_links_count (inode_of v ROOT_INO) = 3" "one_block_less (v_fs u) (v_fs v)"
    using createfile_run [OF u(1) _ fr u(3), of 0 420 "(0, 0)"] u(2,4) by auto
  have n: "i_blocks (inode_of v ino) = replicate 14 0" "i_size (inode_of v ino) = 0" "i_links_count (inode_of v ino) = 1"
    "i_ino (inode_of v ino) = ino" "i_type (inode_of v ino) = NVFUSE_TYPE_FILE"
    by (simp_all add: v(7) new_file_inode_def dev_blocks_def is_device_def zero_inode_def)
  have d: "dir_at v ROOT_INO 3 (dir_blocks 3)" using v(2,8) by (simp add: dir_ok_def)
  have t: "tree_inv (file_map v ino)"
    by (rule zero_file_inv [OF dir_atD(14) [OF d]]) (use dir_at_fs [OF d] n(1) in auto)
  have "file_blocks (file_map v ino) 0 = []" by (simp add: file_blocks_def file_map_def n(1) upt_rec)
  moreover have c: "ino < bgn (v_fs v) * 4096" "2 \<le> sb_no_of_used_blocks (fs_sb (v_fs v))" "4 \<le> sb_free_blocks (fs_sb (v_fs v))"
    using v(6,9) u(5,6) by (simp_all add: one_block_less_def)
  ultimately have "file_free v ino ROOT_INO" using t v(4,5) by (simp add: file_free_def)
  then have "removable v ino ROOT_INO" using n(3-5) c(2) v(5)
    by (simp add: removable_def ROOT_INO_def NVFUSE_TYPE_FILE_def NVFUSE_TYPE_DIRECTORY_def)
  then show ?thesis using v(2,3,5,8) n(2-4) c by blast
qed

section \<open>Properties\<close>

text \<open>C1: \<open>nvfuse_createfile\<close> adds one name to a directory.  In a consistent directory with less
  than 320 entries, for a name of 1 to 115 characters that is new and whose hash no other
  name has, and with a free inode and free blocks, it returns success: the map of the
  directory gets the name with an inode that was free before, this inode is initialised as
  an empty file with the mode and device asked for, the entries, the index, the size and the block map of the
  directory stay consistent (a block is added when the last one is full), and no other inode or directory changes.\<close>

theorem createfile_correct:
  assumes "dir_ok v dir" "i_links_count (inode_of v dir) < 320" "fresh_name name (dir_map v dir)" "can_create v"
    "1 \<le> length name" "length name < 116"
  shows "\<exists>ino v'. createfile now dir name mode dev v = Some (0, ino, v') \<and> dir_ok v' dir \<and> dir_map v' dir = (dir_map v dir)(name \<mapsto> ino)
    \<and> \<not> inode_used (v_fs v) ino \<and> inode_used (v_fs v') ino \<and> 8 \<le> ino \<and> ino < bgn (v_fs v) * 4096
    \<and> inode_of v' ino = new_file_inode now mode dev (zero_inode\<lparr>i_ino := ino, i_version := 1\<rparr>) \<and> others_same v {dir, ino} v'"
  using createfile_run [OF assms] by blast

theorem createfile_correct_witness:
  "\<exists>v ino v'. create_bptree ROOT_INO formatted_vfs = Some (0, v) \<and> createfile 0 ROOT_INO ''a'' 420 (0, 0) v = Some (0, ino, v')
    \<and> dir_map v' ROOT_INO = [''a'' \<mapsto> ino]"
proof -
  obtain v where v: "create_bptree ROOT_INO formatted_vfs = Some (0, v)" "dir_ok v ROOT_INO" "dir_map v ROOT_INO = Map.empty" "can_create v"
    "i_links_count (inode_of v ROOT_INO) = 2" using mounted_vfs by blast
  have "fresh_name ''a'' (dir_map v ROOT_INO)" using keys_ab(1) by (simp add: fresh_name_def v(3) key_of_def)
  from createfile_correct [OF v(2) _ this v(4), of 0 420 "(0, 0)"] show ?thesis using v(1,3,5) by auto
qed



lemma lookup_run:
  assumes d: "dir_ok v dir" and nd: "name \<noteq> ''.''" "name \<noteq> ''..''" and k: "0 < key_of name"
    and ex: "\<And>m. m \<in> dom (dir_map v dir) \<Longrightarrow> key_of m = key_of name \<Longrightarrow> m = name"
    and inos: "\<And>i. i \<in> ran (dir_map v dir) \<Longrightarrow> 0 < i \<and> i < bgn (v_fs v) * 4096"
  shows "\<exists>r d. lookup dir name v = Some (r, d) \<and> map_option d_ino d = dir_map v dir name \<and> r = (if dir_map v dir name = None then -1 else 0)"
proof -
  let ?n = "i_links_count (inode_of v dir)"
  have d0: "dir_at v dir ?n (dir_blocks ?n)" using d by (simp add: dir_ok_def)
  show ?thesis
  proof (cases "dir_map v dir name")
    case None
    then have "key_of name \<notin> key_of ` dom (entry_map (v_dir v dir) ?n)" using ex unfolding dir_map_def by (metis domIff imageE)
    from lookup_absent [OF d0 nd k this] None show ?thesis by simp
  next
    case (Some ino)
    then obtain i where i: "2 \<le> i" "i < ?n" "d_filename (v_dir v dir ! i) = name" "d_ino (v_dir v dir ! i) = ino"
      unfolding dir_map_def entry_map_iff [OF dir_atD(1) [OF d0]] by blast
    have "0 < ino \<and> ino < bgn (v_fs v) * 4096" by (rule inos) (use Some in \<open>auto intro: ranI\<close>)
    then have "lookup dir name v = Some (0, Some (v_dir v dir ! i))" using lookup_present [OF d0 i(1-3) k] i(4) by simp
    then show ?thesis using Some i(4) by simp
  qed
qed

text \<open>C9: \<open>nvfuse_lookup\<close> is the map of the directory.  For a name other than the two dots whose hash is
  not the one of another name in the directory it returns the entry with the inode number
  of the name and 0, or nothing and -1 when the name is not there.\<close>

theorem lookup_correct:
  assumes "dir_ok v dir" "name \<noteq> ''.''" "name \<noteq> ''..''" "0 < key_of name"
    and "\<And>m. m \<in> dom (dir_map v dir) \<Longrightarrow> key_of m = key_of name \<Longrightarrow> m = name"
    and "\<And>i. i \<in> ran (dir_map v dir) \<Longrightarrow> 0 < i \<and> i < bgn (v_fs v) * 4096"
  shows "\<exists>r d. lookup dir name v = Some (r, d) \<and> map_option d_ino d = dir_map v dir name \<and> r = (if dir_map v dir name = None then -1 else 0)"
  using assms by (rule lookup_run)

theorem lookup_correct_witness:
  "\<exists>v d. lookup ROOT_INO ''a'' v = Some (0, Some d) \<and> dir_map v ROOT_INO = [''a'' \<mapsto> d_ino d] \<and> lookup ROOT_INO ''b'' v = Some (-1, None)"
proof -
  obtain v ino where v: "dir_ok v ROOT_INO" "dir_map v ROOT_INO = [''a'' \<mapsto> ino]" "8 \<le> ino" "ino < bgn (v_fs v) * 4096"
    using one_file_vfs by blast
  obtain d where "lookup ROOT_INO ''a'' v = Some (0, Some d)" "d_ino d = ino"
    using lookup_correct [OF v(1), of "''a''"] keys_ab(1) v(2-4) by auto
  moreover have "lookup ROOT_INO ''b'' v = Some (-1, None)"
    using lookup_correct [OF v(1), of "''b''"] keys_ab(2,3) v(2-4) by auto
  ultimately show ?thesis using v(2) by auto
qed

text \<open>A lookup of the parent entry never returns.  The index answers 0 for the names of
  the two dots, the linear search takes over, and its inner loop compares the first entry
  again and again.\<close>

theorem lookup_dotdot_diverges:
  assumes "dir_ok v dir"
  shows "lookup dir ''..'' v = None"
proof -
  let ?n = "i_links_count (inode_of v dir)"
  have d: "dir_at v dir ?n (dir_blocks ?n)" using assms by (simp add: dir_ok_def)
  note f = dir_atD [OF d] and e = entries_okD [OF dir_atD(1) [OF d]]
  have "is_dot (name_bytes ''..'')" by (simp add: name_bytes_dot)
  then have "index_get dir ''..'' v = Some (0, 0)" using f(12) by (simp add: index_get_def Let_def nvfuse_get_dir_indexing_def)
  moreover have "0 < dir_blocks ?n" "v_dir v dir \<noteq> []" using e(1-3) by auto
  moreover have "\<not> is_named ''..'' (v_dir v dir ! 0)" using e(6) by (simp add: is_named_def)
  ultimately show ?thesis using f by (intro lookup_scan_stuck) auto
qed

theorem lookup_dotdot_diverges_witness:
  "\<exists>v. create_bptree ROOT_INO formatted_vfs = Some (0, v) \<and> lookup ROOT_INO ''..'' v = None"
  using mounted_vfs lookup_dotdot_diverges by blast

text \<open>C38: a hard link overwrites the last entry of the directory.  \<open>nvfuse_link\<close> looks for an
  empty entry and then writes the one of \<open>i_ptr\<close>, the last used entry.  A name that
  was in the directory is in none of its entries afterwards, and a lookup of this name
  stops the process, because its index still leads to the overwritten entry.\<close>

theorem link_overwrites_last_entry:
  assumes d: "dir_ok v dir" and n: "3 \<le> i_links_count (inode_of v dir)" "i_links_count (inode_of v dir) < 320"
    and fresh: "fresh_name name (dir_map v dir)" and free: "4 \<le> sb_free_blocks (fs_sb (v_fs v))"
    and len: "1 \<le> length name" "length name < 116" and ino: "ino \<noteq> dir" "ROOT_INO \<le> ino" "i_ino (inode_of v ino) = ino"
  shows "\<exists>v' x. link dir name ino v = Some (0, v') \<and> x \<in> dom (dir_map v dir) \<and> (\<forall>e\<in>set (v_dir v' dir). \<not> is_named x e)
    \<and> lookup dir x v' = None"
proof -
  define n where "n = i_links_count (inode_of v dir)"
  have d0: "dir_at v dir n (dir_blocks n)" using d by (simp add: dir_ok_def n_def)
  have dm0: "dir_map v dir = entry_map (v_dir v dir) n" by (simp add: dir_map_def n_def)
  note fk = fresh_key [OF fresh, unfolded dm0]
  have lk: "lookup dir name v = Some (-1, None)" by (rule lookup_absent [OF d0]) (use fk in blast)+
  obtain v1 where v1: "find_empty_dentry dir v = Some (n, v1)" "dir_at v1 dir n (dir_blocks (n + 1))"
    "entry_map (v_dir v1 dir) n = entry_map (v_dir v dir) n" "others_same v {dir} v1"
    using find_empty_correct [OF d0 _ free] n(2) by (auto simp: n_def)
  note f = dir_atD [OF v1(2)] and e = entries_okD [OF dir_atD(1) [OF v1(2)]]
  let ?bp = "i_bpino (inode_of v1 dir)" and ?D = "entry_index (v_dir v1 dir) n"
  define p where "p = n - 1"
  have p: "2 \<le> p" "p < n" "p < 32 * dir_blocks (n + 1)" using n e(2) by (simp_all add: p_def n_def)
  define x where "x = d_filename (v_dir v1 dir ! p)"
  have x: "x \<in> dom (dir_map v dir)" "?D (name_bytes x) = Some p" "0 < key_of x"
    using p find_existing_correct [OF v1(2) p(1,2)] by (auto simp: x_def dm0 v1(3) [symmetric] dom_def entry_map_iff [OF f(1)])
  have nx: "name \<noteq> x" using fresh x(1) by (auto simp: fresh_name_def)
  have xd: "x \<noteq> ''.''" "x \<noteq> ''..''" using e(5) [of p 0] e(5) [of p 1] e(6,7) p by (auto simp: x_def)
  have i1: "inode_of v1 ino = inode_of v ino" using v1(4) ino(1) by (simp add: others_same_def)
  define v3 where "v3 = set_inode ino ((inode_of v ino)\<lparr>i_links_count := u32_add (i_links_count (inode_of v ino)) 1\<rparr>)
    (set_inode dir ((inode_of v1 dir)\<lparr>i_links_count := u32_add n 1\<rparr>) v1)"
  define de where "de = (v_dir v1 dir ! p)\<lparr>d_flag := DIR_USED, d_ino := ino, d_version := i_version (inode_of v ino), d_filename := name\<rparr>"
  define v4 where "v4 = put_dentry dir p de v3"
  have i4: "inode_of v4 dir = (inode_of v1 dir)\<lparr>i_links_count := u32_add n 1\<rparr>" using ino(1) by (simp add: v4_def v3_def)
  have "name_bytes name \<notin> dom ?D" "dir_key (name_bytes name) \<notin> dir_key ` dom ?D"
    using fk fresh by (auto simp: entry_index_dom [OF f(1)] v1(3) key_of_def fresh_name_def dm0)
  then have "\<exists>t. index_set dir name p v4 = Some (v4\<lparr>v_tree := (v_tree v4)(?bp := t)\<rparr>) \<and> index_exact t (?D(name_bytes name \<mapsto> p))"
    by (intro index_set_correct)
      (use f(12,13) fk p(2) n(2) i4 entry_index_size [OF f(1)] in \<open>auto simp: v4_def v3_def item_defs FANOUT_def key_of_def n_def\<close>)
  then obtain t where t: "index_set dir name p v4 = Some (v4\<lparr>v_tree := (v_tree v4)(?bp := t)\<rparr>)" "index_exact t (?D(name_bytes name \<mapsto> p))" by blast
  define v' where "v' = v4\<lparr>v_tree := (v_tree v4)(?bp := t)\<rparr>"
  have at: "dentry_at dir p v3 = Some (v_dir v1 dir ! p)" using e(3) p(3) by (simp add: dentry_at_def v3_def)
  have run: "link dir name ino v = Some (0, v')"
  proof -
    have nl: "(length name < 1 \<or> FNAME_SIZE \<le> length name) = False" "(i_links_count (inode_of v dir) = MAX_FILES_PER_DIR) = False"
      using len n(2) by (auto simp: FNAME_SIZE_def MAX_FILES_PER_DIR_def)
    define v2 where "v2 = set_inode dir ((inode_of v1 dir)\<lparr>i_links_count := u32_add n 1\<rparr>) v1"
    have rd: "read_inode ino v2 = Some (inode_of v ino)" using ino i1 by (simp add: read_inode_def v2_def)
    have ip: "i_ptr (inode_of v1 dir) = p" using f(10) by (simp add: p_def)
    have m1: "((-1::int) = 0) = False" by simp
    show ?thesis
      unfolding link_def nl if_False lk Option.bind_lunit split_conv m1 dir_at_read [OF d0] v1(1) Let_def f(9) ip v2_def [symmetric] rd
        v3_def [folded v2_def, symmetric] at de_def [symmetric] v4_def [symmetric] t(1) v'_def [symmetric] ..
  qed
  have vd: "v_dir v' dir = (v_dir v1 dir)[p := de]" by (simp add: v'_def v4_def v3_def)
  have gone: "\<not> is_named x (v_dir v' dir ! i)" if "i < 32 * dir_blocks (n + 1)" for i
    using that e(3) e(4) [OF that] e(5) [of i p] p nx by (auto simp: vd nth_list_update is_named_def de_def x_def)
  have D: "(?D(name_bytes name \<mapsto> p)) (name_bytes x) = Some p" using nx x(2) by simp
  then have "dir_key (name_bytes x) \<in> dir_key ` dom (?D(name_bytes name \<mapsto> p))" by blast
  then have "\<exists>r q. nvfuse_get_dir_indexing (name_bytes x) t = Some (r, q, t) \<and> r = 0 \<and> q = p"
    using get_exact [OF t(2), of "name_bytes x"] D x(3) xd by (auto simp: name_bytes_dot key_of_def)
  then have g: "index_get dir x v' = Some (0, p)" using f(12) i4 by (simp add: index_get_def Let_def v'_def)
  have "dentry_at dir p v' = Some de" using e(3) p(3) by (simp add: dentry_at_def vd)
  moreover have "\<not> is_named x de" using nx by (simp add: is_named_def de_def)
  moreover have "read_inode dir v' = Some (inode_of v' dir)" "i_bpino (inode_of v' dir) \<noteq> 0" "ROOT_INO \<le> dir"
    using f(4,5,12) i4 by (simp_all add: read_inode_def v'_def)
  ultimately have "lookup dir x v' = None" using g p(1) by (simp add: lookup_def lookup_bptree_def)
  moreover have "\<forall>e\<in>set (v_dir v' dir). \<not> is_named x e" using gone e(3) by (auto simp: in_set_conv_nth vd)
  ultimately show ?thesis using run x(1) by blast
qed

theorem link_overwrites_last_entry_witness:
  "\<exists>v ino v'. dir_map v ROOT_INO = [''a'' \<mapsto> ino] \<and> link ROOT_INO ''b'' ino v = Some (0, v') \<and> lookup ROOT_INO ''a'' v' = None"
proof -
  obtain v ino where v: "dir_ok v ROOT_INO" "dir_map v ROOT_INO = [''a'' \<mapsto> ino]" "8 \<le> ino" "i_ino (inode_of v ino) = ino"
    "i_links_count (inode_of v ROOT_INO) = 3" "4 \<le> sb_free_blocks (fs_sb (v_fs v))" using one_file_vfs by blast
  have "fresh_name ''b'' (dir_map v ROOT_INO)" using keys_ab(2,3) by (simp add: fresh_name_def v(2) key_of_def)
  then show ?thesis using link_overwrites_last_entry [OF v(1), of "''b''" ino] v(2-6) by (auto simp: ROOT_INO_def)
qed

end
