(* ===== verification/NewDir.thy ===== *)
theory NewDir
  imports NameSpace
begin

text \<open>
  New directories.  \<open>nvfuse_mkdir\<close> only makes the entry and the inode; the first block of the
  new directory, with the entries for itself and its parent, and its index are made when the
  first name is added to it (\<open>nvfuse_make_first_directory\<close>, \<open>nvfuse_create_bptree\<close>).  \<open>new_dir\<close>
  is the state in between.
\<close>

section \<open>Directories without a block\<close>

definition new_dir :: "vfs \<Rightarrow> nat \<Rightarrow> bool" where
  "new_dir v dir \<longleftrightarrow> i_ino (inode_of v dir) = dir \<and> ROOT_INO \<le> dir \<and> dir < bgn (v_fs v) * 4096 \<and> inode_used (v_fs v) dir
     \<and> i_type (inode_of v dir) = NVFUSE_TYPE_DIRECTORY \<and> i_links_count (inode_of v dir) = 2 \<and> i_ptr (inode_of v dir) = 1
     \<and> i_size (inode_of v dir) = 0 \<and> i_bpino (inode_of v dir) = 0 \<and> i_blocks (inode_of v dir) = replicate 14 0
     \<and> tree_inv (file_map v dir)"

text \<open>The buffer that \<open>nvfuse_make_first_directory\<close> gets has no entry that looks used; it is
  neither read nor cleared.\<close>

definition stale_clean :: "vfs \<Rightarrow> bool" where
  "stale_clean v \<longleftrightarrow> length (v_stale v) = 32 \<and> (\<forall>i<32. 2 \<le> i \<longrightarrow> d_flag (v_stale v ! i) \<noteq> DIR_USED)"

section \<open>Making a directory\<close>

lemma mkdir_run:
  assumes d: "dir_ok v dir" and n: "i_links_count (inode_of v dir) < 320" and fresh: "fresh_name name (dir_map v dir)"
    and can: "can_create v" and l: "1 \<le> length name" "length name < 116"
  shows "\<exists>ino v'. mkdir now dir name mode v = Some (0, ino, v') \<and> dir_ok v' dir \<and> dir_map v' dir = (dir_map v dir)(name \<mapsto> ino)
    \<and> \<not> inode_used (v_fs v) ino \<and> new_dir v' ino \<and> inode_of v' ino = new_dir_inode now mode (zero_inode\<lparr>i_ino := ino, i_version := 1\<rparr>)
    \<and> others_same v {dir, ino} v' \<and> one_inode_taken (v_fs v) ino (v_fs v') \<and> one_block_less (v_fs v) (v_fs v')"
proof -
  define k where "k = i_links_count (inode_of v dir)"
  have d0: "dir_at v dir k (dir_blocks k)" using d by (simp add: dir_ok_def k_def)
  note f = dir_atD [OF d0]
  have fk: "name \<noteq> ''.''" "name \<noteq> ''..''" "0 < key_of name" "key_of name \<notin> key_of ` dom (entry_map (v_dir v dir) k)"
    using fresh_key [OF fresh] by (simp_all add: dir_map_def k_def)
  have lk: "lookup dir name v = Some (-1, None)" by (rule lookup_absent [OF d0 fk])
  have "2 \<le> k" "k < 320" using entries_okD(1) [OF f(1)] n by (simp_all add: k_def)
  then have ptr: "u32_add (i_ptr (inode_of v dir)) 1 = i_links_count (inode_of v dir)"
    by (simp add: u32_add_def f(9,10))
  have run: "mkdir now dir name mode v = make_entry (new_dir_inode now mode) dir name v"
    using l n lk ptr dir_at_read [OF d0] by (auto simp: mkdir_def FNAME_SIZE_def MAX_FILES_PER_DIR_def)
  obtain ino v' where v': "make_entry (new_dir_inode now mode) dir name v = Some (0, ino, v')" "dir_ok v' dir"
    "dir_map v' dir = (dir_map v dir)(name \<mapsto> ino)" "\<not> inode_used (v_fs v) ino" "inode_used (v_fs v') ino" "8 \<le> ino"
    "ino < bgn (v_fs v) * 4096" "inode_of v' ino = new_dir_inode now mode (zero_inode\<lparr>i_ino := ino, i_version := 1\<rparr>)"
    "others_same v {dir, ino} v'" "one_inode_taken (v_fs v) ino (v_fs v')" "one_block_less (v_fs v) (v_fs v')"
    using make_entry_strong [OF d n fresh can, of "new_dir_inode now mode"] by (auto simp: new_dir_inode_def)
  have i: "i_ino (inode_of v' ino) = ino" "i_type (inode_of v' ino) = NVFUSE_TYPE_DIRECTORY" "i_links_count (inode_of v' ino) = 2"
    "i_ptr (inode_of v' ino) = 1" "i_size (inode_of v' ino) = 0" "i_bpino (inode_of v' ino) = 0" "i_blocks (inode_of v' ino) = replicate 14 0"
    by (simp_all add: v'(8) new_dir_inode_def zero_inode_def)
  have d': "dir_at v' dir (i_links_count (inode_of v' dir)) (dir_blocks (i_links_count (inode_of v' dir)))"
    using v'(2) by (simp add: dir_ok_def)
  have "tree_inv (file_map v' ino)"
    by (rule zero_file_inv [OF dir_atD(14) [OF d']]) (use dir_at_fs [OF d'] i(7) in auto)
  then have "new_dir v' ino" using i v'(5,6,7,10) by (simp add: new_dir_def one_inode_taken_def ROOT_INO_def)
  then show ?thesis using run v' by metis
qed

section \<open>The first name\<close>

lemma dot_entries_ok:
  assumes "stale_clean v"
  shows "entries_ok (dot_entries ino (v_stale v)) 2 1"
proof -
  let ?es = "dot_entries ino (v_stale v)"
  have l: "length (v_stale v) = 32" using assms by (simp add: stale_clean_def)
  have "d_flag (?es ! i) = DIR_USED \<longleftrightarrow> i < 2" if "i < 32" for i
    using assms that l by (cases "i = 0"; cases "i = 1") (auto simp: dot_entries_def stale_clean_def)
  moreover have "take 2 ?es = [?es ! 0, ?es ! 1]"
    using l by (simp add: numeral_2_eq_2 take_Suc_conv_app_nth dot_entries_def)
  ultimately show ?thesis using l by (simp add: entries_ok_def) (simp add: dot_entries_def)
qed

lemma make_first_directory_correct:
  assumes d: "new_dir v dir" and s: "stale_clean v" and free: "4 \<le> sb_free_blocks (fs_sb (v_fs v))"
  shows "\<exists>v1. make_first_directory dir v = Some (0, v1) \<and> dir_body v1 dir 2 1 \<and> i_bpino (inode_of v1 dir) = 0
    \<and> others_same v {dir} v1 \<and> same_inodes_fs (v_fs v) (v_fs v1)
    \<and> sb_free_blocks (fs_sb (v_fs v1)) = sb_free_blocks (fs_sb (v_fs v)) - 1"
proof -
  have f: "i_ino (inode_of v dir) = dir" "ROOT_INO \<le> dir" "dir < bgn (v_fs v) * 4096" "inode_used (v_fs v) dir"
    "i_type (inode_of v dir) = NVFUSE_TYPE_DIRECTORY" "i_links_count (inode_of v dir) = 2" "i_ptr (inode_of v dir) = 1"
    "i_size (inode_of v dir) = 0" "i_bpino (inode_of v dir) = 0" "i_blocks (inode_of v dir) = replicate 14 0"
    "tree_inv (file_map v dir)" using d by (simp_all add: new_dir_def)
  let ?ip = "inode_of v dir"
  have "\<exists>b t'. get_block dir (int 0) 1 True (file_map v dir) = Some (0, 1, b, t') \<and> b \<noteq> 0 \<and> bm_ib t' = (bm_ib (file_map v dir))[0 := b]
    \<and> alloc_post (bm_fs (file_map v dir)) [b] (bm_fs t') \<and> tree_inv t'"
    by (rule get_block_direct [OF f(11)]) (use f(3,10) free in \<open>auto simp: file_map_def\<close>)
  then obtain b t where g: "get_block dir 0 1 True (file_map v dir) = Some (0, 1, b, t)" "bm_ib t = (replicate 14 0)[0 := b]"
    "alloc_post (v_fs v) [b] (bm_fs t)" "tree_inv t" using f(10) by (auto simp: file_map_def)
  have it: "fs_itable (bm_fs t) = fs_itable (v_fs v)" "fs_ibm (bm_fs t) = fs_ibm (v_fs v)" "bgn (bm_fs t) = bgn (v_fs v)"
    "sb_free_inodes (fs_sb (bm_fs t)) = sb_free_inodes (fs_sb (v_fs v))" "fs_last_ino (bm_fs t) = fs_last_ino (v_fs v)"
    "sb_free_blocks (fs_sb (bm_fs t)) = sb_free_blocks (fs_sb (v_fs v)) - 1"
    using g(3) by (simp_all add: alloc_post_def)
  define v1 where "v1 = set_inode dir (?ip\<lparr>i_blocks := bm_ib t, i_size := 4096\<rparr>)
    (v\<lparr>v_fs := bm_fs t, v_mb := bm_mb t, v_dir := (v_dir v)(dir := dot_entries dir (v_stale v))\<rparr>)"
  have "alloc_block dir 0 v = Some (0, put_map dir t v)" by (simp add: alloc_block_def g(1) del: One_nat_def)
  moreover have "inode_of (put_map dir t v) dir = ?ip\<lparr>i_blocks := bm_ib t\<rparr>" by (simp add: put_map_def inode_of_def it(1))
  ultimately have run: "make_first_directory dir v = Some (0, v1)"
    using f(1,8) by (simp add: make_first_directory_def v1_def put_map_def set_inode_def)
  have ip1: "inode_of v1 dir = ?ip\<lparr>i_blocks := bm_ib t, i_size := 4096\<rparr>" by (simp add: v1_def)
  have fm: "file_map v1 dir = t\<lparr>bm_fs := v_fs v1\<rparr>" by (simp add: file_map_def ip1 v1_def)
  have "tree_inv (file_map v1 dir)" unfolding fm
    by (rule tree_inv_fs [OF g(4)]) (use g(4) in \<open>auto simp: v1_def tree_inv_def data_block_def\<close>)
  moreover have "i_blocks (inode_of v1 dir) ! l = 0" if "1 \<le> l" "l < 14" for l using that by (simp add: ip1 g(2))
  moreover have "bgn (v_fs v1) = bgn (v_fs v)" "inode_used (v_fs v1) dir" using it f(4) by (simp_all add: v1_def inode_used_def)
  moreover have "entries_ok (v_dir v1 dir) 2 1" using dot_entries_ok [OF s] by (simp add: v1_def)
  ultimately have "dir_body v1 dir 2 1" unfolding dir_body_def using f by (simp add: ip1)
  moreover have "others_same v {dir} v1" by (simp add: others_same_def v1_def) (simp add: inode_of_def it(1))
  moreover have "same_inodes_fs (v_fs v) (v_fs v1)" using it by (simp add: same_inodes_fs_def v1_def)
  moreover have "sb_free_blocks (fs_sb (v_fs v1)) = sb_free_blocks (fs_sb (v_fs v)) - 1" using it(6) by (simp add: v1_def)
  ultimately show ?thesis using run f(9) by (auto simp: ip1)
qed

lemma find_empty_second:
  assumes "dir_body v dir 2 1"
  shows "find_empty_dentry dir v = Some (2, v)"
proof -
  have f: "entries_ok (v_dir v dir) 2 1" "i_links_count (inode_of v dir) = 2" "i_size (inode_of v dir) = 4096"
    using assms by (auto simp: dir_body_def)
  have "scan_block 32 dir 0 1 v = Some (Some 2, 2)" using scan_block_hit [OF f(1), of 1 0] by simp
  then have "scan_blocks (Suc 0) dir 1 0 1 v = Some (Some 2, 2)" by simp
  then have "find_retry dir 0 1 v = Some (2, v)"
    by (subst find_retry.simps) (simp add: f Let_def)
  then show ?thesis by (simp add: find_empty_dentry_def f u32_sub_small)
qed

text \<open>The conditions for the first name: two inodes, the next one at the hint, and the blocks
  of the directory, of its index and of the new entry.\<close>

definition can_create_first :: "vfs \<Rightarrow> bool" where
  "can_create_first v \<longleftrightarrow> fs_last_ino (v_fs v) + 1 < bgn (v_fs v) * 4096 \<and> \<not> inode_used (v_fs v) (fs_last_ino (v_fs v))
     \<and> 2 \<le> sb_free_inodes (fs_sb (v_fs v)) \<and> 7 \<le> sb_free_blocks (fs_sb (v_fs v))"

lemma new_dir_fs:
  assumes "new_dir v dir"
  shows "alloc_inv (v_fs v)" "fs_primary (v_fs v)" "first_entry dir v"
  using assms by (simp_all add: new_dir_def tree_inv_def file_map_def first_entry_def)

lemma make_entry_first:
  assumes d: "new_dir v dir" and s: "stale_clean v" and can: "can_create_first v"
    and name: "name \<noteq> ''.''" "name \<noteq> ''..''" "0 < key_of name"
    and init: "\<And>ip. i_version (init ip) = i_version ip"
  shows "\<exists>ino v'. make_entry init dir name v = Some (0, ino, v') \<and> dir_ok v' dir \<and> dir_map v' dir = [name \<mapsto> ino]
    \<and> \<not> inode_used (v_fs v) ino \<and> inode_used (v_fs v') ino \<and> inode_of v' ino = init (zero_inode\<lparr>i_ino := ino, i_version := 1\<rparr>)
    \<and> others_same v {dir, ino, fs_last_ino (v_fs v)} v'"
proof -
  have can': "fs_last_ino (v_fs v) + 1 < bgn (v_fs v) * 4096" "\<not> inode_used (v_fs v) (fs_last_ino (v_fs v))"
    "2 \<le> sb_free_inodes (fs_sb (v_fs v))" "7 \<le> sb_free_blocks (fs_sb (v_fs v))" using can by (simp_all add: can_create_first_def)
  obtain v1 where v1: "make_first_directory dir v = Some (0, v1)" "dir_body v1 dir 2 1" "i_bpino (inode_of v1 dir) = 0"
    "others_same v {dir} v1" "same_inodes_fs (v_fs v) (v_fs v1)"
    "sb_free_blocks (fs_sb (v_fs v1)) = sb_free_blocks (fs_sb (v_fs v)) - 1"
    using make_first_directory_correct [OF d s] can'(4) by auto
  have sf: "fs_ibm (v_fs v1) = fs_ibm (v_fs v)" "sb_free_inodes (fs_sb (v_fs v1)) = sb_free_inodes (fs_sb (v_fs v))"
    "fs_last_ino (v_fs v1) = fs_last_ino (v_fs v)" "bgn (v_fs v1) = bgn (v_fs v)" using v1(5) by (simp_all add: same_inodes_fs_def)
  have used: "inode_used (v_fs v1) = inode_used (v_fs v)" by (simp add: inode_used_def sf(1) fun_eq_iff)
  obtain bp t v3 where v3: "create_bptree dir v1 = Some (0, v3)" "dir_ok v3 dir" "dir_map v3 dir = Map.empty"
    "alloc_new_inode (v_fs v1) = Some (bp, t)" "fs_last_ino (v_fs v3) = bp + 1" "i_bpino (inode_of v3 dir) = bp"
    "others_same v1 {dir, bp} v3" "inode_of v3 dir = (inode_of v1 dir)\<lparr>i_bpino := bp\<rparr>" "bgn (v_fs v3) = bgn (v_fs v1)"
    "sb_free_inodes (fs_sb (v_fs v3)) = sb_free_inodes (fs_sb (v_fs v1)) - 1"
    "sb_free_blocks (fs_sb (v_fs v3)) = sb_free_blocks (fs_sb (v_fs v1)) - 2" "one_inode_taken (v_fs v1) bp (v_fs v3)"
    using create_bptree_correct [OF v1(2)] sf can' v1(6) by auto
  have bp: "bp = fs_last_ino (v_fs v)"
    using v3(12) sf(3) can'(2) used by (simp add: one_inode_taken_def)
  have lk: "i_links_count (inode_of v3 dir) = 2" using v1(2) v3(8) by (simp add: dir_body_def)
  have b3: "dir_body v3 dir 2 1" using v3(2) lk by (simp add: dir_ok_def dir_at_body dir_blocks_def)
  have bp0: "bp \<noteq> 0" using b3 v3(2) v3(6) lk by (simp add: dir_ok_def dir_at_body)
  have fe: "first_entry dir v1" "\<not> first_entry dir v3"
    using v1(2,3) v3(6) bp0 by (simp_all add: first_entry_def dir_body_def)
  have eq: "make_entry init dir name v = make_entry init dir name v3"
    using new_dir_fs(3) [OF d] fe v1(1) v3(1) find_empty_second [OF v1(2)] find_empty_second [OF b3]
    by (simp add: make_entry_def)
  have fresh: "fresh_name name (dir_map v3 dir)" using name by (simp add: v3(3) fresh_name_def key_of_def)
  have cc: "can_create v3" using v3(5,9,10,11) sf v1(6) can' bp by (simp add: can_create_def)
  obtain ino v' where v': "make_entry init dir name v3 = Some (0, ino, v')" "dir_ok v' dir" "dir_map v' dir = [name \<mapsto> ino]"
    "\<not> inode_used (v_fs v3) ino" "inode_used (v_fs v') ino" "ino < bgn (v_fs v3) * 4096"
    "inode_of v' ino = init (zero_inode\<lparr>i_ino := ino, i_version := 1\<rparr>)" "others_same v3 {dir, ino} v'"
    using make_entry_strong [OF v3(2) _ fresh cc, of init] lk init v3(3) by auto
  have "\<not> inode_used (v_fs v) ino" using v'(4,6) v3(9,12) used by (auto simp: one_inode_taken_def)
  moreover have "others_same v {dir, ino, bp} v'"
    using v1(4) v3(7) v'(8) by (simp add: others_same_def)
  ultimately show ?thesis using eq v' bp by auto
qed

lemma createfile_first_run:
  assumes d: "new_dir v dir" and "stale_clean v" "can_create_first v" "name \<noteq> ''.''" "name \<noteq> ''..''" "0 < key_of name"
    and l: "1 \<le> length name" "length name < 116"
  shows "\<exists>ino v'. createfile now dir name mode dev v = Some (0, ino, v') \<and> dir_ok v' dir \<and> dir_map v' dir = [name \<mapsto> ino]
    \<and> \<not> inode_used (v_fs v) ino \<and> inode_used (v_fs v') ino
    \<and> inode_of v' ino = new_file_inode now mode dev (zero_inode\<lparr>i_ino := ino, i_version := 1\<rparr>)
    \<and> others_same v {dir, ino, fs_last_ino (v_fs v)} v'"
proof -
  have "createfile now dir name mode dev v = make_entry (new_file_inode now mode dev) dir name v"
    using d l by (auto simp: createfile_def FNAME_SIZE_def MAX_FILES_PER_DIR_def read_inode_def new_dir_def ROOT_INO_def)
  then show ?thesis using make_entry_first [OF assms(1-6), of "new_file_inode now mode dev"] by (simp add: new_file_inode_def)
qed

section \<open>A new directory in a formatted file system\<close>

lemma formatted_used: "j < 8192 \<Longrightarrow> inode_used (v_fs formatted_vfs) j \<Longrightarrow> j < 8"
proof -
  assume j: "j < 8192" "inode_used (v_fs formatted_vfs) j"
  have two: "[0..<2] = [0, 1::nat]" by (simp add: upt_rec)
  have r: "tst root_ibm k \<longleftrightarrow> k < 8" if "k < 4096" for k
    using bm.get_fold_put1 [of "[0..<NUM_RESV_INO]" zero_bitmap k] that zero_bitmap_bits by (auto simp: NUM_RESV_INO_def)
  show "j < 8"
  proof (cases "j < 4096")
    case True
    then show ?thesis using j(2) r by (simp add: inode_used_def formatted_vfs_def formatted_fs_def two)
  next
    case False
    then have "j div 4096 = 1" using j(1) by linarith
    then show ?thesis using j(2) zero_bitmap_bits by (simp add: inode_used_def formatted_vfs_def formatted_fs_def two)
  qed
qed

lemma new_dir_vfs: "\<exists>v sub. new_dir v sub \<and> stale_clean v \<and> can_create_first v"
proof -
  have c: "fs_last_ino (v_fs formatted_vfs) = 0" "bgn (v_fs formatted_vfs) = 2" "sb_free_inodes (fs_sb (v_fs formatted_vfs)) = 8184"
    "sb_free_blocks (fs_sb (v_fs formatted_vfs)) = 57335"
    "alloc_inv (v_fs formatted_vfs)" "fs_primary (v_fs formatted_vfs)" "bd_free_inodes (fs_bds (v_fs formatted_vfs) ! 0) \<noteq> 0"
    using formatted_fs_inv [of 2 0] by (simp_all add: formatted_vfs_def formatted_fs_def formatted_sb_def upt_rec)
  obtain i1 s v where v: "dir_ok v ROOT_INO" "dir_map v ROOT_INO = Map.empty" "alloc_new_inode (v_fs formatted_vfs) = Some (i1, s)"
    "inode_of v ROOT_INO = (inode_of formatted_vfs ROOT_INO)\<lparr>i_bpino := i1\<rparr>" "\<not> inode_used (v_fs formatted_vfs) i1"
    "sb_free_blocks (fs_sb (v_fs v)) = sb_free_blocks (fs_sb (v_fs formatted_vfs)) - 2"
    "one_inode_taken (v_fs formatted_vfs) i1 (v_fs v)"
    using create_bptree_correct [OF formatted_body] c by auto
  have i1: "i1 < 4096" using alloc_first_group [OF c(5,6) _ _ c(7) v(3)] c(1,2) by simp
  have i8: "8 \<le> i1" using alloc_new_inode_spec [OF c(5,6)] c v(3) by auto
  have t1: "fs_last_ino (v_fs v) = i1 + 1" "bgn (v_fs v) = 2" "sb_free_inodes (fs_sb (v_fs v)) = 8183"
    "\<And>j. j < 8192 \<Longrightarrow> inode_used (v_fs v) j \<Longrightarrow> j < 8 \<or> j = i1"
    using v(7) c(2,3) formatted_used by (auto simp: one_inode_taken_def)
  have lk: "i_links_count (inode_of v ROOT_INO) = 2" using formatted_body v(4) by (simp add: dir_body_def)
  have can: "can_create v" using t1 i1 v(6) c(4) by (simp add: can_create_def)
  have fr: "fresh_name ''a'' (dir_map v ROOT_INO)" using keys_ab(1) by (simp add: fresh_name_def v(2) key_of_def)
  obtain sub w where w: "mkdir 0 ROOT_INO ''a'' 493 v = Some (0, sub, w)" "new_dir w sub" "\<not> inode_used (v_fs v) sub"
    "one_inode_taken (v_fs v) sub (v_fs w)" "one_block_less (v_fs v) (v_fs w)"
    using mkdir_run [OF v(1) _ fr can, of 0 493] lk by auto
  have "\<not> inode_used (v_fs v) (i1 + 1)" using t1(4) [of "i1 + 1"] i1 i8 by auto
  then have sub: "sub = i1 + 1" using w(4) t1(1) by (simp add: one_inode_taken_def)
  have t2: "fs_last_ino (v_fs w) = i1 + 2" "bgn (v_fs w) = 2" "sb_free_inodes (fs_sb (v_fs w)) = 8182"
    "inode_used (v_fs w) (i1 + 2) \<longleftrightarrow> inode_used (v_fs v) (i1 + 2)"
    using w(4) t1 sub i1 by (auto simp: one_inode_taken_def)
  have "\<not> inode_used (v_fs w) (i1 + 2)" using t2(4) t1(4) [of "i1 + 2"] i1 i8 by auto
  moreover have "7 \<le> sb_free_blocks (fs_sb (v_fs w))" using w(5) v(6) c(4) by (simp add: one_block_less_def)
  ultimately have can2: "can_create_first w" using t2(1-3) i1 by (simp add: can_create_first_def)
  define w' where "w' = w\<lparr>v_stale := replicate 32 zero_dentry\<rparr>"
  have "inode_of w' = inode_of w" "file_map w' sub = file_map w sub" "v_fs w' = v_fs w"
    by (simp_all add: w'_def inode_of_def file_map_def fun_eq_iff)
  then have "new_dir w' sub" "can_create_first w'" using w(2) can2 by (simp_all add: new_dir_def can_create_first_def)
  moreover have "stale_clean w'" by (simp add: stale_clean_def w'_def zero_dentry_def)
  ultimately show ?thesis by blast
qed

section \<open>Properties\<close>

text \<open>C3: \<open>nvfuse_mkdir\<close> adds a directory to a directory.  Under the conditions of
  \<open>nvfuse_createfile\<close> it finds that the name is not there, and returns success: the map of the
  parent gets the name with an inode that was free, the new inode is an empty directory with
  two links, no block and no index, the parent stays consistent, one inode has been taken,
  and nothing else has changed.\<close>

theorem mkdir_correct:
  assumes "dir_ok v dir" "i_links_count (inode_of v dir) < 320" "fresh_name name (dir_map v dir)" "can_create v"
    "1 \<le> length name" "length name < 116"
  shows "\<exists>ino v'. mkdir now dir name mode v = Some (0, ino, v') \<and> dir_ok v' dir \<and> dir_map v' dir = (dir_map v dir)(name \<mapsto> ino)
    \<and> \<not> inode_used (v_fs v) ino \<and> new_dir v' ino \<and> inode_of v' ino = new_dir_inode now mode (zero_inode\<lparr>i_ino := ino, i_version := 1\<rparr>)
    \<and> others_same v {dir, ino} v' \<and> one_inode_taken (v_fs v) ino (v_fs v')"
  using mkdir_run [OF assms] by blast

theorem mkdir_correct_witness:
  "\<exists>v sub v'. create_bptree ROOT_INO formatted_vfs = Some (0, v) \<and> mkdir 0 ROOT_INO ''a'' 493 v = Some (0, sub, v')
    \<and> dir_map v' ROOT_INO = [''a'' \<mapsto> sub] \<and> new_dir v' sub"
proof -
  obtain v where v: "create_bptree ROOT_INO formatted_vfs = Some (0, v)" "dir_ok v ROOT_INO" "dir_map v ROOT_INO = Map.empty" "can_create v"
    "i_links_count (inode_of v ROOT_INO) = 2" using mounted_vfs by blast
  have "fresh_name ''a'' (dir_map v ROOT_INO)" using keys_ab(1) by (simp add: fresh_name_def v(3) key_of_def)
  from mkdir_correct [OF v(2) _ this v(4), of 0 493] show ?thesis using v(1,3,5) by auto
qed



end
