(* ===== verification/FileIo.thy ===== *)
theory FileIo
  imports NameSpace Mount
begin

text \<open>
  Open files, reads and writes: \<open>nvfuse_openfile\<close>, \<open>nvfuse_readfile_core\<close>,
  \<open>nvfuse_writefile_core\<close>, their variants for direct transfers, truncation,
  preallocation and symbolic links of \<open>nvfuse_api.c\<close>, and the seeks of \<open>nvfuse_core.c\<close>.

  The state adds to the one of \<open>Directory\<close> the table of open files and the contents of
  the data blocks: \<open>io_blk\<close> is what the buffer cache presents for a physical block (by the
  refinement of \<open>BufferCache\<close> a read returns the last block written), \<open>io_dev\<close> is what the
  device holds.  A buffer that a truncation drops takes its changes along, so the two agree
  on blocks that are not in use, and a block that gets new in a file shows old contents.  \<open>sync_all\<close> is the flush that
  every call may end with.  Blocks are lists of 4096 bytes.
\<close>

section \<open>State\<close>

record fio =
  io_v :: vfs
  io_ft :: "file_table list"
  io_blk :: "nat \<Rightarrow> u8 list"
  io_dev :: "nat \<Rightarrow> u8 list"

definition put_ft :: "nat \<Rightarrow> file_table \<Rightarrow> fio \<Rightarrow> fio" where
  "put_ft fid ft s = s\<lparr>io_ft := (io_ft s)[fid := ft]\<rparr>"

definition isize :: "fio \<Rightarrow> nat \<Rightarrow> int" where
  "isize s ino = i_size (inode_of (io_v s) ino)"

definition sync_all :: "fio \<Rightarrow> fio" where
  "sync_all s = s\<lparr>io_dev := io_blk s\<rparr>"

text \<open>\<open>nvfuse_get_bh\<close>: the translation of \<open>nvfuse_get_pbn\<close>, which has to give a block.\<close>

definition block_of :: "nat \<Rightarrow> int \<Rightarrow> fio \<Rightarrow> nat option" where
  "block_of ino lblock s = do {
     (ret, n, p, t) \<leftarrow> get_block ino lblock 1 False (file_map (io_v s) ino);
     assert_opt (p \<noteq> 0);
     Some p }"

section \<open>Positions\<close>

definition SEEK_SET :: int where "SEEK_SET = 0"
definition SEEK_CUR :: int where "SEEK_CUR = 1"
definition SEEK_END :: int where "SEEK_END = 2"

definition seek :: "int \<Rightarrow> int \<Rightarrow> file_table \<Rightarrow> file_table" where
  "seek offset position ft =
    (if position = SEEK_SET then ft\<lparr>ft_rwoffset := offset\<rparr>
     else if position = SEEK_CUR then ft\<lparr>ft_rwoffset := ft_rwoffset ft + offset\<rparr>
     else if position = SEEK_END then ft\<lparr>ft_rwoffset := ft_size ft - offset\<rparr>
     else ft)"

definition lseek :: "nat \<Rightarrow> u32 \<Rightarrow> int \<Rightarrow> fio \<Rightarrow> fio option" where
  "lseek fd offset position s = do {
     ft \<leftarrow> get_file_table (io_ft s) fd;
     Some (put_ft fd (seek (uint offset) position ft) s) }"

section \<open>Opening\<close>

definition O_RDWR :: int where "O_RDWR = 2"
definition O_CREAT :: int where "O_CREAT = 64"
definition O_APPEND :: int where "O_APPEND = 1024"

definition open_ft :: "nat \<Rightarrow> int \<Rightarrow> bool \<Rightarrow> fio \<Rightarrow> (int \<times> fio) option" where
  "open_ft ino flags keep s =
    (case allocate_open_file_table (io_ft s) of (fid, fts) \<Rightarrow>
       if fid < 0 then Some (-1, s\<lparr>io_ft := fts\<rparr>)
       else do {
         ft \<leftarrow> get_file_table fts (nat fid);
         let ft1 = ft\<lparr>ft_used := True, ft_ino := ino, ft_size := isize s ino, ft_rwoffset := 0,
                      ft_flags := (if keep then flags else ft_flags ft)\<rparr>;
             ft2 = seek (if flags AND O_APPEND \<noteq> 0 then isize s ino else 0) SEEK_SET ft1
         in Some (fid, put_ft (nat fid) ft2 (s\<lparr>io_ft := fts\<rparr>)) })"

text \<open>A missing file is created also without \<open>O_CREAT\<close> when it is opened for writing.\<close>

definition openfile :: "nat \<Rightarrow> nat \<Rightarrow> string \<Rightarrow> int \<Rightarrow> nat \<Rightarrow> fio \<Rightarrow> (int \<times> fio) option" where
  "openfile now dir name flags mode s =
    (if name = '''' then Some (-1, s)
     else do {
       (r, d) \<leftarrow> lookup dir name (io_v s);
       (res, ino, v) \<leftarrow>
         (if r < 0 then
            (if flags AND O_RDWR \<noteq> 0 \<or> flags AND O_CREAT \<noteq> 0 then createfile now dir name mode (0, 0) (io_v s)
             else do { (r', d') \<leftarrow> lookup dir name (io_v s); Some (-1, 0, io_v s) })
          else Some (0, d_ino (the d), io_v s));
       if res < 0 then Some (res, s\<lparr>io_v := v\<rparr>)
       else do {
         ip \<leftarrow> read_inode ino v;
         if i_type ip \<noteq> NVFUSE_TYPE_FILE then Some (-1, s\<lparr>io_v := v\<rparr>)
         else open_ft ino flags True (s\<lparr>io_v := v\<rparr>) } })"

definition openfile_ino :: "nat \<Rightarrow> int \<Rightarrow> fio \<Rightarrow> (int \<times> fio) option" where
  "openfile_ino ino flags s = do {
     ip \<leftarrow> read_inode ino (io_v s);
     if i_type ip \<noteq> NVFUSE_TYPE_FILE then Some (-1, s) else open_ft ino flags False s }"

definition closefile :: "nat \<Rightarrow> fio \<Rightarrow> fio" where
  "closefile fid s = s\<lparr>io_ft := close_file_table fid (io_ft s)\<rparr>"

section \<open>Reading\<close>

text \<open>The loop of \<open>nvfuse_readfile_core\<close>, with the bytes it passes over.  The position is
  compared with the size of the file before each block only.\<close>

function read_loop :: "nat \<Rightarrow> int \<Rightarrow> int \<Rightarrow> fio \<Rightarrow> u8 list option" where
  "read_loop ino cnt off s =
    (if 0 < cnt \<and> off < isize s ino then
       (let remain = min (4096 - off mod 4096) cnt in do {
          b \<leftarrow> block_of ino (off div 4096) s;
          rest \<leftarrow> read_loop ino (cnt - remain) (off + remain) s;
          Some (take (nat remain) (drop (nat (off mod 4096)) (io_blk s b)) @ rest) })
     else Some [])"
  by pat_completeness auto
termination
proof (relation "measure (\<lambda>(ino, cnt, off, s). nat cnt)")
  fix ino cnt off s r x
  assume "0 < cnt \<and> off < isize s ino" "r = min (4096 - off mod 4096) (cnt::int)"
  moreover have "off mod 4096 < 4096" by simp
  ultimately show "((ino, cnt - r, off + r, s), ino, cnt, off, s) \<in> measure (\<lambda>(ino, cnt, off, s). nat cnt)" by auto
qed simp

declare read_loop.simps [simp del]

text \<open>The count returned, the bytes copied to the buffer of the caller (none without
  \<open>sync_read\<close>).\<close>

definition readfile_core :: "nat \<Rightarrow> int \<Rightarrow> int \<Rightarrow> bool \<Rightarrow> fio \<Rightarrow> (int \<times> u8 list \<times> fio) option" where
  "readfile_core fid cnt roffset sync_read s = do {
     ft \<leftarrow> get_file_table (io_ft s) fid;
     ip \<leftarrow> read_inode (ft_ino ft) (io_v s);
     d \<leftarrow> read_loop (ft_ino ft) cnt roffset s;
     Some (int (length d), (if sync_read then d else []), put_ft fid (ft\<lparr>ft_rwoffset := roffset + int (length d)\<rparr>) s) }"

definition readfile_directio_core :: "nat \<Rightarrow> int \<Rightarrow> int \<Rightarrow> fio \<Rightarrow> (int \<times> fio) option" where
  "readfile_directio_core fid cnt roffset s = do {
     ft \<leftarrow> get_file_table (io_ft s) fid;
     let ft1 = ft\<lparr>ft_rwoffset := roffset\<rparr> in
     if cnt mod 4096 \<noteq> 0 then Some (0, put_ft fid ft1 s)
     else do {
       ip \<leftarrow> read_inode (ft_ino ft) (io_v s);
       if i_size ip < roffset + cnt then Some (0, put_ft fid ft1 s)
       else Some (cnt, put_ft fid (ft1\<lparr>ft_rwoffset := roffset + cnt, ft_size := max (roffset + cnt) (ft_size ft)\<rparr>) s) } }"

section \<open>Writing\<close>

text \<open>The loop of \<open>nvfuse_writefile_core\<close>.  A failed allocation ends it with -1; the size
  stored in the inode is the one of the descriptor.\<close>

definition patch :: "u8 list \<Rightarrow> nat \<Rightarrow> u8 list \<Rightarrow> u8 list" where
  "patch blk o' d = take o' blk @ d @ drop (o' + length d) blk"

function write_loop :: "nat \<Rightarrow> u8 list \<Rightarrow> fio \<Rightarrow> (int \<times> fio) option" where
  "write_loop fid d s =
    (if d = [] then Some (0, s)
     else do {
       ft \<leftarrow> get_file_table (io_ft s) fid;
       ip \<leftarrow> read_inode (ft_ino ft) (io_v s);
       let ino = ft_ino ft; off = ft_rwoffset ft; remain = min (nat (4096 - off mod 4096)) (length d) in do {
         (ret, v) \<leftarrow> (if i_size ip \<le> off then alloc_block ino (i_size ip div 4096) (io_v s) else Some (0, io_v s));
         if ret \<noteq> 0 then Some (-1, s\<lparr>io_v := v\<rparr>)
         else do {
           b \<leftarrow> block_of ino (off div 4096) (s\<lparr>io_v := v\<rparr>);
           let ft' = ft\<lparr>ft_rwoffset := off + int remain, ft_size := max (off + int remain) (ft_size ft)\<rparr> in do {
             assert_opt (ft_size ft' < MAX_FILE_SIZE);
             write_loop fid (drop remain d) (put_ft fid ft'
               (s\<lparr>io_v := set_inode ino ((inode_of v ino)\<lparr>i_type := NVFUSE_TYPE_FILE, i_size := ft_size ft'\<rparr>) v,
                  io_blk := (io_blk s)(b := patch (io_blk s b) (nat (off mod 4096)) (take remain d))\<rparr>)) } } } })"
  by pat_completeness auto
termination
proof (relation "measure (\<lambda>(fid, d, s). length d)")
  fix fid d s ft ip ino off r x ret v b y ft'
  assume "d \<noteq> []" "r = min (nat (4096 - off mod 4096)) (length (d::u8 list))"
  moreover have "off mod (4096::int) < 4096" by simp
  ultimately have "0 < r" by auto
  with \<open>d \<noteq> []\<close> show "((fid, drop r d, y'), fid, d, s) \<in> measure (\<lambda>(fid, d, s). length d)" for y' by auto
qed simp

declare write_loop.simps [simp del]

definition writefile_core :: "nat \<Rightarrow> u8 list \<Rightarrow> int \<Rightarrow> fio \<Rightarrow> (int \<times> fio) option" where
  "writefile_core fid d woffset s = do {
     ft \<leftarrow> get_file_table (io_ft s) fid;
     (ret, s1) \<leftarrow> write_loop fid d (put_ft fid (ft\<lparr>ft_rwoffset := woffset\<rparr>) s);
     Some (if ret \<noteq> 0 then -1 else int (length d), s1) }"

text \<open>\<open>nvfuse_fsync_ictx\<close> and \<open>nvfuse_fdsync_ictx\<close> loop while the context of the inode counts
  dirty buffers, and stop at an assertion in the first round.  Contexts keep no dirty
  buffers (\<open>NVFUSE_KEEP_DIRTY_BH_IN_ICTX\<close> is not defined, both counters stay 0), so there is no
  round, also in the write to a descriptor with \<open>O_SYNC\<close>.\<close>

definition fsync_ictx :: "nat \<Rightarrow> nat \<Rightarrow> fio \<Rightarrow> fio option" where
  "fsync_ictx data_dirty meta_dirty s = (if data_dirty \<noteq> 0 \<or> meta_dirty \<noteq> 0 then None else Some s)"

definition fdsync_ictx :: "nat \<Rightarrow> fio \<Rightarrow> fio option" where
  "fdsync_ictx data_dirty s = (if data_dirty \<noteq> 0 then None else Some s)"

definition fsync :: "nat \<Rightarrow> fio \<Rightarrow> (int \<times> fio) option" where
  "fsync fd s = do {
     ft \<leftarrow> get_file_table (io_ft s) fd;
     ip \<leftarrow> read_inode (ft_ino ft) (io_v s);
     s1 \<leftarrow> fsync_ictx 0 0 s;
     Some (0, s1) }"

definition fdatasync :: "nat \<Rightarrow> fio \<Rightarrow> (int \<times> fio) option" where
  "fdatasync fd s = do {
     ft \<leftarrow> get_file_table (io_ft s) fd;
     ip \<leftarrow> read_inode (ft_ino ft) (io_v s);
     s1 \<leftarrow> fdsync_ictx 0 s;
     Some (0, s1) }"

text \<open>The preparation of a direct write: the blocks are allocated, the data are transferred
  by the request queues.\<close>

definition writefile_directio_core :: "nat \<Rightarrow> nat \<Rightarrow> int \<Rightarrow> fio \<Rightarrow> (int \<times> fio) option" where
  "writefile_directio_core fid cnt woffset s = do {
     ft \<leftarrow> get_file_table (io_ft s) fid;
     let ft1 = ft\<lparr>ft_rwoffset := woffset\<rparr>; ino = ft_ino ft in
     if cnt mod 4096 \<noteq> 0 then Some (0, put_ft fid ft1 s)
     else do {
       ip \<leftarrow> read_inode ino (io_v s);
       (ret, v) \<leftarrow>
         (if cnt \<noteq> 0 \<and> i_size ip \<le> woffset then do {
            (ret, n, p, t) \<leftarrow> get_block ino (i_size ip div 4096) (cnt div 4096) True (file_map (io_v s) ino);
            let v1 = put_map ino t (io_v s) in
            if ret \<noteq> 0 then Some (ret, v1)
            else do {
              assert_opt (i_size ip < MAX_FILE_SIZE);
              Some (0, set_inode ino ((inode_of v1 ino)\<lparr>i_size := i_size ip + int cnt\<rparr>) v1) } }
          else Some (0, io_v s));
       if ret \<noteq> 0 then Some (-1, put_ft fid ft1 (s\<lparr>io_v := v\<rparr>))
       else Some (int cnt, put_ft fid (ft1\<lparr>ft_rwoffset := woffset + int cnt, ft_size := max (woffset + int cnt) (ft_size ft)\<rparr>)
              (s\<lparr>io_v := v\<rparr>)) } }"

section \<open>Truncation and preallocation\<close>

text \<open>The buffers that \<open>nvfuse_free_inode_size\<close> drops: those from the block of the new size
  on, which is rounded down.\<close>

definition drop_data :: "nat \<Rightarrow> int \<Rightarrow> fio \<Rightarrow> fio" where
  "drop_data ino sz s =
    (let num = nat (isize s ino div 4096) + (if isize s ino mod 4096 = 0 then 0 else 1); t = file_map (io_v s) ino
     in if num = 0 \<or> num \<le> nat (sz div 4096) then s
        else s\<lparr>io_blk := fold (\<lambda>l f. f(bmap t (int l) := io_dev s (bmap t (int l)))) [nat (sz div 4096)..<num] (io_blk s)\<rparr>)"

text \<open>A negative size is a large number of blocks in the unsigned comparison.\<close>

definition free_inode_data :: "nat \<Rightarrow> int \<Rightarrow> fio \<Rightarrow> fio option" where
  "free_inode_data ino sz s =
    (if sz < 0 then Some s
     else do { v \<leftarrow> free_size ino sz (io_v s); Some ((drop_data ino sz s)\<lparr>io_v := v\<rparr>) })"

definition set_size :: "nat \<Rightarrow> int \<Rightarrow> fio \<Rightarrow> fio" where
  "set_size ino sz s = s\<lparr>io_v := set_inode ino ((inode_of (io_v s) ino)\<lparr>i_size := sz\<rparr>) (io_v s)\<rparr>"

definition ftruncate :: "nat \<Rightarrow> int \<Rightarrow> fio \<Rightarrow> (int \<times> fio) option" where
  "ftruncate fid sz s = do {
     ft \<leftarrow> get_file_table (io_ft s) fid;
     ip \<leftarrow> read_inode (ft_ino ft) (io_v s);
     s1 \<leftarrow> free_inode_data (ft_ino ft) sz s;
     assert_opt (sz < MAX_FILE_SIZE);
     Some (0, set_size (ft_ino ft) sz s1) }"

definition truncate_file :: "nat \<Rightarrow> string \<Rightarrow> int \<Rightarrow> fio \<Rightarrow> (int \<times> fio) option" where
  "truncate_file dir name sz s = do {
     dp \<leftarrow> read_inode dir (io_v s);
     e \<leftarrow> find_existing_dentry dir name (io_v s);
     if e = NO_ENTRY then Some (-1, s)
     else do {
       d \<leftarrow> dentry_at dir e (io_v s);
       ip \<leftarrow> read_inode (d_ino d) (io_v s);
       if i_type ip = NVFUSE_TYPE_DIRECTORY then Some (-1, s)
       else do {
         s1 \<leftarrow> free_inode_data (d_ino d) sz s;
         assert_opt (sz < MAX_FILE_SIZE);
         Some (0, set_size (d_ino d) sz s1) } } }"

definition truncate_ino :: "nat \<Rightarrow> int \<Rightarrow> fio \<Rightarrow> (int \<times> fio) option" where
  "truncate_ino ino sz s = do { ip \<leftarrow> read_inode ino (io_v s); s1 \<leftarrow> free_inode_data ino sz s; Some (0, s1) }"

text \<open>The loop of \<open>nvfuse_fallocate\<close> with the next block and the number of blocks that
  remain; \<open>nvfuse_get_block\<close> maps at most as many as it is asked for.\<close>

function falloc_loop :: "nat \<Rightarrow> nat \<Rightarrow> nat \<Rightarrow> vfs \<Rightarrow> (int \<times> nat \<times> vfs) option" where
  "falloc_loop ino cur remain v =
    (if remain = 0 then Some (0, cur, v)
     else do {
       (ret, n, p, t) \<leftarrow> get_block ino (int cur) remain True (file_map v ino);
       let v1 = put_map ino t v in
       if n = 0 then Some (ret, cur, v1)
       else if remain \<le> n then Some (ret, cur + n, v1)
       else falloc_loop ino (cur + n) (remain - n) v1 })"
  by pat_completeness auto
termination by (relation "measure (\<lambda>(ino, cur, remain, v). remain)") auto

declare falloc_loop.simps [simp del]

definition fallocate :: "nat \<Rightarrow> string \<Rightarrow> int \<Rightarrow> int \<Rightarrow> fio \<Rightarrow> (int \<times> fio) option" where
  "fallocate dir name start len s = do {
     (r, d) \<leftarrow> lookup dir name (io_v s);
     if r < 0 then Some (-1, s)
     else let ino = d_ino (the d) in
       if isize s ino < start + len then do {
         (res, cur, v) \<leftarrow> falloc_loop ino (nat (start div 4096)) (nat ((len + 4095) div 4096)) (io_v s);
         let s1 = s\<lparr>io_v := v\<rparr>; sz = max (int cur * 4096) (isize s1 ino) in do {
           assert_opt (sz < MAX_FILE_SIZE);
           Some (res, set_size ino sz s1) } }
       else Some (r, s) }"

definition fgetblk :: "nat \<Rightarrow> int \<Rightarrow> nat \<Rightarrow> fio \<Rightarrow> (int \<times> nat) option" where
  "fgetblk fid lblk max_blocks s = do {
     ft \<leftarrow> get_file_table (io_ft s) fid;
     if ft_ino ft < ROOT_INO then Some (-1, 0)
     else do {
       ip \<leftarrow> read_inode (ft_ino ft) (io_v s);
       (ret, n, p, t) \<leftarrow> get_block (ft_ino ft) lblk max_blocks False (file_map (io_v s) (ft_ino ft));
       Some (if ret < 0 then (-1, n) else (int p, n)) } }"

section \<open>Symbolic links\<close>

definition S_IFLNK :: nat where "S_IFLNK = 40960"

text \<open>The target is written with its final zero byte.\<close>

definition symlink :: "nat \<Rightarrow> string \<Rightarrow> nat \<Rightarrow> string \<Rightarrow> fio \<Rightarrow> (int \<times> fio) option" where
  "symlink now target dir name s = do {
     (r, d) \<leftarrow> lookup dir name (io_v s);
     if r = 0 then Some (-1, s)
     else do {
       (res, ino, v) \<leftarrow> createfile now dir name (511 + S_IFLNK) (0, 0) (io_v s);
       if res \<noteq> 0 then Some (res, s\<lparr>io_v := v\<rparr>)
       else do {
         (fid, s1) \<leftarrow> openfile_ino ino 1 (s\<lparr>io_v := v\<rparr>);
         assert_opt (0 \<le> fid);
         (w, s2) \<leftarrow> writefile_core (nat fid) (name_bytes target @ [0]) 0 s1;
         if w \<noteq> int (length target) + 1 then Some (-1, s2) else Some (0, closefile (nat fid) s2) } } }"

definition readlink_ino :: "nat \<Rightarrow> int \<Rightarrow> fio \<Rightarrow> (int \<times> u8 list \<times> fio) option" where
  "readlink_ino ino sz s = do {
     (fid, s1) \<leftarrow> openfile_ino (if ino = 0 then ROOT_INO else ino) 0 s;
     assert_opt (0 \<le> fid);
     (r, d, s2) \<leftarrow> readfile_core (nat fid) sz 0 True s1;
     if r \<noteq> sz then Some (-1, d, s2) else Some (r, d, closefile (nat fid) s2) }"

section \<open>The block map of a file\<close>

lemma bmap_fs: "bmap (t\<lparr>bm_fs := x\<rparr>) l = bmap t l"
  by (simp add: bmap_def node_fs)

lemma bmap_inj:
  assumes "tree_inv t" "bmap t l = bmap t l'" "bmap t l \<noteq> 0" "0 \<le> l" "l < max_lblock" "0 \<le> l'" "l' < max_lblock"
  shows "l = l'"
proof -
  note p = block_to_path_ok(1,2) [OF assms(4,5)] block_to_path_ok(1,2) [OF assms(6,7)]
  have "rev (fst (block_to_path l)) = rev (fst (block_to_path l'))"
    by (rule tree_invD(6) [OF assms(1)]) (use path_ok_rpath [OF p(1)] path_ok_rpath [OF p(3)] assms(2,3) in \<open>simp_all add: bmap_def\<close>)
  then show ?thesis using p(2,4) by (metis rev_is_rev_conv)
qed

text \<open>The path of an earlier block with the same beginning.\<close>

lemma path_earlier:
  assumes "path_ok p" "0 < k" "x \<in> set (drop k p)" "x \<noteq> 0"
  shows "path_ok (take k p @ replicate (length p - k) 0) \<and> path_block (take k p @ replicate (length p - k) 0) < path_block p"
proof -
  have "k < length p" using assms(3) by (metis drop_eq_Nil empty_iff list.set(1) not_le)
  moreover have "length p \<le> 4" using path_ok_rpath [OF assms(1)] by blast
  ultimately have "k = 1 \<or> k = 2 \<or> k = 3" using assms(2) by linarith
  then show ?thesis using assms by (cases p rule: path_ok.cases) (auto simp: numeral_2_eq_2 numeral_3_eq_3)
qed

lemma dense_prefix:
  assumes "0 \<le> l" "l < max_lblock" "\<And>l'. 0 \<le> l' \<Longrightarrow> l' < l \<Longrightarrow> bmap t l' \<noteq> 0"
  shows "dense_at t l"
  unfolding dense_at_def
proof (intro allI impI ballI)
  fix k x
  let ?p = "fst (block_to_path l)"
  assume k: "0 < k" "node t (rev (take k ?p)) = 0" and x: "x \<in> set (drop k ?p)"
  note ok = block_to_path_ok [OF assms(1,2)]
  show "x = 0"
  proof (rule ccontr)
    assume "x \<noteq> 0"
    define q where "q = take k ?p @ replicate (length ?p - k) 0"
    have q: "path_ok q" "path_block q < l" using path_earlier [OF ok(1) k(1) x \<open>x \<noteq> 0\<close>] ok(2) by (simp_all add: q_def)
    have "?p \<noteq> []" using path_ok_rpath [OF ok(1)] by blast
    then have "node t (rev q) = 0" unfolding q_def using k node_zero_append [OF k(2)] by simp
    then have "bmap t (path_block q) = 0" by (simp add: bmap_def block_to_path_inverse [OF q(1)])
    then show False using assms(3) path_block_range [OF q(1)] q(2) by blast
  qed
qed

lemma block_of_bmap:
  assumes "0 \<le> l" "l < max_lblock" "bmap (file_map (io_v s) ino) l \<noteq> 0"
  shows "block_of ino l s = Some (bmap (file_map (io_v s) ino) l)"
  using get_block_lookup [OF assms(1-3), of 1 ino False] assms(3) by (auto simp: block_of_def)

text \<open>The next block of a file, mapped already or allocated now.\<close>

lemma next_block:
  assumes t: "tree_inv (file_map v ino)" and l: "0 \<le> l" "l < max_lblock" and pre: "\<And>l'. 0 \<le> l' \<Longrightarrow> l' < l \<Longrightarrow> bmap (file_map v ino) l' \<noteq> 0"
    and ino: "ino < bgn (v_fs v) * 4096" and free: "4 \<le> sb_free_blocks (fs_sb (v_fs v))"
  shows "\<exists>v'. alloc_block ino l v = Some (0, v') \<and> tree_inv (file_map v' ino) \<and> bmap (file_map v' ino) l \<noteq> 0
    \<and> (\<forall>l'. 0 \<le> l' \<and> l' < max_lblock \<and> l' \<noteq> l \<longrightarrow> bmap (file_map v' ino) l' = bmap (file_map v ino) l')
    \<and> (bmap (file_map v ino) l \<noteq> 0 \<longrightarrow> bmap (file_map v' ino) l = bmap (file_map v ino) l)
    \<and> (\<exists>ib. inode_of v' ino = (inode_of v ino)\<lparr>i_blocks := ib\<rparr>) \<and> others_same v {ino} v' \<and> v_dir v' = v_dir v \<and> v_tree v' = v_tree v
    \<and> sb_free_blocks (fs_sb (v_fs v)) \<le> sb_free_blocks (fs_sb (v_fs v')) + 4 \<and> bgn (v_fs v') = bgn (v_fs v)"
proof (cases "bmap (file_map v ino) l = 0")
  case False
  have "put_map ino (file_map v ino) v = v" by (simp add: put_map_def file_map_def set_inode_def inode_of_def)
  then have "alloc_block ino l v = Some (0, v)" using get_block_lookup [OF l False, of 1 ino True] by (auto simp: alloc_block_def)
  moreover have "\<exists>ib. inode_of v ino = (inode_of v ino)\<lparr>i_blocks := ib\<rparr>" by (rule exI [of _ "i_blocks (inode_of v ino)"]) simp
  ultimately show ?thesis using False t by (auto simp: others_same_def)
next
  case True
  let ?t = "file_map v ino"
  have fs: "bm_fs ?t = v_fs v" by (simp add: file_map_def)
  obtain n t' bl where g: "get_block ino l 1 True ?t = Some (0, n, bmap t' l, t')" "1 \<le> n" "n \<le> 1"
    "\<forall>j<n. bmap ?t (l + int j) = 0 \<and> bmap t' (l + int j) \<noteq> 0 \<and> \<not> block_used (bm_fs ?t) (bmap t' (l + int j))"
    "\<forall>l'. 0 \<le> l' \<and> l' < max_lblock \<and> \<not> (l \<le> l' \<and> l' < l + int n) \<longrightarrow> bmap t' l' = bmap ?t l'" "tree_inv t'"
    "alloc_post (v_fs v) bl (bm_fs t')" "length bl \<le> n + 3"
    using get_block_create_run [OF l t, of ino 1] True ino free dense_prefix [OF l pre] unfolding fs by auto
  have n: "n = 1" using g(2,3) by simp
  have it: "fs_itable (bm_fs t') = fs_itable (v_fs v)" "bgn (bm_fs t') = bgn (v_fs v)"
    "sb_free_blocks (fs_sb (v_fs v)) \<le> sb_free_blocks (fs_sb (bm_fs t')) + 4" using g(7,8) n by (simp_all add: alloc_post_def)
  define v' where "v' = put_map ino t' v"
  have run: "alloc_block ino l v = Some (0, v')" using g(1) by (simp add: alloc_block_def v'_def)
  have i': "inode_of v' j = (if j = ino then (inode_of v ino)\<lparr>i_blocks := bm_ib t'\<rparr> else inode_of v j)" for j
    by (simp add: v'_def put_map_def) (simp add: inode_of_def it(1))
  have fm: "file_map v' ino = t'\<lparr>bm_fs := v_fs v'\<rparr>" by (simp add: file_map_def i') (simp add: v'_def put_map_def)
  have tv: "tree_inv (file_map v' ino)" unfolding fm
    by (rule tree_inv_fs [OF g(6)]) (use g(6) in \<open>auto simp: v'_def put_map_def tree_inv_def data_block_def\<close>)
  have "bmap t' l \<noteq> 0" using g(4) n by force
  moreover have "\<forall>l'. 0 \<le> l' \<and> l' < max_lblock \<and> l' \<noteq> l \<longrightarrow> bmap t' l' = bmap ?t l'" using g(5) n by auto
  moreover have "v_dir v' = v_dir v" "v_tree v' = v_tree v" "bgn (v_fs v') = bgn (v_fs v)"
    "sb_free_blocks (fs_sb (v_fs v)) \<le> sb_free_blocks (fs_sb (v_fs v')) + 4" using it by (simp_all add: v'_def put_map_def)
  ultimately show ?thesis using run tv i' True by (auto simp: fm bmap_fs others_same_def)
qed

section \<open>The contents of a file\<close>

definition file_at :: "fio \<Rightarrow> nat \<Rightarrow> bool" where
  "file_at s ino \<longleftrightarrow> ROOT_INO \<le> ino \<and> i_ino (inode_of (io_v s) ino) = ino \<and> ino < bgn (v_fs (io_v s)) * 4096
     \<and> tree_inv (file_map (io_v s) ino) \<and> 0 \<le> isize s ino \<and> isize s ino < MAX_FILE_SIZE
     \<and> (\<forall>l. 0 \<le> l \<and> l * 4096 < isize s ino \<longrightarrow> bmap (file_map (io_v s) ino) l \<noteq> 0) \<and> (\<forall>b. length (io_blk s b) = 4096)"

definition file_byte :: "fio \<Rightarrow> nat \<Rightarrow> int \<Rightarrow> u8" where
  "file_byte s ino i = io_blk s (bmap (file_map (io_v s) ino) (i div 4096)) ! nat (i mod 4096)"

definition file_bytes :: "fio \<Rightarrow> nat \<Rightarrow> u8 list" where
  "file_bytes s ino = map (\<lambda>i. file_byte s ino (int i)) [0..<nat (isize s ino)]"

lemma file_atD:
  assumes "file_at s ino"
  shows "read_inode ino (io_v s) = Some (inode_of (io_v s) ino)" "ino < bgn (v_fs (io_v s)) * 4096" "tree_inv (file_map (io_v s) ino)"
    "0 \<le> isize s ino" "isize s ino < MAX_FILE_SIZE" "\<And>l. 0 \<le> l \<Longrightarrow> l * 4096 < isize s ino \<Longrightarrow> bmap (file_map (io_v s) ino) l \<noteq> 0"
    "length (io_blk s b) = 4096"
  using assms by (simp_all add: file_at_def read_inode_def)

lemma max_size: "MAX_FILE_SIZE = max_lblock * 4096"
  by (simp add: MAX_FILE_SIZE_def max_lblock_def)

lemma block_in_range: "0 \<le> off \<Longrightarrow> off < MAX_FILE_SIZE \<Longrightarrow> 0 \<le> off div 4096 \<and> off div 4096 < max_lblock"
  unfolding max_size by auto

lemma nth_patch:
  assumes "length blk = 4096" "o' + length d \<le> 4096" "j < 4096"
  shows "patch blk o' d ! j = (if o' \<le> j \<and> j < o' + length d then d ! (j - o') else blk ! j)"
  using assms by (auto simp: patch_def nth_append)

lemma length_patch: "length blk = 4096 \<Longrightarrow> o' + length d \<le> 4096 \<Longrightarrow> length (patch blk o' d) = 4096"
  by (simp add: patch_def)

lemma block_split:
  obtains q m where "(off::int) = 4096 * q + m" "0 \<le> m" "m < 4096" "off div 4096 = q" "off mod 4096 = m"
  by (rule that [of "off div 4096" "off mod 4096"]) simp_all

lemma block_end: "nat (off mod 4096) + r \<le> 4096 \<Longrightarrow> off + int r \<le> (off div 4096 + 1) * 4096"
  by (rule block_split [of off]) simp

lemma block_start: "(off::int) div 4096 * 4096 \<le> off"
  by (rule block_split [of off]) simp

lemma in_block:
  fixes i off :: int
  assumes "i div 4096 = off div 4096"
  shows "nat (off mod 4096) \<le> nat (i mod 4096) \<and> nat (i mod 4096) < nat (off mod 4096) + r \<longleftrightarrow> off \<le> i \<and> i < off + int r"
    "off \<le> i \<Longrightarrow> nat (i mod 4096) - nat (off mod 4096) = nat (i - off)"
proof -
  have e: "i - off = i mod 4096 - off mod 4096" using assms by (rule_tac block_split [of i], rule_tac block_split [of off]) simp
  then show "nat (off mod 4096) \<le> nat (i mod 4096) \<and> nat (i mod 4096) < nat (off mod 4096) + r \<longleftrightarrow> off \<le> i \<and> i < off + int r"
    by (auto simp: nat_le_eq_zle nat_less_iff)
  show "nat (i mod 4096) - nat (off mod 4096) = nat (i - off)" using e by (simp add: nat_diff_distrib')
qed

lemma out_block:
  fixes i off :: int
  assumes "i div 4096 \<noteq> off div 4096" "nat (off mod 4096) + r \<le> 4096"
  shows "\<not> (off \<le> i \<and> i < off + int r)"
proof
  assume a: "off \<le> i \<and> i < off + int r"
  then have "i < (off div 4096 + 1) * 4096" using block_end [OF assms(2)] by simp
  then have "i div 4096 < off div 4096 + 1" by (simp add: div_less_iff_less_mult)
  moreover have "off div 4096 \<le> i div 4096" using a by (simp add: zdiv_mono1)
  ultimately show False using assms(1) by simp
qed

text \<open>One round of a write within the file or at its end.\<close>

lemma write_round:
  assumes f: "file_at s ino" and fid: "fid < length (io_ft s)" and ft: "ft_ino (io_ft s ! fid) = ino" "ft_size (io_ft s ! fid) = isize s ino"
      "ft_rwoffset (io_ft s ! fid) = off"
    and off: "0 \<le> off" "off \<le> isize s ino" and d: "d \<noteq> []" "r = min (nat (4096 - off mod 4096)) (length d)" "off + int r < MAX_FILE_SIZE"
    and free: "4 \<le> sb_free_blocks (fs_sb (v_fs (io_v s)))"
  shows "\<exists>s1. write_loop fid d s = write_loop fid (drop r d) s1 \<and> file_at s1 ino \<and> isize s1 ino = max (isize s ino) (off + int r)
    \<and> (\<forall>i. 0 \<le> i \<and> i < isize s1 ino \<longrightarrow> file_byte s1 ino i = (if off \<le> i \<and> i < off + int r then d ! nat (i - off) else file_byte s ino i))
    \<and> io_ft s1 = (io_ft s)[fid := (io_ft s ! fid)\<lparr>ft_rwoffset := off + int r, ft_size := isize s1 ino\<rparr>]
    \<and> sb_free_blocks (fs_sb (v_fs (io_v s))) \<le> sb_free_blocks (fs_sb (v_fs (io_v s1))) + 4
    \<and> others_same (io_v s) {ino} (io_v s1) \<and> io_dev s1 = io_dev s
    \<and> (\<forall>b. (\<forall>l. 0 \<le> l \<and> l < max_lblock \<longrightarrow> bmap (file_map (io_v s1) ino) l \<noteq> b) \<longrightarrow> io_blk s1 b = io_blk s b)"
proof -
  note a = file_atD [OF f]
  let ?ft = "io_ft s ! fid" and ?l = "off div 4096" and ?fm = "file_map (io_v s) ino"
  have r: "0 < r" "nat (off mod 4096) + r \<le> 4096" "r \<le> length d" using d(1,2) by (auto simp: min_def)
  have offm: "off < MAX_FILE_SIZE" using r(1) d(3) by simp
  note lr = block_in_range [OF off(1) offm]
  have pre: "bmap ?fm l' \<noteq> 0" if "0 \<le> l'" "l' < isize s ino div 4096" for l'
    using a(6) [OF that(1)] that(2) by (simp add: zless_imp_add1_zle)
  have "\<exists>v. (if isize s ino \<le> off then alloc_block ino (isize s ino div 4096) (io_v s) else Some (0, io_v s)) = Some (0, v)
    \<and> tree_inv (file_map v ino) \<and> bmap (file_map v ino) ?l \<noteq> 0
    \<and> (\<forall>l'. 0 \<le> l' \<and> l' < max_lblock \<and> bmap ?fm l' \<noteq> 0 \<longrightarrow> bmap (file_map v ino) l' = bmap ?fm l')
    \<and> (\<exists>ib. inode_of v ino = (inode_of (io_v s) ino)\<lparr>i_blocks := ib\<rparr>) \<and> others_same (io_v s) {ino} v
    \<and> sb_free_blocks (fs_sb (v_fs (io_v s))) \<le> sb_free_blocks (fs_sb (v_fs v)) + 4 \<and> bgn (v_fs v) = bgn (v_fs (io_v s))"
  proof (cases "isize s ino \<le> off")
    case True
    then have e: "isize s ino = off" using off(2) by simp
    have "\<exists>v'. alloc_block ino ?l (io_v s) = Some (0, v') \<and> tree_inv (file_map v' ino) \<and> bmap (file_map v' ino) ?l \<noteq> 0
      \<and> (\<forall>l'. 0 \<le> l' \<and> l' < max_lblock \<and> l' \<noteq> ?l \<longrightarrow> bmap (file_map v' ino) l' = bmap ?fm l')
      \<and> (bmap ?fm ?l \<noteq> 0 \<longrightarrow> bmap (file_map v' ino) ?l = bmap ?fm ?l)
      \<and> (\<exists>ib. inode_of v' ino = (inode_of (io_v s) ino)\<lparr>i_blocks := ib\<rparr>) \<and> others_same (io_v s) {ino} v'
      \<and> v_dir v' = v_dir (io_v s) \<and> v_tree v' = v_tree (io_v s)
      \<and> sb_free_blocks (fs_sb (v_fs (io_v s))) \<le> sb_free_blocks (fs_sb (v_fs v')) + 4 \<and> bgn (v_fs v') = bgn (v_fs (io_v s))"
      by (rule next_block [OF a(3)]) (use lr pre a(2) free e in auto)
    then show ?thesis using True e by (metis (no_types, lifting))
  next
    case False
    have "bmap ?fm ?l \<noteq> 0" using a(6) [of ?l] lr False by simp
    moreover have "\<exists>ib. inode_of (io_v s) ino = (inode_of (io_v s) ino)\<lparr>i_blocks := ib\<rparr>" by (rule exI [of _ "i_blocks (inode_of (io_v s) ino)"]) simp
    ultimately show ?thesis using False a(3) by (auto simp: others_same_def)
  qed
  then obtain v ib where v: "(if isize s ino \<le> off then alloc_block ino (isize s ino div 4096) (io_v s) else Some (0, io_v s)) = Some (0, v)"
    "tree_inv (file_map v ino)" "bmap (file_map v ino) ?l \<noteq> 0"
    "\<forall>l'. 0 \<le> l' \<and> l' < max_lblock \<and> bmap ?fm l' \<noteq> 0 \<longrightarrow> bmap (file_map v ino) l' = bmap ?fm l'"
    "inode_of v ino = (inode_of (io_v s) ino)\<lparr>i_blocks := ib\<rparr>" "others_same (io_v s) {ino} v"
    "sb_free_blocks (fs_sb (v_fs (io_v s))) \<le> sb_free_blocks (fs_sb (v_fs v)) + 4" "bgn (v_fs v) = bgn (v_fs (io_v s))" by blast
  let ?b = "bmap (file_map v ino) ?l"
  define sz where "sz = max (off + int r) (isize s ino)"
  define v1 where "v1 = set_inode ino ((inode_of v ino)\<lparr>i_type := NVFUSE_TYPE_FILE, i_size := sz\<rparr>) v"
  define ft1 where "ft1 = ?ft\<lparr>ft_rwoffset := off + int r, ft_size := sz\<rparr>"
  define s1 where "s1 = put_ft fid ft1 (s\<lparr>io_v := v1, io_blk := (io_blk s)(?b := patch (io_blk s ?b) (nat (off mod 4096)) (take r d))\<rparr>)"
  have bo: "block_of ino ?l (s\<lparr>io_v := v\<rparr>) = Some ?b" using block_of_bmap [of ?l "s\<lparr>io_v := v\<rparr>" ino] lr v(3) by simp
  have szm: "sz < MAX_FILE_SIZE" using d(3) a(5) by (simp add: sz_def)
  have run: "write_loop fid d s = write_loop fid (drop r d) s1"
  proof -
    have g: "get_file_table (io_ft s) fid = Some ?ft" using fid by (simp add: get_file_table_def)
    have sz': "max (off + int r) (ft_size ?ft) = sz" using ft(2) by (simp add: sz_def)
    have isz: "i_size (inode_of (io_v s) ino) = isize s ino" by (simp add: isize_def)
    have e: "(d = []) = False" "((0::int) \<noteq> 0) = False" using d(1) by simp_all
    have fs: "ft_size ft1 = sz" by (simp add: ft1_def)
    show ?thesis
      by (subst write_loop.simps)
        (simp only: e if_False g Option.bind_lunit Let_def ft(1,3) a(1) isz d(2) [symmetric] v(1) split_conv bo sz' fs assert_opt_simps szm
          v1_def [symmetric] ft1_def [symmetric] s1_def [symmetric] if_True simp_thms)
  qed
  have io1: "io_v s1 = v1" "io_dev s1 = io_dev s" "io_ft s1 = (io_ft s)[fid := ft1]"
    "io_blk s1 = (io_blk s)(?b := patch (io_blk s ?b) (nat (off mod 4096)) (take r d))" by (simp_all add: s1_def put_ft_def)
  have is1: "isize s1 ino = sz" by (simp add: isize_def io1 v1_def)
  have fm1: "file_map v1 ino = (file_map v ino)\<lparr>bm_fs := v_fs v1\<rparr>" by (simp add: file_map_def v1_def)
  have bm1: "bmap (file_map v1 ino) l = bmap (file_map v ino) l" for l by (simp add: fm1 bmap_fs)
  have t1: "tree_inv (file_map v1 ino)" unfolding fm1
    by (rule tree_inv_fs [OF v(2)]) (use v(2) in \<open>auto simp: v1_def tree_inv_def data_block_def file_map_def\<close>)
  have len: "length (take r d) = r" using r(3) by simp
  note np = nth_patch [OF a(7), of "nat (off mod 4096)" "take r d"]
  have mapd: "bmap (file_map v ino) l \<noteq> 0" if "0 \<le> l" "l * 4096 < sz" for l
  proof (cases "l = ?l")
    case False
    have "off + int r \<le> (?l + 1) * 4096" by (rule block_end [OF r(2)])
    then have "l * 4096 < isize s ino" using that False off(2) unfolding sz_def by (auto simp: max_def split: if_splits)
    then have "bmap ?fm l \<noteq> 0" using a(6) that(1) by blast
    moreover have "l < max_lblock" using that(2) szm unfolding max_size by simp
    ultimately show ?thesis using v(4) that(1) by simp
  qed (use v(3) in simp)
  have at1: "file_at s1 ino"
    using f t1 szm mapd length_patch [OF a(7), of "nat (off mod 4096)" "take r d"] r(2) len a(4) v(5,8)
    by (auto simp: file_at_def is1 io1(1,4) bm1) (simp_all add: v1_def isize_def sz_def max_def io1)
  have byte: "file_byte s1 ino i = (if off \<le> i \<and> i < off + int r then d ! nat (i - off) else file_byte s ino i)" if i: "0 \<le> i" "i < sz" for i
  proof -
    have ir: "0 \<le> i div 4096" "i div 4096 < max_lblock" "i div 4096 * 4096 < sz" using i szm unfolding max_size by auto
    show ?thesis
    proof (cases "i div 4096 = ?l")
      case True
      have j: "nat (i mod 4096) < 4096" by simp
      have "file_byte s1 ino i = patch (io_blk s ?b) (nat (off mod 4096)) (take r d) ! nat (i mod 4096)"
        unfolding file_byte_def io1(1,4) bm1 True by simp
      also have "\<dots> = (if nat (off mod 4096) \<le> nat (i mod 4096) \<and> nat (i mod 4096) < nat (off mod 4096) + r
          then take r d ! (nat (i mod 4096) - nat (off mod 4096)) else io_blk s ?b ! nat (i mod 4096))"
        using np [of "nat (i mod 4096)"] r(2) len by simp
      also have "nat (off mod 4096) \<le> nat (i mod 4096) \<and> nat (i mod 4096) < nat (off mod 4096) + r \<longleftrightarrow> off \<le> i \<and> i < off + int r"
        by (rule in_block(1) [OF True])
      finally have e: "file_byte s1 ino i = (if off \<le> i \<and> i < off + int r
          then take r d ! (nat (i mod 4096) - nat (off mod 4096)) else io_blk s ?b ! nat (i mod 4096))" .
      have "nat (i mod 4096) - nat (off mod 4096) = nat (i - off)" if "off \<le> i" by (rule in_block(2) [OF True that])
      moreover have "io_blk s ?b ! nat (i mod 4096) = file_byte s ino i" if "\<not> (off \<le> i \<and> i < off + int r)"
      proof -
        have "i < isize s ino" using that i(2) off(2) by (auto simp: sz_def max_def split: if_splits)
        then have "bmap ?fm (i div 4096) \<noteq> 0" using a(6) [OF ir(1)] by simp
        then have "bmap ?fm ?l = ?b" using v(4) ir True by auto
        then show ?thesis by (simp add: file_byte_def True)
      qed
      ultimately show ?thesis unfolding e by auto
    next
      case False
      then have ni: "\<not> (off \<le> i \<and> i < off + int r)" using out_block r(2) by blast
      then have "i < isize s ino" using i(2) off(2) by (auto simp: sz_def max_def split: if_splits)
      then have m: "bmap ?fm (i div 4096) \<noteq> 0" using a(6) [OF ir(1)] by simp
      then have e: "bmap (file_map v ino) (i div 4096) = bmap ?fm (i div 4096)" using v(4) ir by simp
      have "bmap (file_map v ino) (i div 4096) \<noteq> ?b" using bmap_inj [OF v(2), of "i div 4096" ?l] False ir(1,2) lr m e by auto
      then show ?thesis using ni unfolding file_byte_def io1(1,4) bm1 e by auto
    qed
  qed
  have "others_same (io_v s) {ino} (io_v s1)" using v(6) by (simp add: others_same_def io1(1) v1_def)
  moreover have "io_blk s1 b = io_blk s b" if "\<forall>l. 0 \<le> l \<and> l < max_lblock \<longrightarrow> bmap (file_map (io_v s1) ino) l \<noteq> b" for b
    using that lr by (auto simp: io1 bm1)
  moreover have "sb_free_blocks (fs_sb (v_fs (io_v s))) \<le> sb_free_blocks (fs_sb (v_fs (io_v s1))) + 4" using v(7) by (simp add: io1(1) v1_def)
  ultimately show ?thesis using run at1 byte is1 io1 by (intro exI [of _ s1]) (simp add: ft1_def sz_def max.commute)
qed

text \<open>The number of blocks a write of \<open>n\<close> bytes touches.\<close>

definition touched :: "int \<Rightarrow> nat \<Rightarrow> int" where
  "touched off n = (if n = 0 then 0 else (off mod 4096 + int n + 4095) div 4096)"

lemma touched_round:
  assumes "r = min (nat (4096 - off mod 4096)) n" "0 < n"
  shows "touched (off + int r) (n - r) + 1 \<le> touched off n"
proof (rule block_split [of off])
  fix q m
  assume o: "off = 4096 * q + m" "0 \<le> m" "m < 4096" "off div 4096 = q" "off mod 4096 = m"
  show ?thesis
  proof (cases "n = r")
    case True
    have "1 \<le> (m + int n + 4095) div 4096" using o(2) assms(2) by simp
    then show ?thesis using True assms(2) by (simp add: touched_def o(5))
  next
    case False
    then have r: "int r = 4096 - m" "r < n" using assms o by (auto simp: min_def split: if_splits)
    have "off + int r = 4096 * (q + 1)" using r(1) o(1) by simp
    then have "(off + int r) mod 4096 = 0" by simp
    then have "touched (off + int r) (n - r) = (int n - int r + 4095) div 4096" using r(2) by (simp add: touched_def)
    moreover have "m + int n + 4095 = (int n - int r + 4095) + 4096" using r(1) by simp
    ultimately show ?thesis using assms(2) by (simp add: touched_def o(5))
  qed
qed

lemma write_loop_correct:
  assumes "file_at s ino" "fid < length (io_ft s)" "ft_ino (io_ft s ! fid) = ino" "ft_size (io_ft s ! fid) = isize s ino"
    "ft_rwoffset (io_ft s ! fid) = off" "0 \<le> off" "off \<le> isize s ino" "off + int (length d) < MAX_FILE_SIZE"
    "4 * touched off (length d) \<le> sb_free_blocks (fs_sb (v_fs (io_v s)))"
  shows "\<exists>s'. write_loop fid d s = Some (0, s') \<and> file_at s' ino \<and> isize s' ino = max (isize s ino) (off + int (length d))
    \<and> (\<forall>i. 0 \<le> i \<and> i < isize s' ino \<longrightarrow> file_byte s' ino i = (if off \<le> i \<and> i < off + int (length d) then d ! nat (i - off) else file_byte s ino i))
    \<and> io_ft s' = (io_ft s)[fid := (io_ft s ! fid)\<lparr>ft_rwoffset := off + int (length d), ft_size := isize s' ino\<rparr>]
    \<and> others_same (io_v s) {ino} (io_v s') \<and> io_dev s' = io_dev s"
  using assms
proof (induction "length d" arbitrary: d off s rule: less_induct)
  case less
  show ?case
  proof (cases "d = []")
    case True
    have "io_ft s = (io_ft s)[fid := (io_ft s ! fid)\<lparr>ft_rwoffset := off, ft_size := isize s ino\<rparr>]"
      using less.prems(4,5) by (metis file_table.surjective file_table.update_convs(2,4) list_update_id)
    then show ?thesis using True less.prems by (subst write_loop.simps) (auto simp: others_same_def max_def)
  next
    case False
    define r where "r = min (nat (4096 - off mod 4096)) (length d)"
    have r: "0 < r" "r \<le> length d" using False by (auto simp: r_def)
    note tr = touched_round [OF r_def]
    have "0 \<le> touched (off + int r) (length d - r)" by (auto simp: touched_def intro!: div_int_pos_iff [THEN iffD2])
    then have "4 \<le> sb_free_blocks (fs_sb (v_fs (io_v s)))" using tr False less.prems(9) by simp
    then obtain s1 where s1: "write_loop fid d s = write_loop fid (drop r d) s1" "file_at s1 ino" "isize s1 ino = max (isize s ino) (off + int r)"
      "\<forall>i. 0 \<le> i \<and> i < isize s1 ino \<longrightarrow> file_byte s1 ino i = (if off \<le> i \<and> i < off + int r then d ! nat (i - off) else file_byte s ino i)"
      "io_ft s1 = (io_ft s)[fid := (io_ft s ! fid)\<lparr>ft_rwoffset := off + int r, ft_size := isize s1 ino\<rparr>]"
      "sb_free_blocks (fs_sb (v_fs (io_v s))) \<le> sb_free_blocks (fs_sb (v_fs (io_v s1))) + 4"
      "others_same (io_v s) {ino} (io_v s1)" "io_dev s1 = io_dev s"
      using write_round [OF less.prems(1-7) False r_def] less.prems(8) r(2) by auto
    have f1: "4 * touched (off + int r) (length (drop r d)) \<le> sb_free_blocks (fs_sb (v_fs (io_v s1)))"
      using tr s1(6) less.prems(9) False by simp
    have "\<exists>s'. write_loop fid (drop r d) s1 = Some (0, s') \<and> file_at s' ino \<and> isize s' ino = max (isize s1 ino) (off + int r + int (length (drop r d)))
      \<and> (\<forall>i. 0 \<le> i \<and> i < isize s' ino \<longrightarrow> file_byte s' ino i
          = (if off + int r \<le> i \<and> i < off + int r + int (length (drop r d)) then drop r d ! nat (i - (off + int r)) else file_byte s1 ino i))
      \<and> io_ft s' = (io_ft s1)[fid := (io_ft s1 ! fid)\<lparr>ft_rwoffset := off + int r + int (length (drop r d)), ft_size := isize s' ino\<rparr>]
      \<and> others_same (io_v s1) {ino} (io_v s') \<and> io_dev s' = io_dev s1"
      by (rule less.hyps) (use r less.prems s1 f1 in auto)
    then obtain s' where s': "write_loop fid (drop r d) s1 = Some (0, s')" "file_at s' ino"
      "isize s' ino = max (isize s1 ino) (off + int r + int (length (drop r d)))"
      "\<forall>i. 0 \<le> i \<and> i < isize s' ino \<longrightarrow> file_byte s' ino i
          = (if off + int r \<le> i \<and> i < off + int r + int (length (drop r d)) then drop r d ! nat (i - (off + int r)) else file_byte s1 ino i)"
      "io_ft s' = (io_ft s1)[fid := (io_ft s1 ! fid)\<lparr>ft_rwoffset := off + int r + int (length (drop r d)), ft_size := isize s' ino\<rparr>]"
      "others_same (io_v s1) {ino} (io_v s')" "io_dev s' = io_dev s1" by blast
    have l: "off + int r + int (length (drop r d)) = off + int (length d)" using r(2) by simp
    have sz: "isize s' ino = max (isize s ino) (off + int (length d))" using s'(3) s1(3) r(2) unfolding l by simp
    have "file_byte s' ino i = (if off \<le> i \<and> i < off + int (length d) then d ! nat (i - off) else file_byte s ino i)"
      if i: "0 \<le> i" "i < isize s' ino" for i
    proof (cases "off + int r \<le> i \<and> i < off + int (length d)")
      case True
      have "drop r d ! nat (i - (off + int r)) = d ! (r + nat (i - (off + int r)))" using r(2) by simp
      moreover have "r + nat (i - (off + int r)) = nat (i - off)" using True nat_add_distrib [of "int r" "i - (off + int r)"] by simp
      ultimately show ?thesis using True s'(4) i unfolding l by simp
    next
      case F: False
      have "i < isize s1 ino" using F i(2) sz s1(3) by auto
      then show ?thesis using F s'(4) s1(4) i r(2) unfolding l by auto
    qed
    moreover have "io_ft s' = (io_ft s)[fid := (io_ft s ! fid)\<lparr>ft_rwoffset := off + int (length d), ft_size := isize s' ino\<rparr>]"
      using s'(5) s1(5) less.prems(2) unfolding l by simp
    moreover have "others_same (io_v s) {ino} (io_v s')" using s'(6) s1(7) by (simp add: others_same_def)
    ultimately show ?thesis using s'(1,2,7) s1(1,8) sz by auto
  qed
qed

section \<open>Reads within the file\<close>

lemma read_loop_correct:
  assumes "file_at s ino" "0 \<le> off" "0 \<le> cnt" "off + cnt \<le> isize s ino"
  shows "read_loop ino cnt off s = Some (map (file_byte s ino) [off..off + cnt - 1])"
  using assms
proof (induction "nat cnt" arbitrary: cnt off rule: less_induct)
  case less
  show ?case
  proof (cases "cnt = 0")
    case True
    then show ?thesis by (subst read_loop.simps) simp
  next
    case False
    note a = file_atD [OF less.prems(1)]
    define r where "r = min (4096 - off mod 4096) cnt"
    have r: "0 < r" "r \<le> cnt" "nat (off mod 4096) + nat r \<le> 4096" using False less.prems(3) by (auto simp: r_def)
    have c: "0 < cnt \<and> off < isize s ino" using False less.prems by simp
    have lr: "0 \<le> off div 4096 \<and> off div 4096 < max_lblock" using block_in_range [of off] less.prems(2) c a(5) by simp
    have bo: "block_of ino (off div 4096) s = Some (bmap (file_map (io_v s) ino) (off div 4096))"
      using block_of_bmap [of "off div 4096"] lr a(6) [of "off div 4096"] c le_less_trans [OF block_start] by blast
    have ih: "read_loop ino (cnt - r) (off + r) s = Some (map (file_byte s ino) [off + r..off + cnt - 1])"
      using less.hyps [of "cnt - r" "off + r"] r less.prems by simp
    have piece: "take (nat r) (drop (nat (off mod 4096)) (io_blk s (bmap (file_map (io_v s) ino) (off div 4096)))) = map (file_byte s ino) [off..off + r - 1]"
    proof (rule nth_equalityI)
      show "length (take (nat r) (drop (nat (off mod 4096)) (io_blk s (bmap (file_map (io_v s) ino) (off div 4096))))) = length (map (file_byte s ino) [off..off + r - 1])"
        using r a(7) by simp
    next
      fix j
      assume "j < length (take (nat r) (drop (nat (off mod 4096)) (io_blk s (bmap (file_map (io_v s) ino) (off div 4096)))))"
      then have j: "j < nat r" by simp
      have "(off + int j) div 4096 = off div 4096 \<and> nat ((off + int j) mod 4096) = nat (off mod 4096) + j"
      proof (rule block_split [of off])
        fix q m
        assume o: "off = 4096 * q + m" "0 \<le> m" "m < 4096" "off div 4096 = q" "off mod 4096 = m"
        have "m + int j < 4096" using j r(3) o(2,5) by linarith
        then have "(off + int j) div 4096 = q" "(off + int j) mod 4096 = m + int j" using o(1,2) by (simp_all add: add.assoc)
        then show ?thesis using o by (simp add: nat_add_distrib)
      qed
      moreover have "[off..off + r - 1] ! j = off + int j" using j r(1) by simp
      ultimately show "take (nat r) (drop (nat (off mod 4096)) (io_blk s (bmap (file_map (io_v s) ino) (off div 4096)))) ! j = map (file_byte s ino) [off..off + r - 1] ! j"
        using j r(1,3) a(7) by (simp add: file_byte_def)
    qed
    have "[off..off + cnt - 1] = [off..off + r - 1] @ [off + r..off + cnt - 1]"
      using upto_split2 [of off "off + r - 1" "off + cnt - 1"] r by simp
    then show ?thesis using c bo ih piece by (subst read_loop.simps) (simp add: Let_def r_def [symmetric])
  qed
qed

lemma file_bytes_nth: "file_at s ino \<Longrightarrow> i < length (file_bytes s ino) \<Longrightarrow> file_bytes s ino ! i = file_byte s ino (int i)"
  by (simp add: file_bytes_def)

lemma length_file_bytes: "length (file_bytes s ino) = nat (isize s ino)"
  by (simp add: file_bytes_def)

lemma isize_put_ft [simp]: "isize (put_ft fid ft s) = isize s" "file_byte (put_ft fid ft s) = file_byte s"
  "file_bytes (put_ft fid ft s) = file_bytes s" "file_at (put_ft fid ft s) = file_at s"
  by (simp_all add: isize_def put_ft_def file_byte_def file_bytes_def file_at_def fun_eq_iff)

lemma writefile_run:
  assumes f: "file_at s ino" and fid: "fid < length (io_ft s)" and ft: "ft_ino (io_ft s ! fid) = ino" "ft_size (io_ft s ! fid) = isize s ino"
    and off: "0 \<le> off" "off \<le> isize s ino" "off + int (length d) < MAX_FILE_SIZE"
    and free: "4 * touched off (length d) \<le> sb_free_blocks (fs_sb (v_fs (io_v s)))"
  shows "\<exists>s'. writefile_core fid d off s = Some (int (length d), s') \<and> file_at s' ino
    \<and> file_bytes s' ino = take (nat off) (file_bytes s ino) @ d @ drop (nat off + length d) (file_bytes s ino)
    \<and> io_ft s' = (io_ft s)[fid := (io_ft s ! fid)\<lparr>ft_rwoffset := off + int (length d), ft_size := isize s' ino\<rparr>]
    \<and> isize s' ino = max (isize s ino) (off + int (length d)) \<and> others_same (io_v s) {ino} (io_v s') \<and> io_dev s' = io_dev s"
proof -
  define s0 where "s0 = put_ft fid ((io_ft s ! fid)\<lparr>ft_rwoffset := off\<rparr>) s"
  have s0: "io_v s0 = io_v s" "io_dev s0 = io_dev s" "io_ft s0 = (io_ft s)[fid := (io_ft s ! fid)\<lparr>ft_rwoffset := off\<rparr>]" by (simp_all add: s0_def put_ft_def)
  have "file_at s0 ino" "isize s0 ino = isize s ino" "file_byte s0 ino = file_byte s ino" using f by (simp_all add: s0_def)
  then obtain s' where s': "write_loop fid d s0 = Some (0, s')" "file_at s' ino" "isize s' ino = max (isize s ino) (off + int (length d))"
    "\<forall>i. 0 \<le> i \<and> i < isize s' ino \<longrightarrow> file_byte s' ino i = (if off \<le> i \<and> i < off + int (length d) then d ! nat (i - off) else file_byte s ino i)"
    "io_ft s' = (io_ft s0)[fid := (io_ft s0 ! fid)\<lparr>ft_rwoffset := off + int (length d), ft_size := isize s' ino\<rparr>]"
    "others_same (io_v s0) {ino} (io_v s')" "io_dev s' = io_dev s0"
    using write_loop_correct [of s0 ino fid off d] assms by (auto simp: s0)
  have run: "writefile_core fid d off s = Some (int (length d), s')"
    using fid s'(1) by (simp add: writefile_core_def get_file_table_def s0_def)
  have "file_bytes s' ino = take (nat off) (file_bytes s ino) @ d @ drop (nat off + length d) (file_bytes s ino)"
  proof (rule nth_equalityI)
    show "length (file_bytes s' ino) = length (take (nat off) (file_bytes s ino) @ d @ drop (nat off + length d) (file_bytes s ino))"
      using off s'(3) by (simp add: length_file_bytes min_def max_def) linarith
  next
    fix i
    assume i: "i < length (file_bytes s' ino)"
    have b: "file_bytes s' ino ! i = (if off \<le> int i \<and> int i < off + int (length d) then d ! nat (int i - off) else file_byte s ino (int i))"
      using file_bytes_nth [OF s'(2) i] s'(4) i by (simp add: length_file_bytes)
    have old: "file_byte s ino (int i) = file_bytes s ino ! i" if "int i < isize s ino"
      using that file_bytes_nth [OF f, of i] by (simp add: length_file_bytes)
    show "file_bytes s' ino ! i = (take (nat off) (file_bytes s ino) @ d @ drop (nat off + length d) (file_bytes s ino)) ! i"
      using b old i off s'(3) by (auto simp: nth_append length_file_bytes min_def nat_diff_distrib' le_nat_iff)
  qed
  then show ?thesis using run s' fid by (auto simp: s0)
qed

lemma readfile_run:
  assumes f: "file_at s ino" and fid: "fid < length (io_ft s)" "ft_ino (io_ft s ! fid) = ino" and off: "0 \<le> off" "0 \<le> cnt" "off + cnt \<le> isize s ino"
  shows "readfile_core fid cnt off True s
    = Some (cnt, take (nat cnt) (drop (nat off) (file_bytes s ino)), put_ft fid ((io_ft s ! fid)\<lparr>ft_rwoffset := off + cnt\<rparr>) s)"
proof -
  have "map (file_byte s ino) [off..off + cnt - 1] = take (nat cnt) (drop (nat off) (file_bytes s ino))"
    by (rule nth_equalityI) (use off in \<open>auto simp: file_bytes_def\<close>)
  moreover have "int (length (take (nat cnt) (drop (nat off) (file_bytes s ino)))) = cnt"
    using off by (simp add: length_file_bytes min_def) linarith
  ultimately show ?thesis using read_loop_correct [OF f off] fid file_atD(1) [OF f]
    by (simp add: readfile_core_def get_file_table_def del: length_take)
qed

section \<open>Properties\<close>

text \<open>An empty file that is open twice.\<close>

definition two_open :: "vfs \<Rightarrow> nat \<Rightarrow> fio" where
  "two_open v ino = \<lparr>io_v = v, io_ft = init_file_table[3 := zero_ft\<lparr>ft_used := True, ft_ino := ino\<rparr>, 4 := zero_ft\<lparr>ft_used := True, ft_ino := ino\<rparr>],
     io_blk = (\<lambda>_. replicate 4096 7), io_dev = (\<lambda>_. replicate 4096 7)\<rparr>"

lemma two_open_file:
  "\<exists>v ino. file_at (two_open v ino) ino \<and> isize (two_open v ino) ino = 0 \<and> 4 \<le> sb_free_blocks (fs_sb (v_fs v))"
proof -
  obtain v ino where v: "removable v ino ROOT_INO" "i_links_count (inode_of v ino) = 1" "8 \<le> ino" "ino < bgn (v_fs v) * 4096"
    "i_ino (inode_of v ino) = ino" "4 \<le> sb_free_blocks (fs_sb (v_fs v))" "i_size (inode_of v ino) = 0" using one_file_vfs by blast
  have "tree_inv (file_map v ino)" using v(1,2) by (simp add: removable_def file_free_def)
  then show ?thesis using v by (intro exI [of _ v] exI [of _ ino]) (auto simp: file_at_def two_open_def isize_def MAX_FILE_SIZE_def ROOT_INO_def)
qed

lemma two_open_ft: "3 < length (io_ft (two_open v ino))" "4 < length (io_ft (two_open v ino))"
  "ft_ino (io_ft (two_open v ino) ! 3) = ino" "ft_size (io_ft (two_open v ino) ! 3) = 0" "io_v (two_open v ino) = v"
  "io_ft (two_open v ino) ! 4 = zero_ft\<lparr>ft_used := True, ft_ino := ino\<rparr>"
  by (simp_all add: two_open_def init_file_table_def MAX_OPEN_FILE_def zero_ft_def)

lemma touched_small: "0 < n \<Longrightarrow> n \<le> 4096 \<Longrightarrow> touched 0 n = 1"
  using int_div_pos_eq [of "int n + 4095" 4096 1 "int n - 1"] by (simp add: touched_def)

lemma two_open_write:
  assumes "d \<noteq> []" "length d \<le> 4096"
  shows "\<exists>v ino s. writefile_core 3 d 0 (two_open v ino) = Some (int (length d), s) \<and> file_at s ino \<and> file_bytes s ino = d \<and> isize s ino = int (length d)
    \<and> 4 < length (io_ft s) \<and> ft_ino (io_ft s ! 3) = ino \<and> io_ft s ! 4 = zero_ft\<lparr>ft_used := True, ft_ino := ino\<rparr>"
proof -
  obtain v ino where v: "file_at (two_open v ino) ino" "isize (two_open v ino) ino = 0" "4 \<le> sb_free_blocks (fs_sb (v_fs v))"
    using two_open_file by blast
  have e: "file_bytes (two_open v ino) ino = []" using length_file_bytes [of "two_open v ino" ino] v(2) by simp
  have n: "0 < length d" using assms(1) by simp
  obtain s where s: "writefile_core 3 d 0 (two_open v ino) = Some (int (length d), s)" "file_at s ino" "file_bytes s ino = d" "isize s ino = int (length d)"
    "io_ft s = (io_ft (two_open v ino))[3 := (io_ft (two_open v ino) ! 3)\<lparr>ft_rwoffset := 0 + int (length d), ft_size := isize s ino\<rparr>]"
    using writefile_run [OF v(1) two_open_ft(1,3), of 0 d] v(2,3) two_open_ft(4,5) touched_small [OF n assms(2)] e assms(2) by (auto simp: MAX_FILE_SIZE_def)
  then show ?thesis using two_open_ft [of v ino] by (intro exI [of _ v] exI [of _ ino] exI [of _ s]) simp
qed

text \<open>C7: a write within a file or at its end stores exactly its bytes.  For a descriptor that
  knows the size of the file, a position up to this size, and four free blocks for each
  block the write touches, \<open>nvfuse_writefile_core\<close> returns the number of bytes, the contents of the
  file are the old ones with the bytes written in their place (longer if the write passes
  the end), the descriptor has the new position and size, the block map stays a tree
  without shared blocks, and no other inode changes.\<close>

theorem writefile_correct:
  assumes "file_at s ino" "fid < length (io_ft s)" "ft_ino (io_ft s ! fid) = ino" "ft_size (io_ft s ! fid) = isize s ino"
    "0 \<le> off" "off \<le> isize s ino" "off + int (length d) < MAX_FILE_SIZE" "4 * touched off (length d) \<le> sb_free_blocks (fs_sb (v_fs (io_v s)))"
  shows "\<exists>s'. writefile_core fid d off s = Some (int (length d), s') \<and> file_at s' ino
    \<and> file_bytes s' ino = take (nat off) (file_bytes s ino) @ d @ drop (nat off + length d) (file_bytes s ino)
    \<and> io_ft s' = (io_ft s)[fid := (io_ft s ! fid)\<lparr>ft_rwoffset := off + int (length d), ft_size := isize s' ino\<rparr>]
    \<and> others_same (io_v s) {ino} (io_v s')"
  using writefile_run [OF assms] by blast

theorem writefile_correct_witness:
  "\<exists>v ino s'. writefile_core 3 [1, 2, 3] 0 (two_open v ino) = Some (3, s') \<and> file_bytes s' ino = [1, 2, 3]"
proof -
  obtain v ino where v: "file_at (two_open v ino) ino" "isize (two_open v ino) ino = 0" "4 \<le> sb_free_blocks (fs_sb (v_fs v))"
    using two_open_file by blast
  have e: "file_bytes (two_open v ino) ino = []" using length_file_bytes [of "two_open v ino" ino] v(2) by simp
  have "\<exists>s'. writefile_core 3 [1, 2, 3] 0 (two_open v ino) = Some (int (length [1::u8, 2, 3]), s') \<and> file_at s' ino
    \<and> file_bytes s' ino = take (nat 0) (file_bytes (two_open v ino) ino) @ [1, 2, 3] @ drop (nat 0 + length [1::u8, 2, 3]) (file_bytes (two_open v ino) ino)
    \<and> io_ft s' = (io_ft (two_open v ino))[3 := (io_ft (two_open v ino) ! 3)\<lparr>ft_rwoffset := 0 + int (length [1::u8, 2, 3]), ft_size := isize s' ino\<rparr>]
    \<and> others_same (io_v (two_open v ino)) {ino} (io_v s')"
    by (rule writefile_correct [OF v(1)]) (use v(2,3) two_open_ft touched_small [of "length [1::u8, 2, 3]"] in \<open>simp_all add: MAX_FILE_SIZE_def\<close>)
  then show ?thesis by (auto simp: e)
qed

text \<open>C8: a read inside a file returns the bytes written last: \<open>nvfuse_readfile_core\<close> copies the
  requested part of the contents, whatever the blocks it crosses, moves the position of
  the descriptor and changes nothing else.\<close>

theorem readfile_correct:
  assumes "file_at s ino" "fid < length (io_ft s)" "ft_ino (io_ft s ! fid) = ino" "0 \<le> off" "0 \<le> cnt" "off + cnt \<le> isize s ino"
  shows "readfile_core fid cnt off True s
    = Some (cnt, take (nat cnt) (drop (nat off) (file_bytes s ino)), put_ft fid ((io_ft s ! fid)\<lparr>ft_rwoffset := off + cnt\<rparr>) s)"
  using assms by (rule readfile_run)

theorem readfile_correct_witness:
  "\<exists>v ino s1 s2. writefile_core 3 [1, 2, 3] 0 (two_open v ino) = Some (3, s1) \<and> readfile_core 3 2 1 True s1 = Some (2, [2, 3], s2)"
proof -
  obtain v ino s1 where s1: "writefile_core 3 [1, 2, 3] 0 (two_open v ino) = Some (int (length [1::u8, 2, 3]), s1)" "file_at s1 ino" "file_bytes s1 ino = [1, 2, 3]"
    "isize s1 ino = int (length [1::u8, 2, 3])" "4 < length (io_ft s1)" "ft_ino (io_ft s1 ! 3) = ino" using two_open_write [of "[1, 2, 3]"] by auto
  have "3 < length (io_ft s1)" using s1(5) by simp
  from readfile_correct [OF s1(2) this s1(6), of 1 2] have "\<exists>s2. readfile_core 3 2 1 True s1 = Some (2, [2, 3], s2)" using s1(3,4) by simp
  then show ?thesis using s1(1) by auto
qed

text \<open>A read passes the end of the file.  \<open>nvfuse_readfile_core\<close> compares the position with
  the size before each block but copies to the end of the request or of the block, so a
  read of up to a block from a shorter file returns as many bytes as it was asked for, the ones behind the
  end being what the block held before it belonged to the file.\<close>

theorem readfile_passes_end:
  assumes f: "file_at s ino" and fid: "fid < length (io_ft s)" "ft_ino (io_ft s ! fid) = ino" and c: "0 < isize s ino" "isize s ino < cnt" "cnt \<le> 4096"
  shows "\<exists>s'. readfile_core fid cnt 0 True s = Some (cnt, file_bytes s ino @ drop (nat (isize s ino)) (take (nat cnt) (io_blk s (bmap (file_map (io_v s) ino) 0))), s')"
proof -
  note a = file_atD [OF f]
  let ?b = "bmap (file_map (io_v s) ino) 0"
  have b: "block_of ino 0 s = Some ?b" using block_of_bmap [of 0] a(6) [of 0] c(1) by (simp add: max_lblock_def)
  have "read_loop ino 0 cnt s = Some []" by (subst read_loop.simps) simp
  then have "read_loop ino cnt 0 s = Some (take (nat cnt) (io_blk s ?b))"
    using c b by (subst read_loop.simps) (simp add: Let_def)
  moreover have "take (nat cnt) (io_blk s ?b) = file_bytes s ino @ drop (nat (isize s ino)) (take (nat cnt) (io_blk s ?b))"
  proof -
    have "file_bytes s ino = take (nat (isize s ino)) (take (nat cnt) (io_blk s ?b))"
      by (rule nth_equalityI) (use c a(7) in \<open>auto simp: file_bytes_def file_byte_def\<close>)
    then show ?thesis by (metis append_take_drop_id)
  qed
  moreover have "int (length (take (nat cnt) (io_blk s ?b))) = cnt" using c a(7) by simp
  ultimately show ?thesis using fid a(1) by (simp add: readfile_core_def get_file_table_def del: length_take) 
qed

theorem readfile_passes_end_witness:
  "\<exists>v ino s1 s2. writefile_core 3 [1] 0 (two_open v ino) = Some (1, s1) \<and> file_bytes s1 ino = [1]
    \<and> (\<exists>d. readfile_core 3 4 0 True s1 = Some (4, 1 # d, s2))"
proof -
  obtain v ino s1 where s1: "writefile_core 3 [1] 0 (two_open v ino) = Some (1, s1)" "file_at s1 ino" "file_bytes s1 ino = [1]"
    "isize s1 ino = 1" "4 < length (io_ft s1)" "ft_ino (io_ft s1 ! 3) = ino" using two_open_write [of "[1]"] by auto
  have "3 < length (io_ft s1)" using s1(5) by simp
  from readfile_passes_end [OF s1(2) this s1(6), of 4] have "\<exists>s2 d. readfile_core 3 4 0 True s1 = Some (4, 1 # d, s2)" using s1(3,4) by auto
  then show ?thesis using s1(1,3) by blast
qed

text \<open>A second descriptor cuts the file.  The size of a file is copied into the descriptor when it is
  opened, and \<open>nvfuse_writefile_core\<close> stores this copy back into the inode.  A short write
  through a descriptor that was opened before the file grew makes the file as short as
  this descriptor knows it, and the data written since then are lost.\<close>

theorem stale_descriptor_cuts_file:
  assumes f: "file_at s ino" and fid: "fid < length (io_ft s)" "ft_ino (io_ft s ! fid) = ino"
    and d: "d \<noteq> []" "length d \<le> 4096" "max (int (length d)) (ft_size (io_ft s ! fid)) < isize s ino"
  shows "\<exists>s'. writefile_core fid d 0 s = Some (int (length d), s') \<and> isize s' ino = max (int (length d)) (ft_size (io_ft s ! fid))
    \<and> length (file_bytes s' ino) < length (file_bytes s ino)"
proof -
  note a = file_atD [OF f]
  define s0 where "s0 = put_ft fid ((io_ft s ! fid)\<lparr>ft_rwoffset := 0\<rparr>) s"
  have s0: "io_v s0 = io_v s" "io_ft s0 ! fid = (io_ft s ! fid)\<lparr>ft_rwoffset := 0\<rparr>" "fid < length (io_ft s0)"
    using fid by (simp_all add: s0_def put_ft_def)
  let ?b = "bmap (file_map (io_v s) ino) 0"
  have b: "block_of ino 0 (s0\<lparr>io_v := io_v s\<rparr>) = Some ?b"
    using block_of_bmap [of 0 "s0\<lparr>io_v := io_v s\<rparr>" ino] a(6) [of 0] d(3) by (simp add: max_lblock_def)
  have sz: "\<not> i_size (inode_of (io_v s) ino) \<le> 0" "max (int (length d)) (ft_size (io_ft s ! fid)) < MAX_FILE_SIZE"
    using d(3) a(5) by (simp_all add: isize_def)
  have "\<exists>s'. write_loop fid d s0 = Some (0, s') \<and> isize s' ino = max (int (length d)) (ft_size (io_ft s ! fid))"
  proof -
    have e: "write_loop fid [] x = Some (0, x)" for x by (subst write_loop.simps) simp
    show ?thesis using d fid sz b s0 a(1)
      by (subst write_loop.simps) (simp add: get_file_table_def Let_def min_def e isize_def put_ft_def)
  qed
  then obtain s' where s': "write_loop fid d s0 = Some (0, s')" "isize s' ino = max (int (length d)) (ft_size (io_ft s ! fid))" by blast
  then have "writefile_core fid d 0 s = Some (int (length d), s')" using fid by (simp add: writefile_core_def get_file_table_def s0_def)
  then show ?thesis using s'(2) d(3) by (auto simp: length_file_bytes)
qed

theorem stale_descriptor_cuts_file_witness:
  "\<exists>v ino s1 s2. writefile_core 3 [1, 2, 3] 0 (two_open v ino) = Some (3, s1) \<and> writefile_core 4 [9] 0 s1 = Some (1, s2)
    \<and> length (file_bytes s1 ino) = 3 \<and> length (file_bytes s2 ino) = 1"
proof -
  obtain v ino s1 where s1: "writefile_core 3 [1, 2, 3] 0 (two_open v ino) = Some (int (length [1::u8, 2, 3]), s1)" "file_at s1 ino"
    "isize s1 ino = int (length [1::u8, 2, 3])" "4 < length (io_ft s1)" "io_ft s1 ! 4 = zero_ft\<lparr>ft_used := True, ft_ino := ino\<rparr>"
    using two_open_write [of "[1, 2, 3]"] by auto
  have "\<exists>s2. writefile_core 4 [9] 0 s1 = Some (1, s2) \<and> isize s2 ino = 1"
    using stale_descriptor_cuts_file [OF s1(2,4), of "[9]"] s1(3,5) by (auto simp: zero_ft_def)
  then obtain s2 where s2: "writefile_core 4 [9] 0 s1 = Some (1, s2)" "isize s2 ino = 1" by blast
  have "length (file_bytes s1 ino) = 3" "length (file_bytes s2 ino) = 1" using s1(3) s2(2) by (simp_all add: length_file_bytes)
  then show ?thesis using s1(1) s2(1) by auto
qed



end
