(* ===== verification/Path.thy ===== *)
theory Path
  imports FileIo
begin

text \<open>
  Paths: \<open>fat_dirname\<close> and \<open>fat_filename\<close> of \<open>nvfuse_dep.c\<close>, the walks \<open>nvfuse_path_open\<close> and
  \<open>nvfuse_path_open2\<close> of \<open>nvfuse_core.c\<close>, and the calls of \<open>nvfuse_api.c\<close> that take a path: they
  resolve the directory of the path and then use the operations of \<open>Directory\<close> and
  \<open>FileIo\<close>.  A handle has the inode of the root and of the working directory.  The buffers for
  names have 116 bytes and the copy of a path 256; a longer string is an access outside of
  them, \<open>None\<close>.
\<close>

section \<open>Splitting a path\<close>

abbreviation slash :: char where "slash \<equiv> CHR ''/''"

definition strrchr :: "string \<Rightarrow> nat option" where
  "strrchr p = (case filter (\<lambda>i. p ! i = slash) [0..<length p] of [] \<Rightarrow> None | is \<Rightarrow> Some (last is))"

definition fat_dirname :: "string \<Rightarrow> string option" where
  "fat_dirname p = (case strrchr p of None \<Rightarrow> None | Some i \<Rightarrow> Some (if i = 0 then take 1 p else take i p))"

definition fat_filename :: "string \<Rightarrow> string" where
  "fat_filename p = (case strrchr p of None \<Rightarrow> p | Some i \<Rightarrow> drop (i + 1) p)"

text \<open>The tokens of \<open>strtok (b, "/")\<close>.\<close>

fun tokens_from :: "string \<Rightarrow> string \<Rightarrow> string list" where
  "tokens_from acc [] = (if acc = [] then [] else [acc])"
| "tokens_from acc (c # p) =
    (if c = slash then (if acc = [] then tokens_from [] p else acc # tokens_from [] p) else tokens_from (acc @ [c]) p)"

definition tokens :: "string \<Rightarrow> string list" where
  "tokens p = tokens_from [] p"

text \<open>The loop of \<open>nvfuse_path_open2\<close> that looks for the last slash, down to index 1.\<close>

fun scan_slash :: "string \<Rightarrow> nat \<Rightarrow> nat" where
  "scan_slash b 0 = 0"
| "scan_slash b (Suc i) = (if b ! i \<noteq> slash \<and> i > 1 then scan_slash b i else i)"

section \<open>Walking\<close>

record handle =
  h_root :: nat
  h_cwd :: nat

fun walk :: "nat \<Rightarrow> string list \<Rightarrow> vfs \<Rightarrow> (int \<times> nat) option" where
  "walk dir [] v = Some (0, dir)"
| "walk dir (name # names) v = do {
     (r, d) \<leftarrow> lookup dir name v;
     if r < 0 then Some (-1, 0) else walk (d_ino (the d)) names v }"

definition start_dir :: "handle \<Rightarrow> string \<Rightarrow> nat" where
  "start_dir h p = (if p \<noteq> [] \<and> hd p = slash then h_root h else h_cwd h)"

definition path_open :: "handle \<Rightarrow> string \<Rightarrow> vfs \<Rightarrow> (int \<times> nat) option" where
  "path_open h p v = do { assert_opt (length p < 256); walk (start_dir h p) (tokens p) v }"

definition path_open2 :: "handle \<Rightarrow> string \<Rightarrow> vfs \<Rightarrow> (int \<times> nat) option" where
  "path_open2 h p v = do {
     assert_opt (length p < 256 \<and> p \<noteq> []);
     if last p = slash then Some (-1, 0)
     else let i = scan_slash p (length p); b = (if p ! i = slash then take i p else p) in
       if slash \<notin> set p then Some (0, start_dir h p) else walk (start_dir h p) (tokens b) v }"

text \<open>The result code, the inode of the directory and the name in it.\<close>

definition path_resolve :: "handle \<Rightarrow> string \<Rightarrow> vfs \<Rightarrow> (int \<times> nat \<times> string) option" where
  "path_resolve h p v =
    (let name = fat_filename p in do {
       assert_opt (length name < FNAME_SIZE);
       if p \<noteq> [] \<and> hd p = slash then do {
         assert_opt (length p < FNAME_SIZE);
         d \<leftarrow> fat_dirname p;
         (r, ino) \<leftarrow> path_open h d v;
         Some (r, ino, name) }
       else do { (r, ino) \<leftarrow> path_open2 h p v; Some (r, ino, name) } })"

section \<open>Calls with a path\<close>

text \<open>The shape of the calls: resolve, refuse inode 0, then the operation in the directory.\<close>

definition in_dir :: "handle \<Rightarrow> string \<Rightarrow> (nat \<Rightarrow> string \<Rightarrow> vfs \<Rightarrow> (int \<times> vfs) option) \<Rightarrow> vfs \<Rightarrow> (int \<times> vfs) option" where
  "in_dir h p f v = do {
     (r, dir, name) \<leftarrow> path_resolve h p v;
     if r < 0 then Some (r, v) else if dir = 0 then Some (-1, v) else f dir name v }"

definition rmfile_path :: "handle \<Rightarrow> string \<Rightarrow> vfs \<Rightarrow> (int \<times> vfs) option" where
  "rmfile_path h p v = in_dir h p rmfile v"

definition rmdir_path :: "handle \<Rightarrow> string \<Rightarrow> vfs \<Rightarrow> (int \<times> vfs) option" where
  "rmdir_path h p v = in_dir h p rmdir v"

definition mkdir_path :: "nat \<Rightarrow> handle \<Rightarrow> string \<Rightarrow> nat \<Rightarrow> vfs \<Rightarrow> (int \<times> vfs) option" where
  "mkdir_path now h p mode v = in_dir h p (\<lambda>dir name v. do { (r, ino, v1) \<leftarrow> mkdir now dir name mode v; Some (r, v1) }) v"

text \<open>\<open>nvfuse_mknod\<close> forgets the error of a directory with inode 0.\<close>

definition mknod :: "nat \<Rightarrow> handle \<Rightarrow> string \<Rightarrow> nat \<Rightarrow> u32 \<times> u32 \<Rightarrow> vfs \<Rightarrow> (int \<times> vfs) option" where
  "mknod now h p mode dev v = do {
     (r, dir, name) \<leftarrow> path_resolve h p v;
     if r < 0 then Some (r, v)
     else if dir = 0 then Some (0, v)
     else do {
       (r, d) \<leftarrow> lookup dir name v;
       if r = 0 then Some (-1, v)
       else do { (r, ino, v1) \<leftarrow> createfile now dir name mode dev v; Some (if r < 0 then r else 0, v1) } } }"

definition rename_path :: "handle \<Rightarrow> string \<Rightarrow> string \<Rightarrow> vfs \<Rightarrow> (int \<times> vfs) option" where
  "rename_path h p q v = do {
     (r, dir, name) \<leftarrow> path_resolve h p v;
     if r < 0 then Some (r, v)
     else do {
       (r', dir', name') \<leftarrow> path_resolve h q v;
       if r' < 0 then Some (r', v) else rename dir name dir' name' v } }"

definition hardlink_path :: "handle \<Rightarrow> string \<Rightarrow> string \<Rightarrow> vfs \<Rightarrow> (int \<times> vfs) option" where
  "hardlink_path h p q v = do {
     (r, dir, name) \<leftarrow> path_resolve h p v;
     if r < 0 then Some (r, v)
     else do {
       (r', dir', name') \<leftarrow> path_resolve h q v;
       if r' < 0 then Some (r', v) else hardlink dir name dir' name' v } }"

definition openfile_path :: "nat \<Rightarrow> handle \<Rightarrow> string \<Rightarrow> int \<Rightarrow> nat \<Rightarrow> fio \<Rightarrow> (int \<times> fio) option" where
  "openfile_path now h p flags mode s = do {
     (r, dir, name) \<leftarrow> path_resolve h p (io_v s);
     if r < 0 then Some (r, s) else if dir = 0 then Some (-1, s) else openfile now dir name flags mode s }"

definition truncate_path :: "handle \<Rightarrow> string \<Rightarrow> int \<Rightarrow> fio \<Rightarrow> (int \<times> fio) option" where
  "truncate_path h p sz s = do {
     (r, dir, name) \<leftarrow> path_resolve h p (io_v s);
     if r < 0 then Some (r, s) else if dir = 0 then Some (-1, s) else truncate_file dir name sz s }"

definition fallocate_path :: "handle \<Rightarrow> string \<Rightarrow> int \<Rightarrow> int \<Rightarrow> fio \<Rightarrow> (int \<times> fio) option" where
  "fallocate_path h p start len s = do {
     (r, dir, name) \<leftarrow> path_resolve h p (io_v s);
     if r < 0 then Some (r, s) else if dir = 0 then Some (-1, s) else fallocate dir name start len s }"

definition symlink_path :: "nat \<Rightarrow> handle \<Rightarrow> string \<Rightarrow> string \<Rightarrow> fio \<Rightarrow> (int \<times> fio) option" where
  "symlink_path now h target p s = do {
     (r, dir, name) \<leftarrow> path_resolve h p (io_v s);
     if r < 0 then Some (r, s) else symlink now target dir name s }"

definition readlink :: "handle \<Rightarrow> string \<Rightarrow> int \<Rightarrow> fio \<Rightarrow> (int \<times> u8 list \<times> fio) option" where
  "readlink h p sz s =
    (if p = ''/'' then Some (-1, [], s)
     else do {
       (r, dir, name) \<leftarrow> path_resolve h p (io_v s);
       if r < 0 then Some (r, [], s)
       else do {
         (r, d) \<leftarrow> lookup dir name (io_v s);
         if r < 0 then Some (-1, [], s)
         else if d_ino (the d) = 0 then Some (-1, [], s) else readlink_ino (d_ino (the d)) sz s } })"

section \<open>Directories\<close>

definition opendir :: "handle \<Rightarrow> string \<Rightarrow> vfs \<Rightarrow> int option" where
  "opendir h p v = do {
     (r, dir, name) \<leftarrow> path_resolve h p v;
     if r < 0 then Some r
     else if name = [] then Some (int dir)
     else do {
       (r, d) \<leftarrow> lookup dir name v;
       Some (if r < 0 then -1 else int (d_ino (the d))) } }"

text \<open>The entry at a position: inode, name and whether it is a directory.\<close>

definition readdir :: "nat \<Rightarrow> nat \<Rightarrow> vfs \<Rightarrow> (nat \<times> string \<times> bool) option option" where
  "readdir dir off v = do {
     dp \<leftarrow> read_inode dir v;
     if i_size dp \<le> int (off * 128) then Some None
     else do {
       d \<leftarrow> dentry_at dir off v;
       if dir_is_invalid d then Some None
       else do {
         ip \<leftarrow> read_inode (d_ino d) v;
         Some (Some (d_ino d, d_filename d, i_type ip = NVFUSE_TYPE_DIRECTORY)) } } }"

section \<open>Attributes\<close>

record stat =
  st_ino :: nat
  st_mode :: nat
  st_nlink :: nat
  st_size :: int
  st_atime :: nat
  st_mtime :: nat
  st_ctime :: nat
  st_gid :: nat
  st_uid :: nat
  st_rdev :: "u32 \<times> u32"

definition zero_stat :: stat where
  "zero_stat = \<lparr>st_ino = 0, st_mode = 0, st_nlink = 0, st_size = 0, st_atime = 0, st_mtime = 0, st_ctime = 0,
     st_gid = 0, st_uid = 0, st_rdev = (0, 0)\<rparr>"

definition ENOENT :: int where "ENOENT = 2"

definition stat_of :: "inode \<Rightarrow> stat" where
  "stat_of ip = \<lparr>st_ino = i_ino ip, st_mode = i_mode ip, st_nlink = i_links_count ip, st_size = i_size ip,
     st_atime = i_atime ip, st_mtime = i_mtime ip, st_ctime = i_ctime ip, st_gid = i_gid ip, st_uid = i_uid ip,
     st_rdev = (if is_device (i_mode ip) then old_decode_dev (word_of_nat (i_blocks ip ! 0))
                else new_decode_dev (word_of_nat (i_blocks ip ! 1)))\<rparr>"

definition getattr :: "handle \<Rightarrow> string \<Rightarrow> vfs \<Rightarrow> (int \<times> stat) option" where
  "getattr h p v =
    (if p = ''/'' then Some (0, zero_stat\<lparr>st_mode := 16384 + 493, st_nlink := 2\<rparr>)
     else do {
       (r, dir, name) \<leftarrow> path_resolve h p v;
       if r < 0 then Some (r, zero_stat)
       else if dir = 0 then Some (- ENOENT, zero_stat)
       else do {
         (r, d) \<leftarrow> lookup dir name v;
         if r < 0 then Some (- ENOENT, zero_stat)
         else do { ip \<leftarrow> read_inode (d_ino (the d)) v; Some (0, stat_of ip) } } })"

text \<open>The result of the root is an uninitialised variable, \<open>None\<close>.\<close>

definition fgetattr :: "string \<Rightarrow> nat \<Rightarrow> fio \<Rightarrow> (int \<times> stat) option" where
  "fgetattr p fd s =
    (if p = ''/'' then None
     else do {
       ft \<leftarrow> get_file_table (io_ft s) fd;
       ip \<leftarrow> read_inode (ft_ino ft) (io_v s);
       Some (0, zero_stat\<lparr>st_mode := i_mode ip, st_nlink := i_links_count ip, st_size := i_size ip,
         st_atime := i_atime ip, st_mtime := i_mtime ip, st_ctime := i_ctime ip\<rparr>) })"

definition W_OK :: nat where "W_OK = 2"

definition access :: "handle \<Rightarrow> string \<Rightarrow> nat \<Rightarrow> vfs \<Rightarrow> int option" where
  "access h p msk v =
    (if p = ''/'' then Some 0
     else do {
       (r, dir, name) \<leftarrow> path_resolve h p v;
       if r < 0 then Some r
       else if dir = 0 then Some (-1)
       else do {
         (r, d) \<leftarrow> lookup dir name v;
         if r < 0 then Some (-1)
         else do {
           ip \<leftarrow> read_inode (d_ino (the d)) v;
           Some (if i_type ip \<noteq> NVFUSE_TYPE_FILE \<and> msk AND W_OK \<noteq> 0 then -1 else 0) } } })"

text \<open>Calls that change the inode of a path.\<close>

definition change_attr :: "handle \<Rightarrow> string \<Rightarrow> (inode \<Rightarrow> inode) \<Rightarrow> vfs \<Rightarrow> (int \<times> vfs) option" where
  "change_attr h p f v =
    (if p = ''/'' then Some (-1, v)
     else in_dir h p (\<lambda>dir name v. do {
       (r, d) \<leftarrow> lookup dir name v;
       if r < 0 then Some (-1, v)
       else do { ip \<leftarrow> read_inode (d_ino (the d)) v; Some (0, set_inode (d_ino (the d)) (f ip) v) } }) v)"

text \<open>The mask of the permission bits is \<open>07777\<close>.\<close>

definition chmod_mode :: "nat \<Rightarrow> nat \<Rightarrow> nat" where
  "chmod_mode old mode = old div 4096 * 4096 + mode mod 4096"

definition chmod :: "nat \<Rightarrow> string \<Rightarrow> nat \<Rightarrow> vfs \<Rightarrow> (int \<times> vfs) option" where
  "chmod dir name mode v = do {
     dp \<leftarrow> read_inode dir v;
     e \<leftarrow> find_existing_dentry dir name v;
     assert_opt (e \<noteq> NO_ENTRY);
     d \<leftarrow> dentry_at dir e v;
     ip \<leftarrow> read_inode (d_ino d) v;
     Some (0, set_inode (d_ino d) (ip\<lparr>i_mode := chmod_mode (i_mode ip) mode\<rparr>) v) }"

definition chmod_path :: "handle \<Rightarrow> string \<Rightarrow> nat \<Rightarrow> vfs \<Rightarrow> (int \<times> vfs) option" where
  "chmod_path h p mode v = change_attr h p (\<lambda>ip. ip\<lparr>i_mode := chmod_mode (i_mode ip) mode\<rparr>) v"

definition chown :: "handle \<Rightarrow> string \<Rightarrow> nat \<Rightarrow> nat \<Rightarrow> vfs \<Rightarrow> (int \<times> vfs) option" where
  "chown h p uid gid v = change_attr h p (\<lambda>ip. ip\<lparr>i_uid := uid, i_gid := gid\<rparr>) v"

definition utimens :: "handle \<Rightarrow> string \<Rightarrow> nat \<Rightarrow> nat \<Rightarrow> vfs \<Rightarrow> (int \<times> vfs) option" where
  "utimens h p atime mtime v = change_attr h p (\<lambda>ip. ip\<lparr>i_atime := atime, i_mtime := mtime\<rparr>) v"

section \<open>Names of a path\<close>

lemma strrchr_Some:
  assumes "strrchr p = Some i"
  shows "p = take i p @ slash # drop (i + 1) p" "slash \<notin> set (drop (i + 1) p)" "i < length p"
proof -
  define xs where "xs = filter (\<lambda>i. p ! i = slash) [0..<length p]"
  have ne: "xs \<noteq> []" "last xs = i" using assms unfolding strrchr_def xs_def [symmetric] by (auto split: list.splits)
  then have "i \<in> set xs" by auto
  then show l: "i < length p" and pi: "p = take i p @ slash # drop (i + 1) p" using id_take_nth_drop [of i p] by (auto simp: xs_def)
  have "sorted (butlast xs @ [last xs])" using ne(1) by (simp add: xs_def sorted_wrt_filter)
  then have up: "j \<le> i" if "j \<in> set (butlast xs @ [last xs])" for j using that ne(2) by (auto simp: sorted_append)
  show "slash \<notin> set (drop (i + 1) p)"
  proof
    assume "slash \<in> set (drop (i + 1) p)"
    then obtain j where "j < length p - (i + 1)" "p ! (i + 1 + j) = slash" by (auto simp: in_set_conv_nth)
    then have "i + 1 + j \<in> set xs" by (auto simp: xs_def)
    then show False using up [of "i + 1 + j"] ne(1) by simp
  qed
qed

lemma strrchr_None: "strrchr p = None \<longleftrightarrow> slash \<notin> set p"
proof -
  have "filter (\<lambda>i. p ! i = slash) [0..<length p] = [] \<longleftrightarrow> slash \<notin> set p" by (auto simp: filter_empty_conv in_set_conv_nth)
  then show ?thesis by (cases "filter (\<lambda>i. p ! i = slash) [0..<length p]") (auto simp: strrchr_def)
qed

lemma tokens_slash: "tokens_from acc (xs @ slash # ys) = tokens_from acc xs @ tokens_from [] ys"
  by (induction acc xs rule: tokens_from.induct) simp_all

lemma tokens_plain: "slash \<notin> set xs \<Longrightarrow> tokens_from acc xs = (if acc @ xs = [] then [] else [acc @ xs])"
  by (induction acc xs rule: tokens_from.induct) auto

lemma tokens_split:
  assumes "slash \<in> set p"
  shows "\<exists>d. fat_dirname p = Some d \<and> tokens p = tokens d @ (if fat_filename p = [] then [] else [fat_filename p])
    \<and> slash \<notin> set (fat_filename p) \<and> length d \<le> length p \<and> (hd p = slash \<longrightarrow> d \<noteq> [] \<and> hd d = slash)"
proof -
  obtain i where i: "strrchr p = Some i" using assms strrchr_None [of p] by (cases "strrchr p") auto
  note f = strrchr_Some [OF i]
  have fn: "fat_filename p = drop (i + 1) p" by (simp add: fat_filename_def i)
  have t: "tokens p = tokens_from [] (take i p) @ tokens_from [] (drop (i + 1) p)"
    unfolding tokens_def by (subst f(1)) (rule tokens_slash)
  have last: "tokens_from [] (drop (i + 1) p) = (if fat_filename p = [] then [] else [fat_filename p])"
    using tokens_plain [OF f(2), of "[]"] by (simp add: fn)
  define d where "d = (if i = 0 then take 1 p else take i p)"
  have d: "fat_dirname p = Some d" by (simp add: fat_dirname_def i d_def)
  have p0: "i = 0 \<Longrightarrow> p = slash # drop 1 p" using f(1) by simp
  have "tokens d = tokens_from [] (take i p)"
  proof (cases "i = 0")
    case True
    then have "d = [slash]" using p0 by (metis d_def take_Suc_Cons take0 One_nat_def)
    then show ?thesis using True by (simp add: tokens_def)
  qed (simp add: d_def tokens_def)
  moreover have "hd p = slash \<longrightarrow> d \<noteq> [] \<and> hd d = slash" using f(3) by (auto simp: d_def hd_conv_nth)
  moreover have "length d \<le> length p" by (simp add: d_def)
  ultimately show ?thesis using d t last f(2) fn by auto
qed

section \<open>Following names\<close>

fun follow :: "vfs \<Rightarrow> nat \<Rightarrow> string list \<Rightarrow> nat option" where
  "follow v dir [] = Some dir"
| "follow v dir (name # names) =
    (if i_bpino (inode_of v dir) = 0 then None
     else case dir_map v dir name of None \<Rightarrow> None | Some i \<Rightarrow> follow v i names)"

text \<open>Every directory on the way is consistent, and no name on the way has the hash of another
  name of its directory.\<close>

fun walk_ok :: "vfs \<Rightarrow> nat \<Rightarrow> string list \<Rightarrow> bool" where
  "walk_ok v dir [] = True"
| "walk_ok v dir (name # names) =
    (if i_bpino (inode_of v dir) = 0 then ROOT_INO \<le> dir \<and> i_ino (inode_of v dir) = dir
     else dir_ok v dir \<and> name \<noteq> ''.'' \<and> name \<noteq> ''..'' \<and> 0 < key_of name
       \<and> (\<forall>m\<in>dom (dir_map v dir). key_of m = key_of name \<longrightarrow> m = name)
       \<and> (\<forall>i\<in>ran (dir_map v dir). 0 < i \<and> i < bgn (v_fs v) * 4096)
       \<and> (case dir_map v dir name of None \<Rightarrow> True | Some i \<Rightarrow> walk_ok v i names))"

lemma walk_follows:
  "walk_ok v dir names \<Longrightarrow> walk dir names v = Some (case follow v dir names of None \<Rightarrow> (-1, 0) | Some i \<Rightarrow> (0, i))"
proof (induction names arbitrary: dir)
  case (Cons name names)
  show ?case
  proof (cases "i_bpino (inode_of v dir) = 0")
    case True
    then have "lookup dir name v = Some (-1, None)" using Cons.prems by (simp add: lookup_def read_inode_def)
    then show ?thesis using True by simp
  next
    case False
    then have ok: "dir_ok v dir" "name \<noteq> ''.''" "name \<noteq> ''..''" "0 < key_of name"
      "\<And>m. m \<in> dom (dir_map v dir) \<Longrightarrow> key_of m = key_of name \<Longrightarrow> m = name" "\<And>i. i \<in> ran (dir_map v dir) \<Longrightarrow> 0 < i \<and> i < bgn (v_fs v) * 4096"
      "case dir_map v dir name of None \<Rightarrow> True | Some i \<Rightarrow> walk_ok v i names" using Cons.prems by auto
    obtain r d where l: "lookup dir name v = Some (r, d)" "map_option d_ino d = dir_map v dir name" "r = (if dir_map v dir name = None then -1 else 0)"
      using lookup_run [OF ok(1-6)] by blast
    show ?thesis
    proof (cases "dir_map v dir name")
      case None
      then show ?thesis using l False by simp
    next
      case (Some i)
      then obtain e where "d = Some e" "d_ino e = i" using l(2) by auto
      then show ?thesis using l(1,3) Some False Cons.IH [of i] ok(7) by simp
    qed
  qed
qed simp

section \<open>Properties\<close>

text \<open>C11: the resolution of an absolute path follows its names.  The names of a path of less
  than 116 characters are those of its directory part followed by its last part;
  \<open>nvfuse_path_resolve\<close> returns the inode that the directory maps give for the names before
  the last one, together with the last one, and -1 when one of the names does not exist.\<close>

theorem path_resolve_correct:
  assumes "p \<noteq> []" "hd p = slash" "length p < 116" "walk_ok v (h_root h) (butlast (tokens p @ (if last p = slash then [[]] else [])))"
  shows "\<exists>names. tokens p = names @ (if fat_filename p = [] then [] else [fat_filename p])
    \<and> path_resolve h p v = Some (case follow v (h_root h) names of None \<Rightarrow> (-1, 0, fat_filename p) | Some i \<Rightarrow> (0, i, fat_filename p))"
proof -
  have "slash \<in> set p" using assms(1,2) by (metis hd_in_set)
  then obtain d where d: "fat_dirname p = Some d" "tokens p = tokens d @ (if fat_filename p = [] then [] else [fat_filename p])"
    "slash \<notin> set (fat_filename p)" "length d \<le> length p" "d \<noteq> []" "hd d = slash" using tokens_split [of p] assms(2) by auto
  have lastp: "fat_filename p = [] \<longleftrightarrow> last p = slash"
  proof -
    obtain i where i: "strrchr p = Some i" using d(1) by (auto simp: fat_dirname_def split: option.splits)
    note f = strrchr_Some [OF i]
    have fn: "fat_filename p = drop (i + 1) p" by (simp add: fat_filename_def i)
    show ?thesis
    proof
      assume "fat_filename p = []"
      then have "p = take i p @ [slash]" using f(1) unfolding fn by metis
      then show "last p = slash" by (metis last_snoc)
    next
      assume l: "last p = slash"
      show "fat_filename p = []"
      proof (rule ccontr)
        assume ne: "fat_filename p \<noteq> []"
        then have "last p = last (drop (i + 1) p)" unfolding fn by (simp add: last_drop)
        then show False using l ne f(2) last_in_set [of "drop (i + 1) p"] unfolding fn by metis
      qed
    qed
  qed
  have "butlast (tokens p @ (if last p = slash then [[]] else [])) = tokens d"
    using d(2) lastp by (auto simp: butlast_append)
  then have "walk (h_root h) (tokens d) v = Some (case follow v (h_root h) (tokens d) of None \<Rightarrow> (-1, 0) | Some i \<Rightarrow> (0, i))"
    using walk_follows assms(4) by simp
  moreover have "length (fat_filename p) < 116" using assms(3) by (auto simp: fat_filename_def split: option.splits)
  ultimately have "path_resolve h p v = Some (case follow v (h_root h) (tokens d) of None \<Rightarrow> (-1, 0, fat_filename p) | Some i \<Rightarrow> (0, i, fat_filename p))"
    using assms(1-3) d(1,4-6) by (simp add: path_resolve_def path_open_def start_dir_def FNAME_SIZE_def split: option.splits)
  then show ?thesis using d(2) by blast
qed

theorem path_resolve_correct_witness:
  "\<exists>v ino. path_resolve \<lparr>h_root = ROOT_INO, h_cwd = ROOT_INO\<rparr> ''/a/b'' v = Some (0, ino, ''b'') \<and> dir_map v ROOT_INO ''a'' = Some ino"
proof -
  obtain v ino where v: "dir_ok v ROOT_INO" "dir_map v ROOT_INO = [''a'' \<mapsto> ino]" "8 \<le> ino" "ino < bgn (v_fs v) * 4096"
    using one_file_vfs by blast
  have bp: "i_bpino (inode_of v ROOT_INO) \<noteq> 0" using v(1) dir_atD(12) by (auto simp: dir_ok_def)
  have t: "tokens ''/a/b'' = [''a'', ''b'']" "fat_filename ''/a/b'' = ''b''" by (simp_all add: tokens_def fat_filename_def strrchr_def upt_rec)
  have w: "walk_ok v ROOT_INO [''a'']" using v bp keys_ab(1) by simp
  obtain names where names: "tokens ''/a/b'' = names @ (if fat_filename ''/a/b'' = [] then [] else [fat_filename ''/a/b''])"
    "path_resolve \<lparr>h_root = ROOT_INO, h_cwd = ROOT_INO\<rparr> ''/a/b'' v
      = Some (case follow v (h_root \<lparr>h_root = ROOT_INO, h_cwd = ROOT_INO\<rparr>) names of None \<Rightarrow> (-1, 0, fat_filename ''/a/b'') | Some i \<Rightarrow> (0, i, fat_filename ''/a/b''))"
    using path_resolve_correct [of "''/a/b''" v "\<lparr>h_root = ROOT_INO, h_cwd = ROOT_INO\<rparr>"] w t by auto
  then have "path_resolve \<lparr>h_root = ROOT_INO, h_cwd = ROOT_INO\<rparr> ''/a/b'' v = Some (0, ino, ''b'')"
    using bp v(2) names(1) unfolding t by (cases names) auto
  then show ?thesis using v(2) by (metis fun_upd_same)
qed

lemma old_dev_roundtrip:
  assumes "old_valid_dev major minor"
  shows "old_decode_dev (word_of_nat (unat (old_encode_dev major minor))) = (major, minor)"
proof -
  have b: "bit major n \<Longrightarrow> n < 8" "bit minor n \<Longrightarrow> n < 8" for n
  proof -
    have "take_bit 8 x = x" if "x < 256" for x :: "32 word" using that
      by (simp add: take_bit_eq_mod word_less_nat_alt word_arith_nat_mod)
    then have "take_bit 8 major = major" "take_bit 8 minor = minor" using assms by (simp_all add: old_valid_dev_def)
    then show "bit major n \<Longrightarrow> n < 8" "bit minor n \<Longrightarrow> n < 8" by (metis bit_take_bit_iff)+
  qed
  have b': "bit major n \<Longrightarrow> n < 16" "bit major n \<Longrightarrow> n < 24" "bit minor n \<Longrightarrow> n < 16" for n
    using b [of n] by simp_all
  have c255: "(255 :: 16 word) = mask 8" by (simp add: mask_eq_exp_minus_1)
  have w: "word_of_nat (unat (old_encode_dev major minor)) = old_encode_dev major minor" by simp
  have "ucast (drop_bit 8 (old_encode_dev major minor) AND 255) = major"
    by (rule bit_word_eqI) (use b b' in \<open>auto simp: old_encode_dev_def c255 bit_simps\<close>)
  moreover have "ucast (old_encode_dev major minor AND 255) = minor"
    by (rule bit_word_eqI) (use b b' in \<open>auto simp: old_encode_dev_def c255 bit_simps\<close>)
  ultimately show ?thesis unfolding w old_decode_dev_def by simp
qed

text \<open>Device numbers that do not fit into 8 bits are lost.  \<open>nvfuse_createfile\<close> stores them in
  the second block pointer, \<open>nvfuse_getattr\<close> reads the first one for every device, so
  the attributes of such a device show the number 0, while smaller numbers come back as
  they were given.\<close>

theorem device_number_attributes:
  assumes "is_device mode"
  shows "st_rdev (stat_of (new_file_inode now mode (major, minor) (zero_inode\<lparr>i_ino := ino, i_version := 1\<rparr>)))
    = (if old_valid_dev major minor then (major, minor) else (0, 0))"
proof -
  have "old_decode_dev 0 = (0, 0)" by (simp add: old_decode_dev_def)
  then show ?thesis using assms old_dev_roundtrip [of major minor]
    by (simp add: stat_of_def new_file_inode_def dev_blocks_def zero_inode_def)
qed

theorem device_number_attributes_witness:
  "st_rdev (stat_of (new_file_inode 0 8192 (300, 1) (zero_inode\<lparr>i_ino := 9, i_version := 1\<rparr>))) = (0, 0)
    \<and> st_rdev (stat_of (new_file_inode 0 8192 (5, 1) (zero_inode\<lparr>i_ino := 9, i_version := 1\<rparr>))) = (5, 1)"
  using device_number_attributes [of 8192 0 300 1 9] device_number_attributes [of 8192 0 5 1 9]
  by (simp add: is_device_def old_valid_dev_def)

end
