(* ===== verification/InodeCache.thy ===== *)
theory InodeCache
  imports BufferCache Layout
begin

text \<open>
  The cache of inode contexts, \<open>nvfuse_inode_cache.c\<close>.  A context (\<open>struct nvfuse_inode_ctx\<close>)
  is what an operation holds while it works on an inode; it is locked from \<open>nvfuse_read_inode\<close>
  to \<open>nvfuse_release_inode\<close>.  A context is named by its position in \<open>ictx_buf\<close>; the lists
  have the most recently used context first, and the hash chain number \<open>HASH_NUM\<close> holds the
  unused contexts.  The number of contexts is the argument \<open>n\<close>, in the code
  \<open>NVFUSE_ICTXC_SIZE\<close>; the contents of the memory they are placed in, which
  \<open>spdk_dma_malloc\<close> returns, is an argument as well.

  Operations run one after the other, so a spin lock that is taken is never released while
  another operation waits for it: waiting is \<open>None\<close>, as failed assertions are.  In the configuration contexts
  keep no dirty buffers (\<open>NVFUSE_KEEP_DIRTY_BH_IN_ICTX\<close> is not defined).
\<close>

section \<open>State\<close>

record ictx =
  ic_ino :: nat
  ic_meta_dirty_count :: int
  ic_data_dirty_count :: int
  ic_type :: btype
  ic_st_clean :: bool
  ic_st_dirty :: bool
  ic_st_lock :: bool
  ic_ref :: int
  ic_lock :: bool

record ictx_manager =
  ic_mem :: "nat \<Rightarrow> ictx"
  ic_list :: "btype \<Rightarrow> nat list"
  ic_list_count :: "btype \<Rightarrow> int"
  ic_hash :: "nat \<Rightarrow> nat list"
  ic_hash_count :: "nat \<Rightarrow> int"

definition NVFUSE_ICTXC_SIZE :: nat where "NVFUSE_ICTXC_SIZE = 32 * 1024"

abbreviation upd_ictx :: "nat \<Rightarrow> (ictx \<Rightarrow> ictx) \<Rightarrow> ictx_manager \<Rightarrow> ictx_manager" where
  "upd_ictx c f m \<equiv> m\<lparr>ic_mem := (ic_mem m)(c := f (ic_mem m c))\<rparr>"

abbreviation ibucket :: "nat \<Rightarrow> nat" where
  "ibucket ino \<equiv> ino mod HASH_NUM"

section \<open>Operations\<close>

definition ictx_hash_lookup :: "nat \<Rightarrow> ictx_manager \<Rightarrow> nat option" where
  "ictx_hash_lookup ino m = find (\<lambda>c. ic_ino (ic_mem m c) = ino) (ic_hash m (ibucket ino))"

text \<open>The search for a victim from the end of a list takes the lock of every context on
  its way; when the list is at its end the code sleeps forever.\<close>

fun scan_victim :: "nat list \<Rightarrow> ictx_manager \<Rightarrow> nat option" where
  "scan_victim [] m = None"
| "scan_victim (c # cs) m =
    (let i = ic_mem m c in
     if ic_lock i then None
     else if ic_ref i = 0 \<and> ic_data_dirty_count i = 0 \<and> ic_meta_dirty_count i = 0 then Some c
     else scan_victim cs m)"

definition victim_type :: "ictx_manager \<Rightarrow> btype" where
  "victim_type m =
    (if ic_list_count m BUFFER_TYPE_UNUSED \<noteq> 0 then BUFFER_TYPE_UNUSED
     else if ic_list_count m BUFFER_TYPE_CLEAN \<noteq> 0 then BUFFER_TYPE_CLEAN
     else BUFFER_TYPE_DIRTY)"

definition replace_ictx :: "ictx_manager \<Rightarrow> (nat \<times> ictx_manager) option" where
  "replace_ictx m =
    (let ty = victim_type m in do {
       assert_opt (ic_list_count m ty \<noteq> 0);
       c \<leftarrow> scan_victim (rev (ic_list m ty)) m;
       let h = (if ty = BUFFER_TYPE_UNUSED then HASH_NUM else ibucket (ic_ino (ic_mem m c))) in
       Some (c, m\<lparr>ic_list := (ic_list m)(ty := remove1 c (ic_list m ty)),
                  ic_list_count := (ic_list_count m)(ty := ic_list_count m ty - 1),
                  ic_hash := (\<lambda>i. remove1 c (ic_hash m i)),
                  ic_hash_count := (ic_hash_count m)(h := ic_hash_count m h - 1)\<rparr>) })"

definition init_ictx :: "nat \<Rightarrow> ictx \<Rightarrow> ictx" where
  "init_ictx ino i = i\<lparr>ic_lock := False, ic_ino := ino, ic_meta_dirty_count := 0, ic_data_dirty_count := 0,
     ic_st_clean := False, ic_st_dirty := False, ic_st_lock := False, ic_ref := 0, ic_type := BUFFER_TYPE_UNUSED\<rparr>"

definition alloc_ictx :: "ictx_manager \<Rightarrow> (nat \<times> ictx_manager) option" where
  "alloc_ictx m = do { (c, m1) \<leftarrow> replace_ictx m; Some (c, upd_ictx c (init_ictx 0) m1) }"

definition insert_ictx :: "nat \<Rightarrow> ictx_manager \<Rightarrow> ictx_manager" where
  "insert_ictx c m =
    (let h = ibucket (ic_ino (ic_mem m c)) in
     upd_ictx c (\<lambda>i. i\<lparr>ic_type := BUFFER_TYPE_REF\<rparr>)
       (m\<lparr>ic_hash := (ic_hash m)(h := c # ic_hash m h),
          ic_hash_count := (ic_hash_count m)(h := ic_hash_count m h + 1),
          ic_list := (ic_list m)(BUFFER_TYPE_REF := c # ic_list m BUFFER_TYPE_REF),
          ic_list_count := (ic_list_count m)(BUFFER_TYPE_REF := ic_list_count m BUFFER_TYPE_REF + 1)\<rparr>))"

definition to_front :: "nat \<Rightarrow> ictx_manager \<Rightarrow> ictx_manager" where
  "to_front c m = (let ty = ic_type (ic_mem m c) in m\<lparr>ic_list := (ic_list m)(ty := c # remove1 c (ic_list m ty))\<rparr>)"

definition lock_ictx :: "nat \<Rightarrow> ictx_manager \<Rightarrow> ictx_manager option" where
  "lock_ictx c m = do {
     assert_opt (\<not> ic_lock (ic_mem m c));
     Some (upd_ictx c (\<lambda>i. i\<lparr>ic_lock := True, ic_st_lock := True\<rparr>) m) }"

definition get_ictx :: "nat \<Rightarrow> ictx_manager \<Rightarrow> (nat \<times> ictx_manager) option" where
  "get_ictx ino m = do {
     (c, m1) \<leftarrow> (case ictx_hash_lookup ino m of
        Some c \<Rightarrow> Some (c, m)
      | None \<Rightarrow> do { (c, m1) \<leftarrow> replace_ictx m; Some (c, insert_ictx c (upd_ictx c (init_ictx ino) m1)) });
     let m2 = to_front c m1; i = ic_mem m2 c in do {
       assert_opt (\<not> (ic_type i = BUFFER_TYPE_CLEAN \<and> (ic_data_dirty_count i \<noteq> 0 \<or> ic_meta_dirty_count i \<noteq> 0)));
       m3 \<leftarrow> lock_ictx c m2;
       Some (c, m3) } }"

text \<open>The part of \<open>nvfuse_read_inode\<close> that concerns the context: the given one, or the one
  of the cache.\<close>

definition read_ictx :: "nat option \<Rightarrow> nat \<Rightarrow> ictx_manager \<Rightarrow> (nat option \<times> ictx_manager) option" where
  "read_ictx given ino m =
    (if ino < ROOT_INO then Some (None, m)
     else do {
       (c, m1) \<leftarrow> (case given of None \<Rightarrow> get_ictx ino m | Some c \<Rightarrow> Some (c, upd_ictx c (\<lambda>i. i\<lparr>ic_ino := ino\<rparr>) m));
       assert_opt (ic_lock (ic_mem m1 c) \<and> ic_st_lock (ic_mem m1 c) \<and> ic_ino (ic_mem m1 c) = ino);
       Some (Some c, upd_ictx c (\<lambda>i. i\<lparr>ic_ref := ic_ref i + 1\<rparr>) m1) })"

definition move_ictx_list :: "nat \<Rightarrow> btype \<Rightarrow> ictx_manager \<Rightarrow> ictx_manager" where
  "move_ictx_list c desired m =
    (let ty = ic_type (ic_mem m c);
         h = (if desired = BUFFER_TYPE_UNUSED then HASH_NUM else ibucket (ic_ino (ic_mem m c)));
         m1 = m\<lparr>ic_list := (ic_list m)(ty := remove1 c (ic_list m ty)),
                ic_list_count := (ic_list_count m)(ty := ic_list_count m ty - 1)\<rparr>;
         m2 = upd_ictx c (\<lambda>i. i\<lparr>ic_type := desired\<rparr>) m1;
         m3 = m2\<lparr>ic_list := (ic_list m2)(desired := c # ic_list m2 desired),
                 ic_list_count := (ic_list_count m2)(desired := ic_list_count m2 desired + 1),
                 ic_hash := (\<lambda>i. remove1 c (ic_hash m2 i))\<rparr>
     in m3\<lparr>ic_hash := (ic_hash m3)(h := c # ic_hash m3 h), ic_hash_count := (ic_hash_count m3)(h := ic_hash_count m3 h + 1)\<rparr>)"

definition release_ictx :: "nat \<Rightarrow> ictx_manager \<Rightarrow> ictx_manager option" where
  "release_ictx c m = do {
     assert_opt (ic_data_dirty_count (ic_mem m c) = 0 \<and> ic_meta_dirty_count (ic_mem m c) = 0);
     let m1 = upd_ictx c (\<lambda>i. i\<lparr>ic_st_clean := True, ic_ref := ic_ref i - 1\<rparr>) m in do {
       assert_opt (0 \<le> ic_ref (ic_mem m1 c));
       Some (upd_ictx c (\<lambda>i. i\<lparr>ic_st_lock := False, ic_lock := False\<rparr>) (move_ictx_list c BUFFER_TYPE_CLEAN m1)) } }"

text \<open>How \<open>nvfuse_createfile\<close>, \<open>nvfuse_mkdir\<close> and \<open>bp_init_root\<close> set up the context of a
  new inode; \<open>None\<close> as the number is a failed allocation of the inode, after
  which the function returns.\<close>

definition new_ictx :: "nat option \<Rightarrow> ictx_manager \<Rightarrow> (nat option \<times> ictx_manager) option" where
  "new_ictx ino m = do {
     (c, m1) \<leftarrow> alloc_ictx m;
     m2 \<leftarrow> lock_ictx c m1;
     let m3 = upd_ictx c (\<lambda>i. i\<lparr>ic_st_dirty := True\<rparr>) m2 in
     case ino of
       None \<Rightarrow> Some (None, m3)
     | Some k \<Rightarrow> do {
         (r, m4) \<leftarrow> read_ictx (Some c) k m3;
         case r of None \<Rightarrow> None | Some c \<Rightarrow> Some (Some c, insert_ictx c m4) } }"

definition add_unused :: "nat \<Rightarrow> ictx_manager \<Rightarrow> ictx_manager" where
  "add_unused c m = m\<lparr>ic_list := (ic_list m)(BUFFER_TYPE_UNUSED := c # ic_list m BUFFER_TYPE_UNUSED),
     ic_hash := (ic_hash m)(HASH_NUM := c # ic_hash m HASH_NUM),
     ic_hash_count := (ic_hash_count m)(HASH_NUM := ic_hash_count m HASH_NUM + 1),
     ic_list_count := (ic_list_count m)(BUFFER_TYPE_UNUSED := ic_list_count m BUFFER_TYPE_UNUSED + 1)\<rparr>"

definition init_ictx_cache :: "nat \<Rightarrow> (nat \<Rightarrow> ictx) \<Rightarrow> ictx_manager" where
  "init_ictx_cache n memory = fold add_unused [0..<n]
     \<lparr>ic_mem = memory, ic_list = (\<lambda>_. []), ic_list_count = (\<lambda>_. 0), ic_hash = (\<lambda>_. []), ic_hash_count = (\<lambda>_. 0)\<rparr>"

definition deinit_ictx_cache :: "nat \<Rightarrow> ictx_manager \<Rightarrow> unit option" where
  "deinit_ictx_cache n m =
    assert_opt (sum_list (map (\<lambda>ty. length (ic_list m ty))
      [BUFFER_TYPE_UNUSED, BUFFER_TYPE_REF, BUFFER_TYPE_CLEAN, BUFFER_TYPE_DIRTY, BUFFER_TYPE_FLUSHING]) = n)"

section \<open>Structure\<close>

text \<open>The list a context is in is \<open>pl\<close>; a context that is in no list has been lost.\<close>

definition chain_of :: "btype \<Rightarrow> ictx \<Rightarrow> nat" where
  "chain_of ty i = (if ty = BUFFER_TYPE_UNUSED then HASH_NUM else ibucket (ic_ino i))"

definition ic_str :: "nat \<Rightarrow> (nat \<rightharpoonup> btype) \<Rightarrow> ictx_manager \<Rightarrow> bool" where
  "ic_str n pl m \<longleftrightarrow>
     (\<forall>ty. distinct (ic_list m ty) \<and> ic_list_count m ty = int (length (ic_list m ty)) \<and> set (ic_list m ty) = {c. pl c = Some ty})
   \<and> (\<forall>h. distinct (ic_hash m h) \<and> set (ic_hash m h) = {c. \<exists>ty. pl c = Some ty \<and> h = chain_of ty (ic_mem m c)})
   \<and> (\<forall>c ty. pl c = Some ty \<longrightarrow> c < n \<and> ty \<in> {BUFFER_TYPE_UNUSED, BUFFER_TYPE_REF, BUFFER_TYPE_CLEAN}
        \<and> (ty \<noteq> BUFFER_TYPE_UNUSED \<longrightarrow> ic_type (ic_mem m c) = ty))"

lemma ic_strD:
  assumes "ic_str n pl m"
  shows "distinct (ic_list m ty)" "ic_list_count m ty = int (length (ic_list m ty))" "set (ic_list m ty) = {c. pl c = Some ty}"
    "distinct (ic_hash m h)" "set (ic_hash m h) = {c. \<exists>ty. pl c = Some ty \<and> h = chain_of ty (ic_mem m c)}"
    "pl c = Some ty \<Longrightarrow> c < n" "pl c = Some ty \<Longrightarrow> ty \<in> {BUFFER_TYPE_UNUSED, BUFFER_TYPE_REF, BUFFER_TYPE_CLEAN}"
    "pl c = Some ty \<Longrightarrow> ty \<noteq> BUFFER_TYPE_UNUSED \<Longrightarrow> ic_type (ic_mem m c) = ty"
  using assms by (simp_all add: ic_str_def)

lemma ibucket_less: "ino mod HASH_NUM < HASH_NUM" "ino mod HASH_NUM \<noteq> HASH_NUM"
  by (simp_all add: HASH_NUM_def less_imp_neq)

lemma ic_str_upd:
  assumes "ic_str n pl m" "\<And>i. ic_ino (f i) = ic_ino i" "\<And>i. ic_type (f i) = ic_type i"
  shows "ic_str n pl (upd_ictx c f m)"
proof -
  have "chain_of ty (if d = c then f (ic_mem m c) else ic_mem m d) = chain_of ty (ic_mem m d)" for ty d
    using assms(2) by (simp add: chain_of_def)
  then show ?thesis using assms by (auto simp: ic_str_def)
qed

lemma ic_str_upd_out:
  assumes "ic_str n pl m" "pl c = None"
  shows "ic_str n pl (upd_ictx c f m)"
  using assms by (auto simp: ic_str_def)

lemma ic_str_take:
  assumes "ic_str n pl m" "pl c = Some ty"
  shows "ic_str n (pl(c := None)) (m\<lparr>ic_list := (ic_list m)(ty := remove1 c (ic_list m ty)),
    ic_list_count := (ic_list_count m)(ty := ic_list_count m ty - 1), ic_hash := (\<lambda>i. remove1 c (ic_hash m i)), ic_hash_count := hc\<rparr>)"
proof -
  note i = ic_strD [OF assms(1)]
  have m: "c \<in> set (ic_list m ty)" using assms(2) i(3) by simp
  then have l: "int (length (remove1 c (ic_list m ty))) = int (length (ic_list m ty)) - 1"
    by (cases "length (ic_list m ty)") (simp_all add: length_remove1)
  show ?thesis using i l assms(2) unfolding ic_str_def by (auto simp: set_remove1_eq split: if_splits)
qed

lemma ic_str_put:
  assumes "ic_str n pl m" "pl c = None" "c < n" "ty = BUFFER_TYPE_REF \<or> ty = BUFFER_TYPE_CLEAN" "ic_type i = ty"
  shows "ic_str n (pl(c \<mapsto> ty)) (m\<lparr>ic_mem := (ic_mem m)(c := i), ic_list := (ic_list m)(ty := c # ic_list m ty),
    ic_list_count := (ic_list_count m)(ty := ic_list_count m ty + 1),
    ic_hash := (ic_hash m)(ibucket (ic_ino i) := c # ic_hash m (ibucket (ic_ino i))), ic_hash_count := hc\<rparr>)" (is "ic_str n ?pl ?m")
proof -
  note j = ic_strD [OF assms(1)]
  have l: "distinct (ic_list ?m t) \<and> ic_list_count ?m t = int (length (ic_list ?m t)) \<and> set (ic_list ?m t) = {d. ?pl d = Some t}" for t
    using j(1-3) assms(2) by auto
  have "chain_of ty i = ibucket (ic_ino i)" using assms(4) by (auto simp: chain_of_def)
  then have h: "distinct (ic_hash ?m k) \<and> set (ic_hash ?m k) = {d. \<exists>t. ?pl d = Some t \<and> k = chain_of t (ic_mem ?m d)}" for k
    using j(4,5) assms(2) by auto
  have "d < n \<and> t \<in> {BUFFER_TYPE_UNUSED, BUFFER_TYPE_REF, BUFFER_TYPE_CLEAN} \<and> (t \<noteq> BUFFER_TYPE_UNUSED \<longrightarrow> ic_type (ic_mem ?m d) = t)"
    if "?pl d = Some t" for d t using that j(6-8) [of d t] assms(3-5) by (auto split: if_splits)
  then show ?thesis using l h unfolding ic_str_def by blast
qed

lemma ic_str_insert:
  assumes "ic_str n pl m" "pl c = None" "c < n"
  shows "ic_str n (pl(c \<mapsto> BUFFER_TYPE_REF)) (insert_ictx c m)"
  using ic_str_put [OF assms, of BUFFER_TYPE_REF "(ic_mem m c)\<lparr>ic_type := BUFFER_TYPE_REF\<rparr>"]
  unfolding ic_str_def by (simp add: insert_ictx_def Let_def)

lemma ic_str_front:
  assumes "ic_str n pl m" "pl c = Some ty" "ty \<noteq> BUFFER_TYPE_UNUSED"
  shows "ic_str n pl (to_front c m)"
proof -
  note i = ic_strD [OF assms(1)]
  have t: "ic_type (ic_mem m c) = ty" using i(8) assms(2,3) by simp
  have m: "c \<in> set (ic_list m ty)" using assms(2) i(3) by simp
  then have "int (length (remove1 c (ic_list m ty))) = int (length (ic_list m ty)) - 1"
    by (cases "length (ic_list m ty)") (simp_all add: length_remove1)
  then show ?thesis using i m unfolding ic_str_def to_front_def Let_def t by (auto simp: set_remove1_eq)
qed

lemma ic_str_move:
  assumes "ic_str n pl m" "pl c = Some ty" "ty \<noteq> BUFFER_TYPE_UNUSED"
  shows "ic_str n (pl(c \<mapsto> BUFFER_TYPE_CLEAN)) (move_ictx_list c BUFFER_TYPE_CLEAN m)"
proof -
  note i = ic_strD [OF assms(1)]
  have t: "ic_type (ic_mem m c) = ty" using i(8) assms(2,3) by simp
  have c: "c < n" using i(6) assms(2) by simp
  show ?thesis
    using ic_str_put [OF ic_str_take [OF assms(1,2)] _ c, of BUFFER_TYPE_CLEAN "(ic_mem m c)\<lparr>ic_type := BUFFER_TYPE_CLEAN\<rparr>"]
    by (simp add: move_ictx_list_def Let_def t)
qed

section \<open>Invariant\<close>

lemma find_remove1: "find P xs = Some d \<Longrightarrow> c \<noteq> d \<Longrightarrow> find P (remove1 c xs) = Some d"
  by (induction xs) (auto split: if_splits)

lemma lookup_upd [simp]:
  assumes "\<And>i. ic_ino (f i) = ic_ino i"
  shows "ictx_hash_lookup k (upd_ictx c f m) = ictx_hash_lookup k m"
proof -
  have "(\<lambda>d. ic_ino (((ic_mem m)(c := f (ic_mem m c))) d) = k) = (\<lambda>d. ic_ino (ic_mem m d) = k)" using assms by (auto simp: fun_eq_iff)
  then show ?thesis by (simp add: ictx_hash_lookup_def)
qed

lemma lookup_upd_out:
  assumes "ic_str n pl m" "pl c = None"
  shows "ictx_hash_lookup k (upd_ictx c f m) = ictx_hash_lookup k m"
  using ic_strD(5) [OF assms(1), of "ibucket k"] assms(2) by (auto simp: ictx_hash_lookup_def intro!: find_cong)

lemma lookup_in:
  assumes "ic_str n pl m" "ictx_hash_lookup k m = Some c"
  shows "ic_ino (ic_mem m c) = k" "\<exists>ty. pl c = Some ty \<and> ty \<noteq> BUFFER_TYPE_UNUSED"
proof -
  have c: "c \<in> set (ic_hash m (ibucket k))" "ic_ino (ic_mem m c) = k" using assms(2) by (auto simp: ictx_hash_lookup_def find_Some_iff)
  then obtain ty where "pl c = Some ty" "ibucket k = chain_of ty (ic_mem m c)" using ic_strD(5) [OF assms(1)] by auto
  then show "ic_ino (ic_mem m c) = k" "\<exists>ty. pl c = Some ty \<and> ty \<noteq> BUFFER_TYPE_UNUSED" using c(2) ibucket_less(2) by (auto simp: chain_of_def)
qed

lemma lookup_insert:
  "ictx_hash_lookup k (insert_ictx c m) = (if ic_ino (ic_mem m c) = k then Some c else ictx_hash_lookup k m)"
  by (auto simp: insert_ictx_def Let_def ictx_hash_lookup_def intro!: arg_cong2 [of _ _ _ _ find])

lemma lookup_front [simp]: "ictx_hash_lookup k (to_front c m) = ictx_hash_lookup k m" "ic_mem (to_front c m) = ic_mem m"
  by (simp_all add: to_front_def Let_def ictx_hash_lookup_def)

lemma lookup_move:
  assumes "ictx_hash_lookup k m = Some d" "c \<noteq> d" "ic_ino (ic_mem m c) \<noteq> k"
  shows "ictx_hash_lookup k (move_ictx_list c BUFFER_TYPE_CLEAN m) = Some d"
proof -
  have "(\<lambda>d. ic_ino (((ic_mem m)(c := (ic_mem m c)\<lparr>ic_type := BUFFER_TYPE_CLEAN\<rparr>)) d) = k) = (\<lambda>d. ic_ino (ic_mem m d) = k)" by (auto simp: fun_eq_iff)
  then show ?thesis using assms find_remove1 [of "\<lambda>d. ic_ino (ic_mem m d) = k"] by (auto simp: move_ictx_list_def Let_def ictx_hash_lookup_def)
qed

text \<open>The contexts that are held, with the inode number they were read for; the contexts in
  \<open>X\<close> are being changed.\<close>

definition ctx_ok :: "btype \<Rightarrow> ictx \<Rightarrow> bool \<Rightarrow> bool" where
  "ctx_ok ty i h \<longleftrightarrow> ic_data_dirty_count i = 0 \<and> ic_meta_dirty_count i = 0 \<and> ic_st_lock i = ic_lock i
     \<and> ic_ref i = (if ic_lock i then 1 else 0) \<and> ic_lock i = h \<and> (ty = BUFFER_TYPE_UNUSED \<longrightarrow> \<not> h) \<and> (ty = BUFFER_TYPE_REF \<longrightarrow> h)"

definition ic_inv :: "nat \<Rightarrow> nat set \<Rightarrow> (nat \<rightharpoonup> btype) \<Rightarrow> ictx_manager \<Rightarrow> (nat \<rightharpoonup> nat) \<Rightarrow> bool" where
  "ic_inv n X pl m H \<longleftrightarrow> ic_str n pl m \<and> (\<forall>c ty. c \<notin> X \<and> pl c = Some ty \<longrightarrow> ctx_ok ty (ic_mem m c) (H c \<noteq> None))
     \<and> (\<forall>c k. H c = Some k \<longrightarrow> ictx_hash_lookup k m = Some c)"

lemma ic_inv_held:
  assumes "ic_inv n X pl m H" "H c = Some k"
  shows "ic_ino (ic_mem m c) = k" "\<exists>ty. pl c = Some ty \<and> ty \<noteq> BUFFER_TYPE_UNUSED" "ictx_hash_lookup k m = Some c"
  using lookup_in [of n pl m k c] assms by (auto simp: ic_inv_def)

lemma ic_inv_weaken: "ic_inv n {} pl m H \<Longrightarrow> ic_inv n {c} pl m H"
  by (auto simp: ic_inv_def)

lemma ic_inv_close: "ic_inv n {c} pl m H \<Longrightarrow> (\<And>ty. pl c = Some ty \<Longrightarrow> ctx_ok ty (ic_mem m c) (H c \<noteq> None)) \<Longrightarrow> ic_inv n {} pl m H"
  unfolding ic_inv_def by (metis empty_iff singletonD)

lemma ic_inv_upd:
  assumes "ic_inv n {c} pl m H" "\<And>i. ic_ino (f i) = ic_ino i" "\<And>i. ic_type (f i) = ic_type i"
  shows "ic_inv n {c} pl (upd_ictx c f m) H"
  using assms ic_str_upd [of n pl m f c] by (auto simp: ic_inv_def)

lemma ic_inv_upd_out:
  assumes "ic_inv n {c} pl m H" "pl c = None"
  shows "ic_inv n {c} pl (upd_ictx c f m) H"
  using assms ic_str_upd_out [of n pl m c f] lookup_upd_out [of n pl m c _ f] by (auto simp: ic_inv_def)

lemma ic_inv_insert:
  assumes "ic_inv n {c} pl m H" "pl c = None" "c < n" "ic_ino (ic_mem m c) = k" "k \<notin> ran H"
  shows "ic_inv n {c} (pl(c \<mapsto> BUFFER_TYPE_REF)) (insert_ictx c m) (H(c \<mapsto> k))"
  using assms ic_str_insert [of n pl m c] by (auto simp: ic_inv_def lookup_insert ran_def) (auto simp: insert_ictx_def Let_def)

lemma ic_inv_front:
  assumes "ic_inv n X pl m H" "pl c = Some ty" "ty \<noteq> BUFFER_TYPE_UNUSED"
  shows "ic_inv n X pl (to_front c m) H"
  using assms ic_str_front [of n pl m c ty] by (auto simp: ic_inv_def)

lemma ic_inv_hold:
  assumes "ic_inv n {c} pl m H" "ictx_hash_lookup k m = Some c"
  shows "ic_inv n {c} pl m (H(c \<mapsto> k))"
  using assms by (auto simp: ic_inv_def)

lemma ic_inv_move:
  assumes "ic_inv n {c} pl m H" "H c = Some k" "pl c = Some ty" "ty \<noteq> BUFFER_TYPE_UNUSED"
  shows "ic_inv n {c} (pl(c \<mapsto> BUFFER_TYPE_CLEAN)) (move_ictx_list c BUFFER_TYPE_CLEAN m) (H(c := None))"
proof -
  have i: "ic_str n pl m" "\<And>d j. H d = Some j \<Longrightarrow> ictx_hash_lookup j m = Some d" "ic_ino (ic_mem m c) = k"
    using assms(1) ic_inv_held(1) [OF assms(1,2)] by (auto simp: ic_inv_def)
  have "ictx_hash_lookup j (move_ictx_list c BUFFER_TYPE_CLEAN m) = Some d" if "H d = Some j" "d \<noteq> c" for d j
    using lookup_move [OF i(2) [OF that(1)], of c] that i(2) [of d k] i(2) [OF assms(2)] i(3) by auto
  moreover have "ic_mem (move_ictx_list c BUFFER_TYPE_CLEAN m) d = ic_mem m d" if "d \<noteq> c" for d
    using that by (simp add: move_ictx_list_def Let_def)
  ultimately show ?thesis using assms(1) ic_str_move [OF i(1) assms(3,4)] by (auto simp: ic_inv_def)
qed

section \<open>Operations under the invariant\<close>

text \<open>A victim can be found: an unused context, or the last clean one when it is not held.\<close>

definition has_victim :: "ictx_manager \<Rightarrow> (nat \<rightharpoonup> nat) \<Rightarrow> bool" where
  "has_victim m H \<longleftrightarrow> ic_list m BUFFER_TYPE_UNUSED \<noteq> []
     \<or> ic_list m BUFFER_TYPE_CLEAN \<noteq> [] \<and> H (last (ic_list m BUFFER_TYPE_CLEAN)) = None"

lemma replace_run:
  assumes inv: "ic_inv n {} pl m H"
  shows "if has_victim m H then \<exists>c m1. replace_ictx m = Some (c, m1) \<and> H c = None \<and> c < n \<and> pl c \<noteq> None \<and> ic_mem m1 = ic_mem m \<and> ic_inv n {c} (pl(c := None)) m1 H
    else replace_ictx m = None"
proof -
  have str: "ic_str n pl m" and ok: "\<And>c ty. pl c = Some ty \<Longrightarrow> ctx_ok ty (ic_mem m c) (H c \<noteq> None)"
    and held: "\<And>c k. H c = Some k \<Longrightarrow> ictx_hash_lookup k m = Some c" using inv by (auto simp: ic_inv_def)
  note i = ic_strD [OF str]
  define ty where "ty = victim_type m"
  have ty: "ty = (if ic_list m BUFFER_TYPE_UNUSED \<noteq> [] then BUFFER_TYPE_UNUSED else if ic_list m BUFFER_TYPE_CLEAN \<noteq> [] then BUFFER_TYPE_CLEAN else BUFFER_TYPE_DIRTY)"
    using i(2) by (simp add: ty_def victim_type_def)
  show ?thesis
  proof (cases "ic_list m ty = []")
    case True
    then have "\<not> has_victim m H" using ty by (auto simp: has_victim_def split: if_splits)
    then show ?thesis using True i(2) by (simp add: replace_ictx_def Let_def ty_def [symmetric])
  next
    case False
    define c where "c = last (ic_list m ty)"
    have r: "rev (ic_list m ty) = c # rev (butlast (ic_list m ty))" using False by (simp add: c_def rev_eq_Cons_iff)
    have "c \<in> set (ic_list m ty)" using False by (simp add: c_def)
    then have pc: "pl c = Some ty" using i(3) by simp
    note okc = ok [OF pc]
    have v: "has_victim m H \<longleftrightarrow> H c = None" using ty False okc i(7) [OF pc] by (auto simp: has_victim_def c_def ctx_ok_def split: if_splits)
    have sc: "scan_victim (rev (ic_list m ty)) m = (if H c = None then Some c else None)" using okc by (simp add: r ctx_ok_def Let_def)
    have "\<exists>m1. replace_ictx m = Some (c, m1) \<and> ic_mem m1 = ic_mem m \<and> ic_inv n {c} (pl(c := None)) m1 H" if hc: "H c = None"
    proof -
      define h where "h = (if ty = BUFFER_TYPE_UNUSED then HASH_NUM else ibucket (ic_ino (ic_mem m c)))"
      define m1 where "m1 = m\<lparr>ic_list := (ic_list m)(ty := remove1 c (ic_list m ty)), ic_list_count := (ic_list_count m)(ty := ic_list_count m ty - 1),
        ic_hash := (\<lambda>i. remove1 c (ic_hash m i)), ic_hash_count := (ic_hash_count m)(h := ic_hash_count m h - 1)\<rparr>"
      have "replace_ictx m = Some (c, m1)" using sc hc False i(2) by (simp add: replace_ictx_def Let_def ty_def [symmetric] m1_def h_def)
      moreover have "ictx_hash_lookup k m1 = Some d" if "H d = Some k" for d k
      proof -
        have "c \<noteq> d" using that hc by auto
        then show ?thesis using held [OF that] by (simp add: m1_def ictx_hash_lookup_def find_remove1)
      qed
      moreover have "ic_str n (pl(c := None)) m1" unfolding m1_def by (rule ic_str_take [OF str pc])
      ultimately show ?thesis using ok by (auto simp: ic_inv_def m1_def)
    qed
    then show ?thesis using v sc pc i(6) [OF pc] by (auto simp: replace_ictx_def Let_def ty_def [symmetric])
  qed
qed

text \<open>Reading an inode succeeds exactly when its context is not held, or there is a victim.\<close>

lemma read_run:
  assumes inv: "ic_inv n {} pl m H" and k: "ROOT_INO \<le> k"
  shows "if (case ictx_hash_lookup k m of Some c \<Rightarrow> H c = None | None \<Rightarrow> has_victim m H)
    then \<exists>c m' pl'. read_ictx None k m = Some (Some c, m') \<and> H c = None \<and> ic_inv n {} pl' m' (H(c \<mapsto> k)) \<and> dom pl' = dom pl
    else read_ictx None k m = None"
proof -
  have str: "ic_str n pl m" and ok: "\<And>c ty. pl c = Some ty \<Longrightarrow> ctx_ok ty (ic_mem m c) (H c \<noteq> None)" using inv by (auto simp: ic_inv_def)
  show ?thesis
  proof (cases "ictx_hash_lookup k m")
    case (Some c)
    obtain ty where ty: "pl c = Some ty" "ty \<noteq> BUFFER_TYPE_UNUSED" using lookup_in(2) [OF str Some] by blast
    have ino: "ic_ino (ic_mem m c) = k" by (rule lookup_in(1) [OF str Some])
    note okc = ok [OF ty(1)]
    show ?thesis
    proof (cases "H c = None")
      case True
      define m' where "m' = upd_ictx c (\<lambda>i. i\<lparr>ic_ref := ic_ref i + 1\<rparr>) (upd_ictx c (\<lambda>i. i\<lparr>ic_lock := True, ic_st_lock := True\<rparr>) (to_front c m))"
      have run: "read_ictx None k m = Some (Some c, m')"
        using k Some okc True ino by (simp add: read_ictx_def get_ictx_def lock_ictx_def ctx_ok_def Let_def m'_def)
      have "ic_inv n {c} pl m' (H(c \<mapsto> k))" unfolding m'_def
        by (intro ic_inv_upd ic_inv_hold ic_inv_front [OF ic_inv_weaken [OF inv] ty]) (simp_all add: Some)
      then have "ic_inv n {} pl m' (H(c \<mapsto> k))" using okc True ty by (elim ic_inv_close) (auto simp: ctx_ok_def m'_def)
      then show ?thesis using run Some True by auto
    next
      case False
      then show ?thesis using k Some okc by (simp add: read_ictx_def get_ictx_def lock_ictx_def ctx_ok_def Let_def assert_opt_def)
    qed
  next
    case None
    show ?thesis
    proof (cases "has_victim m H")
      case True
      then obtain c m1 where r: "replace_ictx m = Some (c, m1)" "H c = None" "c < n" "pl c \<noteq> None" "ic_inv n {c} (pl(c := None)) m1 H"
        using replace_run [OF inv] by auto
      have "k \<notin> ran H" using None inv by (auto simp: ic_inv_def ran_def)
      define m2 where "m2 = insert_ictx c (upd_ictx c (init_ictx k) m1)"
      define m' where "m' = upd_ictx c (\<lambda>i. i\<lparr>ic_ref := ic_ref i + 1\<rparr>) (upd_ictx c (\<lambda>i. i\<lparr>ic_lock := True, ic_st_lock := True\<rparr>) (to_front c m2))"
      have m2: "ic_mem m2 c = (init_ictx k (ic_mem m1 c))\<lparr>ic_type := BUFFER_TYPE_REF\<rparr>" by (simp add: m2_def insert_ictx_def Let_def)
      have f: "\<not> ic_lock (ic_mem m2 c)" "ic_ino (ic_mem m2 c) = k" "ic_type (ic_mem m2 c) = BUFFER_TYPE_REF" by (simp_all add: m2 init_ictx_def)
      have run: "read_ictx None k m = Some (Some c, m')"
        using k None r(1) f by (simp add: read_ictx_def get_ictx_def lock_ictx_def Let_def m'_def m2_def [symmetric])
      let ?pl = "pl(c := None, c \<mapsto> BUFFER_TYPE_REF)"
      have "ic_inv n {c} (pl(c := None)) (upd_ictx c (init_ictx k) m1) H" by (rule ic_inv_upd_out [OF r(5)]) simp
      then have "ic_inv n {c} ?pl m2 (H(c \<mapsto> k))" unfolding m2_def
        by (rule ic_inv_insert) (use r(3) \<open>k \<notin> ran H\<close> in \<open>simp_all add: init_ictx_def\<close>)
      then have "ic_inv n {c} ?pl (to_front c m2) (H(c \<mapsto> k))" by (rule ic_inv_front [of _ _ _ _ _ _ BUFFER_TYPE_REF]) simp_all
      then have "ic_inv n {c} ?pl m' (H(c \<mapsto> k))" unfolding m'_def by (intro ic_inv_upd) (assumption | simp)+
      then have "ic_inv n {} ?pl m' (H(c \<mapsto> k))" by (rule ic_inv_close) (auto simp: ctx_ok_def m'_def m2 init_ictx_def)
      moreover have "dom ?pl = dom pl" using r(4) by auto
      ultimately have "\<exists>c m' pl'. read_ictx None k m = Some (Some c, m') \<and> H c = None \<and> ic_inv n {} pl' m' (H(c \<mapsto> k)) \<and> dom pl' = dom pl"
        using run r(2) by blast
      then show ?thesis using None True by simp
    next
      case False
      then show ?thesis using None k replace_run [OF inv] by (simp add: read_ictx_def get_ictx_def)
    qed
  qed
qed

lemma release_run:
  assumes inv: "ic_inv n {} pl m H" and h: "H c = Some k"
  shows "\<exists>m' pl'. release_ictx c m = Some m' \<and> ic_inv n {} pl' m' (H(c := None)) \<and> dom pl' = dom pl \<and> ic_list m' BUFFER_TYPE_CLEAN \<noteq> []
    \<and> hd (ic_list m' BUFFER_TYPE_CLEAN) = c"
proof -
  obtain ty where ty: "pl c = Some ty" "ty \<noteq> BUFFER_TYPE_UNUSED" using ic_inv_held(2) [OF inv h] by blast
  have "ctx_ok ty (ic_mem m c) (H c \<noteq> None)" using inv ty(1) by (simp add: ic_inv_def)
  then have okc: "ctx_ok ty (ic_mem m c) True" by (simp add: h)
  define m1 where "m1 = upd_ictx c (\<lambda>i. i\<lparr>ic_st_clean := True, ic_ref := ic_ref i - 1\<rparr>) m"
  define m' where "m' = upd_ictx c (\<lambda>i. i\<lparr>ic_st_lock := False, ic_lock := False\<rparr>) (move_ictx_list c BUFFER_TYPE_CLEAN m1)"
  have run: "release_ictx c m = Some m'" using okc by (simp add: release_ictx_def ctx_ok_def Let_def m1_def m'_def)
  have "ic_inv n {c} pl m1 H" unfolding m1_def by (rule ic_inv_upd [OF ic_inv_weaken [OF inv]]) simp_all
  from ic_inv_move [OF this h ty] have "ic_inv n {c} (pl(c \<mapsto> BUFFER_TYPE_CLEAN)) m' (H(c := None))" unfolding m'_def
    by (intro ic_inv_upd) (assumption | simp)+
  then have "ic_inv n {} (pl(c \<mapsto> BUFFER_TYPE_CLEAN)) m' (H(c := None))"
    by (rule ic_inv_close) (use okc in \<open>auto simp: ctx_ok_def m'_def m1_def move_ictx_list_def Let_def\<close>)
  moreover have "ic_list m' BUFFER_TYPE_CLEAN \<noteq> [] \<and> hd (ic_list m' BUFFER_TYPE_CLEAN) = c" by (simp add: m'_def move_ictx_list_def Let_def)
  ultimately show ?thesis using run ty(1) by (intro exI [of _ m'] exI [of _ "pl(c \<mapsto> BUFFER_TYPE_CLEAN)"]) auto
qed

lemma new_run:
  assumes inv: "ic_inv n {} pl m H"
  shows "if has_victim m H then
      (\<exists>c m' pl'. new_ictx None m = Some (None, m') \<and> ic_inv n {} pl' m' H \<and> dom pl' = dom pl - {c} \<and> c \<in> dom pl)
    \<and> (\<forall>k. ROOT_INO \<le> k \<and> k \<notin> ran H \<longrightarrow>
        (\<exists>c m' pl'. new_ictx (Some k) m = Some (Some c, m') \<and> H c = None \<and> ic_inv n {} pl' m' (H(c \<mapsto> k)) \<and> dom pl' = dom pl))
    else new_ictx ino m = None"
proof (cases "has_victim m H")
  case True
  then obtain c m1 where r: "replace_ictx m = Some (c, m1)" "H c = None" "c < n" "pl c \<noteq> None" "ic_inv n {c} (pl(c := None)) m1 H"
    using replace_run [OF inv] by auto
  define m3 where "m3 = upd_ictx c (\<lambda>i. i\<lparr>ic_st_dirty := True\<rparr>) (upd_ictx c (\<lambda>i. i\<lparr>ic_lock := True, ic_st_lock := True\<rparr>) (upd_ictx c (init_ictx 0) m1))"
  have m3: "ic_inv n {c} (pl(c := None)) m3 H" unfolding m3_def by (intro ic_inv_upd_out r(5)) simp_all
  have f: "new_ictx None m = Some (None, m3)" using r(1) by (simp add: new_ictx_def alloc_ictx_def lock_ictx_def Let_def init_ictx_def m3_def)
  have "ic_inv n {} (pl(c := None)) m3 H" using m3 by (rule ic_inv_close) simp
  moreover have "dom (pl(c := None)) = dom pl - {c}" "c \<in> dom pl" using r(4) by auto
  ultimately have fail: "\<exists>c m' pl'. new_ictx None m = Some (None, m') \<and> ic_inv n {} pl' m' H \<and> dom pl' = dom pl - {c} \<and> c \<in> dom pl" using f by blast
  have "\<exists>c m' pl'. new_ictx (Some k) m = Some (Some c, m') \<and> H c = None \<and> ic_inv n {} pl' m' (H(c \<mapsto> k)) \<and> dom pl' = dom pl"
    if k: "ROOT_INO \<le> k" "k \<notin> ran H" for k
  proof -
    define m4 where "m4 = upd_ictx c (\<lambda>i. i\<lparr>ic_ref := ic_ref i + 1\<rparr>) (upd_ictx c (\<lambda>i. i\<lparr>ic_ino := k\<rparr>) m3)"
    have run: "new_ictx (Some k) m = Some (Some c, insert_ictx c m4)" using r(1) k(1)
      by (simp add: new_ictx_def alloc_ictx_def lock_ictx_def read_ictx_def Let_def init_ictx_def m3_def m4_def)
    have "ic_inv n {c} (pl(c := None)) m4 H" unfolding m4_def by (intro ic_inv_upd_out m3) simp_all
    then have "ic_inv n {c} (pl(c := None, c \<mapsto> BUFFER_TYPE_REF)) (insert_ictx c m4) (H(c \<mapsto> k))"
      by (rule ic_inv_insert) (use r(3) k(2) in \<open>simp_all add: m4_def\<close>)
    then have "ic_inv n {} (pl(c := None, c \<mapsto> BUFFER_TYPE_REF)) (insert_ictx c m4) (H(c \<mapsto> k))"
      by (rule ic_inv_close) (auto simp: ctx_ok_def insert_ictx_def Let_def m4_def m3_def init_ictx_def)
    moreover have "dom (pl(c := None, c \<mapsto> BUFFER_TYPE_REF)) = dom pl" using r(4) by auto
    ultimately show ?thesis using run r(2) by blast
  qed
  then show ?thesis using True fail by auto
next
  case False
  then show ?thesis using replace_run [OF inv] by (simp add: new_ictx_def alloc_ictx_def)
qed

lemma init_fold:
  "ic_list (fold add_unused cs m) = (ic_list m)(BUFFER_TYPE_UNUSED := rev cs @ ic_list m BUFFER_TYPE_UNUSED)"
  "ic_hash (fold add_unused cs m) = (ic_hash m)(HASH_NUM := rev cs @ ic_hash m HASH_NUM)"
  "ic_list_count (fold add_unused cs m) = (ic_list_count m)(BUFFER_TYPE_UNUSED := ic_list_count m BUFFER_TYPE_UNUSED + int (length cs))"
  "ic_mem (fold add_unused cs m) = ic_mem m"
  by (induction cs arbitrary: m) (simp_all add: add_unused_def fun_eq_iff)

text \<open>What the code needs of the memory of the contexts: it is zeroed.\<close>

definition zeroed :: "nat \<Rightarrow> (nat \<Rightarrow> ictx) \<Rightarrow> bool" where
  "zeroed n memory = list_all (\<lambda>c. ic_data_dirty_count (memory c) = 0 \<and> ic_meta_dirty_count (memory c) = 0
     \<and> \<not> ic_lock (memory c) \<and> \<not> ic_st_lock (memory c) \<and> ic_ref (memory c) = 0) [0..<n]"

lemma init_run:
  assumes "zeroed n memory"
  shows "ic_inv n {} (\<lambda>c. if c < n then Some BUFFER_TYPE_UNUSED else None) (init_ictx_cache n memory) Map.empty"
proof -
  have "ic_str n (\<lambda>c. if c < n then Some BUFFER_TYPE_UNUSED else None) (init_ictx_cache n memory)"
    unfolding ic_str_def init_ictx_cache_def by (auto simp: init_fold chain_of_def)
  then show ?thesis using assms by (auto simp: ic_inv_def init_ictx_cache_def init_fold ctx_ok_def zeroed_def list_all_iff split: if_splits)
qed

section \<open>Runs\<close>

text \<open>The states reached by operations one after the other: the cache, the contexts held with
  their inode numbers, and the number of contexts lost by failed allocations of inodes.
  A new inode number is not one that is held.\<close>

inductive ic_run :: "nat \<Rightarrow> ictx_manager \<Rightarrow> (nat \<rightharpoonup> nat) \<Rightarrow> nat \<Rightarrow> bool" for n where
  start: "zeroed n memory \<Longrightarrow> ic_run n (init_ictx_cache n memory) Map.empty 0"
| read: "ic_run n m H l \<Longrightarrow> ROOT_INO \<le> k \<Longrightarrow> read_ictx None k m = Some (Some c, m') \<Longrightarrow> ic_run n m' (H(c \<mapsto> k)) l"
| new: "ic_run n m H l \<Longrightarrow> ROOT_INO \<le> k \<Longrightarrow> k \<notin> ran H \<Longrightarrow> new_ictx (Some k) m = Some (Some c, m') \<Longrightarrow> ic_run n m' (H(c \<mapsto> k)) l"
| new_fails: "ic_run n m H l \<Longrightarrow> new_ictx None m = Some (None, m') \<Longrightarrow> ic_run n m' H (Suc l)"
| release: "ic_run n m H l \<Longrightarrow> H c = Some k \<Longrightarrow> release_ictx c m = Some m' \<Longrightarrow> ic_run n m' (H(c := None)) l"

lemma ic_run_inv:
  assumes "ic_run n m H l"
  shows "\<exists>pl. ic_inv n {} pl m H \<and> card (dom pl) + l = n"
  using assms
proof induction
  case (start memory)
  have "dom (\<lambda>c. if c < n then Some BUFFER_TYPE_UNUSED else None) = {..<n}" by (auto split: if_splits)
  then show ?case using init_run [OF start] by (intro exI conjI) (assumption, simp)
next
  case (read m H l k c m')
  then obtain pl where pl: "ic_inv n {} pl m H" "card (dom pl) + l = n" by blast
  have "\<exists>c m' pl'. read_ictx None k m = Some (Some c, m') \<and> H c = None \<and> ic_inv n {} pl' m' (H(c \<mapsto> k)) \<and> dom pl' = dom pl"
    using read_run [OF pl(1) read.hyps(2)] read.hyps(3) by (simp split: if_splits)
  then obtain pl' where "ic_inv n {} pl' m' (H(c \<mapsto> k))" "dom pl' = dom pl" using read.hyps(3) by auto
  then show ?case using pl(2) by metis
next
  case (new m H l k c m')
  then obtain pl where pl: "ic_inv n {} pl m H" "card (dom pl) + l = n" by blast
  have "\<exists>c m' pl'. new_ictx (Some k) m = Some (Some c, m') \<and> H c = None \<and> ic_inv n {} pl' m' (H(c \<mapsto> k)) \<and> dom pl' = dom pl"
  proof -
    have "has_victim m H" using new_run [OF pl(1), of "Some k"] new.hyps(4) by (cases "has_victim m H") simp_all
    then show ?thesis using new_run [OF pl(1), of None] new.hyps(2,3) by simp
  qed
  then obtain pl' where "ic_inv n {} pl' m' (H(c \<mapsto> k))" "dom pl' = dom pl" using new.hyps(4) by auto
  then show ?case using pl(2) by metis
next
  case (new_fails m H l m')
  then obtain pl where pl: "ic_inv n {} pl m H" "card (dom pl) + l = n" by blast
  have "\<exists>c m' pl'. new_ictx None m = Some (None, m') \<and> ic_inv n {} pl' m' H \<and> dom pl' = dom pl - {c} \<and> c \<in> dom pl"
    using new_run [OF pl(1), of None] new_fails.hyps(2) by (auto split: if_splits)
  then obtain c pl' where p: "ic_inv n {} pl' m' H" "dom pl' = dom pl - {c}" "c \<in> dom pl" using new_fails.hyps(2) by auto
  have "finite (dom pl)" using p(3) pl(2) ic_strD(6) [of n pl m] pl(1) by (intro finite_subset [of "dom pl" "{..<n}"]) (auto simp: ic_inv_def)
  then have "card (dom pl) = Suc (card (dom pl'))" using p(2,3) by (metis card_Suc_Diff1)
  then show ?case using p(1) pl(2) by auto
next
  case (release m H l c k m')
  then obtain pl where pl: "ic_inv n {} pl m H" "card (dom pl) + l = n" by blast
  obtain pl' where "ic_inv n {} pl' m' (H(c := None))" "dom pl' = dom pl" using release_run [OF pl(1) release.hyps(2)] release.hyps(3) by auto
  then show ?case using pl(2) by metis
qed

lemma deinit_card:
  assumes "ic_str n pl m"
  shows "deinit_ictx_cache n' m = assert_opt (card (dom pl) = n')"
proof -
  note i = ic_strD [OF assms]
  let ?s = "\<lambda>ty. set (ic_list m ty)"
  have e: "length (ic_list m ty) = card (?s ty)" for ty using i(1) by (simp add: distinct_card)
  have no: "ic_list m BUFFER_TYPE_DIRTY = []" "ic_list m BUFFER_TYPE_FLUSHING = []"
  proof -
    have "pl c \<noteq> Some BUFFER_TYPE_DIRTY" "pl c \<noteq> Some BUFFER_TYPE_FLUSHING" for c using i(7) by auto
    then show "ic_list m BUFFER_TYPE_DIRTY = []" "ic_list m BUFFER_TYPE_FLUSHING = []"
      using i(3) [of BUFFER_TYPE_DIRTY] i(3) [of BUFFER_TYPE_FLUSHING] by simp_all
  qed
  have "dom pl = ?s BUFFER_TYPE_UNUSED \<union> ?s BUFFER_TYPE_REF \<union> ?s BUFFER_TYPE_CLEAN" using i(3,7) by auto
  moreover have "?s BUFFER_TYPE_UNUSED \<inter> ?s BUFFER_TYPE_REF = {}" "(?s BUFFER_TYPE_UNUSED \<union> ?s BUFFER_TYPE_REF) \<inter> ?s BUFFER_TYPE_CLEAN = {}"
    unfolding i(3) by auto
  ultimately have "card (dom pl) = card (?s BUFFER_TYPE_UNUSED) + card (?s BUFFER_TYPE_REF) + card (?s BUFFER_TYPE_CLEAN)"
    by (simp add: card_Un_disjoint)
  then show ?thesis by (simp add: deinit_ictx_cache_def e no add.assoc)
qed

text \<open>A cache of two contexts in zeroed memory.\<close>

definition zero_ictx :: ictx where
  "zero_ictx = \<lparr>ic_ino = 0, ic_meta_dirty_count = 0, ic_data_dirty_count = 0, ic_type = BUFFER_TYPE_UNUSED, ic_st_clean = False,
     ic_st_dirty = False, ic_st_lock = False, ic_ref = 0, ic_lock = False\<rparr>"

definition two_ictx :: ictx_manager where
  "two_ictx = init_ictx_cache 2 (\<lambda>_. zero_ictx)"

lemma two_ictx_run: "ic_run 2 two_ictx Map.empty 0"
  unfolding two_ictx_def by (rule ic_run.start) (simp add: zeroed_def zero_ictx_def list_all_iff)

lemma two_ictx_lists: "ic_list two_ictx BUFFER_TYPE_UNUSED = [1, 0]" "ictx_hash_lookup 5 two_ictx = None" "has_victim two_ictx Map.empty"
  by (simp_all add: two_ictx_def init_ictx_cache_def add_unused_def upt_rec ictx_hash_lookup_def HASH_NUM_def has_victim_def)

section \<open>Properties\<close>





text \<open>Failed creations lose contexts.  When no inode is free, \<open>nvfuse_createfile\<close>, \<open>nvfuse_mkdir\<close> and
  the creation of an index return without putting the context back, so the assertion of
  \<open>nvfuse_deinit_ictx_cache\<close> on the number of contexts fails exactly when one of these calls
  has failed before.\<close>

theorem ictx_deinit_iff_none_lost:
  assumes "ic_run n m H l"
  shows "deinit_ictx_cache n m = Some () \<longleftrightarrow> l = 0"
proof -
  obtain pl where "ic_inv n {} pl m H" "card (dom pl) + l = n" using ic_run_inv [OF assms] by blast
  then show ?thesis using deinit_card [of n pl m n] by (auto simp: ic_inv_def assert_opt_def)
qed

theorem ictx_deinit_iff_none_lost_witness:
  "\<exists>m. deinit_ictx_cache 2 two_ictx = Some () \<and> new_ictx None two_ictx = Some (None, m) \<and> deinit_ictx_cache 2 m \<noteq> Some ()"
proof -
  obtain pl where pl: "ic_inv 2 {} pl two_ictx Map.empty" using ic_run_inv [OF two_ictx_run] by blast
  obtain m where m: "new_ictx None two_ictx = Some (None, m)" using new_run [OF pl, of None] two_ictx_lists(3) by auto
  have "ic_run 2 m Map.empty (Suc 0)" by (rule ic_run.new_fails [OF two_ictx_run m])
  from ictx_deinit_iff_none_lost [OF this] ictx_deinit_iff_none_lost [OF two_ictx_run] m show ?thesis by auto
qed

end
