(* ===== verification/Aio.thy ===== *)
theory Aio
  imports Reactor FileIo
begin

text \<open>
  Asynchronous direct transfers, \<open>nvfuse_aio.c\<close>.  A request names an open file, a range of
  bytes and a buffer; its submission checks the range (\<open>nvfuse_readfile_directio_core\<close>,
  \<open>nvfuse_writefile_directio_core\<close>), splits it into one job for each run of contiguous blocks
  (\<open>nvfuse_fgetblk\<close>) and puts the jobs on the submission ring of the reactor; the jobs that the
  reactor has completed are counted down, and a request without jobs left moves to the
  completion queue, from which \<open>nvfuse_io_getevents\<close> returns it.

  Requests are named by numbers, \<open>aq_req\<close> is their memory; \<open>aq_pool\<close> is the number of free
  jobs in the pool of the superblock, and \<open>aq_task\<close> is NULL when the depth was too large.
  Time stamps are not modelled.  \<open>None\<close> is a failed assertion, an access outside of an array,
  a loop that does not end, or a wait for a completion that has not come yet.
\<close>

section \<open>State\<close>

record aio_req =
  a_fid :: nat
  a_opcode :: int
  a_offset :: int
  a_bytes :: int
  a_error :: int
  a_status :: int
  a_jobs :: int

record aio_queue =
  aq_req :: "nat \<Rightarrow> aio_req"
  asq :: "nat list"
  asq_cur_depth :: int
  asq_max_depth :: int
  acq :: "nat list"
  acq_cur_depth :: int
  acq_max_depth :: int
  total_bio_job_count :: int
  max_completions :: int
  aq_task :: "reactor_task option"
  aq_pool :: int

definition NVFUSE_MAX_AIO_DEPTH :: int where "NVFUSE_MAX_AIO_DEPTH = 1024"
definition NVFUSE_MAX_AIO_COMPLETION :: int where "NVFUSE_MAX_AIO_COMPLETION = 1"
definition NVFUSE_SUBMISSION_QUEUE :: int where "NVFUSE_SUBMISSION_QUEUE = 1"
definition NVFUSE_COMPLETION_QUEUE :: int where "NVFUSE_COMPLETION_QUEUE = 2"
definition READ :: int where "READ = 1"
definition O_DIRECT :: int where "O_DIRECT = 16384"

abbreviation upd_req :: "nat \<Rightarrow> (aio_req \<Rightarrow> aio_req) \<Rightarrow> aio_queue \<Rightarrow> aio_queue" where
  "upd_req a f q \<equiv> q\<lparr>aq_req := (aq_req q)(a := f (aq_req q a))\<rparr>"

section \<open>Queues\<close>

definition aio_queue_init :: "(nat \<Rightarrow> aio_req) \<Rightarrow> int \<Rightarrow> reactor_task \<Rightarrow> int \<Rightarrow> aio_queue" where
  "aio_queue_init reqs pool old max_depth =
    (let depth = (if max_depth > NVFUSE_MAX_AIO_DEPTH then NVFUSE_MAX_AIO_DEPTH else max_depth) in
     \<lparr>aq_req = reqs, asq = [], asq_cur_depth = 0, asq_max_depth = depth, acq = [], acq_cur_depth = 0, acq_max_depth = depth,
      total_bio_job_count = 0, max_completions = NVFUSE_MAX_AIO_COMPLETION,
      aq_task = reactor_alloc_task old (nat (depth * 2)), aq_pool = pool\<rparr>)"

definition aio_get_queue_depth_total :: "aio_queue \<Rightarrow> int" where
  "aio_get_queue_depth_total q = asq_cur_depth q + acq_cur_depth q"

definition aio_get_queue_depth_type :: "aio_queue \<Rightarrow> int \<Rightarrow> int" where
  "aio_get_queue_depth_type q qtype =
    (if qtype = NVFUSE_SUBMISSION_QUEUE then asq_cur_depth q
     else if qtype = NVFUSE_COMPLETION_QUEUE then acq_cur_depth q else 0)"

definition aio_queue_enqueue :: "nat \<Rightarrow> int \<Rightarrow> aio_queue \<Rightarrow> int \<times> aio_queue" where
  "aio_queue_enqueue a qtype q0 =
    (let q = upd_req a (\<lambda>r. r\<lparr>a_status := qtype\<rparr>) q0 in
     if qtype = NVFUSE_SUBMISSION_QUEUE then
       (if asq_cur_depth q = asq_max_depth q then (-1, q)
        else (0, q\<lparr>asq := asq q @ [a], asq_cur_depth := asq_cur_depth q + 1\<rparr>))
     else if qtype = NVFUSE_COMPLETION_QUEUE then
       (if acq_cur_depth q = acq_max_depth q then (-1, q)
        else (0, q\<lparr>acq := acq q @ [a], acq_cur_depth := acq_cur_depth q + 1\<rparr>))
     else (-1, q))"

definition aio_queue_dequeue :: "nat \<Rightarrow> int \<Rightarrow> aio_queue \<Rightarrow> (int \<times> aio_queue) option" where
  "aio_queue_dequeue a qtype q =
    (if qtype = NVFUSE_SUBMISSION_QUEUE then do {
       assert_opt (0 \<le> asq_cur_depth q - 1);
       Some (0, q\<lparr>asq := remove1 a (asq q), asq_cur_depth := asq_cur_depth q - 1\<rparr>) }
     else if qtype = NVFUSE_COMPLETION_QUEUE then do {
       assert_opt (0 \<le> acq_cur_depth q - 1);
       Some (0, q\<lparr>acq := remove1 a (acq q), acq_cur_depth := acq_cur_depth q - 1\<rparr>) }
     else Some (-1, q))"

definition aio_queue_move :: "nat \<Rightarrow> int \<Rightarrow> aio_queue \<Rightarrow> (int \<times> aio_queue) option" where
  "aio_queue_move a qtype q = do {
     (res, q1) \<leftarrow> aio_queue_dequeue a (a_status (aq_req q a)) q;
     Some (if res \<noteq> 0 then (res, q1) else aio_queue_enqueue a qtype q1) }"

text \<open>The result of the queue is ignored: a request that finds the queue full is lost.\<close>

definition aio_gen_dev_cpls :: "nat \<Rightarrow> aio_queue \<Rightarrow> aio_queue" where
  "aio_gen_dev_cpls a q = snd (aio_queue_enqueue a NVFUSE_COMPLETION_QUEUE q)"

section \<open>Submission\<close>

definition aio_job :: "nat \<Rightarrow> io_type \<Rightarrow> int \<Rightarrow> nat \<Rightarrow> int \<Rightarrow> io_job" where
  "aio_job a ty pblk n cnt = \<lparr>job_offset = pblk * 4096, job_bytes = int n * 4096, job_iov_len = int n * 4096, job_iovcnt = 1,
     job_req_type = ty, job_ret = 0, job_buf = cnt * 4096, job_complete = False, job_tag1 = a\<rparr>"

text \<open>The loop over the range.  \<open>False\<close> is the error return; a run of no blocks keeps the
  loop where it is, and no run is longer than what is asked for.\<close>

function aio_jobs :: "nat \<Rightarrow> io_type \<Rightarrow> nat \<Rightarrow> int \<Rightarrow> int \<Rightarrow> int \<Rightarrow> fio \<Rightarrow> (bool \<times> io_job list) option" where
  "aio_jobs a ty fid start len cnt s =
    (if len = 0 then Some (True, [])
     else do {
       (pblk, n) \<leftarrow> fgetblk fid (start div 4096) (nat (len div 4096)) s;
       if pblk < 0 then Some (False, [])
       else if n = 0 \<or> len < int n * 4096 then None
       else do {
         (ok, js) \<leftarrow> aio_jobs a ty fid (start + int n * 4096) (len - int n * 4096) (cnt + int n) s;
         Some (ok, aio_job a ty pblk n cnt # js) } })"
  by pat_completeness auto
termination by (relation "measure (\<lambda>(a, ty, fid, start, len, cnt, s). nat len)") auto

declare aio_jobs.simps [simp del]

text \<open>The jobs taken from the pool are not given back when the range has an error or
  the ring is full.\<close>

definition aio_gen_dev_reqs :: "nat \<Rightarrow> aio_queue \<Rightarrow> fio \<Rightarrow> (int \<times> aio_queue) option" where
  "aio_gen_dev_reqs a q s =
    (let r = aq_req q a; n = a_jobs r in do {
       assert_opt (n \<noteq> 0);
       assert_opt (0 < n \<and> n \<le> int AIO_MAX_QDEPTH \<and> n \<le> aq_pool q);
       let q1 = q\<lparr>aq_pool := aq_pool q - n\<rparr> in do {
         (ok, js) \<leftarrow> aio_jobs a (if a_opcode r = READ then IO_READ else IO_WRITE) (a_fid r) (a_offset r) (a_bytes r) 0 s;
         if \<not> ok then Some (-1, q1)
         else let q2 = q1\<lparr>aq_pool := aq_pool q1 + (n - int (length js))\<rparr> in do {
           assert_opt (int (length js) \<le> a_bytes r div 4096);
           assert_opt (a_bytes r div 4096 = n);
           task \<leftarrow> aq_task q2;
           (res, task') \<leftarrow> reactor_submit_reqs 0 task js;
           let q3 = q2\<lparr>aq_task := Some task'\<rparr> in
           if res < 0 then Some (-1, q3)
           else Some (0, upd_req a (\<lambda>r. r\<lparr>a_jobs := int (length js)\<rparr>)
                           (q3\<lparr>total_bio_job_count := total_bio_job_count q3 + int (length js)\<rparr>)) } } })"

definition is_directio :: "nat \<Rightarrow> fio \<Rightarrow> bool" where
  "is_directio fid s = (case get_file_table (io_ft s) fid of None \<Rightarrow> False | Some ft \<Rightarrow> ft_flags ft AND O_DIRECT \<noteq> 0)"

fun submit_list :: "nat list \<Rightarrow> aio_queue \<Rightarrow> fio \<Rightarrow> (int \<times> aio_queue) option" where
  "submit_list [] q s = Some (0, q)"
| "submit_list (a # as) q s = do {
     assert_opt (is_directio (a_fid (aq_req q a)) s);
     (res, q1) \<leftarrow> aio_gen_dev_reqs a (upd_req a (\<lambda>r. r\<lparr>a_jobs := a_bytes r div 4096\<rparr>) q) s;
     if res < 0 then Some (-1, q1)
     else do {
       (r, q2) \<leftarrow> aio_queue_dequeue a NVFUSE_SUBMISSION_QUEUE q1;
       submit_list as q2 s } }"

definition aio_queue_submission :: "nat \<Rightarrow> aio_queue \<Rightarrow> fio \<Rightarrow> (int \<times> aio_queue \<times> fio) option" where
  "aio_queue_submission a q s =
    (let r = aq_req q a in do {
       assert_opt (is_directio (a_fid r) s);
       (bytes, s1) \<leftarrow> (if a_opcode r = READ then readfile_directio_core (a_fid r) (a_bytes r) (a_offset r) s
                        else writefile_directio_core (a_fid r) (nat (a_bytes r)) (a_offset r) s);
       if bytes \<noteq> a_bytes r then Some (-1, q, s1)
       else let q1 = snd (aio_queue_enqueue a NVFUSE_SUBMISSION_QUEUE q) in do {
         (res, q2) \<leftarrow> submit_list (asq q1) q1 s1;
         Some (res, q2, s1) } })"

fun io_submit :: "nat list \<Rightarrow> aio_queue \<Rightarrow> fio \<Rightarrow> int \<Rightarrow> (int \<times> aio_queue \<times> fio) option" where
  "io_submit [] q s ret = Some (ret, q, s)"
| "io_submit (a # as) q s ret = do { (r, q1, s1) \<leftarrow> aio_queue_submission a q s; io_submit as q1 s1 r }"

section \<open>Completion\<close>

definition job_done :: "fio \<Rightarrow> io_job \<Rightarrow> aio_queue \<Rightarrow> aio_queue option" where
  "job_done s j q =
    (let a = job_tag1 j;
         q1 = upd_req a (\<lambda>r. r\<lparr>a_jobs := a_jobs r - 1, a_error := (if job_ret j \<noteq> 0 then -1 else a_error r)\<rparr>) q in
     if a_jobs (aq_req q1 a) = 0 then do {
       assert_opt (is_directio (a_fid (aq_req q1 a)) s);
       Some (aio_gen_dev_cpls a q1) }
     else Some q1)"

fun jobs_done :: "fio \<Rightarrow> io_job option list \<Rightarrow> aio_queue \<Rightarrow> aio_queue option" where
  "jobs_done s [] q = Some q"
| "jobs_done s (j # js) q = do { j' \<leftarrow> j; q1 \<leftarrow> job_done s j' q; jobs_done s js q1 }"

definition aio_wait_dev_cpls :: "nat \<Rightarrow> nat \<Rightarrow> aio_queue \<Rightarrow> fio \<Rightarrow> (int \<times> aio_queue) option" where
  "aio_wait_dev_cpls min_nr nr q s = do {
     task \<leftarrow> aq_task q;
     (case reactor_cq_get_reqs task min_nr nr of
        CqInvalid \<Rightarrow> Some (0, q)
      | CqAssert \<Rightarrow> None
      | CqWait \<Rightarrow> None
      | CqGot rs task' \<Rightarrow> do {
          assert_opt (length rs \<le> AIO_MAX_QDEPTH);
          q1 \<leftarrow> jobs_done s rs (q\<lparr>aq_task := Some task', total_bio_job_count := total_bio_job_count q - int (length rs)\<rparr>);
          Some (int (length rs), q1\<lparr>aq_pool := aq_pool q1 + int (length rs)\<rparr>) }) }"

text \<open>The requests returned; the loop over the queue ends at \<open>nr\<close> requests, for \<open>nr = 0\<close> at the
  end of the queue.\<close>

fun events :: "nat list \<Rightarrow> nat \<Rightarrow> nat \<Rightarrow> aio_queue \<Rightarrow> (nat list \<times> aio_queue) option" where
  "events [] nr idx q = Some ([], q)"
| "events (a # as) nr idx q = do {
     assert_opt (a_jobs (aq_req q a) = 0);
     (r, q1) \<leftarrow> aio_queue_dequeue a (a_status (aq_req q a)) q;
     if Suc idx = nr then Some ([a], q1)
     else do { (bs, q2) \<leftarrow> events as nr (Suc idx) q1; Some (a # bs, q2) } }"

definition io_getevents :: "nat \<Rightarrow> nat \<Rightarrow> aio_queue \<Rightarrow> fio \<Rightarrow> (nat list \<times> aio_queue) option" where
  "io_getevents min_nr nr q s = do { (cc, q1) \<leftarrow> aio_wait_dev_cpls min_nr nr q s; events (acq q1) nr 0 q1 }"

text \<open>\<open>nvfuse_aio_queue_completion\<close> polls until a completion is queued, and calls the function
  \<open>cb\<close> of every completed request.\<close>

partial_function (option) completion_poll :: "aio_queue \<Rightarrow> fio \<Rightarrow> aio_queue option" where
  "completion_poll q s =
    (if acq_cur_depth q < max_completions q then
       (case aio_wait_dev_cpls (nat (total_bio_job_count q)) (nat (total_bio_job_count q)) q s of
          None \<Rightarrow> None | Some (cc, q1) \<Rightarrow> completion_poll q1 s)
     else Some q)"

fun completion_calls :: "(nat \<Rightarrow> aio_queue \<Rightarrow> aio_queue) \<Rightarrow> nat list \<Rightarrow> aio_queue \<Rightarrow> aio_queue option" where
  "completion_calls cb [] q = Some q"
| "completion_calls cb (a # as) q = do {
     assert_opt (a_jobs (aq_req q a) = 0);
     (r, q1) \<leftarrow> aio_queue_dequeue a (a_status (aq_req q a)) q;
     completion_calls cb as (cb a q1) }"

definition aio_queue_completion :: "(nat \<Rightarrow> aio_queue \<Rightarrow> aio_queue) \<Rightarrow> aio_queue \<Rightarrow> fio \<Rightarrow> (int \<times> aio_queue) option" where
  "aio_queue_completion cb q s = do {
     q1 \<leftarrow> completion_poll q s;
     q2 \<leftarrow> completion_calls cb (acq q1) q1;
     Some (0, q2) }"

section \<open>The jobs of a request\<close>

text \<open>The physical blocks of a job, and jobs whose parts of the buffer follow each other.\<close>

definition job_blocks :: "io_job \<Rightarrow> nat list" where
  "job_blocks j = map (\<lambda>i. nat (job_offset j div 4096) + i) [0..<nat (job_bytes j div 4096)]"

fun jobs_from :: "int \<Rightarrow> io_job list \<Rightarrow> bool" where
  "jobs_from cnt [] = True"
| "jobs_from cnt (j # js) = (job_buf j = cnt * 4096 \<and> jobs_from (cnt + int (length (job_blocks j))) js)"

text \<open>What a device does that executes read jobs: it fills the parts of the buffer.\<close>

definition dev_read :: "(nat \<Rightarrow> u8 list) \<Rightarrow> io_job list \<Rightarrow> u8 list \<Rightarrow> u8 list" where
  "dev_read dev js buf = fold (\<lambda>j b. patch b (nat (job_buf j)) (concat (map dev (job_blocks j)))) js buf"

lemma job_blocks_aio_job [simp]: "job_blocks (aio_job a ty (int p) n cnt) = map (\<lambda>i. p + i) [0..<n]"
  by (simp add: job_blocks_def aio_job_def)

lemma aio_job_fields [simp]:
  "job_tag1 (aio_job a ty p n cnt) = a" "job_req_type (aio_job a ty p n cnt) = ty" "job_iovcnt (aio_job a ty p n cnt) = 1"
  "job_ret (aio_job a ty p n cnt) = 0" "job_buf (aio_job a ty p n cnt) = cnt * 4096"
  by (simp_all add: aio_job_def)

lemma aio_jobs_step:
  assumes "fgetblk fid (start div 4096) (nat (len div 4096)) s = Some (int p, n)" "0 < n" "int n * 4096 \<le> len" "0 < len"
    "aio_jobs a ty fid (start + int n * 4096) (len - int n * 4096) (cnt + int n) s = Some (ok, js)"
  shows "aio_jobs a ty fid start len cnt s = Some (ok, aio_job a ty (int p) n cnt # js)"
  by (subst aio_jobs.simps) (use assms in simp)

lemma aio_jobs_run:
  assumes "file_at s ino" "fid < length (io_ft s)" "ft_ino (io_ft s ! fid) = ino" "0 \<le> b" "(b + int k) * 4096 \<le> isize s ino"
  shows "\<exists>js. aio_jobs a ty fid (b * 4096) (int k * 4096) cnt s = Some (True, js)
    \<and> concat (map job_blocks js) = map (\<lambda>i. bmap (file_map (io_v s) ino) (b + int i)) [0..<k] \<and> jobs_from cnt js
    \<and> length js \<le> k \<and> (0 < k \<longrightarrow> js \<noteq> []) \<and> (\<forall>j\<in>set js. job_tag1 j = a \<and> job_req_type j = ty \<and> job_iovcnt j = 1 \<and> job_ret j = 0)"
  using assms
proof (induction k arbitrary: b cnt rule: less_induct)
  case (less k)
  note a = file_atD [OF less.prems(1)]
  let ?t = "file_map (io_v s) ino"
  show ?case
  proof (cases "k = 0")
    case True
    then show ?thesis by (subst aio_jobs.simps) simp
  next
    case False
    have sz: "b * 4096 < isize s ino" using less.prems(5) False by simp
    then have b: "b < max_lblock" using a(5) unfolding max_size by simp
    have m: "bmap ?t b \<noteq> 0" using a(6) [OF less.prems(4) sz] .
    obtain n where n: "get_block ino b k False ?t = Some (0, n, bmap ?t b, ?t)" "1 \<le> n" "n \<le> k" "\<And>j. j < n \<Longrightarrow> bmap ?t (b + int j) = bmap ?t b + j"
      using get_block_lookup [OF less.prems(4) b m, of k ino False] False by auto
    have g: "fgetblk fid b k s = Some (int (bmap ?t b), n)"
      using less.prems(1,2,3) a(1) n(1) by (simp add: fgetblk_def get_file_table_def file_at_def)
    have "(b + int n + int (k - n)) * 4096 \<le> isize s ino" using less.prems(5) n(3) by (simp add: of_nat_diff)
    then obtain js where js: "aio_jobs a ty fid ((b + int n) * 4096) (int (k - n) * 4096) (cnt + int n) s = Some (True, js)"
      "concat (map job_blocks js) = map (\<lambda>i. bmap ?t (b + int n + int i)) [0..<k - n]" "jobs_from (cnt + int n) js"
      "length js \<le> k - n" "\<forall>j\<in>set js. job_tag1 j = a \<and> job_req_type j = ty \<and> job_iovcnt j = 1 \<and> job_ret j = 0"
      using less.IH [of "k - n" "b + int n" "cnt + int n"] less.prems n(2,3) by auto
    have e: "b * 4096 + int n * 4096 = (b + int n) * 4096" "int k * 4096 - int n * 4096 = int (k - n) * 4096"
      using n(3) by (simp_all add: of_nat_diff algebra_simps)
    have run: "aio_jobs a ty fid (b * 4096) (int k * 4096) cnt s = Some (True, aio_job a ty (int (bmap ?t b)) n cnt # js)"
    proof (rule aio_jobs_step)
      show "fgetblk fid (b * 4096 div 4096) (nat (int k * 4096 div 4096)) s = Some (int (bmap ?t b), n)" using g by simp
      show "aio_jobs a ty fid (b * 4096 + int n * 4096) (int k * 4096 - int n * 4096) (cnt + int n) s = Some (True, js)" unfolding e by (rule js(1))
    qed (use n(2,3) False in simp_all)
    have "map (\<lambda>i. bmap ?t b + i) [0..<n] = map (\<lambda>i. bmap ?t (b + int i)) [0..<n]" using n(4) by simp
    moreover have "map (\<lambda>i. bmap ?t (b + int n + int i)) [0..<k - n] = map (\<lambda>i. bmap ?t (b + int i)) [n..<k]"
      by (rule nth_equalityI) (simp_all add: add.assoc)
    moreover have "[0..<k] = [0..<n] @ [n..<k]" using n(3) by (metis le0 le_add_diff_inverse upt_add_eq_append)
    ultimately have "concat (map job_blocks (aio_job a ty (int (bmap ?t b)) n cnt # js)) = map (\<lambda>i. bmap ?t (b + int i)) [0..<k]" using js(2) by simp
    then show ?thesis using run js n(2,3) by (intro exI [of _ "aio_job a ty (int (bmap ?t b)) n cnt # js"]) (auto simp del: One_nat_def)
  qed
qed

lemma dev_read_run:
  assumes "\<And>p. length (dev p) = 4096" "jobs_from (int c) js" "length done = c * 4096" "length rest = length (concat (map job_blocks js)) * 4096"
  shows "dev_read dev js (done @ rest) = done @ concat (map dev (concat (map job_blocks js)))"
  using assms(2-4)
proof (induction js arbitrary: c "done" rest)
  case Nil
  then show ?case by (simp add: dev_read_def)
next
  case (Cons j js)
  let ?d = "concat (map dev (job_blocks j))"
  have len: "length (concat (map dev ps)) = length ps * 4096" for ps using assms(1) by (induction ps) simp_all
  have p: "patch (done @ rest) (nat (job_buf j)) ?d = (done @ ?d) @ drop (length ?d) rest"
    using Cons.prems(1,2) by (simp add: patch_def nat_mult_distrib)
  have "dev_read dev js ((done @ ?d) @ drop (length ?d) rest) = (done @ ?d) @ concat (map dev (concat (map job_blocks js)))"
    by (rule Cons.IH [of "c + length (job_blocks j)"]) (use Cons.prems len in \<open>simp_all add: algebra_simps\<close>)
  then show ?case using p by (simp add: dev_read_def)
qed

lemma concat_blocks_nth:
  assumes "\<And>i. i < k \<Longrightarrow> length (f i) = n" "j < k * n"
  shows "concat (map f [0..<k]) ! j = f (j div n) ! (j mod n)"
  using assms
proof (induction k)
  case (Suc k)
  have "map (\<lambda>i. length (f i)) [0..<k] = map (\<lambda>_. n) [0..<k]" using Suc.prems(1) by simp
  then have "sum_list (map (\<lambda>i. length (f i)) [0..<k]) = k * n" by (simp only: sum_list_triv length_upt) simp
  then have len: "length (concat (map f [0..<k])) = k * n" by (simp add: length_concat comp_def)
  show ?case
  proof (cases "j < k * n")
    case True
    then show ?thesis using Suc len by (simp add: nth_append)
  next
    case False
    then have "j div n = k" using Suc.prems(2) by (intro div_nat_eqI) (simp_all add: mult.commute)
    moreover from this have "j mod n = j - k * n" by (simp add: modulo_nat_def mult.commute)
    ultimately show ?thesis using False len by (simp add: nth_append)
  qed
qed simp

lemma file_blocks_bytes:
  assumes "file_at s ino" "0 \<le> b" "(b + int k) * 4096 \<le> isize s ino"
  shows "concat (map (\<lambda>i. io_blk s (bmap (file_map (io_v s) ino) (b + int i))) [0..<k]) = take (k * 4096) (drop (nat b * 4096) (file_bytes s ino))"
proof (rule nth_equalityI)
  note f = file_atD [OF assms(1)]
  have l: "length (concat (map (\<lambda>i. io_blk s (bmap (file_map (io_v s) ino) (b + int i))) [0..<k])) = k * 4096"
    using f(7) by (simp add: length_concat comp_def sum_list_triv)
  moreover have "k * 4096 \<le> length (file_bytes s ino) - nat b * 4096" using assms(2,3) by (simp add: length_file_bytes nat_mult_distrib)
  ultimately show "length (concat (map (\<lambda>i. io_blk s (bmap (file_map (io_v s) ino) (b + int i))) [0..<k])) = length (take (k * 4096) (drop (nat b * 4096) (file_bytes s ino)))" by simp
  fix j
  assume "j < length (concat (map (\<lambda>i. io_blk s (bmap (file_map (io_v s) ino) (b + int i))) [0..<k]))"
  then have j: "j < k * 4096" using l by simp
  have "int (nat b * 4096 + j) = b * 4096 + int j" using assms(2) by simp
  then have "int (nat b * 4096 + j) div 4096 = b + int (j div 4096)" "int (nat b * 4096 + j) mod 4096 = int (j mod 4096)" by (simp_all add: zdiv_int zmod_int)
  moreover have "nat b * 4096 + j < nat (isize s ino)" using j assms(2,3) by simp
  ultimately show "concat (map (\<lambda>i. io_blk s (bmap (file_map (io_v s) ino) (b + int i))) [0..<k]) ! j = take (k * 4096) (drop (nat b * 4096) (file_bytes s ino)) ! j"
    using j concat_blocks_nth [of k "\<lambda>i. io_blk s (bmap (file_map (io_v s) ino) (b + int i))" 4096 j] f(7)
    by (simp add: file_bytes_def file_byte_def)
qed

section \<open>From the submission to the event\<close>

lemma job_done_ok:
  assumes "job_tag1 j = a" "job_ret j = 0" "is_directio (a_fid (aq_req q a)) s"
  shows "job_done s j q = (let q1 = upd_req a (\<lambda>r. r\<lparr>a_jobs := a_jobs r - 1\<rparr>) q in
    Some (if a_jobs (aq_req q a) = 1 then aio_gen_dev_cpls a q1 else q1))"
  using assms by (simp add: job_done_def Let_def)

lemma jobs_done_run:
  assumes "js \<noteq> []" "\<forall>j\<in>set js. job_tag1 j = a \<and> job_ret j = 0" "a_jobs (aq_req q a) = int (length js)" "is_directio (a_fid (aq_req q a)) s"
  shows "jobs_done s (map Some js) q = Some (aio_gen_dev_cpls a (upd_req a (\<lambda>r. r\<lparr>a_jobs := 0\<rparr>) q))"
  using assms
proof (induction js arbitrary: q)
  case (Cons j js)
  show ?case
  proof (cases "js = []")
    case True
    then show ?thesis using Cons.prems job_done_ok [of j a q s] by (simp add: Let_def fun_upd_def)
  next
    case False
    define q1 where "q1 = upd_req a (\<lambda>r. r\<lparr>a_jobs := a_jobs r - 1\<rparr>) q"
    have "job_done s j q = Some q1" using Cons.prems False job_done_ok [of j a q s] by (simp add: Let_def q1_def)
    moreover have "jobs_done s (map Some js) q1 = Some (aio_gen_dev_cpls a (upd_req a (\<lambda>r. r\<lparr>a_jobs := 0\<rparr>) q1))"
      by (rule Cons.IH) (use Cons.prems False in \<open>simp_all add: q1_def\<close>)
    moreover have "upd_req a (\<lambda>r. r\<lparr>a_jobs := 0\<rparr>) q1 = upd_req a (\<lambda>r. r\<lparr>a_jobs := 0\<rparr>) q" by (simp add: q1_def)
    ultimately show ?thesis by (simp add: fun_upd_def)
  qed
qed simp

text \<open>A request from its submission to its event, with a core that hands the jobs to the
  device and a device that accepts and completes all of them.  The jobs that the device
  got, the events and the queue afterwards.\<close>

definition serve :: "io_target \<Rightarrow> nat \<Rightarrow> aio_queue \<Rightarrow> fio \<Rightarrow> (io_job list \<times> nat list \<times> aio_queue) option" where
  "serve target a q s = do {
     (r, q1, s1) \<leftarrow> aio_queue_submission a q s;
     assert_opt (r = 0);
     t1 \<leftarrow> aq_task q1;
     (t2, js) \<leftarrow> reactor_submit_on_core (\<lambda>_. True) t1 [];
     (target', t3) \<leftarrow> complete_all (\<lambda>_. True) target t2 js;
     (ev, q2) \<leftarrow> io_getevents (length js) (length js) (q1\<lparr>aq_task := Some t3\<rparr>) s1;
     Some (js, ev, q2) }"

definition aio_idle :: "aio_queue \<Rightarrow> reactor_task \<Rightarrow> bool" where
  "aio_idle q t \<longleftrightarrow> asq q = [] \<and> asq_cur_depth q = 0 \<and> 0 < asq_max_depth q \<and> acq q = [] \<and> acq_cur_depth q = 0 \<and> 0 < acq_max_depth q
     \<and> aq_task q = Some t \<and> task_ok t \<and> sq_list t = [] \<and> cq_list t = []"

lemma submission_run:
  assumes s: "file_at s ino" "fid < length (io_ft s)" "ft_ino (io_ft s ! fid) = ino" "is_directio fid s" "aq_req q a = r"
    and r: "a_fid r = fid" "a_opcode r = READ" "a_offset r = b * 4096" "a_bytes r = int k * 4096"
    and k: "0 \<le> b" "(b + int k) * 4096 \<le> isize s ino" "0 < k" "k \<le> 512" "k \<le> qdepth t - 1" "int k \<le> aq_pool q"
    and q: "aio_idle q t"
  shows "\<exists>js t1 q1 s1. aio_queue_submission a q s = Some (0, q1, s1) \<and> aq_task q1 = Some t1 \<and> task_ok t1 \<and> sq_list t1 = js \<and> cq_list t1 = []
    \<and> qdepth t1 = qdepth t \<and> concat (map job_blocks js) = map (\<lambda>i. bmap (file_map (io_v s) ino) (b + int i)) [0..<k] \<and> jobs_from 0 js
    \<and> length js \<le> k \<and> js \<noteq> [] \<and> (\<forall>j\<in>set js. job_tag1 j = a \<and> job_req_type j = IO_READ \<and> job_iovcnt j = 1 \<and> job_ret j = 0)
    \<and> aio_idle (q1\<lparr>aq_task := aq_task q\<rparr>) t \<and> aq_req q1 a = r\<lparr>a_status := NVFUSE_SUBMISSION_QUEUE, a_jobs := int (length js)\<rparr>
    \<and> total_bio_job_count q1 = total_bio_job_count q + int (length js) \<and> aq_pool q1 = aq_pool q - int (length js) \<and> is_directio fid s1"
proof -
  note f = file_atD [OF s(1)]
  define s1 where "s1 = put_ft fid ((io_ft s ! fid)\<lparr>ft_rwoffset := b * 4096 + int k * 4096, ft_size := max (b * 4096 + int k * 4096) (ft_size (io_ft s ! fid))\<rparr>) s"
  have rd: "readfile_directio_core fid (int k * 4096) (b * 4096) s = Some (int k * 4096, s1)"
    using s(2,3) f(1) k(2) by (simp add: readfile_directio_core_def get_file_table_def s1_def isize_def algebra_simps)
  have s1: "file_at s1 ino" "fid < length (io_ft s1)" "ft_ino (io_ft s1 ! fid) = ino" "isize s1 ino = isize s ino" "io_v s1 = io_v s" "is_directio fid s1"
    using s by (simp_all add: s1_def put_ft_def is_directio_def get_file_table_def file_at_def isize_def)
  obtain js where js: "aio_jobs a IO_READ fid (b * 4096) (int k * 4096) 0 s1 = Some (True, js)"
    "concat (map job_blocks js) = map (\<lambda>i. bmap (file_map (io_v s) ino) (b + int i)) [0..<k]" "jobs_from 0 js" "length js \<le> k" "js \<noteq> []"
    "\<forall>j\<in>set js. job_tag1 j = a \<and> job_req_type j = IO_READ \<and> job_iovcnt j = 1 \<and> job_ret j = 0"
    using aio_jobs_run [OF s1(1-3) k(1), of k a IO_READ 0] k(2,3) s1(4,5) by auto
  have t: "aq_task q = Some t" "task_ok t" "sq_list t = []" "cq_list t = []" using q by (simp_all add: aio_idle_def)
  obtain t1 where t1: "reactor_submit_reqs 0 t js = Some (0, t1)" "task_ok t1" "sq_list t1 = js" "cq_list t1 = []" "qdepth t1 = qdepth t"
    using submit_reqs_spec [OF t(2), of js] t(3,4) js(4) k(5) by auto
  define qe where "qe = snd (aio_queue_enqueue a NVFUSE_SUBMISSION_QUEUE q)"
  have qe: "qe = q\<lparr>aq_req := (aq_req q)(a := r\<lparr>a_status := NVFUSE_SUBMISSION_QUEUE\<rparr>), asq := [a], asq_cur_depth := 1\<rparr>"
    using q s(5) by (simp add: qe_def aio_queue_enqueue_def aio_idle_def Let_def)
  define q1 where "q1 = q\<lparr>aq_req := (aq_req q)(a := r\<lparr>a_status := NVFUSE_SUBMISSION_QUEUE, a_jobs := int (length js)\<rparr>), asq := [], asq_cur_depth := 0,
    aq_task := Some t1, aq_pool := aq_pool q - int (length js), total_bio_job_count := total_bio_job_count q + int (length js)\<rparr>"
  have g: "aio_gen_dev_reqs a (upd_req a (\<lambda>r. r\<lparr>a_jobs := a_bytes r div 4096\<rparr>) qe) s1 = Some (0, q1\<lparr>asq := [a], asq_cur_depth := 1\<rparr>)"
    using js(1,4) t1(1) t(1) k(3,4,6) r by (simp add: aio_gen_dev_reqs_def qe Let_def AIO_MAX_QDEPTH_def q1_def)
  have "submit_list (asq qe) qe s1 = Some (0, q1)" using g s1(6) r(1) by (simp add: qe aio_queue_dequeue_def q1_def)
  then have "aio_queue_submission a q s = Some (0, q1, s1)"
    using s(4,5) r rd by (simp add: aio_queue_submission_def Let_def qe_def [symmetric])
  then show ?thesis using js t1 s1(6) q by (intro exI [of _ js] exI [of _ t1] exI [of _ q1] exI [of _ s1]) (simp add: q1_def aio_idle_def)
qed

lemma getevents_run:
  assumes q: "aio_idle (q\<lparr>aq_task := Some t\<rparr>) t" and t3: "aq_task q = Some t3" "task_ok t3" "cq_list t3 = js" "length js \<le> qdepth t3"
    and js: "js \<noteq> []" "length js \<le> 512" "\<forall>j\<in>set js. job_tag1 j = a \<and> job_ret j = 0"
    and a: "a_jobs (aq_req q a) = int (length js)" "is_directio (a_fid (aq_req q a)) s"
  shows "\<exists>q2. io_getevents (length js) (length js) q s = Some ([a], q2) \<and> acq q2 = [] \<and> asq q2 = [] \<and> acq_cur_depth q2 = 0 \<and> a_jobs (aq_req q2 a) = 0
    \<and> a_error (aq_req q2 a) = a_error (aq_req q a) \<and> total_bio_job_count q2 = total_bio_job_count q - int (length js)
    \<and> aq_pool q2 = aq_pool q + int (length js)"
proof -
  obtain t4 where t4: "reactor_cq_get_reqs t3 (length js) (length js) = CqGot (map Some js) t4"
    using cq_get_reqs_spec [OF t3(2), of "length js" "length js"] t3(3,4) js(1) by auto
  define q0 where "q0 = q\<lparr>aq_task := Some t4, total_bio_job_count := total_bio_job_count q - int (length js)\<rparr>"
  have d: "jobs_done s (map Some js) q0 = Some (aio_gen_dev_cpls a (upd_req a (\<lambda>r. r\<lparr>a_jobs := 0\<rparr>) q0))"
    by (rule jobs_done_run) (use js a in \<open>simp_all add: q0_def\<close>)
  have e: "aio_gen_dev_cpls a (upd_req a (\<lambda>r. r\<lparr>a_jobs := 0\<rparr>) q0)
    = q0\<lparr>aq_req := (aq_req q0)(a := (aq_req q0 a)\<lparr>a_jobs := 0, a_status := NVFUSE_COMPLETION_QUEUE\<rparr>), acq := [a], acq_cur_depth := 1\<rparr>"
    using q by (simp add: aio_gen_dev_cpls_def aio_queue_enqueue_def Let_def aio_idle_def q0_def NVFUSE_COMPLETION_QUEUE_def NVFUSE_SUBMISSION_QUEUE_def)
  have w: "aio_wait_dev_cpls (length js) (length js) q s = Some (int (length js),
    q0\<lparr>aq_req := (aq_req q0)(a := (aq_req q0 a)\<lparr>a_jobs := 0, a_status := NVFUSE_COMPLETION_QUEUE\<rparr>), acq := [a], acq_cur_depth := 1, aq_pool := aq_pool q + int (length js)\<rparr>)"
    using t4 t3(1) js(2) d e by (simp add: aio_wait_dev_cpls_def q0_def [symmetric] AIO_MAX_QDEPTH_def) (simp add: q0_def)
  show ?thesis using w q
    by (simp add: io_getevents_def aio_queue_dequeue_def NVFUSE_COMPLETION_QUEUE_def NVFUSE_SUBMISSION_QUEUE_def q0_def aio_idle_def)
qed

section \<open>Properties\<close>

text \<open>C14: an asynchronous direct read returns the contents of the file.  A request for whole
  blocks within a file, on an idle queue with enough jobs and depth, is split into jobs for
  runs of contiguous blocks; a device that executes them fills the buffer with exactly the
  requested bytes of the file, as they are on the device; when all jobs are completed,
  \<open>nvfuse_io_getevents\<close> returns the request once, without an error of its own, and every job
  is back in the pool.\<close>

theorem aio_read_correct:
  assumes "file_at s ino" "fid < length (io_ft s)" "ft_ino (io_ft s ! fid) = ino" "is_directio fid s"
    and "a_fid (aq_req q a) = fid" "a_opcode (aq_req q a) = READ" "a_offset (aq_req q a) = b * 4096" "a_bytes (aq_req q a) = int k * 4096"
    and "0 \<le> b" "(b + int k) * 4096 \<le> isize s ino" "0 < k" "k \<le> 512" "k \<le> qdepth t - 1" "int k \<le> aq_pool q"
    and "aio_idle q t" "io_dev s = io_blk s" "length buf = k * 4096"
  shows "\<exists>js q2. serve target a q s = Some (js, [a], q2) \<and> dev_read (io_dev s) js buf = take (k * 4096) (drop (nat b * 4096) (file_bytes s ino))
    \<and> acq q2 = [] \<and> asq q2 = [] \<and> a_jobs (aq_req q2 a) = 0 \<and> a_error (aq_req q2 a) = a_error (aq_req q a)
    \<and> total_bio_job_count q2 = total_bio_job_count q \<and> aq_pool q2 = aq_pool q"
proof -
  note f = file_atD [OF assms(1)]
  let ?t = "file_map (io_v s) ino"
  obtain js t1 q1 s1 where sub: "aio_queue_submission a q s = Some (0, q1, s1)" "aq_task q1 = Some t1" "task_ok t1" "sq_list t1 = js" "cq_list t1 = []"
    "qdepth t1 = qdepth t" "concat (map job_blocks js) = map (\<lambda>i. bmap ?t (b + int i)) [0..<k]" "jobs_from 0 js" "length js \<le> k" "js \<noteq> []"
    "\<forall>j\<in>set js. job_tag1 j = a \<and> job_req_type j = IO_READ \<and> job_iovcnt j = 1 \<and> job_ret j = 0" "aio_idle (q1\<lparr>aq_task := aq_task q\<rparr>) t"
    "aq_req q1 a = (aq_req q a)\<lparr>a_status := NVFUSE_SUBMISSION_QUEUE, a_jobs := int (length js)\<rparr>"
    "total_bio_job_count q1 = total_bio_job_count q + int (length js)" "aq_pool q1 = aq_pool q - int (length js)" "is_directio fid s1"
    using submission_run [OF assms(1-4) refl assms(5-15)] by blast
  obtain t2 where t2: "reactor_submit_on_core (\<lambda>_. True) t1 [] = Some (t2, js)" "task_ok t2" "cq_list t2 = []" "qdepth t2 = qdepth t"
    using submit_on_core_spec [OF sub(3), of "\<lambda>_. True" "[]"] sub(4,5,6,11) by (auto simp: dev_submit_def)
  obtain target' t3 where t3: "complete_all (\<lambda>_. True) target t2 js = Some (target', t3)" "task_ok t3" "cq_list t3 = map (\<lambda>r. r\<lparr>job_ret := 0\<rparr>) js" "qdepth t3 = qdepth t"
    using complete_all_spec [OF t2(2), of js "\<lambda>_. True" target] t2(3,4) sub(9) assms(13) by auto
  have "map (\<lambda>r. r\<lparr>job_ret := 0\<rparr>) js = map id js" using sub(11) by (intro map_cong) auto
  then have c3: "cq_list t3 = js" using t3(3) by simp
  have ql: "length js \<le> qdepth t3" "length js \<le> 512" using t3(4) sub(9) assms(12,13) by simp_all
  have idle: "aio_idle (q1\<lparr>aq_task := Some t3, aq_task := Some t\<rparr>) t" using sub(12) assms(15) by (simp add: aio_idle_def)
  have "\<exists>q2. io_getevents (length js) (length js) (q1\<lparr>aq_task := Some t3\<rparr>) s1 = Some ([a], q2) \<and> acq q2 = [] \<and> asq q2 = [] \<and> acq_cur_depth q2 = 0
    \<and> a_jobs (aq_req q2 a) = 0 \<and> a_error (aq_req q2 a) = a_error (aq_req (q1\<lparr>aq_task := Some t3\<rparr>) a)
    \<and> total_bio_job_count q2 = total_bio_job_count (q1\<lparr>aq_task := Some t3\<rparr>) - int (length js) \<and> aq_pool q2 = aq_pool (q1\<lparr>aq_task := Some t3\<rparr>) + int (length js)"
    by (rule getevents_run [OF idle _ t3(2) c3 ql(1) sub(10) ql(2)]) (use sub(11,13,16) assms(5) in auto)
  then obtain q2 where q2: "io_getevents (length js) (length js) (q1\<lparr>aq_task := Some t3\<rparr>) s1 = Some ([a], q2)" "acq q2 = []" "asq q2 = []"
    "a_jobs (aq_req q2 a) = 0" "a_error (aq_req q2 a) = a_error (aq_req q a)" "total_bio_job_count q2 = total_bio_job_count q" "aq_pool q2 = aq_pool q"
    using sub(13-15) by auto
  have run: "serve target a q s = Some (js, [a], q2)" using sub(1,2) t2(1) t3(1) q2(1) by (simp add: serve_def)
  have len: "length (io_dev s p) = 4096" for p using f(7) assms(16) by simp
  have "dev_read (io_dev s) js ([] @ buf) = [] @ concat (map (io_dev s) (concat (map job_blocks js)))"
    by (rule dev_read_run [where c = 0]) (use len sub(7,8) assms(17) in simp_all)
  moreover have "concat (map (io_dev s) (concat (map job_blocks js))) = take (k * 4096) (drop (nat b * 4096) (file_bytes s ino))"
    using file_blocks_bytes [OF assms(1,9,10)] by (simp add: sub(7) assms(16) comp_def)
  ultimately show ?thesis using run q2 by (intro exI [of _ js] exI [of _ q2]) simp
qed

theorem aio_read_correct_witness:
  "\<exists>s js q2. serve \<lparr>io_completed = 0, current_queue_depth = 0\<rparr> 0
      (aio_queue_init (\<lambda>_. \<lparr>a_fid = 3, a_opcode = READ, a_offset = 0, a_bytes = 4096, a_error = 0, a_status = 0, a_jobs = 0\<rparr>) 512 blank_task 4) s
      = Some (js, [0], q2) \<and> dev_read (io_dev s) js (replicate 4096 0) = replicate 4096 1"
proof -
  let ?q = "aio_queue_init (\<lambda>_. \<lparr>a_fid = 3, a_opcode = READ, a_offset = 0, a_bytes = 4096, a_error = 0, a_status = 0, a_jobs = 0\<rparr>) 512 blank_task 4"
  let ?d = "replicate 4096 (1 :: u8)"
  obtain v ino s1 where s1: "file_at s1 ino" "file_bytes s1 ino = ?d" "isize s1 ino = int (length ?d)" "4 < length (io_ft s1)" "ft_ino (io_ft s1 ! 3) = ino"
    using two_open_write [of ?d] by auto
  define s where "s = put_ft 3 ((io_ft s1 ! 3)\<lparr>ft_flags := O_DIRECT\<rparr>) (sync_all s1)"
  have s: "file_at s ino" "file_bytes s ino = ?d" "isize s ino = 4096" "3 < length (io_ft s)" "ft_ino (io_ft s ! 3) = ino" "is_directio 3 s" "io_dev s = io_blk s"
    using s1 by (simp_all add: s_def put_ft_def sync_all_def is_directio_def get_file_table_def O_DIRECT_def file_at_def isize_def file_bytes_def file_byte_def)
  obtain t where t: "reactor_alloc_task blank_task 8 = Some t" by (simp add: reactor_alloc_task_def REACTOR_MAX_REQUEST_def)
  note ok = alloc_task_ok [OF t]
  have idle: "aio_idle ?q t" "qdepth t = 9"
    using ok t by (simp_all add: aio_idle_def aio_queue_init_def NVFUSE_MAX_AIO_DEPTH_def blank_task_def REACTOR_MAX_REQUEST_def)
  have q: "aq_req ?q 0 = \<lparr>a_fid = 3, a_opcode = READ, a_offset = 0, a_bytes = 4096, a_error = 0, a_status = 0, a_jobs = 0\<rparr>" "aq_pool ?q = 512"
    by (simp_all add: aio_queue_init_def Let_def)
  have "\<exists>js q2. serve \<lparr>io_completed = 0, current_queue_depth = 0\<rparr> 0 ?q s = Some (js, [0], q2)
    \<and> dev_read (io_dev s) js (replicate 4096 0) = take (1 * 4096) (drop (nat 0 * 4096) (file_bytes s ino))
    \<and> acq q2 = [] \<and> asq q2 = [] \<and> a_jobs (aq_req q2 0) = 0 \<and> a_error (aq_req q2 0) = a_error (aq_req ?q 0)
    \<and> total_bio_job_count q2 = total_bio_job_count ?q \<and> aq_pool q2 = aq_pool ?q"
    by (rule aio_read_correct [OF s(1,4,5,6), of ?q 0 0 1 t]) (use s q idle in simp_all)
  then obtain js q2 where "serve \<lparr>io_completed = 0, current_queue_depth = 0\<rparr> 0 ?q s = Some (js, [0], q2)"
    "dev_read (io_dev s) js (replicate 4096 0) = take (1 * 4096) (drop (nat 0 * 4096) (file_bytes s ino))" by blast
  moreover have "take (1 * 4096) (drop (nat 0 * 4096) (file_bytes s ino)) = ?d" using s(2) by simp
  ultimately show ?thesis by metis
qed

text \<open>An empty queue polls forever.  \<open>nvfuse_aio_queue_completion\<close> repeats until a completion
  is queued; without a job in flight \<open>reactor_cq_get_reqs\<close> refuses to wait for 0 requests and
  returns at once, so the call does not return.\<close>

theorem empty_queue_polls_forever:
  assumes "aq_task q \<noteq> None" "total_bio_job_count q = 0" "acq_cur_depth q < max_completions q"
  shows "aio_queue_completion cb q s = None"
proof -
  obtain task where t: "aq_task q = Some task" using assms(1) by blast
  have w: "aio_wait_dev_cpls 0 0 q s = Some (0, q)" using t by (simp add: aio_wait_dev_cpls_def reactor_cq_get_reqs_def)
  have "\<not> (x = q \<and> y = s)" if "completion_poll x y = Some r" for x y r
    using that by (rule completion_poll.raw_induct [of "\<lambda>x y r. \<not> (x = q \<and> y = s)", rotated]) 
      (use assms w in \<open>fastforce split: if_splits option.splits\<close>)
  then have "completion_poll q s = None" by (cases "completion_poll q s") auto
  then show ?thesis by (simp add: aio_queue_completion_def)
qed

theorem empty_queue_polls_forever_witness:
  "\<forall>s. aio_queue_completion (\<lambda>_ q. q)
     (aio_queue_init (\<lambda>_. \<lparr>a_fid = 3, a_opcode = READ, a_offset = 0, a_bytes = 4096, a_error = 0, a_status = 0, a_jobs = 0\<rparr>) 512 blank_task 4) s = None"
  by (intro allI empty_queue_polls_forever)
    (simp_all add: aio_queue_init_def Let_def NVFUSE_MAX_AIO_DEPTH_def NVFUSE_MAX_AIO_COMPLETION_def reactor_alloc_task_def REACTOR_MAX_REQUEST_def)

end
