(* ===== verification/Spec2Isabelle.thy ===== *)
theory Spec2Isabelle
  imports Bitmap Reactor ControlPlane Ipc Layout Mkfs Alloc Indirect BufferCache CacheShrink CacheLinks FlushWork TimeStat RbOrder RbIndex Mount DataPlane Truncate Xattr NewDir Path InodeCache Aio
begin

text \<open>
  This development verifies nvfuse, a file system library in user space over SPDK.  An
  application links the library; a format program writes an empty file system, a mount
  loads its descriptors, and the calls of \<open>nvfuse_api.c\<close> resolve paths, create, find, link and
  remove names, read and write files, which use the inode and block allocator, the block map of a file, the index of a
  directory (a B+ tree in a file of its own) and the buffer cache; blocks reach the device
  through request queues (the reactor).  A control-plane process hands block groups
  (containers) to several applications and talks to them by messages.  The configuration
  is the one of the repository: clusters of 4096 bytes, the standalone process model
  (except for the control plane), indexed directories, delayed creation of the first
  block and of the index of a directory, CRC-32C name hashes.

  \<^bold>\<open>Conventions.\<close>  A structure is a record, an enumeration a datatype, an operation a
  function of the state that returns the new state.  \<open>None\<close> is a failed assertion, an
  access outside of an array, or a loop that does not end; error codes are the returned
  integers of the source.  32-bit counters whose wrap-around can matter use \<open>u32_add\<close> and
  \<open>u32_sub\<close>, bit operations are on words, block and inode numbers are natural numbers.
  Loops over a range are folds or recursion on the number of rounds; a loop without such a
  bound is a \<open>partial_function\<close>, and that it returns (or does not) is proved.

  \<^bold>\<open>Theories.\<close>  In the order of their imports:

  \<^item> \<open>Prelude\<close>: assertions, unsigned arithmetic, cyclic searches, counting.
  \<^item> \<open>Bitmap\<close> (\<open>nvfuse_dep.c\<close>): the bit operations on byte arrays; the locale
    \<open>bit_store\<close> of what the allocators use of them, interpreted on these operations.
  \<^item> \<open>Layout\<close> (\<open>include/nvfuse_core.h\<close>, \<open>nvfuse_core.c\<close>): structures on the device, the
    regions of a block group, the blocks of the metadata inodes (they do not overlap).
  \<^item> \<open>Mkfs\<close> (\<open>nvfuse_mkfs.c\<close>): the format, and that it leaves a consistent file system.
  \<^item> \<open>Alloc\<close> (\<open>nvfuse_core.c\<close>): bitmaps, group and superblock counters; allocation and
    release of inodes and blocks keep \<open>alloc_inv\<close>, mark exactly what they return and undo
    each other; where they stop or run off the group table.
  \<^item> \<open>Indirect\<close> and \<open>Truncate\<close> (\<open>nvfuse_indirect.c\<close>, \<open>nvfuse_free_inode_size\<close>): the path
    of a logical block, lookup and allocation of branches, truncation.  \<open>tree_inv\<close> says that
    the pointers of a file form a tree of used data blocks, none of them shared.
  \<^item> \<open>BufferCache\<close> (\<open>nvfuse_buffer_cache.c\<close>, flush of \<open>nvfuse_core.c\<close>): lists and hash
    chains of buffers, replacement, release and flush; with at least 2048 buffers it
    refines an array of blocks (locale \<open>block_store\<close>).  \<open>CacheShrink\<close>: the return of
    unused buffers and the release of the cache at unmount, with the count of all buffers.
    \<open>FlushWork\<close> (\<open>nvfuse_flushwork.c\<close>): the thread that flushes in the background, as steps of
    worker and application; when a wake-up is lost and when the stop never ends.
  \<^item> \<open>ListHead\<close> and \<open>HashList\<close> (\<open>include/list.h\<close>): circular lists and hash chains as links in
    memory, one function for each macro and inline function.  The locale \<open>entry_lists\<close> says
    what their users rely on (insertion and deletion of entries in a family of disjoint
    lists); it is interpreted on both.  \<open>CacheLinks\<close> runs the pointer code of the buffer cache
    (lookup, move between lists, replacement, release) and proves that it refines the lists
    and chains of \<open>BufferCache\<close>.
  \<^item> \<open>RbTree\<close>, \<open>RbErase\<close>, \<open>RbOrder\<close>, \<open>RbIndex\<close> (\<open>rbtree.c\<close>, \<open>include/rbtree.h\<close>, \<open>nvfuse_buffer_cache.c\<close>):
    red-black trees as links in memory.  \<open>focus\<close> sees the memory as a subtree and the path to
    the root, along which the loops of insertion and removal restore the balance; first, next
    and exchange of nodes; the locale \<open>keyed_nodes\<close> is the contract of the index of dirty
    buffers, interpreted on the tree.
  \<^item> \<open>TimeStat\<close> (\<open>nvfuse_gettimeofday.c\<close> and others): sums and differences of time values.
  \<^item> \<open>Mount\<close> (\<open>nvfuse_core.c\<close>): superblock scan, descriptor loading, block group list, file
    table, states of a device.
  \<^item> \<open>BpNode\<close>, \<open>BpAlloc\<close>, \<open>BpTree\<close> (\<open>nvfuse_bp_tree.c\<close>): arrays of a node, node bitmap,
    descent, insertion with splits, update, removal.  \<open>BpMap\<close> gives the tree a meaning as a
    finite map; the locale \<open>key_index\<close> of \<open>KeyIndex\<close> is the contract its clients use, and
    \<open>BpMap\<close> and \<open>FlatIndex\<close> interpret it on the operations of the tree (the second for
    trees of one leaf, where removal needs no redistribution).
  \<^item> \<open>DirHash\<close> (\<open>nvfuse_dirhash.c\<close>): CRC-32C and the hashes of ext2.
  \<^item> \<open>DirIndex\<close> (\<open>nvfuse_core.c\<close>): set, get and delete of a name in the index of a
    directory, with the two-bit counter of names that share a hash.
  \<^item> \<open>Directory\<close> and \<open>NameSpace\<close> (\<open>nvfuse_api.c\<close>, \<open>nvfuse_core.c\<close>): lookup, creation and
    removal of files and directories, links, renaming.  \<open>dir_ok\<close> ties the counters, the
    entries, the index and the block map of a directory together, \<open>dir_map\<close> is the
    directory as a map from names to inode numbers.  Creation, lookup and removal are
    proved to be update, application and deletion of this map, for directories of at most
    320 entries (ten direct blocks, an index of one leaf) and names with different hashes.
    \<open>NewDir\<close>: a new directory, which has neither block nor index, and the first name in it,
    which makes both.
  \<^item> \<open>FileIo\<close> (\<open>nvfuse_api.c\<close>, \<open>nvfuse_core.c\<close>): open files, reads and writes, truncation,
    preallocation, synchronisation, symbolic links.  \<open>file_bytes\<close> is the contents of a file as
    a list of bytes, which writes patch and reads cut out; where the code loses data, shows
    bytes behind the end or does not reach the device.
  \<^item> \<open>Path\<close> (\<open>nvfuse_dep.c\<close>, \<open>nvfuse_core.c\<close>, \<open>nvfuse_api.c\<close>): directory part and last name of
    a path, the walk along the names, the calls that take a path, directory listing,
    attributes.  The walk follows the maps \<open>dir_map\<close> of the directories.
  \<^item> \<open>InodeCache\<close> (\<open>nvfuse_inode_cache.c\<close>): contexts of inodes, their lists, hash chains
    and locks.  Every state reached by reads, creations and releases satisfies \<open>ic_inv\<close>: the contexts held
    are locked and of different inodes; when a read returns and when it waits forever.
  \<^item> \<open>Xattr\<close> (\<open>nvfuse_xattr.c\<close>): extended attributes refine an association list.
  \<^item> \<open>Reactor\<close> (\<open>nvfuse_reactor.c\<close>): submission and completion rings refine bounded
    queues (locale \<open>bounded_fifo\<close>), and no request is lost or duplicated.
  \<^item> \<open>Aio\<close> (\<open>nvfuse_aio.c\<close>): asynchronous direct transfers on top of \<open>FileIo\<close> and \<open>Reactor\<close>:
    the jobs of a request cover its range, and a read delivers the bytes of the file.
  \<^item> \<open>ControlPlane\<close> and \<open>Ipc\<close> (\<open>nvfuse_control_plane.c\<close>, \<open>nvfuse_ipc_ring.c\<close>): tables of
    applications and containers, reservations, quotas, log files, request handlers.
  \<^item> \<open>DataPlane\<close> (\<open>nvfuse_core.c\<close>): the block groups a data-plane process gets from and
    gives back to the control plane, and the system of all processes as a step relation
    (\<open>sys_step\<close>): no two processes ever have a group in common.

  \<^bold>\<open>Fuel and bounds.\<close>  \<open>dbitmap_loop\<close> gets one round for each block of a group and every
  round advances the counter that ends the loop; \<open>find_inode_loop\<close> gets one round for
  each group and stops when it is back at the first; the flush gets as many rounds as
  there are dirty buffers, and each round cleans at least one; the descent of a tree is
  bounded by the 128 entries of its stack, of which fewer than 15 are used.

  \<^bold>\<open>Not modelled.\<close>  The device drivers and transfers (\<open>nvfuse_spdk.c\<close> and the other I/O
  managers) are calls into SPDK and the kernel; the reactor takes the answers of the device
  as a parameter.  Operations run one after the other: locks are part of the state in
  \<open>InodeCache\<close> only, where waiting for a lock that is held never ends; \<open>Directory\<close> and
  \<open>FileIo\<close> read and write inodes in the table, which the cache presents.  Option
  parsing, statistics and time stamps are not modelled, nor are the functions of the clock
  that compute with floating-point numbers.  The rings and pools of DPDK, by which processes
  get their channel, are not modelled.  The lists of dirty
  buffers of an inode, beside their index, are not tracked in the configuration
  (\<open>NVFUSE_KEEP_DIRTY_BH_IN_ICTX\<close> is off).  Example programs, tests and print functions have
  no logic of their own.
\<close>

end
